(* ===== verification/Tars_Prelude.thy ===== *)
theory Tars_Prelude
  imports Main "HOL-Library.Word" "HOL-Library.List_Lexorder"
begin

text \<open>
  Shared vocabulary of the development: bytes and 64-bit sizes, the outcome of a C++ call
  (a value, a thrown exception, a failed assertion, undefined behaviour, or no answer within
  the fuel), the state-passing actions every stream operation is written in, and the generic
  facts on lists and actions the components share.
\<close>

section \<open>Collections of facts\<close>

named_theorems act_simps \<open>how the action combinators compute\<close>
named_theorems stream_simps \<open>what a stream operation does at a known position\<close>
named_theorems keeps_intros \<open>actions that keep a predicate\<close>
named_theorems write_simps \<open>what a writer operation appends\<close>

section \<open>Bytes and sizes\<close>

type_synonym byte = "8 word"
type_synonym bytes = "byte list"

text \<open>The bound of \<open>size_t\<close> on the x86-64 targets the repository builds for.\<close>

abbreviation size_max :: nat where
  "size_max \<equiv> 18446744073709551616"

definition size_add :: "nat \<Rightarrow> nat \<Rightarrow> nat" where
  "size_add a b = (a + b) mod size_max"

definition size_sub :: "nat \<Rightarrow> nat \<Rightarrow> nat" where
  "size_sub a b = nat ((int a - int b) mod int size_max)"

lemma size_add_small [simp]: "a + b < size_max \<Longrightarrow> size_add a b = a + b"
  by (simp add: size_add_def)

lemma size_sub_le [simp]: "b \<le> a \<Longrightarrow> a < size_max \<Longrightarrow> size_sub a b = a - b"
  unfolding size_sub_def by (subst mod_pos_pos_trivial) auto

section \<open>Outcomes of a call\<close>

text \<open>
  The exceptions of \<^verbatim>\<open>src/tup/Tars.h\<close>, by their class, and the \<open>std::runtime_error\<close>s the
  callers raise themselves, and those of \<^verbatim>\<open>src/servant/servant/Global.h\<close>; \<open>TC_Exception\<close> is any
  class of \<^verbatim>\<open>src/util\<close> derived from it. Message texts are not modelled.
\<close>

datatype tars_exn =
    TarsEncodeException
  | TarsDecodeException
  | TarsDecodeMismatch
  | TarsDecodeRequireNotExist
  | TarsDecodeInvalidValue
  | TarsNotEnoughBuff
  | RuntimeError
  | TarsNetSocketException
  | TarsNetConnectException
  | TC_Exception

text \<open>Which of them a handler \<^verbatim>\<open>catch (TarsDecodeException&)\<close> takes.\<close>

fun is_decode_exn :: "tars_exn \<Rightarrow> bool" where
  "is_decode_exn TarsDecodeException = True"
| "is_decode_exn TarsDecodeMismatch = True"
| "is_decode_exn TarsDecodeRequireNotExist = True"
| "is_decode_exn TarsDecodeInvalidValue = True"
| "is_decode_exn _ = False"

text \<open>
  \<open>Abort\<close> is a failed \<open>assert\<close>, \<open>Fault\<close> a memory access outside its object or another
  undefined operation, \<open>OutOfFuel\<close> that the given fuel did not suffice.
\<close>

datatype 'a outcome = Ok 'a | Throw tars_exn | Abort | Fault | OutOfFuel

section \<open>Actions: state in, outcome and state out\<close>

text \<open>The state survives a throw, since the code's handlers go on with the object they have.\<close>

type_synonym ('s, 'a) act = "'s \<Rightarrow> 'a outcome \<times> 's"

definition ret :: "'a \<Rightarrow> ('s, 'a) act" where
  "ret a s = (Ok a, s)"

definition throw :: "tars_exn \<Rightarrow> ('s, 'a) act" where
  "throw e s = (Throw e, s)"

definition fault :: "('s, 'a) act" where
  "fault s = (Fault, s)"

definition diverge :: "('s, 'a) act" where
  "diverge s = (OutOfFuel, s)"

definition andthen :: "('s, 'a) act \<Rightarrow> ('a \<Rightarrow> ('s, 'b) act) \<Rightarrow> ('s, 'b) act" where
  "andthen m f s =
     (case m s of
        (Ok a, s') \<Rightarrow> f a s'
      | (Throw e, s') \<Rightarrow> (Throw e, s')
      | (Abort, s') \<Rightarrow> (Abort, s')
      | (Fault, s') \<Rightarrow> (Fault, s')
      | (OutOfFuel, s') \<Rightarrow> (OutOfFuel, s'))"

text \<open>\<^verbatim>\<open>try { m } catch (TarsDecodeException&) { h }\<close>\<close>

definition catch_decode :: "('s, 'a) act \<Rightarrow> ('s, 'a) act \<Rightarrow> ('s, 'a) act" where
  "catch_decode m h s =
     (case m s of
        (Throw e, s') \<Rightarrow> if is_decode_exn e then h s' else (Throw e, s')
      | r \<Rightarrow> r)"

definition act_if :: "bool \<Rightarrow> ('s, 'a) act \<Rightarrow> ('s, 'a) act \<Rightarrow> ('s, 'a) act" where
  "act_if b m n = (if b then m else n)"

text \<open>An action on a part of the state.\<close>

definition zoom :: "('s \<Rightarrow> 't) \<Rightarrow> ('t \<Rightarrow> 's \<Rightarrow> 's) \<Rightarrow> ('t, 'a) act \<Rightarrow> ('s, 'a) act" where
  "zoom get_part put_part m s = (case m (get_part s) of (r, t) \<Rightarrow> (r, put_part t s))"

lemma zoom_apply [act_simps]: "m (g s) = (r, t) \<Longrightarrow> zoom g p m s = (r, p t s)"
  by (simp add: zoom_def)

lemma ret_apply [act_simps]: "ret a s = (Ok a, s)"
  by (simp add: ret_def)

lemma throw_apply [act_simps]: "throw e s = (Throw e, s)"
  by (simp add: throw_def)

lemma fault_apply [act_simps]: "fault s = (Fault, s)"
  by (simp add: fault_def)

lemma diverge_apply [act_simps]: "diverge s = (OutOfFuel, s)"
  by (simp add: diverge_def)

lemma andthen_Ok [act_simps]: "m s = (Ok a, s') \<Longrightarrow> andthen m f s = f a s'"
  by (simp add: andthen_def)

lemma andthen_Throw [act_simps]: "m s = (Throw e, s') \<Longrightarrow> andthen m f s = (Throw e, s')"
  by (simp add: andthen_def)

lemma andthen_Fault [act_simps]: "m s = (Fault, s') \<Longrightarrow> andthen m f s = (Fault, s')"
  by (simp add: andthen_def)

lemma andthen_Abort [act_simps]: "m s = (Abort, s') \<Longrightarrow> andthen m f s = (Abort, s')"
  by (simp add: andthen_def)

lemma andthen_OutOfFuel [act_simps]:
  "m s = (OutOfFuel, s') \<Longrightarrow> andthen m f s = (OutOfFuel, s')"
  by (simp add: andthen_def)

lemma andthen_ret [act_simps]: "andthen (ret a) f = f a"
  by (rule ext) (simp add: andthen_def ret_def)

lemma andthen_ret_right: "andthen m ret = m"
  by (rule ext) (simp add: andthen_def ret_def split: prod.splits outcome.splits)

lemma andthen_assoc: "andthen (andthen m f) g = andthen m (\<lambda>a. andthen (f a) g)"
  by (rule ext) (simp add: andthen_def split: prod.splits outcome.splits)

lemma catch_Ok [act_simps]: "m s = (Ok a, s') \<Longrightarrow> catch_decode m h s = (Ok a, s')"
  by (simp add: catch_decode_def)

lemma catch_Throw:
  "m s = (Throw e, s') \<Longrightarrow> is_decode_exn e \<Longrightarrow> catch_decode m h s = h s'"
  by (simp add: catch_decode_def)

lemma catch_OutOfFuel [act_simps]:
  "m s = (OutOfFuel, s') \<Longrightarrow> catch_decode m h s = (OutOfFuel, s')"
  by (simp add: catch_decode_def)

lemma catch_Fault [act_simps]:
  "m s = (Fault, s') \<Longrightarrow> catch_decode m h s = (Fault, s')"
  by (simp add: catch_decode_def)

lemma andthen_OkE:
  assumes "andthen m f s = (Ok b, s'')"
  obtains a s' where "m s = (Ok a, s')" and "f a s' = (Ok b, s'')"
  using assms by (auto simp: andthen_def split: prod.splits outcome.splits)

section \<open>Invariants of actions\<close>

text \<open>Whatever the outcome, the state after the call satisfies \<open>P\<close> again.\<close>

definition keeps :: "('s \<Rightarrow> bool) \<Rightarrow> ('s, 'a) act \<Rightarrow> bool" where
  "keeps P m \<longleftrightarrow> (\<forall>s. P s \<longrightarrow> P (snd (m s)))"

lemma keepsI: "(\<And>s. P s \<Longrightarrow> P (snd (m s))) \<Longrightarrow> keeps P m"
  by (simp add: keeps_def)

lemma keepsD: "keeps P m \<Longrightarrow> P s \<Longrightarrow> m s = (r, s') \<Longrightarrow> P s'"
  by (auto simp: keeps_def dest: spec [of _ s])

lemma keeps_ret [keeps_intros]: "keeps P (ret a)"
  by (simp add: keeps_def ret_def)

lemma keeps_fault [keeps_intros]: "keeps P fault"
  by (simp add: keeps_def fault_def)

lemma keeps_diverge [keeps_intros]: "keeps P diverge"
  by (simp add: keeps_def diverge_def)

lemma keeps_andthen [keeps_intros]:
  assumes "keeps P m" and "\<And>a. keeps P (f a)"
  shows "keeps P (andthen m f)"
proof (rule keepsI)
  fix s assume "P s"
  obtain r s1 where r: "m s = (r, s1)" by (cases "m s")
  have "P s1" using keepsD [OF assms(1) \<open>P s\<close> r] .
  then show "P (snd (andthen m f s))"
    using assms(2) by (cases r) (simp_all add: andthen_def r keeps_def)
qed

lemma keeps_zoom:
  assumes "keeps Q m" and "\<And>s. P s \<Longrightarrow> Q (g s)" and "\<And>s t. P s \<Longrightarrow> Q t \<Longrightarrow> P (p t s)"
  shows "keeps P (zoom g p m)"
  using assms by (auto simp: keeps_def zoom_def split: prod.split) (metis snd_conv)

lemma keeps_apart:
  assumes "\<And>s t. P s \<Longrightarrow> P (p t s)"
  shows "keeps P (zoom g p m)"
  using assms by (auto simp: keeps_def zoom_def split: prod.split)

end
