(* ===== verification/Tars_Type.thy ===== *)
theory Tars_Type
  imports Tars_Prelude
begin

text \<open>
  \<^verbatim>\<open>src/tup/TarsType.h\<close>: the wire types and the conversions between host order (x86-64,
  little endian) and network order.
\<close>

unbundle bit_operations_syntax

section \<open>The typedefs\<close>

type_synonym tChar = "8 word"
type_synonym tShort = "16 word"
type_synonym tInt32 = "32 word"
type_synonym tInt64 = "64 word"
type_synonym tUInt8 = "8 word"
type_synonym tUInt16 = "16 word"
type_synonym tUInt32 = "32 word"

text \<open>Floating-point values are their IEEE bit patterns: the codec only moves the bits.\<close>

type_synonym tFloat = "32 word"
type_synonym tDouble = "64 word"

definition TARS_MAX_STRING_LENGTH :: nat where
  "TARS_MAX_STRING_LENGTH = 100 * 1024 * 1024"

section \<open>Objects in memory, little endian\<close>

text \<open>
  What \<^verbatim>\<open>*(T* )p = w\<close> leaves in the \<open>n\<close> bytes at \<open>p\<close>, and what \<^verbatim>\<open>*(T* )p\<close> reads back.
\<close>

definition store_le :: "nat \<Rightarrow> 'a::len word \<Rightarrow> bytes" where
  "store_le n w = map (\<lambda>i. ucast (drop_bit (8 * i) w)) [0..<n]"

primrec load_le :: "bytes \<Rightarrow> 'a::len word" where
  "load_le [] = 0"
| "load_le (b # bs) = (ucast b OR push_bit 8 (load_le bs))"

definition htons :: "16 word \<Rightarrow> 16 word" where
  "htons x = load_le (rev (store_le 2 x))"

definition htonl :: "32 word \<Rightarrow> 32 word" where
  "htonl x = load_le (rev (store_le 4 x))"

text \<open>The union trick: swap the two 32-bit halves, each converted on its own.\<close>

definition tars_htonll :: "64 word \<Rightarrow> 64 word" where
  "tars_htonll x =
     (let i0 = (ucast x :: 32 word);
          i1 = (ucast (drop_bit 32 x) :: 32 word);
          tmp = htonl i1;
          i1' = htonl i0;
          i0' = tmp
      in (ucast i0' OR push_bit 32 (ucast i1')))"

definition tars_ntohf :: "tFloat \<Rightarrow> tFloat" where
  "tars_ntohf x = htonl x"

definition tars_ntohd :: "tDouble \<Rightarrow> tDouble" where
  "tars_ntohd x = tars_htonll x"

text \<open>Network order, as a list of bytes.\<close>

definition be :: "nat \<Rightarrow> 'a::len word \<Rightarrow> bytes" where
  "be n w = rev (store_le n w)"

section \<open>Facts\<close>

lemma length_store_le [simp]: "length (store_le n w) = n"
  by (simp add: store_le_def)

lemma length_be [simp]: "length (be n w) = n"
  by (simp add: be_def)

lemma nth_store_le [simp]: "i < n \<Longrightarrow> store_le n w ! i = ucast (drop_bit (8 * i) w)"
  by (simp add: store_le_def)

lemma bit_load_le:
  "bit (load_le bs :: 'a::len word) i \<longleftrightarrow>
     i < LENGTH('a) \<and> i div 8 < length bs \<and> bit (bs ! (i div 8)) (i mod 8)"
proof (induction bs arbitrary: i)
  case Nil
  then show ?case by simp
next
  case (Cons b bs)
  show ?case
  proof (cases "i < 8")
    case True
    then show ?thesis by (auto simp: bit_or_iff bit_push_bit_iff bit_ucast_iff)
  next
    case False
    then have "i div 8 = Suc ((i - 8) div 8)" and "(i - 8) mod 8 = i mod 8"
      by (simp_all add: le_div_geq le_mod_geq)
    moreover have "\<not> bit b i"
      using False bit_imp_le_length [of b i] by auto
    ultimately show ?thesis
      using False Cons.IH [of "i - 8"]
      by (auto simp: bit_or_iff bit_push_bit_iff bit_ucast_iff)
  qed
qed

lemma load_store_le:
  fixes w :: "'a::len word"
  assumes "8 * n = LENGTH('a)"
  shows "load_le (store_le n w) = w"
proof (rule bit_word_eqI)
  fix i assume i: "i < LENGTH('a)"
  with assms have "i div 8 < n" by linarith
  with i show "bit (load_le (store_le n w) :: 'a word) i = bit w i"
    by (simp add: bit_load_le bit_ucast_iff bit_drop_bit_eq)
qed

lemma store_load_le:
  assumes "8 * length bs = LENGTH('a::len)"
  shows "store_le (length bs) (load_le bs :: 'a word) = bs"
proof (rule nth_equalityI)
  fix i assume "i < length (store_le (length bs) (load_le bs :: 'a word))"
  then have i: "i < length bs" by simp
  show "store_le (length bs) (load_le bs :: 'a word) ! i = bs ! i"
  proof (rule bit_word_eqI)
    fix j :: nat assume j: "j < LENGTH(8)"
    have "i * 8 + j < LENGTH('a)" using i j assms by simp
    then show "bit (store_le (length bs) (load_le bs :: 'a word) ! i) j = bit (bs ! i) j"
      using i j by (simp add: bit_ucast_iff bit_drop_bit_eq bit_load_le mult.commute)
  qed
qed simp

lemma store_swap:
  fixes w :: "'a::len word"
  assumes "8 * n = LENGTH('a)"
  shows "store_le n (load_le (rev (store_le n w)) :: 'a word) = be n w"
  using store_load_le [where 'a='a and bs="rev (store_le n w)"] assms by (simp add: be_def)

lemma load_le_be_swap:
  fixes w :: "'a::len word"
  assumes "8 * n = LENGTH('a)"
  shows "load_le (rev (store_le n (load_le (be n w) :: 'a word))) = w"
  using store_load_le [where 'a='a and bs="be n w"] load_store_le [of n w] assms by (simp add: be_def)

lemma store_htons: "store_le 2 (htons w) = be 2 w"
  unfolding htons_def by (rule store_swap) simp

lemma store_htonl: "store_le 4 (htonl w) = be 4 w"
  unfolding htonl_def by (rule store_swap) simp

lemma htons_load_be: "htons (load_le (be 2 w)) = w"
  unfolding htons_def by (rule load_le_be_swap) simp

lemma htonl_load_be: "htonl (load_le (be 4 w)) = w"
  unfolding htonl_def by (rule load_le_be_swap) simp

lemma htonl_htonl [simp]: "htonl (htonl x) = x"
  unfolding htonl_def [of x] using htonl_load_be [of x] by (simp add: be_def)

text \<open>The union trick is the 8-byte swap: an \<open>Int64\<close> in memory is its two halves in turn.\<close>

lemma store_le_halves:
  "store_le 8 (x :: 64 word) =
     store_le 4 (ucast x :: 32 word) @ store_le 4 (ucast (drop_bit 32 x) :: 32 word)"
proof (rule nth_equalityI)
  fix i assume "i < length (store_le 8 x)"
  then have i: "i < 8" by simp
  show "store_le 8 x ! i =
     (store_le 4 (ucast x :: 32 word) @ store_le 4 (ucast (drop_bit 32 x) :: 32 word)) ! i"
  proof (rule bit_word_eqI)
    fix j :: nat assume j: "j < LENGTH(8)"
    show "bit (store_le 8 x ! i) j = bit ((store_le 4 (ucast x :: 32 word) @
        store_le 4 (ucast (drop_bit 32 x) :: 32 word)) ! i) j"
    proof (cases "i < 4")
      case True
      with i j show ?thesis by (simp add: nth_append bit_ucast_iff bit_drop_bit_eq)
    next
      case False
      then obtain k where k: "i = 4 + k" using le_Suc_ex not_less by blast
      with i j show ?thesis
        by (simp add: nth_append bit_ucast_iff bit_drop_bit_eq algebra_simps)
    qed
  qed
qed simp

lemma low_half_join: "ucast (ucast (a :: 32 word) OR push_bit 32 (ucast (b :: 32 word)) :: 64 word) = a"
  by (rule bit_word_eqI) (auto simp: bit_ucast_iff bit_or_iff bit_push_bit_iff)

lemma high_half_join:
  "ucast (drop_bit 32 (ucast (a :: 32 word) OR push_bit 32 (ucast (b :: 32 word)) :: 64 word)) = b"
  by (rule bit_word_eqI)
    (auto simp: bit_ucast_iff bit_or_iff bit_push_bit_iff bit_drop_bit_eq dest: bit_imp_le_length)

lemma store_htonll: "store_le 8 (tars_htonll w) = be 8 w"
  unfolding be_def [of 8] store_le_halves tars_htonll_def Let_def low_half_join high_half_join
  by (simp add: store_htonl be_def)

lemma tars_htonll_swap: "tars_htonll x = load_le (rev (store_le 8 x))"
  using load_store_le [of 8 "tars_htonll x"] by (simp add: store_htonll be_def)

lemma htonll_load_be: "tars_htonll (load_le (be 8 w)) = w"
  unfolding tars_htonll_swap by (rule load_le_be_swap) simp

lemmas host_net_simps =
  store_htons store_htonl store_htonll htons_load_be htonl_load_be htonll_load_be

end
