(* ===== verification/Tars_Buffer.thy ===== *)
theory Tars_Buffer
  imports Tars_Type
begin

text \<open>
  The buffer classes of \<^verbatim>\<open>src/tup/Tars.h\<close>: \<open>BufferReader\<close>, \<open>MapBufferReader\<close>,
  \<open>BufferWriter\<close> and \<open>BufferWriterBuff\<close>, with the macros that move the cursors. Memory is
  explicit: the bytes that are really allocated behind the pointer are a list, the length the
  class believes in is a field of its own, and an access past the list is a \<open>Fault\<close>.
\<close>

section \<open>Memory\<close>

definition mem_read :: "bytes \<Rightarrow> nat \<Rightarrow> nat \<Rightarrow> bytes option" where
  "mem_read m a n = (if a + n \<le> length m then Some (take n (drop a m)) else None)"

definition mem_write :: "bytes \<Rightarrow> nat \<Rightarrow> bytes \<Rightarrow> bytes option" where
  "mem_write m a bs =
     (if a + length bs \<le> length m then Some (take a m @ bs @ drop (a + length bs) m) else None)"

section \<open>BufferReader\<close>

text \<open>\<open>rbuf\<close>: the bytes from \<open>_buf\<close> to the end of its allocation; \<open>rlen\<close> is \<open>_buf_len\<close>.\<close>

record istream =
  rbuf :: bytes
  rlen :: nat
  rcur :: nat

definition BufferReader_init :: istream where
  "BufferReader_init = \<lparr>rbuf = [], rlen = 0, rcur = 0\<rparr>"

definition reader_reset :: "istream \<Rightarrow> istream" where
  "reader_reset s = s\<lparr>rcur := 0\<rparr>"

text \<open>The second argument is the memory behind the pointer, which may be longer than \<open>len\<close>.\<close>

definition setBuffer :: "bytes \<Rightarrow> nat \<Rightarrow> istream \<Rightarrow> istream" where
  "setBuffer m len s = s\<lparr>rbuf := m, rlen := len, rcur := 0\<rparr>"

definition setBuffer_vector :: "bytes \<Rightarrow> istream \<Rightarrow> istream" where
  "setBuffer_vector v s = s\<lparr>rbuf := v, rlen := length v, rcur := 0\<rparr>"

definition hasEnd :: "istream \<Rightarrow> bool" where
  "hasEnd s \<longleftrightarrow> rlen s \<le> rcur s"

definition peekBuf :: "nat \<Rightarrow> nat \<Rightarrow> (istream, bytes) act" where
  "peekBuf len offset s =
     (if rlen s < size_add (size_add (rcur s) offset) len then (Throw TarsDecodeException, s)
      else case mem_read (rbuf s) (rcur s + offset) len of
             None \<Rightarrow> (Fault, s)
           | Some bs \<Rightarrow> (Ok bs, s))"

definition readBuf :: "nat \<Rightarrow> (istream, bytes) act" where
  "readBuf len s =
     (if len \<le> rlen s \<and> size_add (rcur s) len \<le> rlen s
      then andthen (peekBuf len 0) (\<lambda>bs s'. (Ok bs, s'\<lparr>rcur := size_add (rcur s') len\<rparr>)) s
      else (Throw TarsDecodeException, s))"

definition reader_skip :: "nat \<Rightarrow> (istream, unit) act" where
  "reader_skip len s =
     (if len \<le> rlen s \<and> size_add (rcur s) len \<le> rlen s
      then (Ok (), s\<lparr>rcur := size_add (rcur s) len\<rparr>)
      else (Throw TarsDecodeException, s))"

section \<open>The decoding macros\<close>

definition TarsPeekTypeBuf :: "nat \<Rightarrow> nat \<Rightarrow> (istream, bytes) act" where
  "TarsPeekTypeBuf offset n s =
     (if rlen s < size_add (size_add (rcur s) offset) n then (Throw TarsDecodeException, s)
      else case mem_read (rbuf s) (rcur s + offset) n of
             None \<Rightarrow> (Fault, s)
           | Some bs \<Rightarrow> (Ok bs, s))"

definition TarsPeekTypeBufNoTag :: "nat \<Rightarrow> nat \<Rightarrow> (istream, unit) act" where
  "TarsPeekTypeBufNoTag offset n s =
     (if rlen s < size_add (size_add (rcur s) offset) n then (Throw TarsDecodeException, s)
      else (Ok (), s))"

text \<open>
  The cursor moves without a check. The addend is converted to \<open>size_t\<close>, so a negative
  \<open>Int32\<close> moves the cursor back.
\<close>

definition TarsReadHeadSkip :: "int \<Rightarrow> (istream, unit) act" where
  "TarsReadHeadSkip len s =
     (Ok (), s\<lparr>rcur := nat ((int (rcur s) + len) mod int size_max)\<rparr>)"

definition TarsReadTypeBuf :: "nat \<Rightarrow> (istream, bytes) act" where
  "TarsReadTypeBuf n =
     andthen (TarsPeekTypeBuf 0 n) (\<lambda>bs s. (Ok bs, s\<lparr>rcur := size_add (rcur s) n\<rparr>))"

definition TarsReadStringBuf :: "nat \<Rightarrow> (istream, bytes) act" where
  "TarsReadStringBuf len s =
     (if rlen s < size_add (rcur s) len then (Throw TarsDecodeException, s)
      else case mem_read (rbuf s) (rcur s) len of
             None \<Rightarrow> (Fault, s)
           | Some bs \<Rightarrow> (Ok bs, s\<lparr>rcur := size_add (rcur s) len\<rparr>))"

text \<open>Type and tag share the first byte; tag 15 announces a second byte that holds the tag.\<close>

definition TarsPeekFromHead :: "(istream, byte \<times> byte \<times> nat) act" where
  "TarsPeekFromHead =
     andthen (TarsPeekTypeBuf 0 1) (\<lambda>bs.
       let typeTag = load_le bs :: byte;
           tmpTag = drop_bit 4 typeTag;
           ty = typeTag AND 15
       in if tmpTag = 15
          then andthen (TarsPeekTypeBuf 1 1) (\<lambda>bs1. ret (ty, load_le bs1, 2))
          else ret (ty, tmpTag, 1))"

definition readFromHead :: "(istream, byte \<times> byte) act" where
  "readFromHead =
     andthen TarsPeekFromHead (\<lambda>(ty, tag, n).
       andthen (TarsReadHeadSkip (int n)) (\<lambda>_. ret (ty, tag)))"

definition TarsPeekFromHeadNoTag :: "(istream, byte \<times> nat) act" where
  "TarsPeekFromHeadNoTag =
     andthen (TarsPeekTypeBuf 0 1) (\<lambda>bs.
       let typeTag = load_le bs :: byte;
           tmpTag = drop_bit 4 typeTag;
           ty = typeTag AND 15
       in if tmpTag = 15
          then andthen (TarsPeekTypeBufNoTag 1 1) (\<lambda>_. ret (ty, 2))
          else ret (ty, 1))"

definition readFromHeadNoTag :: "(istream, byte) act" where
  "readFromHeadNoTag =
     andthen TarsPeekFromHeadNoTag (\<lambda>(ty, n).
       andthen (TarsReadHeadSkip (int n)) (\<lambda>_. ret ty))"

section \<open>MapBufferReader\<close>

text \<open>A reader with a second, caller-supplied block; \<open>None\<close> is the null pointer.\<close>

record map_istream = istream +
  mbuf :: "bytes option"
  mlen :: nat
  mcur :: nat

definition map_reset :: "map_istream \<Rightarrow> map_istream" where
  "map_reset s = s\<lparr>mcur := 0, rcur := 0\<rparr>"

definition map_cur :: "(map_istream, nat) act" where
  "map_cur s = (case mbuf s of None \<Rightarrow> (Throw TarsDecodeException, s) | Some m \<Rightarrow> (Ok (mcur s), s))"

definition map_left :: "map_istream \<Rightarrow> nat" where
  "map_left s = size_sub (mlen s) (mcur s)"

definition mapBufferSkip :: "nat \<Rightarrow> (map_istream, unit) act" where
  "mapBufferSkip len s =
     (if mlen s < size_add (mcur s) len then (Throw TarsDecodeException, s)
      else (Ok (), s\<lparr>mcur := size_add (mcur s) len\<rparr>))"

definition setMapBuffer :: "bytes \<Rightarrow> nat \<Rightarrow> map_istream \<Rightarrow> map_istream" where
  "setMapBuffer m len s = s\<lparr>mbuf := Some m, mlen := len, mcur := 0\<rparr>"

end
