(* ===== verification/Tars_Writer.thy ===== *)
theory Tars_Writer
  imports Tars_Buffer
begin

text \<open>
  \<open>BufferWriter\<close> and \<open>BufferWriterBuff\<close> of \<^verbatim>\<open>src/tup/Tars.h\<close> with the encoding macros.
  The abstract view of a writer is the byte string written so far (\<open>contents\<close>); \<open>appends m bs\<close>
  says that an action on a growing writer appends exactly \<open>bs\<close>.
\<close>

section \<open>The writer\<close>

text \<open>
  \<open>wbuf\<close> is the allocated block (fresh bytes are 0, which nothing reads), \<open>wcap\<close> is
  \<open>_buf_len\<close>, and \<open>wreverse\<close> the flag \<open>_reverse\<close> that lets the macros grow the block.
\<close>

record ostream =
  wbuf :: bytes
  wlen :: nat
  wcap :: nat
  wreverse :: bool

definition BufferWriter_init :: ostream where
  "BufferWriter_init = \<lparr>wbuf = [], wlen = 0, wcap = 0, wreverse = True\<rparr>"

definition BufferWriterBuff_init :: ostream where
  "BufferWriterBuff_init = \<lparr>wbuf = [], wlen = 0, wcap = 0, wreverse = False\<rparr>"

definition writer_reset :: "ostream \<Rightarrow> ostream" where
  "writer_reset os = os\<lparr>wlen := 0\<rparr>"

text \<open>Move the block to a fresh one of \<open>len1\<close> bytes, keeping the first \<open>_len\<close>.\<close>

definition regrow :: "nat \<Rightarrow> (ostream, unit) act" where
  "regrow len1 os =
     (if wlen os \<le> len1 \<and> wlen os \<le> length (wbuf os)
      then (Ok (), os\<lparr>wbuf := take (wlen os) (wbuf os) @ replicate (len1 - wlen os) 0,
                      wcap := len1\<rparr>)
      else (Fault, os))"

definition TarsReserveBuf :: "nat \<Rightarrow> (ostream, unit) act" where
  "TarsReserveBuf len os =
     (if wreverse os
      then if wcap os < len then regrow (size_add len len) os else (Ok (), os)
      else (Ok (), os))"

definition writer_reserve :: "nat \<Rightarrow> (ostream, unit) act" where
  "writer_reserve len os =
     (if wcap os < len
      then let len1 = size_add len len;
               len2 = (if len1 < 128 then 128 else len1)
           in regrow len2 os
      else (Ok (), os))"

text \<open>The store every \<open>TarsWrite...TypeBuf\<close> ends with, at offset \<open>_len\<close>.\<close>

definition store_at_end :: "bytes \<Rightarrow> (ostream, unit) act" where
  "store_at_end bs os =
     (case mem_write (wbuf os) (wlen os) bs of
        None \<Rightarrow> (Fault, os)
      | Some m \<Rightarrow> (Ok (), os\<lparr>wbuf := m, wlen := size_add (wlen os) (length bs)\<rparr>))"

definition TarsWriteTypeBuf :: "bytes \<Rightarrow> (ostream, unit) act" where
  "TarsWriteTypeBuf bs os =
     andthen (TarsReserveBuf (size_add (wlen os) (length bs))) (\<lambda>_. store_at_end bs) os"

definition TarsWriteCharTypeBuf :: "tChar \<Rightarrow> (ostream, unit) act" where
  "TarsWriteCharTypeBuf v = TarsWriteTypeBuf (store_le 1 v)"

definition TarsWriteUInt8TTypeBuf :: "byte \<Rightarrow> (ostream, unit) act" where
  "TarsWriteUInt8TTypeBuf v = TarsWriteTypeBuf (store_le 1 v)"

definition TarsWriteShortTypeBuf :: "tShort \<Rightarrow> (ostream, unit) act" where
  "TarsWriteShortTypeBuf v = TarsWriteTypeBuf (store_le 2 v)"

definition TarsWriteInt32TypeBuf :: "tInt32 \<Rightarrow> (ostream, unit) act" where
  "TarsWriteInt32TypeBuf v = TarsWriteTypeBuf (store_le 4 v)"

definition TarsWriteUInt32TTypeBuf :: "tUInt32 \<Rightarrow> (ostream, unit) act" where
  "TarsWriteUInt32TTypeBuf v = TarsWriteTypeBuf (store_le 4 v)"

definition TarsWriteInt64TypeBuf :: "tInt64 \<Rightarrow> (ostream, unit) act" where
  "TarsWriteInt64TypeBuf v = TarsWriteTypeBuf (store_le 8 v)"

definition TarsWriteFloatTypeBuf :: "tFloat \<Rightarrow> (ostream, unit) act" where
  "TarsWriteFloatTypeBuf v = TarsWriteTypeBuf (store_le 4 v)"

definition TarsWriteDoubleTypeBuf :: "tDouble \<Rightarrow> (ostream, unit) act" where
  "TarsWriteDoubleTypeBuf v = TarsWriteTypeBuf (store_le 8 v)"

definition TarsWriteToHead :: "byte \<Rightarrow> byte \<Rightarrow> (ostream, unit) act" where
  "TarsWriteToHead ty tag =
     (if tag < 15
      then TarsWriteUInt8TTypeBuf (ty + push_bit 4 tag)
      else andthen (TarsWriteUInt8TTypeBuf (ty + 240)) (\<lambda>_. TarsWriteUInt8TTypeBuf tag))"

definition writeBuf :: "bytes \<Rightarrow> (ostream, unit) act" where
  "writeBuf bs os =
     andthen (TarsReserveBuf (size_add (wlen os) (length bs))) (\<lambda>_. store_at_end bs) os"

text \<open>\<open>BufferWriterBuff::writeBuf\<close> checks the room; the macros above do not.\<close>

definition buff_writeBuf :: "bytes \<Rightarrow> (ostream, unit) act" where
  "buff_writeBuf bs os =
     (if wcap os < size_add (wlen os) (length bs) then (Throw TarsNotEnoughBuff, os)
      else store_at_end bs os)"

definition buff_setBuffer :: "bytes \<Rightarrow> nat \<Rightarrow> ostream \<Rightarrow> ostream" where
  "buff_setBuffer m size_buff os = os\<lparr>wbuf := m, wlen := 0, wcap := size_buff, wreverse := False\<rparr>"

definition getByteBuffer :: "ostream \<Rightarrow> bytes" where
  "getByteBuffer os = take (wlen os) (wbuf os)"

definition getLength :: "ostream \<Rightarrow> nat" where
  "getLength os = wlen os"

text \<open>The copy constructor and the assignment operator of \<open>BufferWriter\<close>.\<close>

definition writer_copy :: "ostream \<Rightarrow> unit outcome \<times> ostream" where
  "writer_copy bw =
     andthen (writeBuf (getByteBuffer bw)) (\<lambda>_ os. (Ok (), os\<lparr>wlen := wlen bw\<rparr>)) BufferWriter_init"

definition writer_assign :: "ostream \<Rightarrow> (ostream, unit) act" where
  "writer_assign buf os =
     andthen (writeBuf (getByteBuffer buf)) (\<lambda>_ os'. (Ok (), os'\<lparr>wlen := wlen buf\<rparr>))
       (os\<lparr>wreverse := True\<rparr>)"

definition buff_assign :: "ostream \<Rightarrow> (ostream, unit) act" where
  "buff_assign buf os =
     andthen (buff_writeBuf (getByteBuffer buf))
       (\<lambda>_ os'. (Ok (), os'\<lparr>wlen := wlen buf, wcap := wcap buf\<rparr>))
       (os\<lparr>wreverse := False\<rparr>)"

section \<open>Invariant and abstract view\<close>

definition wf_os :: "ostream \<Rightarrow> bool" where
  "wf_os os \<longleftrightarrow> wreverse os \<and> length (wbuf os) = wcap os \<and> wlen os \<le> wcap os"

definition contents :: "ostream \<Rightarrow> bytes" where
  "contents os = getByteBuffer os"

text \<open>
  \<open>appends m bs\<close>: on every well-formed growing writer with room in the address space, \<open>m\<close>
  succeeds, keeps the invariant and appends exactly \<open>bs\<close>.
\<close>

definition appends :: "(ostream, unit) act \<Rightarrow> bytes \<Rightarrow> bool" where
  "appends m bs \<longleftrightarrow>
     (\<forall>os. wf_os os \<longrightarrow> 2 * (wlen os + length bs) < size_max \<longrightarrow>
        (\<exists>os'. m os = (Ok (), os') \<and> wf_os os' \<and> contents os' = contents os @ bs))"

lemma wf_os_init [simp]: "wf_os BufferWriter_init"
  by (simp add: wf_os_def BufferWriter_init_def)

lemma contents_init [simp]: "contents BufferWriter_init = []"
  by (simp add: contents_def getByteBuffer_def BufferWriter_init_def)

lemma length_contents: "wf_os os \<Longrightarrow> length (contents os) = wlen os"
  by (simp add: contents_def getByteBuffer_def wf_os_def)

lemma wf_os_reset [simp]: "wf_os os \<Longrightarrow> wf_os (writer_reset os)"
  by (simp add: wf_os_def writer_reset_def)

lemma contents_reset [simp]: "contents (writer_reset os) = []"
  by (simp add: contents_def getByteBuffer_def writer_reset_def)

lemma wlen_reset [simp]: "wlen (writer_reset os) = 0"
  by (simp add: writer_reset_def)

lemma appendsD:
  assumes "appends m bs" and "wf_os os" and "2 * (wlen os + length bs) < size_max"
  obtains os' where "m os = (Ok (), os')" and "wf_os os'" and "contents os' = contents os @ bs"
  using assms unfolding appends_def by blast

lemma appends_ret [write_simps, intro]: "appends (ret ()) []"
  by (simp add: appends_def act_simps)

lemma appends_andthen [intro]:
  assumes m: "appends m as" and n: "appends n bs" and c: "cs = as @ bs"
  shows "appends (andthen m (\<lambda>_. n)) cs"
  unfolding appends_def
proof (intro allI impI)
  fix os assume wf: "wf_os os" and len: "2 * (wlen os + length cs) < size_max"
  have la: "2 * (wlen os + length as) < size_max" using len c by simp
  from m wf la obtain os1 where
    1: "m os = (Ok (), os1)" "wf_os os1" "contents os1 = contents os @ as"
    by (rule appendsD)
  have "wlen os1 = wlen os + length as"
    using length_contents [OF wf] length_contents [OF 1(2)] 1(3) by simp
  then have "2 * (wlen os1 + length bs) < size_max" using len c by simp
  from n 1(2) this obtain os2 where
    2: "n os1 = (Ok (), os2)" "wf_os os2" "contents os2 = contents os1 @ bs"
    by (rule appendsD)
  show "\<exists>os'. andthen m (\<lambda>_. n) os = (Ok (), os') \<and> wf_os os' \<and> contents os' = contents os @ cs"
    using 1 2 c by (auto simp: act_simps)
qed

lemma reserve_spec:
  assumes "wf_os os" and "2 * len < size_max" and "wlen os \<le> len"
  obtains os' where "TarsReserveBuf len os = (Ok (), os')" and "wf_os os'" and
    "contents os' = contents os" and "wlen os' = wlen os" and "len \<le> wcap os'"
proof (cases "wcap os < len")
  case True
  let ?os' = "os\<lparr>wbuf := take (wlen os) (wbuf os) @ replicate (len + len - wlen os) 0,
                 wcap := len + len\<rparr>"
  show thesis
    by (rule that [of ?os'])
      (use assms True in \<open>auto simp: TarsReserveBuf_def regrow_def wf_os_def contents_def
        getByteBuffer_def\<close>)
next
  case False
  show thesis
    by (rule that [of os]) (use assms False in \<open>auto simp: TarsReserveBuf_def wf_os_def\<close>)
qed

lemma store_at_end_spec:
  assumes "wf_os os" and "wlen os + length bs \<le> wcap os" and "wlen os + length bs < size_max"
  obtains os' where "store_at_end bs os = (Ok (), os')" and "wf_os os'" and
    "contents os' = contents os @ bs"
  by (rule that [of "os\<lparr>wbuf := take (wlen os) (wbuf os) @ bs @ drop (wlen os + length bs) (wbuf os),
                       wlen := wlen os + length bs\<rparr>"])
    (use assms in \<open>auto simp: store_at_end_def mem_write_def wf_os_def contents_def
      getByteBuffer_def\<close>)

lemma appends_TypeBuf [intro]: "appends (TarsWriteTypeBuf bs) bs"
  unfolding appends_def
proof (intro allI impI)
  fix os assume wf: "wf_os os" and len: "2 * (wlen os + length bs) < size_max"
  obtain os1 where 1: "TarsReserveBuf (wlen os + length bs) os = (Ok (), os1)" "wf_os os1"
    "contents os1 = contents os" "wlen os1 = wlen os" "wlen os + length bs \<le> wcap os1"
    using reserve_spec [OF wf len] by auto
  obtain os2 where 2: "store_at_end bs os1 = (Ok (), os2)" "wf_os os2"
    "contents os2 = contents os1 @ bs"
    by (rule store_at_end_spec [OF 1(2), of bs]) (use 1 len in auto)
  show "\<exists>os'. TarsWriteTypeBuf bs os = (Ok (), os') \<and> wf_os os' \<and> contents os' = contents os @ bs"
    using 1 2 len by (auto simp: TarsWriteTypeBuf_def act_simps)
qed

lemma writeBuf_eq: "writeBuf bs = TarsWriteTypeBuf bs"
  by (rule ext) (simp add: writeBuf_def TarsWriteTypeBuf_def)

lemma store_le_1 [simp]: "store_le 1 (v :: byte) = [v]" "store_le (Suc 0) (v :: byte) = [v]"
  by (simp_all add: store_le_def)

text \<open>The head of a field, as bytes.\<close>

definition enc_head :: "byte \<Rightarrow> byte \<Rightarrow> bytes" where
  "enc_head ty tag = (if tag < 15 then [ty + push_bit 4 tag] else [ty + 240, tag])"

lemma appends_scalar [intro]:
  "appends (TarsWriteCharTypeBuf c) [c]"
  "appends (TarsWriteUInt8TTypeBuf c) [c]"
  "appends (TarsWriteShortTypeBuf h) (store_le 2 h)"
  "appends (TarsWriteInt32TypeBuf w) (store_le 4 w)"
  "appends (TarsWriteUInt32TTypeBuf w) (store_le 4 w)"
  "appends (TarsWriteInt64TypeBuf l) (store_le 8 l)"
  "appends (TarsWriteFloatTypeBuf w) (store_le 4 w)"
  "appends (TarsWriteDoubleTypeBuf l) (store_le 8 l)"
  "appends (writeBuf bs) bs"
  unfolding TarsWriteCharTypeBuf_def TarsWriteUInt8TTypeBuf_def TarsWriteShortTypeBuf_def
    TarsWriteInt32TypeBuf_def TarsWriteUInt32TTypeBuf_def TarsWriteInt64TypeBuf_def
    TarsWriteFloatTypeBuf_def TarsWriteDoubleTypeBuf_def writeBuf_eq store_le_1
  by (rule appends_TypeBuf)+

lemma appends_head [intro]: "appends (TarsWriteToHead ty tag) (enc_head ty tag)"
  by (auto simp: TarsWriteToHead_def enc_head_def)

end
