(* ===== verification/Tars_Input.thy ===== *)
theory Tars_Input
  imports Tars_Buffer
begin

text \<open>
  \<open>TarsInputStream\<close> of \<^verbatim>\<open>src/tup/Tars.h\<close>. Skipping an unknown field, skipping to a tag and
  reading an \<open>Int32\<close> call one another, and the code bounds none of the loops, so the group
  takes a fuel argument; \<open>OutOfFuel\<close> is the only outcome that depends on it
  (\<^verbatim>\<open>Tars_Stream\<close> shows how much is enough). Console output is not modelled.
\<close>

unbundle bit_operations_syntax

section \<open>Wire types\<close>

abbreviation TarsHeadeChar :: byte where "TarsHeadeChar \<equiv> 0"
abbreviation TarsHeadeShort :: byte where "TarsHeadeShort \<equiv> 1"
abbreviation TarsHeadeInt32 :: byte where "TarsHeadeInt32 \<equiv> 2"
abbreviation TarsHeadeInt64 :: byte where "TarsHeadeInt64 \<equiv> 3"
abbreviation TarsHeadeFloat :: byte where "TarsHeadeFloat \<equiv> 4"
abbreviation TarsHeadeDouble :: byte where "TarsHeadeDouble \<equiv> 5"
abbreviation TarsHeadeString1 :: byte where "TarsHeadeString1 \<equiv> 6"
abbreviation TarsHeadeString4 :: byte where "TarsHeadeString4 \<equiv> 7"
abbreviation TarsHeadeMap :: byte where "TarsHeadeMap \<equiv> 8"
abbreviation TarsHeadeList :: byte where "TarsHeadeList \<equiv> 9"
abbreviation TarsHeadeStructBegin :: byte where "TarsHeadeStructBegin \<equiv> 10"
abbreviation TarsHeadeStructEnd :: byte where "TarsHeadeStructEnd \<equiv> 11"
abbreviation TarsHeadeZeroTag :: byte where "TarsHeadeZeroTag \<equiv> 12"
abbreviation TarsHeadeSimpleList :: byte where "TarsHeadeSimpleList \<equiv> 13"

section \<open>Skipping fields\<close>

text \<open>
  \<open>TarsSkipToTag\<close> yields the type of the field it found, past whose head it stands; a
  decode exception on the way is swallowed and counts as not found. In the map case the loop
  bound \<open>size * 2\<close> is an \<open>int\<close> product, undefined when it overflows.
\<close>

fun skipField_type :: "nat \<Rightarrow> byte \<Rightarrow> (istream, unit) act"
  and skipField :: "nat \<Rightarrow> (istream, unit) act"
  and skipFields :: "nat \<Rightarrow> int \<Rightarrow> (istream, unit) act"
  and skipToStructEnd :: "nat \<Rightarrow> (istream, unit) act"
  and skipLoop :: "nat \<Rightarrow> byte \<Rightarrow> (istream, byte option) act"
  and TarsSkipToTag :: "nat \<Rightarrow> byte \<Rightarrow> (istream, byte option) act"
  and read_Int32 :: "nat \<Rightarrow> tInt32 \<Rightarrow> byte \<Rightarrow> bool \<Rightarrow> (istream, tInt32) act"
where
  "skipField_type 0 ty = diverge"
| "skipField_type (Suc n) ty =
     (if ty = TarsHeadeChar then TarsReadHeadSkip 1
      else if ty = TarsHeadeShort then TarsReadHeadSkip 2
      else if ty = TarsHeadeInt32 then TarsReadHeadSkip 4
      else if ty = TarsHeadeInt64 then TarsReadHeadSkip 8
      else if ty = TarsHeadeFloat then TarsReadHeadSkip 4
      else if ty = TarsHeadeDouble then TarsReadHeadSkip 8
      else if ty = TarsHeadeString1 then
        andthen (TarsReadTypeBuf 1) (\<lambda>bs. TarsReadHeadSkip (uint (load_le bs :: byte)))
      else if ty = TarsHeadeString4 then
        andthen (TarsReadTypeBuf 4) (\<lambda>bs.
          TarsReadHeadSkip (uint (htonl (load_le bs :: tUInt32))))
      else if ty = TarsHeadeMap then
        andthen (read_Int32 n 0 0 True) (\<lambda>size.
          if - 2147483648 \<le> sint size * 2 \<and> sint size * 2 < 2147483648
          then skipFields n (sint size * 2) else fault)
      else if ty = TarsHeadeList then
        andthen (read_Int32 n 0 0 True) (\<lambda>size. skipFields n (sint size))
      else if ty = TarsHeadeSimpleList then
        andthen readFromHead (\<lambda>(headType, headTag).
          if headType \<noteq> TarsHeadeChar then throw TarsDecodeMismatch
          else andthen (read_Int32 n 0 0 True) (\<lambda>size. TarsReadHeadSkip (sint size)))
      else if ty = TarsHeadeStructBegin then skipToStructEnd n
      else if ty = TarsHeadeStructEnd \<or> ty = TarsHeadeZeroTag then ret ()
      else throw TarsDecodeMismatch)"
| "skipField 0 = diverge"
| "skipField (Suc n) = andthen readFromHeadNoTag (\<lambda>headType. skipField_type n headType)"
| "skipFields 0 k = diverge"
| "skipFields (Suc n) k =
     (if 0 < k then andthen (skipField n) (\<lambda>_. skipFields n (k - 1)) else ret ())"
| "skipToStructEnd 0 = diverge"
| "skipToStructEnd (Suc n) =
     andthen readFromHeadNoTag (\<lambda>headType.
       andthen (skipField_type n headType) (\<lambda>_.
         if headType \<noteq> TarsHeadeStructEnd then skipToStructEnd n else ret ()))"
| "skipLoop 0 tag = diverge"
| "skipLoop (Suc n) tag = (\<lambda>s.
     if hasEnd s then (Ok None, s)
     else andthen TarsPeekFromHead (\<lambda>(nextHeadType, nextHeadTag, len).
       if nextHeadType = TarsHeadeStructEnd \<or> tag < nextHeadTag then ret None
       else if tag = nextHeadTag then
         andthen (TarsReadHeadSkip (int len)) (\<lambda>_. ret (Some nextHeadType))
       else
         andthen (TarsReadHeadSkip (int len)) (\<lambda>_.
           andthen (skipField_type n nextHeadType) (\<lambda>_. skipLoop n tag))) s)"
| "TarsSkipToTag 0 tag = diverge"
| "TarsSkipToTag (Suc n) tag = catch_decode (skipLoop n tag) (ret None)"
| "read_Int32 0 d tag isRequire = diverge"
| "read_Int32 (Suc n) d tag isRequire =
     andthen (TarsSkipToTag n tag) (\<lambda>r. case r of
       Some headType \<Rightarrow>
         if headType = TarsHeadeZeroTag then ret 0
         else if headType = TarsHeadeChar then
           andthen (TarsReadTypeBuf 1) (\<lambda>bs. ret (scast (load_le bs :: tChar)))
         else if headType = TarsHeadeShort then
           andthen (TarsReadTypeBuf 2) (\<lambda>bs.
             let n = scast (load_le bs :: tShort) :: tInt32 in ret (scast (htons (ucast n))))
         else if headType = TarsHeadeInt32 then
           andthen (TarsReadTypeBuf 4) (\<lambda>bs. ret (htonl (load_le bs)))
         else throw TarsDecodeMismatch
     | None \<Rightarrow> if isRequire then throw TarsDecodeRequireNotExist else ret d)"

declare skipField_type.simps(2) [simp del] skipField.simps(2) [simp del]
  skipFields.simps(2) [simp del] skipToStructEnd.simps(2) [simp del] skipLoop.simps(2) [simp del]
  TarsSkipToTag.simps(2) [simp del] read_Int32.simps(2) [simp del]

text \<open>The member function \<open>skipToTag\<close>, which stops in front of the head.\<close>

fun skipToTag_loop :: "nat \<Rightarrow> byte \<Rightarrow> (istream, bool) act" where
  "skipToTag_loop 0 tag = diverge"
| "skipToTag_loop (Suc n) tag = (\<lambda>s.
     if hasEnd s then (Ok False, s)
     else andthen TarsPeekFromHead (\<lambda>(headType, headTag, len).
       if tag \<le> headTag \<or> headType = TarsHeadeStructEnd
       then ret (if headType = TarsHeadeStructEnd then False else tag = headTag)
       else andthen (TarsReadHeadSkip (int len)) (\<lambda>_.
         andthen (skipField_type n headType) (\<lambda>_. skipToTag_loop n tag))) s)"

definition skipToTag :: "nat \<Rightarrow> byte \<Rightarrow> (istream, bool) act" where
  "skipToTag n tag = catch_decode (skipToTag_loop n tag) (ret False)"

section \<open>Reading one field\<close>

text \<open>
  Every \<open>read\<close> overload takes the old value \<open>d\<close> of its reference argument and yields the
  new one; a missing optional field leaves it. All but \<open>Int32\<close> share this frame.
\<close>

definition read_field ::
  "nat \<Rightarrow> 'a \<Rightarrow> byte \<Rightarrow> bool \<Rightarrow> (byte \<Rightarrow> (istream, 'a) act) \<Rightarrow> (istream, 'a) act" where
  "read_field n d tag isRequire body =
     andthen (TarsSkipToTag n tag) (\<lambda>r. case r of
       Some headType \<Rightarrow> body headType
     | None \<Rightarrow> if isRequire then throw TarsDecodeRequireNotExist else ret d)"

definition read_Char :: "nat \<Rightarrow> tChar \<Rightarrow> byte \<Rightarrow> bool \<Rightarrow> (istream, tChar) act" where
  "read_Char n d tag isRequire = read_field n d tag isRequire (\<lambda>headType.
     if headType = TarsHeadeZeroTag then ret 0
     else if headType = TarsHeadeChar then
       andthen (TarsReadTypeBuf 1) (\<lambda>bs. ret (load_le bs))
     else throw TarsDecodeMismatch)"

definition read_Bool :: "nat \<Rightarrow> bool \<Rightarrow> byte \<Rightarrow> bool \<Rightarrow> (istream, bool) act" where
  "read_Bool n b tag isRequire =
     andthen (read_Char n (if b then 1 else 0) tag isRequire) (\<lambda>c. ret (c \<noteq> 0))"

definition read_Short :: "nat \<Rightarrow> tShort \<Rightarrow> byte \<Rightarrow> bool \<Rightarrow> (istream, tShort) act" where
  "read_Short n d tag isRequire = read_field n d tag isRequire (\<lambda>headType.
     if headType = TarsHeadeZeroTag then ret 0
     else if headType = TarsHeadeChar then
       andthen (TarsReadTypeBuf 1) (\<lambda>bs. ret (scast (load_le bs :: tChar)))
     else if headType = TarsHeadeShort then
       andthen (TarsReadTypeBuf 2) (\<lambda>bs. ret (htons (load_le bs)))
     else throw TarsDecodeMismatch)"

definition read_UInt8 :: "nat \<Rightarrow> tUInt8 \<Rightarrow> byte \<Rightarrow> bool \<Rightarrow> (istream, tUInt8) act" where
  "read_UInt8 n d tag isRequire =
     andthen (read_Short n (ucast d) tag isRequire) (\<lambda>i. ret (ucast i))"

definition read_UInt16 :: "nat \<Rightarrow> tUInt16 \<Rightarrow> byte \<Rightarrow> bool \<Rightarrow> (istream, tUInt16) act" where
  "read_UInt16 n d tag isRequire =
     andthen (read_Int32 n (ucast d) tag isRequire) (\<lambda>i. ret (ucast i))"

definition read_Int64 :: "nat \<Rightarrow> tInt64 \<Rightarrow> byte \<Rightarrow> bool \<Rightarrow> (istream, tInt64) act" where
  "read_Int64 n d tag isRequire = read_field n d tag isRequire (\<lambda>headType.
     if headType = TarsHeadeZeroTag then ret 0
     else if headType = TarsHeadeChar then
       andthen (TarsReadTypeBuf 1) (\<lambda>bs. ret (scast (load_le bs :: tChar)))
     else if headType = TarsHeadeShort then
       andthen (TarsReadTypeBuf 2) (\<lambda>bs.
         let n = scast (load_le bs :: tShort) :: tInt64 in ret (scast (htons (ucast n))))
     else if headType = TarsHeadeInt32 then
       andthen (TarsReadTypeBuf 4) (\<lambda>bs.
         let n = scast (load_le bs :: tInt32) :: tInt64 in ret (scast (htonl (ucast n))))
     else if headType = TarsHeadeInt64 then
       andthen (TarsReadTypeBuf 8) (\<lambda>bs. ret (tars_htonll (load_le bs)))
     else throw TarsDecodeMismatch)"

definition read_UInt32 :: "nat \<Rightarrow> tUInt32 \<Rightarrow> byte \<Rightarrow> bool \<Rightarrow> (istream, tUInt32) act" where
  "read_UInt32 n d tag isRequire =
     andthen (read_Int64 n (ucast d) tag isRequire) (\<lambda>i. ret (ucast i))"

definition read_Float :: "nat \<Rightarrow> tFloat \<Rightarrow> byte \<Rightarrow> bool \<Rightarrow> (istream, tFloat) act" where
  "read_Float n d tag isRequire = read_field n d tag isRequire (\<lambda>headType.
     if headType = TarsHeadeZeroTag then ret 0
     else if headType = TarsHeadeFloat then
       andthen (TarsReadTypeBuf 4) (\<lambda>bs. ret (tars_ntohf (load_le bs)))
     else throw TarsDecodeMismatch)"

text \<open>
  A \<open>Double\<close> field may hold a \<open>Float\<close>: the raw (still swapped) float is widened by the
  language's conversion \<open>widen\<close> on assignment and the result swapped as a \<open>float\<close> again,
  after the narrowing conversion \<open>narrow\<close> of the argument of \<open>tars_ntohf\<close>.
\<close>

definition read_Double ::
  "(tFloat \<Rightarrow> tDouble) \<Rightarrow> (tDouble \<Rightarrow> tFloat) \<Rightarrow> nat \<Rightarrow> tDouble \<Rightarrow> byte \<Rightarrow> bool \<Rightarrow> (istream, tDouble) act"
where
  "read_Double widen narrow n d tag isRequire = read_field n d tag isRequire (\<lambda>headType.
     if headType = TarsHeadeZeroTag then ret 0
     else if headType = TarsHeadeFloat then
       andthen (TarsReadTypeBuf 4) (\<lambda>bs.
         let n = widen (load_le bs) in ret (widen (tars_ntohf (narrow n))))
     else if headType = TarsHeadeDouble then
       andthen (TarsReadTypeBuf 8) (\<lambda>bs. ret (tars_ntohd (load_le bs)))
     else throw TarsDecodeMismatch)"

definition read_string :: "nat \<Rightarrow> bytes \<Rightarrow> byte \<Rightarrow> bool \<Rightarrow> (istream, bytes) act" where
  "read_string n d tag isRequire = read_field n d tag isRequire (\<lambda>headType.
     andthen
       (if headType = TarsHeadeString1 then
          andthen (TarsReadTypeBuf 1) (\<lambda>bs. ret (ucast (load_le bs :: byte)))
        else if headType = TarsHeadeString4 then
          andthen (TarsReadTypeBuf 4) (\<lambda>bs.
            let strLength = htonl (load_le bs) in
            if TARS_MAX_STRING_LENGTH < unat strLength then throw TarsDecodeInvalidValue
            else ret strLength)
        else throw TarsDecodeMismatch)
       (\<lambda>strLength :: tUInt32. TarsReadStringBuf (unat strLength)))"

text \<open>\<open>read(char* buf, bufLen, readLen, tag)\<close>: the bytes stored and their number.\<close>

definition read_charbuf :: "nat \<Rightarrow> tUInt32 \<Rightarrow> bytes \<Rightarrow> byte \<Rightarrow> bool \<Rightarrow> (istream, bytes) act" where
  "read_charbuf n bufLen d tag isRequire = read_field n d tag isRequire (\<lambda>headType.
     if headType = TarsHeadeSimpleList then
       andthen readFromHead (\<lambda>(hheadType, hheadTag).
         if hheadType \<noteq> TarsHeadeChar then throw TarsDecodeMismatch
         else andthen (read_UInt32 n 0 0 True) (\<lambda>size.
           if bufLen < size then throw TarsDecodeInvalidValue
           else readBuf (unat size)))
     else throw TarsDecodeMismatch)"

section \<open>Containers and structs\<close>

text \<open>
  \<open>v.resize(size)\<close> keeps the elements that are there and adds \<open>T()\<close> (\<open>d0\<close>); each is then the old
  value of \<open>read(v[i], 0)\<close>.
\<close>

definition vec_resize :: "nat \<Rightarrow> 'a \<Rightarrow> 'a list \<Rightarrow> 'a list" where
  "vec_resize k d0 v = take k v @ replicate (k - length v) d0"

primrec read_elems :: "('a \<Rightarrow> (istream, 'a) act) \<Rightarrow> 'a list \<Rightarrow> (istream, 'a list) act" where
  "read_elems rd [] = ret []"
| "read_elems rd (d # ds) =
     andthen (rd d) (\<lambda>x. andthen (read_elems rd ds) (\<lambda>xs. ret (x # xs)))"

text \<open>
  The size check against \<open>this->size()\<close>, the length of the whole buffer, comes before any
  element is read.
\<close>

definition checked_size :: "nat \<Rightarrow> (istream, nat) act" where
  "checked_size n = andthen (read_UInt32 n 0 0 True) (\<lambda>size s.
     if rlen s < unat size then (Throw TarsDecodeInvalidValue, s) else (Ok (unat size), s))"

definition read_vector_char :: "nat \<Rightarrow> bytes \<Rightarrow> byte \<Rightarrow> bool \<Rightarrow> (istream, bytes) act" where
  "read_vector_char n d tag isRequire = read_field n d tag isRequire (\<lambda>headType.
     if headType = TarsHeadeSimpleList then
       andthen readFromHead (\<lambda>(hheadType, hheadTag).
         if hheadType \<noteq> TarsHeadeChar then throw TarsDecodeMismatch
         else andthen (checked_size n) (\<lambda>size. readBuf size))
     else if headType = TarsHeadeList then
       andthen (checked_size n) (\<lambda>size. read_elems (\<lambda>c. read_Char n c 0 True) (vec_resize size 0 d))
     else throw TarsDecodeMismatch)"

definition read_vector ::
  "(nat \<Rightarrow> 'a \<Rightarrow> byte \<Rightarrow> bool \<Rightarrow> (istream, 'a) act) \<Rightarrow> 'a \<Rightarrow>
     nat \<Rightarrow> 'a list \<Rightarrow> byte \<Rightarrow> bool \<Rightarrow> (istream, 'a list) act" where
  "read_vector rd d0 n d tag isRequire = read_field n d tag isRequire (\<lambda>headType.
     if headType = TarsHeadeList then
       andthen (checked_size n) (\<lambda>size. read_elems (\<lambda>x. rd n x 0 True) (vec_resize size d0 d))
     else throw TarsDecodeMismatch)"

text \<open>
  \<open>std::map\<close> is its in-order sequence of pairs: ascending keys, each once. \<open>insert\<close> keeps the
  entry that is already there.
\<close>

fun map_insert :: "'k::linorder \<Rightarrow> 'v \<Rightarrow> ('k \<times> 'v) list \<Rightarrow> ('k \<times> 'v) list" where
  "map_insert k v [] = [(k, v)]"
| "map_insert k v ((k', v') # m) =
     (if k < k' then (k, v) # (k', v') # m
      else if k = k' then (k', v') # m
      else (k', v') # map_insert k v m)"

primrec read_pairs ::
  "(istream, 'k::linorder) act \<Rightarrow> (istream, 'v) act \<Rightarrow> nat \<Rightarrow> ('k \<times> 'v) list
     \<Rightarrow> (istream, ('k \<times> 'v) list) act" where
  "read_pairs rdk rdv 0 m = ret m"
| "read_pairs rdk rdv (Suc i) m =
     andthen rdk (\<lambda>k. andthen rdv (\<lambda>v. read_pairs rdk rdv i (map_insert k v m)))"

definition read_map ::
  "(nat \<Rightarrow> 'k \<Rightarrow> byte \<Rightarrow> bool \<Rightarrow> (istream, 'k::linorder) act) \<Rightarrow> 'k \<Rightarrow>
   (nat \<Rightarrow> 'v \<Rightarrow> byte \<Rightarrow> bool \<Rightarrow> (istream, 'v) act) \<Rightarrow> 'v \<Rightarrow>
     nat \<Rightarrow> ('k \<times> 'v) list \<Rightarrow> byte \<Rightarrow> bool \<Rightarrow> (istream, ('k \<times> 'v) list) act" where
  "read_map rdk dk rdv dv n d tag isRequire = read_field n d tag isRequire (\<lambda>headType.
     if headType = TarsHeadeMap then
       andthen (checked_size n) (\<lambda>size. read_pairs (rdk n dk 0 True) (rdv n dv 1 True) size [])
     else throw TarsDecodeMismatch)"

text \<open>\<open>read(T* v, len, readLen, tag)\<close>: \<open>len\<close> is never compared with the size on the wire, so
  element \<open>len\<close> and later ones are stored past the caller's array.\<close>

primrec read_array_elems ::
  "('a \<Rightarrow> (istream, 'a) act) \<Rightarrow> 'a list \<Rightarrow> nat \<Rightarrow> nat \<Rightarrow> (istream, 'a list) act" where
  "read_array_elems rd v i 0 = ret v"
| "read_array_elems rd v i (Suc k) =
     (if i < length v
      then andthen (rd (v ! i)) (\<lambda>x. read_array_elems rd (v[i := x]) (Suc i) k)
      else fault)"

definition read_array ::
  "(nat \<Rightarrow> 'a \<Rightarrow> byte \<Rightarrow> bool \<Rightarrow> (istream, 'a) act) \<Rightarrow>
     nat \<Rightarrow> 'a list \<Rightarrow> nat \<Rightarrow> byte \<Rightarrow> bool \<Rightarrow> (istream, 'a list \<times> nat) act" where
  "read_array rd n v readLen tag isRequire =
     read_field n (v, readLen) tag isRequire (\<lambda>headType.
       if headType = TarsHeadeList then
         andthen (checked_size n) (\<lambda>size.
           andthen (read_array_elems (\<lambda>x. rd n x 0 True) v 0 size) (\<lambda>v'. ret (v', size)))
       else throw TarsDecodeMismatch)"

definition read_enum :: "nat \<Rightarrow> byte \<Rightarrow> bool \<Rightarrow> (istream, tInt32) act" where
  "read_enum n tag isRequire = read_Int32 n 0 tag isRequire"

definition read_struct ::
  "(nat \<Rightarrow> 'a \<Rightarrow> (istream, 'a) act) \<Rightarrow> nat \<Rightarrow> 'a \<Rightarrow> byte \<Rightarrow> bool \<Rightarrow> (istream, 'a) act" where
  "read_struct readFrom n d tag isRequire = read_field n d tag isRequire (\<lambda>headType.
     if headType \<noteq> TarsHeadeStructBegin then throw TarsDecodeMismatch
     else andthen (readFrom n d) (\<lambda>v. andthen (skipToStructEnd n) (\<lambda>_. ret v)))"

section \<open>Unknown fields\<close>

text \<open>\<open>DataHead::peekFrom\<close>, through the checked \<open>peekBuf\<close> and the packed bit fields.\<close>

definition DataHead_peekFrom :: "(istream, byte \<times> byte \<times> nat) act" where
  "DataHead_peekFrom =
     andthen (peekBuf 1 0) (\<lambda>bs.
       let h = load_le bs :: byte; htype = take_bit 4 h; htag = drop_bit 4 h
       in if htag = 15 then andthen (peekBuf 1 1) (\<lambda>bs1. ret (htype, load_le bs1, 2))
          else ret (htype, htag, 1))"

definition DataHead_readFrom :: "(istream, byte \<times> byte) act" where
  "DataHead_readFrom =
     andthen DataHead_peekFrom (\<lambda>(ty, tag, n). andthen (reader_skip n) (\<lambda>_. ret (ty, tag)))"

fun readUnknown_loop :: "nat \<Rightarrow> byte \<Rightarrow> nat \<Rightarrow> (istream, nat) act" where
  "readUnknown_loop 0 lasttag lastpos = diverge"
| "readUnknown_loop (Suc n) lasttag lastpos = (\<lambda>s.
     if hasEnd s then (Ok lastpos, s)
     else andthen DataHead_peekFrom (\<lambda>(ty, tag, len).
       if tag \<le> lasttag then ret lastpos
       else andthen (reader_skip len) (\<lambda>_.
         andthen (skipField_type n ty) (\<lambda>_ s'. readUnknown_loop n tag (rcur s') s'))) s)"

definition readUnknown :: "nat \<Rightarrow> byte \<Rightarrow> (istream, bytes) act" where
  "readUnknown n tag s =
     (let start = rcur s in
      andthen (readUnknown_loop n tag start) (\<lambda>lastpos s'.
        case mem_read (rbuf s') start (size_sub lastpos start) of
          None \<Rightarrow> (Fault, s')
        | Some bs \<Rightarrow> (Ok bs, s')) s)"

end
