(* ===== verification/Tars_Stream.thy ===== *)
theory Tars_Stream
  imports Tars_Writer Tars_Input
begin

text \<open>
  The reading side of the calculus whose writing side is \<open>appends\<close>: \<open>stream_at s bs\<close> says that
  exactly \<open>bs\<close> is left in front of the cursor, and \<open>reads_if P m bs v\<close> that \<open>m\<close> consumes
  \<open>bs\<close> and yields \<open>v\<close> whenever what follows satisfies \<open>P\<close>. The lemmas compute each macro
  and member function at a known position.
\<close>

unbundle bit_operations_syntax

section \<open>Positions\<close>

definition stream_at :: "istream \<Rightarrow> bytes \<Rightarrow> bool" where
  "stream_at s bs \<longleftrightarrow>
     take (length bs) (drop (rcur s) (rbuf s)) = bs \<and> rlen s = rcur s + length bs \<and>
     rlen s \<le> length (rbuf s) \<and> 2 * rlen s < size_max"

definition adv :: "nat \<Rightarrow> istream \<Rightarrow> istream" where
  "adv k s = s\<lparr>rcur := rcur s + k\<rparr>"

lemma adv_0 [simp]: "adv 0 s = s"
  by (simp add: adv_def)

lemma adv_adv [simp]: "adv a (adv b s) = adv (b + a) s"
  by (simp add: adv_def add.assoc)

lemma rlen_adv [simp]: "rlen (adv k s) = rlen s"
  by (simp add: adv_def)

lemma rbuf_adv [simp]: "rbuf (adv k s) = rbuf s"
  by (simp add: adv_def)

lemma stream_at_adv:
  assumes "stream_at s (as @ bs)"
  shows "stream_at (adv (length as) s) bs"
proof -
  from assms have "drop (length as) (take (length as + length bs) (drop (rcur s) (rbuf s))) = bs"
    by (simp add: stream_at_def)
  then have "take (length bs) (drop (rcur s + length as) (rbuf s)) = bs"
    by (simp add: drop_take add.commute)
  with assms show ?thesis by (simp add: stream_at_def adv_def)
qed

lemma stream_at_le_rlen: "stream_at s bs \<Longrightarrow> length bs \<le> rlen s"
  by (simp add: stream_at_def)

lemma stream_at_small: "stream_at s bs \<Longrightarrow> 2 * (rcur s + length bs) < size_max"
  by (simp add: stream_at_def)

lemma stream_at_setBuffer:
  assumes "2 * length bs < size_max"
  shows "stream_at (setBuffer (bs @ m) (length bs) s) bs"
  using assms by (simp add: stream_at_def setBuffer_def)

lemma stream_at_setBuffer_vector:
  assumes "2 * length bs < size_max"
  shows "stream_at (setBuffer_vector bs s) bs"
  using assms by (simp add: stream_at_def setBuffer_vector_def)

lemma stream_at_mem_read:
  assumes at: "stream_at s bs" and le: "off + n \<le> length bs"
  shows "mem_read (rbuf s) (rcur s + off) n = Some (take n (drop off bs))"
proof -
  have "take n (drop off bs) = take n (drop off (take (length bs) (drop (rcur s) (rbuf s))))"
    using at by (simp add: stream_at_def)
  also have "\<dots> = take n (drop (rcur s + off) (rbuf s))"
    using le by (simp add: drop_take min_def add.commute)
  finally show ?thesis
    using at le by (simp add: mem_read_def stream_at_def)
qed

section \<open>The macros at a known position\<close>

lemma hasEnd_at: "stream_at s bs \<Longrightarrow> hasEnd s \<longleftrightarrow> bs = []"
  by (auto simp: stream_at_def hasEnd_def)

lemma PeekTypeBuf_at:
  assumes "stream_at s bs"
  shows "TarsPeekTypeBuf off n s =
    (if size_max \<le> 2 * (off + n) then TarsPeekTypeBuf off n s
     else if off + n \<le> length bs then (Ok (take n (drop off bs)), s)
     else (Throw TarsDecodeException, s))"
proof (cases "size_max \<le> 2 * (off + n)")
  case False
  then have "rcur s + off + n < size_max"
    using assms by (simp add: stream_at_def)
  then have "size_add (size_add (rcur s) off) n = rcur s + off + n" by simp
  then show ?thesis
    using False assms stream_at_mem_read [OF assms]
    by (auto simp: TarsPeekTypeBuf_def stream_at_def)
qed simp

lemma PeekTypeBuf_Ok:
  assumes "stream_at s bs" and "off + n \<le> length bs"
  shows "TarsPeekTypeBuf off n s = (Ok (take n (drop off bs)), s)"
  using assms stream_at_small [OF assms(1)] by (subst PeekTypeBuf_at [OF assms(1)]) auto

lemma PeekTypeBufNoTag_Ok:
  assumes "stream_at s bs" and "off + n \<le> length bs"
  shows "TarsPeekTypeBufNoTag off n s = (Ok (), s)"
  using assms by (simp add: TarsPeekTypeBufNoTag_def stream_at_def)

lemma ReadTypeBuf_Ok:
  assumes "stream_at s (xs @ r)" and "length xs = n"
  shows "TarsReadTypeBuf n s = (Ok xs, adv n s)"
  using assms PeekTypeBuf_Ok [OF assms(1), of 0 n]
  by (simp add: TarsReadTypeBuf_def act_simps adv_def stream_at_def)

lemma ReadStringBuf_Ok:
  assumes "stream_at s (xs @ r)" and "length xs = n"
  shows "TarsReadStringBuf n s = (Ok xs, adv n s)"
  using assms stream_at_mem_read [OF assms(1), of 0 n]
  by (simp add: TarsReadStringBuf_def adv_def stream_at_def)

lemma peekBuf_eq: "peekBuf n off = TarsPeekTypeBuf off n"
  by (rule ext) (simp add: peekBuf_def TarsPeekTypeBuf_def)

lemma readBuf_Ok:
  assumes "stream_at s (xs @ r)" and "length xs = n"
  shows "readBuf n s = (Ok xs, adv n s)"
  using assms PeekTypeBuf_Ok [OF assms(1), of 0 n]
  by (simp add: readBuf_def peekBuf_eq act_simps adv_def stream_at_def)

lemma HeadSkip_Ok:
  assumes "stream_at s bs" and "k \<le> length bs"
  shows "TarsReadHeadSkip (int k) s = (Ok (), adv k s)"
proof -
  have "(int (rcur s) + int k) mod int size_max = int (rcur s + k)"
    using assms by (subst mod_pos_pos_trivial) (auto simp: stream_at_def)
  then show ?thesis by (simp add: TarsReadHeadSkip_def adv_def)
qed

section \<open>Heads\<close>

lemma length_enc_head: "length (enc_head ty tag) = (if tag < 15 then 1 else 2)"
  by (simp add: enc_head_def)

lemma enc_head_nonempty [simp]: "enc_head ty tag \<noteq> []"
  by (simp add: enc_head_def)

lemma load_le_byte [simp]: "load_le [b] = (b :: byte)"
  by simp

lemma head_split:
  assumes "ty < (16 :: byte)" and "tag < (16 :: byte)"
  shows "drop_bit 4 (ty + push_bit 4 tag) = tag" and "(ty + push_bit 4 tag) AND 15 = ty"
    and "take_bit 4 (ty + push_bit 4 tag) = ty"
proof -
  have ty: "unat ty < 16" and tag: "unat tag < 16"
    using assms by (simp_all add: word_less_nat_alt)
  have push: "unat (push_bit 4 tag) = 16 * unat tag"
    using tag by (simp add: push_bit_eq_mult unat_word_ariths)
  have sum: "unat (ty + push_bit 4 tag) = unat ty + 16 * unat tag"
    using ty tag by (simp add: unat_word_ariths push)
  have "unat (drop_bit 4 (ty + push_bit 4 tag)) = unat tag"
    unfolding unat_drop_bit_eq using ty by (simp add: drop_bit_eq_div sum)
  then show "drop_bit 4 (ty + push_bit 4 tag) = tag" by (rule unsigned_word_eqI)
  have tb: "unat (take_bit 4 (ty + push_bit 4 tag)) = unat ty"
    unfolding unsigned_take_bit_eq using ty by (simp add: take_bit_eq_mod sum)
  then show take: "take_bit 4 (ty + push_bit 4 tag) = ty" by (rule unsigned_word_eqI)
  have "(ty + push_bit 4 tag) AND 15 = take_bit 4 (ty + push_bit 4 tag)"
    by (simp add: take_bit_eq_mask mask_eq_decr_exp)
  with take show "(ty + push_bit 4 tag) AND 15 = ty" by simp
qed

lemma head_15: "ty + 240 = ty + push_bit 4 (15 :: byte)"
  by simp

lemma PeekFromHead_Ok:
  assumes at: "stream_at s (enc_head ty tag @ r)" and ty: "ty < 16"
  shows "TarsPeekFromHead s = (Ok (ty, tag, length (enc_head ty tag)), s)"
proof (cases "tag < 15")
  case True
  then have "tag < 16" "tag \<noteq> 15" by (auto simp: word_less_nat_alt)
  with True at ty show ?thesis
    by (simp add: TarsPeekFromHead_def enc_head_def PeekTypeBuf_Ok [OF at] act_simps head_split)
next
  case False
  have "(15 :: byte) < 16" by simp
  note h = head_split [OF ty this]
  from False at have "TarsPeekTypeBuf 0 1 s = (Ok [ty + 240], s)"
    and "TarsPeekTypeBuf 1 1 s = (Ok [tag], s)"
    by (simp_all add: enc_head_def PeekTypeBuf_Ok [OF at])
  with False h show ?thesis
    by (simp add: TarsPeekFromHead_def enc_head_def act_simps head_15 [symmetric])
qed

lemma PeekFromHeadNoTag_Ok:
  assumes at: "stream_at s (enc_head ty tag @ r)" and ty: "ty < 16"
  shows "TarsPeekFromHeadNoTag s = (Ok (ty, length (enc_head ty tag)), s)"
proof (cases "tag < 15")
  case True
  then have "tag < 16" "tag \<noteq> 15" by (auto simp: word_less_nat_alt)
  with True at ty show ?thesis
    by (simp add: TarsPeekFromHeadNoTag_def enc_head_def PeekTypeBuf_Ok [OF at] act_simps
        head_split)
next
  case False
  have "(15 :: byte) < 16" by simp
  note h = head_split [OF ty this]
  from False at have "TarsPeekTypeBuf 0 1 s = (Ok [ty + 240], s)"
    and "TarsPeekTypeBufNoTag 1 1 s = (Ok (), s)"
    by (simp_all add: enc_head_def PeekTypeBuf_Ok [OF at] PeekTypeBufNoTag_Ok [OF at])
  with False h show ?thesis
    by (simp add: TarsPeekFromHeadNoTag_def enc_head_def act_simps head_15 [symmetric])
qed

lemma readFromHead_Ok:
  assumes "stream_at s (enc_head ty tag @ r)" and "ty < 16"
  shows "readFromHead s = (Ok (ty, tag), adv (length (enc_head ty tag)) s)"
  using HeadSkip_Ok [OF assms(1), of "length (enc_head ty tag)"]
  by (simp add: readFromHead_def PeekFromHead_Ok [OF assms] act_simps)

lemma readFromHeadNoTag_Ok:
  assumes "stream_at s (enc_head ty tag @ r)" and "ty < 16"
  shows "readFromHeadNoTag s = (Ok ty, adv (length (enc_head ty tag)) s)"
  using HeadSkip_Ok [OF assms(1), of "length (enc_head ty tag)"]
  by (simp add: readFromHeadNoTag_def PeekFromHeadNoTag_Ok [OF assms] act_simps)

text \<open>\<open>DataHead\<close> and the macros see the same head.\<close>

lemma DataHead_peekFrom_eq: "DataHead_peekFrom = TarsPeekFromHead"
  unfolding DataHead_peekFrom_def TarsPeekFromHead_def peekBuf_eq
  by (simp add: Let_def take_bit_eq_mask mask_eq_decr_exp)

section \<open>Finding a tag\<close>

text \<open>\<open>absent tag r\<close>: no field with this tag can come: the input or the struct ends here, or the
  next field has a larger tag.\<close>

definition absent :: "byte \<Rightarrow> bytes \<Rightarrow> bool" where
  "absent tag r \<longleftrightarrow> r = [] \<or>
     (\<exists>ty tg r'. r = enc_head ty tg @ r' \<and> ty < 16 \<and> (ty = TarsHeadeStructEnd \<or> tag < tg))"

lemma SkipToTag_found:
  assumes at: "stream_at s (enc_head ty tag @ r)" and ty: "ty < 16" "ty \<noteq> TarsHeadeStructEnd"
    and n: "2 \<le> n"
  shows "TarsSkipToTag n tag s = (Ok (Some ty), adv (length (enc_head ty tag)) s)"
proof -
  obtain m where n: "n = Suc (Suc m)" using n by (metis Suc_le_D numeral_2_eq_2 Suc_le_mono)
  have "\<not> hasEnd s" using hasEnd_at [OF at] by simp
  then have "skipLoop (Suc m) tag s = (Ok (Some ty), adv (length (enc_head ty tag)) s)"
    using ty HeadSkip_Ok [OF at, of "length (enc_head ty tag)"]
    by (simp add: skipLoop.simps(2) PeekFromHead_Ok [OF at ty(1)] act_simps)
  then show ?thesis
    unfolding n by (simp add: TarsSkipToTag.simps(2) act_simps)
qed

lemma SkipToTag_absent:
  assumes at: "stream_at s r" and ab: "absent tag r" and n: "2 \<le> n"
  shows "TarsSkipToTag n tag s = (Ok None, s)"
proof -
  obtain m where n: "n = Suc (Suc m)" using n by (metis Suc_le_D numeral_2_eq_2 Suc_le_mono)
  have "skipLoop (Suc m) tag s = (Ok None, s)"
  proof (cases "r = []")
    case True
    then show ?thesis using hasEnd_at [OF at] by (simp add: skipLoop.simps(2))
  next
    case False
    with ab obtain ty tg r' where r: "r = enc_head ty tg @ r'" "ty < 16"
      "ty = TarsHeadeStructEnd \<or> tag < tg"
      by (auto simp: absent_def)
    have "\<not> hasEnd s" using hasEnd_at [OF at] False by simp
    then show ?thesis
      using r at by (auto simp: skipLoop.simps(2) PeekFromHead_Ok act_simps)
  qed
  then show ?thesis
    unfolding n by (simp add: TarsSkipToTag.simps(2) act_simps)
qed

section \<open>The calculus\<close>

definition reads_if :: "(bytes \<Rightarrow> bool) \<Rightarrow> (istream, 'a) act \<Rightarrow> bytes \<Rightarrow> 'a \<Rightarrow> bool" where
  "reads_if P m bs v \<longleftrightarrow>
     (\<forall>s r. P r \<longrightarrow> stream_at s (bs @ r) \<longrightarrow> m s = (Ok v, adv (length bs) s))"

abbreviation reads :: "(istream, 'a) act \<Rightarrow> bytes \<Rightarrow> 'a \<Rightarrow> bool" where
  "reads \<equiv> reads_if (\<lambda>_. True)"

lemma reads_ifD:
  "reads_if P m bs v \<Longrightarrow> P r \<Longrightarrow> stream_at s (bs @ r) \<Longrightarrow> m s = (Ok v, adv (length bs) s)"
  by (simp add: reads_if_def)

lemma reads_ifI:
  "(\<And>s r. P r \<Longrightarrow> stream_at s (bs @ r) \<Longrightarrow> m s = (Ok v, adv (length bs) s)) \<Longrightarrow> reads_if P m bs v"
  by (simp add: reads_if_def)

lemma reads_weaken: "reads m bs v \<Longrightarrow> reads_if P m bs v"
  unfolding reads_if_def by blast

lemma reads_ret [intro]: "reads_if P (ret v) [] v"
  by (simp add: reads_if_def act_simps)

lemma reads_if_andthen:
  assumes m: "reads_if Q m as a" and f: "reads_if P (f a) bs b" and c: "cs = as @ bs"
    and PQ: "\<And>r. P r \<Longrightarrow> Q (bs @ r)"
  shows "reads_if P (andthen m f) cs b"
proof (rule reads_ifI)
  fix s r assume P: "P r" and at: "stream_at s (cs @ r)"
  then have 1: "m s = (Ok a, adv (length as) s)"
    by (intro reads_ifD [OF m PQ [OF P]]) (simp add: c)
  have "stream_at (adv (length as) s) (bs @ r)"
    using at by (intro stream_at_adv) (simp add: c)
  then have "f a (adv (length as) s) = (Ok b, adv (length bs) (adv (length as) s))"
    by (rule reads_ifD [OF f P])
  with 1 show "andthen m f s = (Ok b, adv (length cs) s)"
    by (simp add: act_simps c)
qed

lemma reads_andthen:
  assumes "reads m as a" and "reads_if P (f a) bs b" and "cs = as @ bs"
  shows "reads_if P (andthen m f) cs b"
  using assms by (rule reads_if_andthen) simp

lemma reads_andthen_ret:
  assumes "reads_if P m bs a" and "b = g a"
  shows "reads_if P (andthen m (\<lambda>a. ret (g a))) bs b"
  using assms by (auto simp: reads_if_def act_simps)

lemma reads_TypeBuf: "length xs = n \<Longrightarrow> reads (TarsReadTypeBuf n) xs xs"
  by (rule reads_ifI) (simp add: ReadTypeBuf_Ok)

lemma reads_StringBuf: "length xs = n \<Longrightarrow> reads (TarsReadStringBuf n) xs xs"
  by (rule reads_ifI) (simp add: ReadStringBuf_Ok)

lemma reads_readBuf: "length xs = n \<Longrightarrow> reads (readBuf n) xs xs"
  by (rule reads_ifI) (simp add: readBuf_Ok)

lemma reads_readFromHead:
  "ty < 16 \<Longrightarrow> reads readFromHead (enc_head ty tag) (ty, tag)"
  by (rule reads_ifI) (simp add: readFromHead_Ok)

lemma reads_readFromHeadNoTag:
  "ty < 16 \<Longrightarrow> reads readFromHeadNoTag (enc_head ty tag) ty"
  by (rule reads_ifI) (simp add: readFromHeadNoTag_Ok)

lemma reads_HeadSkip: "k = length xs \<Longrightarrow> reads (TarsReadHeadSkip (int k)) xs ()"
  by (rule reads_ifI) (simp add: HeadSkip_Ok)

lemma reads_SkipToTag:
  "ty < 16 \<Longrightarrow> ty \<noteq> TarsHeadeStructEnd \<Longrightarrow> 2 \<le> n \<Longrightarrow>
     reads (TarsSkipToTag n tag) (enc_head ty tag) (Some ty)"
  by (rule reads_ifI) (simp add: SkipToTag_found)

lemma reads_SkipToTag_absent:
  "2 \<le> n \<Longrightarrow> reads_if (absent tag) (TarsSkipToTag n tag) [] None"
  by (rule reads_ifI) (simp add: SkipToTag_absent)

lemma reads_field:
  assumes "ty < 16" and "ty \<noteq> TarsHeadeStructEnd" and "2 \<le> n"
    and "reads_if P (body ty) bs v" and "cs = enc_head ty tag @ bs"
  shows "reads_if P (read_field n d tag q body) cs v"
  unfolding read_field_def
  by (rule reads_andthen [OF reads_SkipToTag]) (use assms in auto)

text \<open>A missing optional field: nothing is consumed and the old value stays.\<close>

lemma reads_field_absent:
  assumes "2 \<le> n"
  shows "reads_if (absent tag) (read_field n d tag False body) [] d"
  unfolding read_field_def
  by (rule reads_if_andthen [OF reads_SkipToTag_absent]) (use assms in auto)

text \<open>A missing required field: \<open>TarsDecodeRequireNotExist\<close>, and the cursor has not moved.\<close>

lemma read_field_required:
  assumes "stream_at s r" and "absent tag r" and "2 \<le> n"
  shows "read_field n d tag True body s = (Throw TarsDecodeRequireNotExist, s)"
  using SkipToTag_absent [OF assms] by (simp add: read_field_def act_simps)

end
