(* ===== verification/Tars_Output.thy ===== *)
theory Tars_Output
  imports Tars_Writer Tars_Input
begin

text \<open>
  \<open>TarsOutputStream\<close> of \<^verbatim>\<open>src/tup/Tars.h\<close>: one action per \<open>write\<close> overload, and beside it the
  byte string \<open>enc_...\<close> that the overload puts on the wire. The \<open>appends\<close> lemmas say that the
  first implements the second on any growing writer.
\<close>

section \<open>The write overloads\<close>

definition write_Char :: "tChar \<Rightarrow> byte \<Rightarrow> (ostream, unit) act" where
  "write_Char n tag =
     (if n = 0 then TarsWriteToHead TarsHeadeZeroTag tag
      else andthen (TarsWriteToHead TarsHeadeChar tag) (\<lambda>_. TarsWriteCharTypeBuf n))"

definition write_Bool :: "bool \<Rightarrow> byte \<Rightarrow> (ostream, unit) act" where
  "write_Bool b tag = write_Char (if b then 1 else 0) tag"

definition write_Short :: "tShort \<Rightarrow> byte \<Rightarrow> (ostream, unit) act" where
  "write_Short n tag =
     (if - 128 \<le> sint n \<and> sint n \<le> 127 then write_Char (ucast n) tag
      else andthen (TarsWriteToHead TarsHeadeShort tag) (\<lambda>_. TarsWriteShortTypeBuf (htons n)))"

definition write_UInt8 :: "tUInt8 \<Rightarrow> byte \<Rightarrow> (ostream, unit) act" where
  "write_UInt8 n tag = write_Short (ucast n) tag"

definition write_Int32 :: "tInt32 \<Rightarrow> byte \<Rightarrow> (ostream, unit) act" where
  "write_Int32 n tag =
     (if - 32768 \<le> sint n \<and> sint n \<le> 32767 then write_Short (ucast n) tag
      else andthen (TarsWriteToHead TarsHeadeInt32 tag) (\<lambda>_. TarsWriteInt32TypeBuf (htonl n)))"

definition write_UInt16 :: "tUInt16 \<Rightarrow> byte \<Rightarrow> (ostream, unit) act" where
  "write_UInt16 n tag = write_Int32 (ucast n) tag"

definition write_Int64 :: "tInt64 \<Rightarrow> byte \<Rightarrow> (ostream, unit) act" where
  "write_Int64 n tag =
     (if - 2147483648 \<le> sint n \<and> sint n \<le> 2147483647 then write_Int32 (ucast n) tag
      else andthen (TarsWriteToHead TarsHeadeInt64 tag)
             (\<lambda>_. TarsWriteInt64TypeBuf (tars_htonll n)))"

definition write_UInt32 :: "tUInt32 \<Rightarrow> byte \<Rightarrow> (ostream, unit) act" where
  "write_UInt32 n tag = write_Int64 (ucast n) tag"

definition write_Float :: "tFloat \<Rightarrow> byte \<Rightarrow> (ostream, unit) act" where
  "write_Float n tag =
     andthen (TarsWriteToHead TarsHeadeFloat tag) (\<lambda>_. TarsWriteFloatTypeBuf (tars_ntohf n))"

definition write_Double :: "tDouble \<Rightarrow> byte \<Rightarrow> (ostream, unit) act" where
  "write_Double n tag =
     andthen (TarsWriteToHead TarsHeadeDouble tag) (\<lambda>_. TarsWriteDoubleTypeBuf (tars_ntohd n))"

definition write_string :: "bytes \<Rightarrow> byte \<Rightarrow> (ostream, unit) act" where
  "write_string s tag =
     (if 255 < length s then
        if TARS_MAX_STRING_LENGTH < length s then throw TarsDecodeInvalidValue
        else andthen (TarsWriteToHead TarsHeadeString4 tag) (\<lambda>_.
          andthen (TarsWriteUInt32TTypeBuf (htonl (word_of_nat (length s)))) (\<lambda>_.
            TarsWriteTypeBuf s))
      else andthen (TarsWriteToHead TarsHeadeString1 tag) (\<lambda>_.
        andthen (TarsWriteUInt8TTypeBuf (word_of_nat (length s))) (\<lambda>_. TarsWriteTypeBuf s)))"

definition write_charbuf :: "bytes \<Rightarrow> tUInt32 \<Rightarrow> byte \<Rightarrow> (ostream, unit) act" where
  "write_charbuf buf len tag =
     andthen (TarsWriteToHead TarsHeadeSimpleList tag) (\<lambda>_.
       andthen (TarsWriteToHead TarsHeadeChar 0) (\<lambda>_.
         andthen (write_UInt32 len 0) (\<lambda>_.
           case mem_read buf 0 (unat len) of None \<Rightarrow> fault | Some bs \<Rightarrow> TarsWriteTypeBuf bs)))"

primrec write_elems :: "('a \<Rightarrow> (ostream, unit) act) \<Rightarrow> 'a list \<Rightarrow> (ostream, unit) act" where
  "write_elems wr [] = ret ()"
| "write_elems wr (x # xs) = andthen (wr x) (\<lambda>_. write_elems wr xs)"

definition write_map ::
  "('k \<Rightarrow> byte \<Rightarrow> (ostream, unit) act) \<Rightarrow> ('v \<Rightarrow> byte \<Rightarrow> (ostream, unit) act) \<Rightarrow>
     ('k \<times> 'v) list \<Rightarrow> byte \<Rightarrow> (ostream, unit) act" where
  "write_map wrk wrv m tag =
     andthen (TarsWriteToHead TarsHeadeMap tag) (\<lambda>_.
       andthen (write_Int32 (word_of_nat (length m)) 0) (\<lambda>_.
         write_elems (\<lambda>(k, v). andthen (wrk k 0) (\<lambda>_. wrv v 1)) m))"

definition write_vector ::
  "('a \<Rightarrow> byte \<Rightarrow> (ostream, unit) act) \<Rightarrow> 'a list \<Rightarrow> byte \<Rightarrow> (ostream, unit) act" where
  "write_vector wr v tag =
     andthen (TarsWriteToHead TarsHeadeList tag) (\<lambda>_.
       andthen (write_Int32 (word_of_nat (length v)) 0) (\<lambda>_. write_elems (\<lambda>x. wr x 0) v))"

text \<open>The array overload counts with an \<open>Int32\<close>, so from \<open>2\<^sup>3\<^sup>1\<close> on it writes no element.\<close>

definition write_array ::
  "('a \<Rightarrow> byte \<Rightarrow> (ostream, unit) act) \<Rightarrow> 'a list \<Rightarrow> tUInt32 \<Rightarrow> byte \<Rightarrow> (ostream, unit) act" where
  "write_array wr v len tag =
     andthen (TarsWriteToHead TarsHeadeList tag) (\<lambda>_.
       andthen (write_UInt32 len 0) (\<lambda>_.
         let k = nat (sint len) in
         if k \<le> length v then write_elems (\<lambda>x. wr x 0) (take k v)
         else andthen (write_elems (\<lambda>x. wr x 0) v) (\<lambda>_. fault)))"

definition write_vector_char :: "bytes \<Rightarrow> byte \<Rightarrow> (ostream, unit) act" where
  "write_vector_char v tag =
     andthen (TarsWriteToHead TarsHeadeSimpleList tag) (\<lambda>_.
       andthen (TarsWriteToHead TarsHeadeChar 0) (\<lambda>_.
         andthen (write_Int32 (word_of_nat (length v)) 0) (\<lambda>_. TarsWriteTypeBuf v)))"

definition write_enum :: "tInt32 \<Rightarrow> byte \<Rightarrow> (ostream, unit) act" where
  "write_enum v tag = write_Int32 v tag"

definition write_struct ::
  "('a \<Rightarrow> (ostream, unit) act) \<Rightarrow> 'a \<Rightarrow> byte \<Rightarrow> (ostream, unit) act" where
  "write_struct writeTo v tag =
     andthen (TarsWriteToHead TarsHeadeStructBegin tag) (\<lambda>_.
       andthen (writeTo v) (\<lambda>_. TarsWriteToHead TarsHeadeStructEnd 0))"

text \<open>\<open>DataHead::writeTo\<close>: the type is truncated to its four-bit field.\<close>

definition DataHead_writeTo :: "byte \<Rightarrow> byte \<Rightarrow> (ostream, unit) act" where
  "DataHead_writeTo ty tag =
     (if tag < 15 then writeBuf [take_bit 4 ty + push_bit 4 tag]
      else andthen (writeBuf [take_bit 4 ty + push_bit 4 15]) (\<lambda>_. writeBuf [tag]))"

definition writeUnknown :: "bytes \<Rightarrow> (ostream, unit) act" where
  "writeUnknown s = writeBuf s"

definition writeUnknownV2 :: "bytes \<Rightarrow> (ostream, unit) act" where
  "writeUnknownV2 s =
     andthen (DataHead_writeTo TarsHeadeStructBegin 0) (\<lambda>_.
       andthen (writeBuf s) (\<lambda>_. DataHead_writeTo TarsHeadeStructEnd 0))"

section \<open>The bytes they put on the wire\<close>

definition enc_Char :: "tChar \<Rightarrow> byte \<Rightarrow> bytes" where
  "enc_Char n tag =
     (if n = 0 then enc_head TarsHeadeZeroTag tag else enc_head TarsHeadeChar tag @ [n])"

definition enc_Short :: "tShort \<Rightarrow> byte \<Rightarrow> bytes" where
  "enc_Short n tag =
     (if - 128 \<le> sint n \<and> sint n \<le> 127 then enc_Char (ucast n) tag
      else enc_head TarsHeadeShort tag @ be 2 n)"

definition enc_Int32 :: "tInt32 \<Rightarrow> byte \<Rightarrow> bytes" where
  "enc_Int32 n tag =
     (if - 32768 \<le> sint n \<and> sint n \<le> 32767 then enc_Short (ucast n) tag
      else enc_head TarsHeadeInt32 tag @ be 4 n)"

definition enc_Int64 :: "tInt64 \<Rightarrow> byte \<Rightarrow> bytes" where
  "enc_Int64 n tag =
     (if - 2147483648 \<le> sint n \<and> sint n \<le> 2147483647 then enc_Int32 (ucast n) tag
      else enc_head TarsHeadeInt64 tag @ be 8 n)"

definition enc_Bool :: "bool \<Rightarrow> byte \<Rightarrow> bytes" where
  "enc_Bool b tag = enc_Char (if b then 1 else 0) tag"

definition enc_UInt8 :: "tUInt8 \<Rightarrow> byte \<Rightarrow> bytes" where
  "enc_UInt8 n tag = enc_Short (ucast n) tag"

definition enc_UInt16 :: "tUInt16 \<Rightarrow> byte \<Rightarrow> bytes" where
  "enc_UInt16 n tag = enc_Int32 (ucast n) tag"

definition enc_UInt32 :: "tUInt32 \<Rightarrow> byte \<Rightarrow> bytes" where
  "enc_UInt32 n tag = enc_Int64 (ucast n) tag"

definition enc_Float :: "tFloat \<Rightarrow> byte \<Rightarrow> bytes" where
  "enc_Float n tag = enc_head TarsHeadeFloat tag @ be 4 n"

definition enc_Double :: "tDouble \<Rightarrow> byte \<Rightarrow> bytes" where
  "enc_Double n tag = enc_head TarsHeadeDouble tag @ be 8 n"

definition enc_string :: "bytes \<Rightarrow> byte \<Rightarrow> bytes" where
  "enc_string s tag =
     (if 255 < length s
      then enc_head TarsHeadeString4 tag @ be 4 (word_of_nat (length s) :: tUInt32) @ s
      else enc_head TarsHeadeString1 tag @ [word_of_nat (length s)] @ s)"

definition enc_vector_char :: "bytes \<Rightarrow> byte \<Rightarrow> bytes" where
  "enc_vector_char v tag =
     enc_head TarsHeadeSimpleList tag @ enc_head TarsHeadeChar 0 @
     enc_Int32 (word_of_nat (length v)) 0 @ v"

definition enc_vector :: "('a \<Rightarrow> byte \<Rightarrow> bytes) \<Rightarrow> 'a list \<Rightarrow> byte \<Rightarrow> bytes" where
  "enc_vector enc v tag =
     enc_head TarsHeadeList tag @ enc_Int32 (word_of_nat (length v)) 0 @
     concat (map (\<lambda>x. enc x 0) v)"

definition enc_pair ::
  "('k \<Rightarrow> byte \<Rightarrow> bytes) \<Rightarrow> ('v \<Rightarrow> byte \<Rightarrow> bytes) \<Rightarrow> 'k \<times> 'v \<Rightarrow> bytes" where
  "enc_pair enck encv kv = enck (fst kv) 0 @ encv (snd kv) 1"

definition enc_map ::
  "('k \<Rightarrow> byte \<Rightarrow> bytes) \<Rightarrow> ('v \<Rightarrow> byte \<Rightarrow> bytes) \<Rightarrow> ('k \<times> 'v) list \<Rightarrow> byte \<Rightarrow> bytes" where
  "enc_map enck encv m tag =
     enc_head TarsHeadeMap tag @ enc_Int32 (word_of_nat (length m)) 0 @
     concat (map (enc_pair enck encv) m)"

definition enc_struct :: "('a \<Rightarrow> bytes) \<Rightarrow> 'a \<Rightarrow> byte \<Rightarrow> bytes" where
  "enc_struct enc_body v tag =
     enc_head TarsHeadeStructBegin tag @ enc_body v @ enc_head TarsHeadeStructEnd 0"

section \<open>The overloads implement the encodings\<close>

lemma appends_ShortTypeBuf_net: "appends (TarsWriteShortTypeBuf (htons n)) (be 2 n)"
  using appends_scalar(3) [of "htons n"] by (simp add: store_htons)

lemma appends_Int32TypeBuf_net: "appends (TarsWriteInt32TypeBuf (htonl n)) (be 4 n)"
  using appends_scalar(4) [of "htonl n"] by (simp add: store_htonl)

lemma appends_UInt32TypeBuf_net: "appends (TarsWriteUInt32TTypeBuf (htonl n)) (be 4 n)"
  using appends_scalar(5) [of "htonl n"] by (simp add: store_htonl)

lemma appends_Int64TypeBuf_net: "appends (TarsWriteInt64TypeBuf (tars_htonll n)) (be 8 n)"
  using appends_scalar(6) [of "tars_htonll n"] by (simp add: store_htonll)

lemmas appends_net =
  appends_ShortTypeBuf_net appends_Int32TypeBuf_net appends_UInt32TypeBuf_net
  appends_Int64TypeBuf_net

lemma appends_Char: "appends (write_Char n tag) (enc_Char n tag)"
  by (auto simp: write_Char_def enc_Char_def)

lemma appends_Bool: "appends (write_Bool b tag) (enc_Bool b tag)"
  by (simp add: write_Bool_def enc_Bool_def appends_Char)

lemma appends_Short: "appends (write_Short n tag) (enc_Short n tag)"
  by (auto simp: write_Short_def enc_Short_def intro: appends_Char appends_net)

lemma appends_UInt8: "appends (write_UInt8 n tag) (enc_UInt8 n tag)"
  by (simp add: write_UInt8_def enc_UInt8_def appends_Short)

lemma appends_Int32: "appends (write_Int32 n tag) (enc_Int32 n tag)"
  by (auto simp: write_Int32_def enc_Int32_def intro: appends_Short appends_net)

lemma appends_UInt16: "appends (write_UInt16 n tag) (enc_UInt16 n tag)"
  by (simp add: write_UInt16_def enc_UInt16_def appends_Int32)

lemma appends_Int64: "appends (write_Int64 n tag) (enc_Int64 n tag)"
  by (auto simp: write_Int64_def enc_Int64_def intro: appends_Int32 appends_net)

lemma appends_UInt32: "appends (write_UInt32 n tag) (enc_UInt32 n tag)"
  by (simp add: write_UInt32_def enc_UInt32_def appends_Int64)

lemma appends_Float: "appends (write_Float n tag) (enc_Float n tag)"
  using appends_scalar(7) [of "htonl n"]
  by (auto simp: write_Float_def enc_Float_def tars_ntohf_def store_htonl)

lemma appends_Double: "appends (write_Double n tag) (enc_Double n tag)"
  using appends_scalar(8) [of "tars_htonll n"]
  by (auto simp: write_Double_def enc_Double_def tars_ntohd_def store_htonll)

lemma appends_string:
  "length s \<le> TARS_MAX_STRING_LENGTH \<Longrightarrow> appends (write_string s tag) (enc_string s tag)"
  unfolding write_string_def enc_string_def
  by (auto simp: store_htonl
      intro!: appends_andthen appends_net appends_scalar appends_head appends_TypeBuf)

lemma appends_elems:
  "(\<And>x. x \<in> set xs \<Longrightarrow> appends (wr x) (e x)) \<Longrightarrow>
     appends (write_elems wr xs) (concat (map e xs))"
  by (induction xs) (auto intro!: appends_andthen)

lemma appends_vector_char: "appends (write_vector_char v tag) (enc_vector_char v tag)"
  unfolding write_vector_char_def enc_vector_char_def
  by (auto intro!: appends_andthen appends_Int32 appends_head appends_TypeBuf)

lemma appends_vector:
  "(\<And>x. x \<in> set v \<Longrightarrow> appends (wr x 0) (enc x 0)) \<Longrightarrow>
     appends (write_vector wr v tag) (enc_vector enc v tag)"
  unfolding write_vector_def enc_vector_def
  by (auto intro!: appends_andthen appends_Int32 appends_head appends_elems)

lemma appends_map:
  assumes "\<And>k v. (k, v) \<in> set m \<Longrightarrow> appends (wrk k 0) (enck k 0)"
    and "\<And>k v. (k, v) \<in> set m \<Longrightarrow> appends (wrv v 1) (encv v 1)"
  shows "appends (write_map wrk wrv m tag) (enc_map enck encv m tag)"
proof -
  have "appends (write_elems (\<lambda>(k, v). andthen (wrk k 0) (\<lambda>_. wrv v 1)) m)
      (concat (map (enc_pair enck encv) m))"
    by (rule appends_elems) (auto simp: enc_pair_def intro!: appends_andthen assms)
  then show ?thesis
    unfolding write_map_def enc_map_def
    by (auto intro!: appends_andthen appends_Int32 appends_head)
qed

lemma appends_struct:
  "appends (writeTo v) (enc_body v) \<Longrightarrow>
     appends (write_struct writeTo v tag) (enc_struct enc_body v tag)"
  unfolding write_struct_def enc_struct_def
  by (auto intro!: appends_andthen appends_head)

lemma appends_DataHead: "ty < 16 \<Longrightarrow> appends (DataHead_writeTo ty tag) (enc_head ty tag)"
proof -
  assume "ty < 16"
  then have "unat (take_bit 4 ty) = unat ty"
    unfolding unsigned_take_bit_eq by (simp add: take_bit_eq_mod word_less_nat_alt)
  then have "take_bit 4 ty = ty" by (rule unsigned_word_eqI)
  then show ?thesis
    unfolding DataHead_writeTo_def enc_head_def
    by (auto intro!: appends_andthen appends_scalar(9))
qed

text \<open>
  What the writer does with an over-long string: it throws, and nothing has been written.
\<close>

lemma write_string_too_long:
  "TARS_MAX_STRING_LENGTH < length s \<Longrightarrow>
     write_string s tag os = (Throw TarsDecodeInvalidValue, os)"
  by (simp add: write_string_def TARS_MAX_STRING_LENGTH_def act_simps)

end
