(* ===== verification/Tars_Codec.thy ===== *)
theory Tars_Codec
  imports Tars_Stream Tars_Output
begin

text \<open>
  Round trips of the wire format. The interface every wire type has to offer is the locale
  \<open>tars_codec\<close>: its writer appends the encoding, the encoding is one complete field, its reader
  gets the value back, and an optional field that is not there leaves the old value. Containers
  and structs are codecs over codecs, proved once inside the locales.
\<close>

unbundle bit_operations_syntax

section \<open>Fields\<close>

text \<open>
  \<open>is_field tag k bs\<close>: \<open>bs\<close> is a head with this tag, not a struct end, and a body that
  \<open>skipField\<close> passes over exactly, with any fuel from \<open>k\<close> on.
\<close>

definition is_field :: "byte \<Rightarrow> nat \<Rightarrow> bytes \<Rightarrow> bool" where
  "is_field tag k bs \<longleftrightarrow>
     (\<exists>ty body. ty < 16 \<and> ty \<noteq> TarsHeadeStructEnd \<and> bs = enc_head ty tag @ body \<and>
        (\<forall>n \<ge> k. reads (skipField_type n ty) body ()))"

lemma is_fieldI:
  "ty < 16 \<Longrightarrow> ty \<noteq> TarsHeadeStructEnd \<Longrightarrow> bs = enc_head ty tag @ body \<Longrightarrow>
     (\<And>n. k \<le> n \<Longrightarrow> reads (skipField_type n ty) body ()) \<Longrightarrow> is_field tag k bs"
  unfolding is_field_def by blast

lemma is_fieldE:
  assumes "is_field tag k bs"
  obtains ty body where "ty < 16" and "ty \<noteq> TarsHeadeStructEnd" and "bs = enc_head ty tag @ body"
    and "\<And>n. k \<le> n \<Longrightarrow> reads (skipField_type n ty) body ()"
  using assms unfolding is_field_def by blast

lemma is_field_nonempty: "is_field tag k bs \<Longrightarrow> bs \<noteq> []"
  by (auto elim: is_fieldE)

lemma is_field_mono: "is_field tag k bs \<Longrightarrow> k \<le> k' \<Longrightarrow> is_field tag k' bs"
  by (elim is_fieldE) (rule is_fieldI, auto)

lemma reads_skipField:
  assumes "is_field tag k bs" and "k < n"
  shows "reads (skipField n) bs ()"
proof -
  from assms(1) obtain ty body where f: "ty < 16" "bs = enc_head ty tag @ body"
    "\<And>n. k \<le> n \<Longrightarrow> reads (skipField_type n ty) body ()"
    by (auto elim: is_fieldE)
  from assms(2) obtain m where n: "n = Suc m" "k \<le> m" by (cases n) auto
  show ?thesis
    unfolding n skipField.simps(2)
    by (rule reads_andthen [OF reads_readFromHeadNoTag [OF f(1)] _ f(2)]) (rule f(3) [OF n(2)])
qed

lemma reads_skipFields:
  assumes "list_all2 (\<lambda>k bs. \<exists>tag. is_field tag k bs) ks bss"
    and "Suc (sum_list (map Suc ks)) \<le> n"
  shows "reads (skipFields n (int (length bss))) (concat bss) ()"
  using assms
proof (induction ks bss arbitrary: n rule: list_all2_induct)
  case Nil
  then obtain m where "n = Suc m" by (cases n) auto
  then show ?case by (auto simp: skipFields.simps(2))
next
  case (Cons k ks bs bss)
  then obtain m where n: "n = Suc m" "k < m" "Suc (sum_list (map Suc ks)) \<le> m"
    by (cases n) auto
  from Cons.hyps obtain tag where "is_field tag k bs" by blast
  then have "reads (skipField m) bs ()" using n(2) by (rule reads_skipField)
  moreover have "reads (skipFields m (int (length bss))) (concat bss) ()"
    by (rule Cons.IH [OF n(3)])
  ultimately show ?case
    unfolding n by (auto simp: skipFields.simps(2) intro: reads_andthen)
qed

text \<open>A reader that looks for a tag passes over all complete fields with smaller tags.\<close>

lemma reads_skipLoop_over:
  assumes "list_all2 (\<lambda>(k, t) bs. t < tag \<and> is_field t k bs) kts bss"
    and "Suc (sum_list (map (Suc \<circ> fst) kts)) \<le> n"
    and ty: "ty < 16" "ty \<noteq> TarsHeadeStructEnd"
  shows "reads (skipLoop n tag) (concat bss @ enc_head ty tag) (Some ty)"
  using assms(1,2)
proof (induction kts bss arbitrary: n rule: list_all2_induct)
  case Nil
  then obtain m where n: "n = Suc m" by (cases n) auto
  show ?case
  proof (rule reads_ifI)
    fix s r assume at: "stream_at s ((concat [] @ enc_head ty tag) @ r)"
    then have at': "stream_at s (enc_head ty tag @ r)" by simp
    then have "\<not> hasEnd s" by (simp add: hasEnd_at)
    then show "skipLoop n tag s = (Ok (Some ty), adv (length (concat [] @ enc_head ty tag)) s)"
      using ty HeadSkip_Ok [OF at', of "length (enc_head ty tag)"]
      by (simp add: n skipLoop.simps(2) PeekFromHead_Ok [OF at' ty(1)] act_simps)
  qed
next
  case (Cons kt kts bs bss)
  obtain k t where kt: "kt = (k, t)" by (cases kt)
  with Cons.prems obtain m where n: "n = Suc m" "k \<le> m" "Suc (sum_list (map (Suc \<circ> fst) kts)) \<le> m"
    by (cases n) (auto simp: o_def)
  from Cons.hyps(1) kt have t: "t < tag" "is_field t k bs" by auto
  then obtain ty' body where f: "ty' < 16" "ty' \<noteq> TarsHeadeStructEnd" "bs = enc_head ty' t @ body"
    "reads (skipField_type m ty') body ()"
    using n(2) by (auto elim: is_fieldE)
  have rest: "reads (skipLoop m tag) (concat bss @ enc_head ty tag) (Some ty)"
    by (rule Cons.IH [OF n(3)])
  have body: "reads (andthen (skipField_type m ty') (\<lambda>_. skipLoop m tag))
      (body @ concat bss @ enc_head ty tag) (Some ty)"
    by (rule reads_andthen [OF f(4) rest]) simp
  show ?case
  proof (rule reads_ifI)
    fix s r assume at: "stream_at s ((concat (bs # bss) @ enc_head ty tag) @ r)"
    then have at': "stream_at s (enc_head ty' t @ (body @ concat bss @ enc_head ty tag) @ r)"
      by (simp add: f(3))
    then have "\<not> hasEnd s" by (simp add: hasEnd_at)
    moreover have "\<not> tag < t" "tag \<noteq> t" using t(1) by auto
    ultimately show "skipLoop n tag s =
        (Ok (Some ty), adv (length (concat (bs # bss) @ enc_head ty tag)) s)"
      using f HeadSkip_Ok [OF at', of "length (enc_head ty' t)"]
        reads_ifD [OF body TrueI stream_at_adv [OF at']]
      by (simp add: n skipLoop.simps(2) PeekFromHead_Ok [OF at' f(1)] act_simps add.assoc)
  qed
qed

section \<open>Narrowing and widening\<close>

lemma scast_ucast_id:
  fixes n :: "'a::len word"
  assumes le: "LENGTH('b) \<le> LENGTH('a)"
    and lo: "- (2 ^ (LENGTH('b::len) - 1)) \<le> sint n" and hi: "sint n < 2 ^ (LENGTH('b) - 1)"
  shows "scast (ucast n :: 'b word) = n"
proof -
  have self: "signed_take_bit (LENGTH('b) - 1) (sint n) = sint n"
    using lo hi by (intro signed_take_bit_int_eq_self) auto
  show ?thesis
  proof (rule bit_word_eqI)
    fix i assume i: "i < LENGTH('a)"
    have "bit n i = bit (sint n) i"
      using i by (auto simp: bit_sint_iff le_antisym dest: bit_imp_le_length)
    also have "\<dots> = bit (sint n) (min i (LENGTH('b) - 1))"
      by (subst self [symmetric]) (simp add: bit_signed_take_bit_iff min.commute)
    also have "\<dots> = bit n (min i (LENGTH('b) - 1))"
      using i by (auto simp: bit_sint_iff min_def le_antisym not_le)
    finally show "bit (scast (ucast n :: 'b word) :: 'a word) i = bit n i"
      using i len_gt_0 [where 'a = 'b] by (auto simp: bit_signed_iff bit_ucast_iff min.commute min_less_iff_disj)
  qed
qed

lemma ucast_scast_id:
  fixes n :: "'a::len word"
  assumes "LENGTH('a) \<le> LENGTH('b::len)"
  shows "ucast (scast n :: 'b word) = n"
  using assms by (intro bit_word_eqI) (auto simp: bit_ucast_iff bit_signed_iff bit_imp_le_length)

lemma ucast_ucast_id:
  fixes n :: "'a::len word"
  assumes "LENGTH('a) \<le> LENGTH('b::len)"
  shows "ucast (ucast n :: 'b word) = n"
  using assms by (intro bit_word_eqI) (auto simp: bit_ucast_iff bit_imp_le_length)

lemma scast_scast_wider:
  fixes n :: "'a::len word"
  assumes "LENGTH('a) \<le> LENGTH('b::len)" and "LENGTH('b) \<le> LENGTH('c::len)"
  shows "scast (scast n :: 'b word) = (scast n :: 'c word)"
  using assms
  by (intro bit_word_eqI) (auto simp: bit_signed_iff min_def)

section \<open>Integers\<close>

lemma skip_scalar:
  "int (length body) = k \<Longrightarrow> reads (TarsReadHeadSkip k) body ()"
  using reads_HeadSkip [of "length body" body] by simp

lemma skip_types:
  "1 \<le> n \<Longrightarrow> length b1 = 1 \<Longrightarrow> reads (skipField_type n TarsHeadeChar) b1 ()"
  "1 \<le> n \<Longrightarrow> length b2 = 2 \<Longrightarrow> reads (skipField_type n TarsHeadeShort) b2 ()"
  "1 \<le> n \<Longrightarrow> length b4 = 4 \<Longrightarrow> reads (skipField_type n TarsHeadeInt32) b4 ()"
  "1 \<le> n \<Longrightarrow> length b8 = 8 \<Longrightarrow> reads (skipField_type n TarsHeadeInt64) b8 ()"
  "1 \<le> n \<Longrightarrow> length b4 = 4 \<Longrightarrow> reads (skipField_type n TarsHeadeFloat) b4 ()"
  "1 \<le> n \<Longrightarrow> length b8 = 8 \<Longrightarrow> reads (skipField_type n TarsHeadeDouble) b8 ()"
  "1 \<le> n \<Longrightarrow> reads (skipField_type n TarsHeadeZeroTag) [] ()"
  by (cases n; auto simp: skipField_type.simps(2) intro!: skip_scalar)+

text \<open>
  The scalars from narrow to wide: each encoding is a field, and every reader at least as wide
  gets the value back, sign extended.
\<close>

lemma enc_Char_field: "is_field tag 1 (enc_Char c tag)"
proof (cases "c = 0")
  case True
  then show ?thesis
    by (intro is_fieldI [where ty = TarsHeadeZeroTag and body = "[]"])
      (auto simp: enc_Char_def intro: skip_types)
next
  case False
  then show ?thesis
    by (intro is_fieldI [where ty = TarsHeadeChar and body = "[c]"])
      (auto simp: enc_Char_def intro: skip_types)
qed

lemma enc_Short_field: "is_field tag 1 (enc_Short w tag)"
proof (cases "- 128 \<le> sint w \<and> sint w \<le> 127")
  case True
  then show ?thesis using enc_Char_field by (simp add: enc_Short_def)
next
  case False
  then show ?thesis
    by (intro is_fieldI [where ty = TarsHeadeShort and body = "be 2 w"])
      (auto simp: enc_Short_def intro: skip_types)
qed

lemma enc_Int32_field: "is_field tag 1 (enc_Int32 w tag)"
proof (cases "- 32768 \<le> sint w \<and> sint w \<le> 32767")
  case True
  then show ?thesis using enc_Short_field by (simp add: enc_Int32_def)
next
  case False
  then show ?thesis
    by (intro is_fieldI [where ty = TarsHeadeInt32 and body = "be 4 w"])
      (auto simp: enc_Int32_def intro: skip_types)
qed

lemma enc_Int64_field: "is_field tag 1 (enc_Int64 w tag)"
proof (cases "- 2147483648 \<le> sint w \<and> sint w \<le> 2147483647")
  case True
  then show ?thesis using enc_Int32_field by (simp add: enc_Int64_def)
next
  case False
  then show ?thesis
    by (intro is_fieldI [where ty = TarsHeadeInt64 and body = "be 8 w"])
      (auto simp: enc_Int64_def intro: skip_types)
qed

text \<open>\<open>read_Int32\<close> has the frame of the other readers, one unit of fuel lower.\<close>

definition Int32_body :: "byte \<Rightarrow> (istream, tInt32) act" where
  "Int32_body headType =
     (if headType = TarsHeadeZeroTag then ret 0
      else if headType = TarsHeadeChar then
        andthen (TarsReadTypeBuf 1) (\<lambda>bs. ret (scast (load_le bs :: tChar)))
      else if headType = TarsHeadeShort then
        andthen (TarsReadTypeBuf 2) (\<lambda>bs.
          let n = scast (load_le bs :: tShort) :: tInt32 in ret (scast (htons (ucast n))))
      else if headType = TarsHeadeInt32 then
        andthen (TarsReadTypeBuf 4) (\<lambda>bs. ret (htonl (load_le bs)))
      else throw TarsDecodeMismatch)"

lemma read_Int32_Suc: "read_Int32 (Suc n) d tag q = read_field n d tag q Int32_body"
  by (rule ext) (simp add: read_Int32.simps(2) read_field_def Int32_body_def [abs_def] andthen_def
      split: option.splits outcome.splits prod.splits)

lemma read_Int32_field: "3 \<le> n \<Longrightarrow> \<exists>m. 2 \<le> m \<and> read_Int32 n d tag q = read_field m d tag q Int32_body"
  by (cases n) (auto simp: read_Int32_Suc)

lemma reads_typebuf_ret:
  "length bs = n \<Longrightarrow> v = f bs \<Longrightarrow> reads_if P (andthen (TarsReadTypeBuf n) (\<lambda>bs. ret (f bs))) bs v"
  by (rule reads_weaken, rule reads_andthen_ret [OF reads_TypeBuf]) auto

lemma reads_typebuf_bind:
  "length bs = n \<Longrightarrow> reads_if P (f bs) r v \<Longrightarrow> reads_if P (andthen (TarsReadTypeBuf n) f) (bs @ r) v"
  "length bs = n \<Longrightarrow> reads_if P (f bs) [] v \<Longrightarrow> reads_if P (andthen (TarsReadTypeBuf n) f) bs v"
  using reads_andthen [OF reads_TypeBuf, of bs n P f r v "bs @ r"]
    reads_andthen [OF reads_TypeBuf, of bs n P f "[]" v bs] by simp_all

lemma reads_Char: "2 \<le> n \<Longrightarrow> reads (read_Char n d tag q) (enc_Char c tag) c"
  unfolding read_Char_def
  by (cases "c = 0") (auto simp: enc_Char_def intro!: reads_field reads_typebuf_ret)

lemma reads_Short_of_Char:
  "2 \<le> n \<Longrightarrow> reads (read_Short n d tag q) (enc_Char c tag) (scast c)"
  unfolding read_Short_def
  by (cases "c = 0") (auto simp: enc_Char_def intro!: reads_field reads_typebuf_ret)

lemma reads_Short: "2 \<le> n \<Longrightarrow> reads (read_Short n d tag q) (enc_Short w tag) w"
proof (cases "- 128 \<le> sint w \<and> sint w \<le> 127")
  case True
  then have "scast (ucast w :: tChar) = w" by (intro scast_ucast_id) auto
  then show "2 \<le> n \<Longrightarrow> ?thesis"
    using True reads_Short_of_Char [of n d tag q "ucast w"] by (simp add: enc_Short_def)
next
  case False
  then show "2 \<le> n \<Longrightarrow> ?thesis"
    unfolding read_Short_def
    by (auto simp: enc_Short_def htons_load_be intro!: reads_field reads_typebuf_ret)
qed

lemma Int32_body_Char:
  "reads (Int32_body TarsHeadeChar) [c] (scast c)"
  "reads (Int32_body TarsHeadeZeroTag) [] 0"
  unfolding Int32_body_def by (auto intro!: reads_typebuf_ret)

lemma Int32_body_Short: "reads (Int32_body TarsHeadeShort) (be 2 (w :: tShort)) (scast w)"
  unfolding Int32_body_def
  by (auto simp: Let_def ucast_scast_id htons_load_be intro!: reads_typebuf_ret)

lemma Int32_body_Int32: "reads (Int32_body TarsHeadeInt32) (be 4 w) w"
  unfolding Int32_body_def by (auto simp: htonl_load_be intro!: reads_typebuf_ret)

lemma reads_Int32_of_Char:
  "2 \<le> n \<Longrightarrow> reads (read_field n d tag q Int32_body) (enc_Char c tag) (scast c)"
  by (cases "c = 0") (auto simp: enc_Char_def intro!: reads_field Int32_body_Char)

lemma reads_Int32_of_Short:
  "2 \<le> n \<Longrightarrow> reads (read_field n d tag q Int32_body) (enc_Short w tag) (scast w)"
proof (cases "- 128 \<le> sint w \<and> sint w \<le> 127")
  case True
  then have "scast (ucast w :: tChar) = w" by (intro scast_ucast_id) auto
  moreover have "(scast (scast (ucast w :: tChar) :: tShort) :: tInt32) = scast (ucast w :: tChar)"
    by (rule scast_scast_wider) simp_all
  ultimately have "(scast (ucast w :: tChar) :: tInt32) = scast w" by simp
  then show "2 \<le> n \<Longrightarrow> ?thesis"
    using True reads_Int32_of_Char [of n d tag q "ucast w"] by (simp add: enc_Short_def)
next
  case False
  then show "2 \<le> n \<Longrightarrow> ?thesis"
    by (auto simp: enc_Short_def intro!: reads_field Int32_body_Short)
qed

lemma reads_Int32': "2 \<le> n \<Longrightarrow> reads (read_field n d tag q Int32_body) (enc_Int32 w tag) w"
proof (cases "- 32768 \<le> sint w \<and> sint w \<le> 32767")
  case True
  then have "scast (ucast w :: tShort) = w" by (intro scast_ucast_id) auto
  then show "2 \<le> n \<Longrightarrow> ?thesis"
    using True reads_Int32_of_Short [of n d tag q "ucast w"] by (simp add: enc_Int32_def)
next
  case False
  then show "2 \<le> n \<Longrightarrow> ?thesis"
    by (auto simp: enc_Int32_def intro!: reads_field Int32_body_Int32)
qed

lemma reads_Int32: "3 \<le> n \<Longrightarrow> reads (read_Int32 n d tag q) (enc_Int32 w tag) w"
  using read_Int32_field [of n d tag q] reads_Int32' by metis

lemma reads_Int64_of_Char: "2 \<le> n \<Longrightarrow> reads (read_Int64 n d tag q) (enc_Char c tag) (scast c)"
  unfolding read_Int64_def
  by (cases "c = 0") (auto simp: enc_Char_def intro!: reads_field reads_typebuf_ret)

lemma reads_Int64_of_Short:
  "2 \<le> n \<Longrightarrow> reads (read_Int64 n d tag q) (enc_Short w tag) (scast w)"
proof (cases "- 128 \<le> sint w \<and> sint w \<le> 127")
  case True
  then have "scast (ucast w :: tChar) = w" by (intro scast_ucast_id) auto
  moreover have "(scast (scast (ucast w :: tChar) :: tShort) :: tInt64) = scast (ucast w :: tChar)"
    by (rule scast_scast_wider) simp_all
  ultimately have "(scast (ucast w :: tChar) :: tInt64) = scast w" by simp
  then show "2 \<le> n \<Longrightarrow> ?thesis"
    using True reads_Int64_of_Char [of n d tag q "ucast w"] by (simp add: enc_Short_def)
next
  case False
  then show "2 \<le> n \<Longrightarrow> ?thesis"
    unfolding read_Int64_def
    by (auto simp: enc_Short_def Let_def ucast_scast_id htons_load_be
        intro!: reads_field reads_typebuf_ret)
qed

lemma reads_Int64_of_Int32:
  "2 \<le> n \<Longrightarrow> reads (read_Int64 n d tag q) (enc_Int32 w tag) (scast w)"
proof (cases "- 32768 \<le> sint w \<and> sint w \<le> 32767")
  case True
  then have "scast (ucast w :: tShort) = w" by (intro scast_ucast_id) auto
  moreover have "(scast (scast (ucast w :: tShort) :: tInt32) :: tInt64) = scast (ucast w :: tShort)"
    by (rule scast_scast_wider) simp_all
  ultimately have "(scast (ucast w :: tShort) :: tInt64) = scast w" by simp
  then show "2 \<le> n \<Longrightarrow> ?thesis"
    using True reads_Int64_of_Short [of n d tag q "ucast w"] by (simp add: enc_Int32_def)
next
  case False
  then show "2 \<le> n \<Longrightarrow> ?thesis"
    unfolding read_Int64_def
    by (auto simp: enc_Int32_def Let_def ucast_scast_id htonl_load_be
        intro!: reads_field reads_typebuf_ret)
qed

lemma reads_Int64: "2 \<le> n \<Longrightarrow> reads (read_Int64 n d tag q) (enc_Int64 w tag) w"
proof (cases "- 2147483648 \<le> sint w \<and> sint w \<le> 2147483647")
  case True
  then have "scast (ucast w :: tInt32) = w" by (intro scast_ucast_id) auto
  then show "2 \<le> n \<Longrightarrow> ?thesis"
    using True reads_Int64_of_Int32 [of n d tag q "ucast w"] by (simp add: enc_Int64_def)
next
  case False
  then show "2 \<le> n \<Longrightarrow> ?thesis"
    unfolding read_Int64_def
    by (auto simp: enc_Int64_def htonll_load_be intro!: reads_field reads_typebuf_ret)
qed

text \<open>The unsigned types travel in the next wider signed one.\<close>

lemma reads_UInt8: "2 \<le> n \<Longrightarrow> reads (read_UInt8 n d tag q) (enc_UInt8 w tag) w"
  unfolding read_UInt8_def enc_UInt8_def
  by (rule reads_andthen_ret [OF reads_Short]) (simp_all add: ucast_ucast_id)

lemma reads_UInt16: "3 \<le> n \<Longrightarrow> reads (read_UInt16 n d tag q) (enc_UInt16 w tag) w"
  unfolding read_UInt16_def enc_UInt16_def
  by (rule reads_andthen_ret [OF reads_Int32]) (simp_all add: ucast_ucast_id)

lemma reads_UInt32: "2 \<le> n \<Longrightarrow> reads (read_UInt32 n d tag q) (enc_UInt32 w tag) w"
  unfolding read_UInt32_def enc_UInt32_def
  by (rule reads_andthen_ret [OF reads_Int64]) (simp_all add: ucast_ucast_id)

text \<open>A container size is written as \<open>Int32\<close> and read as \<open>UInt32\<close>: the same bits.\<close>

lemma reads_UInt32_of_Int32: "2 \<le> n \<Longrightarrow> reads (read_UInt32 n d tag q) (enc_Int32 w tag) w"
  unfolding read_UInt32_def
  by (rule reads_andthen_ret [OF reads_Int64_of_Int32]) (simp_all add: ucast_scast_id)

lemma reads_Bool: "2 \<le> n \<Longrightarrow> reads (read_Bool n d tag q) (enc_Bool b tag) b"
  unfolding read_Bool_def enc_Bool_def
  by (rule reads_andthen_ret [OF reads_Char]) simp_all

lemma reads_Float: "2 \<le> n \<Longrightarrow> reads (read_Float n d tag q) (enc_Float w tag) w"
  unfolding read_Float_def
  by (auto simp: enc_Float_def tars_ntohf_def htonl_load_be intro!: reads_field reads_typebuf_ret)

lemma reads_Double:
  "2 \<le> n \<Longrightarrow> reads (read_Double widen narrow n d tag q) (enc_Double w tag) w"
  unfolding read_Double_def
  by (auto simp: enc_Double_def tars_ntohd_def htonll_load_be intro!: reads_field reads_typebuf_ret)

section \<open>Strings and byte vectors\<close>

lemma max_string_bound: "TARS_MAX_STRING_LENGTH < 2 ^ 32"
  by (simp add: TARS_MAX_STRING_LENGTH_def)

lemma unat_word_of_nat_small: "k < 2 ^ LENGTH('a::len) \<Longrightarrow> unat (word_of_nat k :: 'a word) = k"
  by (simp add: unat_of_nat take_bit_nat_eq_self)

lemma sint_word_of_nat_small:
  assumes "k < 2 ^ (LENGTH('a::len) - 1)"
  shows "sint (word_of_nat k :: 'a word) = int k"
proof -
  have "sint (word_of_int (int k) :: 'a word) = signed_take_bit (LENGTH('a) - 1) (int k)"
    by (simp add: signed_of_nat)
  also have "\<dots> = int k"
  proof (rule signed_take_bit_int_eq_self)
    show "int k < 2 ^ (LENGTH('a) - 1)" using assms of_nat_less_iff by fastforce
  qed (simp add: order_trans [of _ 0])
  finally show ?thesis by simp
qed

lemma reads_string:
  assumes "length str \<le> TARS_MAX_STRING_LENGTH" and "2 \<le> n"
  shows "reads (read_string n d tag q) (enc_string str tag) str"
proof (cases "255 < length str")
  case True
  have len: "unat (word_of_nat (length str) :: tUInt32) = length str"
    using assms max_string_bound by (intro unat_word_of_nat_small) simp
  show ?thesis
    unfolding read_string_def
  proof (rule reads_field [where ty = TarsHeadeString4])
    show "reads (andthen
       (if TarsHeadeString4 = TarsHeadeString1 then
          andthen (TarsReadTypeBuf 1) (\<lambda>bs. ret (ucast (load_le bs :: byte)))
        else if TarsHeadeString4 = TarsHeadeString4 then
          andthen (TarsReadTypeBuf 4) (\<lambda>bs.
            let strLength = htonl (load_le bs) in
            if TARS_MAX_STRING_LENGTH < unat strLength then throw TarsDecodeInvalidValue
            else ret strLength)
        else throw TarsDecodeMismatch)
       (\<lambda>strLength :: tUInt32. TarsReadStringBuf (unat strLength)))
       (be 4 (word_of_nat (length str) :: tUInt32) @ str) str"
      by (rule reads_andthen [where a = "word_of_nat (length str)"])
        (use len assms in \<open>auto simp: htonl_load_be not_less
          intro!: reads_StringBuf reads_typebuf_bind(2)\<close>)
  qed (use True assms in \<open>auto simp: enc_string_def\<close>)
next
  case False
  then have len: "unat (word_of_nat (length str) :: byte) = length str"
    by (intro unat_word_of_nat_small) simp
  then have len': "unat (ucast (word_of_nat (length str) :: byte) :: tUInt32) = length str"
    using False by (simp add: unsigned_ucast_eq take_bit_nat_eq_self)
  show ?thesis
    unfolding read_string_def
  proof (rule reads_field [where ty = TarsHeadeString1])
    show "reads (andthen
       (if TarsHeadeString1 = TarsHeadeString1 then
          andthen (TarsReadTypeBuf 1) (\<lambda>bs. ret (ucast (load_le bs :: byte)))
        else if TarsHeadeString1 = TarsHeadeString4 then
          andthen (TarsReadTypeBuf 4) (\<lambda>bs.
            let strLength = htonl (load_le bs) in
            if TARS_MAX_STRING_LENGTH < unat strLength then throw TarsDecodeInvalidValue
            else ret strLength)
        else throw TarsDecodeMismatch)
       (\<lambda>strLength :: tUInt32. TarsReadStringBuf (unat strLength)))
       ([word_of_nat (length str)] @ str) str"
      by (rule reads_andthen [where a = "ucast (word_of_nat (length str) :: byte)"])
        (use len' in \<open>auto intro!: reads_StringBuf reads_typebuf_ret\<close>)
  qed (use False assms in \<open>auto simp: enc_string_def\<close>)
qed

lemma enc_string_field:
  assumes "length str \<le> TARS_MAX_STRING_LENGTH"
  shows "is_field tag 1 (enc_string str tag)"
proof (cases "255 < length str")
  case True
  have "unat (word_of_nat (length str) :: tUInt32) = length str"
    using assms max_string_bound by (intro unat_word_of_nat_small) simp
  then have "uint (word_of_nat (length str) :: tUInt32) = int (length str)"
    by (simp add: uint_nat)
  then show ?thesis
    using True
    by (intro is_fieldI [where ty = TarsHeadeString4
          and body = "be 4 (word_of_nat (length str) :: tUInt32) @ str"])
      (auto simp: enc_string_def skipField_type.simps(2) htonl_load_be Suc_le_eq gr0_conv_Suc
        intro!: reads_typebuf_bind(1) skip_scalar)
next
  case False
  then have "unat (word_of_nat (length str) :: byte) = length str"
    by (intro unat_word_of_nat_small) simp
  then have "uint (word_of_nat (length str) :: byte) = int (length str)"
    by (simp add: uint_nat)
  then show ?thesis
    using False
    by (intro is_fieldI [where ty = TarsHeadeString1 and body = "[word_of_nat (length str)] @ str"])
      (auto simp: enc_string_def skipField_type.simps(2) Suc_le_eq gr0_conv_Suc
        intro!: reads_typebuf_bind(1) [of "[_]", simplified] skip_scalar)
qed

lemma checked_size_Ok:
  assumes "stream_at s (enc_Int32 (word_of_nat k) 0 @ r)" and "k \<le> length r" and "k < 2 ^ 32"
    and "2 \<le> n"
  shows "checked_size n s = (Ok k, adv (length (enc_Int32 (word_of_nat k) 0)) s)"
proof -
  have "unat (word_of_nat k :: tUInt32) = k"
    using assms(3) by (intro unat_word_of_nat_small) simp
  moreover have "k \<le> rlen s" using assms(1,2) by (simp add: stream_at_def)
  ultimately show ?thesis
    using reads_ifD [OF reads_UInt32_of_Int32 [OF assms(4)] TrueI assms(1)]
    by (simp add: checked_size_def act_simps)
qed

text \<open>A counted body: the size, then an action that consumes at least one byte per element.\<close>

lemma reads_counted:
  assumes "reads_if P (f k) bs v" and "k \<le> length bs" and "k < 2 ^ 32" and "2 \<le> n"
    and "cs = enc_Int32 (word_of_nat k) 0 @ bs"
  shows "reads_if P (andthen (checked_size n) f) cs v"
proof (rule reads_ifI)
  fix s r assume P: "P r" and at: "stream_at s (cs @ r)"
  then have at': "stream_at s (enc_Int32 (word_of_nat k) 0 @ (bs @ r))" by (simp add: assms(5))
  have "checked_size n s = (Ok k, adv (length (enc_Int32 (word_of_nat k) 0)) s)"
    by (rule checked_size_Ok [OF at']) (use assms in auto)
  then show "andthen (checked_size n) f s = (Ok v, adv (length cs) s)"
    using reads_ifD [OF assms(1) P stream_at_adv [OF at']]
    by (simp add: act_simps assms(5))
qed

lemma reads_vector_char:
  assumes "length v < 2 ^ 32" and "2 \<le> n"
  shows "reads (read_vector_char n d tag q) (enc_vector_char v tag) v"
  unfolding read_vector_char_def
  by (rule reads_field [where ty = TarsHeadeSimpleList])
    (use assms in \<open>auto simp: enc_vector_char_def
      intro!: reads_andthen [OF reads_readFromHead] reads_counted reads_readBuf\<close>)

lemma enc_vector_char_field:
  assumes "length v < 2 ^ 31"
  shows "is_field tag 4 (enc_vector_char v tag)"
proof (rule is_fieldI [where ty = TarsHeadeSimpleList])
  have "sint (word_of_nat (length v) :: tInt32) = int (length v)"
    using assms by (intro sint_word_of_nat_small) simp
  then have skip: "reads (TarsReadHeadSkip (sint (word_of_nat (length v) :: tInt32))) v ()"
    by (intro skip_scalar) simp
  fix n :: nat assume "4 \<le> n"
  then obtain m where n: "n = Suc m" "3 \<le> m" by (cases n) auto
  show "reads (skipField_type n TarsHeadeSimpleList)
     (enc_head TarsHeadeChar 0 @ enc_Int32 (word_of_nat (length v)) 0 @ v) ()"
    unfolding n skipField_type.simps(2)
    by (auto intro!: reads_andthen [OF reads_readFromHead] reads_andthen [OF reads_Int32 [OF n(2)]] skip)
qed (auto simp: enc_vector_char_def)

end
