(* ===== verification/Codec_Interface.thy ===== *)
theory Codec_Interface
  imports Tars_Codec
begin

text \<open>
  The contracts of the wire format as locales: \<open>tars_codec\<close> for a type with \<open>write\<close> and \<open>read\<close>
  overloads, \<open>tars_codec_pair\<close> for the key and value of a map, \<open>tars_body\<close> for a generated
  struct with \<open>writeTo\<close> and \<open>readFrom\<close>. Vectors, maps and structs are proved once from the
  contract of their parts; the interpretations below discharge it for the overloads of
  \<^verbatim>\<open>src/tup/Tars.h\<close>.
\<close>

section \<open>Older fields\<close>

text \<open>\<open>older tag k bss\<close>: complete fields with tags below \<open>tag\<close>, passed over with fuel \<open>k\<close>.\<close>

definition older :: "byte \<Rightarrow> nat \<Rightarrow> bytes list \<Rightarrow> bool" where
  "older tag k bss \<longleftrightarrow>
     (\<exists>kts. list_all2 (\<lambda>(k, t) bs. t < tag \<and> is_field t k bs) kts bss \<and>
            k = 3 + sum_list (map (Suc \<circ> fst) kts))"

lemma older_Nil: "older tag 3 []"
  unfolding older_def by (rule exI [of _ "[]"]) simp

lemma older_Cons:
  assumes "older tag k bss" and "t < tag" and "is_field t j bs"
  shows "older tag (Suc (k + j)) (bs # bss)"
proof -
  from assms(1) obtain kts where
    "list_all2 (\<lambda>(k, t) bs. t < tag \<and> is_field t k bs) kts bss"
    "k = 3 + sum_list (map (Suc \<circ> fst) kts)"
    by (auto simp: older_def)
  then show ?thesis
    unfolding older_def using assms(2,3) by (intro exI [of _ "(j, t) # kts"]) simp
qed

lemma reads_SkipToTag_over:
  assumes "older tag k bss" and "k \<le> n" and "ty < 16" and "ty \<noteq> TarsHeadeStructEnd"
  shows "reads (TarsSkipToTag n tag) (concat bss @ enc_head ty tag) (Some ty)"
proof -
  from assms(1) obtain kts where kts:
    "list_all2 (\<lambda>(k, t) bs. t < tag \<and> is_field t k bs) kts bss"
    "k = 3 + sum_list (map (Suc \<circ> fst) kts)"
    by (auto simp: older_def)
  then obtain m where n: "n = Suc m" "Suc (sum_list (map (Suc \<circ> fst) kts)) \<le> m"
    using assms(2) by (cases n) auto
  show ?thesis
    using reads_skipLoop_over [OF kts(1) n(2) assms(3,4)]
    by (auto simp: reads_if_def n TarsSkipToTag.simps(2) act_simps)
qed

text \<open>An action that starts by looking for a tag.\<close>

definition seeks :: "nat \<Rightarrow> byte \<Rightarrow> (istream, 'a) act \<Rightarrow> bool" where
  "seeks n tag m \<longleftrightarrow> (\<exists>g. m = andthen (TarsSkipToTag n tag) g)"

lemma seeks_read_field: "seeks n tag (read_field n d tag q body)"
  unfolding seeks_def read_field_def by blast

lemma seeks_andthen: "seeks n tag m \<Longrightarrow> seeks n tag (andthen m f)"
  unfolding seeks_def using andthen_assoc by blast

lemma reads_over:
  assumes m: "seeks n tag m" "reads m bs v" and f: "is_field tag j bs"
    and old: "older tag k bss" "k \<le> n"
  shows "reads m (concat bss @ bs) v"
proof (rule reads_ifI)
  fix s r assume at: "stream_at s ((concat bss @ bs) @ r)"
  from f obtain ty body where b: "ty < 16" "ty \<noteq> TarsHeadeStructEnd" "bs = enc_head ty tag @ body"
    by (auto elim: is_fieldE)
  from m(1) obtain g where g: "m = andthen (TarsSkipToTag n tag) g" by (auto simp: seeks_def)
  have n: "2 \<le> n" using old by (auto simp: older_def)
  let ?s = "adv (length (concat bss)) s"
  let ?s' = "adv (length (concat bss) + length (enc_head ty tag)) s"
  have at1: "stream_at ?s (bs @ r)"
    using at by (intro stream_at_adv) simp
  then have "TarsSkipToTag n tag ?s = (Ok (Some ty), ?s')"
    using SkipToTag_found [of ?s ty tag "body @ r" n] b n by simp
  then have "g (Some ty) ?s' = m ?s" by (simp add: g act_simps)
  also have "\<dots> = (Ok v, adv (length (concat bss @ bs)) s)"
    using reads_ifD [OF m(2) TrueI at1] by simp
  finally have 1: "g (Some ty) ?s' = (Ok v, adv (length (concat bss @ bs)) s)" .
  have "stream_at s ((concat bss @ enc_head ty tag) @ (body @ r))"
    using at b(3) by simp
  then have "TarsSkipToTag n tag s = (Ok (Some ty), ?s')"
    using reads_ifD [OF reads_SkipToTag_over [OF old b(1,2)] TrueI] by simp
  with 1 show "m s = (Ok v, adv (length (concat bss @ bs)) s)"
    by (simp add: g act_simps)
qed

section \<open>The contract of a wire type\<close>

locale tars_codec =
  fixes wr :: "'a \<Rightarrow> byte \<Rightarrow> (ostream, unit) act"
    and enc :: "'a \<Rightarrow> byte \<Rightarrow> bytes"
    and rd :: "nat \<Rightarrow> 'a \<Rightarrow> byte \<Rightarrow> bool \<Rightarrow> (istream, 'a) act"
    and ok :: "'a \<Rightarrow> bool"
    and need :: "'a \<Rightarrow> nat"
    and fuel :: nat
  assumes fuel_ge: "3 \<le> fuel"
    and wr_enc: "ok v \<Longrightarrow> appends (wr v tag) (enc v tag)"
    and enc_field: "ok v \<Longrightarrow> is_field tag (need v) (enc v tag)"
    and rd_enc: "ok v \<Longrightarrow> fuel \<le> n \<Longrightarrow> reads (rd n d tag q) (enc v tag) v"
    and rd_none: "fuel \<le> n \<Longrightarrow> reads_if (absent tag) (rd n d tag False) [] d"
    and rd_seeks: "fuel \<le> n \<Longrightarrow> \<exists>m. n \<le> Suc m \<and> seeks m tag (rd n d tag q)"
begin

text \<open>What the writer leaves in a fresh buffer, the reader reads back from it.\<close>

lemma roundtrip:
  assumes "ok v" and "fuel \<le> n" and "2 * length (enc v tag) < size_max"
  obtains os where "wr v tag BufferWriter_init = (Ok (), os)"
    and "rd n d tag q (setBuffer_vector (getByteBuffer os) s) =
           (Ok v, adv (length (enc v tag)) (setBuffer_vector (getByteBuffer os) s))"
proof -
  have "2 * (wlen BufferWriter_init + length (enc v tag)) < size_max"
    using assms(3) by (simp add: BufferWriter_init_def)
  from wr_enc [OF assms(1)] wf_os_init this obtain os where
    os: "wr v tag BufferWriter_init = (Ok (), os)" "contents os = contents BufferWriter_init @ enc v tag"
    by (rule appendsD)
  then have c: "getByteBuffer os = enc v tag" by (simp add: contents_def [symmetric])
  have "stream_at (setBuffer_vector (getByteBuffer os) s) (enc v tag @ [])"
    using stream_at_setBuffer_vector [OF assms(3)] by (simp add: c)
  from reads_ifD [OF rd_enc [OF assms(1,2)] TrueI this] os(1) show thesis
    by (rule that [rotated])
qed

text \<open>Fields a newer peer has put in front do not disturb the reader.\<close>

lemma rd_over:
  assumes "ok v" and "older tag k bss" and "Suc k \<le> n" and "fuel \<le> n"
  shows "reads (rd n d tag q) (concat bss @ enc v tag) v"
proof -
  obtain m where m: "n \<le> Suc m" "seeks m tag (rd n d tag q)" using rd_seeks [OF assms(4)] by blast
  show ?thesis
    by (rule reads_over [OF m(2) rd_enc [OF assms(1,4)] enc_field [OF assms(1)] assms(2)])
      (use assms(3) m(1) in simp)
qed

lemma enc_nonempty: "ok v \<Longrightarrow> enc v tag \<noteq> []"
  using enc_field is_field_nonempty by blast

lemma length_concat_enc: "\<forall>x \<in> set v. ok x \<Longrightarrow> length v \<le> length (concat (map (\<lambda>x. enc x 0) v))"
proof (induction v)
  case (Cons x v)
  then obtain y ys where "enc x 0 = y # ys" using enc_nonempty by (cases "enc x 0") auto
  with Cons show ?case by simp
qed simp

lemma reads_elems:
  assumes "length ds = length v" and "\<forall>x \<in> set v. ok x" and "fuel \<le> n"
  shows "reads (read_elems (\<lambda>x. rd n x 0 True) ds) (concat (map (\<lambda>x. enc x 0) v)) v"
  using assms(1,2)
proof (induction ds v rule: list_induct2)
  case (Cons d ds x v)
  then have "reads (andthen (read_elems (\<lambda>x. rd n x 0 True) ds) (\<lambda>xs. ret (x # xs)))
      (concat (map (\<lambda>x. enc x 0) v)) (x # v)"
    by (intro reads_andthen_ret [of _ _ _ v]) auto
  then show ?case
    using Cons.prems assms(3) by (auto intro!: reads_andthen [OF rd_enc [of x]])
qed auto

lemma length_vec_resize [simp]: "length (vec_resize k d0 v) = k"
  by (simp add: vec_resize_def)

lemma vector_appends: "\<forall>x \<in> set v. ok x \<Longrightarrow> appends (write_vector wr v tag) (enc_vector enc v tag)"
  by (rule appends_vector) (auto intro: wr_enc)

lemma reads_vector:
  assumes "\<forall>x \<in> set v. ok x" and "length v < 2 ^ 32" and "fuel \<le> n"
  shows "reads (read_vector rd d0 n d tag q) (enc_vector enc v tag) v"
  unfolding read_vector_def
  by (rule reads_field [where ty = TarsHeadeList])
    (use assms fuel_ge in \<open>auto simp: enc_vector_def
      intro!: reads_counted reads_elems length_concat_enc\<close>)

lemma vector_field:
  assumes "\<forall>x \<in> set v. ok x" and "length v < 2 ^ 31"
  shows "is_field tag (5 + sum_list (map (\<lambda>x. Suc (need x)) v)) (enc_vector enc v tag)"
proof (rule is_fieldI [where ty = TarsHeadeList])
  fix n assume "5 + sum_list (map (\<lambda>x. Suc (need x)) v) \<le> n"
  then obtain m where n: "n = Suc m" "3 \<le> m" "Suc (sum_list (map Suc (map need v))) \<le> m"
    by (cases n) (auto simp: o_def)
  have size: "sint (word_of_nat (length v) :: tInt32) = int (length v)"
    using assms(2) by (intro sint_word_of_nat_small) simp
  have "list_all2 (\<lambda>k bs. \<exists>tag. is_field tag k bs) (map need v) (map (\<lambda>x. enc x 0) v)"
    using assms(1) by (induction v) (auto intro: enc_field)
  from reads_skipFields [OF this n(3)]
  show "reads (skipField_type n TarsHeadeList)
     (enc_Int32 (word_of_nat (length v)) 0 @ concat (map (\<lambda>x. enc x 0) v)) ()"
    unfolding n(1) skipField_type.simps(2)
    by (auto simp: size intro!: reads_andthen [OF reads_Int32 [OF n(2)]])
qed (auto simp: enc_vector_def)

text \<open>Vectors of a codec are a codec.\<close>

lemma vector_codec:
  "tars_codec (write_vector wr) (enc_vector enc) (read_vector rd d0)
     (\<lambda>v. (\<forall>x \<in> set v. ok x) \<and> length v < 2 ^ 31)
     (\<lambda>v. 5 + sum_list (map (\<lambda>x. Suc (need x)) v)) fuel"
proof
  show "3 \<le> fuel" by (rule fuel_ge)
next
  fix n tag q and d :: "'a list" assume n: "fuel \<le> n"
  then show "reads_if (absent tag) (read_vector rd d0 n d tag False) [] d"
    unfolding read_vector_def using fuel_ge by (intro reads_field_absent) simp
  show "\<exists>m. n \<le> Suc m \<and> seeks m tag (read_vector rd d0 n d tag q)"
    unfolding read_vector_def by (blast intro: seeks_read_field le_SucI)
qed (auto intro: vector_appends vector_field reads_vector)

end

section \<open>Maps\<close>

text \<open>The maps the format carries: ascending keys, and few enough entries for the size field.\<close>

definition map_ok ::
  "('k::linorder \<Rightarrow> bool) \<Rightarrow> ('v \<Rightarrow> bool) \<Rightarrow> ('k \<times> 'v) list \<Rightarrow> bool" where
  "map_ok okk okv m \<longleftrightarrow> (\<forall>(k, v) \<in> set m. okk k \<and> okv v) \<and> sorted_wrt (<) (map fst m) \<and>
     length m < 2 ^ 30"

definition pair_need :: "('k \<Rightarrow> nat) \<Rightarrow> ('v \<Rightarrow> nat) \<Rightarrow> 'k \<times> 'v \<Rightarrow> nat" where
  "pair_need needk needv kv = Suc (needk (fst kv)) + Suc (needv (snd kv))"

lemma map_insert_sorted:
  "sorted_wrt (<) (map fst (m @ [(k, v)])) \<Longrightarrow> map_insert k v m = m @ [(k, v)]"
  by (induction m) (auto simp: sorted_wrt_append)

locale tars_codec_pair =
  key: tars_codec wrk enck rdk okk needk fuelk +
  val: tars_codec wrv encv rdv okv needv fuelv
  for wrk :: "'k::linorder \<Rightarrow> byte \<Rightarrow> (ostream, unit) act" and enck rdk okk needk fuelk
    and wrv :: "'v \<Rightarrow> byte \<Rightarrow> (ostream, unit) act" and encv rdv okv needv fuelv
begin

lemma reads_pairs:
  assumes "\<forall>(k, v) \<in> set m. okk k \<and> okv v" and "sorted_wrt (<) (map fst (m0 @ m))"
    and "fuelk \<le> n" and "fuelv \<le> n"
  shows "reads (read_pairs (rdk n dk 0 True) (rdv n dv 1 True) (length m) m0)
    (concat (map (enc_pair enck encv) m)) (m0 @ m)"
  using assms(1,2)
proof (induction m arbitrary: m0)
  case (Cons kv m)
  obtain k v where kv: "kv = (k, v)" by (cases kv)
  have ins: "map_insert k v m0 = m0 @ [(k, v)]"
    using Cons.prems(2) by (intro map_insert_sorted) (auto simp: kv sorted_wrt_append)
  have "reads (read_pairs (rdk n dk 0 True) (rdv n dv 1 True) (length m) (m0 @ [(k, v)]))
    (concat (map (enc_pair enck encv) m)) ((m0 @ [(k, v)]) @ m)"
    by (rule Cons.IH) (use Cons.prems in \<open>auto simp: kv\<close>)
  moreover have "okk k" "okv v" using Cons.prems(1) by (auto simp: kv)
  ultimately show ?case
    using assms(3,4)
    by (auto simp: kv ins enc_pair_def [of _ _ "(k, v)"]
        intro!: reads_andthen [OF key.rd_enc [of k n dk 0 True]]
          reads_andthen [OF val.rd_enc [of v n dv 1 True]])
qed auto

lemma length_concat_pairs:
  "\<forall>(k, v) \<in> set m. okk k \<and> okv v \<Longrightarrow>
     2 * length m \<le> length (concat (map (enc_pair enck encv) m))"
proof (induction m)
  case (Cons kv m)
  obtain k v where kv: "kv = (k, v)" by (cases kv)
  with Cons.prems have "enck k 0 \<noteq> []" "encv v 1 \<noteq> []"
    using key.enc_nonempty val.enc_nonempty by auto
  then obtain x xs y ys where "enck k 0 = x # xs" "encv v 1 = y # ys"
    by (cases "enck k 0"; cases "encv v 1") auto
  with Cons kv show ?case by (simp add: enc_pair_def)
qed simp

lemma map_appends:
  "\<forall>(k, v) \<in> set m. okk k \<and> okv v \<Longrightarrow>
     appends (write_map wrk wrv m tag) (enc_map enck encv m tag)"
  by (rule appends_map) (auto intro: key.wr_enc val.wr_enc)

lemma reads_map:
  assumes "\<forall>(k, v) \<in> set m. okk k \<and> okv v" and "sorted_wrt (<) (map fst m)"
    and "length m < 2 ^ 32" and "fuelk \<le> n" and "fuelv \<le> n"
  shows "reads (read_map rdk dk rdv dv n d tag q) (enc_map enck encv m tag) m"
proof -
  have "length m \<le> length (concat (map (enc_pair enck encv) m))"
    using length_concat_pairs [OF assms(1)] by simp
  then show ?thesis
    unfolding read_map_def
    by (intro reads_field [where ty = TarsHeadeMap])
      (use assms key.fuel_ge reads_pairs [OF assms(1), of "[]"] in
        \<open>auto simp: enc_map_def intro!: reads_counted\<close>)
qed

lemma map_field:
  assumes "\<forall>(k, v) \<in> set m. okk k \<and> okv v" and "length m < 2 ^ 30"
  shows "is_field tag (5 + sum_list (map (pair_need needk needv) m)) (enc_map enck encv m tag)"
proof (rule is_fieldI [where ty = TarsHeadeMap])
  fix n assume "5 + sum_list (map (pair_need needk needv) m) \<le> n"
  then obtain l where n: "n = Suc l" "3 \<le> l" "Suc (sum_list (map (pair_need needk needv) m)) \<le> l"
    by (cases n) auto
  have size: "sint (word_of_nat (length m) :: tInt32) = int (length m)"
    using assms(2) by (intro sint_word_of_nat_small) simp
  let ?ks = "concat (map (\<lambda>(k, v). [needk k, needv v]) m)"
  let ?bss = "concat (map (\<lambda>(k, v). [enck k 0, encv v 1]) m)"
  have l: "length ?bss = 2 * length m" by (induction m) auto
  have c: "concat ?bss = concat (map (enc_pair enck encv) m)"
    by (induction m) (auto simp: enc_pair_def)
  have "sum_list (map Suc ?ks) = sum_list (map (pair_need needk needv) m)"
    by (induction m) (auto simp: pair_need_def)
  moreover have "list_all2 (\<lambda>k bs. \<exists>tag. is_field tag k bs) ?ks ?bss"
    using assms(1) by (induction m) (auto, (blast intro: key.enc_field val.enc_field)+)
  ultimately have "reads (skipFields l (int (length ?bss))) (concat ?bss) ()"
    using n(3) by (intro reads_skipFields [of ?ks]) auto
  then have "reads (skipFields l (int (length m) * 2)) (concat (map (enc_pair enck encv) m)) ()"
    by (simp add: l c mult.commute)
  then show "reads (skipField_type n TarsHeadeMap)
     (enc_Int32 (word_of_nat (length m)) 0 @ concat (map (enc_pair enck encv) m)) ()"
    unfolding n(1) skipField_type.simps(2)
    using assms(2) by (auto simp: size intro!: reads_andthen [OF reads_Int32 [OF n(2)]])
qed (auto simp: enc_map_def)

text \<open>Maps between codecs are a codec.\<close>

lemma map_codec:
  "tars_codec (write_map wrk wrv) (enc_map enck encv) (read_map rdk dk rdv dv) (map_ok okk okv)
     (\<lambda>m. 5 + sum_list (map (pair_need needk needv) m)) (max fuelk fuelv)"
proof
  show "3 \<le> max fuelk fuelv" using key.fuel_ge by simp
next
  fix n tag q and d :: "('k \<times> 'v) list" assume n: "max fuelk fuelv \<le> n"
  then show "reads_if (absent tag) (read_map rdk dk rdv dv n d tag False) [] d"
    unfolding read_map_def using key.fuel_ge by (intro reads_field_absent) simp
  show "\<exists>m. n \<le> Suc m \<and> seeks m tag (read_map rdk dk rdv dv n d tag q)"
    unfolding read_map_def by (blast intro: seeks_read_field le_SucI)
qed (auto simp: map_ok_def intro: map_appends map_field reads_map)

end

end
