(* ===== verification/Tars_Struct.thy ===== *)
theory Tars_Struct
  imports Codec_Interface
begin

text \<open>
  The contract of a generated struct, \<open>tars_body\<close>: \<open>writeTo\<close> and \<open>readFrom\<close> over the fields of
  the struct. It gives the round trip of the struct as a top-level message and, where
  \<open>readFrom\<close> overwrites every member, the contract \<open>tars_codec\<close> of the nested struct. Then the
  interpretations of \<open>tars_codec\<close> on the overloads of \<^verbatim>\<open>src/tup/Tars.h\<close>.
\<close>

section \<open>Struct bodies\<close>

text \<open>Where a struct body may end: at the end of the input, or at a struct-end head.\<close>

definition ended :: "bytes \<Rightarrow> bool" where
  "ended r \<longleftrightarrow> r = [] \<or> (\<exists>tag r'. r = enc_head TarsHeadeStructEnd tag @ r')"

lemma ended_Nil [simp]: "ended []"
  by (simp add: ended_def)

lemma ended_absent: "ended r \<Longrightarrow> absent tag r"
  unfolding ended_def absent_def by fastforce

lemma reads_skipToStructEnd:
  assumes "list_all2 (\<lambda>k bs. \<exists>tag. is_field tag k bs) ks bss"
    and "Suc (Suc (sum_list (map Suc ks))) \<le> n"
  shows "reads (skipToStructEnd n) (concat bss @ enc_head TarsHeadeStructEnd 0) ()"
  using assms
proof (induction ks bss arbitrary: n rule: list_all2_induct)
  case Nil
  then obtain m where n: "n = Suc (Suc m)" by (metis Suc_le_D Suc_le_mono)
  have "reads (skipField_type (Suc m) TarsHeadeStructEnd) [] ()"
    by (auto simp: skipField_type.simps(2))
  then show ?case
    unfolding n skipToStructEnd.simps(2)
    by (intro reads_andthen [OF reads_readFromHeadNoTag [of TarsHeadeStructEnd 0], where bs = "[]"]
        reads_andthen [where as = "[]" and bs = "[]"]) auto
next
  case (Cons k ks bs bss)
  then obtain m where n: "n = Suc m" "k \<le> m" "Suc (Suc (sum_list (map Suc ks))) \<le> m"
    by (cases n) auto
  from Cons.hyps obtain tag ty body where f: "ty < 16" "ty \<noteq> TarsHeadeStructEnd"
    "bs = enc_head ty tag @ body" "reads (skipField_type m ty) body ()"
    using n(2) by (auto elim: is_fieldE)
  have rest: "reads (skipToStructEnd m) (concat bss @ enc_head TarsHeadeStructEnd 0) ()"
    by (rule Cons.IH [OF n(3)])
  show ?case
    unfolding n(1) skipToStructEnd.simps(2)
    using f(2) rest
    by (auto simp: f(3) intro!: reads_andthen [OF reads_readFromHeadNoTag [OF f(1)]]
        reads_andthen [OF f(4)])
qed

text \<open>
  \<open>init d\<close> says which old values of the struct \<open>readFrom\<close> may start from: it keeps the members
  it does not read.
\<close>

locale tars_body =
  fixes writeTo :: "'a \<Rightarrow> (ostream, unit) act"
    and enc_body :: "'a \<Rightarrow> bytes"
    and readFrom :: "nat \<Rightarrow> 'a \<Rightarrow> (istream, 'a) act"
    and ok :: "'a \<Rightarrow> bool"
    and init :: "'a \<Rightarrow> bool"
    and need :: "'a \<Rightarrow> nat"
    and fuel :: nat
  assumes body_fuel: "3 \<le> fuel"
    and writeTo_enc: "ok v \<Longrightarrow> appends (writeTo v) (enc_body v)"
    and readFrom_enc:
      "ok v \<Longrightarrow> init d \<Longrightarrow> fuel \<le> n \<Longrightarrow> reads_if ended (readFrom n d) (enc_body v) v"
    and body_end:
      "ok v \<Longrightarrow> need v \<le> n \<Longrightarrow>
         reads (skipToStructEnd n) (enc_body v @ enc_head TarsHeadeStructEnd 0) ()"
begin

text \<open>A struct written as a whole message is read back from exactly these bytes.\<close>

lemma message_roundtrip:
  assumes "ok v" and "init d" and "fuel \<le> n" and "2 * length (enc_body v) < size_max"
  obtains os where "writeTo v BufferWriter_init = (Ok (), os)"
    and "getByteBuffer os = enc_body v"
    and "readFrom n d (setBuffer_vector (getByteBuffer os) s) =
           (Ok v, adv (length (enc_body v)) (setBuffer_vector (enc_body v) s))"
proof -
  have "2 * (wlen BufferWriter_init + length (enc_body v)) < size_max"
    using assms(4) by (simp add: BufferWriter_init_def)
  from writeTo_enc [OF assms(1)] wf_os_init this obtain os where
    os: "writeTo v BufferWriter_init = (Ok (), os)" "contents os = contents BufferWriter_init @ enc_body v"
    by (rule appendsD)
  then have c: "getByteBuffer os = enc_body v" by (simp add: contents_def [symmetric])
  have "stream_at (setBuffer_vector (enc_body v) s) (enc_body v @ [])"
    using stream_at_setBuffer_vector [OF assms(4)] by simp
  from reads_ifD [OF readFrom_enc [OF assms(1-3)] ended_Nil this] os(1) c show thesis
    using that by simp
qed

lemma readFrom_at:
  "ok v \<Longrightarrow> init d \<Longrightarrow> fuel \<le> n \<Longrightarrow> stream_at s (enc_body v) \<Longrightarrow>
     readFrom n d s = (Ok v, adv (length (enc_body v)) s)"
  using reads_ifD [OF readFrom_enc ended_Nil] by simp

lemma struct_appends: "ok v \<Longrightarrow> appends (write_struct writeTo v tag) (enc_struct enc_body v tag)"
  by (rule appends_struct) (rule writeTo_enc)

lemma struct_field: "ok v \<Longrightarrow> is_field tag (Suc (need v)) (enc_struct enc_body v tag)"
proof (rule is_fieldI [where ty = TarsHeadeStructBegin])
  fix n assume ok: "ok v" and "Suc (need v) \<le> n"
  then obtain m where "n = Suc m" "need v \<le> m" by (cases n) auto
  then show "reads (skipField_type n TarsHeadeStructBegin)
     (enc_body v @ enc_head TarsHeadeStructEnd 0) ()"
    using body_end [OF ok] by (simp add: skipField_type.simps(2))
qed (auto simp: enc_struct_def)

lemma reads_struct:
  assumes "ok v" and "init d" and "fuel \<le> n"
  shows "reads (read_struct readFrom n d tag q) (enc_struct enc_body v tag) v"
  unfolding read_struct_def
proof (rule reads_field [where ty = TarsHeadeStructBegin])
  have "reads (andthen (skipToStructEnd n) (\<lambda>_. ret v)) (enc_head TarsHeadeStructEnd 0) v"
    using reads_skipToStructEnd [of "[]" "[]" n] body_fuel assms(3)
    by (intro reads_andthen_ret) auto
  then show "reads
     (if TarsHeadeStructBegin \<noteq> TarsHeadeStructBegin then throw TarsDecodeMismatch
      else andthen (readFrom n d) (\<lambda>v. andthen (skipToStructEnd n) (\<lambda>_. ret v)))
     (enc_body v @ enc_head TarsHeadeStructEnd 0) v"
    by (auto intro!: reads_if_andthen [OF readFrom_enc [OF assms]]) (auto simp: ended_def)
qed (use assms(3) body_fuel in \<open>auto simp: enc_struct_def\<close>)

end

text \<open>When any old value will do, the nested struct is a codec like any other.\<close>

locale tars_body_total = tars_body +
  assumes init_all: "init d"

sublocale tars_body_total \<subseteq> struct: tars_codec
  "write_struct writeTo" "enc_struct enc_body" "read_struct readFrom" ok "\<lambda>v. Suc (need v)" fuel
proof
  show "3 \<le> fuel" by (rule body_fuel)
next
  fix n tag q and d :: 'a assume n: "fuel \<le> n"
  then show "reads_if (absent tag) (read_struct readFrom n d tag False) [] d"
    unfolding read_struct_def using body_fuel by (intro reads_field_absent) simp
  show "\<exists>m. n \<le> Suc m \<and> seeks m tag (read_struct readFrom n d tag q)"
    unfolding read_struct_def by (blast intro: seeks_read_field le_SucI)
qed (auto intro: struct_appends struct_field reads_struct init_all)

section \<open>The overloads meet the contract\<close>

text \<open>The frame all readers share: a missing optional field, and where the search starts.\<close>

lemma some_seeks_field: "\<exists>m. n \<le> Suc m \<and> seeks m tag (read_field n d tag q body)"
  using seeks_read_field by (intro exI [of _ n]) simp

lemma some_seeks_andthen:
  "\<exists>m. n \<le> Suc m \<and> seeks m tag r \<Longrightarrow> \<exists>m. n \<le> Suc m \<and> seeks m tag (andthen r f)"
  using seeks_andthen by blast

lemmas field_contract = reads_field_absent some_seeks_field
lemmas through_contract = reads_andthen_ret some_seeks_andthen

lemma enc_Float_field: "is_field tag 1 (enc_Float w tag)"
  by (intro is_fieldI [where ty = TarsHeadeFloat and body = "be 4 w"])
    (auto simp: enc_Float_def intro: skip_types)

lemma enc_Double_field: "is_field tag 1 (enc_Double w tag)"
  by (intro is_fieldI [where ty = TarsHeadeDouble and body = "be 8 w"])
    (auto simp: enc_Double_def intro: skip_types)

lemmas scalar_field [unfolded One_nat_def] =
  enc_Char_field enc_Short_field enc_Int32_field enc_Int64_field enc_Float_field enc_Double_field
  enc_string_field

interpretation char: tars_codec write_Char enc_Char read_Char "\<lambda>_. True" "\<lambda>_. 1" 3
proof
  show "reads_if (absent tag) (read_Char n d tag False) [] d" if "3 \<le> n" for n tag d
    unfolding read_Char_def using that by (intro field_contract) simp
  show "\<exists>m. n \<le> Suc m \<and> seeks m tag (read_Char n d tag q)" if "3 \<le> n" for n tag q d
    unfolding read_Char_def by (rule field_contract)
qed (auto intro: appends_Char scalar_field reads_Char)

interpretation short: tars_codec write_Short enc_Short read_Short "\<lambda>_. True" "\<lambda>_. 1" 3
proof
  show "reads_if (absent tag) (read_Short n d tag False) [] d" if "3 \<le> n" for n tag d
    unfolding read_Short_def using that by (intro field_contract) simp
  show "\<exists>m. n \<le> Suc m \<and> seeks m tag (read_Short n d tag q)" if "3 \<le> n" for n tag q d
    unfolding read_Short_def by (rule field_contract)
qed (auto intro: appends_Short scalar_field reads_Short)

lemma Int32_contract:
  assumes "3 \<le> n"
  shows "\<not> q \<Longrightarrow> reads_if (absent tag) (read_Int32 n d tag q) [] d"
    and "\<exists>m. n \<le> Suc m \<and> seeks m tag (read_Int32 n d tag q)"
proof -
  obtain m where n: "n = Suc m" "2 \<le> m" using assms by (cases n) auto
  show "\<not> q \<Longrightarrow> reads_if (absent tag) (read_Int32 n d tag q) [] d"
    using reads_field_absent [OF n(2)] by (simp add: n(1) read_Int32_Suc)
  show "\<exists>m. n \<le> Suc m \<and> seeks m tag (read_Int32 n d tag q)"
    unfolding n(1) read_Int32_Suc using seeks_read_field by (intro exI [of _ m]) simp
qed

interpretation int32: tars_codec write_Int32 enc_Int32 read_Int32 "\<lambda>_. True" "\<lambda>_. 1" 3
  by unfold_locales
    (auto intro: appends_Int32 scalar_field reads_Int32 Int32_contract)

interpretation int64: tars_codec write_Int64 enc_Int64 read_Int64 "\<lambda>_. True" "\<lambda>_. 1" 3
proof
  show "reads_if (absent tag) (read_Int64 n d tag False) [] d" if "3 \<le> n" for n tag d
    unfolding read_Int64_def using that by (intro field_contract) simp
  show "\<exists>m. n \<le> Suc m \<and> seeks m tag (read_Int64 n d tag q)" if "3 \<le> n" for n tag q d
    unfolding read_Int64_def by (rule field_contract)
qed (auto intro: appends_Int64 scalar_field reads_Int64)

interpretation float: tars_codec write_Float enc_Float read_Float "\<lambda>_. True" "\<lambda>_. 1" 3
proof
  show "reads_if (absent tag) (read_Float n d tag False) [] d" if "3 \<le> n" for n tag d
    unfolding read_Float_def using that by (intro field_contract) simp
  show "\<exists>m. n \<le> Suc m \<and> seeks m tag (read_Float n d tag q)" if "3 \<le> n" for n tag q d
    unfolding read_Float_def by (rule field_contract)
qed (auto intro: appends_Float scalar_field reads_Float)

interpretation double: tars_codec write_Double enc_Double "read_Double widen narrow"
  "\<lambda>_. True" "\<lambda>_. 1" 3 for widen narrow
proof
  show "reads_if (absent tag) (read_Double widen narrow n d tag False) [] d" if "3 \<le> n" for n tag d
    unfolding read_Double_def using that by (intro field_contract) simp
  show "\<exists>m. n \<le> Suc m \<and> seeks m tag (read_Double widen narrow n d tag q)" if "3 \<le> n" for n tag q d
    unfolding read_Double_def by (rule field_contract)
qed (auto intro: appends_Double scalar_field reads_Double)

interpretation bool: tars_codec write_Bool enc_Bool read_Bool "\<lambda>_. True" "\<lambda>_. 1" 3
proof
  show "is_field tag 1 (enc_Bool v tag)" for v tag
    unfolding enc_Bool_def by (rule enc_Char_field)
  show "reads_if (absent tag) (read_Bool n d tag False) [] d" if "3 \<le> n" for n tag d
    unfolding read_Bool_def
    by (rule through_contract, rule char.rd_none [OF that]) (simp add: ucast_ucast_id)
  show "\<exists>m. n \<le> Suc m \<and> seeks m tag (read_Bool n d tag q)" if "3 \<le> n" for n tag q d
    unfolding read_Bool_def by (rule through_contract, rule char.rd_seeks [OF that])
qed (auto intro: appends_Bool reads_Bool)

interpretation uint8: tars_codec write_UInt8 enc_UInt8 read_UInt8 "\<lambda>_. True" "\<lambda>_. 1" 3
proof
  show "is_field tag 1 (enc_UInt8 v tag)" for v tag
    unfolding enc_UInt8_def by (rule enc_Short_field)
  show "reads_if (absent tag) (read_UInt8 n d tag False) [] d" if "3 \<le> n" for n tag d
    unfolding read_UInt8_def
    by (rule through_contract, rule short.rd_none [OF that]) (simp add: ucast_ucast_id)
  show "\<exists>m. n \<le> Suc m \<and> seeks m tag (read_UInt8 n d tag q)" if "3 \<le> n" for n tag q d
    unfolding read_UInt8_def by (rule through_contract, rule short.rd_seeks [OF that])
qed (auto intro: appends_UInt8 reads_UInt8)

interpretation uint16: tars_codec write_UInt16 enc_UInt16 read_UInt16 "\<lambda>_. True" "\<lambda>_. 1" 3
proof
  show "is_field tag 1 (enc_UInt16 v tag)" for v tag
    unfolding enc_UInt16_def by (rule enc_Int32_field)
  show "reads_if (absent tag) (read_UInt16 n d tag False) [] d" if "3 \<le> n" for n tag d
    unfolding read_UInt16_def
    by (rule through_contract, rule int32.rd_none [OF that]) (simp add: ucast_ucast_id)
  show "\<exists>m. n \<le> Suc m \<and> seeks m tag (read_UInt16 n d tag q)" if "3 \<le> n" for n tag q d
    unfolding read_UInt16_def by (rule through_contract, rule int32.rd_seeks [OF that])
qed (auto intro: appends_UInt16 reads_UInt16)

interpretation uint32: tars_codec write_UInt32 enc_UInt32 read_UInt32 "\<lambda>_. True" "\<lambda>_. 1" 3
proof
  show "is_field tag 1 (enc_UInt32 v tag)" for v tag
    unfolding enc_UInt32_def by (rule enc_Int64_field)
  show "reads_if (absent tag) (read_UInt32 n d tag False) [] d" if "3 \<le> n" for n tag d
    unfolding read_UInt32_def
    by (rule through_contract, rule int64.rd_none [OF that]) (simp add: ucast_ucast_id)
  show "\<exists>m. n \<le> Suc m \<and> seeks m tag (read_UInt32 n d tag q)" if "3 \<le> n" for n tag q d
    unfolding read_UInt32_def by (rule through_contract, rule int64.rd_seeks [OF that])
qed (auto intro: appends_UInt32 reads_UInt32)

interpretation str: tars_codec write_string enc_string read_string "\<lambda>v. length v \<le> TARS_MAX_STRING_LENGTH" "\<lambda>_. 1" 3
proof
  show "reads_if (absent tag) (read_string n d tag False) [] d" if "3 \<le> n" for n tag d
    unfolding read_string_def using that by (intro field_contract) simp
  show "\<exists>m. n \<le> Suc m \<and> seeks m tag (read_string n d tag q)" if "3 \<le> n" for n tag q d
    unfolding read_string_def by (rule field_contract)
qed (auto intro: appends_string scalar_field reads_string)

interpretation blob: tars_codec write_vector_char enc_vector_char read_vector_char "\<lambda>v. length v < 2 ^ 31" "\<lambda>_. 4" 3
proof
  show "reads_if (absent tag) (read_vector_char n d tag False) [] d" if "3 \<le> n" for n tag d
    unfolding read_vector_char_def using that by (intro field_contract) simp
  show "\<exists>m. n \<le> Suc m \<and> seeks m tag (read_vector_char n d tag q)" if "3 \<le> n" for n tag q d
    unfolding read_vector_char_def by (rule field_contract)
qed (auto intro: appends_vector_char enc_vector_char_field reads_vector_char)

text \<open>The maps of the packet headers, and the attributes of a tup packet.\<close>

interpretation str_str: tars_codec_pair write_string enc_string read_string
  "\<lambda>v. length v \<le> TARS_MAX_STRING_LENGTH" "\<lambda>_. 1" 3
  write_string enc_string read_string "\<lambda>v. length v \<le> TARS_MAX_STRING_LENGTH" "\<lambda>_. 1" 3
  by unfold_locales

interpretation str_blob: tars_codec_pair write_string enc_string read_string
  "\<lambda>v. length v \<le> TARS_MAX_STRING_LENGTH" "\<lambda>_. 1" 3
  write_vector_char enc_vector_char read_vector_char "\<lambda>v. length v < 2 ^ 31" "\<lambda>_. 4" 3
  by unfold_locales

end
