(* ===== verification/Tars_Limits.thy ===== *)
theory Tars_Limits
  imports Tars_Struct
begin

text \<open>
  What the codec of \<^verbatim>\<open>src/tup/Tars.h\<close> does outside the format its writer produces: a length that
  is negative, a preset buffer that is full, an assignment between writers, an array smaller
  than the list on the wire.
\<close>

section \<open>A negative length makes the search for a tag run forever\<close>

text \<open>A field of type simple list with tag 0 whose \<open>Int32\<close> size is -4, in four bytes.\<close>

definition backward_skip :: bytes where
  "backward_skip = [13, 0, 0, 252]"

lemma backward_bytes:
  "backward_skip = enc_head TarsHeadeSimpleList 0 @ enc_head TarsHeadeChar 0 @ enc_Int32 (- 4) 0"
  by code_simp

lemma backward_at:
  "stream_at (setBuffer_vector backward_skip s)
     (enc_head TarsHeadeSimpleList 0 @ (enc_head TarsHeadeChar 0 @ enc_Int32 (- 4) 0 @ []))"
  using stream_at_setBuffer_vector [of backward_skip s]
  unfolding append_Nil2 backward_bytes [symmetric] by (simp add: backward_skip_def)

lemma backward_heads: "length (enc_head TarsHeadeSimpleList 0) = 1"
  "length (enc_head TarsHeadeChar 0) = 1"
  by (simp_all add: length_enc_head)

lemmas backward_at1 = stream_at_adv [OF backward_at, unfolded backward_heads]
lemmas backward_at2 = stream_at_adv [OF backward_at1, unfolded backward_heads adv_adv one_add_one]

lemma backward_head:
  "readFromHead (adv 1 (setBuffer_vector backward_skip s)) =
     (Ok (TarsHeadeChar, 0), adv 2 (setBuffer_vector backward_skip s))"
proof -
  have "TarsHeadeChar < 16" by simp
  from reads_ifD [OF reads_readFromHead [OF this] TrueI backward_at1] show ?thesis
    unfolding backward_heads adv_adv one_add_one .
qed

lemma skipField_back:
  assumes "4 \<le> n"
  shows "skipField_type n TarsHeadeSimpleList (adv 1 (setBuffer_vector backward_skip s)) =
    (Ok (), setBuffer_vector backward_skip s)"
proof -
  let ?s = "setBuffer_vector backward_skip s"
  obtain m where n: "n = Suc m" "3 \<le> m" using assms by (cases n) auto
  have "length (enc_Int32 (- 4) 0) = 2" by code_simp
  then have size: "read_Int32 m 0 0 True (adv 2 ?s) = (Ok (- 4), adv 4 ?s)"
    using reads_ifD [OF reads_Int32 [OF n(2)] TrueI backward_at2] by fastforce
  have "TarsReadHeadSkip (- 4) (adv 4 ?s) = (Ok (), ?s)"
    by (simp add: TarsReadHeadSkip_def adv_def setBuffer_vector_def)
  moreover have "sint (- 4 :: tInt32) = - 4" by simp
  ultimately show ?thesis
    unfolding n(1) using backward_head [of s]
    by (simp add: skipField_type.simps(2) andthen_Ok size)
qed

lemma read_Int32_short: "m < 3 \<Longrightarrow> \<exists>s'. read_Int32 m 0 0 True t = (OutOfFuel, s')"
proof -
  assume "m < 3"
  then consider "m = 0" | "m = 1" | "m = 2" by linarith
  then show ?thesis
    by cases (auto simp: read_Int32.simps(2) TarsSkipToTag.simps(2) numeral_2_eq_2
      andthen_def catch_decode_def diverge_def)
qed

lemma skipField_back_short:
  assumes "n < 4"
  shows "\<exists>s'. skipField_type n TarsHeadeSimpleList (adv 1 (setBuffer_vector backward_skip s)) =
    (OutOfFuel, s')"
proof (cases n)
  case 0
  then show ?thesis by (simp add: diverge_def)
next
  case (Suc m)
  with assms obtain s' where
    "read_Int32 m 0 0 True (adv 2 (setBuffer_vector backward_skip s)) = (OutOfFuel, s')"
    using read_Int32_short [of m] by auto
  then show ?thesis
    unfolding Suc using backward_head [of s]
    by (simp add: skipField_type.simps(2) andthen_Ok andthen_OutOfFuel)
qed

lemma skipLoop_backward:
  "\<exists>s'. skipLoop n 1 (setBuffer_vector backward_skip s) = (OutOfFuel, s')"
proof (induction n)
  case 0
  then show ?case by (simp add: diverge_def)
next
  case (Suc n)
  let ?s = "setBuffer_vector backward_skip s"
  note at0 = backward_at [of s]
  have "\<not> hasEnd ?s" using hasEnd_at [OF at0] by simp
  moreover have "TarsPeekFromHead ?s = (Ok (TarsHeadeSimpleList, 0, 1), ?s)"
    using PeekFromHead_Ok [OF at0] by (simp add: length_enc_head)
  moreover have "TarsReadHeadSkip 1 ?s = (Ok (), adv 1 ?s)"
    using HeadSkip_Ok [OF at0, of 1] by (simp add: length_enc_head)
  ultimately have "skipLoop (Suc n) 1 ?s =
      andthen (skipField_type n TarsHeadeSimpleList) (\<lambda>_. skipLoop n 1) (adv 1 ?s)"
    by (simp add: skipLoop.simps(2) andthen_Ok)
  with Suc.IH skipField_back [of n s] skipField_back_short [of n s] show ?case
    by (cases "n < 4") (auto simp: andthen_Ok andthen_OutOfFuel)
qed

section \<open>A preset buffer that is full\<close>

text \<open>\<open>writeBuf\<close> refuses, the macros behind every \<open>write\<close> store past the end.\<close>

lemma full_buffer:
  assumes "\<not> wreverse os" and "wcap os = length (wbuf os)" and "wlen os \<le> wcap os"
    and "wcap os < wlen os + length bs" and "wlen os + length bs < size_max"
  shows "buff_writeBuf bs os = (Throw TarsNotEnoughBuff, os)"
    and "TarsWriteTypeBuf bs os = (Fault, os)"
  using assms
  by (auto simp: buff_writeBuf_def TarsWriteTypeBuf_def TarsReserveBuf_def store_at_end_def
      mem_write_def andthen_Ok)

section \<open>Assignment between writers\<close>

lemma writer_copy_contents:
  assumes "wf_os bw" and "2 * wlen bw < size_max"
  obtains os where "writer_copy bw = (Ok (), os)" and "contents os = contents bw"
proof -
  have len: "length (contents bw) = wlen bw" by (rule length_contents [OF assms(1)])
  have "2 * (wlen BufferWriter_init + length (contents bw)) < size_max"
    using assms(2) len by (simp add: BufferWriter_init_def)
  from appendsD [OF appends_scalar(9) wf_os_init this] obtain os where
    os: "writeBuf (contents bw) BufferWriter_init = (Ok (), os)" "wf_os os"
    "contents os = contents bw"
    by auto
  then have "wlen os = wlen bw" using length_contents [OF os(2)] len by simp
  then have "os\<lparr>wlen := wlen bw\<rparr> = os" by simp
  with os that show thesis
    by (auto simp: writer_copy_def contents_def [symmetric] andthen_Ok)
qed

text \<open>The assignment appends to what the target holds and then cuts at the source's length.\<close>

lemma writer_assign_contents:
  assumes "wf_os buf" and "wf_os os" and "2 * (wlen os + wlen buf) < size_max"
  obtains os' where "writer_assign buf os = (Ok (), os')"
    and "contents os' = take (wlen buf) (contents os @ contents buf)"
proof -
  have r: "os\<lparr>wreverse := True\<rparr> = os" using assms(2) by (simp add: wf_os_def)
  have len: "length (contents buf) = wlen buf" by (rule length_contents [OF assms(1)])
  have "2 * (wlen os + length (contents buf)) < size_max" using assms(3) len by simp
  from appendsD [OF appends_scalar(9) assms(2) this] obtain os1 where
    os1: "writeBuf (contents buf) os = (Ok (), os1)" "wf_os os1"
    "contents os1 = contents os @ contents buf"
    by auto
  then have "wlen os1 = wlen os + wlen buf"
    using length_contents [OF os1(2)] length_contents [OF assms(2)] len by simp
  then have "contents (os1\<lparr>wlen := wlen buf\<rparr>) = take (wlen buf) (contents os1)"
    by (simp add: contents_def getByteBuffer_def min_def)
  with os1 r that show thesis
    by (auto simp: writer_assign_def contents_def [symmetric] andthen_Ok)
qed

section \<open>Lists read into arrays\<close>

context tars_codec
begin

lemma array_elems:
  assumes "\<forall>x \<in> set w. ok x" and "fuel \<le> n" and "length w \<le> length v - i" and "i \<le> length v"
  shows "reads (read_array_elems (\<lambda>x. rd n x 0 True) v i (length w)) (concat (map (\<lambda>x. enc x 0) w))
     (take i v @ w @ drop (i + length w) v)"
  using assms
proof (induction w arbitrary: v i)
  case (Cons x w)
  have "reads (read_array_elems (\<lambda>x. rd n x 0 True) (v[i := x]) (Suc i) (length w))
      (concat (map (\<lambda>x. enc x 0) w))
      (take (Suc i) (v[i := x]) @ w @ drop (Suc i + length w) (v[i := x]))"
    by (rule Cons.IH) (use Cons.prems in auto)
  moreover have "take (Suc i) (v[i := x]) = take i v @ [x]"
    using Cons.prems by (simp add: take_Suc_conv_app_nth)
  ultimately have "reads (read_array_elems (\<lambda>x. rd n x 0 True) (v[i := x]) (Suc i) (length w))
      (concat (map (\<lambda>x. enc x 0) w)) (take i v @ (x # w) @ drop (i + length (x # w)) v)"
    by simp
  then show ?case
    using Cons.prems by (auto intro!: reads_andthen [OF rd_enc [of x]])
qed auto

text \<open>An array too small for the list: the element after the last is stored outside it.\<close>

lemma array_elems_overflow:
  assumes "\<forall>x \<in> set w. ok x" and "fuel \<le> n" and "i + length w = length v"
    and "stream_at s (concat (map (\<lambda>x. enc x 0) w) @ r)"
  shows "fst (read_array_elems (\<lambda>x. rd n x 0 True) v i (length w + Suc k) s) = Fault"
  using assms
proof (induction w arbitrary: v i s)
  case (Cons x w)
  then have at: "stream_at s (enc x 0 @ (concat (map (\<lambda>x. enc x 0) w) @ r))" by simp
  have "rd n (v ! i) 0 True s = (Ok x, adv (length (enc x 0)) s)"
    using Cons.prems by (intro reads_ifD [OF rd_enc TrueI at]) auto
  moreover have "fst (read_array_elems (\<lambda>x. rd n x 0 True) (v[i := x]) (Suc i) (length w + Suc k)
      (adv (length (enc x 0)) s)) = Fault"
    by (rule Cons.IH) (use Cons.prems stream_at_adv [OF at] in auto)
  ultimately show ?case using Cons.prems by (simp add: andthen_Ok)
qed (simp add: fault_def)

lemma read_array_fits:
  assumes "\<forall>x \<in> set w. ok x" and "length w < 2 ^ 32" and "fuel \<le> n" and "length w \<le> length v"
  shows "reads (read_array rd n v readLen tag q) (enc_vector enc w tag)
     (w @ drop (length w) v, length w)"
proof -
  have "reads (andthen (read_array_elems (\<lambda>x. rd n x 0 True) v 0 (length w))
      (\<lambda>v'. ret (v', length w))) (concat (map (\<lambda>x. enc x 0) w)) (w @ drop (length w) v, length w)"
    using array_elems [of w n v 0] assms by (intro reads_andthen_ret) auto
  then show ?thesis
    unfolding read_array_def
    by (intro reads_field [where ty = TarsHeadeList])
      (use assms fuel_ge in \<open>auto simp: enc_vector_def
        intro!: reads_counted [where k = "length w"] length_concat_enc\<close>)
qed

lemma read_array_overflow:
  assumes w: "\<forall>x \<in> set w. ok x" "length w < 2 ^ 32" and n: "fuel \<le> n"
    and lt: "length v < length w" and at: "stream_at s (enc_vector enc w tag @ r)"
  shows "fst (read_array rd n v readLen tag q s) = Fault"
proof -
  let ?es = "concat (map (\<lambda>x. enc x 0) w)"
  let ?hd = "enc_head TarsHeadeList tag" and ?sz = "enc_Int32 (word_of_nat (length w)) 0"
  let ?w1 = "take (length v) w"
  have at0: "stream_at s (?hd @ (?sz @ (?es @ r)))"
    using at by (simp add: enc_vector_def)
  note at1 = stream_at_adv [OF at0] and at2 = stream_at_adv [OF stream_at_adv [OF at0]]
  have hd: "TarsSkipToTag n tag s = (Ok (Some TarsHeadeList), adv (length ?hd) s)"
    using n fuel_ge by (intro SkipToTag_found [OF at0]) auto
  have sz: "checked_size n (adv (length ?hd) s) = (Ok (length w), adv (length ?sz) (adv (length ?hd) s))"
    by (rule checked_size_Ok [OF at1]) (use w n fuel_ge length_concat_enc [OF w(1)] in auto)
  obtain k where k: "length w = length ?w1 + Suc k"
    using lt less_imp_Suc_add [of "length v" "length w"] by auto
  have "?es = concat (map (\<lambda>x. enc x 0) ?w1) @ concat (map (\<lambda>x. enc x 0) (drop (length v) w))"
    by (metis append_take_drop_id concat_append map_append)
  then have "stream_at (adv (length ?sz) (adv (length ?hd) s))
      (concat (map (\<lambda>x. enc x 0) ?w1) @ (concat (map (\<lambda>x. enc x 0) (drop (length v) w)) @ r))"
    using at2 by (simp only: append_assoc)
  then have "fst (read_array_elems (\<lambda>x. rd n x 0 True) v 0 (length ?w1 + Suc k)
      (adv (length ?sz) (adv (length ?hd) s))) = Fault"
    by (rule array_elems_overflow [rotated 3]) (use w n lt in \<open>auto dest: in_set_takeD\<close>)
  then have "fst (read_array_elems (\<lambda>x. rd n x 0 True) v 0 (length w)
      (adv (length ?sz) (adv (length ?hd) s))) = Fault"
    by (simp only: k [symmetric])
  then show ?thesis
    by (cases "read_array_elems (\<lambda>x. rd n x 0 True) v 0 (length w)
        (adv (length ?sz) (adv (length ?hd) s))")
      (simp add: read_array_def read_field_def hd andthen_Ok sz andthen_Fault)
qed

end

end
