(* ===== verification/Tc_Buffer.thy ===== *)
theory Tc_Buffer
  imports Tars_Prelude
begin

text \<open>
  \<open>TC_Buffer\<close> of \<^verbatim>\<open>src/util/include/tc_buffer.h\<close> and \<^verbatim>\<open>src/util/src/tc_buffer.cpp\<close>: a byte
  queue in one block of memory with a read and a write cursor. The abstract view is the list of
  readable bytes; every operation is shown to act on it as the interface comments say.
\<close>

section \<open>State\<close>

text \<open>\<open>tb_mem\<close> is the block behind \<open>_buffer\<close> (\<open>[]\<close> for \<open>NULL\<close>); sizes are \<open>size_t\<close>.\<close>

record tc_buffer =
  tb_read :: nat
  tb_write :: nat
  tb_cap :: nat
  tb_mem :: bytes
  tb_high :: nat

definition kMaxBufferSize :: nat where
  "kMaxBufferSize = 9223372036854775807"

definition kDefaultSize :: nat where
  "kDefaultSize = 128"

definition TC_Buffer_init :: tc_buffer where
  "TC_Buffer_init = \<lparr>tb_read = 0, tb_write = 0, tb_cap = 0, tb_mem = [], tb_high = 50\<rparr>"

definition size_mul :: "nat \<Rightarrow> nat \<Rightarrow> nat" where
  "size_mul a b = (a * b) mod size_max"

text \<open>The loop of \<open>RoundUp2Power\<close>; above \<open>2\<^sup>6\<^sup>3\<close> the doubled value wraps to 0 and stays there.\<close>

fun RoundUp2Power_loop :: "nat \<Rightarrow> nat \<Rightarrow> nat \<Rightarrow> nat option" where
  "RoundUp2Power_loop 0 sz roundUp = None"
| "RoundUp2Power_loop (Suc k) sz roundUp =
     (if roundUp < sz then RoundUp2Power_loop k sz (size_mul roundUp 2) else Some roundUp)"

definition RoundUp2Power :: "nat \<Rightarrow> nat option" where
  "RoundUp2Power sz = (if sz = 0 then Some 0 else RoundUp2Power_loop 65 sz 1)"

definition ReadableSize :: "tc_buffer \<Rightarrow> nat" where
  "ReadableSize b = size_sub (tb_write b) (tb_read b)"

definition WritableSize :: "tc_buffer \<Rightarrow> nat" where
  "WritableSize b = size_sub (tb_cap b) (tb_write b)"

definition IsEmpty :: "tc_buffer \<Rightarrow> bool" where
  "IsEmpty b \<longleftrightarrow> ReadableSize b = 0"

definition Produce :: "nat \<Rightarrow> tc_buffer \<Rightarrow> tc_buffer" where
  "Produce n b = b\<lparr>tb_write := size_add (tb_write b) n\<rparr>"

definition Clear :: "tc_buffer \<Rightarrow> tc_buffer" where
  "Clear b = b\<lparr>tb_read := 0, tb_write := 0\<rparr>"

section \<open>Operations\<close>

definition tb_assert :: "bool \<Rightarrow> (tc_buffer, unit) act" where
  "tb_assert p b = (if p then (Ok (), b) else (Abort, b))"

definition Consume :: "nat \<Rightarrow> (tc_buffer, unit) act" where
  "Consume n b =
     andthen (tb_assert (size_add (tb_read b) n \<le> tb_write b)) (\<lambda>_ b0.
       let b1 = b0\<lparr>tb_read := size_add (tb_read b0) n\<rparr>
       in (Ok (), if IsEmpty b1 then Clear b1 else b1)) b"

text \<open>The growth loop; \<open>None\<close> of \<open>RoundUp2Power\<close> is its endless loop.\<close>

fun grow_loop :: "nat \<Rightarrow> nat \<Rightarrow> (tc_buffer, unit) act" where
  "grow_loop 0 needsize = diverge"
| "grow_loop (Suc k) needsize = (\<lambda>b.
     if size_add (WritableSize b) (tb_read b) < needsize then
       if tb_cap b < kDefaultSize then grow_loop k needsize (b\<lparr>tb_cap := kDefaultSize\<rparr>)
       else if tb_cap b \<le> kMaxBufferSize then
         (case RoundUp2Power (tb_cap b) of
            None \<Rightarrow> (OutOfFuel, b)
          | Some newCap \<Rightarrow>
              if tb_cap b < newCap then grow_loop k needsize (b\<lparr>tb_cap := newCap\<rparr>)
              else grow_loop k needsize (b\<lparr>tb_cap := size_mul 2 newCap\<rparr>))
       else (Abort, b)
     else (Ok (), b))"

definition AssureSpace :: "nat \<Rightarrow> (tc_buffer, unit) act" where
  "AssureSpace needsize b =
     (if needsize \<le> WritableSize b then (Ok (), b)
      else
        let dataSize = ReadableSize b; oldCap = tb_cap b in
        andthen (grow_loop 66 needsize) (\<lambda>_.
        andthen (\<lambda>b1.
          if oldCap < tb_cap b1 then
            if tb_read b1 + dataSize \<le> length (tb_mem b1) \<and> dataSize \<le> tb_cap b1
            then (Ok (), b1\<lparr>tb_mem := take dataSize (drop (tb_read b1) (tb_mem b1))
                     @ replicate (tb_cap b1 - dataSize) 0\<rparr>)
            else (Fault, b1)
          else
            andthen (tb_assert (0 < tb_read b1)) (\<lambda>_ b2.
              if tb_read b2 + dataSize \<le> length (tb_mem b2)
              then (Ok (), b2\<lparr>tb_mem := take dataSize (drop (tb_read b2) (tb_mem b2))
                       @ drop dataSize (tb_mem b2)\<rparr>)
              else (Fault, b2)) b1) (\<lambda>_ b3.
          let b4 = b3\<lparr>tb_read := 0, tb_write := dataSize\<rparr>
          in tb_assert (needsize \<le> WritableSize b4) b4)) b)"

text \<open>A null pointer is \<open>None\<close>; the result is the number of bytes written.\<close>

definition PushData :: "bytes option \<Rightarrow> nat \<Rightarrow> (tc_buffer, nat) act" where
  "PushData data sz b =
     (case data of
        None \<Rightarrow> (Ok 0, b)
      | Some bs \<Rightarrow>
          if sz = 0 then (Ok 0, b)
          else if kMaxBufferSize \<le> size_add (ReadableSize b) sz then (Ok 0, b)
          else andthen (AssureSpace sz) (\<lambda>_ b1.
            if sz \<le> length bs \<and> tb_write b1 + sz \<le> length (tb_mem b1)
            then (Ok sz, Produce sz (b1\<lparr>tb_mem :=
                    take (tb_write b1) (tb_mem b1) @ take sz bs
                    @ drop (tb_write b1 + sz) (tb_mem b1)\<rparr>))
            else (Fault, b1)) b)"

text \<open>\<open>buf\<close> tells whether the target is not null; the bytes copied out are the result.\<close>

definition PopData :: "bool \<Rightarrow> nat \<Rightarrow> (tc_buffer, bytes) act" where
  "PopData buf sz b =
     (let dataSize = ReadableSize b in
      if \<not> buf \<or> sz = 0 \<or> dataSize = 0 then (Ok [], b)
      else let n = (if dataSize < sz then dataSize else sz) in
        if tb_read b + n \<le> length (tb_mem b)
        then andthen (Consume n) (\<lambda>_. ret (take n (drop (tb_read b) (tb_mem b)))) b
        else (Fault, b))"

definition PeekData :: "tc_buffer \<Rightarrow> bytes" where
  "PeekData b = take (ReadableSize b) (drop (tb_read b) (tb_mem b))"

definition Shrink :: "(tc_buffer, unit) act" where
  "Shrink b =
     (if IsEmpty b then (Ok (), (Clear b)\<lparr>tb_cap := 0, tb_mem := []\<rparr>)
      else if tb_cap b \<le> kDefaultSize then (Ok (), b)
      else
        let oldCap = tb_cap b; dataSize = ReadableSize b in
        if size_mul oldCap (tb_high b) < size_mul dataSize 100 then (Ok (), b)
        else case RoundUp2Power dataSize of
          None \<Rightarrow> (OutOfFuel, b)
        | Some newCap \<Rightarrow>
            if tb_read b + dataSize \<le> length (tb_mem b) \<and> dataSize \<le> newCap
            then (Ok (), b\<lparr>tb_mem := take dataSize (drop (tb_read b) (tb_mem b))
                              @ replicate (newCap - dataSize) 0,
                           tb_cap := newCap, tb_read := 0, tb_write := dataSize\<rparr>)
            else (Fault, b))"

text \<open>\<open>Swap\<close> exchanges all members but the high-water mark.\<close>

definition Swap :: "tc_buffer \<times> tc_buffer \<Rightarrow> tc_buffer \<times> tc_buffer" where
  "Swap bs =
     (case bs of (a, b) \<Rightarrow>
        (b\<lparr>tb_high := tb_high a\<rparr>, a\<lparr>tb_high := tb_high b\<rparr>))"

definition SetHighWaterPercent :: "nat \<Rightarrow> tc_buffer \<Rightarrow> tc_buffer" where
  "SetHighWaterPercent percents b =
     (if percents < 10 \<or> 100 \<le> percents then b else b\<lparr>tb_high := percents\<rparr>)"

section \<open>Invariant and abstract view\<close>

definition tb_inv :: "tc_buffer \<Rightarrow> bool" where
  "tb_inv b \<longleftrightarrow> tb_read b \<le> tb_write b \<and> tb_write b \<le> tb_cap b \<and> length (tb_mem b) = tb_cap b \<and>
     tb_cap b \<le> 9223372036854775808 \<and> (tb_cap b = 0 \<or> (\<exists>j. tb_cap b = 2 ^ j)) \<and>
     10 \<le> tb_high b \<and> tb_high b < 100"

definition readable :: "tc_buffer \<Rightarrow> bytes" where
  "readable b = take (tb_write b - tb_read b) (drop (tb_read b) (tb_mem b))"

lemma tb_inv_init: "tb_inv TC_Buffer_init" "readable TC_Buffer_init = []"
  by (simp_all add: tb_inv_def TC_Buffer_init_def readable_def)

lemma ReadableSize_eq: "tb_inv b \<Longrightarrow> ReadableSize b = length (readable b)"
  by (auto simp: tb_inv_def ReadableSize_def readable_def min_def)

lemma WritableSize_eq: "tb_inv b \<Longrightarrow> WritableSize b = tb_cap b - tb_write b"
  by (simp add: tb_inv_def WritableSize_def)

lemma length_readable: "tb_inv b \<Longrightarrow> length (readable b) = tb_write b - tb_read b"
  by (auto simp: tb_inv_def readable_def min_def)

lemma readable_alt: "readable b = drop (tb_read b) (take (tb_write b) (tb_mem b))"
  by (simp add: readable_def drop_take)

lemma PeekData_eq: "tb_inv b \<Longrightarrow> PeekData b = readable b"
  by (simp add: PeekData_def readable_def tb_inv_def ReadableSize_def)

text \<open>\<open>RoundUp2Power\<close> gives the least power of two that is large enough.\<close>

lemma RoundUp2Power_loop_spec:
  "i + k = 64 \<Longrightarrow> sz \<le> 2 ^ 63 \<Longrightarrow> i = 0 \<or> 2 ^ (i - 1) < sz \<Longrightarrow> i \<le> 63 \<Longrightarrow>
     \<exists>j \<le> 63. RoundUp2Power_loop (Suc k) sz (2 ^ i) = Some (2 ^ j) \<and> sz \<le> 2 ^ j \<and>
       (j = 0 \<or> 2 ^ (j - 1) < sz)"
proof (induction k arbitrary: i)
  case 0
  then show ?case by simp
next
  case (Suc k)
  show ?case
  proof (cases "(2 :: nat) ^ i < sz")
    case False
    with Suc.prems show ?thesis by (intro exI [of _ i]) auto
  next
    case True
    have "i < 63"
    proof (rule ccontr)
      assume "\<not> i < 63"
      with Suc.prems have "i = 63" by simp
      with True Suc.prems(2) show False by simp
    qed
    then have "(2 :: nat) ^ Suc i \<le> 2 ^ 63" by (intro power_increasing) auto
    then have m: "size_mul (2 ^ i) 2 = 2 ^ Suc i" by (simp add: size_mul_def)
    have "\<exists>j \<le> 63. RoundUp2Power_loop (Suc k) sz (2 ^ Suc i) = Some (2 ^ j) \<and> sz \<le> 2 ^ j \<and>
       (j = 0 \<or> 2 ^ (j - 1) < sz)"
      by (rule Suc.IH) (use Suc.prems True \<open>i < 63\<close> in auto)
    with True m show ?thesis by simp
  qed
qed

lemma RoundUp2Power_spec:
  assumes "0 < sz" and "sz \<le> 2 ^ 63"
  obtains j where "j \<le> 63" and "RoundUp2Power sz = Some (2 ^ j)" and "sz \<le> 2 ^ j"
    and "2 ^ j < 2 * sz"
proof -
  have "\<exists>j \<le> 63. RoundUp2Power_loop (Suc 64) sz (2 ^ 0) = Some (2 ^ j) \<and> sz \<le> 2 ^ j \<and>
       (j = 0 \<or> 2 ^ (j - 1) < sz)"
    using assms(2) by (intro RoundUp2Power_loop_spec) auto
  moreover have "(65 :: nat) = Suc 64" by simp
  ultimately obtain j where j: "j \<le> 63" "RoundUp2Power_loop 65 sz 1 = Some (2 ^ j)" "sz \<le> 2 ^ j"
    "j = 0 \<or> 2 ^ (j - 1) < sz"
    by (auto simp only: power_0)
  have "2 ^ j < 2 * sz"
    using j(4) assms(1) by (cases j) auto
  with j assms(1) show thesis by (intro that [of j]) (simp_all add: RoundUp2Power_def)
qed

lemma RoundUp2Power_power: "i \<le> 63 \<Longrightarrow> RoundUp2Power (2 ^ i) = Some (2 ^ i)"
proof -
  assume i: "i \<le> 63"
  then have le: "(2 :: nat) ^ i \<le> 2 ^ 63" by (intro power_increasing) auto
  have pos: "(0 :: nat) < 2 ^ i" by simp
  obtain j where j: "RoundUp2Power (2 ^ i) = Some (2 ^ j)" "(2 :: nat) ^ i \<le> 2 ^ j"
    "(2 :: nat) ^ j < 2 ^ Suc i"
    using RoundUp2Power_spec [OF pos le] by (metis power_Suc)
  then have "i \<le> j" "j < Suc i" using power_increasing_iff power_strict_increasing_iff by (metis one_less_numeral_iff semiring_norm(76))+
  with j show ?thesis by simp
qed

section \<open>Growing\<close>

lemma grow_pow:
  assumes "tb_cap b = 2 ^ i" and "7 \<le> i" and "i \<le> 63" and "63 - i \<le> k"
    and "tb_read b \<le> tb_write b" and "tb_write b \<le> tb_cap b"
    and "tb_write b - tb_read b + need < kMaxBufferSize"
  shows "\<exists>j \<le> 63. i \<le> j \<and> grow_loop (Suc k) need b = (Ok (), b\<lparr>tb_cap := 2 ^ j\<rparr>) \<and>
     tb_write b - tb_read b + need \<le> 2 ^ j"
  using assms
proof (induction k arbitrary: b i)
  case (0 b i)
  then have "i = 63" by simp
  with 0 show ?case
    by (intro exI [of _ 63]) (auto simp: WritableSize_def kMaxBufferSize_def kDefaultSize_def)
next
  case (Suc k b i)
  have i: "(2 :: nat) ^ i \<le> 2 ^ 63" using Suc.prems(3) by (intro power_increasing) auto
  have free: "size_add (WritableSize b) (tb_read b) = 2 ^ i - (tb_write b - tb_read b)"
    using Suc.prems i by (simp add: WritableSize_def)
  show ?case
  proof (cases "2 ^ i - (tb_write b - tb_read b) < need")
    case False
    with free Suc.prems show ?thesis by (intro exI [of _ i]) auto
  next
    case True
    have lt: "i < 63"
    proof (rule ccontr)
      assume "\<not> i < 63"
      with Suc.prems have "i = 63" by simp
      with True Suc.prems(7) show False by (simp add: kMaxBufferSize_def)
    qed
    then have "(2 :: nat) ^ Suc i \<le> 2 ^ 63" by (intro power_increasing) auto
    then have m: "size_mul 2 (2 ^ i) = 2 ^ Suc i" "2 ^ i \<le> kMaxBufferSize"
      by (simp_all add: size_mul_def kMaxBufferSize_def)
    have "(2 :: nat) ^ 7 \<le> 2 ^ i" using Suc.prems(2) by (intro power_increasing) auto
    then have d: "\<not> tb_cap b < kDefaultSize" using Suc.prems(1) by (simp add: kDefaultSize_def)
    let ?b = "b\<lparr>tb_cap := 2 ^ Suc i\<rparr>"
    have "\<exists>j \<le> 63. Suc i \<le> j \<and> grow_loop (Suc k) need ?b = (Ok (), ?b\<lparr>tb_cap := 2 ^ j\<rparr>) \<and>
       tb_write ?b - tb_read ?b + need \<le> 2 ^ j"
      by (rule Suc.IH) (use Suc.prems lt in auto)
    moreover have "grow_loop (Suc (Suc k)) need b = grow_loop (Suc k) need ?b"
      unfolding grow_loop.simps(2) [of "Suc k"]
      using True free d m Suc.prems(1) RoundUp2Power_power [OF Suc.prems(3)] by simp
    ultimately show ?thesis by auto
  qed
qed

lemma grow_spec:
  assumes inv: "tb_inv b" and small: "tb_write b - tb_read b + need < kMaxBufferSize"
  obtains c where "grow_loop 66 need b = (Ok (), b\<lparr>tb_cap := c\<rparr>)"
    and "tb_write b - tb_read b + need \<le> c" and "c \<le> 9223372036854775808" and "tb_cap b \<le> c"
    and "c = tb_cap b \<or> (\<exists>j. c = 2 ^ j)"
proof -
  have 66: "(66 :: nat) = Suc 65" "(65 :: nat) = Suc 64" by simp_all
  have rw: "tb_read b \<le> tb_write b" "tb_write b \<le> tb_cap b" "tb_cap b \<le> 9223372036854775808"
    using inv by (simp_all add: tb_inv_def)
  have free: "size_add (WritableSize b) (tb_read b) = tb_cap b - (tb_write b - tb_read b)"
    using rw by (simp add: WritableSize_def)
  note result = that
  have pow: thesis if "grow_loop 66 need b = (Ok (), b\<lparr>tb_cap := 2 ^ j\<rparr>)" "j \<le> 63"
    "tb_write b - tb_read b + need \<le> 2 ^ j" "tb_cap b \<le> 2 ^ j" for j
  proof (rule result [of "2 ^ j"])
    have "(2 :: nat) ^ j \<le> 2 ^ 63" using \<open>j \<le> 63\<close> by (intro power_increasing) auto
    then show "(2 :: nat) ^ j \<le> 9223372036854775808" by simp
  qed (use that in auto)
  show thesis
  proof (cases "tb_cap b - (tb_write b - tb_read b) < need")
    case False
    then have "grow_loop 66 need b = (Ok (), b\<lparr>tb_cap := tb_cap b\<rparr>)"
      unfolding 66(1) grow_loop.simps(2) using free by simp
    with False rw show thesis by (intro result [of "tb_cap b"]) auto
  next
    case True
    show thesis
    proof (cases "tb_cap b < kDefaultSize")
      case small': True
      let ?b = "b\<lparr>tb_cap := 2 ^ 7\<rparr>"
      have "\<exists>j \<le> 63. 7 \<le> j \<and> grow_loop (Suc 64) need ?b = (Ok (), ?b\<lparr>tb_cap := 2 ^ j\<rparr>) \<and>
         tb_write ?b - tb_read ?b + need \<le> 2 ^ j"
        by (rule grow_pow) (use small rw small' in \<open>auto simp: kDefaultSize_def\<close>)
      then obtain j where j: "j \<le> 63" "7 \<le> j" "grow_loop (Suc 64) need ?b = (Ok (), b\<lparr>tb_cap := 2 ^ j\<rparr>)"
        "tb_write b - tb_read b + need \<le> 2 ^ j"
        by auto
      have "(2 :: nat) ^ 7 \<le> 2 ^ j" using j(2) by (intro power_increasing) auto
      then have "tb_cap b \<le> 2 ^ j" using small' by (simp add: kDefaultSize_def)
      moreover have "grow_loop (Suc (Suc 64)) need b = (Ok (), b\<lparr>tb_cap := 2 ^ j\<rparr>)"
        unfolding grow_loop.simps(2) [of "Suc 64"] using True free small' j(3)
        by (simp add: kDefaultSize_def)
      then have "grow_loop 66 need b = (Ok (), b\<lparr>tb_cap := 2 ^ j\<rparr>)" by (simp only: 66)
      ultimately show thesis using j by (intro pow [of j])
    next
      case big: False
      have kmax: "tb_cap b \<le> kMaxBufferSize"
        using True small rw by (simp add: kMaxBufferSize_def)
      have cap: "0 < tb_cap b" "tb_cap b \<le> 2 ^ 63" using big rw by (auto simp: kDefaultSize_def)
      obtain i where i: "i \<le> 63" "RoundUp2Power (tb_cap b) = Some (2 ^ i)" "tb_cap b \<le> 2 ^ i"
        by (rule RoundUp2Power_spec [OF cap])
      have i7: "7 \<le> i"
      proof (rule ccontr)
        assume "\<not> 7 \<le> i"
        then have "(2 :: nat) ^ i \<le> 2 ^ 6" by (intro power_increasing) auto
        with i big show False by (simp add: kDefaultSize_def)
      qed
      let ?b = "b\<lparr>tb_cap := 2 ^ i\<rparr>"
      have gp: "\<exists>j \<le> 63. i \<le> j \<and> grow_loop (Suc k) need ?b = (Ok (), ?b\<lparr>tb_cap := 2 ^ j\<rparr>) \<and>
         tb_write ?b - tb_read ?b + need \<le> 2 ^ j" if "64 \<le> k" for k
        by (rule grow_pow) (use small rw i i7 that in auto)
      have le: "tb_cap b \<le> 2 ^ j" if "i \<le> j" for j
        using i(3) by (rule order_trans) (use that in \<open>auto intro: power_increasing\<close>)
      show thesis
      proof (cases "tb_cap b < 2 ^ i")
        case lt: True
        from gp [of 64] obtain j where j: "j \<le> 63" "i \<le> j"
          "grow_loop (Suc 64) need ?b = (Ok (), b\<lparr>tb_cap := 2 ^ j\<rparr>)"
          "tb_write b - tb_read b + need \<le> 2 ^ j"
          by auto
        have "grow_loop (Suc (Suc 64)) need b = (Ok (), b\<lparr>tb_cap := 2 ^ j\<rparr>)"
          unfolding grow_loop.simps(2) [of "Suc 64"] using True free big kmax i(2) lt j(3) by simp
        then have "grow_loop 66 need b = (Ok (), b\<lparr>tb_cap := 2 ^ j\<rparr>)" by (simp only: 66)
        with j le show thesis by (intro pow [of j])
      next
        case False
        then have "?b = b" using i(3) by simp
        with gp [of 65] obtain j where j: "j \<le> 63" "i \<le> j"
          "grow_loop (Suc 65) need b = (Ok (), b\<lparr>tb_cap := 2 ^ j\<rparr>)"
          "tb_write b - tb_read b + need \<le> 2 ^ j"
          by auto
        then have "grow_loop 66 need b = (Ok (), b\<lparr>tb_cap := 2 ^ j\<rparr>)" by (simp only: 66(1))
        with j le show thesis by (intro pow [of j])
      qed
    qed
  qed
qed

lemma AssureSpace_spec:
  assumes inv: "tb_inv b" and small: "length (readable b) + need < kMaxBufferSize"
  obtains b' where "AssureSpace need b = (Ok (), b')" and "tb_inv b'"
    and "readable b' = readable b" and "tb_write b' + need \<le> tb_cap b'"
proof (cases "need \<le> WritableSize b")
  case True
  with inv show thesis
    by (intro that [of b]) (auto simp: AssureSpace_def WritableSize_eq tb_inv_def)
next
  case False
  let ?ds = "tb_write b - tb_read b"
  have rw: "tb_read b \<le> tb_write b" "tb_write b \<le> tb_cap b" "length (tb_mem b) = tb_cap b"
    "tb_cap b \<le> 9223372036854775808"
    using inv by (simp_all add: tb_inv_def)
  have ds: "ReadableSize b = ?ds" using rw by (simp add: ReadableSize_def)
  have sm: "?ds + need < kMaxBufferSize" using small length_readable [OF inv] by simp
  obtain c where c: "grow_loop 66 need b = (Ok (), b\<lparr>tb_cap := c\<rparr>)" "?ds + need \<le> c"
    "c \<le> 9223372036854775808" "tb_cap b \<le> c" "c = tb_cap b \<or> (\<exists>j. c = 2 ^ j)"
    by (rule grow_spec [OF inv sm])
  define mem where "mem = (if tb_cap b < c then readable b @ replicate (c - ?ds) 0
      else readable b @ drop ?ds (tb_mem b))"
  let ?b = "b\<lparr>tb_cap := c, tb_mem := mem, tb_read := 0, tb_write := ?ds\<rparr>"
  have rd: "take ?ds (drop (tb_read b) (tb_mem b)) = readable b" by (simp add: readable_def)
  have len: "length (readable b) = ?ds" by (rule length_readable [OF inv])
  have "0 < tb_read b" if "\<not> tb_cap b < c"
    using False that c rw by (simp add: WritableSize_def)
  then have "AssureSpace need b = (Ok (), ?b)"
    using False c rw
    by (auto simp: AssureSpace_def ds andthen_def Let_def tb_assert_def rd mem_def WritableSize_def)
  moreover have "tb_inv ?b"
    using inv c rw len by (auto simp: tb_inv_def mem_def)
  moreover have "readable ?b = take ?ds mem" by (simp add: readable_def)
  then have "readable ?b = readable b" using len by (simp add: mem_def)
  ultimately show thesis using c by (intro that [of ?b]) auto
qed

section \<open>The operations on the readable bytes\<close>

lemma PushData_spec:
  assumes inv: "tb_inv b" and sz: "sz \<le> length bs" "0 < sz"
    and small: "length (readable b) + sz < kMaxBufferSize"
  obtains b' where "PushData (Some bs) sz b = (Ok sz, b')" and "tb_inv b'"
    and "readable b' = readable b @ take sz bs"
proof -
  obtain b1 where b1: "AssureSpace sz b = (Ok (), b1)" "tb_inv b1" "readable b1 = readable b"
    "tb_write b1 + sz \<le> tb_cap b1"
    by (rule AssureSpace_spec [OF inv small])
  let ?m = "take (tb_write b1) (tb_mem b1) @ take sz bs @ drop (tb_write b1 + sz) (tb_mem b1)"
  let ?b = "b1\<lparr>tb_mem := ?m, tb_write := tb_write b1 + sz\<rparr>"
  have rw: "tb_read b1 \<le> tb_write b1" "tb_write b1 \<le> tb_cap b1" "length (tb_mem b1) = tb_cap b1"
    "tb_cap b1 \<le> 9223372036854775808"
    using b1(2) by (simp_all add: tb_inv_def)
  have "\<not> kMaxBufferSize \<le> size_add (ReadableSize b) sz"
    using small by (simp add: ReadableSize_eq [OF inv] kMaxBufferSize_def)
  moreover have "size_add (tb_write b1) sz = tb_write b1 + sz"
    using b1(4) rw by simp
  ultimately have "PushData (Some bs) sz b = (Ok sz, ?b)"
    using sz b1 rw by (simp add: PushData_def andthen_Ok Produce_def)
  moreover have "tb_inv ?b" using b1(2,4) sz rw by (auto simp: tb_inv_def)
  moreover have "readable ?b = readable b1 @ take sz bs"
    using rw sz by (simp add: readable_alt min_def)
  ultimately show thesis using b1(3) that by simp
qed

lemma PushData_refused:
  assumes "tb_inv b" and "length (readable b) + sz < size_max"
    and "data = None \<or> sz = 0 \<or> kMaxBufferSize \<le> length (readable b) + sz"
  shows "PushData data sz b = (Ok 0, b)"
  using assms by (auto simp: PushData_def ReadableSize_eq split: option.splits)

lemma Consume_spec:
  assumes "tb_inv b" and "n \<le> length (readable b)"
  obtains b' where "Consume n b = (Ok (), b')" and "tb_inv b'" and "readable b' = drop n (readable b)"
    and "tb_mem b' = tb_mem b"
proof -
  have len: "n \<le> tb_write b - tb_read b" using assms length_readable by simp
  let ?b = "b\<lparr>tb_read := tb_read b + n\<rparr>"
  have rw: "tb_read b \<le> tb_write b" "tb_write b \<le> tb_cap b" "tb_cap b \<le> 9223372036854775808"
    using assms(1) by (simp_all add: tb_inv_def)
  then have c: "Consume n b = (Ok (), if IsEmpty ?b then Clear ?b else ?b)"
    using len by (simp add: Consume_def andthen_def tb_assert_def)
  have inv: "tb_inv ?b" using assms(1) len rw by (simp add: tb_inv_def)
  have rd: "readable ?b = drop n (readable b)"
    by (simp add: readable_def drop_take add.commute)
  have e: "IsEmpty ?b \<Longrightarrow> readable ?b = []"
    using ReadableSize_eq [OF inv] by (simp add: IsEmpty_def)
  show thesis
  proof (rule that [OF c])
    show "tb_inv (if IsEmpty ?b then Clear ?b else ?b)"
      using inv by (simp add: tb_inv_def Clear_def)
    have "readable (Clear ?b) = []" by (simp add: readable_def Clear_def)
    then show "readable (if IsEmpty ?b then Clear ?b else ?b) = drop n (readable b)"
      using rd e by simp
    show "tb_mem (if IsEmpty ?b then Clear ?b else ?b) = tb_mem b" by (simp add: Clear_def)
  qed
qed

lemma Consume_too_much:
  assumes "tb_inv b" and "length (readable b) < n" and "n < 9223372036854775808"
  shows "Consume n b = (Abort, b)"
proof -
  have "tb_read b \<le> tb_write b" "tb_write b \<le> tb_cap b" "tb_cap b \<le> 9223372036854775808"
    using assms(1) by (simp_all add: tb_inv_def)
  moreover have "tb_write b - tb_read b < n" using assms length_readable by simp
  ultimately have "\<not> size_add (tb_read b) n \<le> tb_write b" using assms(3) by simp
  then show ?thesis by (simp add: Consume_def tb_assert_def andthen_def)
qed

lemma PopData_spec:
  assumes inv: "tb_inv b"
  obtains b' where "PopData True sz b = (Ok (take sz (readable b)), b')" and "tb_inv b'"
    and "readable b' = drop sz (readable b)"
proof (cases "sz = 0 \<or> readable b = []")
  case True
  then have "PopData True sz b = (Ok (take sz (readable b)), b)"
    using ReadableSize_eq [OF inv] by (auto simp: PopData_def)
  with True inv show thesis using that by auto
next
  case False
  let ?n = "min sz (length (readable b))"
  obtain b' where b': "Consume ?n b = (Ok (), b')" "tb_inv b'" "readable b' = drop ?n (readable b)"
    by (rule Consume_spec [OF inv, of ?n]) auto
  have rw: "tb_read b \<le> tb_write b" "tb_write b \<le> tb_cap b" "length (tb_mem b) = tb_cap b"
    using inv by (simp_all add: tb_inv_def)
  have n: "(if ReadableSize b < sz then ReadableSize b else sz) = ?n"
    by (simp add: ReadableSize_eq [OF inv] min_def)
  have fits: "tb_read b + ?n \<le> length (tb_mem b)"
    using length_readable [OF inv] rw by (auto simp: min_def)
  have tk: "take ?n (drop (tb_read b) (tb_mem b)) = take sz (readable b)"
    by (simp add: readable_def min_def length_readable [OF inv, unfolded readable_def])
  have "PopData True sz b = (Ok (take sz (readable b)), b')"
    unfolding PopData_def Let_def n using False fits b'(1) tk ReadableSize_eq [OF inv]
    by (simp add: andthen_Ok ret_apply)
  moreover have "drop ?n (readable b) = drop sz (readable b)" by (simp add: min_def)
  ultimately show thesis using b' that by metis
qed

lemma Shrink_spec:
  assumes inv: "tb_inv b"
  obtains b' where "Shrink b = (Ok (), b')" and "tb_inv b'" and "readable b' = readable b"
    and "tb_cap b' \<le> tb_cap b"
proof -
  have rw: "tb_read b \<le> tb_write b" "tb_write b \<le> tb_cap b" "length (tb_mem b) = tb_cap b"
    "tb_cap b \<le> 9223372036854775808" "tb_high b < 100"
    using inv by (simp_all add: tb_inv_def)
  have len: "length (readable b) = tb_write b - tb_read b" by (rule length_readable [OF inv])
  have ds: "ReadableSize b = length (readable b)" by (rule ReadableSize_eq [OF inv])
  consider "readable b = []" | "readable b \<noteq> []"
    "tb_cap b \<le> kDefaultSize \<or> size_mul (tb_cap b) (tb_high b) < size_mul (ReadableSize b) 100"
    | "readable b \<noteq> []"
    "\<not> (tb_cap b \<le> kDefaultSize \<or> size_mul (tb_cap b) (tb_high b) < size_mul (ReadableSize b) 100)"
    by blast
  then show thesis
  proof cases
    case 1
    then show thesis
      using inv ds by (intro that [of "(Clear b)\<lparr>tb_cap := 0, tb_mem := []\<rparr>"])
        (auto simp: Shrink_def IsEmpty_def tb_inv_def Clear_def readable_def)
  next
    case 2
    then show thesis
      using inv ds by (intro that [of b]) (auto simp: Shrink_def IsEmpty_def)
  next
    case 3
    then have "0 < length (readable b)" by simp
    moreover have "length (readable b) \<le> 2 ^ 63" using len rw by simp
    ultimately have pos: "0 < length (readable b)" "length (readable b) \<le> 2 ^ 63" .
    obtain j where j: "j \<le> 63" "RoundUp2Power (length (readable b)) = Some (2 ^ j)"
      "length (readable b) \<le> 2 ^ j" "2 ^ j < 2 * length (readable b)"
      by (rule RoundUp2Power_spec [OF pos])
    let ?c = "2 ^ j :: nat" and ?d = "length (readable b)"
    let ?b = "b\<lparr>tb_mem := readable b @ replicate (?c - ?d) 0, tb_cap := ?c, tb_read := 0, tb_write := ?d\<rparr>"
    have rd: "take ?d (drop (tb_read b) (tb_mem b)) = readable b"
      unfolding len by (simp add: readable_def)
    have c: "?c \<le> tb_cap b"
    proof -
      from inv pos rw len obtain m where m: "tb_cap b = 2 ^ m" by (auto simp: tb_inv_def)
      have "?d \<le> 2 ^ m" using len rw m by simp
      then have "(2 :: nat) ^ j < 2 ^ Suc m" using j(4) by simp
      then have "j < Suc m" by (simp only: power_strict_increasing_iff)
      then show ?thesis by (simp add: m)
    qed
    have "Shrink b = (Ok (), ?b)"
      unfolding Shrink_def Let_def ds IsEmpty_def
      using 3 j rw len by (simp add: ds readable_def [symmetric])
    moreover have "tb_inv ?b" using inv c j(3) rw by (auto simp: tb_inv_def)
    moreover have "readable ?b = readable b" by (simp add: readable_def [of ?b])
    ultimately show thesis using c that by simp
  qed
qed

lemma Clear_spec: "tb_inv b \<Longrightarrow> tb_inv (Clear b) \<and> readable (Clear b) = []"
  by (simp add: tb_inv_def Clear_def readable_def)

lemma Swap_spec:
  "tb_inv a \<Longrightarrow> tb_inv b \<Longrightarrow> Swap (a, b) = (a', b') \<Longrightarrow>
     tb_inv a' \<and> tb_inv b' \<and> readable a' = readable b \<and> readable b' = readable a"
  by (auto simp: Swap_def tb_inv_def readable_def)

lemma SetHighWaterPercent_spec:
  "tb_inv b \<Longrightarrow> tb_inv (SetHighWaterPercent n b) \<and> readable (SetHighWaterPercent n b) = readable b"
  by (auto simp: SetHighWaterPercent_def tb_inv_def readable_def)

section \<open>A byte queue\<close>

text \<open>What a client calls, and the same calls on the list of bytes; \<open>None\<close> where the code asserts or refuses.\<close>

datatype tb_op =
    TbPush bytes
  | TbPop nat
  | TbConsume nat
  | TbAssure nat
  | TbShrink
  | TbClear

fun tb_step :: "tb_op \<Rightarrow> (tc_buffer, bytes) act" where
  "tb_step (TbPush bs) = andthen (PushData (Some bs) (length bs)) (\<lambda>_. ret [])"
| "tb_step (TbPop n) = PopData True n"
| "tb_step (TbConsume n) = andthen (Consume n) (\<lambda>_. ret [])"
| "tb_step (TbAssure n) = andthen (AssureSpace n) (\<lambda>_. ret [])"
| "tb_step TbShrink = andthen Shrink (\<lambda>_. ret [])"
| "tb_step TbClear = (\<lambda>b. (Ok [], Clear b))"

primrec tb_run :: "tb_op list \<Rightarrow> (tc_buffer, bytes) act" where
  "tb_run [] = ret []"
| "tb_run (c # cs) = andthen (tb_step c) (\<lambda>out. andthen (tb_run cs) (\<lambda>outs. ret (out @ outs)))"

fun bq_step :: "tb_op \<Rightarrow> bytes \<Rightarrow> (bytes \<times> bytes) option" where
  "bq_step (TbPush bs) xs = (if length xs + length bs < kMaxBufferSize then Some ([], xs @ bs) else None)"
| "bq_step (TbPop n) xs = Some (take n xs, drop n xs)"
| "bq_step (TbConsume n) xs = (if n \<le> length xs then Some ([], drop n xs) else None)"
| "bq_step (TbAssure n) xs = (if length xs + n < kMaxBufferSize then Some ([], xs) else None)"
| "bq_step TbShrink xs = Some ([], xs)"
| "bq_step TbClear xs = Some ([], [])"

primrec bq_run :: "tb_op list \<Rightarrow> bytes \<Rightarrow> (bytes \<times> bytes) option" where
  "bq_run [] xs = Some ([], xs)"
| "bq_run (c # cs) xs = (case bq_step c xs of
     None \<Rightarrow> None
   | Some (out, ys) \<Rightarrow> (case bq_run cs ys of None \<Rightarrow> None | Some (outs, zs) \<Rightarrow> Some (out @ outs, zs)))"

lemma tb_step_refines:
  assumes inv: "tb_inv b" and s: "bq_step c (readable b) = Some (out, ys)"
  obtains b' where "tb_step c b = (Ok out, b')" and "tb_inv b'" and "readable b' = ys"
proof (cases c)
  case (TbPush bs)
  then have small: "length (readable b) + length bs < kMaxBufferSize" and r: "out = []" "ys = readable b @ bs"
    using s by (auto split: if_splits)
  show ?thesis
  proof (cases "bs = []")
    case True
    have "PushData (Some bs) (length bs) b = (Ok 0, b)"
      by (rule PushData_refused [OF inv]) (use small True in \<open>auto simp: kMaxBufferSize_def\<close>)
    then show ?thesis using that TbPush r inv True by (simp add: andthen_Ok ret_apply)
  next
    case False
    then have n: "length bs \<le> length bs" "0 < length bs" by simp_all
    obtain b' where "PushData (Some bs) (length bs) b = (Ok (length bs), b')" "tb_inv b'"
      "readable b' = readable b @ take (length bs) bs"
      by (rule PushData_spec [OF inv n small])
    then show ?thesis using that TbPush r by (simp add: andthen_Ok ret_apply)
  qed
next
  case (TbPop n)
  obtain b' where "PopData True n b = (Ok (take n (readable b)), b')" "tb_inv b'"
    "readable b' = drop n (readable b)"
    by (rule PopData_spec [OF inv])
  then show ?thesis using that TbPop s by simp
next
  case (TbConsume n)
  then have n: "n \<le> length (readable b)" and r: "out = []" "ys = drop n (readable b)"
    using s by (auto split: if_splits)
  obtain b' where "Consume n b = (Ok (), b')" "tb_inv b'" "readable b' = drop n (readable b)"
    by (rule Consume_spec [OF inv n])
  then show ?thesis using that TbConsume r by (simp add: andthen_Ok ret_apply)
next
  case (TbAssure n)
  then have n: "length (readable b) + n < kMaxBufferSize" and r: "out = []" "ys = readable b"
    using s by (auto split: if_splits)
  obtain b' where "AssureSpace n b = (Ok (), b')" "tb_inv b'" "readable b' = readable b"
    by (rule AssureSpace_spec [OF inv n])
  then show ?thesis using that TbAssure r by (simp add: andthen_Ok ret_apply)
next
  case TbShrink
  obtain b' where "Shrink b = (Ok (), b')" "tb_inv b'" "readable b' = readable b"
    by (rule Shrink_spec [OF inv])
  then show ?thesis using that TbShrink s by (simp add: andthen_Ok ret_apply)
next
  case TbClear
  then show ?thesis using that s Clear_spec [OF inv] by simp
qed

lemma tb_run_refines:
  "tb_inv b \<Longrightarrow> bq_run cs (readable b) = Some (outs, zs) \<Longrightarrow>
     \<exists>b'. tb_run cs b = (Ok outs, b') \<and> tb_inv b' \<and> readable b' = zs"
proof (induction cs arbitrary: b outs)
  case Nil
  then show ?case by (simp add: ret_apply)
next
  case (Cons c cs)
  obtain out ys outs' where s: "bq_step c (readable b) = Some (out, ys)"
    "bq_run cs ys = Some (outs', zs)" "outs = out @ outs'"
    using Cons.prems(2) by (auto split: option.splits)
  obtain b1 where b1: "tb_step c b = (Ok out, b1)" "tb_inv b1" "readable b1 = ys"
    by (rule tb_step_refines [OF Cons.prems(1) s(1)])
  have "bq_run cs (readable b1) = Some (outs', zs)" using s(2) b1(3) by simp
  then show ?case using Cons.IH [OF b1(2)] b1(1) s(3) by (auto simp: andthen_Ok ret_apply)
qed

end
