(* ===== verification/Transceiver.thy ===== *)
theory Transceiver
  imports Tc_Buffer
begin

text \<open>
  The client's connection, \<^verbatim>\<open>src/servant/libservant/Transceiver.cpp\<close>: what the kernel accepts at
  once goes out, the rest waits in \<open>_sendBuffer\<close>; what arrives is collected in \<open>_recvBuffer\<close>. The
  kernel's answers to coming calls are part of the state, any list of them being possible, as is
  what every socket has accepted so far.
\<close>

section \<open>The kernel's side\<close>

datatype connect_answer = Connected | InProgress | Refused

datatype send_answer = Accepts nat | SendAgain | SendError

text \<open>\<open>Closed\<close> is end of file or an error; a list that has run out answers \<open>EAGAIN\<close>.\<close>

datatype read_answer = Arrived bytes | Closed

record net =
  net_next :: int
  net_open :: "int list"
  net_polled :: "int list"
  net_connects :: "connect_answer list"
  net_sends :: "send_answer list"
  net_wire :: "int \<Rightarrow> bytes"
  net_arrivals :: "int \<Rightarrow> read_answer list"

text \<open>\<open>socket\<close> and \<open>connect\<close>: a fresh descriptor, which a refused connection closes again.\<close>

definition k_connect :: "(net, int) act" where
  "k_connect n =
     (let fd = net_next n; n1 = n\<lparr>net_next := fd + 1, net_connects := tl (net_connects n)\<rparr> in
      if net_connects n \<noteq> [] \<and> hd (net_connects n) = Refused
      then (Throw TarsNetConnectException, n1)
      else (Ok fd, n1\<lparr>net_open := fd # net_open n1\<rparr>))"

definition k_close :: "int \<Rightarrow> net \<Rightarrow> net" where
  "k_close fd n = n\<lparr>net_open := removeAll fd (net_open n), net_polled := removeAll fd (net_polled n)\<rparr>"

text \<open>\<open>::send\<close>: bytes accepted, \<open>-1\<close> with \<open>EAGAIN\<close> (the flag), or \<open>-1\<close> with another error.\<close>

definition k_send :: "int \<Rightarrow> bytes \<Rightarrow> net \<Rightarrow> (int \<times> bool) \<times> net" where
  "k_send fd buf n =
     (if fd \<notin> set (net_open n) then ((- 1, False), n)
      else case net_sends n of
        [] \<Rightarrow> ((- 1, True), n)
      | SendAgain # r \<Rightarrow> ((- 1, True), n\<lparr>net_sends := r\<rparr>)
      | SendError # r \<Rightarrow> ((- 1, False), n\<lparr>net_sends := r\<rparr>)
      | Accepts k # r \<Rightarrow>
          ((int (min k (length buf)), False),
           n\<lparr>net_sends := r, net_wire := (net_wire n)(fd := net_wire n fd @ take k buf)\<rparr>))"

text \<open>\<open>::readv\<close> with room for \<open>room\<close> bytes: what was read, or \<open>None\<close> for \<open>-1\<close> and the flag for \<open>EAGAIN\<close>.\<close>

definition k_readv :: "int \<Rightarrow> nat \<Rightarrow> net \<Rightarrow> (bytes option \<times> bool) \<times> net" where
  "k_readv fd room n =
     (if fd \<notin> set (net_open n) then ((None, False), n)
      else case net_arrivals n fd of
        [] \<Rightarrow> ((None, True), n)
      | Closed # r \<Rightarrow> ((Some [], False), n)
      | Arrived bs # r \<Rightarrow>
          ((Some (take room bs), False),
           n\<lparr>net_arrivals := (net_arrivals n)
               (fd := (if room < length bs then Arrived (drop room bs) # r else r))\<rparr>))"

section \<open>State\<close>

record transceiver =
  tr_fd :: int
  tr_sendBuffer :: tc_buffer
  tr_recvBuffer :: tc_buffer
  tr_net :: net

definition Transceiver_init :: "net \<Rightarrow> transceiver" where
  "Transceiver_init n =
     \<lparr>tr_fd = - 1, tr_sendBuffer = TC_Buffer_init, tr_recvBuffer = TC_Buffer_init, tr_net = n\<rparr>"

definition isValid :: "transceiver \<Rightarrow> bool" where
  "isValid s \<longleftrightarrow> tr_fd s \<noteq> - 1"

definition eRetError :: int where "eRetError = - 1"
definition eRetOk :: int where "eRetOk = 0"
definition eRetFull :: int where "eRetFull = 1"

text \<open>Conversions from \<open>size_t\<close> and \<open>ssize_t\<close>.\<close>

definition to_int :: "nat \<Rightarrow> int" where
  "to_int n = sint (word_of_nat n :: 32 word)"

definition to_uint32 :: "nat \<Rightarrow> nat" where
  "to_uint32 n = n mod 4294967296"

definition on_send :: "(tc_buffer, 'a) act \<Rightarrow> (transceiver, 'a) act" where
  "on_send = zoom tr_sendBuffer (\<lambda>b s. s\<lparr>tr_sendBuffer := b\<rparr>)"

definition on_recv :: "(tc_buffer, 'a) act \<Rightarrow> (transceiver, 'a) act" where
  "on_recv = zoom tr_recvBuffer (\<lambda>b s. s\<lparr>tr_recvBuffer := b\<rparr>)"

section \<open>Operations\<close>

definition tr_close :: "transceiver \<Rightarrow> transceiver" where
  "tr_close s =
     (if \<not> isValid s then s
      else s\<lparr>tr_net := k_close (tr_fd s) (tr_net s), tr_fd := - 1,
             tr_sendBuffer := Clear (tr_sendBuffer s), tr_recvBuffer := Clear (tr_recvBuffer s)\<rparr>)"

definition tr_connect :: "(transceiver, unit) act" where
  "tr_connect =
     andthen (zoom tr_net (\<lambda>n s. s\<lparr>tr_net := n\<rparr>) k_connect) (\<lambda>fd s.
       let s1 = s\<lparr>tr_fd := fd\<rparr>; n = tr_net s1
       in (Ok (), s1\<lparr>tr_net := n\<lparr>net_polled := fd # net_polled n\<rparr>\<rparr>))"

definition tr_send :: "bytes \<Rightarrow> (transceiver, int) act" where
  "tr_send buf s =
     (let ((iRet, again), n) = k_send (tr_fd s) (take (to_uint32 (length buf)) buf) (tr_net s)
      in (Ok (if iRet < 0 \<and> again then 0 else if iRet < 0 then iRet else to_int (nat iRet)),
          s\<lparr>tr_net := n\<rparr>))"

definition sendRequest :: "bytes \<Rightarrow> (transceiver, int) act" where
  "sendRequest pData s =
     (if \<not> IsEmpty (tr_sendBuffer s) then (Ok eRetError, s)
      else
        andthen (tr_send pData) (\<lambda>iRet.
          if iRet < 0 then ret eRetError
          else if iRet < to_int (length pData) then
            andthen (on_send (PushData (Some (drop (nat iRet) pData)) (length pData - nat iRet)))
              (\<lambda>_. ret eRetFull)
          else ret iRet) s)"

text \<open>
  \<open>doRequest\<close> up to its call of \<open>ObjectProxy::doInvoke\<close>: \<open>Some r\<close> when it returns \<open>r\<close> before it,
  \<open>None\<close> when it gets there.
\<close>

definition doRequest_flush :: "(transceiver, int option) act" where
  "doRequest_flush s =
     (if IsEmpty (tr_sendBuffer s) then (Ok None, s)
      else
        andthen (tr_send (PeekData (tr_sendBuffer s))) (\<lambda>iRet.
          if iRet < 0 then ret (Some iRet)
          else if 0 < iRet then
            andthen (on_send (Consume (nat iRet))) (\<lambda>_ s1.
              if IsEmpty (tr_sendBuffer s1) then andthen (on_send Shrink) (\<lambda>_. ret None) s1
              else (Ok (Some 0), s1))
          else ret None) s)"

text \<open>\<open>readv\<close>: the bytes read; \<open>None\<close> for a negative result.\<close>

definition tr_readv :: "nat \<Rightarrow> transceiver \<Rightarrow> bytes option \<times> transceiver" where
  "tr_readv room s =
     (let ((r, again), n) = k_readv (tr_fd s) room (tr_net s); s1 = s\<lparr>tr_net := n\<rparr> in
      case r of
        None \<Rightarrow> if again then (None, s1) else (Some [], tr_close s1)
      | Some bs \<Rightarrow> if bs = [] then (Some [], tr_close s1) else (Some bs, s1))"

text \<open>The kernel's copy to \<open>WriteAddr()\<close> and the \<open>Produce\<close> behind it.\<close>

definition recv_at :: "bytes \<Rightarrow> (tc_buffer, unit) act" where
  "recv_at bs b =
     (if tb_write b + length bs \<le> length (tb_mem b)
      then (Ok (), Produce (length bs) (b\<lparr>tb_mem :=
              take (tb_write b) (tb_mem b) @ bs @ drop (tb_write b + length bs) (tb_mem b)\<rparr>))
      else (Fault, b))"

text \<open>The \<open>do \<dots> while (iRet > 0)\<close> loop.\<close>

fun doResponse_loop :: "nat \<Rightarrow> (transceiver, unit) act" where
  "doResponse_loop 0 = diverge"
| "doResponse_loop (Suc k) =
     andthen (on_recv (AssureSpace 8192)) (\<lambda>_ s.
       let len0 = WritableSize (tr_recvBuffer s); (r, s1) = tr_readv (len0 + 65536) s in
       case r of
         None \<Rightarrow> (Ok (), s1)
       | Some bs \<Rightarrow>
           if bs = [] then (Ok (), s1)
           else if length bs \<le> len0
           then andthen (on_recv (recv_at bs)) (\<lambda>_. doResponse_loop k) s1
           else
             andthen (on_recv (recv_at (take len0 bs))) (\<lambda>_.
             andthen (on_recv (PushData (Some (drop len0 bs)) (length bs - len0))) (\<lambda>_.
             doResponse_loop k)) s1)"

text \<open>The list \<open>done\<close>; the code returns whether it is not empty.\<close>

definition doResponse :: "nat \<Rightarrow> (transceiver, bytes list) act" where
  "doResponse fuel =
     andthen (doResponse_loop fuel) (\<lambda>_ s.
       if IsEmpty (tr_recvBuffer s) then (Ok [], s)
       else
         let data = PeekData (tr_recvBuffer s); len = length data in
         andthen (if 0 < len then
             andthen (on_recv (Consume len)) (\<lambda>_ s1.
               if 8388608 < tb_cap (tr_recvBuffer s1) then on_recv Shrink s1 else (Ok (), s1))
           else ret ()) (\<lambda>_. ret [data]) s)"

section \<open>The bytes on the wire\<close>

definition tr_pending :: "transceiver \<Rightarrow> bytes" where
  "tr_pending s = readable (tr_sendBuffer s)"

definition tr_wire :: "transceiver \<Rightarrow> bytes" where
  "tr_wire s = net_wire (tr_net s) (tr_fd s)"

definition tr_inv :: "transceiver \<Rightarrow> bool" where
  "tr_inv s \<longleftrightarrow> tb_inv (tr_sendBuffer s) \<and> tb_inv (tr_recvBuffer s) \<and> length (tr_pending s) < 2147483648"

lemma on_send_apply:
  "m (tr_sendBuffer s) = (r, b) \<Longrightarrow> on_send m s = (r, s\<lparr>tr_sendBuffer := b\<rparr>)"
  by (simp add: on_send_def zoom_apply)

lemma on_recv_apply:
  "m (tr_recvBuffer s) = (r, b) \<Longrightarrow> on_recv m s = (r, s\<lparr>tr_recvBuffer := b\<rparr>)"
  by (simp add: on_recv_def zoom_apply)

lemma IsEmpty_iff: "tb_inv b \<Longrightarrow> IsEmpty b \<longleftrightarrow> readable b = []"
  by (simp add: IsEmpty_def ReadableSize_eq)

lemma to_int_small: "n < 2147483648 \<Longrightarrow> to_int n = int n"
  unfolding to_int_def by (subst signed_of_nat) (simp add: signed_take_bit_int_eq_self)

lemma k_send_spec:
  assumes "k_send fd buf n = ((r, again), n')"
  shows "net_open n' = net_open n \<and> net_polled n' = net_polled n \<and> net_arrivals n' = net_arrivals n \<and>
    net_next n' = net_next n \<and> (\<forall>x. x \<noteq> fd \<longrightarrow> net_wire n' x = net_wire n x) \<and>
    (if r < 0 then r = - 1 \<and> net_wire n' fd = net_wire n fd
     else nat r \<le> length buf \<and> net_wire n' fd = net_wire n fd @ take (nat r) buf)"
  using assms
  by (auto simp: k_send_def min_def split: if_splits list.splits send_answer.splits)

lemma tr_send_spec:
  assumes "length buf < 2147483648"
  obtains r s' where "tr_send buf s = (Ok r, s')" and "s' = s\<lparr>tr_net := tr_net s'\<rparr>"
    and "net_open (tr_net s') = net_open (tr_net s)" and "net_arrivals (tr_net s') = net_arrivals (tr_net s)"
    and "r < 0 \<longrightarrow> tr_wire s' = tr_wire s"
    and "0 \<le> r \<longrightarrow> nat r \<le> length buf \<and> tr_wire s' = tr_wire s @ take (nat r) buf"
proof -
  have cut: "take (to_uint32 (length buf)) buf = buf" using assms by (simp add: to_uint32_def)
  obtain r0 again n where k: "k_send (tr_fd s) buf (tr_net s) = ((r0, again), n)"
    by (metis prod.exhaust)
  let ?r = "if r0 < 0 \<and> again then 0 else if r0 < 0 then r0 else to_int (nat r0)"
  have send: "tr_send buf s = (Ok ?r, s\<lparr>tr_net := n\<rparr>)" by (simp add: tr_send_def cut k)
  have small: "to_int (nat r0) = r0" if "0 \<le> r0"
    using k_send_spec [OF k] that assms by (subst to_int_small) auto
  show ?thesis
    using that [OF send] k_send_spec [OF k] small by (auto simp: tr_wire_def split: if_splits)
qed

lemma sendRequest_spec:
  assumes inv: "tr_inv s" and len: "length d < 2147483648"
  obtains r s' where "sendRequest d s = (Ok r, s')" and "tr_inv s'" and "tr_fd s' = tr_fd s"
    and "tr_recvBuffer s' = tr_recvBuffer s" and "net_arrivals (tr_net s') = net_arrivals (tr_net s)"
    and "net_open (tr_net s') = net_open (tr_net s)"
    and "r = eRetError \<longrightarrow> tr_wire s' @ tr_pending s' = tr_wire s @ tr_pending s"
    and "r \<noteq> eRetError \<longrightarrow> tr_pending s = [] \<and> tr_wire s' @ tr_pending s' = tr_wire s @ d"
proof (cases "IsEmpty (tr_sendBuffer s)")
  case False
  then show ?thesis
    using that [of eRetError s] inv by (simp add: sendRequest_def)
next
  case True
  then have emp: "readable (tr_sendBuffer s) = []" using inv by (simp add: tr_inv_def IsEmpty_iff)
  obtain r s1 where r: "tr_send d s = (Ok r, s1)" "s1 = s\<lparr>tr_net := tr_net s1\<rparr>"
    "net_open (tr_net s1) = net_open (tr_net s)" "net_arrivals (tr_net s1) = net_arrivals (tr_net s)"
    "r < 0 \<longrightarrow> tr_wire s1 = tr_wire s"
    "0 \<le> r \<longrightarrow> nat r \<le> length d \<and> tr_wire s1 = tr_wire s @ take (nat r) d"
    by (rule tr_send_spec [OF len, of s])
  have sel: "tr_fd s1 = tr_fd s" "tr_sendBuffer s1 = tr_sendBuffer s" "tr_recvBuffer s1 = tr_recvBuffer s"
    by (subst r(2), simp)+
  consider "r < 0" | "0 \<le> r" "r < int (length d)" | "0 \<le> r" "int (length d) \<le> r" by linarith
  then show ?thesis
  proof cases
    case 1
    then have "sendRequest d s = (Ok eRetError, s1)"
      using True r(1) by (simp add: sendRequest_def andthen_Ok ret_apply)
    then show ?thesis
      using that [of eRetError s1] 1 r sel inv by (simp add: tr_inv_def tr_pending_def)
  next
    case 2
    let ?d = "drop (nat r) d" and ?n = "length d - nat r"
    have n: "?n \<le> length ?d" "0 < ?n" "length (readable (tr_sendBuffer s)) + ?n < kMaxBufferSize"
      using 2 len by (auto simp: emp kMaxBufferSize_def)
    have tb: "tb_inv (tr_sendBuffer s)" using inv by (simp add: tr_inv_def)
    obtain b where b: "PushData (Some ?d) ?n (tr_sendBuffer s) = (Ok ?n, b)" "tb_inv b"
      "readable b = readable (tr_sendBuffer s) @ take ?n ?d"
      by (rule PushData_spec [OF tb n])
    let ?s = "s1\<lparr>tr_sendBuffer := b\<rparr>"
    have "sendRequest d s = (Ok eRetFull, ?s)"
      using True r(1) 2 to_int_small [OF len] on_send_apply [of "PushData (Some ?d) ?n" s1] b(1) sel
      by (simp add: sendRequest_def andthen_Ok ret_apply)
    moreover have "tr_pending ?s = ?d" using b(3) emp by (simp add: tr_pending_def)
    moreover have "tr_inv ?s" using inv sel b len by (simp add: tr_inv_def tr_pending_def emp)
    moreover have "tr_wire ?s = tr_wire s1" by (simp add: tr_wire_def)
    ultimately show ?thesis
      using that [of eRetFull ?s] 2 r sel emp by (simp add: eRetFull_def eRetError_def tr_pending_def)
  next
    case 3
    then have "sendRequest d s = (Ok r, s1)"
      using True r(1) to_int_small [OF len] by (simp add: sendRequest_def andthen_Ok ret_apply)
    then show ?thesis
      using that [of r s1] 3 r sel inv emp by (simp add: tr_inv_def tr_pending_def eRetError_def)
  qed
qed

lemma doRequest_flush_spec:
  assumes inv: "tr_inv s"
  obtains r s' where "doRequest_flush s = (Ok r, s')" and "tr_inv s'" and "tr_fd s' = tr_fd s"
    and "tr_recvBuffer s' = tr_recvBuffer s" and "net_arrivals (tr_net s') = net_arrivals (tr_net s)"
    and "net_open (tr_net s') = net_open (tr_net s)"
    and "tr_wire s' @ tr_pending s' = tr_wire s @ tr_pending s"
proof (cases "IsEmpty (tr_sendBuffer s)")
  case True
  then show ?thesis
    using that [of None s] inv by (simp add: doRequest_flush_def)
next
  case False
  have tb: "tb_inv (tr_sendBuffer s)" using inv by (simp add: tr_inv_def)
  have peek: "PeekData (tr_sendBuffer s) = tr_pending s" by (simp add: PeekData_eq [OF tb] tr_pending_def)
  have len: "length (tr_pending s) < 2147483648" using inv by (simp add: tr_inv_def)
  obtain r s1 where r: "tr_send (tr_pending s) s = (Ok r, s1)" "s1 = s\<lparr>tr_net := tr_net s1\<rparr>"
    "net_open (tr_net s1) = net_open (tr_net s)" "net_arrivals (tr_net s1) = net_arrivals (tr_net s)"
    "r < 0 \<longrightarrow> tr_wire s1 = tr_wire s"
    "0 \<le> r \<longrightarrow> nat r \<le> length (tr_pending s) \<and> tr_wire s1 = tr_wire s @ take (nat r) (tr_pending s)"
    by (rule tr_send_spec [OF len, of s])
  have sel: "tr_fd s1 = tr_fd s" "tr_sendBuffer s1 = tr_sendBuffer s" "tr_recvBuffer s1 = tr_recvBuffer s"
    by (subst r(2), simp)+
  show ?thesis
  proof (cases "0 < r")
    case False
    then have "doRequest_flush s = (Ok (if r < 0 then Some r else None), s1)"
      using \<open>\<not> IsEmpty _\<close> r(1) by (simp add: doRequest_flush_def peek andthen_Ok ret_apply)
    then show ?thesis
      using that [OF \<open>doRequest_flush s = _\<close>] False r sel inv
      by (cases "r < 0") (auto simp: tr_inv_def tr_pending_def)
  next
    case True
    have "nat r \<le> length (readable (tr_sendBuffer s))" using True r(6) by (simp add: tr_pending_def)
    then obtain b where b: "Consume (nat r) (tr_sendBuffer s) = (Ok (), b)" "tb_inv b"
      "readable b = drop (nat r) (readable (tr_sendBuffer s))"
      by (rule Consume_spec [OF tb])
    obtain b2 where b2: "Shrink b = (Ok (), b2)" "tb_inv b2" "readable b2 = readable b"
      by (rule Shrink_spec [OF b(2)])
    let ?b = "if IsEmpty b then b2 else b"
    let ?s = "s1\<lparr>tr_sendBuffer := ?b\<rparr>"
    have c: "on_send (Consume (nat r)) s1 = (Ok (), s1\<lparr>tr_sendBuffer := b\<rparr>)"
      using on_send_apply [of "Consume (nat r)" s1] b(1) sel by simp
    have "on_send Shrink (s1\<lparr>tr_sendBuffer := b\<rparr>) = (Ok (), s1\<lparr>tr_sendBuffer := b2\<rparr>)"
      using on_send_apply [of Shrink "s1\<lparr>tr_sendBuffer := b\<rparr>"] b2(1) by simp
    then have "doRequest_flush s = (Ok (if IsEmpty b then None else Some 0), ?s)"
      using \<open>\<not> IsEmpty _\<close> True r(1) c by (simp add: doRequest_flush_def peek andthen_Ok ret_apply)
    moreover have "tr_inv ?s" using inv sel b b2 by (auto simp: tr_inv_def tr_pending_def)
    moreover have "tr_pending ?s = drop (nat r) (tr_pending s)"
      using b b2 by (simp add: tr_pending_def)
    moreover have "tr_wire ?s = tr_wire s @ take (nat r) (tr_pending s)"
      using r(6) True by (simp add: tr_wire_def)
    ultimately show ?thesis
      using that [of "if IsEmpty b then None else Some 0" ?s] r sel by simp
  qed
qed

text \<open>Any interleaving of requests and writable events on one connection.\<close>

datatype tr_op = SendReq bytes | Flush

primrec tr_run :: "tr_op list \<Rightarrow> (transceiver, bytes list) act" where
  "tr_run [] = ret []"
| "tr_run (c # cs) = (case c of
     SendReq d \<Rightarrow> andthen (sendRequest d) (\<lambda>r. andthen (tr_run cs) (\<lambda>ds.
       ret (if r = eRetError then ds else d # ds)))
   | Flush \<Rightarrow> andthen doRequest_flush (\<lambda>_. tr_run cs))"

lemma tr_run_spec:
  "tr_inv s \<Longrightarrow> (\<And>d. SendReq d \<in> set cs \<Longrightarrow> length d < 2147483648) \<Longrightarrow>
    \<exists>ds s'. tr_run cs s = (Ok ds, s') \<and> tr_inv s' \<and> tr_fd s' = tr_fd s \<and>
      tr_wire s' @ tr_pending s' = tr_wire s @ tr_pending s @ concat ds"
proof (induction cs arbitrary: s)
  case Nil
  then show ?case by (simp add: ret_apply)
next
  case (Cons c cs)
  show ?case
  proof (cases c)
    case (SendReq d)
    have len: "length d < 2147483648" using Cons.prems(2) SendReq by simp
    obtain r s1 where r: "sendRequest d s = (Ok r, s1)" "tr_inv s1" "tr_fd s1 = tr_fd s"
      "r = eRetError \<longrightarrow> tr_wire s1 @ tr_pending s1 = tr_wire s @ tr_pending s"
      "r \<noteq> eRetError \<longrightarrow> tr_pending s = [] \<and> tr_wire s1 @ tr_pending s1 = tr_wire s @ d"
      by (rule sendRequest_spec [OF Cons.prems(1) len])
    obtain ds s' where s': "tr_run cs s1 = (Ok ds, s')" "tr_inv s'" "tr_fd s' = tr_fd s1"
      "tr_wire s' @ tr_pending s' = (tr_wire s1 @ tr_pending s1) @ concat ds"
      using Cons.IH [OF r(2)] Cons.prems(2) by auto
    have "tr_run (c # cs) s = (Ok (if r = eRetError then ds else d # ds), s')"
      using SendReq r(1) s'(1) by (simp add: andthen_Ok ret_apply)
    then show ?thesis
      using r s' by (cases "r = eRetError") auto
  next
    case Flush
    obtain r s1 where r: "doRequest_flush s = (Ok r, s1)" "tr_inv s1" "tr_fd s1 = tr_fd s"
      "tr_wire s1 @ tr_pending s1 = tr_wire s @ tr_pending s"
      by (rule doRequest_flush_spec [OF Cons.prems(1)])
    then show ?thesis
      using Cons.IH [OF r(2)] Cons.prems(2) Flush by (auto simp: andthen_Ok simp flip: append_assoc)
  qed
qed

section \<open>What arrives\<close>

lemma recv_at_spec:
  assumes inv: "tb_inv b" and room: "tb_write b + length bs \<le> tb_cap b"
  obtains b' where "recv_at bs b = (Ok (), b')" and "tb_inv b'" and "readable b' = readable b @ bs"
proof -
  let ?b = "b\<lparr>tb_mem := take (tb_write b) (tb_mem b) @ bs @ drop (tb_write b + length bs) (tb_mem b),
    tb_write := tb_write b + length bs\<rparr>"
  have rw: "tb_read b \<le> tb_write b" "tb_write b \<le> tb_cap b" "length (tb_mem b) = tb_cap b"
    "tb_cap b \<le> 9223372036854775808"
    using inv by (simp_all add: tb_inv_def)
  then have "size_add (tb_write b) (length bs) = tb_write b + length bs" using room by simp
  then have "recv_at bs b = (Ok (), ?b)" using room rw by (simp add: recv_at_def Produce_def)
  moreover have "tb_inv ?b" using inv room rw by (auto simp: tb_inv_def)
  moreover have "readable ?b = readable b @ bs" using rw by (simp add: readable_alt min_def)
  ultimately show ?thesis using that by blast
qed

text \<open>One read of \<open>bs\<close>, whatever part of it fits the buffer directly.\<close>

lemma recv_chunk:
  assumes inv: "tb_inv b" and small: "length (readable b) + length bs < kMaxBufferSize"
    and big: "\<not> length bs \<le> WritableSize b"
  obtains b1 b2 where "recv_at (take (WritableSize b) bs) b = (Ok (), b1)"
    and "PushData (Some (drop (WritableSize b) bs)) (length bs - WritableSize b) b1 = (Ok (length bs - WritableSize b), b2)"
    and "tb_inv b2" and "readable b2 = readable b @ bs"
proof -
  let ?w = "WritableSize b"
  have w: "?w = tb_cap b - tb_write b" by (rule WritableSize_eq [OF inv])
  have fits: "tb_write b + length (take ?w bs) \<le> tb_cap b"
    using inv big by (auto simp: w tb_inv_def)
  obtain b1 where b1: "recv_at (take ?w bs) b = (Ok (), b1)" "tb_inv b1"
    "readable b1 = readable b @ take ?w bs"
    by (rule recv_at_spec [OF inv fits])
  have n: "length bs - ?w \<le> length (drop ?w bs)" "0 < length bs - ?w"
    "length (readable b1) + (length bs - ?w) < kMaxBufferSize"
    using big small by (auto simp: b1(3))
  obtain b2 where "PushData (Some (drop ?w bs)) (length bs - ?w) b1 = (Ok (length bs - ?w), b2)"
    "tb_inv b2" "readable b2 = readable b1 @ take (length bs - ?w) (drop ?w bs)"
    by (rule PushData_spec [OF b1(2) n])
  then show ?thesis using that [OF b1(1)] b1(3) by simp
qed

definition tr_arrivals :: "transceiver \<Rightarrow> read_answer list" where
  "tr_arrivals s = net_arrivals (tr_net s) (tr_fd s)"

lemma tr_readv_data:
  assumes "tr_fd s \<in> set (net_open (tr_net s))" and "tr_arrivals s = Arrived bs # r"
    and "bs \<noteq> []" and "0 < room"
  obtains s' where "tr_readv room s = (Some (take room bs), s')"
    and "s' = s\<lparr>tr_net := tr_net s'\<rparr>" and "net_open (tr_net s') = net_open (tr_net s)"
    and "tr_arrivals s' = (if room < length bs then Arrived (drop room bs) # r else r)"
  using assms that by (auto simp: tr_readv_def k_readv_def tr_arrivals_def)

lemma tr_readv_again:
  assumes "tr_fd s \<in> set (net_open (tr_net s))" and "tr_arrivals s = []"
  shows "tr_readv room s = (None, s)"
  using assms by (simp add: tr_readv_def k_readv_def tr_arrivals_def)

lemma tr_readv_closed:
  assumes "tr_fd s \<in> set (net_open (tr_net s))" and "tr_arrivals s = Closed # r"
  shows "tr_readv room s = (Some [], tr_close s)"
  using assms by (simp add: tr_readv_def k_readv_def tr_arrivals_def)

text \<open>What the peer sent, and whether it then closed the connection.\<close>

definition arriving :: "bytes list \<Rightarrow> bool \<Rightarrow> read_answer list" where
  "arriving bss closes = map Arrived bss @ (if closes then [Closed] else [])"

lemma doResponse_loop_spec:
  "tr_inv s \<Longrightarrow> tr_fd s \<in> set (net_open (tr_net s)) \<Longrightarrow> tr_arrivals s = arriving bss closes \<Longrightarrow>
   [] \<notin> set bss \<Longrightarrow> length (concat bss) < k \<Longrightarrow>
   length (readable (tr_recvBuffer s)) + length (concat bss) + 8192 < kMaxBufferSize \<Longrightarrow>
   \<exists>s1. tr_inv s1 \<and> readable (tr_recvBuffer s1) = readable (tr_recvBuffer s) @ concat bss \<and>
     tr_fd s1 = tr_fd s \<and> tr_fd s1 \<in> set (net_open (tr_net s1)) \<and> tr_sendBuffer s1 = tr_sendBuffer s \<and>
     tr_arrivals s1 = (if closes then [Closed] else []) \<and>
     doResponse_loop k s = (Ok (), if closes then tr_close s1 else s1)"
proof (induction k arbitrary: s bss)
  case 0
  then show ?case by simp
next
  case (Suc k)
  have tb: "tb_inv (tr_recvBuffer s)" using Suc.prems(1) by (simp add: tr_inv_def)
  have sm: "length (readable (tr_recvBuffer s)) + 8192 < kMaxBufferSize" using Suc.prems(6) by simp
  obtain b where b: "AssureSpace 8192 (tr_recvBuffer s) = (Ok (), b)" "tb_inv b"
    "readable b = readable (tr_recvBuffer s)" "tb_write b + 8192 \<le> tb_cap b"
    by (rule AssureSpace_spec [OF tb sm])
  let ?s = "s\<lparr>tr_recvBuffer := b\<rparr>"
  have ass: "on_recv (AssureSpace 8192) s = (Ok (), ?s)" by (rule on_recv_apply) (rule b(1))
  have inv: "tr_inv ?s" using Suc.prems(1) b by (simp add: tr_inv_def tr_pending_def)
  have fd: "tr_fd ?s \<in> set (net_open (tr_net ?s))" using Suc.prems(2) by simp
  have arr: "tr_arrivals ?s = arriving bss closes" using Suc.prems(3) by (simp add: tr_arrivals_def)
  let ?room = "WritableSize b + 65536"
  show ?case
  proof (cases bss)
    case Nil
    then have r: "tr_arrivals ?s = (if closes then [Closed] else [])" using arr by (simp add: arriving_def)
    have "doResponse_loop (Suc k) s = (Ok (), if closes then tr_close ?s else ?s)"
      using tr_readv_again [OF fd] tr_readv_closed [OF fd, of "[]"] r
      by (simp add: ass andthen_Ok split: if_splits)
    then show ?thesis using Nil inv fd b r by (intro exI [of _ ?s]) simp
  next
    case (Cons bs r)
    have bs: "bs \<noteq> []" using Suc.prems(4) Cons by auto
    let ?c = "take ?room bs"
    have arr': "tr_arrivals ?s = Arrived bs # arriving r closes" using arr Cons by (simp add: arriving_def)
    obtain s1 where s1: "tr_readv ?room ?s = (Some ?c, s1)" "s1 = ?s\<lparr>tr_net := tr_net s1\<rparr>"
      "net_open (tr_net s1) = net_open (tr_net ?s)"
      "tr_arrivals s1 = (if ?room < length bs then Arrived (drop ?room bs) # arriving r closes else arriving r closes)"
      by (rule tr_readv_data [OF fd arr' bs, of ?room]) simp
    have sel: "tr_fd s1 = tr_fd s" "tr_sendBuffer s1 = tr_sendBuffer s" "tr_recvBuffer s1 = b"
      by (subst s1(2), simp)+
    have c: "?c \<noteq> []" using bs by simp
    have csmall: "length (readable b) + length ?c < kMaxBufferSize"
      using Suc.prems(6) Cons by (auto simp: b(3))
    obtain b2 where b2: "tb_inv b2" "readable b2 = readable b @ ?c"
      and step: "doResponse_loop (Suc k) s = doResponse_loop k (s1\<lparr>tr_recvBuffer := b2\<rparr>)"
    proof (cases "length ?c \<le> WritableSize b")
      case True
      then have fits: "tb_write b + length ?c \<le> tb_cap b"
        using b(2) by (auto simp: WritableSize_eq tb_inv_def)
      obtain b2 where b2: "recv_at ?c b = (Ok (), b2)" "tb_inv b2" "readable b2 = readable b @ ?c"
        by (rule recv_at_spec [OF b(2) fits])
      have "on_recv (recv_at ?c) s1 = (Ok (), s1\<lparr>tr_recvBuffer := b2\<rparr>)"
        by (rule on_recv_apply) (simp add: sel b2(1))
      then have "doResponse_loop (Suc k) s = doResponse_loop k (s1\<lparr>tr_recvBuffer := b2\<rparr>)"
        using s1(1) c True by (simp add: ass andthen_Ok del: length_take take_eq_Nil)
      then show ?thesis using that b2 by blast
    next
      case False
      obtain b1 b2 where b2: "recv_at (take (WritableSize b) ?c) b = (Ok (), b1)"
        "PushData (Some (drop (WritableSize b) ?c)) (length ?c - WritableSize b) b1 = (Ok (length ?c - WritableSize b), b2)"
        "tb_inv b2" "readable b2 = readable b @ ?c"
        by (rule recv_chunk [OF b(2) csmall False])
      have o1: "on_recv (recv_at (take (WritableSize b) ?c)) s1 = (Ok (), s1\<lparr>tr_recvBuffer := b1\<rparr>)"
        by (rule on_recv_apply) (simp only: sel b2(1))
      have o2: "on_recv (PushData (Some (drop (WritableSize b) ?c)) (length ?c - WritableSize b))
          (s1\<lparr>tr_recvBuffer := b1\<rparr>) = (Ok (length ?c - WritableSize b), s1\<lparr>tr_recvBuffer := b2\<rparr>)"
        using on_recv_apply [of "PushData (Some (drop (WritableSize b) ?c)) (length ?c - WritableSize b)"
            "s1\<lparr>tr_recvBuffer := b1\<rparr>"] b2(2) by simp
      have "doResponse_loop (Suc k) s = doResponse_loop k (s1\<lparr>tr_recvBuffer := b2\<rparr>)"
        using s1(1) c False
        by (simp add: ass o1 o2 andthen_Ok
            del: length_take length_drop take_eq_Nil take_take drop_take)
      then show ?thesis using that b2 by blast
    qed
    let ?s2 = "s1\<lparr>tr_recvBuffer := b2\<rparr>"
    let ?bss = "if ?room < length bs then drop ?room bs # r else r"
    have all: "?c @ concat ?bss = concat bss" using Cons by simp
    have len: "length (concat ?bss) + length ?c = length (concat bss)"
      using arg_cong [OF all, of length] by (simp del: length_take)
    have "0 < length ?c" using c by simp
    have "\<exists>s3. tr_inv s3 \<and> readable (tr_recvBuffer s3) = readable (tr_recvBuffer ?s2) @ concat ?bss \<and>
       tr_fd s3 = tr_fd ?s2 \<and> tr_fd s3 \<in> set (net_open (tr_net s3)) \<and> tr_sendBuffer s3 = tr_sendBuffer ?s2 \<and>
       tr_arrivals s3 = (if closes then [Closed] else []) \<and>
       doResponse_loop k ?s2 = (Ok (), if closes then tr_close s3 else s3)"
    proof (rule Suc.IH)
      show "tr_inv ?s2" using inv sel b2 by (simp add: tr_inv_def tr_pending_def)
      show "tr_fd ?s2 \<in> set (net_open (tr_net ?s2))" using fd sel s1(3) by simp
      show "tr_arrivals ?s2 = arriving ?bss closes"
        using s1(4) by (simp add: tr_arrivals_def arriving_def)
      show "[] \<notin> set ?bss" using Suc.prems(4) Cons by auto
      show "length (concat ?bss) < k" using len \<open>0 < length ?c\<close> Suc.prems(5) by linarith
      show "length (readable (tr_recvBuffer ?s2)) + length (concat ?bss) + 8192 < kMaxBufferSize"
        using len Suc.prems(6) by (simp add: b2 b(3) del: length_take)
    qed
    then show ?thesis
      using step b(3) b2(2) all sel by auto
  qed
qed

text \<open>Whatever has arrived, with what was left before, becomes one response.\<close>

lemma doResponse_spec:
  assumes inv: "tr_inv s" and fd: "tr_fd s \<in> set (net_open (tr_net s))"
    and arr: "tr_arrivals s = map Arrived bss" and ne: "[] \<notin> set bss"
    and fuel: "length (concat bss) < k"
    and small: "length (readable (tr_recvBuffer s)) + length (concat bss) + 8192 < kMaxBufferSize"
  obtains s' where "doResponse k s =
      (Ok (let d = readable (tr_recvBuffer s) @ concat bss in if d = [] then [] else [d]), s')"
    and "tr_inv s'" and "readable (tr_recvBuffer s') = []" and "tr_fd s' = tr_fd s"
    and "tr_arrivals s' = []" and "tr_sendBuffer s' = tr_sendBuffer s"
proof -
  have arr': "tr_arrivals s = arriving bss False" using arr by (simp add: arriving_def)
  obtain s1 where s1: "tr_inv s1" "readable (tr_recvBuffer s1) = readable (tr_recvBuffer s) @ concat bss"
    "tr_fd s1 = tr_fd s" "tr_sendBuffer s1 = tr_sendBuffer s" "tr_arrivals s1 = []"
    "doResponse_loop k s = (Ok (), s1)"
    using doResponse_loop_spec [OF inv fd arr' ne fuel small] by auto
  let ?d = "readable (tr_recvBuffer s) @ concat bss"
  have tb: "tb_inv (tr_recvBuffer s1)" using s1(1) by (simp add: tr_inv_def)
  have emp: "IsEmpty (tr_recvBuffer s1) \<longleftrightarrow> ?d = []" by (simp add: IsEmpty_iff [OF tb] s1(2))
  show ?thesis
  proof (cases "?d = []")
    case True
    then have "doResponse k s = (Ok [], s1)"
      using s1(6) emp by (simp add: doResponse_def andthen_Ok)
    then show ?thesis using that [of s1] s1 True by simp
  next
    case False
    have peek: "PeekData (tr_recvBuffer s1) = ?d" by (simp add: PeekData_eq [OF tb] s1(2))
    have n: "length ?d \<le> length (readable (tr_recvBuffer s1))" by (simp add: s1(2))
    obtain b where b: "Consume (length ?d) (tr_recvBuffer s1) = (Ok (), b)" "tb_inv b"
      "readable b = drop (length ?d) (readable (tr_recvBuffer s1))"
      by (rule Consume_spec [OF tb n])
    have rb: "readable b = []" using b(3) s1(2) by simp
    obtain b2 where b2: "Shrink b = (Ok (), b2)" "tb_inv b2" "readable b2 = readable b"
      by (rule Shrink_spec [OF b(2)])
    let ?b = "if 8388608 < tb_cap b then b2 else b"
    let ?s = "s1\<lparr>tr_recvBuffer := ?b\<rparr>"
    have o1: "on_recv (Consume (length ?d)) s1 = (Ok (), s1\<lparr>tr_recvBuffer := b\<rparr>)"
      by (rule on_recv_apply) (rule b(1))
    have o2: "on_recv Shrink (s1\<lparr>tr_recvBuffer := b\<rparr>) = (Ok (), s1\<lparr>tr_recvBuffer := b2\<rparr>)"
      using on_recv_apply [of Shrink "s1\<lparr>tr_recvBuffer := b\<rparr>"] b2(1) by simp
    have "doResponse k s = (Ok [?d], ?s)"
    proof -
      have "0 < length ?d" using False by simp
      then show ?thesis
        using False emp o1 o2 s1(6)
        by (simp add: doResponse_def andthen_Ok peek ret_apply Let_def del: length_append)
    qed
    then show ?thesis
      using that [of ?s] False s1 b b2 rb by (simp add: tr_inv_def tr_pending_def tr_arrivals_def)
  qed
qed

text \<open>When the peer closes behind its data, \<open>close()\<close> clears the buffer before it is looked at.\<close>

lemma doResponse_closed:
  assumes inv: "tr_inv s" and fd: "tr_fd s \<in> set (net_open (tr_net s))" and valid: "tr_fd s \<noteq> - 1"
    and arr: "tr_arrivals s = map Arrived bss @ [Closed]" and ne: "[] \<notin> set bss"
    and fuel: "length (concat bss) < k"
    and small: "length (readable (tr_recvBuffer s)) + length (concat bss) + 8192 < kMaxBufferSize"
  obtains s' where "doResponse k s = (Ok [], s')" and "tr_fd s' = - 1"
    and "readable (tr_recvBuffer s') = []" and "tr_pending s' = []"
proof -
  have arr': "tr_arrivals s = arriving bss True" using arr by (simp add: arriving_def)
  obtain s1 where s1: "tr_inv s1" "tr_fd s1 = tr_fd s"
    "doResponse_loop k s = (Ok (), tr_close s1)"
    using doResponse_loop_spec [OF inv fd arr' ne fuel small] by auto
  have v: "isValid s1" using s1(2) valid by (simp add: isValid_def)
  have tb: "tb_inv (tr_recvBuffer (tr_close s1))" "readable (tr_recvBuffer (tr_close s1)) = []"
    using s1(1) v Clear_spec [of "tr_recvBuffer s1"] by (auto simp: tr_close_def tr_inv_def)
  then have "doResponse k s = (Ok [], tr_close s1)"
    using s1(3) by (simp add: doResponse_def andthen_Ok IsEmpty_iff)
  moreover have "tr_pending (tr_close s1) = []"
    using s1(1) v Clear_spec [of "tr_sendBuffer s1"] by (simp add: tr_close_def tr_pending_def tr_inv_def)
  ultimately show ?thesis using that tb v by (simp add: tr_close_def)
qed

section \<open>Sockets\<close>

text \<open>What the operations keep is a matter of the descriptor and the kernel's side alone.\<close>

definition on_net :: "(int \<Rightarrow> net \<Rightarrow> bool) \<Rightarrow> transceiver \<Rightarrow> bool" where
  "on_net Q s \<longleftrightarrow> Q (tr_fd s) (tr_net s)"

lemma keeps_snd: "keeps P m \<Longrightarrow> P s \<Longrightarrow> P (snd (m s))"
  by (simp add: keeps_def)

lemma keeps_pure: "keeps P (\<lambda>s. (r, s))"
  by (simp add: keeps_def)

lemma keeps_cases:
  "keeps P m \<Longrightarrow> keeps P n \<Longrightarrow> keeps P (if c then m else n)"
  by simp

lemma keeps_if: "keeps P m \<Longrightarrow> keeps P n \<Longrightarrow> keeps P (\<lambda>s. if c s then m s else n s)"
  by (simp add: keeps_def)

lemma keeps_peek: "(\<And>s0. keeps P (m s0)) \<Longrightarrow> keeps P (\<lambda>s. m s s)"
  by (simp add: keeps_def)

lemma keeps_on_send: "keeps (on_net Q) (on_send m)"
  unfolding on_send_def by (rule keeps_apart) (simp add: on_net_def)

lemma keeps_on_recv: "keeps (on_net Q) (on_recv m)"
  unfolding on_recv_def by (rule keeps_apart) (simp add: on_net_def)

lemmas keeps_steps = keeps_andthen keeps_cases keeps_ret keeps_pure keeps_on_send keeps_on_recv

lemma keeps_tr_send:
  assumes "\<And>fd buf n. Q fd n \<Longrightarrow> Q fd (snd (k_send fd buf n))"
  shows "keeps (on_net Q) (tr_send buf)"
proof (rule keepsI)
  fix s assume "on_net Q s"
  with assms [of "tr_fd s" "tr_net s" "take (to_uint32 (length buf)) buf"]
  show "on_net Q (snd (tr_send buf s))"
    by (auto simp: tr_send_def on_net_def split: prod.split)
qed

lemma keeps_sendRequest:
  assumes "\<And>fd buf n. Q fd n \<Longrightarrow> Q fd (snd (k_send fd buf n))"
  shows "keeps (on_net Q) (sendRequest d)"
  unfolding sendRequest_def [abs_def]
  by (intro keeps_if keeps_steps keeps_tr_send assms)

lemma keeps_doRequest_flush:
  assumes "\<And>fd buf n. Q fd n \<Longrightarrow> Q fd (snd (k_send fd buf n))"
  shows "keeps (on_net Q) doRequest_flush"
  unfolding doRequest_flush_def [abs_def]
  by (intro keeps_if keeps_pure keeps_peek [where m = "\<lambda>s0. andthen (tr_send (PeekData (tr_sendBuffer s0))) _"]
      keeps_steps keeps_tr_send assms)

lemma tr_readv_net:
  assumes read: "\<And>fd room n. Q fd n \<Longrightarrow> Q fd (snd (k_readv fd room n))"
    and close: "\<And>fd n. Q fd n \<Longrightarrow> fd \<noteq> - 1 \<Longrightarrow> Q (- 1) (k_close fd n)"
    and s: "on_net Q s" "tr_readv room s = (r, s1)"
  shows "on_net Q s1"
proof -
  obtain x again n where k: "k_readv (tr_fd s) room (tr_net s) = ((x, again), n)"
    by (metis prod.exhaust)
  have n: "Q (tr_fd s) n" using read [of "tr_fd s" "tr_net s" room] s(1) k by (simp add: on_net_def)
  have "on_net Q (tr_close (s\<lparr>tr_net := n\<rparr>))"
    using n close [OF n]
    by (cases "tr_fd s = - 1") (simp_all add: tr_close_def isValid_def on_net_def)
  then show ?thesis
    using s(2) n by (auto simp: tr_readv_def k on_net_def Let_def split: if_splits option.splits)
qed

lemma keeps_doResponse_loop:
  assumes read: "\<And>fd room n. Q fd n \<Longrightarrow> Q fd (snd (k_readv fd room n))"
    and close: "\<And>fd n. Q fd n \<Longrightarrow> fd \<noteq> - 1 \<Longrightarrow> Q (- 1) (k_close fd n)"
  shows "keeps (on_net Q) (doResponse_loop k)"
proof (induction k)
  case 0
  then show ?case by (simp add: keeps_diverge)
next
  case (Suc k)
  have a: "keeps (on_net Q) (andthen (on_recv m) (\<lambda>_. doResponse_loop k))"
    for m :: "(tc_buffer, 'x) act"
    by (intro keeps_steps Suc)
  have b: "keeps (on_net Q) (andthen (on_recv m) (\<lambda>_. andthen (on_recv m') (\<lambda>_. doResponse_loop k)))"
    for m :: "(tc_buffer, 'x) act" and m' :: "(tc_buffer, 'y) act"
    by (intro keeps_steps Suc)
  show ?case
    unfolding doResponse_loop.simps
  proof (intro keeps_andthen keeps_on_recv keepsI, goal_cases)
    case (1 _ s)
    obtain r s1 where r: "tr_readv (WritableSize (tr_recvBuffer s) + 65536) s = (r, s1)"
      by (metis prod.exhaust)
    have "on_net Q s1" by (rule tr_readv_net [OF read close 1 r])
    then show ?case
      by (auto simp: r Let_def intro: keeps_snd [OF a] keeps_snd [OF b] split: option.split)
  qed
qed

lemma keeps_doResponse:
  assumes "\<And>fd room n. Q fd n \<Longrightarrow> Q fd (snd (k_readv fd room n))"
    and "\<And>fd n. Q fd n \<Longrightarrow> fd \<noteq> - 1 \<Longrightarrow> Q (- 1) (k_close fd n)"
  shows "keeps (on_net Q) (doResponse k)"
proof -
  have rest: "keeps (on_net Q) (andthen (if 0 < len then andthen (on_recv (Consume len)) (\<lambda>_ s1.
        if 8388608 < tb_cap (tr_recvBuffer s1) then on_recv Shrink s1 else (Ok (), s1)) else ret ())
      (\<lambda>_. ret [data]))" for len data
    by (intro keeps_steps keeps_if)
  have "keeps (on_net Q) (\<lambda>s. if IsEmpty (tr_recvBuffer s) then (Ok [], s)
       else
         let data = PeekData (tr_recvBuffer s); len = length data in
         andthen (if 0 < len then
             andthen (on_recv (Consume len)) (\<lambda>_ s1.
               if 8388608 < tb_cap (tr_recvBuffer s1) then on_recv Shrink s1 else (Ok (), s1))
           else ret ()) (\<lambda>_. ret [data]) s)"
    unfolding Let_def by (rule keeps_if [OF keeps_pure]) (rule keeps_peek, rule rest)
  then show ?thesis
    unfolding doResponse_def by (intro keeps_andthen keeps_doResponse_loop assms)
qed

text \<open>Descriptors to come have not been used.\<close>

definition net_fresh :: "net \<Rightarrow> bool" where
  "net_fresh n \<longleftrightarrow> (\<forall>fd \<ge> net_next n. fd \<notin> set (net_open n) \<and> net_wire n fd = [])"

definition fd_used :: "int \<Rightarrow> net \<Rightarrow> bool" where
  "fd_used fd n \<longleftrightarrow> fd < net_next n \<and> net_fresh n"

lemma keeps_sendRequest_fresh: "keeps (on_net fd_used) (sendRequest d)"
proof (rule keeps_sendRequest)
  fix fd buf n assume "fd_used fd n"
  moreover obtain r again n' where k: "k_send fd buf n = ((r, again), n')" by (metis prod.exhaust)
  ultimately show "fd_used fd (snd (k_send fd buf n))"
    using k_send_spec [OF k] by (auto simp: fd_used_def net_fresh_def)
qed

text \<open>An earlier socket: still open, no longer the transceiver's, what arrived there unread.\<close>

definition left_behind :: "int \<Rightarrow> read_answer list \<Rightarrow> int \<Rightarrow> net \<Rightarrow> bool" where
  "left_behind old a fd n \<longleftrightarrow>
     net_arrivals n old = a \<and> old \<in> set (net_open n) \<and> old < net_next n \<and> fd \<noteq> old \<and> old \<noteq> - 1"

lemma left_behind_kernel:
  "left_behind old a fd n \<Longrightarrow> left_behind old a fd (snd (k_send fd buf n))"
  "left_behind old a fd n \<Longrightarrow> left_behind old a fd (snd (k_readv fd room n))"
  "left_behind old a fd n \<Longrightarrow> left_behind old a (- 1) (k_close fd n)"
proof -
  assume l: "left_behind old a fd n"
  obtain r again n' where k: "k_send fd buf n = ((r, again), n')" by (metis prod.exhaust)
  show "left_behind old a fd (snd (k_send fd buf n))"
    using k_send_spec [OF k] l by (simp add: k left_behind_def)
next
  assume "left_behind old a fd n"
  then show "left_behind old a fd (snd (k_readv fd room n))"
    by (auto simp: k_readv_def left_behind_def split: list.split read_answer.split)
next
  assume "left_behind old a fd n"
  then show "left_behind old a (- 1) (k_close fd n)" by (simp add: k_close_def left_behind_def)
qed

lemma keeps_tr_connect_left: "keeps (on_net (left_behind old a)) tr_connect"
  by (rule keepsI)
    (auto simp: on_net_def tr_connect_def zoom_def k_connect_def andthen_def left_behind_def Let_def)

end
