(* ===== verification/Server_Connection.thy ===== *)
theory Server_Connection
  imports Transceiver
begin

text \<open>
  The server's side of a connection: \<open>TC_EpollServer::NetThread::Connection\<close> of
  \<^verbatim>\<open>src/util/src/tc_epoll_server.cpp\<close> and the slices of \<^verbatim>\<open>src/util/include/tc_buffer_pool.h\<close>, over
  the kernel of \<^theory_text>\<open>Transceiver\<close>. The lines the code prints are left out.
\<close>

section \<open>Slices\<close>

record tc_slice =
  sl_data :: bytes
  sl_dataLen :: nat
  sl_len :: nat

text \<open>The bytes of a slice still to be sent.\<close>

definition slice_bytes :: "tc_slice \<Rightarrow> bytes" where
  "slice_bytes s = take (sl_dataLen s) (sl_data s)"

definition slices_bytes :: "tc_slice list \<Rightarrow> bytes" where
  "slices_bytes ss = concat (map slice_bytes ss)"

text \<open>The \<open>memmove\<close> to the front of the block.\<close>

definition slice_skip :: "nat \<Rightarrow> tc_slice \<Rightarrow> tc_slice" where
  "slice_skip k s = s\<lparr>sl_data := take (sl_dataLen s - k) (drop k (sl_data s)) @ drop (sl_dataLen s - k) (sl_data s),
     sl_dataLen := sl_dataLen s - k\<rparr>"

fun slices_after :: "nat \<Rightarrow> tc_slice list \<Rightarrow> tc_slice list outcome" where
  "slices_after k [] = Ok []"
| "slices_after k (s # ss) =
     (if sl_dataLen s = 0 then Abort
      else if sl_dataLen s \<le> k then slices_after (k - sl_dataLen s) ss
      else Ok ((if k \<noteq> 0 then slice_skip k s else s) # ss))"

section \<open>State\<close>

text \<open>\<open>sc_fd\<close> is the descriptor of \<open>_sock\<close>, -1 once it is closed; an adapter is named by a number.\<close>

record server_conn =
  co_adapter :: "nat option"
  co_fd :: int
  co_uid :: "32 word"
  co_lfd :: int
  co_ip :: bytes
  co_bClose :: bool
  co_port :: "16 word"
  co_recvbuffer :: bytes
  co_sendbuffer :: "tc_slice list"

definition Connection_init ::
  "nat option \<Rightarrow> int \<Rightarrow> int \<Rightarrow> bytes \<Rightarrow> 16 word \<Rightarrow> server_conn outcome" where
  "Connection_init pBindAdapter lfd fd ip port =
     (if fd = - 1 then Abort
      else Ok \<lparr>co_adapter = pBindAdapter, co_fd = fd, co_uid = 0, co_lfd = lfd, co_ip = ip, co_bClose = False,
        co_port = port, co_recvbuffer = [], co_sendbuffer = []\<rparr>)"

text \<open>A message for the handlers; its close type is not set when it carries data.\<close>

record recv_data =
  rd_uid :: "32 word"
  rd_buffer :: bytes
  rd_ip :: bytes
  rd_port :: "16 word"
  rd_recvTimeStamp :: int
  rd_isOverload :: bool
  rd_isClosed :: bool
  rd_fd :: int
  rd_adapter :: "nat option"
  rd_closeType :: "int option"

section \<open>Operations\<close>

type_synonym conn_state = "server_conn \<times> net"

definition conn_close :: "conn_state \<Rightarrow> conn_state" where
  "conn_close = (\<lambda>(c, n).
     if co_lfd c \<noteq> - 1 \<and> co_fd c \<noteq> - 1 then (c\<lparr>co_fd := - 1\<rparr>, k_close (co_fd c) n) else (c, n))"

definition conn_setClose :: "server_conn \<Rightarrow> bool \<times> server_conn" where
  "conn_setClose c = (co_sendbuffer c = [], c\<lparr>co_bClose := True\<rparr>)"

definition adjustSlices :: "nat \<Rightarrow> (server_conn, unit) act" where
  "adjustSlices toSkippedBytes c =
     (case slices_after toSkippedBytes (co_sendbuffer c) of
        Ok ss \<Rightarrow> (Ok (), c\<lparr>co_sendbuffer := ss\<rparr>)
      | _ \<Rightarrow> (Abort, c))"

definition clearSlices :: "(server_conn, unit) act" where
  "clearSlices = adjustSlices (size_max - 1)"

text \<open>The reading loop of \<open>recv\<close>; \<open>False\<close> when the connection is at its end.\<close>

fun arrived_bytes :: "read_answer list \<Rightarrow> nat" where
  "arrived_bytes [] = 0"
| "arrived_bytes (Arrived bs # r) = length bs + arrived_bytes r"
| "arrived_bytes (Closed # r) = 0"

lemma k_readv_arrived:
  assumes "k_readv fd room n = ((Some bs, again), n')"
  shows "arrived_bytes (net_arrivals n fd) = length bs + arrived_bytes (net_arrivals n' fd)"
  using assms by (auto simp: k_readv_def split: if_splits list.splits read_answer.splits)

function recv_loop :: "int \<Rightarrow> bytes \<Rightarrow> net \<Rightarrow> (bool \<times> bytes) \<times> net" where
  "recv_loop fd buf n =
     (case k_readv fd 32768 n of
        ((None, again), n') \<Rightarrow> ((again, buf), n')
      | ((Some bs, _), n') \<Rightarrow>
          if bs = [] then ((False, buf), n')
          else if length bs < 32768 then ((True, buf @ bs), n')
          else recv_loop fd (buf @ bs) n')"
  by pat_completeness auto
termination
proof (relation "measure (\<lambda>(fd, buf, n). arrived_bytes (net_arrivals n fd))")
  fix fd buf n x n' r again bs
  assume "(x, n') = k_readv fd 32768 n" "(r, again) = x" "r = Some bs" "bs \<noteq> []"
  then have "k_readv fd 32768 n = ((Some bs, again), n')" by simp
  then show "((fd, buf @ bs, n'), (fd, buf, n)) \<in> measure (\<lambda>(fd, buf, n). arrived_bytes (net_arrivals n fd))"
    using k_readv_arrived \<open>bs \<noteq> []\<close> by simp
qed simp

declare recv_loop.simps [simp del]

text \<open>The result is negative at the end of the connection; otherwise one message at most comes out.\<close>

definition conn_recv :: "(conn_state, int \<times> recv_data list) act" where
  "conn_recv = (\<lambda>(c, n).
     case recv_loop (co_fd c) (co_recvbuffer c) n of
       ((False, buf), n') \<Rightarrow> (Ok (- 1, []), (c\<lparr>co_recvbuffer := buf\<rparr>, n'))
     | ((True, buf), n') \<Rightarrow>
         if co_lfd c \<noteq> - 1 \<and> buf \<noteq> [] then
           (Ok (1, [\<lparr>rd_uid = co_uid c, rd_buffer = buf, rd_ip = co_ip c, rd_port = co_port c,
              rd_recvTimeStamp = 0, rd_isOverload = False, rd_isClosed = False, rd_fd = co_fd c,
              rd_adapter = None, rd_closeType = None\<rparr>]), (c\<lparr>co_recvbuffer := []\<rparr>, n'))
         else (Ok (0, []), (c\<lparr>co_recvbuffer := buf\<rparr>, n')))"

text \<open>\<open>iov_max\<close> is the answer of \<open>sysconf(_SC_IOV_MAX)\<close>.\<close>

definition kIOVecCount :: "int \<Rightarrow> nat" where
  "kIOVecCount iov_max = nat (max iov_max 16)"

definition tcpWriteV :: "int \<Rightarrow> int \<Rightarrow> bytes list \<Rightarrow> (net, int) act" where
  "tcpWriteV iov_max fd buffers n =
     (if kIOVecCount iov_max < length buffers then (Abort, n)
      else case k_send fd (concat buffers) n of
        ((r, again), n') \<Rightarrow>
          let bytes = (if r < 0 then - 1 else to_int (nat r)) in
          (Ok (if bytes = - 1 then if r < 0 \<and> again then 0 else - 1 else bytes), n'))"

definition tcpSend :: "int \<Rightarrow> bytes \<Rightarrow> (net, int) act" where
  "tcpSend fd data n =
     (if data = [] then (Ok 0, n)
      else case k_send fd data n of
        ((r, again), n') \<Rightarrow> (Ok (if r < 0 then if again then 0 else - 1 else to_int (nat r)), n'))"

text \<open>The loop over groups of slices, with what was sent before.\<close>

function send_slices :: "int \<Rightarrow> int \<Rightarrow> nat \<Rightarrow> tc_slice list \<Rightarrow> (net, int) act" where
  "send_slices iov_max fd sent slices =
     (if slices = [] then ret (to_int sent)
      else
        let vc = min (length slices) (kIOVecCount iov_max); vecs = take vc slices;
            expectSent = sum_list (map sl_dataLen vecs)
        in if \<exists>s \<in> set vecs. sl_dataLen s = 0 then (\<lambda>n. (Abort, n))
        else andthen (tcpWriteV iov_max fd (map slice_bytes vecs)) (\<lambda>bytes.
          if bytes = - 1 then ret (- 1)
          else if bytes = 0 then ret (to_int sent)
          else if bytes = to_int expectSent then send_slices iov_max fd (sent + nat bytes) (drop vc slices)
          else if \<not> 0 < bytes then (\<lambda>n. (Abort, n))
          else ret (to_int (sent + nat bytes))))"
  by pat_completeness auto
termination
proof (relation "measure (\<lambda>(iov_max, fd, sent, slices). length slices)")
  fix iov_max fd :: int and sent :: nat and slices :: "tc_slice list" and vc vecs expectSent bytes
  assume "slices \<noteq> []" "vc = min (length slices) (kIOVecCount iov_max)"
  then have "0 < vc" by (simp add: kIOVecCount_def)
  then show "((iov_max, fd, sent + nat bytes, drop vc slices), (iov_max, fd, sent, slices))
      \<in> measure (\<lambda>(iov_max, fd, sent, slices). length slices)"
    using \<open>slices \<noteq> []\<close> by simp
qed simp

declare send_slices.simps [simp del]

text \<open>\<open>send(buffer, ip, port, byEpollOut)\<close>: what \<open>::send\<close> does not take of the buffer is not kept.\<close>

definition conn_send_buffer :: "int \<Rightarrow> bytes \<Rightarrow> bool \<Rightarrow> (conn_state, int) act" where
  "conn_send_buffer iov_max buffer byEpollOut =
     andthen (\<lambda>(c, n).
       if byEpollOut then
         (case send_slices iov_max (co_fd c) 0 (co_sendbuffer c) n of
            (Ok bytes, n') \<Rightarrow>
              if bytes = - 1 then (Ok False, (c, n'))
              else (case adjustSlices (nat (bytes mod int size_max)) c of
                (Ok _, c') \<Rightarrow> (Ok True, (c', n'))
              | (_, c') \<Rightarrow> (Abort, (c', n')))
          | (_, n') \<Rightarrow> (Abort, (c, n')))
       else
         (case tcpSend (co_fd c) buffer n of
            (Ok bytes, n') \<Rightarrow> (Ok (bytes \<noteq> - 1), (c, n'))
          | (_, n') \<Rightarrow> (Abort, (c, n')))) (\<lambda>alive (c, n).
     if \<not> alive then (Ok (- 1), (c, n))
     else if 8 * 1024 \<le> sum_list (map sl_dataLen (co_sendbuffer c)) mod size_max then
       (case clearSlices c of (Ok _, c') \<Rightarrow> (Ok (- 2), (c', n)) | (_, c') \<Rightarrow> (Abort, (c', n)))
     else if co_bClose c \<and> co_sendbuffer c = [] then (Ok (- 2), (c, n))
     else (Ok 0, (c, n)))"

definition conn_send :: "int \<Rightarrow> (conn_state, int) act" where
  "conn_send iov_max = (\<lambda>(c, n).
     if co_sendbuffer c = [] then (Ok 0, (c, n)) else conn_send_buffer iov_max [] True (c, n))"

end
