(* ===== verification/Fifo_Interface.thy ===== *)
theory Fifo_Interface
  imports Tars_Prelude
begin

text \<open>
  The contract of a queue that refuses when it is full, as a locale over an invariant and the
  list of items in order. What clients rely on, that the items come out in the order in which
  they were accepted and none is lost or made up, is proved once for every history of calls.
\<close>

text \<open>One call of a client.\<close>

datatype 'a fifo_call = Push 'a | Pop

locale fifo =
  fixes inv :: "'q \<Rightarrow> bool"
    and items :: "'q \<Rightarrow> 'a list"
    and full :: "'q \<Rightarrow> bool"
    and push :: "'a \<Rightarrow> 'q \<Rightarrow> bool \<times> 'q"
    and pop :: "'q \<Rightarrow> 'a option \<times> 'q"
  assumes push_full: "inv q \<Longrightarrow> full q \<Longrightarrow> push x q = (False, q)"
    and push_room: "inv q \<Longrightarrow> \<not> full q \<Longrightarrow> fst (push x q) \<and> items (snd (push x q)) = items q @ [x]"
    and push_inv: "inv q \<Longrightarrow> inv (snd (push x q))"
    and pop_empty: "inv q \<Longrightarrow> items q = [] \<Longrightarrow> pop q = (None, q)"
    and pop_head: "inv q \<Longrightarrow> items q = x # xs \<Longrightarrow> fst (pop q) = Some x \<and> items (snd (pop q)) = xs"
    and pop_inv: "inv q \<Longrightarrow> inv (snd (pop q))"
begin

text \<open>A history of calls: what was accepted and what came out.\<close>

fun history :: "'a fifo_call list \<Rightarrow> 'q \<Rightarrow> 'a list \<times> 'a list \<times> 'q" where
  "history [] q = ([], [], q)"
| "history (Push x # cs) q =
     (let (b, q1) = push x q; (ins, outs, q2) = history cs q1
      in (if b then x # ins else ins, outs, q2))"
| "history (Pop # cs) q =
     (let (r, q1) = pop q; (ins, outs, q2) = history cs q1
      in (ins, (case r of Some x \<Rightarrow> x # outs | None \<Rightarrow> outs), q2))"

lemma history_inv: "inv q \<Longrightarrow> inv (snd (snd (history cs q)))"
proof (induction cs arbitrary: q)
  case (Cons c cs)
  then show ?case
    using push_inv pop_inv by (cases c) (auto simp: Let_def split_def)
qed simp

lemma history_order:
  "inv q \<Longrightarrow> history cs q = (ins, outs, q') \<Longrightarrow> items q @ ins = outs @ items q'"
proof (induction cs arbitrary: q ins outs)
  case Nil
  then show ?case by simp
next
  case (Cons c cs)
  show ?case
  proof (cases c)
    case (Push x)
    obtain b q1 where p: "push x q = (b, q1)" by (cases "push x q")
    obtain ins1 where h: "history cs q1 = (ins1, outs, q')" "ins = (if b then x # ins1 else ins1)"
      using Cons.prems(2) by (auto simp: Push p split: prod.splits)
    have "inv q1" using push_inv [OF Cons.prems(1), of x] by (simp add: p)
    from Cons.IH [OF this h(1)] have "items q1 @ ins1 = outs @ items q'" .
    then show ?thesis
      using push_full [OF Cons.prems(1), of x] push_room [OF Cons.prems(1), of x] h(2)
      by (cases "full q") (auto simp: p)
  next
    case Pop
    obtain r q1 where p: "pop q = (r, q1)" by (cases "pop q")
    obtain outs1 where h: "history cs q1 = (ins, outs1, q')"
      "outs = (case r of Some x \<Rightarrow> x # outs1 | None \<Rightarrow> outs1)"
      using Cons.prems(2) by (auto simp: Pop p split: prod.splits)
    have "inv q1" using pop_inv [OF Cons.prems(1)] by (simp add: p)
    from Cons.IH [OF this h(1)] have "items q1 @ ins = outs1 @ items q'" .
    then show ?thesis
      using pop_empty [OF Cons.prems(1)] pop_head [OF Cons.prems(1)] h(2)
      by (cases "items q") (auto simp: p)
  qed
qed

text \<open>From an empty queue: what came out is a prefix of what went in.\<close>

lemma history_prefix:
  assumes "inv q" and "items q = []" and "history cs q = (ins, outs, q')"
  shows "take (length outs) ins = outs"
  using history_order [OF assms(1,3)] assms(2) by simp

end

end
