(* ===== verification/Thread_Queue.thy ===== *)
theory Thread_Queue
  imports Fifo_Interface
begin

text \<open>
  \<open>TC_ThreadQueue\<close> of \<^verbatim>\<open>src/util/include/tc_thread_queue.h\<close>: a deque with a separate counter,
  every operation under the monitor's lock and so one step. Waiting gives the lock up: what
  other threads do to the queue meanwhile is the argument \<open>waited\<close>.
\<close>

section \<open>State and operations\<close>

record 'a thread_queue =
  tq_queue :: "'a list"
  tq_size :: nat

definition ThreadQueue_init :: "'a thread_queue" where
  "ThreadQueue_init = \<lparr>tq_queue = [], tq_size = 0\<rparr>"

text \<open>How long to wait: \<open>millsecond\<close> 0, all ones, or a timeout.\<close>

datatype tq_wait = NoWait | WaitForever | WaitFor nat

definition wait_of :: "64 word \<Rightarrow> tq_wait" where
  "wait_of millsecond =
     (if millsecond = 0 then NoWait
      else if millsecond = - 1 then WaitForever
      else WaitFor (unat millsecond))"

text \<open>
  \<open>waited\<close> yields what \<open>timedWait\<close> returns (\<open>False\<close> when the time is over) and the queue as it
  is when the lock is held again.
\<close>

definition tq_after_wait ::
  "tq_wait \<Rightarrow> ('a thread_queue \<Rightarrow> bool \<times> 'a thread_queue) \<Rightarrow> 'a thread_queue
     \<Rightarrow> bool \<times> 'a thread_queue" where
  "tq_after_wait w waited q =
     (if tq_queue q = [] then
        (case w of
           NoWait \<Rightarrow> (False, q)
         | WaitForever \<Rightarrow> (True, snd (waited q))
         | WaitFor t \<Rightarrow> waited q)
      else (True, q))"

definition tq_pop_front ::
  "tq_wait \<Rightarrow> ('a thread_queue \<Rightarrow> bool \<times> 'a thread_queue) \<Rightarrow> ('a thread_queue, 'a option) act" where
  "tq_pop_front w waited q =
     (let (go, q1) = tq_after_wait w waited q in
      if \<not> go then (Ok None, q1)
      else case tq_queue q1 of
        [] \<Rightarrow> (Ok None, q1)
      | t # ts \<Rightarrow>
          let q2 = q1\<lparr>tq_queue := ts\<rparr>
          in if 0 < tq_size q2 then (Ok (Some t), q2\<lparr>tq_size := tq_size q2 - 1\<rparr>) else (Abort, q2))"

definition tq_push_back :: "'a \<Rightarrow> 'a thread_queue \<Rightarrow> 'a thread_queue" where
  "tq_push_back t q = q\<lparr>tq_queue := tq_queue q @ [t], tq_size := size_add (tq_size q) 1\<rparr>"

primrec tq_push_back_all :: "'a list \<Rightarrow> 'a thread_queue \<Rightarrow> 'a thread_queue" where
  "tq_push_back_all [] q = q"
| "tq_push_back_all (t # ts) q = tq_push_back_all ts (tq_push_back t q)"

definition tq_push_front :: "'a \<Rightarrow> 'a thread_queue \<Rightarrow> 'a thread_queue" where
  "tq_push_front t q = q\<lparr>tq_queue := t # tq_queue q, tq_size := size_add (tq_size q) 1\<rparr>"

primrec tq_push_front_all :: "'a list \<Rightarrow> 'a thread_queue \<Rightarrow> 'a thread_queue" where
  "tq_push_front_all [] q = q"
| "tq_push_front_all (t # ts) q = tq_push_front_all ts (tq_push_front t q)"

text \<open>\<open>swap(q)\<close>: success, the caller's container after the call, the queue.\<close>

definition tq_swap ::
  "'a list \<Rightarrow> tq_wait \<Rightarrow> ('a thread_queue \<Rightarrow> bool \<times> 'a thread_queue) \<Rightarrow> 'a thread_queue
     \<Rightarrow> (bool \<times> 'a list) \<times> 'a thread_queue" where
  "tq_swap c w waited q =
     (let (go, q1) = tq_after_wait w waited q in
      if \<not> go then ((False, c), q1)
      else if tq_queue q1 = [] then ((False, c), q1)
      else ((True, tq_queue q1), q1\<lparr>tq_queue := c, tq_size := length c\<rparr>))"

definition tq_clear :: "'a thread_queue \<Rightarrow> 'a thread_queue" where
  "tq_clear q = q\<lparr>tq_queue := [], tq_size := 0\<rparr>"

definition tq_empty :: "'a thread_queue \<Rightarrow> bool" where
  "tq_empty q \<longleftrightarrow> tq_queue q = []"

section \<open>The counter counts\<close>

text \<open>Memory bounds the queue: one more item than fits \<open>size_t\<close> cannot exist.\<close>

definition tq_inv :: "'a thread_queue \<Rightarrow> bool" where
  "tq_inv q \<longleftrightarrow> tq_size q = length (tq_queue q) mod size_max"

definition tq_small :: "'a thread_queue \<Rightarrow> bool" where
  "tq_small q \<longleftrightarrow> length (tq_queue q) < size_max"

lemma tq_inv_init: "tq_inv ThreadQueue_init"
  by (simp add: tq_inv_def ThreadQueue_init_def)

lemma tq_push_back_spec:
  "tq_inv q \<Longrightarrow> tq_inv (tq_push_back t q) \<and> tq_queue (tq_push_back t q) = tq_queue q @ [t]"
  by (simp add: tq_inv_def tq_push_back_def size_add_def mod_simps)

lemma tq_push_front_spec:
  "tq_inv q \<Longrightarrow> tq_inv (tq_push_front t q) \<and> tq_queue (tq_push_front t q) = t # tq_queue q"
  by (simp add: tq_inv_def tq_push_front_def size_add_def mod_simps)

lemma tq_push_back_all_spec:
  "tq_inv q \<Longrightarrow> tq_inv (tq_push_back_all ts q) \<and>
     tq_queue (tq_push_back_all ts q) = tq_queue q @ ts"
proof (induction ts arbitrary: q)
  case (Cons t ts)
  then show ?case using tq_push_back_spec [OF Cons.prems, of t] by simp
qed simp

text \<open>A batch pushed to the front comes out in reverse.\<close>

lemma tq_push_front_all_spec:
  "tq_inv q \<Longrightarrow> tq_inv (tq_push_front_all ts q) \<and>
     tq_queue (tq_push_front_all ts q) = rev ts @ tq_queue q"
proof (induction ts arbitrary: q)
  case (Cons t ts)
  then show ?case using tq_push_front_spec [OF Cons.prems, of t] by simp
qed simp

lemma tq_swap_spec:
  assumes "tq_swap c w waited q = ((True, c'), q')" and "length c < size_max"
  shows "tq_inv q' \<and> tq_queue q' = c \<and> c' \<noteq> []"
  using assms by (auto simp: tq_swap_def tq_inv_def split: prod.splits if_splits)

lemma tq_pop_front_spec:
  assumes "tq_inv q" and "tq_small q" and "tq_queue q = t # ts"
  shows "tq_pop_front w waited q = (Ok (Some t), \<lparr>tq_queue = ts, tq_size = length ts, \<dots> = thread_queue.more q\<rparr>)"
  using assms by (simp add: tq_pop_front_def tq_after_wait_def tq_inv_def tq_small_def)

lemma tq_pop_front_nowait:
  "tq_queue q = [] \<Longrightarrow> tq_pop_front NoWait waited q = (Ok None, q)"
  by (simp add: tq_pop_front_def tq_after_wait_def)

text \<open>Spurious or stolen wake-ups are harmless: an empty queue after waiting gives nothing.\<close>

lemma tq_pop_front_stolen:
  assumes "tq_queue q = []" and "w \<noteq> NoWait" and "waited q = (b, q')" and "tq_queue q' = []"
  shows "tq_pop_front w waited q = (Ok None, q')"
  using assms by (cases w) (auto simp: tq_pop_front_def tq_after_wait_def)

section \<open>A queue without bound\<close>

definition tq_put :: "'a \<Rightarrow> 'a thread_queue \<Rightarrow> bool \<times> 'a thread_queue" where
  "tq_put t q = (if tq_small (tq_push_back t q) then (True, tq_push_back t q) else (False, q))"

definition tq_get :: "'a thread_queue \<Rightarrow> 'a option \<times> 'a thread_queue" where
  "tq_get q = (case tq_pop_front NoWait (Pair False) q of
     (Ok r, q') \<Rightarrow> (r, q') | (_, q') \<Rightarrow> (None, q'))"

interpretation tq: fifo "\<lambda>q. tq_inv q \<and> tq_small q" tq_queue
  "\<lambda>q. \<not> length (tq_queue q) + 1 < size_max" tq_put tq_get
proof
  fix q :: "'a thread_queue" and x :: 'a and xs assume inv: "tq_inv q \<and> tq_small q"
  have q: "tq_queue (tq_push_back x q) = tq_queue q @ [x]" by (simp add: tq_push_back_def)
  show "tq_put x q = (False, q)" if "\<not> length (tq_queue q) + 1 < size_max"
    using that by (simp add: tq_put_def tq_small_def q)
  show "fst (tq_put x q) \<and> tq_queue (snd (tq_put x q)) = tq_queue q @ [x]"
    if "\<not> \<not> length (tq_queue q) + 1 < size_max"
    using that by (simp add: tq_put_def tq_small_def q)
  show "tq_inv (snd (tq_put x q)) \<and> tq_small (snd (tq_put x q))"
    using inv tq_push_back_spec [of q x] by (simp add: tq_put_def)
  show "tq_get q = (None, q)" if "tq_queue q = []"
    using that by (simp add: tq_get_def tq_pop_front_nowait)
  show "fst (tq_get q) = Some x \<and> tq_queue (snd (tq_get q)) = xs" if "tq_queue q = x # xs"
    using inv that by (simp add: tq_get_def tq_pop_front_spec)
  show "tq_inv (snd (tq_get q)) \<and> tq_small (snd (tq_get q))"
    using inv
    by (cases "tq_queue q")
      (auto simp: tq_get_def tq_pop_front_nowait tq_pop_front_spec, auto simp: tq_inv_def tq_small_def)
qed

end
