(* ===== verification/Request_Packet.thy ===== *)
theory Request_Packet
  imports Tars_Struct
begin

text \<open>
  The two packet structs of the protocol, \<^verbatim>\<open>src/tup/RequestF.h\<close>, each with its reset, \<open>writeTo\<close>
  and \<open>readFrom\<close>, and the constants of \<^verbatim>\<open>src/tup/BaseF.h\<close>. Both meet the contract \<open>tars_body\<close>;
  the response does so only for a reader whose \<open>context\<close> is empty, because \<open>resetDefautlt\<close>
  leaves the containers alone and \<open>context\<close> is optional.
\<close>

section \<open>Constants\<close>

definition TARSVERSION :: tShort where "TARSVERSION = 1"
definition TUPVERSION :: tShort where "TUPVERSION = 3"
definition TARSNORMAL :: tChar where "TARSNORMAL = 0"
definition TARSONEWAY :: tChar where "TARSONEWAY = 1"
definition TARSSERVERSUCCESS :: tInt32 where "TARSSERVERSUCCESS = 0"
definition TARSSERVERUNKNOWNERR :: tInt32 where "TARSSERVERUNKNOWNERR = - 99"

section \<open>RequestPacket\<close>

type_synonym str_map = "(bytes \<times> bytes) list"

record RequestPacket =
  req_iVersion :: tShort
  req_cPacketType :: tChar
  req_iMessageType :: tInt32
  req_iRequestId :: tInt32
  req_sServantName :: bytes
  req_sFuncName :: bytes
  req_sBuffer :: bytes
  req_iTimeout :: tInt32
  req_context :: str_map
  req_status :: str_map

definition RequestPacket_init :: RequestPacket where
  "RequestPacket_init =
     \<lparr>req_iVersion = 0, req_cPacketType = 0, req_iMessageType = 0, req_iRequestId = 0,
      req_sServantName = [], req_sFuncName = [], req_sBuffer = [], req_iTimeout = 0,
      req_context = [], req_status = []\<rparr>"

definition req_resetDefautlt :: "RequestPacket \<Rightarrow> RequestPacket" where
  "req_resetDefautlt p =
     p\<lparr>req_iVersion := 0, req_cPacketType := 0, req_iMessageType := 0, req_iRequestId := 0,
       req_sServantName := [], req_sFuncName := [], req_iTimeout := 0\<rparr>"

abbreviation write_str_map :: "str_map \<Rightarrow> byte \<Rightarrow> (ostream, unit) act" where
  "write_str_map \<equiv> write_map write_string write_string"

abbreviation enc_str_map :: "str_map \<Rightarrow> byte \<Rightarrow> bytes" where
  "enc_str_map \<equiv> enc_map enc_string enc_string"

abbreviation read_str_map :: "nat \<Rightarrow> str_map \<Rightarrow> byte \<Rightarrow> bool \<Rightarrow> (istream, str_map) act" where
  "read_str_map \<equiv> read_map read_string [] read_string []"

definition req_writeTo :: "RequestPacket \<Rightarrow> (ostream, unit) act" where
  "req_writeTo p =
     andthen (write_Short (req_iVersion p) 1) (\<lambda>_.
     andthen (write_Char (req_cPacketType p) 2) (\<lambda>_.
     andthen (write_Int32 (req_iMessageType p) 3) (\<lambda>_.
     andthen (write_Int32 (req_iRequestId p) 4) (\<lambda>_.
     andthen (write_string (req_sServantName p) 5) (\<lambda>_.
     andthen (write_string (req_sFuncName p) 6) (\<lambda>_.
     andthen (write_vector_char (req_sBuffer p) 7) (\<lambda>_.
     andthen (write_Int32 (req_iTimeout p) 8) (\<lambda>_.
     andthen (write_str_map (req_context p) 9) (\<lambda>_.
       write_str_map (req_status p) 10)))))))))"

definition req_readFrom :: "nat \<Rightarrow> RequestPacket \<Rightarrow> (istream, RequestPacket) act" where
  "req_readFrom n p0 =
     (let p = req_resetDefautlt p0 in
      andthen (read_Short n (req_iVersion p) 1 True) (\<lambda>v1.
      andthen (read_Char n (req_cPacketType p) 2 True) (\<lambda>v2.
      andthen (read_Int32 n (req_iMessageType p) 3 True) (\<lambda>v3.
      andthen (read_Int32 n (req_iRequestId p) 4 True) (\<lambda>v4.
      andthen (read_string n (req_sServantName p) 5 True) (\<lambda>v5.
      andthen (read_string n (req_sFuncName p) 6 True) (\<lambda>v6.
      andthen (read_vector_char n (req_sBuffer p) 7 True) (\<lambda>v7.
      andthen (read_Int32 n (req_iTimeout p) 8 True) (\<lambda>v8.
      andthen (read_str_map n (req_context p) 9 True) (\<lambda>v9.
      andthen (read_str_map n (req_status p) 10 True) (\<lambda>v10.
        ret \<lparr>req_iVersion = v1, req_cPacketType = v2, req_iMessageType = v3,
              req_iRequestId = v4, req_sServantName = v5, req_sFuncName = v6,
              req_sBuffer = v7, req_iTimeout = v8, req_context = v9, req_status = v10\<rparr>)))))))))))"

text \<open>The fields of the body, in the order they are written.\<close>

definition req_fields :: "RequestPacket \<Rightarrow> bytes list" where
  "req_fields p =
     [enc_Short (req_iVersion p) 1, enc_Char (req_cPacketType p) 2,
      enc_Int32 (req_iMessageType p) 3, enc_Int32 (req_iRequestId p) 4,
      enc_string (req_sServantName p) 5, enc_string (req_sFuncName p) 6,
      enc_vector_char (req_sBuffer p) 7, enc_Int32 (req_iTimeout p) 8,
      enc_str_map (req_context p) 9, enc_str_map (req_status p) 10]"

definition req_body :: "RequestPacket \<Rightarrow> bytes" where
  "req_body p = concat (req_fields p)"

text \<open>What the format can carry: strings up to the limit, ascending maps.\<close>

definition str_ok :: "bytes \<Rightarrow> bool" where
  "str_ok v \<longleftrightarrow> length v \<le> TARS_MAX_STRING_LENGTH"

abbreviation str_map_ok :: "str_map \<Rightarrow> bool" where
  "str_map_ok \<equiv> map_ok str_ok str_ok"

definition req_ok :: "RequestPacket \<Rightarrow> bool" where
  "req_ok p \<longleftrightarrow> str_ok (req_sServantName p) \<and> str_ok (req_sFuncName p) \<and>
     length (req_sBuffer p) < 2 ^ 31 \<and> str_map_ok (req_context p) \<and> str_map_ok (req_status p)"

definition str_map_need :: "str_map \<Rightarrow> nat" where
  "str_map_need = (\<lambda>m. 5 + sum_list (map (pair_need (\<lambda>_. 1) (\<lambda>_. 1)) m))"

definition req_needs :: "RequestPacket \<Rightarrow> nat list" where
  "req_needs p = [1, 1, 1, 1, 1, 1, 4, 1, str_map_need (req_context p), str_map_need (req_status p)]"

definition req_need :: "RequestPacket \<Rightarrow> nat" where
  "req_need p = Suc (Suc (sum_list (map Suc (req_needs p))))"

text \<open>The map overload with string keys and values, as one codec.\<close>

interpretation str_map: tars_codec "write_str_map" "enc_str_map" "read_str_map" str_map_ok
  str_map_need "max 3 3"
  unfolding str_ok_def str_map_need_def by (rule str_str.map_codec)

lemmas packet_writers = appends_andthen appends_Short appends_Char appends_Int32
  appends_string appends_vector_char str_map.wr_enc

lemma packet_fields:
  "\<exists>t. is_field t (Suc 0) (enc_Short h tag)" "\<exists>t. is_field t (Suc 0) (enc_Char c tag)"
  "\<exists>t. is_field t (Suc 0) (enc_Int32 w tag)"
  "str_ok str \<Longrightarrow> \<exists>t. is_field t (Suc 0) (enc_string str tag)"
  "length v < 2 ^ 31 \<Longrightarrow> \<exists>t. is_field t 4 (enc_vector_char v tag)"
  "str_map_ok m \<Longrightarrow> \<exists>t. is_field t (str_map_need m) (enc_str_map m tag)"
  unfolding str_ok_def by (blast intro: scalar_field enc_vector_char_field str_map.enc_field [unfolded str_ok_def])+

lemma req_writeTo_enc: "req_ok p \<Longrightarrow> appends (req_writeTo p) (req_body p)"
  unfolding req_writeTo_def req_body_def req_fields_def
  by (auto simp: req_ok_def str_ok_def intro!: packet_writers)

lemmas packet_readers =
  reads_andthen [OF short.rd_enc _ refl] reads_andthen [OF char.rd_enc _ refl]
  reads_andthen [OF int32.rd_enc _ refl] reads_andthen [OF str.rd_enc _ refl]
  reads_andthen [OF blob.rd_enc _ refl] reads_andthen [OF str_map.rd_enc _ refl] reads_ret

lemma req_readFrom_enc:
  assumes "req_ok p" and "3 \<le> n"
  shows "reads (req_readFrom n d) (req_body p) p"
  using assms
  unfolding req_readFrom_def req_body_def req_fields_def Let_def concat.simps
  by (cases p, simp only: RequestPacket.simps)
    (intro packet_readers; simp add: req_ok_def str_ok_def)

lemma req_fields_ok:
  "req_ok p \<Longrightarrow> list_all2 (\<lambda>k bs. \<exists>tag. is_field tag k bs) (req_needs p) (req_fields p)"
  unfolding req_needs_def req_fields_def by (auto simp: req_ok_def packet_fields)

interpretation req: tars_body req_writeTo req_body req_readFrom req_ok "\<lambda>_. True" req_need 3
proof
  fix v n assume "req_ok v" and "req_need v \<le> n"
  then show "reads (skipToStructEnd n) (req_body v @ enc_head TarsHeadeStructEnd 0) ()"
    unfolding req_body_def
    by (intro reads_skipToStructEnd [OF req_fields_ok]) (auto simp: req_need_def)
qed (auto intro: req_writeTo_enc reads_weaken [OF req_readFrom_enc])

interpretation req_total: tars_body_total req_writeTo req_body req_readFrom req_ok "\<lambda>_. True"
  req_need 3
  by unfold_locales simp

section \<open>ResponsePacket\<close>

record ResponsePacket =
  rsp_iVersion :: tShort
  rsp_cPacketType :: tChar
  rsp_iRequestId :: tInt32
  rsp_iMessageType :: tInt32
  rsp_iRet :: tInt32
  rsp_sBuffer :: bytes
  rsp_status :: str_map
  rsp_sResultDesc :: bytes
  rsp_context :: str_map

definition ResponsePacket_init :: ResponsePacket where
  "ResponsePacket_init =
     \<lparr>rsp_iVersion = 0, rsp_cPacketType = 0, rsp_iRequestId = 0, rsp_iMessageType = 0,
      rsp_iRet = 0, rsp_sBuffer = [], rsp_status = [], rsp_sResultDesc = [], rsp_context = []\<rparr>"

definition rsp_resetDefautlt :: "ResponsePacket \<Rightarrow> ResponsePacket" where
  "rsp_resetDefautlt p =
     p\<lparr>rsp_iVersion := 0, rsp_cPacketType := 0, rsp_iRequestId := 0, rsp_iMessageType := 0,
       rsp_iRet := 0, rsp_sResultDesc := []\<rparr>"

definition rsp_writeTo :: "ResponsePacket \<Rightarrow> (ostream, unit) act" where
  "rsp_writeTo p =
     andthen (write_Short (rsp_iVersion p) 1) (\<lambda>_.
     andthen (write_Char (rsp_cPacketType p) 2) (\<lambda>_.
     andthen (write_Int32 (rsp_iRequestId p) 3) (\<lambda>_.
     andthen (write_Int32 (rsp_iMessageType p) 4) (\<lambda>_.
     andthen (write_Int32 (rsp_iRet p) 5) (\<lambda>_.
     andthen (write_vector_char (rsp_sBuffer p) 6) (\<lambda>_.
     andthen (write_str_map (rsp_status p) 7) (\<lambda>_.
     andthen (if rsp_sResultDesc p \<noteq> [] then write_string (rsp_sResultDesc p) 8 else ret ()) (\<lambda>_.
       if 0 < length (rsp_context p) then write_str_map (rsp_context p) 9 else ret ()))))))))"

definition rsp_readFrom :: "nat \<Rightarrow> ResponsePacket \<Rightarrow> (istream, ResponsePacket) act" where
  "rsp_readFrom n p0 =
     (let p = rsp_resetDefautlt p0 in
      andthen (read_Short n (rsp_iVersion p) 1 True) (\<lambda>v1.
      andthen (read_Char n (rsp_cPacketType p) 2 True) (\<lambda>v2.
      andthen (read_Int32 n (rsp_iRequestId p) 3 True) (\<lambda>v3.
      andthen (read_Int32 n (rsp_iMessageType p) 4 True) (\<lambda>v4.
      andthen (read_Int32 n (rsp_iRet p) 5 True) (\<lambda>v5.
      andthen (read_vector_char n (rsp_sBuffer p) 6 True) (\<lambda>v6.
      andthen (read_str_map n (rsp_status p) 7 True) (\<lambda>v7.
      andthen (read_string n (rsp_sResultDesc p) 8 False) (\<lambda>v8.
      andthen (read_str_map n (rsp_context p) 9 False) (\<lambda>v9.
        ret \<lparr>rsp_iVersion = v1, rsp_cPacketType = v2, rsp_iRequestId = v3,
              rsp_iMessageType = v4, rsp_iRet = v5, rsp_sBuffer = v6, rsp_status = v7,
              rsp_sResultDesc = v8, rsp_context = v9\<rparr>))))))))))"

definition rsp_fields :: "ResponsePacket \<Rightarrow> bytes list" where
  "rsp_fields p =
     [enc_Short (rsp_iVersion p) 1, enc_Char (rsp_cPacketType p) 2,
      enc_Int32 (rsp_iRequestId p) 3, enc_Int32 (rsp_iMessageType p) 4,
      enc_Int32 (rsp_iRet p) 5, enc_vector_char (rsp_sBuffer p) 6,
      enc_str_map (rsp_status p) 7] @
     (if rsp_sResultDesc p \<noteq> [] then [enc_string (rsp_sResultDesc p) 8] else []) @
     (if 0 < length (rsp_context p) then [enc_str_map (rsp_context p) 9] else [])"

definition rsp_body :: "ResponsePacket \<Rightarrow> bytes" where
  "rsp_body p = concat (rsp_fields p)"

definition rsp_ok :: "ResponsePacket \<Rightarrow> bool" where
  "rsp_ok p \<longleftrightarrow> length (rsp_sBuffer p) < 2 ^ 31 \<and> str_map_ok (rsp_status p) \<and>
     str_ok (rsp_sResultDesc p) \<and> str_map_ok (rsp_context p)"

definition rsp_needs :: "ResponsePacket \<Rightarrow> nat list" where
  "rsp_needs p = [1, 1, 1, 1, 1, 4, str_map_need (rsp_status p)] @
     (if rsp_sResultDesc p \<noteq> [] then [1] else []) @
     (if 0 < length (rsp_context p) then [str_map_need (rsp_context p)] else [])"

definition rsp_need :: "ResponsePacket \<Rightarrow> nat" where
  "rsp_need p = Suc (Suc (sum_list (map Suc (rsp_needs p))))"

lemma rsp_writeTo_enc: "rsp_ok p \<Longrightarrow> appends (rsp_writeTo p) (rsp_body p)"
  unfolding rsp_writeTo_def rsp_body_def rsp_fields_def
  by (auto simp: rsp_ok_def str_ok_def andthen_ret_right andthen_ret intro!: packet_writers)

text \<open>The optional tail: description and context, each there or absent.\<close>

lemma rsp_desc:
  assumes "str_ok desc" and "3 \<le> n"
  shows "reads_if (absent 8) (read_string n [] 8 False)
    (if desc \<noteq> [] then enc_string desc 8 else []) desc"
  using assms str.rd_none [of n 8 "[]"] reads_weaken [OF str.rd_enc]
  by (auto simp: str_ok_def)

lemma rsp_ctx:
  assumes "str_map_ok ctx" and "3 \<le> n"
  shows "reads_if (absent 9) (read_str_map n [] 9 False)
    (if ctx \<noteq> [] then enc_str_map ctx 9 else []) ctx"
  using assms str_map.rd_none [of n 9 "[]"] reads_weaken [OF str_map.rd_enc]
  by auto

lemma absent_head: "ty < 16 \<Longrightarrow> tag < tg \<Longrightarrow> absent tag (enc_head ty tg @ r)"
  unfolding absent_def by blast

lemma ctx_absent:
  "ended r \<Longrightarrow> absent 8 ((if ctx \<noteq> [] then enc_str_map ctx 9 else []) @ r)"
  using ended_absent [of r 8] absent_head [of TarsHeadeMap 8 9] by (auto simp: enc_map_def)

lemma rsp_tail:
  assumes "str_ok desc" and "str_map_ok ctx" and "3 \<le> n"
  shows "reads_if ended
     (andthen (read_string n [] 8 False) (\<lambda>v8.
        andthen (read_str_map n [] 9 False) (\<lambda>v9. ret (f v8 v9))))
     ((if desc \<noteq> [] then enc_string desc 8 else []) @ (if ctx \<noteq> [] then enc_str_map ctx 9 else []))
     (f desc ctx)"
proof (rule reads_if_andthen [OF rsp_desc [OF assms(1,3)] _ refl])
  show "reads_if ended (andthen (read_str_map n [] 9 False) (\<lambda>v9. ret (f desc v9)))
     (if ctx \<noteq> [] then enc_str_map ctx 9 else []) (f desc ctx)"
    by (rule reads_if_andthen [OF rsp_ctx [OF assms(2,3)] reads_ret]) (auto intro: ended_absent)
qed (rule ctx_absent)

lemma rsp_body_eq:
  "rsp_body p =
     enc_Short (rsp_iVersion p) 1 @ enc_Char (rsp_cPacketType p) 2 @
     enc_Int32 (rsp_iRequestId p) 3 @ enc_Int32 (rsp_iMessageType p) 4 @
     enc_Int32 (rsp_iRet p) 5 @ enc_vector_char (rsp_sBuffer p) 6 @
     enc_str_map (rsp_status p) 7 @
     (if rsp_sResultDesc p \<noteq> [] then enc_string (rsp_sResultDesc p) 8 else []) @
     (if rsp_context p \<noteq> [] then enc_str_map (rsp_context p) 9 else [])"
  by (simp add: rsp_body_def rsp_fields_def)

lemma rsp_reset [simp]:
  "rsp_sResultDesc (rsp_resetDefautlt d) = []"
  "rsp_context (rsp_resetDefautlt d) = rsp_context d"
  by (simp_all add: rsp_resetDefautlt_def)

lemma rsp_readFrom_enc:
  assumes "rsp_ok p" and "rsp_context d = []" and "3 \<le> n"
  shows "reads_if ended (rsp_readFrom n d) (rsp_body p) p"
  using assms(1,3)
  unfolding rsp_readFrom_def rsp_body_eq Let_def rsp_reset assms(2)
  by (cases p, simp only: ResponsePacket.simps)
    (intro packet_readers rsp_tail; simp add: rsp_ok_def str_ok_def)

lemma rsp_fields_ok:
  "rsp_ok p \<Longrightarrow> list_all2 (\<lambda>k bs. \<exists>tag. is_field tag k bs) (rsp_needs p) (rsp_fields p)"
  unfolding rsp_needs_def rsp_fields_def by (auto simp: rsp_ok_def packet_fields)

interpretation rsp: tars_body rsp_writeTo rsp_body rsp_readFrom rsp_ok
  "\<lambda>d. rsp_context d = []" rsp_need 3
proof
  fix v n assume "rsp_ok v" and "rsp_need v \<le> n"
  then show "reads (skipToStructEnd n) (rsp_body v @ enc_head TarsHeadeStructEnd 0) ()"
    unfolding rsp_body_def
    by (intro reads_skipToStructEnd [OF rsp_fields_ok]) (auto simp: rsp_need_def)
qed (auto intro: rsp_writeTo_enc rsp_readFrom_enc)

end
