(* ===== verification/App_Protocol.thy ===== *)
theory App_Protocol
  imports Request_Packet
begin

text \<open>
  Packet framing of \<^verbatim>\<open>src/tup/AppProtocal.h\<close> and \<^verbatim>\<open>src/tup/AppProtocal.cpp\<close>: the server's
  \<open>parse\<close> functions, which cut one packet off the receive buffer, and the client's request and
  response functions. A received buffer is a list of bytes that may be longer than the length
  passed beside it; reading past the list is a \<open>Fault\<close>. The length checks of the response
  functions have their \<open>throw\<close> commented out, so they are not branches here.
\<close>

section \<open>net2host\<close>

text \<open>By \<open>sizeof(T)\<close>; for 8 bytes there is no case and the result is 0.\<close>

definition net2host :: "'a::len word \<Rightarrow> 'a word" where
  "net2host x =
     (if LENGTH('a) = 8 then x
      else if LENGTH('a) = 16 then ucast (htons (ucast x))
      else if LENGTH('a) = 32 then ucast (htonl (ucast x))
      else 0)"

section \<open>AppProtocol\<close>

text \<open>The result is \<open>(return value, in, out)\<close>.\<close>

definition parseLen :: "tInt32 \<Rightarrow> bytes \<Rightarrow> bytes \<Rightarrow> int \<times> bytes \<times> bytes" where
  "parseLen iMaxLength inb out =
     (if length inb < 4 then (0, inb, out)
      else
        let iHeaderLen = htonl (load_le (take 4 inb)) :: tInt32 in
        if sint iHeaderLen < 4 \<or> sint iMaxLength < sint iHeaderLen then (- 1, inb, out)
        else if sint (word_of_nat (length inb) :: tInt32) < sint iHeaderLen then (0, inb, out)
        else (1, drop (nat (sint iHeaderLen)) inb,
                 take (nat (sint iHeaderLen) - 4) (drop 4 inb)))"

definition parse :: "bytes \<Rightarrow> bytes \<Rightarrow> int \<times> bytes \<times> bytes" where
  "parse inb out = parseLen 10000000 inb out"

definition parseAdmin :: "bytes \<Rightarrow> bytes \<Rightarrow> int \<times> bytes \<times> bytes" where
  "parseAdmin inb out = parse inb out"

text \<open>
  \<open>parseStream<offset, T, netorder>\<close> for an unsigned \<open>T\<close>. \<open>T\<close>'s width is the type parameter
  of \<open>ty\<close>. \<open>substr\<close> past the end throws \<open>std::out_of_range\<close>.
\<close>

definition parseStream ::
  "'a::len itself \<Rightarrow> nat \<Rightarrow> bool \<Rightarrow> bytes \<Rightarrow> bytes \<Rightarrow> (int \<times> bytes \<times> bytes) outcome" where
  "parseStream ty offset netorder inb out =
     (let sz = LENGTH('a) div 8 in
      if length inb < size_add offset sz then Ok (0, inb, out)
      else
        let raw = load_le (take sz (drop offset inb)) :: 'a word;
            iHeaderLen = (if netorder then net2host raw else raw);
            len32 = unat (ucast iHeaderLen :: tUInt32)
        in
        if iHeaderLen < word_of_nat (size_add offset sz) \<or> 100000000 < len32
        then Ok (- 1, inb, out)
        else if length inb < len32 then Ok (0, inb, out)
        else if length inb < unat iHeaderLen then Throw RuntimeError
        else Ok (1, drop (unat iHeaderLen) inb, take (unat iHeaderLen) inb))"

section \<open>ProxyProtocol: requests\<close>

definition streamRequest :: "RequestPacket \<Rightarrow> bytes" where
  "streamRequest request = req_sBuffer request"

definition tarsRequest :: "RequestPacket \<Rightarrow> bytes outcome" where
  "tarsRequest request =
     (case req_writeTo request BufferWriter_init of
        (Ok _, os) \<Rightarrow>
          Ok (store_le 4 (htonl (word_of_nat (size_add 4 (getLength os)))) @ getByteBuffer os)
      | (Throw e, _) \<Rightarrow> Throw e
      | (Abort, _) \<Rightarrow> Abort
      | (Fault, _) \<Rightarrow> Fault
      | (OutOfFuel, _) \<Rightarrow> OutOfFuel)"

section \<open>ProxyProtocol: responses\<close>

text \<open>
  The state of the response loops is the list \<open>done\<close>; a throw leaves what was pushed before.
  \<open>on_stream m is\<close> runs a reader on a local input stream.
\<close>

definition on_stream :: "(istream, 'a) act \<Rightarrow> istream \<Rightarrow> (ResponsePacket list, 'a) act" where
  "on_stream m is d = (fst (m is), d)"

definition push_back_rsp :: "ResponsePacket \<Rightarrow> (ResponsePacket list, unit) act" where
  "push_back_rsp rsp d = (Ok (), d @ [rsp])"

definition uint32_at :: "bytes \<Rightarrow> nat \<Rightarrow> (ResponsePacket list, tUInt32) act" where
  "uint32_at m pos d =
     (case mem_read m pos 4 of None \<Rightarrow> (Fault, d) | Some bs \<Rightarrow> (Ok (htonl (load_le bs)), d))"

text \<open>The look at the first fields of an incomplete packet.\<close>

definition tarsResponse_head :: "nat \<Rightarrow> (istream, unit) act" where
  "tarsResponse_head n =
     andthen (read_Short n 0 1 False) (\<lambda>iVersion.
     andthen (read_Char n 0 2 False) (\<lambda>cPacketType.
     andthen (read_Int32 n 0 3 False) (\<lambda>iRequestId.
     andthen (read_Int32 n 0 4 False) (\<lambda>iMessageType.
     andthen (read_Int32 n 0 5 False) (\<lambda>iRet. ret ())))))"

fun tarsResponseLen :: "nat \<Rightarrow> nat \<Rightarrow> bytes \<Rightarrow> nat \<Rightarrow> nat \<Rightarrow> (ResponsePacket list, nat) act" where
  "tarsResponseLen n 0 recvBuffer len0 pos = diverge"
| "tarsResponseLen n (Suc k) recvBuffer len0 pos =
     (if \<not> pos < len0 then ret pos
      else let len = word_of_nat (len0 - pos) :: tUInt32 in
        if unat len < 4 then ret pos
        else andthen (uint32_at recvBuffer pos) (\<lambda>iHeaderLen.
          if len < iHeaderLen then
            if 20 \<le> unat len then
              andthen (on_stream (tarsResponse_head n)
                  (setBuffer (drop (pos + 4) recvBuffer) 20 BufferReader_init))
                (\<lambda>_. ret pos)
            else ret pos
          else
            andthen (on_stream (rsp_readFrom n ResponsePacket_init)
                (setBuffer (drop (pos + 4) recvBuffer) (size_sub (unat iHeaderLen) 4)
                   BufferReader_init)) (\<lambda>rsp.
              andthen (push_back_rsp rsp) (\<lambda>_.
                tarsResponseLen n k recvBuffer len0 (size_add pos (unat iHeaderLen))))))"

definition tarsResponse :: "nat \<Rightarrow> nat \<Rightarrow> bytes \<Rightarrow> nat \<Rightarrow> (ResponsePacket list, nat) act" where
  "tarsResponse n k recvBuffer len0 = tarsResponseLen n k recvBuffer len0 0"

definition tupResponse_head :: "nat \<Rightarrow> (istream, unit) act" where
  "tupResponse_head n =
     andthen (read_Short n 0 1 True) (\<lambda>iVersion.
     andthen (read_Char n 0 2 True) (\<lambda>cPacketType.
     andthen (read_Int32 n 0 3 True) (\<lambda>iMessageType.
     andthen (read_Int32 n 0 4 True) (\<lambda>iRequestId. ret ()))))"

definition rsp_of_tup :: "RequestPacket \<Rightarrow> bytes \<Rightarrow> ResponsePacket" where
  "rsp_of_tup req buffer =
     ResponsePacket_init\<lparr>rsp_cPacketType := req_cPacketType req,
       rsp_iMessageType := req_iMessageType req, rsp_iRequestId := req_iRequestId req,
       rsp_iVersion := req_iVersion req, rsp_context := req_context req, rsp_sBuffer := buffer\<rparr>"

fun tupResponseLen :: "nat \<Rightarrow> nat \<Rightarrow> bytes \<Rightarrow> nat \<Rightarrow> nat \<Rightarrow> (ResponsePacket list, nat) act" where
  "tupResponseLen n 0 recvBuffer len0 pos = diverge"
| "tupResponseLen n (Suc k) recvBuffer len0 pos =
     (if \<not> pos < len0 then ret pos
      else let len = word_of_nat (len0 - pos) :: tUInt32 in
        if unat len < 4 then ret pos
        else andthen (uint32_at recvBuffer pos) (\<lambda>iHeaderLen.
          if len < iHeaderLen then
            if 20 \<le> unat len then
              andthen (on_stream (tupResponse_head n)
                  (setBuffer (drop (pos + 4) recvBuffer) 20 BufferReader_init))
                (\<lambda>_. ret pos)
            else ret pos
          else case mem_read recvBuffer pos (unat iHeaderLen) of
            None \<Rightarrow> fault
          | Some buffer \<Rightarrow>
              andthen (on_stream (req_readFrom n RequestPacket_init)
                  (setBuffer (drop 4 buffer) (size_sub (length buffer) 4) BufferReader_init)) (\<lambda>req.
                andthen (push_back_rsp (rsp_of_tup req buffer)) (\<lambda>_.
                  tupResponseLen n k recvBuffer len0 (size_add pos (unat iHeaderLen))))))"

definition tupResponse :: "nat \<Rightarrow> nat \<Rightarrow> bytes \<Rightarrow> nat \<Rightarrow> (ResponsePacket list, nat) act" where
  "tupResponse n k recvBuffer len0 = tupResponseLen n k recvBuffer len0 0"

text \<open>
  \<open>streamResponse<offset, T, netorder, idOffset, K, idNetorder>\<close>, unsigned \<open>T\<close> and \<open>K\<close>: the
  whole packet goes into \<open>sBuffer\<close>, the request id is cut out of it.
\<close>

fun streamResponse ::
  "'t::len itself \<Rightarrow> 'k::len itself \<Rightarrow> nat \<Rightarrow> bool \<Rightarrow> nat \<Rightarrow> bool \<Rightarrow>
     nat \<Rightarrow> bytes \<Rightarrow> nat \<Rightarrow> nat \<Rightarrow> (ResponsePacket list, nat) act" where
  "streamResponse t k offset netorder idOffset idNetorder 0 recvBuffer len0 pos = diverge"
| "streamResponse t k offset netorder idOffset idNetorder (Suc m) recvBuffer len0 pos =
     (if \<not> pos < len0 then ret pos
      else let len = word_of_nat (len0 - pos) :: tUInt32 in
        if unat len < size_add offset (LENGTH('t) div 8) then ret pos
        else case mem_read recvBuffer (pos + offset) (LENGTH('t) div 8) of
          None \<Rightarrow> fault
        | Some bs \<Rightarrow>
            let raw = load_le bs :: 't word;
                iHeaderLen = (if netorder then net2host raw else raw)
            in
            if unat len < unat iHeaderLen then ret pos
            else case (mem_read recvBuffer pos (unat iHeaderLen),
                       mem_read recvBuffer (pos + idOffset) (LENGTH('k) div 8)) of
              (Some body, Some idb) \<Rightarrow>
                let rawId = load_le idb :: 'k word;
                    requestId = (if idNetorder then net2host rawId else rawId)
                in andthen (push_back_rsp (ResponsePacket_init\<lparr>rsp_sBuffer := body,
                               rsp_iRequestId := ucast requestId\<rparr>)) (\<lambda>_.
                     streamResponse t k offset netorder idOffset idNetorder m recvBuffer len0
                       (size_add pos (unat iHeaderLen)))
            | _ \<Rightarrow> fault)"

declare tarsResponseLen.simps(2) [simp del] tupResponseLen.simps(2) [simp del]
  streamResponse.simps(2) [simp del]

section \<open>Frames\<close>

text \<open>A packet on the wire: four bytes of length, which count themselves, and the body.\<close>

definition frame :: "bytes \<Rightarrow> bytes" where
  "frame body = be 4 (word_of_nat (4 + length body) :: tInt32) @ body"

lemma length_frame [simp]: "length (frame body) = 4 + length body"
  by (simp add: frame_def)

lemma drop_frame: "drop 4 (frame body @ r) = body @ r"
  by (simp add: frame_def)

lemma frame_header:
  "4 \<le> k \<Longrightarrow> htonl (load_le (take 4 (take k (frame body @ r)))) = word_of_nat (4 + length body)"
  "htonl (load_le (take 4 (frame body @ r))) = word_of_nat (4 + length body)"
  by (simp_all add: frame_def htonl_load_be min_def)

lemma sint_word_le: "sint (word_of_nat k :: 'a::len word) \<le> int k"
proof -
  have "sint w \<le> uint w" for w :: "'a word"
    using take_bit_int_eq_self [of "uint w" "LENGTH('a)"]
    by (simp add: sint_uint signed_take_bit_eq_take_bit_minus uint_bounded)
  then have "sint (word_of_nat k :: 'a word) \<le> uint (word_of_nat k :: 'a word)" .
  also have "\<dots> \<le> int k"
    by (simp add: unsigned_of_nat)
  finally show ?thesis .
qed

lemma parse_cases:
  assumes "parseLen m inb out = (r, inb', out')"
  obtains (wait) "r = 0" "inb' = inb" "out' = out"
    | (bad) "r = - 1" "inb' = inb" "out' = out"
    | (packet) "r = 1" "inb = take 4 inb @ out' @ inb'" "4 + length out' \<le> nat (sint m)"
        "4 + length out' = nat (sint (htonl (load_le (take 4 inb)) :: tInt32))"
proof (cases "r = 1")
  case False
  with assms that(1,2) show thesis
    by (auto simp: parseLen_def Let_def split: if_splits)
next
  case True
  let ?h = "htonl (load_le (take 4 inb)) :: tInt32"
  from assms True have h: "4 \<le> length inb" "4 \<le> sint ?h" "sint ?h \<le> sint m"
    "sint ?h \<le> sint (word_of_nat (length inb) :: tInt32)"
    "inb' = drop (nat (sint ?h)) inb" "out' = take (nat (sint ?h) - 4) (drop 4 inb)"
    by (auto simp: parseLen_def Let_def split: if_splits)
  then have le: "nat (sint ?h) \<le> length inb"
    using sint_word_le [where 'a = 32, of "length inb"] by linarith
  obtain j where j: "nat (sint ?h) = 4 + j"
    using h(2) le_Suc_ex [of 4 "nat (sint ?h)"] by (auto simp: le_nat_iff)
  have "take j (drop 4 inb) @ drop (4 + j) inb = drop 4 inb"
    using append_take_drop_id [of j "drop 4 inb"] by (simp add: add.commute)
  then have "inb = take 4 inb @ out' @ inb'"
    by (simp add: h(5,6) j)
  moreover have "4 + length out' = nat (sint ?h)"
    using le h(2) by (simp add: h(6))
  moreover have "nat (sint ?h) \<le> nat (sint m)" using h(3) by simp
  ultimately show thesis using that(3) True by simp
qed

lemma parse_frame_Ok:
  assumes "4 + length body \<le> 10000000" and "length (frame body @ r) < 2 ^ 31"
  shows "parse (frame body @ r) out = (1, r, body)"
proof -
  have hdr: "sint (word_of_nat (4 + length body) :: tInt32) = int (4 + length body)"
    using assms(1) by (intro sint_word_of_nat_small) simp
  have len: "sint (word_of_nat (length (frame body @ r)) :: tInt32) = int (length (frame body @ r))"
    using assms(2) by (intro sint_word_of_nat_small) simp
  show ?thesis
    unfolding parse_def parseLen_def Let_def frame_header(2) hdr len
    using assms(1) by (simp add: drop_frame nat_add_distrib) (simp add: frame_def)
qed

lemma parse_frame_wait:
  assumes "4 + length body \<le> 10000000" and "k < length (frame body)"
  shows "parse (take k (frame body)) out = (0, take k (frame body), out)"
proof (cases "k < 4")
  case True
  then show ?thesis by (simp add: parse_def parseLen_def)
next
  case False
  have hdr: "sint (word_of_nat (4 + length body) :: tInt32) = int (4 + length body)"
    using assms(1) by (intro sint_word_of_nat_small) simp
  have len: "sint (word_of_nat (length (take k (frame body))) :: tInt32) = int k"
    using assms by (subst sint_word_of_nat_small) auto
  have "htonl (load_le (take 4 (take k (frame body)))) = (word_of_nat (4 + length body) :: tInt32)"
    using frame_header(1) [of k body "[]"] False by (simp only: append_Nil2 not_less)
  then show ?thesis
    unfolding parse_def parseLen_def Let_def len
    using assms False by (simp only: hdr) simp
qed

lemma tarsRequest_frame:
  assumes "req_ok p" and "2 * length (req_body p) < size_max"
  shows "tarsRequest p = Ok (frame (req_body p))"
proof -
  from req.message_roundtrip [OF assms(1) TrueI order_refl assms(2)] obtain os where
    os: "req_writeTo p BufferWriter_init = (Ok (), os)" "getByteBuffer os = req_body p"
    by blast
  have "wf_os os"
    using appendsD [OF req.writeTo_enc [OF assms(1)] wf_os_init] assms(2) os(1)
    by (metis BufferWriter_init_def add_0 ostream.select_convs(2) prod.inject)
  then have "getLength os = length (req_body p)"
    using length_contents [of os] os(2) by (simp add: contents_def getLength_def)
  with os show ?thesis
    using assms(2) by (simp add: tarsRequest_def frame_def store_htonl)
qed

section \<open>The response loops\<close>

lemma tars_loop_end: "\<not> pos < len0 \<Longrightarrow> tarsResponseLen n (Suc k) m len0 pos d = (Ok pos, d)"
  by (simp add: tarsResponseLen.simps(2) act_simps)

lemma length_enc_Char: "tag < 15 \<Longrightarrow> length (enc_Char c tag) \<le> 2"
  by (simp add: enc_Char_def length_enc_head)

lemma length_enc_Short: "tag < 15 \<Longrightarrow> length (enc_Short c tag) \<le> 3"
  using length_enc_Char [of tag] by (simp add: enc_Short_def length_enc_head order_trans [of _ 2])

lemma length_enc_Int32: "tag < 15 \<Longrightarrow> length (enc_Int32 c tag) \<le> 5"
  using length_enc_Short [of tag] by (simp add: enc_Int32_def length_enc_head order_trans [of _ 3])

text \<open>The 20 bytes the loop looks at hold the first five fields of any response body.\<close>

lemma head_bytes:
  obtains rest where "rsp_body p =
      (enc_Short (rsp_iVersion p) 1 @ enc_Char (rsp_cPacketType p) 2 @
       enc_Int32 (rsp_iRequestId p) 3 @ enc_Int32 (rsp_iMessageType p) 4 @
       enc_Int32 (rsp_iRet p) 5) @ rest"
    and "length (enc_Short (rsp_iVersion p) 1 @ enc_Char (rsp_cPacketType p) 2 @
       enc_Int32 (rsp_iRequestId p) 3 @ enc_Int32 (rsp_iMessageType p) 4 @
       enc_Int32 (rsp_iRet p) 5) \<le> 20"
  using that length_enc_Short [of 1 "rsp_iVersion p"] length_enc_Char [of 2 "rsp_cPacketType p"]
    length_enc_Int32 [of 3 "rsp_iRequestId p"] length_enc_Int32 [of 4 "rsp_iMessageType p"]
    length_enc_Int32 [of 5 "rsp_iRet p"]
  by (simp add: rsp_body_eq)

lemma reads_head:
  assumes "3 \<le> n"
  shows "reads (tarsResponse_head n) (enc_Short h 1 @ enc_Char c 2 @ enc_Int32 i3 3 @
     enc_Int32 i4 4 @ enc_Int32 i5 5 @ []) ()"
  unfolding tarsResponse_head_def
  using assms by (intro packet_readers) auto

lemma tars_head_Ok:
  assumes "24 \<le> j" and "j < length (frame (rsp_body p))" and "3 \<le> n"
  shows "fst (tarsResponse_head n (setBuffer (drop 4 (take j (frame (rsp_body p)))) 20 s)) = Ok ()"
proof -
  obtain f rest where f: "rsp_body p = f @ rest" "length f \<le> 20" "reads (tarsResponse_head n) f ()"
    using head_bytes [of p] reads_head [OF assms(3)] by (metis append_Nil2)
  have "drop 4 (take j (frame (rsp_body p))) = take (j - 4) (rsp_body p)"
    using assms(1) by (simp add: frame_def min_def)
  also have "\<dots> = f @ take (j - 4 - length f) rest"
    using f assms(1) by simp
  finally have m: "drop 4 (take j (frame (rsp_body p))) = f @ take (j - 4 - length f) rest" .
  have "length (take (j - 4) (rsp_body p)) = j - 4" using assms by simp
  then have "length f + length (take (j - 4 - length f) rest) = j - 4"
    using f assms(1) by simp
  then obtain q where q: "q = take (j - 4 - length f) rest" "20 - length f \<le> length q"
    using assms(1) that [OF refl] by linarith
  have "stream_at (setBuffer (f @ q) 20 s) (f @ take (20 - length f) q)"
    using f(2) q(2) by (simp add: stream_at_def setBuffer_def)
  from reads_ifD [OF f(3) TrueI this] show ?thesis by (simp add: m q(1))
qed

text \<open>What may be left at the end: nothing, or the beginning of one more frame.\<close>

definition partial_frame :: "bytes \<Rightarrow> bool" where
  "partial_frame t \<longleftrightarrow>
     (\<exists>p j. rsp_ok p \<and> 4 + length (rsp_body p) < 2 ^ 32 \<and> j < length (frame (rsp_body p)) \<and>
        (j < 20 \<or> 24 \<le> j) \<and> t = take j (frame (rsp_body p)))"

lemma frame_uint32:
  assumes "4 \<le> j" and "4 + length body < 2 ^ 32"
  shows "uint32_at (pre @ take j (frame body) @ r) (length pre) d =
     (Ok (word_of_nat (4 + length body)), d)"
proof -
  have "mem_read (pre @ take j (frame body) @ r) (length pre) 4 =
      Some (take 4 (take j (frame body)))"
    using assms(1) by (simp add: mem_read_def)
  then show ?thesis
    using frame_header(1) [OF assms(1), of body "[]"] by (simp add: uint32_at_def)
qed

lemma tars_loop_partial:
  assumes "partial_frame t" and "length pre + length t < 2 ^ 32" and "3 \<le> n"
  shows "tarsResponseLen n (Suc k) (pre @ t) (length pre + length t) (length pre) d =
     (Ok (length pre), d)"
proof -
  from assms(1) obtain p j where p: "rsp_ok p" "4 + length (rsp_body p) < 2 ^ 32"
    "j < length (frame (rsp_body p))" "j < 20 \<or> 24 \<le> j" "t = take j (frame (rsp_body p))"
    by (auto simp: partial_frame_def)
  have t: "length t = j" using p by simp
  then have len: "unat (word_of_nat j :: tUInt32) = j"
    using assms(2) by (intro unat_word_of_nat_small) simp
  have hdr: "unat (word_of_nat (4 + length (rsp_body p)) :: tUInt32) = 4 + length (rsp_body p)"
    using p(2) by (intro unat_word_of_nat_small) simp
  show ?thesis
  proof (cases "j < 4")
    case True
    then show ?thesis by (simp add: tarsResponseLen.simps(2) t len act_simps)
  next
    case False
    then have u: "uint32_at (pre @ t) (length pre) d = (Ok (word_of_nat (4 + length (rsp_body p))), d)"
      using frame_uint32 [of j "rsp_body p" pre "[]" d] p by simp
    have lt: "(word_of_nat j :: tUInt32) < word_of_nat (4 + length (rsp_body p))"
      unfolding word_less_nat_alt len hdr using p(3) by simp
    have dr: "drop (length pre + 4) (pre @ t) = drop 4 t" by simp
    show ?thesis
    proof (cases "j < 20")
      case True
      then show ?thesis
        unfolding tarsResponseLen.simps(2) using False lt
        by (simp add: t len Let_def u andthen_Ok ret_apply del: of_nat_add)
    next
      case False
      then have "fst (tarsResponse_head n (setBuffer (drop 4 t) 20 BufferReader_init)) = Ok ()"
        using tars_head_Ok [of j p n] p assms(3) by simp
      then show ?thesis
        unfolding tarsResponseLen.simps(2) using False lt \<open>\<not> j < 4\<close>
        by (simp add: t len Let_def u andthen_Ok ret_apply on_stream_def andthen_def dr
            del: of_nat_add)
    qed
  qed
qed

text \<open>One whole frame at the cursor: one response, and on to the next.\<close>

lemma tars_loop_frame:
  assumes p: "rsp_ok p" "4 + length (rsp_body p) < 2 ^ 32" and n: "3 \<le> n"
    and m: "m = pre @ frame (rsp_body p) @ r" and len: "length m < 2 ^ 32"
  shows "tarsResponseLen n (Suc k) m (length m) (length pre) d =
     tarsResponseLen n k m (length m) (length pre + length (frame (rsp_body p))) (d @ [p])"
proof -
  let ?h = "word_of_nat (4 + length (rsp_body p)) :: tUInt32"
  have hdr: "unat ?h = 4 + length (rsp_body p)"
    using p(2) by (intro unat_word_of_nat_small) simp
  have rest: "length m - length pre = 4 + length (rsp_body p) + length r" by (simp add: m)
  have l: "unat (word_of_nat (length m - length pre) :: tUInt32) = length m - length pre"
    using len by (intro unat_word_of_nat_small) simp
  have lt: "\<not> (word_of_nat (length m - length pre) :: tUInt32) < ?h"
    unfolding word_less_nat_alt l hdr by (simp add: rest)
  have u: "uint32_at m (length pre) d = (Ok ?h, d)"
    using frame_uint32 [of "length (frame (rsp_body p))" "rsp_body p" pre r d] p(2)
    by (simp add: m)
  have dr: "drop (length pre + 4) m = rsp_body p @ r" by (simp add: m frame_def)
  let ?s = "setBuffer (rsp_body p @ r) (length (rsp_body p)) BufferReader_init"
  have "stream_at ?s (rsp_body p)"
    using p(2) by (intro stream_at_setBuffer) simp
  then have "rsp_readFrom n ResponsePacket_init ?s = (Ok p, adv (length (rsp_body p)) ?s)"
    using n p(1) by (intro rsp.readFrom_at) (auto simp: ResponsePacket_init_def)
  then have o: "on_stream (rsp_readFrom n ResponsePacket_init)
      (setBuffer (drop (length pre + 4) m) (size_sub (unat ?h) 4) BufferReader_init) d = (Ok p, d)"
    unfolding on_stream_def dr hdr using p(2) by simp
  have sz: "size_add (length pre) (unat ?h) = length pre + length (frame (rsp_body p))"
    unfolding hdr using len by (simp add: m)
  have b: "length pre < length m" "\<not> unat (word_of_nat (length m - length pre) :: tUInt32) < 4"
    unfolding l using rest by simp_all
  show ?thesis
    unfolding tarsResponseLen.simps(2) Let_def
    using lt b by (simp add: u o sz push_back_rsp_def andthen_Ok del: of_nat_add)
qed

lemma tars_loop_frames:
  assumes "\<forall>p \<in> set ps. rsp_ok p \<and> 4 + length (rsp_body p) < 2 ^ 32" and "3 \<le> n"
    and "m = pre @ concat (map (frame \<circ> rsp_body) ps) @ t" and "length m < 2 ^ 32"
    and "t = [] \<or> partial_frame t" and "length ps < k"
  shows "tarsResponseLen n k m (length m) (length pre) d = (Ok (length m - length t), d @ ps)"
  using assms
proof (induction ps arbitrary: pre k d)
  case Nil
  then obtain k' where "k = Suc k'" by (cases k) auto
  with Nil show ?case
    using tars_loop_partial [of t pre n k' d] tars_loop_end [of "length pre" "length pre"]
    by auto
next
  case (Cons p ps)
  then obtain k' where k: "k = Suc k'" "length ps < k'" by (cases k) auto
  have m: "m = pre @ frame (rsp_body p) @ concat (map (frame \<circ> rsp_body) ps) @ t"
    using Cons.prems(3) by (simp add: o_def)
  have step: "tarsResponseLen n k m (length m) (length pre) d =
      tarsResponseLen n k' m (length m) (length pre + length (frame (rsp_body p))) (d @ [p])"
    unfolding k using Cons.prems by (intro tars_loop_frame [OF _ _ _ m]) auto
  have "tarsResponseLen n k' m (length m) (length (pre @ frame (rsp_body p))) (d @ [p]) =
      (Ok (length m - length t), (d @ [p]) @ ps)"
    by (rule Cons.IH) (use Cons.prems k m in \<open>auto simp: o_def\<close>)
  with step show ?case by simp
qed

end
