(* ===== verification/Text_Numbers.thy ===== *)
theory Text_Numbers
  imports Tars_Prelude
begin

text \<open>
  Decimal numbers in text, as the C library and \<open>std::to_string\<close> read and write them.
\<close>

section \<open>Numbers in text\<close>

fun dec_digits :: "nat \<Rightarrow> bytes" where
  "dec_digits n =
     (if n < 10 then [word_of_nat (48 + n)] else dec_digits (n div 10) @ [word_of_nat (48 + n mod 10)])"

declare dec_digits.simps [simp del]

definition to_string :: "int \<Rightarrow> bytes" where
  "to_string i = (if i < 0 then 45 # dec_digits (nat (- i)) else dec_digits (nat i))"

definition is_space :: "byte \<Rightarrow> bool" where
  "is_space c \<longleftrightarrow> c = 32 \<or> (9 \<le> c \<and> c \<le> 13)"

definition is_digit :: "byte \<Rightarrow> bool" where
  "is_digit c \<longleftrightarrow> 48 \<le> c \<and> c \<le> 57"

definition dec_value :: "bytes \<Rightarrow> int" where
  "dec_value ds = foldl (\<lambda>v d. v * 10 + (uint d - 48)) 0 ds"

text \<open>Spaces, a sign, digits; whatever follows is not looked at.\<close>

definition number_value :: "bytes \<Rightarrow> int" where
  "number_value s =
     (let s1 = dropWhile is_space s;
          (neg, s2) = (case s1 of [] \<Rightarrow> (False, [])
            | c # r \<Rightarrow> if c = 45 then (True, r) else if c = 43 then (False, r) else (False, s1));
          v = dec_value (takeWhile is_digit s2)
      in if neg then - v else v)"

text \<open>\<open>atoi\<close>; a value outside \<open>int\<close> is undefined. \<open>atol\<close> and \<open>atoll\<close> likewise at 64 bits.\<close>

definition atoi :: "bytes \<Rightarrow> int option" where
  "atoi s = (let r = number_value s in if - 2147483648 \<le> r \<and> r < 2147483648 then Some r else None)"

definition atol :: "bytes \<Rightarrow> int option" where
  "atol s =
     (let r = number_value s in if - 9223372036854775808 \<le> r \<and> r < 9223372036854775808 then Some r else None)"

text \<open>\<open>strtoul\<close> at base ten: the largest number when it does not fit, a minus sign negates at 64 bits.\<close>

definition strtoul :: "bytes \<Rightarrow> int" where
  "strtoul s =
     (let r = number_value s in
      if \<bar>r\<bar> < 18446744073709551616 then r mod 18446744073709551616 else 18446744073709551615)"

section \<open>What is written is read back\<close>

lemma digit_uint: "d < 10 \<Longrightarrow> uint (word_of_nat (48 + d) :: byte) = 48 + int d"
  by (subst unsigned_of_nat) (simp add: take_bit_nat_eq_self)

lemma digit_is: "d < 10 \<Longrightarrow> is_digit (word_of_nat (48 + d))"
  using digit_uint [of d] by (simp add: is_digit_def word_le_def)

lemma dec_value_snoc: "dec_value (ds @ [d]) = dec_value ds * 10 + (uint d - 48)"
  by (simp add: dec_value_def)

lemma dec_digits_value: "dec_value (dec_digits n) = int n"
proof (induction n rule: dec_digits.induct)
  case (1 n)
  show ?case
  proof (cases "n < 10")
    case True
    then show ?thesis by (subst dec_digits.simps) (simp add: dec_value_def digit_uint del: of_nat_add)
  next
    case False
    then have "dec_value (dec_digits n) = int (n div 10) * 10 + int (n mod 10)"
      using 1 by (subst dec_digits.simps) (simp add: dec_value_snoc digit_uint del: of_nat_add)
    then show ?thesis by (simp add: zdiv_int zmod_int)
  qed
qed

lemma dec_digits_are: "\<forall>c \<in> set (dec_digits n). is_digit c"
proof (induction n rule: dec_digits.induct)
  case (1 n)
  then show ?case
    using digit_is [of n] digit_is [of "n mod 10"]
    by (cases "n < 10") (subst dec_digits.simps, simp del: of_nat_add)+
qed

lemma dec_digits_some: "dec_digits n \<noteq> []"
  by (subst dec_digits.simps) simp

lemma digit_plain: "is_digit c \<Longrightarrow> \<not> is_space c \<and> c \<noteq> 45 \<and> c \<noteq> 43 \<and> c \<noteq> 58"
  by (auto simp: is_digit_def is_space_def word_le_nat_alt word_unat_eq_iff)

lemma dec_digits_cons:
  obtains c cs where "dec_digits n = c # cs" and "is_digit c"
  using dec_digits_some [of n] dec_digits_are [of n] by (cases "dec_digits n") auto

lemma number_value_to_string: "number_value (to_string i) = i"
proof (cases "i < 0")
  case True
  have take: "takeWhile is_digit (dec_digits (nat (- i))) = dec_digits (nat (- i))"
    using dec_digits_are by (simp add: takeWhile_eq_all_conv)
  have "\<not> is_space 45" by (simp add: is_space_def word_le_def)
  then show ?thesis
    using True by (simp add: number_value_def to_string_def take dec_digits_value)
next
  case False
  have take: "takeWhile is_digit (dec_digits (nat i)) = dec_digits (nat i)"
    using dec_digits_are by (simp add: takeWhile_eq_all_conv)
  obtain c cs where c: "dec_digits (nat i) = c # cs" "is_digit c" by (rule dec_digits_cons)
  have cs: "takeWhile is_digit cs = cs" using take c by (simp add: takeWhile_eq_all_conv)
  show ?thesis
    using c False digit_plain [OF c(2)] dec_digits_value [of "nat i"]
    by (simp add: number_value_def to_string_def Let_def cs)
qed

lemma atoi_to_string: "- 2147483648 \<le> i \<Longrightarrow> i < 2147483648 \<Longrightarrow> atoi (to_string i) = Some i"
  by (simp add: atoi_def number_value_to_string)

lemma to_string_no_colon: "58 \<notin> set (to_string i)"
proof -
  have "58 \<notin> set (dec_digits n)" for n using dec_digits_are digit_plain by blast
  then show ?thesis by (simp add: to_string_def)
qed

end
