(* ===== verification/Tup_Packet.thy ===== *)
theory Tup_Packet
  imports App_Protocol Text_Numbers
begin

text \<open>
  \<^verbatim>\<open>src/tup/tup.h\<close>: the attribute map \<open>UniAttribute\<close> (values encoded one by one under a name),
  the packet \<open>UniPacket\<close> that carries it in the buffer of a \<open>RequestPacket\<close>, and the accessors
  of \<open>TarsUniPacket\<close>. The attribute operations are proved for every type that meets the
  contract \<open>tars_codec\<close>.
\<close>

section \<open>UniAttribute\<close>

type_synonym attr_map = "(bytes \<times> bytes) list"

record UniAttribute =
  ua_data :: attr_map
  ua_iVer :: tShort
  ua_is :: istream
  ua_os :: ostream

definition UniAttribute_init :: UniAttribute where
  "UniAttribute_init =
     \<lparr>ua_data = [], ua_iVer = 3, ua_is = BufferReader_init, ua_os = BufferWriter_init\<rparr>"

definition ua_setVersion :: "tShort \<Rightarrow> UniAttribute \<Rightarrow> UniAttribute" where
  "ua_setVersion iVer u = u\<lparr>ua_iVer := iVer\<rparr>"

text \<open>\<open>m[k] = v\<close> on an ascending map.\<close>

fun map_set :: "'k::linorder \<Rightarrow> 'v \<Rightarrow> ('k \<times> 'v) list \<Rightarrow> ('k \<times> 'v) list" where
  "map_set k v [] = [(k, v)]"
| "map_set k v ((k', v') # m) =
     (if k < k' then (k, v) # (k', v') # m
      else if k = k' then (k, v) # m
      else (k', v') # map_set k v m)"

definition on_os :: "(ostream, 'a) act \<Rightarrow> (UniAttribute, 'a) act" where
  "on_os m u = (let (r, os) = m (ua_os u) in (r, u\<lparr>ua_os := os\<rparr>))"

definition on_is :: "(istream, 'a) act \<Rightarrow> (UniAttribute, 'a) act" where
  "on_is m u = (let (r, is) = m (ua_is u) in (r, u\<lparr>ua_is := is\<rparr>))"

text \<open>\<open>os.reset()\<close>, a write, and the bytes that came of it.\<close>

definition ua_written :: "(ostream, unit) act \<Rightarrow> (UniAttribute, bytes) act" where
  "ua_written wr u =
     andthen (on_os wr) (\<lambda>_ u'. (Ok (getByteBuffer (ua_os u')), u'))
       (u\<lparr>ua_os := writer_reset (ua_os u)\<rparr>)"

definition ua_store :: "bytes \<Rightarrow> bytes \<Rightarrow> (UniAttribute, unit) act" where
  "ua_store name v u = (Ok (), u\<lparr>ua_data := map_set name v (ua_data u)\<rparr>)"

definition ua_put ::
  "('a \<Rightarrow> byte \<Rightarrow> (ostream, unit) act) \<Rightarrow> bytes \<Rightarrow> 'a \<Rightarrow> (UniAttribute, unit) act" where
  "ua_put wr name t = andthen (ua_written (wr t 0)) (\<lambda>v. ua_store name v)"

definition ua_putUnknown :: "bytes \<Rightarrow> bytes \<Rightarrow> (UniAttribute, unit) act" where
  "ua_putUnknown name value = andthen (ua_written (writeUnknownV2 value)) (\<lambda>v. ua_store name v)"

definition ua_getUnknown :: "bytes \<Rightarrow> (UniAttribute, bytes) act" where
  "ua_getUnknown name u =
     (case map_of (ua_data u) name of
        Some v \<Rightarrow> if 2 < length v then (Ok (take (length v - 2) (drop 1 v)), u)
                  else (Throw RuntimeError, u)
      | None \<Rightarrow> (Throw RuntimeError, u))"

definition ua_get ::
  "(nat \<Rightarrow> 'a \<Rightarrow> byte \<Rightarrow> bool \<Rightarrow> (istream, 'a) act) \<Rightarrow> nat \<Rightarrow> bytes \<Rightarrow> 'a \<Rightarrow> (UniAttribute, 'a) act"
where
  "ua_get rd n name t u =
     (case map_of (ua_data u) name of
        Some v \<Rightarrow> on_is (rd n t 0 True) (u\<lparr>ua_is := setBuffer_vector v (reader_reset (ua_is u))\<rparr>)
      | None \<Rightarrow> (Throw RuntimeError, u))"

text \<open>Every exception of the codec is a \<open>runtime_error\<close>.\<close>

definition ua_getByDefault ::
  "(nat \<Rightarrow> 'a \<Rightarrow> byte \<Rightarrow> bool \<Rightarrow> (istream, 'a) act) \<Rightarrow> nat \<Rightarrow> bytes \<Rightarrow> 'a \<Rightarrow> 'a \<Rightarrow> (UniAttribute, 'a) act"
where
  "ua_getByDefault rd n name t def u =
     (case ua_get rd n name t u of
        (Throw e, u') \<Rightarrow> (Ok def, u')
      | r \<Rightarrow> r)"

definition ua_clear :: "UniAttribute \<Rightarrow> UniAttribute" where
  "ua_clear u = u\<lparr>ua_data := []\<rparr>"

abbreviation write_attrs :: "attr_map \<Rightarrow> byte \<Rightarrow> (ostream, unit) act" where
  "write_attrs \<equiv> write_map write_string write_vector_char"

abbreviation enc_attrs :: "attr_map \<Rightarrow> byte \<Rightarrow> bytes" where
  "enc_attrs \<equiv> enc_map enc_string enc_vector_char"

abbreviation read_attrs :: "nat \<Rightarrow> attr_map \<Rightarrow> byte \<Rightarrow> bool \<Rightarrow> (istream, attr_map) act" where
  "read_attrs \<equiv> read_map read_string [] read_vector_char []"

definition ua_encode :: "(UniAttribute, bytes) act" where
  "ua_encode u = ua_written (write_attrs (ua_data u) 0) u"

definition ua_encode_buff :: "nat \<Rightarrow> (UniAttribute, bytes) act" where
  "ua_encode_buff len =
     andthen ua_encode (\<lambda>bs. if len < length bs then throw RuntimeError else ret bs)"

text \<open>\<open>buff\<close> is the memory at the pointer. The object is described only when nothing is thrown.\<close>

definition ua_decode :: "nat \<Rightarrow> bytes \<Rightarrow> nat \<Rightarrow> UniAttribute \<Rightarrow> UniAttribute outcome" where
  "ua_decode n buff len u =
     (case read_attrs n [] 0 True (setBuffer buff len (reader_reset (ua_is u))) of
        (Ok d, is) \<Rightarrow> Ok (u\<lparr>ua_data := d, ua_is := is\<rparr>)
      | (Throw e, _) \<Rightarrow> Throw e
      | (Abort, _) \<Rightarrow> Abort
      | (Fault, _) \<Rightarrow> Fault
      | (OutOfFuel, _) \<Rightarrow> OutOfFuel)"

definition ua_decode_vector :: "nat \<Rightarrow> bytes \<Rightarrow> UniAttribute \<Rightarrow> UniAttribute outcome" where
  "ua_decode_vector n buff u = ua_decode n buff (length buff) u"

definition ua_isEmpty :: "UniAttribute \<Rightarrow> bool" where
  "ua_isEmpty u \<longleftrightarrow> ua_data u = []"

definition ua_size :: "UniAttribute \<Rightarrow> nat" where
  "ua_size u = length (ua_data u)"

definition ua_containsKey :: "bytes \<Rightarrow> UniAttribute \<Rightarrow> bool" where
  "ua_containsKey key u \<longleftrightarrow> map_of (ua_data u) key \<noteq> None"

section \<open>UniPacket\<close>

record UniPacket =
  up_req :: RequestPacket
  up_attr :: UniAttribute

definition UniPacket_init :: UniPacket where
  "UniPacket_init = \<lparr>up_req = RequestPacket_init\<lparr>req_iVersion := 3\<rparr>, up_attr = UniAttribute_init\<rparr>"

definition up_setVersion :: "tShort \<Rightarrow> UniPacket \<Rightarrow> UniPacket" where
  "up_setVersion iVer p =
     p\<lparr>up_attr := (up_attr p)\<lparr>ua_iVer := iVer\<rparr>, up_req := (up_req p)\<lparr>req_iVersion := iVer\<rparr>\<rparr>"

definition createResponse :: "UniPacket \<Rightarrow> UniPacket" where
  "createResponse p =
     UniPacket_init\<lparr>up_req := (up_req UniPacket_init)
       \<lparr>req_sServantName := req_sServantName (up_req p), req_sFuncName := req_sFuncName (up_req p),
        req_iRequestId := req_iRequestId (up_req p)\<rparr>\<rparr>"

definition on_attr :: "(UniAttribute, 'a) act \<Rightarrow> (UniPacket, 'a) act" where
  "on_attr m p = (let (r, u) = m (up_attr p) in (r, p\<lparr>up_attr := u\<rparr>))"

definition doEncode :: "(UniPacket, bytes) act" where
  "doEncode p =
     (if req_sServantName (up_req p) = [] then (Throw RuntimeError, p)
      else if req_sFuncName (up_req p) = [] then (Throw RuntimeError, p)
      else andthen (on_attr (ua_written (write_attrs (ua_data (up_attr p)) 0))) (\<lambda>bs p'.
        let p'' = p'\<lparr>up_req := (up_req p')\<lparr>req_sBuffer := bs\<rparr>\<rparr>
        in on_attr (ua_written (req_writeTo (up_req p''))) p'') p)"

definition up_encode :: "(UniPacket, bytes) act" where
  "up_encode =
     andthen doEncode (\<lambda>bs. ret (store_le 4 (htonl (word_of_nat (size_add 4 (length bs)))) @ bs))"

definition up_encode_buff :: "nat \<Rightarrow> (UniPacket, bytes) act" where
  "up_encode_buff len =
     andthen up_encode (\<lambda>bs. if len < length bs then throw RuntimeError else ret bs)"

definition up_decode :: "nat \<Rightarrow> bytes \<Rightarrow> nat \<Rightarrow> UniPacket \<Rightarrow> UniPacket outcome" where
  "up_decode n buff len p =
     (if len < 4 then Throw RuntimeError
      else case req_readFrom n (up_req p)
          (setBuffer (drop 4 buff) (len - 4) (reader_reset (ua_is (up_attr p)))) of
        (Ok req, is) \<Rightarrow>
          (case ua_decode_vector n (req_sBuffer req)
              ((up_attr p)\<lparr>ua_iVer := req_iVersion req, ua_is := is\<rparr>) of
             Ok u \<Rightarrow> Ok \<lparr>up_req = req, up_attr = u\<rparr>
           | Throw e \<Rightarrow> Throw e | Abort \<Rightarrow> Abort | Fault \<Rightarrow> Fault | OutOfFuel \<Rightarrow> OutOfFuel)
      | (Throw e, _) \<Rightarrow> Throw e
      | (Abort, _) \<Rightarrow> Abort
      | (Fault, _) \<Rightarrow> Fault
      | (OutOfFuel, _) \<Rightarrow> OutOfFuel)"

section \<open>TarsUniPacket\<close>

definition ascii :: "string \<Rightarrow> bytes" where
  "ascii s = map of_char s"

definition STATUS_RESULT_CODE :: bytes where
  "STATUS_RESULT_CODE = ascii ''STATUS_RESULT_CODE''"

definition STATUS_RESULT_DESC :: bytes where
  "STATUS_RESULT_DESC = ascii ''STATUS_RESULT_DESC''"

definition setTarsVersion :: "tShort \<Rightarrow> UniPacket \<Rightarrow> UniPacket" where
  "setTarsVersion value p = up_setVersion value p"

definition setTarsPacketType :: "tChar \<Rightarrow> UniPacket \<Rightarrow> UniPacket" where
  "setTarsPacketType value p = p\<lparr>up_req := (up_req p)\<lparr>req_cPacketType := value\<rparr>\<rparr>"

definition setTarsMessageType :: "tInt32 \<Rightarrow> UniPacket \<Rightarrow> UniPacket" where
  "setTarsMessageType value p = p\<lparr>up_req := (up_req p)\<lparr>req_iMessageType := value\<rparr>\<rparr>"

definition setTarsTimeout :: "tInt32 \<Rightarrow> UniPacket \<Rightarrow> UniPacket" where
  "setTarsTimeout value p = p\<lparr>up_req := (up_req p)\<lparr>req_iTimeout := value\<rparr>\<rparr>"

definition setTarsBuffer :: "bytes \<Rightarrow> UniPacket \<Rightarrow> UniPacket" where
  "setTarsBuffer value p = p\<lparr>up_req := (up_req p)\<lparr>req_sBuffer := value\<rparr>\<rparr>"

definition setTarsContext :: "str_map \<Rightarrow> UniPacket \<Rightarrow> UniPacket" where
  "setTarsContext value p = p\<lparr>up_req := (up_req p)\<lparr>req_context := value\<rparr>\<rparr>"

definition setTarsStatus :: "str_map \<Rightarrow> UniPacket \<Rightarrow> UniPacket" where
  "setTarsStatus value p = p\<lparr>up_req := (up_req p)\<lparr>req_status := value\<rparr>\<rparr>"

text \<open>\<open>None\<close> where \<open>atoi\<close> is undefined.\<close>

definition getTarsResultCode :: "UniPacket \<Rightarrow> tInt32 option" where
  "getTarsResultCode p =
     (case map_of (req_status (up_req p)) STATUS_RESULT_CODE of
        None \<Rightarrow> Some 0
      | Some v \<Rightarrow> map_option word_of_int (atoi v))"

definition getTarsResultDesc :: "UniPacket \<Rightarrow> bytes" where
  "getTarsResultDesc p =
     (case map_of (req_status (up_req p)) STATUS_RESULT_DESC of None \<Rightarrow> [] | Some v \<Rightarrow> v)"

section \<open>The attribute map as a map\<close>

abbreviation ascending :: "('k::linorder \<times> 'v) list \<Rightarrow> bool" where
  "ascending m \<equiv> sorted_wrt (<) (map fst m)"

lemma map_set_keys: "fst ` set (map_set k v m) = insert k (fst ` set m)"
  by (induction k v m rule: map_set.induct) (simp_all add: insert_commute)

lemma map_set_ascending: "ascending m \<Longrightarrow> ascending (map_set k v m)"
proof (induction m)
  case (Cons kv m)
  then show ?case
    using map_set_keys [of k v m]
    by (cases kv) (fastforce simp: image_iff)
qed simp

lemma map_of_map_set: "ascending m \<Longrightarrow> map_of (map_set k v m) = (map_of m)(k \<mapsto> v)"
proof (induction m)
  case (Cons kv m)
  obtain k' v' where kv: "kv = (k', v')" by (cases kv)
  have "map_of m k = None" if "k < k'"
    using Cons.prems that by (force simp: kv map_of_eq_None_iff)
  then show ?case
    using Cons by (auto simp: kv fun_eq_iff)
qed auto

section \<open>Attributes of any wire type\<close>

definition wf_ua :: "UniAttribute \<Rightarrow> bool" where
  "wf_ua u \<longleftrightarrow> wf_os (ua_os u) \<and> ascending (ua_data u)"

lemma wf_ua_init: "wf_ua UniAttribute_init"
  by (simp add: wf_ua_def UniAttribute_init_def)

lemma ua_written_spec:
  assumes "appends wr bs" and "wf_os (ua_os u)" and "2 * length bs < size_max"
  obtains os' where "ua_written wr u = (Ok bs, u\<lparr>ua_os := os'\<rparr>)" and "wf_os os'"
proof -
  have "2 * (wlen (writer_reset (ua_os u)) + length bs) < size_max" using assms(3) by simp
  from appendsD [OF assms(1) wf_os_reset [OF assms(2)] this] obtain os' where
    "wr (writer_reset (ua_os u)) = (Ok (), os')" "wf_os os'" "contents os' = bs"
    by auto
  with that show thesis
    by (auto simp: ua_written_def on_os_def contents_def andthen_def)
qed

context tars_codec
begin

lemma put_spec:
  assumes "ok v" and "wf_ua u" and "2 * length (enc v 0) < size_max"
  obtains u' where "ua_put wr name v u = (Ok (), u')" and "wf_ua u'"
    and "ua_data u' = map_set name (enc v 0) (ua_data u)"
proof -
  from assms(2) have "wf_os (ua_os u)" by (simp add: wf_ua_def)
  from ua_written_spec [OF wr_enc [OF assms(1)] this assms(3)] obtain os' where
    "ua_written (wr v 0) u = (Ok (enc v 0), u\<lparr>ua_os := os'\<rparr>)" "wf_os os'"
    by blast
  with that assms(2) show thesis
    by (auto simp: ua_put_def andthen_Ok ua_store_def wf_ua_def map_set_ascending)
qed

lemma get_at:
  assumes "map_of (ua_data u) name = Some (enc v 0)" and "ok v" and "fuel \<le> n"
    and "2 * length (enc v 0) < size_max"
  shows "fst (ua_get rd n name d u) = Ok v"
proof -
  let ?s = "setBuffer_vector (enc v 0) (reader_reset (ua_is u))"
  have "stream_at ?s (enc v 0 @ [])"
    using stream_at_setBuffer_vector [OF assms(4)] by simp
  from reads_ifD [OF rd_enc [OF assms(2,3)] TrueI this] show ?thesis
    using assms(1) by (simp add: ua_get_def on_is_def)
qed

lemma put_get:
  assumes "ok v" and "wf_ua u" and "2 * length (enc v 0) < size_max" and "fuel \<le> n"
  obtains u' where "ua_put wr name v u = (Ok (), u')" and "wf_ua u'"
    and "fst (ua_get rd n name d u') = Ok v"
    and "\<And>other. other \<noteq> name \<Longrightarrow> map_of (ua_data u') other = map_of (ua_data u) other"
proof -
  obtain u' where u': "ua_put wr name v u = (Ok (), u')" "wf_ua u'"
    "ua_data u' = map_set name (enc v 0) (ua_data u)"
    using put_spec [OF assms(1-3)] by blast
  then have m: "map_of (ua_data u') = (map_of (ua_data u))(name \<mapsto> enc v 0)"
    using assms(2) by (simp add: wf_ua_def map_of_map_set)
  then have "map_of (ua_data u') name = Some (enc v 0)" by simp
  then have "fst (ua_get rd n name d u') = Ok v"
    using assms by (intro get_at)
  with u' m that show thesis by simp
qed

end

text \<open>A missing name: \<open>get\<close> throws, \<open>getByDefault\<close> yields the default.\<close>

lemma get_missing:
  assumes "map_of (ua_data u) name = None"
  shows "ua_get rd n name t u = (Throw RuntimeError, u)"
    and "ua_getByDefault rd n name t def u = (Ok def, u)"
  using assms by (simp_all add: ua_get_def ua_getByDefault_def)

section \<open>Packets\<close>

interpretation attrs: tars_codec "write_attrs" "enc_attrs" "read_attrs"
  "map_ok (\<lambda>v. length v \<le> TARS_MAX_STRING_LENGTH) (\<lambda>v. length v < 2 ^ 31)"
  "\<lambda>m. 5 + sum_list (map (pair_need (\<lambda>_. 1) (\<lambda>_. 4)) m)" "max 3 3"
  by (rule str_blob.map_codec)

abbreviation attrs_ok :: "attr_map \<Rightarrow> bool" where
  "attrs_ok \<equiv> map_ok (\<lambda>v. length v \<le> TARS_MAX_STRING_LENGTH) (\<lambda>v. length v < 2 ^ 31)"

lemma ua_encode_spec:
  assumes "attrs_ok (ua_data u)" and "wf_ua u" and "2 * length (enc_attrs (ua_data u) 0) < size_max"
  obtains os' where "ua_encode u = (Ok (enc_attrs (ua_data u) 0), u\<lparr>ua_os := os'\<rparr>)" and "wf_os os'"
proof -
  from assms(2) have "wf_os (ua_os u)" by (simp add: wf_ua_def)
  from ua_written_spec [OF attrs.wr_enc [OF assms(1)] this assms(3)] that show thesis
    by (auto simp: ua_encode_def)
qed

lemma ua_decode_enc:
  assumes "attrs_ok d" and "2 * length (enc_attrs d 0) < size_max" and "3 \<le> n"
  obtains ist where "ua_decode_vector n (enc_attrs d 0) u = Ok (u\<lparr>ua_data := d, ua_is := ist\<rparr>)"
proof -
  let ?s = "setBuffer (enc_attrs d 0) (length (enc_attrs d 0)) (reader_reset (ua_is u))"
  have "stream_at ?s (enc_attrs d 0 @ [])"
    using stream_at_setBuffer [OF assms(2), of "[]"] by simp
  note at = this
  have "max 3 3 \<le> n" using assms(3) by simp
  from reads_ifD [OF attrs.rd_enc [OF assms(1) this] TrueI at, of "[]" True] that show thesis
    by (simp add: ua_decode_vector_def ua_decode_def)
qed

text \<open>The packet as \<open>doEncode\<close> sends it: the attributes in \<open>sBuffer\<close>.\<close>

definition up_sent :: "UniPacket \<Rightarrow> RequestPacket" where
  "up_sent p = (up_req p)\<lparr>req_sBuffer := enc_attrs (ua_data (up_attr p)) 0\<rparr>"

definition up_ok :: "UniPacket \<Rightarrow> bool" where
  "up_ok p \<longleftrightarrow> req_sServantName (up_req p) \<noteq> [] \<and> req_sFuncName (up_req p) \<noteq> [] \<and>
     attrs_ok (ua_data (up_attr p)) \<and> req_ok (up_sent p) \<and>
     4 + length (req_body (up_sent p)) < 2 ^ 31"

lemma up_sent_simps [simp]:
  "req_iVersion (up_sent p) = req_iVersion (up_req p)"
  "req_sBuffer (up_sent p) = enc_attrs (ua_data (up_attr p)) 0"
  by (simp_all add: up_sent_def)

lemma up_attr_small:
  "up_ok p \<Longrightarrow> length (enc_attrs (ua_data (up_attr p)) 0) < 2 ^ 31"
  by (simp add: up_ok_def req_ok_def up_sent_def)

lemma up_encode_spec:
  assumes "up_ok p" and "wf_ua (up_attr p)"
  obtains p' where "up_encode p = (Ok (frame (req_body (up_sent p))), p')"
    and "up_req p' = up_sent p" and "wf_ua (up_attr p')"
    and "ua_data (up_attr p') = ua_data (up_attr p)"
proof -
  let ?u = "up_attr p" and ?d = "enc_attrs (ua_data (up_attr p)) 0"
  have d: "2 * length ?d < size_max" using up_attr_small [OF assms(1)] by simp
  have b: "2 * length (req_body (up_sent p)) < size_max"
    using assms(1) by (simp add: up_ok_def)
  have ok: "attrs_ok (ua_data ?u)" "req_ok (up_sent p)" using assms(1) by (simp_all add: up_ok_def)
  from assms(2) have os: "wf_os (ua_os ?u)" by (simp add: wf_ua_def)
  obtain os1 where 1: "ua_written (write_attrs (ua_data ?u) 0) ?u = (Ok ?d, ?u\<lparr>ua_os := os1\<rparr>)"
    "wf_os os1"
    by (rule ua_written_spec [OF attrs.wr_enc [OF ok(1)] os d])
  let ?p1 = "p\<lparr>up_attr := ?u\<lparr>ua_os := os1\<rparr>, up_req := up_sent p\<rparr>"
  have "wf_os (ua_os (up_attr ?p1))" using 1 by simp
  from ua_written_spec [OF req.writeTo_enc [OF ok(2)] this b] obtain os2 where
    2: "ua_written (req_writeTo (up_sent p)) (up_attr ?p1) =
      (Ok (req_body (up_sent p)), (up_attr ?p1)\<lparr>ua_os := os2\<rparr>)" "wf_os os2"
    by blast
  have "doEncode p = (Ok (req_body (up_sent p)), ?p1\<lparr>up_attr := ?u\<lparr>ua_os := os2\<rparr>\<rparr>)"
    using assms(1) 1 2
    by (simp add: doEncode_def up_ok_def on_attr_def andthen_def up_sent_def Let_def)
  then show thesis
    using assms 2(2) that [of "?p1\<lparr>up_attr := ?u\<lparr>ua_os := os2\<rparr>\<rparr>"]
    by (simp add: up_encode_def andthen_Ok ret_apply frame_def store_htonl wf_ua_def up_ok_def)
qed

lemma up_decode_frame:
  assumes "up_ok p" and "3 \<le> n"
  obtains ist where "up_decode n (frame (req_body (up_sent p)) @ r)
      (length (frame (req_body (up_sent p)))) q =
    Ok \<lparr>up_req = up_sent p, up_attr = (up_attr q)
          \<lparr>ua_iVer := req_iVersion (up_req p), ua_data := ua_data (up_attr p), ua_is := ist\<rparr>\<rparr>"
proof -
  let ?b = "req_body (up_sent p)"
  let ?s = "setBuffer (?b @ r) (length ?b) (reader_reset (ua_is (up_attr q)))"
  have ok: "attrs_ok (ua_data (up_attr p))" "req_ok (up_sent p)"
    using assms(1) by (simp_all add: up_ok_def)
  have "stream_at ?s ?b" using assms(1) by (intro stream_at_setBuffer) (simp add: up_ok_def)
  from req.readFrom_at [OF ok(2) TrueI assms(2) this] have
    1: "req_readFrom n (up_req q) ?s = (Ok (up_sent p), adv (length ?b) ?s)" .
  have d: "2 * length (enc_attrs (ua_data (up_attr p)) 0) < size_max"
    using up_attr_small [OF assms(1)] by simp
  obtain ist where "ua_decode_vector n (enc_attrs (ua_data (up_attr p)) 0)
      ((up_attr q)\<lparr>ua_iVer := req_iVersion (up_req p), ua_is := adv (length ?b) ?s\<rparr>) =
    Ok ((up_attr q)\<lparr>ua_iVer := req_iVersion (up_req p), ua_is := adv (length ?b) ?s,
      ua_data := ua_data (up_attr p), ua_is := ist\<rparr>)"
    by (rule ua_decode_enc [OF ok(1) d assms(2)])
  with 1 that show thesis
    using drop_frame [of ?b "[]"] by (simp add: up_decode_def)
qed

end
