(* ===== verification/Epoll_Server.thy ===== *)
theory Epoll_Server
  imports Server_Connection Thread_Queue Tup_Packet
begin

text \<open>
  \<open>TC_EpollServer\<close> of \<^verbatim>\<open>src/util/src/tc_epoll_server.cpp\<close>: network threads that own connections,
  adapters that collect the requests of their connections, and groups of handlers that work them
  off. Objects that pointers are shared to are numbers into heaps. One turn of a thread's loop is
  one step; what \<open>accept\<close> will answer is in the state like the other answers of the kernel.
\<close>

section \<open>State\<close>

record bind_adapter =
  ba_handleGroup :: "nat option"
  ba_sock :: int
  ba_ep :: "bytes \<times> int"
  ba_rbuffer :: "recv_data thread_queue"
  ba_name :: bytes
  ba_handleGroupName :: bytes
  ba_iHandleNum :: nat
  ba_iHeartBeatTime :: int

definition BindAdapter_init :: bind_adapter where
  "BindAdapter_init = \<lparr>ba_handleGroup = None, ba_sock = - 1, ba_ep = ([], 0), ba_rbuffer = ThreadQueue_init,
     ba_name = [], ba_handleGroupName = [], ba_iHandleNum = 0, ba_iHeartBeatTime = 0\<rparr>"

text \<open>A handler is its thread, running or not; \<open>hg_notified\<close> counts the notifications of the monitor.\<close>

record handle_group =
  hg_name :: bytes
  hg_notified :: nat
  hg_handles :: "bool list"
  hg_adapters :: "(bytes \<times> nat) list"

text \<open>A command for a network thread; that to close sets no port.\<close>

record send_data =
  sd_cmd :: char
  sd_uid :: "32 word"
  sd_buffer :: bytes
  sd_ip :: bytes
  sd_port :: "16 word option"

text \<open>
  \<open>nt_uid_connection\<close> is total: an entry that is missing and one that \<open>operator[]\<close> made hold no
  connection. \<open>nt_epoll\<close> is what \<open>_epoller\<close> watches, with the data and the events.
\<close>

record net_thread =
  nt_shutdown :: int
  nt_notify :: int
  nt_bind_listen :: int
  nt_epoll :: "int \<Rightarrow> (64 word \<times> 32 word) option"
  nt_uid_connection :: "32 word \<Rightarrow> nat option"
  nt_free :: "32 word list"
  nt_free_size :: "64 word"
  nt_sbuffer :: "send_data thread_queue"
  nt_listeners :: "(int \<times> nat option) list"
  nt_bTerminate :: bool

text \<open>A new connection comes with what its peer is going to send.\<close>

datatype accept_answer = Accepted int bytes "16 word" "read_answer list" | AcceptAgain | AcceptError

record epoll_server =
  es_bTerminate :: bool
  es_netThreads :: "net_thread list"
  es_handleStarted :: bool
  es_handleGroups :: "(bytes \<times> nat) list"
  es_conns :: "nat \<Rightarrow> server_conn option"
  es_conn_next :: nat
  es_adapters :: "nat \<Rightarrow> bind_adapter option"
  es_groups :: "nat \<Rightarrow> handle_group option"
  es_group_next :: nat
  es_net :: net
  es_accepts :: "int \<Rightarrow> accept_answer list"
  es_iov_max :: int

datatype EM_CLOSE_T = EM_CLIENT_CLOSE | EM_SERVER_CLOSE | EM_SERVER_TIMEOUT_CLOSE

primrec close_code :: "EM_CLOSE_T \<Rightarrow> int" where
  "close_code EM_CLIENT_CLOSE = 0"
| "close_code EM_SERVER_CLOSE = 1"
| "close_code EM_SERVER_TIMEOUT_CLOSE = 2"

section \<open>The kernel's part\<close>

definition k_socket :: "(net, int) act" where
  "k_socket n = (Ok (net_next n), n\<lparr>net_next := net_next n + 1, net_open := net_next n # net_open n\<rparr>)"

text \<open>A descriptor that is open cannot come out of \<open>accept\<close>.\<close>

definition k_accept :: "int \<Rightarrow> (epoll_server, accept_answer) act" where
  "k_accept lfd s =
     (case es_accepts s lfd of
        [] \<Rightarrow> (Ok AcceptAgain, s)
      | a # r \<Rightarrow>
          let s1 = s\<lparr>es_accepts := (es_accepts s)(lfd := r)\<rparr>; n = es_net s in
          (case a of
             Accepted fd ip port as \<Rightarrow>
               if 0 < fd \<and> fd \<notin> set (net_open n)
               then (Ok a, s1\<lparr>es_net := n\<lparr>net_open := fd # net_open n,
                 net_arrivals := (net_arrivals n)(fd := as), net_wire := (net_wire n)(fd := [])\<rparr>\<rparr>)
               else (Ok AcceptAgain, s1)
           | _ \<Rightarrow> (Ok a, s1)))"

type_synonym interest = "int \<Rightarrow> (64 word \<times> 32 word) option"

definition EPOLLIN :: "32 word" where "EPOLLIN = 1"
definition EPOLLOUT :: "32 word" where "EPOLLOUT = 4"
definition EPOLLERR :: "32 word" where "EPOLLERR = 8"
definition EPOLLHUP :: "32 word" where "EPOLLHUP = 16"
definition EPOLLET :: "32 word" where "EPOLLET = 2147483648"

text \<open>The three uses of \<open>ctrl\<close>, edge triggered; an error of \<open>epoll_ctl\<close> is not looked at.\<close>

definition epoll_add :: "int \<Rightarrow> 64 word \<Rightarrow> 32 word \<Rightarrow> interest \<Rightarrow> interest" where
  "epoll_add fd data event m = (if fd < 0 \<or> m fd \<noteq> None then m else m(fd \<mapsto> (data, or event EPOLLET)))"

definition epoll_mod :: "int \<Rightarrow> 64 word \<Rightarrow> 32 word \<Rightarrow> interest \<Rightarrow> interest" where
  "epoll_mod fd data event m = (if m fd = None then m else m(fd \<mapsto> (data, or event EPOLLET)))"

definition epoll_del :: "int \<Rightarrow> interest \<Rightarrow> interest" where
  "epoll_del fd m = m(fd := None)"

definition H64 :: "64 word \<Rightarrow> 64 word" where
  "H64 x = push_bit 32 x"

definition ET_LISTEN :: "64 word" where "ET_LISTEN = 1"
definition ET_CLOSE :: "64 word" where "ET_CLOSE = 2"
definition ET_NOTIFY :: "64 word" where "ET_NOTIFY = 3"
definition ET_NET :: "64 word" where "ET_NET = 0"

section \<open>Access to the parts\<close>

definition thread_at :: "nat \<Rightarrow> epoll_server \<Rightarrow> net_thread" where
  "thread_at t s = es_netThreads s ! t"

definition thread_update :: "nat \<Rightarrow> (net_thread \<Rightarrow> net_thread) \<Rightarrow> (epoll_server, unit) act" where
  "thread_update t f s = (Ok (), s\<lparr>es_netThreads := (es_netThreads s)[t := f (thread_at t s)]\<rparr>)"

text \<open>An operation on the connection a pointer leads to.\<close>

definition on_conn :: "nat option \<Rightarrow> (conn_state, 'a) act \<Rightarrow> (epoll_server, 'a) act" where
  "on_conn cPtr m s =
     (case cPtr of None \<Rightarrow> (Fault, s) | Some p \<Rightarrow>
      case es_conns s p of None \<Rightarrow> (Fault, s) | Some c \<Rightarrow>
      case m (c, es_net s) of (r, (c', n')) \<Rightarrow>
        (r, s\<lparr>es_conns := (es_conns s)(p \<mapsto> c'), es_net := n'\<rparr>))"

definition conn_get :: "nat option \<Rightarrow> (epoll_server, server_conn) act" where
  "conn_get cPtr = on_conn cPtr (\<lambda>(c, n). (Ok c, (c, n)))"

definition on_kernel :: "(net, 'a) act \<Rightarrow> (epoll_server, 'a) act" where
  "on_kernel = zoom es_net (\<lambda>n s. s\<lparr>es_net := n\<rparr>)"

section \<open>Adapters\<close>

definition group_notify :: "nat option \<Rightarrow> (epoll_server, unit) act" where
  "group_notify g s =
     (case g of None \<Rightarrow> (Fault, s) | Some p \<Rightarrow>
      case es_groups s p of None \<Rightarrow> (Fault, s) | Some hg \<Rightarrow>
        (Ok (), s\<lparr>es_groups := (es_groups s)(p \<mapsto> hg\<lparr>hg_notified := hg_notified hg + 1\<rparr>)\<rparr>))"

definition insertRecvQueue :: "nat option \<Rightarrow> recv_data list \<Rightarrow> bool \<Rightarrow> (epoll_server, unit) act" where
  "insertRecvQueue adapter vtRecvData bPushBack s =
     (case adapter of None \<Rightarrow> (Fault, s) | Some p \<Rightarrow>
      case es_adapters s p of None \<Rightarrow> (Fault, s) | Some a \<Rightarrow>
        let q = (if bPushBack then tq_push_back_all vtRecvData (ba_rbuffer a)
                 else tq_push_front_all vtRecvData (ba_rbuffer a))
        in group_notify (ba_handleGroup a) (s\<lparr>es_adapters := (es_adapters s)(p \<mapsto> a\<lparr>ba_rbuffer := q\<rparr>)\<rparr>))"

text \<open>Without waiting, the only way it is called.\<close>

definition waitForRecvQueue :: "nat \<Rightarrow> (epoll_server, recv_data option) act" where
  "waitForRecvQueue p s =
     (case es_adapters s p of None \<Rightarrow> (Fault, s) | Some a \<Rightarrow>
      case tq_pop_front NoWait (\<lambda>q. (False, q)) (ba_rbuffer a) of (r, q) \<Rightarrow>
        (r, s\<lparr>es_adapters := (es_adapters s)(p \<mapsto> a\<lparr>ba_rbuffer := q\<rparr>)\<rparr>))"

section \<open>Network threads\<close>

definition NetThread_init :: "64 word \<Rightarrow> (net, net_thread) act" where
  "NetThread_init indeterminate =
     andthen k_socket (\<lambda>shutdown.
     andthen k_socket (\<lambda>notify.
     ret \<lparr>nt_shutdown = shutdown, nt_notify = notify, nt_bind_listen = - 1, nt_epoll = (\<lambda>_. None),
       nt_uid_connection = (\<lambda>_. None), nt_free = [], nt_free_size = indeterminate,
       nt_sbuffer = ThreadQueue_init, nt_listeners = [], nt_bTerminate = False\<rparr>))"

definition nt_bind :: "nat \<Rightarrow> nat \<Rightarrow> (epoll_server, int) act" where
  "nt_bind t lsPtr s =
     (case es_adapters s lsPtr of None \<Rightarrow> (Fault, s) | Some a \<Rightarrow>
       andthen (on_kernel k_socket) (\<lambda>fd.
       andthen (\<lambda>s. (Ok (), s\<lparr>es_adapters := (es_adapters s)(lsPtr \<mapsto> a\<lparr>ba_sock := fd\<rparr>)\<rparr>)) (\<lambda>_.
       andthen (thread_update t (\<lambda>th. th\<lparr>nt_listeners := map_set fd (Some lsPtr) (nt_listeners th)\<rparr>)) (\<lambda>_.
       ret fd))) s)"

text \<open>The numbers for connections a thread starts with, \<open>_total\<close> of them.\<close>

definition fresh_uids :: "32 word list" where
  "fresh_uids = map word_of_nat [1..<200001]"

definition nt_createEpoll :: "nat \<Rightarrow> (epoll_server, unit) act" where
  "nt_createEpoll t = thread_update t (\<lambda>th. th\<lparr>
     nt_epoll := fold (\<lambda>kv. epoll_add (fst kv) (or (H64 ET_LISTEN) (word_of_int (fst kv))) EPOLLIN) (nt_listeners th)
       (epoll_add (nt_bind_listen th) (or (H64 ET_LISTEN) (word_of_int (nt_bind_listen th))) EPOLLIN
       (epoll_add (nt_notify th) (H64 ET_NOTIFY) EPOLLIN
       (epoll_add (nt_shutdown th) (H64 ET_CLOSE) EPOLLIN (\<lambda>_. None)))),
     nt_free := nt_free th @ fresh_uids,
     nt_free_size := nt_free_size th + 200000\<rparr>)"

text \<open>\<open>front\<close> of an empty list is undefined.\<close>

definition addTcpConnection :: "nat \<Rightarrow> nat \<Rightarrow> (epoll_server, unit) act" where
  "addTcpConnection t cPtr s =
     (case nt_free (thread_at t s) of
        [] \<Rightarrow> (Fault, s)
      | uid # free \<Rightarrow>
          andthen (on_conn (Some cPtr) (\<lambda>(c, n). (Ok (), (c\<lparr>co_uid := uid\<rparr>, n)))) (\<lambda>_.
          andthen (conn_get (Some cPtr)) (\<lambda>c.
          thread_update t (\<lambda>th. th\<lparr>nt_free := free, nt_free_size := nt_free_size th - 1,
            nt_uid_connection := (nt_uid_connection th)(uid \<mapsto> cPtr),
            nt_epoll := epoll_add (co_fd c) (ucast (co_uid c)) (or EPOLLIN EPOLLOUT) (nt_epoll th)\<rparr>))) s)"

text \<open>\<open>fd % _netThreads.size()\<close> in the type of the size.\<close>

definition getNetThreadOfFd :: "int \<Rightarrow> epoll_server \<Rightarrow> nat option" where
  "getNetThreadOfFd fd s =
     (if es_netThreads s = [] then None
      else Some (nat (fd mod int size_max) mod length (es_netThreads s)))"

definition addConnection :: "nat \<Rightarrow> int \<Rightarrow> (epoll_server, unit) act" where
  "addConnection cPtr fd s =
     (case getNetThreadOfFd fd s of None \<Rightarrow> (Fault, s) | Some t \<Rightarrow> addTcpConnection t cPtr s)"

text \<open>\<open>_listeners[fd]\<close>, which makes an empty entry when there is none.\<close>

definition listener_at :: "nat \<Rightarrow> int \<Rightarrow> (epoll_server, nat option) act" where
  "listener_at t fd s =
     (case map_of (nt_listeners (thread_at t s)) fd of
        Some a \<Rightarrow> (Ok a, s)
      | None \<Rightarrow> andthen (thread_update t (\<lambda>th. th\<lparr>nt_listeners := map_set fd None (nt_listeners th)\<rparr>)) (\<lambda>_. ret None) s)"

definition conn_new :: "server_conn \<Rightarrow> (epoll_server, nat) act" where
  "conn_new c s = (Ok (es_conn_next s),
     s\<lparr>es_conns := (es_conns s)(es_conn_next s \<mapsto> c), es_conn_next := es_conn_next s + 1\<rparr>)"

definition nt_accept :: "nat \<Rightarrow> int \<Rightarrow> (epoll_server, bool) act" where
  "nt_accept t fd =
     andthen (k_accept fd) (\<lambda>answer.
     case answer of
       Accepted cs ip port _ \<Rightarrow>
         andthen (listener_at t fd) (\<lambda>adapter.
         case Connection_init adapter fd cs ip port of
           Ok c \<Rightarrow>
             andthen (conn_new c) (\<lambda>cPtr.
             andthen (addConnection cPtr cs) (\<lambda>_. ret True))
         | _ \<Rightarrow> (\<lambda>s. (Abort, s)))
     | AcceptAgain \<Rightarrow> ret False
     | AcceptError \<Rightarrow> ret True)"

primrec accept_loop :: "nat \<Rightarrow> nat \<Rightarrow> int \<Rightarrow> (epoll_server, unit) act" where
  "accept_loop 0 t fd = diverge"
| "accept_loop (Suc k) t fd = andthen (nt_accept t fd) (\<lambda>again. if again then accept_loop k t fd else ret ())"

text \<open>What the handlers are told of the end of a connection.\<close>

definition close_message :: "server_conn \<Rightarrow> EM_CLOSE_T \<Rightarrow> recv_data" where
  "close_message c closeType = \<lparr>rd_uid = co_uid c, rd_buffer = [], rd_ip = co_ip c, rd_port = co_port c,
     rd_recvTimeStamp = 0, rd_isOverload = False, rd_isClosed = True, rd_fd = co_fd c,
     rd_adapter = None, rd_closeType = Some (close_code closeType)\<rparr>"

definition delConnection :: "nat \<Rightarrow> nat option \<Rightarrow> EM_CLOSE_T \<Rightarrow> (epoll_server, unit) act" where
  "delConnection t cPtr closeType =
     andthen (conn_get cPtr) (\<lambda>c.
     if co_lfd c \<noteq> - 1 then
       andthen (insertRecvQueue (co_adapter c) [close_message c closeType] True) (\<lambda>_.
       andthen (thread_update t (\<lambda>th. th\<lparr>nt_epoll := epoll_del (co_fd c) (nt_epoll th)\<rparr>)) (\<lambda>_.
       on_conn cPtr (\<lambda>cn. (Ok (), conn_close cn))))
     else ret ())"

definition event_has :: "32 word \<Rightarrow> 32 word \<Rightarrow> bool" where
  "event_has events flag \<longleftrightarrow> and events flag \<noteq> 0"

definition processNet :: "nat \<Rightarrow> 64 word \<Rightarrow> 32 word \<Rightarrow> (epoll_server, unit) act" where
  "processNet t data events s =
     (let uid = ucast data :: 32 word; cPtr = nt_uid_connection (thread_at t s) uid in
      andthen (conn_get cPtr) (\<lambda>c.
      if event_has events EPOLLERR \<or> event_has events EPOLLHUP then delConnection t cPtr EM_SERVER_CLOSE
      else
        andthen (if event_has events EPOLLIN then
            andthen (on_conn cPtr conn_recv) (\<lambda>(r, vRecvData).
            if r < 0 then andthen (delConnection t cPtr EM_CLIENT_CLOSE) (\<lambda>_. ret False)
            else if vRecvData \<noteq> [] then andthen (insertRecvQueue (co_adapter c) vRecvData True) (\<lambda>_. ret True)
            else ret True)
          else ret True) (\<lambda>go s.
        if go \<and> event_has events EPOLLOUT
        then andthen (on_conn cPtr (conn_send (es_iov_max s))) (\<lambda>_. ret ()) s
        else (Ok (), s))) s)"

text \<open>The commands taken from the queue; an unknown one trips the assertion.\<close>

primrec process_commands :: "nat \<Rightarrow> send_data list \<Rightarrow> (epoll_server, unit) act" where
  "process_commands t [] = ret ()"
| "process_commands t (d # ds) =
     andthen (\<lambda>s. let cPtr = nt_uid_connection (thread_at t s) (sd_uid d) in
       if sd_cmd d = CHR ''c'' then
         (if cPtr = None then (Ok (), s)
          else andthen (on_conn cPtr (\<lambda>(c, n). case conn_setClose c of (b, c') \<Rightarrow> (Ok b, (c', n)))) (\<lambda>b.
            if b then delConnection t cPtr EM_SERVER_CLOSE else ret ()) s)
       else if sd_cmd d = CHR ''s'' then
         andthen (conn_get cPtr) (\<lambda>_.
         andthen (on_conn cPtr (conn_send_buffer (es_iov_max s) (sd_buffer d) False)) (\<lambda>_. ret ())) s
       else (Abort, s)) (\<lambda>_.
     process_commands t ds)"

definition processPipe :: "nat \<Rightarrow> (epoll_server, unit) act" where
  "processPipe t s =
     (case tq_swap [] NoWait (\<lambda>q. (False, q)) (nt_sbuffer (thread_at t s)) of
        ((_, deSendData), q) \<Rightarrow>
          andthen (thread_update t (\<lambda>th. th\<lparr>nt_sbuffer := q\<rparr>)) (\<lambda>_. process_commands t deSendData) s)"

text \<open>One event of the loop of \<open>NetThread::run\<close>; the default branch asserts something true.\<close>

definition net_event :: "nat \<Rightarrow> 64 word \<Rightarrow> 32 word \<Rightarrow> (epoll_server, unit) act" where
  "net_event t data events s =
     (let h = drop_bit 32 data; fd = sint (ucast data :: 32 word) in
      if h = ET_LISTEN then
        (if event_has events EPOLLIN then accept_loop (Suc (length (es_accepts s fd))) t fd s else (Ok (), s))
      else if h = ET_CLOSE then (Ok (), s)
      else if h = ET_NOTIFY then processPipe t s
      else if h = ET_NET then processNet t data events s
      else (Ok (), s))"

definition nt_command :: "nat \<Rightarrow> send_data \<Rightarrow> (epoll_server, unit) act" where
  "nt_command t d = thread_update t (\<lambda>th. th\<lparr>nt_sbuffer := tq_push_back d (nt_sbuffer th),
     nt_epoll := epoll_mod (nt_notify th) (H64 ET_NOTIFY) EPOLLOUT (nt_epoll th)\<rparr>)"

definition nt_send :: "nat \<Rightarrow> 32 word \<Rightarrow> bytes \<Rightarrow> bytes \<Rightarrow> 16 word \<Rightarrow> (epoll_server, unit) act" where
  "nt_send t uid buf ip port s =
     (if nt_bTerminate (thread_at t s) then (Ok (), s)
      else nt_command t \<lparr>sd_cmd = CHR ''s'', sd_uid = uid, sd_buffer = buf, sd_ip = ip, sd_port = Some port\<rparr> s)"

definition nt_close :: "nat \<Rightarrow> 32 word \<Rightarrow> (epoll_server, unit) act" where
  "nt_close t uid = nt_command t \<lparr>sd_cmd = CHR ''c'', sd_uid = uid, sd_buffer = [], sd_ip = [], sd_port = None\<rparr>"

definition nt_terminate :: "nat \<Rightarrow> (epoll_server, unit) act" where
  "nt_terminate t = thread_update t (\<lambda>th. th\<lparr>nt_bTerminate := True,
     nt_epoll := epoll_mod (nt_shutdown th) (H64 ET_CLOSE) EPOLLOUT (nt_epoll th)\<rparr>)"

end
