(* ===== verification/Epoll_Handles.thy ===== *)
theory Epoll_Handles
  imports Epoll_Server
begin

text \<open>
  The server as a whole, \<^verbatim>\<open>src/util/src/tc_epoll_server.cpp\<close>: the choice of the network thread, the
  groups of handlers, one round of a handler's loop, and the steps the threads take. What a
  handler does with a request is the argument \<open>handle\<close>.
\<close>

section \<open>Construction\<close>

primrec make_threads :: "nat \<Rightarrow> (nat \<Rightarrow> 64 word) \<Rightarrow> (net, net_thread list) act" where
  "make_threads 0 indeterminate = ret []"
| "make_threads (Suc n) indeterminate =
     andthen (make_threads n indeterminate) (\<lambda>ths.
     andthen (NetThread_init (indeterminate n)) (\<lambda>th.
     ret (ths @ [th])))"

text \<open>
  The adapters are made by the application; \<open>indeterminate\<close> is what the threads' counters
  \<open>_free_size\<close> hold before they are first used.
\<close>

definition TC_EpollServer_init ::
  "nat \<Rightarrow> (nat \<Rightarrow> 64 word) \<Rightarrow> (nat \<Rightarrow> bind_adapter option) \<Rightarrow> (int \<Rightarrow> accept_answer list) \<Rightarrow> int \<Rightarrow> net \<Rightarrow> epoll_server outcome" where
  "TC_EpollServer_init iNetThreadNum indeterminate adapters accepts iov_max n =
     (case make_threads iNetThreadNum indeterminate n of
        (Ok ths, n') \<Rightarrow> Ok \<lparr>es_bTerminate = False, es_netThreads = ths, es_handleStarted = False,
          es_handleGroups = [], es_conns = (\<lambda>_. None), es_conn_next = 0, es_adapters = adapters,
          es_groups = (\<lambda>_. None), es_group_next = 0, es_net = n', es_accepts = accepts, es_iov_max = iov_max\<rparr>
      | _ \<Rightarrow> Abort)"

text \<open>Only the first network thread listens; with no thread the result is 0.\<close>

definition es_bind :: "nat \<Rightarrow> (epoll_server, int) act" where
  "es_bind lsPtr s = (if es_netThreads s = [] then (Ok 0, s) else nt_bind 0 lsPtr s)"

primrec createEpoll_upto :: "nat \<Rightarrow> (epoll_server, unit) act" where
  "createEpoll_upto 0 = ret ()"
| "createEpoll_upto (Suc i) = andthen (createEpoll_upto i) (\<lambda>_. nt_createEpoll i)"

definition es_createEpoll :: "(epoll_server, unit) act" where
  "es_createEpoll s = createEpoll_upto (length (es_netThreads s)) s"

text \<open>A group is made with its handlers for the first adapter that names it.\<close>

definition setHandleGroup :: "bytes \<Rightarrow> int \<Rightarrow> nat \<Rightarrow> (epoll_server, unit) act" where
  "setHandleGroup groupName handleNum adapter s =
     (case es_adapters s adapter of None \<Rightarrow> (Fault, s) | Some a \<Rightarrow>
       let s1 = (if map_of (es_handleGroups s) groupName = None then
             s\<lparr>es_groups := (es_groups s)(es_group_next s \<mapsto> \<lparr>hg_name = groupName, hg_notified = 0,
                 hg_handles = replicate (nat handleNum) False, hg_adapters = []\<rparr>),
               es_handleGroups := map_set groupName (es_group_next s) (es_handleGroups s),
               es_group_next := es_group_next s + 1\<rparr>
           else s)
       in case map_of (es_handleGroups s1) groupName of None \<Rightarrow> (Fault, s1) | Some g \<Rightarrow>
          case es_groups s1 g of None \<Rightarrow> (Fault, s1) | Some hg \<Rightarrow>
            (Ok (), s1\<lparr>es_groups := (es_groups s1)(g \<mapsto> hg\<lparr>hg_adapters := map_set (ba_name a) adapter (hg_adapters hg)\<rparr>),
               es_adapters := (es_adapters s1)(adapter \<mapsto> a\<lparr>ba_handleGroup := Some g\<rparr>)\<rparr>))"

definition setHandle :: "nat \<Rightarrow> (epoll_server, unit) act" where
  "setHandle adapter s =
     (case es_adapters s adapter of None \<Rightarrow> (Fault, s) | Some a \<Rightarrow>
        setHandleGroup (ba_handleGroupName a) (sint (word_of_nat (ba_iHandleNum a) :: 32 word)) adapter s)"

definition groups_update :: "(handle_group \<Rightarrow> handle_group) \<Rightarrow> epoll_server \<Rightarrow> epoll_server" where
  "groups_update f s = s\<lparr>es_groups := (\<lambda>g.
     if g \<in> snd ` set (es_handleGroups s) then map_option f (es_groups s g) else es_groups s g)\<rparr>"

definition startHandle :: "epoll_server \<Rightarrow> epoll_server" where
  "startHandle s =
     (if es_handleStarted s then s
      else groups_update (\<lambda>hg. hg\<lparr>hg_handles := map (\<lambda>_. True) (hg_handles hg)\<rparr>) (s\<lparr>es_handleStarted := True\<rparr>))"

text \<open>The handlers are joined, so they have ended when it returns.\<close>

definition stopThread :: "epoll_server \<Rightarrow> epoll_server" where
  "stopThread = groups_update (\<lambda>hg. hg\<lparr>hg_notified := hg_notified hg + 1,
     hg_handles := map (\<lambda>_. False) (hg_handles hg)\<rparr>)"

section \<open>Commands\<close>

definition es_send :: "32 word \<Rightarrow> bytes \<Rightarrow> bytes \<Rightarrow> 16 word \<Rightarrow> int \<Rightarrow> (epoll_server, unit) act" where
  "es_send uid buf ip port fd s =
     (case getNetThreadOfFd fd s of None \<Rightarrow> (Fault, s) | Some t \<Rightarrow> nt_send t uid buf ip port s)"

definition es_close :: "32 word \<Rightarrow> int \<Rightarrow> (epoll_server, unit) act" where
  "es_close uid fd s =
     (case getNetThreadOfFd fd s of None \<Rightarrow> (Fault, s) | Some t \<Rightarrow> nt_close t uid s)"

definition es_terminate :: "epoll_server \<Rightarrow> epoll_server" where
  "es_terminate s = (if es_bTerminate s then s else s\<lparr>es_bTerminate := True\<rparr>)"

text \<open>Through the handler; the port passes an \<open>int\<close> on the way.\<close>

definition sendResponse :: "32 word \<Rightarrow> bytes \<Rightarrow> bytes \<Rightarrow> 16 word \<Rightarrow> int \<Rightarrow> (epoll_server, unit) act" where
  "sendResponse uid sSendBuffer ip port fd = es_send uid sSendBuffer ip (word_of_int (uint port)) fd"

definition notifyFilter :: "nat \<Rightarrow> (epoll_server, unit) act" where
  "notifyFilter g = group_notify (Some g)"

section \<open>Handlers\<close>

text \<open>
  The \<open>try\<close> block for one adapter: an exception closes the connection of the request and ends
  the work on this adapter. The bound is the number of messages and one.
\<close>

primrec handle_adapter ::
  "nat \<Rightarrow> (recv_data \<Rightarrow> (epoll_server, unit) act) \<Rightarrow> nat \<Rightarrow> (epoll_server, unit) act" where
  "handle_adapter 0 handle p = diverge"
| "handle_adapter (Suc k) handle p =
     andthen (waitForRecvQueue p) (\<lambda>recv.
     case recv of
       None \<Rightarrow> ret ()
     | Some d \<Rightarrow>
         if rd_isClosed d then handle_adapter k handle p
         else (\<lambda>s. case handle (d\<lparr>rd_adapter := Some p\<rparr>) s of
           (Throw e, s') \<Rightarrow> es_close (rd_uid d) (rd_fd d) s'
         | (Ok _, s') \<Rightarrow> handle_adapter k handle p s'
         | r \<Rightarrow> r))"

definition queue_length :: "nat \<Rightarrow> epoll_server \<Rightarrow> nat" where
  "queue_length p s = (case es_adapters s p of None \<Rightarrow> 0 | Some a \<Rightarrow> length (tq_queue (ba_rbuffer a)))"

primrec handle_adapters ::
  "(recv_data \<Rightarrow> (epoll_server, unit) act) \<Rightarrow> (bytes \<times> nat) list \<Rightarrow> (epoll_server, unit) act" where
  "handle_adapters handle [] = ret ()"
| "handle_adapters handle (kv # kvs) =
     andthen (\<lambda>s. handle_adapter (Suc (queue_length (snd kv) s)) handle (snd kv) s) (\<lambda>_.
     handle_adapters handle kvs)"

text \<open>One round of \<open>Handle::handleImp\<close> after the wait.\<close>

definition handle_round ::
  "(recv_data \<Rightarrow> (epoll_server, unit) act) \<Rightarrow> (nat \<Rightarrow> (epoll_server, 'r) act) \<Rightarrow> nat \<Rightarrow> (epoll_server, unit) act" where
  "handle_round handle heartbeat g =
     andthen (heartbeat g) (\<lambda>_ s.
     case es_groups s g of None \<Rightarrow> (Fault, s) | Some hg \<Rightarrow> handle_adapters handle (hg_adapters hg) s)"

section \<open>Steps\<close>

text \<open>
  What the threads do, each step in one go: an event of a network thread, a round of a handler of
  a group at some time, a message or a close of the application. The handlers of a group are
  alike; what they do with a request is given for each group, as is the heartbeat for the time.
\<close>

datatype server_event =
    NetEvent nat "64 word" "32 word"
  | HandleRound nat int
  | AppSend "32 word" bytes bytes "16 word" int
  | AppClose "32 word" int

primrec server_step ::
  "(nat \<Rightarrow> recv_data \<Rightarrow> (epoll_server, unit) act) \<Rightarrow> (int \<Rightarrow> nat \<Rightarrow> (epoll_server, 'r) act) \<Rightarrow> server_event \<Rightarrow>
   (epoll_server, unit) act" where
  "server_step handle heartbeat (NetEvent t data events) = net_event t data events"
| "server_step handle heartbeat (HandleRound g now) = handle_round (handle g) (heartbeat now) g"
| "server_step handle heartbeat (AppSend uid buf ip port fd) = es_send uid buf ip port fd"
| "server_step handle heartbeat (AppClose uid fd) = es_close uid fd"

primrec server_run ::
  "(nat \<Rightarrow> recv_data \<Rightarrow> (epoll_server, unit) act) \<Rightarrow> (int \<Rightarrow> nat \<Rightarrow> (epoll_server, 'r) act) \<Rightarrow> server_event list \<Rightarrow>
   (epoll_server, unit) act" where
  "server_run handle heartbeat [] = ret ()"
| "server_run handle heartbeat (e # es) =
     andthen (server_step handle heartbeat e) (\<lambda>_. server_run handle heartbeat es)"

end
