(* ===== verification/Server_Safety.thy ===== *)
theory Server_Safety
  imports Epoll_Handles
begin

text \<open>
  The server does not crash: whatever connects, sends, closes or gets closed, and whatever the
  handlers do with their requests, every pointer that is followed leads to an object, as long as
  no network thread has handed out all of its connection numbers.
\<close>

section \<open>Safe steps\<close>

definition used_up :: "epoll_server \<Rightarrow> bool" where
  "used_up s \<longleftrightarrow> (\<exists>th \<in> set (es_netThreads s). nt_free th = [])"

definition safe :: "(epoll_server, 'a) act \<Rightarrow> epoll_server \<Rightarrow> ('a \<Rightarrow> epoll_server \<Rightarrow> bool) \<Rightarrow> bool" where
  "safe m s Q \<longleftrightarrow> (case m s of (Ok a, s') \<Rightarrow> Q a s' | (Fault, s') \<Rightarrow> used_up s' | _ \<Rightarrow> False)"

lemma safe_ret: "Q a s \<Longrightarrow> safe (ret a) s Q"
  by (simp add: safe_def ret_def)

lemma safe_Ok: "m s = (Ok a, s') \<Longrightarrow> Q a s' \<Longrightarrow> safe m s Q"
  by (simp add: safe_def)

lemma safe_andthen:
  assumes "safe m s P" and "\<And>a s'. P a s' \<Longrightarrow> safe (f a) s' Q"
  shows "safe (andthen m f) s Q"
  using assms by (cases "m s"; cases "fst (m s)") (auto simp: safe_def andthen_def)

lemma safe_weaken: "safe m s P \<Longrightarrow> (\<And>a s'. P a s' \<Longrightarrow> Q a s') \<Longrightarrow> safe m s Q"
  by (auto simp: safe_def split: prod.splits outcome.splits)

lemma safe_if: "(b \<Longrightarrow> safe m s Q) \<Longrightarrow> (\<not> b \<Longrightarrow> safe n s Q) \<Longrightarrow> safe (if b then m else n) s Q"
  by simp

section \<open>Invariant\<close>

definition adapter_ok :: "epoll_server \<Rightarrow> nat option \<Rightarrow> bool" where
  "adapter_ok s a \<longleftrightarrow> (\<exists>p b g. a = Some p \<and> es_adapters s p = Some b \<and> ba_handleGroup b = Some g \<and> es_groups s g \<noteq> None)"

definition conn_ok :: "epoll_server \<Rightarrow> nat \<Rightarrow> 32 word \<Rightarrow> nat \<Rightarrow> bool" where
  "conn_ok s t uid p \<longleftrightarrow> (\<exists>c. es_conns s p = Some c \<and> co_uid c = uid \<and> co_lfd c \<noteq> - 1 \<and>
     adapter_ok s (co_adapter c) \<and> co_sendbuffer c = [] \<and>
     (co_fd c \<noteq> - 1 \<longrightarrow> getNetThreadOfFd (co_fd c) s = Some t))"

definition command_ok :: "net_thread \<Rightarrow> send_data \<Rightarrow> bool" where
  "command_ok th d \<longleftrightarrow> sd_cmd d = CHR ''c'' \<or> sd_cmd d = CHR ''s'' \<and> nt_uid_connection th (sd_uid d) \<noteq> None"

definition thread_ok :: "epoll_server \<Rightarrow> nat \<Rightarrow> bool" where
  "thread_ok s t \<longleftrightarrow> (let th = thread_at t s in
     distinct (nt_free th) \<and> (\<forall>uid \<in> set (nt_free th). nt_uid_connection th uid = None) \<and>
     (\<forall>uid p. nt_uid_connection th uid = Some p \<longrightarrow> conn_ok s t uid p) \<and>
     tq_inv (nt_sbuffer th) \<and> (\<forall>d \<in> set (tq_queue (nt_sbuffer th)). command_ok th d) \<and>
     (\<forall>kv \<in> set (nt_listeners th). fst kv \<noteq> - 1 \<and> adapter_ok s (snd kv)))"

definition message_ok :: "epoll_server \<Rightarrow> recv_data \<Rightarrow> bool" where
  "message_ok s d \<longleftrightarrow> (\<exists>t. getNetThreadOfFd (rd_fd d) s = Some t \<and> nt_uid_connection (thread_at t s) (rd_uid d) \<noteq> None)"

definition adapters_ok :: "epoll_server \<Rightarrow> bool" where
  "adapters_ok s \<longleftrightarrow> finite (dom (es_adapters s)) \<and>
     (\<forall>p a. es_adapters s p = Some a \<longrightarrow> tq_inv (ba_rbuffer a) \<and>
        (\<forall>d \<in> set (tq_queue (ba_rbuffer a)). rd_isClosed d \<or> message_ok s d))"

text \<open>Every group works off adapters that exist.\<close>

definition groups_ok :: "epoll_server \<Rightarrow> bool" where
  "groups_ok s \<longleftrightarrow> (\<forall>g hg. es_groups s g = Some hg \<longrightarrow> (\<forall>kv \<in> set (hg_adapters hg). es_adapters s (snd kv) \<noteq> None))"

text \<open>How many messages and commands wait, which no count may overflow.\<close>

definition adapter_backlog :: "(nat \<Rightarrow> bind_adapter option) \<Rightarrow> nat" where
  "adapter_backlog A = (\<Sum>p \<in> dom A. length (tq_queue (ba_rbuffer (the (A p)))))"

definition thread_backlog :: "net_thread list \<Rightarrow> nat" where
  "thread_backlog ths = sum_list (map (\<lambda>th. length (tq_queue (nt_sbuffer th))) ths)"

definition backlog :: "epoll_server \<Rightarrow> nat" where
  "backlog s = adapter_backlog (es_adapters s) + thread_backlog (es_netThreads s)"

definition server_inv :: "epoll_server \<Rightarrow> bool" where
  "server_inv s \<longleftrightarrow> es_netThreads s \<noteq> [] \<and> (\<forall>t < length (es_netThreads s). thread_ok s t) \<and> adapters_ok s \<and>
     groups_ok s \<and> (\<forall>p \<ge> es_conn_next s. es_conns s p = None) \<and> - 1 \<notin> set (net_open (es_net s))"

text \<open>What is there stays.\<close>

definition thread_later :: "net_thread \<Rightarrow> net_thread \<Rightarrow> bool" where
  "thread_later th th' \<longleftrightarrow> nt_uid_connection th \<subseteq>\<^sub>m nt_uid_connection th' \<and>
     fst ` set (nt_listeners th) \<subseteq> fst ` set (nt_listeners th') \<and> (\<exists>ids. nt_free th = ids @ nt_free th')"

definition later :: "epoll_server \<Rightarrow> epoll_server \<Rightarrow> bool" where
  "later s s' \<longleftrightarrow> length (es_netThreads s') = length (es_netThreads s) \<and>
     (\<forall>t < length (es_netThreads s). thread_later (thread_at t s) (thread_at t s')) \<and>
     (\<forall>a. adapter_ok s a \<longrightarrow> adapter_ok s' a) \<and>
     (\<forall>p. map_option ba_name (es_adapters s' p) = map_option ba_name (es_adapters s p)) \<and>
     (\<forall>g. map_option hg_adapters (es_groups s' g) = map_option hg_adapters (es_groups s g))"

lemma thread_later_refl [simp]: "thread_later th th"
  by (simp add: thread_later_def)

lemma thread_later_trans: "thread_later th th1 \<Longrightarrow> thread_later th1 th2 \<Longrightarrow> thread_later th th2"
  unfolding thread_later_def by (auto intro: map_le_trans)

lemma thread_later_same:
  "nt_free th' = nt_free th \<Longrightarrow> nt_uid_connection th' = nt_uid_connection th \<Longrightarrow> nt_listeners th' = nt_listeners th \<Longrightarrow>
   thread_later th th'"
  by (simp add: thread_later_def)

lemma later_refl: "later s s"
  by (simp add: later_def)

lemma later_trans: "later s s1 \<Longrightarrow> later s1 s2 \<Longrightarrow> later s s2"
  unfolding later_def by (auto intro: thread_later_trans)

lemma laterD:
  assumes "later s s'"
  shows "length (es_netThreads s') = length (es_netThreads s)"
    and "t < length (es_netThreads s) \<Longrightarrow> thread_later (thread_at t s) (thread_at t s')"
    and "adapter_ok s a \<Longrightarrow> adapter_ok s' a"
    and "map_option ba_name (es_adapters s' p) = map_option ba_name (es_adapters s p)"
    and "map_option hg_adapters (es_groups s' g) = map_option hg_adapters (es_groups s g)"
  using assms by (simp_all add: later_def)

lemma later_adapters: "later s s' \<Longrightarrow> es_adapters s' p \<noteq> None \<longleftrightarrow> es_adapters s p \<noteq> None"
  using laterD(4) [of s s' p] by (cases "es_adapters s p"; cases "es_adapters s' p") auto

lemma thread_of_less: "getNetThreadOfFd fd s = Some t \<Longrightarrow> t < length (es_netThreads s)"
  by (auto simp: getNetThreadOfFd_def split: if_splits)

lemma thread_of_length:
  "length (es_netThreads s') = length (es_netThreads s) \<Longrightarrow> getNetThreadOfFd fd s' = getNetThreadOfFd fd s"
  by (cases "es_netThreads s"; cases "es_netThreads s'") (simp_all add: getNetThreadOfFd_def)

lemma later_thread: "later s s' \<Longrightarrow> getNetThreadOfFd fd s' = getNetThreadOfFd fd s"
  by (rule thread_of_length) (simp add: later_def)

lemma later_uid:
  assumes "later s s'" and "t < length (es_netThreads s)" and "nt_uid_connection (thread_at t s) uid = Some p"
  shows "nt_uid_connection (thread_at t s') uid = Some p"
  using laterD(2) [OF assms(1,2)] assms(3) by (auto simp: thread_later_def map_le_def dom_def)

lemma later_message:
  assumes "later s s'" and "message_ok s d"
  shows "message_ok s' d"
proof -
  obtain t p where "getNetThreadOfFd (rd_fd d) s = Some t" "nt_uid_connection (thread_at t s) (rd_uid d) = Some p"
    using assms(2) by (auto simp: message_ok_def)
  then show ?thesis
    using later_thread [OF assms(1)] later_uid [OF assms(1) thread_of_less] by (auto simp: message_ok_def)
qed

section \<open>Frames\<close>

definition benign :: "server_conn \<Rightarrow> server_conn \<Rightarrow> bool" where
  "benign c c' \<longleftrightarrow> co_uid c' = co_uid c \<and> co_lfd c' = co_lfd c \<and> co_adapter c' = co_adapter c \<and>
     (co_fd c' = co_fd c \<or> co_fd c' = - 1) \<and> (co_sendbuffer c = [] \<longrightarrow> co_sendbuffer c' = [])"

definition conns_benign :: "epoll_server \<Rightarrow> epoll_server \<Rightarrow> bool" where
  "conns_benign s s' \<longleftrightarrow> (\<forall>p c. es_conns s p = Some c \<longrightarrow> (\<exists>c'. es_conns s' p = Some c' \<and> benign c c'))"

lemma benign_refl [simp]: "benign c c"
  by (simp add: benign_def)

lemma conns_same: "es_conns s' = es_conns s \<Longrightarrow> conns_benign s s'"
  by (simp add: conns_benign_def)

lemma conn_ok_later:
  assumes "conn_ok s t uid p" and l: "later s s'" and b: "conns_benign s s'"
  shows "conn_ok s' t uid p"
proof -
  obtain c where c: "es_conns s p = Some c" "co_uid c = uid" "co_lfd c \<noteq> - 1" "adapter_ok s (co_adapter c)"
    "co_sendbuffer c = []" "co_fd c \<noteq> - 1 \<longrightarrow> getNetThreadOfFd (co_fd c) s = Some t"
    using assms(1) by (auto simp: conn_ok_def)
  obtain c' where "es_conns s' p = Some c'" "benign c c'" using b c(1) by (auto simp: conns_benign_def)
  moreover have "adapter_ok s' (co_adapter c)" using l c(4) by (simp add: later_def)
  ultimately show ?thesis
    using c later_thread [OF l] by (auto simp: conn_ok_def benign_def)
qed

text \<open>A thread whose tables are as they were.\<close>

lemma thread_ok_later:
  assumes "thread_ok s t" and l: "later s s'" and b: "conns_benign s s'"
    and same: "nt_free (thread_at t s') = nt_free (thread_at t s)"
      "nt_uid_connection (thread_at t s') = nt_uid_connection (thread_at t s)"
      "nt_listeners (thread_at t s') = nt_listeners (thread_at t s)"
    and q: "tq_inv (nt_sbuffer (thread_at t s'))"
      "\<forall>d \<in> set (tq_queue (nt_sbuffer (thread_at t s'))). command_ok (thread_at t s) d"
  shows "thread_ok s' t"
proof -
  have "adapter_ok s a \<Longrightarrow> adapter_ok s' a" for a using l by (simp add: later_def)
  moreover have "command_ok (thread_at t s) d \<Longrightarrow> command_ok (thread_at t s') d" for d
    by (simp add: command_ok_def same)
  ultimately show ?thesis
    using assms(1) conn_ok_later [OF _ l b] q unfolding thread_ok_def Let_def same by blast
qed

lemma server_invD:
  assumes "server_inv s"
  shows "es_netThreads s \<noteq> []" and "\<And>t. t < length (es_netThreads s) \<Longrightarrow> thread_ok s t" and "adapters_ok s"
    and "groups_ok s" and "\<And>p. es_conn_next s \<le> p \<Longrightarrow> es_conns s p = None" and "- 1 \<notin> set (net_open (es_net s))"
  using assms by (simp_all add: server_inv_def)

lemma thread_okD:
  assumes "thread_ok s t"
  shows "distinct (nt_free (thread_at t s))"
    and "uid \<in> set (nt_free (thread_at t s)) \<Longrightarrow> nt_uid_connection (thread_at t s) uid = None"
    and "nt_uid_connection (thread_at t s) uid = Some p \<Longrightarrow> conn_ok s t uid p"
    and "tq_inv (nt_sbuffer (thread_at t s))"
    and "d \<in> set (tq_queue (nt_sbuffer (thread_at t s))) \<Longrightarrow> command_ok (thread_at t s) d"
    and "kv \<in> set (nt_listeners (thread_at t s)) \<Longrightarrow> fst kv \<noteq> - 1 \<and> adapter_ok s (snd kv)"
  using assms by (auto simp: thread_ok_def Let_def)

definition fine :: "nat \<Rightarrow> epoll_server \<Rightarrow> epoll_server \<Rightarrow> bool" where
  "fine k s s' \<longleftrightarrow> server_inv s' \<and> later s s' \<and> backlog s' \<le> backlog s + k"

lemma fineD: "fine k s s' \<Longrightarrow> server_inv s'" "fine k s s' \<Longrightarrow> later s s'" "fine k s s' \<Longrightarrow> backlog s' \<le> backlog s + k"
  by (simp_all add: fine_def)

lemma fine_refl: "server_inv s \<Longrightarrow> fine 0 s s"
  by (simp add: fine_def later_refl)

lemma fine_trans: "fine j s s1 \<Longrightarrow> fine k s1 s2 \<Longrightarrow> fine (j + k) s s2"
  unfolding fine_def by (auto intro: later_trans)

lemma fine_then: "fine k s s1 \<Longrightarrow> fine 0 s1 s2 \<Longrightarrow> fine k s s2"
  using fine_trans [of k s s1 0] by simp

lemma fine_first: "fine 0 s s1 \<Longrightarrow> fine k s1 s2 \<Longrightarrow> fine k s s2"
  using fine_trans [of 0 s s1 k] by simp

lemma fine_mono: "fine j s s' \<Longrightarrow> j \<le> k \<Longrightarrow> fine k s s'"
  by (auto simp: fine_def)

text \<open>Connections and the kernel change, and nothing else.\<close>

lemma conn_change:
  assumes inv: "server_inv s" and c: "es_conns s p = Some c" "benign c c'" and n: "- 1 \<notin> set (net_open n')"
  shows "fine 0 s (s\<lparr>es_conns := (es_conns s)(p \<mapsto> c'), es_net := n'\<rparr>)" (is "fine 0 s ?s")
proof -
  have at: "thread_at t ?s = thread_at t s" for t by (simp add: thread_at_def)
  have ad: "adapter_ok ?s = adapter_ok s" by (simp add: adapter_ok_def fun_eq_iff)
  have th: "getNetThreadOfFd fd ?s = getNetThreadOfFd fd s" for fd by (rule thread_of_length) simp
  have l: "later s ?s" by (simp add: later_def at ad)
  have b: "conns_benign s ?s" using c by (simp add: conns_benign_def)
  have "thread_ok ?s t" if "t < length (es_netThreads s)" for t
    using thread_ok_later [OF server_invD(2) [OF inv that] l b] thread_okD(4,5) [OF server_invD(2) [OF inv that]]
    by (simp add: at)
  moreover have "message_ok ?s d = message_ok s d" for d by (simp add: message_ok_def th at)
  then have "adapters_ok ?s" using server_invD(3) [OF inv] by (simp add: adapters_ok_def)
  moreover have "groups_ok ?s" using server_invD(4) [OF inv] by (simp add: groups_ok_def)
  moreover have "p < es_conn_next s" using server_invD(5) [OF inv, of p] c(1) by (cases "p < es_conn_next s") auto
  ultimately have "server_inv ?s" using server_invD(1,5) [OF inv] n by (simp add: server_inv_def)
  then show ?thesis using l by (simp add: fine_def backlog_def)
qed

lemma on_conn_safe:
  assumes inv: "server_inv s" and c: "es_conns s p = Some c" and m: "m (c, es_net s) = (Ok a, (c', n'))"
    and b: "benign c c'" and n: "- 1 \<notin> set (net_open n')"
    and Q: "\<And>s'. fine 0 s s' \<Longrightarrow> es_conns s' p = Some c' \<Longrightarrow> es_netThreads s' = es_netThreads s \<Longrightarrow> Q a s'"
  shows "safe (on_conn (Some p) m) s Q"
  using Q [OF conn_change [OF inv c b n]] c m by (simp add: safe_def on_conn_def)

lemma conn_get_safe:
  assumes "es_conns s p = Some c" and "Q c s"
  shows "safe (conn_get (Some p)) s Q"
  using assms by (cases s) (simp add: safe_def conn_get_def on_conn_def fun_upd_idem)

section \<open>Adapters\<close>

lemma adapter_backlog_update:
  assumes "finite (dom A)" and "A p = Some a"
  shows "adapter_backlog (A(p \<mapsto> a')) + length (tq_queue (ba_rbuffer a)) =
    adapter_backlog A + length (tq_queue (ba_rbuffer a'))"
proof -
  have d: "dom (A(p \<mapsto> a')) = dom A" "p \<in> dom A" using assms(2) by auto
  have "(\<Sum>x \<in> dom A - {p}. length (tq_queue (ba_rbuffer (the ((A(p \<mapsto> a')) x))))) =
      (\<Sum>x \<in> dom A - {p}. length (tq_queue (ba_rbuffer (the (A x)))))"
    by (rule sum.cong) auto
  then show ?thesis
    using assms d by (simp add: adapter_backlog_def sum.remove [OF assms(1) d(2)])
qed

lemma adapter_queue_backlog:
  assumes "finite (dom A)" and "A p = Some a"
  shows "length (tq_queue (ba_rbuffer a)) \<le> adapter_backlog A"
  using member_le_sum [of p "dom A" "\<lambda>p. length (tq_queue (ba_rbuffer (the (A p))))"] assms
  by (auto simp: adapter_backlog_def)

text \<open>One adapter changes but for its name and group, and notifications are counted.\<close>

lemma adapter_change:
  assumes inv: "server_inv s" and a: "es_adapters s p = Some a"
    and same: "ba_name a' = ba_name a" "ba_handleGroup a' = ba_handleGroup a" and q: "tq_inv (ba_rbuffer a')"
    and ms: "\<forall>d \<in> set (tq_queue (ba_rbuffer a')). rd_isClosed d \<or> message_ok s d"
    and g: "\<forall>x. map_option hg_adapters (G x) = map_option hg_adapters (es_groups s x)"
    and k: "length (tq_queue (ba_rbuffer a')) \<le> length (tq_queue (ba_rbuffer a)) + k"
  shows "fine k s (s\<lparr>es_adapters := (es_adapters s)(p \<mapsto> a'), es_groups := G\<rparr>)" (is "fine k s ?s")
proof -
  have at: "thread_at t ?s = thread_at t s" for t by (simp add: thread_at_def)
  have G: "G x = None \<longleftrightarrow> es_groups s x = None" for x using g [rule_format, of x] by (metis map_option_is_None)
  have ad: "adapter_ok ?s b = adapter_ok s b" for b using a same by (auto simp: adapter_ok_def G)
  have th: "getNetThreadOfFd fd ?s = getNetThreadOfFd fd s" for fd by (rule thread_of_length) simp
  have l: "later s ?s" using a g same by (auto simp: later_def at ad)
  have "thread_ok ?s t" if "t < length (es_netThreads s)" for t
    using thread_ok_later [OF server_invD(2) [OF inv that] l] thread_okD(4,5) [OF server_invD(2) [OF inv that]]
    by (simp add: at conns_same)
  moreover have mo: "message_ok ?s d = message_ok s d" for d by (simp add: message_ok_def th at)
  have "adapters_ok ?s" using server_invD(3) [OF inv] q ms unfolding adapters_ok_def mo by auto
  moreover have "groups_ok ?s"
    unfolding groups_ok_def
  proof (intro allI impI ballI)
    fix x hg kv assume "es_groups ?s x = Some hg" "kv \<in> set (hg_adapters hg)"
    moreover from this obtain hg0 where "es_groups s x = Some hg0" "hg_adapters hg0 = hg_adapters hg"
      using g [rule_format, of x] by (cases "es_groups s x") auto
    ultimately have "es_adapters s (snd kv) \<noteq> None" using server_invD(4) [OF inv] by (metis groups_ok_def)
    then show "es_adapters ?s (snd kv) \<noteq> None" by auto
  qed
  ultimately have "server_inv ?s" using server_invD(1,5,6) [OF inv] by (simp add: server_inv_def)
  moreover have "finite (dom (es_adapters s))" using server_invD(3) [OF inv] by (simp add: adapters_ok_def)
  ultimately show ?thesis
    using l k adapter_backlog_update [of "es_adapters s" p a a'] a by (simp add: fine_def backlog_def)
qed

lemma insertRecvQueue_safe:
  assumes inv: "server_inv s" and a: "adapter_ok s ad" and ms: "\<forall>d \<in> set v. rd_isClosed d \<or> message_ok s d"
    and Q: "\<And>s'. fine (length v) s s' \<Longrightarrow> es_conns s' = es_conns s \<Longrightarrow> es_netThreads s' = es_netThreads s \<Longrightarrow>
      es_net s' = es_net s \<Longrightarrow> Q () s'"
  shows "safe (insertRecvQueue ad v True) s Q"
proof -
  obtain p b g hg where p: "ad = Some p" "es_adapters s p = Some b" "ba_handleGroup b = Some g" "es_groups s g = Some hg"
    using a by (auto simp: adapter_ok_def)
  have b: "tq_inv (ba_rbuffer b)" "\<forall>d \<in> set (tq_queue (ba_rbuffer b)). rd_isClosed d \<or> message_ok s d"
    using server_invD(3) [OF inv] p(2) by (auto simp: adapters_ok_def)
  let ?q = "tq_push_back_all v (ba_rbuffer b)"
  let ?G = "(es_groups s)(g \<mapsto> hg\<lparr>hg_notified := hg_notified hg + 1\<rparr>)"
  have q: "tq_inv ?q" "tq_queue ?q = tq_queue (ba_rbuffer b) @ v" using tq_push_back_all_spec [OF b(1)] by simp_all
  have "fine (length v) s (s\<lparr>es_adapters := (es_adapters s)(p \<mapsto> b\<lparr>ba_rbuffer := ?q\<rparr>), es_groups := ?G\<rparr>)"
    by (rule adapter_change [OF inv p(2)]) (use q b ms p(4) in auto)
  from Q [OF this] show ?thesis
    using p by (simp add: safe_def insertRecvQueue_def group_notify_def)
qed

text \<open>A message is taken; there is a bound on the counter only.\<close>

lemma waitForRecvQueue_safe:
  assumes inv: "server_inv s" and a: "es_adapters s p = Some a" and small: "backlog s < size_max"
    and none: "tq_queue (ba_rbuffer a) = [] \<Longrightarrow> Q None s"
    and some: "\<And>d ds s'. tq_queue (ba_rbuffer a) = d # ds \<Longrightarrow> fine 0 s s' \<Longrightarrow> Suc (backlog s') = backlog s \<Longrightarrow>
      es_netThreads s' = es_netThreads s \<Longrightarrow> es_groups s' = es_groups s \<Longrightarrow> queue_length p s' = length ds \<Longrightarrow>
      rd_isClosed d \<or> message_ok s' d \<Longrightarrow> Q (Some d) s'"
  shows "safe (waitForRecvQueue p) s Q"
proof (cases "tq_queue (ba_rbuffer a)")
  case Nil
  then have "waitForRecvQueue p s = (Ok None, s)"
    using a by (cases s) (simp add: waitForRecvQueue_def tq_pop_front_nowait fun_upd_idem)
  then show ?thesis using none Nil by (simp add: safe_def)
next
  case (Cons d ds)
  have ok: "finite (dom (es_adapters s))" "tq_inv (ba_rbuffer a)"
    "\<forall>d \<in> set (tq_queue (ba_rbuffer a)). rd_isClosed d \<or> message_ok s d"
    using server_invD(3) [OF inv] a by (auto simp: adapters_ok_def)
  have "length (tq_queue (ba_rbuffer a)) < size_max"
    using adapter_queue_backlog [OF ok(1) a] small by (simp add: backlog_def)
  then have pop: "tq_pop_front NoWait (\<lambda>q. (False, q)) (ba_rbuffer a) = (Ok (Some d), \<lparr>tq_queue = ds, tq_size = length ds\<rparr>)"
    and len: "length ds < size_max"
    using tq_pop_front_spec [OF ok(2) _ Cons, of NoWait "\<lambda>q. (False, q)"] Cons by (simp_all add: tq_small_def)
  let ?q = "\<lparr>tq_queue = ds, tq_size = length ds\<rparr>"
  let ?s = "s\<lparr>es_adapters := (es_adapters s)(p \<mapsto> a\<lparr>ba_rbuffer := ?q\<rparr>)\<rparr>"
  have "fine 0 s (s\<lparr>es_adapters := (es_adapters s)(p \<mapsto> a\<lparr>ba_rbuffer := ?q\<rparr>), es_groups := es_groups s\<rparr>)"
    by (rule adapter_change [OF inv a]) (use len ok(3) Cons in \<open>auto simp: tq_inv_def\<close>)
  moreover have "s\<lparr>es_adapters := A, es_groups := es_groups s\<rparr> = s\<lparr>es_adapters := A\<rparr>" for A by (cases s) simp
  ultimately have f: "fine 0 s ?s" by simp
  have "Suc (backlog ?s) = backlog s"
    using adapter_backlog_update [of "es_adapters s" p a "a\<lparr>ba_rbuffer := ?q\<rparr>"] ok(1) a Cons by (simp add: backlog_def)
  moreover have "rd_isClosed d \<or> message_ok ?s d" using later_message [OF fineD(2) [OF f]] ok(3) Cons by auto
  ultimately have "Q (Some d) ?s"
    using f by (intro some [OF Cons]) (simp_all add: queue_length_def)
  then show ?thesis using a pop by (simp add: safe_def waitForRecvQueue_def)
qed

section \<open>Network threads\<close>

lemma thread_backlog_update:
  assumes "t < length ths"
  shows "thread_backlog (ths[t := th]) + length (tq_queue (nt_sbuffer (ths ! t))) =
    thread_backlog ths + length (tq_queue (nt_sbuffer th))"
  using assms by (induction ths arbitrary: t) (auto simp: thread_backlog_def nth_Cons' split: nat.split)

lemma thread_queue_backlog:
  "t < length ths \<Longrightarrow> length (tq_queue (nt_sbuffer (ths ! t))) \<le> thread_backlog ths"
  using thread_backlog_update [of t ths "(ths ! t)\<lparr>nt_sbuffer := ThreadQueue_init\<rparr>"]
  by (simp add: ThreadQueue_init_def)

lemma thread_at_update:
  "t < length (es_netThreads s) \<Longrightarrow>
   thread_at t' (s\<lparr>es_netThreads := (es_netThreads s)[t := th]\<rparr>) = (if t' = t then th else thread_at t' s)"
  by (simp add: thread_at_def nth_list_update)

text \<open>The tables of the thread stay, its queue of commands and what it watches change.\<close>

lemma thread_change:
  assumes inv: "server_inv s" and t: "t < length (es_netThreads s)"
    and same: "nt_free th = nt_free (thread_at t s)" "nt_uid_connection th = nt_uid_connection (thread_at t s)"
      "nt_listeners th = nt_listeners (thread_at t s)"
    and q: "tq_inv (nt_sbuffer th)" "\<forall>d \<in> set (tq_queue (nt_sbuffer th)). command_ok (thread_at t s) d"
    and k: "length (tq_queue (nt_sbuffer th)) \<le> length (tq_queue (nt_sbuffer (thread_at t s))) + k"
  shows "fine k s (s\<lparr>es_netThreads := (es_netThreads s)[t := th]\<rparr>)" (is "fine k s ?s")
proof -
  note at = thread_at_update [OF t, of _ th]
  have ad: "adapter_ok ?s = adapter_ok s" by (simp add: adapter_ok_def fun_eq_iff)
  have uid: "nt_uid_connection (thread_at t' ?s) = nt_uid_connection (thread_at t' s)" for t'
    by (simp add: at same)
  have th: "getNetThreadOfFd fd ?s = getNetThreadOfFd fd s" for fd by (rule thread_of_length) simp
  have l: "later s ?s" by (simp add: later_def thread_later_same ad at same)
  have "thread_ok ?s t'" if "t' < length (es_netThreads s)" for t'
    by (rule thread_ok_later [OF server_invD(2) [OF inv that] l])
      (use thread_okD(4,5) [OF server_invD(2) [OF inv that]] q in \<open>auto simp: at same conns_same\<close>)
  moreover have "message_ok ?s d = message_ok s d" for d by (simp add: message_ok_def th uid)
  then have "adapters_ok ?s" using server_invD(3) [OF inv] by (simp add: adapters_ok_def)
  moreover have "groups_ok ?s" using server_invD(4) [OF inv] by (simp add: groups_ok_def)
  ultimately have "server_inv ?s" using server_invD(1,5,6) [OF inv] by (simp add: server_inv_def)
  then show ?thesis
    using l k thread_backlog_update [OF t, of th] by (simp add: fine_def backlog_def thread_at_def)
qed

lemma thread_watch_safe:
  assumes inv: "server_inv s" and t: "t < length (es_netThreads s)"
    and Q: "\<And>s'. fine 0 s s' \<Longrightarrow> es_conns s' = es_conns s \<Longrightarrow> es_net s' = es_net s \<Longrightarrow>
      nt_sbuffer (thread_at t s') = nt_sbuffer (thread_at t s) \<Longrightarrow> Q () s'"
  shows "safe (thread_update t (\<lambda>th. th\<lparr>nt_epoll := f th\<rparr>)) s Q"
proof -
  let ?th = "(thread_at t s)\<lparr>nt_epoll := f (thread_at t s)\<rparr>"
  note ok = thread_okD(4,5) [OF server_invD(2) [OF inv t]]
  have "fine 0 s (s\<lparr>es_netThreads := (es_netThreads s)[t := ?th]\<rparr>)"
    by (rule thread_change [OF inv t]) (use ok in simp_all)
  from Q [OF this] show ?thesis
    using thread_at_update [OF t] by (simp add: safe_def thread_update_def)
qed

lemma nt_command_safe:
  assumes inv: "server_inv s" and t: "t < length (es_netThreads s)" and d: "command_ok (thread_at t s) d"
    and Q: "\<And>s'. fine 1 s s' \<Longrightarrow> es_adapters s' = es_adapters s \<Longrightarrow> es_groups s' = es_groups s \<Longrightarrow> Q () s'"
  shows "safe (nt_command t d) s Q"
proof -
  note ok = thread_okD(4,5) [OF server_invD(2) [OF inv t]]
  let ?f = "\<lambda>th. th\<lparr>nt_sbuffer := tq_push_back d (nt_sbuffer th),
     nt_epoll := epoll_mod (nt_notify th) (H64 ET_NOTIFY) EPOLLOUT (nt_epoll th)\<rparr>"
  have "fine 1 s (s\<lparr>es_netThreads := (es_netThreads s)[t := ?f (thread_at t s)]\<rparr>)"
    by (rule thread_change [OF inv t]) (use tq_push_back_spec [OF ok(1), of d] ok d in auto)
  from Q [OF this] show ?thesis by (simp add: safe_def nt_command_def thread_update_def)
qed

lemma es_send_safe:
  assumes inv: "server_inv s" and m: "message_ok s d"
    and Q: "\<And>s'. fine 1 s s' \<Longrightarrow> es_adapters s' = es_adapters s \<Longrightarrow> es_groups s' = es_groups s \<Longrightarrow> Q () s'"
  shows "safe (es_send (rd_uid d) buf ip port (rd_fd d)) s Q"
proof -
  obtain t where t: "getNetThreadOfFd (rd_fd d) s = Some t" "nt_uid_connection (thread_at t s) (rd_uid d) \<noteq> None"
    using m by (auto simp: message_ok_def)
  show ?thesis
  proof (cases "nt_bTerminate (thread_at t s)")
    case True
    have "fine 1 s s" using fine_refl [OF inv] by (rule fine_mono) simp
    from Q [OF this] show ?thesis using t True by (simp add: es_send_def nt_send_def safe_def)
  next
    case False
    then have eq: "es_send (rd_uid d) buf ip port (rd_fd d) s =
        nt_command t \<lparr>sd_cmd = CHR ''s'', sd_uid = rd_uid d, sd_buffer = buf, sd_ip = ip, sd_port = Some port\<rparr> s"
      using t by (simp add: es_send_def nt_send_def)
    show ?thesis
      using nt_command_safe [OF inv thread_of_less [OF t(1)], of "\<lparr>sd_cmd = CHR ''s'', sd_uid = rd_uid d,
          sd_buffer = buf, sd_ip = ip, sd_port = Some port\<rparr>" Q] t(2) Q
      by (simp add: safe_def eq command_ok_def)
  qed
qed

lemma es_close_safe:
  assumes inv: "server_inv s"
    and Q: "\<And>s'. fine 1 s s' \<Longrightarrow> es_adapters s' = es_adapters s \<Longrightarrow> es_groups s' = es_groups s \<Longrightarrow> Q () s'"
  shows "safe (es_close uid fd) s Q"
proof -
  obtain t where t: "getNetThreadOfFd fd s = Some t"
    using server_invD(1) [OF inv] by (auto simp: getNetThreadOfFd_def)
  then have "es_close uid fd s =
      nt_command t \<lparr>sd_cmd = CHR ''c'', sd_uid = uid, sd_buffer = [], sd_ip = [], sd_port = None\<rparr> s"
    by (simp add: es_close_def nt_close_def)
  then show ?thesis
    using nt_command_safe [OF inv thread_of_less [OF t], of "\<lparr>sd_cmd = CHR ''c'', sd_uid = uid, sd_buffer = [],
        sd_ip = [], sd_port = None\<rparr>" Q] Q
    by (simp add: safe_def command_ok_def)
qed

section \<open>Events of the network\<close>

lemma k_readv_open:
  assumes "k_readv fd room n = ((r, again), n')"
  shows "net_open n' = net_open n" and "net_wire n' = net_wire n" and "fd \<notin> set (net_open n) \<Longrightarrow> r = None \<and> \<not> again"
  using assms by (auto simp: k_readv_def split: if_splits list.splits read_answer.splits)

lemma recv_loop_open:
  assumes "recv_loop fd buf n = ((b, buf'), n')"
  shows "net_open n' = net_open n \<and> net_wire n' = net_wire n"
  using assms
proof (induction fd buf n rule: recv_loop.induct)
  case (1 fd buf n)
  obtain r again n1 where k: "k_readv fd 32768 n = ((r, again), n1)" by (metis prod.exhaust)
  note k_readv_open(1,2) [OF k]
  then show ?case
    using 1 k by (subst (asm) (2) recv_loop.simps) (auto split: option.splits if_splits)
qed

lemma recv_loop_closed: "fd \<notin> set (net_open n) \<Longrightarrow> recv_loop fd buf n = ((False, buf), n)"
  by (subst recv_loop.simps) (simp add: k_readv_def)

lemma conn_get_eq: "es_conns s p = Some c \<Longrightarrow> conn_get (Some p) s = (Ok c, s)"
  by (cases s) (simp add: conn_get_def on_conn_def fun_upd_idem)

lemma delConnection_safe:
  assumes inv: "server_inv s" and t: "t < length (es_netThreads s)" and p: "nt_uid_connection (thread_at t s) uid = Some p"
    and Q: "\<And>s'. fine 1 s s' \<Longrightarrow> Q () s'"
  shows "safe (delConnection t (Some p) closeType) s Q"
proof -
  obtain c where c: "es_conns s p = Some c" "co_lfd c \<noteq> - 1" "adapter_ok s (co_adapter c)"
    using thread_okD(3) [OF server_invD(2) [OF inv t] p] by (auto simp: conn_ok_def)
  let ?P = "\<lambda>_ s1. fine 1 s s1 \<and> es_conns s1 p = Some c"
  have "safe (andthen (insertRecvQueue (co_adapter c) [close_message c closeType] True) (\<lambda>_.
     andthen (thread_update t (\<lambda>th. th\<lparr>nt_epoll := epoll_del (co_fd c) (nt_epoll th)\<rparr>)) (\<lambda>_.
     on_conn (Some p) (\<lambda>cn. (Ok (), conn_close cn))))) s Q"
  proof (rule safe_andthen [where P = ?P])
    show "safe (insertRecvQueue (co_adapter c) [close_message c closeType] True) s ?P"
      by (rule insertRecvQueue_safe [OF inv c(3)]) (simp_all add: c(1) close_message_def)
    fix s1 assume s1: "?P () s1"
    then have t1: "t < length (es_netThreads s1)" using t by (auto simp: fine_def later_def)
    show "safe (andthen (thread_update t (\<lambda>th. th\<lparr>nt_epoll := epoll_del (co_fd c) (nt_epoll th)\<rparr>)) (\<lambda>_.
       on_conn (Some p) (\<lambda>cn. (Ok (), conn_close cn)))) s1 Q"
    proof (rule safe_andthen [where P = ?P])
      show "safe (thread_update t (\<lambda>th. th\<lparr>nt_epoll := epoll_del (co_fd c) (nt_epoll th)\<rparr>)) s1 ?P"
        by (rule thread_watch_safe [OF _ t1]) (use s1 fine_then fineD(1) in \<open>auto 0 3\<close>)
      fix s2 assume s2: "?P () s2"
      then have inv2: "server_inv s2" using fineD(1) by blast
      obtain c' n' where close: "conn_close (c, es_net s2) = (c', n')" by (metis prod.exhaust)
      have "benign c c'" "- 1 \<notin> set (net_open n')"
        using close server_invD(6) [OF inv2] by (auto simp: conn_close_def benign_def k_close_def split: if_splits)
      moreover have "es_conns s2 p = Some c" using s2 by blast
      ultimately show "safe (on_conn (Some p) (\<lambda>cn. (Ok (), conn_close cn))) s2 Q"
        using close s2 by (intro on_conn_safe [OF inv2]) (auto intro!: Q dest: fine_then)
    qed
  qed
  then show ?thesis using c by (simp add: delConnection_def safe_def andthen_Ok [OF conn_get_eq])
qed

lemma conn_recv_result:
  assumes "conn_recv (c, n) = (r, (c', n'))"
  shows "benign c c'" and "net_open n' = net_open n"
    and "\<exists>k v. r = Ok (k, v) \<and> (v \<noteq> [] \<longrightarrow> co_fd c \<in> set (net_open n) \<and>
      (\<exists>d. v = [d] \<and> rd_uid d = co_uid c \<and> rd_fd d = co_fd c \<and> \<not> rd_isClosed d))"
proof -
  obtain b buf m where l: "recv_loop (co_fd c) (co_recvbuffer c) n = ((b, buf), m)" by (metis prod.exhaust)
  show "benign c c'" "net_open n' = net_open n"
    using assms l recv_loop_open [OF l] by (auto simp: conn_recv_def benign_def split: if_splits bool.splits)
  show "\<exists>k v. r = Ok (k, v) \<and> (v \<noteq> [] \<longrightarrow> co_fd c \<in> set (net_open n) \<and>
      (\<exists>d. v = [d] \<and> rd_uid d = co_uid c \<and> rd_fd d = co_fd c \<and> \<not> rd_isClosed d))"
    using assms l recv_loop_closed [of "co_fd c" n "co_recvbuffer c"]
    by (cases b; cases "co_fd c \<in> set (net_open n)") (auto simp: conn_recv_def split: if_splits)
qed

text \<open>Nothing ever waits to be sent, so only the given bytes are tried.\<close>

lemma conn_send_empty: "co_sendbuffer c = [] \<Longrightarrow> conn_send i (c, n) = (Ok 0, (c, n))"
  by (simp add: conn_send_def)

lemma conn_send_buffer_result:
  assumes "co_sendbuffer c = []"
  shows "\<exists>r n'. conn_send_buffer i buf False (c, n) = (Ok r, (c, n')) \<and> net_open n' = net_open n"
proof -
  obtain r again n' where k: "k_send (co_fd c) buf n = ((r, again), n')" by (metis prod.exhaust)
  then have "net_open n' = net_open n" using k_send_spec by blast
  then show ?thesis
    using assms k by (auto simp: conn_send_buffer_def andthen_def tcpSend_def ret_def)
qed

lemma uid_conn:
  assumes "server_inv s" and "t < length (es_netThreads s)" and "nt_uid_connection (thread_at t s) uid = Some p"
  obtains c where "es_conns s p = Some c" and "co_uid c = uid" and "co_lfd c \<noteq> - 1" and "adapter_ok s (co_adapter c)"
    and "co_sendbuffer c = []" and "co_fd c \<noteq> - 1 \<Longrightarrow> getNetThreadOfFd (co_fd c) s = Some t"
  using thread_okD(3) [OF server_invD(2) [OF assms(1,2)] assms(3)] that by (auto simp: conn_ok_def)

lemma later_lengths: "later s s' \<Longrightarrow> length (es_netThreads s') = length (es_netThreads s)"
  by (simp add: later_def)

lemma processNet_safe:
  assumes inv: "server_inv s" and t: "t < length (es_netThreads s)"
    and p: "nt_uid_connection (thread_at t s) (ucast data) = Some p"
    and Q: "\<And>s'. fine 1 s s' \<Longrightarrow> Q () s'"
  shows "safe (processNet t data events) s Q"
proof -
  obtain c where c: "es_conns s p = Some c" "co_uid c = ucast data" "adapter_ok s (co_adapter c)" "co_sendbuffer c = []"
    "co_fd c \<noteq> - 1 \<Longrightarrow> getNetThreadOfFd (co_fd c) s = Some t"
    using uid_conn [OF inv t p] by metis
  let ?P = "\<lambda>(_ :: bool) s1. fine 1 s s1 \<and> (\<exists>c1. es_conns s1 p = Some c1 \<and> co_sendbuffer c1 = [])"
  let ?P1 = "\<lambda>(rv :: int \<times> recv_data list) s1. fine 0 s s1 \<and> length (snd rv) \<le> 1 \<and> (\<forall>d \<in> set (snd rv). message_ok s1 d)"
  let ?in = "andthen (on_conn (Some p) conn_recv) (\<lambda>(r, vRecvData).
     if r < 0 then andthen (delConnection t (Some p) EM_CLIENT_CLOSE) (\<lambda>_. ret False)
     else if vRecvData \<noteq> [] then andthen (insertRecvQueue (co_adapter c) vRecvData True) (\<lambda>_. ret True)
     else ret True)"
  have conn: "\<exists>c1. es_conns s1 p = Some c1 \<and> co_sendbuffer c1 = []" if f: "fine k s s1" for k s1
  proof -
    have "t < length (es_netThreads s1)" "nt_uid_connection (thread_at t s1) (ucast data) = Some p"
      using f t p later_uid [OF fineD(2) [OF f]] by (auto simp: fine_def later_def)
    then show ?thesis using uid_conn [OF fineD(1) [OF f]] by metis
  qed
  have input: "safe ?in s ?P"
  proof (rule safe_andthen [where P = ?P1])
    obtain r c' n' where m: "conn_recv (c, es_net s) = (r, (c', n'))" by (metis prod.exhaust)
    obtain k v where v: "r = Ok (k, v)" "v \<noteq> [] \<longrightarrow> co_fd c \<in> set (net_open (es_net s)) \<and>
      (\<exists>d. v = [d] \<and> rd_uid d = co_uid c \<and> rd_fd d = co_fd c \<and> \<not> rd_isClosed d)"
      using conn_recv_result(3) [OF m] by blast
    have ok: "message_ok s d" if "d \<in> set v" for d
    proof -
      have "co_fd c \<noteq> - 1" using that v(2) server_invD(6) [OF inv] by (metis empty_iff empty_set)
      moreover have "rd_uid d = co_uid c" "rd_fd d = co_fd c" using that v(2) by (cases v; auto)+
      ultimately show ?thesis using c(2,5) p by (simp add: message_ok_def)
    qed
    have one: "length v \<le> 1" using v(2) by (cases v) auto
    have open_ok: "- 1 \<notin> set (net_open n')"
      using conn_recv_result(2) [OF m] server_invD(6) [OF inv] by simp
    show "safe (on_conn (Some p) conn_recv) s ?P1"
      by (rule on_conn_safe [of s p c conn_recv "(k, v)" c' n'])
        (use inv c(1) m [unfolded v(1)] conn_recv_result(1) [OF m] open_ok ok one in \<open>auto intro: later_message fineD(2)\<close>)
    fix rv :: "int \<times> recv_data list" and s1 assume s1: "?P1 rv s1"
    obtain r v where rv: "rv = (r, v)" by (cases rv)
    then have f1: "fine 0 s s1" and v1: "length v \<le> 1" "\<forall>d \<in> set v. message_ok s1 d" using s1 by auto
    have t1: "t < length (es_netThreads s1)" "nt_uid_connection (thread_at t s1) (ucast data) = Some p"
      using t p later_uid [OF fineD(2) [OF f1]] f1 by (auto simp: fine_def later_def)
    have a1: "adapter_ok s1 (co_adapter c)" using f1 c(3) by (simp add: fine_def later_def)
    have del: "safe (andthen (delConnection t (Some p) EM_CLIENT_CLOSE) (\<lambda>_. ret False)) s1 ?P"
      by (rule safe_andthen [OF delConnection_safe [OF fineD(1) [OF f1] t1, of "\<lambda>_ s2. fine 1 s s2"]])
        (auto intro: fine_first [OF f1] safe_ret conn)
    have ins: "safe (andthen (insertRecvQueue (co_adapter c) v True) (\<lambda>_. ret True)) s1 ?P"
      by (rule safe_andthen [OF insertRecvQueue_safe [OF fineD(1) [OF f1] a1, of v "\<lambda>_ s2. fine 1 s s2"]])
        (use v1 in \<open>auto intro: fine_mono [OF fine_first [OF f1]] safe_ret conn\<close>)
    have "fine 1 s s1" using f1 by (rule fine_mono) simp
    then have stay: "safe (ret True) s1 ?P" by (auto intro: safe_ret conn)
    show "safe (case rv of (r, vRecvData) \<Rightarrow>
        if r < 0 then andthen (delConnection t (Some p) EM_CLIENT_CLOSE) (\<lambda>_. ret False)
        else if vRecvData \<noteq> [] then andthen (insertRecvQueue (co_adapter c) vRecvData True) (\<lambda>_. ret True)
        else ret True) s1 ?P"
      unfolding rv using del ins stay by simp
  qed
  have f0: "fine 1 s s" using fine_refl [OF inv] by (rule fine_mono) simp
  then have skip: "safe (ret True) s ?P" by (auto intro: safe_ret conn)
  have rest: "safe (andthen (if event_has events EPOLLIN then ?in else ret True) (\<lambda>go s.
        if go \<and> event_has events EPOLLOUT
        then andthen (on_conn (Some p) (conn_send (es_iov_max s))) (\<lambda>_. ret ()) s
        else (Ok (), s))) s Q"
  proof (rule safe_andthen [where P = ?P])
    show "safe (if event_has events EPOLLIN then ?in else ret True) s ?P" using input skip by simp
    fix go s1 assume "?P go s1"
    then obtain c1 where s1: "fine 1 s s1" "es_conns s1 p = Some c1" "co_sendbuffer c1 = []" by blast
    have "on_conn (Some p) (conn_send (es_iov_max s1)) s1 = (Ok 0, s1)"
      using s1 by (cases s1) (simp add: on_conn_def conn_send_empty fun_upd_idem)
    then show "safe (\<lambda>s. if go \<and> event_has events EPOLLOUT
        then andthen (on_conn (Some p) (conn_send (es_iov_max s))) (\<lambda>_. ret ()) s else (Ok (), s)) s1 Q"
      using Q [OF s1(1)] by (simp add: safe_def andthen_def ret_def)
  qed
  have del: "safe (delConnection t (Some p) EM_SERVER_CLOSE) s Q" by (rule delConnection_safe [OF inv t p]) (rule Q)
  have "processNet t data events s = (if event_has events EPOLLERR \<or> event_has events EPOLLHUP
      then delConnection t (Some p) EM_SERVER_CLOSE
      else andthen (if event_has events EPOLLIN then ?in else ret True) (\<lambda>go s.
        if go \<and> event_has events EPOLLOUT
        then andthen (on_conn (Some p) (conn_send (es_iov_max s))) (\<lambda>_. ret ()) s
        else (Ok (), s))) s"
    unfolding processNet_def Let_def p by (subst andthen_Ok [of "conn_get (Some p)" s c s]) (simp_all add: conn_get_eq c(1))
  then show ?thesis using del rest by (simp add: safe_def)
qed

text \<open>One command, and all that were taken from the queue.\<close>

lemma process_command_safe:
  assumes inv: "server_inv s" and t: "t < length (es_netThreads s)" and d: "command_ok (thread_at t s) d"
    and Q: "\<And>s'. fine 1 s s' \<Longrightarrow> safe (process_commands t ds) s' Q"
  shows "safe (process_commands t (d # ds)) s Q"
proof -
  let ?p = "nt_uid_connection (thread_at t s) (sd_uid d)"
  have step: "safe (\<lambda>s. let cPtr = nt_uid_connection (thread_at t s) (sd_uid d) in
       if sd_cmd d = CHR ''c'' then
         (if cPtr = None then (Ok (), s)
          else andthen (on_conn cPtr (\<lambda>(c, n). case conn_setClose c of (b, c') \<Rightarrow> (Ok b, (c', n)))) (\<lambda>b.
            if b then delConnection t cPtr EM_SERVER_CLOSE else ret ()) s)
       else if sd_cmd d = CHR ''s'' then
         andthen (conn_get cPtr) (\<lambda>_.
         andthen (on_conn cPtr (conn_send_buffer (es_iov_max s) (sd_buffer d) False)) (\<lambda>_. ret ())) s
       else (Abort, s)) s (\<lambda>_ s'. fine 1 s s')"
  proof (cases ?p)
    case None
    have "fine 1 s s" using fine_refl [OF inv] by (rule fine_mono) simp
    then show ?thesis using None d by (auto simp: safe_def command_ok_def)
  next
    case (Some p)
    obtain c where c: "es_conns s p = Some c" "co_sendbuffer c = []" using uid_conn [OF inv t Some] by metis
    show ?thesis
    proof (cases "sd_cmd d = CHR ''c''")
      case True
      let ?m = "\<lambda>(c, n). case conn_setClose c of (b, c') \<Rightarrow> (Ok b, (c', n))"
      have "safe (andthen (on_conn (Some p) ?m) (\<lambda>b.
          if b then delConnection t (Some p) EM_SERVER_CLOSE else ret ())) s (\<lambda>_ s'. fine 1 s s')"
      proof (rule safe_andthen [where P = "\<lambda>_ s1. fine 0 s s1"])
        show "safe (on_conn (Some p) ?m) s (\<lambda>_ s1. fine 0 s s1)"
          by (rule on_conn_safe [OF inv c(1), of ?m "co_sendbuffer c = []" "c\<lparr>co_bClose := True\<rparr>" "es_net s"])
            (use server_invD(6) [OF inv] in \<open>simp_all add: conn_setClose_def benign_def\<close>)
        fix b s1 assume f: "fine 0 s s1"
        have t1: "t < length (es_netThreads s1)" "nt_uid_connection (thread_at t s1) (sd_uid d) = Some p"
          using f t later_uid [OF fineD(2) [OF f] t Some] by (simp_all add: fine_def later_def)
        have "fine 1 s s1" using f by (rule fine_mono) simp
        then have "safe (ret ()) s1 (\<lambda>_ s'. fine 1 s s')" by (rule safe_ret)
        moreover have "safe (delConnection t (Some p) EM_SERVER_CLOSE) s1 (\<lambda>_ s'. fine 1 s s')"
          by (rule delConnection_safe [OF fineD(1) [OF f] t1]) (rule fine_first [OF f])
        ultimately show "safe (if b then delConnection t (Some p) EM_SERVER_CLOSE else ret ()) s1 (\<lambda>_ s'. fine 1 s s')"
          by simp
      qed
      then show ?thesis using True Some by (simp add: safe_def Let_def cong: if_cong)
    next
      case False
      obtain r n' where send: "conn_send_buffer (es_iov_max s) (sd_buffer d) False (c, es_net s) = (Ok r, (c, n'))"
        "net_open n' = net_open (es_net s)"
        using conn_send_buffer_result [OF c(2)] by blast
      have "safe (andthen (on_conn (Some p) (conn_send_buffer (es_iov_max s) (sd_buffer d) False)) (\<lambda>_. ret ())) s
          (\<lambda>_ s'. fine 1 s s')"
      proof (rule safe_andthen [where P = "\<lambda>_ s1. fine 0 s s1"])
        show "safe (on_conn (Some p) (conn_send_buffer (es_iov_max s) (sd_buffer d) False)) s (\<lambda>_ s1. fine 0 s s1)"
          by (rule on_conn_safe [OF inv c(1), of _ r c n'])
            (use send server_invD(6) [OF inv] in simp_all)
        show "safe (ret ()) s1 (\<lambda>_ s'. fine 1 s s')" if "fine 0 s s1" for s1
          by (rule safe_ret) (use fine_mono [OF that, of 1] in simp)
      qed
      then show ?thesis
        using False Some d by (simp add: safe_def andthen_Ok [of "conn_get (Some p)" s c s] conn_get_eq c(1) command_ok_def Let_def)
    qed
  qed
  show ?thesis by (simp only: process_commands.simps) (rule safe_andthen [OF step], rule Q)
qed

lemma process_commands_safe:
  assumes "server_inv s" and "t < length (es_netThreads s)" and "\<forall>d \<in> set ds. command_ok (thread_at t s) d"
    and "\<And>s'. fine (length ds) s s' \<Longrightarrow> Q () s'"
  shows "safe (process_commands t ds) s Q"
  using assms
proof (induction ds arbitrary: s Q)
  case Nil
  then show ?case using fine_refl by (auto intro: safe_ret)
next
  case (Cons d ds)
  show ?case
  proof (rule process_command_safe [OF Cons.prems(1,2)])
    show "command_ok (thread_at t s) d" using Cons.prems(3) by simp
    fix s1 assume f: "fine 1 s s1"
    have "command_ok (thread_at t s1) x" if "command_ok (thread_at t s) x" for x
      using that later_uid [OF fineD(2) [OF f] Cons.prems(2)] by (auto simp: command_ok_def)
    then have ds: "\<forall>x \<in> set ds. command_ok (thread_at t s1) x" using Cons.prems(3) by simp
    have t1: "t < length (es_netThreads s1)" using Cons.prems(2) later_lengths [OF fineD(2) [OF f]] by simp
    show "safe (process_commands t ds) s1 Q"
    proof (rule Cons.IH [OF fineD(1) [OF f] t1 ds])
      fix s' assume "fine (length ds) s1 s'"
      then have "fine (1 + length ds) s s'" by (rule fine_trans [OF f])
      then show "Q () s'" using Cons.prems(4) by simp
    qed
  qed
qed

lemma processPipe_safe:
  assumes inv: "server_inv s" and t: "t < length (es_netThreads s)"
    and Q: "\<And>s'. fine 0 s s' \<Longrightarrow> Q () s'"
  shows "safe (processPipe t) s Q"
proof -
  let ?th = "thread_at t s"
  let ?ds = "tq_queue (nt_sbuffer ?th)"
  note ok = thread_okD(4,5) [OF server_invD(2) [OF inv t]]
  define q where "q = (if ?ds = [] then nt_sbuffer ?th else (nt_sbuffer ?th)\<lparr>tq_queue := [], tq_size := 0\<rparr>)"
  have swap: "tq_swap [] NoWait (\<lambda>q. (False, q)) (nt_sbuffer ?th) = ((?ds \<noteq> [], ?ds), q)" "tq_inv q" "tq_queue q = []"
    using ok(1) by (simp_all add: q_def tq_swap_def tq_after_wait_def tq_inv_def)
  let ?s = "s\<lparr>es_netThreads := (es_netThreads s)[t := ?th\<lparr>nt_sbuffer := q\<rparr>]\<rparr>"
  have f: "fine 0 s ?s" by (rule thread_change [OF inv t]) (use swap in simp_all)
  have bl: "backlog ?s + length ?ds = backlog s"
    using thread_backlog_update [OF t, of "?th\<lparr>nt_sbuffer := q\<rparr>"] swap(3) by (simp add: backlog_def thread_at_def)
  have "safe (process_commands t ?ds) ?s Q"
  proof (rule process_commands_safe [OF fineD(1) [OF f]])
    show "t < length (es_netThreads ?s)" using t by simp
    show "\<forall>d \<in> set ?ds. command_ok (thread_at t ?s) d"
      using ok(2) thread_at_update [OF t] by (auto simp: command_ok_def)
    fix s' assume "fine (length ?ds) ?s s'"
    then have "fine 0 s s'" using f bl later_trans unfolding fine_def by fastforce
    then show "Q () s'" by (rule Q)
  qed
  then show ?thesis
    unfolding processPipe_def safe_def swap(1) by (simp add: andthen_def thread_update_def)
qed

section \<open>New connections\<close>

lemma map_set_fst: "fst ` set (map_set k v m) = insert k (fst ` set m)"
  by (rule map_set_keys)

lemma map_set_members: "kv \<in> set (map_set k v m) \<Longrightarrow> kv = (k, v) \<or> kv \<in> set m"
  by (induction k v m rule: map_set.induct) (auto split: if_splits)

lemma k_accept_result:
  assumes "k_accept fd s = (r, s')"
  shows "\<exists>a n acc. r = Ok a \<and> s' = s\<lparr>es_net := n, es_accepts := acc\<rparr> \<and>
    (case a of Accepted cs ip port as \<Rightarrow> 0 < cs \<and> net_open n = cs # net_open (es_net s) | _ \<Rightarrow> n = es_net s) \<and>
    (a \<noteq> AcceptAgain \<longrightarrow> Suc (length (acc fd)) = length (es_accepts s fd))"
proof (cases "es_accepts s fd")
  case Nil
  then show ?thesis using assms by (cases s) (auto simp: k_accept_def)
next
  case (Cons a r)
  then show ?thesis
    using assms by (cases a; cases s) (auto simp: k_accept_def Let_def split: if_splits)
qed

text \<open>A connection that no thread knows yet gets its number.\<close>

lemma addTcpConnection_safe:
  assumes inv: "server_inv s" and t: "t < length (es_netThreads s)" and fresh: "es_conns s (es_conn_next s) = None"
    and c: "co_fd c \<noteq> - 1" "co_lfd c \<noteq> - 1" "adapter_ok s (co_adapter c)" "co_sendbuffer c = []"
      "getNetThreadOfFd (co_fd c) s = Some t"
    and s1: "s1 = s\<lparr>es_conns := (es_conns s)(es_conn_next s \<mapsto> c), es_conn_next := es_conn_next s + 1\<rparr>"
    and Q: "\<And>s'. fine 0 s s' \<Longrightarrow> es_accepts s' = es_accepts s \<Longrightarrow> Q () s'"
  shows "safe (addTcpConnection t (es_conn_next s)) s1 Q"
proof (cases "nt_free (thread_at t s)")
  case Nil
  have "thread_at t s1 \<in> set (es_netThreads s1)" using t by (simp add: s1 thread_at_def)
  moreover have "nt_free (thread_at t s1) = []" using Nil by (simp add: s1 thread_at_def)
  ultimately have "used_up s1" unfolding used_up_def by blast
  moreover have "addTcpConnection t (es_conn_next s) s1 = (Fault, s1)"
    using Nil by (simp add: addTcpConnection_def s1 thread_at_def)
  ultimately show ?thesis by (simp add: safe_def)
next
  case (Cons uid free)
  let ?p = "es_conn_next s" and ?th = "thread_at t s"
  let ?c = "c\<lparr>co_uid := uid\<rparr>"
  let ?f = "\<lambda>th. th\<lparr>nt_free := free, nt_free_size := nt_free_size th - 1,
     nt_uid_connection := (nt_uid_connection th)(uid \<mapsto> ?p),
     nt_epoll := epoll_add (co_fd c) (ucast uid) (or EPOLLIN EPOLLOUT) (nt_epoll th)\<rparr>"
  let ?s = "s\<lparr>es_conns := (es_conns s)(?p \<mapsto> ?c), es_conn_next := Suc ?p,
    es_netThreads := (es_netThreads s)[t := ?f ?th]\<rparr>"
  have run: "addTcpConnection t ?p s1 = (Ok (), ?s)"
    using Cons t unfolding s1
    by (simp add: addTcpConnection_def andthen_def on_conn_def conn_get_def thread_update_def thread_at_def)
  note tok = server_invD(2) [OF inv]
  have free: "distinct (uid # free)" "\<And>x. x \<in> set (uid # free) \<Longrightarrow> nt_uid_connection ?th x = None"
    using thread_okD(1,2) [OF tok [OF t]] Cons by auto
  have at: "thread_at t' ?s = (if t' = t then ?f ?th else thread_at t' s)" for t'
    using t by (simp add: thread_at_def nth_list_update)
  have ad: "adapter_ok ?s = adapter_ok s" by (simp add: adapter_ok_def fun_eq_iff)
  have th: "getNetThreadOfFd fd ?s = getNetThreadOfFd fd s" for fd by (rule thread_of_length) simp
  have l: "later s ?s" using free(2) by (auto simp: later_def at ad thread_later_def map_le_def Cons)
  have old: "conn_ok ?s t' x p" if "conn_ok s t' x p" for t' x p
    using that fresh by (auto simp: conn_ok_def ad th)
  have new: "conn_ok ?s t uid ?p" using c by (simp add: conn_ok_def ad th)
  have "thread_ok ?s t'" if t': "t' < length (es_netThreads s)" for t'
  proof (cases "t' = t")
    case True
    then show ?thesis
      using tok [OF t] free old new unfolding thread_ok_def Let_def at True
      by (auto simp: command_ok_def ad split: if_splits)
  next
    case False
    then show ?thesis
      using tok [OF t'] old unfolding thread_ok_def Let_def at by (simp add: ad)
  qed
  moreover have "adapters_ok ?s"
    using server_invD(3) [OF inv] later_message [OF l] unfolding adapters_ok_def by fastforce
  moreover have "groups_ok ?s" using server_invD(4) [OF inv] by (simp add: groups_ok_def)
  moreover have "es_conns ?s p = None" if "es_conn_next ?s \<le> p" for p
    using server_invD(5) [OF inv, of p] that by simp
  ultimately have "server_inv ?s" using server_invD(1,6) [OF inv] by (simp add: server_inv_def)
  moreover have "backlog ?s = backlog s"
    using thread_backlog_update [OF t, of "?f ?th"] by (simp add: backlog_def thread_at_def)
  ultimately have "fine 0 s ?s" using l by (simp add: fine_def)
  then show ?thesis using run Q by (simp add: safe_def)
qed

lemma same_tables:
  assumes inv: "server_inv s" and same: "es_netThreads s' = es_netThreads s" "es_adapters s' = es_adapters s"
    "es_groups s' = es_groups s" "es_conns s' = es_conns s" "es_conn_next s' = es_conn_next s"
    and n: "- 1 \<notin> set (net_open (es_net s'))"
  shows "fine 0 s s'"
proof -
  have at: "thread_at t s' = thread_at t s" for t by (simp add: thread_at_def same)
  have ad: "adapter_ok s' = adapter_ok s" by (simp add: adapter_ok_def same fun_eq_iff)
  have th: "getNetThreadOfFd fd s' = getNetThreadOfFd fd s" for fd by (rule thread_of_length) (simp add: same)
  have l: "later s s'" by (simp add: later_def at ad same)
  have "thread_ok s' t" if "t < length (es_netThreads s)" for t
    using thread_ok_later [OF server_invD(2) [OF inv that] l] thread_okD(4,5) [OF server_invD(2) [OF inv that]]
    by (simp add: at conns_same same)
  moreover have "message_ok s' d = message_ok s d" for d by (simp add: message_ok_def th at)
  then have "adapters_ok s'" using server_invD(3) [OF inv] by (simp add: adapters_ok_def same)
  moreover have "groups_ok s'" using server_invD(4) [OF inv] by (simp add: groups_ok_def same)
  ultimately have "server_inv s'" using server_invD(1,5) [OF inv] n by (simp add: server_inv_def same)
  then show ?thesis using l by (simp add: fine_def backlog_def same)
qed

definition listens :: "nat \<Rightarrow> int \<Rightarrow> epoll_server \<Rightarrow> bool" where
  "listens t fd s \<longleftrightarrow> fd \<in> fst ` set (nt_listeners (thread_at t s))"

lemma nt_accept_safe:
  assumes inv: "server_inv s" and t: "t < length (es_netThreads s)" and fd: "listens t fd s"
    and Q: "\<And>b s'. fine 0 s s' \<Longrightarrow> (b \<Longrightarrow> Suc (length (es_accepts s' fd)) = length (es_accepts s fd)) \<Longrightarrow> Q b s'"
  shows "safe (nt_accept t fd) s Q"
proof -
  obtain r s1 where k: "k_accept fd s = (r, s1)" by (metis prod.exhaust)
  obtain a n acc where a: "r = Ok a" "s1 = s\<lparr>es_net := n, es_accepts := acc\<rparr>"
    "case a of Accepted cs ip port as \<Rightarrow> 0 < cs \<and> net_open n = cs # net_open (es_net s) | _ \<Rightarrow> n = es_net s"
    "a \<noteq> AcceptAgain \<longrightarrow> Suc (length (acc fd)) = length (es_accepts s fd)"
    using k_accept_result [OF k] by blast
  have "- 1 \<notin> set (net_open n)" using a(3) server_invD(6) [OF inv] by (auto split: accept_answer.splits)
  then have f: "fine 0 s s1" using a(2) by (intro same_tables [OF inv]) simp_all
  have run: "nt_accept t fd s = (case a of
       Accepted cs ip port _ \<Rightarrow>
         andthen (listener_at t fd) (\<lambda>adapter.
         case Connection_init adapter fd cs ip port of
           Ok c \<Rightarrow>
             andthen (conn_new c) (\<lambda>cPtr.
             andthen (addConnection cPtr cs) (\<lambda>_. ret True))
         | _ \<Rightarrow> (\<lambda>s. (Abort, s)))
     | AcceptAgain \<Rightarrow> ret False
     | AcceptError \<Rightarrow> ret True) s1"
    unfolding nt_accept_def by (subst andthen_Ok [of "k_accept fd" s a s1]) (simp_all add: k a(1))
  show ?thesis
  proof (cases a)
    case AcceptAgain
    then show ?thesis using run Q [OF f] by (simp add: safe_def ret_def)
  next
    case AcceptError
    then show ?thesis using run Q [OF f] a(2,4) by (simp add: safe_def ret_def)
  next
    case (Accepted cs ip port as)
    have cs: "0 < cs" using a(3) Accepted by simp
    have at: "thread_at t s1 = thread_at t s" by (simp add: a(2) thread_at_def)
    obtain ad where ad: "map_of (nt_listeners (thread_at t s)) fd = Some ad"
      using fd by (auto simp: listens_def dest: weak_map_of_SomeI)
    have ok: "fd \<noteq> - 1" "adapter_ok s ad"
      using thread_okD(6) [OF server_invD(2) [OF inv t] map_of_SomeD [OF ad]] by simp_all
    have ok1: "adapter_ok s1 ad" using ok(2) fineD(2) [OF f] by (simp add: later_def)
    obtain t' where t': "getNetThreadOfFd cs s1 = Some t'"
      using server_invD(1) [OF inv] a(2) by (auto simp: getNetThreadOfFd_def)
    define c where "c = \<lparr>co_adapter = ad, co_fd = cs, co_uid = 0, co_lfd = fd, co_ip = ip, co_bClose = False,
        co_port = port, co_recvbuffer = [], co_sendbuffer = []\<rparr>"
    let ?p = "es_conn_next s1"
    let ?s2 = "s1\<lparr>es_conns := (es_conns s1)(?p \<mapsto> c), es_conn_next := ?p + 1\<rparr>"
    have add: "safe (addTcpConnection t' ?p) ?s2 (\<lambda>_ s'. Q True s')"
    proof (rule addTcpConnection_safe [OF fineD(1) [OF f] thread_of_less [OF t'], of c])
      show "es_conns s1 ?p = None" using server_invD(5) [OF fineD(1) [OF f], of ?p] by simp
      fix s' assume s': "fine 0 s1 s'" "es_accepts s' = es_accepts s1"
      have "fine 0 s s'" by (rule fine_then [OF f s'(1)])
      then show "Q True s'" using Q s'(2) a(2,4) Accepted by simp
    qed (use cs ok ok1 t' in \<open>simp_all add: c_def\<close>)
    have "getNetThreadOfFd cs ?s2 = Some t'" using t' thread_of_length [of ?s2 s1 cs] by simp
    then have "nt_accept t fd s = andthen (addTcpConnection t' ?p) (\<lambda>_. ret True) ?s2"
      using run Accepted ad at cs
      by (simp add: andthen_def listener_at_def Connection_init_def conn_new_def addConnection_def c_def)
    moreover have "safe (andthen (addTcpConnection t' ?p) (\<lambda>_. ret True)) ?s2 Q"
      by (rule safe_andthen [OF add]) (rule safe_ret)
    ultimately show ?thesis by (simp add: safe_def)
  qed
qed

lemma accept_loop_safe:
  assumes "server_inv s" and "t < length (es_netThreads s)" and "listens t fd s" and "length (es_accepts s fd) < k"
    and "\<And>s'. fine 0 s s' \<Longrightarrow> Q () s'"
  shows "safe (accept_loop k t fd) s Q"
  using assms
proof (induction k arbitrary: s)
  case (Suc k)
  show ?case
    unfolding accept_loop.simps
  proof (rule safe_andthen [where P = "\<lambda>b s1. fine 0 s s1 \<and> (b \<longrightarrow> Suc (length (es_accepts s1 fd)) = length (es_accepts s fd))"])
    show "safe (nt_accept t fd) s (\<lambda>b s1. fine 0 s s1 \<and> (b \<longrightarrow> Suc (length (es_accepts s1 fd)) = length (es_accepts s fd)))"
      by (rule nt_accept_safe [OF Suc.prems(1-3)]) simp
    fix b s1 assume s1: "fine 0 s s1 \<and> (b \<longrightarrow> Suc (length (es_accepts s1 fd)) = length (es_accepts s fd))"
    then have f: "fine 0 s s1" by blast
    have "safe (accept_loop k t fd) s1 Q" if b
    proof (rule Suc.IH [OF fineD(1) [OF f]])
      show "t < length (es_netThreads s1)" "listens t fd s1"
        using Suc.prems(2,3) laterD(1,2) [OF fineD(2) [OF f]] by (auto simp: thread_later_def listens_def)
      show "length (es_accepts s1 fd) < k" using s1 that Suc.prems(4) by simp
      show "Q () s'" if "fine 0 s1 s'" for s' using Suc.prems(5) fine_then [OF f that] .
    qed
    then show "safe (if b then accept_loop k t fd else ret ()) s1 Q"
      using Suc.prems(5) [OF f] by (simp add: safe_ret)
  qed
qed simp

end
