(* ===== verification/Server_Runs.thy ===== *)
theory Server_Runs
  imports Server_Safety
begin

text \<open>
  The handlers' rounds and whole runs of the server: the steps any threads take in any order, each
  with what epoll can report in the state it is taken in.
\<close>

section \<open>Handlers\<close>

text \<open>
  What is asked of the code that handles a request: it may send one message or throw an exception
  before it does, and leaves the queues of the adapters alone. It works for the adapters with the
  names that \<open>serves\<close> tells for its group.
\<close>

definition handled :: "epoll_server \<Rightarrow> unit outcome \<times> epoll_server \<Rightarrow> bool" where
  "handled s r \<longleftrightarrow> (case r of
     (Ok _, s') \<Rightarrow> fine 1 s s' \<and> es_adapters s' = es_adapters s \<and> es_groups s' = es_groups s
   | (Throw _, s') \<Rightarrow> fine 0 s s' \<and> es_adapters s' = es_adapters s \<and> es_groups s' = es_groups s
   | _ \<Rightarrow> False)"

definition all_served :: "(nat \<Rightarrow> bytes \<Rightarrow> bool) \<Rightarrow> epoll_server \<Rightarrow> bool" where
  "all_served serves s \<longleftrightarrow> (\<forall>g hg kv a. es_groups s g = Some hg \<longrightarrow> kv \<in> set (hg_adapters hg) \<longrightarrow>
     es_adapters s (snd kv) = Some a \<longrightarrow> serves g (ba_name a))"

lemma all_served_later:
  assumes "all_served serves s" and l: "later s s'"
  shows "all_served serves s'"
  unfolding all_served_def
proof (intro allI impI)
  fix g hg kv a assume a: "es_groups s' g = Some hg" "kv \<in> set (hg_adapters hg)" "es_adapters s' (snd kv) = Some a"
  from laterD(5) [OF l, of g] a(1) obtain hg0 where "es_groups s g = Some hg0" "hg_adapters hg0 = hg_adapters hg"
    by (cases "es_groups s g") auto
  moreover from laterD(4) [OF l, of "snd kv"] a(3) obtain a0 where "es_adapters s (snd kv) = Some a0" "ba_name a0 = ba_name a"
    by (cases "es_adapters s (snd kv)") auto
  ultimately show "serves g (ba_name a)" using assms(1) a(2) unfolding all_served_def by metis
qed

lemma queue_length_same: "es_adapters s' = es_adapters s \<Longrightarrow> queue_length p s' = queue_length p s"
  by (simp add: queue_length_def)

locale server_handlers =
  fixes handle :: "nat \<Rightarrow> recv_data \<Rightarrow> (epoll_server, unit) act"
    and heartbeat :: "int \<Rightarrow> nat \<Rightarrow> (epoll_server, 'r) act"
    and serves :: "nat \<Rightarrow> bytes \<Rightarrow> bool"
  assumes handle_ok: "server_inv s \<Longrightarrow> message_ok s d \<Longrightarrow> rd_adapter d = Some p \<Longrightarrow> es_adapters s p = Some a \<Longrightarrow>
      serves g (ba_name a) \<Longrightarrow> handled s (handle g d s)"
    and heartbeat_ok: "server_inv s \<Longrightarrow> es_groups s g \<noteq> None \<Longrightarrow>
      safe (heartbeat now g) s (\<lambda>_ s'. fine 0 s s' \<and> es_groups s' = es_groups s)"

definition serving :: "(nat \<Rightarrow> bytes \<Rightarrow> bool) \<Rightarrow> nat \<Rightarrow> nat \<Rightarrow> epoll_server \<Rightarrow> bool" where
  "serving serves g p s \<longleftrightarrow> (\<exists>a. es_adapters s p = Some a \<and> serves g (ba_name a))"

lemma serving_later: "serving serves g p s \<Longrightarrow> later s s' \<Longrightarrow> serving serves g p s'"
  using laterD(4) [of s s' p] by (cases "es_adapters s' p") (auto simp: serving_def)

lemma group_serving:
  assumes "all_served serves s" and "groups_ok s" and "es_groups s g = Some hg"
  shows "\<forall>kv \<in> set (hg_adapters hg). serving serves g (snd kv) s"
  using assms by (fastforce simp: all_served_def groups_ok_def serving_def)

context server_handlers begin

text \<open>One message: it is handled, or what the handler has thrown closes its connection.\<close>

lemma handle_one:
  assumes f: "fine 0 s s1" and fewer: "Suc (backlog s1) = backlog s" and d: "message_ok s1 d"
    and p: "serving serves g p s1"
    and go_on: "\<And>s2. fine 0 s s2 \<Longrightarrow> es_adapters s2 = es_adapters s1 \<Longrightarrow> es_groups s2 = es_groups s1 \<Longrightarrow> safe m s2 Q"
    and thrown: "\<And>s2. fine 0 s s2 \<Longrightarrow> es_groups s2 = es_groups s1 \<Longrightarrow> Q () s2"
  shows "safe (\<lambda>s. case handle g (d\<lparr>rd_adapter := Some p\<rparr>) s of
           (Throw e, s') \<Rightarrow> es_close (rd_uid d) (rd_fd d) s'
         | (Ok _, s') \<Rightarrow> m s'
         | r \<Rightarrow> r) s1 Q"
proof -
  obtain a where a: "es_adapters s1 p = Some a" "serves g (ba_name a)" using p by (auto simp: serving_def)
  obtain o2 s2 where o2: "handle g (d\<lparr>rd_adapter := Some p\<rparr>) s1 = (o2, s2)" by (metis prod.exhaust)
  have "handled s1 (o2, s2)"
    using handle_ok [OF fineD(1) [OF f] _ _ a, of "d\<lparr>rd_adapter := Some p\<rparr>"] d o2 by (simp add: message_ok_def)
  then have call: "case o2 of
      Ok _ \<Rightarrow> fine 1 s1 s2 \<and> es_adapters s2 = es_adapters s1 \<and> es_groups s2 = es_groups s1
    | Throw _ \<Rightarrow> fine 0 s1 s2 \<and> es_adapters s2 = es_adapters s1 \<and> es_groups s2 = es_groups s1
    | _ \<Rightarrow> False"
    by (simp add: handled_def split: outcome.splits)
  have one_less: "fine 0 s s'" if "fine 1 s1 s'" for s'
    using that f fewer unfolding fine_def by (auto intro: later_trans)
  show ?thesis
  proof (cases o2)
    case (Ok u)
    then have "safe m s2 Q" using call go_on one_less by simp
    then show ?thesis using o2 Ok by (simp add: safe_def)
  next
    case (Throw e)
    then have s2: "fine 0 s1 s2" "es_groups s2 = es_groups s1" using call by auto
    have "safe (es_close (rd_uid d) (rd_fd d)) s2 Q"
      by (rule es_close_safe [OF fineD(1) [OF s2(1)]])
        (use s2 thrown one_less fine_first [OF s2(1)] in simp)
    then show ?thesis using o2 Throw by (simp add: safe_def)
  qed (use call in auto)
qed

lemma handle_adapter_safe:
  assumes "server_inv s" and "backlog s < size_max" and "serving serves g p s" and "queue_length p s < k"
    and "\<And>s'. fine 0 s s' \<Longrightarrow> es_groups s' = es_groups s \<Longrightarrow> Q () s'"
  shows "safe (handle_adapter k (handle g) p) s Q"
  using assms
proof (induction k arbitrary: s Q)
  case (Suc k)
  obtain a where a: "es_adapters s p = Some a" using Suc.prems(3) by (auto simp: serving_def)
  let ?P = "\<lambda>r s1. fine 0 s s1 \<and> es_groups s1 = es_groups s \<and> (\<forall>d. r = Some d \<longrightarrow> Suc (backlog s1) = backlog s \<and>
    Suc (queue_length p s1) = queue_length p s \<and> (rd_isClosed d \<or> message_ok s1 d))"
  show ?case
    unfolding handle_adapter.simps
  proof (rule safe_andthen [where P = ?P])
    show "safe (waitForRecvQueue p) s ?P"
      by (rule waitForRecvQueue_safe [OF Suc.prems(1) a Suc.prems(2)])
        (auto simp: fine_refl [OF Suc.prems(1)] queue_length_def a)
    fix r s1 assume P: "?P r s1"
    then have f: "fine 0 s s1" and same: "es_groups s1 = es_groups s" by auto
    have rest: "safe (handle_adapter k (handle g) p) s2 Q"
      if s2: "fine 0 s s2" "es_groups s2 = es_groups s" "Suc (queue_length p s2) = queue_length p s" for s2
    proof (rule Suc.IH [OF fineD(1) [OF s2(1)]])
      show "backlog s2 < size_max" using fineD(3) [OF s2(1)] Suc.prems(2) by simp
      show "serving serves g p s2" by (rule serving_later [OF Suc.prems(3) fineD(2) [OF s2(1)]])
      show "queue_length p s2 < k" using s2(3) Suc.prems(4) by simp
      show "Q () s'" if "fine 0 s2 s'" "es_groups s' = es_groups s2" for s'
        using Suc.prems(5) fine_then [OF s2(1) that(1)] that(2) s2(2) by simp
    qed
    have "safe (\<lambda>s. case handle g (d\<lparr>rd_adapter := Some p\<rparr>) s of
           (Throw e, s') \<Rightarrow> es_close (rd_uid d) (rd_fd d) s'
         | (Ok _, s') \<Rightarrow> handle_adapter k (handle g) p s'
         | r \<Rightarrow> r) s1 Q" if d: "r = Some d" "\<not> rd_isClosed d" for d
    proof (rule handle_one [OF f _ _ serving_later [OF Suc.prems(3) fineD(2) [OF f]]])
      show "Suc (backlog s1) = backlog s" "message_ok s1 d" using P d by auto
      show "safe (handle_adapter k (handle g) p) s2 Q"
        if "fine 0 s s2" "es_adapters s2 = es_adapters s1" "es_groups s2 = es_groups s1" for s2
        by (rule rest [OF that(1)]) (use P d that same queue_length_same [OF that(2)] in auto)
      show "Q () s2" if "fine 0 s s2" "es_groups s2 = es_groups s1" for s2
        using Suc.prems(5) that same by simp
    qed
    then show "safe (case r of None \<Rightarrow> ret () | Some d \<Rightarrow>
        if rd_isClosed d then handle_adapter k (handle g) p
        else (\<lambda>s. case handle g (d\<lparr>rd_adapter := Some p\<rparr>) s of
           (Throw e, s') \<Rightarrow> es_close (rd_uid d) (rd_fd d) s'
         | (Ok _, s') \<Rightarrow> handle_adapter k (handle g) p s'
         | r \<Rightarrow> r)) s1 Q"
      using Suc.prems(5) [OF f same] rest [OF f same] P by (cases r) (simp_all add: safe_ret)
  qed
qed simp

lemma handle_adapters_safe:
  assumes "server_inv s" and "backlog s < size_max" and "\<forall>kv \<in> set kvs. serving serves g (snd kv) s"
    and "\<And>s'. fine 0 s s' \<Longrightarrow> es_groups s' = es_groups s \<Longrightarrow> Q () s'"
  shows "safe (handle_adapters (handle g) kvs) s Q"
  using assms
proof (induction kvs arbitrary: s Q)
  case Nil
  then show ?case using fine_refl by (simp add: safe_ret)
next
  case (Cons kv kvs)
  show ?case
    unfolding handle_adapters.simps
  proof (rule safe_andthen [where P = "\<lambda>_ s1. fine 0 s s1 \<and> es_groups s1 = es_groups s"])
    have "safe (handle_adapter (Suc (queue_length (snd kv) s)) (handle g) (snd kv)) s (\<lambda>_ s1. fine 0 s s1 \<and> es_groups s1 = es_groups s)"
      by (rule handle_adapter_safe [OF Cons.prems(1,2)]) (use Cons.prems(3) in auto)
    then show "safe (\<lambda>s. handle_adapter (Suc (queue_length (snd kv) s)) (handle g) (snd kv) s) s
        (\<lambda>_ s1. fine 0 s s1 \<and> es_groups s1 = es_groups s)"
      by (simp add: safe_def)
    fix s1 assume s1: "fine 0 s s1 \<and> es_groups s1 = es_groups s"
    then have f: "fine 0 s s1" by blast
    show "safe (handle_adapters (handle g) kvs) s1 Q"
    proof (rule Cons.IH [OF fineD(1) [OF f]])
      show "backlog s1 < size_max" using fineD(3) [OF f] Cons.prems(2) by simp
      show "\<forall>kv \<in> set kvs. serving serves g (snd kv) s1"
        using Cons.prems(3) serving_later [OF _ fineD(2) [OF f]] by simp
      show "Q () s'" if "fine 0 s1 s'" "es_groups s' = es_groups s1" for s'
        using Cons.prems(4) fine_then [OF f that(1)] that(2) s1 by simp
    qed
  qed
qed

lemma handle_round_safe:
  assumes inv: "server_inv s" and small: "backlog s < size_max" and sv: "all_served serves s"
    and g: "es_groups s g \<noteq> None" and Q: "\<And>s'. fine 0 s s' \<Longrightarrow> Q () s'"
  shows "safe (handle_round (handle g) (heartbeat now) g) s Q"
  unfolding handle_round_def
proof (rule safe_andthen [where P = "\<lambda>_ s1. fine 0 s s1 \<and> es_groups s1 = es_groups s"])
  show "safe (heartbeat now g) s (\<lambda>_ s1. fine 0 s s1 \<and> es_groups s1 = es_groups s)"
    by (rule heartbeat_ok [OF inv g])
  fix s1 assume s1: "fine 0 s s1 \<and> es_groups s1 = es_groups s"
  then have f: "fine 0 s s1" by blast
  obtain hg where hg: "es_groups s1 g = Some hg" using s1 g by auto
  have "safe (handle_adapters (handle g) (hg_adapters hg)) s1 Q"
  proof (rule handle_adapters_safe [OF fineD(1) [OF f]])
    show "backlog s1 < size_max" using fineD(3) [OF f] small by simp
    show "\<forall>kv \<in> set (hg_adapters hg). serving serves g (snd kv) s1"
      using group_serving [OF all_served_later [OF sv fineD(2) [OF f]] server_invD(4) [OF fineD(1) [OF f]] hg] .
    show "Q () s'" if "fine 0 s1 s'" for s' using Q fine_then [OF f that] .
  qed
  then show "safe (\<lambda>s. case es_groups s g of None \<Rightarrow> (Fault, s) | Some hg \<Rightarrow> handle_adapters (handle g) (hg_adapters hg) s) s1 Q"
    using hg by (simp add: safe_def)
qed

end

section \<open>Steps and runs\<close>

text \<open>
  What epoll reports was registered at some time; the application names connections it was given.
\<close>

primrec event_ok :: "epoll_server \<Rightarrow> server_event \<Rightarrow> bool" where
  "event_ok s (NetEvent t data events) \<longleftrightarrow> t < length (es_netThreads s) \<and>
     (drop_bit 32 data = ET_LISTEN \<longrightarrow> listens t (sint (ucast data :: 32 word)) s) \<and>
     (drop_bit 32 data = ET_NET \<longrightarrow> nt_uid_connection (thread_at t s) (ucast data) \<noteq> None)"
| "event_ok s (HandleRound g now) \<longleftrightarrow> es_groups s g \<noteq> None"
| "event_ok s (AppSend uid buf ip port fd) \<longleftrightarrow>
     (\<exists>t. getNetThreadOfFd fd s = Some t \<and> nt_uid_connection (thread_at t s) uid \<noteq> None)"
| "event_ok s (AppClose uid fd) \<longleftrightarrow> True"

lemma net_event_safe:
  assumes inv: "server_inv s" and e: "event_ok s (NetEvent t data events)" and Q: "\<And>s'. fine 1 s s' \<Longrightarrow> Q () s'"
  shows "safe (net_event t data events) s Q"
proof -
  have t: "t < length (es_netThreads s)" using e by simp
  have Q0: "Q () s'" if "fine 0 s s'" for s' using Q fine_mono [OF that] by simp
  let ?fd = "sint (ucast data :: 32 word)"
  have listen: "safe (accept_loop (Suc (length (es_accepts s ?fd))) t ?fd) s Q" if "drop_bit 32 data = ET_LISTEN"
    by (rule accept_loop_safe [OF inv t]) (use e that Q0 in auto)
  have net: "safe (processNet t data events) s Q" if c: "drop_bit 32 data = ET_NET"
  proof -
    obtain p where p: "nt_uid_connection (thread_at t s) (ucast data) = Some p" using e c by auto
    show ?thesis by (rule processNet_safe [OF inv t p]) (rule Q)
  qed
  have pipe: "safe (processPipe t) s Q" by (rule processPipe_safe [OF inv t]) (rule Q0)
  have skip: "Q () s" using Q0 fine_refl [OF inv] .
  show ?thesis
    using listen net pipe skip by (simp add: safe_def net_event_def Let_def)
qed

lemma app_send_safe:
  assumes inv: "server_inv s" and e: "event_ok s (AppSend uid buf ip port fd)" and Q: "\<And>s'. fine 1 s s' \<Longrightarrow> Q () s'"
  shows "safe (es_send uid buf ip port fd) s Q"
proof -
  let ?d = "\<lparr>rd_uid = uid, rd_buffer = [], rd_ip = [], rd_port = 0, rd_recvTimeStamp = 0, rd_isOverload = False,
    rd_isClosed = False, rd_fd = fd, rd_adapter = None, rd_closeType = None\<rparr>"
  have "message_ok s ?d" using e by (simp add: message_ok_def)
  from es_send_safe [OF inv this, of Q buf ip port] show ?thesis using Q by simp
qed

inductive server_reaches ::
  "(nat \<Rightarrow> recv_data \<Rightarrow> (epoll_server, unit) act) \<Rightarrow> (int \<Rightarrow> nat \<Rightarrow> (epoll_server, 'r) act) \<Rightarrow> epoll_server \<Rightarrow> nat \<Rightarrow>
   epoll_server \<Rightarrow> bool"
  for handle heartbeat s0 where
  here: "server_reaches handle heartbeat s0 0 s0"
| more: "server_reaches handle heartbeat s0 n s \<Longrightarrow> event_ok s e \<Longrightarrow> server_step handle heartbeat e s = (Ok (), s') \<Longrightarrow>
    server_reaches handle heartbeat s0 (Suc n) s'"

context server_handlers begin

lemma server_step_safe:
  assumes inv: "server_inv s" and small: "backlog s < size_max" and sv: "all_served serves s" and e: "event_ok s e"
    and Q: "\<And>s'. fine 1 s s' \<Longrightarrow> Q () s'"
  shows "safe (server_step handle heartbeat e) s Q"
proof (cases e)
  case (NetEvent t data events)
  have "safe (net_event t data events) s Q" by (rule net_event_safe [OF inv]) (use e NetEvent Q in auto)
  then show ?thesis using NetEvent by (simp add: safe_def)
next
  case (HandleRound g now)
  have "safe (handle_round (handle g) (heartbeat now) g) s Q"
    by (rule handle_round_safe [OF inv small sv]) (use e HandleRound Q fine_mono in auto)
  then show ?thesis using HandleRound by (simp add: safe_def)
next
  case (AppSend uid buf ip port fd)
  have "safe (es_send uid buf ip port fd) s Q" by (rule app_send_safe [OF inv]) (use e AppSend Q in auto)
  then show ?thesis using AppSend by (simp add: safe_def)
next
  case (AppClose uid fd)
  then show ?thesis using es_close_safe [OF inv, of Q uid fd] Q by (simp add: safe_def)
qed

lemma server_reaches_fine:
  assumes "server_reaches handle heartbeat s0 n s" and "server_inv s0" and "all_served serves s0"
    and "backlog s0 + n < size_max"
  shows "fine n s0 s"
  using assms
proof (induction rule: server_reaches.induct)
  case here
  then show ?case by (simp add: fine_refl)
next
  case (more n s e s')
  then have f: "fine n s0 s" by simp
  have "backlog s < size_max" using fineD(3) [OF f] more.prems(3) by simp
  then have "safe (server_step handle heartbeat e) s (\<lambda>_ s'. fine 1 s s')"
    by (rule server_step_safe [OF fineD(1) [OF f] _ all_served_later [OF more.prems(2) fineD(2) [OF f]] more.hyps(2)])
  then have "fine 1 s s'" using more.hyps(3) by (simp add: safe_def)
  then show ?case using fine_trans [OF f] by force
qed

text \<open>From a good state on, no step crashes.\<close>

lemma server_runs_safely:
  assumes "server_reaches handle heartbeat s0 n s" and "server_inv s0" and "all_served serves s0"
    and "backlog s0 + n < size_max" and "event_ok s e"
  shows "safe (server_step handle heartbeat e) s (\<lambda>_. fine (Suc n) s0)"
proof -
  have f: "fine n s0 s" by (rule server_reaches_fine [OF assms(1-4)])
  have "backlog s < size_max" using fineD(3) [OF f] assms(4) by simp
  then show ?thesis
    by (rule server_step_safe [OF fineD(1) [OF f] _ all_served_later [OF assms(3) fineD(2) [OF f]] assms(5)])
      (use fine_trans [OF f] in force)
qed

end

end
