(* ===== verification/Coro_Stack.thy ===== *)
theory Coro_Stack
  imports Tars_Prelude
begin

text \<open>
  The stacks of the coroutines, \<open>standard_stack_allocator\<close> of
  \<^verbatim>\<open>src/servant/libservant/CoroutineScheduler.cpp\<close>: a mapping of whole pages, the first of which
  is a guard. The kernel's answers to \<open>mmap\<close>, the page size and the limit of \<open>RLIMIT_STACK\<close> are
  part of the state; every list of answers is possible.
\<close>

section \<open>State\<close>

text \<open>
  \<open>mm_answers k\<close> is the address the \<open>k\<close>-th call of \<open>mmap\<close> returns, \<open>None\<close> for \<open>MAP_FAILED\<close>;
  \<open>mm_maps\<close> the mappings that exist, with their sizes; \<open>mm_rlim_max\<close> is \<open>None\<close> for
  \<open>RLIM_INFINITY\<close>.
\<close>

record stack_memory =
  mm_pagesize :: nat
  mm_rlim_max :: "nat option"
  mm_answers :: "nat \<Rightarrow> nat option"
  mm_calls :: nat
  mm_maps :: "(nat \<times> nat) list"

record stack_context =
  sc_size :: nat
  sc_sp :: nat

definition stack_context_init :: stack_context where
  "stack_context_init = \<lparr>sc_size = 0, sc_sp = 0\<rparr>"

section \<open>Sizes\<close>

text \<open>
  \<^verbatim>\<open>static_cast<float>\<close> of a \<open>size_t\<close>: 24 bits of mantissa, ties to the even neighbour.
\<close>

fun float_scale :: "nat \<Rightarrow> nat" where
  "float_scale n = (if n < 16777216 then 0 else Suc (float_scale (n div 2)))"

declare float_scale.simps [simp del]

definition float_of_nat :: "nat \<Rightarrow> nat" where
  "float_of_nat n =
     (let e = float_scale n; q = n div 2 ^ e; r = n mod 2 ^ e
      in (if 2 ^ e < 2 * r \<or> 2 ^ e = 2 * r \<and> odd q then q + 1 else q) * 2 ^ e)"

text \<open>The quotient by the page size, a power of two, is exact in floating point.\<close>

definition page_count :: "nat \<Rightarrow> nat \<Rightarrow> nat" where
  "page_count pagesize stacksize = (float_of_nat stacksize + pagesize - 1) div pagesize"

definition is_stack_unbound :: "stack_memory \<Rightarrow> bool" where
  "is_stack_unbound m \<longleftrightarrow> mm_rlim_max m = None"

text \<open>\<^verbatim>\<open>sizeof(fcontext_t)\<close>: eight registers, the stack's pointer and size, and two words.\<close>

definition sizeof_fcontext :: nat where
  "sizeof_fcontext = 8 * 8 + (8 + 8) + 2 * 4"

definition minimum_stacksize :: nat where
  "minimum_stacksize = 8 * 1024 + sizeof_fcontext + 15"

definition maximum_stacksize :: "(stack_memory, nat) act" where
  "maximum_stacksize m = (case mm_rlim_max m of None \<Rightarrow> (Abort, m) | Some r \<Rightarrow> (Ok r, m))"

definition default_stacksize :: "(stack_memory, nat) act" where
  "default_stacksize m =
     (let size = 8 * minimum_stacksize in
      if is_stack_unbound m then (Ok size, m)
      else andthen maximum_stacksize (\<lambda>big.
        if \<not> minimum_stacksize \<le> big then (\<lambda>s. (Abort, s))
        else ret (if big = size then size else min size big)) m)"

section \<open>allocate and deallocate\<close>

definition stack_mmap :: "nat \<Rightarrow> (stack_memory, nat option) act" where
  "stack_mmap sz m =
     (let answer = mm_answers m (mm_calls m); m1 = m\<lparr>mm_calls := mm_calls m + 1\<rparr> in
      case answer of
        None \<Rightarrow> (Ok None, m1)
      | Some limit \<Rightarrow> (Ok (Some limit), m1\<lparr>mm_maps := (limit, sz) # mm_maps m1\<rparr>))"

definition stack_munmap :: "nat \<Rightarrow> nat \<Rightarrow> stack_memory \<Rightarrow> stack_memory" where
  "stack_munmap limit sz m = m\<lparr>mm_maps := removeAll (limit, sz) (mm_maps m)\<rparr>"

definition size_allowed :: "nat \<Rightarrow> stack_memory \<Rightarrow> bool" where
  "size_allowed sz m \<longleftrightarrow> minimum_stacksize \<le> sz \<and>
     (case mm_rlim_max m of None \<Rightarrow> True | Some r \<Rightarrow> sz \<le> r)"

text \<open>
  \<open>None\<close> stands for the result -1. The pages are fresh and zero, so clearing them changes
  nothing, and protecting the first one cannot fail.
\<close>

definition allocate :: "nat \<Rightarrow> (stack_memory, stack_context option) act" where
  "allocate sz m =
     (if \<not> size_allowed sz m then (Abort, m)
      else
        let pages = size_add (page_count (mm_pagesize m) sz) 1;
            sz' = pages * mm_pagesize m mod size_max
        in if \<not> (0 < sz \<and> 0 < sz') then (Abort, m)
        else andthen (stack_mmap sz') (\<lambda>limit.
          ret (map_option (\<lambda>l. \<lparr>sc_size = sz', sc_sp = size_add l sz'\<rparr>) limit)) m)"

definition deallocate :: "stack_context \<Rightarrow> (stack_memory, unit) act" where
  "deallocate ctx m =
     (if sc_sp ctx = 0 then (Abort, m)
      else if \<not> size_allowed (sc_size ctx) m then (Abort, m)
      else (Ok (), stack_munmap (size_sub (sc_sp ctx) (sc_size ctx)) (sc_size ctx) m))"

section \<open>What a stack offers\<close>

lemma float_of_nat_exact [simp]: "n < 16777216 \<Longrightarrow> float_of_nat n = n"
  by (simp add: float_of_nat_def float_scale.simps)

lemma page_count_covers:
  assumes "0 < p" and "n < 16777216"
  shows "n \<le> page_count p n * p" and "page_count p n * p < n + p"
proof -
  have eq: "page_count p n * p = n + p - 1 - (n + p - 1) mod p"
    using assms(2) by (simp add: page_count_def minus_mod_eq_div_mult)
  have "(n + p - 1) mod p < p" using assms(1) by simp
  then show "n \<le> page_count p n * p" and "page_count p n * p < n + p"
    unfolding eq using assms(1) by linarith+
qed

text \<open>The memory the kernel hands out: page aligned, not at 0, inside the address space.\<close>

definition answers_ok :: "stack_memory \<Rightarrow> bool" where
  "answers_ok m \<longleftrightarrow> (\<forall>k l. mm_answers m k = Some l \<longrightarrow> 0 < l \<and> l < 2 ^ 47)"

text \<open>A stack size both functions accept: the mapping with its guard page is within the limit.\<close>

definition stack_size_ok :: "nat \<Rightarrow> stack_memory \<Rightarrow> bool" where
  "stack_size_ok sz m \<longleftrightarrow> minimum_stacksize \<le> sz \<and> sz < 16777216 \<and>
     0 < mm_pagesize m \<and> mm_pagesize m \<le> 65536 \<and>
     (case mm_rlim_max m of None \<Rightarrow> True
      | Some r \<Rightarrow> (page_count (mm_pagesize m) sz + 1) * mm_pagesize m \<le> r)"

definition mapped_size :: "nat \<Rightarrow> stack_memory \<Rightarrow> nat" where
  "mapped_size sz m = (page_count (mm_pagesize m) sz + 1) * mm_pagesize m"

lemma mapped_size_bounds:
  assumes "stack_size_ok sz m"
  shows "sz + mm_pagesize m \<le> mapped_size sz m" and "mapped_size sz m < 33554432"
    and "mapped_size sz m < size_max"
proof -
  note b = page_count_covers [of "mm_pagesize m" sz]
  show "sz + mm_pagesize m \<le> mapped_size sz m"
    using assms b(1) by (simp add: mapped_size_def stack_size_ok_def)
  show "mapped_size sz m < 33554432" and "mapped_size sz m < size_max"
    using assms b(2) by (simp_all add: mapped_size_def stack_size_ok_def)
qed

lemma stack_size_allowed:
  assumes "stack_size_ok sz m"
  shows "size_allowed sz m" and "size_allowed (mapped_size sz m) m"
  using assms mapped_size_bounds [OF assms]
  by (auto simp: stack_size_ok_def size_allowed_def mapped_size_def split: option.splits)

lemma page_count_small:
  assumes "stack_size_ok sz m"
  shows "size_add (page_count (mm_pagesize m) sz) 1 = page_count (mm_pagesize m) sz + 1"
proof -
  have "(page_count (mm_pagesize m) sz + 1) * 1 \<le> mapped_size sz m"
    unfolding mapped_size_def using assms by (intro mult_le_mono2) (simp add: stack_size_ok_def)
  then show ?thesis using mapped_size_bounds(2) [OF assms] by simp
qed

lemma allocate_spec:
  assumes "stack_size_ok sz m" and "answers_ok m"
  shows "allocate sz m =
    (case mm_answers m (mm_calls m) of
       None \<Rightarrow> (Ok None, m\<lparr>mm_calls := mm_calls m + 1\<rparr>)
     | Some l \<Rightarrow> (Ok (Some \<lparr>sc_size = mapped_size sz m, sc_sp = l + mapped_size sz m\<rparr>),
         m\<lparr>mm_calls := mm_calls m + 1, mm_maps := (l, mapped_size sz m) # mm_maps m\<rparr>))"
proof -
  have sz: "(page_count (mm_pagesize m) sz + 1) * mm_pagesize m = mapped_size sz m"
    by (simp add: mapped_size_def)
  have pos: "0 < sz" "0 < mapped_size sz m"
    using assms(1) mapped_size_bounds(1) [OF assms(1)]
    by (auto simp: stack_size_ok_def minimum_stacksize_def)
  have l: "l + mapped_size sz m < size_max" if "mm_answers m (mm_calls m) = Some l" for l
    using that assms(2) mapped_size_bounds(2) [OF assms(1)] by (fastforce simp: answers_ok_def)
  show ?thesis
    using pos mapped_size_bounds(3) [OF assms(1)] l
    unfolding allocate_def page_count_small [OF assms(1)] Let_def sz
    by (simp add: stack_size_allowed [OF assms(1)] stack_mmap_def andthen_def ret_def split: option.splits)
qed

lemma deallocate_spec:
  assumes "stack_size_ok sz m" and "0 < l" and "l < 2 ^ 47"
  shows "deallocate \<lparr>sc_size = mapped_size sz m, sc_sp = l + mapped_size sz m\<rparr> m =
    (Ok (), m\<lparr>mm_maps := removeAll (l, mapped_size sz m) (mm_maps m)\<rparr>)"
proof -
  have "l + mapped_size sz m < size_max" using assms(3) mapped_size_bounds(2) [OF assms(1)] by simp
  then show ?thesis
    using assms(2)
    by (simp add: deallocate_def stack_size_allowed [OF assms(1)] stack_munmap_def)
qed

text \<open>
  \<open>deallocate\<close> compares the size with the guard page against the limit, \<open>allocate\<close> the size
  that was asked for.
\<close>

lemma deallocate_refuses:
  assumes "mm_rlim_max m = Some r" and "r < sc_size ctx" and "sc_sp ctx \<noteq> 0"
  shows "deallocate ctx m = (Abort, m)"
  using assms by (simp add: deallocate_def size_allowed_def)

end
