(* ===== verification/Coro_List.thy ===== *)
theory Coro_List
  imports Coro_Stack
begin

text \<open>
  The lists of coroutines, class \<open>CoroutineInfo\<close> of
  \<^verbatim>\<open>src/servant/servant/CoroutineScheduler.h\<close>: rings of objects that hold their own links. The
  objects live on a heap; a ring is described by the list of its members behind the head, and
  every operation is shown to act on that list.
\<close>

section \<open>Objects\<close>

text \<open>
  The objects a pointer can refer to: the scheduler's own main coroutine and list heads, and
  what \<open>new\<close> has made.
\<close>

datatype coro_ptr =
    NullCoro | MainCoro | ActiveHead | AvailHead | InactiveHead | TimeoutHead | FreeHead
  | Coro nat

datatype CORO_STATUS = CORO_FREE | CORO_ACTIVE | CORO_AVAIL | CORO_INACTIVE | CORO_TIMEOUT

text \<open>
  \<open>ci_ctx_to\<close> is the suspended computation, of a type \<open>'c\<close> the lists know nothing of; the context
  the creator left, \<open>_ctx_from\<close>, is always the point behind the call of \<open>registerFunc\<close> and the
  scheduler of a coroutine always the one that made it.
\<close>

record 'c coro_info =
  ci_prev :: coro_ptr
  ci_next :: coro_ptr
  ci_main :: bool
  ci_uid :: "32 word"
  ci_eStatus :: CORO_STATUS
  ci_stack_ctx :: stack_context
  ci_ctx_to :: "'c option"
  ci_callback :: "'c option"

definition CoroutineInfo_main :: "'c coro_info" where
  "CoroutineInfo_main = \<lparr>ci_prev = NullCoro, ci_next = NullCoro, ci_main = True, ci_uid = 0,
     ci_eStatus = CORO_FREE, ci_stack_ctx = stack_context_init, ci_ctx_to = None, ci_callback = None\<rparr>"

definition CoroutineInfo_new :: "'c coro_info" where
  "CoroutineInfo_new = \<lparr>ci_prev = NullCoro, ci_next = NullCoro, ci_main = False, ci_uid = 0,
     ci_eStatus = CORO_FREE, ci_stack_ctx = stack_context_init, ci_ctx_to = None, ci_callback = None\<rparr>"

type_synonym 'c coro_heap = "coro_ptr \<Rightarrow> 'c coro_info option"

definition coro_get :: "coro_ptr \<Rightarrow> ('c coro_heap, 'c coro_info) act" where
  "coro_get p h = (case h p of None \<Rightarrow> (Fault, h) | Some c \<Rightarrow> (Ok c, h))"

definition coro_set :: "coro_ptr \<Rightarrow> ('c coro_info \<Rightarrow> 'c coro_info) \<Rightarrow> ('c coro_heap, unit) act" where
  "coro_set p f h = (case h p of None \<Rightarrow> (Fault, h) | Some c \<Rightarrow> (Ok (), h(p \<mapsto> f c)))"

definition set_next :: "coro_ptr \<Rightarrow> coro_ptr \<Rightarrow> ('c coro_heap, unit) act" where
  "set_next p q = coro_set p (\<lambda>c. c\<lparr>ci_next := q\<rparr>)"

definition set_prev :: "coro_ptr \<Rightarrow> coro_ptr \<Rightarrow> ('c coro_heap, unit) act" where
  "set_prev p q = coro_set p (\<lambda>c. c\<lparr>ci_prev := q\<rparr>)"

section \<open>Operations\<close>

definition CoroutineHeadInit :: "coro_ptr \<Rightarrow> ('c coro_heap, unit) act" where
  "CoroutineHeadInit coro = andthen (set_next coro coro) (\<lambda>_. set_prev coro coro)"

definition CoroutineHeadEmpty :: "coro_ptr \<Rightarrow> ('c coro_heap, bool) act" where
  "CoroutineHeadEmpty coro_head = andthen (coro_get coro_head) (\<lambda>c. ret (ci_next c = coro_head))"

text \<open>The two functions whose names begin with underscores.\<close>

definition raw_CoroutineAdd :: "coro_ptr \<Rightarrow> coro_ptr \<Rightarrow> coro_ptr \<Rightarrow> ('c coro_heap, unit) act" where
  "raw_CoroutineAdd coro prev next =
     andthen (set_prev next coro) (\<lambda>_.
     andthen (set_next coro next) (\<lambda>_.
     andthen (set_prev coro prev) (\<lambda>_.
     set_next prev coro)))"

definition raw_CoroutineDel :: "coro_ptr \<Rightarrow> coro_ptr \<Rightarrow> ('c coro_heap, unit) act" where
  "raw_CoroutineDel prev next = andthen (set_prev next prev) (\<lambda>_. set_next prev next)"

definition CoroutineAdd :: "coro_ptr \<Rightarrow> coro_ptr \<Rightarrow> ('c coro_heap, unit) act" where
  "CoroutineAdd new_coro coro_head =
     andthen (coro_get coro_head) (\<lambda>c. raw_CoroutineAdd new_coro coro_head (ci_next c))"

definition CoroutineAddTail :: "coro_ptr \<Rightarrow> coro_ptr \<Rightarrow> ('c coro_heap, unit) act" where
  "CoroutineAddTail new_coro coro_head =
     andthen (coro_get coro_head) (\<lambda>c. raw_CoroutineAdd new_coro (ci_prev c) coro_head)"

definition CoroutineDel :: "coro_ptr \<Rightarrow> ('c coro_heap, unit) act" where
  "CoroutineDel coro =
     andthen (coro_get coro) (\<lambda>c.
     andthen (raw_CoroutineDel (ci_prev c) (ci_next c)) (\<lambda>_.
     andthen (set_next coro NullCoro) (\<lambda>_.
     set_prev coro NullCoro)))"

definition CoroutineMove :: "coro_ptr \<Rightarrow> coro_ptr \<Rightarrow> ('c coro_heap, unit) act" where
  "CoroutineMove coro coro_head = andthen (CoroutineDel coro) (\<lambda>_. CoroutineAdd coro coro_head)"

definition CoroutineMoveTail :: "coro_ptr \<Rightarrow> coro_ptr \<Rightarrow> ('c coro_heap, unit) act" where
  "CoroutineMoveTail coro coro_head =
     andthen (CoroutineDel coro) (\<lambda>_. CoroutineAddTail coro coro_head)"

section \<open>Rings\<close>

text \<open>The two link fields as maps, and a heap without them.\<close>

definition nexts :: "'c coro_heap \<Rightarrow> coro_ptr \<Rightarrow> coro_ptr option" where
  "nexts h p = map_option ci_next (h p)"

definition prevs :: "'c coro_heap \<Rightarrow> coro_ptr \<Rightarrow> coro_ptr option" where
  "prevs h p = map_option ci_prev (h p)"

definition unlinked :: "'c coro_heap \<Rightarrow> 'c coro_heap" where
  "unlinked h p = map_option (\<lambda>c. c\<lparr>ci_prev := NullCoro, ci_next := NullCoro\<rparr>) (h p)"

text \<open>From \<open>a\<close> over the members of a list to \<open>b\<close>, and back again.\<close>

primrec links ::
  "(coro_ptr \<Rightarrow> coro_ptr option) \<Rightarrow> (coro_ptr \<Rightarrow> coro_ptr option) \<Rightarrow> coro_ptr \<Rightarrow> coro_ptr list
     \<Rightarrow> coro_ptr \<Rightarrow> bool" where
  "links n p a [] b \<longleftrightarrow> n a = Some b \<and> p b = Some a"
| "links n p a (x # xs) b \<longleftrightarrow> n a = Some x \<and> p x = Some a \<and> links n p x xs b"

definition coro_ring :: "'c coro_heap \<Rightarrow> coro_ptr \<Rightarrow> coro_ptr list \<Rightarrow> bool" where
  "coro_ring h hp xs \<longleftrightarrow> distinct (hp # xs) \<and> links (nexts h) (prevs h) hp xs hp"

lemma links_append:
  "links n p a (xs @ x # ys) b \<longleftrightarrow> links n p a xs x \<and> links n p x ys b"
  by (induction xs arbitrary: a) auto

lemma links_next_other [simp]:
  "q \<notin> set (a # xs) \<Longrightarrow> links (n(q := y)) p a xs b = links n p a xs b"
  by (induction xs arbitrary: a) auto

lemma links_prev_other [simp]:
  "q \<notin> set xs \<Longrightarrow> q \<noteq> b \<Longrightarrow> links n (p(q := y)) a xs b = links n p a xs b"
  by (induction xs arbitrary: a) auto

lemma links_cong:
  assumes "\<And>q. q \<in> set (a # xs) \<Longrightarrow> n q = n' q" and "\<And>q. q \<in> set (xs @ [b]) \<Longrightarrow> p q = p' q"
  shows "links n p a xs b = links n' p' a xs b"
  using assms by (induction xs arbitrary: a) auto

lemma links_first: "links n p a xs b \<Longrightarrow> n a = Some (hd (xs @ [b]))"
  by (cases xs) auto

lemma links_last: "links n p a xs b \<Longrightarrow> p b = Some (last (a # xs))"
  by (induction xs arbitrary: a) auto

lemma links_defined: "links n p a xs b \<Longrightarrow> q \<in> set (a # xs) \<Longrightarrow> n q \<noteq> None"
  by (induction xs arbitrary: a) auto

lemma links_defined_prev: "links n p a xs b \<Longrightarrow> q \<in> set (xs @ [b]) \<Longrightarrow> p q \<noteq> None"
  by (induction xs arbitrary: a) auto

lemma coro_ring_alloc: "coro_ring h hp xs \<Longrightarrow> q \<in> set (hp # xs) \<Longrightarrow> \<exists>c. h q = Some c"
  using links_defined [of "nexts h" "prevs h" hp xs hp q]
  by (auto simp: coro_ring_def nexts_def)

lemma coro_ring_frame:
  assumes "\<And>q. q \<in> set (hp # xs) \<Longrightarrow> nexts h' q = nexts h q \<and> prevs h' q = prevs h q"
  shows "coro_ring h' hp xs = coro_ring h hp xs"
proof -
  have "links (nexts h') (prevs h') hp xs hp = links (nexts h) (prevs h) hp xs hp"
    by (rule links_cong) (use assms in auto)
  then show ?thesis by (simp add: coro_ring_def)
qed

lemma coro_ring_same:
  assumes "\<And>q. q \<in> set (hp # xs) \<Longrightarrow> h' q = h q"
  shows "coro_ring h' hp xs = coro_ring h hp xs"
  by (rule coro_ring_frame) (simp add: assms nexts_def prevs_def)

section \<open>What the operations do\<close>

text \<open>The effect of the two assignments where the object exists.\<close>

definition next_to :: "coro_ptr \<Rightarrow> coro_ptr \<Rightarrow> 'c coro_heap \<Rightarrow> 'c coro_heap" where
  "next_to p q h = h(p := map_option (\<lambda>c. c\<lparr>ci_next := q\<rparr>) (h p))"

definition prev_to :: "coro_ptr \<Rightarrow> coro_ptr \<Rightarrow> 'c coro_heap \<Rightarrow> 'c coro_heap" where
  "prev_to p q h = h(p := map_option (\<lambda>c. c\<lparr>ci_prev := q\<rparr>) (h p))"

named_theorems link_simps \<open>assignments to links\<close>

lemma set_next_eq [link_simps]: "h p \<noteq> None \<Longrightarrow> set_next p q h = (Ok (), next_to p q h)"
  by (auto simp: set_next_def coro_set_def next_to_def)

lemma set_prev_eq [link_simps]: "h p \<noteq> None \<Longrightarrow> set_prev p q h = (Ok (), prev_to p q h)"
  by (auto simp: set_prev_def coro_set_def prev_to_def)

lemma next_to_none [link_simps]: "next_to p q h r = None \<longleftrightarrow> h r = None"
  by (simp add: next_to_def)

lemma prev_to_none [link_simps]: "prev_to p q h r = None \<longleftrightarrow> h r = None"
  by (simp add: prev_to_def)

lemma nexts_next_to [link_simps]: "h p \<noteq> None \<Longrightarrow> nexts (next_to p q h) = (nexts h)(p \<mapsto> q)"
  by (auto simp: nexts_def next_to_def fun_eq_iff)

lemma prevs_next_to [link_simps]: "prevs (next_to p q h) = prevs h"
  by (auto simp: prevs_def next_to_def fun_eq_iff option.map_comp comp_def)

lemma nexts_prev_to [link_simps]: "nexts (prev_to p q h) = nexts h"
  by (auto simp: nexts_def prev_to_def fun_eq_iff option.map_comp comp_def)

lemma prevs_prev_to [link_simps]: "h p \<noteq> None \<Longrightarrow> prevs (prev_to p q h) = (prevs h)(p \<mapsto> q)"
  by (auto simp: prevs_def prev_to_def fun_eq_iff)

lemma unlinked_next_to [link_simps]: "unlinked (next_to p q h) = unlinked h"
  by (auto simp: unlinked_def next_to_def fun_eq_iff option.map_comp comp_def)

lemma unlinked_prev_to [link_simps]: "unlinked (prev_to p q h) = unlinked h"
  by (auto simp: unlinked_def prev_to_def fun_eq_iff option.map_comp comp_def)

lemma next_to_other [link_simps]: "r \<noteq> p \<Longrightarrow> next_to p q h r = h r"
  by (simp add: next_to_def)

lemma prev_to_other [link_simps]: "r \<noteq> p \<Longrightarrow> prev_to p q h r = h r"
  by (simp add: prev_to_def)

definition inserted :: "coro_ptr \<Rightarrow> coro_ptr \<Rightarrow> coro_ptr \<Rightarrow> 'c coro_heap \<Rightarrow> 'c coro_heap" where
  "inserted c p n h = next_to p c (prev_to c p (next_to c n (prev_to n c h)))"

definition removed :: "coro_ptr \<Rightarrow> coro_ptr \<Rightarrow> coro_ptr \<Rightarrow> 'c coro_heap \<Rightarrow> 'c coro_heap" where
  "removed c p n h = prev_to c NullCoro (next_to c NullCoro (next_to p n (prev_to n p h)))"

lemma raw_CoroutineAdd_eq:
  "h c \<noteq> None \<Longrightarrow> h p \<noteq> None \<Longrightarrow> h n \<noteq> None \<Longrightarrow>
     raw_CoroutineAdd c p n h = (Ok (), inserted c p n h)"
  by (simp add: raw_CoroutineAdd_def inserted_def andthen_def link_simps)

lemma CoroutineDel_eq:
  assumes "h c = Some i" and "h (ci_prev i) \<noteq> None" and "h (ci_next i) \<noteq> None"
  shows "CoroutineDel c h = (Ok (), removed c (ci_prev i) (ci_next i) h)"
  using assms
  by (simp add: CoroutineDel_def raw_CoroutineDel_def removed_def andthen_def coro_get_def link_simps)

lemma inserted_other: "q \<notin> {c, p, n} \<Longrightarrow> inserted c p n h q = h q"
  by (simp add: inserted_def link_simps)

lemma removed_other: "q \<notin> {c, p, n} \<Longrightarrow> removed c p n h q = h q"
  by (simp add: removed_def link_simps)

lemma unlinked_inserted [simp]: "unlinked (inserted c p n h) = unlinked h"
  by (simp add: inserted_def link_simps)

lemma unlinked_removed [simp]: "unlinked (removed c p n h) = unlinked h"
  by (simp add: removed_def link_simps)

lemma inserted_ring:
  assumes "coro_ring h hp (xs @ ys)" and "c \<notin> set (hp # xs @ ys)" and "h c \<noteq> None"
  shows "coro_ring (inserted c (last (hp # xs)) (hd (ys @ [hp])) h) hp (xs @ c # ys)"
proof -
  let ?p = "last (hp # xs)" and ?n = "hd (ys @ [hp])"
  let ?h = "inserted c ?p ?n h"
  have dist: "distinct (hp # xs @ ys)" and l: "links (nexts h) (prevs h) hp (xs @ ys) hp"
    using assms(1) by (simp_all add: coro_ring_def)
  have mem: "?p \<in> set (hp # xs @ ys)" "?n \<in> set (hp # xs @ ys)"
    using last_in_set [of "hp # xs"] hd_in_set [of "ys @ [hp]"] by auto
  have alloc: "h ?p \<noteq> None" "h ?n \<noteq> None"
    using coro_ring_alloc [OF assms(1) mem(1)] coro_ring_alloc [OF assms(1) mem(2)] by auto
  have n: "nexts ?h = (nexts h)(c \<mapsto> ?n, ?p \<mapsto> c)" and p: "prevs ?h = (prevs h)(?n \<mapsto> c, c \<mapsto> ?p)"
    using alloc assms(3) by (simp_all add: inserted_def link_simps)
  have left: "links (nexts ?h) (prevs ?h) hp xs c"
  proof (cases xs rule: rev_cases)
    case Nil
    then show ?thesis using assms(2) n p by simp
  next
    case (snoc zs z)
    have nz: "?n \<notin> set zs" "?n \<noteq> z"
      using dist snoc by (cases ys; auto)+
    have "links (nexts h) (prevs h) hp zs z"
      using l snoc by (auto simp: links_append)
    then have "links (nexts ?h) (prevs ?h) hp zs z"
      using dist snoc assms(2) nz n p by auto
    then show ?thesis using snoc assms(2) n p by (simp add: links_append)
  qed
  have right: "links (nexts ?h) (prevs ?h) c ys hp"
  proof (cases ys)
    case Nil
    then show ?thesis using assms(2) mem n p by auto
  next
    case (Cons y zs)
    have "links (nexts h) (prevs h) y zs hp"
      using l Cons by (auto simp: links_append)
    moreover have "?p \<notin> set (y # zs)" using dist Cons by (cases xs rule: rev_cases) auto
    ultimately have "links (nexts ?h) (prevs ?h) y zs hp"
      using dist Cons assms(2) n p by (auto simp del: last.simps)
    moreover have "?p \<noteq> c" using assms(2) mem(1) by auto
    ultimately show ?thesis using Cons assms(2) n p by (auto simp del: last.simps)
  qed
  show ?thesis
    using dist assms(2) left right by (auto simp: coro_ring_def links_append)
qed

lemma ring_neighbours:
  assumes "coro_ring h hp (xs @ c # ys)" and "h c = Some i"
  shows "ci_prev i = last (hp # xs)" and "ci_next i = hd (ys @ [hp])"
proof -
  have l: "links (nexts h) (prevs h) hp xs c" "links (nexts h) (prevs h) c ys hp"
    using assms(1) by (simp_all add: coro_ring_def links_append)
  show "ci_prev i = last (hp # xs)" using links_last [OF l(1)] assms(2) by (simp add: prevs_def)
  show "ci_next i = hd (ys @ [hp])" using links_first [OF l(2)] assms(2) by (simp add: nexts_def)
qed

lemma removed_ring:
  assumes "coro_ring h hp (xs @ c # ys)" and "h c = Some i"
  shows "CoroutineDel c h = (Ok (), removed c (last (hp # xs)) (hd (ys @ [hp])) h)"
    and "coro_ring (removed c (last (hp # xs)) (hd (ys @ [hp])) h) hp (xs @ ys)"
proof -
  let ?p = "last (hp # xs)" and ?n = "hd (ys @ [hp])"
  let ?h = "removed c ?p ?n h"
  note nb = ring_neighbours [OF assms]
  have dist: "distinct (hp # xs @ c # ys)" and l: "links (nexts h) (prevs h) hp xs c"
    "links (nexts h) (prevs h) c ys hp"
    using assms(1) by (simp_all add: coro_ring_def links_append)
  have mem: "?p \<in> set (hp # xs @ c # ys)" "?n \<in> set (hp # xs @ c # ys)"
    using last_in_set [of "hp # xs"] hd_in_set [of "ys @ [hp]"] by auto
  have alloc: "h ?p \<noteq> None" "h ?n \<noteq> None"
    using coro_ring_alloc [OF assms(1) mem(1)] coro_ring_alloc [OF assms(1) mem(2)] by auto
  show "CoroutineDel c h = (Ok (), ?h)"
    using CoroutineDel_eq [of h c i] assms(2) alloc by (simp add: nb)
  have ne: "?p \<noteq> c" "?n \<noteq> c" using dist by (cases xs rule: rev_cases; cases ys; auto)+
  have n: "nexts ?h = (nexts h)(?p \<mapsto> ?n, c \<mapsto> NullCoro)"
    and p: "prevs ?h = (prevs h)(?n \<mapsto> ?p, c \<mapsto> NullCoro)"
    using alloc ne assms(2) by (simp_all add: removed_def link_simps)
  have "links (nexts ?h) (prevs ?h) hp (xs @ ys) hp"
  proof (cases ys)
    case Nil
    show ?thesis
    proof (cases xs rule: rev_cases)
      case Nil
      then show ?thesis using \<open>ys = []\<close> dist n p by simp
    next
      case (snoc zs z)
      then have "links (nexts h) (prevs h) hp zs z" using l(1) by (simp add: links_append)
      then show ?thesis using snoc \<open>ys = []\<close> dist n p by (auto simp: links_append)
    qed
  next
    case (Cons y ys')
    have r: "links (nexts ?h) (prevs ?h) y ys' hp"
    proof -
      have "?p \<notin> set (y # ys')" using dist Cons by (cases xs rule: rev_cases) auto
      then show ?thesis using l(2) Cons dist n p by auto
    qed
    have "links (nexts ?h) (prevs ?h) hp xs y"
    proof (cases xs rule: rev_cases)
      case Nil
      then show ?thesis using Cons dist n p by auto
    next
      case (snoc zs z)
      then have "links (nexts h) (prevs h) hp zs z" using l(1) by (simp add: links_append)
      then show ?thesis using snoc Cons dist n p by (auto simp: links_append)
    qed
    then show ?thesis using r Cons by (simp add: links_append)
  qed
  then show "coro_ring ?h hp (xs @ ys)" using dist by (simp add: coro_ring_def)
qed

section \<open>The scheduler's five rings\<close>

fun head_of :: "CORO_STATUS \<Rightarrow> coro_ptr" where
  "head_of CORO_FREE = FreeHead"
| "head_of CORO_ACTIVE = ActiveHead"
| "head_of CORO_AVAIL = AvailHead"
| "head_of CORO_INACTIVE = InactiveHead"
| "head_of CORO_TIMEOUT = TimeoutHead"

lemma head_of_inj [simp]: "head_of st = head_of st' \<longleftrightarrow> st = st'"
  by (cases st; cases st') simp_all

lemma head_of_not_coro [simp]: "head_of st \<noteq> Coro n" "Coro n \<noteq> head_of st"
    "head_of st \<noteq> MainCoro" "MainCoro \<noteq> head_of st" "head_of st \<noteq> NullCoro" "NullCoro \<noteq> head_of st"
  by (cases st; simp)+

definition setStatus :: "coro_ptr \<Rightarrow> CORO_STATUS \<Rightarrow> ('c coro_heap, unit) act" where
  "setStatus p st = coro_set p (\<lambda>c. c\<lparr>ci_eStatus := st\<rparr>)"

text \<open>
  The three calls the scheduler moves a coroutine with: out of the ring it is in, the new status,
  behind the last of the new ring.
\<close>

definition relink :: "coro_ptr \<Rightarrow> CORO_STATUS \<Rightarrow> ('c coro_heap, unit) act" where
  "relink coro st =
     andthen (CoroutineDel coro) (\<lambda>_.
     andthen (setStatus coro st) (\<lambda>_.
     CoroutineAddTail coro (head_of st)))"

text \<open>
  The rings hold the lists \<open>M\<close>, a coroutine is in the ring of its status and in no other.
\<close>

definition coro_rings :: "'c coro_heap \<Rightarrow> (CORO_STATUS \<Rightarrow> coro_ptr list) \<Rightarrow> bool" where
  "coro_rings h M \<longleftrightarrow>
     (\<forall>st. coro_ring h (head_of st) (M st)) \<and>
     (\<forall>st q. q \<in> set (M st) \<longrightarrow> (\<exists>n c. q = Coro n \<and> h q = Some c \<and> ci_eStatus c = st))"

lemma coro_ringsD:
  assumes "coro_rings h M"
  shows "coro_ring h (head_of st) (M st)" and "distinct (M st)"
    and "q \<in> set (M st) \<Longrightarrow> \<exists>n c. q = Coro n \<and> h q = Some c \<and> ci_eStatus c = st"
  using assms by (auto simp: coro_rings_def coro_ring_def)

lemma coro_rings_apart:
  assumes "coro_rings h M" and "q \<in> set (M st)" and "q \<in> set (M st')"
  shows "st = st'"
proof -
  obtain c where "h q = Some c" and "ci_eStatus c = st"
    using coro_ringsD(3) [OF assms(1,2)] by blast
  moreover obtain c' where "h q = Some c'" and "ci_eStatus c' = st'"
    using coro_ringsD(3) [OF assms(1,3)] by blast
  ultimately show ?thesis by simp
qed

lemma unlinked_eqD:
  assumes "unlinked h' = unlinked h" and "h p = Some c"
  shows "\<exists>c'. h' p = Some c' \<and> c'\<lparr>ci_prev := NullCoro, ci_next := NullCoro\<rparr> =
    c\<lparr>ci_prev := NullCoro, ci_next := NullCoro\<rparr>"
proof -
  have "unlinked h' p = unlinked h p" by (simp add: assms(1))
  then show ?thesis using assms(2) by (auto simp: unlinked_def map_option_case split: option.splits)
qed

lemma coro_info_fields:
  assumes "c'\<lparr>ci_prev := NullCoro, ci_next := NullCoro\<rparr> = c\<lparr>ci_prev := NullCoro, ci_next := NullCoro\<rparr>"
  shows "ci_eStatus c' = ci_eStatus c" and "ci_uid c' = ci_uid c" and "ci_ctx_to c' = ci_ctx_to c"
    and "ci_stack_ctx c' = ci_stack_ctx c" and "ci_main c' = ci_main c" and "ci_callback c' = ci_callback c"
  using assms by (cases c, cases c', simp)+

lemma unlinked_none: "unlinked h' = unlinked h \<Longrightarrow> h' p = None \<longleftrightarrow> h p = None"
  by (drule fun_cong [where x = p]) (auto simp: unlinked_def)

lemma same_status:
  assumes "unlinked h' = unlinked h" and "h p = Some c"
  shows "\<exists>c'. h' p = Some c' \<and> ci_eStatus c' = ci_eStatus c"
  using unlinked_eqD [OF assms] coro_info_fields(1) by metis

text \<open>One ring changes; the others and the coroutines' own data do not.\<close>

lemma coro_rings_update:
  assumes rings: "coro_rings h M"
    and ring: "coro_ring h' (head_of st) xs"
    and same: "\<And>st' q. st' \<noteq> st \<Longrightarrow> q \<in> set (head_of st' # M st') \<Longrightarrow> h' q = h q"
    and mem: "\<And>q. q \<in> set xs \<Longrightarrow> \<exists>n c. q = Coro n \<and> h' q = Some c \<and> ci_eStatus c = st"
  shows "coro_rings h' (M(st := xs))"
  unfolding coro_rings_def
proof (intro conjI allI impI)
  fix st'
  show "coro_ring h' (head_of st') ((M(st := xs)) st')"
  proof (cases "st' = st")
    case True
    then show ?thesis using ring by simp
  next
    case False
    have "coro_ring h' (head_of st') (M st') = coro_ring h (head_of st') (M st')"
      by (rule coro_ring_same) (rule same [OF False])
    then show ?thesis using False coro_ringsD(1) [OF rings] by simp
  qed
  fix q assume q: "q \<in> set ((M(st := xs)) st')"
  show "\<exists>n c. q = Coro n \<and> h' q = Some c \<and> ci_eStatus c = st'"
  proof (cases "st' = st")
    case True
    then show ?thesis using mem q by simp
  next
    case False
    then have "h' q = h q" using same [OF False, of q] q by simp
    then show ?thesis using coro_ringsD(3) [OF rings, of q st'] q False by simp
  qed
qed

lemma coro_rings_heads:
  assumes "coro_rings h M" and "q \<in> set (head_of st # M st)" and "q \<in> set (head_of st' # M st')"
  shows "st = st'"
  using assms coro_rings_apart [OF assms(1)] coro_ringsD(3) [OF assms(1)]
  by (metis head_of_inj head_of_not_coro(1) set_ConsD)

lemma coro_rings_drop:
  assumes rings: "coro_rings h M" and c: "c \<in> set (M st)"
  shows "\<exists>h'. CoroutineDel c h = (Ok (), h') \<and> coro_rings h' (M(st := remove1 c (M st))) \<and>
    unlinked h' = unlinked h"
proof -
  obtain xs ys where xy: "M st = xs @ c # ys" by (meson c split_list)
  have ring: "coro_ring h (head_of st) (xs @ c # ys)" using coro_ringsD(1) [OF rings, of st] xy by simp
  obtain i where i: "h c = Some i" using coro_ringsD(3) [OF rings c] by blast
  let ?p = "last (head_of st # xs)" and ?n = "hd (ys @ [head_of st])"
  let ?h = "removed c ?p ?n h"
  have rm: "remove1 c (M st) = xs @ ys"
    using coro_ringsD(2) [OF rings, of st] xy by (simp add: remove1_append)
  have near: "?p \<in> set (head_of st # M st)" "?n \<in> set (head_of st # M st)" "c \<in> set (head_of st # M st)"
    using xy last_in_set [of "head_of st # xs"] hd_in_set [of "ys @ [head_of st]"] by auto
  have far: "?h q = h q" if "st' \<noteq> st" "q \<in> set (head_of st' # M st')" for st' q
    by (rule removed_other) (use that near coro_rings_heads [OF rings] in blast)
  have "coro_rings ?h (M(st := xs @ ys))"
  proof (rule coro_rings_update [OF rings])
    show "coro_ring ?h (head_of st) (xs @ ys)" by (rule removed_ring [OF ring i])
    show "?h q = h q" if "st' \<noteq> st" "q \<in> set (head_of st' # M st')" for st' q
      using far that by simp
    show "\<exists>n c. q = Coro n \<and> ?h q = Some c \<and> ci_eStatus c = st" if q: "q \<in> set (xs @ ys)" for q
    proof -
      obtain n j where j: "q = Coro n" "h q = Some j" "ci_eStatus j = st"
        using coro_ringsD(3) [OF rings, of q st] xy q by auto
      then show ?thesis using same_status [of ?h h q j] by auto
    qed
  qed
  then show ?thesis using removed_ring(1) [OF ring i] rm by simp
qed

lemma coro_rings_outside:
  assumes "coro_rings h M" and "\<And>st. q \<notin> set (head_of st # M st)"
  shows "coro_rings (h(q := x)) M"
proof -
  have "(h(q := x)) r = h r" if "r \<in> set (head_of st # M st)" for st r
    using assms(2) [of st] that by auto
  then have "coro_ring (h(q := x)) (head_of st) (M st) = coro_ring h (head_of st) (M st)" for st
    by (intro coro_ring_same) simp
  then show ?thesis using assms by (auto simp: coro_rings_def)
qed

lemma coro_rings_append:
  assumes rings: "coro_rings h M" and c: "c = Coro n" "h c = Some i" "ci_eStatus i = st"
    and out: "\<And>st'. c \<notin> set (M st')"
  shows "\<exists>h'. CoroutineAddTail c (head_of st) h = (Ok (), h') \<and>
    coro_rings h' (M(st := M st @ [c])) \<and> unlinked h' = unlinked h"
proof -
  let ?hp = "head_of st"
  let ?p = "last (?hp # M st)"
  let ?h = "inserted c ?p ?hp h"
  have ring: "coro_ring h ?hp (M st @ [])" using coro_ringsD(1) [OF rings, of st] by simp
  obtain k where k: "h ?hp = Some k" using coro_ring_alloc [OF ring, of ?hp] by auto
  have "ci_prev k = ?p"
    using links_last [of "nexts h" "prevs h" ?hp "M st" ?hp] ring k
    by (simp add: coro_ring_def prevs_def)
  moreover have near: "?p \<in> set (?hp # M st)" by (rule last_in_set) simp
  then have "h ?p \<noteq> None" using coro_ring_alloc [OF ring, of ?p] by auto
  ultimately have add: "CoroutineAddTail c ?hp h = (Ok (), ?h)"
    using k c(2) raw_CoroutineAdd_eq [of h c ?p ?hp]
    by (simp add: CoroutineAddTail_def coro_get_def andthen_def)
  have far: "?h q = h q" if "st' \<noteq> st" "q \<in> set (head_of st' # M st')" for st' q
  proof (rule inserted_other)
    have "q \<noteq> c" using that(2) out c(1) by auto
    moreover have "q \<noteq> ?p" using that near coro_rings_heads [OF rings] by blast
    moreover have "q \<noteq> ?hp" using that coro_rings_heads [OF rings, of ?hp st st'] by auto
    ultimately show "q \<notin> {c, ?p, ?hp}" by blast
  qed
  have "coro_rings ?h (M(st := M st @ [c]))"
  proof (rule coro_rings_update [OF rings])
    show "coro_ring ?h ?hp (M st @ [c])"
      using inserted_ring [OF ring, of c] c out by simp
    show "?h q = h q" if "st' \<noteq> st" "q \<in> set (head_of st' # M st')" for st' q
      using far that by simp
    show "\<exists>n c. q = Coro n \<and> ?h q = Some c \<and> ci_eStatus c = st" if q: "q \<in> set (M st @ [c])" for q
    proof -
      obtain m j where j: "q = Coro m" "h q = Some j" "ci_eStatus j = st"
        using coro_ringsD(3) [OF rings, of q st] c q by auto
      then show ?thesis using same_status [of ?h h q j] by auto
    qed
  qed
  then show ?thesis using add by simp
qed

text \<open>Moving: only the status and the lists change.\<close>

lemma coro_rings_relink:
  assumes rings: "coro_rings h M" and c: "c \<in> set (M st)" and ne: "st' \<noteq> st"
  shows "\<exists>h'. relink c st' h = (Ok (), h') \<and>
    coro_rings h' (M(st := remove1 c (M st), st' := M st' @ [c])) \<and>
    unlinked h' = (unlinked h)(c := map_option (\<lambda>i. i\<lparr>ci_eStatus := st'\<rparr>) (unlinked h c))"
proof -
  obtain h1 where h1: "CoroutineDel c h = (Ok (), h1)" "unlinked h1 = unlinked h"
    and r1: "coro_rings h1 (M(st := remove1 c (M st)))"
    using coro_rings_drop [OF rings c] by blast
  obtain n i where c': "c = Coro n" and i: "h c = Some i"
    using coro_ringsD(3) [OF rings c] by blast
  obtain i1 where i1: "h1 c = Some i1" using unlinked_eqD [OF h1(2) i] by blast
  let ?h2 = "h1(c \<mapsto> i1\<lparr>ci_eStatus := st'\<rparr>)"
  have out: "c \<notin> set ((M(st := remove1 c (M st))) s)" for s
    using coro_ringsD(2) [OF rings, of st] coro_rings_apart [OF rings c] by auto
  have r2: "coro_rings ?h2 (M(st := remove1 c (M st)))"
    by (rule coro_rings_outside [OF r1]) (use out c' in auto)
  obtain h3 where h3: "CoroutineAddTail c (head_of st') ?h2 = (Ok (), h3)" "unlinked h3 = unlinked ?h2"
    and r3: "coro_rings h3 ((M(st := remove1 c (M st)))(st' := (M(st := remove1 c (M st))) st' @ [c]))"
    using coro_rings_append [OF r2 c', of "i1\<lparr>ci_eStatus := st'\<rparr>" st'] out by auto
  have "unlinked ?h2 = (unlinked h1)(c := map_option (\<lambda>i. i\<lparr>ci_eStatus := st'\<rparr>) (unlinked h1 c))"
    using i1 by (auto simp: unlinked_def fun_eq_iff)
  moreover have "relink c st' h = (Ok (), h3)"
    using h1(1) h3(1) i1 by (simp add: relink_def andthen_def setStatus_def coro_set_def)
  ultimately show ?thesis using r3 h3(2) h1(2) ne by simp
qed

lemma coro_rings_first:
  assumes "coro_rings h M" and "h (head_of st) = Some k"
  shows "ci_next k = hd (M st @ [head_of st])"
proof -
  have "links (nexts h) (prevs h) (head_of st) (M st) (head_of st)"
    using coro_ringsD(1) [OF assms(1), of st] by (simp add: coro_ring_def)
  from links_first [OF this] show ?thesis using assms(2) by (simp add: nexts_def)
qed

lemma coro_rings_head:
  assumes "coro_rings h M"
  shows "\<exists>k. h (head_of st) = Some k"
  using coro_ring_alloc [OF coro_ringsD(1) [OF assms, of st], of "head_of st"] by simp

lemma HeadEmpty_spec:
  assumes "coro_rings h M"
  shows "CoroutineHeadEmpty (head_of st) h = (Ok (M st = []), h)"
proof -
  obtain k where k: "h (head_of st) = Some k" using coro_rings_head [OF assms] by blast
  have "ci_next k = head_of st \<longleftrightarrow> M st = []"
    using coro_rings_first [OF assms k] coro_ringsD(3) [OF assms, of "head_of st" st]
    by (cases "M st") auto
  then show ?thesis using k by (simp add: CoroutineHeadEmpty_def coro_get_def andthen_def ret_def)
qed

end
