(* ===== verification/Timeout_Queue.thy ===== *)
theory Timeout_Queue
  imports Tars_Prelude
begin

text \<open>
  \<open>TC_TimeoutQueueNew\<close> of \<^verbatim>\<open>src/util/include/tc_timeout_queue_new.h\<close>: pending messages in a hash
  map, with a multimap by deadline and a list of the unsent ones pointing into it. An iterator is
  the key of the node it refers to; a use of an iterator whose node is gone is \<open>Fault\<close>. The clock
  is the argument \<open>iNow\<close>.
\<close>

section \<open>State\<close>

record 'a ptr_info =
  pi_ptr :: 'a
  pi_hasSend :: bool

record 'a timeout_queue =
  toq_uniqId :: "32 word"
  toq_data :: "(32 word \<times> 'a ptr_info) list"
  toq_time :: "(int \<times> 32 word) list"
  toq_send :: "32 word list"

definition TimeoutQueue_init :: "'a timeout_queue" where
  "TimeoutQueue_init = \<lparr>toq_uniqId = 0, toq_data = [], toq_time = [], toq_send = []\<rparr>"

text \<open>The three containers, by the node an iterator refers to.\<close>

definition data_erase :: "32 word \<Rightarrow> 'a timeout_queue \<Rightarrow> 'a timeout_queue" where
  "data_erase k q = q\<lparr>toq_data := filter (\<lambda>e. fst e \<noteq> k) (toq_data q)\<rparr>"

definition time_erase :: "32 word \<Rightarrow> 'a timeout_queue \<Rightarrow> 'a timeout_queue" where
  "time_erase k q = q\<lparr>toq_time := filter (\<lambda>e. snd e \<noteq> k) (toq_time q)\<rparr>"

definition send_erase :: "32 word \<Rightarrow> 'a timeout_queue \<Rightarrow> 'a timeout_queue" where
  "send_erase k q = q\<lparr>toq_send := filter (\<lambda>i. i \<noteq> k) (toq_send q)\<rparr>"

text \<open>A multimap puts a new element behind those with an equal key.\<close>

fun time_insert :: "int \<Rightarrow> 32 word \<Rightarrow> (int \<times> 32 word) list \<Rightarrow> (int \<times> 32 word) list" where
  "time_insert t k [] = [(t, k)]"
| "time_insert t k ((t', k') # xs) =
     (if t < t' then (t, k) # (t', k') # xs else (t', k') # time_insert t k xs)"

section \<open>Operations\<close>

text \<open>\<open>while (++_uniqId == 0);\<close>\<close>

function next_id :: "32 word \<Rightarrow> 32 word" where
  "next_id u = (if u + 1 = 0 then next_id (u + 1) else u + 1)"
  by auto
termination
proof (relation "measure (\<lambda>u. if u = - 1 then 1 else 0)")
  fix u :: "32 word" assume "u + 1 = 0"
  then have "u = - 1" by (simp add: eq_neg_iff_add_eq_0)
  then show "(u + 1, u) \<in> measure (\<lambda>u. if u = - 1 then 1 else 0)" by simp
qed simp

declare next_id.simps [simp del]

definition toq_generateId :: "'a timeout_queue \<Rightarrow> 32 word \<times> 'a timeout_queue" where
  "toq_generateId q = (let u = next_id (toq_uniqId q) in (u, q\<lparr>toq_uniqId := u\<rparr>))"

definition toq_sendListEmpty :: "'a timeout_queue \<Rightarrow> bool" where
  "toq_sendListEmpty q \<longleftrightarrow> toq_send q = []"

definition toq_getSendListSize :: "'a timeout_queue \<Rightarrow> nat" where
  "toq_getSendListSize q = length (toq_send q)"

definition toq_size :: "'a timeout_queue \<Rightarrow> nat" where
  "toq_size q = length (toq_data q)"

definition toq_getSend :: "('a timeout_queue, 'a option) act" where
  "toq_getSend q =
     (if toq_send q = [] then (Ok None, q)
      else case map_of (toq_data q) (last (toq_send q)) of
        None \<Rightarrow> (Fault, q)
      | Some p \<Rightarrow> if pi_hasSend p then (Abort, q) else (Ok (Some (pi_ptr p)), q))"

definition toq_popSend :: "bool \<Rightarrow> ('a timeout_queue, unit) act" where
  "toq_popSend del q =
     (if toq_send q = [] then (Abort, q)
      else
        let k = last (toq_send q) in
        if map_of (toq_data q) k = None then (Fault, q)
        else
          let q1 = q\<lparr>toq_data := map (\<lambda>(i, p). (i, if i = k then p\<lparr>pi_hasSend := True\<rparr> else p)) (toq_data q)\<rparr>;
              q2 = (if del then data_erase k (time_erase k q1) else q1)
          in (Ok (), q2\<lparr>toq_send := butlast (toq_send q2)\<rparr>))"

definition toq_get :: "32 word \<Rightarrow> bool \<Rightarrow> 'a timeout_queue \<Rightarrow> 'a option \<times> 'a timeout_queue" where
  "toq_get uniqId bErase q =
     (case map_of (toq_data q) uniqId of
        None \<Rightarrow> (None, q)
      | Some p \<Rightarrow>
          (Some (pi_ptr p),
           if bErase then
             let q1 = time_erase uniqId q;
                 q2 = (if \<not> pi_hasSend p then send_erase uniqId q1 else q1)
             in data_erase uniqId q2
           else q))"

definition toq_erase :: "32 word \<Rightarrow> 'a timeout_queue \<Rightarrow> 'a option \<times> 'a timeout_queue" where
  "toq_erase uniqId q =
     (case map_of (toq_data q) uniqId of
        None \<Rightarrow> (None, q)
      | Some p \<Rightarrow>
          (Some (pi_ptr p),
           let q1 = (if \<not> pi_hasSend p then send_erase uniqId q else q)
           in data_erase uniqId (time_erase uniqId q1)))"

definition toq_push :: "'a \<Rightarrow> 32 word \<Rightarrow> int \<Rightarrow> bool \<Rightarrow> 'a timeout_queue \<Rightarrow> bool \<times> 'a timeout_queue" where
  "toq_push ptr uniqId tmo hasSend q =
     (if map_of (toq_data q) uniqId \<noteq> None then (False, q)
      else
        let q1 = q\<lparr>toq_data := (uniqId, \<lparr>pi_ptr = ptr, pi_hasSend = hasSend\<rparr>) # toq_data q\<rparr>;
            q2 = q1\<lparr>toq_time := time_insert tmo uniqId (toq_time q1)\<rparr>;
            q3 = (if \<not> hasSend then q2\<lparr>toq_send := uniqId # toq_send q2\<rparr> else q2)
        in (True, q3))"

text \<open>The body both \<open>timeout\<close>s share: the node at \<open>_time.begin()\<close> goes.\<close>

definition expire_front :: "32 word \<Rightarrow> 'a ptr_info \<Rightarrow> 'a timeout_queue \<Rightarrow> 'a timeout_queue" where
  "expire_front k p q =
     (let q1 = (if \<not> pi_hasSend p then send_erase k q else q);
          q2 = data_erase k q1
      in q2\<lparr>toq_time := tl (toq_time q2)\<rparr>)"

lemma time_expire_front [simp]: "toq_time (expire_front k p q) = tl (toq_time q)"
  by (simp add: expire_front_def send_erase_def data_erase_def)

function toq_timeout :: "int \<Rightarrow> ('a timeout_queue, unit) act" where
  "toq_timeout iNow q =
     (case toq_time q of
        [] \<Rightarrow> (Ok (), q)
      | (t, k) # _ \<Rightarrow>
          if iNow < t then (Ok (), q)
          else case map_of (toq_data q) k of
            None \<Rightarrow> (Fault, q)
          | Some p \<Rightarrow> toq_timeout iNow (expire_front k p q))"
  by auto
termination
  by (relation "measure (\<lambda>(_, q). length (toq_time q))") auto

declare toq_timeout.simps [simp del]

definition toq_timeout_one :: "int \<Rightarrow> ('a timeout_queue, 'a option) act" where
  "toq_timeout_one iNow q =
     (case toq_time q of
        [] \<Rightarrow> (Ok None, q)
      | (t, k) # _ \<Rightarrow>
          if iNow < t then (Ok None, q)
          else case map_of (toq_data q) k of
            None \<Rightarrow> (Fault, q)
          | Some p \<Rightarrow> (Ok (Some (pi_ptr p)), expire_front k p q))"

section \<open>The three containers agree\<close>

definition toq_inv :: "'a timeout_queue \<Rightarrow> bool" where
  "toq_inv q \<longleftrightarrow>
     distinct (map fst (toq_data q)) \<and> distinct (map snd (toq_time q)) \<and>
     set (map snd (toq_time q)) = set (map fst (toq_data q)) \<and> sorted (map fst (toq_time q)) \<and>
     distinct (toq_send q) \<and>
     (\<forall>k. k \<in> set (toq_send q) \<longleftrightarrow> (\<exists>p. map_of (toq_data q) k = Some p \<and> \<not> pi_hasSend p))"

text \<open>
  What a client sees: every pending message with its deadline and whether it was sent, and the
  order in which the unsent ones go out.
\<close>

definition toq_view :: "'a timeout_queue \<Rightarrow> 32 word \<Rightarrow> ('a \<times> int \<times> bool) option" where
  "toq_view q k =
     (case (map_of (toq_data q) k, map_of (map prod.swap (toq_time q)) k) of
        (Some p, Some t) \<Rightarrow> Some (pi_ptr p, t, pi_hasSend p)
      | _ \<Rightarrow> None)"

definition toq_unsent :: "'a timeout_queue \<Rightarrow> 32 word list" where
  "toq_unsent q = rev (toq_send q)"

text \<open>Removing one message from all three.\<close>

definition toq_remove :: "32 word \<Rightarrow> 'a timeout_queue \<Rightarrow> 'a timeout_queue" where
  "toq_remove k q = data_erase k (time_erase k (send_erase k q))"

lemmas toq_erase_defs = data_erase_def time_erase_def send_erase_def

lemma map_of_filter_key:
  "map_of (filter (\<lambda>e. fst e \<noteq> k) xs) i = (if i = k then None else map_of xs i)"
  by (induction xs) auto

lemma map_of_swap_filter:
  "map_of (map prod.swap (filter (\<lambda>e. snd e \<noteq> k) xs)) i =
     (if i = k then None else map_of (map prod.swap xs) i)"
  by (induction xs) auto

lemma filter_absent: "k \<notin> set xs \<Longrightarrow> filter (\<lambda>i. i \<noteq> k) xs = xs"
  by (induction xs) auto

lemma sorted_map_filter: "sorted (map f xs) \<Longrightarrow> sorted (map f (filter P xs))"
  by (induction xs) auto

lemma distinct_map_filter': "distinct (map f xs) \<Longrightarrow> distinct (map f (filter P xs))"
  by (simp add: distinct_map_filter)

lemma toq_inv_remove: "toq_inv q \<Longrightarrow> toq_inv (toq_remove k q)"
  unfolding toq_inv_def toq_remove_def toq_erase_defs
  by (auto simp: map_of_filter_key distinct_map_filter' sorted_map_filter)

lemma toq_view_remove: "toq_view (toq_remove k q) = (toq_view q)(k := None)"
  by (rule ext)
    (simp add: toq_view_def toq_remove_def toq_erase_defs map_of_filter_key map_of_swap_filter)

lemma toq_unsent_remove: "toq_unsent (toq_remove k q) = filter (\<lambda>i. i \<noteq> k) (toq_unsent q)"
  by (simp add: toq_unsent_def toq_remove_def toq_erase_defs rev_filter)

lemma toq_inv_sent:
  "toq_inv q \<Longrightarrow> map_of (toq_data q) k = Some p \<Longrightarrow> k \<in> set (toq_send q) \<longleftrightarrow> \<not> pi_hasSend p"
  by (auto simp: toq_inv_def)

lemma toq_inv_view:
  assumes "toq_inv q"
  shows "toq_view q k = None \<longleftrightarrow> map_of (toq_data q) k = None"
proof -
  have "map_of (map prod.swap (toq_time q)) k = None \<longleftrightarrow> map_of (toq_data q) k = None"
    using assms by (simp add: map_of_eq_None_iff image_image toq_inv_def)
  then show ?thesis
    by (auto simp: toq_view_def simp del: map_of_eq_Some_iff split: option.splits)
qed

lemma toq_view_ptr: "toq_view q k = Some (m, t, b) \<Longrightarrow> map_of (toq_data q) k = Some p \<Longrightarrow>
    pi_ptr p = m \<and> pi_hasSend p = b"
  by (auto simp: toq_view_def split: option.splits)

section \<open>Identifiers\<close>

lemma next_id_step: "next_id u = (if u = - 1 then 1 else u + 1)"
proof (cases "u = - 1")
  case True
  then show ?thesis
    by (subst next_id.simps, simp, subst next_id.simps, simp)
next
  case False
  then have "u + 1 \<noteq> 0" by (metis add.commute eq_neg_iff_add_eq_0)
  with False show ?thesis by (subst next_id.simps) simp
qed

lemma next_id_nonzero: "next_id u \<noteq> 0"
proof (cases "u = - 1")
  case False
  then have "u + 1 \<noteq> 0" by (metis add.commute eq_neg_iff_add_eq_0)
  with False show ?thesis by (simp add: next_id_step)
qed (simp add: next_id_step)

lemma unat_minus_one_32: "unat (- 1 :: 32 word) = 4294967295"
  by (simp add: unsigned_minus_1_eq_mask mask_eq_exp_minus_1)

lemma next_id_nat: "unat (next_id u) = unat u mod 4294967295 + 1"
proof (cases "u = - 1")
  case True
  then show ?thesis by (simp add: next_id_step unat_minus_one_32)
next
  case False
  have "unat u < 4294967296" using unsigned_less [of u] by simp
  moreover have "unat u \<noteq> 4294967295"
    using False unat_minus_one_32 by (metis word_unat_eq_iff)
  ultimately have lt: "unat u < 4294967295" by simp
  then have "unat (u + 1) = unat u + 1"
    by (simp add: unat_word_ariths)
  then show ?thesis using False lt by (simp add: next_id_step)
qed

text \<open>The ids of \<open>n\<close> calls in a row.\<close>

primrec toq_generateIds :: "nat \<Rightarrow> 'a timeout_queue \<Rightarrow> 32 word list \<times> 'a timeout_queue" where
  "toq_generateIds 0 q = ([], q)"
| "toq_generateIds (Suc n) q =
     (let (u, q1) = toq_generateId q; (us, q2) = toq_generateIds n q1 in (u # us, q2))"

lemma toq_generateIds_nth:
  "i < n \<Longrightarrow> unat (fst (toq_generateIds n q) ! i) = (unat (toq_uniqId q) + i) mod 4294967295 + 1"
proof (induction n arbitrary: i q)
  case (Suc n)
  obtain us q2 where r: "toq_generateIds n (q\<lparr>toq_uniqId := next_id (toq_uniqId q)\<rparr>) = (us, q2)"
    by (cases "toq_generateIds n (q\<lparr>toq_uniqId := next_id (toq_uniqId q)\<rparr>)")
  show ?case
  proof (cases i)
    case 0
    then show ?thesis by (simp add: toq_generateId_def Let_def r next_id_nat)
  next
    case (Suc j)
    have "unat (us ! j) = (unat (next_id (toq_uniqId q)) + j) mod 4294967295 + 1"
      using Suc.IH [of j "q\<lparr>toq_uniqId := next_id (toq_uniqId q)\<rparr>"] Suc.prems Suc by (simp add: r)
    moreover have "(Suc (unat (toq_uniqId q) mod 4294967295 + j)) mod 4294967295 =
        Suc (unat (toq_uniqId q) + j) mod 4294967295"
      by (metis add_Suc mod_Suc_eq mod_add_left_eq)
    ultimately show ?thesis using Suc by (simp add: toq_generateId_def Let_def r next_id_nat)
  qed
qed simp

lemma toq_generateIds_length [simp]: "length (fst (toq_generateIds n q)) = n"
  by (induction n arbitrary: q) (auto simp: Let_def split_def)

lemma mod_shift_inj:
  fixes a i j m :: nat
  assumes "(a + i) mod m = (a + j) mod m" and "i < m" and "j < m"
  shows "i = j"
proof -
  have "(int a + int i) mod int m = (int a + int j) mod int m"
    using assms(1) by (metis of_nat_add of_nat_mod)
  then have "int m dvd int i - int j" by (simp add: mod_eq_dvd_iff)
  moreover have "\<bar>int i - int j\<bar> < int m" using assms(2,3) by linarith
  ultimately have "int i - int j = 0" using zdvd_not_zless zdvd_imp_le
    by (metis abs_of_nat dvd_imp_le_int not_less)
  then show ?thesis by simp
qed

section \<open>What every operation does to the view\<close>

lemma toq_inv_init: "toq_inv TimeoutQueue_init"
  by (simp add: toq_inv_def TimeoutQueue_init_def)

lemma toq_inv_generateId: "toq_inv q \<Longrightarrow> toq_inv (snd (toq_generateId q))"
  by (simp add: toq_inv_def toq_generateId_def Let_def)

lemma time_insert_set: "set (time_insert t k xs) = insert (t, k) (set xs)"
  by (induction t k xs rule: time_insert.induct) auto

lemma time_insert_distinct:
  "distinct (map snd (time_insert t k xs)) \<longleftrightarrow> k \<notin> snd ` set xs \<and> distinct (map snd xs)"
  by (induction t k xs rule: time_insert.induct) (auto simp: time_insert_set)

lemma time_insert_sorted: "sorted (map fst xs) \<Longrightarrow> sorted (map fst (time_insert t k xs))"
  by (induction t k xs rule: time_insert.induct) (fastforce simp: time_insert_set)+

lemma time_insert_lookup:
  "k \<notin> snd ` set xs \<Longrightarrow>
     map_of (map prod.swap (time_insert t k xs)) = (map_of (map prod.swap xs))(k \<mapsto> t)"
  by (induction t k xs rule: time_insert.induct) (auto simp: fun_upd_twist)

text \<open>Among equal deadlines the older message stays in front.\<close>

lemma time_insert_stable:
  "time_insert t k xs = takeWhile (\<lambda>e. fst e \<le> t) xs @ (t, k) # dropWhile (\<lambda>e. fst e \<le> t) xs"
  by (induction t k xs rule: time_insert.induct) auto

lemma toq_push_spec:
  assumes inv: "toq_inv q" and new: "toq_view q k = None"
  obtains q' where "toq_push m k t sent q = (True, q')" and "toq_inv q'"
    and "toq_view q' = (toq_view q)(k \<mapsto> (m, t, sent))"
    and "toq_unsent q' = (if sent then toq_unsent q else toq_unsent q @ [k])"
proof -
  let ?q = "snd (toq_push m k t sent q)"
  from new have n: "map_of (toq_data q) k = None" by (simp add: toq_inv_view [OF inv])
  then have kd: "k \<notin> fst ` set (toq_data q)" by (simp add: map_of_eq_None_iff)
  with inv have kt: "k \<notin> snd ` set (toq_time q)" by (simp add: toq_inv_def)
  have ks: "k \<notin> set (toq_send q)" using inv n by (simp add: toq_inv_def)
  have push: "toq_push m k t sent q = (True, ?q)" using n by (simp add: toq_push_def Let_def)
  have sel: "toq_data ?q = (k, \<lparr>pi_ptr = m, pi_hasSend = sent\<rparr>) # toq_data q"
    "toq_time ?q = time_insert t k (toq_time q)"
    "toq_send ?q = (if sent then toq_send q else k # toq_send q)"
    using n by (simp_all add: toq_push_def Let_def)
  have "toq_inv ?q"
    unfolding toq_inv_def sel using inv kd kt ks
    by (auto simp: toq_inv_def time_insert_set time_insert_distinct time_insert_sorted simp del: map_of_eq_Some_iff)
  moreover have "toq_view ?q = (toq_view q)(k \<mapsto> (m, t, sent))"
    by (rule ext) (simp add: toq_view_def sel time_insert_lookup [OF kt])
  moreover have "toq_unsent ?q = (if sent then toq_unsent q else toq_unsent q @ [k])"
    by (simp add: toq_unsent_def sel)
  ultimately show ?thesis using push that by blast
qed

lemma toq_push_known:
  "toq_inv q \<Longrightarrow> toq_view q k \<noteq> None \<Longrightarrow> toq_push m k t sent q = (False, q)"
  using toq_inv_view [of q k] by (simp add: toq_push_def)

lemma send_erase_sent:
  assumes "toq_inv q" and "map_of (toq_data q) k = Some p" and "pi_hasSend p"
  shows "send_erase k q = q"
  using toq_inv_sent [OF assms(1,2)] assms(3) by (simp add: send_erase_def filter_absent)

lemma toq_erase_spec:
  assumes inv: "toq_inv q"
  shows "toq_erase k q = (case toq_view q k of None \<Rightarrow> (None, q) | Some (m, _, _) \<Rightarrow> (Some m, toq_remove k q))"
proof (cases "map_of (toq_data q) k")
  case None
  then show ?thesis using toq_inv_view [OF inv, of k] by (simp add: toq_erase_def)
next
  case (Some p)
  then obtain m t b where v: "toq_view q k = Some (m, t, b)"
    using toq_inv_view [OF inv, of k] by (cases "toq_view q k") auto
  have "(if \<not> pi_hasSend p then send_erase k q else q) = send_erase k q"
    using send_erase_sent [OF inv Some] by simp
  then show ?thesis
    using v toq_view_ptr [OF v Some] by (simp add: toq_erase_def Some toq_remove_def Let_def)
qed

lemma toq_get_erase: "toq_get k True q = toq_erase k q"
  by (simp add: toq_get_def toq_erase_def toq_erase_defs Let_def split: option.split)

lemma toq_get_peek:
  assumes "toq_inv q"
  shows "toq_get k False q = (map_option fst (toq_view q k), q)"
proof (cases "map_of (toq_data q) k")
  case None
  then show ?thesis using toq_inv_view [OF assms, of k] by (simp add: toq_get_def)
next
  case (Some p)
  then obtain m t b where v: "toq_view q k = Some (m, t, b)"
    using toq_inv_view [OF assms, of k] by (cases "toq_view q k") auto
  show ?thesis using toq_view_ptr [OF v Some] by (simp add: toq_get_def Some v)
qed

section \<open>Sending\<close>

lemma toq_unsent_head:
  assumes "toq_inv q" and "toq_unsent q = k # ks"
  obtains p where "toq_send q \<noteq> []" and "last (toq_send q) = k" and "k \<in> set (toq_send q)"
    and "butlast (toq_send q) = rev ks" and "k \<notin> set ks"
    and "map_of (toq_data q) k = Some p" and "\<not> pi_hasSend p"
proof -
  have s: "toq_send q = rev ks @ [k]" using assms(2) by (simp add: toq_unsent_def rev_eq_Cons_iff)
  moreover obtain p where "map_of (toq_data q) k = Some p" "\<not> pi_hasSend p"
    using assms(1) s unfolding toq_inv_def by (metis in_set_conv_decomp)
  ultimately show ?thesis using that assms(1) by (simp add: toq_inv_def)
qed

lemma toq_getSend_spec:
  assumes inv: "toq_inv q" and u: "toq_unsent q = k # ks"
  obtains m t where "toq_view q k = Some (m, t, False)" and "toq_getSend q = (Ok (Some m), q)"
proof -
  obtain p where p: "toq_send q \<noteq> []" "last (toq_send q) = k"
    "map_of (toq_data q) k = Some p" "\<not> pi_hasSend p"
    by (rule toq_unsent_head [OF inv u])
  then obtain m t b where v: "toq_view q k = Some (m, t, b)"
    using toq_inv_view [OF inv, of k] by (cases "toq_view q k") auto
  from toq_view_ptr [OF v p(3)] p that v show ?thesis by (simp add: toq_getSend_def)
qed

lemma toq_getSend_empty: "toq_unsent q = [] \<Longrightarrow> toq_getSend q = (Ok None, q)"
  by (simp add: toq_getSend_def toq_unsent_def)

lemma map_of_set_flag:
  "map_of (map (\<lambda>(i, p). (i, if i = k then f p else p)) xs) =
     (\<lambda>i. if i = k then map_option f (map_of xs i) else map_of xs i)"
  by (induction xs) auto

lemma map_fst_set_flag: "map fst (map (\<lambda>(i, p). (i, g i p)) xs) = map fst xs"
  by (induction xs) auto

lemma filter_set_flag:
  "filter (\<lambda>e. fst e \<noteq> k) (map (\<lambda>(i, p). (i, if i = k then f p else p)) xs) =
     filter (\<lambda>e. fst e \<noteq> k) xs"
  by (induction xs) auto

lemma toq_popSend_del:
  assumes inv: "toq_inv q" and u: "toq_unsent q = k # ks"
  shows "toq_popSend True q = (Ok (), toq_remove k q)"
proof -
  obtain p where p: "toq_send q \<noteq> []" "last (toq_send q) = k" "butlast (toq_send q) = rev ks"
    "map_of (toq_data q) k = Some p" "k \<notin> set ks"
    by (rule toq_unsent_head [OF inv u])
  have "filter (\<lambda>i. i \<noteq> k) (toq_send q) = rev ks"
    using u p(5) by (simp add: toq_unsent_def rev_eq_Cons_iff filter_absent)
  then show ?thesis
    using p by (simp add: toq_popSend_def Let_def toq_remove_def toq_erase_defs filter_set_flag)
qed

lemma toq_popSend_keep:
  assumes inv: "toq_inv q" and u: "toq_unsent q = k # ks" and v: "toq_view q k = Some (m, t, False)"
  obtains q' where "toq_popSend False q = (Ok (), q')" and "toq_inv q'" and "toq_unsent q' = ks"
    and "toq_view q' = (toq_view q)(k \<mapsto> (m, t, True))"
proof -
  obtain p where p: "toq_send q \<noteq> []" "last (toq_send q) = k" "butlast (toq_send q) = rev ks"
    "map_of (toq_data q) k = Some p" "k \<notin> set ks"
    by (rule toq_unsent_head [OF inv u])
  let ?d = "map (\<lambda>(i, p). (i, if i = k then p\<lparr>pi_hasSend := True\<rparr> else p)) (toq_data q)"
  let ?q = "q\<lparr>toq_data := ?d, toq_send := rev ks\<rparr>"
  have pop: "toq_popSend False q = (Ok (), ?q)" using p by (simp add: toq_popSend_def)
  have s: "toq_send q = rev ks @ [k]" using u by (simp add: toq_unsent_def rev_eq_Cons_iff)
  have keys: "i \<in> set ks \<longleftrightarrow> i \<noteq> k \<and> (\<exists>p. map_of (toq_data q) i = Some p \<and> \<not> pi_hasSend p)" for i
  proof -
    have "i \<in> set (rev ks @ [k]) \<longleftrightarrow> (\<exists>p. map_of (toq_data q) i = Some p \<and> \<not> pi_hasSend p)"
      using inv unfolding toq_inv_def s by blast
    then show ?thesis using p(5) by auto
  qed
  have sel: "toq_data ?q = ?d" "toq_time ?q = toq_time q" "toq_send ?q = rev ks" by simp_all
  have d: "map fst ?d = map fst (toq_data q)" by (rule map_fst_set_flag)
  have "\<forall>i. i \<in> set (rev ks) \<longleftrightarrow> (\<exists>p. map_of ?d i = Some p \<and> \<not> pi_hasSend p)"
  proof
    fix i
    show "i \<in> set (rev ks) \<longleftrightarrow> (\<exists>p. map_of ?d i = Some p \<and> \<not> pi_hasSend p)"
      using keys [of i] p(4) by (cases "i = k") (simp_all add: map_of_set_flag)
  qed
  moreover have "distinct (rev ks)" using inv s by (simp add: toq_inv_def)
  ultimately have "toq_inv ?q"
    using inv unfolding toq_inv_def sel d by (elim conjE) (intro conjI; assumption)
  moreover have "toq_view ?q = (toq_view q)(k \<mapsto> (m, t, True))"
    using v p(4) by (auto simp: toq_view_def map_of_set_flag fun_eq_iff split: option.splits)
  ultimately show ?thesis using pop that by (simp add: toq_unsent_def)
qed

section \<open>Timing out\<close>

lemma expire_front_remove:
  assumes inv: "toq_inv q" and t: "toq_time q = (t, k) # ts"
    and p: "map_of (toq_data q) k = Some p"
  shows "expire_front k p q = toq_remove k q"
proof -
  have "(if \<not> pi_hasSend p then send_erase k q else q) = send_erase k q"
    using send_erase_sent [OF inv p] by simp
  moreover have "filter (\<lambda>e. snd e \<noteq> k) ts = ts"
    using inv t by (force simp: toq_inv_def intro!: filter_True)
  ultimately show ?thesis
    using t by (simp add: expire_front_def toq_remove_def toq_erase_defs Let_def)
qed

lemma toq_front_live:
  assumes "toq_inv q" and "toq_time q = (t, k) # ts"
  obtains p where "map_of (toq_data q) k = Some p" and "toq_view q k = Some (pi_ptr p, t, pi_hasSend p)"
proof -
  have "k \<in> fst ` set (toq_data q)" using assms by (auto simp: toq_inv_def)
  then obtain p where "map_of (toq_data q) k = Some p"
    by (metis map_of_eq_None_iff not_None_eq)
  then show ?thesis using that assms(2) by (simp add: toq_view_def)
qed

lemma toq_deadline:
  assumes "toq_inv q" and "toq_view q k = Some (m, t, b)"
  shows "(t, k) \<in> set (toq_time q)"
  using assms(2) by (auto simp: toq_view_def split: option.splits dest!: map_of_SomeD)

lemma toq_first_deadline:
  assumes "toq_inv q" and "toq_time q = (t, k) # ts" and "toq_view q i = Some (m, t', b)"
  shows "t \<le> t'"
  using toq_deadline [OF assms(1,3)] assms(1,2) by (auto simp: toq_inv_def)

text \<open>The view without the messages whose time is over.\<close>

definition still_pending :: "int \<Rightarrow> ('a \<times> int \<times> bool) option \<Rightarrow> ('a \<times> int \<times> bool) option" where
  "still_pending iNow v = (case v of Some (m, t, b) \<Rightarrow> if t \<le> iNow then None else v | None \<Rightarrow> None)"

lemma toq_timeout_spec:
  "toq_inv q \<Longrightarrow> \<exists>q'. toq_timeout iNow q = (Ok (), q') \<and> toq_inv q' \<and>
     toq_view q' = (\<lambda>k. still_pending iNow (toq_view q k)) \<and>
     toq_unsent q' = filter (\<lambda>k. toq_view q' k \<noteq> None) (toq_unsent q)"
proof (induction iNow q rule: toq_timeout.induct)
  case (1 iNow q)
  have live: "toq_view q k \<noteq> None" if "k \<in> set (toq_unsent q)" for k
    using that "1.prems" toq_inv_view [OF "1.prems", of k] by (auto simp: toq_inv_def toq_unsent_def)
  have stop: ?case if "toq_timeout iNow q = (Ok (), q)"
    and late: "\<And>k m t b. toq_view q k = Some (m, t, b) \<Longrightarrow> iNow < t"
  proof -
    have "toq_view q k = still_pending iNow (toq_view q k)" for k
      using late [of k] by (cases "toq_view q k") (force simp: still_pending_def)+
    moreover have "toq_unsent q = filter (\<lambda>k. toq_view q k \<noteq> None) (toq_unsent q)"
      using live by (simp add: filter_id_conv)
    ultimately show ?thesis using that(1) "1.prems" by auto
  qed
  show ?case
  proof (cases "toq_time q")
    case Nil
    then have "toq_view q k = None" for k by (simp add: toq_view_def split: option.split)
    then show ?thesis using Nil stop by (simp add: toq_timeout.simps)
  next
    case (Cons e ts)
    obtain t k where t: "toq_time q = (t, k) # ts" using Cons by (cases e) simp
    obtain p where p: "map_of (toq_data q) k = Some p"
      and vk: "toq_view q k = Some (pi_ptr p, t, pi_hasSend p)"
      by (rule toq_front_live [OF "1.prems" t])
    show ?thesis
    proof (cases "iNow < t")
      case True
      have "toq_timeout iNow q = (Ok (), q)" using t True by (subst toq_timeout.simps) simp
      then show ?thesis
        using stop toq_first_deadline [OF "1.prems" t] True by (meson less_le_trans)
    next
      case False
      note rem = expire_front_remove [OF "1.prems" t p]
      obtain q' where q': "toq_timeout iNow (toq_remove k q) = (Ok (), q')" "toq_inv q'"
        "toq_view q' = (\<lambda>i. still_pending iNow (toq_view (toq_remove k q) i))"
        "toq_unsent q' = filter (\<lambda>i. toq_view q' i \<noteq> None) (toq_unsent (toq_remove k q))"
        using "1.IH" [OF t refl False p] toq_inv_remove [OF "1.prems"] rem by auto
      have "toq_timeout iNow q = (Ok (), q')"
        using t p False q'(1) rem by (subst toq_timeout.simps) simp
      moreover have view: "toq_view q' = (\<lambda>i. still_pending iNow (toq_view q i))"
        using vk False by (auto simp: q'(3) toq_view_remove still_pending_def fun_eq_iff)
      moreover have "toq_view q' k = None" using vk False by (simp add: view still_pending_def)
      then have "toq_unsent q' = filter (\<lambda>i. toq_view q' i \<noteq> None) (toq_unsent q)"
        unfolding q'(4) toq_unsent_remove filter_filter by (intro filter_cong) auto
      ultimately show ?thesis using q'(2) by blast
    qed
  qed
qed

text \<open>One message at a time: the earliest deadline, the older one first.\<close>

lemma toq_timeout_one_spec:
  assumes inv: "toq_inv q" and t: "toq_time q = (t, k) # ts" and due: "t \<le> iNow"
  obtains m b where "toq_timeout_one iNow q = (Ok (Some m), toq_remove k q)"
    and "toq_view q k = Some (m, t, b)" and "\<And>i m' t' b'. toq_view q i = Some (m', t', b') \<Longrightarrow> t \<le> t'"
proof -
  obtain p where p: "map_of (toq_data q) k = Some p"
    and vk: "toq_view q k = Some (pi_ptr p, t, pi_hasSend p)"
    by (rule toq_front_live [OF inv t])
  show ?thesis
    using that vk p t due expire_front_remove [OF inv t p] toq_first_deadline [OF inv t]
    by (simp add: toq_timeout_one_def)
qed

lemma toq_timeout_one_none:
  assumes inv: "toq_inv q" and r: "toq_timeout_one iNow q = (Ok None, q')"
    and v: "toq_view q k = Some (m, t, b)"
  shows "q' = q \<and> iNow < t"
proof (cases "toq_time q")
  case Nil
  then show ?thesis using v by (simp add: toq_view_def split: option.splits)
next
  case (Cons e ts)
  obtain t0 k0 where t: "toq_time q = (t0, k0) # ts" using Cons by (cases e) simp
  then show ?thesis
    using r toq_first_deadline [OF inv t v]
    by (auto simp: toq_timeout_one_def split: if_splits option.splits)
qed

section \<open>Every history of calls\<close>

datatype 'a toq_op =
    GenerateId
  | Push_msg 'a "32 word" int bool
  | GetSend
  | PopSend bool
  | Get_msg "32 word" bool
  | Erase_msg "32 word"
  | Timeout_all int
  | Timeout_one int

fun toq_step :: "'a toq_op \<Rightarrow> ('a timeout_queue, unit) act" where
  "toq_step GenerateId q = (Ok (), snd (toq_generateId q))"
| "toq_step (Push_msg m k t b) q = (Ok (), snd (toq_push m k t b q))"
| "toq_step GetSend q = andthen toq_getSend (\<lambda>_. ret ()) q"
| "toq_step (PopSend del) q = toq_popSend del q"
| "toq_step (Get_msg k b) q = (Ok (), snd (toq_get k b q))"
| "toq_step (Erase_msg k) q = (Ok (), snd (toq_erase k q))"
| "toq_step (Timeout_all now) q = toq_timeout now q"
| "toq_step (Timeout_one now) q = andthen (toq_timeout_one now) (\<lambda>_. ret ()) q"

primrec toq_run :: "'a toq_op list \<Rightarrow> ('a timeout_queue, unit) act" where
  "toq_run [] q = (Ok (), q)"
| "toq_run (c # cs) q = andthen (toq_step c) (\<lambda>_. toq_run cs) q"

lemma toq_erase_keeps: "toq_inv q \<Longrightarrow> toq_inv (snd (toq_erase k q))"
  by (simp add: toq_erase_spec toq_inv_remove split: option.split)

lemma toq_push_keeps: "toq_inv q \<Longrightarrow> toq_inv (snd (toq_push m k t b q))"
  by (cases "toq_view q k") (auto simp: toq_push_known elim: toq_push_spec [where m = m and t = t and sent = b])

lemma toq_get_keeps: "toq_inv q \<Longrightarrow> toq_inv (snd (toq_get k b q))"
  by (cases b) (simp_all add: toq_get_erase toq_erase_keeps toq_get_peek)

lemma toq_getSend_keeps:
  assumes "toq_inv q"
  obtains r where "toq_getSend q = (Ok r, q)"
  using assms that
  by (cases "toq_unsent q") (auto simp: toq_getSend_empty elim: toq_getSend_spec)

lemma toq_popSend_keeps:
  assumes inv: "toq_inv q" and u: "toq_unsent q \<noteq> []"
  obtains q' where "toq_popSend b q = (Ok (), q')" and "toq_inv q'"
proof -
  obtain k ks where k: "toq_unsent q = k # ks" using u by (cases "toq_unsent q") auto
  obtain m t where v: "toq_view q k = Some (m, t, False)" by (rule toq_getSend_spec [OF inv k])
  show ?thesis
    using that toq_popSend_del [OF inv k] toq_inv_remove [OF inv] toq_popSend_keep [OF inv k v]
    by (cases b) metis+
qed

lemma toq_timeout_one_keeps:
  assumes inv: "toq_inv q"
  obtains r q' where "toq_timeout_one now q = (Ok r, q')" and "toq_inv q'"
proof (cases "toq_time q")
  case Nil
  then show ?thesis using that [of None q] inv by (simp add: toq_timeout_one_def)
next
  case (Cons e ts)
  obtain t k where t: "toq_time q = (t, k) # ts" using Cons by (cases e) simp
  obtain p where p: "map_of (toq_data q) k = Some p"
    by (rule toq_front_live [OF inv t])
  show ?thesis
    using that t p inv toq_inv_remove [OF inv] expire_front_remove [OF inv t p]
    by (cases "now < t") (simp_all add: toq_timeout_one_def)
qed

lemma toq_step_keeps:
  assumes "toq_inv q"
  shows "toq_inv (snd (toq_step c q)) \<and>
    (fst (toq_step c q) = Ok () \<or> (\<exists>b. c = PopSend b) \<and> toq_unsent q = [] \<and> toq_step c q = (Abort, q))"
proof (cases c)
  case (PopSend b)
  show ?thesis
  proof (cases "toq_unsent q = []")
    case True
    then show ?thesis using PopSend assms by (simp add: toq_popSend_def toq_unsent_def)
  next
    case False
    then show ?thesis using PopSend by (metis assms fst_conv snd_conv toq_popSend_keeps toq_step.simps(4))
  qed
next
  case GetSend
  obtain r where "toq_getSend q = (Ok r, q)" by (rule toq_getSend_keeps [OF assms])
  then show ?thesis using GetSend assms by (simp add: act_simps)
next
  case (Timeout_one now)
  obtain r q' where "toq_timeout_one now q = (Ok r, q')" "toq_inv q'"
    by (rule toq_timeout_one_keeps [OF assms])
  then show ?thesis using Timeout_one by (simp add: act_simps)
next
  case (Timeout_all now)
  then show ?thesis using toq_timeout_spec [OF assms, of now] by auto
qed (simp_all add: assms toq_inv_generateId toq_push_keeps toq_get_keeps toq_erase_keeps)

lemma toq_run_inv:
  "toq_inv q \<Longrightarrow> toq_inv (snd (toq_run cs q)) \<and> fst (toq_run cs q) \<in> {Ok (), Abort}"
proof (induction cs arbitrary: q)
  case (Cons c cs)
  obtain r q1 where s: "toq_step c q = (r, q1)" by (cases "toq_step c q")
  then have "toq_inv q1" and "r = Ok () \<or> r = Abort"
    using toq_step_keeps [OF Cons.prems, of c] by auto
  then show ?case using Cons.IH [of q1] s by (auto simp: andthen_def)
qed simp

text \<open>The sender's loop: take the oldest unsent message, then drop it.\<close>

primrec toq_drain :: "nat \<Rightarrow> ('a timeout_queue, 'a list) act" where
  "toq_drain 0 q = (Ok [], q)"
| "toq_drain (Suc n) q =
     andthen toq_getSend (\<lambda>r. case r of
         None \<Rightarrow> ret []
       | Some m \<Rightarrow> andthen (toq_popSend False) (\<lambda>_. andthen (toq_drain n) (\<lambda>ms. ret (m # ms)))) q"

end
