(* ===== verification/Coro_Scheduler.thy ===== *)
theory Coro_Scheduler
  imports Coro_List Thread_Queue Timeout_Queue
begin

text \<open>
  \<open>CoroutineScheduler\<close> of \<^verbatim>\<open>src/servant/libservant/CoroutineScheduler.cpp\<close>: many coroutines take
  turns on one thread. The bodies of coroutines are the user's code; they are given as a transition
  system \<open>prog\<close> that tells for every control point what the coroutine does until it gives up the
  thread, so a body may also run for ever. A switch of contexts runs that segment.
\<close>

section \<open>State\<close>

text \<open>
  What a coroutine does from a control point on: it ends (\<open>Finish\<close>, whether by returning or by an
  exception, which the entry functions swallow), it yields or sleeps and goes on at another
  point, or it creates a coroutine and goes on with what was returned.
\<close>

datatype 'p coro_step =
    Finish
  | Yield bool 'p
  | Sleep "32 word" 'p
  | Create 'p "32 word \<Rightarrow> 'p coro_step"

datatype coro_array = NoArray | DeletedArray | Array "coro_ptr list"

text \<open>
  \<open>cs_fresh\<close> is the next object \<open>new\<close> makes, \<open>cs_clock k\<close> what the \<open>k\<close>-th reading of the clock
  yields, \<open>cs_notified\<close> counts the notifications sent.
\<close>

record 'p scheduler =
  cs_terminal :: bool
  cs_poolSize :: "32 word"
  cs_stackSize :: nat
  cs_currentSize :: "32 word"
  cs_usedSize :: "32 word"
  cs_uniqId :: "32 word"
  cs_handle :: bool
  cs_currentCoro :: coro_ptr
  cs_all_coro :: coro_array
  cs_heap :: "'p coro_heap"
  cs_fresh :: nat
  cs_alloc :: stack_memory
  cs_activeCoroQueue :: "32 word thread_queue"
  cs_needActiveCoroId :: "32 word list"
  cs_timeoutCoroId :: "(int \<times> 32 word) list"
  cs_clock :: "nat \<Rightarrow> int"
  cs_readings :: nat
  cs_notified :: nat

definition on_heap :: "('p coro_heap, 'a) act \<Rightarrow> ('p scheduler, 'a) act" where
  "on_heap = zoom cs_heap (\<lambda>h s. s\<lparr>cs_heap := h\<rparr>)"

definition on_alloc :: "(stack_memory, 'a) act \<Rightarrow> ('p scheduler, 'a) act" where
  "on_alloc = zoom cs_alloc (\<lambda>m s. s\<lparr>cs_alloc := m\<rparr>)"

definition cs_update :: "('p scheduler \<Rightarrow> 'p scheduler) \<Rightarrow> ('p scheduler, unit) act" where
  "cs_update f s = (Ok (), f s)"

definition cs_read :: "('p scheduler \<Rightarrow> 'a) \<Rightarrow> ('p scheduler, 'a) act" where
  "cs_read f s = (Ok (f s), s)"

definition cs_assert :: "bool \<Rightarrow> ('p scheduler, unit) act" where
  "cs_assert b s = (if b then (Ok (), s) else (Abort, s))"

definition gettime :: "('p scheduler, int) act" where
  "gettime s = (Ok (cs_clock s (cs_readings s)), s\<lparr>cs_readings := cs_readings s + 1\<rparr>)"

text \<open>\<^verbatim>\<open>new CoroutineInfo(this)\<close> and \<open>delete\<close>.\<close>

definition coro_new :: "('p scheduler, coro_ptr) act" where
  "coro_new s = (Ok (Coro (cs_fresh s)),
     s\<lparr>cs_heap := (cs_heap s)(Coro (cs_fresh s) \<mapsto> CoroutineInfo_new), cs_fresh := cs_fresh s + 1\<rparr>)"

definition coro_delete :: "coro_ptr \<Rightarrow> ('p scheduler, unit) act" where
  "coro_delete p s = (Ok (), s\<lparr>cs_heap := (cs_heap s)(p := None)\<rparr>)"

text \<open>\<^verbatim>\<open>_all_coro[i]\<close>, read and written.\<close>

definition all_coro_get :: "32 word \<Rightarrow> ('p scheduler, coro_ptr) act" where
  "all_coro_get i s =
     (case cs_all_coro s of
        Array ps \<Rightarrow> if unat i < length ps then (Ok (ps ! unat i), s) else (Fault, s)
      | _ \<Rightarrow> (Fault, s))"

definition all_coro_put :: "32 word \<Rightarrow> coro_ptr \<Rightarrow> ('p scheduler, unit) act" where
  "all_coro_put i p s =
     (case cs_all_coro s of
        Array ps \<Rightarrow>
          if unat i < length ps then (Ok (), s\<lparr>cs_all_coro := Array (ps[unat i := p])\<rparr>) else (Fault, s)
      | _ \<Rightarrow> (Fault, s))"

text \<open>\<^verbatim>\<open>new CoroutineInfo*[_poolSize+1]\<close> with the loop that clears it; the sum is of 32 bits.\<close>

definition all_coro_fresh :: "('p scheduler, unit) act" where
  "all_coro_fresh s =
     (if unat (cs_poolSize s) < unat (cs_poolSize s + 1)
      then (Ok (), s\<lparr>cs_all_coro := Array (replicate (unat (cs_poolSize s) + 1) NullCoro)\<rparr>)
      else (Fault, s))"

section \<open>Construction and the pool\<close>

definition heads_init :: "('p coro_heap, unit) act" where
  "heads_init =
     andthen (CoroutineHeadInit ActiveHead) (\<lambda>_.
     andthen (CoroutineHeadInit AvailHead) (\<lambda>_.
     andthen (CoroutineHeadInit InactiveHead) (\<lambda>_.
     andthen (CoroutineHeadInit TimeoutHead) (\<lambda>_.
     CoroutineHeadInit FreeHead))))"

text \<open>The objects inside the scheduler exist from its construction on.\<close>

definition objects_init :: "'p coro_heap" where
  "objects_init p =
     (if p \<in> {MainCoro, ActiveHead, AvailHead, InactiveHead, TimeoutHead, FreeHead}
      then Some CoroutineInfo_main else None)"

definition CoroutineScheduler :: "stack_memory \<Rightarrow> (nat \<Rightarrow> int) \<Rightarrow> 'p scheduler" where
  "CoroutineScheduler mem clock =
     (let s = \<lparr>cs_terminal = False, cs_poolSize = 1000, cs_stackSize = 128 * 1024, cs_currentSize = 0,
        cs_usedSize = 0, cs_uniqId = 0, cs_handle = False, cs_currentCoro = NullCoro,
        cs_all_coro = NoArray, cs_heap = objects_init, cs_fresh = 0, cs_alloc = mem,
        cs_activeCoroQueue = ThreadQueue_init, cs_needActiveCoroId = [], cs_timeoutCoroId = [],
        cs_clock = clock, cs_readings = 0, cs_notified = 0\<rparr>
      in snd (andthen all_coro_fresh (\<lambda>_. on_heap heads_init) s))"

definition cs_generateId :: "('p scheduler, 32 word) act" where
  "cs_generateId s =
     (let u = cs_uniqId s + 1;
          i = (if u < 1 then u + 1 else u);
          s' = s\<lparr>cs_uniqId := i\<rparr>
      in if i \<le> cs_poolSize s' then (Ok i, s') else (Abort, s'))"

definition setUid :: "coro_ptr \<Rightarrow> 32 word \<Rightarrow> ('p coro_heap, unit) act" where
  "setUid p i = coro_set p (\<lambda>c. c\<lparr>ci_uid := i\<rparr>)"

definition setStackContext :: "coro_ptr \<Rightarrow> stack_context \<Rightarrow> ('p coro_heap, unit) act" where
  "setStackContext p ctx = coro_set p (\<lambda>c. c\<lparr>ci_stack_ctx := ctx\<rparr>)"

text \<open>The loop of \<open>init\<close>, with the number of coroutines made so far.\<close>

primrec cs_init_loop :: "nat \<Rightarrow> nat \<Rightarrow> nat \<Rightarrow> ('p scheduler, nat) act" where
  "cs_init_loop 0 iStackSize iSucc = ret iSucc"
| "cs_init_loop (Suc n) iStackSize iSucc =
     andthen coro_new (\<lambda>coro.
     andthen (on_alloc (allocate iStackSize)) (\<lambda>r.
     case r of
       None \<Rightarrow> andthen (coro_delete coro) (\<lambda>_. ret iSucc)
     | Some s_ctx \<Rightarrow>
         andthen (on_heap (setStackContext coro s_ctx)) (\<lambda>_.
         andthen cs_generateId (\<lambda>iId.
         andthen (on_heap (setUid coro iId)) (\<lambda>_.
         andthen (on_heap (setStatus coro CORO_FREE)) (\<lambda>_.
         andthen (all_coro_put iId coro) (\<lambda>_.
         andthen (on_heap (CoroutineAddTail coro FreeHead)) (\<lambda>_.
         cs_init_loop n iStackSize (iSucc + 1)))))))))"

definition cs_init :: "32 word \<Rightarrow> nat \<Rightarrow> ('p scheduler, unit) act" where
  "cs_init iPoolSize iStackSize =
     (if iPoolSize \<le> 0 then ret ()
      else
        andthen (cs_update (\<lambda>s. s\<lparr>cs_terminal := False, cs_poolSize := iPoolSize,
          cs_stackSize := iStackSize,
          cs_currentSize := (if iPoolSize \<le> 100 then iPoolSize else 100)\<rparr>)) (\<lambda>_.
        andthen (cs_read cs_all_coro) (\<lambda>arr.
        andthen (if arr \<noteq> NoArray then all_coro_fresh else ret ()) (\<lambda>_.
        andthen (cs_update (\<lambda>s. s\<lparr>cs_usedSize := 0, cs_uniqId := 0\<rparr>)) (\<lambda>_.
        andthen (cs_read cs_currentSize) (\<lambda>cur.
        andthen (cs_init_loop (unat cur) iStackSize 0) (\<lambda>iSucc.
        andthen (cs_update (\<lambda>s. s\<lparr>cs_currentSize := word_of_nat iSucc\<rparr>)) (\<lambda>_.
        andthen (on_heap (setUid MainCoro 0)) (\<lambda>_.
        andthen (on_heap (setStatus MainCoro CORO_FREE)) (\<lambda>_.
        cs_update (\<lambda>s. s\<lparr>cs_currentCoro := MainCoro\<rparr>)))))))))))"

text \<open>Here the id is taken before the stack is.\<close>

primrec cs_increase_loop :: "nat \<Rightarrow> nat \<Rightarrow> ('p scheduler, nat) act" where
  "cs_increase_loop 0 iSucc = ret iSucc"
| "cs_increase_loop (Suc n) iSucc =
     andthen coro_new (\<lambda>coro.
     andthen cs_generateId (\<lambda>iId.
     andthen (on_heap (setUid coro iId)) (\<lambda>_.
     andthen (on_heap (setStatus coro CORO_FREE)) (\<lambda>_.
     andthen (cs_read cs_stackSize) (\<lambda>stackSize.
     andthen (on_alloc (allocate stackSize)) (\<lambda>r.
     case r of
       None \<Rightarrow> andthen (coro_delete coro) (\<lambda>_. ret iSucc)
     | Some s_ctx \<Rightarrow>
         andthen (on_heap (setStackContext coro s_ctx)) (\<lambda>_.
         andthen (all_coro_put iId coro) (\<lambda>_.
         andthen (on_heap (CoroutineAddTail coro FreeHead)) (\<lambda>_.
         cs_increase_loop n (iSucc + 1))))))))))"

text \<open>Success is the result 0.\<close>

definition increaseCoroPoolSize :: "('p scheduler, bool) act" where
  "increaseCoroPoolSize =
     andthen (cs_read (\<lambda>s. cs_poolSize s - cs_currentSize s)) (\<lambda>room.
     let iInc = (if 100 < room then 100 else room) in
     if iInc \<le> 0 then ret False
     else
       andthen (cs_increase_loop (unat iInc) 0) (\<lambda>iSucc.
       if iSucc = 0 then ret False
       else
         andthen (cs_update (\<lambda>s. s\<lparr>cs_currentSize := cs_currentSize s + word_of_nat iSucc\<rparr>)) (\<lambda>_.
         ret True)))"

section \<open>Coroutines are created\<close>

text \<open>
  The new context is entered once, up to the jump back of \<open>corotineEntry\<close>; what is left to run is
  the callback.
\<close>

definition registerFunc :: "coro_ptr \<Rightarrow> 'p \<Rightarrow> ('p coro_heap, unit) act" where
  "registerFunc p callback =
     coro_set p (\<lambda>c. c\<lparr>ci_callback := Some callback, ci_ctx_to := Some callback\<rparr>)"

definition cs_createCoroutine :: "'p \<Rightarrow> ('p scheduler, 32 word) act" where
  "cs_createCoroutine callback =
     andthen (cs_read (\<lambda>s. cs_currentSize s \<le> cs_usedSize s)) (\<lambda>full.
     andthen (on_heap (CoroutineHeadEmpty FreeHead)) (\<lambda>none.
     andthen (if full \<or> none then increaseCoroPoolSize else ret True) (\<lambda>ok.
     if \<not> ok then ret 0
     else
       andthen (on_heap (coro_get FreeHead)) (\<lambda>f.
       let coro = ci_next f in
       andthen (cs_assert (coro \<noteq> NullCoro)) (\<lambda>_.
       andthen (on_heap (CoroutineDel coro)) (\<lambda>_.
       andthen (cs_update (\<lambda>s. s\<lparr>cs_usedSize := cs_usedSize s + 1\<rparr>)) (\<lambda>_.
       andthen (on_heap (setStatus coro CORO_AVAIL)) (\<lambda>_.
       andthen (on_heap (CoroutineAddTail coro AvailHead)) (\<lambda>_.
       andthen (on_heap (registerFunc coro callback)) (\<lambda>_.
       andthen (on_heap (coro_get coro)) (\<lambda>c.
       ret (ci_uid c))))))))))))"

section \<open>Coroutines are moved\<close>

text \<open>A coroutine whose status is not among those the function expects stays where it is.\<close>

definition move_if :: "CORO_STATUS set \<Rightarrow> CORO_STATUS \<Rightarrow> coro_ptr \<Rightarrow> ('p scheduler, unit) act" where
  "move_if from to coro =
     on_heap (andthen (coro_get coro) (\<lambda>c.
       if ci_eStatus c \<in> from then relink coro to else ret ()))"

definition moveToActive :: "coro_ptr \<Rightarrow> ('p scheduler, unit) act" where
  "moveToActive = move_if {CORO_INACTIVE, CORO_TIMEOUT} CORO_ACTIVE"

definition moveToAvail :: "coro_ptr \<Rightarrow> ('p scheduler, unit) act" where
  "moveToAvail = move_if {CORO_INACTIVE} CORO_AVAIL"

definition moveToInactive :: "coro_ptr \<Rightarrow> ('p scheduler, unit) act" where
  "moveToInactive = move_if {CORO_ACTIVE, CORO_AVAIL} CORO_INACTIVE"

definition moveToTimeout :: "coro_ptr \<Rightarrow> ('p scheduler, unit) act" where
  "moveToTimeout = move_if {CORO_ACTIVE, CORO_AVAIL} CORO_TIMEOUT"

definition moveToFreeList :: "coro_ptr \<Rightarrow> ('p scheduler, unit) act" where
  "moveToFreeList = move_if {CORO_ACTIVE, CORO_AVAIL, CORO_INACTIVE, CORO_TIMEOUT} CORO_FREE"

section \<open>Coroutines are woken\<close>

definition cs_notify :: "('p scheduler, unit) act" where
  "cs_notify = cs_update (\<lambda>s. s\<lparr>cs_notified := cs_notified s + 1\<rparr>)"

definition cs_putbyself :: "32 word \<Rightarrow> ('p scheduler, unit) act" where
  "cs_putbyself iCoroId = cs_update (\<lambda>s.
     if cs_terminal s then s else s\<lparr>cs_needActiveCoroId := cs_needActiveCoroId s @ [iCoroId]\<rparr>)"

definition cs_put :: "32 word \<Rightarrow> ('p scheduler, unit) act" where
  "cs_put iCoroId s =
     (if cs_terminal s then (Ok (), s)
      else cs_notify (s\<lparr>cs_activeCoroQueue := tq_push_back iCoroId (cs_activeCoroQueue s)\<rparr>))"

definition cs_terminate :: "('p scheduler, unit) act" where
  "cs_terminate = andthen (cs_update (\<lambda>s. s\<lparr>cs_terminal := True\<rparr>)) (\<lambda>_. cs_notify)"

text \<open>The body of the three wake-up loops.\<close>

definition wake_one :: "(coro_ptr \<Rightarrow> ('p scheduler, unit) act) \<Rightarrow> 32 word \<Rightarrow> ('p scheduler, unit) act" where
  "wake_one move i =
     andthen (all_coro_get i) (\<lambda>coro.
     andthen (cs_assert (coro \<noteq> NullCoro)) (\<lambda>_.
     move coro))"

primrec wake_all :: "(coro_ptr \<Rightarrow> ('p scheduler, unit) act) \<Rightarrow> 32 word list \<Rightarrow> ('p scheduler, unit) act" where
  "wake_all move [] = ret ()"
| "wake_all move (i # is') = andthen (wake_one move i) (\<lambda>_. wake_all move is')"

definition wakeupbyself :: "('p scheduler, unit) act" where
  "wakeupbyself s =
     (if cs_terminal s \<or> cs_needActiveCoroId s = [] then (Ok (), s)
      else andthen (wake_all moveToAvail (cs_needActiveCoroId s))
        (\<lambda>_. cs_update (\<lambda>s. s\<lparr>cs_needActiveCoroId := []\<rparr>)) s)"

definition wakeup :: "('p scheduler, unit) act" where
  "wakeup s =
     (if cs_terminal s \<or> \<not> 0 < tq_size (cs_activeCoroQueue s) then (Ok (), s)
      else case tq_swap [] NoWait (\<lambda>q. (False, q)) (cs_activeCoroQueue s) of
        ((_, coroIds), q) \<Rightarrow> wake_all moveToActive coroIds (s\<lparr>cs_activeCoroQueue := q\<rparr>))"

text \<open>The loop over the first entries of the multimap; the moves do not change it.\<close>

primrec wake_timers :: "int \<Rightarrow> (int \<times> 32 word) list \<Rightarrow> ('p scheduler, unit) act" where
  "wake_timers iNow [] = ret ()"
| "wake_timers iNow (it # its) =
     (if iNow < fst it then ret ()
      else andthen (wake_one moveToActive (snd it)) (\<lambda>_.
           andthen (cs_update (\<lambda>s. s\<lparr>cs_timeoutCoroId := its\<rparr>)) (\<lambda>_.
           wake_timers iNow its)))"

definition wakeupbytimeout :: "('p scheduler, unit) act" where
  "wakeupbytimeout s =
     (if cs_terminal s \<or> cs_timeoutCoroId s = [] then (Ok (), s)
      else andthen gettime (\<lambda>iNow. wake_timers iNow (cs_timeoutCoroId s)) s)"

section \<open>Coroutines run\<close>

text \<open>
  From a coroutine back to the main one: the coroutine's context is saved, \<open>None\<close> standing for
  the dead end of \<open>corotineProc\<close>.
\<close>

definition switch_to_main :: "'p option \<Rightarrow> ('p scheduler, unit) act" where
  "switch_to_main ctx =
     andthen (cs_read cs_currentCoro) (\<lambda>coro.
     andthen (cs_update (\<lambda>s. s\<lparr>cs_currentCoro := MainCoro\<rparr>)) (\<lambda>_.
     on_heap (coro_set coro (\<lambda>c. c\<lparr>ci_ctx_to := ctx\<rparr>))))"

text \<open>The end of \<open>corotineProc\<close>.\<close>

definition coro_finish :: "('p scheduler, unit) act" where
  "coro_finish =
     andthen (cs_read cs_currentCoro) (\<lambda>coro.
     andthen (cs_update (\<lambda>s. s\<lparr>cs_usedSize := cs_usedSize s - 1\<rparr>)) (\<lambda>_.
     andthen (moveToFreeList coro) (\<lambda>_.
     switch_to_main None)))"

definition cs_yield :: "bool \<Rightarrow> 'p \<Rightarrow> ('p scheduler, unit) act" where
  "cs_yield bFlag p =
     andthen (cs_read cs_currentCoro) (\<lambda>coro.
     andthen (if bFlag then andthen (on_heap (coro_get coro)) (\<lambda>c. cs_putbyself (ci_uid c)) else ret ()) (\<lambda>_.
     andthen (moveToInactive coro) (\<lambda>_.
     switch_to_main (Some p))))"

text \<open>The magnitude of an \<open>int\<close>; the smallest one has none.\<close>

definition sleep_time :: "32 word \<Rightarrow> ('p scheduler, int) act" where
  "sleep_time iSleepTime s =
     (if 0 \<le> sint iSleepTime then (Ok (sint iSleepTime), s)
      else if sint iSleepTime = - (2 ^ 31) then (Fault, s)
      else (Ok (- sint iSleepTime), s))"

definition cs_sleep :: "32 word \<Rightarrow> 'p \<Rightarrow> ('p scheduler, unit) act" where
  "cs_sleep iSleepTime p =
     andthen gettime (\<lambda>iNow.
     andthen (sleep_time iSleepTime) (\<lambda>t.
     andthen (cs_read cs_currentCoro) (\<lambda>coro.
     andthen (on_heap (coro_get coro)) (\<lambda>c.
     andthen (cs_update (\<lambda>s. s\<lparr>cs_timeoutCoroId :=
        time_insert (iNow + t) (ci_uid c) (cs_timeoutCoroId s)\<rparr>)) (\<lambda>_.
     andthen (moveToTimeout coro) (\<lambda>_.
     switch_to_main (Some p)))))))"

primrec coro_exec :: "'p coro_step \<Rightarrow> ('p scheduler, unit) act" where
  "coro_exec Finish = coro_finish"
| "coro_exec (Yield bFlag p) = cs_yield bFlag p"
| "coro_exec (Sleep iSleepTime p) = cs_sleep iSleepTime p"
| "coro_exec (Create callback k) = andthen (cs_createCoroutine callback) (\<lambda>i. coro_exec (k i))"

text \<open>\<open>switchCoro(&_mainCoro, coro)\<close> until the coroutine switches back.\<close>

definition cs_resume :: "('p \<Rightarrow> 'p coro_step) \<Rightarrow> coro_ptr \<Rightarrow> ('p scheduler, unit) act" where
  "cs_resume prog coro =
     andthen (cs_update (\<lambda>s. s\<lparr>cs_currentCoro := coro\<rparr>)) (\<lambda>_.
     andthen (on_heap (coro_get coro)) (\<lambda>c.
     case ci_ctx_to c of None \<Rightarrow> fault | Some p \<Rightarrow> coro_exec (prog p)))"

text \<open>
  The loop over a ring, at most \<open>iLoop\<close> times; its value, which the code does not have, is the
  list of the coroutines it switched to.
\<close>

primrec run_ring :: "('p \<Rightarrow> 'p coro_step) \<Rightarrow> coro_ptr \<Rightarrow> nat \<Rightarrow> ('p scheduler, 32 word list) act" where
  "run_ring prog hp 0 = ret []"
| "run_ring prog hp (Suc iLoop) =
     andthen (on_heap (CoroutineHeadEmpty hp)) (\<lambda>none.
     if none then ret []
     else
       andthen (on_heap (coro_get hp)) (\<lambda>h.
       let coro = ci_next h in
       andthen (cs_assert (coro \<noteq> NullCoro)) (\<lambda>_.
       andthen (on_heap (coro_get coro)) (\<lambda>c.
       andthen (cs_resume prog coro) (\<lambda>_.
       andthen (run_ring prog hp iLoop) (\<lambda>is'.
       ret (ci_uid c # is')))))))"

definition wake_ups :: "('p scheduler, unit) act" where
  "wake_ups = andthen wakeupbytimeout (\<lambda>_. andthen wakeupbyself (\<lambda>_. wakeup))"

definition tars_run :: "('p \<Rightarrow> 'p coro_step) \<Rightarrow> ('p scheduler, 32 word list) act" where
  "tars_run prog s =
     (if cs_terminal s then (Ok [], s)
      else
        andthen wake_ups (\<lambda>_.
        andthen (run_ring prog ActiveHead 100) (\<lambda>actives.
        andthen (run_ring prog AvailHead 100) (\<lambda>avails.
        ret (actives @ avails)))) s)"

section \<open>The scheduler of a thread of its own\<close>

primrec destroy_loop :: "coro_ptr list \<Rightarrow> ('p scheduler, unit) act" where
  "destroy_loop [] = ret ()"
| "destroy_loop (p # ps) =
     andthen (if p = NullCoro then ret ()
       else andthen (on_heap (coro_get p)) (\<lambda>c. on_alloc (deallocate (ci_stack_ctx c)))) (\<lambda>_.
     destroy_loop ps)"

definition cs_destroy :: "('p scheduler, unit) act" where
  "cs_destroy s =
     (case cs_all_coro s of
        NoArray \<Rightarrow> (Ok (), s)
      | DeletedArray \<Rightarrow> (Fault, s)
      | Array ps \<Rightarrow>
          andthen (destroy_loop (take (unat (cs_poolSize s)) (drop 1 ps))) (\<lambda>_.
          cs_update (\<lambda>s. s\<lparr>cs_all_coro := DeletedArray\<rparr>)) s)"

text \<open>What other threads do to the scheduler.\<close>

datatype coro_event = EvPut "32 word" | EvTerminate

primrec cs_events :: "coro_event list \<Rightarrow> ('p scheduler, unit) act" where
  "cs_events [] = ret ()"
| "cs_events (e # es) =
     andthen (case e of EvPut i \<Rightarrow> cs_put i | EvTerminate \<Rightarrow> cs_terminate) (\<lambda>_. cs_events es)"

text \<open>
  \<open>run\<close>, one list of events for every round of its loop; out of fuel when the lists are used up.
  The value tells for every round whether it waited for up to a second and whom it switched to.
\<close>

definition run_waits :: "('p scheduler, bool) act" where
  "run_waits =
     andthen (on_heap (CoroutineHeadEmpty AvailHead)) (\<lambda>noAvail.
     andthen (on_heap (CoroutineHeadEmpty ActiveHead)) (\<lambda>noActive.
     cs_read (\<lambda>s. noAvail \<and> noActive \<and> tq_size (cs_activeCoroQueue s) \<le> 0)))"

primrec cs_run ::
  "('p \<Rightarrow> 'p coro_step) \<Rightarrow> coro_event list list \<Rightarrow> ('p scheduler, (bool \<times> 32 word list) list) act" where
  "cs_run prog [] = diverge"
| "cs_run prog (es # ess) =
     andthen (cs_read cs_terminal) (\<lambda>terminal.
     if terminal then andthen cs_destroy (\<lambda>_. ret [])
     else
       andthen run_waits (\<lambda>waits.
       andthen (cs_events es) (\<lambda>_.
       andthen wake_ups (\<lambda>_.
       andthen (run_ring prog ActiveHead 100) (\<lambda>actives.
       andthen (run_ring prog AvailHead 1) (\<lambda>avails.
       andthen (cs_read (\<lambda>s. cs_usedSize s = 0)) (\<lambda>idle.
       if idle then andthen cs_destroy (\<lambda>_. ret [(waits, actives @ avails)])
       else andthen (cs_run prog ess) (\<lambda>log. ret ((waits, actives @ avails) # log)))))))))"

section \<open>class Coroutine\<close>

record coroutine_thread =
  ct_num :: "32 word"
  ct_maxNum :: "32 word"
  ct_stackSize :: nat

definition Coroutine_init :: coroutine_thread where
  "Coroutine_init = \<lparr>ct_num = 1, ct_maxNum = 128, ct_stackSize = 128 * 1024\<rparr>"

definition setCoroInfo :: "nat \<Rightarrow> 32 word \<Rightarrow> 32 word \<Rightarrow> nat \<Rightarrow> coroutine_thread \<Rightarrow> coroutine_thread" where
  "setCoroInfo pagesize iNum iMaxNum iStackSize t =
     (let maxNum = (if 0 < iMaxNum then iMaxNum else 1) in
      t\<lparr>ct_maxNum := maxNum,
        ct_num := (if 0 < iNum then if iNum \<le> maxNum then iNum else maxNum else 1),
        ct_stackSize := (if pagesize \<le> iStackSize then iStackSize else pagesize)\<rparr>)"

primrec create_all :: "nat \<Rightarrow> 'p \<Rightarrow> ('p scheduler, unit) act" where
  "create_all 0 entry = ret ()"
| "create_all (Suc n) entry = andthen (cs_createCoroutine entry) (\<lambda>_. create_all n entry)"

text \<open>\<open>entry\<close> is the control point of \<open>coroEntry\<close>, which calls the user's \<open>handle\<close>.\<close>

definition handleCoro ::
  "('p \<Rightarrow> 'p coro_step) \<Rightarrow> 'p \<Rightarrow> coroutine_thread \<Rightarrow> coro_event list list
     \<Rightarrow> ('p scheduler, (bool \<times> 32 word list) list) act" where
  "handleCoro prog entry t ess =
     andthen (cs_init (ct_maxNum t) (ct_stackSize t)) (\<lambda>_.
     andthen (create_all (unat (ct_num t)) entry) (\<lambda>_.
     cs_run prog ess))"

text \<open>\<open>Coroutine::createCoroutine\<close>; without a scheduler it returns -1.\<close>

definition ct_createCoroutine ::
  "'p \<Rightarrow> 'p scheduler option \<Rightarrow> 32 word outcome \<times> 'p scheduler option" where
  "ct_createCoroutine coroFunc sched =
     (case sched of
        None \<Rightarrow> (Ok (- 1), None)
      | Some s \<Rightarrow> (case cs_createCoroutine coroFunc s of (r, s') \<Rightarrow> (r, Some s')))"

end
