(* ===== verification/Servant_Handle.thy ===== *)
theory Servant_Handle
  imports Server_Runs Coro_Scheduler
begin

text \<open>
  From requests to servants: \<open>ServantHelperManager\<close> (\<^verbatim>\<open>src/servant/servant/ServantHelper.h\<close>,
  \<^verbatim>\<open>src/servant/libservant/ServantHelper.cpp\<close>), \<open>Servant\<close> (\<^verbatim>\<open>Servant.cpp\<close>), \<open>ServantHandle\<close>
  (\<^verbatim>\<open>ServantHandle.cpp\<close>) and the reports of \<open>TarsNodeFHelper\<close> (\<^verbatim>\<open>TarsNodeF.cpp\<close>). The classes of
  servants are numbers; \<open>onDispatch c\<close> is what class \<open>c\<close> does with a request: it returns a code and
  fills the buffer, or throws.
\<close>

section \<open>Servants\<close>

type_synonym on_dispatch = "nat \<Rightarrow> bytes \<Rightarrow> tars_exn + int \<times> bytes"

record servant =
  sv_class :: nat
  sv_handle :: "nat option"
  sv_name :: bytes

definition ServantCreation_create :: "nat \<Rightarrow> bytes \<Rightarrow> servant" where
  "ServantCreation_create T s = \<lparr>sv_class = T, sv_handle = None, sv_name = s\<rparr>"

definition Servant_setHandle :: "nat \<Rightarrow> servant \<Rightarrow> servant" where
  "Servant_setHandle handle sv = sv\<lparr>sv_handle := Some handle\<rparr>"

definition Servant_dispatch :: "on_dispatch \<Rightarrow> servant \<Rightarrow> bytes \<Rightarrow> tars_exn + int \<times> bytes" where
  "Servant_dispatch onDispatch sv request = onDispatch (sv_class sv) request"

section \<open>The registry\<close>

record servant_helper =
  sm_servant_creator :: "(bytes \<times> nat) list"
  sm_adapter_servant :: "(bytes \<times> bytes) list"
  sm_servant_adapter :: "(bytes \<times> bytes) list"

definition ServantHelperManager_init :: servant_helper where
  "ServantHelperManager_init = \<lparr>sm_servant_creator = [], sm_adapter_servant = [], sm_servant_adapter = []\<rparr>"

definition addServant :: "nat \<Rightarrow> bytes \<Rightarrow> bool \<Rightarrow> (servant_helper, unit) act" where
  "addServant T sid check m =
     (if check \<and> map_of (sm_servant_adapter m) sid = None then (Throw RuntimeError, m)
      else (Ok (), m\<lparr>sm_servant_creator := map_set sid T (sm_servant_creator m)\<rparr>))"

text \<open>\<open>None\<close> is the null pointer.\<close>

definition sm_create :: "bytes \<Rightarrow> servant_helper \<Rightarrow> servant option" where
  "sm_create sAdapter m =
     (case map_of (sm_adapter_servant m) sAdapter of None \<Rightarrow> None | Some s \<Rightarrow>
      case map_of (sm_servant_creator m) s of None \<Rightarrow> None | Some T \<Rightarrow> Some (ServantCreation_create T s))"

definition setAdapterServant :: "bytes \<Rightarrow> bytes \<Rightarrow> servant_helper \<Rightarrow> servant_helper" where
  "setAdapterServant sAdapter sServant m =
     m\<lparr>sm_adapter_servant := map_set sAdapter sServant (sm_adapter_servant m),
       sm_servant_adapter := map_set sServant sAdapter (sm_servant_adapter m)\<rparr>"

definition getAdapterServant :: "bytes \<Rightarrow> servant_helper \<Rightarrow> bytes" where
  "getAdapterServant sAdapter m =
     (case map_of (sm_adapter_servant m) sAdapter of Some s \<Rightarrow> s | None \<Rightarrow> ascii ''(NO TARS PROTOCOL)'')"

definition getServantAdapter :: "bytes \<Rightarrow> servant_helper \<Rightarrow> bytes" where
  "getServantAdapter sServant m =
     (case map_of (sm_servant_adapter m) sServant of Some s \<Rightarrow> s | None \<Rightarrow> [])"

section \<open>ServantHandle\<close>

text \<open>
  The servants of one handler, by their names; a servant that cannot be created is a null pointer
  whose name is asked for. What \<open>initialize\<close> of a servant does is its own business.
\<close>

primrec create_servants :: "servant_helper \<Rightarrow> (bytes \<times> nat) list \<Rightarrow> (bytes \<times> servant) list \<Rightarrow> (bytes \<times> servant) list outcome" where
  "create_servants m [] servants = Ok servants"
| "create_servants m (kv # kvs) servants =
     (case sm_create (fst kv) m of None \<Rightarrow> Fault
      | Some sv \<Rightarrow> create_servants m kvs (map_set (sv_name sv) sv servants))"

definition ServantHandle_initialize :: "servant_helper \<Rightarrow> nat \<Rightarrow> (bytes \<times> nat) list \<Rightarrow> (bytes \<times> servant) list outcome" where
  "ServantHandle_initialize m handle adapters =
     (case create_servants m adapters [] of
        Ok servants \<Rightarrow> Ok (map (\<lambda>kv. (fst kv, Servant_setHandle handle (snd kv))) servants)
      | r \<Rightarrow> r)"

text \<open>The code that \<open>dispatch\<close> returns is not looked at.\<close>

definition ServantHandle_handle ::
  "on_dispatch \<Rightarrow> servant_helper \<Rightarrow> (bytes \<times> servant) list \<Rightarrow> recv_data \<Rightarrow> (epoll_server, unit) act" where
  "ServantHandle_handle onDispatch m servants d s =
     (case rd_adapter d of None \<Rightarrow> (Fault, s) | Some p \<Rightarrow>
      case es_adapters s p of None \<Rightarrow> (Fault, s) | Some a \<Rightarrow>
      case map_of servants (getAdapterServant (ba_name a) m) of None \<Rightarrow> (Abort, s) | Some sv \<Rightarrow>
      case Servant_dispatch onDispatch sv (rd_buffer d) of
        Inl e \<Rightarrow> (Throw e, s)
      | Inr (_, buffer) \<Rightarrow> sendResponse (rd_uid d) buffer (rd_ip d) (rd_port d) (rd_fd d) s)"

definition HEART_BEAT_INTERVAL :: int where
  "HEART_BEAT_INTERVAL = 10"

text \<open>The names for which \<open>TARS_KEEPALIVE\<close> is called, in order.\<close>

primrec beat_adapters :: "int \<Rightarrow> (bytes \<times> nat) list \<Rightarrow> (epoll_server, bytes list) act" where
  "beat_adapters fcur [] = ret []"
| "beat_adapters fcur (kv # kvs) =
     andthen (\<lambda>s. case es_adapters s (snd kv) of None \<Rightarrow> (Fault, s) | Some a \<Rightarrow>
       if HEART_BEAT_INTERVAL < \<bar>fcur - ba_iHeartBeatTime a\<bar>
       then (Ok [ba_name a], s\<lparr>es_adapters := (es_adapters s)(snd kv \<mapsto> a\<lparr>ba_iHeartBeatTime := fcur\<rparr>)\<rparr>)
       else (Ok [], s)) (\<lambda>beats.
     andthen (beat_adapters fcur kvs) (\<lambda>more. ret (beats @ more)))"

definition ServantHandle_heartbeat :: "int \<Rightarrow> nat \<Rightarrow> (epoll_server, bytes list) act" where
  "ServantHandle_heartbeat fcur g s =
     (case es_groups s g of None \<Rightarrow> (Fault, s) | Some hg \<Rightarrow> beat_adapters fcur (hg_adapters hg) s)"

section \<open>Reports to the node\<close>

text \<open>\<open>nh_sent\<close> is what went to the proxy of the node, if there is one.\<close>

record node_helper =
  nh_nodePrx :: bool
  nh_adapterSet :: "bytes list"
  nh_sent :: "bytes list"

definition AdminAdapter :: bytes where
  "AdminAdapter = ascii ''AdminAdapter''"

definition keepAlive :: "bytes \<Rightarrow> node_helper \<Rightarrow> node_helper" where
  "keepAlive adapter h =
     (if \<not> nh_nodePrx h then h
      else let s = insort_insert adapter (nh_adapterSet h) in
        if adapter \<noteq> AdminAdapter then h\<lparr>nh_adapterSet := s\<rparr>
        else h\<lparr>nh_adapterSet := [], nh_sent := nh_sent h @ s\<rparr>)"

section \<open>Requests as coroutines\<close>

text \<open>
  \<open>handleRequest\<close>, which is the body of a coroutine itself: every message gets a coroutine that
  begins at \<open>entry d\<close>, at most a hundred of an adapter at a time. The state is the server and the
  scheduler of the thread; the result is \<open>bYield\<close>. A message without a coroutine is deleted.
\<close>

type_synonym 'p coro_server = "epoll_server \<times> 'p scheduler"

definition on_server :: "(epoll_server, 'a) act \<Rightarrow> ('p coro_server, 'a) act" where
  "on_server = zoom fst (\<lambda>x s. (x, snd s))"

definition on_sched :: "('p scheduler, 'a) act \<Rightarrow> ('p coro_server, 'a) act" where
  "on_sched = zoom snd (\<lambda>x s. (fst s, x))"

primrec request_loop :: "(recv_data \<Rightarrow> 'p) \<Rightarrow> nat \<Rightarrow> nat \<Rightarrow> ('p coro_server, bool) act" where
  "request_loop entry p 0 = ret False"
| "request_loop entry p (Suc iLoop) =
     andthen (on_server (waitForRecvQueue p)) (\<lambda>recv.
     case recv of
       None \<Rightarrow> ret False
     | Some d \<Rightarrow>
         if rd_isClosed d then request_loop entry p iLoop
         else andthen (on_sched (cs_createCoroutine (entry (d\<lparr>rd_adapter := Some p\<rparr>)))) (\<lambda>_.
           request_loop entry p iLoop))"

primrec request_adapters :: "(recv_data \<Rightarrow> 'p) \<Rightarrow> (bytes \<times> nat) list \<Rightarrow> bool \<Rightarrow> ('p coro_server, bool) act" where
  "request_adapters entry [] bYield = ret bYield"
| "request_adapters entry (kv # kvs) bYield =
     andthen (request_loop entry (snd kv) 100) (\<lambda>bYield. request_adapters entry kvs bYield)"

text \<open>
  One pass of the loop; \<open>True\<close> when the coroutine gives up the thread at its end. When coroutines
  wait to be woken no request is taken; otherwise it may wait for the monitor.
\<close>

definition getResponseCoroSize :: "'p scheduler \<Rightarrow> nat" where
  "getResponseCoroSize s = tq_size (cs_activeCoroQueue s)"

definition handleRequest_pass ::
  "(recv_data \<Rightarrow> 'p) \<Rightarrow> (nat \<Rightarrow> (epoll_server, 'r) act) \<Rightarrow> nat \<Rightarrow> ('p coro_server, bool) act" where
  "handleRequest_pass entry heartbeat g s0 =
     (let bServerReqEmpty = 0 < getResponseCoroSize (snd s0) in
      andthen (on_server (heartbeat g)) (\<lambda>_.
      if bServerReqEmpty then ret True
      else andthen (\<lambda>s. case es_groups (fst s) g of None \<Rightarrow> (Fault, s)
          | Some hg \<Rightarrow> request_adapters entry (hg_adapters hg) False s) (\<lambda>bYield.
        ret (\<not> bYield))) s0)"

end
