(* ===== verification/Server_Application.thy ===== *)
theory Server_Application
  imports Servant_Handle
begin

text \<open>
  \<^verbatim>\<open>src/servant/libservant/Application.cpp\<close>: how a server comes up. The application's own
  \<open>initialize\<close> registers its servants and is an argument. Calls of the system to bind and to
  listen are taken to succeed; the client part and the registration at the node are left out.
\<close>

section \<open>Configuration and state\<close>

record server_config =
  sc_adapterName :: bytes
  sc_servantName :: bytes
  sc_adapterIp :: bytes
  sc_adapterPort :: int
  sc_adapterName1 :: bytes
  sc_servantName1 :: bytes
  sc_adapterIp1 :: bytes
  sc_adapterPort1 :: int

record application =
  ap_helper :: servant_helper
  ap_server :: epoll_server

definition on_epoll :: "(epoll_server, 'a) act \<Rightarrow> (application, 'a) act" where
  "on_epoll = zoom ap_server (\<lambda>x s. s\<lparr>ap_server := x\<rparr>)"

definition on_helper :: "(servant_helper, 'a) act \<Rightarrow> (application, 'a) act" where
  "on_helper = zoom ap_helper (\<lambda>x s. s\<lparr>ap_helper := x\<rparr>)"

definition AdminObj :: bytes where
  "AdminObj = ascii ''AdminObj''"

text \<open>The class \<open>AdminServant\<close>.\<close>

definition AdminServant :: nat where
  "AdminServant = 0"

section \<open>Construction\<close>

text \<open>An adapter with its name, endpoint, group and number of handlers, in a place of its own.\<close>

definition make_adapter :: "nat \<Rightarrow> bytes \<Rightarrow> bytes \<Rightarrow> int \<Rightarrow> nat \<Rightarrow> (application, unit) act" where
  "make_adapter p name host port handleNum = on_epoll (\<lambda>s. (Ok (), s\<lparr>es_adapters := (es_adapters s)(p \<mapsto>
     BindAdapter_init\<lparr>ba_name := name, ba_ep := (host, port), ba_handleGroupName := name, ba_iHandleNum := handleNum\<rparr>)\<rparr>))"

definition setAdapterServant_app :: "bytes \<Rightarrow> bytes \<Rightarrow> (application, unit) act" where
  "setAdapterServant_app a s = on_helper (\<lambda>m. (Ok (), setAdapterServant a s m))"

definition iNetThreadNum :: nat where
  "iNetThreadNum = max 1 (min 15 3)"

definition initializeServer :: "(application, unit) act" where
  "initializeServer =
     andthen (on_helper (addServant AdminServant AdminObj False)) (\<lambda>_.
     andthen (setAdapterServant_app AdminAdapter AdminObj) (\<lambda>_.
     andthen (make_adapter 0 AdminAdapter (ascii ''127.0.0.1'') 20001 1) (\<lambda>_.
     andthen (on_epoll (setHandle 0)) (\<lambda>_.
     andthen (on_epoll (es_bind 0)) (\<lambda>_. ret ())))))"

definition bindAdapter :: "server_config \<Rightarrow> (application, nat list) act" where
  "bindAdapter cfg =
     andthen (setAdapterServant_app (sc_adapterName cfg) (sc_servantName cfg)) (\<lambda>_.
     andthen (make_adapter 1 (sc_adapterName cfg) (sc_adapterIp cfg) (sc_adapterPort cfg) 4) (\<lambda>_.
     andthen (on_epoll (es_bind 1)) (\<lambda>_.
     if sc_servantName1 cfg = [] then ret [1]
     else
       andthen (setAdapterServant_app (sc_adapterName1 cfg) (sc_servantName1 cfg)) (\<lambda>_.
       andthen (make_adapter 2 (sc_adapterName1 cfg) (sc_adapterIp1 cfg) (sc_adapterPort1 cfg) 4) (\<lambda>_.
       andthen (on_epoll (es_bind 2)) (\<lambda>_.
       ret [1, 2]))))))"

primrec set_handles :: "nat list \<Rightarrow> (application, unit) act" where
  "set_handles [] = ret ()"
| "set_handles (p # ps) = andthen (on_epoll (setHandle p)) (\<lambda>_. set_handles ps)"

text \<open>
  \<open>addServant\<close> of the application wants the servant in the configuration; an \<open>initialize\<close> as servers
  have it registers classes of servants by name.
\<close>

definition addServant_app :: "nat \<Rightarrow> bytes \<Rightarrow> (servant_helper, unit) act" where
  "addServant_app T sid = addServant T sid True"

primrec register_servants :: "(bytes \<times> nat) list \<Rightarrow> (servant_helper, unit) act" where
  "register_servants [] = ret ()"
| "register_servants (kv # kvs) = andthen (addServant_app (snd kv) (fst kv)) (\<lambda>_. register_servants kvs)"

text \<open>\<open>main\<close>, with the server just constructed.\<close>

definition Application_main :: "server_config \<Rightarrow> (servant_helper, unit) act \<Rightarrow> (application, unit) act" where
  "Application_main cfg initialize =
     andthen initializeServer (\<lambda>_.
     andthen (bindAdapter cfg) (\<lambda>adapters.
     andthen (on_helper initialize) (\<lambda>_.
     andthen (set_handles adapters) (\<lambda>_.
     andthen (on_epoll (\<lambda>s. (Ok (), startHandle s))) (\<lambda>_.
     on_epoll es_createEpoll)))))"

definition server_construct :: "(nat \<Rightarrow> 64 word) \<Rightarrow> (int \<Rightarrow> accept_answer list) \<Rightarrow> int \<Rightarrow> net \<Rightarrow> epoll_server outcome" where
  "server_construct indeterminate = TC_EpollServer_init iNetThreadNum indeterminate (\<lambda>_. None)"

text \<open>The servants every handler of group \<open>g\<close> makes when its thread starts.\<close>

definition group_servants :: "application \<Rightarrow> nat \<Rightarrow> (bytes \<times> servant) list" where
  "group_servants s g =
     (case es_groups (ap_server s) g of None \<Rightarrow> [] | Some hg \<Rightarrow>
      case ServantHandle_initialize (ap_helper s) g (hg_adapters hg) of Ok servants \<Rightarrow> servants | _ \<Rightarrow> [])"

text \<open>At the end the network threads are told to stop and the handlers are joined.\<close>

primrec terminate_upto :: "nat \<Rightarrow> (epoll_server, unit) act" where
  "terminate_upto 0 = ret ()"
| "terminate_upto (Suc i) = andthen (terminate_upto i) (\<lambda>_. nt_terminate i)"

definition waitForQuit_end :: "(epoll_server, unit) act" where
  "waitForQuit_end s =
     (if es_bTerminate s
      then andthen (terminate_upto (length (es_netThreads s))) (\<lambda>_ s. (Ok (), stopThread s)) s
      else (Ok (), s))"

end
