(* ===== verification/Servant_Runs.thy ===== *)
theory Servant_Runs
  imports Server_Application
begin

text \<open>
  The handlers of \<open>ServantHandle\<close> are handlers the server can rely on, and a server that has come up
  as \<open>Application::main\<close> does it satisfies the invariant: no step of it crashes.
\<close>

section \<open>The handlers\<close>

definition served :: "servant_helper \<Rightarrow> (nat \<Rightarrow> (bytes \<times> servant) list) \<Rightarrow> nat \<Rightarrow> bytes \<Rightarrow> bool" where
  "served m servants g n \<longleftrightarrow> map_of (servants g) (getAdapterServant n m) \<noteq> None"

lemma sendResponse_eq: "sendResponse uid buf ip port fd = es_send uid buf ip port fd"
  by (simp add: sendResponse_def)

lemma ServantHandle_handle_ok:
  assumes inv: "server_inv s" and d: "message_ok s d" and p: "rd_adapter d = Some p" "es_adapters s p = Some a"
    and sv: "served m servants g (ba_name a)"
  shows "handled s (ServantHandle_handle onDispatch m (servants g) d s)"
proof -
  obtain sv where sv: "map_of (servants g) (getAdapterServant (ba_name a) m) = Some sv" using sv by (auto simp: served_def)
  show ?thesis
  proof (cases "Servant_dispatch onDispatch sv (rd_buffer d)")
    case (Inl e)
    then show ?thesis using p sv fine_refl [OF inv] by (simp add: handled_def ServantHandle_handle_def)
  next
    case (Inr kb)
    obtain k buffer where kb: "kb = (k, buffer)" by (cases kb)
    have "safe (es_send (rd_uid d) buffer (rd_ip d) (rd_port d) (rd_fd d)) s
        (\<lambda>_ s'. fine 1 s s' \<and> es_adapters s' = es_adapters s \<and> es_groups s' = es_groups s)"
      by (rule es_send_safe [OF inv d]) simp
    moreover have "fst (es_send (rd_uid d) buffer (rd_ip d) (rd_port d) (rd_fd d) s) = Ok ()"
      using d by (auto simp: message_ok_def es_send_def nt_send_def nt_command_def thread_update_def)
    ultimately show ?thesis
      using p sv Inr kb by (auto simp: handled_def ServantHandle_handle_def sendResponse_eq safe_def split: prod.splits)
  qed
qed

lemma beat_adapters_safe:
  assumes "server_inv s" and "\<forall>kv \<in> set kvs. es_adapters s (snd kv) \<noteq> None"
  shows "safe (beat_adapters now kvs) s (\<lambda>_ s'. fine 0 s s' \<and> es_groups s' = es_groups s)"
  using assms
proof (induction kvs arbitrary: s)
  case Nil
  then show ?case using fine_refl by (simp add: safe_ret)
next
  case (Cons kv kvs)
  obtain a where a: "es_adapters s (snd kv) = Some a" using Cons.prems(2) by auto
  have ok: "tq_inv (ba_rbuffer a)" "\<forall>d \<in> set (tq_queue (ba_rbuffer a)). rd_isClosed d \<or> message_ok s d"
    using server_invD(3) [OF Cons.prems(1)] a by (auto simp: adapters_ok_def)
  let ?s = "s\<lparr>es_adapters := (es_adapters s)(snd kv \<mapsto> a\<lparr>ba_iHeartBeatTime := now\<rparr>)\<rparr>"
  have "fine 0 s (s\<lparr>es_adapters := (es_adapters s)(snd kv \<mapsto> a\<lparr>ba_iHeartBeatTime := now\<rparr>), es_groups := es_groups s\<rparr>)"
    by (rule adapter_change [OF Cons.prems(1) a]) (use ok in simp_all)
  moreover have "s\<lparr>es_adapters := A, es_groups := es_groups s\<rparr> = s\<lparr>es_adapters := A\<rparr>" for A by (cases s) simp
  ultimately have beat: "fine 0 s ?s" by simp
  have rest: "safe (andthen (beat_adapters now kvs) (\<lambda>more. ret (bs @ more))) s1 (\<lambda>_ s'. fine 0 s s' \<and> es_groups s' = es_groups s)"
    if s1: "fine 0 s s1" "es_groups s1 = es_groups s" for bs s1
  proof -
    have "\<forall>kv \<in> set kvs. es_adapters s1 (snd kv) \<noteq> None"
      using Cons.prems(2) later_adapters [OF fineD(2) [OF s1(1)]] by simp
    from Cons.IH [OF fineD(1) [OF s1(1)] this] show ?thesis
      by (rule safe_andthen) (use s1 fine_then [OF s1(1)] in \<open>auto intro: safe_ret\<close>)
  qed
  show ?case
    using a rest [OF beat, of "[ba_name a]"] rest [OF fine_refl [OF Cons.prems(1)], of "[]"] by (simp add: safe_def andthen_def)
qed

lemma ServantHandle_heartbeat_ok:
  assumes inv: "server_inv s" and g: "es_groups s g \<noteq> None"
  shows "safe (ServantHandle_heartbeat now g) s (\<lambda>_ s'. fine 0 s s' \<and> es_groups s' = es_groups s)"
proof -
  obtain hg where hg: "es_groups s g = Some hg" using g by blast
  then have "\<forall>kv \<in> set (hg_adapters hg). es_adapters s (snd kv) \<noteq> None"
    using server_invD(4) [OF inv] by (simp add: groups_ok_def)
  from beat_adapters_safe [OF inv this] show ?thesis using hg by (simp add: safe_def ServantHandle_heartbeat_def)
qed

interpretation servants: server_handlers
  "\<lambda>g. ServantHandle_handle onDispatch m (servants g)" ServantHandle_heartbeat "served m servants"
  by unfold_locales (rule ServantHandle_handle_ok ServantHandle_heartbeat_ok; assumption)+

section \<open>Making the servants\<close>

lemma create_servants_spec:
  assumes "\<forall>kv \<in> set adapters. \<exists>n T. map_of (sm_adapter_servant m) (fst kv) = Some n \<and> map_of (sm_servant_creator m) n = Some T"
  shows "\<exists>l. create_servants m adapters l0 = Ok l \<and> fst ` set l0 \<subseteq> fst ` set l \<and>
    (\<forall>kv \<in> set adapters. getAdapterServant (fst kv) m \<in> fst ` set l)"
  using assms
proof (induction adapters arbitrary: l0)
  case (Cons kv adapters)
  obtain n T where n: "map_of (sm_adapter_servant m) (fst kv) = Some n" "map_of (sm_servant_creator m) n = Some T"
    using Cons.prems by auto
  let ?l = "map_set n (ServantCreation_create T n) l0"
  obtain l where l: "create_servants m adapters ?l = Ok l" "fst ` set ?l \<subseteq> fst ` set l"
    "\<forall>kv \<in> set adapters. getAdapterServant (fst kv) m \<in> fst ` set l"
    using Cons.IH [of ?l] Cons.prems by auto
  have "getAdapterServant (fst kv) m = n" using n by (simp add: getAdapterServant_def)
  then show ?case
    using l n map_set_keys [of n "ServantCreation_create T n" l0]
    by (auto simp: sm_create_def ServantCreation_create_def)
qed simp

definition registered :: "servant_helper \<Rightarrow> bytes \<Rightarrow> bool" where
  "registered m n \<longleftrightarrow> (\<exists>s T. map_of (sm_adapter_servant m) n = Some s \<and> map_of (sm_servant_creator m) s = Some T)"

lemma ServantHandle_initialize_spec:
  assumes "\<forall>kv \<in> set adapters. registered m (fst kv)"
  shows "\<exists>l. ServantHandle_initialize m g adapters = Ok l \<and> (\<forall>kv \<in> set adapters. map_of l (getAdapterServant (fst kv) m) \<noteq> None)"
proof -
  obtain l where l: "create_servants m adapters [] = Ok l" "\<forall>kv \<in> set adapters. getAdapterServant (fst kv) m \<in> fst ` set l"
    using create_servants_spec [of adapters m "[]"] assms by (auto simp: registered_def)
  let ?l = "map (\<lambda>kv. (fst kv, Servant_setHandle g (snd kv))) l"
  have "fst ` set ?l = fst ` set l" by (force simp: image_iff)
  then have "\<forall>kv \<in> set adapters. map_of ?l (getAdapterServant (fst kv) m) \<noteq> None"
    using l(2) by (simp only: map_of_eq_None_iff simp_thms)
  moreover have "ServantHandle_initialize m g adapters = Ok ?l" using l(1) by (simp add: ServantHandle_initialize_def)
  ultimately show ?thesis by blast
qed

end
