(* ===== verification/Server_Start.thy ===== *)
theory Server_Start
  imports Servant_Runs
begin

text \<open>
  A server that has come up as \<open>Application::main\<close> does it satisfies the invariant, and its handlers
  have a servant for every adapter.
\<close>

section \<open>Calls that succeed\<close>

definition succeeds :: "('s, 'a) act \<Rightarrow> 's \<Rightarrow> ('a \<Rightarrow> 's \<Rightarrow> bool) \<Rightarrow> bool" where
  "succeeds m s Q \<longleftrightarrow> (case m s of (Ok a, s') \<Rightarrow> Q a s' | _ \<Rightarrow> False)"

lemma succeeds_Ok: "m s = (Ok a, s') \<Longrightarrow> Q a s' \<Longrightarrow> succeeds m s Q"
  by (simp add: succeeds_def)

lemma succeeds_ret: "Q a s \<Longrightarrow> succeeds (ret a) s Q"
  by (simp add: succeeds_def ret_def)

lemma succeeds_andthen:
  assumes "succeeds m s P" and "\<And>a s'. P a s' \<Longrightarrow> succeeds (f a) s' Q"
  shows "succeeds (andthen m f) s Q"
  using assms by (cases "m s"; cases "fst (m s)") (auto simp: succeeds_def andthen_def)

lemma succeeds_if: "(b \<Longrightarrow> succeeds m s Q) \<Longrightarrow> (\<not> b \<Longrightarrow> succeeds n s Q) \<Longrightarrow> succeeds (if b then m else n) s Q"
  by simp

lemma succeeds_weaken: "succeeds m s P \<Longrightarrow> (\<And>a s'. P a s' \<Longrightarrow> Q a s') \<Longrightarrow> succeeds m s Q"
  by (auto simp: succeeds_def split: prod.splits outcome.splits)

lemma succeeds_epoll:
  "succeeds m (ap_server s) (\<lambda>a x. Q a (s\<lparr>ap_server := x\<rparr>)) \<Longrightarrow> succeeds (on_epoll m) s Q"
  by (auto simp: succeeds_def on_epoll_def zoom_def split: prod.splits)

lemma succeeds_helper:
  "succeeds m (ap_helper s) (\<lambda>a x. Q a (s\<lparr>ap_helper := x\<rparr>)) \<Longrightarrow> succeeds (on_helper m) s Q"
  by (auto simp: succeeds_def on_helper_def zoom_def split: prod.splits)

section \<open>A server under construction\<close>

definition new_thread :: "epoll_server \<Rightarrow> net_thread \<Rightarrow> bool" where
  "new_thread s th \<longleftrightarrow> nt_uid_connection th = (\<lambda>_. None) \<and> nt_sbuffer th = ThreadQueue_init \<and> nt_free th = [] \<and>
     (\<forall>kv \<in> set (nt_listeners th). fst kv \<noteq> - 1 \<and> snd kv \<in> Some ` dom (es_adapters s))"

lemma new_thread_mono:
  "new_thread s th \<Longrightarrow> dom (es_adapters s) \<subseteq> dom (es_adapters s') \<Longrightarrow> new_thread s' th"
  unfolding new_thread_def by (meson image_mono subsetD)

lemma new_thread_listens:
  assumes "new_thread s th" and "fd \<noteq> - 1" and "p \<in> dom (es_adapters s)"
  shows "new_thread s (th\<lparr>nt_listeners := map_set fd (Some p) (nt_listeners th)\<rparr>)"
  using assms by (auto simp: new_thread_def dest!: map_set_members)

definition new_adapter :: "epoll_server \<Rightarrow> bytes set \<Rightarrow> bind_adapter \<Rightarrow> bool" where
  "new_adapter s N a \<longleftrightarrow> ba_rbuffer a = ThreadQueue_init \<and> ba_name a \<in> N \<and>
     (\<forall>g. ba_handleGroup a = Some g \<longrightarrow> es_groups s g \<noteq> None)"

text \<open>\<open>N\<close> are the names of the adapters, \<open>P\<close> the adapters and \<open>D\<close> those that have their handlers.\<close>

definition grouped :: "epoll_server \<Rightarrow> nat \<Rightarrow> bool" where
  "grouped s p \<longleftrightarrow> (\<exists>a. es_adapters s p = Some a \<and> ba_handleGroup a \<noteq> None)"

definition named_in :: "epoll_server \<Rightarrow> handle_group \<Rightarrow> bool" where
  "named_in s hg \<longleftrightarrow> (\<forall>kv \<in> set (hg_adapters hg). map_option ba_name (es_adapters s (snd kv)) = Some (fst kv))"

definition building :: "bytes set \<Rightarrow> nat set \<Rightarrow> nat set \<Rightarrow> epoll_server \<Rightarrow> bool" where
  "building N P D s \<longleftrightarrow> es_netThreads s \<noteq> [] \<and> (\<forall>th \<in> set (es_netThreads s). new_thread s th) \<and>
     dom (es_adapters s) = P \<and> (\<forall>p a. es_adapters s p = Some a \<longrightarrow> new_adapter s N a) \<and>
     (\<forall>p \<in> D. grouped s p) \<and> (\<forall>g hg. es_groups s g = Some hg \<longrightarrow> named_in s hg) \<and>
     (\<forall>kv \<in> set (es_handleGroups s). es_groups s (snd kv) \<noteq> None) \<and>
     es_conns s = (\<lambda>_. None) \<and> - 1 \<notin> set (net_open (es_net s)) \<and> 0 \<le> net_next (es_net s)"

lemma buildingD:
  assumes "building N P D s"
  shows "es_netThreads s \<noteq> []" and "th \<in> set (es_netThreads s) \<Longrightarrow> new_thread s th" and "dom (es_adapters s) = P"
    and "es_adapters s p = Some a \<Longrightarrow> new_adapter s N a" and "p \<in> D \<Longrightarrow> grouped s p"
    and "es_groups s g = Some hg \<Longrightarrow> named_in s hg" and "kv \<in> set (es_handleGroups s) \<Longrightarrow> es_groups s (snd kv) \<noteq> None"
    and "es_conns s = (\<lambda>_. None)" and "- 1 \<notin> set (net_open (es_net s))" and "0 \<le> net_next (es_net s)"
  using assms by (auto simp: building_def)

lemma named_in_mono:
  "named_in s hg \<Longrightarrow> (\<And>p. es_adapters s p \<noteq> None \<Longrightarrow> map_option ba_name (es_adapters s' p) = map_option ba_name (es_adapters s p)) \<Longrightarrow>
   named_in s' hg"
  unfolding named_in_def by force

text \<open>A step that keeps the adapters but for their groups and sockets, and changes no group's name table.\<close>

lemma building_step:
  assumes b: "building N P D s" and "es_netThreads s' \<noteq> []" and "\<forall>th \<in> set (es_netThreads s'). new_thread s' th"
    and names: "\<And>p. map_option ba_name (es_adapters s' p) = map_option ba_name (es_adapters s p)"
    and "\<And>p a. es_adapters s' p = Some a \<Longrightarrow> new_adapter s' N a" and "\<And>p. p \<in> D' \<Longrightarrow> grouped s' p"
    and "\<And>g hg. es_groups s' g = Some hg \<Longrightarrow> named_in s hg"
    and "\<And>kv. kv \<in> set (es_handleGroups s') \<Longrightarrow> es_groups s' (snd kv) \<noteq> None"
    and "es_conns s' = es_conns s" and "- 1 \<notin> set (net_open (es_net s'))" and "0 \<le> net_next (es_net s')"
  shows "building N P D' s'"
proof -
  have "es_adapters s' p = None \<longleftrightarrow> es_adapters s p = None" for p using names [of p] by (metis map_option_is_None)
  then have "dom (es_adapters s') = P" using buildingD(3) [OF b] by (auto simp: dom_def)
  moreover have "named_in s' hg" if "named_in s hg" for hg using that names by (rule named_in_mono)
  ultimately show ?thesis using assms buildingD(8) [OF b] unfolding building_def by simp
qed

lemma make_adapter_builds:
  assumes b: "building N P D (ap_server s)" and p: "p \<notin> P"
  shows "succeeds (make_adapter p name host port k) s (\<lambda>_ s'.
    building (insert name N) (insert p P) D (ap_server s') \<and> ap_helper s' = ap_helper s)"
proof -
  let ?a = "BindAdapter_init\<lparr>ba_name := name, ba_ep := (host, port), ba_handleGroupName := name, ba_iHandleNum := k\<rparr>"
  let ?s = "ap_server s\<lparr>es_adapters := (es_adapters (ap_server s))(p \<mapsto> ?a)\<rparr>"
  have none: "es_adapters (ap_server s) p = None" using b p by (auto simp: building_def)
  have th: "new_thread ?s th" if "new_thread (ap_server s) th" for th by (rule new_thread_mono [OF that]) auto
  have ad: "new_adapter ?s (insert name N) a" if "new_adapter (ap_server s) N a" for a
    using that by (simp add: new_adapter_def)
  have new: "new_adapter ?s (insert name N) ?a" by (simp add: new_adapter_def BindAdapter_init_def)
  have gr: "grouped ?s q" if "grouped (ap_server s) q" for q
    using that none by (auto simp: grouped_def)
  have na: "named_in ?s hg" if "named_in (ap_server s) hg" for hg
    by (rule named_in_mono [OF that]) (use none in auto)
  have "building (insert name N) (insert p P) D ?s"
    using b th ad new gr na unfolding building_def by (intro conjI) (auto split: if_splits)
  then show ?thesis by (simp add: make_adapter_def succeeds_def on_epoll_def zoom_def)
qed

text \<open>A change of an adapter that leaves its name, queue and group alone.\<close>

lemma es_bind_builds:
  assumes b: "building N P D s" and p: "p \<in> P"
  shows "succeeds (es_bind p) s (\<lambda>_. building N P D)"
proof -
  obtain a where a: "es_adapters s p = Some a" using b p by (auto simp: building_def)
  obtain th ths where ths: "es_netThreads s = th # ths" using b by (cases "es_netThreads s") (auto simp: building_def)
  let ?fd = "net_next (es_net s)"
  let ?n = "(es_net s)\<lparr>net_next := ?fd + 1, net_open := ?fd # net_open (es_net s)\<rparr>"
  let ?th = "th\<lparr>nt_listeners := map_set ?fd (Some p) (nt_listeners th)\<rparr>"
  let ?s = "s\<lparr>es_net := ?n, es_adapters := (es_adapters s)(p \<mapsto> a\<lparr>ba_sock := ?fd\<rparr>), es_netThreads := ?th # ths\<rparr>"
  have run: "es_bind p s = (Ok ?fd, ?s)"
    using a ths by (simp add: es_bind_def nt_bind_def andthen_def on_kernel_def zoom_def k_socket_def thread_update_def
        thread_at_def ret_def)
  have fd: "?fd \<noteq> - 1" using b by (auto simp: building_def)
  have keep: "new_thread ?s x" if "new_thread s x" for x by (rule new_thread_mono [OF that]) auto
  have "new_thread s th" using b ths by (simp add: building_def)
  then have "new_thread ?s th" by (rule keep)
  then have "new_thread ?s ?th" using fd by (rule new_thread_listens) simp
  moreover have "new_thread ?s x" if "x \<in> set ths" for x using keep b ths that by (simp add: building_def)
  ultimately have ts: "\<forall>x \<in> set (es_netThreads ?s). new_thread ?s x" by simp
  have ad: "new_adapter ?s N x" if "es_adapters ?s q = Some x" for q x
    using that a buildingD(4) [OF b] by (fastforce simp: new_adapter_def split: if_splits)
  have "building N P D ?s"
  proof (rule building_step [OF b _ ts _ ad])
    show "grouped ?s q" if "q \<in> D" for q using buildingD(5) [OF b that] a by (auto simp: grouped_def)
    show "named_in s hg" if "es_groups ?s g = Some hg" for g hg using buildingD(6) [OF b] that by simp
    show "es_groups ?s (snd kv) \<noteq> None" if "kv \<in> set (es_handleGroups ?s)" for kv
      using buildingD(7) [OF b] that by simp
  qed (use a fd buildingD(9,10) [OF b] in auto)
  then show ?thesis by (simp add: succeeds_def run)
qed

lemma map_of_map_set_some: "\<exists>w. map_of (map_set k v m) k = Some w"
proof -
  have "k \<in> fst ` set (map_set k v m)" by (simp add: map_set_keys)
  then show ?thesis by (auto simp: image_iff dest: weak_map_of_SomeI)
qed

lemma setHandle_builds:
  assumes b: "building N P D s" and p: "p \<in> P"
  shows "succeeds (setHandle p) s (\<lambda>_. building N P (insert p D))"
proof -
  obtain a where a: "es_adapters s p = Some a" using b p by (auto simp: building_def)
  let ?name = "ba_handleGroupName a"
  define s1 where "s1 = (if map_of (es_handleGroups s) ?name = None then
             s\<lparr>es_groups := (es_groups s)(es_group_next s \<mapsto> \<lparr>hg_name = ?name, hg_notified = 0,
                 hg_handles = replicate (nat (sint (word_of_nat (ba_iHandleNum a) :: 32 word))) False, hg_adapters = []\<rparr>),
               es_handleGroups := map_set ?name (es_group_next s) (es_handleGroups s),
               es_group_next := es_group_next s + 1\<rparr>
           else s)"
  have s1: "building N P D s1" "es_adapters s1 = es_adapters s"
  proof -
    show "es_adapters s1 = es_adapters s" by (simp add: s1_def)
    have ts: "\<forall>x \<in> set (es_netThreads s1). new_thread s1 x"
      using buildingD(2) [OF b] by (simp add: s1_def new_thread_def)
    have ad: "new_adapter s1 N x" if "es_adapters s1 q = Some x" for q x
      using buildingD(4) [OF b, of q x] that by (auto simp: s1_def new_adapter_def)
    show "building N P D s1"
    proof (rule building_step [OF b _ ts _ ad])
      show "grouped s1 q" if "q \<in> D" for q using buildingD(5) [OF b that] by (simp add: s1_def grouped_def)
      show "named_in s x" if "es_groups s1 i = Some x" for i x
        using buildingD(6) [OF b, of i x] that by (auto simp: s1_def named_in_def split: if_splits)
      show "es_groups s1 (snd kv) \<noteq> None" if "kv \<in> set (es_handleGroups s1)" for kv
        using buildingD(7) [OF b, of kv] that by (auto simp: s1_def split: if_splits dest!: map_set_members)
    qed (use buildingD(1,9,10) [OF b] in \<open>auto simp: s1_def\<close>)
  qed
  obtain w where w: "map_of (map_set ?name (es_group_next s) (es_handleGroups s)) ?name = Some w"
    using map_of_map_set_some [of ?name "es_group_next s" "es_handleGroups s"] by (elim exE)
  obtain g where g: "map_of (es_handleGroups s1) ?name = Some g"
    using w by (cases "map_of (es_handleGroups s) ?name") (simp_all add: s1_def)
  obtain hg where hg: "es_groups s1 g = Some hg"
    using buildingD(7) [OF s1(1) map_of_SomeD [OF g]] by auto
  let ?hg = "hg\<lparr>hg_adapters := map_set (ba_name a) p (hg_adapters hg)\<rparr>"
  let ?s = "s1\<lparr>es_groups := (es_groups s1)(g \<mapsto> ?hg), es_adapters := (es_adapters s1)(p \<mapsto> a\<lparr>ba_handleGroup := Some g\<rparr>)\<rparr>"
  have run: "setHandle p s = (Ok (), ?s)"
    using a g hg by (simp add: setHandle_def setHandleGroup_def s1_def Let_def cong: if_cong)
  have "new_thread ?s x" if "new_thread s1 x" for x by (rule new_thread_mono [OF that]) auto
  then have ts: "\<forall>x \<in> set (es_netThreads ?s). new_thread ?s x" using buildingD(2) [OF s1(1)] by simp
  have ad: "new_adapter ?s N x" if "es_adapters ?s q = Some x" for q x
    using that a buildingD(4) [OF b, of p a] buildingD(4) [OF s1(1), of q x]
    by (auto simp: new_adapter_def split: if_splits)
  have "building N P (insert p D) ?s"
  proof (rule building_step [OF s1(1) _ ts _ ad])
    show "grouped ?s q" if "q \<in> insert p D" for q
      using buildingD(5) [OF s1(1), of q] that by (auto simp: grouped_def)
    have "named_in s1 ?hg"
      using buildingD(6) [OF s1(1) hg] a s1(2) by (auto simp: named_in_def dest!: map_set_members)
    then show "named_in s1 x" if "es_groups ?s i = Some x" for i x
      using buildingD(6) [OF s1(1), of i x] that by (auto split: if_splits)
    show "es_groups ?s (snd kv) \<noteq> None" if "kv \<in> set (es_handleGroups ?s)" for kv
      using buildingD(7) [OF s1(1), of kv] that by auto
  qed (use a s1(2) buildingD(1,9,10) [OF s1(1)] in auto)
  then show ?thesis by (simp add: succeeds_def run)
qed

section \<open>Threads\<close>

lemma make_threads_spec:
  assumes "- 1 \<notin> set (net_open n)" and "0 \<le> net_next n"
  shows "\<exists>ths n'. make_threads k ind n = (Ok ths, n') \<and> length ths = k \<and> (\<forall>th \<in> set ths. \<forall>s. new_thread s th) \<and>
    - 1 \<notin> set (net_open n') \<and> 0 \<le> net_next n'"
proof (induction k)
  case 0
  then show ?case using assms by (simp add: ret_def)
next
  case (Suc k)
  then obtain ths n' where k: "make_threads k ind n = (Ok ths, n')" "length ths = k" "\<forall>th \<in> set ths. \<forall>s. new_thread s th"
    "- 1 \<notin> set (net_open n')" "0 \<le> net_next n'"
    by blast
  then show ?case
    by (auto simp: andthen_def NetThread_init_def k_socket_def ret_def new_thread_def)
qed

lemma server_construct_spec:
  assumes "- 1 \<notin> set (net_open n)" and "0 \<le> net_next n"
  shows "\<exists>s. server_construct ind accepts iov n = Ok s \<and> building {} {} {} s"
proof -
  obtain ths n' where k: "make_threads iNetThreadNum ind n = (Ok ths, n')" "length ths = iNetThreadNum"
    "\<forall>th \<in> set ths. \<forall>s. new_thread s th" "- 1 \<notin> set (net_open n')" "0 \<le> net_next n'"
    using make_threads_spec [OF assms] by blast
  have "ths \<noteq> []" using k(2) by (auto simp: iNetThreadNum_def)
  then show ?thesis using k by (simp add: server_construct_def TC_EpollServer_init_def building_def)
qed

lemma distinct_uids: "n \<le> 4294967296 \<Longrightarrow> distinct (map (word_of_nat :: nat \<Rightarrow> 32 word) [m..<n])"
  unfolding distinct_map
proof (intro conjI inj_onI)
  fix x y assume n: "n \<le> 4294967296" and xy: "x \<in> set [m..<n]" "y \<in> set [m..<n]" "(word_of_nat x :: 32 word) = word_of_nat y"
  then have "x mod 4294967296 = y mod 4294967296" by (simp add: word_of_nat_eq_iff take_bit_nat_def)
  then show "x = y" using n xy(1,2) by simp
qed simp

lemma fresh_uids_distinct: "distinct fresh_uids"
  unfolding fresh_uids_def by (rule distinct_uids) simp

text \<open>What a thread is after \<open>createEpoll\<close>.\<close>

definition polling :: "net_thread \<Rightarrow> net_thread" where
  "polling th = th\<lparr>
     nt_epoll := fold (\<lambda>kv. epoll_add (fst kv) (or (H64 ET_LISTEN) (word_of_int (fst kv))) EPOLLIN) (nt_listeners th)
       (epoll_add (nt_bind_listen th) (or (H64 ET_LISTEN) (word_of_int (nt_bind_listen th))) EPOLLIN
       (epoll_add (nt_notify th) (H64 ET_NOTIFY) EPOLLIN
       (epoll_add (nt_shutdown th) (H64 ET_CLOSE) EPOLLIN (\<lambda>_. None)))),
     nt_free := nt_free th @ fresh_uids, nt_free_size := nt_free_size th + 200000\<rparr>"

lemma createEpoll_upto_eq:
  "k \<le> length (es_netThreads s) \<Longrightarrow> createEpoll_upto k s =
    (Ok (), s\<lparr>es_netThreads := map polling (take k (es_netThreads s)) @ drop k (es_netThreads s)\<rparr>)"
proof (induction k)
  case 0
  then show ?case by (cases s) (simp add: ret_def)
next
  case (Suc k)
  then have k: "k < length (es_netThreads s)" by simp
  let ?ths = "map polling (take k (es_netThreads s)) @ drop k (es_netThreads s)"
  have "?ths ! k = es_netThreads s ! k" using k by (simp add: nth_append)
  moreover have "?ths[k := polling (es_netThreads s ! k)] =
      map polling (take (Suc k) (es_netThreads s)) @ drop (Suc k) (es_netThreads s)"
    using k by (simp add: list_update_append take_Suc_conv_app_nth upd_conv_take_nth_drop min_def)
  ultimately show ?case
    using Suc k
    by (simp add: andthen_def nt_createEpoll_def thread_update_def thread_at_def flip: polling_def)
qed

lemma es_createEpoll_eq: "es_createEpoll s = (Ok (), s\<lparr>es_netThreads := map polling (es_netThreads s)\<rparr>)"
  by (simp add: es_createEpoll_def createEpoll_upto_eq)

section \<open>The invariant at the start\<close>

lemma started_inv:
  assumes b: "building N P D s" and all: "P \<subseteq> D" "finite P"
  shows "server_inv (s\<lparr>es_netThreads := map polling (es_netThreads s)\<rparr>)" (is "server_inv ?s")
    and "backlog (s\<lparr>es_netThreads := map polling (es_netThreads s)\<rparr>) = 0"
proof -
  have th: "new_thread s (es_netThreads s ! t)" "thread_at t ?s = polling (es_netThreads s ! t)"
    if "t < length (es_netThreads s)" for t
    using buildingD(2) [OF b] that by (simp_all add: thread_at_def)
  have ad: "adapter_ok ?s (Some p)" if p: "p \<in> dom (es_adapters s)" for p
  proof -
    have "grouped s p" using p buildingD(3,5) [OF b] all(1) by blast
    then obtain a g where a: "es_adapters s p = Some a" "ba_handleGroup a = Some g" by (auto simp: grouped_def)
    then have "es_groups s g \<noteq> None" using buildingD(4) [OF b a(1)] by (simp add: new_adapter_def)
    then show ?thesis using a by (simp add: adapter_ok_def)
  qed
  have "thread_ok ?s t" if t: "t < length (es_netThreads s)" for t
  proof -
    have "fst kv \<noteq> - 1 \<and> adapter_ok ?s (snd kv)" if "kv \<in> set (nt_listeners (es_netThreads s ! t))" for kv
    proof -
      have kv: "fst kv \<noteq> - 1" "snd kv \<in> Some ` dom (es_adapters s)" using th(1) [OF t] that by (simp_all add: new_thread_def)
      then obtain p where "snd kv = Some p" "p \<in> dom (es_adapters s)" by blast
      then show ?thesis using kv(1) ad by simp
    qed
    then show ?thesis
      using th [OF t] fresh_uids_distinct
      by (simp add: thread_ok_def new_thread_def polling_def ThreadQueue_init_def tq_inv_def)
  qed
  moreover have "adapters_ok ?s"
    using buildingD(3,4) [OF b] all(2) by (auto simp: adapters_ok_def new_adapter_def ThreadQueue_init_def tq_inv_def)
  moreover have "groups_ok ?s"
    using buildingD(6) [OF b] by (fastforce simp: groups_ok_def named_in_def)
  ultimately show "server_inv ?s"
    using buildingD(1,8,9) [OF b] by (simp add: server_inv_def)
  have "nt_sbuffer (polling th) = ThreadQueue_init" if "th \<in> set (es_netThreads s)" for th
    using buildingD(2) [OF b that] by (simp add: new_thread_def polling_def)
  then have "thread_backlog (es_netThreads ?s) = 0" by (simp add: thread_backlog_def ThreadQueue_init_def)
  moreover have "adapter_backlog (es_adapters s) = 0"
    unfolding adapter_backlog_def
    by (rule sum.neutral) (use buildingD(4) [OF b] in \<open>auto simp: new_adapter_def ThreadQueue_init_def\<close>)
  ultimately show "backlog ?s = 0" by (simp add: backlog_def)
qed

section \<open>The registry\<close>

text \<open>Adapters \<open>A\<close> stand for servants \<open>S\<close>, and \<open>C\<close> can be created.\<close>

definition registry :: "bytes set \<Rightarrow> bytes set \<Rightarrow> bytes set \<Rightarrow> servant_helper \<Rightarrow> bool" where
  "registry A S C m \<longleftrightarrow> ascending (sm_adapter_servant m) \<and> ascending (sm_servant_creator m) \<and>
     (\<forall>n \<in> A. \<exists>s \<in> S. map_of (sm_adapter_servant m) n = Some s) \<and> S \<subseteq> fst ` set (sm_servant_adapter m) \<and>
     (\<forall>s \<in> C. map_of (sm_servant_creator m) s \<noteq> None)"

lemma registry_init: "registry {} {} {} ServantHelperManager_init"
  by (simp add: registry_def ServantHelperManager_init_def)

lemma registry_adapter:
  "registry A S C m \<Longrightarrow> registry (insert a A) (insert x S) C (setAdapterServant a x m)"
  by (auto simp: registry_def setAdapterServant_def map_of_map_set map_set_ascending map_set_keys)

lemma registry_servant:
  assumes "registry A S C m" and "check \<longrightarrow> x \<in> S"
  shows "succeeds (addServant T x check) m (\<lambda>_. registry A S (insert x C))"
proof -
  have "check \<longrightarrow> map_of (sm_servant_adapter m) x \<noteq> None"
    using assms by (auto simp: registry_def map_of_eq_None_iff)
  then show ?thesis
    using assms(1) by (auto simp: succeeds_def addServant_def registry_def map_of_map_set map_set_ascending)
qed

lemma registry_servants:
  assumes "registry A S C m" and "fst ` set kvs \<subseteq> S"
  shows "succeeds (register_servants kvs) m (\<lambda>_. registry A S (C \<union> fst ` set kvs))"
  using assms
proof (induction kvs arbitrary: m C)
  case Nil
  then show ?case by (simp add: succeeds_ret)
next
  case (Cons kv kvs)
  show ?case
    unfolding register_servants.simps addServant_app_def
  proof (rule succeeds_andthen [OF registry_servant [OF Cons.prems(1)]])
    show "True \<longrightarrow> fst kv \<in> S" using Cons.prems(2) by simp
    fix u m1 assume "registry A S (insert (fst kv) C) m1"
    then show "succeeds (register_servants kvs) m1 (\<lambda>_. registry A S (C \<union> fst ` set (kv # kvs)))"
      using Cons.IH [of "insert (fst kv) C" m1] Cons.prems(2) by simp
  qed
qed

lemma registry_registered: "registry A S C m \<Longrightarrow> S \<subseteq> C \<Longrightarrow> n \<in> A \<Longrightarrow> registered m n"
  by (fastforce simp: registry_def registered_def)

section \<open>Application::main\<close>

definition app_building :: "bytes set \<Rightarrow> bytes set \<Rightarrow> bytes set \<Rightarrow> nat set \<Rightarrow> nat set \<Rightarrow> application \<Rightarrow> bool" where
  "app_building N S C P D s \<longleftrightarrow> building N P D (ap_server s) \<and> registry N S C (ap_helper s)"

lemma new_app_adapter:
  assumes b: "app_building N S C P D s" and p: "p \<notin> P"
    and Q: "\<And>s'. app_building (insert name N) (insert x S) C (insert p P) D s' \<Longrightarrow> succeeds m s' Q"
  shows "succeeds (andthen (setAdapterServant_app name x) (\<lambda>_. andthen (make_adapter p name host port k) (\<lambda>_. m))) s Q"
proof (rule succeeds_andthen)
  let ?P = "\<lambda>s'. building N P D (ap_server s') \<and> registry (insert name N) (insert x S) C (ap_helper s')"
  show "succeeds (setAdapterServant_app name x) s (\<lambda>_. ?P)"
    unfolding setAdapterServant_app_def
    by (rule succeeds_helper, rule succeeds_Ok, rule refl) (use b registry_adapter in \<open>simp add: app_building_def\<close>)
  fix u and s' :: application assume s': "?P s'"
  show "succeeds (andthen (make_adapter p name host port k) (\<lambda>_. m)) s' Q"
    by (rule succeeds_andthen [OF make_adapter_builds [OF _ p]]) (use s' Q in \<open>auto simp: app_building_def\<close>)
qed

lemma app_bind:
  assumes "app_building N S C P D s" and "p \<in> P"
  shows "succeeds (on_epoll (es_bind p)) s (\<lambda>_. app_building N S C P D)"
  by (rule succeeds_epoll, rule succeeds_weaken [OF es_bind_builds [of N P D]])
    (use assms in \<open>simp_all add: app_building_def\<close>)

lemma app_setHandle:
  assumes "app_building N S C P D s" and "p \<in> P"
  shows "succeeds (on_epoll (setHandle p)) s (\<lambda>_. app_building N S C P (insert p D))"
  by (rule succeeds_epoll, rule succeeds_weaken [OF setHandle_builds [of N P D]])
    (use assms in \<open>simp_all add: app_building_def\<close>)

lemma initializeServer_spec:
  assumes "app_building {} {} {} {} {} s"
  shows "succeeds initializeServer s (\<lambda>_. app_building {AdminAdapter} {AdminObj} {AdminObj} {0} {0})"
  unfolding initializeServer_def
proof (rule succeeds_andthen)
  show "succeeds (on_helper (addServant AdminServant AdminObj False)) s (\<lambda>_. app_building {} {} {AdminObj} {} {})"
    by (rule succeeds_helper, rule succeeds_weaken [OF registry_servant])
      (use assms in \<open>auto simp: app_building_def\<close>)
  fix u s1 assume s1: "app_building {} {} {AdminObj} {} {} s1"
  show "succeeds (andthen (setAdapterServant_app AdminAdapter AdminObj) (\<lambda>_.
     andthen (make_adapter 0 AdminAdapter (ascii ''127.0.0.1'') 20001 1) (\<lambda>_.
     andthen (on_epoll (setHandle 0)) (\<lambda>_. andthen (on_epoll (es_bind 0)) (\<lambda>_. ret ()))))) s1
     (\<lambda>_. app_building {AdminAdapter} {AdminObj} {AdminObj} {0} {0})"
    by (rule new_app_adapter [OF s1], simp, rule succeeds_andthen [OF app_setHandle], assumption, simp,
        rule succeeds_andthen [OF app_bind], assumption, simp, rule succeeds_ret)
qed

definition configured :: "server_config \<Rightarrow> bytes set" where
  "configured cfg = {sc_servantName cfg} \<union> (if sc_servantName1 cfg = [] then {} else {sc_servantName1 cfg})"

lemma bindAdapter_spec:
  assumes "app_building {AdminAdapter} {AdminObj} {AdminObj} {0} {0} s"
  shows "succeeds (bindAdapter cfg) s (\<lambda>ps s'. \<exists>N.
    app_building N (insert AdminObj (configured cfg)) {AdminObj} (insert 0 (set ps)) {0} s')"
  (is "succeeds _ _ ?Q")
  unfolding bindAdapter_def
proof (rule new_app_adapter [OF assms])
  let ?N = "insert (sc_adapterName cfg) {AdminAdapter}" and ?S = "insert (sc_servantName cfg) {AdminObj}"
  fix s1 assume s1: "app_building ?N ?S {AdminObj} {1, 0} {0} s1"
  show "succeeds (andthen (on_epoll (es_bind 1)) (\<lambda>_.
     if sc_servantName1 cfg = [] then ret [1]
     else
       andthen (setAdapterServant_app (sc_adapterName1 cfg) (sc_servantName1 cfg)) (\<lambda>_.
       andthen (make_adapter 2 (sc_adapterName1 cfg) (sc_adapterIp1 cfg) (sc_adapterPort1 cfg) 4) (\<lambda>_.
       andthen (on_epoll (es_bind 2)) (\<lambda>_. ret [1, 2]))))) s1 ?Q"
  proof (rule succeeds_andthen [OF app_bind [OF s1]])
    fix u s2 assume s2: "app_building ?N ?S {AdminObj} {1, 0} {0} s2"
    have one: "succeeds (ret [1]) s2 ?Q" if "sc_servantName1 cfg = []"
      by (rule succeeds_ret, rule exI [of _ ?N]) (use s2 that in \<open>auto simp: insert_commute configured_def\<close>)
    have two: "succeeds (andthen (setAdapterServant_app (sc_adapterName1 cfg) (sc_servantName1 cfg)) (\<lambda>_.
       andthen (make_adapter 2 (sc_adapterName1 cfg) (sc_adapterIp1 cfg) (sc_adapterPort1 cfg) 4) (\<lambda>_.
       andthen (on_epoll (es_bind 2)) (\<lambda>_. ret [1, 2])))) s2 ?Q" if "sc_servantName1 cfg \<noteq> []"
    proof (rule new_app_adapter [OF s2])
      let ?N' = "insert (sc_adapterName1 cfg) ?N" and ?S' = "insert (sc_servantName1 cfg) ?S"
      fix s3 assume s3: "app_building ?N' ?S' {AdminObj} {2, 1, 0} {0} s3"
      show "succeeds (andthen (on_epoll (es_bind 2)) (\<lambda>_. ret [1, 2])) s3 ?Q"
      proof (rule succeeds_andthen [OF app_bind [OF s3]])
        fix v s4 assume "app_building ?N' ?S' {AdminObj} {2, 1, 0} {0} s4"
        then show "succeeds (ret [1, 2]) s4 ?Q"
          using that by (intro succeeds_ret exI [of _ ?N']) (auto simp: insert_commute configured_def)
      qed simp
    qed simp
    show "succeeds (if sc_servantName1 cfg = [] then ret [1] else
       andthen (setAdapterServant_app (sc_adapterName1 cfg) (sc_servantName1 cfg)) (\<lambda>_.
       andthen (make_adapter 2 (sc_adapterName1 cfg) (sc_adapterIp1 cfg) (sc_adapterPort1 cfg) 4) (\<lambda>_.
       andthen (on_epoll (es_bind 2)) (\<lambda>_. ret [1, 2])))) s2 ?Q"
      by (rule succeeds_if) (erule one, erule two)
  qed simp
qed simp

lemma set_handles_spec:
  assumes "app_building N S C P D s" and "set ps \<subseteq> P"
  shows "succeeds (set_handles ps) s (\<lambda>_. app_building N S C P (D \<union> set ps))"
  using assms
proof (induction ps arbitrary: s D)
  case Nil
  then show ?case by (simp add: succeeds_ret)
next
  case (Cons p ps)
  have "p \<in> P" using Cons.prems(2) by simp
  show ?case
    unfolding set_handles.simps
    by (rule succeeds_andthen [OF app_setHandle [OF Cons.prems(1) \<open>p \<in> P\<close>]])
      (use Cons.IH [of "insert p D"] Cons.prems(2) in simp)
qed

lemma startHandle_builds: "building N P D s \<Longrightarrow> building N P D (startHandle s)"
proof -
  assume b: "building N P D s"
  let ?s = "startHandle s"
  have same: "es_netThreads ?s = es_netThreads s" "es_adapters ?s = es_adapters s" "es_handleGroups ?s = es_handleGroups s"
    "es_conns ?s = es_conns s" "es_net ?s = es_net s"
    by (simp_all add: startHandle_def groups_update_def)
  have gr: "map_option hg_adapters (es_groups ?s g) = map_option hg_adapters (es_groups s g)" for g
    by (cases "es_groups s g") (simp_all add: startHandle_def groups_update_def)
  have none: "es_groups ?s g = None \<longleftrightarrow> es_groups s g = None" for g
    using gr [of g] by (metis map_option_is_None)
  have nm: "named_in s hg" if "es_groups ?s g = Some hg" for g hg
    using gr [of g] that buildingD(6) [OF b, of g] by (cases "es_groups s g") (auto simp: named_in_def)
  show ?thesis
    by (rule building_step [OF b])
      (use buildingD [OF b] nm in \<open>auto simp: same none new_thread_def new_adapter_def grouped_def\<close>)
qed

definition fresh_application :: "epoll_server \<Rightarrow> application" where
  "fresh_application s = \<lparr>ap_helper = ServantHelperManager_init, ap_server = s\<rparr>"

text \<open>What \<open>main\<close> leaves: a server in order whose handlers find their servants.\<close>

definition app_ready :: "application \<Rightarrow> bool" where
  "app_ready s \<longleftrightarrow> server_inv (ap_server s) \<and> backlog (ap_server s) = 0 \<and>
     all_served (served (ap_helper s) (group_servants s)) (ap_server s) \<and>
     (\<forall>th \<in> set (es_netThreads (ap_server s)). nt_free th = fresh_uids) \<and>
     (\<forall>g hg. es_groups (ap_server s) g = Some hg \<longrightarrow>
        (\<exists>l. ServantHandle_initialize (ap_helper s) g (hg_adapters hg) = Ok l))"

lemma ready:
  assumes b: "app_building N S C P D s" and all: "P \<subseteq> D" "finite P" "S \<subseteq> C"
  shows "app_ready (s\<lparr>ap_server := (ap_server s)\<lparr>es_netThreads := map polling (es_netThreads (ap_server s))\<rparr>\<rparr>)"
    (is "app_ready ?s")
proof -
  have bs: "building N P D (ap_server s)" and reg: "registry N S C (ap_helper s)"
    using b by (simp_all add: app_building_def)
  have name: "registered (ap_helper s) (fst kv) \<and> map_option ba_name (es_adapters (ap_server s) (snd kv)) = Some (fst kv)"
    if g: "es_groups (ap_server s) g = Some hg" "kv \<in> set (hg_adapters hg)" for g hg kv
  proof -
    have kv: "map_option ba_name (es_adapters (ap_server s) (snd kv)) = Some (fst kv)"
      using buildingD(6) [OF bs g(1)] g(2) by (auto simp: named_in_def)
    then obtain a where "es_adapters (ap_server s) (snd kv) = Some a" "ba_name a = fst kv" by auto
    then have "fst kv \<in> N" using buildingD(4) [OF bs, of "snd kv" a] by (simp add: new_adapter_def)
    then show ?thesis using kv registry_registered [OF reg all(3)] by blast
  qed
  have made: "\<exists>l. ServantHandle_initialize (ap_helper s) g (hg_adapters hg) = Ok l \<and>
      (\<forall>kv \<in> set (hg_adapters hg). map_of l (getAdapterServant (fst kv) (ap_helper s)) \<noteq> None)"
    if "es_groups (ap_server s) g = Some hg" for g hg
    by (rule ServantHandle_initialize_spec) (use name that in blast)
  have "served (ap_helper s) (group_servants ?s) g (ba_name a)"
    if g: "es_groups (ap_server s) g = Some hg" "kv \<in> set (hg_adapters hg)" "es_adapters (ap_server s) (snd kv) = Some a" for g hg kv a
  proof -
    have "ba_name a = fst kv" using name [OF g(1,2)] g(3) by simp
    then show ?thesis using made [OF g(1)] g(1,2) by (auto simp: served_def group_servants_def)
  qed
  then have "all_served (served (ap_helper s) (group_servants ?s)) (ap_server ?s)" by (auto simp: all_served_def)
  moreover have "nt_free th = fresh_uids" if "th \<in> set (es_netThreads (ap_server ?s))" for th
    using that buildingD(2) [OF bs] by (auto simp: new_thread_def polling_def)
  ultimately show ?thesis
    using started_inv [OF bs all(1,2)] made by (fastforce simp: app_ready_def)
qed

lemma Application_main_spec:
  assumes net: "- 1 \<notin> set (net_open n)" "0 \<le> net_next n"
    and regs: "fst ` set regs = configured cfg"
  shows "\<exists>s0. server_construct ind accepts iov n = Ok s0 \<and>
    succeeds (Application_main cfg (register_servants regs)) (fresh_application s0) (\<lambda>_. app_ready)"
proof -
  obtain s0 where s0: "server_construct ind accepts iov n = Ok s0" "building {} {} {} s0"
    using server_construct_spec [OF net] by blast
  have "succeeds (Application_main cfg (register_servants regs)) (fresh_application s0) (\<lambda>_. app_ready)"
    unfolding Application_main_def
  proof (rule succeeds_andthen [OF initializeServer_spec])
    show "app_building {} {} {} {} {} (fresh_application s0)"
      using s0(2) registry_init by (simp add: app_building_def fresh_application_def)
    fix u s1 assume "app_building {AdminAdapter} {AdminObj} {AdminObj} {0} {0} s1"
    from bindAdapter_spec [OF this]
    show "succeeds (andthen (bindAdapter cfg) (\<lambda>adapters. andthen (on_helper (register_servants regs)) (\<lambda>_.
       andthen (set_handles adapters) (\<lambda>_. andthen (on_epoll (\<lambda>s. (Ok (), startHandle s))) (\<lambda>_. on_epoll es_createEpoll))))) s1
       (\<lambda>_. app_ready)"
    proof (rule succeeds_andthen)
      let ?S = "insert AdminObj (configured cfg)"
      fix ps s2 assume "\<exists>N. app_building N ?S {AdminObj} (insert 0 (set ps)) {0} s2"
      then obtain N where s2: "app_building N ?S {AdminObj} (insert 0 (set ps)) {0} s2"
        by blast
      let ?C = "insert AdminObj (fst ` set regs)"
      have reg: "succeeds (on_helper (register_servants regs)) s2 (\<lambda>_. app_building N ?S ?C (insert 0 (set ps)) {0})"
        by (rule succeeds_helper, rule succeeds_weaken [OF registry_servants])
          (use s2 regs in \<open>auto simp: app_building_def\<close>)
      have SC: "?S \<subseteq> ?C" using regs by auto
      show "succeeds (andthen (on_helper (register_servants regs)) (\<lambda>_. andthen (set_handles ps) (\<lambda>_.
         andthen (on_epoll (\<lambda>s. (Ok (), startHandle s))) (\<lambda>_. on_epoll es_createEpoll)))) s2 (\<lambda>_. app_ready)"
      proof (rule succeeds_andthen [OF reg], rule succeeds_andthen [OF set_handles_spec])
        fix v w s3 s4 assume s4: "app_building N ?S ?C (insert 0 (set ps)) ({0} \<union> set ps) s4"
        let ?s = "s4\<lparr>ap_server := startHandle (ap_server s4)\<rparr>"
        have "app_building N ?S ?C (insert 0 (set ps)) ({0} \<union> set ps) ?s"
          using s4 startHandle_builds by (simp add: app_building_def)
        from ready [OF this _ _ SC]
        show "succeeds (andthen (on_epoll (\<lambda>s. (Ok (), startHandle s))) (\<lambda>_. on_epoll es_createEpoll)) s4 (\<lambda>_. app_ready)"
          by (simp add: succeeds_def andthen_def on_epoll_def zoom_def es_createEpoll_eq)
      qed auto
    qed
  qed
  then show ?thesis using s0(1) by blast
qed

text \<open>The handlers of a running application.\<close>

abbreviation handlers_of :: "on_dispatch \<Rightarrow> application \<Rightarrow> nat \<Rightarrow> recv_data \<Rightarrow> (epoll_server, unit) act" where
  "handlers_of onDispatch app \<equiv> (\<lambda>g. ServantHandle_handle onDispatch (ap_helper app) (group_servants app g))"

end
