(* ===== verification/Server_Answers.thy ===== *)
theory Server_Answers
  imports Server_Start
begin

text \<open>
  What the server does for its clients: the messages of the adapters become commands of the
  network threads, in order; the commands become bytes on the connections; what arrives on a
  connection becomes a message.
\<close>

section \<open>Observations\<close>

definition adapter_queue :: "nat \<Rightarrow> epoll_server \<Rightarrow> recv_data list" where
  "adapter_queue p s = (case es_adapters s p of None \<Rightarrow> [] | Some a \<Rightarrow> tq_queue (ba_rbuffer a))"

definition commands :: "nat \<Rightarrow> epoll_server \<Rightarrow> send_data list" where
  "commands t s = tq_queue (nt_sbuffer (thread_at t s))"

definition for_thread :: "epoll_server \<Rightarrow> nat \<Rightarrow> (int \<times> send_data) list \<Rightarrow> send_data list" where
  "for_thread s t cs = map snd (filter (\<lambda>c. getNetThreadOfFd (fst c) s = Some t) cs)"

lemma for_thread_simps [simp]:
  "for_thread s t [] = []"
  "for_thread s t (c # cs) = (if getNetThreadOfFd (fst c) s = Some t then [snd c] else []) @ for_thread s t cs"
  "for_thread s t (cs @ cs') = for_thread s t cs @ for_thread s t cs'"
  by (simp_all add: for_thread_def)

definition open_for_work :: "epoll_server \<Rightarrow> bool" where
  "open_for_work s \<longleftrightarrow> es_netThreads s \<noteq> [] \<and> (\<forall>th \<in> set (es_netThreads s). \<not> nt_bTerminate th) \<and>
     (\<forall>p a. es_adapters s p = Some a \<longrightarrow> tq_inv (ba_rbuffer a) \<and> tq_small (ba_rbuffer a))"

lemma server_inv_open:
  assumes inv: "server_inv s" and small: "backlog s < size_max" and run: "\<forall>th \<in> set (es_netThreads s). \<not> nt_bTerminate th"
  shows "open_for_work s"
proof -
  have fin: "finite (dom (es_adapters s))" using server_invD(3) [OF inv] by (simp add: adapters_ok_def)
  have "tq_inv (ba_rbuffer a) \<and> tq_small (ba_rbuffer a)" if a: "es_adapters s p = Some a" for p a
    using adapter_queue_backlog [OF fin a] small server_invD(3) [OF inv] a
    by (auto simp: adapters_ok_def tq_small_def backlog_def)
  then show ?thesis using server_invD(1) [OF inv] run by (simp add: open_for_work_def)
qed

text \<open>Commands \<open>cs\<close> were added, the adapters' queues are \<open>R\<close>, and nothing else of interest changed.\<close>

definition after_work :: "epoll_server \<Rightarrow> (int \<times> send_data) list \<Rightarrow> (nat \<Rightarrow> recv_data list) \<Rightarrow> epoll_server \<Rightarrow> bool" where
  "after_work s cs R s' \<longleftrightarrow> open_for_work s' \<and> es_groups s' = es_groups s \<and> es_conns s' = es_conns s \<and> es_net s' = es_net s \<and>
     length (es_netThreads s') = length (es_netThreads s) \<and>
     (\<forall>t < length (es_netThreads s). nt_uid_connection (thread_at t s') = nt_uid_connection (thread_at t s) \<and>
        commands t s' = commands t s @ for_thread s t cs) \<and>
     (\<forall>p. map_option ba_name (es_adapters s' p) = map_option ba_name (es_adapters s p)) \<and>
     (\<forall>p. adapter_queue p s' = R p)"

lemma after_work_refl: "open_for_work s \<Longrightarrow> after_work s [] (\<lambda>p. adapter_queue p s) s"
  by (simp add: after_work_def)

lemma after_work_thread: "after_work s cs R s' \<Longrightarrow> getNetThreadOfFd fd s' = getNetThreadOfFd fd s"
  by (rule thread_of_length) (simp add: after_work_def)

lemma after_work_trans:
  assumes 1: "after_work s cs R s1" and 2: "after_work s1 cs' R' s2"
  shows "after_work s (cs @ cs') R' s2"
proof -
  have "for_thread s1 t cs' = for_thread s t cs'" for t
    by (simp add: for_thread_def after_work_thread [OF 1])
  then show ?thesis using 1 2 by (simp add: after_work_def)
qed

section \<open>Handlers\<close>

definition response :: "recv_data \<Rightarrow> bytes \<Rightarrow> send_data" where
  "response d b = \<lparr>sd_cmd = CHR ''s'', sd_uid = rd_uid d, sd_buffer = b, sd_ip = rd_ip d, sd_port = Some (rd_port d)\<rparr>"

definition hang_up :: "recv_data \<Rightarrow> send_data" where
  "hang_up d = \<lparr>sd_cmd = CHR ''c'', sd_uid = rd_uid d, sd_buffer = [], sd_ip = [], sd_port = None\<rparr>"

text \<open>
  What becomes of the messages of one adapter: those that are left, and the commands with the
  descriptors that name the threads. A request whose handling throws closes its connection and
  ends the work for now.
\<close>

primrec answers :: "(bytes \<Rightarrow> tars_exn + bytes) \<Rightarrow> recv_data list \<Rightarrow> recv_data list \<times> (int \<times> send_data) list" where
  "answers f [] = ([], [])"
| "answers f (d # ds) =
     (if rd_isClosed d then answers f ds
      else case f (rd_buffer d) of
        Inl e \<Rightarrow> (ds, [(rd_fd d, hang_up d)])
      | Inr b \<Rightarrow> (case answers f ds of (rest, cs) \<Rightarrow> (rest, (rd_fd d, response d b) # cs)))"

text \<open>A handler that answers by \<open>f\<close> for an adapter of that name.\<close>

definition answering :: "(recv_data \<Rightarrow> (epoll_server, unit) act) \<Rightarrow> nat \<Rightarrow> bytes \<Rightarrow> (bytes \<Rightarrow> tars_exn + bytes) \<Rightarrow> bool" where
  "answering handle p n f \<longleftrightarrow> (\<forall>d s. rd_adapter d = Some p \<longrightarrow> map_option ba_name (es_adapters s p) = Some n \<longrightarrow>
     handle d s = (case f (rd_buffer d) of Inl e \<Rightarrow> (Throw e, s)
       | Inr b \<Rightarrow> es_send (rd_uid d) b (rd_ip d) (rd_port d) (rd_fd d) s))"

lemma nt_command_work:
  assumes s: "open_for_work s" and t: "getNetThreadOfFd fd s = Some t"
  shows "\<exists>s'. nt_command t d s = (Ok (), s') \<and> after_work s [(fd, d)] (\<lambda>p. adapter_queue p s) s'"
proof -
  have tl: "t < length (es_netThreads s)" by (rule thread_of_less [OF t])
  let ?f = "\<lambda>th. th\<lparr>nt_sbuffer := tq_push_back d (nt_sbuffer th),
     nt_epoll := epoll_mod (nt_notify th) (H64 ET_NOTIFY) EPOLLOUT (nt_epoll th)\<rparr>"
  let ?s = "s\<lparr>es_netThreads := (es_netThreads s)[t := ?f (thread_at t s)]\<rparr>"
  have "\<not> nt_bTerminate (thread_at t s)" using s tl by (simp add: open_for_work_def thread_at_def)
  then have "open_for_work ?s"
    using s tl by (auto simp: open_for_work_def dest!: subsetD [OF set_update_subset_insert])
  then have "after_work s [(fd, d)] (\<lambda>p. adapter_queue p s) ?s"
    using t thread_at_update [OF tl]
    by (auto simp: after_work_def commands_def tq_push_back_def adapter_queue_def)
  then show ?thesis by (simp add: nt_command_def thread_update_def)
qed

lemma es_send_work:
  assumes s: "open_for_work s"
  shows "\<exists>s'. es_send (rd_uid d) b (rd_ip d) (rd_port d) (rd_fd d) s = (Ok (), s') \<and>
    after_work s [(rd_fd d, response d b)] (\<lambda>p. adapter_queue p s) s'"
proof -
  obtain t where t: "getNetThreadOfFd (rd_fd d) s = Some t" using s by (auto simp: open_for_work_def getNetThreadOfFd_def)
  then have "\<not> nt_bTerminate (thread_at t s)"
    using s thread_of_less [OF t] by (simp add: open_for_work_def thread_at_def)
  then show ?thesis using nt_command_work [OF s t, of "response d b"] t by (simp add: es_send_def nt_send_def response_def)
qed

lemma es_close_work:
  assumes s: "open_for_work s"
  shows "\<exists>s'. es_close (rd_uid d) (rd_fd d) s = (Ok (), s') \<and>
    after_work s [(rd_fd d, hang_up d)] (\<lambda>p. adapter_queue p s) s'"
proof -
  obtain t where t: "getNetThreadOfFd (rd_fd d) s = Some t" using s by (auto simp: open_for_work_def getNetThreadOfFd_def)
  then show ?thesis using nt_command_work [OF s t, of "hang_up d"] by (simp add: es_close_def nt_close_def hang_up_def)
qed

lemma waitForRecvQueue_work:
  assumes s: "open_for_work s" and p: "es_adapters s p \<noteq> None" and q: "adapter_queue p s = d # ds"
  shows "\<exists>s'. waitForRecvQueue p s = (Ok (Some d), s') \<and> after_work s [] ((\<lambda>p. adapter_queue p s)(p := ds)) s'"
proof -
  obtain a where a: "es_adapters s p = Some a" using p by blast
  then have ok: "tq_inv (ba_rbuffer a)" "tq_small (ba_rbuffer a)" "tq_queue (ba_rbuffer a) = d # ds"
    using s q by (auto simp: open_for_work_def adapter_queue_def)
  let ?q = "\<lparr>tq_queue = ds, tq_size = length ds\<rparr>"
  let ?s = "s\<lparr>es_adapters := (es_adapters s)(p \<mapsto> a\<lparr>ba_rbuffer := ?q\<rparr>)\<rparr>"
  have "waitForRecvQueue p s = (Ok (Some d), ?s)"
    using a tq_pop_front_spec [OF ok, of NoWait "\<lambda>q. (False, q)"] by (simp add: waitForRecvQueue_def)
  moreover have "tq_inv ?q \<and> tq_small ?q" using ok(2,3) by (simp add: tq_inv_def tq_small_def)
  then have "open_for_work ?s" using s by (auto simp: open_for_work_def)
  then have "after_work s [] ((\<lambda>p. adapter_queue p s)(p := ds)) ?s"
    using a by (auto simp: after_work_def commands_def thread_at_def adapter_queue_def)
  ultimately show ?thesis by blast
qed

lemma waitForRecvQueue_none:
  assumes "es_adapters s p \<noteq> None" and "adapter_queue p s = []"
  shows "waitForRecvQueue p s = (Ok None, s)"
  using assms by (cases s) (auto simp: adapter_queue_def waitForRecvQueue_def tq_pop_front_nowait fun_upd_idem)

lemma handle_adapter_work:
  assumes "open_for_work s" and "map_option ba_name (es_adapters s p) = Some n" and h: "answering handle p n f"
    and "length (adapter_queue p s) < k"
  shows "\<exists>s'. handle_adapter k handle p s = (Ok (), s') \<and>
    after_work s (snd (answers f (adapter_queue p s))) ((\<lambda>p. adapter_queue p s)(p := fst (answers f (adapter_queue p s)))) s'"
  using assms(1,2,4)
proof (induction "adapter_queue p s" arbitrary: s k)
  case Nil
  obtain j where "k = Suc j" using Nil.prems(3) by (cases k) auto
  then have "handle_adapter k handle p s = (Ok (), s)"
    using Nil waitForRecvQueue_none [of s p] by (auto simp: andthen_def ret_def)
  then show ?case using after_work_refl [OF Nil.prems(1)] Nil.hyps by (simp add: fun_upd_idem)
next
  case (Cons d ds)
  have q0: "adapter_queue p s = d # ds" using Cons.hyps(2) by simp
  then have "Suc (length ds) < k" using Cons.prems(3) by simp
  then obtain j where k: "k = Suc j" "length ds < j" by (cases k) auto
  let ?R = "(\<lambda>p. adapter_queue p s)(p := ds)"
  obtain s1 where s1: "waitForRecvQueue p s = (Ok (Some d), s1)" "after_work s [] ?R s1"
    using waitForRecvQueue_work [of s p d ds] Cons.prems(1,2) q0 by auto
  have o1: "open_for_work s1" "map_option ba_name (es_adapters s1 p) = Some n" "adapter_queue p s1 = ds"
    using s1(2) Cons.prems(2) by (simp_all add: after_work_def)
  have rest: "\<exists>s'. handle_adapter j handle p s2 = (Ok (), s') \<and>
      after_work s (cs @ snd (answers f ds)) ((\<lambda>p. adapter_queue p s)(p := fst (answers f ds))) s'"
    if s2: "after_work s cs ?R s2" for s2 cs
  proof -
    have s2': "open_for_work s2" "map_option ba_name (es_adapters s2 p) = Some n" "(\<lambda>p. adapter_queue p s2) = ?R"
      using s2 Cons.prems(2) by (auto simp: after_work_def)
    then have q: "adapter_queue p s2 = ds" by (metis fun_upd_same)
    obtain s' where "handle_adapter j handle p s2 = (Ok (), s')"
      "after_work s2 (snd (answers f ds)) (?R(p := fst (answers f ds))) s'"
      using Cons.hyps(1) [of s2 j] s2' q k(2) by auto
    then show ?thesis using after_work_trans [OF s2] by auto
  qed
  show ?case
  proof (cases "rd_isClosed d")
    case True
    then show ?thesis using rest [OF s1(2)] k s1(1) by (simp add: andthen_def q0)
  next
    case False
    let ?d = "d\<lparr>rd_adapter := Some p\<rparr>"
    have h1: "handle ?d s1 = (case f (rd_buffer d) of Inl e \<Rightarrow> (Throw e, s1)
       | Inr b \<Rightarrow> es_send (rd_uid d) b (rd_ip d) (rd_port d) (rd_fd d) s1)"
      using h o1(2) by (simp add: answering_def cong: sum.case_cong)
    have q1: "(\<lambda>p. adapter_queue p s1) = ?R" using s1(2) by (auto simp: after_work_def)
    show ?thesis
    proof (cases "f (rd_buffer d)")
      case (Inl e)
      obtain s2 where s2: "es_close (rd_uid d) (rd_fd d) s1 = (Ok (), s2)" "after_work s1 [(rd_fd d, hang_up d)] ?R s2"
        using es_close_work [OF o1(1), of d] q1 by auto
      then show ?thesis
        using after_work_trans [OF s1(2) s2(2)] False Inl h1 k s1(1) by (simp add: andthen_def q0)
    next
      case (Inr b)
      obtain s2 where s2: "es_send (rd_uid d) b (rd_ip d) (rd_port d) (rd_fd d) s1 = (Ok (), s2)"
        "after_work s1 [(rd_fd d, response d b)] ?R s2"
        using es_send_work [OF o1(1), of d b] q1 by auto
      then show ?thesis
        using rest [OF after_work_trans [OF s1(2) s2(2)]] False Inr h1 k s1(1)
        by (simp add: andthen_def case_prod_beta q0)
    qed
  qed
qed

section \<open>A round\<close>

text \<open>All commands of a round, adapter by adapter, and what it leaves in the queues.\<close>

definition round_commands :: "(bytes \<Rightarrow> bytes \<Rightarrow> tars_exn + bytes) \<Rightarrow> (bytes \<times> nat) list \<Rightarrow> epoll_server \<Rightarrow> (int \<times> send_data) list" where
  "round_commands f kvs s = concat (map (\<lambda>kv. snd (answers (f (fst kv)) (adapter_queue (snd kv) s))) kvs)"

definition round_rest :: "(bytes \<Rightarrow> bytes \<Rightarrow> tars_exn + bytes) \<Rightarrow> (bytes \<times> nat) list \<Rightarrow> epoll_server \<Rightarrow> nat \<Rightarrow> recv_data list" where
  "round_rest f kvs s p = (case map_of (map prod.swap kvs) p of None \<Rightarrow> adapter_queue p s
     | Some n \<Rightarrow> fst (answers (f n) (adapter_queue p s)))"

lemma handle_adapters_work:
  assumes "open_for_work s" and "\<forall>kv \<in> set kvs. map_option ba_name (es_adapters s (snd kv)) = Some (fst kv)"
    and h: "\<forall>kv \<in> set kvs. answering handle (snd kv) (fst kv) (f (fst kv))" and "distinct (map snd kvs)"
  shows "\<exists>s'. handle_adapters handle kvs s = (Ok (), s') \<and>
    after_work s (round_commands f kvs s) (round_rest f kvs s) s'"
  using assms
proof (induction kvs arbitrary: s)
  case Nil
  have "round_commands f [] s = []" "round_rest f [] s = (\<lambda>p. adapter_queue p s)"
    by (simp_all add: round_commands_def round_rest_def fun_eq_iff)
  then show ?case using after_work_refl [OF Nil.prems(1)] by (simp add: ret_def)
next
  case (Cons kv kvs)
  obtain n p where kv: "kv = (n, p)" by (cases kv)
  let ?q = "adapter_queue p s"
  have len: "queue_length p s = length ?q"
    by (simp add: queue_length_def adapter_queue_def split: option.split)
  obtain s1 where s1: "handle_adapter (Suc (queue_length p s)) handle p s = (Ok (), s1)"
    "after_work s (snd (answers (f n) ?q)) ((\<lambda>p. adapter_queue p s)(p := fst (answers (f n) ?q))) s1"
    using handle_adapter_work [of s p n handle "f n" "Suc (queue_length p s)"] Cons.prems(1-3) kv len by auto
  have o1: "open_for_work s1" "\<forall>kv \<in> set kvs. map_option ba_name (es_adapters s1 (snd kv)) = Some (fst kv)"
    using s1(2) Cons.prems(2) by (simp_all add: after_work_def)
  have other: "adapter_queue x s1 = adapter_queue x s" if "x \<noteq> p" for x using s1(2) that by (simp add: after_work_def)
  have p: "p \<notin> snd ` set kvs" using Cons.prems(4) kv by simp
  obtain s2 where s2: "handle_adapters handle kvs s1 = (Ok (), s2)"
    "after_work s1 (round_commands f kvs s1) (round_rest f kvs s1) s2"
    using Cons.IH [OF o1] Cons.prems(3,4) by auto
  have "round_commands f kvs s1 = round_commands f kvs s"
  proof -
    have "adapter_queue (snd x) s1 = adapter_queue (snd x) s" if "x \<in> set kvs" for x
      by (rule other) (use p that in auto)
    then show ?thesis by (simp add: round_commands_def cong: map_cong)
  qed
  moreover have "round_rest f kvs s1 = round_rest f (kv # kvs) s"
  proof
    fix x
    have "map_of (map prod.swap kvs) p = None" using p by (force simp: map_of_eq_None_iff)
    then show "round_rest f kvs s1 x = round_rest f (kv # kvs) s x"
      using s1(2) kv by (cases "x = p") (simp_all add: round_rest_def after_work_def split: option.split)
  qed
  moreover have "round_commands f (kv # kvs) s = snd (answers (f n) ?q) @ round_commands f kvs s"
    using kv by (simp add: round_commands_def)
  ultimately show ?case
    using s1(1) s2(1) after_work_trans [OF s1(2) s2(2)] kv by (simp add: andthen_def)
qed

text \<open>The heartbeat leaves everything else alone.\<close>

lemma beat_adapters_work:
  assumes "open_for_work s" and "\<forall>kv \<in> set kvs. es_adapters s (snd kv) \<noteq> None"
  shows "\<exists>bs s'. beat_adapters now kvs s = (Ok bs, s') \<and> after_work s [] (\<lambda>p. adapter_queue p s) s'"
  using assms
proof (induction kvs arbitrary: s)
  case Nil
  then show ?case using after_work_refl by (simp add: ret_def)
next
  case (Cons kv kvs)
  obtain a where a: "es_adapters s (snd kv) = Some a" using Cons.prems(2) by auto
  let ?s = "s\<lparr>es_adapters := (es_adapters s)(snd kv \<mapsto> a\<lparr>ba_iHeartBeatTime := now\<rparr>)\<rparr>"
  have "open_for_work ?s" using Cons.prems(1) a by (auto simp: open_for_work_def)
  then have beat: "after_work s [] (\<lambda>p. adapter_queue p s) ?s"
    using a by (auto simp: after_work_def commands_def thread_at_def adapter_queue_def)
  define s1 where "s1 = (if HEART_BEAT_INTERVAL < \<bar>now - ba_iHeartBeatTime a\<bar> then ?s else s)"
  have s1: "after_work s [] (\<lambda>p. adapter_queue p s) s1"
    using beat after_work_refl [OF Cons.prems(1)] by (simp add: s1_def)
  have same: "es_adapters s1 q = None \<longleftrightarrow> es_adapters s q = None" for q using a by (auto simp: s1_def)
  have "(\<lambda>p. adapter_queue p s1) = (\<lambda>p. adapter_queue p s)" using s1 by (simp add: after_work_def)
  then obtain bs s2 where s2: "beat_adapters now kvs s1 = (Ok bs, s2)" "after_work s1 [] (\<lambda>p. adapter_queue p s) s2"
    using Cons.IH [of s1] Cons.prems(2) s1 same by (auto simp: after_work_def)
  then show ?case
    using a after_work_trans [OF s1 s2(2)] by (auto simp: s1_def andthen_def ret_def split: if_splits)
qed

lemma handle_round_work:
  assumes s: "open_for_work s" and g: "es_groups s g = Some hg"
    and names: "\<forall>kv \<in> set (hg_adapters hg). map_option ba_name (es_adapters s (snd kv)) = Some (fst kv)"
    and h: "\<forall>kv \<in> set (hg_adapters hg). answering handle (snd kv) (fst kv) (f (fst kv))"
    and dist: "distinct (map snd (hg_adapters hg))"
  shows "\<exists>s'. handle_round handle (ServantHandle_heartbeat now) g s = (Ok (), s') \<and>
    after_work s (round_commands f (hg_adapters hg) s) (round_rest f (hg_adapters hg) s) s'"
proof -
  have "\<forall>kv \<in> set (hg_adapters hg). es_adapters s (snd kv) \<noteq> None" using names by fastforce
  then obtain bs s1 where s1: "beat_adapters now (hg_adapters hg) s = (Ok bs, s1)"
    "after_work s [] (\<lambda>p. adapter_queue p s) s1"
    using beat_adapters_work [OF s] by blast
  have q: "adapter_queue p s1 = adapter_queue p s" for p using s1(2) by (simp add: after_work_def)
  have same: "open_for_work s1" "es_groups s1 g = Some hg"
    "\<forall>kv \<in> set (hg_adapters hg). map_option ba_name (es_adapters s1 (snd kv)) = Some (fst kv)"
    using s1(2) g names by (simp_all add: after_work_def)
  have "round_commands f (hg_adapters hg) s1 = round_commands f (hg_adapters hg) s"
    "round_rest f (hg_adapters hg) s1 = round_rest f (hg_adapters hg) s"
    by (simp_all add: round_commands_def round_rest_def q fun_eq_iff split: option.split)
  then obtain s2 where "handle_adapters handle (hg_adapters hg) s1 = (Ok (), s2)"
    "after_work s1 (round_commands f (hg_adapters hg) s) (round_rest f (hg_adapters hg) s) s2"
    using handle_adapters_work [OF same(1,3) h dist] by auto
  then show ?thesis
    using after_work_trans [OF s1(2)] s1(1) g same(2)
    by (auto simp: handle_round_def ServantHandle_heartbeat_def andthen_def)
qed

text \<open>The handlers of \<open>ServantHandle\<close> answer by the servant of the adapter.\<close>

definition servant_answer ::
  "on_dispatch \<Rightarrow> servant_helper \<Rightarrow> (bytes \<times> servant) list \<Rightarrow> bytes \<Rightarrow> bytes \<Rightarrow> tars_exn + bytes" where
  "servant_answer onDispatch m servants n request =
     map_sum (\<lambda>e. e) snd (Servant_dispatch onDispatch (the (map_of servants (getAdapterServant n m))) request)"

lemma ServantHandle_answering:
  assumes "map_of servants (getAdapterServant n m) \<noteq> None"
  shows "answering (ServantHandle_handle onDispatch m servants) p n (servant_answer onDispatch m servants n)"
  using assms
  by (auto simp: answering_def ServantHandle_handle_def servant_answer_def sendResponse_eq split: sum.splits)

end
