(* ===== verification/Server_Wire.thy ===== *)
theory Server_Wire
  imports Server_Answers
begin

text \<open>
  Between the queues and the wire: \<open>processPipe\<close> writes the responses to their connections, and
  \<open>processNet\<close> turns what has arrived into a message; together with a round of a handler a request
  is answered on the connection it came from.
\<close>

section \<open>Responses\<close>

text \<open>
  What the kernel takes of a list of buffers, each with its descriptor: of every buffer as much as
  it accepts at once; nothing is tried again.
\<close>

fun transmitted :: "int set \<Rightarrow> send_answer list \<Rightarrow> (int \<times> bytes) list \<Rightarrow> (int \<times> bytes) list" where
  "transmitted op as [] = []"
| "transmitted op as ((fd, b) # r) =
     (if b = [] \<or> fd \<notin> op then (fd, []) # transmitted op as r
      else case as of
        Accepts k # as' \<Rightarrow> (fd, take k b) # transmitted op as' r
      | _ \<Rightarrow> (fd, []) # transmitted op (tl as) r)"

definition sent_to :: "int \<Rightarrow> (int \<times> bytes) list \<Rightarrow> bytes" where
  "sent_to fd l = concat (map snd (filter (\<lambda>x. fst x = fd) l))"

lemma sent_to_simps [simp]:
  "sent_to fd [] = []" "sent_to fd ((fd', b) # l) = (if fd' = fd then b else []) @ sent_to fd l"
  by (simp_all add: sent_to_def)

definition send_all :: "(int \<times> bytes) list \<Rightarrow> net \<Rightarrow> net" where
  "send_all l n = fold (\<lambda>x n. snd (tcpSend (fst x) (snd x) n)) l n"

lemma tcpSend_Ok: "\<exists>r. tcpSend fd b n = (Ok r, snd (tcpSend fd b n))"
  by (auto simp: tcpSend_def split: prod.splits)

lemma send_all_spec:
  "net_open (send_all l n) = net_open n \<and> net_arrivals (send_all l n) = net_arrivals n \<and>
   net_wire (send_all l n) fd = net_wire n fd @ sent_to fd (transmitted (set (net_open n)) (net_sends n) l)"
proof (induction l arbitrary: n)
  case Nil
  then show ?case by (simp add: send_all_def)
next
  case (Cons x l)
  obtain d b where x: "x = (d, b)" by (cases x)
  let ?n = "snd (tcpSend d b n)"
  have step: "send_all (x # l) n = send_all l ?n" by (simp add: send_all_def x)
  have one: "net_open ?n = net_open n \<and> net_arrivals ?n = net_arrivals n \<and>
    net_wire ?n fd @ sent_to fd (transmitted (set (net_open n)) (net_sends ?n) l) =
      net_wire n fd @ sent_to fd (transmitted (set (net_open n)) (net_sends n) (x # l))"
    by (auto simp: tcpSend_def k_send_def x split: list.split send_answer.split)
  show ?case using Cons.IH [of ?n] one by (simp add: step)
qed

text \<open>Where a command to send leads.\<close>

definition target :: "epoll_server \<Rightarrow> nat \<Rightarrow> send_data \<Rightarrow> int \<times> bytes" where
  "target s t d = (case nt_uid_connection (thread_at t s) (sd_uid d) of
     None \<Rightarrow> (- 1, sd_buffer d)
   | Some p \<Rightarrow> (case es_conns s p of None \<Rightarrow> - 1 | Some c \<Rightarrow> co_fd c, sd_buffer d))"

lemma conn_send_buffer_plain:
  assumes "co_sendbuffer c = []"
  shows "\<exists>r. conn_send_buffer i b False (c, n) = (Ok r, (c, snd (tcpSend (co_fd c) b n)))"
  using tcpSend_Ok [of "co_fd c" b n] assms
  by (auto simp: conn_send_buffer_def andthen_def split: prod.splits)

lemma send_command_eq:
  assumes p: "nt_uid_connection (thread_at t s) (sd_uid d) = Some p" and c: "es_conns s p = Some c" "co_sendbuffer c = []"
    and d: "sd_cmd d = CHR ''s''"
  shows "process_commands t (d # ds) s = process_commands t ds (s\<lparr>es_net := send_all [target s t d] (es_net s)\<rparr>)"
proof -
  obtain r where "conn_send_buffer (es_iov_max s) (sd_buffer d) False (c, es_net s) =
      (Ok r, (c, snd (tcpSend (co_fd c) (sd_buffer d) (es_net s))))"
    using conn_send_buffer_plain [OF c(2)] by blast
  then have "on_conn (Some p) (conn_send_buffer (es_iov_max s) (sd_buffer d) False) s =
      (Ok r, s\<lparr>es_net := send_all [target s t d] (es_net s)\<rparr>)"
    using p c(1) by (cases s) (simp add: on_conn_def fun_upd_idem send_all_def target_def)
  then show ?thesis
    using p d by (simp add: andthen_def conn_get_eq [OF c(1)] ret_def)
qed

lemma process_commands_eq:
  assumes inv: "server_inv s" and t: "t < length (es_netThreads s)"
    and ds: "\<forall>d \<in> set ds. command_ok (thread_at t s) d \<and> sd_cmd d = CHR ''s''"
  shows "process_commands t ds s = (Ok (), s\<lparr>es_net := send_all (map (target s t) ds) (es_net s)\<rparr>)"
proof -
  have conn: "\<exists>p c. nt_uid_connection (thread_at t s) (sd_uid d) = Some p \<and> es_conns s p = Some c \<and> co_sendbuffer c = []"
    if d: "d \<in> set ds" for d
  proof -
    obtain p where "nt_uid_connection (thread_at t s) (sd_uid d) = Some p" using ds d by (fastforce simp: command_ok_def)
    then show ?thesis using uid_conn [OF inv t] by metis
  qed
  have "process_commands t ds (s\<lparr>es_net := n\<rparr>) = (Ok (), s\<lparr>es_net := send_all (map (target s t) ds) n\<rparr>)" for n
    using ds conn
  proof (induction ds arbitrary: n)
    case Nil
    then show ?case by (simp add: ret_def send_all_def)
  next
    case (Cons d ds)
    let ?s = "s\<lparr>es_net := n\<rparr>"
    obtain p c where p: "nt_uid_connection (thread_at t s) (sd_uid d) = Some p" "es_conns s p = Some c" "co_sendbuffer c = []"
      using Cons.prems(2) by fastforce
    have same: "thread_at t ?s = thread_at t s" "target ?s t = target s t" by (simp_all add: thread_at_def target_def fun_eq_iff split: option.split)
    have "process_commands t (d # ds) ?s = process_commands t ds (?s\<lparr>es_net := send_all [target ?s t d] (es_net ?s)\<rparr>)"
      by (rule send_command_eq) (use p Cons.prems(1) in \<open>simp_all add: same\<close>)
    also have "\<dots> = process_commands t ds (s\<lparr>es_net := send_all [target s t d] n\<rparr>)" by (simp add: same)
    also have "\<dots> = (Ok (), s\<lparr>es_net := send_all (map (target s t) ds) (send_all [target s t d] n)\<rparr>)"
      by (rule Cons.IH) (use Cons.prems in auto)
    finally show ?case by (simp add: send_all_def)
  qed
  from this [of "es_net s"] show ?thesis by (cases s) simp
qed

lemma processPipe_work:
  assumes inv: "server_inv s" and t: "t < length (es_netThreads s)" and ds: "\<forall>d \<in> set (commands t s). sd_cmd d = CHR ''s''"
  shows "\<exists>s'. processPipe t s = (Ok (), s') \<and> commands t s' = [] \<and>
    es_net s' = send_all (map (target s t) (commands t s)) (es_net s) \<and>
    es_conns s' = es_conns s \<and> es_adapters s' = es_adapters s \<and> es_groups s' = es_groups s \<and>
    (\<forall>t' < length (es_netThreads s). t' \<noteq> t \<longrightarrow> thread_at t' s' = thread_at t' s)"
proof -
  let ?th = "thread_at t s"
  note ok = thread_okD(4,5) [OF server_invD(2) [OF inv t]]
  define q where "q = (if commands t s = [] then nt_sbuffer ?th else (nt_sbuffer ?th)\<lparr>tq_queue := [], tq_size := 0\<rparr>)"
  have swap: "tq_swap [] NoWait (\<lambda>q. (False, q)) (nt_sbuffer ?th) = ((commands t s \<noteq> [], commands t s), q)"
    "tq_inv q" "tq_queue q = []"
    using ok(1) by (simp_all add: q_def commands_def tq_swap_def tq_after_wait_def tq_inv_def)
  let ?s = "s\<lparr>es_netThreads := (es_netThreads s)[t := ?th\<lparr>nt_sbuffer := q\<rparr>]\<rparr>"
  have at: "thread_at t' ?s = (if t' = t then ?th\<lparr>nt_sbuffer := q\<rparr> else thread_at t' s)" for t'
    by (rule thread_at_update [OF t])
  have f: "fine 0 s ?s" by (rule thread_change [OF inv t]) (use swap in simp_all)
  have "process_commands t (commands t s) ?s =
      (Ok (), ?s\<lparr>es_net := send_all (map (target ?s t) (commands t s)) (es_net ?s)\<rparr>)"
    by (rule process_commands_eq [OF fineD(1) [OF f]])
      (use t ok(2) ds in \<open>auto simp: at command_ok_def commands_def\<close>)
  moreover have "target ?s t = target s t" by (simp add: target_def at fun_eq_iff split: option.split)
  ultimately have "processPipe t s = (Ok (), ?s\<lparr>es_net := send_all (map (target s t) (commands t s)) (es_net s)\<rparr>)"
    by (simp add: processPipe_def swap(1) andthen_def thread_update_def)
  moreover have "thread_at t' (?s\<lparr>es_net := n\<rparr>) = thread_at t' ?s" for t' n by (simp add: thread_at_def)
  ultimately show ?thesis using swap(3) at by (simp add: commands_def)
qed

section \<open>Requests\<close>

text \<open>What will still be read from a descriptor: what has arrived before its end.\<close>

fun before_end :: "read_answer list \<Rightarrow> bytes" where
  "before_end [] = []"
| "before_end (Arrived bs # r) = bs @ before_end r"
| "before_end (Closed # r) = []"

definition pending :: "net \<Rightarrow> int \<Rightarrow> bytes" where
  "pending n fd = before_end (net_arrivals n fd)"

lemma k_readv_pending:
  assumes "k_readv fd room n = ((Some bs, again), n')"
  shows "pending n fd = bs @ pending n' fd" and "x \<noteq> fd \<Longrightarrow> net_arrivals n' x = net_arrivals n x"
    and "net_sends n' = net_sends n" and "net_wire n' = net_wire n" and "net_open n' = net_open n"
  using assms
  by (auto simp: k_readv_def pending_def split: if_splits list.splits read_answer.splits)

lemma recv_loop_pending:
  assumes "recv_loop fd buf n = ((b, buf'), n')"
  shows "\<exists>bs. buf' = buf @ bs \<and> pending n fd = bs @ pending n' fd \<and> net_sends n' = net_sends n \<and>
    net_wire n' = net_wire n \<and> net_open n' = net_open n \<and> (\<forall>x. x \<noteq> fd \<longrightarrow> net_arrivals n' x = net_arrivals n x)"
  using assms
proof (induction fd buf n rule: recv_loop.induct)
  case (1 fd buf n)
  obtain r again n1 where k: "k_readv fd 32768 n = ((r, again), n1)" by (metis prod.exhaust)
  show ?case
  proof (cases r)
    case None
    then have "n1 = n" using k by (auto simp: k_readv_def split: if_splits list.splits read_answer.splits)
    then show ?thesis using 1(2) k None by (subst (asm) recv_loop.simps) auto
  next
    case (Some bs)
    note kp = k_readv_pending [OF k [unfolded Some]]
    show ?thesis
    proof (cases "bs = [] \<or> length bs < 32768")
      case True
      then show ?thesis using 1(2) k Some kp by (subst (asm) recv_loop.simps) (auto split: if_splits)
    next
      case False
      then have "recv_loop fd (buf @ bs) n1 = ((b, buf'), n')"
        using 1(2) k Some by (subst (asm) recv_loop.simps) auto
      then obtain cs where "buf' = (buf @ bs) @ cs \<and> pending n1 fd = cs @ pending n' fd \<and> net_sends n' = net_sends n1 \<and>
          net_wire n' = net_wire n1 \<and> net_open n' = net_open n1 \<and> (\<forall>x. x \<noteq> fd \<longrightarrow> net_arrivals n' x = net_arrivals n1 x)"
        using 1(1) [OF k [symmetric] refl Some] False by force
      then show ?thesis using kp by (intro exI [of _ "bs @ cs"]) auto
    qed
  qed
qed

text \<open>The message a connection makes of what it has collected.\<close>

definition request_of :: "server_conn \<Rightarrow> bytes \<Rightarrow> recv_data" where
  "request_of c b = \<lparr>rd_uid = co_uid c, rd_buffer = b, rd_ip = co_ip c, rd_port = co_port c,
     rd_recvTimeStamp = 0, rd_isOverload = False, rd_isClosed = False, rd_fd = co_fd c,
     rd_adapter = None, rd_closeType = None\<rparr>"

lemma conn_recv_spec:
  assumes "recv_loop (co_fd c) (co_recvbuffer c) n = ((b, buf), n')" and "co_lfd c \<noteq> - 1"
  shows "conn_recv (c, n) =
    (if \<not> b then (Ok (- 1, []), (c\<lparr>co_recvbuffer := buf\<rparr>, n'))
     else if buf = [] then (Ok (0, []), (c\<lparr>co_recvbuffer := []\<rparr>, n'))
     else (Ok (1, [request_of c buf]), (c\<lparr>co_recvbuffer := []\<rparr>, n')))"
  using assms by (cases b) (simp_all add: conn_recv_def request_of_def)

text \<open>A readable connection that is not at its end.\<close>

lemma processNet_intake:
  assumes inv: "server_inv s" and t: "t < length (es_netThreads s)"
    and p: "nt_uid_connection (thread_at t s) (ucast data) = Some cp" and c: "es_conns s cp = Some c"
    and ev: "event_has events EPOLLIN" "\<not> event_has events EPOLLERR" "\<not> event_has events EPOLLHUP"
    and r: "recv_loop (co_fd c) (co_recvbuffer c) (es_net s) = ((True, buf), n')"
    and a: "co_adapter c = Some p"
  shows "\<exists>s'. processNet t data events s = (Ok (), s') \<and> es_net s' = n' \<and>
    es_conns s' = (es_conns s)(cp \<mapsto> c\<lparr>co_recvbuffer := []\<rparr>) \<and> es_netThreads s' = es_netThreads s \<and>
    (\<forall>q. map_option ba_name (es_adapters s' q) = map_option ba_name (es_adapters s q)) \<and>
    (\<forall>g. map_option hg_adapters (es_groups s' g) = map_option hg_adapters (es_groups s g)) \<and>
    (\<forall>q. adapter_queue q s' = adapter_queue q s @ (if q = p \<and> buf \<noteq> [] then [request_of c buf] else []))"
proof -
  have cc: "co_lfd c \<noteq> - 1" "adapter_ok s (Some p)" "co_sendbuffer c = []"
    using uid_conn [OF inv t p] c a by auto
  let ?c = "c\<lparr>co_recvbuffer := []\<rparr>"
  let ?s1 = "s\<lparr>es_conns := (es_conns s)(cp \<mapsto> ?c), es_net := n'\<rparr>"
  have recv: "on_conn (Some cp) conn_recv s = (Ok (if buf = [] then (0, []) else (1, [request_of c buf])), ?s1)"
    using c conn_recv_spec [OF r cc(1)] by (auto simp: on_conn_def)
  obtain ad g hg where ad: "es_adapters s p = Some ad" "ba_handleGroup ad = Some g" "es_groups s g = Some hg"
    using cc(2) by (auto simp: adapter_ok_def)
  have q: "tq_inv (ba_rbuffer ad)" using server_invD(3) [OF inv] ad(1) by (simp add: adapters_ok_def)
  let ?s2 = "?s1\<lparr>es_adapters := (es_adapters s)(p \<mapsto> ad\<lparr>ba_rbuffer := tq_push_back_all [request_of c buf] (ba_rbuffer ad)\<rparr>),
    es_groups := (es_groups s)(g \<mapsto> hg\<lparr>hg_notified := hg_notified hg + 1\<rparr>)\<rparr>"
  define s2 where "s2 = (if buf = [] then ?s1 else ?s2)"
  have ins: "(if buf = [] then (Ok True, ?s1) else andthen (insertRecvQueue (co_adapter c) [request_of c buf] True) (\<lambda>_. ret True) ?s1) =
      (Ok True, s2)"
    using a ad by (simp add: insertRecvQueue_def group_notify_def andthen_def ret_def s2_def)
  have c2: "es_conns s2 cp = Some ?c" by (simp add: s2_def)
  have send: "on_conn (Some cp) (conn_send (es_iov_max s2)) s2 = (Ok 0, s2)"
    using c2 cc(3) by (cases s2) (simp add: on_conn_def conn_send_empty fun_upd_idem)
  have "processNet t data events s = (Ok (), s2)"
    using ev ins recv send
    by (cases "buf = []") (simp_all add: processNet_def p Let_def andthen_def conn_get_eq [OF c] ret_def)
  moreover have "adapter_queue x s2 = adapter_queue x s @ (if x = p \<and> buf \<noteq> [] then [request_of c buf] else [])" for x
    using ad(1) tq_push_back_spec [OF q] by (simp add: s2_def adapter_queue_def)
  ultimately show ?thesis using ad by (auto simp: s2_def)
qed

section \<open>A request and its answer\<close>

lemma concat_single:
  assumes "distinct xs" and "x \<in> set xs" and "\<And>y. y \<in> set xs \<Longrightarrow> y \<noteq> x \<Longrightarrow> F y = []"
  shows "concat (map F xs) = F x"
  using assms
proof (induction xs)
  case (Cons y ys)
  show ?case
  proof (cases "y = x")
    case True
    then have "concat (map F ys) = []" using Cons.prems by auto
    then show ?thesis using True by simp
  next
    case False
    then show ?thesis using Cons by simp
  qed
qed simp

lemma one_request:
  assumes "distinct (map snd kvs)" and "(n, p) \<in> set kvs" and "\<And>kv. kv \<in> set kvs \<Longrightarrow> snd kv \<noteq> p \<Longrightarrow> adapter_queue (snd kv) s = []"
  shows "round_commands f kvs s = snd (answers (f n) (adapter_queue p s))"
proof -
  have "kv = (n, p)" if "kv \<in> set kvs" "snd kv = p" for kv
    using assms(1,2) that by (auto simp: distinct_map inj_on_def)
  then have other: "snd (answers (f (fst kv)) (adapter_queue (snd kv) s)) = []" if "kv \<in> set kvs" "kv \<noteq> (n, p)" for kv
    using assms(3) [OF that(1)] that by (metis answers.simps(1) snd_conv)
  have "distinct kvs" using assms(1) by (simp add: distinct_map)
  from concat_single [OF this assms(2) other] show ?thesis by (simp add: round_commands_def)
qed

text \<open>The event of connection \<open>uid\<close>, and that of the descriptor the thread is notified by.\<close>

definition data_arrives :: "nat \<Rightarrow> 32 word \<Rightarrow> server_event" where
  "data_arrives t uid = NetEvent t (ucast uid) EPOLLIN"

definition notified :: "nat \<Rightarrow> server_event" where
  "notified t = NetEvent t (H64 ET_NOTIFY) EPOLLOUT"

lemma arrives_step: "server_step handle heartbeat (data_arrives t uid) = processNet t (ucast uid) EPOLLIN"
proof -
  have "drop_bit 32 (ucast uid :: 64 word) = 0"
    by (rule bit_word_eqI) (simp add: bit_simps, use bit_imp_le_length in fastforce)
  then show ?thesis by (simp add: data_arrives_def net_event_def ET_LISTEN_def ET_CLOSE_def ET_NOTIFY_def ET_NET_def fun_eq_iff)
qed

lemma notified_step: "server_step handle heartbeat (notified t) = processPipe t"
  by (simp add: notified_def net_event_def H64_def ET_LISTEN_def ET_CLOSE_def ET_NOTIFY_def fun_eq_iff)

lemma ucast_back: "ucast (ucast (u :: 32 word) :: 64 word) = u"
  by (rule bit_word_eqI) (simp add: bit_simps)

text \<open>A client that waits: its connection is open and a whole request can be read.\<close>

definition client_waits :: "epoll_server \<Rightarrow> nat \<Rightarrow> 32 word \<Rightarrow> server_conn \<Rightarrow> nat \<Rightarrow> bytes \<Rightarrow> bool" where
  "client_waits s t uid c p req \<longleftrightarrow> t < length (es_netThreads s) \<and> req \<noteq> [] \<and> co_adapter c = Some p \<and>
     (\<exists>cp. nt_uid_connection (thread_at t s) uid = Some cp \<and> es_conns s cp = Some c) \<and>
     co_fd c \<in> set (net_open (es_net s)) \<and>
     (\<exists>n'. recv_loop (co_fd c) (co_recvbuffer c) (es_net s) = ((True, req), n'))"

text \<open>The group \<open>g\<close> serves adapter \<open>p\<close>, with nothing else to do.\<close>

definition group_idle :: "epoll_server \<Rightarrow> nat \<Rightarrow> bytes \<Rightarrow> nat \<Rightarrow> bool" where
  "group_idle s g n p \<longleftrightarrow> (\<exists>hg. es_groups s g = Some hg \<and> named_in s hg \<and> distinct (map snd (hg_adapters hg)) \<and>
     (n, p) \<in> set (hg_adapters hg) \<and> (\<forall>kv \<in> set (hg_adapters hg). adapter_queue (snd kv) s = []))"

lemma request_arrives:
  assumes inv: "server_inv s" and w: "client_waits s t uid c p req" and idle: "group_idle s g n p"
  shows "\<exists>s1 cp hg. processNet t (ucast uid) EPOLLIN s = (Ok (), s1) \<and> fine 1 s s1 \<and>
    es_netThreads s1 = es_netThreads s \<and> nt_uid_connection (thread_at t s) uid = Some cp \<and>
    es_conns s1 cp = Some (c\<lparr>co_recvbuffer := []\<rparr>) \<and> es_groups s1 g = Some hg \<and> named_in s1 hg \<and>
    distinct (map snd (hg_adapters hg)) \<and> (n, p) \<in> set (hg_adapters hg) \<and> adapter_queue p s1 = [request_of c req] \<and>
    (\<forall>kv \<in> set (hg_adapters hg). snd kv \<noteq> p \<longrightarrow> adapter_queue (snd kv) s1 = []) \<and>
    net_sends (es_net s1) = net_sends (es_net s) \<and> net_wire (es_net s1) = net_wire (es_net s) \<and>
    net_open (es_net s1) = net_open (es_net s)"
proof -
  obtain cp n' where t: "t < length (es_netThreads s)" and req: "req \<noteq> []" and p: "co_adapter c = Some p"
    and cp: "nt_uid_connection (thread_at t s) uid = Some cp" "es_conns s cp = Some c"
    and r: "recv_loop (co_fd c) (co_recvbuffer c) (es_net s) = ((True, req), n')"
    using w by (auto simp: client_waits_def)
  obtain hg where hg: "es_groups s g = Some hg" "named_in s hg" "distinct (map snd (hg_adapters hg))" "(n, p) \<in> set (hg_adapters hg)"
    "\<forall>kv \<in> set (hg_adapters hg). adapter_queue (snd kv) s = []"
    using idle by (auto simp: group_idle_def)
  have ev: "event_has EPOLLIN EPOLLIN" "\<not> event_has EPOLLIN EPOLLERR" "\<not> event_has EPOLLIN EPOLLHUP"
    by (simp_all add: event_has_def EPOLLIN_def EPOLLERR_def EPOLLHUP_def)
  have cpd: "nt_uid_connection (thread_at t s) (ucast (ucast uid :: 64 word)) = Some cp" using cp(1) by (simp add: ucast_back)
  obtain s1 where s1: "processNet t (ucast uid) EPOLLIN s = (Ok (), s1)" "es_net s1 = n'"
    "es_conns s1 = (es_conns s)(cp \<mapsto> c\<lparr>co_recvbuffer := []\<rparr>)" "es_netThreads s1 = es_netThreads s"
    "\<forall>q. map_option ba_name (es_adapters s1 q) = map_option ba_name (es_adapters s q)"
    "\<forall>g. map_option hg_adapters (es_groups s1 g) = map_option hg_adapters (es_groups s g)"
    "\<forall>q. adapter_queue q s1 = adapter_queue q s @ (if q = p \<and> req \<noteq> [] then [request_of c req] else [])"
    using processNet_intake [OF inv t cpd cp(2) ev r p] by blast
  have "safe (processNet t (ucast uid) EPOLLIN) s (\<lambda>_. fine 1 s)" by (rule processNet_safe [OF inv t cpd]) simp
  then have f: "fine 1 s s1" using s1(1) by (simp add: safe_def)
  obtain hg1 where hg1: "es_groups s1 g = Some hg1" "hg_adapters hg1 = hg_adapters hg"
    using s1(6) [rule_format, of g] hg(1) by (cases "es_groups s1 g") auto
  have "named_in s1 hg1" using hg(2) s1(5) by (simp add: named_in_def hg1(2))
  moreover have "adapter_queue p s1 = [request_of c req]" using hg(4,5) s1(7) req by fastforce
  moreover have "\<forall>kv \<in> set (hg_adapters hg1). snd kv \<noteq> p \<longrightarrow> adapter_queue (snd kv) s1 = []"
    using hg(5) s1(7) by (simp add: hg1(2))
  ultimately show ?thesis
    using s1(1-4) f cp(1) hg1 hg(3,4) recv_loop_pending [OF r] by auto
qed

lemma round_answers:
  assumes inv: "server_inv s" and small: "backlog s < size_max" and run: "\<forall>th \<in> set (es_netThreads s). \<not> nt_bTerminate th"
    and sv: "all_served (served m servants) s"
    and g: "es_groups s g = Some hg" "named_in s hg" "distinct (map snd (hg_adapters hg))"
  shows "\<exists>s'. handle_round (ServantHandle_handle onDispatch m (servants g)) (ServantHandle_heartbeat now) g s = (Ok (), s') \<and>
    fine 0 s s' \<and> after_work s (round_commands (servant_answer onDispatch m (servants g)) (hg_adapters hg) s)
      (round_rest (servant_answer onDispatch m (servants g)) (hg_adapters hg) s) s'"
proof -
  let ?f = "servant_answer onDispatch m (servants g)" and ?kvs = "hg_adapters hg"
  have names: "\<forall>kv \<in> set ?kvs. map_option ba_name (es_adapters s (snd kv)) = Some (fst kv)"
    using g(2) by (simp add: named_in_def)
  have "served m servants g (fst kv)" if kv: "kv \<in> set ?kvs" for kv
  proof -
    obtain a where "es_adapters s (snd kv) = Some a" "ba_name a = fst kv" using names kv by fastforce
    then show ?thesis using sv g(1) kv unfolding all_served_def by metis
  qed
  then have "\<forall>kv \<in> set ?kvs. answering (ServantHandle_handle onDispatch m (servants g)) (snd kv) (fst kv) (?f (fst kv))"
    by (simp add: served_def ServantHandle_answering)
  from handle_round_work [OF server_inv_open [OF inv small run] g(1) names this g(3)] obtain s' where
    s': "handle_round (ServantHandle_handle onDispatch m (servants g)) (ServantHandle_heartbeat now) g s = (Ok (), s')"
    "after_work s (round_commands ?f ?kvs s) (round_rest ?f ?kvs s) s'"
    by blast
  moreover have "safe (handle_round (ServantHandle_handle onDispatch m (servants g)) (ServantHandle_heartbeat now) g) s (\<lambda>_. fine 0 s)"
    by (rule servants.handle_round_safe [OF inv small sv]) (use g(1) in auto)
  ultimately show ?thesis by (simp add: safe_def)
qed

lemma one_rest:
  assumes "distinct (map snd kvs)" and "(n, p) \<in> set kvs" and "\<forall>kv \<in> set kvs. snd kv \<noteq> p \<longrightarrow> adapter_queue (snd kv) s = []"
    and "fst (answers (f n) (adapter_queue p s)) = []"
  shows "round_rest f kvs s = (\<lambda>x. if x = p then [] else adapter_queue x s)"
proof
  fix x
  show "round_rest f kvs s x = (if x = p then [] else adapter_queue x s)"
  proof (cases "x = p")
    case True
    have "map fst (map prod.swap kvs) = map snd kvs" by simp
    then have "map_of (map prod.swap kvs) p = Some n"
      using assms(1,2) by (intro map_of_is_SomeI) (force simp: comp_def)+
    then show ?thesis using True assms(4) by (simp add: round_rest_def)
  next
    case False
    have "adapter_queue x s = []" if "map_of (map prod.swap kvs) x = Some i" for i
    proof -
      have "(x, i) \<in> set (map prod.swap kvs)" using that by (rule map_of_SomeD)
      then show ?thesis using assms(3) False by auto
    qed
    then show ?thesis using False by (auto simp: round_rest_def split: option.split)
  qed
qed

lemma request_handled:
  assumes inv: "server_inv s" and small: "backlog s < size_max" and run: "\<forall>th \<in> set (es_netThreads s). \<not> nt_bTerminate th"
    and sv: "all_served (served m servants) s"
    and g: "es_groups s g = Some hg" "named_in s hg" "distinct (map snd (hg_adapters hg))" "(n, p) \<in> set (hg_adapters hg)"
    and q: "adapter_queue p s = [d]" "\<forall>kv \<in> set (hg_adapters hg). snd kv \<noteq> p \<longrightarrow> adapter_queue (snd kv) s = []"
    and d: "\<not> rd_isClosed d" "servant_answer onDispatch m (servants g) n (rd_buffer d) = Inr b"
  shows "\<exists>s'. handle_round (ServantHandle_handle onDispatch m (servants g)) (ServantHandle_heartbeat now) g s = (Ok (), s') \<and>
    fine 0 s s' \<and> after_work s [(rd_fd d, response d b)] (\<lambda>x. if x = p then [] else adapter_queue x s) s'"
proof -
  let ?f = "servant_answer onDispatch m (servants g)" and ?kvs = "hg_adapters hg"
  have "round_commands ?f ?kvs s = [(rd_fd d, response d b)]"
    using one_request [OF g(3,4)] q d by simp
  moreover have "round_rest ?f ?kvs s = (\<lambda>x. if x = p then [] else adapter_queue x s)"
    by (rule one_rest [OF g(3,4) q(2)]) (use q(1) d in simp)
  ultimately show ?thesis using round_answers [OF inv small run sv g(1-3), of onDispatch now] by simp
qed

lemma request_is_answered:
  assumes inv: "server_inv s" and small: "backlog s + 1 < size_max" and run: "\<forall>th \<in> set (es_netThreads s). \<not> nt_bTerminate th"
    and sv: "all_served (served m servants) s"
    and w: "client_waits s t uid c p req" and idle: "group_idle s g n p" and none: "commands t s = []"
    and b: "servant_answer onDispatch m (servants g) n req = Inr b"
    and k: "net_sends (es_net s) = Accepts k # as" "length b \<le> k"
  shows "\<exists>s'. server_run (\<lambda>g. ServantHandle_handle onDispatch m (servants g)) ServantHandle_heartbeat
      [data_arrives t uid, HandleRound g now, notified t] s = (Ok (), s') \<and>
    net_wire (es_net s') (co_fd c) = net_wire (es_net s) (co_fd c) @ b \<and>
    (\<forall>fd. fd \<noteq> co_fd c \<longrightarrow> net_wire (es_net s') fd = net_wire (es_net s) fd) \<and>
    adapter_queue p s' = [] \<and> commands t s' = []"
proof -
  have t: "t < length (es_netThreads s)" and fd: "co_fd c \<in> set (net_open (es_net s))" using w by (auto simp: client_waits_def)
  obtain s1 cp hg where s1: "processNet t (ucast uid) EPOLLIN s = (Ok (), s1)" "fine 1 s s1"
    "es_netThreads s1 = es_netThreads s" "nt_uid_connection (thread_at t s) uid = Some cp"
    "es_conns s1 cp = Some (c\<lparr>co_recvbuffer := []\<rparr>)"
    and g: "es_groups s1 g = Some hg" "named_in s1 hg" "distinct (map snd (hg_adapters hg))" "(n, p) \<in> set (hg_adapters hg)"
    and q: "adapter_queue p s1 = [request_of c req]"
      "\<forall>kv \<in> set (hg_adapters hg). snd kv \<noteq> p \<longrightarrow> adapter_queue (snd kv) s1 = []"
    and net: "net_sends (es_net s1) = net_sends (es_net s)" "net_wire (es_net s1) = net_wire (es_net s)"
      "net_open (es_net s1) = net_open (es_net s)"
    using request_arrives [OF inv w idle] by blast
  let ?d = "request_of c req"
  have at: "thread_at t s1 = thread_at t s" by (simp add: thread_at_def s1(3))
  have c_uid: "co_uid c = uid" and c_t: "getNetThreadOfFd (co_fd c) s1 = Some t"
  proof -
    obtain c' where "es_conns s1 cp = Some c'" "co_uid c' = uid" "co_fd c' \<noteq> - 1 \<Longrightarrow> getNetThreadOfFd (co_fd c') s1 = Some t"
      using uid_conn [OF fineD(1) [OF s1(2)], of t uid cp] t s1(3,4) at by metis
    moreover have "co_fd c \<noteq> - 1" using fd server_invD(6) [OF inv] by auto
    ultimately show "co_uid c = uid" "getNetThreadOfFd (co_fd c) s1 = Some t" using s1(5) by auto
  qed
  have "backlog s1 < size_max" using fineD(3) [OF s1(2)] small by simp
  then obtain s2 where s2: "handle_round (ServantHandle_handle onDispatch m (servants g)) (ServantHandle_heartbeat now) g s1 = (Ok (), s2)"
    "fine 0 s1 s2" "after_work s1 [(rd_fd ?d, response ?d b)] (\<lambda>x. if x = p then [] else adapter_queue x s1) s2"
    using request_handled [OF fineD(1) [OF s1(2)] _ _ all_served_later [OF sv fineD(2) [OF s1(2)]] g q, of onDispatch b now] run b s1(3)
    by (auto simp: request_of_def)
  have t2: "t < length (es_netThreads s2)" using t s1(3) laterD(1) [OF fineD(2) [OF s2(2)]] by simp
  have cs: "commands t s2 = [response ?d b]"
    using s2(3) t s1(3) none c_t at by (simp add: after_work_def commands_def request_of_def)
  obtain s3 where s3: "processPipe t s2 = (Ok (), s3)" "commands t s3 = []"
    "es_net s3 = send_all (map (target s2 t) (commands t s2)) (es_net s2)" "es_adapters s3 = es_adapters s2"
    using processPipe_work [OF fineD(1) [OF s2(2)] t2] cs by (auto simp: response_def)
  have same: "es_net s2 = es_net s1" "es_conns s2 = es_conns s1" "nt_uid_connection (thread_at t s2) = nt_uid_connection (thread_at t s1)"
    using s2(3) t s1(3) by (simp_all add: after_work_def)
  have "target s2 t (response ?d b) = (co_fd c, b)"
    using s1(4,5) same at c_uid by (simp add: target_def response_def request_of_def)
  then have wire: "net_wire (es_net s3) x = net_wire (es_net s) x @ (if x = co_fd c then b else [])" for x
    using send_all_spec [of "[(co_fd c, b)]" "es_net s1" x] s3(3) cs same net k fd by simp
  have "server_run (\<lambda>g. ServantHandle_handle onDispatch m (servants g)) ServantHandle_heartbeat
      [data_arrives t uid, HandleRound g now, notified t] s = (Ok (), s3)"
    using s1(1) s2(1) s3(1) by (simp add: arrives_step notified_step andthen_def ret_def)
  moreover have "adapter_queue p s3 = []" using s2(3) s3(4) by (simp add: after_work_def adapter_queue_def)
  ultimately show ?thesis using wire s3(2) by simp
qed

end
