(* ===== verification/Server_Limits.thy ===== *)
theory Server_Limits
  imports Server_Wire
begin

text \<open>
  The parts of the server on their own: slices that wait to be sent, heartbeats and reports; and
  where the server loses data or fails: what \<open>::send\<close> does not take, a request that ends with its
  connection, the numbers of connections.
\<close>

section \<open>Slices\<close>

definition slice_ok :: "tc_slice \<Rightarrow> bool" where
  "slice_ok sl \<longleftrightarrow> 0 < sl_dataLen sl \<and> sl_dataLen sl \<le> length (sl_data sl)"

lemma slices_bytes_Cons [simp]: "slices_bytes (sl # ss) = slice_bytes sl @ slices_bytes ss"
  by (simp add: slices_bytes_def)

lemma slices_bytes_Nil [simp]: "slices_bytes [] = []"
  by (simp add: slices_bytes_def)

lemma slices_bytes_append: "slices_bytes (ss @ ss') = slices_bytes ss @ slices_bytes ss'"
  by (simp add: slices_bytes_def)

lemma slice_bytes_length: "slice_ok sl \<Longrightarrow> length (slice_bytes sl) = sl_dataLen sl"
  by (simp add: slice_ok_def slice_bytes_def)

lemma slices_bytes_length: "\<forall>sl \<in> set ss. slice_ok sl \<Longrightarrow> length (slices_bytes ss) = sum_list (map sl_dataLen ss)"
  by (induction ss) (simp_all add: slice_bytes_length)

lemma slice_skip_spec:
  "slice_ok sl \<Longrightarrow> k < sl_dataLen sl \<Longrightarrow> slice_ok (slice_skip k sl) \<and> slice_bytes (slice_skip k sl) = drop k (slice_bytes sl)"
  by (simp add: slice_ok_def slice_skip_def slice_bytes_def take_drop)

lemma slices_after_spec:
  assumes "\<forall>sl \<in> set ss. slice_ok sl"
  shows "\<exists>ss'. slices_after k ss = Ok ss' \<and> (\<forall>sl \<in> set ss'. slice_ok sl) \<and> slices_bytes ss' = drop k (slices_bytes ss)"
  using assms
proof (induction k ss rule: slices_after.induct)
  case (2 k sl ss)
  then have ok: "slice_ok sl" by simp
  then have pos: "0 < sl_dataLen sl" by (simp add: slice_ok_def)
  show ?case
  proof (cases "sl_dataLen sl \<le> k")
    case True
    then show ?thesis using 2 pos slice_bytes_length [OF ok] by auto
  next
    case False
    then show ?thesis using 2(2) pos slice_skip_spec [OF ok, of k] slice_bytes_length [OF ok] by auto
  qed
qed simp

section \<open>Sending what waits\<close>

lemma tcpWriteV_spec:
  assumes "length bs \<le> kIOVecCount i" and small: "length (concat bs) < 2147483648"
  shows "\<exists>r n'. tcpWriteV i fd bs n = (Ok r, n') \<and> - 1 \<le> r \<and> r \<le> int (length (concat bs)) \<and>
    net_wire n' fd = net_wire n fd @ take (nat r) (concat bs)"
proof -
  obtain r again n' where k: "k_send fd (concat bs) n = ((r, again), n')" by (metis prod.exhaust)
  note ks = k_send_spec [OF k]
  have le: "nat r \<le> length (concat bs)" if "\<not> r < 0" using ks that by simp
  then have "to_int (nat r) = r" if "\<not> r < 0" using that small by (subst to_int_small) auto
  then show ?thesis using assms(1) ks k le by (auto simp: tcpWriteV_def Let_def)
qed

lemma send_slices_step:
  assumes "(ss = []) = False" and "vecs = take (min (length ss) (kIOVecCount i)) ss"
    and "(\<exists>sl \<in> set vecs. sl_dataLen sl = 0) = False"
  shows "send_slices i fd sent ss = andthen (tcpWriteV i fd (map slice_bytes vecs)) (\<lambda>bytes.
          if bytes = - 1 then ret (- 1)
          else if bytes = 0 then ret (to_int sent)
          else if bytes = to_int (sum_list (map sl_dataLen vecs))
          then send_slices i fd (sent + nat bytes) (drop (min (length ss) (kIOVecCount i)) ss)
          else if \<not> 0 < bytes then (\<lambda>n. (Abort, n))
          else ret (to_int (sent + nat bytes)))"
  by (subst send_slices.simps) (use assms(3) in \<open>simp only: assms(1,2) Let_def if_False\<close>)

text \<open>The result is what was sent, \<open>-1\<close> when the connection is broken.\<close>

lemma send_slices_spec:
  assumes "\<forall>sl \<in> set ss. slice_ok sl" and "sent + length (slices_bytes ss) < 2147483648"
  shows "\<exists>r n'. send_slices i fd sent ss n = (Ok r, n') \<and>
    (r = - 1 \<or> int sent \<le> r \<and> nat r - sent \<le> length (slices_bytes ss) \<and>
      net_wire n' fd = net_wire n fd @ take (nat r - sent) (slices_bytes ss))"
  using assms
proof (induction i fd sent ss arbitrary: n rule: send_slices.induct)
  case (1 i fd sent ss)
  let ?vc = "min (length ss) (kIOVecCount i)"
  let ?vecs = "take ?vc ss"
  let ?bs = "map slice_bytes ?vecs"
  show ?case
  proof (cases "ss = []")
    case True
    then show ?thesis using 1(3) by (subst send_slices.simps) (simp add: ret_def to_int_small)
  next
    case False
    have vok: "\<forall>sl \<in> set ?vecs. slice_ok sl" using 1(2) by (meson in_set_takeD)
    have concat: "concat ?bs = slices_bytes ?vecs" by (simp add: slices_bytes_def)
    have split: "slices_bytes ss = slices_bytes ?vecs @ slices_bytes (drop ?vc ss)"
      by (metis slices_bytes_append append_take_drop_id)
    have small: "length (concat ?bs) < 2147483648" using 1(3) split concat by simp
    obtain b n1 where w: "tcpWriteV i fd ?bs n = (Ok b, n1)" "- 1 \<le> b" "b \<le> int (length (concat ?bs))"
      "net_wire n1 fd = net_wire n fd @ take (nat b) (concat ?bs)"
      using tcpWriteV_spec [of ?bs i fd n] small by auto
    have expect: "to_int (sum_list (map sl_dataLen ?vecs)) = int (length (concat ?bs))"
      using slices_bytes_length [OF vok] small concat by (simp add: to_int_small)
    have pos: "\<not> (\<exists>sl \<in> set ?vecs. sl_dataLen sl = 0)" using vok by (auto simp: slice_ok_def)
    have step: "send_slices i fd sent ss n = (if b = - 1 then ret (- 1)
          else if b = 0 then ret (to_int sent)
          else if b = int (length (concat ?bs)) then send_slices i fd (sent + nat b) (drop ?vc ss)
          else if \<not> 0 < b then (\<lambda>n. (Abort, n))
          else ret (to_int (sent + nat b))) n1"
    proof -
      have "(ss = []) = False" "(\<exists>sl \<in> set ?vecs. sl_dataLen sl = 0) = False" using False pos by simp_all
      note eq = send_slices_step [OF this(1) refl this(2), of fd sent]
      show ?thesis unfolding eq by (subst andthen_Ok [of "tcpWriteV i fd ?bs" n b n1]) (simp_all only: w(1) expect)
    qed
    have sent: "to_int sent = int sent" using 1(3) by (simp add: to_int_small)
    consider "b = - 1" | "b = 0" | "0 < b" "b = int (length (concat ?bs))" | "0 < b" "b \<noteq> int (length (concat ?bs))"
      using w(2) by linarith
    then show ?thesis
    proof cases
      case 1
      then show ?thesis using step by (simp add: ret_def)
    next
      case 2
      then show ?thesis using step w(4) sent by (simp add: ret_def)
    next
      case 3
      have dok: "\<forall>sl \<in> set (drop ?vc ss). slice_ok sl" using \<open>\<forall>sl \<in> set ss. slice_ok sl\<close> by (meson in_set_dropD)
      have bl: "nat b = length (slices_bytes ?vecs)" using 3(2) concat by simp
      have "sent + nat b + length (slices_bytes (drop ?vc ss)) < 2147483648"
        using \<open>sent + length (slices_bytes ss) < 2147483648\<close> split bl by simp
      from "1.IH" [OF False refl refl refl pos _ _ _ dok this, of n1] 3 expect
      obtain r n' where r: "send_slices i fd (sent + nat b) (drop ?vc ss) n1 = (Ok r, n')"
        "r = - 1 \<or> int (sent + nat b) \<le> r \<and> nat r - (sent + nat b) \<le> length (slices_bytes (drop ?vc ss)) \<and>
          net_wire n' fd = net_wire n1 fd @ take (nat r - (sent + nat b)) (slices_bytes (drop ?vc ss))"
        by auto
      have ne: "b \<noteq> - 1" "b \<noteq> 0" using 3(1) by linarith+
      have run: "send_slices i fd sent ss n = (Ok r, n')"
        unfolding step if_not_P [OF ne(1)] if_not_P [OF ne(2)] if_P [OF 3(2)] by (rule r(1))
      have "net_wire n' fd = net_wire n fd @ take (nat r - sent) (slices_bytes ss) \<and> nat r - sent \<le> length (slices_bytes ss) \<and> int sent \<le> r"
        if "r \<noteq> - 1"
      proof -
        have le: "int (sent + nat b) \<le> r" "nat r - (sent + nat b) \<le> length (slices_bytes (drop ?vc ss))"
          "net_wire n' fd = net_wire n1 fd @ take (nat r - (sent + nat b)) (slices_bytes (drop ?vc ss))"
          using r(2) that by auto
        have "sent + nat b \<le> nat r" using le(1) by linarith
        then have "length (slices_bytes ?vecs) \<le> nat r - sent" using bl by linarith
        then have "take (nat r - sent) (slices_bytes ss) =
            slices_bytes ?vecs @ take (nat r - (sent + nat b)) (slices_bytes (drop ?vc ss))"
          unfolding split using bl by simp
        moreover have "net_wire n1 fd = net_wire n fd @ slices_bytes ?vecs" using w(4) 3(2) concat by simp
        moreover have "nat r - sent \<le> length (slices_bytes ss)" unfolding split length_append using le(2) bl by linarith
        moreover have "int sent \<le> r" using le(1) by linarith
        ultimately show ?thesis using le(3) by simp
      qed
      then show ?thesis using run by auto
    next
      case 4
      have "nat b \<le> length (slices_bytes ?vecs)" using w(3) concat by simp
      then have b: "nat b \<le> length (slices_bytes ss)" "take (nat b) (slices_bytes ss) = take (nat b) (slices_bytes ?vecs)"
        using split by simp_all
      then have "to_int (sent + nat b) = int (sent + nat b)"
        using \<open>sent + length (slices_bytes ss) < 2147483648\<close> by (simp add: to_int_small)
      moreover have "nat (int sent + b) - sent = nat b" using 4(1) by linarith
      ultimately show ?thesis using step 4 w(4) b concat by (simp add: ret_def)
    qed
  qed
qed

text \<open>
  An event \<open>EPOLLOUT\<close> takes what went out off the slices; more than 8 KB that is left is dropped.
\<close>

lemma conn_send_spec:
  assumes ok: "\<forall>sl \<in> set (co_sendbuffer c). slice_ok sl" and small: "length (slices_bytes (co_sendbuffer c)) < 2147483648"
  shows "\<exists>r c' n'. conn_send i (c, n) = (Ok r, (c', n')) \<and> (\<forall>sl \<in> set (co_sendbuffer c'). slice_ok sl) \<and>
    (r = - 1 \<and> c' = c \<or>
     (r = - 2 \<and> co_sendbuffer c' = [] \<or> r = 0 \<and> length (slices_bytes (co_sendbuffer c')) < 8192 \<and>
        net_wire n' (co_fd c) @ slices_bytes (co_sendbuffer c') = net_wire n (co_fd c) @ slices_bytes (co_sendbuffer c)))"
proof (cases "co_sendbuffer c = []")
  case True
  then show ?thesis by (simp add: conn_send_def)
next
  case False
  let ?ss = "co_sendbuffer c"
  obtain b n' where s: "send_slices i (co_fd c) 0 ?ss n = (Ok b, n')" "b = - 1 \<or> 0 \<le> b \<and> nat b \<le> length (slices_bytes ?ss) \<and>
      net_wire n' (co_fd c) = net_wire n (co_fd c) @ take (nat b) (slices_bytes ?ss)"
    using send_slices_spec [of ?ss 0 i "co_fd c" n] ok small by auto
  show ?thesis
  proof (cases "b = - 1")
    case True
    then show ?thesis using False s(1) ok by (simp add: conn_send_def conn_send_buffer_def andthen_def)
  next
    case b: False
    then have w: "0 \<le> b" "nat b \<le> length (slices_bytes ?ss)"
      "net_wire n' (co_fd c) = net_wire n (co_fd c) @ take (nat b) (slices_bytes ?ss)"
      using s(2) by auto
    then have nb: "nat (b mod int size_max) = nat b" using small by (subst mod_pos_pos_trivial) auto
    obtain ss' where a: "slices_after (nat b) ?ss = Ok ss'" "\<forall>sl \<in> set ss'. slice_ok sl"
      "slices_bytes ss' = drop (nat b) (slices_bytes ?ss)"
      using slices_after_spec [OF ok] by blast
    let ?c = "c\<lparr>co_sendbuffer := ss'\<rparr>"
    have adj: "adjustSlices (nat (b mod int size_max)) c = (Ok (), ?c)" unfolding nb by (simp add: adjustSlices_def a(1))
    have sum: "sum_list (map sl_dataLen ss') mod size_max = length (slices_bytes ss')"
      using slices_bytes_length [OF a(2)] a(3) small by simp
    obtain rest where clear: "slices_after (size_max - 1) ss' = Ok rest" "slices_bytes rest = drop (size_max - 1) (slices_bytes ss')"
      "\<forall>sl \<in> set rest. slice_ok sl"
      using slices_after_spec [OF a(2)] by blast
    have "slices_bytes rest = []" using clear(2) a(3) small by simp
    then have none: "rest = []" using clear(3) slice_bytes_length by (cases rest) (auto simp: slice_ok_def slice_bytes_def)
    have wire: "net_wire n' (co_fd c) @ slices_bytes ss' = net_wire n (co_fd c) @ slices_bytes ?ss"
      using w(3) a(3) by simp
    have "conn_send i (c, n) = (if 8192 \<le> length (slices_bytes ss') then (Ok (- 2), (?c\<lparr>co_sendbuffer := []\<rparr>, n'))
        else if co_bClose c \<and> ss' = [] then (Ok (- 2), (?c, n')) else (Ok 0, (?c, n')))"
      using False s(1) b adj sum clear(1) none
      by (simp add: conn_send_def conn_send_buffer_def andthen_def clearSlices_def adjustSlices_def)
    then show ?thesis using wire a(2) by auto
  qed
qed

section \<open>Heartbeats\<close>

definition beat_time :: "nat \<Rightarrow> epoll_server \<Rightarrow> int option" where
  "beat_time p s = map_option ba_iHeartBeatTime (es_adapters s p)"

text \<open>The adapters that are due are reported and get the time; one that is not stays as it is.\<close>

lemma beat_adapters_spec:
  assumes "distinct (map snd kvs)" and "\<forall>kv \<in> set kvs. map_option ba_name (es_adapters s (snd kv)) = Some (fst kv)"
  shows "\<exists>s'. beat_adapters now kvs s = (Ok (map fst (filter (\<lambda>kv. 10 < \<bar>now - the (beat_time (snd kv) s)\<bar>) kvs)), s') \<and>
    es_groups s' = es_groups s \<and> (\<forall>p. map_option ba_name (es_adapters s' p) = map_option ba_name (es_adapters s p)) \<and>
    (\<forall>p. beat_time p s' = (if p \<in> snd ` set kvs \<and> 10 < \<bar>now - the (beat_time p s)\<bar> then Some now else beat_time p s))"
  using assms
proof (induction kvs arbitrary: s)
  case Nil
  then show ?case by (simp add: ret_def)
next
  case (Cons kv kvs)
  obtain a where a: "es_adapters s (snd kv) = Some a" "ba_name a = fst kv" using Cons.prems(2) by auto
  let ?due = "10 < \<bar>now - ba_iHeartBeatTime a\<bar>"
  define s1 where "s1 = (if ?due then s\<lparr>es_adapters := (es_adapters s)(snd kv \<mapsto> a\<lparr>ba_iHeartBeatTime := now\<rparr>)\<rparr> else s)"
  have s1: "es_groups s1 = es_groups s" "\<And>p. map_option ba_name (es_adapters s1 p) = map_option ba_name (es_adapters s p)"
    "\<And>p. beat_time p s1 = (if p = snd kv \<and> ?due then Some now else beat_time p s)"
    using a by (auto simp: s1_def beat_time_def)
  have other: "beat_time (snd x) s1 = beat_time (snd x) s" if x: "x \<in> set kvs" for x
  proof -
    have "snd x \<in> snd ` set kvs" using x by (rule imageI)
    moreover have "snd kv \<notin> snd ` set kvs" using Cons.prems(1) by simp
    ultimately have "snd x \<noteq> snd kv" by metis
    then show ?thesis using s1(3) by simp
  qed
  have "filter (\<lambda>kv. 10 < \<bar>now - the (beat_time (snd kv) s1)\<bar>) kvs = filter (\<lambda>kv. 10 < \<bar>now - the (beat_time (snd kv) s)\<bar>) kvs"
    using other by (intro filter_cong) simp_all
  then obtain s2 where s2: "beat_adapters now kvs s1 = (Ok (map fst (filter (\<lambda>kv. 10 < \<bar>now - the (beat_time (snd kv) s)\<bar>) kvs)), s2)"
    "es_groups s2 = es_groups s1" "\<forall>p. map_option ba_name (es_adapters s2 p) = map_option ba_name (es_adapters s1 p)"
    "\<forall>p. beat_time p s2 = (if p \<in> snd ` set kvs \<and> 10 < \<bar>now - the (beat_time p s1)\<bar> then Some now else beat_time p s1)"
    using Cons.IH [of s1] Cons.prems s1(2) by auto
  have due: "the (beat_time (snd kv) s) = ba_iHeartBeatTime a" using a by (simp add: beat_time_def)
  have "beat_adapters now (kv # kvs) s =
      (Ok (map fst (filter (\<lambda>kv. 10 < \<bar>now - the (beat_time (snd kv) s)\<bar>) (kv # kvs))), s2)"
    using a s2(1) due by (auto simp: andthen_def ret_def HEART_BEAT_INTERVAL_def s1_def split: if_splits)
  moreover have "beat_time p s2 = (if p \<in> snd ` set (kv # kvs) \<and> 10 < \<bar>now - the (beat_time p s)\<bar> then Some now else beat_time p s)" for p
    using s2(4) s1(3) due by auto
  ultimately show ?case using s2(2,3) s1(1,2) by auto
qed

lemma heartbeat_spec:
  assumes "es_groups s g = Some hg" and "named_in s hg" and "distinct (map snd (hg_adapters hg))"
  shows "\<exists>s'. ServantHandle_heartbeat now g s =
      (Ok (map fst (filter (\<lambda>kv. 10 < \<bar>now - the (beat_time (snd kv) s)\<bar>) (hg_adapters hg))), s') \<and>
    es_groups s' g = Some hg \<and> named_in s' hg \<and>
    (\<forall>p. beat_time p s' = (if p \<in> snd ` set (hg_adapters hg) \<and> 10 < \<bar>now - the (beat_time p s)\<bar> then Some now else beat_time p s))"
proof -
  have names: "\<forall>kv \<in> set (hg_adapters hg). map_option ba_name (es_adapters s (snd kv)) = Some (fst kv)"
    using assms(2) by (simp add: named_in_def)
  obtain s' where s': "beat_adapters now (hg_adapters hg) s =
      (Ok (map fst (filter (\<lambda>kv. 10 < \<bar>now - the (beat_time (snd kv) s)\<bar>) (hg_adapters hg))), s')" "es_groups s' = es_groups s"
    "\<forall>p. map_option ba_name (es_adapters s' p) = map_option ba_name (es_adapters s p)"
    "\<forall>p. beat_time p s' = (if p \<in> snd ` set (hg_adapters hg) \<and> 10 < \<bar>now - the (beat_time p s)\<bar> then Some now else beat_time p s)"
    using beat_adapters_spec [OF assms(3) names, of now] by blast
  have "named_in s' hg" using assms(2) s'(3) by (simp add: named_in_def)
  then show ?thesis using s' assms(1) by (simp add: ServantHandle_heartbeat_def)
qed

text \<open>Two rounds within ten seconds report an adapter once.\<close>

lemma heartbeat_again:
  assumes g: "es_groups s g = Some hg" "named_in s hg" "distinct (map snd (hg_adapters hg))"
    and keys: "distinct (map fst (hg_adapters hg))"
    and first: "ServantHandle_heartbeat now g s = (Ok names, s1)" and soon: "now \<le> later_on" "later_on \<le> now + 10"
    and second: "ServantHandle_heartbeat later_on g s1 = (Ok names', s2)"
  shows "set names \<inter> set names' = {}"
proof -
  obtain s' where s': "ServantHandle_heartbeat now g s =
      (Ok (map fst (filter (\<lambda>kv. 10 < \<bar>now - the (beat_time (snd kv) s)\<bar>) (hg_adapters hg))), s')"
    "es_groups s' g = Some hg" "named_in s' hg"
    "\<forall>p. beat_time p s' = (if p \<in> snd ` set (hg_adapters hg) \<and> 10 < \<bar>now - the (beat_time p s)\<bar> then Some now else beat_time p s)"
    using heartbeat_spec [OF g, of now] by blast
  then have eq: "s' = s1" "names = map fst (filter (\<lambda>kv. 10 < \<bar>now - the (beat_time (snd kv) s)\<bar>) (hg_adapters hg))"
    using first by simp_all
  obtain s'' where "ServantHandle_heartbeat later_on g s1 =
      (Ok (map fst (filter (\<lambda>kv. 10 < \<bar>later_on - the (beat_time (snd kv) s1)\<bar>) (hg_adapters hg))), s'')"
    using heartbeat_spec [of s1 g hg later_on] s'(2,3) g(3) eq(1) by blast
  then have names': "names' = map fst (filter (\<lambda>kv. 10 < \<bar>later_on - the (beat_time (snd kv) s1)\<bar>) (hg_adapters hg))"
    using second by simp
  have "n \<notin> set names'" if n: "n \<in> set names" for n
  proof
    assume "n \<in> set names'"
    then obtain kv where kv: "kv \<in> set (hg_adapters hg)" "fst kv = n" "10 < \<bar>later_on - the (beat_time (snd kv) s1)\<bar>"
      using names' by auto
    obtain kv' where kv': "kv' \<in> set (hg_adapters hg)" "fst kv' = n" "10 < \<bar>now - the (beat_time (snd kv') s)\<bar>"
      using n eq(2) by auto
    have "kv = kv'" using keys kv(1,2) kv'(1,2) by (metis eq_key_imp_eq_value prod.collapse)
    then have "beat_time (snd kv) s1 = Some now" using s'(4) kv(1) kv'(3) eq(1) by auto
    then show False using kv(3) soon by simp
  qed
  then show ?thesis by blast
qed

section \<open>Reports\<close>

lemma insort_insert_spec: "distinct xs \<Longrightarrow> sorted xs \<Longrightarrow> distinct (insort_insert x xs) \<and> sorted (insort_insert x xs) \<and>
    set (insort_insert x xs) = insert x (set xs)"
  by (simp add: distinct_insort_insert sorted_insort_insert set_insort_insert)

text \<open>The adapters that were reported before the administration's are sent with it.\<close>

lemma keepAlive_spec:
  assumes "nh_nodePrx h" and "AdminAdapter \<notin> set names" and "distinct (nh_adapterSet h)" and "sorted (nh_adapterSet h)"
  shows "\<exists>sent. fold keepAlive (names @ [AdminAdapter]) h = h\<lparr>nh_adapterSet := [], nh_sent := nh_sent h @ sent\<rparr> \<and>
    distinct sent \<and> sorted sent \<and> set sent = set (nh_adapterSet h) \<union> set names \<union> {AdminAdapter}"
  using assms
proof (induction names arbitrary: h)
  case Nil
  then show ?case
    using insort_insert_spec [OF Nil.prems(3,4), of AdminAdapter] by (auto simp: keepAlive_def Let_def)
next
  case (Cons n names)
  let ?h = "h\<lparr>nh_adapterSet := insort_insert n (nh_adapterSet h)\<rparr>"
  have step: "keepAlive n h = ?h" using Cons.prems(1,2) by (auto simp: keepAlive_def Let_def)
  have ok: "distinct (nh_adapterSet ?h)" "sorted (nh_adapterSet ?h)" "set (nh_adapterSet ?h) = insert n (set (nh_adapterSet h))"
    using insort_insert_spec [OF Cons.prems(3,4), of n] by simp_all
  obtain sent where "fold keepAlive (names @ [AdminAdapter]) ?h = ?h\<lparr>nh_adapterSet := [], nh_sent := nh_sent ?h @ sent\<rparr>"
    "distinct sent" "sorted sent" "set sent = set (nh_adapterSet ?h) \<union> set names \<union> {AdminAdapter}"
    using Cons.IH [of ?h] Cons.prems(1,2) ok(1,2) by auto
  then show ?case using step ok(3) by auto
qed

section \<open>Losses\<close>

text \<open>What the kernel does not take of a response is neither sent nor kept.\<close>

lemma rest_is_dropped:
  assumes "co_sendbuffer c = []" and "co_fd c \<in> set (net_open n)" and "net_sends n = Accepts k # as" and "b \<noteq> []"
    and "length b < 2147483648"
  shows "\<exists>r n'. conn_send_buffer i b False (c, n) = (Ok r, (c, n')) \<and> (co_bClose c \<or> r = 0) \<and>
    net_wire n' (co_fd c) = net_wire n (co_fd c) @ take k b \<and> co_sendbuffer c = []"
proof -
  have "tcpSend (co_fd c) b n = (Ok (to_int (min k (length b))),
      n\<lparr>net_sends := as, net_wire := (net_wire n)(co_fd c := net_wire n (co_fd c) @ take k b)\<rparr>)"
    using assms by (simp add: tcpSend_def k_send_def)
  moreover have "to_int (min k (length b)) = int (min k (length b))" using assms(5) by (intro to_int_small) simp
  ultimately show ?thesis using assms(1) by (simp add: conn_send_buffer_def andthen_def)
qed

text \<open>A full block that is followed by the end of the connection never becomes a message.\<close>

lemma full_block_then_close:
  assumes "net_arrivals n (co_fd c) = [Arrived b, Closed]" and "length b = 32768" and "co_fd c \<in> set (net_open n)"
  shows "fst (conn_recv (c, n)) = Ok (- 1, [])"
proof -
  have k: "k_readv (co_fd c) 32768 n = ((Some b, False), n\<lparr>net_arrivals := (net_arrivals n)(co_fd c := [Closed])\<rparr>)"
    using assms by (simp add: k_readv_def)
  have b: "b \<noteq> []" using assms(2) by auto
  have "recv_loop (co_fd c) (co_recvbuffer c) n =
      ((False, co_recvbuffer c @ b), n\<lparr>net_arrivals := (net_arrivals n)(co_fd c := [Closed])\<rparr>)"
    by (subst recv_loop.simps) (simp add: k b assms(2,3), subst recv_loop.simps, simp add: k_readv_def assms(3))
  then show ?thesis by (simp add: conn_recv_def)
qed

section \<open>Numbers of connections\<close>

text \<open>The numbers handed out do not come back, and without a number a connection cannot be taken.\<close>

lemma accept_without_number:
  assumes inv: "server_inv s" and t: "t < length (es_netThreads s)" and l: "map_of (nt_listeners (thread_at t s)) lfd = Some ad"
    and a: "es_accepts s lfd = Accepted cs ip port as # r" "0 < cs" "cs \<notin> set (net_open (es_net s))"
    and none: "getNetThreadOfFd cs s = Some t'" "nt_free (thread_at t' s) = []"
  shows "fst (nt_accept t lfd s) = Fault"
proof -
  define s1 where "s1 = s\<lparr>es_accepts := (es_accepts s)(lfd := r), es_net := (es_net s)\<lparr>net_open := cs # net_open (es_net s),
      net_arrivals := (net_arrivals (es_net s))(cs := as), net_wire := (net_wire (es_net s))(cs := [])\<rparr>\<rparr>"
  have k: "k_accept lfd s = (Ok (Accepted cs ip port as), s1)"
    using a by (simp add: k_accept_def s1_def Let_def)
  have at: "thread_at x s1 = thread_at x s" for x by (simp add: s1_def thread_at_def)
  define c where "c = \<lparr>co_adapter = ad, co_fd = cs, co_uid = 0, co_lfd = lfd, co_ip = ip, co_bClose = False,
      co_port = port, co_recvbuffer = [], co_sendbuffer = []\<rparr>"
  let ?p = "es_conn_next s1"
  let ?s2 = "s1\<lparr>es_conns := (es_conns s1)(?p \<mapsto> c), es_conn_next := ?p + 1\<rparr>"
  have "getNetThreadOfFd cs ?s2 = getNetThreadOfFd cs s" by (rule thread_of_length) (simp add: s1_def)
  moreover have "nt_free (thread_at t' ?s2) = []" using none(2) by (simp add: s1_def thread_at_def)
  ultimately have "addConnection ?p cs ?s2 = (Fault, ?s2)"
    using none(1) by (simp add: addConnection_def addTcpConnection_def)
  moreover have "nt_accept t lfd s = andthen (addConnection ?p cs) (\<lambda>_. ret True) ?s2"
    unfolding nt_accept_def
    by (subst andthen_Ok [of "k_accept lfd" s "Accepted cs ip port as" s1])
      (use k l a(2) in \<open>simp_all add: andthen_def listener_at_def at Connection_init_def conn_new_def c_def\<close>)
  ultimately show ?thesis by (simp add: andthen_def)
qed

end
