(* ===== verification/Coro_Rounds.thy ===== *)
theory Coro_Rounds
  imports Coro_Scheduler
begin

text \<open>
  What the scheduler does, in terms of five lists of coroutine ids, one for every status:
  \<open>coro_lists\<close> says that the array, the objects and the rings of a scheduler hold these lists, and
  every operation is shown to keep it and to move ids between the lists.
\<close>

section \<open>The lists behind the objects\<close>

definition slot :: "coro_array \<Rightarrow> 32 word \<Rightarrow> coro_ptr" where
  "slot arr i =
     (case arr of Array ps \<Rightarrow> if unat i < length ps then ps ! unat i else NullCoro | _ \<Rightarrow> NullCoro)"

text \<open>An object without its links and its status.\<close>

definition coro_data ::
  "'p coro_heap \<Rightarrow> coro_ptr \<Rightarrow> (32 word \<times> stack_context \<times> 'p option) option" where
  "coro_data h p = map_option (\<lambda>c. (ci_uid c, ci_stack_ctx c, ci_ctx_to c)) (h p)"

definition coro_lists ::
  "coro_array \<Rightarrow> 32 word \<Rightarrow> 32 word \<Rightarrow> nat \<Rightarrow> 'p coro_heap \<Rightarrow> (CORO_STATUS \<Rightarrow> 32 word list) \<Rightarrow> bool" where
  "coro_lists arr pool uniq fresh h L \<longleftrightarrow>
     (\<exists>ps. arr = Array ps \<and> length ps = Suc (unat pool)) \<and>
     coro_rings h (\<lambda>st. map (slot arr) (L st)) \<and>
     (\<forall>st. \<forall>i \<in> set (L st). 0 < i \<and> i \<le> uniq \<and> (\<exists>ctx k. coro_data h (slot arr i) = Some (i, ctx, k))) \<and>
     (\<forall>i. slot arr i \<noteq> NullCoro \<longrightarrow> (\<exists>st. i \<in> set (L st))) \<and>
     (\<forall>n. h (Coro n) \<noteq> None \<longrightarrow> n < fresh) \<and>
     h MainCoro \<noteq> None"

abbreviation lists_at :: "'p scheduler \<Rightarrow> (CORO_STATUS \<Rightarrow> 32 word list) \<Rightarrow> bool" where
  "lists_at s \<equiv> coro_lists (cs_all_coro s) (cs_poolSize s) (cs_uniqId s) (cs_fresh s) (cs_heap s)"

definition mv :: "CORO_STATUS \<Rightarrow> CORO_STATUS \<Rightarrow> 32 word \<Rightarrow> (CORO_STATUS \<Rightarrow> 32 word list)
    \<Rightarrow> (CORO_STATUS \<Rightarrow> 32 word list)" where
  "mv st st' i L = L(st := remove1 i (L st), st' := L st' @ [i])"

lemma coro_listsD:
  assumes "coro_lists arr pool uniq fresh h L"
  shows "\<exists>ps. arr = Array ps \<and> length ps = Suc (unat pool)"
    and "coro_rings h (\<lambda>st. map (slot arr) (L st))"
    and "i \<in> set (L st) \<Longrightarrow> 0 < i" and "i \<in> set (L st) \<Longrightarrow> i \<le> uniq"
    and "i \<in> set (L st) \<Longrightarrow> \<exists>ctx k. coro_data h (slot arr i) = Some (i, ctx, k)"
    and "slot arr i \<noteq> NullCoro \<Longrightarrow> \<exists>st. i \<in> set (L st)"
    and "h (Coro n) \<noteq> None \<Longrightarrow> n < fresh" and "h MainCoro \<noteq> None"
proof -
  note parts = assms [unfolded coro_lists_def]
  show "\<exists>ps. arr = Array ps \<and> length ps = Suc (unat pool)" using parts by (elim conjE)
  show "coro_rings h (\<lambda>st. map (slot arr) (L st))" using parts by (elim conjE)
  have members: "\<forall>st. \<forall>i \<in> set (L st). 0 < i \<and> i \<le> uniq \<and> (\<exists>ctx k. coro_data h (slot arr i) = Some (i, ctx, k))"
    using parts by (elim conjE)
  show "0 < i" "i \<le> uniq" "\<exists>ctx k. coro_data h (slot arr i) = Some (i, ctx, k)" if "i \<in> set (L st)"
    using members that by blast+
  have slots: "\<forall>i. slot arr i \<noteq> NullCoro \<longrightarrow> (\<exists>st. i \<in> set (L st))" using parts by (elim conjE)
  show "\<exists>st. i \<in> set (L st)" if "slot arr i \<noteq> NullCoro" using slots that by blast
  have objects: "\<forall>n. h (Coro n) \<noteq> None \<longrightarrow> n < fresh" using parts by (elim conjE)
  show "n < fresh" if "h (Coro n) \<noteq> None" using objects that by blast
  show "h MainCoro \<noteq> None" using parts by (elim conjE)
qed

lemma slot_inj:
  assumes "coro_lists arr pool uniq fresh h L" and "i \<in> set (L st)" and "j \<in> set (L st')"
    and "slot arr i = slot arr j"
  shows "i = j"
proof -
  obtain c k where "coro_data h (slot arr i) = Some (i, c, k)"
    using coro_listsD(5) [OF assms(1,2)] by (elim exE) (rule that)
  moreover obtain c' k' where "coro_data h (slot arr j) = Some (j, c', k')"
    using coro_listsD(5) [OF assms(1,3)] by (elim exE) (rule that)
  ultimately have "Some (i, c, k) = Some (j, c', k')" unfolding assms(4) by (rule trans [OF sym])
  then show ?thesis by simp
qed

lemma lists_apart:
  assumes "coro_lists arr pool uniq fresh h L" and "i \<in> set (L st)" and "i \<in> set (L st')"
  shows "st = st'"
  using coro_rings_apart [OF coro_listsD(2) [OF assms(1)], of "slot arr i" st st'] assms(2,3) by simp

lemma lists_distinct:
  assumes "coro_lists arr pool uniq fresh h L"
  shows "distinct (L st)"
  using coro_ringsD(2) [OF coro_listsD(2) [OF assms], of st] by (simp add: distinct_map)

lemma map_remove1_inj:
  "inj_on f (insert a (set xs)) \<Longrightarrow> map f (remove1 a xs) = remove1 (f a) (map f xs)"
  by (induction xs) (auto simp: inj_on_def)

lemma map_slot_remove1:
  assumes "coro_lists arr pool uniq fresh h L" and "i \<in> set (L st)"
  shows "map (slot arr) (remove1 i (L st)) = remove1 (slot arr i) (map (slot arr) (L st))"
  by (rule map_remove1_inj) (use slot_inj [OF assms(1)] assms(2) in \<open>auto intro!: inj_onI\<close>)

lemma coro_data_unlinked:
  "coro_data h p = map_option (\<lambda>c. (ci_uid c, ci_stack_ctx c, ci_ctx_to c)) (unlinked h p)"
  by (simp add: coro_data_def unlinked_def option.map_comp comp_def)

lemma coro_data_status:
  assumes "unlinked h' = (unlinked h)(c := map_option (\<lambda>i. i\<lparr>ci_eStatus := st\<rparr>) (unlinked h c))"
  shows "coro_data h' = coro_data h"
  by (rule ext) (simp add: coro_data_unlinked assms option.map_comp comp_def)

lemma coro_data_none: "coro_data h p = None \<longleftrightarrow> h p = None"
  by (simp add: coro_data_def)

lemma coro_data_some: "coro_data h p = coro_data h' p \<Longrightarrow> (h p = None) = (h' p = None)"
  by (metis coro_data_none)

text \<open>A coroutine changes its status.\<close>

lemma lists_mv_member: "i \<in> set (mv st st' j L s) \<Longrightarrow> j \<in> set (L st) \<Longrightarrow> \<exists>s. i \<in> set (L s)"
  using set_remove1_subset [of j "L st"] by (auto simp: mv_def split: if_splits)

lemma lists_relink:
  assumes lists: "coro_lists arr pool uniq fresh h L" and i: "i \<in> set (L st)" and ne: "st' \<noteq> st"
  shows "\<exists>h'. relink (slot arr i) st' h = (Ok (), h') \<and>
    coro_lists arr pool uniq fresh h' (mv st st' i L) \<and> coro_data h' = coro_data h"
proof -
  let ?M = "\<lambda>st. map (slot arr) (L st)"
  obtain h' where h': "relink (slot arr i) st' h = (Ok (), h')"
    and r: "coro_rings h' (?M(st := remove1 (slot arr i) (?M st), st' := ?M st' @ [slot arr i]))"
    and u: "unlinked h' = (unlinked h)(slot arr i := map_option (\<lambda>c. c\<lparr>ci_eStatus := st'\<rparr>) (unlinked h (slot arr i)))"
    using coro_rings_relink [OF coro_listsD(2) [OF lists] _ ne, of "slot arr i"] i by auto
  have data: "coro_data h' = coro_data h" by (rule coro_data_status [OF u])
  have M: "(\<lambda>s. map (slot arr) (mv st st' i L s)) =
      ?M(st := remove1 (slot arr i) (?M st), st' := ?M st' @ [slot arr i])"
    using map_slot_remove1 [OF lists i] by (simp add: mv_def fun_eq_iff)
  have none: "h' p = None \<longleftrightarrow> h p = None" for p using coro_data_none data by metis
  have mem: "(\<exists>s. j \<in> set (mv st st' i L s)) \<longleftrightarrow> (\<exists>s. j \<in> set (L s))" for j
  proof
    assume "\<exists>s. j \<in> set (mv st st' i L s)"
    then show "\<exists>s. j \<in> set (L s)" using lists_mv_member i by blast
  next
    assume "\<exists>s. j \<in> set (L s)"
    then obtain s where s: "j \<in> set (L s)" ..
    show "\<exists>s. j \<in> set (mv st st' i L s)"
    proof (cases "j = i")
      case True
      then have "j \<in> set (mv st st' i L st')" by (simp add: mv_def)
      then show ?thesis ..
    next
      case False
      then have "j \<in> set (mv st st' i L s)" using s by (auto simp: mv_def)
      then show ?thesis ..
    qed
  qed
  have "coro_lists arr pool uniq fresh h' (mv st st' i L)"
    unfolding coro_lists_def M data none
    using r mem lists unfolding coro_lists_def by metis
  then show ?thesis using h' data by blast
qed

section \<open>The invariant\<close>

definition coro_point :: "'p scheduler \<Rightarrow> 32 word \<Rightarrow> 'p option" where
  "coro_point s i = (case coro_data (cs_heap s) (slot (cs_all_coro s) i) of
     None \<Rightarrow> None | Some (_, _, k) \<Rightarrow> k)"

definition coro_stack :: "'p scheduler \<Rightarrow> 32 word \<Rightarrow> stack_context option" where
  "coro_stack s i = map_option (\<lambda>(_, ctx, _). ctx) (coro_data (cs_heap s) (slot (cs_all_coro s) i))"

definition known :: "(CORO_STATUS \<Rightarrow> 32 word list) \<Rightarrow> 32 word \<Rightarrow> bool" where
  "known L i \<longleftrightarrow> (\<exists>st. i \<in> set (L st))"

text \<open>How many coroutines are not free.\<close>

definition in_use :: "(CORO_STATUS \<Rightarrow> 32 word list) \<Rightarrow> nat" where
  "in_use L = length (L CORO_ACTIVE) + length (L CORO_AVAIL) + length (L CORO_INACTIVE) + length (L CORO_TIMEOUT)"

definition sizes_at :: "'p scheduler \<Rightarrow> (CORO_STATUS \<Rightarrow> 32 word list) \<Rightarrow> bool" where
  "sizes_at s L \<longleftrightarrow> unat (cs_usedSize s) = in_use L \<and>
     unat (cs_currentSize s) = length (L CORO_FREE) + in_use L \<and>
     cs_uniqId s = cs_currentSize s \<and> cs_currentSize s \<le> cs_poolSize s"

text \<open>
  Every id that waits to be woken belongs to a coroutine, and every sleeping coroutine has a timer.
\<close>

definition queues_at :: "'p scheduler \<Rightarrow> (CORO_STATUS \<Rightarrow> 32 word list) \<Rightarrow> bool" where
  "queues_at s L \<longleftrightarrow> tq_inv (cs_activeCoroQueue s) \<and> tq_small (cs_activeCoroQueue s) \<and>
     (\<forall>i \<in> set (tq_queue (cs_activeCoroQueue s)) \<union> set (cs_needActiveCoroId s) \<union> snd ` set (cs_timeoutCoroId s).
        known L i) \<and>
     sorted (map fst (cs_timeoutCoroId s)) \<and>
     set (L CORO_TIMEOUT) \<subseteq> snd ` set (cs_timeoutCoroId s)"

text \<open>Every coroutine that is not free can be resumed.\<close>

definition ready_at :: "'p scheduler \<Rightarrow> (CORO_STATUS \<Rightarrow> 32 word list) \<Rightarrow> bool" where
  "ready_at s L \<longleftrightarrow> (\<forall>st i. st \<noteq> CORO_FREE \<longrightarrow> i \<in> set (L st) \<longrightarrow> coro_point s i \<noteq> None)"

text \<open>
  The coroutines' stacks are the mappings that exist, and there is memory for every stack still to
  come.
\<close>

definition stack_at :: "nat \<Rightarrow> nat \<Rightarrow> stack_context" where
  "stack_at sz l = \<lparr>sc_size = sz, sc_sp = l + sz\<rparr>"

definition memory_at :: "'p scheduler \<Rightarrow> (CORO_STATUS \<Rightarrow> 32 word list) \<Rightarrow> bool" where
  "memory_at s L \<longleftrightarrow>
     stack_size_ok (cs_stackSize s) (cs_alloc s) \<and> answers_ok (cs_alloc s) \<and>
     (\<forall>k \<ge> mm_calls (cs_alloc s). mm_answers (cs_alloc s) k \<noteq> None) \<and>
     (\<forall>i. known L i \<longrightarrow> (\<exists>l. 0 < l \<and> l < 2 ^ 47 \<and>
        coro_stack s i = Some (stack_at (mapped_size (cs_stackSize s) (cs_alloc s)) l))) \<and>
     (\<forall>x \<in> set (mm_maps (cs_alloc s)). \<exists>i l. known L i \<and>
        x = (l, mapped_size (cs_stackSize s) (cs_alloc s)) \<and>
        coro_stack s i = Some (stack_at (mapped_size (cs_stackSize s) (cs_alloc s)) l))"

definition sched_inv :: "'p scheduler \<Rightarrow> (CORO_STATUS \<Rightarrow> 32 word list) \<Rightarrow> bool" where
  "sched_inv s L \<longleftrightarrow> lists_at s L \<and> sizes_at s L \<and> queues_at s L \<and> ready_at s L \<and> memory_at s L"

lemma sched_invD:
  assumes "sched_inv s L"
  shows "lists_at s L" and "sizes_at s L" and "queues_at s L" and "ready_at s L" and "memory_at s L"
  using assms by (simp_all add: sched_inv_def)

section \<open>Moves between the lists\<close>

text \<open>\<open>i\<close> goes behind the list of \<open>to\<close> if it is in a list of \<open>from\<close>.\<close>

definition mvs :: "CORO_STATUS set \<Rightarrow> CORO_STATUS \<Rightarrow> 32 word \<Rightarrow> (CORO_STATUS \<Rightarrow> 32 word list)
    \<Rightarrow> (CORO_STATUS \<Rightarrow> 32 word list)" where
  "mvs from to i L st =
     (if st = to then if \<exists>s \<in> from. i \<in> set (L s) then L to @ [i] else L to
      else if st \<in> from then remove1 i (L st) else L st)"

lemma mvs_in:
  assumes "coro_lists arr pool uniq fresh h L" and "i \<in> set (L st)" and "st \<in> from" and "to \<notin> from"
  shows "mvs from to i L = mv st to i L"
proof
  fix s
  have "remove1 i (L s) = L s" if "s \<noteq> st"
    using lists_apart [OF assms(1,2), of s] that by (intro remove1_idem) blast
  then show "mvs from to i L s = mv st to i L s"
    using assms(2-4) by (auto simp: mvs_def mv_def)
qed

lemma mvs_out:
  assumes "\<And>st. st \<in> from \<Longrightarrow> i \<notin> set (L st)"
  shows "mvs from to i L = L"
  using assms by (auto simp: mvs_def fun_eq_iff remove1_idem)

lemma known_mvs:
  assumes "to \<notin> from"
  shows "known (mvs from to i L) j \<longleftrightarrow> known L j"
proof
  assume "known (mvs from to i L) j"
  then obtain st where "j \<in> set (mvs from to i L st)" by (auto simp: known_def)
  then show "known L j"
    using set_remove1_subset [of i "L st"] by (auto simp: known_def mvs_def split: if_splits)
next
  assume "known L j"
  then obtain st where st: "j \<in> set (L st)" by (auto simp: known_def)
  show "known (mvs from to i L) j"
  proof (cases "j = i \<and> st \<in> from")
    case True
    then have "j \<in> set (mvs from to i L to)" using st by (auto simp: mvs_def)
    then show ?thesis by (auto simp: known_def)
  next
    case False
    then have "j \<in> set (mvs from to i L st)" using st assms by (auto simp: mvs_def)
    then show ?thesis by (auto simp: known_def)
  qed
qed

lemma known_fold_mvs: "to \<notin> from \<Longrightarrow> known (fold (mvs from to) is' L) j \<longleftrightarrow> known L j"
  by (induction is' arbitrary: L) (simp_all add: known_mvs)

lemma mvs_other: "st \<noteq> to \<Longrightarrow> st \<notin> from \<Longrightarrow> mvs from to i L st = L st"
  by (simp add: mvs_def)

lemma fold_mvs_other: "st \<noteq> to \<Longrightarrow> st \<notin> from \<Longrightarrow> fold (mvs from to) is' L st = L st"
  by (induction is' arbitrary: L) (simp_all add: mvs_other)

lemma fold_mvs_subset: "st \<noteq> to \<Longrightarrow> set (fold (mvs from to) is' L st) \<subseteq> set (L st)"
proof (induction is' arbitrary: L)
  case (Cons i is')
  have "set (mvs from to i L st) \<subseteq> set (L st)"
    using Cons.prems set_remove1_subset [of i "L st"] by (auto simp: mvs_def)
  then show ?case using Cons.IH [OF Cons.prems, of "mvs from to i L"] by simp
qed simp

lemma in_use_mv:
  assumes "i \<in> set (L st)" and "st \<noteq> st'" and "st \<noteq> CORO_FREE" and "st' \<noteq> CORO_FREE"
  shows "in_use (mv st st' i L) = in_use L"
proof -
  have "Suc (length (L st) - 1) = length (L st)" using assms(1) by (cases "L st") auto
  then show ?thesis
    using assms by (cases st; cases st') (simp_all add: in_use_def mv_def length_remove1)
qed

text \<open>The functions that move a coroutine, on any coroutine of the scheduler.\<close>

lemma lists_slot:
  assumes "coro_lists arr pool uniq fresh h L" and "i \<in> set (L st)"
  shows "\<exists>c. h (slot arr i) = Some c \<and> ci_eStatus c = st \<and> ci_uid c = i"
proof -
  obtain c where c: "h (slot arr i) = Some c" "ci_eStatus c = st"
    using coro_ringsD(3) [OF coro_listsD(2) [OF assms(1)], of "slot arr i" st] assms(2) by auto
  obtain ctx k where "coro_data h (slot arr i) = Some (i, ctx, k)"
    using coro_listsD(5) [OF assms] by (elim exE) (rule that)
  then show ?thesis using c by (simp add: coro_data_def)
qed

lemma slot_coro:
  assumes "coro_lists arr pool uniq fresh h L" and "known L i"
  shows "\<exists>n. slot arr i = Coro n" and "slot arr i \<noteq> NullCoro"
proof -
  obtain st where "i \<in> set (L st)" using assms(2) by (auto simp: known_def)
  then show "\<exists>n. slot arr i = Coro n"
    using coro_ringsD(3) [OF coro_listsD(2) [OF assms(1)], of "slot arr i" st] by auto
  then show "slot arr i \<noteq> NullCoro" by auto
qed

lemma all_coro_get_spec:
  assumes "lists_at s L" and "known L i"
  shows "all_coro_get i s = (Ok (slot (cs_all_coro s) i), s)"
  using coro_listsD(1) [OF assms(1)] slot_coro [OF assms]
  by (auto simp: all_coro_get_def slot_def split: if_splits)

lemma move_if_spec:
  assumes lists: "lists_at s L" and i: "known L i" and ft: "to \<notin> from"
  shows "\<exists>h'. move_if from to (slot (cs_all_coro s) i) s = (Ok (), s\<lparr>cs_heap := h'\<rparr>) \<and>
    lists_at (s\<lparr>cs_heap := h'\<rparr>) (mvs from to i L) \<and> coro_data h' = coro_data (cs_heap s)"
proof -
  obtain st where st: "i \<in> set (L st)" using i by (auto simp: known_def)
  let ?p = "slot (cs_all_coro s) i"
  obtain c where c: "cs_heap s ?p = Some c" "ci_eStatus c = st"
    using lists_slot [OF lists st] by blast
  show ?thesis
  proof (cases "st \<in> from")
    case True
    then have "to \<noteq> st" using ft by auto
    from lists_relink [OF lists st this] True c
    show ?thesis
      by (auto simp: move_if_def on_heap_def zoom_def andthen_def coro_get_def mvs_in [OF lists st True ft])
  next
    case False
    have "mvs from to i L = L" by (rule mvs_out) (use lists_apart [OF lists st] False in blast)
    then show ?thesis
      using False c lists
      by (intro exI [of _ "cs_heap s"]) (simp add: move_if_def on_heap_def zoom_def andthen_def coro_get_def ret_def)
  qed
qed

lemma wake_one_spec:
  assumes "lists_at s L" and "known L i" and "to \<notin> from"
  shows "\<exists>h'. wake_one (move_if from to) i s = (Ok (), s\<lparr>cs_heap := h'\<rparr>) \<and>
    lists_at (s\<lparr>cs_heap := h'\<rparr>) (mvs from to i L) \<and> coro_data h' = coro_data (cs_heap s)"
  using move_if_spec [OF assms] all_coro_get_spec [OF assms(1,2)] slot_coro(2) [OF assms(1,2)]
  by (simp add: wake_one_def andthen_def cs_assert_def)

lemma in_use_mvs:
  assumes "coro_lists arr pool uniq fresh h L" and "to \<notin> from" and "CORO_FREE \<notin> from" and "to \<noteq> CORO_FREE"
  shows "in_use (mvs from to i L) = in_use L"
proof (cases "\<exists>st \<in> from. i \<in> set (L st)")
  case True
  then obtain st where st: "st \<in> from" "i \<in> set (L st)" by blast
  have "mvs from to i L = mv st to i L" by (rule mvs_in [OF assms(1) st(2,1) assms(2)])
  moreover have "in_use (mv st to i L) = in_use L"
    by (rule in_use_mv) (use st assms in auto)
  ultimately show ?thesis by simp
next
  case False
  then show ?thesis using mvs_out [of "from" i L to] by auto
qed

lemma wake_all_spec:
  assumes "lists_at s L" and "\<forall>i \<in> set is'. known L i"
    and "to \<notin> from" and "CORO_FREE \<notin> from" and "to \<noteq> CORO_FREE"
  shows "\<exists>h'. wake_all (move_if from to) is' s = (Ok (), s\<lparr>cs_heap := h'\<rparr>) \<and>
    lists_at (s\<lparr>cs_heap := h'\<rparr>) (fold (mvs from to) is' L) \<and> coro_data h' = coro_data (cs_heap s) \<and>
    in_use (fold (mvs from to) is' L) = in_use L"
  using assms(1,2)
proof (induction is' arbitrary: s L)
  case Nil
  then show ?case by (intro exI [of _ "cs_heap s"]) (simp add: ret_def)
next
  case (Cons i is')
  obtain h1 where h1: "wake_one (move_if from to) i s = (Ok (), s\<lparr>cs_heap := h1\<rparr>)"
    "lists_at (s\<lparr>cs_heap := h1\<rparr>) (mvs from to i L)" "coro_data h1 = coro_data (cs_heap s)"
    using wake_one_spec [OF Cons.prems(1) _ assms(3), of i] Cons.prems(2) by auto
  have "\<forall>j \<in> set is'. known (mvs from to i L) j"
    using Cons.prems(2) by (simp add: known_mvs [OF assms(3)])
  from Cons.IH [OF h1(2) this] obtain h2 where
    "wake_all (move_if from to) is' (s\<lparr>cs_heap := h1\<rparr>) = (Ok (), s\<lparr>cs_heap := h2\<rparr>)"
    "lists_at (s\<lparr>cs_heap := h2\<rparr>) (fold (mvs from to) is' (mvs from to i L))"
    "coro_data h2 = coro_data h1"
    "in_use (fold (mvs from to) is' (mvs from to i L)) = in_use (mvs from to i L)"
    by auto
  then show ?case
    using h1 in_use_mvs [OF Cons.prems(1) assms(3-5)] by (intro exI [of _ h2]) (simp add: andthen_def)
qed

section \<open>The wake-ups of a round\<close>

lemma coro_point_heap: "coro_data h' = coro_data (cs_heap s) \<Longrightarrow> coro_point (s\<lparr>cs_heap := h'\<rparr>) i = coro_point s i"
  by (simp add: coro_point_def)

lemma coro_stack_heap: "coro_data h' = coro_data (cs_heap s) \<Longrightarrow> coro_stack (s\<lparr>cs_heap := h'\<rparr>) i = coro_stack s i"
  by (simp add: coro_stack_def)

text \<open>The lists are rearranged, apart from the free ones.\<close>

definition same_coros :: "(CORO_STATUS \<Rightarrow> 32 word list) \<Rightarrow> (CORO_STATUS \<Rightarrow> 32 word list) \<Rightarrow> bool" where
  "same_coros L L' \<longleftrightarrow> known L' = known L \<and> in_use L' = in_use L \<and> L' CORO_FREE = L CORO_FREE"

lemma sched_inv_heap:
  assumes inv: "sched_inv s L" and lists: "lists_at (s\<lparr>cs_heap := h'\<rparr>) L'"
    and data: "coro_data h' = coro_data (cs_heap s)" and same: "same_coros L L'"
    and timers: "set (L' CORO_TIMEOUT) \<subseteq> snd ` set (cs_timeoutCoroId s)"
  shows "sched_inv (s\<lparr>cs_heap := h'\<rparr>) L'"
proof -
  note old = sched_invD [OF inv]
  have "ready_at (s\<lparr>cs_heap := h'\<rparr>) L'"
    unfolding ready_at_def
  proof (intro allI impI)
    fix st i assume st: "st \<noteq> CORO_FREE" "i \<in> set (L' st)"
    have "i \<notin> set (L CORO_FREE)"
      using lists_apart [OF lists st(2), of CORO_FREE] st(1) same by (auto simp: same_coros_def)
    moreover have "known L' i" using st(2) by (auto simp: known_def)
    then have "known L i" using same by (simp add: same_coros_def)
    ultimately obtain st' where "st' \<noteq> CORO_FREE" "i \<in> set (L st')" by (metis known_def)
    then show "coro_point (s\<lparr>cs_heap := h'\<rparr>) i \<noteq> None"
      using old(4) by (simp add: ready_at_def coro_point_heap [OF data])
  qed
  moreover have "sizes_at (s\<lparr>cs_heap := h'\<rparr>) L'"
    using old(2) same by (simp add: sizes_at_def same_coros_def)
  moreover have "queues_at (s\<lparr>cs_heap := h'\<rparr>) L'"
    using old(3) same timers by (simp add: queues_at_def same_coros_def)
  moreover have "memory_at (s\<lparr>cs_heap := h'\<rparr>) L'"
    using old(5) same by (simp add: memory_at_def same_coros_def coro_stack_heap [OF data])
  ultimately show ?thesis using lists by (simp add: sched_inv_def)
qed

text \<open>The rest of the state may change as long as the queues hold known ids.\<close>

lemma sched_inv_queues:
  assumes inv: "sched_inv s L" and q: "queues_at s' L"
    and same: "cs_heap s' = cs_heap s" "cs_all_coro s' = cs_all_coro s" "cs_poolSize s' = cs_poolSize s"
      "cs_uniqId s' = cs_uniqId s" "cs_fresh s' = cs_fresh s" "cs_usedSize s' = cs_usedSize s"
      "cs_currentSize s' = cs_currentSize s" "cs_stackSize s' = cs_stackSize s" "cs_alloc s' = cs_alloc s"
  shows "sched_inv s' L"
proof -
  note old = sched_invD [OF inv]
  have "coro_point s' i = coro_point s i" "coro_stack s' i = coro_stack s i" for i
    by (simp_all add: coro_point_def coro_stack_def same)
  then have "ready_at s' L" "memory_at s' L"
    using old(4,5) by (simp_all add: ready_at_def memory_at_def same)
  moreover have "lists_at s' L" using old(1) by (simp only: same)
  moreover have "sizes_at s' L" using old(2) by (simp only: sizes_at_def same)
  ultimately show ?thesis using q by (simp add: sched_inv_def)
qed

lemma wake_all_inv:
  assumes inv: "sched_inv s L" and ids: "\<forall>i \<in> set is'. known L i"
    and st: "to \<notin> from" "CORO_FREE \<notin> from" "to \<noteq> CORO_FREE" "to \<noteq> CORO_TIMEOUT"
  shows "\<exists>h'. wake_all (move_if from to) is' s = (Ok (), s\<lparr>cs_heap := h'\<rparr>) \<and>
    sched_inv (s\<lparr>cs_heap := h'\<rparr>) (fold (mvs from to) is' L) \<and> coro_data h' = coro_data (cs_heap s)"
proof -
  obtain h' where h': "wake_all (move_if from to) is' s = (Ok (), s\<lparr>cs_heap := h'\<rparr>)"
    "lists_at (s\<lparr>cs_heap := h'\<rparr>) (fold (mvs from to) is' L)" "coro_data h' = coro_data (cs_heap s)"
    "in_use (fold (mvs from to) is' L) = in_use L"
    using wake_all_spec [OF sched_invD(1) [OF inv] ids st(1-3)] by blast
  have "same_coros L (fold (mvs from to) is' L)"
    using h'(4) st by (simp add: same_coros_def fun_eq_iff known_fold_mvs fold_mvs_other)
  moreover have "set (fold (mvs from to) is' L CORO_TIMEOUT) \<subseteq> snd ` set (cs_timeoutCoroId s)"
    using fold_mvs_subset [of CORO_TIMEOUT to "from" is' L] st(4) sched_invD(3) [OF inv]
    by (auto simp: queues_at_def)
  ultimately show ?thesis using sched_inv_heap [OF inv h'(2,3)] h'(1,3) by blast
qed

abbreviation wake_active :: "32 word list \<Rightarrow> (CORO_STATUS \<Rightarrow> 32 word list) \<Rightarrow> CORO_STATUS \<Rightarrow> 32 word list" where
  "wake_active \<equiv> fold (mvs {CORO_INACTIVE, CORO_TIMEOUT} CORO_ACTIVE)"

abbreviation wake_avail :: "32 word list \<Rightarrow> (CORO_STATUS \<Rightarrow> 32 word list) \<Rightarrow> CORO_STATUS \<Rightarrow> 32 word list" where
  "wake_avail \<equiv> fold (mvs {CORO_INACTIVE} CORO_AVAIL)"

lemma wakeupbyself_spec:
  assumes inv: "sched_inv s L" and run: "\<not> cs_terminal s"
  shows "\<exists>h'. wakeupbyself s = (Ok (), s\<lparr>cs_heap := h', cs_needActiveCoroId := []\<rparr>) \<and>
    sched_inv (s\<lparr>cs_heap := h', cs_needActiveCoroId := []\<rparr>) (wake_avail (cs_needActiveCoroId s) L) \<and>
    coro_data h' = coro_data (cs_heap s)"
proof -
  let ?need = "cs_needActiveCoroId s"
  have "\<forall>i \<in> set ?need. known L i"
    using sched_invD(3) [OF inv] by (simp add: queues_at_def)
  from wake_all_inv [OF inv this, of CORO_AVAIL "{CORO_INACTIVE}"] obtain h' where
    h': "wake_all moveToAvail ?need s = (Ok (), s\<lparr>cs_heap := h'\<rparr>)"
    "sched_inv (s\<lparr>cs_heap := h'\<rparr>) (wake_avail ?need L)" "coro_data h' = coro_data (cs_heap s)"
    unfolding moveToAvail_def by auto
  have "sched_inv (s\<lparr>cs_heap := h', cs_needActiveCoroId := []\<rparr>) (wake_avail ?need L)"
    by (rule sched_inv_queues [OF h'(2)]) (use sched_invD(3) [OF h'(2)] in \<open>simp_all add: queues_at_def ball_Un\<close>)
  moreover have "wakeupbyself s = (Ok (), s\<lparr>cs_heap := h', cs_needActiveCoroId := []\<rparr>)"
  proof (cases "?need = []")
    case True
    then have "s\<lparr>cs_heap := h'\<rparr> = s" using h'(1) by (simp add: ret_def)
    then have "s\<lparr>cs_heap := h', cs_needActiveCoroId := []\<rparr> = s\<lparr>cs_needActiveCoroId := []\<rparr>" by simp
    also have "\<dots> = s" using True by simp
    finally show ?thesis using True by (simp add: wakeupbyself_def)
  next
    case False
    then show ?thesis using run h'(1) by (simp add: wakeupbyself_def andthen_def cs_update_def)
  qed
  ultimately show ?thesis using h'(3) by blast
qed

definition emptied :: "'a thread_queue" where
  "emptied = \<lparr>tq_queue = [], tq_size = 0\<rparr>"

lemma wakeup_spec:
  assumes inv: "sched_inv s L" and run: "\<not> cs_terminal s"
  shows "\<exists>h'. wakeup s = (Ok (), s\<lparr>cs_activeCoroQueue := emptied, cs_heap := h'\<rparr>) \<and>
    sched_inv (s\<lparr>cs_activeCoroQueue := emptied, cs_heap := h'\<rparr>)
      (wake_active (tq_queue (cs_activeCoroQueue s)) L) \<and>
    coro_data h' = coro_data (cs_heap s)"
proof -
  let ?q = "cs_activeCoroQueue s"
  let ?s = "s\<lparr>cs_activeCoroQueue := emptied\<rparr>"
  have q: "tq_inv ?q" "tq_small ?q" "\<forall>i \<in> set (tq_queue ?q). known L i"
    using sched_invD(3) [OF inv] by (simp_all add: queues_at_def)
  have size: "tq_size ?q = length (tq_queue ?q)"
    using q(1,2) by (simp add: tq_inv_def tq_small_def)
  have inv': "sched_inv ?s L"
    by (rule sched_inv_queues [OF inv])
      (use sched_invD(3) [OF inv] in \<open>simp_all add: queues_at_def emptied_def tq_inv_def tq_small_def\<close>)
  from wake_all_inv [OF this q(3), of CORO_ACTIVE "{CORO_INACTIVE, CORO_TIMEOUT}"] obtain h' where
    h': "wake_all moveToActive (tq_queue ?q) ?s = (Ok (), ?s\<lparr>cs_heap := h'\<rparr>)"
    "sched_inv (?s\<lparr>cs_heap := h'\<rparr>) (wake_active (tq_queue ?q) L)" "coro_data h' = coro_data (cs_heap s)"
    unfolding moveToActive_def by auto
  have "wakeup s = (Ok (), ?s\<lparr>cs_heap := h'\<rparr>)"
  proof (cases "tq_queue ?q = []")
    case True
    then have "?q = emptied" using size by (cases ?q) (simp add: emptied_def)
    then have "?s = s" by (cases s) simp
    moreover have "?s\<lparr>cs_heap := h'\<rparr> = ?s" using h'(1) True by (simp add: ret_def)
    ultimately show ?thesis using True size by (simp add: wakeup_def)
  next
    case False
    then have "tq_swap [] NoWait (\<lambda>q. (False, q)) ?q = ((True, tq_queue ?q), emptied)"
      by (cases ?q) (simp add: tq_swap_def tq_after_wait_def emptied_def)
    then show ?thesis using False run size h'(1) by (simp add: wakeup_def)
  qed
  then show ?thesis using h'(2,3) by auto
qed

lemma wake_timers_spec:
  assumes "sched_inv s L" and "cs_timeoutCoroId s = its"
  shows "\<exists>h'. wake_timers now its s =
      (Ok (), s\<lparr>cs_heap := h', cs_timeoutCoroId := dropWhile (\<lambda>it. fst it \<le> now) its\<rparr>) \<and>
    sched_inv (s\<lparr>cs_heap := h', cs_timeoutCoroId := dropWhile (\<lambda>it. fst it \<le> now) its\<rparr>)
      (wake_active (map snd (takeWhile (\<lambda>it. fst it \<le> now) its)) L) \<and>
    coro_data h' = coro_data (cs_heap s)"
  using assms
proof (induction its arbitrary: s L)
  case Nil
  then show ?case by (intro exI [of _ "cs_heap s"], cases s) (simp add: ret_def)
next
  case (Cons it its)
  show ?case
  proof (cases "fst it \<le> now")
    case False
    then show ?thesis using Cons.prems by (intro exI [of _ "cs_heap s"], cases s) (simp add: ret_def)
  next
    case True
    have k: "known L (snd it)" using sched_invD(3) [OF Cons.prems(1)] Cons.prems(2) by (simp add: queues_at_def)
    then have "\<forall>i \<in> set [snd it]. known L i" by simp
    from wake_all_inv [OF Cons.prems(1) this, of CORO_ACTIVE "{CORO_INACTIVE, CORO_TIMEOUT}"]
    obtain h1 where all: "wake_all moveToActive [snd it] s = (Ok (), s\<lparr>cs_heap := h1\<rparr>)"
      and h1: "sched_inv (s\<lparr>cs_heap := h1\<rparr>) (wake_active [snd it] L)" "coro_data h1 = coro_data (cs_heap s)"
      unfolding moveToActive_def by auto
    have one: "wake_one moveToActive (snd it) s = (Ok (), s\<lparr>cs_heap := h1\<rparr>)"
    proof -
      have "(\<lambda>_. ret ()) = (ret :: unit \<Rightarrow> ('a scheduler, unit) act)" by (rule ext) simp
      then show ?thesis using all by (simp add: andthen_ret_right)
    qed
    let ?s = "s\<lparr>cs_heap := h1, cs_timeoutCoroId := its\<rparr>"
    have gone: "snd it \<notin> set (wake_active [snd it] L CORO_TIMEOUT)"
      using lists_distinct [OF sched_invD(1) [OF Cons.prems(1)], of CORO_TIMEOUT] by (simp add: mvs_def)
    have "queues_at ?s (wake_active [snd it] L)"
      using sched_invD(3) [OF h1(1)] Cons.prems(2) gone by (auto simp: queues_at_def)
    then have "sched_inv ?s (wake_active [snd it] L)"
      by (rule sched_inv_queues [OF h1(1)]) simp_all
    from Cons.IH [OF this] obtain h2 where
      "wake_timers now its ?s = (Ok (), ?s\<lparr>cs_heap := h2, cs_timeoutCoroId := dropWhile (\<lambda>it. fst it \<le> now) its\<rparr>)"
      "sched_inv (?s\<lparr>cs_heap := h2, cs_timeoutCoroId := dropWhile (\<lambda>it. fst it \<le> now) its\<rparr>)
        (wake_active (map snd (takeWhile (\<lambda>it. fst it \<le> now) its)) (wake_active [snd it] L))"
      "coro_data h2 = coro_data h1"
      by auto
    then show ?thesis
      using True one h1(2) by (intro exI [of _ h2]) (simp add: andthen_def cs_update_def)
  qed
qed

lemma wakeupbytimeout_spec:
  assumes inv: "sched_inv s L" and run: "\<not> cs_terminal s"
  defines "now \<equiv> cs_clock s (cs_readings s)"
  shows "\<exists>h' n. wakeupbytimeout s = (Ok (), s\<lparr>cs_readings := n, cs_heap := h',
      cs_timeoutCoroId := dropWhile (\<lambda>it. fst it \<le> now) (cs_timeoutCoroId s)\<rparr>) \<and>
    sched_inv (s\<lparr>cs_readings := n, cs_heap := h',
      cs_timeoutCoroId := dropWhile (\<lambda>it. fst it \<le> now) (cs_timeoutCoroId s)\<rparr>)
      (wake_active (map snd (takeWhile (\<lambda>it. fst it \<le> now) (cs_timeoutCoroId s))) L) \<and>
    coro_data h' = coro_data (cs_heap s)"
proof (cases "cs_timeoutCoroId s = []")
  case True
  then show ?thesis
    using inv by (intro exI [of _ "cs_heap s"] exI [of _ "cs_readings s"], cases s) (simp add: wakeupbytimeout_def)
next
  case False
  let ?s = "s\<lparr>cs_readings := cs_readings s + 1\<rparr>"
  have "sched_inv ?s L"
    by (rule sched_inv_queues [OF inv]) (use sched_invD(3) [OF inv] in \<open>simp_all add: queues_at_def\<close>)
  from wake_timers_spec [OF this, of "cs_timeoutCoroId s" now] obtain h' where
    "wake_timers now (cs_timeoutCoroId s) ?s =
      (Ok (), ?s\<lparr>cs_heap := h', cs_timeoutCoroId := dropWhile (\<lambda>it. fst it \<le> now) (cs_timeoutCoroId s)\<rparr>)"
    "sched_inv (?s\<lparr>cs_heap := h', cs_timeoutCoroId := dropWhile (\<lambda>it. fst it \<le> now) (cs_timeoutCoroId s)\<rparr>)
      (wake_active (map snd (takeWhile (\<lambda>it. fst it \<le> now) (cs_timeoutCoroId s))) L)"
    "coro_data h' = coro_data (cs_heap s)"
    by auto
  then show ?thesis
    using False run
    by (intro exI [of _ h'] exI [of _ "cs_readings s + 1"])
      (simp add: wakeupbytimeout_def gettime_def andthen_def now_def)
qed

section \<open>A coroutine's own data\<close>

lemma coro_rings_data:
  assumes rings: "coro_rings h M" and c: "h q = Some c"
    and f: "ci_next (f c) = ci_next c" "ci_prev (f c) = ci_prev c" "ci_eStatus (f c) = ci_eStatus c"
  shows "coro_rings (h(q \<mapsto> f c)) M"
proof -
  have "coro_ring (h(q \<mapsto> f c)) (head_of st) (M st) = coro_ring h (head_of st) (M st)" for st
    by (rule coro_ring_frame) (simp add: nexts_def prevs_def c f)
  moreover have "\<exists>n k. r = Coro n \<and> (h(q \<mapsto> f c)) r = Some k \<and> ci_eStatus k = st"
    if "r \<in> set (M st)" for r st
    using coro_ringsD(3) [OF rings that] c f by auto
  ultimately show ?thesis using coro_ringsD(1) [OF rings] by (simp add: coro_rings_def)
qed

lemma lists_data:
  assumes lists: "coro_lists arr pool uniq fresh h L" and c: "h q = Some c"
    and f: "ci_next (f c) = ci_next c" "ci_prev (f c) = ci_prev c" "ci_eStatus (f c) = ci_eStatus c"
      "ci_uid (f c) = ci_uid c"
  shows "coro_lists arr pool uniq fresh (h(q \<mapsto> f c)) L"
proof -
  have "coro_rings (h(q \<mapsto> f c)) (\<lambda>st. map (slot arr) (L st))"
    by (rule coro_rings_data [where f = f]) (rule coro_listsD(2) [OF lists] c f)+
  moreover have "0 < i \<and> i \<le> uniq \<and> (\<exists>ctx k. coro_data (h(q \<mapsto> f c)) (slot arr i) = Some (i, ctx, k))"
    if i: "i \<in> set (L st)" for i st
    using coro_listsD(3,4) [OF lists i] lists_slot [OF lists i] c f(4)
    by (auto simp: coro_data_def)
  moreover have "n < fresh" if "(h(q \<mapsto> f c)) (Coro n) \<noteq> None" for n
    by (rule coro_listsD(7) [OF lists]) (use that c in \<open>auto split: if_splits\<close>)
  ultimately show ?thesis
    using coro_listsD(1,6,8) [OF lists] unfolding coro_lists_def by (simp add: fun_upd_def)
qed

definition the_current :: "'p scheduler \<Rightarrow> (CORO_STATUS \<Rightarrow> 32 word list) \<Rightarrow> CORO_STATUS \<Rightarrow> 32 word \<Rightarrow> bool" where
  "the_current s L st i \<longleftrightarrow> i \<in> set (L st) \<and> cs_currentCoro s = slot (cs_all_coro s) i"

lemma switch_to_main_spec:
  assumes lists: "lists_at s L" and cur: "the_current s L st i"
  shows "\<exists>h'. switch_to_main ctx s = (Ok (), s\<lparr>cs_currentCoro := MainCoro, cs_heap := h'\<rparr>) \<and>
    coro_lists (cs_all_coro s) (cs_poolSize s) (cs_uniqId s) (cs_fresh s) h' L \<and>
    coro_data h' = (coro_data (cs_heap s))(slot (cs_all_coro s) i :=
      map_option (\<lambda>(u, sc, _). (u, sc, ctx)) (coro_data (cs_heap s) (slot (cs_all_coro s) i)))"
proof -
  let ?p = "slot (cs_all_coro s) i"
  obtain c where c: "cs_heap s ?p = Some c"
    using lists_slot [OF lists, of i st] cur by (auto simp: the_current_def)
  let ?h = "(cs_heap s)(?p \<mapsto> c\<lparr>ci_ctx_to := ctx\<rparr>)"
  have "coro_lists (cs_all_coro s) (cs_poolSize s) (cs_uniqId s) (cs_fresh s) ?h L"
    by (rule lists_data [OF lists c, of "\<lambda>c. c\<lparr>ci_ctx_to := ctx\<rparr>"]) simp_all
  moreover have "coro_data ?h = (coro_data (cs_heap s))(?p :=
      map_option (\<lambda>(u, sc, _). (u, sc, ctx)) (coro_data (cs_heap s) ?p))"
    using c by (simp add: coro_data_def fun_eq_iff)
  ultimately show ?thesis
    using cur c
    by (intro exI [of _ ?h]) (simp add: switch_to_main_def andthen_def cs_read_def cs_update_def
        on_heap_def zoom_def coro_set_def the_current_def)
qed

section \<open>New coroutines\<close>

lemma slot_put:
  assumes "length ps = Suc (unat pool)" and "i \<le> pool"
  shows "slot (Array (ps[unat i := p])) = (slot (Array ps))(i := p)"
  using assms by (auto simp: slot_def fun_eq_iff nth_list_update word_le_nat_alt unat_arith_simps)

lemma lists_new:
  assumes lists: "coro_lists arr pool uniq fresh h L" and arr: "arr = Array ps"
    and u: "u = uniq + 1" "uniq < u" "u \<le> pool"
    and c: "ci_uid c = u" "ci_eStatus c = CORO_FREE"
  shows "\<exists>h'. CoroutineAddTail (Coro fresh) FreeHead (h(Coro fresh \<mapsto> c)) = (Ok (), h') \<and>
    coro_lists (Array (ps[unat u := Coro fresh])) pool u (Suc fresh) h' (L(CORO_FREE := L CORO_FREE @ [u])) \<and>
    coro_data h' = (coro_data h)(Coro fresh := Some (u, ci_stack_ctx c, ci_ctx_to c))"
proof -
  let ?M = "\<lambda>st. map (slot arr) (L st)" and ?q = "Coro fresh" and ?L = "L(CORO_FREE := L CORO_FREE @ [u])"
  let ?arr = "Array (ps[unat u := Coro fresh])"
  have len: "length ps = Suc (unat pool)" using coro_listsD(1) [OF lists] arr by simp
  have fresh: "h ?q = None" using coro_listsD(7) [OF lists, of fresh] by blast
  have out: "?q \<notin> set (?M st)" for st
    using coro_ringsD(3) [OF coro_listsD(2) [OF lists], of ?q st] fresh by auto
  have slot: "slot ?arr = (slot arr)(u := ?q)" using slot_put [OF len u(3)] arr by simp
  have nu: "u \<notin> set (L st)" for st using coro_listsD(4) [OF lists, of u st] u(2) by auto
  have "coro_rings (h(?q \<mapsto> c)) ?M"
    by (rule coro_rings_outside [OF coro_listsD(2) [OF lists]]) (use out in auto)
  from coro_rings_append [OF this, of ?q fresh c CORO_FREE] out c(2) obtain h' where
    h': "CoroutineAddTail ?q FreeHead (h(?q \<mapsto> c)) = (Ok (), h')"
    "coro_rings h' (?M(CORO_FREE := ?M CORO_FREE @ [?q]))" "unlinked h' = unlinked (h(?q \<mapsto> c))"
    by auto
  have M: "(\<lambda>st. map (slot ?arr) (?L st)) = ?M(CORO_FREE := ?M CORO_FREE @ [?q])"
    by (rule ext) (use nu in \<open>simp add: slot\<close>)
  have data: "coro_data h' = (coro_data h)(?q := Some (u, ci_stack_ctx c, ci_ctx_to c))"
    using h'(3) c(1) by (simp add: coro_data_unlinked fun_eq_iff unlinked_def)
  have none: "h' p = None \<longleftrightarrow> (h(?q \<mapsto> c)) p = None" for p by (rule unlinked_none [OF h'(3)])
  have members: "0 < i \<and> i \<le> u \<and> (\<exists>ctx k. coro_data h' (slot ?arr i) = Some (i, ctx, k))"
    if i: "i \<in> set (?L st)" for i st
  proof (cases "i = u")
    case True
    then show ?thesis using u(2) by (auto simp: slot data word_gt_0 intro: order.strict_trans1)
  next
    case False
    then have i': "i \<in> set (L st)" using i by (auto split: if_splits)
    then have "slot arr i \<noteq> ?q" using out [of st] by (auto simp: image_iff)
    then show ?thesis
      using coro_listsD(3-5) [OF lists i'] False u(2) by (auto simp: slot data)
  qed
  have slots: "\<exists>st. i \<in> set (?L st)" if "slot ?arr i \<noteq> NullCoro" for i
  proof (cases "i = u")
    case True
    then have "i \<in> set (?L CORO_FREE)" by simp
    then show ?thesis ..
  next
    case False
    then have "slot arr i \<noteq> NullCoro" using that by (simp add: slot)
    then obtain st where "i \<in> set (L st)" using coro_listsD(6) [OF lists, of i] by blast
    then have "i \<in> set (?L st)" by auto
    then show ?thesis ..
  qed
  have objects: "n < Suc fresh" if "h' (Coro n) \<noteq> None" for n
    using that coro_listsD(7) [OF lists, of n] none by (cases "n = fresh") auto
  have "coro_lists ?arr pool u (Suc fresh) h' ?L"
    unfolding coro_lists_def M
    using h'(2) members slots objects len none coro_listsD(8) [OF lists] by simp
  then show ?thesis using h'(1) data by blast
qed

text \<open>One more coroutine, with its stack.\<close>

definition added :: "32 word \<Rightarrow> (CORO_STATUS \<Rightarrow> 32 word list) \<Rightarrow> (CORO_STATUS \<Rightarrow> 32 word list)" where
  "added u L = L(CORO_FREE := L CORO_FREE @ [u])"

definition grown :: "'p scheduler \<Rightarrow> (CORO_STATUS \<Rightarrow> 32 word list) \<Rightarrow> 'p scheduler \<Rightarrow> bool" where
  "grown s L s' \<longleftrightarrow>
     (\<exists>u arr h fr m. s' = s\<lparr>cs_uniqId := u, cs_all_coro := arr, cs_heap := h, cs_fresh := fr, cs_alloc := m\<rparr> \<and>
        (\<forall>i. known L i \<longrightarrow> slot arr i = slot (cs_all_coro s) i \<and>
           coro_data h (slot (cs_all_coro s) i) = coro_data (cs_heap s) (slot (cs_all_coro s) i)))"

lemma known_added: "known (added u L) i \<longleftrightarrow> i = u \<or> known L i"
proof
  assume "known (added u L) i"
  then obtain st where "i \<in> set (added u L st)" unfolding known_def ..
  then have "i = u \<or> i \<in> set (L st)" by (auto simp: added_def split: if_splits)
  then show "i = u \<or> known L i" unfolding known_def by blast
next
  assume "i = u \<or> known L i"
  then show "known (added u L) i"
  proof
    assume "i = u"
    then have "i \<in> set (added u L CORO_FREE)" by (simp add: added_def)
    then show ?thesis unfolding known_def ..
  next
    assume "known L i"
    then obtain st where "i \<in> set (L st)" unfolding known_def ..
    then have "i \<in> set (added u L st)" by (auto simp: added_def)
    then show ?thesis unfolding known_def ..
  qed
qed

lemma grown_refl: "grown s L s"
proof -
  have "s = s\<lparr>cs_uniqId := cs_uniqId s, cs_all_coro := cs_all_coro s, cs_heap := cs_heap s,
      cs_fresh := cs_fresh s, cs_alloc := cs_alloc s\<rparr>" by (cases s) simp
  then show ?thesis unfolding grown_def by blast
qed

lemma grown_trans:
  assumes "grown s L s1" and "grown s1 (added u L) s2"
  shows "grown s L s2"
proof -
  obtain v1 arr1 h1 f1 m1 where 1: "s1 = s\<lparr>cs_uniqId := v1, cs_all_coro := arr1, cs_heap := h1,
      cs_fresh := f1, cs_alloc := m1\<rparr>"
    and old1: "\<forall>i. known L i \<longrightarrow> slot arr1 i = slot (cs_all_coro s) i \<and>
      coro_data h1 (slot (cs_all_coro s) i) = coro_data (cs_heap s) (slot (cs_all_coro s) i)"
    using assms(1) unfolding grown_def by (elim exE conjE) (rule that)
  obtain v2 arr2 h2 f2 m2 where 2: "s2 = s1\<lparr>cs_uniqId := v2, cs_all_coro := arr2, cs_heap := h2,
      cs_fresh := f2, cs_alloc := m2\<rparr>"
    and old2: "\<forall>i. known (added u L) i \<longrightarrow> slot arr2 i = slot (cs_all_coro s1) i \<and>
      coro_data h2 (slot (cs_all_coro s1) i) = coro_data (cs_heap s1) (slot (cs_all_coro s1) i)"
    using assms(2) unfolding grown_def by (elim exE conjE) (rule that)
  have "s2 = s\<lparr>cs_uniqId := v2, cs_all_coro := arr2, cs_heap := h2, cs_fresh := f2, cs_alloc := m2\<rparr>"
    using 1 2 by simp
  moreover have "slot arr2 i = slot (cs_all_coro s) i \<and>
      coro_data h2 (slot (cs_all_coro s) i) = coro_data (cs_heap s) (slot (cs_all_coro s) i)" if "known L i" for i
  proof -
    have "known (added u L) i" using that by (simp add: known_added)
    then have "slot arr2 i = slot arr1 i \<and> coro_data h2 (slot arr1 i) = coro_data h1 (slot arr1 i)"
      using old2 1 by simp
    then show ?thesis using old1 that by simp
  qed
  ultimately show ?thesis unfolding grown_def by blast
qed

lemma grow_step:
  assumes lists: "lists_at s L" and mem: "memory_at s L"
    and u: "u = cs_uniqId s + 1" "cs_uniqId s < u" "u \<le> cs_poolSize s"
  shows "\<exists>l h' m. mm_answers (cs_alloc s) (mm_calls (cs_alloc s)) = Some l \<and>
    allocate (cs_stackSize s) (cs_alloc s) =
      (Ok (Some (stack_at (mapped_size (cs_stackSize s) (cs_alloc s)) l)), m) \<and>
    (\<exists>ps. cs_all_coro s = Array ps \<and> unat u < length ps \<and>
      CoroutineAddTail (Coro (cs_fresh s)) FreeHead ((cs_heap s)(Coro (cs_fresh s) \<mapsto>
        CoroutineInfo_new\<lparr>ci_uid := u, ci_stack_ctx := stack_at (mapped_size (cs_stackSize s) (cs_alloc s)) l\<rparr>)) =
        (Ok (), h') \<and>
      (let s' = s\<lparr>cs_uniqId := u, cs_all_coro := Array (ps[unat u := Coro (cs_fresh s)]), cs_heap := h',
          cs_fresh := Suc (cs_fresh s), cs_alloc := m\<rparr>
       in lists_at s' (added u L) \<and> memory_at s' (added u L) \<and> grown s L s'))"
proof -
  let ?sz = "mapped_size (cs_stackSize s) (cs_alloc s)"
  have ok: "stack_size_ok (cs_stackSize s) (cs_alloc s)" "answers_ok (cs_alloc s)"
    using mem by (simp_all add: memory_at_def)
  obtain l where l: "mm_answers (cs_alloc s) (mm_calls (cs_alloc s)) = Some l"
    using mem unfolding memory_at_def by (meson le_refl not_Some_eq)
  have l_ok: "0 < l" "l < 2 ^ 47" using ok(2) l by (auto simp: answers_ok_def)
  let ?m = "(cs_alloc s)\<lparr>mm_calls := mm_calls (cs_alloc s) + 1, mm_maps := (l, ?sz) # mm_maps (cs_alloc s)\<rparr>"
  have alloc: "allocate (cs_stackSize s) (cs_alloc s) = (Ok (Some (stack_at ?sz l)), ?m)"
    using allocate_spec [OF ok] l by (simp add: stack_at_def)
  obtain ps where ps: "cs_all_coro s = Array ps" "length ps = Suc (unat (cs_poolSize s))"
    using coro_listsD(1) [OF lists] by blast
  have len: "unat u < length ps" using u(3) ps(2) by (simp add: word_le_nat_alt)
  let ?q = "Coro (cs_fresh s)"
  let ?c = "CoroutineInfo_new\<lparr>ci_uid := u, ci_stack_ctx := stack_at ?sz l\<rparr> :: 'a coro_info"
  obtain h' where h': "CoroutineAddTail ?q FreeHead ((cs_heap s)(?q \<mapsto> ?c)) = (Ok (), h')"
    "coro_lists (Array (ps[unat u := ?q])) (cs_poolSize s) u (Suc (cs_fresh s)) h' (added u L)"
    "coro_data h' = (coro_data (cs_heap s))(?q := Some (u, stack_at ?sz l, None))"
    using lists_new [OF lists ps(1) u, of ?c] by (auto simp: CoroutineInfo_new_def added_def)
  let ?arr = "Array (ps[unat u := ?q])"
  let ?s = "s\<lparr>cs_uniqId := u, cs_all_coro := ?arr, cs_heap := h', cs_fresh := Suc (cs_fresh s), cs_alloc := ?m\<rparr>"
  have slot: "slot ?arr = (slot (cs_all_coro s))(u := ?q)" using slot_put [OF ps(2) u(3)] ps(1) by simp
  have old: "slot ?arr i = slot (cs_all_coro s) i \<and>
      coro_data h' (slot (cs_all_coro s) i) = coro_data (cs_heap s) (slot (cs_all_coro s) i)" if "known L i" for i
  proof -
    obtain st where st: "i \<in> set (L st)" using \<open>known L i\<close> by (auto simp: known_def)
    have "i \<noteq> u" using coro_listsD(4) [OF lists st] u(2) by auto
    moreover have "slot (cs_all_coro s) i \<noteq> ?q"
    proof
      assume eq: "slot (cs_all_coro s) i = ?q"
      obtain c where "cs_heap s (slot (cs_all_coro s) i) = Some c" using lists_slot [OF lists st] by blast
      then have "cs_heap s ?q \<noteq> None" using eq by simp
      then show False using coro_listsD(7) [OF lists] by blast
    qed
    ultimately show ?thesis by (simp add: slot h'(3))
  qed
  have grown: "grown s L ?s" unfolding grown_def using old by blast
  have stack: "coro_stack ?s i = (if i = u then Some (stack_at ?sz l) else coro_stack s i)" if "i = u \<or> known L i" for i
  proof (cases "i = u")
    case True
    then show ?thesis by (simp add: coro_stack_def slot h'(3))
  next
    case False
    then show ?thesis using that old [of i] by (simp add: coro_stack_def)
  qed
  have new: "mapped_size (cs_stackSize ?s) (cs_alloc ?s) = ?sz" by (simp add: mapped_size_def)
  have "memory_at ?s (added u L)"
    unfolding memory_at_def new
  proof (intro conjI allI impI ballI)
    show "stack_size_ok (cs_stackSize ?s) (cs_alloc ?s)" using ok(1) by (simp add: stack_size_ok_def split: option.splits)
    show "answers_ok (cs_alloc ?s)" using ok(2) by (simp add: answers_ok_def)
    show "mm_answers (cs_alloc ?s) k \<noteq> None" if "mm_calls (cs_alloc ?s) \<le> k" for k
      using mem that by (simp add: memory_at_def)
    show "\<exists>l. 0 < l \<and> l < 2 ^ 47 \<and> coro_stack ?s i = Some (stack_at ?sz l)" if "known (added u L) i" for i
      using that stack [of i] l_ok mem unfolding known_added memory_at_def by (cases "i = u") auto
    show "\<exists>i l'. known (added u L) i \<and> x = (l', ?sz) \<and> coro_stack ?s i = Some (stack_at ?sz l')"
      if "x \<in> set (mm_maps (cs_alloc ?s))" for x
    proof (cases "x = (l, ?sz)")
      case True
      then show ?thesis using stack [of u] by (intro exI [of _ u] exI [of _ l]) (simp add: known_added)
    next
      case False
      then have "x \<in> set (mm_maps (cs_alloc s))" using that by simp
      then obtain i l' where i: "known L i" "x = (l', ?sz)" "coro_stack s i = Some (stack_at ?sz l')"
        using mem unfolding memory_at_def by blast
      then have "i \<noteq> u" using coro_listsD(4) [OF lists, of i] u(2) by (auto simp: known_def dest: leD)
      then show ?thesis using i stack [of i] by (intro exI [of _ i] exI [of _ l']) (simp add: known_added)
    qed
  qed
  then show ?thesis using l alloc ps(1) len h'(1,2) grown by (intro exI [of _ l] exI [of _ h'] exI [of _ ?m]) (auto simp: Let_def)
qed

end
