(* ===== verification/Coro_Turns.thy ===== *)
theory Coro_Turns
  imports Coro_Rounds
begin

text \<open>
  The pool of coroutines grows, coroutines are created and run, and whole rounds of the scheduler:
  every operation keeps the invariant, and the coroutines run in the order of their lists.
\<close>

section \<open>The pool grows\<close>

primrec new_ids :: "32 word \<Rightarrow> nat \<Rightarrow> 32 word list" where
  "new_ids u 0 = []"
| "new_ids u (Suc n) = (u + 1) # new_ids (u + 1) n"

definition added_all :: "32 word list \<Rightarrow> (CORO_STATUS \<Rightarrow> 32 word list) \<Rightarrow> (CORO_STATUS \<Rightarrow> 32 word list)" where
  "added_all is' L = L(CORO_FREE := L CORO_FREE @ is')"

lemma added_all_Cons: "added_all (i # is') L = added_all is' (added i L)"
  by (simp add: added_all_def added_def)

lemma added_all_Nil: "added_all [] L = L"
  by (simp add: added_all_def)

lemma length_new_ids [simp]: "length (new_ids u n) = n"
  by (induction n arbitrary: u) simp_all

lemma unat_suc_le:
  assumes "unat u + Suc n \<le> unat p"
  shows "unat (u + 1 :: 32 word) = unat u + 1" and "u < u + 1" and "u + 1 \<le> p" and "\<not> u + 1 < 1"
    and "unat (u + 1) + n \<le> unat p"
proof -
  have b: "unat p < 4294967296" by (rule order.strict_trans2 [OF unsigned_less]) simp
  show eq: "unat (u + 1) = unat u + 1"
    using assms b by (simp add: unat_word_ariths(1))
  then show "u < u + 1" "u + 1 \<le> p" "\<not> u + 1 < 1" "unat (u + 1) + n \<le> unat p"
    using assms by (simp_all add: word_less_nat_alt word_le_nat_alt)
qed

lemma increase_step:
  assumes lists: "lists_at s L" and mem: "memory_at s L"
    and room: "unat (cs_uniqId s) + Suc 0 \<le> unat (cs_poolSize s)" and sz: "cs_stackSize s = sz"
  shows "\<exists>s1. cs_increase_loop (Suc n) k s = cs_increase_loop n (k + 1) s1 \<and>
    lists_at s1 (added (cs_uniqId s + 1) L) \<and> memory_at s1 (added (cs_uniqId s + 1) L) \<and>
    grown s L s1 \<and> cs_uniqId s1 = cs_uniqId s + 1 \<and> cs_poolSize s1 = cs_poolSize s \<and> cs_stackSize s1 = sz"
proof -
  note w = unat_suc_le [OF room]
  obtain l h' m ps where
    alloc: "allocate (cs_stackSize s) (cs_alloc s) =
      (Ok (Some (stack_at (mapped_size (cs_stackSize s) (cs_alloc s)) l)), m)"
    and ps: "cs_all_coro s = Array ps" "unat (cs_uniqId s + 1) < length ps"
    and add: "CoroutineAddTail (Coro (cs_fresh s)) FreeHead ((cs_heap s)(Coro (cs_fresh s) \<mapsto>
        CoroutineInfo_new\<lparr>ci_uid := cs_uniqId s + 1,
          ci_stack_ctx := stack_at (mapped_size (cs_stackSize s) (cs_alloc s)) l\<rparr>)) = (Ok (), h')"
    and inv: "let s' = s\<lparr>cs_uniqId := cs_uniqId s + 1,
          cs_all_coro := Array (ps[unat (cs_uniqId s + 1) := Coro (cs_fresh s)]), cs_heap := h',
          cs_fresh := Suc (cs_fresh s), cs_alloc := m\<rparr>
       in lists_at s' (added (cs_uniqId s + 1) L) \<and> memory_at s' (added (cs_uniqId s + 1) L) \<and> grown s L s'"
    using grow_step [OF lists mem refl w(2,3)] by (elim exE conjE) (rule that)
  let ?s = "s\<lparr>cs_uniqId := cs_uniqId s + 1,
          cs_all_coro := Array (ps[unat (cs_uniqId s + 1) := Coro (cs_fresh s)]), cs_heap := h',
          cs_fresh := Suc (cs_fresh s), cs_alloc := m\<rparr>"
  have "cs_increase_loop (Suc n) k s = cs_increase_loop n (k + 1) ?s"
    using alloc ps add w(3,4)
    by (cases s) (simp add: andthen_def coro_new_def cs_generateId_def on_heap_def on_alloc_def zoom_def setUid_def
        setStatus_def setStackContext_def coro_set_def cs_read_def all_coro_put_def Let_def
        CoroutineInfo_new_def)
  then show ?thesis using inv sz by (intro exI [of _ ?s]) (simp add: Let_def)
qed

text \<open>What one turn of the loops of \<open>init\<close> and \<open>increaseCoroPoolSize\<close> does.\<close>

definition grows :: "(nat \<Rightarrow> nat \<Rightarrow> ('p scheduler, nat) act) \<Rightarrow> nat \<Rightarrow> bool" where
  "grows F sz \<longleftrightarrow> (\<forall>n k s L. lists_at s L \<and> memory_at s L \<and>
     unat (cs_uniqId s) + Suc 0 \<le> unat (cs_poolSize s) \<and> cs_stackSize s = sz \<longrightarrow>
     (\<exists>s1. F (Suc n) k s = F n (k + 1) s1 \<and>
        lists_at s1 (added (cs_uniqId s + 1) L) \<and> memory_at s1 (added (cs_uniqId s + 1) L) \<and>
        grown s L s1 \<and> cs_uniqId s1 = cs_uniqId s + 1 \<and> cs_poolSize s1 = cs_poolSize s \<and> cs_stackSize s1 = sz))"

lemma grow_loop_spec:
  assumes step: "grows F sz"
    and start: "lists_at s L" "memory_at s L" "unat (cs_uniqId s) + n \<le> unat (cs_poolSize s)" "cs_stackSize s = sz"
  shows "\<exists>s'. F (n + m) k s = F m (k + n) s' \<and>
    lists_at s' (added_all (new_ids (cs_uniqId s) n) L) \<and>
    memory_at s' (added_all (new_ids (cs_uniqId s) n) L) \<and>
    grown s L s' \<and> cs_uniqId s' = cs_uniqId s + word_of_nat n \<and> cs_poolSize s' = cs_poolSize s"
  using start
proof (induction n arbitrary: s L k)
  case 0
  then show ?case by (auto simp: added_all_Nil grown_refl)
next
  case (Suc n)
  let ?u = "cs_uniqId s + 1"
  obtain s1 where s1: "F (Suc n + m) k s = F (n + m) (k + 1) s1"
    "lists_at s1 (added ?u L)" "memory_at s1 (added ?u L)" "grown s L s1"
    "cs_uniqId s1 = ?u" "cs_poolSize s1 = cs_poolSize s" "cs_stackSize s1 = sz"
    using step [unfolded grows_def, rule_format, of s L "n + m" k] Suc.prems by auto
  have "unat (cs_uniqId s1) + n \<le> unat (cs_poolSize s1)"
    using unat_suc_le(5) [OF Suc.prems(3)] s1(5,6) by simp
  from Suc.IH [OF s1(2,3) this s1(7), of "k + 1"] obtain s' where
    s': "F (n + m) (k + 1) s1 = F m (k + 1 + n) s'"
    "lists_at s' (added_all (new_ids (cs_uniqId s1) n) (added ?u L))"
    "memory_at s' (added_all (new_ids (cs_uniqId s1) n) (added ?u L))"
    "grown s1 (added ?u L) s'" "cs_uniqId s' = cs_uniqId s1 + word_of_nat n" "cs_poolSize s' = cs_poolSize s1"
    by blast
  show ?case
    using s1 s' grown_trans [OF s1(4) s'(4)]
    by (intro exI [of _ s']) (simp add: added_all_Cons algebra_simps)
qed

lemma increase_grows: "grows cs_increase_loop sz"
  unfolding grows_def using increase_step by blast

lemma increase_loop_spec:
  assumes "lists_at s L" and "memory_at s L" and "unat (cs_uniqId s) + n \<le> unat (cs_poolSize s)"
    and "cs_stackSize s = sz"
  shows "\<exists>s'. cs_increase_loop n k s = (Ok (k + n), s') \<and>
    lists_at s' (added_all (new_ids (cs_uniqId s) n) L) \<and>
    memory_at s' (added_all (new_ids (cs_uniqId s) n) L) \<and>
    grown s L s' \<and> cs_uniqId s' = cs_uniqId s + word_of_nat n"
  using grow_loop_spec [OF increase_grows assms, of 0 k] by (auto simp: ret_def)

lemma init_step:
  assumes lists: "lists_at s L" and mem: "memory_at s L"
    and room: "unat (cs_uniqId s) + Suc 0 \<le> unat (cs_poolSize s)" and sz: "cs_stackSize s = sz"
  shows "\<exists>s1. cs_init_loop (Suc n) sz k s = cs_init_loop n sz (k + 1) s1 \<and>
    lists_at s1 (added (cs_uniqId s + 1) L) \<and> memory_at s1 (added (cs_uniqId s + 1) L) \<and>
    grown s L s1 \<and> cs_uniqId s1 = cs_uniqId s + 1 \<and> cs_poolSize s1 = cs_poolSize s \<and>
    cs_stackSize s1 = sz"
proof -
  note w = unat_suc_le [OF room]
  obtain l h' m ps where
    alloc: "allocate (cs_stackSize s) (cs_alloc s) =
      (Ok (Some (stack_at (mapped_size (cs_stackSize s) (cs_alloc s)) l)), m)"
    and ps: "cs_all_coro s = Array ps" "unat (cs_uniqId s + 1) < length ps"
    and add: "CoroutineAddTail (Coro (cs_fresh s)) FreeHead ((cs_heap s)(Coro (cs_fresh s) \<mapsto>
        CoroutineInfo_new\<lparr>ci_uid := cs_uniqId s + 1,
          ci_stack_ctx := stack_at (mapped_size (cs_stackSize s) (cs_alloc s)) l\<rparr>)) = (Ok (), h')"
    and inv: "let s' = s\<lparr>cs_uniqId := cs_uniqId s + 1,
          cs_all_coro := Array (ps[unat (cs_uniqId s + 1) := Coro (cs_fresh s)]), cs_heap := h',
          cs_fresh := Suc (cs_fresh s), cs_alloc := m\<rparr>
       in lists_at s' (added (cs_uniqId s + 1) L) \<and> memory_at s' (added (cs_uniqId s + 1) L) \<and> grown s L s'"
    using grow_step [OF lists mem refl w(2,3)] by (elim exE conjE) (rule that)
  let ?s = "s\<lparr>cs_uniqId := cs_uniqId s + 1,
          cs_all_coro := Array (ps[unat (cs_uniqId s + 1) := Coro (cs_fresh s)]), cs_heap := h',
          cs_fresh := Suc (cs_fresh s), cs_alloc := m\<rparr>"
  have "cs_init_loop (Suc n) sz k s = cs_init_loop n sz (k + 1) ?s"
    unfolding sz [symmetric] using alloc ps add w(3,4)
    by (cases s) (simp add: andthen_def coro_new_def cs_generateId_def on_heap_def on_alloc_def zoom_def setUid_def
        setStatus_def setStackContext_def coro_set_def cs_read_def all_coro_put_def Let_def
        CoroutineInfo_new_def)
  then show ?thesis using inv sz by (intro exI [of _ ?s]) (simp add: Let_def)
qed

lemma init_grows: "grows (\<lambda>n. cs_init_loop n sz) sz"
  unfolding grows_def using init_step by blast

lemma init_loop_spec:
  assumes "lists_at s L" and "memory_at s L" and "unat (cs_uniqId s) + n \<le> unat (cs_poolSize s)"
    and "cs_stackSize s = sz"
  shows "\<exists>s'. cs_init_loop n sz k s = (Ok (k + n), s') \<and>
    lists_at s' (added_all (new_ids (cs_uniqId s) n) L) \<and>
    memory_at s' (added_all (new_ids (cs_uniqId s) n) L) \<and>
    grown s L s' \<and> cs_uniqId s' = cs_uniqId s + word_of_nat n"
  using grow_loop_spec [OF init_grows assms, of 0 k] by (auto simp: ret_def)

text \<open>The part of the state that the pool and the lists have nothing to do with.\<close>

definition rest_of :: "'p scheduler \<Rightarrow> _" where
  "rest_of s = (cs_terminal s, cs_poolSize s, cs_stackSize s, cs_handle s, cs_activeCoroQueue s,
     cs_needActiveCoroId s, cs_timeoutCoroId s, cs_clock s, cs_readings s, cs_notified s)"

definition same_points :: "'p scheduler \<Rightarrow> (CORO_STATUS \<Rightarrow> 32 word list) \<Rightarrow> 'p scheduler \<Rightarrow> bool" where
  "same_points s L s' \<longleftrightarrow> (\<forall>i. known L i \<longrightarrow> coro_point s' i = coro_point s i)"

lemma rest_ofD:
  assumes "rest_of s' = rest_of s"
  shows "cs_terminal s' = cs_terminal s" and "cs_poolSize s' = cs_poolSize s"
    and "cs_stackSize s' = cs_stackSize s" and "cs_activeCoroQueue s' = cs_activeCoroQueue s"
    and "cs_needActiveCoroId s' = cs_needActiveCoroId s" and "cs_timeoutCoroId s' = cs_timeoutCoroId s"
    and "cs_clock s' = cs_clock s" and "cs_readings s' = cs_readings s"
  using assms by (simp_all add: rest_of_def)

lemma queues_at_mono:
  assumes "queues_at s L" and "\<And>i. known L i \<Longrightarrow> known L' i" and "rest_of s' = rest_of s"
    and "L' CORO_TIMEOUT = L CORO_TIMEOUT"
  shows "queues_at s' L'"
  using assms by (auto simp: queues_at_def rest_of_def)

lemma memory_at_same:
  assumes "memory_at s L" and "cs_alloc s' = cs_alloc s" and "cs_stackSize s' = cs_stackSize s"
    and "known L' = known L" and "\<And>i. known L i \<Longrightarrow> coro_stack s' i = coro_stack s i"
  shows "memory_at s' L'"
proof -
  have "\<exists>i l. known L i \<and> x = (l, mapped_size (cs_stackSize s) (cs_alloc s)) \<and>
      coro_stack s' i = Some (stack_at (mapped_size (cs_stackSize s) (cs_alloc s)) l)"
    if x: "x \<in> set (mm_maps (cs_alloc s))" for x
  proof -
    obtain i l where "known L i" "x = (l, mapped_size (cs_stackSize s) (cs_alloc s))"
      "coro_stack s i = Some (stack_at (mapped_size (cs_stackSize s) (cs_alloc s)) l)"
      using assms(1) x unfolding memory_at_def by blast
    then show ?thesis using assms(5) by (intro exI [of _ i] exI [of _ l]) simp
  qed
  then show ?thesis using assms(1,5) unfolding memory_at_def assms(2-4) by simp
qed

lemma grownD:
  assumes "grown s L s'"
  shows "rest_of s' = rest_of s" and "cs_usedSize s' = cs_usedSize s" and "cs_currentSize s' = cs_currentSize s"
    and "cs_currentCoro s' = cs_currentCoro s" and "same_points s L s'"
    and "known L i \<Longrightarrow> slot (cs_all_coro s') i = slot (cs_all_coro s) i"
proof -
  obtain u arr h fr m where s': "s' = s\<lparr>cs_uniqId := u, cs_all_coro := arr, cs_heap := h, cs_fresh := fr, cs_alloc := m\<rparr>"
    and old: "\<forall>i. known L i \<longrightarrow> slot arr i = slot (cs_all_coro s) i \<and>
      coro_data h (slot (cs_all_coro s) i) = coro_data (cs_heap s) (slot (cs_all_coro s) i)"
    using assms unfolding grown_def by (elim exE conjE) (rule that)
  show "rest_of s' = rest_of s" "cs_usedSize s' = cs_usedSize s" "cs_currentSize s' = cs_currentSize s"
    "cs_currentCoro s' = cs_currentCoro s"
    by (simp_all add: s' rest_of_def)
  show "same_points s L s'" using old by (simp add: same_points_def coro_point_def s')
  show "slot (cs_all_coro s') i = slot (cs_all_coro s) i" if "known L i" using old that by (simp add: s')
qed

lemma known_added_all: "known (added_all is' L) i \<longleftrightarrow> i \<in> set is' \<or> known L i"
proof (induction is' arbitrary: L)
  case Nil
  then show ?case by (simp add: added_all_Nil)
next
  case (Cons j is')
  then show ?case by (auto simp: added_all_Cons known_added)
qed

lemma in_use_added_all [simp]: "in_use (added_all is' L) = in_use L"
  by (simp add: in_use_def added_all_def)

lemma ready_at_added:
  assumes "ready_at s L" and "same_points s L s'"
  shows "ready_at s' (added_all is' L)"
  using assms by (fastforce simp: ready_at_def same_points_def added_all_def known_def)

lemma added_all_other [simp]: "st \<noteq> CORO_FREE \<Longrightarrow> added_all is' L st = L st"
  by (simp add: added_all_def)

lemma mv_other [simp]: "s \<noteq> st \<Longrightarrow> s \<noteq> st' \<Longrightarrow> mv st st' i L s = L s"
  by (simp add: mv_def)

text \<open>How many coroutines the pool grows by.\<close>

definition growth :: "'p scheduler \<Rightarrow> nat" where
  "growth s = min 100 (unat (cs_poolSize s - cs_currentSize s))"

lemma increase_eq:
  assumes "0 < growth s"
  shows "increaseCoroPoolSize s =
    andthen (cs_increase_loop (growth s) 0) (\<lambda>iSucc. if iSucc = 0 then ret False
      else andthen (cs_update (\<lambda>s. s\<lparr>cs_currentSize := cs_currentSize s + word_of_nat iSucc\<rparr>)) (\<lambda>_. ret True)) s"
proof -
  define iInc where "iInc = (if 100 < cs_poolSize s - cs_currentSize s then 100 else cs_poolSize s - cs_currentSize s)"
  have inc: "unat iInc = growth s"
    by (simp add: iInc_def growth_def min_def word_less_nat_alt)
  then have ne: "\<not> iInc \<le> 0" using assms by (auto simp: word_le_nat_alt)
  show ?thesis
    unfolding increaseCoroPoolSize_def
    by (subst andthen_Ok [OF cs_read_def]) (simp only: Let_def iInc_def [symmetric] ne if_False inc)
qed

lemma increase_spec:
  assumes inv: "sched_inv s L" and room: "cs_currentSize s < cs_poolSize s"
  shows "\<exists>s'. increaseCoroPoolSize s = (Ok True, s') \<and>
    sched_inv s' (added_all (new_ids (cs_uniqId s) (growth s)) L) \<and> rest_of s' = rest_of s \<and>
    cs_currentCoro s' = cs_currentCoro s \<and> same_points s L s' \<and>
    (\<forall>i. known L i \<longrightarrow> slot (cs_all_coro s') i = slot (cs_all_coro s) i) \<and> 0 < growth s"
proof -
  note old = sched_invD [OF inv]
  have sz: "cs_uniqId s = cs_currentSize s" using old(2) by (simp add: sizes_at_def)
  let ?n = "growth s"
  have diff: "unat (cs_poolSize s - cs_currentSize s) = unat (cs_poolSize s) - unat (cs_currentSize s)"
    using room by (intro unat_sub) simp
  have pos: "0 < ?n" using room diff by (simp add: growth_def word_less_nat_alt)
  have le: "unat (cs_uniqId s) + ?n \<le> unat (cs_poolSize s)"
    using room diff sz by (simp add: growth_def word_less_nat_alt)
  obtain s1 where s1: "cs_increase_loop ?n 0 s = (Ok (0 + ?n), s1)"
    "lists_at s1 (added_all (new_ids (cs_uniqId s) ?n) L)"
    "memory_at s1 (added_all (new_ids (cs_uniqId s) ?n) L)"
    "grown s L s1" "cs_uniqId s1 = cs_uniqId s + word_of_nat ?n"
    using increase_loop_spec [OF old(1,5) le refl, of 0] by blast
  note g = grownD [OF s1(4)]
  let ?L = "added_all (new_ids (cs_uniqId s) ?n) L"
  let ?s = "s1\<lparr>cs_currentSize := cs_currentSize s1 + word_of_nat ?n\<rparr>"
  have n32: "?n < 4294967296" by (simp add: growth_def)
  have "unat (cs_currentSize s + word_of_nat ?n) = unat (cs_currentSize s) + ?n"
  proof -
    have "unat (cs_poolSize s) < 4294967296" by (rule order.strict_trans2 [OF unsigned_less]) simp
    then show ?thesis using le sz n32 by (simp add: unat_word_ariths(1) unat_of_nat)
  qed
  then have "sizes_at ?s ?L"
    using old(2) g(2,3) s1(5) le rest_ofD(2) [OF g(1)]
    by (simp add: sizes_at_def added_all_def word_le_nat_alt) (simp add: in_use_def)
  moreover have "queues_at ?s ?L"
    by (rule queues_at_mono [OF old(3)]) (use g(1) in \<open>simp_all add: known_added_all rest_of_def\<close>)
  moreover have "same_points s L ?s"
    using g(5) by (simp add: same_points_def coro_point_def)
  then have "ready_at ?s ?L" by (rule ready_at_added [OF old(4)])
  moreover have "memory_at ?s ?L"
    by (rule memory_at_same [OF s1(3)]) (simp_all add: coro_stack_def)
  ultimately have "sched_inv ?s ?L" using s1(2) by (simp add: sched_inv_def)
  moreover have "increaseCoroPoolSize s = (Ok True, ?s)"
    unfolding increase_eq [OF pos] using s1(1) pos by (simp add: andthen_def cs_update_def ret_def)
  ultimately show ?thesis
    using g pos \<open>same_points s L ?s\<close> by (intro exI [of _ ?s]) (simp add: rest_of_def)
qed

lemma increase_full:
  assumes "cs_currentSize s = cs_poolSize s"
  shows "increaseCoroPoolSize s = (Ok False, s)"
  using assms by (simp add: increaseCoroPoolSize_def andthen_def cs_read_def ret_def)

section \<open>A coroutine is created\<close>

text \<open>The last part of \<open>createCoroutine\<close>: the first of the free coroutines is taken.\<close>

definition take_free :: "'p \<Rightarrow> ('p scheduler, 32 word) act" where
  "take_free callback =
     andthen (on_heap (coro_get FreeHead)) (\<lambda>f.
     let coro = ci_next f in
     andthen (cs_assert (coro \<noteq> NullCoro)) (\<lambda>_.
     andthen (on_heap (CoroutineDel coro)) (\<lambda>_.
     andthen (cs_update (\<lambda>s. s\<lparr>cs_usedSize := cs_usedSize s + 1\<rparr>)) (\<lambda>_.
     andthen (on_heap (setStatus coro CORO_AVAIL)) (\<lambda>_.
     andthen (on_heap (CoroutineAddTail coro AvailHead)) (\<lambda>_.
     andthen (on_heap (registerFunc coro callback)) (\<lambda>_.
     andthen (on_heap (coro_get coro)) (\<lambda>c.
     ret (ci_uid c)))))))))"

lemma on_heap_Ok: "m (cs_heap s) = (r, h') \<Longrightarrow> on_heap m s = (r, s\<lparr>cs_heap := h'\<rparr>)"
  by (simp add: on_heap_def zoom_def)

lemma relink_parts:
  assumes "relink p st h = (Ok (), h3)"
  shows "\<exists>h1 h2. CoroutineDel p h = (Ok (), h1) \<and> setStatus p st h1 = (Ok (), h2) \<and>
    CoroutineAddTail p (head_of st) h2 = (Ok (), h3)"
  using assms unfolding relink_def by (elim andthen_OkE) auto

lemma same_pointsI:
  assumes "\<And>i. known L i \<Longrightarrow> coro_point s' i = coro_point s i"
  shows "same_points s L s'"
  using assms by (simp add: same_points_def)

lemma take_free_spec:
  assumes inv: "sched_inv s L" and free: "L CORO_FREE = i # fs"
  shows "\<exists>s'. take_free callback s = (Ok i, s') \<and> sched_inv s' (mv CORO_FREE CORO_AVAIL i L) \<and>
    rest_of s' = rest_of s \<and> cs_currentCoro s' = cs_currentCoro s \<and> cs_all_coro s' = cs_all_coro s \<and>
    coro_point s' i = Some callback \<and> (\<forall>j. known L j \<longrightarrow> j \<noteq> i \<longrightarrow> coro_point s' j = coro_point s j)"
proof -
  note old = sched_invD [OF inv]
  let ?p = "slot (cs_all_coro s) i" and ?L = "mv CORO_FREE CORO_AVAIL i L"
  have i: "i \<in> set (L CORO_FREE)" using free by simp
  have kn: "known L i" using i by (auto simp: known_def)
  obtain k where k: "cs_heap s FreeHead = Some k"
    using coro_rings_head [OF coro_listsD(2) [OF old(1)], of CORO_FREE] by auto
  have first: "ci_next k = ?p"
    using coro_rings_first [OF coro_listsD(2) [OF old(1)], of CORO_FREE k] k free by simp
  obtain h' where h': "relink ?p CORO_AVAIL (cs_heap s) = (Ok (), h')"
    "coro_lists (cs_all_coro s) (cs_poolSize s) (cs_uniqId s) (cs_fresh s) h' ?L"
    "coro_data h' = coro_data (cs_heap s)"
    using lists_relink [OF old(1) i, of CORO_AVAIL] by auto
  obtain h1 h2 where parts: "CoroutineDel ?p (cs_heap s) = (Ok (), h1)" "setStatus ?p CORO_AVAIL h1 = (Ok (), h2)"
    "CoroutineAddTail ?p AvailHead h2 = (Ok (), h')"
    using relink_parts [OF h'(1)] by auto
  have iL: "i \<in> set (?L CORO_AVAIL)" by (simp add: mv_def)
  obtain c where c: "h' ?p = Some c" "ci_uid c = i" using lists_slot [OF h'(2) iL] by blast
  let ?h = "h'(?p \<mapsto> c\<lparr>ci_callback := Some callback, ci_ctx_to := Some callback\<rparr>)"
  let ?s = "s\<lparr>cs_heap := ?h, cs_usedSize := cs_usedSize s + 1\<rparr>"
  have reg: "registerFunc ?p callback h' = (Ok (), ?h)" by (simp add: registerFunc_def coro_set_def c)
  have run: "take_free callback s = (Ok i, ?s)"
    unfolding take_free_def
    using k first parts reg c(2) slot_coro(2) [OF old(1) kn]
    by (cases s) (simp add: andthen_def on_heap_def zoom_def coro_get_def cs_assert_def cs_update_def ret_def Let_def)
  have lists: "lists_at ?s ?L"
    using lists_data [OF h'(2) c(1), of "\<lambda>c. c\<lparr>ci_callback := Some callback, ci_ctx_to := Some callback\<rparr>"] by simp
  have data: "coro_data ?h q = (if q = ?p then map_option (\<lambda>(u, sc, _). (u, sc, Some callback)) (coro_data (cs_heap s) q)
      else coro_data (cs_heap s) q)" for q
    unfolding h'(3) [symmetric] using c(1) by (simp add: coro_data_def)
  have other: "slot (cs_all_coro s) j \<noteq> ?p" if "known L j" "j \<noteq> i" for j
    using that i slot_inj [OF old(1) _ i] by (auto simp: known_def)
  have point: "coro_point ?s i = Some callback"
  proof -
    obtain sc q where "coro_data (cs_heap s) ?p = Some (i, sc, q)"
      using coro_listsD(5) [OF old(1) i] by (elim exE) (rule that)
    then show ?thesis by (simp add: coro_point_def data)
  qed
  have points: "coro_point ?s j = coro_point s j" if "known L j" "j \<noteq> i" for j
    using other [OF that] by (simp add: coro_point_def data)
  have known: "known ?L = known L"
    using known_mvs [of CORO_AVAIL "{CORO_FREE}" i L] mvs_in [OF old(1) i, of "{CORO_FREE}" CORO_AVAIL] by auto
  have "sizes_at ?s ?L"
  proof -
    have "in_use ?L = in_use L + 1" "length (?L CORO_FREE) + 1 = length (L CORO_FREE)"
      using free by (simp_all add: in_use_def mv_def)
    moreover have "unat (cs_usedSize s + 1) = unat (cs_usedSize s) + 1"
      by (rule unat_suc_le [of _ 0 "cs_poolSize s"])
        (use old(2) free in \<open>auto simp: sizes_at_def word_le_nat_alt\<close>)
    ultimately show ?thesis using old(2) by (simp add: sizes_at_def)
  qed
  moreover have "queues_at ?s ?L"
    by (rule queues_at_mono [OF old(3)]) (simp_all add: known rest_of_def)
  moreover have "ready_at ?s ?L"
    unfolding ready_at_def
  proof (intro allI impI)
    fix st j assume st: "st \<noteq> CORO_FREE" "j \<in> set (?L st)"
    show "coro_point ?s j \<noteq> None"
    proof (cases "j = i")
      case True
      then show ?thesis using point by simp
    next
      case False
      then have "j \<in> set (L st)" using st by (auto simp: mv_def split: if_splits)
      moreover from this have "coro_point ?s j = coro_point s j"
        by (intro points False) (auto simp: known_def)
      ultimately show ?thesis using old(4) st(1) by (simp add: ready_at_def)
    qed
  qed
  moreover have "memory_at ?s ?L"
    by (rule memory_at_same [OF old(5)])
      (simp_all add: known coro_stack_def data option.map_comp comp_def case_prod_unfold)
  ultimately have "sched_inv ?s ?L" using lists by (simp add: sched_inv_def)
  then show ?thesis using run point points by (intro exI [of _ ?s]) (simp add: rest_of_def)
qed

lemma createCoroutine_eq:
  "cs_createCoroutine callback =
     andthen (cs_read (\<lambda>s. cs_currentSize s \<le> cs_usedSize s)) (\<lambda>full.
     andthen (on_heap (CoroutineHeadEmpty FreeHead)) (\<lambda>none.
     andthen (if full \<or> none then increaseCoroPoolSize else ret True) (\<lambda>ok.
     if \<not> ok then ret 0 else take_free callback)))"
  unfolding cs_createCoroutine_def take_free_def by (rule refl)

lemma HeadEmpty_at:
  assumes "lists_at s L"
  shows "on_heap (CoroutineHeadEmpty (head_of st)) s = (Ok (L st = []), s)"
  using HeadEmpty_spec [OF coro_listsD(2) [OF assms], of st] by (cases s) (simp add: on_heap_def zoom_def)

text \<open>A full pool: nothing is created and the result is 0.\<close>

lemma createCoroutine_full:
  assumes inv: "sched_inv s L" and full: "in_use L = unat (cs_poolSize s)"
  shows "cs_createCoroutine callback s = (Ok 0, s)"
proof -
  have "unat (cs_usedSize s) = unat (cs_poolSize s)" "unat (cs_currentSize s) = unat (cs_poolSize s)"
    using sched_invD(2) [OF inv] full unfolding sizes_at_def word_le_nat_alt by linarith+
  then have eq: "cs_currentSize s = cs_poolSize s" "cs_usedSize s = cs_poolSize s"
    by (simp_all add: word_unat_eq_iff)
  show ?thesis
    using HeadEmpty_at [OF sched_invD(1) [OF inv], of CORO_FREE] increase_full [OF eq(1)] eq
    by (simp add: createCoroutine_eq andthen_def cs_read_def ret_def)
qed

text \<open>Otherwise a free one is taken, or the first of those the pool is extended by.\<close>

definition extension :: "'p scheduler \<Rightarrow> (CORO_STATUS \<Rightarrow> 32 word list) \<Rightarrow> 32 word list" where
  "extension s L = (if L CORO_FREE = [] then new_ids (cs_uniqId s) (growth s) else [])"

lemma createCoroutine_spec:
  assumes inv: "sched_inv s L" and room: "in_use L < unat (cs_poolSize s)"
  shows "\<exists>i fs s'. L CORO_FREE @ extension s L = i # fs \<and>
    cs_createCoroutine callback s = (Ok i, s') \<and>
    sched_inv s' (mv CORO_FREE CORO_AVAIL i (added_all (extension s L) L)) \<and>
    rest_of s' = rest_of s \<and> cs_currentCoro s' = cs_currentCoro s \<and> coro_point s' i = Some callback \<and>
    (\<forall>j. known L j \<longrightarrow> slot (cs_all_coro s') j = slot (cs_all_coro s) j) \<and>
    (\<forall>j. known L j \<longrightarrow> j \<noteq> i \<longrightarrow> coro_point s' j = coro_point s j)"
proof (cases "L CORO_FREE")
  case (Cons i fs)
  have "\<not> cs_currentSize s \<le> cs_usedSize s"
    using sched_invD(2) [OF inv] Cons by (simp add: sizes_at_def word_le_nat_alt)
  then have eq: "cs_createCoroutine callback s = take_free callback s"
    using HeadEmpty_at [OF sched_invD(1) [OF inv], of CORO_FREE] Cons
    by (simp add: createCoroutine_eq andthen_def cs_read_def ret_def)
  show ?thesis
    using take_free_spec [OF inv Cons, of callback] Cons
    unfolding eq by (auto simp: extension_def added_all_Nil)
next
  case Nil
  have cur: "cs_currentSize s < cs_poolSize s"
    using sched_invD(2) [OF inv] Nil room by (simp add: sizes_at_def word_less_nat_alt)
  obtain s1 where s1: "increaseCoroPoolSize s = (Ok True, s1)"
    "sched_inv s1 (added_all (new_ids (cs_uniqId s) (growth s)) L)" "rest_of s1 = rest_of s"
    "cs_currentCoro s1 = cs_currentCoro s" "same_points s L s1"
    "\<forall>i. known L i \<longrightarrow> slot (cs_all_coro s1) i = slot (cs_all_coro s) i" "0 < growth s"
    using increase_spec [OF inv cur] by blast
  have ext: "extension s L = new_ids (cs_uniqId s) (growth s)" using Nil by (simp add: extension_def)
  obtain i fs where new: "extension s L = i # fs"
    using s1(7) ext by (cases "growth s") auto
  have free: "added_all (extension s L) L CORO_FREE = i # fs" using Nil new by (simp add: added_all_def)
  have eq: "cs_createCoroutine callback s = take_free callback s1"
    using HeadEmpty_at [OF sched_invD(1) [OF inv], of CORO_FREE] Nil s1(1)
    by (simp add: createCoroutine_eq andthen_def cs_read_def)
  obtain s' where s': "take_free callback s1 = (Ok i, s')"
    "sched_inv s' (mv CORO_FREE CORO_AVAIL i (added_all (extension s L) L))"
    "rest_of s' = rest_of s1" "cs_currentCoro s' = cs_currentCoro s1" "cs_all_coro s' = cs_all_coro s1"
    "coro_point s' i = Some callback"
    "\<forall>j. known (added_all (extension s L) L) j \<longrightarrow> j \<noteq> i \<longrightarrow> coro_point s' j = coro_point s1 j"
    using take_free_spec [OF s1(2) [folded ext] free, of callback] by blast
  show ?thesis
    using s' s1 new Nil unfolding eq
    by (intro exI [of _ i] exI [of _ fs] exI [of _ s']) (simp add: known_added_all same_points_def)
qed

section \<open>A coroutine runs until it gives up the thread\<close>

lemma sched_inv_switch:
  assumes inv: "sched_inv s L" and cur: "the_current s L st i" and ctx: "st \<noteq> CORO_FREE \<Longrightarrow> ctx \<noteq> None"
  shows "\<exists>s'. switch_to_main ctx s = (Ok (), s') \<and> sched_inv s' L \<and> rest_of s' = rest_of s \<and>
    cs_currentCoro s' = MainCoro \<and> coro_point s' i = ctx \<and>
    (\<forall>j. known L j \<longrightarrow> j \<noteq> i \<longrightarrow> coro_point s' j = coro_point s j)"
proof -
  note old = sched_invD [OF inv]
  have i: "i \<in> set (L st)" using cur by (simp add: the_current_def)
  obtain h' where h': "switch_to_main ctx s = (Ok (), s\<lparr>cs_currentCoro := MainCoro, cs_heap := h'\<rparr>)"
    "coro_lists (cs_all_coro s) (cs_poolSize s) (cs_uniqId s) (cs_fresh s) h' L"
    "coro_data h' = (coro_data (cs_heap s))(slot (cs_all_coro s) i :=
      map_option (\<lambda>(u, sc, _). (u, sc, ctx)) (coro_data (cs_heap s) (slot (cs_all_coro s) i)))"
    using switch_to_main_spec [OF old(1) cur, of ctx] by blast
  let ?s = "s\<lparr>cs_currentCoro := MainCoro, cs_heap := h'\<rparr>"
  obtain sc q where d: "coro_data (cs_heap s) (slot (cs_all_coro s) i) = Some (i, sc, q)"
    using coro_listsD(5) [OF old(1) i] by (elim exE) (rule that)
  have point: "coro_point ?s i = ctx" by (simp add: coro_point_def h'(3) d)
  have other: "slot (cs_all_coro s) j \<noteq> slot (cs_all_coro s) i" if "known L j" "j \<noteq> i" for j
    using that i slot_inj [OF old(1) _ i] by (auto simp: known_def)
  have points: "coro_point ?s j = coro_point s j" if "known L j" "j \<noteq> i" for j
    using other [OF that] by (simp add: coro_point_def h'(3))
  have "ready_at ?s L"
    unfolding ready_at_def
  proof (intro allI impI)
    fix st' j assume j: "st' \<noteq> CORO_FREE" "j \<in> set (L st')"
    show "coro_point ?s j \<noteq> None"
    proof (cases "j = i")
      case True
      then have "st' = st" using lists_apart [OF old(1) j(2)] i by blast
      then show ?thesis using True point ctx j(1) by simp
    next
      case False
      have "known L j" using j(2) by (auto simp: known_def)
      then show ?thesis using False points old(4) j by (simp add: ready_at_def)
    qed
  qed
  moreover have "memory_at ?s L"
    by (rule memory_at_same [OF old(5)])
      (simp_all add: coro_stack_def h'(3) option.map_comp comp_def case_prod_unfold)
  moreover have "queues_at ?s L" by (rule queues_at_mono [OF old(3)]) (simp_all add: rest_of_def)
  moreover have "sizes_at ?s L" using old(2) by (simp add: sizes_at_def)
  ultimately have "sched_inv ?s L" using h'(2) by (simp add: sched_inv_def)
  then show ?thesis using h'(1) point points by (intro exI [of _ ?s]) (simp add: rest_of_def)
qed

text \<open>A running coroutine moves among the lists of those in use.\<close>

lemma move_running:
  assumes inv: "sched_inv s L" and cur: "the_current s L st i" and st: "st \<in> {CORO_ACTIVE, CORO_AVAIL}"
    and to: "to \<in> {CORO_INACTIVE, CORO_TIMEOUT}"
    and timer: "to = CORO_TIMEOUT \<Longrightarrow> i \<in> snd ` set (cs_timeoutCoroId s)"
  shows "\<exists>s'. andthen (move_if {CORO_ACTIVE, CORO_AVAIL} to (cs_currentCoro s)) (\<lambda>_. switch_to_main (Some p)) s = (Ok (), s') \<and>
    sched_inv s' (mv st to i L) \<and> rest_of s' = rest_of s \<and> cs_currentCoro s' = MainCoro \<and>
    coro_point s' i = Some p \<and> (\<forall>j. known L j \<longrightarrow> j \<noteq> i \<longrightarrow> coro_point s' j = coro_point s j)"
proof -
  note old = sched_invD [OF inv]
  let ?from = "{CORO_ACTIVE, CORO_AVAIL}" and ?L = "mv st to i L"
  have i: "i \<in> set (L st)" and kn: "known L i" using cur by (auto simp: the_current_def known_def)
  have ne: "to \<notin> ?from" "st \<noteq> to" "st \<noteq> CORO_FREE" "to \<noteq> CORO_FREE" using st to by auto
  have mv: "mvs ?from to i L = ?L" by (rule mvs_in [OF old(1) i st ne(1)])
  obtain h1 where h1: "move_if ?from to (slot (cs_all_coro s) i) s = (Ok (), s\<lparr>cs_heap := h1\<rparr>)"
    "lists_at (s\<lparr>cs_heap := h1\<rparr>) ?L" "coro_data h1 = coro_data (cs_heap s)"
    using move_if_spec [OF old(1) kn ne(1)] unfolding mv by blast
  have "known ?L = known L" using known_mvs [OF ne(1), of i L] unfolding mv by (rule ext)
  then have same: "same_coros L ?L"
    using in_use_mv [of i L st to] i ne by (simp add: same_coros_def)
  have "set (?L CORO_TIMEOUT) \<subseteq> snd ` set (cs_timeoutCoroId s)"
    using old(3) timer st to by (auto simp: queues_at_def mv_def)
  from sched_inv_heap [OF inv h1(2,3) same this] have inv1: "sched_inv (s\<lparr>cs_heap := h1\<rparr>) ?L" .
  have cur1: "the_current (s\<lparr>cs_heap := h1\<rparr>) ?L to i"
    using cur by (simp add: the_current_def mv_def)
  obtain s' where s': "switch_to_main (Some p) (s\<lparr>cs_heap := h1\<rparr>) = (Ok (), s')" "sched_inv s' ?L"
    "rest_of s' = rest_of (s\<lparr>cs_heap := h1\<rparr>)" "cs_currentCoro s' = MainCoro" "coro_point s' i = Some p"
    "\<forall>j. known ?L j \<longrightarrow> j \<noteq> i \<longrightarrow> coro_point s' j = coro_point (s\<lparr>cs_heap := h1\<rparr>) j"
    using sched_inv_switch [OF inv1 cur1, of "Some p"] by auto
  show ?thesis
    using h1(1) s' cur same coro_point_heap [OF h1(3)]
    by (intro exI [of _ s']) (simp add: andthen_def the_current_def rest_of_def same_coros_def)
qed

lemma coro_finish_spec:
  assumes inv: "sched_inv s L" and cur: "the_current s L st i" and st: "st \<in> {CORO_ACTIVE, CORO_AVAIL}"
  shows "\<exists>s'. coro_finish s = (Ok (), s') \<and> sched_inv s' (mv st CORO_FREE i L) \<and>
    rest_of s' = rest_of s \<and> cs_currentCoro s' = MainCoro \<and>
    (\<forall>j. known L j \<longrightarrow> j \<noteq> i \<longrightarrow> coro_point s' j = coro_point s j)"
proof -
  note old = sched_invD [OF inv]
  let ?from = "{CORO_ACTIVE, CORO_AVAIL, CORO_INACTIVE, CORO_TIMEOUT}" and ?L = "mv st CORO_FREE i L"
  let ?s1 = "s\<lparr>cs_usedSize := cs_usedSize s - 1\<rparr>"
  have i: "i \<in> set (L st)" and kn: "known L i" using cur by (auto simp: the_current_def known_def)
  have fr: "CORO_FREE \<notin> ?from" "st \<in> ?from" "st \<noteq> CORO_FREE" using st by auto
  have lists1: "lists_at ?s1 L" using old(1) by simp
  have mv: "mvs ?from CORO_FREE i L = ?L" by (rule mvs_in [OF old(1) i fr(2,1)])
  obtain h1 where h1: "move_if ?from CORO_FREE (slot (cs_all_coro s) i) ?s1 = (Ok (), ?s1\<lparr>cs_heap := h1\<rparr>)"
    "lists_at (?s1\<lparr>cs_heap := h1\<rparr>) ?L" "coro_data h1 = coro_data (cs_heap s)"
    using move_if_spec [OF lists1 kn fr(1)] unfolding mv by auto
  let ?s2 = "?s1\<lparr>cs_heap := h1\<rparr>"
  have known: "known ?L = known L" using known_mvs [OF fr(1), of i L] unfolding mv by (rule ext)
  have point: "coro_point ?s2 j = coro_point s j" for j
    by (simp add: coro_point_def h1(3))
  have "sizes_at ?s2 ?L"
  proof -
    have len: "length (L st) = Suc (length (remove1 i (L st)))"
      using length_pos_if_in_set [OF i] i by (simp add: length_remove1)
    have use: "in_use L = in_use ?L + 1" "length (?L CORO_FREE) = length (L CORO_FREE) + 1"
      using st len by (auto simp: in_use_def mv_def)
    then have "unat (cs_usedSize s - 1) = unat (cs_usedSize s) - 1"
      using old(2) by (intro unat_minus_one) (auto simp: sizes_at_def)
    then show ?thesis using use old(2) by (simp add: sizes_at_def)
  qed
  moreover have "queues_at ?s2 ?L"
    by (rule queues_at_mono [OF old(3)]) (use st in \<open>auto simp: known rest_of_def\<close>)
  moreover have "ready_at ?s2 ?L"
    unfolding ready_at_def point
  proof (intro allI impI)
    fix st' j assume j: "st' \<noteq> CORO_FREE" "j \<in> set (?L st')"
    have "set (?L st') \<subseteq> set (L st')"
      using j(1) set_remove1_subset [of i "L st"] by (auto simp: mv_def)
    then have "j \<in> set (L st')" using j(2) by blast
    then show "coro_point s j \<noteq> None" using old(4) j(1) by (simp add: ready_at_def)
  qed
  moreover have "memory_at ?s2 ?L"
    by (rule memory_at_same [OF old(5)]) (simp_all add: known coro_stack_def h1(3))
  ultimately have inv2: "sched_inv ?s2 ?L" using h1(2) by (simp add: sched_inv_def)
  have cur2: "the_current ?s2 ?L CORO_FREE i" using cur by (simp add: the_current_def mv_def)
  obtain s' where s': "switch_to_main None ?s2 = (Ok (), s')" "sched_inv s' ?L" "rest_of s' = rest_of ?s2"
    "cs_currentCoro s' = MainCoro" "\<forall>j. known ?L j \<longrightarrow> j \<noteq> i \<longrightarrow> coro_point s' j = coro_point ?s2 j"
    using sched_inv_switch [OF inv2 cur2, of None] by blast
  have "coro_finish s = (Ok (), s')"
    using h1(1) s'(1) cur
    by (simp add: coro_finish_def moveToFreeList_def andthen_def cs_read_def cs_update_def the_current_def)
  then show ?thesis using s'(2-5) by (intro exI [of _ s']) (simp add: point known rest_of_def)
qed

lemma current_uid:
  assumes "sched_inv s L" and "the_current s L st i"
  shows "\<exists>c. coro_get (cs_currentCoro s) (cs_heap s) = (Ok c, cs_heap s) \<and> ci_uid c = i"
  using lists_slot [OF sched_invD(1) [OF assms(1)], of i st] assms(2)
  by (auto simp: the_current_def coro_get_def)

text \<open>What a segment leaves alone.\<close>

definition fixed_of :: "'p scheduler \<Rightarrow> _" where
  "fixed_of s = (cs_terminal s, cs_poolSize s, cs_stackSize s, cs_handle s, cs_activeCoroQueue s,
     cs_clock s, cs_notified s)"

lemma fixed_of_rest: "rest_of s' = rest_of s \<Longrightarrow> fixed_of s' = fixed_of s"
  by (simp add: rest_of_def fixed_of_def)

lemma cs_yield_spec:
  assumes inv: "sched_inv s L" and cur: "the_current s L st i" and st: "st \<in> {CORO_ACTIVE, CORO_AVAIL}"
  shows "\<exists>s'. cs_yield b p s = (Ok (), s') \<and> sched_inv s' (mv st CORO_INACTIVE i L) \<and>
    fixed_of s' = fixed_of s \<and> cs_currentCoro s' = MainCoro \<and> coro_point s' i = Some p \<and>
    cs_needActiveCoroId s' = cs_needActiveCoroId s @ (if b \<and> \<not> cs_terminal s then [i] else []) \<and>
    cs_timeoutCoroId s' = cs_timeoutCoroId s"
proof -
  define s1 where "s1 = (if b \<and> \<not> cs_terminal s
    then s\<lparr>cs_needActiveCoroId := cs_needActiveCoroId s @ [i]\<rparr> else s)"
  have same: "cs_currentCoro s1 = cs_currentCoro s" by (simp add: s1_def)
  have "known L i" using cur by (auto simp: the_current_def known_def)
  then have "queues_at s1 L" using sched_invD(3) [OF inv] by (auto simp: s1_def queues_at_def)
  then have inv': "sched_inv s1 L" by (rule sched_inv_queues [OF inv]) (simp_all add: s1_def)
  have cur': "the_current s1 L st i" using cur by (simp add: s1_def the_current_def)
  obtain s' where s': "andthen (move_if {CORO_ACTIVE, CORO_AVAIL} CORO_INACTIVE (cs_currentCoro s1))
      (\<lambda>_. switch_to_main (Some p)) s1 = (Ok (), s')"
    "sched_inv s' (mv st CORO_INACTIVE i L)" "rest_of s' = rest_of s1" "cs_currentCoro s' = MainCoro"
    "coro_point s' i = Some p"
    using move_running [OF inv' cur' st, of CORO_INACTIVE p] by auto
  obtain c where "coro_get (cs_currentCoro s) (cs_heap s) = (Ok c, cs_heap s)" "ci_uid c = i"
    using current_uid [OF inv cur] by blast
  then have "(if b then andthen (on_heap (coro_get (cs_currentCoro s))) (\<lambda>c. cs_putbyself (ci_uid c)) else ret ()) s = (Ok (), s1)"
    by (cases s) (simp add: s1_def andthen_def on_heap_def zoom_def cs_putbyself_def cs_update_def ret_def)
  then have "cs_yield b p s = (Ok (), s')"
    using s'(1) unfolding cs_yield_def moveToInactive_def same
    by (subst andthen_Ok [OF cs_read_def]) (simp only: andthen_Ok)
  then show ?thesis using s' by (intro exI [of _ s']) (auto simp: s1_def rest_of_def fixed_of_def)
qed

lemma cs_sleep_spec:
  assumes inv: "sched_inv s L" and cur: "the_current s L st i" and st: "st \<in> {CORO_ACTIVE, CORO_AVAIL}"
    and t: "sint t \<noteq> - (2 ^ 31)"
  shows "\<exists>s'. cs_sleep t p s = (Ok (), s') \<and> sched_inv s' (mv st CORO_TIMEOUT i L) \<and>
    fixed_of s' = fixed_of s \<and> cs_currentCoro s' = MainCoro \<and> coro_point s' i = Some p \<and>
    cs_needActiveCoroId s' = cs_needActiveCoroId s \<and>
    cs_timeoutCoroId s' = time_insert (cs_clock s (cs_readings s) + \<bar>sint t\<bar>) i (cs_timeoutCoroId s) \<and>
    cs_readings s' = cs_readings s + 1"
proof -
  let ?tm = "time_insert (cs_clock s (cs_readings s) + \<bar>sint t\<bar>) i (cs_timeoutCoroId s)"
  let ?s = "s\<lparr>cs_readings := cs_readings s + 1, cs_timeoutCoroId := ?tm\<rparr>"
  have "known L i" using cur by (auto simp: the_current_def known_def)
  then have "queues_at ?s L"
    using sched_invD(3) [OF inv]
    by (auto simp: queues_at_def time_insert_set intro!: time_insert_sorted)
  then have inv': "sched_inv ?s L" by (rule sched_inv_queues [OF inv]) simp_all
  have cur': "the_current ?s L st i" using cur by (simp add: the_current_def)
  have timer: "i \<in> snd ` set (cs_timeoutCoroId ?s)" by (simp add: time_insert_set)
  obtain s' where s': "andthen (move_if {CORO_ACTIVE, CORO_AVAIL} CORO_TIMEOUT (cs_currentCoro ?s))
      (\<lambda>_. switch_to_main (Some p)) ?s = (Ok (), s')"
    "sched_inv s' (mv st CORO_TIMEOUT i L)" "rest_of s' = rest_of ?s" "cs_currentCoro s' = MainCoro"
    "coro_point s' i = Some p"
    using move_running [OF inv' cur' st, of CORO_TIMEOUT p] timer by auto
  obtain c where "coro_get (cs_currentCoro s) (cs_heap s) = (Ok c, cs_heap s)" "ci_uid c = i"
    using current_uid [OF inv cur] by blast
  moreover have "sleep_time t s2 = (Ok \<bar>sint t\<bar>, s2)" for s2 :: "'a scheduler"
    using t by (simp add: sleep_time_def abs_if)
  ultimately have "cs_sleep t p s = (Ok (), s')"
    using s'(1)
    by (cases s) (simp add: cs_sleep_def moveToTimeout_def gettime_def andthen_def cs_read_def
        on_heap_def zoom_def cs_update_def)
  then show ?thesis using s' by (intro exI [of _ s']) (auto simp: rest_of_def fixed_of_def)
qed

end
