(* ===== verification/Coro_Fair.thy ===== *)
theory Coro_Fair
  imports Coro_Turns
begin

text \<open>
  Whole rounds of the scheduler: whoever is in the active or the available list runs, in the order
  of the list and at most a hundred of each list in one round, whatever the coroutines do when
  they run.
\<close>

section \<open>Segments\<close>

text \<open>The argument of \<open>sleep\<close> that has no absolute value is excluded.\<close>

primrec step_ok :: "'p coro_step \<Rightarrow> bool" where
  "step_ok Finish = True"
| "step_ok (Yield bFlag p) = True"
| "step_ok (Sleep iSleepTime p) = (sint iSleepTime \<noteq> - (2 ^ 31))"
| "step_ok (Create callback k) = (\<forall>i. step_ok (k i))"

definition prog_ok :: "('p \<Rightarrow> 'p coro_step) \<Rightarrow> bool" where
  "prog_ok prog \<longleftrightarrow> (\<forall>p. step_ok (prog p))"

text \<open>
  A coroutine has left the thread: it is in neither list of those that can run, and what it created
  is behind the available ones.
\<close>

definition ran :: "32 word \<Rightarrow> 'p scheduler \<Rightarrow> (CORO_STATUS \<Rightarrow> 32 word list) \<Rightarrow> 'p scheduler
    \<Rightarrow> (CORO_STATUS \<Rightarrow> 32 word list) \<Rightarrow> bool" where
  "ran i s L s' L' \<longleftrightarrow> sched_inv s' L' \<and> fixed_of s' = fixed_of s \<and> cs_currentCoro s' = MainCoro \<and>
     L' CORO_ACTIVE = remove1 i (L CORO_ACTIVE) \<and>
     (\<exists>new. L' CORO_AVAIL = remove1 i (L CORO_AVAIL) @ new) \<and>
     (\<forall>j. known L j \<longrightarrow> known L' j)"

lemma known_mv:
  assumes "coro_lists arr pool uniq fresh h L" and "i \<in> set (L st)" and "st \<noteq> st'"
  shows "known (mv st st' i L) = known L"
proof (rule ext)
  fix j
  have "mvs {st} st' i L = mv st st' i L" by (rule mvs_in [OF assms(1,2)]) (use assms(3) in auto)
  then show "known (mv st st' i L) j = known L j"
    using known_mvs [of st' "{st}" i L j] assms(3) by simp
qed

lemma ran_mv:
  assumes inv: "sched_inv s L" and i: "i \<in> set (L st)" and st: "st \<in> {CORO_ACTIVE, CORO_AVAIL}"
    and to: "st' \<notin> {CORO_ACTIVE, CORO_AVAIL}"
    and s': "sched_inv s' (mv st st' i L)" "fixed_of s' = fixed_of s" "cs_currentCoro s' = MainCoro"
  shows "ran i s L s' (mv st st' i L)"
proof -
  have "remove1 i (L s0) = L s0" if "s0 \<noteq> st" for s0
    using lists_apart [OF sched_invD(1) [OF inv] i, of s0] that by (intro remove1_idem) blast
  then have "mv st st' i L CORO_ACTIVE = remove1 i (L CORO_ACTIVE)"
    and "mv st st' i L CORO_AVAIL = remove1 i (L CORO_AVAIL) @ []"
    using st to by (auto simp: mv_def)
  moreover have "known (mv st st' i L) = known L"
    by (rule known_mv [OF sched_invD(1) [OF inv] i]) (use st to in auto)
  ultimately show ?thesis using s' unfolding ran_def by auto
qed

lemma coro_exec_spec:
  assumes "sched_inv s L" and "the_current s L st i" and "st \<in> {CORO_ACTIVE, CORO_AVAIL}" and "step_ok step"
  shows "\<exists>s' L'. coro_exec step s = (Ok (), s') \<and> ran i s L s' L'"
  using assms
proof (induction step arbitrary: s L)
  case Finish
  have i: "i \<in> set (L st)" using Finish.prems(2) by (simp add: the_current_def)
  show ?case
    using coro_finish_spec [OF Finish.prems(1-3)] ran_mv [OF Finish.prems(1) i Finish.prems(3), of CORO_FREE]
    by (auto dest: fixed_of_rest)
next
  case (Yield b p)
  have i: "i \<in> set (L st)" using Yield.prems(2) by (simp add: the_current_def)
  show ?case
    using cs_yield_spec [OF Yield.prems(1-3), of b p] ran_mv [OF Yield.prems(1) i Yield.prems(3), of CORO_INACTIVE]
    by auto
next
  case (Sleep t p)
  have i: "i \<in> set (L st)" using Sleep.prems(2) by (simp add: the_current_def)
  show ?case
    using cs_sleep_spec [OF Sleep.prems(1-3), of t p] Sleep.prems(4)
      ran_mv [OF Sleep.prems(1) i Sleep.prems(3), of CORO_TIMEOUT]
    by auto
next
  case (Create callback k)
  note inv = Create.prems(1) and cur = Create.prems(2)
  have IH: "\<exists>s' L'. coro_exec (k j) s = (Ok (), s') \<and> ran i s L s' L'"
    if "sched_inv s L" "the_current s L st i" for j s L
    using Create.IH [of "k j" s L] that Create.prems(3,4) by simp
  have "in_use L \<le> unat (cs_poolSize s)"
    using sched_invD(2) [OF inv] by (simp add: sizes_at_def word_le_nat_alt)
  then consider (full) "in_use L = unat (cs_poolSize s)" | (room) "in_use L < unat (cs_poolSize s)"
    by linarith
  then show ?case
  proof cases
    case full
    then show ?thesis
      using createCoroutine_full [OF inv full, of callback] IH [OF inv cur, of 0] by (simp add: andthen_def)
  next
    case room
    let ?L1 = "added_all (extension s L) L"
    obtain j fs s1 where c: "L CORO_FREE @ extension s L = j # fs"
      "cs_createCoroutine callback s = (Ok j, s1)" "sched_inv s1 (mv CORO_FREE CORO_AVAIL j ?L1)"
      "rest_of s1 = rest_of s" "cs_currentCoro s1 = cs_currentCoro s"
      "\<forall>j. known L j \<longrightarrow> slot (cs_all_coro s1) j = slot (cs_all_coro s) j"
      using createCoroutine_spec [OF inv room, of callback] by blast
    let ?L2 = "mv CORO_FREE CORO_AVAIL j ?L1"
    have i: "i \<in> set (L st)" and kn: "known L i" using cur by (auto simp: the_current_def known_def)
    have L2: "?L2 CORO_ACTIVE = L CORO_ACTIVE" "?L2 CORO_AVAIL = L CORO_AVAIL @ [j]"
      by (simp_all add: mv_def added_all_def)
    then have "the_current s1 ?L2 st i"
      using cur c(5,6) kn Create.prems(3) by (auto simp: the_current_def)
    from IH [OF c(3) this, of j] obtain s' L' where
      s': "coro_exec (k j) s1 = (Ok (), s')" and r: "ran i s1 ?L2 s' L'" by blast
    have "known ?L2 x" if x: "known L x" for x
    proof -
      obtain st0 where "x \<in> set (L st0)" using x unfolding known_def ..
      then have "x = j \<or> x \<in> set (?L2 st0)" by (cases "x = j") (auto simp: mv_def added_all_def)
      moreover have "j \<in> set (?L2 CORO_AVAIL)" by (simp add: mv_def)
      ultimately show ?thesis unfolding known_def by blast
    qed
    moreover have "remove1 i (L CORO_AVAIL @ [j]) = remove1 i (L CORO_AVAIL) @ remove1 i (if i \<in> set (L CORO_AVAIL) then [] else [j])
        @ (if i \<in> set (L CORO_AVAIL) then [j] else [])"
      by (simp add: remove1_append remove1_idem)
    ultimately have "ran i s L s' L'"
      using r fixed_of_rest [OF c(4)] unfolding ran_def L2 by (auto simp: append_assoc)
    then show ?thesis using s' c(2) by (auto simp: andthen_def)
  qed
qed

section \<open>Rounds\<close>

lemma first_of_ring:
  assumes inv: "sched_inv s L" and L: "L st = i # is'"
  shows "\<exists>k. on_heap (coro_get (head_of st)) s = (Ok k, s) \<and> ci_next k = slot (cs_all_coro s) i"
    and "slot (cs_all_coro s) i \<noteq> NullCoro"
    and "\<exists>c. on_heap (coro_get (slot (cs_all_coro s) i)) s = (Ok c, s) \<and> ci_uid c = i \<and> ci_ctx_to c = coro_point s i"
proof -
  note lists = sched_invD(1) [OF inv]
  have i: "i \<in> set (L st)" using L by simp
  obtain k where k: "cs_heap s (head_of st) = Some k"
    using coro_rings_head [OF coro_listsD(2) [OF lists], of st] by blast
  have "ci_next k = slot (cs_all_coro s) i"
    using coro_rings_first [OF coro_listsD(2) [OF lists] k] L by simp
  then show "\<exists>k. on_heap (coro_get (head_of st)) s = (Ok k, s) \<and> ci_next k = slot (cs_all_coro s) i"
    using k by (cases s) (simp add: on_heap_def zoom_def coro_get_def)
  show "slot (cs_all_coro s) i \<noteq> NullCoro"
    by (rule slot_coro(2) [OF lists]) (use i in \<open>auto simp: known_def\<close>)
  obtain c where c: "cs_heap s (slot (cs_all_coro s) i) = Some c" "ci_uid c = i"
    using lists_slot [OF lists i] by blast
  then have "coro_point s i = ci_ctx_to c" by (simp add: coro_point_def coro_data_def)
  then show "\<exists>c. on_heap (coro_get (slot (cs_all_coro s) i)) s = (Ok c, s) \<and> ci_uid c = i \<and> ci_ctx_to c = coro_point s i"
    using c by (cases s) (simp add: on_heap_def zoom_def coro_get_def)
qed

lemma cs_resume_spec:
  assumes inv: "sched_inv s L" and prog: "prog_ok prog" and st: "st \<in> {CORO_ACTIVE, CORO_AVAIL}"
    and L: "L st = i # is'"
  shows "\<exists>s' L'. cs_resume prog (slot (cs_all_coro s) i) s = (Ok (), s') \<and> ran i s L s' L'"
proof -
  let ?s = "s\<lparr>cs_currentCoro := slot (cs_all_coro s) i\<rparr>"
  have inv': "sched_inv ?s L"
    by (rule sched_inv_queues [OF inv]) (use sched_invD(3) [OF inv] in \<open>simp_all add: queues_at_def\<close>)
  have cur: "the_current ?s L st i" using L by (simp add: the_current_def)
  obtain c where c: "on_heap (coro_get (slot (cs_all_coro s) i)) ?s = (Ok c, ?s)" "ci_ctx_to c = coro_point ?s i"
    using first_of_ring(3) [OF inv' L] by auto
  have "coro_point ?s i \<noteq> None"
    using sched_invD(4) [OF inv'] L st unfolding ready_at_def by (metis CORO_STATUS.distinct(1,3) insert_iff list.set_intros(1) empty_iff)
  then obtain p where p: "ci_ctx_to c = Some p" using c(2) by auto
  have "step_ok (prog p)" using prog by (simp add: prog_ok_def)
  from coro_exec_spec [OF inv' cur st this] obtain s' L' where
    s': "coro_exec (prog p) ?s = (Ok (), s')" "ran i ?s L s' L'" by blast
  have "ran i s L s' L'" using s'(2) by (simp add: ran_def fixed_of_def)
  moreover have "cs_resume prog (slot (cs_all_coro s) i) s = (Ok (), s')"
    using c(1) p s'(1) by (simp add: cs_resume_def andthen_def cs_update_def)
  ultimately show ?thesis by blast
qed

text \<open>One turn of the loop over a ring.\<close>

lemma run_ring_step:
  assumes inv: "sched_inv s L" and prog: "prog_ok prog" and st: "st \<in> {CORO_ACTIVE, CORO_AVAIL}"
    and L: "L st = i # is'"
  shows "\<exists>s1 L1. run_ring prog (head_of st) (Suc n) s =
      (case run_ring prog (head_of st) n s1 of (Ok log, s') \<Rightarrow> (Ok (i # log), s') | r \<Rightarrow> r) \<and>
    ran i s L s1 L1"
proof -
  obtain s1 L1 where s1: "cs_resume prog (slot (cs_all_coro s) i) s = (Ok (), s1)" "ran i s L s1 L1"
    using cs_resume_spec [OF inv prog st L] by blast
  have none: "on_heap (CoroutineHeadEmpty (head_of st)) s = (Ok False, s)"
    using HeadEmpty_at [OF sched_invD(1) [OF inv], of st] L by simp
  obtain k c where "on_heap (coro_get (head_of st)) s = (Ok k, s)" "ci_next k = slot (cs_all_coro s) i"
    "on_heap (coro_get (slot (cs_all_coro s) i)) s = (Ok c, s)" "ci_uid c = i"
    using first_of_ring [OF inv L] by blast
  then have "run_ring prog (head_of st) (Suc n) s =
      andthen (run_ring prog (head_of st) n) (\<lambda>log. ret (i # log)) s1"
    using none s1(1) first_of_ring(2) [OF inv L]
    by (simp add: andthen_Ok cs_assert_def Let_def)
  also have "\<dots> = (case run_ring prog (head_of st) n s1 of (Ok log, s') \<Rightarrow> (Ok (i # log), s') | r \<Rightarrow> r)"
    by (simp add: andthen_def ret_def split: prod.split outcome.split)
  finally show ?thesis using s1(2) by blast
qed

text \<open>Active coroutines run first come first served; nothing joins them meanwhile.\<close>

definition fixed :: "'p scheduler \<Rightarrow> (CORO_STATUS \<Rightarrow> 32 word list) \<Rightarrow> 'p scheduler
    \<Rightarrow> (CORO_STATUS \<Rightarrow> 32 word list) \<Rightarrow> bool" where
  "fixed s L s' L' \<longleftrightarrow> sched_inv s' L' \<and> fixed_of s' = fixed_of s \<and> (\<forall>j. known L j \<longrightarrow> known L' j)"

lemma fixed_refl: "sched_inv s L \<Longrightarrow> fixed s L s L"
  by (simp add: fixed_def)

lemma fixed_trans: "fixed s L s1 L1 \<Longrightarrow> fixed s1 L1 s2 L2 \<Longrightarrow> fixed s L s2 L2"
  by (auto simp: fixed_def)

lemma ran_fixed: "ran i s L s1 L1 \<Longrightarrow> fixed s L s1 L1"
  by (auto simp: ran_def fixed_def)

lemma remove1_other: "i \<in> set (L st) \<Longrightarrow> sched_inv s L \<Longrightarrow> st' \<noteq> st \<Longrightarrow> remove1 i (L st') = L st'"
  using lists_apart [OF sched_invD(1), of s L i st st'] by (intro remove1_idem) blast

lemma run_ring_empty:
  assumes "sched_inv s L" and "L st = []"
  shows "run_ring prog (head_of st) n s = (Ok [], s)"
  using HeadEmpty_at [OF sched_invD(1) [OF assms(1)], of st] assms(2)
  by (cases n) (simp_all add: andthen_Ok ret_def)

lemma run_active_spec:
  assumes "sched_inv s L" and "prog_ok prog"
  shows "\<exists>s' L' new. run_ring prog ActiveHead n s = (Ok (take n (L CORO_ACTIVE)), s') \<and> fixed s L s' L' \<and>
    L' CORO_ACTIVE = drop n (L CORO_ACTIVE) \<and> L' CORO_AVAIL = L CORO_AVAIL @ new"
  using assms(1)
proof (induction n arbitrary: s L)
  case 0
  then show ?case by (auto simp: ret_def intro: fixed_refl)
next
  case (Suc n)
  show ?case
  proof (cases "L CORO_ACTIVE")
    case Nil
    then show ?thesis
      using run_ring_empty [OF Suc.prems Nil, of prog "Suc n"] fixed_refl [OF Suc.prems]
      by (auto simp del: run_ring.simps)
  next
    case (Cons i is')
    obtain s1 L1 where step: "run_ring prog ActiveHead (Suc n) s =
        (case run_ring prog ActiveHead n s1 of (Ok log, s') \<Rightarrow> (Ok (i # log), s') | r \<Rightarrow> r)"
      and r: "ran i s L s1 L1"
      using run_ring_step [OF Suc.prems assms(2) _ Cons, of n] by auto
    obtain new where L1: "L1 CORO_ACTIVE = is'" "L1 CORO_AVAIL = L CORO_AVAIL @ new"
      using r Cons remove1_other [OF _ Suc.prems, of i CORO_ACTIVE CORO_AVAIL] by (auto simp: ran_def)
    have "sched_inv s1 L1" using r by (simp add: ran_def)
    from Suc.IH [OF this] obtain s' L' new' where
      s': "run_ring prog ActiveHead n s1 = (Ok (take n is'), s')" "fixed s1 L1 s' L'"
      "L' CORO_ACTIVE = drop n is'" "L' CORO_AVAIL = L CORO_AVAIL @ new @ new'"
      using L1 by auto
    then show ?thesis
      using Cons fixed_trans [OF ran_fixed [OF r] s'(2)] step by (auto simp del: run_ring.simps)
  qed
qed

text \<open>Available ones too, and those created in the meantime come behind them.\<close>

lemma run_avail_spec:
  assumes "sched_inv s L" and "prog_ok prog"
  shows "\<exists>s' L' new. run_ring prog AvailHead n s = (Ok (take n (L CORO_AVAIL @ new)), s') \<and> fixed s L s' L' \<and>
    L' CORO_AVAIL = drop n (L CORO_AVAIL @ new) \<and> L' CORO_ACTIVE = L CORO_ACTIVE"
  using assms(1)
proof (induction n arbitrary: s L)
  case 0
  then show ?case
    by (intro exI [of _ s] exI [of _ L] exI [of _ "[]"]) (simp add: ret_def fixed_refl)
next
  case (Suc n)
  show ?case
  proof (cases "L CORO_AVAIL")
    case Nil
    then show ?thesis
      using run_ring_empty [OF Suc.prems Nil, of prog "Suc n"] fixed_refl [OF Suc.prems]
      by (intro exI [of _ s] exI [of _ L] exI [of _ "[]"]) (simp del: run_ring.simps)
  next
    case (Cons i is')
    obtain s1 L1 where step: "run_ring prog AvailHead (Suc n) s =
        (case run_ring prog AvailHead n s1 of (Ok log, s') \<Rightarrow> (Ok (i # log), s') | r \<Rightarrow> r)"
      and r: "ran i s L s1 L1"
      using run_ring_step [OF Suc.prems assms(2) _ Cons, of n] by auto
    obtain new where L1: "L1 CORO_AVAIL = is' @ new" "L1 CORO_ACTIVE = L CORO_ACTIVE"
      using r Cons remove1_other [OF _ Suc.prems, of i CORO_AVAIL CORO_ACTIVE] by (auto simp: ran_def)
    have "sched_inv s1 L1" using r by (simp add: ran_def)
    from Suc.IH [OF this] obtain s' L' new' where
      s': "run_ring prog AvailHead n s1 = (Ok (take n (is' @ new @ new')), s')" "fixed s1 L1 s' L'"
      "L' CORO_AVAIL = drop n (is' @ new @ new')" "L' CORO_ACTIVE = L CORO_ACTIVE"
      using L1 by auto
    then show ?thesis
      using Cons fixed_trans [OF ran_fixed [OF r] s'(2)] step
      by (intro exI [of _ s'] exI [of _ L'] exI [of _ "new @ new'"]) (simp del: run_ring.simps)
  qed
qed

text \<open>The lists after the three wake-ups.\<close>

definition woken :: "'p scheduler \<Rightarrow> (CORO_STATUS \<Rightarrow> 32 word list) \<Rightarrow> (CORO_STATUS \<Rightarrow> 32 word list)" where
  "woken s L =
     (let due = map snd (takeWhile (\<lambda>it. fst it \<le> cs_clock s (cs_readings s)) (cs_timeoutCoroId s)) in
      wake_active (tq_queue (cs_activeCoroQueue s))
        (wake_avail (cs_needActiveCoroId s) (wake_active due L)))"

lemma wake_ups_spec:
  assumes inv: "sched_inv s L" and run: "\<not> cs_terminal s"
  shows "\<exists>s'. wake_ups s = (Ok (), s') \<and> sched_inv s' (woken s L) \<and> cs_poolSize s' = cs_poolSize s \<and>
    \<not> cs_terminal s' \<and> cs_activeCoroQueue s' = emptied \<and> cs_needActiveCoroId s' = [] \<and>
    cs_timeoutCoroId s' = dropWhile (\<lambda>it. fst it \<le> cs_clock s (cs_readings s)) (cs_timeoutCoroId s) \<and>
    cs_clock s' = cs_clock s"
proof -
  let ?now = "cs_clock s (cs_readings s)"
  obtain h1 n where s1: "wakeupbytimeout s = (Ok (), s\<lparr>cs_readings := n, cs_heap := h1,
      cs_timeoutCoroId := dropWhile (\<lambda>it. fst it \<le> ?now) (cs_timeoutCoroId s)\<rparr>)"
    "sched_inv (s\<lparr>cs_readings := n, cs_heap := h1,
      cs_timeoutCoroId := dropWhile (\<lambda>it. fst it \<le> ?now) (cs_timeoutCoroId s)\<rparr>)
      (wake_active (map snd (takeWhile (\<lambda>it. fst it \<le> ?now) (cs_timeoutCoroId s))) L)"
    using wakeupbytimeout_spec [OF inv run] by blast
  let ?s1 = "s\<lparr>cs_readings := n, cs_heap := h1,
      cs_timeoutCoroId := dropWhile (\<lambda>it. fst it \<le> ?now) (cs_timeoutCoroId s)\<rparr>"
  have r1: "\<not> cs_terminal ?s1" using run by simp
  obtain h2 where s2: "wakeupbyself ?s1 = (Ok (), ?s1\<lparr>cs_heap := h2, cs_needActiveCoroId := []\<rparr>)"
    "sched_inv (?s1\<lparr>cs_heap := h2, cs_needActiveCoroId := []\<rparr>) (wake_avail (cs_needActiveCoroId ?s1)
      (wake_active (map snd (takeWhile (\<lambda>it. fst it \<le> ?now) (cs_timeoutCoroId s))) L))"
    using wakeupbyself_spec [OF s1(2) r1] by blast
  let ?s2 = "?s1\<lparr>cs_heap := h2, cs_needActiveCoroId := []\<rparr>"
  have r2: "\<not> cs_terminal ?s2" using run by simp
  obtain h3 where s3: "wakeup ?s2 = (Ok (), ?s2\<lparr>cs_activeCoroQueue := emptied, cs_heap := h3\<rparr>)"
    "sched_inv (?s2\<lparr>cs_activeCoroQueue := emptied, cs_heap := h3\<rparr>)
      (wake_active (tq_queue (cs_activeCoroQueue ?s2)) (wake_avail (cs_needActiveCoroId ?s1)
      (wake_active (map snd (takeWhile (\<lambda>it. fst it \<le> ?now) (cs_timeoutCoroId s))) L)))"
    using wakeup_spec [OF s2(2) r2] by blast
  let ?s3 = "?s2\<lparr>cs_activeCoroQueue := emptied, cs_heap := h3\<rparr>"
  have "wake_ups s = (Ok (), ?s3)"
    unfolding wake_ups_def by (simp only: andthen_Ok s1(1) s2(1) s3(1))
  moreover have "sched_inv ?s3 (woken s L)" using s3(2) by (simp add: woken_def)
  ultimately show ?thesis using run by (intro exI [of _ ?s3]) simp
qed

lemma tars_run_spec:
  assumes inv: "sched_inv s L" and prog: "prog_ok prog" and run: "\<not> cs_terminal s"
  shows "\<exists>s' L' new. tars_run prog s =
      (Ok (take 100 (woken s L CORO_ACTIVE) @ take 100 (woken s L CORO_AVAIL @ new)), s') \<and>
    sched_inv s' L' \<and> \<not> cs_terminal s' \<and> cs_poolSize s' = cs_poolSize s \<and> cs_clock s' = cs_clock s \<and>
    cs_activeCoroQueue s' = emptied \<and> (\<forall>j. known L j \<longrightarrow> known L' j) \<and>
    L' CORO_ACTIVE = drop 100 (woken s L CORO_ACTIVE) \<and>
    L' CORO_AVAIL = drop 100 (woken s L CORO_AVAIL @ new)"
proof -
  obtain s1 where s1: "wake_ups s = (Ok (), s1)" "sched_inv s1 (woken s L)" "\<not> cs_terminal s1"
    "cs_poolSize s1 = cs_poolSize s" "cs_clock s1 = cs_clock s" "cs_activeCoroQueue s1 = emptied"
    using wake_ups_spec [OF inv run] by blast
  obtain s2 L2 new2 where s2: "run_ring prog ActiveHead 100 s1 = (Ok (take 100 (woken s L CORO_ACTIVE)), s2)"
    "fixed s1 (woken s L) s2 L2" "L2 CORO_ACTIVE = drop 100 (woken s L CORO_ACTIVE)"
    "L2 CORO_AVAIL = woken s L CORO_AVAIL @ new2"
    using run_active_spec [OF s1(2) prog, of 100] by blast
  have inv2: "sched_inv s2 L2" using s2(2) by (simp add: fixed_def)
  obtain s3 L3 new3 where s3: "run_ring prog AvailHead 100 s2 = (Ok (take 100 (L2 CORO_AVAIL @ new3)), s3)"
    "fixed s2 L2 s3 L3" "L3 CORO_AVAIL = drop 100 (L2 CORO_AVAIL @ new3)" "L3 CORO_ACTIVE = L2 CORO_ACTIVE"
    using run_avail_spec [OF inv2 prog, of 100] by blast
  have all: "fixed s1 (woken s L) s3 L3" by (rule fixed_trans [OF s2(2) s3(2)])
  have "known (woken s L) j" if "known L j" for j
    using that by (simp add: woken_def Let_def known_fold_mvs)
  moreover have "tars_run prog s =
      (Ok (take 100 (woken s L CORO_ACTIVE) @ take 100 (woken s L CORO_AVAIL @ new2 @ new3)), s3)"
    using run s1(1) s2(1) s3(1) s2(4) by (simp add: tars_run_def andthen_Ok ret_def)
  ultimately show ?thesis
    using all s1 s2 s3 by (intro exI [of _ s3] exI [of _ L3] exI [of _ "new2 @ new3"]) (simp add: fixed_def fixed_of_def)
qed

end
