(* ===== verification/Coro_Service.thy ===== *)
theory Coro_Service
  imports Coro_Fair
begin

text \<open>
  A thread that serves with coroutines, from the construction of its scheduler to the release of
  the stacks: the coroutine branch of \<open>ServantHandle::run\<close> in
  \<^verbatim>\<open>src/servant/libservant/ServantHandle.cpp\<close>, and the facts on timers, ids and stacks the properties
  rest on.
\<close>

section \<open>The serving thread\<close>

text \<open>
  How many coroutines the configured memory gives, with the 32-bit product of the code; a division
  by zero is undefined.
\<close>

definition servant_coroutines :: "nat \<Rightarrow> 32 word \<Rightarrow> nat option" where
  "servant_coroutines memSize stackSize =
     (if unat stackSize < memSize then
        if stackSize * 4 = 0 then None else Some (max 1 (memSize div unat (stackSize * 4)))
      else Some 1)"

text \<open>
  The loop over \<open>tars_run\<close>, with what other threads do before every round; it ends when the server
  ends, here with the list.
\<close>

primrec serve ::
  "('p \<Rightarrow> 'p coro_step) \<Rightarrow> coro_event list list \<Rightarrow> ('p scheduler, 32 word list list) act" where
  "serve prog [] = ret []"
| "serve prog (es # ess) =
     andthen (cs_events es) (\<lambda>_.
     andthen (tars_run prog) (\<lambda>log.
     andthen (serve prog ess) (\<lambda>logs.
     ret (log # logs))))"

text \<open>\<open>entry\<close> is the control point of \<open>handleRequest\<close>.\<close>

definition servant_thread ::
  "('p \<Rightarrow> 'p coro_step) \<Rightarrow> 'p \<Rightarrow> nat \<Rightarrow> 32 word \<Rightarrow> coro_event list list \<Rightarrow> ('p scheduler, 32 word list list) act" where
  "servant_thread prog entry memSize stackSize ess =
     (case servant_coroutines memSize stackSize of None \<Rightarrow> fault | Some n \<Rightarrow>
     andthen (cs_init (word_of_nat n) (unat stackSize)) (\<lambda>_.
     andthen (cs_update (\<lambda>s. s\<lparr>cs_handle := True\<rparr>)) (\<lambda>_.
     andthen (cs_createCoroutine entry) (\<lambda>_.
     andthen (serve prog ess) (\<lambda>logs.
     andthen cs_terminate (\<lambda>_.
     andthen cs_destroy (\<lambda>_.
     ret logs)))))))"

section \<open>A fresh scheduler\<close>

lemma new_ids_range: "unat u + n < 4294967296 \<Longrightarrow> set (new_ids u n) = {i. u < i \<and> unat i \<le> unat u + n}"
proof (induction n arbitrary: u)
  case 0
  then show ?case by (auto simp: word_less_nat_alt)
next
  case (Suc n)
  have eq: "unat (u + 1) = unat u + 1" using Suc.prems by (simp add: unat_word_ariths(1))
  have "set (new_ids (u + 1) n) = {i. u + 1 < i \<and> unat i \<le> unat (u + 1) + n}"
    by (rule Suc.IH) (use Suc.prems eq in simp)
  moreover have "i = u + 1 \<longleftrightarrow> unat i = unat u + 1" for i :: "32 word"
    by (simp add: word_unat_eq_iff eq)
  ultimately show ?case by (auto simp: word_less_nat_alt eq)
qed

definition no_coros :: "CORO_STATUS \<Rightarrow> 32 word list" where
  "no_coros st = []"

definition heads_empty :: "'p coro_heap \<Rightarrow> 'p coro_heap" where
  "heads_empty h = prev_to FreeHead FreeHead (next_to FreeHead FreeHead
     (prev_to TimeoutHead TimeoutHead (next_to TimeoutHead TimeoutHead
     (prev_to InactiveHead InactiveHead (next_to InactiveHead InactiveHead
     (prev_to AvailHead AvailHead (next_to AvailHead AvailHead
     (prev_to ActiveHead ActiveHead (next_to ActiveHead ActiveHead h)))))))))"

lemma heads_init_eq:
  assumes "h ActiveHead \<noteq> None" "h AvailHead \<noteq> None" "h InactiveHead \<noteq> None" "h TimeoutHead \<noteq> None"
    "h FreeHead \<noteq> None"
  shows "heads_init h = (Ok (), heads_empty h)"
  using assms by (simp add: heads_empty_def heads_init_def CoroutineHeadInit_def andthen_def link_simps)

lemma constructed:
  "CoroutineScheduler mem clock = \<lparr>cs_terminal = False, cs_poolSize = 1000, cs_stackSize = 128 * 1024,
     cs_currentSize = 0, cs_usedSize = 0, cs_uniqId = 0, cs_handle = False, cs_currentCoro = NullCoro,
     cs_all_coro = Array (replicate 1001 NullCoro),
     cs_heap = heads_empty objects_init,
     cs_fresh = 0, cs_alloc = mem,
     cs_activeCoroQueue = ThreadQueue_init, cs_needActiveCoroId = [], cs_timeoutCoroId = [],
     cs_clock = clock, cs_readings = 0, cs_notified = 0\<rparr>"
  unfolding CoroutineScheduler_def
  by (simp add: andthen_def all_coro_fresh_def on_heap_def zoom_def heads_init_eq objects_init_def Let_def)

lemma constructed_rings:
  "coro_rings (heads_empty objects_init :: 'p coro_heap) (\<lambda>st. map (slot arr) (no_coros st))"
proof -
  have "nexts (heads_empty objects_init :: 'p coro_heap) (head_of st) = Some (head_of st)"
    "prevs (heads_empty objects_init :: 'p coro_heap) (head_of st) = Some (head_of st)" for st
    by (cases st; simp add: heads_empty_def link_simps objects_init_def)+
  then show ?thesis by (simp add: coro_rings_def coro_ring_def no_coros_def)
qed

lemma lists_main:
  assumes lists: "coro_lists arr pool uniq fresh h L"
  shows "coro_lists arr pool uniq fresh (h(MainCoro \<mapsto> c)) L"
proof -
  have out: "MainCoro \<notin> set (map (slot arr) (L st))" for st
    using coro_ringsD(3) [OF coro_listsD(2) [OF lists], of MainCoro st] by auto
  have "coro_rings (h(MainCoro \<mapsto> c)) (\<lambda>st. map (slot arr) (L st))"
    by (rule coro_rings_outside [OF coro_listsD(2) [OF lists]]) (use out in auto)
  moreover have "coro_data (h(MainCoro \<mapsto> c)) (slot arr i) = coro_data h (slot arr i)" if "i \<in> set (L st)" for i st
    using out [of st] that by (auto simp: coro_data_def image_iff)
  ultimately show ?thesis
    using coro_listsD [OF lists] unfolding coro_lists_def by (simp add: fun_upd_def)
qed

lemma heads_empty_none: "heads_empty h p = None \<longleftrightarrow> h p = None"
  by (simp add: heads_empty_def link_simps)

lemma cs_init_spec:
  assumes pool: "0 < pool" "unat pool + 1 < 4294967296" and mem: "stack_size_ok sz mem" "answers_ok mem"
    "\<forall>k \<ge> mm_calls mem. mm_answers mem k \<noteq> None" "mm_maps mem = []"
  shows "\<exists>s. cs_init pool sz (CoroutineScheduler mem clock :: 'p scheduler) = (Ok (), s) \<and>
    sched_inv s (added_all (new_ids 0 (min 100 (unat pool))) no_coros) \<and>
    \<not> cs_terminal s \<and> cs_poolSize s = pool \<and> cs_stackSize s = sz \<and> cs_clock s = clock \<and>
    cs_activeCoroQueue s = emptied \<and> cs_needActiveCoroId s = [] \<and> cs_timeoutCoroId s = [] \<and>
    cs_currentCoro s = MainCoro \<and> cs_readings s = 0"
proof -
  let ?n = "min 100 (unat pool)"
  let ?cur = "if pool \<le> 100 then pool else 100 :: 32 word"
  let ?arr = "Array (replicate (Suc (unat pool)) NullCoro)"
  let ?start = "(CoroutineScheduler mem clock :: 'p scheduler)\<lparr>cs_terminal := False, cs_poolSize := pool, cs_stackSize := sz,
    cs_currentSize := ?cur, cs_all_coro := ?arr, cs_usedSize := 0, cs_uniqId := 0\<rparr>"
  have wrap: "unat (pool + 1) = unat pool + 1" using pool(2) by (simp add: unat_word_ariths(1))
  have slot: "slot ?arr i = NullCoro" for i by (simp add: slot_def del: replicate.simps)
  have lists: "lists_at ?start no_coros"
    unfolding coro_lists_def
    using constructed_rings [of ?arr] slot
    by (simp add: constructed no_coros_def heads_empty_none objects_init_def)
  have mem0: "memory_at ?start no_coros"
    using mem by (simp add: memory_at_def constructed known_def no_coros_def)
  have cur: "unat ?cur = ?n" by (simp add: min_def word_le_nat_alt)
  obtain s1 where s1: "cs_init_loop ?n sz 0 ?start = (Ok (0 + ?n), s1)"
    "lists_at s1 (added_all (new_ids 0 ?n) no_coros)" "memory_at s1 (added_all (new_ids 0 ?n) no_coros)"
    "grown ?start no_coros s1" "cs_uniqId s1 = 0 + word_of_nat ?n"
  proof -
    have "cs_uniqId ?start = 0" "cs_poolSize ?start = pool" "cs_stackSize ?start = sz" by simp_all
    moreover from this have "unat (cs_uniqId ?start) + ?n \<le> unat (cs_poolSize ?start)" by (simp del: replicate.simps)
    ultimately show ?thesis using init_loop_spec [OF lists mem0, of ?n sz 0] that by metis
  qed
  note g = grownD [OF s1(4)]
  have f: "cs_terminal s1 = False" "cs_poolSize s1 = pool" "cs_stackSize s1 = sz" "cs_clock s1 = clock"
    "cs_activeCoroQueue s1 = emptied" "cs_needActiveCoroId s1 = []" "cs_timeoutCoroId s1 = []"
    "cs_readings s1 = 0"
    by (simp_all add: rest_ofD [OF g(1)] constructed ThreadQueue_init_def emptied_def)
  obtain c where c: "cs_heap s1 MainCoro = Some c" using coro_listsD(8) [OF s1(2)] by blast
  let ?h = "(cs_heap s1)(MainCoro \<mapsto> c\<lparr>ci_uid := 0, ci_eStatus := CORO_FREE\<rparr>)"
  let ?L = "added_all (new_ids 0 ?n) no_coros"
  let ?s = "s1\<lparr>cs_currentSize := word_of_nat ?n, cs_heap := ?h, cs_currentCoro := MainCoro\<rparr>"
  have run: "cs_init pool sz (CoroutineScheduler mem clock :: 'p scheduler) = (Ok (), ?s)"
  proof -
    have "\<not> pool \<le> 0" using pool(1) by simp
    then have "cs_init pool sz (CoroutineScheduler mem clock :: 'p scheduler) =
      (andthen (cs_init_loop (unat ?cur) sz 0) (\<lambda>iSucc.
        andthen (cs_update (\<lambda>s. s\<lparr>cs_currentSize := word_of_nat iSucc\<rparr>)) (\<lambda>_.
        andthen (on_heap (setUid MainCoro 0)) (\<lambda>_.
        andthen (on_heap (setStatus MainCoro CORO_FREE)) (\<lambda>_.
        cs_update (\<lambda>s. s\<lparr>cs_currentCoro := MainCoro\<rparr>))))) ?start)"
      unfolding cs_init_def
      by (simp add: andthen_Ok cs_update_def cs_read_def ret_def all_coro_fresh_def constructed wrap del: if_image_distrib)
    also have "\<dots> = (Ok (), ?s)"
      unfolding cur using s1(1) c
      by (simp add: andthen_Ok cs_update_def on_heap_def zoom_def setUid_def setStatus_def coro_set_def)
    finally show ?thesis .
  qed
  have data: "coro_data ?h (slot (cs_all_coro s1) i) = coro_data (cs_heap s1) (slot (cs_all_coro s1) i)" for i
  proof (cases "slot (cs_all_coro s1) i = NullCoro")
    case True
    then show ?thesis by (simp add: coro_data_def)
  next
    case False
    then obtain st where "i \<in> set (?L st)" using coro_listsD(6) [OF s1(2)] by blast
    then have "known ?L i" unfolding known_def ..
    then obtain n where "slot (cs_all_coro s1) i = Coro n" using slot_coro(1) [OF s1(2)] by blast
    then show ?thesis by (simp add: coro_data_def)
  qed
  have "lists_at ?s ?L" using lists_main [OF s1(2)] by simp
  moreover have "in_use no_coros = 0" by (simp add: in_use_def no_coros_def)
  then have "sizes_at ?s ?L"
    using s1(5) g(2) rest_ofD(2) [OF g(1)]
    by (simp add: sizes_at_def added_all_def no_coros_def in_use_def unat_of_nat word_le_nat_alt)
  moreover have "queues_at ?s ?L"
    using rest_ofD(4-6) [OF g(1)]
    by (simp add: queues_at_def constructed ThreadQueue_init_def tq_inv_def tq_small_def no_coros_def)
  moreover have "ready_at ?s ?L" by (simp add: ready_at_def added_all_def no_coros_def)
  moreover have "memory_at ?s ?L"
    by (rule memory_at_same [OF s1(3)]) (simp_all add: coro_stack_def data)
  ultimately have "sched_inv ?s ?L" by (simp add: sched_inv_def)
  then show ?thesis
    using run f by (intro exI [of _ ?s]) simp
qed

section \<open>Rounds with the other threads' events\<close>

text \<open>Other threads wake coroutines that exist; termination ends the loop and is not among these.\<close>

definition events_ok :: "(CORO_STATUS \<Rightarrow> 32 word list) \<Rightarrow> coro_event list \<Rightarrow> bool" where
  "events_ok L es \<longleftrightarrow> length es < size_max \<and> (\<forall>e \<in> set es. \<exists>i. e = EvPut i \<and> known L i)"

definition idle_queue :: "'p scheduler \<Rightarrow> bool" where
  "idle_queue s \<longleftrightarrow> tq_queue (cs_activeCoroQueue s) = []"

lemma cs_put_spec:
  assumes inv: "sched_inv s L" and i: "known L i" and run: "\<not> cs_terminal s"
    and room: "Suc (length (tq_queue (cs_activeCoroQueue s))) < size_max"
  shows "\<exists>s'. cs_put i s = (Ok (), s') \<and> sched_inv s' L \<and>
    tq_queue (cs_activeCoroQueue s') = tq_queue (cs_activeCoroQueue s) @ [i] \<and>
    cs_terminal s' = cs_terminal s \<and> cs_poolSize s' = cs_poolSize s \<and> cs_clock s' = cs_clock s \<and>
    cs_readings s' = cs_readings s \<and> cs_timeoutCoroId s' = cs_timeoutCoroId s"
proof -
  let ?s = "s\<lparr>cs_activeCoroQueue := tq_push_back i (cs_activeCoroQueue s), cs_notified := cs_notified s + 1\<rparr>"
  have "tq_size (cs_activeCoroQueue s) = length (tq_queue (cs_activeCoroQueue s))"
    using sched_invD(3) [OF inv] by (simp add: queues_at_def tq_inv_def tq_small_def)
  then have "queues_at ?s L"
    using sched_invD(3) [OF inv] i room
    by (simp add: queues_at_def tq_push_back_def tq_inv_def tq_small_def)
  then have "sched_inv ?s L" by (rule sched_inv_queues [OF inv]) simp_all
  moreover have "cs_put i s = (Ok (), ?s)"
    using run by (simp add: cs_put_def cs_notify_def cs_update_def)
  ultimately show ?thesis by (intro exI [of _ ?s]) (simp add: tq_push_back_def)
qed

lemma cs_events_spec:
  assumes "sched_inv s L" and "\<not> cs_terminal s" and "\<forall>e \<in> set es. \<exists>i. e = EvPut i \<and> known L i"
    and "length (tq_queue (cs_activeCoroQueue s)) + length es < size_max"
  shows "\<exists>s'. cs_events es s = (Ok (), s') \<and> sched_inv s' L \<and> \<not> cs_terminal s' \<and>
    cs_poolSize s' = cs_poolSize s \<and> cs_clock s' = cs_clock s"
  using assms
proof (induction es arbitrary: s)
  case Nil
  then show ?case by (simp add: ret_def)
next
  case (Cons e es)
  obtain i where e: "e = EvPut i" "known L i" using Cons.prems(3) by auto
  obtain s1 where s1: "cs_put i s = (Ok (), s1)" "sched_inv s1 L"
    "tq_queue (cs_activeCoroQueue s1) = tq_queue (cs_activeCoroQueue s) @ [i]"
    "cs_terminal s1 = cs_terminal s" "cs_poolSize s1 = cs_poolSize s" "cs_clock s1 = cs_clock s"
    using cs_put_spec [OF Cons.prems(1) e(2) Cons.prems(2)] Cons.prems(4) by auto
  obtain s2 where "cs_events es s1 = (Ok (), s2)" "sched_inv s2 L" "\<not> cs_terminal s2"
    "cs_poolSize s2 = cs_poolSize s1" "cs_clock s2 = cs_clock s1"
    using Cons.IH [of s1] s1 Cons.prems by auto
  then show ?case using s1 e by (simp add: andthen_Ok)
qed

lemma fold_mvs_to: "\<exists>new. fold (mvs from to) is' L to = L to @ new"
proof (induction is' arbitrary: L)
  case (Cons i is')
  obtain new where "fold (mvs from to) is' (mvs from to i L) to = mvs from to i L to @ new"
    using Cons.IH by blast
  moreover have "mvs from to i L to = L to @ (if \<exists>s \<in> from. i \<in> set (L s) then [i] else [])"
    by (simp add: mvs_def)
  ultimately show ?case by simp
qed simp

lemma woken_grows:
  assumes "st \<in> {CORO_ACTIVE, CORO_AVAIL}"
  shows "\<exists>new. woken s L st = L st @ new"
proof -
  let ?due = "map snd (takeWhile (\<lambda>it. fst it \<le> cs_clock s (cs_readings s)) (cs_timeoutCoroId s))"
  let ?A = "wake_active ?due L" and ?need = "cs_needActiveCoroId s" and ?q = "tq_queue (cs_activeCoroQueue s)"
  show ?thesis
  proof (cases "st = CORO_ACTIVE")
    case True
    obtain a where "?A CORO_ACTIVE = L CORO_ACTIVE @ a" using fold_mvs_to by blast
    moreover have "wake_avail ?need ?A CORO_ACTIVE = ?A CORO_ACTIVE" by (rule fold_mvs_other) simp_all
    moreover obtain b where "wake_active ?q (wake_avail ?need ?A) CORO_ACTIVE = wake_avail ?need ?A CORO_ACTIVE @ b"
      using fold_mvs_to by blast
    ultimately show ?thesis using True by (auto simp: woken_def Let_def)
  next
    case False
    then have st: "st = CORO_AVAIL" using assms by simp
    have "?A CORO_AVAIL = L CORO_AVAIL" by (rule fold_mvs_other) simp_all
    moreover obtain a where "wake_avail ?need ?A CORO_AVAIL = ?A CORO_AVAIL @ a" using fold_mvs_to by blast
    moreover have "wake_active ?q (wake_avail ?need ?A) CORO_AVAIL = wake_avail ?need ?A CORO_AVAIL"
      by (rule fold_mvs_other) simp_all
    ultimately show ?thesis using st by (auto simp: woken_def Let_def)
  qed
qed

text \<open>One round, seen from a list of coroutines that can run.\<close>

lemma serve_round:
  assumes inv: "sched_inv s L" and prog: "prog_ok prog" and run: "\<not> cs_terminal s" and q: "idle_queue s"
    and es: "events_ok L es"
  shows "\<exists>log s1 L1. serve prog (es # ess) s =
      (case serve prog ess s1 of (Ok logs, s') \<Rightarrow> (Ok (log # logs), s') | r \<Rightarrow> r) \<and>
    sched_inv s1 L1 \<and> \<not> cs_terminal s1 \<and> idle_queue s1 \<and> (\<forall>j. known L j \<longrightarrow> known L1 j) \<and>
    (\<forall>st \<in> {CORO_ACTIVE, CORO_AVAIL}. \<exists>new. set (take 100 (L st @ new)) \<subseteq> set log \<and> L1 st = drop 100 (L st @ new))"
proof -
  obtain s0 where ev: "cs_events es s = (Ok (), s0)" "sched_inv s0 L" "\<not> cs_terminal s0"
    using cs_events_spec [OF inv run, of es] es q by (auto simp: events_ok_def idle_queue_def)
  obtain s1 L1 new where t: "tars_run prog s0 =
      (Ok (take 100 (woken s0 L CORO_ACTIVE) @ take 100 (woken s0 L CORO_AVAIL @ new)), s1)"
    "sched_inv s1 L1" "\<not> cs_terminal s1" "cs_activeCoroQueue s1 = emptied" "\<forall>j. known L j \<longrightarrow> known L1 j"
    "L1 CORO_ACTIVE = drop 100 (woken s0 L CORO_ACTIVE)"
    "L1 CORO_AVAIL = drop 100 (woken s0 L CORO_AVAIL @ new)"
    using tars_run_spec [OF ev(2) prog ev(3)] by blast
  let ?log = "take 100 (woken s0 L CORO_ACTIVE) @ take 100 (woken s0 L CORO_AVAIL @ new)"
  obtain a b where ab: "woken s0 L CORO_ACTIVE = L CORO_ACTIVE @ a" "woken s0 L CORO_AVAIL = L CORO_AVAIL @ b"
    using woken_grows [of CORO_ACTIVE s0 L] woken_grows [of CORO_AVAIL s0 L] by auto
  have "serve prog (es # ess) s = andthen (serve prog ess) (\<lambda>logs. ret (?log # logs)) s1"
    by (simp add: andthen_Ok ev(1) t(1))
  also have "\<dots> = (case serve prog ess s1 of (Ok logs, s') \<Rightarrow> (Ok (?log # logs), s') | r \<Rightarrow> r)"
    by (simp add: andthen_def ret_def split: prod.split outcome.split)
  finally have step: "serve prog (es # ess) s =
    (case serve prog ess s1 of (Ok logs, s') \<Rightarrow> (Ok (?log # logs), s') | r \<Rightarrow> r)" .
  have "set (take 100 (L CORO_ACTIVE @ a)) \<subseteq> set ?log" "L1 CORO_ACTIVE = drop 100 (L CORO_ACTIVE @ a)"
    "set (take 100 (L CORO_AVAIL @ (b @ new))) \<subseteq> set ?log" "L1 CORO_AVAIL = drop 100 (L CORO_AVAIL @ (b @ new))"
    using t(6,7) ab by auto
  then have "\<forall>st \<in> {CORO_ACTIVE, CORO_AVAIL}. \<exists>new. set (take 100 (L st @ new)) \<subseteq> set ?log \<and> L1 st = drop 100 (L st @ new)"
    by blast
  then show ?thesis
    using step t(2-5) by (intro exI [of _ ?log] exI [of _ s1] exI [of _ L1]) (simp add: idle_queue_def emptied_def)
qed

lemma events_ok_mono: "events_ok L es \<Longrightarrow> \<forall>j. known L j \<longrightarrow> known L' j \<Longrightarrow> events_ok L' es"
  by (fastforce simp: events_ok_def)

lemma serve_spec:
  assumes "sched_inv s L" and "prog_ok prog" and "\<not> cs_terminal s" and "idle_queue s"
    and "\<forall>es \<in> set ess. events_ok L es"
  shows "\<exists>logs s' L'. serve prog ess s = (Ok logs, s') \<and> length logs = length ess \<and> sched_inv s' L' \<and>
    (\<forall>st \<in> {CORO_ACTIVE, CORO_AVAIL}. \<forall>p < length (L st). p div 100 < length ess \<longrightarrow> L st ! p \<in> set (logs ! (p div 100)))"
  using assms(1,3-5)
proof (induction ess arbitrary: s L)
  case Nil
  then show ?case by (auto simp: ret_def)
next
  case (Cons es ess)
  have es: "events_ok L es" using Cons.prems(4) by simp
  obtain log s1 L1 where r: "serve prog (es # ess) s =
      (case serve prog ess s1 of (Ok logs, s') \<Rightarrow> (Ok (log # logs), s') | r \<Rightarrow> r)"
    "sched_inv s1 L1" "\<not> cs_terminal s1" "idle_queue s1" "\<forall>j. known L j \<longrightarrow> known L1 j"
    "\<forall>st \<in> {CORO_ACTIVE, CORO_AVAIL}. \<exists>new. set (take 100 (L st @ new)) \<subseteq> set log \<and> L1 st = drop 100 (L st @ new)"
    using serve_round [OF Cons.prems(1) assms(2) Cons.prems(2,3) es] by blast
  have "\<forall>es \<in> set ess. events_ok L1 es" using Cons.prems(4) events_ok_mono [OF _ r(5)] by simp
  from Cons.IH [OF r(2-4) this] obtain logs s' L' where
    s': "serve prog ess s1 = (Ok logs, s')" "length logs = length ess" "sched_inv s' L'" and
    turns: "\<forall>st \<in> {CORO_ACTIVE, CORO_AVAIL}. \<forall>p < length (L1 st). p div 100 < length ess \<longrightarrow> L1 st ! p \<in> set (logs ! (p div 100))"
    by blast
  have "L st ! p \<in> set ((log # logs) ! (p div 100))"
    if st: "st \<in> {CORO_ACTIVE, CORO_AVAIL}" and p: "p < length (L st)" "p div 100 < length (es # ess)" for st p
  proof -
    obtain new where new: "set (take 100 (L st @ new)) \<subseteq> set log" "L1 st = drop 100 (L st @ new)"
      using r(6) st by blast
    show ?thesis
    proof (cases "p < 100")
      case True
      then have "L st ! p = take 100 (L st @ new) ! p" using p(1) by (simp add: nth_append)
      moreover have "p < length (take 100 (L st @ new))" using True p(1) by simp
      ultimately have "L st ! p \<in> set (take 100 (L st @ new))" by (metis nth_mem)
      then show ?thesis using new(1) True by auto
    next
      case False
      then have q: "p div 100 = Suc ((p - 100) div 100)" by (simp add: div_if)
      have "L st ! p = L1 st ! (p - 100)" "p - 100 < length (L1 st)"
        using False p(1) new(2) by (auto simp: nth_append)
      moreover have "(p - 100) div 100 < length ess" using p(2) q by simp
      ultimately have "L st ! p \<in> set (logs ! ((p - 100) div 100))" using turns st by metis
      then show ?thesis by (simp add: q)
    qed
  qed
  then show ?case using r(1) s' by (intro exI [of _ "log # logs"] exI [of _ s'] exI [of _ L']) auto
qed

section \<open>The stacks are given back\<close>

lemma destroy_loop_spec:
  assumes "stack_size_ok sz (cs_alloc s)" and "mapped_size sz (cs_alloc s) = b"
    and "\<forall>p \<in> set ps. p \<noteq> NullCoro \<longrightarrow>
      (\<exists>c l. cs_heap s p = Some c \<and> ci_stack_ctx c = stack_at b l \<and> 0 < l \<and> l < 2 ^ 47)"
  shows "\<exists>maps. destroy_loop ps s = (Ok (), s\<lparr>cs_alloc := (cs_alloc s)\<lparr>mm_maps := maps\<rparr>\<rparr>) \<and>
    set maps \<subseteq> set (mm_maps (cs_alloc s)) \<and>
    (\<forall>p \<in> set ps. p \<noteq> NullCoro \<longrightarrow> (\<forall>c l. cs_heap s p = Some c \<longrightarrow> ci_stack_ctx c = stack_at b l \<longrightarrow> (l, b) \<notin> set maps))"
  using assms
proof (induction ps arbitrary: s)
  case Nil
  then show ?case by (intro exI [of _ "mm_maps (cs_alloc s)"]) (simp add: ret_def)
next
  case (Cons p ps)
  show ?case
  proof (cases "p = NullCoro")
    case True
    then show ?thesis using Cons.IH [OF Cons.prems(1,2)] Cons.prems(3) by (simp add: andthen_ret)
  next
    case False
    then obtain c l where c: "cs_heap s p = Some c" "ci_stack_ctx c = stack_at b l" "0 < l" "l < 2 ^ 47"
      using Cons.prems(3) by auto
    let ?m = "(cs_alloc s)\<lparr>mm_maps := removeAll (l, b) (mm_maps (cs_alloc s))\<rparr>"
    let ?s1 = "s\<lparr>cs_alloc := ?m\<rparr>"
    have dealloc: "deallocate (stack_at b l) (cs_alloc s) = (Ok (), ?m)"
      using deallocate_spec [OF Cons.prems(1) c(3,4)] Cons.prems(2) by (simp add: stack_at_def)
    have "stack_size_ok sz ?m" using Cons.prems(1) by (simp add: stack_size_ok_def split: option.splits)
    moreover have "mapped_size sz ?m = b" using Cons.prems(2) by (simp add: mapped_size_def)
    ultimately obtain maps where maps: "destroy_loop ps ?s1 = (Ok (), ?s1\<lparr>cs_alloc := ?m\<lparr>mm_maps := maps\<rparr>\<rparr>)"
      "set maps \<subseteq> set (removeAll (l, b) (mm_maps (cs_alloc s)))"
      "\<forall>p \<in> set ps. p \<noteq> NullCoro \<longrightarrow> (\<forall>c l. cs_heap s p = Some c \<longrightarrow> ci_stack_ctx c = stack_at b l \<longrightarrow> (l, b) \<notin> set maps)"
      using Cons.IH [of ?s1] Cons.prems(3) by auto
    have "destroy_loop (p # ps) s = destroy_loop ps ?s1"
      using False c(1,2) dealloc
      by (cases s) (simp add: andthen_def on_heap_def on_alloc_def zoom_def coro_get_def)
    then show ?thesis
      using maps c(1,2) by (intro exI [of _ maps]) (auto simp: stack_at_def)
  qed
qed

lemma cs_destroy_spec:
  assumes inv: "sched_inv s L"
  shows "\<exists>s'. cs_destroy s = (Ok (), s') \<and> mm_maps (cs_alloc s') = []"
proof -
  note lists = sched_invD(1) [OF inv] and mem = sched_invD(5) [OF inv]
  let ?b = "mapped_size (cs_stackSize s) (cs_alloc s)"
  obtain ps where ps: "cs_all_coro s = Array ps" "length ps = Suc (unat (cs_poolSize s))"
    using coro_listsD(1) [OF lists] by blast
  have used: "take (unat (cs_poolSize s)) (drop 1 ps) = drop 1 ps" using ps(2) by simp
  have stack: "\<exists>c l. cs_heap s (slot (cs_all_coro s) i) = Some c \<and> ci_stack_ctx c = stack_at ?b l \<and> 0 < l \<and> l < 2 ^ 47"
    if k: "known L i" for i
  proof -
    obtain l where "0 < l" "l < 2 ^ 47" "coro_stack s i = Some (stack_at ?b l)"
      using mem k unfolding memory_at_def by blast
    then show ?thesis by (auto simp: coro_stack_def coro_data_def)
  qed
  have "\<forall>p \<in> set (drop 1 ps). p \<noteq> NullCoro \<longrightarrow>
      (\<exists>c l. cs_heap s p = Some c \<and> ci_stack_ctx c = stack_at ?b l \<and> 0 < l \<and> l < 2 ^ 47)"
  proof (intro ballI impI)
    fix p assume p: "p \<in> set (drop 1 ps)" "p \<noteq> NullCoro"
    then obtain k where k: "ps ! k = p" "k < length ps"
      by (metis in_set_conv_nth in_set_dropD)
    have "unat (cs_poolSize s) < 4294967296" by (rule order.strict_trans2 [OF unsigned_less]) simp
    then have "unat (word_of_nat k :: 32 word) = k" using k(2) ps(2) by (simp add: unat_of_nat)
    then have slot: "slot (cs_all_coro s) (word_of_nat k) = p" using k ps(1) by (simp add: slot_def)
    then obtain st where "word_of_nat k \<in> set (L st)"
      using coro_listsD(6) [OF lists, of "word_of_nat k"] p(2) by auto
    then have "known L (word_of_nat k)" unfolding known_def ..
    then show "\<exists>c l. cs_heap s p = Some c \<and> ci_stack_ctx c = stack_at ?b l \<and> 0 < l \<and> l < 2 ^ 47"
      using stack slot by metis
  qed
  moreover have "stack_size_ok (cs_stackSize s) (cs_alloc s)" using mem by (simp add: memory_at_def)
  ultimately obtain maps where maps: "destroy_loop (drop 1 ps) s = (Ok (), s\<lparr>cs_alloc := (cs_alloc s)\<lparr>mm_maps := maps\<rparr>\<rparr>)"
    "set maps \<subseteq> set (mm_maps (cs_alloc s))"
    "\<forall>p \<in> set (drop 1 ps). p \<noteq> NullCoro \<longrightarrow> (\<forall>c l. cs_heap s p = Some c \<longrightarrow> ci_stack_ctx c = stack_at ?b l \<longrightarrow> (l, ?b) \<notin> set maps)"
    using destroy_loop_spec [OF _ refl, of "cs_stackSize s" s "drop 1 ps"] by blast
  have "x \<notin> set maps" for x
  proof
    assume x: "x \<in> set maps"
    then obtain i l where i: "known L i" "x = (l, ?b)" "coro_stack s i = Some (stack_at ?b l)"
      using maps(2) mem unfolding memory_at_def by blast
    obtain st where st: "i \<in> set (L st)" using i(1) unfolding known_def ..
    have ne: "slot (cs_all_coro s) i \<noteq> NullCoro" by (rule slot_coro(2) [OF lists i(1)])
    have "0 < unat i" using coro_listsD(3) [OF lists st] by (simp add: word_less_nat_alt)
    moreover have "unat i < length ps" "slot (cs_all_coro s) i = ps ! unat i"
      using ne ps(1) by (auto simp: slot_def split: if_splits)
    ultimately have "slot (cs_all_coro s) i \<in> set (drop 1 ps)"
    proof -
      assume i: "0 < unat i" "unat i < length ps" "slot (cs_all_coro s) i = ps ! unat i"
      then have "ps ! unat i = drop 1 ps ! (unat i - 1)" "unat i - 1 < length (drop 1 ps)" by auto
      then show ?thesis using i(3) by (metis nth_mem)
    qed
    moreover obtain c where "cs_heap s (slot (cs_all_coro s) i) = Some c" "ci_stack_ctx c = stack_at ?b l"
      using i(3) by (auto simp: coro_stack_def coro_data_def)
    ultimately show False using maps(3) ne x i(2) by blast
  qed
  then have "maps = []" by (cases maps) auto
  then show ?thesis using maps(1) ps(1) used by (simp add: cs_destroy_def andthen_def cs_update_def)
qed

lemma sched_inv_terminal:
  assumes "sched_inv s L"
  shows "sched_inv (s\<lparr>cs_terminal := b, cs_handle := h, cs_notified := n\<rparr>) L"
  by (rule sched_inv_queues [OF assms]) (use sched_invD(3) [OF assms] in \<open>simp_all add: queues_at_def\<close>)

lemma servant_thread_spec:
  assumes num: "servant_coroutines memSize stackSize = Some n" "n + 1 < 4294967296"
    and mem: "stack_size_ok (unat stackSize) mem" "answers_ok mem"
      "\<forall>k \<ge> mm_calls mem. mm_answers mem k \<noteq> None" "mm_maps mem = []"
    and prog: "prog_ok prog"
    and ess: "\<forall>es \<in> set ess. length es < size_max \<and> (\<forall>e \<in> set es. \<exists>i. e = EvPut i \<and> 0 < i \<and> unat i \<le> min 100 n)"
  shows "\<exists>logs s'. servant_thread prog entry memSize stackSize ess (CoroutineScheduler mem clock :: 'p scheduler) = (Ok logs, s') \<and>
    length logs = length ess \<and> mm_maps (cs_alloc s') = []"
proof -
  let ?pool = "word_of_nat n :: 32 word"
  have n: "0 < n" using num(1) by (auto simp: servant_coroutines_def split: if_splits)
  have un: "unat ?pool = n" using num(2) by (simp add: unat_of_nat)
  then have pool: "0 < ?pool" "unat ?pool + 1 < 4294967296"
    using n num(2) by (simp_all add: word_less_nat_alt)
  let ?L = "added_all (new_ids 0 (min 100 (unat ?pool))) no_coros"
  obtain s1 where s1: "cs_init ?pool (unat stackSize) (CoroutineScheduler mem clock :: 'p scheduler) = (Ok (), s1)"
    "sched_inv s1 ?L" "\<not> cs_terminal s1" "cs_poolSize s1 = ?pool" "cs_activeCoroQueue s1 = emptied"
    using cs_init_spec [OF pool mem, of clock] by blast
  let ?s2 = "s1\<lparr>cs_handle := True\<rparr>"
  have inv2: "sched_inv ?s2 ?L"
    using sched_inv_terminal [OF s1(2), where b = "cs_terminal s1" and h = True and n = "cs_notified s1"] by (cases s1) simp
  have use0: "in_use ?L = 0" by (simp add: in_use_def added_all_def no_coros_def)
  then have room: "in_use ?L < unat (cs_poolSize ?s2)" using s1(4) un n by simp
  obtain i fs s3 where s3: "?L CORO_FREE @ extension ?s2 ?L = i # fs" "cs_createCoroutine entry ?s2 = (Ok i, s3)"
    "sched_inv s3 (mv CORO_FREE CORO_AVAIL i (added_all (extension ?s2 ?L) ?L))" "rest_of s3 = rest_of ?s2"
    using createCoroutine_spec [OF inv2 room, of entry] by blast
  let ?L3 = "mv CORO_FREE CORO_AVAIL i (added_all (extension ?s2 ?L) ?L)"
  have "set (new_ids 0 (min 100 n)) = {i. 0 < i \<and> unat i \<le> 0 + min 100 n}"
    using new_ids_range [of 0 "min 100 n"] by simp
  then have ids: "known ?L j" if "0 < j" "unat j \<le> min 100 n" for j
    using that un by (simp add: known_added_all)
  have "known ?L3 j" if "known ?L j" for j
  proof -
    have "known (added_all (extension ?s2 ?L) ?L) j" using that by (simp add: known_added_all)
    then obtain st where "j \<in> set (added_all (extension ?s2 ?L) ?L st)" unfolding known_def ..
    then have "j = i \<or> j \<in> set (?L3 st)" by (cases "j = i") (auto simp: mv_def)
    moreover have "i \<in> set (?L3 CORO_AVAIL)" by (simp add: mv_def)
    ultimately show ?thesis unfolding known_def by blast
  qed
  then have ev: "\<forall>es \<in> set ess. events_ok ?L3 es" using ess ids unfolding events_ok_def by blast
  have "\<not> cs_terminal s3" "idle_queue s3"
    using s1(3,5) rest_ofD(1,4) [OF s3(4)] by (simp_all add: idle_queue_def emptied_def)
  from serve_spec [OF s3(3) prog this ev] obtain logs s4 L4 where
    s4: "serve prog ess s3 = (Ok logs, s4)" "length logs = length ess" "sched_inv s4 L4" by blast
  let ?s5 = "s4\<lparr>cs_terminal := True, cs_notified := cs_notified s4 + 1\<rparr>"
  have "sched_inv ?s5 L4"
    using sched_inv_terminal [OF s4(3), where b = True and h = "cs_handle s4" and n = "cs_notified s4 + 1"] by (cases s4) simp
  from cs_destroy_spec [OF this] obtain s6 where
    s6: "cs_destroy ?s5 = (Ok (), s6)" "mm_maps (cs_alloc s6) = []" by blast
  have "servant_thread prog entry memSize stackSize ess (CoroutineScheduler mem clock :: 'p scheduler) = (Ok logs, s6)"
    using num(1) s1(1) s3(2) s4(1) s6(1)
    by (simp add: servant_thread_def andthen_def cs_update_def cs_terminate_def cs_notify_def ret_def)
  then show ?thesis using s4(2) s6(2) by blast
qed

end
