(* ===== verification/Coro_Limits.thy ===== *)
theory Coro_Limits
  imports Coro_Service
begin

text \<open>
  What the scheduler promises about timers and about the pool, and where it breaks the promise: a
  timer that outlives the sleep it was set for, an id lost to a failed allocation, a stack as
  large as the limit.
\<close>

section \<open>Timers\<close>

text \<open>A list without repetitions, every element where it comes first.\<close>

primrec firsts :: "'a list \<Rightarrow> 'a list" where
  "firsts [] = []"
| "firsts (x # xs) = x # filter (\<lambda>y. y \<noteq> x) (firsts xs)"

lemma set_firsts [simp]: "set (firsts xs) = set xs"
  by (induction xs) auto

lemma fold_mvs_from:
  assumes "st \<in> from" and "st \<noteq> to" and "distinct (L st)"
  shows "fold (mvs from to) is' L st = filter (\<lambda>i. i \<notin> set is') (L st)"
  using assms(3)
proof (induction is' arbitrary: L)
  case (Cons i is')
  have "mvs from to i L st = filter (\<lambda>j. j \<noteq> i) (L st)"
    using assms(1,2) Cons.prems by (simp add: mvs_def distinct_remove1_removeAll removeAll_filter_not_eq)
      (auto intro: filter_cong)
  then show ?case using Cons.IH [of "mvs from to i L"] Cons.prems by (auto intro: filter_cong)
qed simp

lemma fold_mvs_firsts:
  assumes "to \<notin> from" and "\<forall>st \<in> from. distinct (L st)"
  shows "fold (mvs from to) is' L to = L to @ filter (\<lambda>i. \<exists>st \<in> from. i \<in> set (L st)) (firsts is')"
  using assms(2)
proof (induction is' arbitrary: L)
  case (Cons i is')
  let ?L = "mvs from to i L"
  have rest: "j \<in> set (?L st) \<longleftrightarrow> j \<in> set (L st) \<and> j \<noteq> i" if "st \<in> from" for j st
    using that assms(1) Cons.prems by (auto simp: mvs_def)
  have dist: "\<forall>st \<in> from. distinct (?L st)" using assms(1) Cons.prems by (auto simp: mvs_def)
  have "filter (\<lambda>j. \<exists>st \<in> from. j \<in> set (?L st)) (firsts is') =
      filter (\<lambda>j. \<exists>st \<in> from. j \<in> set (L st)) (filter (\<lambda>j. j \<noteq> i) (firsts is'))"
    using rest by (auto intro!: filter_cong)
  moreover have "?L to = L to @ filter (\<lambda>j. \<exists>st \<in> from. j \<in> set (L st)) [i]"
    using assms(1) by (auto simp: mvs_def)
  ultimately show ?case using Cons.IH [OF dist] by simp
qed simp

lemma takeWhile_sorted: "sorted (map f xs) \<Longrightarrow> takeWhile (\<lambda>x. f x \<le> a) xs = filter (\<lambda>x. f x \<le> a) xs"
  by (induction xs) (auto intro!: filter_False [symmetric] dest: order.trans)

lemma dropWhile_sorted: "sorted (map f xs) \<Longrightarrow> dropWhile (\<lambda>x. f x \<le> a) xs = filter (\<lambda>x. a < f x) xs" for a :: "'a::linorder"
  by (induction xs) (auto simp: filter_id_conv intro!: filter_True [symmetric] dest: order.strict_trans2)

definition due_ids :: "int \<Rightarrow> 'p scheduler \<Rightarrow> 32 word list" where
  "due_ids now s = map snd (filter (\<lambda>it. fst it \<le> now) (cs_timeoutCoroId s))"

lemma wakeupbytimeout_exact:
  assumes inv: "sched_inv s L" and run: "\<not> cs_terminal s" and now: "cs_clock s (cs_readings s) = now"
  shows "\<exists>s' L'. wakeupbytimeout s = (Ok (), s') \<and> sched_inv s' L' \<and>
    L' CORO_ACTIVE = L CORO_ACTIVE @
      filter (\<lambda>i. i \<in> set (L CORO_INACTIVE) \<union> set (L CORO_TIMEOUT)) (firsts (due_ids now s)) \<and>
    L' CORO_TIMEOUT = filter (\<lambda>i. i \<notin> set (due_ids now s)) (L CORO_TIMEOUT) \<and>
    L' CORO_INACTIVE = filter (\<lambda>i. i \<notin> set (due_ids now s)) (L CORO_INACTIVE) \<and>
    L' CORO_AVAIL = L CORO_AVAIL \<and> L' CORO_FREE = L CORO_FREE \<and>
    cs_timeoutCoroId s' = filter (\<lambda>it. now < fst it) (cs_timeoutCoroId s)"
proof -
  have sorted: "sorted (map fst (cs_timeoutCoroId s))" using sched_invD(3) [OF inv] by (simp add: queues_at_def)
  have due: "map snd (takeWhile (\<lambda>it. fst it \<le> now) (cs_timeoutCoroId s)) = due_ids now s"
    by (simp add: due_ids_def takeWhile_sorted [OF sorted])
  have dist: "distinct (L st)" for st by (rule lists_distinct [OF sched_invD(1) [OF inv]])
  obtain h' n where w: "wakeupbytimeout s = (Ok (), s\<lparr>cs_readings := n, cs_heap := h',
      cs_timeoutCoroId := dropWhile (\<lambda>it. fst it \<le> now) (cs_timeoutCoroId s)\<rparr>)"
    "sched_inv (s\<lparr>cs_readings := n, cs_heap := h',
      cs_timeoutCoroId := dropWhile (\<lambda>it. fst it \<le> now) (cs_timeoutCoroId s)\<rparr>) (wake_active (due_ids now s) L)"
    using wakeupbytimeout_spec [OF inv run] unfolding now due by blast
  let ?L = "wake_active (due_ids now s) L"
  have "?L CORO_ACTIVE = L CORO_ACTIVE @
      filter (\<lambda>i. i \<in> set (L CORO_INACTIVE) \<union> set (L CORO_TIMEOUT)) (firsts (due_ids now s))"
    using fold_mvs_firsts [of CORO_ACTIVE "{CORO_INACTIVE, CORO_TIMEOUT}" L "due_ids now s"] dist by simp
  moreover have "?L CORO_TIMEOUT = filter (\<lambda>i. i \<notin> set (due_ids now s)) (L CORO_TIMEOUT)"
    "?L CORO_INACTIVE = filter (\<lambda>i. i \<notin> set (due_ids now s)) (L CORO_INACTIVE)"
    by (rule fold_mvs_from; simp add: dist)+
  moreover have "?L CORO_AVAIL = L CORO_AVAIL" "?L CORO_FREE = L CORO_FREE"
    by (rule fold_mvs_other; simp)+
  ultimately show ?thesis
    using w dropWhile_sorted [OF sorted, of now]
    by (intro exI [of _ "s\<lparr>cs_readings := n, cs_heap := h',
      cs_timeoutCoroId := dropWhile (\<lambda>it. fst it \<le> now) (cs_timeoutCoroId s)\<rparr>"] exI [of _ ?L]) simp
qed

text \<open>\<open>put\<close> wakes a sleeper; its timer stays.\<close>

lemma wakeup_sleeper:
  assumes inv: "sched_inv s L" and run: "\<not> cs_terminal s" and i: "i \<in> set (L CORO_TIMEOUT)"
    and put: "i \<in> set (tq_queue (cs_activeCoroQueue s))"
  shows "\<exists>s' L'. wakeup s = (Ok (), s') \<and> sched_inv s' L' \<and> i \<in> set (L' CORO_ACTIVE) \<and>
    cs_timeoutCoroId s' = cs_timeoutCoroId s \<and> cs_clock s' = cs_clock s \<and> cs_readings s' = cs_readings s \<and>
    \<not> cs_terminal s'"
proof -
  have dist: "distinct (L st)" for st by (rule lists_distinct [OF sched_invD(1) [OF inv]])
  obtain h' where w: "wakeup s = (Ok (), s\<lparr>cs_activeCoroQueue := emptied, cs_heap := h'\<rparr>)"
    "sched_inv (s\<lparr>cs_activeCoroQueue := emptied, cs_heap := h'\<rparr>) (wake_active (tq_queue (cs_activeCoroQueue s)) L)"
    using wakeup_spec [OF inv run] by blast
  have "i \<in> set (wake_active (tq_queue (cs_activeCoroQueue s)) L CORO_ACTIVE)"
    using fold_mvs_firsts [of CORO_ACTIVE "{CORO_INACTIVE, CORO_TIMEOUT}" L "tq_queue (cs_activeCoroQueue s)"] dist i put
    by simp
  then show ?thesis using w run
    by (intro exI [of _ "s\<lparr>cs_activeCoroQueue := emptied, cs_heap := h'\<rparr>"]
        exI [of _ "wake_active (tq_queue (cs_activeCoroQueue s)) L"]) simp
qed

text \<open>So the next, longer sleep of the same coroutine ends when the old timer is due.\<close>

lemma sleep_with_old_timer:
  assumes inv: "sched_inv s L" and run: "\<not> cs_terminal s" and cur: "the_current s L CORO_ACTIVE i"
    and old: "(t1, i) \<in> set (cs_timeoutCoroId s)" and d: "0 \<le> sint d"
    and now: "t1 \<le> cs_clock s (cs_readings s + 1)" "cs_clock s (cs_readings s + 1) < cs_clock s (cs_readings s) + sint d"
  shows "\<exists>s1 s2 L2. cs_sleep d p s = (Ok (), s1) \<and> wakeupbytimeout s1 = (Ok (), s2) \<and>
    sched_inv s2 L2 \<and> i \<in> set (L2 CORO_ACTIVE) \<and>
    (cs_clock s (cs_readings s) + sint d, i) \<in> set (cs_timeoutCoroId s2)"
proof -
  have "sint d \<noteq> - (2 ^ 31)" using d by simp
  from cs_sleep_spec [OF inv cur _ this, of p] obtain s1 where
    s1: "cs_sleep d p s = (Ok (), s1)" "sched_inv s1 (mv CORO_ACTIVE CORO_TIMEOUT i L)" "fixed_of s1 = fixed_of s"
    "cs_timeoutCoroId s1 = time_insert (cs_clock s (cs_readings s) + \<bar>sint d\<bar>) i (cs_timeoutCoroId s)"
    "cs_readings s1 = cs_readings s + 1"
    by auto
  let ?L = "mv CORO_ACTIVE CORO_TIMEOUT i L" and ?now = "cs_clock s1 (cs_readings s1)"
  have now': "?now = cs_clock s (cs_readings s + 1)" and run1: "\<not> cs_terminal s1"
    using s1(3,5) run by (simp_all add: fixed_of_def)
  have "i \<in> set (due_ids ?now s1)"
    using old now(1) s1(4) now' by (force simp: due_ids_def time_insert_set)
  moreover have "i \<in> set (?L CORO_TIMEOUT)" by (simp add: mv_def)
  ultimately have "i \<in> set (filter (\<lambda>i. i \<in> set (?L CORO_INACTIVE) \<union> set (?L CORO_TIMEOUT)) (firsts (due_ids ?now s1)))"
    by simp
  moreover obtain s2 L2 where "wakeupbytimeout s1 = (Ok (), s2)" "sched_inv s2 L2"
    "L2 CORO_ACTIVE = ?L CORO_ACTIVE @
      filter (\<lambda>i. i \<in> set (?L CORO_INACTIVE) \<union> set (?L CORO_TIMEOUT)) (firsts (due_ids ?now s1))"
    "cs_timeoutCoroId s2 = filter (\<lambda>it. ?now < fst it) (cs_timeoutCoroId s1)"
    using wakeupbytimeout_exact [OF s1(2) run1 refl] by blast
  moreover have "(cs_clock s (cs_readings s) + sint d, i) \<in> set (cs_timeoutCoroId s1)"
    using s1(4) d by (simp add: time_insert_set)
  ultimately show ?thesis using s1(1) now(2) now' by fastforce
qed

lemma woken_sleeper_sleeps_again:
  assumes inv: "sched_inv s L" and run: "\<not> cs_terminal s" and i: "i \<in> set (L CORO_TIMEOUT)"
    and put: "i \<in> set (tq_queue (cs_activeCoroQueue s))" and old: "(t1, i) \<in> set (cs_timeoutCoroId s)"
    and d: "0 \<le> sint d" and now: "t1 \<le> cs_clock s (cs_readings s + 1)"
    "cs_clock s (cs_readings s + 1) < cs_clock s (cs_readings s) + sint d"
  shows "\<exists>s1 s2 s3 L3. wakeup s = (Ok (), s1) \<and>
    cs_sleep d p (s1\<lparr>cs_currentCoro := slot (cs_all_coro s1) i\<rparr>) = (Ok (), s2) \<and>
    wakeupbytimeout s2 = (Ok (), s3) \<and> sched_inv s3 L3 \<and> i \<in> set (L3 CORO_ACTIVE) \<and>
    (cs_clock s (cs_readings s) + sint d, i) \<in> set (cs_timeoutCoroId s3)"
proof -
  obtain s1 L1 where s1: "wakeup s = (Ok (), s1)" "sched_inv s1 L1" "i \<in> set (L1 CORO_ACTIVE)"
    "cs_timeoutCoroId s1 = cs_timeoutCoroId s" "cs_clock s1 = cs_clock s" "cs_readings s1 = cs_readings s"
    "\<not> cs_terminal s1"
    using wakeup_sleeper [OF inv run i put] by blast
  let ?s = "s1\<lparr>cs_currentCoro := slot (cs_all_coro s1) i\<rparr>"
  have "sched_inv ?s L1" by (rule sched_inv_queues [OF s1(2)]) (use sched_invD(3) [OF s1(2)] in \<open>simp_all add: queues_at_def\<close>)
  moreover have "the_current ?s L1 CORO_ACTIVE i" using s1(3) by (simp add: the_current_def)
  ultimately show ?thesis
    using sleep_with_old_timer [of ?s L1 i t1 d p] s1 old d now by auto
qed

section \<open>A yield before a wait\<close>

text \<open>The only coroutine that can run yields: \<open>run\<close> waits although it is ready at once.\<close>

lemma yielded_coroutine_waits:
  assumes inv: "sched_inv s L" and cur: "the_current s L st i" and st: "st \<in> {CORO_ACTIVE, CORO_AVAIL}"
    and run: "\<not> cs_terminal s" and only: "L CORO_ACTIVE @ L CORO_AVAIL = [i]" and idle: "idle_queue s"
  shows "\<exists>s1. cs_yield True p s = (Ok (), s1) \<and> i \<in> set (cs_needActiveCoroId s1) \<and> fst (run_waits s1) = Ok True"
proof -
  obtain s1 where s1: "cs_yield True p s = (Ok (), s1)" "sched_inv s1 (mv st CORO_INACTIVE i L)"
    "fixed_of s1 = fixed_of s" "cs_needActiveCoroId s1 = cs_needActiveCoroId s @ [i]"
    using cs_yield_spec [OF inv cur st, of True p] run by auto
  have empty: "mv st CORO_INACTIVE i L CORO_ACTIVE = []" "mv st CORO_INACTIVE i L CORO_AVAIL = []"
    using only st cur by (auto simp: mv_def the_current_def append_eq_Cons_conv)
  have "tq_size (cs_activeCoroQueue s1) = 0"
    using sched_invD(3) [OF s1(2)] idle s1(3) by (simp add: queues_at_def tq_inv_def tq_small_def idle_queue_def fixed_of_def)
  then show ?thesis
    using HeadEmpty_at [OF sched_invD(1) [OF s1(2)], of CORO_ACTIVE] HeadEmpty_at [OF sched_invD(1) [OF s1(2)], of CORO_AVAIL]
      empty s1(1,4) by (simp add: run_waits_def andthen_def cs_read_def)
qed

section \<open>The pool\<close>

text \<open>What \<open>createCoroutine\<close> promises while there is memory.\<close>

lemma createCoroutine_from_pool:
  assumes inv: "sched_inv s L"
  shows "if in_use L = unat (cs_poolSize s) then cs_createCoroutine callback s = (Ok 0, s)
    else \<exists>i s' L'. cs_createCoroutine callback s = (Ok i, s') \<and> sched_inv s' L' \<and>
      0 < i \<and> i \<le> cs_poolSize s \<and> (\<forall>st. st \<noteq> CORO_FREE \<longrightarrow> i \<notin> set (L st)) \<and>
      L' CORO_AVAIL = L CORO_AVAIL @ [i] \<and> in_use L' = in_use L + 1 \<and> coro_point s' i = Some callback \<and>
      (\<forall>st j. st \<noteq> CORO_FREE \<longrightarrow> j \<in> set (L st) \<longrightarrow> coro_point s' j = coro_point s j)"
proof (cases "in_use L = unat (cs_poolSize s)")
  case True
  then show ?thesis using createCoroutine_full [OF inv] by simp
next
  case False
  have "in_use L \<le> unat (cs_poolSize s)"
    using sched_invD(2) [OF inv] by (simp add: sizes_at_def word_le_nat_alt)
  then have room: "in_use L < unat (cs_poolSize s)" using False by simp
  let ?L1 = "added_all (extension s L) L"
  obtain i fs s' where c: "L CORO_FREE @ extension s L = i # fs" "cs_createCoroutine callback s = (Ok i, s')"
    "sched_inv s' (mv CORO_FREE CORO_AVAIL i ?L1)" "rest_of s' = rest_of s" "coro_point s' i = Some callback"
    "\<forall>j. known L j \<longrightarrow> j \<noteq> i \<longrightarrow> coro_point s' j = coro_point s j"
    using createCoroutine_spec [OF inv room, of callback] by blast
  let ?L2 = "mv CORO_FREE CORO_AVAIL i ?L1"
  have i2: "i \<in> set (?L2 CORO_AVAIL)" by (simp add: mv_def)
  have out: "i \<notin> set (L st)" if "st \<noteq> CORO_FREE" for st
  proof
    assume "i \<in> set (L st)"
    then have "st = CORO_AVAIL"
      using lists_apart [OF sched_invD(1) [OF c(3)] i2, of st] that by (cases st) (auto simp: mv_def added_all_def)
    moreover have "distinct (?L2 CORO_AVAIL)" by (rule lists_distinct [OF sched_invD(1) [OF c(3)]])
    ultimately show False using \<open>i \<in> set (L st)\<close> by (simp add: mv_def added_all_def)
  qed
  have "0 < i" "i \<le> cs_uniqId s'" using coro_listsD(3,4) [OF sched_invD(1) [OF c(3)] i2] by blast+
  moreover have "cs_uniqId s' \<le> cs_poolSize s"
    using sched_invD(2) [OF c(3)] rest_ofD(2) [OF c(4)] by (simp add: sizes_at_def)
  moreover have "coro_point s' j = coro_point s j" if "st \<noteq> CORO_FREE" "j \<in> set (L st)" for st j
    using c(6) out [OF that(1)] that(2) by (auto simp: known_def)
  moreover have "?L2 CORO_AVAIL = L CORO_AVAIL @ [i]" "in_use ?L2 = in_use L + 1"
    by (simp_all add: mv_def added_all_def in_use_def)
  ultimately have "0 < i \<and> i \<le> cs_poolSize s \<and> (\<forall>st. st \<noteq> CORO_FREE \<longrightarrow> i \<notin> set (L st)) \<and>
      ?L2 CORO_AVAIL = L CORO_AVAIL @ [i] \<and> in_use ?L2 = in_use L + 1 \<and>
      (\<forall>st j. st \<noteq> CORO_FREE \<longrightarrow> j \<in> set (L st) \<longrightarrow> coro_point s' j = coro_point s j)"
    using out by (blast intro: order_trans)
  then show ?thesis using c(2,3,5) False by auto
qed

text \<open>The same scheduler, but the next call of \<open>mmap\<close> fails.\<close>

definition next_mmap_fails :: "'p scheduler \<Rightarrow> 'p scheduler" where
  "next_mmap_fails s = s\<lparr>cs_alloc := (cs_alloc s)\<lparr>mm_answers :=
     (mm_answers (cs_alloc s))(mm_calls (cs_alloc s) := None)\<rparr>\<rparr>"

lemma allocate_fails:
  assumes "stack_size_ok sz m" and "answers_ok m"
  shows "allocate sz (m\<lparr>mm_answers := (mm_answers m)(mm_calls m := None)\<rparr>) =
    (Ok None, m\<lparr>mm_answers := (mm_answers m)(mm_calls m := None), mm_calls := Suc (mm_calls m)\<rparr>)"
proof -
  let ?m = "m\<lparr>mm_answers := (mm_answers m)(mm_calls m := None)\<rparr>"
  have "stack_size_ok sz ?m" using assms(1) by (simp add: stack_size_ok_def split: option.splits)
  moreover have "answers_ok ?m" using assms(2) by (simp add: answers_ok_def)
  ultimately show ?thesis using allocate_spec [of sz ?m] by simp
qed

text \<open>The id of the coroutine that was not made is lost.\<close>

lemma failed_increase:
  assumes inv: "sched_inv s L" and free: "L CORO_FREE = []" and room: "cs_currentSize s < cs_poolSize s"
  shows "cs_createCoroutine callback (next_mmap_fails s) = (Ok 0, s\<lparr>cs_fresh := Suc (cs_fresh s),
    cs_uniqId := cs_uniqId s + 1, cs_alloc := (cs_alloc s)\<lparr>mm_answers :=
     (mm_answers (cs_alloc s))(mm_calls (cs_alloc s) := None), mm_calls := Suc (mm_calls (cs_alloc s))\<rparr>\<rparr>)"
    (is "_ = (Ok 0, ?s1)")
proof -
  note lists = sched_invD(1) [OF inv] and sizes = sched_invD(2) [OF inv] and mem = sched_invD(5) [OF inv]
  have eq: "cs_uniqId s = cs_currentSize s" using sizes by (simp add: sizes_at_def)
  have w: "\<not> cs_uniqId s + 1 < 1" "cs_uniqId s + 1 \<le> cs_poolSize s"
    using unat_suc_le [of "cs_uniqId s" 0 "cs_poolSize s"] room eq by (simp_all add: word_less_nat_alt)
  have none: "cs_heap s (Coro (cs_fresh s)) = None" using coro_listsD(7) [OF lists, of "cs_fresh s"] by blast
  have a: "allocate (cs_stackSize s) ((cs_alloc s)\<lparr>mm_answers := (mm_answers (cs_alloc s))(mm_calls (cs_alloc s) := None)\<rparr>) =
    (Ok None, (cs_alloc s)\<lparr>mm_answers := (mm_answers (cs_alloc s))(mm_calls (cs_alloc s) := None), mm_calls := Suc (mm_calls (cs_alloc s))\<rparr>)"
    by (rule allocate_fails) (use mem in \<open>simp_all add: memory_at_def\<close>)
  have undone: "(cs_heap s)(Coro (cs_fresh s) := None) = cs_heap s" using none by auto
  have loop: "cs_increase_loop (Suc n) 0 (next_mmap_fails s) = (Ok 0, ?s1)" for n
    using w a undone unfolding next_mmap_fails_def
    by (cases s) (simp add: andthen_def coro_new_def cs_generateId_def on_heap_def on_alloc_def zoom_def setUid_def
        setStatus_def coro_set_def cs_read_def coro_delete_def ret_def Let_def)
  have "growth (next_mmap_fails s) = growth s" by (simp add: growth_def next_mmap_fails_def)
  moreover have "0 < growth s" using increase_spec [OF inv room] by blast
  ultimately obtain n where n: "growth (next_mmap_fails s) = Suc n" by (cases "growth s") auto
  then have "increaseCoroPoolSize (next_mmap_fails s) = (Ok False, ?s1)"
    using increase_eq [of "next_mmap_fails s"] loop [of n] by (simp add: andthen_def ret_def del: cs_increase_loop.simps)
  moreover have "on_heap (CoroutineHeadEmpty FreeHead) (next_mmap_fails s) = (Ok True, next_mmap_fails s)"
    using HeadEmpty_spec [OF coro_listsD(2) [OF lists], of CORO_FREE] free
    by (cases s) (simp add: on_heap_def zoom_def next_mmap_fails_def)
  ultimately show ?thesis by (simp add: createCoroutine_eq andthen_def cs_read_def ret_def)
qed

lemma lost_id_aborts:
  assumes inv: "sched_inv s L" and free: "L CORO_FREE = []" and room: "cs_currentSize s < cs_poolSize s"
    and near: "cs_poolSize s - cs_currentSize s \<le> 100" and pool: "unat (cs_poolSize s) + 1 < 4294967296"
  shows "\<exists>s1. cs_createCoroutine callback (next_mmap_fails s) = (Ok 0, s1) \<and>
    fst (cs_createCoroutine callback' s1) = Abort"
proof -
  note lists = sched_invD(1) [OF inv] and sizes = sched_invD(2) [OF inv] and mem = sched_invD(5) [OF inv]
  let ?m = "(cs_alloc s)\<lparr>mm_answers := (mm_answers (cs_alloc s))(mm_calls (cs_alloc s) := None),
    mm_calls := Suc (mm_calls (cs_alloc s))\<rparr>"
  let ?s1 = "s\<lparr>cs_fresh := Suc (cs_fresh s), cs_uniqId := cs_uniqId s + 1, cs_alloc := ?m\<rparr>"
  let ?n = "growth s"
  have eq: "cs_uniqId s = cs_currentSize s" and used: "cs_usedSize s = cs_currentSize s"
    using sizes free by (simp_all add: sizes_at_def word_unat_eq_iff)
  have diff: "unat (cs_poolSize s - cs_currentSize s) = unat (cs_poolSize s) - unat (cs_currentSize s)"
    using room by (intro unat_sub) simp
  have n: "?n = unat (cs_poolSize s) - unat (cs_currentSize s)" "0 < ?n"
    using near diff room by (simp_all add: growth_def min_def word_le_nat_alt word_less_nat_alt)
  then have w: "unat (cs_uniqId s + 1) = unat (cs_uniqId s) + 1" "cs_uniqId s \<le> cs_uniqId s + 1"
    using unat_suc_le [of "cs_uniqId s" "?n - 1" "cs_poolSize s"] eq room
    by (simp_all add: word_less_nat_alt word_le_nat_alt)
  have lists1: "lists_at ?s1 L"
    using lists w(2) unfolding coro_lists_def by (auto intro: order_trans less_SucI)
  have size1: "mapped_size (cs_stackSize s) ?m = mapped_size (cs_stackSize s) (cs_alloc s)" by (simp add: mapped_size_def)
  have "stack_size_ok (cs_stackSize s) ?m" "answers_ok ?m"
    using mem by (auto simp: memory_at_def stack_size_ok_def answers_ok_def split: option.splits)
  moreover have "coro_stack ?s1 i = coro_stack s i" for i by (simp add: coro_stack_def)
  ultimately have mem1: "memory_at ?s1 L"
    using mem by (simp add: memory_at_def size1)
  have le: "unat (cs_uniqId ?s1) + (?n - 1) \<le> unat (cs_poolSize ?s1)" using w(1) n eq by simp
  obtain s2 where s2: "cs_increase_loop (?n - 1 + Suc 0) 0 ?s1 = cs_increase_loop (Suc 0) (0 + (?n - 1)) s2"
    "cs_uniqId s2 = cs_uniqId ?s1 + word_of_nat (?n - 1)" "cs_poolSize s2 = cs_poolSize ?s1"
    using grow_loop_spec [OF increase_grows lists1 mem1 le refl, of "Suc 0" 0] by blast
  have "unat (cs_uniqId s2) = unat (cs_uniqId s) + 1 + (?n - 1)"
  proof -
    have "unat (word_of_nat (?n - 1) :: 32 word) = ?n - 1" by (simp add: growth_def unat_of_nat)
    then show ?thesis using s2(2) w(1) le pool by (simp add: unat_word_ariths(1))
  qed
  then have "cs_uniqId s2 = cs_poolSize s" using n eq by (simp add: word_unat_eq_iff)
  then have "unat (cs_uniqId s2 + 1) = unat (cs_poolSize s) + 1"
    using pool by (simp add: unat_word_ariths(1))
  then have "\<not> cs_uniqId s2 + 1 < 1" "\<not> cs_uniqId s2 + 1 \<le> cs_poolSize s2"
    using s2(3) by (simp_all add: word_less_nat_alt word_le_nat_alt)
  then have "fst (cs_increase_loop (Suc 0) (?n - 1) s2) = Abort"
    by (simp add: andthen_def coro_new_def cs_generateId_def Let_def)
  then have abort: "fst (cs_increase_loop ?n 0 ?s1) = Abort" using s2(1) n(2) by simp
  have "growth ?s1 = ?n" by (simp add: growth_def)
  then have "fst (increaseCoroPoolSize ?s1) = Abort"
    using increase_eq [of ?s1] n(2) abort by (simp add: andthen_def split: prod.splits outcome.splits)
  then obtain s3 where "increaseCoroPoolSize ?s1 = (Abort, s3)" by (metis prod.collapse)
  moreover have "on_heap (CoroutineHeadEmpty FreeHead) ?s1 = (Ok True, ?s1)"
    using HeadEmpty_at [OF lists1, of CORO_FREE] free by simp
  ultimately have "fst (cs_createCoroutine callback' ?s1) = Abort"
    using used by (simp add: createCoroutine_eq andthen_def cs_read_def)
  then show ?thesis using failed_increase [OF inv free room] by blast
qed

section \<open>A stack as large as the limit\<close>

lemma allocate_at_limit:
  assumes sz: "minimum_stacksize \<le> sz" "sz < 16777216" and page: "0 < mm_pagesize m" "mm_pagesize m \<le> 65536"
    and r: "mm_rlim_max m = Some r" "sz \<le> r" "r < mapped_size sz m"
    and l: "mm_answers m (mm_calls m) = Some l" "l < 2 ^ 47"
  shows "\<exists>ctx m'. allocate sz m = (Ok (Some ctx), m') \<and> mm_maps m' = (l, mapped_size sz m) # mm_maps m \<and>
    deallocate ctx m' = (Abort, m')"
proof -
  let ?m = "m\<lparr>mm_rlim_max := None, mm_answers := \<lambda>_. Some (l + 1)\<rparr>"
  have unbound: "stack_size_ok sz ?m" using sz page by (simp add: stack_size_ok_def)
  have same: "mapped_size sz ?m = mapped_size sz m" by (simp add: mapped_size_def)
  note b = mapped_size_bounds [OF unbound, unfolded same]
  have pages: "size_add (page_count (mm_pagesize m) sz) 1 = page_count (mm_pagesize m) sz + 1"
    using page_count_small [OF unbound] by simp
  have "size_allowed sz m" using sz r by (simp add: size_allowed_def)
  moreover have "0 < sz" "0 < mapped_size sz m" using sz b(1) by (auto simp: minimum_stacksize_def)
  moreover have "l + mapped_size sz m < size_max" using l(2) b(2) by simp
  moreover have "(page_count (mm_pagesize m) sz + 1) * mm_pagesize m = mapped_size sz m" by (simp add: mapped_size_def)
  ultimately have "allocate sz m = (Ok (Some \<lparr>sc_size = mapped_size sz m, sc_sp = l + mapped_size sz m\<rparr>),
      m\<lparr>mm_calls := mm_calls m + 1, mm_maps := (l, mapped_size sz m) # mm_maps m\<rparr>)"
    using b(3) l(1) unfolding allocate_def pages Let_def
    by (simp add: stack_mmap_def andthen_def ret_def)
  then show ?thesis using r(1,3) by (simp add: deallocate_refuses)
qed

end
