(* ===== verification/Request_Coroutines.thy ===== *)
theory Request_Coroutines
  imports Server_Limits Coro_Limits
begin

text \<open>
  \<open>handleRequest\<close> of \<^verbatim>\<open>src/servant/libservant/ServantHandle.cpp\<close>: the messages of an adapter become
  coroutines, in order, as far as the pool has room; the others are deleted.
\<close>

definition requests :: "nat \<Rightarrow> recv_data list \<Rightarrow> recv_data list" where
  "requests p ds = map (\<lambda>d. d\<lparr>rd_adapter := Some p\<rparr>) (filter (\<lambda>d. \<not> rd_isClosed d) ds)"

lemma requests_simps [simp]:
  "requests p [] = []"
  "requests p (d # ds) = (if rd_isClosed d then [] else [d\<lparr>rd_adapter := Some p\<rparr>]) @ requests p ds"
  by (simp_all add: requests_def)

text \<open>What a number of requests does to the coroutines: \<open>rs\<close> are tried, the first get theirs.\<close>

definition given_coroutines ::
  "(recv_data \<Rightarrow> 'p) \<Rightarrow> recv_data list \<Rightarrow> 'p scheduler \<Rightarrow> (CORO_STATUS \<Rightarrow> 32 word list) \<Rightarrow> 'p scheduler \<Rightarrow>
   (CORO_STATUS \<Rightarrow> 32 word list) \<Rightarrow> bool" where
  "given_coroutines entry rs s L s' L' \<longleftrightarrow> sched_inv s' L' \<and> cs_poolSize s' = cs_poolSize s \<and>
     (\<exists>ids. L' CORO_AVAIL = L CORO_AVAIL @ ids \<and> in_use L' = in_use L + length ids \<and>
        length ids = min (length rs) (unat (cs_poolSize s) - in_use L) \<and>
        map (coro_point s') ids = map (\<lambda>d. Some (entry d)) (take (length ids) rs)) \<and>
     (\<forall>st j. st \<noteq> CORO_FREE \<longrightarrow> j \<in> set (L st) \<longrightarrow> coro_point s' j = coro_point s j) \<and>
     (\<forall>st j. st \<noteq> CORO_FREE \<longrightarrow> j \<in> set (L st) \<longrightarrow> (\<exists>st'. st' \<noteq> CORO_FREE \<and> j \<in> set (L' st')))"

lemma given_none: "sched_inv s L \<Longrightarrow> given_coroutines entry [] s L s L"
  by (auto simp: given_coroutines_def)

text \<open>One coroutine for one request.\<close>

lemma given_one:
  assumes inv: "sched_inv s L"
  shows "\<exists>i s' L'. cs_createCoroutine (entry d) s = (Ok i, s') \<and> given_coroutines entry [d] s L s' L'"
proof (cases "in_use L = unat (cs_poolSize s)")
  case True
  then show ?thesis
    using createCoroutine_full [OF inv True, of "entry d"] inv by (auto simp: given_coroutines_def)
next
  case False
  have "in_use L \<le> unat (cs_poolSize s)"
    using sched_invD(2) [OF inv] by (simp add: sizes_at_def word_le_nat_alt)
  then have room: "in_use L < unat (cs_poolSize s)" using False by simp
  let ?L1 = "added_all (extension s L) L"
  obtain i fs s' where c: "L CORO_FREE @ extension s L = i # fs" "cs_createCoroutine (entry d) s = (Ok i, s')"
    "sched_inv s' (mv CORO_FREE CORO_AVAIL i ?L1)" "rest_of s' = rest_of s" "coro_point s' i = Some (entry d)"
    "\<forall>j. known L j \<longrightarrow> j \<noteq> i \<longrightarrow> coro_point s' j = coro_point s j"
    using createCoroutine_spec [OF inv room, of "entry d"] by blast
  let ?L2 = "mv CORO_FREE CORO_AVAIL i ?L1"
  have pool: "cs_poolSize s' = cs_poolSize s" by (rule rest_ofD(2) [OF c(4)])
  have L2: "?L2 CORO_AVAIL = L CORO_AVAIL @ [i]" "in_use ?L2 = in_use L + 1"
    by (simp_all add: mv_def added_all_def in_use_def)
  have more: "j \<in> set (?L2 st)" if "st \<noteq> CORO_FREE" "j \<in> set (L st)" for st j
    using that by (cases st) (auto simp: mv_def added_all_def)
  obtain i' s'' where s'': "cs_createCoroutine (entry d) s = (Ok i', s'')"
    "\<forall>st j. st \<noteq> CORO_FREE \<longrightarrow> j \<in> set (L st) \<longrightarrow> coro_point s'' j = coro_point s j"
    using createCoroutine_from_pool [OF inv, of "entry d"] False by auto
  then have "given_coroutines entry [d] s L s' ?L2"
    unfolding given_coroutines_def using c(2,3,5) pool L2 room more by (intro conjI exI [of _ "[i]"]) auto
  then show ?thesis using c(2) by blast
qed

lemma given_kept:
  "given_coroutines entry rs s L s' L' \<Longrightarrow> st \<noteq> CORO_FREE \<Longrightarrow> j \<in> set (L st) \<Longrightarrow>
   coro_point s' j = coro_point s j \<and> (\<exists>st'. st' \<noteq> CORO_FREE \<and> j \<in> set (L' st'))"
  unfolding given_coroutines_def by blast

lemma given_append:
  assumes 1: "given_coroutines entry rs s L s1 L1" and 2: "given_coroutines entry rs' s1 L1 s2 L2"
  shows "given_coroutines entry (rs @ rs') s L s2 L2"
proof -
  define R where "R = unat (cs_poolSize s) - in_use L"
  obtain i1 where i1: "L1 CORO_AVAIL = L CORO_AVAIL @ i1" "in_use L1 = in_use L + length i1"
    "length i1 = min (length rs) R" "map (coro_point s1) i1 = map (\<lambda>d. Some (entry d)) (take (length i1) rs)"
    "cs_poolSize s1 = cs_poolSize s"
    using 1 by (auto simp: given_coroutines_def R_def)
  have "unat (cs_poolSize s1) - in_use L1 = R - length i1" using i1(2,5) by (simp add: R_def)
  then obtain i2 where i2: "L2 CORO_AVAIL = L1 CORO_AVAIL @ i2" "in_use L2 = in_use L1 + length i2"
    "length i2 = min (length rs') (R - length i1)"
    "map (coro_point s2) i2 = map (\<lambda>d. Some (entry d)) (take (length i2) rs')"
    "sched_inv s2 L2" "cs_poolSize s2 = cs_poolSize s1"
    using 2 by (auto simp: given_coroutines_def)
  have keep: "map (coro_point s2) i1 = map (coro_point s1) i1"
    using given_kept [OF 2, of CORO_AVAIL] i1(1) by simp
  have len: "length (i1 @ i2) = min (length (rs @ rs')) R" using i1(3) i2(3) by (auto simp: min_def)
  have "take (length (i1 @ i2)) (rs @ rs') = take (length i1) rs @ take (length i2) rs'"
  proof (cases "length i1 = length rs")
    case True
    then show ?thesis by simp
  next
    case False
    then have "length i1 = R" using i1(3) by (simp add: min_def split: if_splits)
    then have "i2 = []" using i2(3) by simp
    then show ?thesis using i1(3) by simp
  qed
  then have points: "map (coro_point s2) (i1 @ i2) = map (\<lambda>d. Some (entry d)) (take (length (i1 @ i2)) (rs @ rs'))"
    using i1(4) i2(4) keep by simp
  have kept: "coro_point s2 j = coro_point s j \<and> (\<exists>st'. st' \<noteq> CORO_FREE \<and> j \<in> set (L2 st'))"
    if st: "st \<noteq> CORO_FREE" "j \<in> set (L st)" for st j
  proof -
    obtain st' where "st' \<noteq> CORO_FREE" "j \<in> set (L1 st')" "coro_point s1 j = coro_point s j"
      using given_kept [OF 1 st] by blast
    then show ?thesis using given_kept [OF 2, of st' j] by simp
  qed
  have "L2 CORO_AVAIL = L CORO_AVAIL @ (i1 @ i2)" "in_use L2 = in_use L + length (i1 @ i2)" "cs_poolSize s2 = cs_poolSize s"
    using i1(1,2,5) i2(1,2,6) by simp_all
  then have "\<exists>ids. L2 CORO_AVAIL = L CORO_AVAIL @ ids \<and> in_use L2 = in_use L + length ids \<and>
      length ids = min (length (rs @ rs')) (unat (cs_poolSize s) - in_use L) \<and>
      map (coro_point s2) ids = map (\<lambda>d. Some (entry d)) (take (length ids) (rs @ rs'))"
    using len points unfolding R_def by (intro exI [of _ "i1 @ i2"] conjI)
  then show ?thesis
    unfolding given_coroutines_def using i1(5) i2(5,6) kept by simp
qed

lemma request_loop_spec:
  assumes "open_for_work es" and "es_adapters es p \<noteq> None" and "sched_inv s L"
  shows "\<exists>es' s' L'. request_loop entry p k (es, s) = (Ok False, (es', s')) \<and> open_for_work es' \<and>
    after_work es [] ((\<lambda>q. adapter_queue q es)(p := drop k (adapter_queue p es))) es' \<and>
    given_coroutines entry (requests p (take k (adapter_queue p es))) s L s' L'"
  using assms
proof (induction k arbitrary: es s L)
  case 0
  then show ?case using after_work_refl given_none by (fastforce simp: ret_def fun_upd_idem)
next
  case (Suc k)
  show ?case
  proof (cases "adapter_queue p es")
    case Nil
    then have "request_loop entry p (Suc k) (es, s) = (Ok False, (es, s))"
      using waitForRecvQueue_none [OF Suc.prems(2)] by (simp add: on_server_def zoom_def andthen_def ret_def)
    then show ?thesis
      using Nil Suc.prems after_work_refl [OF Suc.prems(1)] given_none [OF Suc.prems(3), of entry] by (auto simp: fun_upd_idem)
  next
    case (Cons d ds)
    obtain e1 where e1: "waitForRecvQueue p es = (Ok (Some d), e1)" "after_work es [] ((\<lambda>q. adapter_queue q es)(p := ds)) e1"
      using waitForRecvQueue_work [OF Suc.prems(1,2) Cons] by blast
    have "map_option ba_name (es_adapters e1 p) = map_option ba_name (es_adapters es p)"
      using e1(2) unfolding after_work_def by blast
    then have "es_adapters e1 p \<noteq> None" using Suc.prems(2) by (metis map_option_is_None)
    then have o1: "open_for_work e1" "es_adapters e1 p \<noteq> None" "(\<lambda>q. adapter_queue q e1) = (\<lambda>q. adapter_queue q es)(p := ds)"
      using e1(2) by (auto simp: after_work_def)
    then have q1: "adapter_queue p e1 = ds" by (metis fun_upd_same)
    have rest: "\<exists>es' s' L'. request_loop entry p k (e1, s1) = (Ok False, (es', s')) \<and> open_for_work es' \<and>
        after_work es [] ((\<lambda>q. adapter_queue q es)(p := drop k ds)) es' \<and>
        given_coroutines entry (requests p (take k ds)) s1 L1 s' L'"
      if inv1: "sched_inv s1 L1" for s1 :: "'a scheduler" and L1
    proof -
      obtain es' s' L' where "request_loop entry p k (e1, s1) = (Ok False, (es', s'))" "open_for_work es'"
        "after_work e1 [] ((\<lambda>q. adapter_queue q e1)(p := drop k ds)) es'"
        "given_coroutines entry (requests p (take k ds)) s1 L1 s' L'"
        using Suc.IH [OF o1(1,2) inv1] unfolding q1 by blast
      moreover from after_work_trans [OF e1(2) this(3)]
      have "after_work es [] ((\<lambda>q. adapter_queue q es)(p := drop k ds)) es'" by (simp add: o1(3))
      ultimately show ?thesis by blast
    qed
    show ?thesis
    proof (cases "rd_isClosed d")
      case True
      then have "request_loop entry p (Suc k) (es, s) = request_loop entry p k (e1, s)"
        using e1(1) by (simp add: on_server_def zoom_def andthen_def)
      moreover have "requests p (take (Suc k) (adapter_queue p es)) = requests p (take k ds)"
        "drop (Suc k) (adapter_queue p es) = drop k ds"
        using True Cons by simp_all
      ultimately show ?thesis using rest [OF Suc.prems(3)] by (simp only:)
    next
      case False
      let ?d = "d\<lparr>rd_adapter := Some p\<rparr>"
      obtain i s1 L1 where s1: "cs_createCoroutine (entry ?d) s = (Ok i, s1)" "given_coroutines entry [?d] s L s1 L1"
        using given_one [OF Suc.prems(3)] by blast
      then obtain es' s' L' where r: "request_loop entry p k (e1, s1) = (Ok False, (es', s'))" "open_for_work es'"
        "after_work es [] ((\<lambda>q. adapter_queue q es)(p := drop k ds)) es'"
        "given_coroutines entry (requests p (take k ds)) s1 L1 s' L'"
        using rest [of s1 L1] by (auto simp: given_coroutines_def)
      have "request_loop entry p (Suc k) (es, s) = (Ok False, (es', s'))"
        using False e1(1) s1(1) r(1) by (simp add: on_server_def on_sched_def zoom_def andthen_def)
      moreover have "given_coroutines entry (requests p (take (Suc k) (adapter_queue p es))) s L s' L'"
        using given_append [OF s1(2) r(4)] False Cons by simp
      moreover have "after_work es [] ((\<lambda>q. adapter_queue q es)(p := drop (Suc k) (adapter_queue p es))) es'"
        using r(3) Cons by simp
      ultimately show ?thesis using r(2) by blast
    qed
  qed
qed

text \<open>All adapters of a group, a hundred messages of each.\<close>

definition taken_requests :: "(bytes \<times> nat) list \<Rightarrow> epoll_server \<Rightarrow> recv_data list" where
  "taken_requests kvs es = concat (map (\<lambda>kv. requests (snd kv) (take 100 (adapter_queue (snd kv) es))) kvs)"

lemma request_adapters_spec:
  assumes "open_for_work es" and "\<forall>kv \<in> set kvs. es_adapters es (snd kv) \<noteq> None" and "sched_inv s L" and "distinct (map snd kvs)"
  shows "\<exists>es' s' L'. request_adapters entry kvs False (es, s) = (Ok False, (es', s')) \<and>
    after_work es [] (\<lambda>q. if q \<in> snd ` set kvs then drop 100 (adapter_queue q es) else adapter_queue q es) es' \<and>
    given_coroutines entry (taken_requests kvs es) s L s' L'"
  using assms
proof (induction kvs arbitrary: es s L)
  case Nil
  then show ?case using after_work_refl given_none by (fastforce simp: ret_def taken_requests_def)
next
  case (Cons kv kvs)
  let ?p = "snd kv"
  have p: "es_adapters es ?p \<noteq> None" "?p \<notin> snd ` set kvs" using Cons.prems(2,4) by auto
  obtain e1 s1 L1 where 1: "request_loop entry ?p 100 (es, s) = (Ok False, (e1, s1))" "open_for_work e1"
    "after_work es [] ((\<lambda>q. adapter_queue q es)(?p := drop 100 (adapter_queue ?p es))) e1"
    "given_coroutines entry (requests ?p (take 100 (adapter_queue ?p es))) s L s1 L1"
    using request_loop_spec [OF Cons.prems(1) p(1) Cons.prems(3)] by blast
  have q1: "adapter_queue q e1 = (if q = ?p then drop 100 (adapter_queue ?p es) else adapter_queue q es)" for q
    using 1(3) by (simp add: after_work_def)
  have "es_adapters e1 q = None \<longleftrightarrow> es_adapters es q = None" for q
    using 1(3) unfolding after_work_def by (metis map_option_is_None)
  then have ad: "\<forall>kv \<in> set kvs. es_adapters e1 (snd kv) \<noteq> None" using Cons.prems(2) by simp
  have inv1: "sched_inv s1 L1" using 1(4) by (simp add: given_coroutines_def)
  obtain e2 s2 L2 where 2: "request_adapters entry kvs False (e1, s1) = (Ok False, (e2, s2))"
    "after_work e1 [] (\<lambda>q. if q \<in> snd ` set kvs then drop 100 (adapter_queue q e1) else adapter_queue q e1) e2"
    "given_coroutines entry (taken_requests kvs e1) s1 L1 s2 L2"
    using Cons.IH [OF 1(2) ad inv1] Cons.prems(4) by auto
  have "adapter_queue (snd x) e1 = adapter_queue (snd x) es" if x: "x \<in> set kvs" for x
  proof -
    have "snd x \<in> snd ` set kvs" using x by (rule imageI)
    then have "snd x \<noteq> ?p" using p(2) by metis
    then show ?thesis by (simp add: q1)
  qed
  then have "taken_requests (kv # kvs) es = requests ?p (take 100 (adapter_queue ?p es)) @ taken_requests kvs e1"
    by (simp add: taken_requests_def cong: map_cong)
  then have g: "given_coroutines entry (taken_requests (kv # kvs) es) s L s2 L2"
    using given_append [OF 1(4) 2(3)] by simp
  have "(\<lambda>q. if q \<in> snd ` set kvs then drop 100 (adapter_queue q e1) else adapter_queue q e1) =
      (\<lambda>q. if q \<in> snd ` set (kv # kvs) then drop 100 (adapter_queue q es) else adapter_queue q es)"
    using p(2) by (auto simp: q1 fun_eq_iff)
  then have "after_work es [] (\<lambda>q. if q \<in> snd ` set (kv # kvs) then drop 100 (adapter_queue q es) else adapter_queue q es) e2"
    using after_work_trans [OF 1(3) 2(2)] by (simp only: append_Nil)
  moreover have "request_adapters entry (kv # kvs) False (es, s) = (Ok False, (e2, s2))"
    using 1(1) 2(1) by (simp add: andthen_def)
  ultimately show ?case using g by blast
qed

lemma handleRequest_pass_spec:
  assumes s: "open_for_work es" and g: "es_groups es g = Some hg" and ad: "\<forall>kv \<in> set (hg_adapters hg). es_adapters es (snd kv) \<noteq> None"
    and dist: "distinct (map snd (hg_adapters hg))" and inv: "sched_inv s L" and idle: "getResponseCoroSize s = 0"
  shows "\<exists>es' s' L'. handleRequest_pass entry (ServantHandle_heartbeat now) g (es, s) = (Ok True, (es', s')) \<and>
    after_work es [] (\<lambda>q. if q \<in> snd ` set (hg_adapters hg) then drop 100 (adapter_queue q es) else adapter_queue q es) es' \<and>
    given_coroutines entry (taken_requests (hg_adapters hg) es) s L s' L'"
proof -
  obtain bs e1 where b: "beat_adapters now (hg_adapters hg) es = (Ok bs, e1)" "after_work es [] (\<lambda>p. adapter_queue p es) e1"
    using beat_adapters_work [OF s ad] by blast
  have q1: "adapter_queue q e1 = adapter_queue q es" for q using b(2) by (simp add: after_work_def)
  have same: "open_for_work e1" "es_groups e1 g = Some hg" using b(2) g by (simp_all add: after_work_def)
  have "es_adapters e1 q = None \<longleftrightarrow> es_adapters es q = None" for q
    using b(2) unfolding after_work_def by (metis map_option_is_None)
  then have ad1: "\<forall>kv \<in> set (hg_adapters hg). es_adapters e1 (snd kv) \<noteq> None" using ad by simp
  obtain es' s' L' where r: "request_adapters entry (hg_adapters hg) False (e1, s) = (Ok False, (es', s'))"
    "after_work e1 [] (\<lambda>q. if q \<in> snd ` set (hg_adapters hg) then drop 100 (adapter_queue q e1) else adapter_queue q e1) es'"
    "given_coroutines entry (taken_requests (hg_adapters hg) e1) s L s' L'"
    using request_adapters_spec [OF same(1) ad1 inv dist] by blast
  have "taken_requests (hg_adapters hg) e1 = taken_requests (hg_adapters hg) es" by (simp add: taken_requests_def q1)
  moreover have "after_work es [] (\<lambda>q. if q \<in> snd ` set (hg_adapters hg) then drop 100 (adapter_queue q es) else adapter_queue q es) es'"
    using after_work_trans [OF b(2) r(2)] by (simp add: q1 cong: if_cong)
  moreover have "handleRequest_pass entry (ServantHandle_heartbeat now) g (es, s) = (Ok True, (es', s'))"
    using b(1) r(1) g same(2) idle
    by (simp add: handleRequest_pass_def on_server_def zoom_def andthen_def ServantHandle_heartbeat_def ret_def)
  ultimately show ?thesis using r(3) by auto
qed

end
