(* ===== verification/Tc_Monitor.thy ===== *)
theory Tc_Monitor
  imports Thread_Queue "HOL-Library.Signed_Division"
begin

text \<open>
  Locks and waiting: \<^verbatim>\<open>tc_thread_mutex.cpp\<close>, \<^verbatim>\<open>tc_thread_cond.h\<close> and \<^verbatim>\<open>tc_thread_cond.cpp\<close>,
  \<^verbatim>\<open>tc_monitor.h\<close> and \<^verbatim>\<open>tc_lock.h\<close>, over what POSIX says of an error-checking mutex and of a
  condition variable. Threads are numbers. An operation that has to wait for the mutex has no
  result (\<open>None\<close>) as long as it waits. Which waiting thread a signal wakes is not specified; the
  argument \<open>pick\<close> tells it.
\<close>

section \<open>Mutex and condition variable\<close>

text \<open>The members of \<open>TC_Monitor\<close>: the mutex by its owner, the condition by those that wait for it.\<close>

record monitor =
  mo_owner :: "nat option"
  mo_waiting :: "nat list"
  mo_nnotify :: int

text \<open>A second lock by the owner fails with \<open>EDEADLK\<close>, which is only printed.\<close>

definition mutex_lock :: "nat \<Rightarrow> monitor \<Rightarrow> monitor option" where
  "mutex_lock t m =
     (case mo_owner m of
        None \<Rightarrow> Some (m\<lparr>mo_owner := Some t\<rparr>)
      | Some u \<Rightarrow> if u = t then Some m else None)"

definition mutex_tryLock :: "nat \<Rightarrow> monitor \<Rightarrow> bool \<times> monitor" where
  "mutex_tryLock t m = (if mo_owner m = None then (True, m\<lparr>mo_owner := Some t\<rparr>) else (False, m))"

text \<open>\<open>EPERM\<close> for one who is not the owner, which is only printed.\<close>

definition mutex_unlock :: "nat \<Rightarrow> monitor \<Rightarrow> monitor" where
  "mutex_unlock t m = (if mo_owner m = Some t then m\<lparr>mo_owner := None\<rparr> else m)"

definition cond_signal :: "(nat list \<Rightarrow> nat) \<Rightarrow> nat list \<Rightarrow> nat list" where
  "cond_signal pick W =
     (if W = [] then [] else let i = pick W mod length W in take i W @ drop (Suc i) W)"

definition cond_broadcast :: "nat list \<Rightarrow> nat list" where
  "cond_broadcast W = []"

text \<open>
  Going to sleep gives the mutex up in the same step; without the mutex it fails with \<open>EPERM\<close>,
  which is thrown. Waking up takes the mutex again.
\<close>

definition cond_sleep :: "nat \<Rightarrow> (monitor, unit) act" where
  "cond_sleep t m =
     (if mo_owner m = Some t then (Ok (), m\<lparr>mo_owner := None, mo_waiting := mo_waiting m @ [t]\<rparr>)
      else (Throw TC_Exception, m))"

definition cond_wake :: "nat \<Rightarrow> monitor \<Rightarrow> monitor option" where
  "cond_wake t m = (if mo_owner m = None then Some (m\<lparr>mo_owner := Some t\<rparr>) else None)"

text \<open>
  The time up to which to wait, from the time of day in seconds and microseconds; the divisions
  are those of the language.
\<close>

definition abstime :: "int \<Rightarrow> int \<Rightarrow> int \<Rightarrow> int \<times> int" where
  "abstime tv_sec tv_usec millsecond =
     (let it = tv_sec * 1000000 + tv_usec + millsecond * 1000
      in (it sdiv 1000000, it smod 1000000 * 1000))"

section \<open>Monitor\<close>

definition monitor_init :: monitor where
  "monitor_init = \<lparr>mo_owner = None, mo_waiting = [], mo_nnotify = 0\<rparr>"

primrec signals :: "nat \<Rightarrow> (nat list \<Rightarrow> nat) \<Rightarrow> nat list \<Rightarrow> nat list" where
  "signals 0 pick W = W"
| "signals (Suc n) pick W = signals n pick (cond_signal pick W)"

definition notifyImpl :: "(nat list \<Rightarrow> nat) \<Rightarrow> int \<Rightarrow> nat list \<Rightarrow> nat list" where
  "notifyImpl pick nnotify W =
     (if nnotify \<noteq> 0 then if nnotify = - 1 then cond_broadcast W else signals (nat nnotify) pick W
      else W)"

definition monitor_lock :: "nat \<Rightarrow> monitor \<Rightarrow> monitor option" where
  "monitor_lock t m = map_option (\<lambda>m'. m'\<lparr>mo_nnotify := 0\<rparr>) (mutex_lock t m)"

definition monitor_unlock :: "(nat list \<Rightarrow> nat) \<Rightarrow> nat \<Rightarrow> monitor \<Rightarrow> monitor" where
  "monitor_unlock pick t m =
     mutex_unlock t (m\<lparr>mo_waiting := notifyImpl pick (mo_nnotify m) (mo_waiting m)\<rparr>)"

definition monitor_tryLock :: "nat \<Rightarrow> monitor \<Rightarrow> bool \<times> monitor" where
  "monitor_tryLock t m =
     (let (result, m') = mutex_tryLock t m in (result, if result then m'\<lparr>mo_nnotify := 0\<rparr> else m'))"

text \<open>The two halves of \<open>wait\<close> and of \<open>timedWait\<close>: up to the sleep, and when it is over.\<close>

definition monitor_sleep :: "(nat list \<Rightarrow> nat) \<Rightarrow> nat \<Rightarrow> (monitor, unit) act" where
  "monitor_sleep pick t m =
     (case cond_sleep t (m\<lparr>mo_waiting := notifyImpl pick (mo_nnotify m) (mo_waiting m)\<rparr>) of
        (Throw e, m') \<Rightarrow> (Throw e, m'\<lparr>mo_nnotify := 0\<rparr>)
      | r \<Rightarrow> r)"

definition monitor_wake :: "nat \<Rightarrow> monitor \<Rightarrow> monitor option" where
  "monitor_wake t m = map_option (\<lambda>m'. m'\<lparr>mo_nnotify := 0\<rparr>) (cond_wake t m)"

definition notify :: "monitor \<Rightarrow> monitor" where
  "notify m = (if mo_nnotify m \<noteq> - 1 then m\<lparr>mo_nnotify := mo_nnotify m + 1\<rparr> else m)"

definition notifyAll :: "monitor \<Rightarrow> monitor" where
  "notifyAll m = m\<lparr>mo_nnotify := - 1\<rparr>"

section \<open>Scoped locks\<close>

text \<open>\<open>TC_LockT\<close>: whether the object holds the lock, with the monitor.\<close>

type_synonym lock_state = "bool \<times> monitor"

definition Lock_new :: "nat \<Rightarrow> monitor \<Rightarrow> lock_state option" where
  "Lock_new t m = map_option (Pair True) (monitor_lock t m)"

definition Lock_delete :: "(nat list \<Rightarrow> nat) \<Rightarrow> nat \<Rightarrow> lock_state \<Rightarrow> monitor" where
  "Lock_delete pick t l = (case l of (acquired, m) \<Rightarrow> if acquired then monitor_unlock pick t m else m)"

definition Lock_acquire :: "nat \<Rightarrow> lock_state \<Rightarrow> (unit outcome \<times> lock_state) option" where
  "Lock_acquire t l = (case l of (acquired, m) \<Rightarrow>
     if acquired then Some (Throw TC_Exception, (acquired, m))
     else map_option (\<lambda>m'. (Ok (), (True, m'))) (monitor_lock t m))"

definition Lock_tryAcquire :: "nat \<Rightarrow> lock_state \<Rightarrow> bool \<times> lock_state" where
  "Lock_tryAcquire t l = (case l of (acquired, m) \<Rightarrow>
     let (result, m') = monitor_tryLock t m in (result, (result, m')))"

definition Lock_release :: "(nat list \<Rightarrow> nat) \<Rightarrow> nat \<Rightarrow> (lock_state, unit) act" where
  "Lock_release pick t l = (case l of (acquired, m) \<Rightarrow>
     if \<not> acquired then (Throw TC_Exception, (acquired, m))
     else (Ok (), (False, monitor_unlock pick t m)))"

definition TryLock_new :: "nat \<Rightarrow> monitor \<Rightarrow> lock_state" where
  "TryLock_new t m = monitor_tryLock t m"

section \<open>What the operations do\<close>

lemma abstime_spec:
  assumes "0 \<le> tv_sec * 1000000 + tv_usec + millsecond * 1000" and "abstime tv_sec tv_usec millsecond = (sec, nsec)"
  shows "0 \<le> nsec \<and> nsec < 1000000000 \<and>
    sec * 1000000000 + nsec = tv_sec * 1000000000 + tv_usec * 1000 + millsecond * 1000000"
proof -
  define it where "it = tv_sec * 1000000 + tv_usec + millsecond * 1000"
  have "sec = it div 1000000" "nsec = it mod 1000000 * 1000"
    using assms unfolding it_def [symmetric]
    by (simp_all add: abstime_def Let_def it_def [symmetric] signed_divide_int_def signed_modulo_int_def sgn_if
        split: if_splits)
  moreover have "it div 1000000 * 1000000 + it mod 1000000 = it" by simp
  moreover have "0 \<le> it mod 1000000" "it mod 1000000 < 1000000" by simp_all
  ultimately show ?thesis unfolding it_def by linarith
qed

text \<open>A signal takes one waiting thread off the list if there is one.\<close>

lemma cond_signal_spec:
  assumes "distinct W"
  shows "distinct (cond_signal pick W) \<and> set (cond_signal pick W) \<subseteq> set W \<and> length (cond_signal pick W) = length W - 1"
proof (cases "W = []")
  case False
  define i where "i = pick W mod length W"
  have i: "i < length W" using False by (simp add: i_def)
  have "distinct (take i W @ W ! i # drop (Suc i) W)" using assms id_take_nth_drop [OF i] by simp
  then have "distinct (take i W @ drop (Suc i) W)" by auto
  moreover have "set (take i W @ drop (Suc i) W) \<subseteq> set W"
    using set_take_subset [of i W] set_drop_subset [of "Suc i" W] by simp
  moreover have "length (take i W @ drop (Suc i) W) = length W - 1" using i by simp
  moreover have "cond_signal pick W = take i W @ drop (Suc i) W" using False by (simp add: cond_signal_def i_def Let_def)
  ultimately show ?thesis by simp
qed (simp add: cond_signal_def)

lemma signals_spec:
  "distinct W \<Longrightarrow> distinct (signals n pick W) \<and> set (signals n pick W) \<subseteq> set W \<and> length (signals n pick W) = length W - n"
proof (induction n arbitrary: W)
  case (Suc n)
  note c = cond_signal_spec [OF Suc.prems, of pick]
  then show ?case using Suc.IH [of "cond_signal pick W"] by auto
qed simp

lemma notifyImpl_spec:
  assumes "distinct W"
  shows "distinct (notifyImpl pick n W) \<and> set (notifyImpl pick n W) \<subseteq> set W \<and>
    (notifyImpl pick n W \<noteq> [] \<longrightarrow> n \<noteq> - 1 \<and> card (set W - set (notifyImpl pick n W)) = nat n)"
proof -
  note s = signals_spec [OF assms, of "nat n" pick]
  have "card (set W - set (signals (nat n) pick W)) = nat n" if "signals (nat n) pick W \<noteq> []"
  proof -
    have "card (set W - set (signals (nat n) pick W)) = length W - length (signals (nat n) pick W)"
      using s assms by (simp add: card_Diff_subset distinct_card)
    then show ?thesis using s that by (cases "length W \<le> nat n") auto
  qed
  then show ?thesis using s assms by (auto simp: notifyImpl_def cond_broadcast_def)
qed

lemma notify_times: "0 \<le> mo_nnotify m \<Longrightarrow> (notify ^^ n) m = m\<lparr>mo_nnotify := mo_nnotify m + int n\<rparr>"
  by (induction n) (simp_all add: notify_def)

lemma monitor_lock_free: "mo_owner m = None \<Longrightarrow> monitor_lock t m = Some (m\<lparr>mo_owner := Some t, mo_nnotify := 0\<rparr>)"
  by (simp add: monitor_lock_def mutex_lock_def)

lemma monitor_lock_blocks: "mo_owner m = Some u \<Longrightarrow> u \<noteq> t \<Longrightarrow> monitor_lock t m = None"
  by (simp add: monitor_lock_def mutex_lock_def)

lemma monitor_wake_eq:
  "monitor_wake t m = (if mo_owner m = None then Some (m\<lparr>mo_owner := Some t, mo_nnotify := 0\<rparr>) else None)"
  by (simp add: monitor_wake_def cond_wake_def)

lemma monitor_unlock_own:
  "mo_owner m = Some t \<Longrightarrow>
   monitor_unlock pick t m = m\<lparr>mo_owner := None, mo_waiting := notifyImpl pick (mo_nnotify m) (mo_waiting m)\<rparr>"
  by (simp add: monitor_unlock_def mutex_unlock_def)

lemma monitor_sleep_own:
  "mo_owner m = Some t \<Longrightarrow> mo_nnotify m = 0 \<Longrightarrow>
   monitor_sleep pick t m = (Ok (), m\<lparr>mo_owner := None, mo_waiting := mo_waiting m @ [t]\<rparr>)"
  by (simp add: monitor_sleep_def cond_sleep_def notifyImpl_def)

text \<open>\<open>tryAcquire\<close> on a lock that is held forgets that it is: the destructor does not unlock.\<close>

lemma tryAcquire_forgets:
  assumes "mo_owner m = Some t"
  shows "Lock_tryAcquire t (True, m) = (False, (False, m))" and "Lock_delete pick t (False, m) = m"
  using assms by (simp_all add: Lock_tryAcquire_def monitor_tryLock_def mutex_tryLock_def Lock_delete_def)

text \<open>Locking twice is not noticed either: the first unlock lets go, the second is an error that is printed.\<close>

lemma lock_twice:
  assumes "mo_owner m = Some t"
  shows "monitor_lock t m = Some (m\<lparr>mo_nnotify := 0\<rparr>)"
    and "mo_owner (monitor_unlock pick t (m\<lparr>mo_nnotify := 0\<rparr>)) = None"
  using assms by (simp_all add: monitor_lock_def mutex_lock_def monitor_unlock_def mutex_unlock_def)

end
