(* ===== verification/Queue_Waits.thy ===== *)
theory Queue_Waits
  imports Tc_Monitor
begin

text \<open>
  The thread queue with its monitor: any number of threads call the operations of
  \<^verbatim>\<open>tc_thread_queue.h\<close>, each a sequence of steps (take the lock, run, sleep, wake up, take the lock
  again, unlock) between which the steps of the others fall. No wake-up is lost, and to the
  callers the queue is the one of \<open>Thread_Queue\<close>, whose operations are one step.
\<close>

section \<open>Operations in steps\<close>

datatype 'a tq_op =
    PopFront tq_wait
  | SwapOut "'a list" tq_wait
  | PushBack 'a
  | PushBackAll "'a list"
  | PushFront 'a
  | PushFrontAll "'a list"
  | Clear
  | NotifyT

datatype 'a tq_res = Popped "'a option" | Swapped bool "'a list" | Finished | Asserted

text \<open>\<open>pop_front\<close> and \<open>swap\<close> behind the wait.\<close>

definition take_front :: "'a thread_queue \<Rightarrow> 'a tq_res \<times> 'a thread_queue" where
  "take_front q =
     (case tq_pop_front NoWait (Pair False) q of
        (Ok r, q') \<Rightarrow> (Popped r, q')
      | (_, q') \<Rightarrow> (Asserted, q'))"

definition take_all :: "'a list \<Rightarrow> 'a thread_queue \<Rightarrow> 'a tq_res \<times> 'a thread_queue" where
  "take_all c q = (case tq_swap c NoWait (Pair False) q of ((b, c'), q') \<Rightarrow> (Swapped b c', q'))"

text \<open>
  An operation with the lock: it goes to sleep (\<open>None\<close>), or yields its result, the queue and the
  notifications, \<open>- 1\<close> for \<open>notifyAll\<close>.
\<close>

fun tq_begin :: "'a tq_op \<Rightarrow> 'a thread_queue \<Rightarrow> (('a tq_res \<times> 'a thread_queue) \<times> int) option" where
  "tq_begin (PopFront w) q = (if tq_queue q = [] \<and> w \<noteq> NoWait then None else Some (take_front q, 0))"
| "tq_begin (SwapOut c w) q = (if tq_queue q = [] \<and> w \<noteq> NoWait then None else Some (take_all c q, 0))"
| "tq_begin (PushBack t) q = Some ((Finished, tq_push_back t q), 1)"
| "tq_begin (PushBackAll ts) q = Some ((Finished, tq_push_back_all ts q), int (length ts))"
| "tq_begin (PushFront t) q = Some ((Finished, tq_push_front t q), 1)"
| "tq_begin (PushFrontAll ts) q = Some ((Finished, tq_push_front_all ts q), int (length ts))"
| "tq_begin Clear q = Some ((Finished, tq_clear q), 0)"
| "tq_begin NotifyT q = Some ((Finished, q), - 1)"

text \<open>An operation that was asleep; \<open>rc\<close> is what \<open>timedWait\<close> returns.\<close>

fun tq_resume :: "'a tq_op \<Rightarrow> bool \<Rightarrow> 'a thread_queue \<Rightarrow> 'a tq_res \<times> 'a thread_queue" where
  "tq_resume (PopFront w) rc q = (if w \<noteq> WaitForever \<and> \<not> rc then (Popped None, q) else take_front q)"
| "tq_resume (SwapOut c w) rc q = (if w \<noteq> WaitForever \<and> \<not> rc then (Swapped False c, q) else take_all c q)"
| "tq_resume _ rc q = (Finished, q)"

text \<open>The steps make up the operations of \<open>Thread_Queue\<close>.\<close>

lemma pop_front_in_steps:
  "tq_pop_front w waited q =
     (case (case tq_begin (PopFront w) q of Some (r, _) \<Rightarrow> r
        | None \<Rightarrow> tq_resume (PopFront w) (fst (waited q)) (snd (waited q))) of
        (Popped r, q') \<Rightarrow> (Ok r, q') | (_, q') \<Rightarrow> (Abort, q'))"
proof (cases "tq_queue q = [] \<and> w \<noteq> NoWait")
  case True
  then show ?thesis
    by (cases w; cases "waited q"; cases "tq_queue (snd (waited q))")
      (auto simp: tq_pop_front_def tq_after_wait_def take_front_def Let_def)
next
  case False
  then show ?thesis
    by (cases "tq_queue q") (auto simp: tq_pop_front_def tq_after_wait_def take_front_def Let_def)
qed

lemma swap_in_steps:
  "tq_swap c w waited q =
     (case (case tq_begin (SwapOut c w) q of Some (r, _) \<Rightarrow> r
        | None \<Rightarrow> tq_resume (SwapOut c w) (fst (waited q)) (snd (waited q))) of
        (Swapped b c', q') \<Rightarrow> ((b, c'), q') | (_, q') \<Rightarrow> ((False, c), q'))"
proof (cases "tq_queue q = [] \<and> w \<noteq> NoWait")
  case True
  then show ?thesis
    by (cases w; cases "waited q"; cases "tq_queue (snd (waited q))")
      (auto simp: tq_swap_def tq_after_wait_def take_all_def Let_def)
next
  case False
  then show ?thesis
    by (cases "tq_queue q") (auto simp: tq_swap_def tq_after_wait_def take_all_def Let_def)
qed

section \<open>Threads\<close>

text \<open>Where a thread is: outside, before the lock, with the lock, asleep, awake without the lock.\<close>

datatype 'a tq_at =
    Outside
  | Locking "'a tq_op"
  | Inside "'a tq_op"
  | Sleeping "'a tq_op"
  | Awake "'a tq_op" bool
  | Back "'a tq_op" bool
  | Leaving "'a tq_res"

text \<open>\<open>qs_put\<close> and \<open>qs_got\<close> record what was pushed and what was handed out, in the order of the steps.\<close>

record 'a queue_system =
  qs_monitor :: monitor
  qs_queue :: "'a thread_queue"
  qs_at :: "nat \<Rightarrow> 'a tq_at"
  qs_put :: "'a list"
  qs_got :: "'a list"

definition queue_system_init :: "'a queue_system" where
  "queue_system_init = \<lparr>qs_monitor = monitor_init, qs_queue = ThreadQueue_init, qs_at = (\<lambda>_. Outside),
     qs_put = [], qs_got = []\<rparr>"

definition add_notes :: "int \<Rightarrow> monitor \<Rightarrow> monitor" where
  "add_notes n m = (if n = - 1 then notifyAll m else (notify ^^ nat n) m)"

text \<open>The threads that a notification took from \<open>W\<close> to \<open>W'\<close> are awake.\<close>

definition awaken :: "nat list \<Rightarrow> nat list \<Rightarrow> (nat \<Rightarrow> 'a tq_at) \<Rightarrow> nat \<Rightarrow> 'a tq_at" where
  "awaken W W' at u =
     (case at u of Sleeping op \<Rightarrow> if u \<in> set W \<and> u \<notin> set W' then Awake op True else at u | _ \<Rightarrow> at u)"

fun pushed_by :: "'a tq_op \<Rightarrow> 'a list" where
  "pushed_by (PushBack t) = [t]"
| "pushed_by (PushBackAll ts) = ts"
| "pushed_by _ = []"

fun handed_out :: "'a tq_res \<Rightarrow> 'a list" where
  "handed_out (Popped (Some t)) = [t]"
| "handed_out (Swapped True ts) = ts"
| "handed_out _ = []"

fun timed :: "'a tq_op \<Rightarrow> bool" where
  "timed (PopFront (WaitFor n)) = True"
| "timed (SwapOut c (WaitFor n)) = True"
| "timed _ = False"

text \<open>One step of one thread; \<open>ok\<close> says which calls are made.\<close>

inductive queue_step :: "('a tq_op \<Rightarrow> bool) \<Rightarrow> 'a queue_system \<Rightarrow> 'a queue_system \<Rightarrow> bool" for ok where
  call: "qs_at s t = Outside \<Longrightarrow> ok op \<Longrightarrow> queue_step ok s (s\<lparr>qs_at := (qs_at s)(t := Locking op)\<rparr>)"
| lock: "qs_at s t = Locking op \<Longrightarrow> monitor_lock t (qs_monitor s) = Some m \<Longrightarrow>
    queue_step ok s (s\<lparr>qs_monitor := m, qs_at := (qs_at s)(t := Inside op)\<rparr>)"
| run: "qs_at s t = Inside op \<Longrightarrow> tq_begin op (qs_queue s) = Some ((r, q), n) \<Longrightarrow>
    queue_step ok s (s\<lparr>qs_monitor := add_notes n (qs_monitor s), qs_queue := q, qs_at := (qs_at s)(t := Leaving r),
      qs_put := qs_put s @ pushed_by op, qs_got := qs_got s @ handed_out r\<rparr>)"
| sleep: "qs_at s t = Inside op \<Longrightarrow> tq_begin op (qs_queue s) = None \<Longrightarrow>
    monitor_sleep pick t (qs_monitor s) = (Ok (), m) \<Longrightarrow>
    queue_step ok s (s\<lparr>qs_monitor := m,
      qs_at := awaken (mo_waiting (qs_monitor s)) (mo_waiting m) ((qs_at s)(t := Sleeping op))\<rparr>)"
| spurious: "qs_at s t = Sleeping op \<Longrightarrow>
    queue_step ok s (s\<lparr>qs_monitor := (qs_monitor s)\<lparr>mo_waiting := filter (\<lambda>u. u \<noteq> t) (mo_waiting (qs_monitor s))\<rparr>,
      qs_at := (qs_at s)(t := Awake op True)\<rparr>)"
| timeout: "qs_at s t = Sleeping op \<Longrightarrow> timed op \<Longrightarrow>
    queue_step ok s (s\<lparr>qs_monitor := (qs_monitor s)\<lparr>mo_waiting := filter (\<lambda>u. u \<noteq> t) (mo_waiting (qs_monitor s))\<rparr>,
      qs_at := (qs_at s)(t := Awake op False)\<rparr>)"
| relock: "qs_at s t = Awake op rc \<Longrightarrow> monitor_wake t (qs_monitor s) = Some m \<Longrightarrow>
    queue_step ok s (s\<lparr>qs_monitor := m, qs_at := (qs_at s)(t := Back op rc)\<rparr>)"
| resume: "qs_at s t = Back op rc \<Longrightarrow> tq_resume op rc (qs_queue s) = (r, q) \<Longrightarrow>
    queue_step ok s (s\<lparr>qs_queue := q, qs_at := (qs_at s)(t := Leaving r), qs_got := qs_got s @ handed_out r\<rparr>)"
| unlock: "qs_at s t = Leaving r \<Longrightarrow> monitor_unlock pick t (qs_monitor s) = m \<Longrightarrow>
    queue_step ok s (s\<lparr>qs_monitor := m,
      qs_at := awaken (mo_waiting (qs_monitor s)) (mo_waiting m) ((qs_at s)(t := Outside))\<rparr>)"

inductive queue_reaches :: "('a tq_op \<Rightarrow> bool) \<Rightarrow> 'a queue_system \<Rightarrow> bool" for ok where
  start: "queue_reaches ok queue_system_init"
| step: "queue_reaches ok s \<Longrightarrow> queue_step ok s s' \<Longrightarrow> queue_reaches ok s'"

lemma queue_step_mono: "queue_step ok s s' \<Longrightarrow> (\<And>op. ok op \<Longrightarrow> ok' op) \<Longrightarrow> queue_step ok' s s'"
  by (induction rule: queue_step.induct) (auto intro: queue_step.intros)

lemma queue_reaches_mono: "queue_reaches ok s \<Longrightarrow> (\<And>op. ok op \<Longrightarrow> ok' op) \<Longrightarrow> queue_reaches ok' s"
  by (induction rule: queue_reaches.induct) (blast intro: queue_reaches.intros queue_step_mono)+

section \<open>What one operation does\<close>

text \<open>Calls that may wait; calls that leave no items behind without a notification; first in, first out.\<close>

fun waits :: "'a tq_op \<Rightarrow> bool" where
  "waits (PopFront w) = True"
| "waits (SwapOut c w) = True"
| "waits _ = False"

fun notifying :: "'a tq_op \<Rightarrow> bool" where
  "notifying (SwapOut c w) \<longleftrightarrow> c = []"
| "notifying _ = True"

fun in_order :: "'a tq_op \<Rightarrow> bool" where
  "in_order (SwapOut c w) \<longleftrightarrow> c = []"
| "in_order (PushFront t) = False"
| "in_order (PushFrontAll ts) = False"
| "in_order Clear = False"
| "in_order _ = True"

lemma in_order_notifying: "in_order op \<Longrightarrow> notifying op"
  by (cases op) simp_all

lemma take_front_length: "take_front q = (r, q') \<Longrightarrow> length (tq_queue q') = length (tq_queue q) - 1"
  by (cases "tq_queue q") (auto simp: take_front_def tq_pop_front_def tq_after_wait_def Let_def split: if_splits)

lemma take_all_length: "take_all [] q = (r, q') \<Longrightarrow> tq_queue q' = []"
  by (auto simp: take_all_def tq_swap_def tq_after_wait_def Let_def split: if_splits)

lemma push_all_length:
  "length (tq_queue (tq_push_back_all ts q)) = length (tq_queue q) + length ts"
  "length (tq_queue (tq_push_front_all ts q)) = length (tq_queue q) + length ts"
  by (induction ts arbitrary: q) (simp_all add: tq_push_back_def tq_push_front_def)

lemma begin_length:
  assumes "tq_begin op q = Some ((r, q'), n)" and "notifying op"
  shows "n = - 1 \<or> 0 \<le> n \<and> length (tq_queue q') \<le> length (tq_queue q) + nat n"
  using assms
  by (cases op) (auto simp: push_all_length tq_push_back_def tq_push_front_def tq_clear_def dest: take_front_length take_all_length
      split: if_splits)

lemma begin_sleeps: "tq_begin op q = None \<Longrightarrow> waits op \<and> tq_queue q = []"
  by (cases op) (auto split: if_splits)

lemma resume_length:
  assumes "tq_resume op rc q = (r, q')" and "waits op" and "notifying op"
  shows "length (tq_queue q') \<le> length (tq_queue q) - (if rc then 1 else 0)"
  using assms by (cases op) (auto dest: take_front_length take_all_length split: if_splits)

section \<open>Mutual exclusion\<close>

fun holds_lock :: "'a tq_at \<Rightarrow> bool" where
  "holds_lock (Inside op) = True"
| "holds_lock (Back op rc) = True"
| "holds_lock (Leaving r) = True"
| "holds_lock _ = False"

fun asleep :: "'a tq_at \<Rightarrow> bool" where
  "asleep (Sleeping op) = True"
| "asleep _ = False"

text \<open>Woken by a notification that the thread has yet to act upon.\<close>

fun called :: "'a tq_at \<Rightarrow> bool" where
  "called (Awake op rc) = rc"
| "called (Back op rc) = rc"
| "called _ = False"

text \<open>The call a thread is in.\<close>

fun calls_ok :: "('a tq_op \<Rightarrow> bool) \<Rightarrow> 'a tq_at \<Rightarrow> bool" where
  "calls_ok ok (Locking op) = ok op"
| "calls_ok ok (Inside op) = ok op"
| "calls_ok ok (Sleeping op) = (ok op \<and> waits op)"
| "calls_ok ok (Awake op rc) = (ok op \<and> waits op)"
| "calls_ok ok (Back op rc) = (ok op \<and> waits op)"
| "calls_ok ok _ = True"

definition exclusive :: "('a tq_op \<Rightarrow> bool) \<Rightarrow> 'a queue_system \<Rightarrow> bool" where
  "exclusive ok s \<longleftrightarrow>
     (\<forall>t. mo_owner (qs_monitor s) = Some t \<longleftrightarrow> holds_lock (qs_at s t)) \<and>
     distinct (mo_waiting (qs_monitor s)) \<and> (\<forall>t. t \<in> set (mo_waiting (qs_monitor s)) \<longleftrightarrow> asleep (qs_at s t)) \<and>
     finite {t. qs_at s t \<noteq> Outside} \<and>
     (\<forall>t. holds_lock (qs_at s t) \<longrightarrow> (\<exists>r. qs_at s t = Leaving r) \<or> mo_nnotify (qs_monitor s) = 0) \<and>
     (\<forall>t. calls_ok ok (qs_at s t))"

lemma exclusiveD:
  assumes "exclusive ok s"
  shows "mo_owner (qs_monitor s) = Some t \<longleftrightarrow> holds_lock (qs_at s t)"
    and "distinct (mo_waiting (qs_monitor s))"
    and "t \<in> set (mo_waiting (qs_monitor s)) \<longleftrightarrow> asleep (qs_at s t)"
    and "finite {t. qs_at s t \<noteq> Outside}"
    and "holds_lock (qs_at s t) \<Longrightarrow> (\<exists>r. qs_at s t = Leaving r) \<or> mo_nnotify (qs_monitor s) = 0"
    and "calls_ok ok (qs_at s t)"
  using assms by (simp_all add: exclusive_def)

lemma finite_changed: "finite {u. at u \<noteq> Outside} \<Longrightarrow> finite {u. (at(t := p)) u \<noteq> Outside}"
  by (rule finite_subset [of _ "insert t {u. at u \<noteq> Outside}"]) auto

lemma holds_lock_awaken [simp]: "holds_lock (awaken W W' at u) = holds_lock (at u)"
  by (simp add: awaken_def split: tq_at.split)

lemma leaving_awaken [simp]: "awaken W W' at u = Leaving r \<longleftrightarrow> at u = Leaving r"
  by (simp add: awaken_def split: tq_at.split)

lemma outside_awaken [simp]: "awaken W W' at u = Outside \<longleftrightarrow> at u = Outside"
  by (simp add: awaken_def split: tq_at.split)

lemma asleep_awaken: "asleep (awaken W W' at u) \<longleftrightarrow> asleep (at u) \<and> (u \<in> set W \<longrightarrow> u \<in> set W')"
  by (auto simp: awaken_def split: tq_at.split)

lemma calls_awaken [simp]: "calls_ok ok (awaken W W' at u) = calls_ok ok (at u)"
  by (auto simp: awaken_def split: tq_at.split)

lemma awaken_same [simp]: "awaken W (W @ ts) at = at"
  by (rule ext) (auto simp: awaken_def split: tq_at.split)

lemma add_notes_rest [simp]: "mo_owner (add_notes n m) = mo_owner m" "mo_waiting (add_notes n m) = mo_waiting m"
proof -
  have "mo_owner ((notify ^^ k) m) = mo_owner m \<and> mo_waiting ((notify ^^ k) m) = mo_waiting m" for k
    by (induction k) (simp_all add: notify_def)
  then show "mo_owner (add_notes n m) = mo_owner m" "mo_waiting (add_notes n m) = mo_waiting m"
    by (simp_all add: add_notes_def notifyAll_def)
qed

lemma add_notes_count: "mo_nnotify m = 0 \<Longrightarrow> n = - 1 \<or> 0 \<le> n \<Longrightarrow> mo_nnotify (add_notes n m) = n"
  by (auto simp: add_notes_def notifyAll_def notify_times)

text \<open>Nobody else has the lock.\<close>

lemma the_owner:
  "exclusive ok s \<Longrightarrow> holds_lock (qs_at s t) \<Longrightarrow>
   mo_owner (qs_monitor s) = Some t \<and> (\<forall>u. u \<noteq> t \<longrightarrow> \<not> holds_lock (qs_at s u))"
  using exclusiveD(1) [of ok s] by (metis option.inject)

lemma no_owner: "exclusive ok s \<Longrightarrow> mo_owner (qs_monitor s) = None \<Longrightarrow> \<not> holds_lock (qs_at s u)"
  using exclusiveD(1) [of ok s u] by simp

lemma lock_free: "exclusive ok s \<Longrightarrow> qs_at s t = Locking op \<Longrightarrow> monitor_lock t (qs_monitor s) = Some m \<Longrightarrow>
  mo_owner (qs_monitor s) = None \<and> m = (qs_monitor s)\<lparr>mo_owner := Some t, mo_nnotify := 0\<rparr>"
  using exclusiveD(1) [of ok s t] by (auto simp: monitor_lock_def mutex_lock_def split: option.splits if_splits)

lemma exclusive_init: "exclusive ok queue_system_init"
  by (simp add: exclusive_def queue_system_init_def monitor_init_def)

lemma exclusive_step:
  assumes "queue_step ok s s'" and inv: "exclusive ok s"
  shows "exclusive ok s'"
  using assms(1)
proof cases
  case (call t op)
  then show ?thesis using inv finite_changed [OF exclusiveD(4) [OF inv]] by (auto simp: exclusive_def)
next
  case (lock t op m)
  note free = lock_free [OF inv lock(2,3)]
  have none: "\<not> holds_lock (qs_at s u)" for u using no_owner [OF inv] free by blast
  have "ok op" using exclusiveD(6) [OF inv, of t] lock(2) by simp
  then show ?thesis
    using inv lock free none finite_changed [OF exclusiveD(4) [OF inv]] by (auto simp: exclusive_def)
next
  case (run t op r q n)
  have "holds_lock (qs_at s t)" using run by simp
  note own = the_owner [OF inv this]
  show ?thesis
    using inv run own finite_changed [OF exclusiveD(4) [OF inv]] by (auto simp: exclusive_def)
next
  case (sleep t op pick m)
  have h: "holds_lock (qs_at s t)" using sleep by simp
  note own = the_owner [OF inv h]
  have "mo_nnotify (qs_monitor s) = 0" using exclusiveD(5) [OF inv h] sleep(2) by simp
  then have m: "m = (qs_monitor s)\<lparr>mo_owner := None, mo_waiting := mo_waiting (qs_monitor s) @ [t]\<rparr>"
    using monitor_sleep_own [of "qs_monitor s" t pick] own sleep(4) by simp
  have w: "t \<notin> set (mo_waiting (qs_monitor s))" using exclusiveD(3) [OF inv] sleep(2) by simp
  have op: "ok op" using exclusiveD(6) [OF inv, of t] sleep(2) by simp
  show ?thesis
    using inv sleep(1) m w own op begin_sleeps [OF sleep(3)] finite_changed [OF exclusiveD(4) [OF inv]]
    by (auto simp: exclusive_def)
next
  case (spurious t op)
  have "calls_ok ok (qs_at s t)" by (rule exclusiveD(6) [OF inv])
  then show ?thesis
    using inv spurious finite_changed [OF exclusiveD(4) [OF inv]] by (auto simp: exclusive_def)
next
  case (timeout t op)
  have "calls_ok ok (qs_at s t)" by (rule exclusiveD(6) [OF inv])
  then show ?thesis
    using inv timeout finite_changed [OF exclusiveD(4) [OF inv]] by (auto simp: exclusive_def)
next
  case (relock t op rc m)
  have m: "mo_owner (qs_monitor s) = None" "m = (qs_monitor s)\<lparr>mo_owner := Some t, mo_nnotify := 0\<rparr>"
    using relock(3) by (auto simp: monitor_wake_eq split: if_splits)
  have none: "\<not> holds_lock (qs_at s u)" for u by (rule no_owner [OF inv m(1)])
  have "calls_ok ok (qs_at s t)" by (rule exclusiveD(6) [OF inv])
  then show ?thesis
    using inv relock(1,2) m none finite_changed [OF exclusiveD(4) [OF inv]] by (auto simp: exclusive_def)
next
  case (resume t op rc r q)
  have "holds_lock (qs_at s t)" using resume by simp
  note own = the_owner [OF inv this]
  show ?thesis
    using inv resume own finite_changed [OF exclusiveD(4) [OF inv]] by (auto simp: exclusive_def)
next
  case (unlock t r pick m)
  have h: "holds_lock (qs_at s t)" using unlock by simp
  note own = the_owner [OF inv h]
  have m: "m = (qs_monitor s)\<lparr>mo_owner := None,
      mo_waiting := notifyImpl pick (mo_nnotify (qs_monitor s)) (mo_waiting (qs_monitor s))\<rparr>"
    using monitor_unlock_own [of "qs_monitor s" t pick] own unlock(3) by simp
  note n = notifyImpl_spec [OF exclusiveD(2) [OF inv], of pick "mo_nnotify (qs_monitor s)"]
  show ?thesis
    using inv unlock(1,2) m n own finite_changed [OF exclusiveD(4) [OF inv]]
    by (auto simp: exclusive_def asleep_awaken)
qed

lemma queue_exclusive: "queue_reaches ok s \<Longrightarrow> exclusive ok s"
  by (induction rule: queue_reaches.induct) (auto intro: exclusive_init exclusive_step)

section \<open>No wake-up is lost\<close>

text \<open>The notifications the thread with the lock will send when it unlocks.\<close>

definition pending_notes :: "'a queue_system \<Rightarrow> int" where
  "pending_notes s = (if \<exists>t r. qs_at s t = Leaving r then mo_nnotify (qs_monitor s) else 0)"

text \<open>While a thread sleeps there are no more items than threads that are on their way to get one.\<close>

definition covered :: "'a queue_system \<Rightarrow> bool" where
  "covered s \<longleftrightarrow> mo_waiting (qs_monitor s) \<noteq> [] \<longrightarrow> pending_notes s = - 1 \<or>
     0 \<le> pending_notes s \<and> int (length (tq_queue (qs_queue s))) \<le> int (card {t. called (qs_at s t)}) + pending_notes s"

lemma called_finite: "exclusive ok s \<Longrightarrow> finite {t. called (qs_at s t)}"
  by (rule finite_subset [OF _ exclusiveD(4)]) auto

lemma called_awaken:
  assumes "\<forall>u \<in> set W. asleep (at u)" and "set W' \<subseteq> set W" and "finite {u. called (at u)}"
  shows "card {u. called (awaken W W' at u)} = card {u. called (at u)} + card (set W - set W')"
proof -
  have "called (awaken W W' at u) \<longleftrightarrow> called (at u) \<or> u \<in> set W - set W'" for u
    using assms(1) by (cases "at u") (auto simp: awaken_def)
  then have "{u. called (awaken W W' at u)} = {u. called (at u)} \<union> (set W - set W')" by auto
  moreover have "{u. called (at u)} \<inter> (set W - set W') = {}"
  proof -
    have "\<not> called p" if "asleep p" for p :: "'a tq_at" using that by (cases p) simp_all
    then show ?thesis using assms(1) by auto
  qed
  ultimately show ?thesis using assms(3) by (simp add: card_Un_disjoint)
qed

lemma called_same: "called p = called (at t) \<Longrightarrow> {u. called ((at(t := p)) u)} = {u. called (at u)}"
  by auto

lemma called_more: "\<not> called (at t) \<Longrightarrow> called p \<Longrightarrow> {u. called ((at(t := p)) u)} = insert t {u. called (at u)}"
  by auto

lemma called_less: "called (at t) \<Longrightarrow> \<not> called p \<Longrightarrow> {u. called ((at(t := p)) u)} = {u. called (at u)} - {t}"
  by auto

text \<open>Somebody with the lock who is not about to leave, or nobody with the lock: nothing is pending.\<close>

lemma nothing_pending: "(\<And>u r. qs_at s u \<noteq> Leaving r) \<Longrightarrow> pending_notes s = 0"
  by (simp add: pending_notes_def)

lemma not_leaving: "\<not> holds_lock p \<Longrightarrow> p \<noteq> Leaving r"
  by (cases p) simp_all

lemma others_not_leaving:
  "exclusive ok s \<Longrightarrow> holds_lock (qs_at s t) \<Longrightarrow> u \<noteq> t \<Longrightarrow> qs_at s u \<noteq> Leaving r"
  using the_owner not_leaving by metis

lemma pending_at:
  assumes "exclusive ok s" and "holds_lock (qs_at s t)"
  shows "pending_notes s = (if \<exists>r. qs_at s t = Leaving r then mo_nnotify (qs_monitor s) else 0)"
proof -
  have "(\<exists>u r. qs_at s u = Leaving r) = (\<exists>r. qs_at s t = Leaving r)" using others_not_leaving [OF assms] by metis
  then show ?thesis by (simp add: pending_notes_def)
qed

lemma covered_init: "covered queue_system_init"
  by (simp add: covered_def queue_system_init_def monitor_init_def)

lemma leaving_changed:
  "(\<And>r. at t \<noteq> Leaving r) \<Longrightarrow> (\<And>r. p \<noteq> Leaving r) \<Longrightarrow>
   (\<exists>u r. (at(t := p)) u = Leaving r) = (\<exists>u r. at u = Leaving r)"
  by (metis fun_upd_apply)

lemma coveredD:
  "covered s \<Longrightarrow> mo_waiting (qs_monitor s) \<noteq> [] \<Longrightarrow> pending_notes s = 0 \<Longrightarrow>
   length (tq_queue (qs_queue s)) \<le> card {t. called (qs_at s t)}"
  by (simp add: covered_def)

lemma coveredI: "length (tq_queue (qs_queue s)) \<le> card {t. called (qs_at s t)} \<Longrightarrow> pending_notes s = 0 \<Longrightarrow> covered s"
  by (simp add: covered_def)

lemma covered_more:
  "covered s \<Longrightarrow> pending_notes s' = pending_notes s \<Longrightarrow> tq_queue (qs_queue s') = tq_queue (qs_queue s) \<Longrightarrow>
   card {t. called (qs_at s t)} \<le> card {t. called (qs_at s' t)} \<Longrightarrow>
   (mo_waiting (qs_monitor s') \<noteq> [] \<Longrightarrow> mo_waiting (qs_monitor s) \<noteq> []) \<Longrightarrow> covered s'"
  by (auto simp: covered_def)

text \<open>Taking the lock, for the first time or after a sleep.\<close>

lemma covered_locked:
  assumes inv: "exclusive ok s" and c: "covered s" and free: "mo_owner (qs_monitor s) = None"
    and p: "called p = called (qs_at s t)" "\<And>r. p \<noteq> Leaving r"
    and m: "mo_waiting m = mo_waiting (qs_monitor s)"
  shows "covered (s\<lparr>qs_monitor := m, qs_at := (qs_at s)(t := p)\<rparr>)"
proof -
  have none: "qs_at s u \<noteq> Leaving r" for u r using no_owner [OF inv free] not_leaving by blast
  then have "pending_notes s = 0" by (rule nothing_pending)
  moreover have "pending_notes (s\<lparr>qs_monitor := m, qs_at := (qs_at s)(t := p)\<rparr>) = 0"
    using none p(2) by (intro nothing_pending) simp
  ultimately show ?thesis using c m called_same [of p "qs_at s" t] p(1) by (simp add: covered_def)
qed

text \<open>Waking up without a notification.\<close>

lemma covered_woken:
  assumes inv: "exclusive ok s" and c: "covered s" and at: "qs_at s t = Sleeping op"
  shows "covered (s\<lparr>qs_monitor := (qs_monitor s)\<lparr>mo_waiting := filter (\<lambda>u. u \<noteq> t) (mo_waiting (qs_monitor s))\<rparr>,
      qs_at := (qs_at s)(t := Awake op rc)\<rparr>)" (is "covered ?s")
proof -
  have "pending_notes ?s = pending_notes s"
    using leaving_changed [of "qs_at s" t "Awake op rc"] at by (simp add: pending_notes_def)
  moreover have "card {u. called (qs_at s u)} \<le> card {u. called (qs_at ?s u)}"
  proof -
    have "{u. called (qs_at ?s u)} = (if rc then insert t {u. called (qs_at s u)} else {u. called (qs_at s u)})"
      using at by auto
    then show ?thesis using called_finite [OF inv] by (simp add: card_insert_if)
  qed
  moreover have "mo_waiting (qs_monitor s) \<noteq> []" if "mo_waiting (qs_monitor ?s) \<noteq> []" using that by auto
  ultimately show ?thesis by (intro covered_more [OF c]) simp_all
qed

lemma covered_step:
  assumes "queue_step ok s s'" and inv: "exclusive ok s" and c: "covered s" and ok: "\<And>op. ok op \<Longrightarrow> notifying op"
  shows "covered s'"
  using assms(1)
proof cases
  case (call t op)
  have "pending_notes s' = pending_notes s"
    using leaving_changed [of "qs_at s" t "Locking op"] call by (simp add: pending_notes_def)
  then show ?thesis using c call called_same [of "Locking op" "qs_at s" t] by (simp add: covered_def)
next
  case (lock t op m)
  then show ?thesis using lock_free [OF inv lock(2,3)] covered_locked [OF inv c, of "Inside op" t m] by simp
next
  case (run t op r q n)
  have h: "holds_lock (qs_at s t)" using run by simp
  have n0: "mo_nnotify (qs_monitor s) = 0" using exclusiveD(5) [OF inv h] run(2) by simp
  have "ok op" using exclusiveD(6) [OF inv, of t] run(2) by simp
  then have len: "n = - 1 \<or> 0 \<le> n \<and> length (tq_queue q) \<le> length (tq_queue (qs_queue s)) + nat n"
    using begin_length [OF run(3)] ok by blast
  have "pending_notes s' = n" using run n0 len add_notes_count [OF n0, of n] by (auto simp: pending_notes_def)
  moreover have "pending_notes s = 0" using pending_at [OF inv h] run(2) by simp
  ultimately show ?thesis
    using coveredD [OF c] run called_same [of "Leaving r" "qs_at s" t] len by (auto simp: covered_def)
next
  case (sleep t op pick m)
  have h: "holds_lock (qs_at s t)" using sleep by simp
  have "pending_notes s' = 0"
    using others_not_leaving [OF inv h] sleep(1) by (intro nothing_pending) auto
  then show ?thesis using begin_sleeps [OF sleep(3)] sleep(1) by (intro coveredI) simp_all
next
  case (spurious t op)
  then show ?thesis using covered_woken [OF inv c] by simp
next
  case (timeout t op)
  then show ?thesis using covered_woken [OF inv c] by simp
next
  case (relock t op rc m)
  have "mo_owner (qs_monitor s) = None" "m = (qs_monitor s)\<lparr>mo_owner := Some t, mo_nnotify := 0\<rparr>"
    using relock(3) by (auto simp: monitor_wake_eq split: if_splits)
  then show ?thesis using relock covered_locked [OF inv c, of "Back op rc" t m] by simp
next
  case (resume t op rc r q)
  have h: "holds_lock (qs_at s t)" using resume by simp
  have n0: "mo_nnotify (qs_monitor s) = 0" using exclusiveD(5) [OF inv h] resume(2) by simp
  have "ok op" "waits op" using exclusiveD(6) [OF inv, of t] resume(2) by simp_all
  then have len: "length (tq_queue q) \<le> length (tq_queue (qs_queue s)) - (if rc then 1 else 0)"
    using resume_length [OF resume(3)] ok by blast
  have p: "pending_notes s' = 0" using resume n0 by (auto simp: pending_notes_def)
  have p0: "pending_notes s = 0" using pending_at [OF inv h] resume(2) by simp
  have w: "mo_waiting (qs_monitor s') = mo_waiting (qs_monitor s)" "qs_queue s' = q"
    "qs_at s' = (qs_at s)(t := Leaving r)" using resume(1) by simp_all
  show ?thesis
  proof (cases "mo_waiting (qs_monitor s) = []")
    case True
    then show ?thesis using w(1) by (simp add: covered_def)
  next
    case False
    have "card {u. called (qs_at s' u)} = card {u. called (qs_at s u)} - (if rc then 1 else 0)"
    proof -
      have "{u. called (qs_at s' u)} = (if rc then {u. called (qs_at s u)} - {t} else {u. called (qs_at s u)})"
        using w(3) resume(2) by auto
      moreover have "rc \<Longrightarrow> called (qs_at s t)" using resume(2) by simp
      ultimately show ?thesis using called_finite [OF inv] by simp
    qed
    then show ?thesis using coveredD [OF c False p0] len p w(2) by (intro coveredI) auto
  qed
next
  case (unlock t r pick m)
  let ?W = "mo_waiting (qs_monitor s)" and ?n = "mo_nnotify (qs_monitor s)"
  have h: "holds_lock (qs_at s t)" using unlock by simp
  note own = the_owner [OF inv h]
  have m: "mo_waiting m = notifyImpl pick ?n ?W"
    using monitor_unlock_own [of "qs_monitor s" t pick] own unlock(3) by auto
  note n = notifyImpl_spec [OF exclusiveD(2) [OF inv], of pick ?n]
  have p0: "pending_notes s = ?n" using pending_at [OF inv h] unlock(2) by simp
  have p: "pending_notes s' = 0"
    using others_not_leaving [OF inv h] unlock(1) by (intro nothing_pending) auto
  define at1 where "at1 = (qs_at s)(t := Outside)"
  have asleep: "\<forall>u \<in> set ?W. asleep (at1 u)"
    using exclusiveD(3) [OF inv] unlock(2) by (auto simp: at1_def)
  have same: "{u. called (at1 u)} = {u. called (qs_at s u)}"
    unfolding at1_def using unlock(2) by (intro called_same) simp
  have at: "qs_at s' = awaken ?W (mo_waiting m) at1" using unlock(1) by (simp add: at1_def)
  have sub: "set (mo_waiting m) \<subseteq> set ?W" using n m by simp
  have fin: "finite {u. called (at1 u)}" unfolding same by (rule called_finite [OF inv])
  have "card {u. called (qs_at s' u)} = card {u. called (qs_at s u)} + card (set ?W - set (mo_waiting m))"
    unfolding at called_awaken [OF asleep sub fin] same ..
  then show ?thesis
    using c p p0 n m unlock(1) by (cases "mo_waiting m = []") (auto simp: covered_def)
qed

lemma queue_covered: "queue_reaches ok s \<Longrightarrow> (\<And>op. ok op \<Longrightarrow> notifying op) \<Longrightarrow> covered s"
proof (induction rule: queue_reaches.induct)
  case (step s s')
  then show ?case using covered_step [OF step.hyps(2) queue_exclusive [OF step.hyps(1)]] by blast
qed (rule covered_init)

text \<open>
  Items wait in the queue and a thread sleeps: then a thread is under way that will hand out an
  item or wake a sleeper.
\<close>

lemma sleepers_are_called:
  assumes "queue_reaches ok s" and "\<And>op. ok op \<Longrightarrow> notifying op"
    and "asleep (qs_at s t)" and "tq_queue (qs_queue s) \<noteq> []"
  shows "\<exists>u. called (qs_at s u) \<or> (\<exists>r. qs_at s u = Leaving r) \<and> mo_nnotify (qs_monitor s) \<noteq> 0"
proof (rule ccontr)
  assume none: "\<not> ?thesis"
  then have "pending_notes s = 0" by (auto simp: pending_notes_def)
  moreover have "mo_waiting (qs_monitor s) \<noteq> []"
    using exclusiveD(3) [OF queue_exclusive [OF assms(1)], of t] assms(3) by auto
  ultimately have "length (tq_queue (qs_queue s)) \<le> card {t. called (qs_at s t)}"
    using coveredD [OF queue_covered [OF assms(1,2)]] by blast
  moreover have "{t. called (qs_at s t)} = {}" using none by auto
  ultimately show False using assms(4) by simp
qed

section \<open>Nobody is stuck\<close>

text \<open>A thread in a call that is not asleep, or some other one in its way, can take a step.\<close>

lemma queue_goes_on:
  assumes "queue_reaches ok s" and "qs_at s t \<noteq> Outside" and "\<not> asleep (qs_at s t)"
  shows "\<exists>s' u. queue_step ok s s' \<and> qs_at s u \<noteq> Outside \<and> qs_at s' u \<noteq> qs_at s u"
proof -
  note inv = queue_exclusive [OF assms(1)]
  have holder: "\<exists>s'. queue_step ok s s' \<and> qs_at s' u \<noteq> qs_at s u" if h: "holds_lock (qs_at s u)" for u
  proof (cases "qs_at s u")
    case (Inside op)
    show ?thesis
    proof (cases "tq_begin op (qs_queue s)")
      case None
      have n0: "mo_nnotify (qs_monitor s) = 0" using exclusiveD(5) [OF inv h] Inside by simp
      have "mo_owner (qs_monitor s) = Some u" using the_owner [OF inv h] by blast
      from queue_step.sleep [OF Inside None monitor_sleep_own [OF this n0]] show ?thesis
        using Inside by (intro exI conjI) (assumption | simp)+
    next
      case (Some x)
      obtain r q n where "x = ((r, q), n)" by (metis prod.exhaust)
      from queue_step.run [OF Inside Some [unfolded this]] show ?thesis
        using Inside by (intro exI conjI) (assumption | simp)+
    qed
  next
    case (Back op rc)
    obtain r q where "tq_resume op rc (qs_queue s) = (r, q)" by (metis prod.exhaust)
    from queue_step.resume [OF Back this] show ?thesis using Back by (intro exI conjI) (assumption | simp)+
  next
    case (Leaving r)
    from queue_step.unlock [OF Leaving refl] show ?thesis
      using Leaving by (intro exI conjI) (assumption | simp)+
  qed (use h in simp_all)
  show ?thesis
  proof (cases "mo_owner (qs_monitor s)")
    case (Some u)
    then have "holds_lock (qs_at s u)" using exclusiveD(1) [OF inv] by blast
    moreover from this have "qs_at s u \<noteq> Outside" by auto
    ultimately show ?thesis using holder by blast
  next
    case None
    then have "\<not> holds_lock (qs_at s t)" using no_owner [OF inv] by blast
    then show ?thesis
    proof (cases "qs_at s t")
      case (Locking op)
      from queue_step.lock [OF Locking monitor_lock_free [OF None]] show ?thesis
        using Locking by (intro exI [of _ t] exI conjI) (assumption | simp)+
    next
      case (Awake op rc)
      have "monitor_wake t (qs_monitor s) \<noteq> None" using None by (simp add: monitor_wake_eq)
      then obtain m where "monitor_wake t (qs_monitor s) = Some m" by blast
      from queue_step.relock [OF Awake this] show ?thesis
        using Awake by (intro exI [of _ t] exI conjI) (assumption | simp)+
    qed (use assms(2,3) in simp_all)
  qed
qed

section \<open>First in, first out\<close>

lemma take_front_order:
  assumes "tq_inv q" and "tq_small q"
  shows "\<exists>r q'. take_front q = (Popped r, q') \<and> tq_inv q' \<and> tq_queue q = handed_out (Popped r) @ tq_queue q'"
proof (cases "tq_queue q")
  case Nil
  then show ?thesis using assms(1) by (simp add: take_front_def tq_pop_front_nowait)
next
  case (Cons t ts)
  then have "length ts < size_max" using assms(2) by (simp add: tq_small_def)
  then show ?thesis
    using tq_pop_front_spec [OF assms Cons, of NoWait "Pair False"] Cons by (simp add: take_front_def tq_inv_def)
qed

lemma take_all_order:
  assumes "tq_inv q"
  shows "\<exists>b c q'. take_all [] q = (Swapped b c, q') \<and> tq_inv q' \<and> tq_queue q = handed_out (Swapped b c) @ tq_queue q'"
proof (cases "tq_queue q = []")
  case True
  then have "take_all [] q = (Swapped False [], q)"
    by (simp add: take_all_def tq_swap_def tq_after_wait_def)
  then show ?thesis using True assms by (intro exI conjI) (assumption | simp)+
next
  case False
  then have "take_all [] q = (Swapped True (tq_queue q), q\<lparr>tq_queue := [], tq_size := 0\<rparr>)"
    by (simp add: take_all_def tq_swap_def tq_after_wait_def)
  then show ?thesis by (intro exI conjI) (assumption | simp add: tq_inv_def)+
qed

lemma begin_order:
  assumes "tq_begin op q = Some ((r, q'), n)" and "in_order op" and "tq_inv q" and "tq_small q"
  shows "r \<noteq> Asserted \<and> tq_inv q' \<and> tq_queue q @ pushed_by op = handed_out r @ tq_queue q'"
proof (cases op)
  case (PopFront w)
  then show ?thesis using assms take_front_order [OF assms(3,4)] by (auto split: if_splits)
next
  case (SwapOut c w)
  then show ?thesis using assms take_all_order [OF assms(3)] by (auto split: if_splits)
next
  case (PushBack t)
  then show ?thesis using assms tq_push_back_spec [OF assms(3), of t] by auto
next
  case (PushBackAll ts)
  then show ?thesis using assms tq_push_back_all_spec [OF assms(3), of ts] by auto
qed (use assms in auto)

lemma resume_order:
  assumes "tq_resume op rc q = (r, q')" and "in_order op" and "tq_inv q" and "tq_small q"
  shows "r \<noteq> Asserted \<and> tq_inv q' \<and> tq_queue q = handed_out r @ tq_queue q'"
proof (cases op)
  case (PopFront w)
  then show ?thesis using assms take_front_order [OF assms(3,4)] by (auto split: if_splits)
next
  case (SwapOut c w)
  then show ?thesis using assms take_all_order [OF assms(3)] by (auto split: if_splits)
qed (use assms in auto)

definition ordered_queue :: "'a queue_system \<Rightarrow> bool" where
  "ordered_queue s \<longleftrightarrow> tq_inv (qs_queue s) \<and> qs_put s = qs_got s @ tq_queue (qs_queue s) \<and>
     (\<forall>t. qs_at s t \<noteq> Leaving Asserted)"

lemma ordered_step:
  assumes "queue_step ok s s'" and inv: "exclusive ok s" and o: "ordered_queue s" and ok: "\<And>op. ok op \<Longrightarrow> in_order op"
    and small: "length (qs_put s) < size_max"
  shows "ordered_queue s'"
proof -
  have q: "tq_inv (qs_queue s)" "tq_small (qs_queue s)" "qs_put s = qs_got s @ tq_queue (qs_queue s)"
    using o small by (simp_all add: ordered_queue_def tq_small_def)
  from assms(1) show ?thesis
  proof cases
    case (run t op r q' n)
    have "in_order op" using exclusiveD(6) [OF inv, of t] run(2) ok by simp
    from begin_order [OF run(3) this q(1,2)] show ?thesis
      using o run(1) q(3) by (auto simp: ordered_queue_def)
  next
    case (resume t op rc r q')
    have "in_order op" using exclusiveD(6) [OF inv, of t] resume(2) ok by simp
    from resume_order [OF resume(3) this q(1,2)] show ?thesis
      using o resume(1) q(3) by (auto simp: ordered_queue_def)
  qed (use o in \<open>auto simp: ordered_queue_def\<close>)
qed

lemma put_grows: "queue_step ok s s' \<Longrightarrow> length (qs_put s) \<le> length (qs_put s')"
  by (induction rule: queue_step.induct) simp_all

lemma queue_ordered:
  assumes "queue_reaches ok s" and "\<And>op. ok op \<Longrightarrow> in_order op" and "length (qs_put s) < size_max"
  shows "ordered_queue s"
  using assms
proof (induction rule: queue_reaches.induct)
  case start
  then show ?case by (simp add: ordered_queue_def queue_system_init_def tq_inv_init) (simp add: ThreadQueue_init_def)
next
  case (step s s')
  then have "length (qs_put s) < size_max" using put_grows [OF step.hyps(2)] by linarith
  then show ?case using step ordered_step [OF step.hyps(2) queue_exclusive [OF step.hyps(1)]] by blast
qed

end
