(* ===== verification/Thread_Pool.thy ===== *)
theory Thread_Pool
  imports Queue_Waits "HOL-Library.Multiset"
begin

text \<open>
  \<^verbatim>\<open>tc_thread_pool.h\<close> and \<^verbatim>\<open>tc_thread_pool.cpp\<close> with the threads of \<^verbatim>\<open>tc_thread.cpp\<close>: workers that
  take jobs from a queue, and the thread that manages the pool. The operations of the two queues
  are one step each, as \<open>Queue_Waits\<close> allows; between the steps of a worker those of the others
  fall. A job is a number of the caller, or \<open>None\<close> for a function object that is empty.
\<close>

section \<open>State\<close>

text \<open>Where a worker is in \<open>threadEntry\<close> and \<open>run\<close>.\<close>

datatype 'j worker_at =
    NotRunning
  | Spawned
  | Entered
  | RunningStart 'j
  | Looping
  | Getting
  | Got "'j option"
  | Working 'j
  | Idling
  | Exiting
  | Ending

record 'j worker =
  wk_at :: "'j worker_at"
  wk_bTerminate :: bool
  wk_running :: bool

text \<open>
  Where the managing thread is: in the loops of \<open>start\<close> and \<open>stop\<close> at a worker, waiting for it, or
  in \<open>init\<close> behind \<open>stop\<close>. \<open>stop\<close> has the number of workers \<open>init\<close> is to make when \<open>init\<close> calls it.
\<close>

datatype control =
    Unlocked
  | StartAt nat
  | StartWait nat
  | StopAt nat "nat option"
  | Joining nat "nat option"
  | Clearing nat

text \<open>The last four record the jobs: submitted, run to their end, dropped, and start functions that ran.\<close>

record 'j thread_pool =
  tp_jobqueue :: "'j option thread_queue"
  tp_startqueue :: "'j option thread_queue"
  tp_jobthread :: "'j worker list"
  tp_busthread :: "nat set"
  tp_bAllDone :: bool
  tp_control :: control
  tp_put :: "'j option list"
  tp_done :: "'j list"
  tp_lost :: "'j option list"
  tp_started :: "'j list"

definition ThreadWorker :: "'j worker" where
  "ThreadWorker = \<lparr>wk_at = NotRunning, wk_bTerminate = False, wk_running = False\<rparr>"

definition TC_ThreadPool :: "'j thread_pool" where
  "TC_ThreadPool = \<lparr>tp_jobqueue = ThreadQueue_init, tp_startqueue = ThreadQueue_init, tp_jobthread = [],
     tp_busthread = {}, tp_bAllDone = True, tp_control = Unlocked, tp_put = [], tp_done = [], tp_lost = [],
     tp_started = []\<rparr>"

definition worker_put :: "nat \<Rightarrow> ('j worker \<Rightarrow> 'j worker) \<Rightarrow> 'j thread_pool \<Rightarrow> 'j thread_pool" where
  "worker_put i f p = p\<lparr>tp_jobthread := (tp_jobthread p)[i := f (tp_jobthread p ! i)]\<rparr>"

definition go :: "nat \<Rightarrow> 'j worker_at \<Rightarrow> 'j thread_pool \<Rightarrow> 'j thread_pool" where
  "go i a = worker_put i (\<lambda>w. w\<lparr>wk_at := a\<rparr>)"

section \<open>Operations\<close>

definition exec :: "'j option \<Rightarrow> 'j thread_pool \<Rightarrow> 'j thread_pool" where
  "exec tf p = p\<lparr>tp_jobqueue := tq_push_back tf (tp_jobqueue p), tp_put := tp_put p @ [tf]\<rparr>"

text \<open>\<open>start(tf)\<close> before it calls \<open>start()\<close>: \<open>push_back\<close> takes a reference, so \<open>std::move\<close> moves nothing.\<close>

definition push_start :: "'j option \<Rightarrow> 'j thread_pool \<Rightarrow> 'j thread_pool" where
  "push_start tf p = p\<lparr>tp_startqueue := tq_push_back_all (replicate (length (tp_jobthread p)) tf) (tp_startqueue p)\<rparr>"

text \<open>\<open>TC_Thread::start\<close> of a worker: it throws when the thread runs.\<close>

definition thread_start :: "nat \<Rightarrow> ('j thread_pool, unit) act" where
  "thread_start i p =
     (if wk_running (tp_jobthread p ! i) then (Throw TC_Exception, p) else (Ok (), go i Spawned p))"

text \<open>\<open>threadEntry\<close> up to the notification.\<close>

definition thread_entry :: "nat \<Rightarrow> 'j thread_pool \<Rightarrow> 'j thread_pool" where
  "thread_entry i = worker_put i (\<lambda>w. w\<lparr>wk_at := Entered, wk_running := True\<rparr>)"

definition terminate_worker :: "nat \<Rightarrow> 'j thread_pool \<Rightarrow> 'j thread_pool" where
  "terminate_worker i = worker_put i (\<lambda>w. w\<lparr>wk_bTerminate := True\<rparr>)"

text \<open>\<open>get()\<close>: the start function, or none.\<close>

definition get_start :: "('j thread_pool, 'j option option) act" where
  "get_start p = (case tq_pop_front NoWait (Pair False) (tp_startqueue p) of
     (Ok r, q) \<Rightarrow> (Ok r, p\<lparr>tp_startqueue := q\<rparr>)
   | (_, q) \<Rightarrow> (Abort, p\<lparr>tp_startqueue := q\<rparr>))"

text \<open>The two halves of \<open>get(ptw)\<close>; the first when \<open>pop_front\<close> has something.\<close>

definition get_pop :: "('j thread_pool, 'j option option) act" where
  "get_pop p = (case tq_pop_front NoWait (Pair False) (tp_jobqueue p) of
     (Ok r, q) \<Rightarrow> (Ok r, p\<lparr>tp_jobqueue := q\<rparr>)
   | (_, q) \<Rightarrow> (Abort, p\<lparr>tp_jobqueue := q\<rparr>))"

definition get_busy :: "nat \<Rightarrow> 'j thread_pool \<Rightarrow> 'j thread_pool" where
  "get_busy ptw p = p\<lparr>tp_busthread := insert ptw (tp_busthread p)\<rparr>"

definition pool_idle :: "nat \<Rightarrow> 'j thread_pool \<Rightarrow> 'j thread_pool" where
  "pool_idle ptw p =
     (let p1 = p\<lparr>tp_busthread := tp_busthread p - {ptw}\<rparr>
      in if tp_busthread p1 = {} then p1\<lparr>tp_bAllDone := True\<rparr> else p1)"

text \<open>\<open>exit\<close>, where deleting the thread's own data succeeds.\<close>

definition pool_exit :: "'j thread_pool \<Rightarrow> 'j thread_pool" where
  "pool_exit p = p\<lparr>tp_jobqueue := tq_clear (tp_jobqueue p), tp_lost := tp_lost p @ tq_queue (tp_jobqueue p)\<rparr>"

definition pool_clear :: "'j thread_pool \<Rightarrow> 'j thread_pool" where
  "pool_clear p = p\<lparr>tp_jobthread := [], tp_busthread := {}\<rparr>"

definition pool_finish :: "'j thread_pool \<Rightarrow> bool" where
  "pool_finish p \<longleftrightarrow> tq_empty (tp_startqueue p) \<and> tq_empty (tp_jobqueue p) \<and> tp_busthread p = {} \<and> tp_bAllDone p"

text \<open>
  \<open>waitForAllDone\<close> by what it observes: \<open>finish\<close> at first, and for each wait what \<open>timedWait\<close>
  returns, \<open>finish\<close> and the clock afterwards. The result (\<open>None\<close> while it waits) and the times it
  waits for.
\<close>

primrec wait_forever :: "(bool \<times> bool \<times> int) list \<Rightarrow> bool option \<times> int list" where
  "wait_forever [] = (None, [1000])"
| "wait_forever (ob # obs) =
     (if fst (snd ob) then (Some True, [1000]) else (case wait_forever obs of (r, ws) \<Rightarrow> (r, 1000 # ws)))"

primrec wait_limited :: "int \<Rightarrow> int \<Rightarrow> (bool \<times> bool \<times> int) list \<Rightarrow> int \<Rightarrow> bool option \<times> int list" where
  "wait_limited m iNow [] millsecond = (None, [millsecond])"
| "wait_limited m iNow (ob # obs) millsecond =
     (case ob of (b, fin, now) \<Rightarrow>
        if fin then (Some True, [millsecond])
        else if \<not> b then (Some False, [millsecond])
        else (case wait_limited m iNow obs (max 0 (m - (now - iNow))) of (r, ws) \<Rightarrow> (r, millsecond # ws)))"

definition waitForAllDone :: "int \<Rightarrow> bool \<Rightarrow> int \<Rightarrow> (bool \<times> bool \<times> int) list \<Rightarrow> bool option \<times> int list" where
  "waitForAllDone millsecond fin iNow obs =
     (if fin then (Some True, [])
      else if millsecond < 0 then wait_forever obs
      else wait_limited millsecond iNow obs millsecond)"

section \<open>Steps\<close>

text \<open>
  Steps of the managing thread, which holds the lock of the pool, of callers of \<open>exec\<close>, and of the
  workers. \<open>start\<close> waits for the notification of \<open>threadEntry\<close>. \<open>A\<close> says which calls are made.
\<close>

datatype pool_call = Exec | Start | Stop | Init

inductive pool_step :: "(pool_call \<Rightarrow> bool) \<Rightarrow> 'j thread_pool \<Rightarrow> 'j thread_pool \<Rightarrow> bool" for A where
  call_exec: "A Exec \<Longrightarrow> pool_step A p (exec tf p)"
| call_start: "A Start \<Longrightarrow> tp_control p = Unlocked \<Longrightarrow> pool_step A p (p\<lparr>tp_control := StartAt 0\<rparr>)"
| call_start_with: "A Start \<Longrightarrow> tp_control p = Unlocked \<Longrightarrow> pool_step A p (push_start tf p)"
| call_stop: "A Stop \<Longrightarrow> tp_control p = Unlocked \<Longrightarrow> pool_step A p (p\<lparr>tp_control := StopAt 0 None\<rparr>)"
| call_init: "A Init \<Longrightarrow> tp_control p = Unlocked \<Longrightarrow> pool_step A p (p\<lparr>tp_control := StopAt 0 (Some num)\<rparr>)"
| start_create: "tp_control p = StartAt i \<Longrightarrow> i < length (tp_jobthread p) \<Longrightarrow> thread_start i p = (Ok (), p') \<Longrightarrow>
    pool_step A p (p'\<lparr>tp_control := StartWait i\<rparr>)"
| start_throw: "tp_control p = StartAt i \<Longrightarrow> i < length (tp_jobthread p) \<Longrightarrow> thread_start i p = (Throw e, p') \<Longrightarrow>
    pool_step A p (p'\<lparr>tp_control := Unlocked\<rparr>)"
| start_next: "tp_control p = StartWait i \<Longrightarrow> wk_at (tp_jobthread p ! i) \<noteq> Spawned \<Longrightarrow>
    pool_step A p (p\<lparr>tp_control := StartAt (Suc i)\<rparr>)"
| start_end: "tp_control p = StartAt i \<Longrightarrow> \<not> i < length (tp_jobthread p) \<Longrightarrow>
    pool_step A p (p\<lparr>tp_bAllDone := False, tp_control := Unlocked\<rparr>)"
| stop_alive: "tp_control p = StopAt i k \<Longrightarrow> i < length (tp_jobthread p) \<Longrightarrow> wk_running (tp_jobthread p ! i) \<Longrightarrow>
    pool_step A p ((terminate_worker i p)\<lparr>tp_control := Joining i k\<rparr>)"
| stop_dead: "tp_control p = StopAt i k \<Longrightarrow> i < length (tp_jobthread p) \<Longrightarrow> \<not> wk_running (tp_jobthread p ! i) \<Longrightarrow>
    pool_step A p (p\<lparr>tp_control := StopAt (Suc i) k\<rparr>)"
| stop_joined: "tp_control p = Joining i k \<Longrightarrow> wk_at (tp_jobthread p ! i) = NotRunning \<Longrightarrow>
    pool_step A p (p\<lparr>tp_control := StopAt (Suc i) k\<rparr>)"
| stop_end: "tp_control p = StopAt i k \<Longrightarrow> \<not> i < length (tp_jobthread p) \<Longrightarrow>
    pool_step A p (p\<lparr>tp_bAllDone := True, tp_control := (case k of None \<Rightarrow> Unlocked | Some num \<Rightarrow> Clearing num)\<rparr>)"
| init_clear: "tp_control p = Clearing num \<Longrightarrow>
    pool_step A p ((pool_clear p)\<lparr>tp_jobthread := replicate num ThreadWorker, tp_control := Unlocked\<rparr>)"
| entry: "i < length (tp_jobthread p) \<Longrightarrow> wk_at (tp_jobthread p ! i) = Spawned \<Longrightarrow> pool_step A p (thread_entry i p)"
| start_job: "i < length (tp_jobthread p) \<Longrightarrow> wk_at (tp_jobthread p ! i) = Entered \<Longrightarrow> get_start p = (Ok r, p') \<Longrightarrow>
    pool_step A p (go i (case r of Some (Some j) \<Rightarrow> RunningStart j | _ \<Rightarrow> Looping) p')"
| start_done: "i < length (tp_jobthread p) \<Longrightarrow> wk_at (tp_jobthread p ! i) = RunningStart j \<Longrightarrow>
    pool_step A p (go i Looping (p\<lparr>tp_started := tp_started p @ [j]\<rparr>))"
| loop: "i < length (tp_jobthread p) \<Longrightarrow> wk_at (tp_jobthread p ! i) = Looping \<Longrightarrow>
    pool_step A p (go i (if wk_bTerminate (tp_jobthread p ! i) then Exiting else Getting) p)"
| pop: "i < length (tp_jobthread p) \<Longrightarrow> wk_at (tp_jobthread p ! i) = Getting \<Longrightarrow> get_pop p = (Ok r, p') \<Longrightarrow>
    pool_step A p (go i (case r of None \<Rightarrow> Looping | Some tf \<Rightarrow> Got tf) p')"
| busy: "i < length (tp_jobthread p) \<Longrightarrow> wk_at (tp_jobthread p ! i) = Got tf \<Longrightarrow>
    pool_step A p (case tf of
        None \<Rightarrow> go i Looping (get_busy i (p\<lparr>tp_lost := tp_lost p @ [None]\<rparr>))
      | Some j \<Rightarrow> go i (Working j) (get_busy i p))"
| work: "i < length (tp_jobthread p) \<Longrightarrow> wk_at (tp_jobthread p ! i) = Working j \<Longrightarrow>
    pool_step A p (go i Idling (p\<lparr>tp_done := tp_done p @ [j]\<rparr>))"
| idle: "i < length (tp_jobthread p) \<Longrightarrow> wk_at (tp_jobthread p ! i) = Idling \<Longrightarrow>
    pool_step A p (go i Looping (pool_idle i p))"
| leave: "i < length (tp_jobthread p) \<Longrightarrow> wk_at (tp_jobthread p ! i) = Exiting \<Longrightarrow>
    pool_step A p (go i Ending (pool_exit p))"
| over: "i < length (tp_jobthread p) \<Longrightarrow> wk_at (tp_jobthread p ! i) = Ending \<Longrightarrow>
    pool_step A p (worker_put i (\<lambda>w. w\<lparr>wk_at := NotRunning, wk_running := False\<rparr>) p)"

inductive pool_reaches :: "(pool_call \<Rightarrow> bool) \<Rightarrow> 'j thread_pool \<Rightarrow> 'j thread_pool \<Rightarrow> bool" for A p0 where
  here: "pool_reaches A p0 p0"
| further: "pool_reaches A p0 p \<Longrightarrow> pool_step A p p' \<Longrightarrow> pool_reaches A p0 p'"

section \<open>Jobs are conserved\<close>

text \<open>The fields an operation on one worker leaves alone.\<close>

lemma worker_put_sel [simp]:
  "tp_jobqueue (worker_put i f p) = tp_jobqueue p" "tp_startqueue (worker_put i f p) = tp_startqueue p"
  "tp_busthread (worker_put i f p) = tp_busthread p" "tp_bAllDone (worker_put i f p) = tp_bAllDone p"
  "tp_control (worker_put i f p) = tp_control p" "tp_put (worker_put i f p) = tp_put p"
  "tp_done (worker_put i f p) = tp_done p" "tp_lost (worker_put i f p) = tp_lost p"
  "tp_jobthread (worker_put i f p) = (tp_jobthread p)[i := f (tp_jobthread p ! i)]"
  by (simp_all add: worker_put_def)

definition held_by :: "'j worker \<Rightarrow> 'j option multiset" where
  "held_by w = (case wk_at w of Got tf \<Rightarrow> {#tf#} | Working j \<Rightarrow> {#Some j#} | _ \<Rightarrow> {#})"

definition held :: "'j thread_pool \<Rightarrow> 'j option multiset" where
  "held p = sum_list (map held_by (tp_jobthread p))"

lemma held_update:
  assumes "i < length ws"
  shows "sum_list (map held_by (ws[i := w])) + held_by (ws ! i) = sum_list (map held_by ws) + held_by w"
  using assms
proof (induction ws arbitrary: i)
  case (Cons x ws)
  show ?case
  proof (cases i)
    case (Suc k)
    then show ?thesis using Cons.IH [of k] Cons.prems by (simp add: add.assoc)
  qed simp
qed simp

lemma held_by_new [simp]: "held_by ThreadWorker = {#}"
  by (simp add: held_by_def ThreadWorker_def)

lemma held_by_at: "held_by (w\<lparr>wk_at := a\<rparr>) = (case a of Got tf \<Rightarrow> {#tf#} | Working j \<Rightarrow> {#Some j#} | _ \<Rightarrow> {#})"
  by (simp add: held_by_def)

lemma held_put:
  "i < length (tp_jobthread p) \<Longrightarrow>
   held (worker_put i f p) + held_by (tp_jobthread p ! i) = held p + held_by (f (tp_jobthread p ! i))"
  unfolding held_def by (simp add: held_update)

text \<open>The sum of what has become of the jobs.\<close>

definition accounted :: "'j thread_pool \<Rightarrow> 'j option multiset" where
  "accounted p = mset (tq_queue (tp_jobqueue p)) + held p + image_mset Some (mset (tp_done p)) + mset (tp_lost p)"

text \<open>Which workers run, as far as the managing thread knows.\<close>

definition stopped_upto :: "nat \<Rightarrow> 'j thread_pool \<Rightarrow> bool" where
  "stopped_upto k p \<longleftrightarrow> (\<forall>j < min k (length (tp_jobthread p)). wk_at (tp_jobthread p ! j) = NotRunning)"

definition managed :: "'j thread_pool \<Rightarrow> bool" where
  "managed p \<longleftrightarrow>
     (\<forall>i < length (tp_jobthread p). wk_running (tp_jobthread p ! i) \<longleftrightarrow> wk_at (tp_jobthread p ! i) \<notin> {NotRunning, Spawned}) \<and>
     (\<forall>i < length (tp_jobthread p). wk_at (tp_jobthread p ! i) = Spawned \<longrightarrow> tp_control p = StartWait i) \<and>
     (case tp_control p of
        StopAt i k \<Rightarrow> stopped_upto i p
      | Joining i k \<Rightarrow> stopped_upto i p
      | Clearing num \<Rightarrow> stopped_upto (length (tp_jobthread p)) p
      | _ \<Rightarrow> True)"

lemma get_pop_eq:
  assumes "get_pop p = (Ok r, p')"
  shows "\<exists>q. p' = p\<lparr>tp_jobqueue := q\<rparr> \<and> tq_queue (tp_jobqueue p) = (case r of None \<Rightarrow> [] | Some tf \<Rightarrow> [tf]) @ tq_queue q"
proof (cases "tq_queue (tp_jobqueue p)")
  case Nil
  then have "p' = p\<lparr>tp_jobqueue := tp_jobqueue p\<rparr>" "r = None" using assms by (simp_all add: get_pop_def tq_pop_front_nowait)
  then show ?thesis using Nil by (intro exI [of _ "tp_jobqueue p"]) simp
next
  case (Cons t ts)
  then show ?thesis
    using assms by (auto simp: get_pop_def tq_pop_front_def tq_after_wait_def Let_def split: if_splits)
qed

lemma get_start_eq: "get_start p = (Ok r, p') \<Longrightarrow> \<exists>q. p' = p\<lparr>tp_startqueue := q\<rparr>"
  by (auto simp: get_start_def split: outcome.splits prod.splits)

lemma held_same [simp]:
  "held (p\<lparr>tp_jobqueue := q\<rparr>) = held p" "held (p\<lparr>tp_startqueue := q\<rparr>) = held p" "held (p\<lparr>tp_busthread := b\<rparr>) = held p"
  "held (p\<lparr>tp_bAllDone := d\<rparr>) = held p" "held (p\<lparr>tp_control := c\<rparr>) = held p" "held (p\<lparr>tp_put := js\<rparr>) = held p"
  "held (p\<lparr>tp_done := ds\<rparr>) = held p" "held (p\<lparr>tp_lost := js\<rparr>) = held p" "held (p\<lparr>tp_started := ds\<rparr>) = held p"
  by (simp_all add: held_def)

lemma thread_start_eq:
  "thread_start i p = (Ok (), p') \<Longrightarrow> \<not> wk_running (tp_jobthread p ! i) \<and> p' = go i Spawned p"
  "thread_start i p = (Throw e, p') \<Longrightarrow> p' = p"
  by (auto simp: thread_start_def split: if_splits)

lemmas pool_ops = exec_def push_start_def thread_entry_def terminate_worker_def get_busy_def pool_idle_def pool_exit_def
  pool_clear_def go_def

lemma managed_cong: "managed p \<Longrightarrow> tp_jobthread p' = tp_jobthread p \<Longrightarrow> tp_control p' = tp_control p \<Longrightarrow> managed p'"
  by (simp add: managed_def stopped_upto_def cong: control.case_cong)

lemma stopped_upto_update:
  "stopped_upto k p \<Longrightarrow> wk_at (tp_jobthread p ! i) \<noteq> NotRunning \<or> wk_at w = NotRunning \<Longrightarrow>
   tp_jobthread p' = (tp_jobthread p)[i := w] \<Longrightarrow> stopped_upto k p'"
  unfolding stopped_upto_def by (metis length_list_update min_less_iff_conj nth_list_update_eq nth_list_update_neq)

lemma managed_replace:
  assumes "managed p" and i: "i < length (tp_jobthread p)" and j: "tp_jobthread p' = (tp_jobthread p)[i := w]"
    and c: "tp_control p' = tp_control p" and n: "wk_at (tp_jobthread p ! i) \<noteq> NotRunning \<or> wk_at w = NotRunning"
    and r: "wk_running w \<longleftrightarrow> wk_at w \<notin> {NotRunning, Spawned}" and s: "wk_at w \<noteq> Spawned"
  shows "managed p'"
proof -
  have len: "length (tp_jobthread p') = length (tp_jobthread p)" using j by simp
  have at: "tp_jobthread p' ! x = (if x = i then w else tp_jobthread p ! x)" for x using j i by (simp add: nth_list_update)
  have up: "stopped_upto k p \<Longrightarrow> stopped_upto k p'" for k using stopped_upto_update [OF _ n j] .
  have "case tp_control p of StopAt i k \<Rightarrow> stopped_upto i p | Joining i k \<Rightarrow> stopped_upto i p
      | Clearing num \<Rightarrow> stopped_upto (length (tp_jobthread p)) p | _ \<Rightarrow> True"
    using assms(1) by (simp add: managed_def)
  then have "case tp_control p' of StopAt i k \<Rightarrow> stopped_upto i p' | Joining i k \<Rightarrow> stopped_upto i p'
      | Clearing num \<Rightarrow> stopped_upto (length (tp_jobthread p')) p' | _ \<Rightarrow> True"
    unfolding c len using up by (cases "tp_control p") simp_all
  moreover have "wk_running (tp_jobthread p' ! x) \<longleftrightarrow> wk_at (tp_jobthread p' ! x) \<notin> {NotRunning, Spawned}"
    "wk_at (tp_jobthread p' ! x) = Spawned \<longrightarrow> tp_control p' = StartWait x" if "x < length (tp_jobthread p)" for x
    using assms(1) that r s unfolding at c managed_def by simp_all
  ultimately show ?thesis unfolding managed_def len by blast
qed

lemma managed_go:
  assumes "managed p" and "i < length (tp_jobthread p)" and "wk_at (tp_jobthread p ! i) \<notin> {NotRunning, Spawned}"
    and "a \<notin> {NotRunning, Spawned}" and "tp_jobthread q = tp_jobthread p" and "tp_control q = tp_control p"
  shows "managed (go i a q)"
  by (rule managed_replace [OF assms(1,2), where w = "(tp_jobthread p ! i)\<lparr>wk_at := a\<rparr>"])
    (use assms in \<open>auto simp: go_def managed_def\<close>)

lemma managedD:
  assumes "managed p" and "i < length (tp_jobthread p)"
  shows "wk_running (tp_jobthread p ! i) \<longleftrightarrow> wk_at (tp_jobthread p ! i) \<notin> {NotRunning, Spawned}"
    and "wk_at (tp_jobthread p ! i) = Spawned \<Longrightarrow> tp_control p = StartWait i"
  using assms by (simp_all add: managed_def)

lemma managed_control:
  assumes "managed p" and j: "tp_jobthread p' = tp_jobthread p"
    and sp: "\<And>i. i < length (tp_jobthread p) \<Longrightarrow> wk_at (tp_jobthread p ! i) = Spawned \<Longrightarrow> tp_control p' = StartWait i"
    and st: "\<And>i k. tp_control p' = StopAt i k \<Longrightarrow> stopped_upto i p" "\<And>i k. tp_control p' = Joining i k \<Longrightarrow> stopped_upto i p"
      "\<And>n. tp_control p' = Clearing n \<Longrightarrow> stopped_upto (length (tp_jobthread p)) p"
  shows "managed p'"
proof -
  have "stopped_upto k p' = stopped_upto k p" for k by (simp add: stopped_upto_def j)
  then have "case tp_control p' of StopAt i k \<Rightarrow> stopped_upto i p' | Joining i k \<Rightarrow> stopped_upto i p'
      | Clearing num \<Rightarrow> stopped_upto (length (tp_jobthread p')) p' | _ \<Rightarrow> True"
    using st j by (cases "tp_control p'") simp_all
  moreover have "\<forall>i < length (tp_jobthread p'). wk_at (tp_jobthread p' ! i) = Spawned \<longrightarrow> tp_control p' = StartWait i"
    unfolding j using sp by blast
  ultimately show ?thesis using assms(1) unfolding managed_def j by blast
qed

lemma stopped_upto_Suc:
  "stopped_upto i p \<Longrightarrow> i < length (tp_jobthread p) \<Longrightarrow> wk_at (tp_jobthread p ! i) = NotRunning \<Longrightarrow> stopped_upto (Suc i) p"
  by (auto simp: stopped_upto_def less_Suc_eq)

lemma managed_stops:
  assumes "managed p"
  shows "tp_control p = StopAt i k \<Longrightarrow> stopped_upto i p" and "tp_control p = Joining i k \<Longrightarrow> stopped_upto i p"
    and "tp_control p = Clearing n \<Longrightarrow> stopped_upto (length (tp_jobthread p)) p"
  using assms by (auto simp: managed_def)

lemma managed_step:
  assumes "pool_step A p p'" and m: "managed p"
  shows "managed p'"
  using assms(1)
proof cases
  case (call_exec tf)
  then show ?thesis by (intro managed_cong [OF m]) (simp_all add: exec_def)
next
  case (call_start_with tf)
  then show ?thesis by (intro managed_cong [OF m]) (simp_all add: push_start_def)
next
  case call_start
  then show ?thesis using managedD(2) [OF m] by (intro managed_control [OF m]) auto
next
  case call_stop
  then show ?thesis using managedD(2) [OF m] by (intro managed_control [OF m]) (auto simp: stopped_upto_def)
next
  case (call_init num)
  then show ?thesis using managedD(2) [OF m] by (intro managed_control [OF m]) (auto simp: stopped_upto_def)
next
  case (start_create i p1)
  note e = thread_start_eq(1) [OF start_create(4)]
  show ?thesis
    using m start_create e by (auto simp: managed_def go_def nth_list_update)
next
  case (start_throw i e p1)
  then have "p1 = p" by (auto dest: thread_start_eq)
  then show ?thesis using start_throw managedD(2) [OF m] by (intro managed_control [OF m]) auto
next
  case (start_next i)
  then show ?thesis using managedD(2) [OF m] by (intro managed_control [OF m]) auto
next
  case (start_end i)
  then show ?thesis using managedD(2) [OF m] by (intro managed_control [OF m]) auto
next
  case (stop_alive i k)
  have mt: "managed (terminate_worker i p)"
    using stop_alive managedD(1) [OF m stop_alive(3)]
    by (intro managed_replace [OF m stop_alive(3), where w = "(tp_jobthread p ! i)\<lparr>wk_bTerminate := True\<rparr>"])
      (simp_all add: terminate_worker_def)
  have "stopped_upto i (terminate_worker i p)"
    using stopped_upto_update [of i p i "(tp_jobthread p ! i)\<lparr>wk_bTerminate := True\<rparr>" "terminate_worker i p"]
      managed_stops(1) [OF m stop_alive(2)] managedD(1) [OF m stop_alive(3)] stop_alive(4)
    by (simp add: terminate_worker_def)
  moreover have "wk_at (tp_jobthread (terminate_worker i p) ! j) \<noteq> Spawned" if "j < length (tp_jobthread p)" for j
    using managedD(2) [OF m that] stop_alive(2,3) that by (auto simp: terminate_worker_def nth_list_update)
  ultimately show ?thesis
    using stop_alive by (intro managed_control [OF mt]) (auto simp: terminate_worker_def)
next
  case (stop_dead i k)
  then have "wk_at (tp_jobthread p ! i) = NotRunning" using managedD [OF m, of i] by auto
  then show ?thesis
    using stop_dead managedD(2) [OF m] stopped_upto_Suc [OF managed_stops(1) [OF m stop_dead(2)]]
    by (intro managed_control [OF m]) auto
next
  case (stop_joined i k)
  have "stopped_upto (Suc i) p"
    using managed_stops(2) [OF m stop_joined(2)] stop_joined(3) by (auto simp: stopped_upto_def less_Suc_eq)
  then show ?thesis using stop_joined managedD(2) [OF m] by (intro managed_control [OF m]) auto
next
  case (stop_end i k)
  then have "stopped_upto (length (tp_jobthread p)) p"
    using managed_stops(1) [OF m stop_end(2)] by (simp add: stopped_upto_def)
  then show ?thesis
    using stop_end managedD(2) [OF m] by (intro managed_control [OF m]) (auto split: option.splits)
next
  case (init_clear num)
  then show ?thesis by (simp add: managed_def ThreadWorker_def)
next
  case (entry i)
  show ?thesis unfolding entry(1)
    by (rule managed_replace [OF m entry(2), where w = "(tp_jobthread p ! i)\<lparr>wk_at := Entered, wk_running := True\<rparr>"])
      (use entry(3) in \<open>simp_all add: thread_entry_def\<close>)
next
  case (start_job i r p1)
  then obtain q where p1: "p1 = p\<lparr>tp_startqueue := q\<rparr>" by (auto dest: get_start_eq)
  show ?thesis
    unfolding start_job(1) by (rule managed_go [OF m start_job(2)]) (use start_job(3) p1 in \<open>simp_all split: option.split\<close>)
next
  case (start_done i j)
  show ?thesis unfolding start_done(1) by (rule managed_go [OF m start_done(2)]) (use start_done(3) in simp_all)
next
  case (loop i)
  show ?thesis unfolding loop(1) by (rule managed_go [OF m loop(2)]) (use loop(3) in simp_all)
next
  case (pop i r p1)
  then obtain q where p1: "p1 = p\<lparr>tp_jobqueue := q\<rparr>" by (auto dest: get_pop_eq)
  show ?thesis unfolding pop(1) by (rule managed_go [OF m pop(2)]) (use pop(3) p1 in \<open>simp_all split: option.split\<close>)
next
  case (busy i tf)
  show ?thesis
  proof (cases tf)
    case None
    show ?thesis unfolding busy(1) None option.case
      by (rule managed_go [OF m busy(2)]) (use busy(3) in \<open>simp_all add: get_busy_def\<close>)
  next
    case (Some j)
    show ?thesis unfolding busy(1) Some option.case
      by (rule managed_go [OF m busy(2)]) (use busy(3) in \<open>simp_all add: get_busy_def\<close>)
  qed
next
  case (work i j)
  show ?thesis unfolding work(1) by (rule managed_go [OF m work(2)]) (use work(3) in simp_all)
next
  case (idle i)
  show ?thesis unfolding idle(1)
    by (rule managed_go [OF m idle(2)]) (use idle(3) in \<open>simp_all add: pool_idle_def Let_def\<close>)
next
  case (leave i)
  show ?thesis unfolding leave(1) by (rule managed_go [OF m leave(2)]) (use leave(3) in \<open>simp_all add: pool_exit_def\<close>)
next
  case (over i)
  show ?thesis unfolding over(1)
    by (rule managed_replace [OF m over(2), where w = "(tp_jobthread p ! i)\<lparr>wk_at := NotRunning, wk_running := False\<rparr>"])
      (use over(3) in simp_all)
qed

lemma managed_reaches: "pool_reaches A p0 p \<Longrightarrow> managed p0 \<Longrightarrow> managed p"
  by (induction rule: pool_reaches.induct) (auto intro: managed_step)

lemma managed_init: "managed TC_ThreadPool"
  by (simp add: managed_def TC_ThreadPool_def)

text \<open>One step: what was submitted more is accounted for more.\<close>

lemma held_stopped: "stopped_upto (length (tp_jobthread p)) p \<Longrightarrow> held p = {#}"
proof -
  assume s: "stopped_upto (length (tp_jobthread p)) p"
  have "held_by w = {#}" if w: "w \<in> set (tp_jobthread p)" for w
    using s w by (auto simp: stopped_upto_def held_by_def in_set_conv_nth)
  then have "map held_by (tp_jobthread p) = replicate (length (tp_jobthread p)) {#}" by (intro replicate_eqI) auto
  moreover have "sum_list (replicate k ({#} :: 'a option multiset)) = {#}" for k by (induction k) simp_all
  ultimately show ?thesis by (simp only: held_def)
qed

lemma held_go:
  assumes "i < length (tp_jobthread p)"
  shows "held (go i a p) + held_by (tp_jobthread p ! i) =
    held p + (case a of Got tf \<Rightarrow> {#tf#} | Working j \<Rightarrow> {#Some j#} | _ \<Rightarrow> {#})"
  using held_put [OF assms, of "\<lambda>w. w\<lparr>wk_at := a\<rparr>"] by (simp only: go_def held_by_at)

lemma go_sel [simp]:
  "tp_jobqueue (go i a p) = tp_jobqueue p" "tp_done (go i a p) = tp_done p" "tp_lost (go i a p) = tp_lost p"
  "tp_put (go i a p) = tp_put p" "tp_busthread (go i a p) = tp_busthread p" "tp_startqueue (go i a p) = tp_startqueue p"
  "tp_bAllDone (go i a p) = tp_bAllDone p" "tp_control (go i a p) = tp_control p"
  "tp_jobthread (go i a p) = (tp_jobthread p)[i := (tp_jobthread p ! i)\<lparr>wk_at := a\<rparr>]"
  by (simp_all add: go_def)

definition conserved :: "'j thread_pool \<Rightarrow> bool" where
  "conserved p \<longleftrightarrow> accounted p = mset (tp_put p)"

lemma held_by_old: "wk_at w = a \<Longrightarrow> held_by w = (case a of Got tf \<Rightarrow> {#tf#} | Working j \<Rightarrow> {#Some j#} | _ \<Rightarrow> {#})"
  by (simp add: held_by_def)

lemma conserved_cong:
  "conserved p \<Longrightarrow> held p' = held p \<Longrightarrow> tq_queue (tp_jobqueue p') = tq_queue (tp_jobqueue p) \<Longrightarrow> tp_done p' = tp_done p \<Longrightarrow>
   tp_lost p' = tp_lost p \<Longrightarrow> tp_put p' = tp_put p \<Longrightarrow> conserved p'"
  by (simp add: conserved_def accounted_def)

lemma conserved_step:
  assumes "pool_step A p p'" and m: "managed p" and c: "conserved p"
  shows "conserved p'"
  using assms(1)
proof cases
  case (call_exec tf)
  then show ?thesis using c by (simp add: conserved_def accounted_def exec_def tq_push_back_def)
next
  case (start_create i p1)
  then show ?thesis
    using held_go [OF start_create(3), of Spawned] managedD(1) [OF m start_create(3)] thread_start_eq(1) [OF start_create(4)]
    by (intro conserved_cong [OF c]) (auto simp: held_by_def)
next
  case (start_throw i e p1)
  then show ?thesis by (intro conserved_cong [OF c]) (auto dest: thread_start_eq)
next
  case (stop_alive i k)
  have "held (terminate_worker i p) = held p"
    using held_put [OF stop_alive(3), of "\<lambda>w. w\<lparr>wk_bTerminate := True\<rparr>"] by (simp add: terminate_worker_def held_by_def)
  then show ?thesis using stop_alive by (intro conserved_cong [OF c]) (simp_all add: terminate_worker_def)
next
  case (init_clear num)
  have "held p = {#}" by (rule held_stopped [OF managed_stops(3) [OF m init_clear(2)]])
  moreover have "held p' = {#}"
  proof -
    have "sum_list (replicate k ({#} :: 'a option multiset)) = {#}" for k by (induction k) simp_all
    then show ?thesis using init_clear by (simp add: held_def)
  qed
  ultimately show ?thesis using init_clear by (intro conserved_cong [OF c]) (simp_all add: pool_clear_def)
next
  case (entry i)
  have "held (thread_entry i p) = held p"
    using held_put [OF entry(2), of "\<lambda>w. w\<lparr>wk_at := Entered, wk_running := True\<rparr>"] entry(3)
    by (simp add: thread_entry_def held_by_def)
  then show ?thesis using entry by (intro conserved_cong [OF c]) (simp_all add: thread_entry_def)
next
  case (start_job i r p1)
  then obtain q where p1: "p1 = p\<lparr>tp_startqueue := q\<rparr>" by (auto dest: get_start_eq)
  show ?thesis
    using start_job held_go [of i p1] held_by_old [OF start_job(3)] p1
    by (intro conserved_cong [OF c]) (auto split: option.splits)
next
  case (start_done i j)
  let ?p = "p\<lparr>tp_started := tp_started p @ [j]\<rparr>"
  show ?thesis using start_done held_go [of i ?p Looping] held_by_old [OF start_done(3)] by (intro conserved_cong [OF c]) simp_all
next
  case (loop i)
  then show ?thesis using held_go [OF loop(2)] held_by_old [OF loop(3)] by (intro conserved_cong [OF c]) auto
next
  case (pop i r p1)
  obtain q where p1: "p1 = p\<lparr>tp_jobqueue := q\<rparr>"
    "tq_queue (tp_jobqueue p) = (case r of None \<Rightarrow> [] | Some tf \<Rightarrow> [tf]) @ tq_queue q"
    using get_pop_eq [OF pop(4)] by blast
  have "held p' = held p + (case r of None \<Rightarrow> {#} | Some tf \<Rightarrow> {#tf#})"
    using pop(1,2) held_go [of i p1] held_by_old [OF pop(3)] p1(1) by (auto split: option.splits)
  then show ?thesis using c pop(1) p1 by (cases r) (simp_all add: conserved_def accounted_def)
next
  case (busy i tf)
  show ?thesis
  proof (cases tf)
    case None
    let ?p = "get_busy i (p\<lparr>tp_lost := tp_lost p @ [None]\<rparr>)"
    have "held p' + {#None#} = held p"
      using busy(1,2) None held_go [of i ?p Looping] held_by_old [OF busy(3)] by (simp add: get_busy_def)
    then have "accounted p' = accounted p" using busy(1) None by (simp add: accounted_def get_busy_def ac_simps)
    then show ?thesis using c busy(1) None by (simp add: conserved_def get_busy_def)
  next
    case (Some j)
    have "held p' = held p"
      using busy(1,2) Some held_go [of i "get_busy i p" "Working j"] held_by_old [OF busy(3)] by (simp add: get_busy_def)
    then show ?thesis using busy(1) Some by (intro conserved_cong [OF c]) (simp_all add: get_busy_def)
  qed
next
  case (work i j)
  let ?p = "p\<lparr>tp_done := tp_done p @ [j]\<rparr>"
  have "held p' + {#Some j#} = held p"
    using work(1,2) held_go [of i ?p Idling] held_by_old [OF work(3)] by simp
  then have "accounted p' = accounted p" using work(1) by (simp add: accounted_def ac_simps)
  then show ?thesis using c work(1) by (simp add: conserved_def)
next
  case (idle i)
  have "held (pool_idle i p) = held p" "tp_jobthread (pool_idle i p) = tp_jobthread p" "tp_jobqueue (pool_idle i p) = tp_jobqueue p"
    "tp_done (pool_idle i p) = tp_done p" "tp_lost (pool_idle i p) = tp_lost p" "tp_put (pool_idle i p) = tp_put p"
    by (simp_all add: pool_idle_def Let_def)
  then show ?thesis
    using idle held_go [of i "pool_idle i p" Looping] held_by_old [OF idle(3)] by (intro conserved_cong [OF c]) simp_all
next
  case (leave i)
  have "held p' = held p"
    using leave(1,2) held_go [of i "pool_exit p" Ending] held_by_old [OF leave(3)] by (simp add: pool_exit_def)
  then show ?thesis
    using c leave(1) by (simp add: conserved_def accounted_def pool_exit_def tq_clear_def ac_simps)
next
  case (over i)
  have "held p' = held p"
    using over(1) held_put [OF over(2), of "\<lambda>w. w\<lparr>wk_at := NotRunning, wk_running := False\<rparr>"] held_by_old [OF over(3)]
    by (simp add: held_by_def)
  then show ?thesis using over(1) by (intro conserved_cong [OF c]) simp_all
qed (intro conserved_cong [OF c], simp_all add: push_start_def)+

lemma pool_conserved:
  assumes "pool_reaches A TC_ThreadPool p"
  shows "accounted p = mset (tp_put p)"
proof -
  have "managed p \<and> conserved p" using assms
  proof (induction rule: pool_reaches.induct)
    case here
    then show ?case using managed_init by (simp add: conserved_def accounted_def held_def TC_ThreadPool_def ThreadQueue_init_def)
  next
    case (further p p')
    then show ?case using managed_step conserved_step by blast
  qed
  then show ?thesis by (simp add: conserved_def)
qed

end
