(* ===== verification/Pool_Runs.thy ===== *)
theory Pool_Runs
  imports Thread_Pool
begin

text \<open>
  What \<open>finish\<close> and \<open>waitForAllDone\<close> of the thread pool tell, and where they are wrong: a job
  between the queue and the busy set, a pool that was stopped, a pool whose last job came too early.
\<close>

section \<open>Working threads are marked\<close>

fun busy_at :: "'j worker_at \<Rightarrow> bool" where
  "busy_at (Working j) = True"
| "busy_at Idling = True"
| "busy_at _ = False"

definition busy_marked :: "'j thread_pool \<Rightarrow> bool" where
  "busy_marked p \<longleftrightarrow> (\<forall>i < length (tp_jobthread p). busy_at (wk_at (tp_jobthread p ! i)) \<longrightarrow> i \<in> tp_busthread p)"

lemma update_at: "j < length xs \<Longrightarrow> xs[i := x] ! j = (if j = i then x else xs ! j)"
  by (cases "j = i") simp_all

lemma marked_go:
  assumes "busy_marked p" and "tp_jobthread q = tp_jobthread p"
    and "tp_busthread p - {i} \<subseteq> tp_busthread q" and "busy_at a \<Longrightarrow> i \<in> tp_busthread q"
  shows "busy_marked (go i a q)"
  using assms by (auto simp: busy_marked_def update_at)

lemma marked_same:
  "busy_marked p \<Longrightarrow> tp_jobthread p' = tp_jobthread p \<Longrightarrow> tp_busthread p' = tp_busthread p \<Longrightarrow> busy_marked p'"
  by (simp add: busy_marked_def)

lemma marked_put:
  assumes "busy_marked p" and "\<And>w. wk_at w = wk_at (tp_jobthread p ! i) \<Longrightarrow> busy_at (wk_at (f w)) \<Longrightarrow> busy_at (wk_at w)"
  shows "busy_marked (worker_put i f p)"
  using assms by (auto simp: busy_marked_def update_at)

lemma marked_step:
  assumes "pool_step A p p'" and b: "busy_marked p"
  shows "busy_marked p'"
  using assms(1)
proof cases
  case (start_create i p1)
  have "busy_marked (go i Spawned p)" by (rule marked_go [OF b]) auto
  then show ?thesis using start_create thread_start_eq(1) [OF start_create(4)] by (simp add: busy_marked_def)
next
  case (start_throw i e p1)
  then show ?thesis using b thread_start_eq(2) [OF start_throw(4)] by (intro marked_same [OF b]) simp_all
next
  case (stop_alive i k)
  have "busy_marked (terminate_worker i p)" unfolding terminate_worker_def by (rule marked_put [OF b]) simp
  then show ?thesis using stop_alive(1) by (simp add: busy_marked_def)
next
  case (init_clear num)
  then show ?thesis by (auto simp: busy_marked_def ThreadWorker_def)
next
  case (entry i)
  then show ?thesis unfolding entry(1) thread_entry_def by (intro marked_put [OF b]) simp
next
  case (start_job i r p1)
  then obtain q where p1: "p1 = p\<lparr>tp_startqueue := q\<rparr>" by (auto dest: get_start_eq)
  show ?thesis unfolding start_job(1) by (rule marked_go [OF b]) (auto simp: p1 split: option.splits)
next
  case (start_done i j)
  show ?thesis unfolding start_done(1) by (rule marked_go [OF b]) auto
next
  case (loop i)
  show ?thesis unfolding loop(1) by (rule marked_go [OF b]) (auto split: if_splits)
next
  case (pop i r p1)
  then obtain q where p1: "p1 = p\<lparr>tp_jobqueue := q\<rparr>" by (auto dest: get_pop_eq)
  show ?thesis unfolding pop(1) by (rule marked_go [OF b]) (auto simp: p1 split: option.splits)
next
  case (busy i tf)
  show ?thesis
  proof (cases tf)
    case None
    show ?thesis unfolding busy(1) None option.case by (rule marked_go [OF b]) (auto simp: get_busy_def)
  next
    case (Some j)
    show ?thesis unfolding busy(1) Some option.case by (rule marked_go [OF b]) (auto simp: get_busy_def)
  qed
next
  case (work i j)
  then have "i \<in> tp_busthread p" using b by (simp add: busy_marked_def)
  then show ?thesis unfolding work(1) by (intro marked_go [OF b]) auto
next
  case (idle i)
  show ?thesis unfolding idle(1) by (rule marked_go [OF b]) (auto simp: pool_idle_def Let_def)
next
  case (leave i)
  show ?thesis unfolding leave(1) by (rule marked_go [OF b]) (auto simp: pool_exit_def)
next
  case (over i)
  show ?thesis unfolding over(1) by (rule marked_put [OF b]) simp
qed (intro marked_same [OF b], simp_all add: exec_def push_start_def)+

lemma pool_marked: "pool_reaches A TC_ThreadPool p \<Longrightarrow> busy_marked p"
proof (induction rule: pool_reaches.induct)
  case here
  then show ?case by (simp add: busy_marked_def TC_ThreadPool_def)
qed (rule marked_step)

text \<open>The jobs that workers have taken but not yet marked.\<close>

definition just_taken :: "'j thread_pool \<Rightarrow> 'j option multiset" where
  "just_taken p = sum_list (map (\<lambda>w. case wk_at w of Got tf \<Rightarrow> {#tf#} | _ \<Rightarrow> {#}) (tp_jobthread p))"

lemma finish_spec:
  assumes "pool_reaches A TC_ThreadPool p" and "pool_finish p"
  shows "mset (tp_put p) = image_mset Some (mset (tp_done p)) + mset (tp_lost p) + just_taken p"
proof -
  have "held_by w = (case wk_at w of Got tf \<Rightarrow> {#tf#} | _ \<Rightarrow> {#})" if w: "w \<in> set (tp_jobthread p)" for w
  proof -
    obtain i where "i < length (tp_jobthread p)" "w = tp_jobthread p ! i" using w by (auto simp: in_set_conv_nth)
    then have "\<not> busy_at (wk_at w)" using pool_marked [OF assms(1)] assms(2) by (auto simp: busy_marked_def pool_finish_def)
    then show ?thesis by (cases "wk_at w") (simp_all add: held_by_def)
  qed
  then have "held p = just_taken p" unfolding held_def just_taken_def by (metis (no_types, lifting) map_eq_conv)
  moreover have "tq_queue (tp_jobqueue p) = []" using assms(2) by (simp add: pool_finish_def tq_empty_def)
  ultimately show ?thesis using pool_conserved [OF assms(1)] by (simp add: accounted_def ac_simps)
qed

section \<open>Done too early\<close>

text \<open>A pool with one worker.\<close>

definition one_worker :: "nat option list \<Rightarrow> nat worker_at \<Rightarrow> bool \<Rightarrow> nat set \<Rightarrow> bool \<Rightarrow> control \<Rightarrow> nat option list \<Rightarrow> nat list \<Rightarrow> nat thread_pool" where
  "one_worker q a r b d c js ds = \<lparr>tp_jobqueue = \<lparr>tq_queue = q, tq_size = length q\<rparr>, tp_startqueue = ThreadQueue_init,
     tp_jobthread = [\<lparr>wk_at = a, wk_bTerminate = False, wk_running = r\<rparr>], tp_busthread = b, tp_bAllDone = d, tp_control = c,
     tp_put = js, tp_done = ds, tp_lost = [], tp_started = []\<rparr>"

lemma one_worker_made: "pool_reaches (\<lambda>_. True) TC_ThreadPool (one_worker [] NotRunning False {} True Unlocked [] [])"
proof -
  let ?A = "\<lambda>_ :: pool_call. True" and ?p = "TC_ThreadPool :: nat thread_pool"
  have "pool_reaches ?A ?p (?p\<lparr>tp_control := StopAt 0 (Some 1)\<rparr>)"
    using call_init [of ?A ?p 1] by (intro further [OF here]) (simp add: TC_ThreadPool_def)
  from further [OF this stop_end [of _ 0 "Some 1"]]
  have "pool_reaches ?A ?p (?p\<lparr>tp_bAllDone := True, tp_control := Clearing 1\<rparr>)" by (simp add: TC_ThreadPool_def)
  from further [OF this init_clear [of _ 1]] show ?thesis
    by (simp add: TC_ThreadPool_def one_worker_def pool_clear_def ThreadWorker_def ThreadQueue_init_def)
qed

lemma one_worker_started:
  "pool_reaches (\<lambda>_. True) TC_ThreadPool (one_worker [] Looping True {} False Unlocked [] [])"
proof -
  let ?A = "\<lambda>_ :: pool_call. True" and ?r = "pool_reaches (\<lambda>_ :: pool_call. True) (TC_ThreadPool :: nat thread_pool)"
  have "?r (one_worker [] NotRunning False {} True (StartAt 0) [] [])"
    using further [OF one_worker_made call_start] by (simp add: one_worker_def)
  from further [OF this start_create [of _ 0 "one_worker [] Spawned False {} True (StartAt 0) [] []"]]
  have "?r (one_worker [] Spawned False {} True (StartWait 0) [] [])"
    by (simp add: one_worker_def thread_start_def go_def worker_put_def)
  from further [OF this entry [of 0]] have "?r (one_worker [] Entered True {} True (StartWait 0) [] [])"
    by (simp add: one_worker_def thread_entry_def worker_put_def)
  from further [OF this start_next [of _ 0]] have "?r (one_worker [] Entered True {} True (StartAt 1) [] [])"
    by (simp add: one_worker_def)
  from further [OF this start_end [of _ 1]] have "?r (one_worker [] Entered True {} False Unlocked [] [])"
    by (simp add: one_worker_def)
  from further [OF this start_job [of 0 _ None "one_worker [] Entered True {} False Unlocked [] []"]] show ?thesis
    by (simp add: one_worker_def get_start_def tq_pop_front_nowait ThreadQueue_init_def go_def worker_put_def)
qed

text \<open>The worker takes a job.\<close>

lemma one_worker_pops:
  assumes "pool_reaches (\<lambda>_. True) TC_ThreadPool (one_worker [] Looping True {} d Unlocked js ds)"
  shows "pool_reaches (\<lambda>_. True) TC_ThreadPool (one_worker [] (Got (Some j)) True {} d Unlocked (js @ [Some j]) ds)"
proof -
  let ?r = "pool_reaches (\<lambda>_ :: pool_call. True) (TC_ThreadPool :: nat thread_pool)"
  from further [OF assms call_exec [of _ _ "Some j"]] have "?r (one_worker [Some j] Looping True {} d Unlocked (js @ [Some j]) ds)"
    by (simp add: one_worker_def exec_def tq_push_back_def)
  from further [OF this loop [of 0]] have "?r (one_worker [Some j] Getting True {} d Unlocked (js @ [Some j]) ds)"
    by (simp add: one_worker_def go_def worker_put_def)
  from further [OF this pop [of 0 _ "Some (Some j)" "one_worker [] Getting True {} d Unlocked (js @ [Some j]) ds"]] show ?thesis
    by (simp add: one_worker_def get_pop_def tq_pop_front_def tq_after_wait_def go_def worker_put_def)
qed

lemma one_worker_works:
  assumes "pool_reaches (\<lambda>_. True) TC_ThreadPool (one_worker [] (Got (Some j)) True {} d Unlocked js ds)"
  shows "pool_reaches (\<lambda>_. True) TC_ThreadPool (one_worker [] Looping True {} True Unlocked js (ds @ [j]))"
proof -
  let ?r = "pool_reaches (\<lambda>_ :: pool_call. True) (TC_ThreadPool :: nat thread_pool)"
  from further [OF assms busy [of 0 _ "Some j"]] have "?r (one_worker [] (Working j) True {0} d Unlocked js ds)"
    by (simp add: one_worker_def go_def worker_put_def get_busy_def)
  from further [OF this work [of 0 _ j]] have "?r (one_worker [] Idling True {0} d Unlocked js (ds @ [j]))"
    by (simp add: one_worker_def go_def worker_put_def)
  from further [OF this idle [of 0]] show ?thesis
    by (simp add: one_worker_def go_def worker_put_def pool_idle_def)
qed

lemma finish_between:
  "\<exists>p i j. pool_reaches (\<lambda>_. True) (TC_ThreadPool :: nat thread_pool) p \<and> pool_finish p \<and>
     i < length (tp_jobthread p) \<and> wk_at (tp_jobthread p ! i) = Got (Some j) \<and> j \<notin> set (tp_done p)"
proof -
  let ?p = "one_worker [] (Got (Some 2)) True {} True Unlocked [Some 1, Some 2] [1]"
  have "pool_reaches (\<lambda>_. True) TC_ThreadPool ?p"
    using one_worker_pops [OF one_worker_works [OF one_worker_pops [OF one_worker_started, of 1]], of 2] by simp
  moreover have "pool_finish ?p"
    by (simp add: pool_finish_def one_worker_def tq_empty_def ThreadQueue_init_def)
  ultimately show ?thesis
    by (intro exI [of _ ?p] exI [of _ 0] exI [of _ 2]) (simp add: one_worker_def)
qed

section \<open>A stopped pool does not come back\<close>

text \<open>Every worker is to terminate and none is past the test.\<close>

definition doomed :: "'j thread_pool \<Rightarrow> bool" where
  "doomed p \<longleftrightarrow> (\<forall>w \<in> set (tp_jobthread p). wk_bTerminate w \<and> wk_at w \<noteq> Getting \<and> (\<forall>tf. wk_at w \<noteq> Got tf) \<and> (\<forall>j. wk_at w \<noteq> Working j)) \<and>
     (\<forall>n. tp_control p \<noteq> Clearing n) \<and> (\<forall>i n. tp_control p \<noteq> StopAt i (Some n)) \<and> (\<forall>i n. tp_control p \<noteq> Joining i (Some n))"

definition stays :: "'j worker_at \<Rightarrow> bool" where
  "stays a \<longleftrightarrow> a \<noteq> Getting \<and> (\<forall>tf. a \<noteq> Got tf) \<and> (\<forall>j. a \<noteq> Working j)"

lemma doomedD:
  assumes "doomed p" and "i < length (tp_jobthread p)"
  shows "wk_bTerminate (tp_jobthread p ! i)" and "stays (wk_at (tp_jobthread p ! i))"
  using assms nth_mem [OF assms(2)] by (auto simp: doomed_def stays_def)

lemma doomed_put:
  assumes "doomed p" and "tp_jobthread q = tp_jobthread p" and "tp_control q = tp_control p" and "i < length (tp_jobthread p)"
    and "\<And>w. wk_bTerminate w \<Longrightarrow> stays (wk_at w) \<Longrightarrow> wk_bTerminate (f w) \<and> stays (wk_at (f w))"
  shows "doomed (worker_put i f q)"
proof -
  have "wk_bTerminate w \<and> stays (wk_at w)" if "w \<in> set (tp_jobthread (worker_put i f q))" for w
  proof -
    have "w \<in> insert (f (tp_jobthread p ! i)) (set (tp_jobthread p))"
      using that assms(2) set_update_subset_insert by fastforce
    then show ?thesis using assms(1,5) doomedD [OF assms(1,4)] by (auto simp: doomed_def stays_def)
  qed
  then show ?thesis using assms(1,3) by (auto simp: doomed_def stays_def)
qed

lemma doomed_go:
  "doomed p \<Longrightarrow> tp_jobthread q = tp_jobthread p \<Longrightarrow> tp_control q = tp_control p \<Longrightarrow> i < length (tp_jobthread p) \<Longrightarrow> stays a \<Longrightarrow>
   doomed (go i a q)"
  unfolding go_def by (rule doomed_put) simp_all

lemma doomed_same:
  "doomed p \<Longrightarrow> tp_jobthread p' = tp_jobthread p \<Longrightarrow> (\<And>n. tp_control p' \<noteq> Clearing n) \<Longrightarrow>
   (\<And>i n. tp_control p' \<noteq> StopAt i (Some n)) \<Longrightarrow> (\<And>i n. tp_control p' \<noteq> Joining i (Some n)) \<Longrightarrow> doomed p'"
  by (simp add: doomed_def)

lemma doomed_control:
  assumes "doomed p"
  shows "tp_control p \<noteq> Clearing n" and "tp_control p \<noteq> StopAt i (Some n)" and "tp_control p \<noteq> Joining i (Some n)"
  using assms by (simp_all add: doomed_def)

lemma stays_simps [simp]:
  "stays NotRunning" "stays Spawned" "stays Entered" "stays (RunningStart j)" "stays Looping" "stays Idling" "stays Exiting"
  "stays Ending" "\<not> stays Getting" "\<not> stays (Got tf)" "\<not> stays (Working j)"
  by (simp_all add: stays_def)

lemma doomed_step:
  assumes "pool_step A p p'" and d: "doomed p" and no: "\<not> A Init"
  shows "doomed p' \<and> tp_done p' = tp_done p"
  using assms(1)
proof cases
  case (call_init num)
  then show ?thesis using no by simp
next
  case (start_create i p1)
  have "doomed (go i Spawned p)" by (rule doomed_go [OF d refl refl start_create(3)]) simp
  then show ?thesis
    using start_create thread_start_eq(1) [OF start_create(4)] by (auto intro!: doomed_same [of "go i Spawned p"])
next
  case (start_throw i e p1)
  then show ?thesis using thread_start_eq(2) [OF start_throw(4)] by (auto intro!: doomed_same [OF d])
next
  case (stop_alive i k)
  have "doomed (terminate_worker i p)"
    unfolding terminate_worker_def by (rule doomed_put [OF d refl refl stop_alive(3)]) simp
  moreover have "tp_done (terminate_worker i p) = tp_done p" by (simp add: terminate_worker_def)
  ultimately show ?thesis
    using stop_alive(1,2) doomed_control(2) [OF d] by (auto intro!: doomed_same [of "terminate_worker i p"])
next
  case (stop_dead i k)
  then show ?thesis using doomed_control(2) [OF d] by (auto intro!: doomed_same [OF d])
next
  case (stop_joined i k)
  then show ?thesis using doomed_control(3) [OF d] by (auto intro!: doomed_same [OF d])
next
  case (stop_end i k)
  then show ?thesis using doomed_control(2) [OF d] by (cases k) (auto intro!: doomed_same [OF d])
next
  case (init_clear num)
  then show ?thesis using doomed_control(1) [OF d] by simp
next
  case (entry i)
  have "doomed (thread_entry i p)"
    unfolding thread_entry_def by (rule doomed_put [OF d refl refl entry(2)]) simp
  then show ?thesis using entry(1) by (simp add: thread_entry_def)
next
  case (start_job i r p1)
  then obtain q where p1: "p1 = p\<lparr>tp_startqueue := q\<rparr>" by (auto dest: get_start_eq)
  show ?thesis
    unfolding start_job(1) using doomed_go [OF d _ _ start_job(2), of p1] p1 by (simp split: option.split)
next
  case (start_done i j)
  show ?thesis unfolding start_done(1) using doomed_go [OF d _ _ start_done(2)] by simp
next
  case (loop i)
  show ?thesis unfolding loop(1) using doomed_go [OF d _ _ loop(2)] doomedD(1) [OF d loop(2)] by simp
next
  case (pop i r p1)
  then show ?thesis using doomedD(2) [OF d pop(2)] by simp
next
  case (busy i tf)
  then show ?thesis using doomedD(2) [OF d busy(2)] by simp
next
  case (work i j)
  then show ?thesis using doomedD(2) [OF d work(2)] by simp
next
  case (idle i)
  show ?thesis unfolding idle(1) using doomed_go [OF d _ _ idle(2), of "pool_idle i p" Looping] by (simp add: pool_idle_def Let_def)
next
  case (leave i)
  show ?thesis unfolding leave(1) using doomed_go [OF d _ _ leave(2), of "pool_exit p" Ending] by (simp add: pool_exit_def)
next
  case (over i)
  show ?thesis unfolding over(1) using doomed_put [OF d refl refl over(2)] by simp
qed (use d in \<open>auto intro!: doomed_same [OF d] simp: exec_def push_start_def doomed_def\<close>)

lemma doomed_reaches:
  "pool_reaches A p0 p \<Longrightarrow> doomed p0 \<Longrightarrow> \<not> A Init \<Longrightarrow> doomed p \<and> tp_done p = tp_done p0"
  by (induction rule: pool_reaches.induct) (use doomed_step in fastforce)+

section \<open>Waiting in vain\<close>

text \<open>Nothing to do, in a pool that was started.\<close>

definition unfinished :: "'j thread_pool \<Rightarrow> bool" where
  "unfinished p \<longleftrightarrow> \<not> tp_bAllDone p \<and> tq_queue (tp_jobqueue p) = [] \<and>
     (\<forall>w \<in> set (tp_jobthread p). (\<forall>tf. wk_at w \<noteq> Got tf) \<and> \<not> busy_at (wk_at w)) \<and>
     (\<forall>i k. tp_control p \<noteq> StopAt i k \<and> tp_control p \<noteq> Joining i k) \<and> (\<forall>n. tp_control p \<noteq> Clearing n)"

definition free_at :: "'j worker_at \<Rightarrow> bool" where
  "free_at a \<longleftrightarrow> (\<forall>tf. a \<noteq> Got tf) \<and> \<not> busy_at a"

lemma free_at_simps [simp]:
  "free_at NotRunning" "free_at Spawned" "free_at Entered" "free_at (RunningStart j)" "free_at Looping" "free_at Getting"
  "free_at Exiting" "free_at Ending" "\<not> free_at Idling" "\<not> free_at (Got tf)" "\<not> free_at (Working j)"
  by (simp_all add: free_at_def)

lemma unfinishedD:
  assumes "unfinished p" and "i < length (tp_jobthread p)"
  shows "free_at (wk_at (tp_jobthread p ! i))"
  using assms nth_mem [OF assms(2)] by (auto simp: unfinished_def free_at_def)

lemma unfinished_put:
  assumes "unfinished p" and "tp_jobthread q = tp_jobthread p" and "tp_control q = tp_control p" and "i < length (tp_jobthread p)"
    and "tp_bAllDone q = tp_bAllDone p" and "tq_queue (tp_jobqueue q) = []" and "free_at (wk_at (f (tp_jobthread p ! i)))"
  shows "unfinished (worker_put i f q)"
proof -
  have "free_at (wk_at w)" if "w \<in> set (tp_jobthread (worker_put i f q))" for w
  proof -
    have "w \<in> insert (f (tp_jobthread p ! i)) (set (tp_jobthread p))"
      using that assms(2) set_update_subset_insert by fastforce
    then show ?thesis using assms(1,7) by (auto simp: unfinished_def free_at_def)
  qed
  then show ?thesis using assms by (auto simp: unfinished_def free_at_def)
qed

lemma unfinished_go:
  "unfinished p \<Longrightarrow> tp_jobthread q = tp_jobthread p \<Longrightarrow> tp_control q = tp_control p \<Longrightarrow> i < length (tp_jobthread p) \<Longrightarrow>
   tp_bAllDone q = tp_bAllDone p \<Longrightarrow> tq_queue (tp_jobqueue q) = [] \<Longrightarrow> free_at a \<Longrightarrow> unfinished (go i a q)"
  unfolding go_def by (rule unfinished_put) simp_all

lemma unfinished_same:
  "unfinished p \<Longrightarrow> tp_jobthread p' = tp_jobthread p \<Longrightarrow> \<not> tp_bAllDone p' \<Longrightarrow> tp_jobqueue p' = tp_jobqueue p \<Longrightarrow>
   (\<And>n. tp_control p' \<noteq> Clearing n) \<Longrightarrow> (\<And>i k. tp_control p' \<noteq> StopAt i k \<and> tp_control p' \<noteq> Joining i k) \<Longrightarrow> unfinished p'"
  by (simp add: unfinished_def)

lemma unfinished_sel:
  assumes "unfinished p"
  shows "\<not> tp_bAllDone p" and "tq_queue (tp_jobqueue p) = []" and "tp_control p \<noteq> StopAt i k"
    and "tp_control p \<noteq> Joining i k" and "tp_control p \<noteq> Clearing n"
  using assms by (simp_all add: unfinished_def)

lemma unfinished_step:
  assumes "pool_step A p p'" and u: "unfinished p" and no: "\<And>c. A c \<Longrightarrow> c = Start"
  shows "unfinished p'"
  using assms(1)
proof cases
  case (start_create i p1)
  have "unfinished (go i Spawned p)" by (rule unfinished_go [OF u refl refl start_create(3)]) (use unfinished_sel [OF u] in simp_all)
  then show ?thesis
    using start_create thread_start_eq(1) [OF start_create(4)] unfinished_sel [OF u]
    by (auto intro!: unfinished_same [of "go i Spawned p"])
next
  case (start_throw i e p1)
  then show ?thesis using thread_start_eq(2) [OF start_throw(4)] unfinished_sel [OF u] by (auto intro!: unfinished_same [OF u])
next
  case (entry i)
  show ?thesis unfolding entry(1) thread_entry_def
    by (rule unfinished_put [OF u refl refl entry(2)]) (use unfinished_sel [OF u] in simp_all)
next
  case (start_job i r p1)
  then obtain q where p1: "p1 = p\<lparr>tp_startqueue := q\<rparr>" by (auto dest: get_start_eq)
  show ?thesis unfolding start_job(1)
    by (rule unfinished_go [OF u _ _ start_job(2)]) (use unfinished_sel [OF u] p1 in \<open>simp_all split: option.split\<close>)
next
  case (start_done i j)
  show ?thesis unfolding start_done(1)
    by (rule unfinished_go [OF u _ _ start_done(2)]) (use unfinished_sel [OF u] in simp_all)
next
  case (loop i)
  show ?thesis unfolding loop(1) by (rule unfinished_go [OF u _ _ loop(2)]) (use unfinished_sel [OF u] in simp_all)
next
  case (pop i r p1)
  obtain q where p1: "p1 = p\<lparr>tp_jobqueue := q\<rparr>"
    "tq_queue (tp_jobqueue p) = (case r of None \<Rightarrow> [] | Some tf \<Rightarrow> [tf]) @ tq_queue q"
    using get_pop_eq [OF pop(4)] by blast
  then have "r = None" "tq_queue q = []" using unfinished_sel(2) [OF u] by (auto split: option.splits)
  then show ?thesis unfolding pop(1)
    by (intro unfinished_go [OF u _ _ pop(2)]) (use unfinished_sel [OF u] p1(1) in simp_all)
next
  case (busy i tf)
  then show ?thesis using unfinishedD [OF u busy(2)] by simp
next
  case (work i j)
  then show ?thesis using unfinishedD [OF u work(2)] by simp
next
  case (idle i)
  then show ?thesis using unfinishedD [OF u idle(2)] by simp
next
  case (leave i)
  show ?thesis unfolding leave(1)
    by (rule unfinished_go [OF u _ _ leave(2)]) (use unfinished_sel [OF u] in \<open>simp_all add: pool_exit_def tq_clear_def\<close>)
next
  case (over i)
  show ?thesis unfolding over(1)
    by (rule unfinished_put [OF u refl refl over(2)]) (use unfinished_sel [OF u] in simp_all)
qed (use no unfinished_sel [OF u] in \<open>auto intro!: unfinished_same [OF u] simp: push_start_def\<close>)

lemma unfinished_reaches:
  "pool_reaches A p0 p \<Longrightarrow> unfinished p0 \<Longrightarrow> (\<And>c. A c \<Longrightarrow> c = Start) \<Longrightarrow> unfinished p"
  by (induction rule: pool_reaches.induct) (use unfinished_step in blast)+

lemma wait_forever_none: "\<forall>ob \<in> set obs. \<not> fst (snd ob) \<Longrightarrow> fst (wait_forever obs) = None"
  by (induction obs) (auto split: prod.splits)

lemma waits_in_vain:
  assumes "unfinished p0" and "\<forall>ob \<in> set obs. \<exists>p. pool_reaches (\<lambda>c. c = Start) p0 p \<and> fst (snd ob) = pool_finish p"
  shows "fst (waitForAllDone (- 1) (pool_finish p0) iNow obs) = None"
proof -
  have not: "\<not> pool_finish p" if "unfinished p" for p :: "'a thread_pool"
    using unfinished_sel(1) [OF that] by (simp add: pool_finish_def)
  have "\<forall>ob \<in> set obs. \<not> fst (snd ob)"
  proof
    fix ob assume "ob \<in> set obs"
    then obtain p where p: "pool_reaches (\<lambda>c. c = Start) p0 p" "fst (snd ob) = pool_finish p" using assms(2) by blast
    have "unfinished p" by (rule unfinished_reaches [OF p(1) assms(1)]) simp
    then show "\<not> fst (snd ob)" using not p(2) by simp
  qed
  then show ?thesis using not [OF assms(1)] wait_forever_none by (simp add: waitForAllDone_def)
qed

text \<open>With a limit: \<open>True\<close> only when \<open>finish\<close> said so, and no wait is longer than the limit.\<close>

lemma wait_limited_spec:
  assumes "\<forall>ob \<in> set obs. iNow \<le> snd (snd ob)" and "0 \<le> ms" and "ms \<le> m" and "0 \<le> m"
  shows "(fst (wait_limited m iNow obs ms) = Some True \<longrightarrow> (\<exists>ob \<in> set obs. fst (snd ob))) \<and>
    (\<forall>t \<in> set (snd (wait_limited m iNow obs ms)). 0 \<le> t \<and> t \<le> m)"
  using assms
proof (induction obs arbitrary: ms)
  case (Cons ob obs)
  obtain b fin now where ob: "ob = (b, fin, now)" by (metis prod.exhaust)
  define d where "d = max 0 (m - (now - iNow))"
  have d: "0 \<le> d" "d \<le> m" using Cons.prems(1,4) ob by (simp_all add: d_def)
  obtain r ws where w: "wait_limited m iNow obs d = (r, ws)" by (metis prod.exhaust)
  have IH: "(r = Some True \<longrightarrow> (\<exists>ob \<in> set obs. fst (snd ob))) \<and> (\<forall>t \<in> set ws. 0 \<le> t \<and> t \<le> m)"
    using Cons.IH [OF _ d Cons.prems(4)] Cons.prems(1) w by simp
  have "wait_limited m iNow (ob # obs) ms =
      (if fin then (Some True, [ms]) else if \<not> b then (Some False, [ms]) else (r, ms # ws))"
    by (simp only: wait_limited.simps ob prod.case d_def [symmetric] w)
  then show ?case using IH Cons.prems(2,3) ob by simp
qed simp

end
