(* ===== verification/Loop_Queue.thy ===== *)
theory Loop_Queue
  imports Fifo_Interface
begin

text \<open>
  \<open>TC_LoopQueue\<close> of \<^verbatim>\<open>src/util/include/tc_loop_queue.h\<close>: a ring of \<open>iSize + 1\<close> slots with a
  write index \<open>_iBegin\<close> and a read index \<open>_iEnd\<close>. It meets the contract \<open>fifo\<close> with room for
  \<open>iSize\<close> items, for every \<open>iSize\<close> but 0.
\<close>

section \<open>State and operations\<close>

text \<open>The slots are \<open>malloc\<close>ed: a slot nothing has been copied to is \<open>None\<close>.\<close>

record 'a loop_queue =
  lq_p :: "'a option list"
  lq_cap :: nat
  lq_sub :: nat
  lq_begin :: nat
  lq_end :: nat

text \<open>The constructor; \<open>None\<close> is the failed assertion.\<close>

definition LoopQueue_init :: "nat \<Rightarrow> 'a loop_queue option" where
  "LoopQueue_init iSize =
     (if iSize < 1000000
      then Some \<lparr>lq_p = replicate (iSize + 1) None, lq_cap = iSize + 1, lq_sub = iSize,
                 lq_begin = 0, lq_end = 0\<rparr>
      else None)"

definition lq_size :: "'a loop_queue \<Rightarrow> nat" where
  "lq_size q =
     (if lq_begin q < lq_end q then lq_begin q + lq_cap q - lq_end q else lq_begin q - lq_end q)"

definition lq_empty :: "'a loop_queue \<Rightarrow> bool" where
  "lq_empty q \<longleftrightarrow> lq_end q = lq_begin q"

definition lq_getCapacity :: "'a loop_queue \<Rightarrow> nat" where
  "lq_getCapacity q = lq_cap q"

text \<open>The test both single pushes begin with; \<open>_iCapacity - 2\<close> is a 32-bit difference.\<close>

definition lq_full :: "'a loop_queue \<Rightarrow> bool" where
  "lq_full q \<longleftrightarrow>
     (lq_begin q < lq_end q \<and> lq_end q - lq_begin q < 2) \<or>
     (lq_end q < lq_begin q \<and>
        nat ((int (lq_cap q) - 2) mod 2 ^ 32) < lq_begin q - lq_end q)"

definition lq_next :: "nat \<Rightarrow> 'a loop_queue \<Rightarrow> nat" where
  "lq_next i q = (if i = lq_sub q then 0 else i + 1)"

text \<open>\<open>push_back(t, bEmpty, iBegin, iEnd)\<close>: success, \<open>bEmpty\<close>, the two indices, the queue.\<close>

definition lq_push_back_idx ::
  "'a \<Rightarrow> 'a loop_queue \<Rightarrow> (bool \<times> bool \<times> nat \<times> nat) \<times> 'a loop_queue" where
  "lq_push_back_idx t q =
     (if lq_full q then ((False, False, lq_begin q, lq_end q), q)
      else
        let q1 = q\<lparr>lq_p := (lq_p q)[lq_begin q := Some t]\<rparr>;
            bEmpty = (lq_end q1 = lq_begin q1);
            q2 = q1\<lparr>lq_begin := lq_next (lq_begin q1) q1\<rparr>;
            bEmpty' = (bEmpty \<or> lq_size q2 = 1)
        in ((True, bEmpty', lq_begin q, lq_end q), q2))"

definition lq_push_back_empty :: "'a \<Rightarrow> 'a loop_queue \<Rightarrow> (bool \<times> bool) \<times> 'a loop_queue" where
  "lq_push_back_empty t q =
     (if lq_full q then ((False, False), q)
      else
        let q1 = q\<lparr>lq_p := (lq_p q)[lq_begin q := Some t]\<rparr>;
            bEmpty = (lq_end q1 = lq_begin q1);
            q2 = q1\<lparr>lq_begin := lq_next (lq_begin q1) q1\<rparr>
        in ((True, bEmpty \<or> lq_size q2 = 1), q2))"

definition lq_push_back :: "'a \<Rightarrow> 'a loop_queue \<Rightarrow> bool \<times> 'a loop_queue" where
  "lq_push_back t q = (let ((r, bEmpty), q') = lq_push_back_empty t q in (r, q'))"

primrec lq_store_all :: "'a list \<Rightarrow> 'a loop_queue \<Rightarrow> 'a loop_queue" where
  "lq_store_all [] q = q"
| "lq_store_all (t # ts) q =
     lq_store_all ts (q\<lparr>lq_p := (lq_p q)[lq_begin q := Some t], lq_begin := lq_next (lq_begin q) q\<rparr>)"

definition lq_push_back_all :: "'a list \<Rightarrow> 'a loop_queue \<Rightarrow> bool \<times> 'a loop_queue" where
  "lq_push_back_all vt q =
     (if lq_cap q - 1 < length vt \<or>
         (lq_begin q < lq_end q \<and> lq_end q - lq_begin q < length vt + 1) \<or>
         (lq_end q < lq_begin q \<and> lq_cap q - length vt - 1 < lq_begin q - lq_end q)
      then (False, q)
      else (True, lq_store_all vt q))"

text \<open>The outer \<open>option\<close> is the \<open>bool\<close> result; the slot read may be one never written.\<close>

definition lq_pop_front :: "'a loop_queue \<Rightarrow> 'a option option \<times> 'a loop_queue" where
  "lq_pop_front q =
     (if lq_end q = lq_begin q then (None, q)
      else (Some (lq_p q ! lq_end q), q\<lparr>lq_end := lq_next (lq_end q) q\<rparr>))"

definition lq_drop_front :: "'a loop_queue \<Rightarrow> bool \<times> 'a loop_queue" where
  "lq_drop_front q =
     (if lq_end q = lq_begin q then (False, q)
      else (True, q\<lparr>lq_end := lq_next (lq_end q) q\<rparr>))"

definition lq_get_front :: "'a loop_queue \<Rightarrow> 'a option option" where
  "lq_get_front q = (if lq_end q = lq_begin q then None else Some (lq_p q ! lq_end q))"

section \<open>The ring as a list\<close>

text \<open>The slots from \<open>_iEnd\<close> to just before \<open>_iBegin\<close>, around the end.\<close>

definition lq_slots :: "'a loop_queue \<Rightarrow> 'a option list" where
  "lq_slots q = map (\<lambda>k. lq_p q ! ((lq_end q + k) mod lq_cap q)) [0..<lq_size q]"

definition lq_items :: "'a loop_queue \<Rightarrow> 'a list" where
  "lq_items q = map the (lq_slots q)"

definition lq_inv :: "'a loop_queue \<Rightarrow> bool" where
  "lq_inv q \<longleftrightarrow> lq_cap q = lq_sub q + 1 \<and> 0 < lq_sub q \<and> lq_sub q < 1000000 \<and>
     length (lq_p q) = lq_cap q \<and> lq_begin q < lq_cap q \<and> lq_end q < lq_cap q \<and>
     (\<forall>s \<in> set (lq_slots q). s \<noteq> None)"

text \<open>The client's view of \<open>pop_front(t)\<close>: the item, if there was one.\<close>

definition lq_take :: "'a loop_queue \<Rightarrow> 'a option \<times> 'a loop_queue" where
  "lq_take q = (case lq_pop_front q of (None, q') \<Rightarrow> (None, q') | (Some s, q') \<Rightarrow> (s, q'))"

lemma ring_index:
  fixes e k c :: nat
  assumes "e < c" and "k < c"
  shows "(e + k) mod c = (if e + k < c then e + k else e + k - c)"
  using assms by (simp add: le_mod_geq)

lemma lq_size_le: "lq_inv q \<Longrightarrow> lq_size q \<le> lq_sub q"
  by (auto simp: lq_inv_def lq_size_def)

lemma lq_begin_eq: "lq_inv q \<Longrightarrow> lq_begin q = (lq_end q + lq_size q) mod lq_cap q"
  using lq_size_le [of q] by (subst ring_index) (auto simp: lq_inv_def lq_size_def)

lemma lq_full_iff: "lq_inv q \<Longrightarrow> lq_full q \<longleftrightarrow> lq_size q = lq_sub q"
proof -
  assume inv: "lq_inv q"
  have "(int (lq_cap q) - 2) mod 2 ^ 32 = int (lq_sub q - 1)"
    using inv by (subst mod_pos_pos_trivial) (auto simp: lq_inv_def)
  then show ?thesis
    using inv by (auto simp: lq_full_def lq_size_def lq_inv_def)
qed

lemma length_lq_items [simp]: "length (lq_items q) = lq_size q"
  by (simp add: lq_items_def lq_slots_def)

lemma lq_empty_iff: "lq_inv q \<Longrightarrow> lq_begin q = lq_end q \<longleftrightarrow> lq_items q = []"
proof -
  assume "lq_inv q"
  then have "lq_begin q = lq_end q \<longleftrightarrow> lq_size q = 0"
    by (auto simp: lq_size_def lq_inv_def)
  then show ?thesis using length_lq_items [of q] by (metis length_0_conv)
qed

lemma lq_next_eq: "lq_inv q \<Longrightarrow> i < lq_cap q \<Longrightarrow> lq_next i q = (i + 1) mod lq_cap q"
  by (auto simp: lq_next_def lq_inv_def)

text \<open>One item stored at the write index of a ring with room.\<close>

definition lq_store :: "'a \<Rightarrow> 'a loop_queue \<Rightarrow> 'a loop_queue" where
  "lq_store t q = q\<lparr>lq_p := (lq_p q)[lq_begin q := Some t], lq_begin := lq_next (lq_begin q) q\<rparr>"

lemma lq_store_size:
  assumes "lq_inv q" and "lq_size q < lq_sub q"
  shows "lq_size (lq_store t q) = Suc (lq_size q)"
  using assms
  by (auto simp: lq_store_def lq_size_def lq_inv_def lq_next_def)

lemma lq_store_slots:
  assumes "lq_inv q" and "lq_size q < lq_sub q"
  shows "lq_slots (lq_store t q) = lq_slots q @ [Some t]"
proof -
  let ?e = "lq_end q" and ?n = "lq_size q" and ?c = "lq_cap q"
  have c: "?e < ?c" "?n < ?c" "lq_begin q < ?c" "length (lq_p q) = ?c"
    using assms by (auto simp: lq_inv_def)
  have b: "lq_begin q = (?e + ?n) mod ?c" by (rule lq_begin_eq [OF assms(1)])
  have other: "(lq_p q)[lq_begin q := Some t] ! ((?e + k) mod ?c) = lq_p q ! ((?e + k) mod ?c)"
    if "k < ?n" for k
  proof -
    have "(?e + k) mod ?c \<noteq> lq_begin q"
      unfolding b using that c by (auto simp: ring_index split: if_splits)
    then show ?thesis by simp
  qed
  have "(lq_p q)[lq_begin q := Some t] ! ((?e + ?n) mod ?c) = Some t"
    unfolding b [symmetric] using c by simp
  then have "lq_slots (lq_store t q) =
      map (\<lambda>k. (lq_p q)[lq_begin q := Some t] ! ((?e + k) mod ?c)) [0..<?n] @ [Some t]"
    unfolding lq_slots_def lq_store_size [OF assms] by (simp add: lq_store_def)
  also have "map (\<lambda>k. (lq_p q)[lq_begin q := Some t] ! ((?e + k) mod ?c)) [0..<?n] = lq_slots q"
    unfolding lq_slots_def using other by auto
  finally show ?thesis .
qed

lemma lq_store_spec:
  assumes "lq_inv q" and "lq_size q < lq_sub q"
  shows "lq_inv (lq_store t q)" and "lq_items (lq_store t q) = lq_items q @ [t]"
    and "lq_sub (lq_store t q) = lq_sub q"
proof -
  show "lq_items (lq_store t q) = lq_items q @ [t]"
    by (simp add: lq_items_def lq_store_slots [OF assms])
  have "lq_next (lq_begin q) q < lq_cap q" using assms by (auto simp: lq_next_def lq_inv_def)
  then show "lq_inv (lq_store t q)"
    using assms lq_store_slots [OF assms, of t] by (simp add: lq_inv_def lq_store_def)
qed (simp add: lq_store_def)

lemma lq_push_back_empty_eq:
  "lq_push_back_empty t q =
     (if lq_full q then ((False, False), q)
      else ((True, lq_end q = lq_begin q \<or> lq_size (lq_store t q) = 1), lq_store t q))"
  by (simp add: lq_push_back_empty_def lq_store_def Let_def lq_next_def)

lemma lq_push_back_idx_eq:
  "lq_push_back_idx t q =
     ((fst (fst (lq_push_back_empty t q)), snd (fst (lq_push_back_empty t q)), lq_begin q, lq_end q),
      snd (lq_push_back_empty t q))"
  by (simp add: lq_push_back_idx_def lq_push_back_empty_def Let_def)

lemma lq_push_back_eq:
  "lq_push_back t q = (if lq_full q then (False, q) else (True, lq_store t q))"
  by (simp add: lq_push_back_def lq_push_back_empty_eq)

text \<open>\<open>bEmpty\<close> tells whether the queue was empty before a successful push.\<close>

lemma lq_bEmpty:
  assumes "lq_inv q" and "\<not> lq_full q"
  shows "snd (fst (lq_push_back_empty t q)) \<longleftrightarrow> lq_items q = []"
proof -
  have lt: "lq_size q < lq_sub q"
    using assms lq_full_iff lq_size_le by (metis le_neq_implies_less)
  show ?thesis
    using assms(2) lq_store_size [OF assms(1) lt, of t] lq_empty_iff [OF assms(1)]
      length_lq_items [of q]
    by (auto simp: lq_push_back_empty_eq simp del: length_lq_items)
qed

lemma lq_pop_front_spec:
  assumes "lq_inv q" and "lq_items q = x # xs"
  shows "lq_pop_front q = (Some (Some x), q\<lparr>lq_end := lq_next (lq_end q) q\<rparr>)"
    and "lq_inv (q\<lparr>lq_end := lq_next (lq_end q) q\<rparr>)"
    and "lq_items (q\<lparr>lq_end := lq_next (lq_end q) q\<rparr>) = xs"
proof -
  let ?q = "q\<lparr>lq_end := lq_next (lq_end q) q\<rparr>"
  let ?e = "lq_end q" and ?c = "lq_cap q"
  have c: "?e < ?c" "lq_begin q < ?c" using assms by (auto simp: lq_inv_def)
  have ne: "?e \<noteq> lq_begin q" using lq_empty_iff [OF assms(1)] assms(2) by auto
  obtain n where n: "lq_size q = Suc n"
    using length_lq_items [of q] assms(2) by (metis length_Cons)
  have sz: "lq_size ?q = n"
    using n ne c assms(1) by (auto simp: lq_size_def lq_next_def lq_inv_def split: if_splits)
  have nx: "lq_next ?e q = (?e + 1) mod ?c" by (rule lq_next_eq [OF assms(1) c(1)])
  have idx: "(lq_next ?e q + k) mod ?c = (?e + Suc k) mod ?c" for k
    unfolding nx by (simp add: mod_simps)
  have "lq_slots q = lq_p q ! ?e # map (\<lambda>k. lq_p q ! ((?e + Suc k) mod ?c)) [0..<n]"
    using c by (simp add: lq_slots_def n upt_conv_Cons map_Suc_upt [symmetric] del: upt_Suc)
  also have "map (\<lambda>k. lq_p q ! ((?e + Suc k) mod ?c)) [0..<n] = lq_slots ?q"
    by (simp add: lq_slots_def sz idx)
  finally have slots: "lq_slots q = lq_p q ! ?e # lq_slots ?q" .
  have some: "lq_p q ! ?e \<noteq> None" using assms(1) slots by (simp add: lq_inv_def)
  then have x: "lq_p q ! ?e = Some x" using assms(2) slots by (auto simp: lq_items_def)
  show "lq_pop_front q = (Some (Some x), ?q)" using ne x by (simp add: lq_pop_front_def)
  have "lq_next ?e q < ?c" using c by (simp add: nx)
  then show "lq_inv ?q" using assms(1) slots by (simp add: lq_inv_def)
  show "lq_items ?q = xs" using assms(2) slots by (simp add: lq_items_def)
qed

interpretation lq: fifo lq_inv lq_items lq_full lq_push_back lq_take
proof
  fix q :: "'a loop_queue" and x :: 'a assume inv: "lq_inv q"
  show "lq_push_back x q = (False, q)" if "lq_full q"
    using that by (simp add: lq_push_back_eq)
  have room: "lq_size q < lq_sub q" if "\<not> lq_full q"
    using that inv lq_full_iff lq_size_le by (metis le_neq_implies_less)
  show "fst (lq_push_back x q) \<and> lq_items (snd (lq_push_back x q)) = lq_items q @ [x]"
    if "\<not> lq_full q"
    using that lq_store_spec [OF inv room [OF that]] by (simp add: lq_push_back_eq)
  show "lq_inv (snd (lq_push_back x q))"
    using inv lq_store_spec(1) [OF inv room] by (simp add: lq_push_back_eq)
  show "lq_take q = (None, q)" if "lq_items q = []"
    using that lq_empty_iff [OF inv] by (simp add: lq_take_def lq_pop_front_def)
  show "fst (lq_take q) = Some x \<and> lq_items (snd (lq_take q)) = xs" if "lq_items q = x # xs" for xs
    using lq_pop_front_spec [OF inv that] by (simp add: lq_take_def)
  show "lq_inv (snd (lq_take q))"
    using lq_pop_front_spec [OF inv] lq_empty_iff [OF inv] inv
    by (cases "lq_items q") (auto simp: lq_take_def lq_pop_front_def)
qed

section \<open>Bulk push, the other readers, the constructor\<close>

lemma lq_store_all_spec:
  "lq_inv q \<Longrightarrow> lq_size q + length ts \<le> lq_sub q \<Longrightarrow>
     lq_inv (lq_store_all ts q) \<and> lq_items (lq_store_all ts q) = lq_items q @ ts"
proof (induction ts arbitrary: q)
  case (Cons t ts)
  then have lt: "lq_size q < lq_sub q" by simp
  have "lq_inv (lq_store_all ts (lq_store t q)) \<and>
      lq_items (lq_store_all ts (lq_store t q)) = lq_items (lq_store t q) @ ts"
    by (rule Cons.IH)
      (use Cons.prems lq_store_spec [OF Cons.prems(1) lt] lq_store_size [OF Cons.prems(1) lt] in auto)
  then show ?case
    using lq_store_spec(2) [OF Cons.prems(1) lt, of t] by (simp add: lq_store_def)
qed simp

text \<open>All or nothing: the bulk push succeeds exactly when everything fits.\<close>

lemma lq_push_back_all_spec:
  assumes "lq_inv q"
  shows "lq_push_back_all vt q =
    (if length (lq_items q) + length vt \<le> lq_sub q then (True, lq_store_all vt q) else (False, q))"
  using assms by (auto simp: lq_push_back_all_def lq_inv_def lq_size_def)

lemma lq_drop_front_eq: "lq_drop_front q = (let (r, q') = lq_pop_front q in (r \<noteq> None, q'))"
  by (simp add: lq_drop_front_def lq_pop_front_def)

lemma lq_get_front_eq: "lq_get_front q = fst (lq_pop_front q)"
  by (simp add: lq_get_front_def lq_pop_front_def)

lemma LoopQueue_init_spec:
  assumes "0 < iSize" and "iSize < 1000000"
  obtains q where "LoopQueue_init iSize = Some q" and "lq_inv q" and "lq_items q = []"
    and "lq_sub q = iSize"
  using assms
  by (auto simp: LoopQueue_init_def lq_inv_def lq_items_def lq_slots_def lq_size_def)

section \<open>One producer and one consumer\<close>

text \<open>
  The class takes no lock. With one thread pushing and one popping, the calls interleave in the
  steps between their accesses to the shared indices and slots: the producer reads \<open>_iEnd\<close> and
  tests, copies into the slot, moves \<open>_iBegin\<close>; the consumer tests, copies out, moves \<open>_iEnd\<close>.
  Memory is taken as sequentially consistent. \<open>sent\<close> and \<open>got\<close> record the completed calls.
\<close>

datatype 'a producer = PIdle | PChecked 'a | PStored 'a
datatype 'a consumer = CIdle | CChecked | CRead 'a

record 'a spsc =
  ring :: "'a loop_queue"
  producer_at :: "'a producer"
  consumer_at :: "'a consumer"
  sent :: "'a list"
  got :: "'a list"

inductive spsc_step :: "'a spsc \<Rightarrow> 'a spsc \<Rightarrow> bool" where
  push_test: "producer_at s = PIdle \<Longrightarrow> \<not> lq_full (ring s) \<Longrightarrow> spsc_step s (s\<lparr>producer_at := PChecked t\<rparr>)"
| push_refuse: "producer_at s = PIdle \<Longrightarrow> lq_full (ring s) \<Longrightarrow> spsc_step s s"
| push_copy: "producer_at s = PChecked t \<Longrightarrow>
    spsc_step s (s\<lparr>ring := (ring s)\<lparr>lq_p := (lq_p (ring s))[lq_begin (ring s) := Some t]\<rparr>,
      producer_at := PStored t\<rparr>)"
| push_move: "producer_at s = PStored t \<Longrightarrow>
    spsc_step s (s\<lparr>ring := (ring s)\<lparr>lq_begin := lq_next (lq_begin (ring s)) (ring s)\<rparr>,
      producer_at := PIdle, sent := sent s @ [t]\<rparr>)"
| pop_test: "consumer_at s = CIdle \<Longrightarrow> lq_end (ring s) \<noteq> lq_begin (ring s) \<Longrightarrow>
    spsc_step s (s\<lparr>consumer_at := CChecked\<rparr>)"
| pop_refuse: "consumer_at s = CIdle \<Longrightarrow> lq_end (ring s) = lq_begin (ring s) \<Longrightarrow> spsc_step s s"
| pop_copy: "consumer_at s = CChecked \<Longrightarrow> lq_p (ring s) ! lq_end (ring s) = Some x \<Longrightarrow>
    spsc_step s (s\<lparr>consumer_at := CRead x\<rparr>)"
| pop_move: "consumer_at s = CRead x \<Longrightarrow>
    spsc_step s (s\<lparr>ring := (ring s)\<lparr>lq_end := lq_next (lq_end (ring s)) (ring s)\<rparr>,
      consumer_at := CIdle, got := got s @ [x]\<rparr>)"

inductive spsc_reachable :: "'a spsc \<Rightarrow> bool" where
  spsc_start: "LoopQueue_init iSize = Some q \<Longrightarrow> 0 < iSize \<Longrightarrow>
    spsc_reachable \<lparr>ring = q, producer_at = PIdle, consumer_at = CIdle, sent = [], got = []\<rparr>"
| spsc_next: "spsc_reachable s \<Longrightarrow> spsc_step s s' \<Longrightarrow> spsc_reachable s'"

definition spsc_inv :: "'a spsc \<Rightarrow> bool" where
  "spsc_inv s \<longleftrightarrow> lq_inv (ring s) \<and> sent s = got s @ lq_items (ring s) \<and>
     (case producer_at s of PIdle \<Rightarrow> True
      | PChecked t \<Rightarrow> lq_size (ring s) < lq_sub (ring s)
      | PStored t \<Rightarrow> lq_size (ring s) < lq_sub (ring s) \<and>
          lq_p (ring s) ! lq_begin (ring s) = Some t) \<and>
     (case consumer_at s of CIdle \<Rightarrow> True
      | CChecked \<Rightarrow> lq_items (ring s) \<noteq> []
      | CRead x \<Rightarrow> \<exists>xs. lq_items (ring s) = x # xs)"

lemma lq_size_p [simp]: "lq_size (q\<lparr>lq_p := p\<rparr>) = lq_size q"
  by (simp add: lq_size_def)

text \<open>Copying into the free slot is invisible until the index moves.\<close>

lemma lq_copy_invisible:
  assumes "lq_inv q" and "lq_size q < lq_sub q"
  shows "lq_slots (q\<lparr>lq_p := (lq_p q)[lq_begin q := Some t]\<rparr>) = lq_slots q"
proof -
  have c: "lq_end q < lq_cap q" "lq_size q < lq_cap q"
    using assms by (auto simp: lq_inv_def)
  have "lq_begin q \<noteq> (lq_end q + k) mod lq_cap q" if "k < lq_size q" for k
    unfolding lq_begin_eq [OF assms(1)] using that c by (auto simp: ring_index split: if_splits)
  then show ?thesis by (auto simp: lq_slots_def lq_size_def)
qed

lemma lq_copy_inv:
  assumes "lq_inv q" and "lq_size q < lq_sub q"
  shows "lq_inv (q\<lparr>lq_p := (lq_p q)[lq_begin q := Some t]\<rparr>)"
    and "lq_items (q\<lparr>lq_p := (lq_p q)[lq_begin q := Some t]\<rparr>) = lq_items q"
  using assms lq_copy_invisible [OF assms, of t] by (simp_all add: lq_inv_def lq_items_def)

lemma lq_move:
  assumes "lq_inv q" and "lq_size q < lq_sub q" and "lq_p q ! lq_begin q = Some t"
  shows "q\<lparr>lq_begin := lq_next (lq_begin q) q\<rparr> = lq_store t q"
proof -
  have "(lq_p q)[lq_begin q := Some t] = lq_p q"
    using assms(3) by (metis list_update_id)
  then show ?thesis by (simp add: lq_store_def)
qed

lemma lq_end_move_size:
  assumes "lq_inv q" and "lq_items q = x # xs"
  shows "lq_size (q\<lparr>lq_end := lq_next (lq_end q) q\<rparr>) < lq_sub q"
proof -
  have "length (lq_items (q\<lparr>lq_end := lq_next (lq_end q) q\<rparr>)) < length (lq_items q)"
    using lq_pop_front_spec(3) [OF assms] assms(2) by simp
  then show ?thesis using lq_size_le [OF assms(1)] by simp
qed

lemma spsc_step_inv: "spsc_step s s' \<Longrightarrow> spsc_inv s \<Longrightarrow> spsc_inv s'"
proof (induction rule: spsc_step.induct)
  case (push_test s t)
  then have "lq_size (ring s) < lq_sub (ring s)"
    using lq_full_iff [of "ring s"] lq_size_le [of "ring s"] by (simp add: spsc_inv_def)
  with push_test show ?case by (simp add: spsc_inv_def split: consumer.splits)
next
  case (push_copy s t)
  then have q: "lq_inv (ring s)" "lq_size (ring s) < lq_sub (ring s)"
    by (simp_all add: spsc_inv_def)
  have "lq_begin (ring s) < length (lq_p (ring s))" using q(1) by (simp add: lq_inv_def)
  then show ?case
    using push_copy lq_copy_inv [OF q, of t] q
    by (simp add: spsc_inv_def split: consumer.splits)
next
  case (push_move s t)
  then have q: "lq_inv (ring s)" "lq_size (ring s) < lq_sub (ring s)"
    "lq_p (ring s) ! lq_begin (ring s) = Some t"
    by (simp_all add: spsc_inv_def)
  show ?case
    using push_move lq_store_spec(1,2) [OF q(1,2), of t]
    unfolding spsc_inv_def by (auto simp: lq_move [OF q] split: consumer.splits)
next
  case (pop_test s)
  then have "lq_begin (ring s) \<noteq> lq_end (ring s)" "lq_inv (ring s)" by (auto simp: spsc_inv_def)
  then have "lq_items (ring s) \<noteq> []" using lq_empty_iff [of "ring s"] by simp
  with pop_test show ?case by (simp add: spsc_inv_def split: producer.splits)
next
  case (pop_copy s x)
  then obtain y ys where y: "lq_items (ring s) = y # ys" "lq_inv (ring s)"
    by (auto simp: spsc_inv_def neq_Nil_conv)
  have "lq_p (ring s) ! lq_end (ring s) = Some y"
    using lq_pop_front_spec(1) [OF y(2,1)] by (simp add: lq_pop_front_def split: if_splits)
  with pop_copy y show ?case by (simp add: spsc_inv_def split: producer.splits)
next
  case (pop_move s x)
  then obtain xs where x: "lq_items (ring s) = x # xs" "lq_inv (ring s)"
    by (auto simp: spsc_inv_def)
  show ?case
    using pop_move x lq_pop_front_spec(2,3) [OF x(2,1)] lq_end_move_size [OF x(2,1)]
    by (simp add: spsc_inv_def split: producer.splits)
qed (simp_all add: spsc_inv_def)

lemma spsc_reachable_inv: "spsc_reachable s \<Longrightarrow> spsc_inv s"
proof (induction rule: spsc_reachable.induct)
  case (spsc_start iSize q)
  then have "iSize < 1000000" by (simp add: LoopQueue_init_def split: if_splits)
  from LoopQueue_init_spec [OF spsc_start(2) this] spsc_start(1) have "lq_inv q" "lq_items q = []"
    by (metis option.inject)+
  then show ?case by (simp add: spsc_inv_def)
next
  case (spsc_next s s')
  then show ?case using spsc_step_inv by blast
qed

text \<open>The consumer never stands before a slot nothing was copied to.\<close>

lemma spsc_pop_ready:
  assumes "spsc_reachable s" and "consumer_at s = CChecked"
  shows "\<exists>x. lq_p (ring s) ! lq_end (ring s) = Some x"
proof -
  from spsc_reachable_inv [OF assms(1)] assms(2) obtain y ys where
    "lq_items (ring s) = y # ys" "lq_inv (ring s)"
    by (auto simp: spsc_inv_def neq_Nil_conv)
  from lq_pop_front_spec(1) [OF this(2,1)] show ?thesis
    by (simp add: lq_pop_front_def split: if_splits)
qed

end
