(* ===== verification/Object_Proxy.thy ===== *)
theory Object_Proxy
  imports Transceiver Timeout_Queue Loop_Queue Text_Numbers
begin

text \<open>
  The client's call path on the network thread: \<^verbatim>\<open>src/servant/libservant/ObjectProxy.cpp\<close> over
  the transceiver and the timeout queue, with the parts of
  \<^verbatim>\<open>src/servant/libservant/CommunicatorEpoll.cpp\<close> and \<^verbatim>\<open>AsyncProcThread.cpp\<close> it calls and is
  called from. Messages are addresses of a heap, since the calling thread, the queue and the
  callback threads share them.
\<close>

section \<open>Messages\<close>

datatype call_type = SYNC_CALL | ASYNC_CALL | ONE_WAY | THREAD_EXIT

datatype req_status = REQ_REQ | REQ_RSP | REQ_TIME | REQ_BUSY | REQ_EXC

record req_message =
  rm_eStatus :: req_status
  rm_eType :: call_type
  rm_pObjectProxy :: "nat option"
  rm_request :: bytes
  rm_response :: bytes
  rm_sReqData :: bytes
  rm_hasMonitor :: bool
  rm_bMonitorFin :: bool
  rm_iBeginTime :: int
  rm_iRequestId :: int

text \<open>The constructor and \<open>init\<close>; an \<open>ObjectProxy\<close> is the number of its network thread.\<close>

definition ReqMessage_init :: "call_type \<Rightarrow> req_message" where
  "ReqMessage_init eCallType =
     \<lparr>rm_eStatus = REQ_REQ, rm_eType = eCallType, rm_pObjectProxy = None, rm_request = [],
      rm_response = [], rm_sReqData = [], rm_hasMonitor = False, rm_bMonitorFin = False, rm_iBeginTime = 0,
      rm_iRequestId = 1\<rparr>"

section \<open>State\<close>

text \<open>
  The callback threads are their queues and the index of the next one; \<open>op_notified\<close> lists the
  monitors that were notified.
\<close>

record object_proxy =
  op_id :: "32 word"
  op_trans :: transceiver
  op_tq :: "nat timeout_queue"
  op_heap :: "nat \<Rightarrow> req_message option"
  op_asyncThread :: "nat loop_queue list"
  op_asyncSeq :: nat
  op_asyncThreadNum :: nat
  op_notified :: "nat list"

definition on_trans :: "(transceiver, 'a) act \<Rightarrow> (object_proxy, 'a) act" where
  "on_trans = zoom op_trans (\<lambda>t s. s\<lparr>op_trans := t\<rparr>)"

definition on_tq :: "(nat timeout_queue, 'a) act \<Rightarrow> (object_proxy, 'a) act" where
  "on_tq = zoom op_tq (\<lambda>q s. s\<lparr>op_tq := q\<rparr>)"

text \<open>Access through a message pointer.\<close>

definition msg_get :: "nat \<Rightarrow> (object_proxy, req_message) act" where
  "msg_get msg s = (case op_heap s msg of None \<Rightarrow> (Fault, s) | Some m \<Rightarrow> (Ok m, s))"

definition msg_put :: "nat \<Rightarrow> (req_message \<Rightarrow> req_message) \<Rightarrow> (object_proxy, unit) act" where
  "msg_put msg f s =
     (case op_heap s msg of None \<Rightarrow> (Fault, s) | Some m \<Rightarrow> (Ok (), s\<lparr>op_heap := (op_heap s)(msg \<mapsto> f m)\<rparr>))"

section \<open>Operations\<close>

definition op_generateId :: "(object_proxy, 32 word) act" where
  "op_generateId s =
     (let i = op_id s + 1; j = (if i = 0 then i + 1 else i) in (Ok j, s\<lparr>op_id := j\<rparr>))"

text \<open>\<open>AsyncProcThread::push_back\<close>: a full queue deletes the message.\<close>

definition async_push_back :: "nat \<Rightarrow> nat \<Rightarrow> (object_proxy, unit) act" where
  "async_push_back i msg s =
     (if length (op_asyncThread s) \<le> i then (Fault, s)
      else
        let (bFlag, q) = lq_push_back msg (op_asyncThread s ! i);
            s1 = s\<lparr>op_asyncThread := (op_asyncThread s)[i := q]\<rparr>
        in (Ok (), if bFlag then s1 else s1\<lparr>op_heap := (op_heap s1)(msg := None)\<rparr>))"

definition pushAsyncThreadQueue :: "nat \<Rightarrow> (object_proxy, unit) act" where
  "pushAsyncThreadQueue msg s =
     andthen (async_push_back (op_asyncSeq s) msg) (\<lambda>_ s1.
       let n = op_asyncSeq s1 + 1
       in (Ok (), s1\<lparr>op_asyncSeq := (if n = op_asyncThreadNum s1 then 0 else n)\<rparr>)) s"

definition finishInvoke_msg :: "nat \<Rightarrow> (object_proxy, unit) act" where
  "finishInvoke_msg msg =
     andthen (msg_get msg) (\<lambda>m.
       case rm_eType m of
         SYNC_CALL \<Rightarrow>
           if rm_hasMonitor m then
             andthen (\<lambda>s. (Ok (), s\<lparr>op_notified := op_notified s @ [msg]\<rparr>)) (\<lambda>_.
               msg_put msg (\<lambda>m. m\<lparr>rm_bMonitorFin := True\<rparr>))
           else fault
       | ASYNC_CALL \<Rightarrow> pushAsyncThreadQueue msg
       | ONE_WAY \<Rightarrow> ret ()
       | THREAD_EXIT \<Rightarrow> ret ())"

text \<open>Both branches of \<open>invoke\<close> end with the same handling of a refused push.\<close>

definition op_record :: "nat \<Rightarrow> 32 word \<Rightarrow> bool \<Rightarrow> (object_proxy, unit) act" where
  "op_record msg i hasSend =
     andthen (msg_get msg) (\<lambda>m.
     andthen (on_tq (\<lambda>q. case toq_push msg i (1000 + rm_iBeginTime m) hasSend q of (b, q') \<Rightarrow> (Ok b, q'))) (\<lambda>bFlag.
       if bFlag then ret ()
       else andthen (msg_put msg (\<lambda>m. m\<lparr>rm_eStatus := REQ_EXC\<rparr>)) (\<lambda>_. finishInvoke_msg msg)))"

definition op_invoke :: "nat \<Rightarrow> (object_proxy, unit) act" where
  "op_invoke msg =
     andthen (on_trans tr_connect) (\<lambda>_.
     andthen op_generateId (\<lambda>i.
     andthen (msg_put msg (\<lambda>m. m\<lparr>rm_iRequestId := sint i\<rparr>)) (\<lambda>_.
     andthen (msg_put msg (\<lambda>m. m\<lparr>rm_sReqData := to_string (rm_iRequestId m) @ [58] @ rm_request m\<rparr>)) (\<lambda>_.
     andthen (msg_get msg) (\<lambda>m s.
       if toq_sendListEmpty (op_tq s) then
         andthen (on_trans (sendRequest (rm_sReqData m))) (\<lambda>iRet.
           op_record msg i (iRet \<noteq> eRetError)) s
       else op_record msg i False s)))))"

definition finishInvoke_rsp :: "bytes \<Rightarrow> (object_proxy, unit) act" where
  "finishInvoke_rsp rsp s =
     (case atoi (takeWhile (\<lambda>c. c \<noteq> 58) rsp) of
        None \<Rightarrow> (Fault, s)
      | Some i \<Rightarrow>
          (case toq_erase (word_of_int i) (op_tq s) of
             (None, q) \<Rightarrow> (Ok (), s\<lparr>op_tq := q\<rparr>)
           | (Some msg, q) \<Rightarrow>
               andthen (msg_put msg (\<lambda>m. m\<lparr>rm_response := rsp\<rparr>)) (\<lambda>_. finishInvoke_msg msg)
                 (s\<lparr>op_tq := q\<rparr>)))"

fun doInvoke :: "nat \<Rightarrow> (object_proxy, unit) act" where
  "doInvoke 0 = diverge"
| "doInvoke (Suc k) = (\<lambda>s.
     if toq_sendListEmpty (op_tq s) then (Ok (), s)
     else
       andthen (on_tq toq_getSend) (\<lambda>r.
         case r of
           None \<Rightarrow> fault
         | Some msg \<Rightarrow>
             andthen (msg_get msg) (\<lambda>m.
             andthen (on_trans (sendRequest (rm_sReqData m))) (\<lambda>iRet.
               if iRet = eRetError then ret ()
               else if iRet = eRetFull then ret ()
               else doInvoke k))) s)"

definition doRequest :: "nat \<Rightarrow> (object_proxy, int) act" where
  "doRequest fuel =
     andthen (on_trans doRequest_flush) (\<lambda>r.
       case r of Some iRet \<Rightarrow> ret iRet | None \<Rightarrow> andthen (doInvoke fuel) (\<lambda>_. ret 0))"

text \<open>\<open>handleInputImp\<close>, \<open>handleOutputImp\<close> and the network branch of \<open>handle\<close>.\<close>

primrec finish_all :: "bytes list \<Rightarrow> (object_proxy, unit) act" where
  "finish_all [] = ret ()"
| "finish_all (r # rs) = andthen (finishInvoke_rsp r) (\<lambda>_. finish_all rs)"

definition handleInputImp :: "nat \<Rightarrow> (object_proxy, unit) act" where
  "handleInputImp fuel =
     andthen (on_trans (doResponse fuel)) (\<lambda>done. if done \<noteq> [] then finish_all done else ret ())"

definition handleOutputImp :: "nat \<Rightarrow> (object_proxy, unit) act" where
  "handleOutputImp fuel = andthen (doRequest fuel) (\<lambda>_. ret ())"

definition handle_net :: "nat \<Rightarrow> bool \<Rightarrow> bool \<Rightarrow> (object_proxy, unit) act" where
  "handle_net fuel epollin epollout =
     andthen (if epollin then handleInputImp fuel else ret ()) (\<lambda>_.
       if epollout then handleOutputImp fuel else ret ())"

section \<open>The id in front of a message is read back\<close>

lemma request_id: "takeWhile (\<lambda>c. c \<noteq> 58) (to_string i @ 58 # body) = to_string i"
proof -
  have "takeWhile (\<lambda>c. c \<noteq> 58) (to_string i @ 58 # body) =
      to_string i @ takeWhile (\<lambda>c. c \<noteq> 58) (58 # body)"
    using to_string_no_colon [of i] by (intro takeWhile_append2) auto
  then show ?thesis by simp
qed

lemma atoi_id: "atoi (takeWhile (\<lambda>c. c \<noteq> 58) (to_string (sint (i :: 32 word)) @ 58 # body)) = Some (sint i)"
proof -
  have "- 2147483648 \<le> sint i" "sint i < 2147483648"
    using sint_ge [of i] sint_lt [of i] by simp_all
  then show ?thesis by (simp add: request_id atoi_to_string)
qed

section \<open>Responses find their requests\<close>

text \<open>What finishing a call does to its message.\<close>

definition finished :: "bytes \<Rightarrow> req_message \<Rightarrow> req_message" where
  "finished rsp m =
     (if rm_eType m = SYNC_CALL then m\<lparr>rm_response := rsp, rm_bMonitorFin := True\<rparr>
      else m\<lparr>rm_response := rsp\<rparr>)"

definition response_to :: "32 word \<Rightarrow> bytes \<Rightarrow> bytes" where
  "response_to i body = to_string (sint i) @ 58 # body"

lemma finishInvoke_rsp_unknown:
  assumes "toq_inv (op_tq s)" and "toq_view (op_tq s) i = None"
  shows "finishInvoke_rsp (response_to i body) s = (Ok (), s)"
  using assms by (simp add: finishInvoke_rsp_def response_to_def atoi_id toq_erase_spec)

lemma finishInvoke_rsp_sync:
  assumes inv: "toq_inv (op_tq s)" and v: "toq_view (op_tq s) i = Some (msg, t, b)"
    and m: "op_heap s msg = Some m" and sync: "rm_eType m = SYNC_CALL" "rm_hasMonitor m"
  shows "finishInvoke_rsp (response_to i body) s =
    (Ok (), s\<lparr>op_tq := toq_remove i (op_tq s), op_notified := op_notified s @ [msg],
       op_heap := (op_heap s)(msg \<mapsto> finished (response_to i body) m)\<rparr>)"
proof -
  have "finishInvoke_rsp (response_to i body) s =
    andthen (msg_put msg (\<lambda>m. m\<lparr>rm_response := response_to i body\<rparr>)) (\<lambda>_. finishInvoke_msg msg)
      (s\<lparr>op_tq := toq_remove i (op_tq s)\<rparr>)"
    using v by (simp add: finishInvoke_rsp_def atoi_id toq_erase_spec [OF inv] response_to_def)
  also have "\<dots> = (Ok (), s\<lparr>op_tq := toq_remove i (op_tq s), op_notified := op_notified s @ [msg],
       op_heap := (op_heap s)(msg \<mapsto> finished (response_to i body) m)\<rparr>)"
    using m sync by (simp add: andthen_def msg_put_def msg_get_def finishInvoke_msg_def finished_def)
  finally show ?thesis .
qed

text \<open>A batch of responses, in whatever order they come, to blocking calls.\<close>

definition waits_for :: "object_proxy \<Rightarrow> 32 word \<Rightarrow> nat \<Rightarrow> bool" where
  "waits_for s i msg \<longleftrightarrow>
     (\<exists>t b m. toq_view (op_tq s) i = Some (msg, t, b) \<and> op_heap s msg = Some m \<and>
        rm_eType m = SYNC_CALL \<and> rm_hasMonitor m)"

lemma finishInvoke_rsp_waits:
  assumes inv: "toq_inv (op_tq s)" and w: "waits_for s i msg"
  obtains s' m where "finishInvoke_rsp (response_to i body) s = (Ok (), s')" and "toq_inv (op_tq s')"
    and "op_heap s msg = Some m" and "op_heap s' = (op_heap s)(msg \<mapsto> finished (response_to i body) m)"
    and "toq_view (op_tq s') = (toq_view (op_tq s))(i := None)" and "op_notified s' = op_notified s @ [msg]"
proof -
  obtain t b m where v: "toq_view (op_tq s) i = Some (msg, t, b)" "op_heap s msg = Some m"
    "rm_eType m = SYNC_CALL" "rm_hasMonitor m"
    using w by (auto simp: waits_for_def)
  show ?thesis
    using that finishInvoke_rsp_sync [OF inv v] toq_inv_remove [OF inv] v(2)
    by (simp add: toq_view_remove)
qed

text \<open>A response, with the id and the message it is for.\<close>

type_synonym reply = "32 word \<times> nat \<times> bytes"

abbreviation reply_id :: "reply \<Rightarrow> 32 word" where "reply_id r \<equiv> fst r"
abbreviation reply_msg :: "reply \<Rightarrow> nat" where "reply_msg r \<equiv> fst (snd r)"

definition reply_text :: "reply \<Rightarrow> bytes" where
  "reply_text r = response_to (fst r) (snd (snd r))"

lemma finish_all_spec:
  "toq_inv (op_tq s) \<Longrightarrow> distinct (map reply_id rs) \<Longrightarrow> distinct (map reply_msg rs) \<Longrightarrow>
   (\<forall>r \<in> set rs. waits_for s (reply_id r) (reply_msg r)) \<Longrightarrow>
   \<exists>s'. finish_all (map reply_text rs) s = (Ok (), s') \<and> toq_inv (op_tq s') \<and>
     op_notified s' = op_notified s @ map reply_msg rs \<and>
     (\<forall>r \<in> set rs. op_heap s' (reply_msg r) = map_option (finished (reply_text r)) (op_heap s (reply_msg r))) \<and>
     (\<forall>i. toq_view (op_tq s') i = (if i \<in> reply_id ` set rs then None else toq_view (op_tq s) i)) \<and>
     (\<forall>msg. msg \<notin> reply_msg ` set rs \<longrightarrow> op_heap s' msg = op_heap s msg)"
proof (induction rs arbitrary: s)
  case Nil
  then show ?case by (simp add: ret_apply)
next
  case (Cons r rs)
  have w: "waits_for s (reply_id r) (reply_msg r)" using Cons.prems(4) by simp
  obtain s1 m where s1: "finishInvoke_rsp (response_to (fst r) (snd (snd r))) s = (Ok (), s1)"
    "toq_inv (op_tq s1)" "op_heap s (reply_msg r) = Some m"
    "op_heap s1 = (op_heap s)(reply_msg r \<mapsto> finished (response_to (fst r) (snd (snd r))) m)"
    "toq_view (op_tq s1) = (toq_view (op_tq s))(reply_id r := None)"
    "op_notified s1 = op_notified s @ [reply_msg r]"
    by (rule finishInvoke_rsp_waits [OF Cons.prems(1) w])
  have d: "distinct (map reply_id rs)" "distinct (map reply_msg rs)"
    and ni: "reply_id r \<notin> reply_id ` set rs" and nm: "reply_msg r \<notin> reply_msg ` set rs"
    using Cons.prems(2,3) by simp_all
  have wait: "\<forall>x \<in> set rs. waits_for s1 (reply_id x) (reply_msg x)"
  proof
    fix x assume x: "x \<in> set rs"
    have "reply_id x \<noteq> reply_id r" using x ni by (metis imageI)
    moreover have "reply_msg x \<noteq> reply_msg r" using x nm by (metis imageI)
    moreover have "waits_for s (reply_id x) (reply_msg x)" using Cons.prems(4) x by simp
    ultimately show "waits_for s1 (reply_id x) (reply_msg x)" by (simp add: waits_for_def s1)
  qed
  obtain s' where s': "finish_all (map reply_text rs) s1 = (Ok (), s')"
    "toq_inv (op_tq s')" "op_notified s' = op_notified s1 @ map reply_msg rs"
    "\<forall>x \<in> set rs. op_heap s' (reply_msg x) = map_option (finished (reply_text x)) (op_heap s1 (reply_msg x))"
    "\<forall>i. toq_view (op_tq s') i = (if i \<in> reply_id ` set rs then None else toq_view (op_tq s1) i)"
    "\<forall>msg. msg \<notin> reply_msg ` set rs \<longrightarrow> op_heap s' msg = op_heap s1 msg"
    using Cons.IH [OF s1(2) d wait] by blast
  show ?case
  proof (intro exI [of _ s'] conjI)
    show "finish_all (map reply_text (r # rs)) s = (Ok (), s')"
      using s1(1) s'(1) by (simp add: andthen_Ok reply_text_def)
    show "\<forall>x \<in> set (r # rs). op_heap s' (reply_msg x) =
        map_option (finished (reply_text x)) (op_heap s (reply_msg x))"
    proof
      fix x assume x: "x \<in> set (r # rs)"
      show "op_heap s' (reply_msg x) = map_option (finished (reply_text x)) (op_heap s (reply_msg x))"
      proof (cases "x = r")
        case True
        then show ?thesis using s'(6) nm s1(3,4) by (simp add: reply_text_def)
      next
        case False
        then have "x \<in> set rs" using x by simp
        moreover from this have "reply_msg x \<noteq> reply_msg r" using nm by (metis imageI)
        ultimately show ?thesis using s'(4) s1(4) by simp
      qed
    qed
  qed (use s' s1 in simp_all)
qed

section \<open>The sender never drops a queued request\<close>

lemma on_trans_apply: "m (op_trans s) = (r, t) \<Longrightarrow> on_trans m s = (r, s\<lparr>op_trans := t\<rparr>)"
  by (simp add: on_trans_def zoom_apply)

lemma on_tq_apply: "m (op_tq s) = (r, q) \<Longrightarrow> on_tq m s = (r, s\<lparr>op_tq := q\<rparr>)"
  by (simp add: on_tq_def zoom_apply)

lemma toq_getSend_same: "snd (toq_getSend q) = q"
  by (simp add: toq_getSend_def split: option.split)

lemma keeps_on_trans: "(\<And>s t. P s \<Longrightarrow> P (s\<lparr>op_trans := t\<rparr>)) \<Longrightarrow> keeps P (on_trans m)"
  unfolding on_trans_def by (rule keeps_apart) blast

lemma doInvoke_keeps_queue: "keeps (\<lambda>s. op_tq s = q) (doInvoke k)"
proof (induction k)
  case 0
  then show ?case by (simp add: keeps_intros)
next
  case (Suc k)
  have get: "keeps (\<lambda>s. op_tq s = q) (on_tq toq_getSend)"
    using toq_getSend_same [of q] by (intro keepsI) (auto simp: on_tq_def zoom_def split: prod.split)
  have msg: "keeps (\<lambda>s. op_tq s = q) (msg_get msg)" for msg
    by (intro keepsI) (simp add: msg_get_def split: option.split)
  have "keeps (\<lambda>s. op_tq s = q) (andthen (on_tq toq_getSend) (\<lambda>r.
         case r of
           None \<Rightarrow> fault
         | Some msg \<Rightarrow>
             andthen (msg_get msg) (\<lambda>m.
             andthen (on_trans (sendRequest (rm_sReqData m))) (\<lambda>iRet.
               if iRet = eRetError then ret ()
               else if iRet = eRetFull then ret ()
               else doInvoke k))))"
    using Suc get msg
    by (auto intro!: keeps_intros keeps_on_trans split: option.split)
  then show ?case by (auto simp: keeps_def)
qed

text \<open>The kernel takes a whole request, or nothing of it.\<close>

lemma sendRequest_accepted:
  assumes inv: "tr_inv t" and emp: "tr_pending t = []" and fd: "tr_fd t \<in> set (net_open (tr_net t))"
    and len: "length d < 2147483648" and k: "net_sends (tr_net t) = Accepts K # r" "length d \<le> K"
  obtains t' where "sendRequest d t = (Ok (int (length d)), t')" and "tr_inv t'" and "tr_pending t' = []"
    and "tr_fd t' = tr_fd t" and "net_open (tr_net t') = net_open (tr_net t)"
    and "net_sends (tr_net t') = r" and "tr_wire t' = tr_wire t @ d"
proof -
  let ?n = "(tr_net t)\<lparr>net_sends := r, net_wire := (net_wire (tr_net t))(tr_fd t := net_wire (tr_net t) (tr_fd t) @ d)\<rparr>"
  have cut: "take (to_uint32 (length d)) d = d" using len by (simp add: to_uint32_def)
  have "tr_send d t = (Ok (int (length d)), t\<lparr>tr_net := ?n\<rparr>)"
    using fd k len by (simp add: tr_send_def cut k_send_def to_int_small min_def)
  moreover have "IsEmpty (tr_sendBuffer t)"
    using emp inv by (simp add: tr_inv_def IsEmpty_iff tr_pending_def)
  ultimately have "sendRequest d t = (Ok (int (length d)), t\<lparr>tr_net := ?n\<rparr>)"
    using len by (simp add: sendRequest_def andthen_Ok ret_apply to_int_small)
  then show ?thesis
    by (rule that) (use inv emp in \<open>simp_all add: tr_inv_def tr_pending_def tr_wire_def\<close>)
qed

lemma sendRequest_blocked:
  assumes inv: "tr_inv t" and emp: "tr_pending t = []" and fd: "tr_fd t \<in> set (net_open (tr_net t))"
    and len: "0 < length d" "length d < 2147483648" and k: "net_sends (tr_net t) = []"
  obtains t' where "sendRequest d t = (Ok eRetFull, t')" and "tr_pending t' = d" and "tr_wire t' = tr_wire t"
proof -
  have cut: "take (to_uint32 (length d)) d = d" using len by (simp add: to_uint32_def)
  have send: "tr_send d t = (Ok 0, t)"
    using fd k by (simp add: tr_send_def cut k_send_def)
  have emp': "IsEmpty (tr_sendBuffer t)" and tb: "tb_inv (tr_sendBuffer t)" "readable (tr_sendBuffer t) = []"
    using emp inv by (simp_all add: tr_inv_def IsEmpty_iff tr_pending_def)
  have n: "length d \<le> length d" "0 < length d" "length (readable (tr_sendBuffer t)) + length d < kMaxBufferSize"
    using len by (simp_all add: tb kMaxBufferSize_def)
  obtain b where b: "PushData (Some d) (length d) (tr_sendBuffer t) = (Ok (length d), b)"
    "readable b = readable (tr_sendBuffer t) @ take (length d) d"
    by (rule PushData_spec [OF tb(1) n])
  have "sendRequest d t = (Ok eRetFull, t\<lparr>tr_sendBuffer := b\<rparr>)"
    using emp' send len on_send_apply [of "PushData (Some d) (length d)" t] b(1)
    by (simp add: sendRequest_def andthen_Ok ret_apply to_int_small)
  then show ?thesis by (rule that) (simp_all add: tr_pending_def tr_wire_def b(2) tb)
qed

text \<open>With a writable socket the same request goes out once for every call the kernel takes.\<close>

lemma doInvoke_repeats:
  "tr_inv (op_trans s) \<Longrightarrow> tr_pending (op_trans s) = [] \<Longrightarrow>
   tr_fd (op_trans s) \<in> set (net_open (tr_net (op_trans s))) \<Longrightarrow>
   toq_inv (op_tq s) \<Longrightarrow> toq_unsent (op_tq s) = k # ks \<Longrightarrow> toq_view (op_tq s) k = Some (msg, t, False) \<Longrightarrow>
   op_heap s msg = Some m \<Longrightarrow> 1 < length (rm_sReqData m) \<Longrightarrow> length (rm_sReqData m) < 2147483648 \<Longrightarrow>
   net_sends (tr_net (op_trans s)) = replicate n (Accepts (length (rm_sReqData m))) \<Longrightarrow>
   \<exists>s'. doInvoke (Suc n) s = (Ok (), s') \<and> op_tq s' = op_tq s \<and>
     tr_wire (op_trans s') = tr_wire (op_trans s) @ concat (replicate n (rm_sReqData m)) \<and>
     tr_pending (op_trans s') = rm_sReqData m"
proof (induction n arbitrary: s)
  case (0 s)
  let ?d = "rm_sReqData m"
  obtain m' t' where g: "toq_view (op_tq s) k = Some (m', t', False)" "toq_getSend (op_tq s) = (Ok (Some m'), op_tq s)"
    by (rule toq_getSend_spec [OF "0.prems"(4,5)])
  have get: "on_tq toq_getSend s = (Ok (Some msg), s)"
    using g "0.prems"(6) by (simp add: on_tq_def zoom_def)
  have ne: "\<not> toq_sendListEmpty (op_tq s)"
    using "0.prems"(5) by (auto simp: toq_sendListEmpty_def toq_unsent_def)
  obtain tr where tr: "sendRequest ?d (op_trans s) = (Ok eRetFull, tr)" "tr_pending tr = ?d"
    "tr_wire tr = tr_wire (op_trans s)"
    by (rule sendRequest_blocked [OF "0.prems"(1,2,3), of ?d]) (use "0.prems" in auto)
  have "doInvoke (Suc 0) s = (Ok (), s\<lparr>op_trans := tr\<rparr>)"
    using ne get on_trans_apply [of "sendRequest ?d" s, OF tr(1)] "0.prems"(7)
    by (simp add: andthen_Ok msg_get_def ret_apply)
  then show ?case using tr by simp
next
  case (Suc n s)
  let ?d = "rm_sReqData m"
  obtain m' t' where g: "toq_view (op_tq s) k = Some (m', t', False)" "toq_getSend (op_tq s) = (Ok (Some m'), op_tq s)"
    by (rule toq_getSend_spec [OF Suc.prems(4,5)])
  have get: "on_tq toq_getSend s = (Ok (Some msg), s)"
    using g Suc.prems(6) by (simp add: on_tq_def zoom_def)
  have ne: "\<not> toq_sendListEmpty (op_tq s)"
    using Suc.prems(5) by (auto simp: toq_sendListEmpty_def toq_unsent_def)
  have sends: "net_sends (tr_net (op_trans s)) = Accepts (length ?d) # replicate n (Accepts (length ?d))"
    using Suc.prems(10) by simp
  obtain tr where tr: "sendRequest ?d (op_trans s) = (Ok (int (length ?d)), tr)" "tr_inv tr" "tr_pending tr = []"
    "tr_fd tr = tr_fd (op_trans s)" "net_open (tr_net tr) = net_open (tr_net (op_trans s))"
    "net_sends (tr_net tr) = replicate n (Accepts (length ?d))" "tr_wire tr = tr_wire (op_trans s) @ ?d"
    by (rule sendRequest_accepted [OF Suc.prems(1,2,3,9) sends]) simp
  let ?s = "s\<lparr>op_trans := tr\<rparr>"
  have "int (length ?d) \<noteq> eRetError" "int (length ?d) \<noteq> eRetFull"
    using Suc.prems(8) by (simp_all add: eRetError_def eRetFull_def)
  then have step: "doInvoke (Suc (Suc n)) s = doInvoke (Suc n) ?s"
    using ne get on_trans_apply [of "sendRequest ?d" s, OF tr(1)] Suc.prems(7)
    unfolding doInvoke.simps(2) [of "Suc n"] by (simp add: andthen_Ok msg_get_def)
  obtain s' where "doInvoke (Suc n) ?s = (Ok (), s')" "op_tq s' = op_tq ?s"
    "tr_wire (op_trans s') = tr_wire (op_trans ?s) @ concat (replicate n ?d)"
    "tr_pending (op_trans s') = ?d"
    using Suc.IH [of ?s] Suc.prems tr by auto
  then show ?case using step tr(7) by simp
qed

section \<open>Issuing a call\<close>

text \<open>A healthy client: the containers agree and no connection to come has been used yet.\<close>

definition op_inv :: "object_proxy \<Rightarrow> bool" where
  "op_inv s \<longleftrightarrow> tr_inv (op_trans s) \<and> toq_inv (op_tq s) \<and> net_fresh (tr_net (op_trans s))"

definition op_next_id :: "object_proxy \<Rightarrow> 32 word" where
  "op_next_id s = (if op_id s + 1 = 0 then op_id s + 1 + 1 else op_id s + 1)"

definition request_bytes :: "32 word \<Rightarrow> bytes \<Rightarrow> bytes" where
  "request_bytes i body = to_string (sint i) @ [58] @ body"

lemma op_next_id_trans [simp]: "op_next_id (s\<lparr>op_trans := t\<rparr>) = op_next_id s"
  by (simp add: op_next_id_def)

lemma op_generateId_eq: "op_generateId s = (Ok (op_next_id s), s\<lparr>op_id := op_next_id s\<rparr>)"
  by (simp add: op_generateId_def op_next_id_def Let_def)

lemma op_record_new:
  assumes inv: "toq_inv (op_tq s)" and new: "toq_view (op_tq s) i = None" and m: "op_heap s msg = Some m"
  obtains q where "op_record msg i b s = (Ok (), s\<lparr>op_tq := q\<rparr>)" and "toq_inv q"
    and "toq_view q = (toq_view (op_tq s))(i \<mapsto> (msg, 1000 + rm_iBeginTime m, b))"
    and "toq_unsent q = (if b then toq_unsent (op_tq s) else toq_unsent (op_tq s) @ [i])"
proof -
  obtain q where q: "toq_push msg i (1000 + rm_iBeginTime m) b (op_tq s) = (True, q)" "toq_inv q"
    "toq_view q = (toq_view (op_tq s))(i \<mapsto> (msg, 1000 + rm_iBeginTime m, b))"
    "toq_unsent q = (if b then toq_unsent (op_tq s) else toq_unsent (op_tq s) @ [i])"
    by (rule toq_push_spec [OF inv new])
  have "op_record msg i b s = (Ok (), s\<lparr>op_tq := q\<rparr>)"
    using m q(1) by (simp add: op_record_def msg_get_def andthen_def on_tq_def zoom_def ret_apply)
  then show ?thesis using that q by blast
qed

lemma op_invoke_spec:
  assumes inv: "op_inv s" and m: "op_heap s msg = Some m"
    and new: "toq_view (op_tq s) (op_next_id s) = None"
    and con: "net_connects (tr_net (op_trans s)) = [] \<or> hd (net_connects (tr_net (op_trans s))) \<noteq> Refused"
    and len: "length (request_bytes (op_next_id s) (rm_request m)) < 2147483648"
  obtains s' b where "op_invoke msg s = (Ok (), s')" and "op_inv s'" and "op_id s' = op_next_id s"
    and "toq_view (op_tq s') = (toq_view (op_tq s))(op_next_id s \<mapsto> (msg, 1000 + rm_iBeginTime m, b))"
    and "toq_unsent (op_tq s') = (if b then [] else toq_unsent (op_tq s) @ [op_next_id s])"
    and "op_heap s' = (op_heap s)(msg \<mapsto> m\<lparr>rm_iRequestId := sint (op_next_id s),
           rm_sReqData := request_bytes (op_next_id s) (rm_request m)\<rparr>)"
    and "tr_fd (op_trans s') = net_next (tr_net (op_trans s))"
    and "net_open (tr_net (op_trans s')) = net_next (tr_net (op_trans s)) # net_open (tr_net (op_trans s))"
    and "tr_wire (op_trans s') @ tr_pending (op_trans s') =
           tr_pending (op_trans s) @ (if b then request_bytes (op_next_id s) (rm_request m) else [])"
proof -
  let ?i = "op_next_id s" and ?n = "tr_net (op_trans s)"
  let ?d = "request_bytes ?i (rm_request m)"
  let ?m = "m\<lparr>rm_iRequestId := sint ?i, rm_sReqData := ?d\<rparr>"
  let ?fd = "net_next ?n"
  let ?t = "(op_trans s)\<lparr>tr_fd := ?fd, tr_net := ?n\<lparr>net_next := ?fd + 1, net_connects := tl (net_connects ?n),
      net_open := ?fd # net_open ?n, net_polled := ?fd # net_polled ?n\<rparr>\<rparr>"
  let ?s = "s\<lparr>op_trans := ?t, op_id := ?i, op_heap := (op_heap s)(msg \<mapsto> ?m)\<rparr>"
  have invs: "tr_inv (op_trans s)" "toq_inv (op_tq s)" "net_fresh ?n" using inv by (simp_all add: op_inv_def)
  have conn: "tr_connect (op_trans s) = (Ok (), ?t)"
    using con by (auto simp: tr_connect_def zoom_def k_connect_def andthen_def Let_def)
  have tinv: "tr_inv ?t" using invs(1) by (simp add: tr_inv_def tr_pending_def)
  have fd: "tr_fd ?t \<in> set (net_open (tr_net ?t))" by simp
  have wire: "tr_wire ?t = []" using invs(3) by (simp add: tr_wire_def net_fresh_def)
  have fresh: "net_fresh (tr_net ?t)" using invs(3) by (auto simp: net_fresh_def)
  have "on_trans tr_connect s = (Ok (), s\<lparr>op_trans := ?t\<rparr>)"
    by (rule on_trans_apply) (rule conn)
  then have start: "op_invoke msg s =
      (if toq_sendListEmpty (op_tq s) then
         andthen (on_trans (sendRequest ?d)) (\<lambda>iRet. op_record msg ?i (iRet \<noteq> eRetError)) ?s
       else op_record msg ?i False ?s)"
    unfolding op_invoke_def using m
    by (simp add: andthen_Ok op_generateId_eq msg_put_def msg_get_def request_bytes_def)
  have pr: "toq_inv (op_tq ?s)" "toq_view (op_tq ?s) ?i = None" "op_heap ?s msg = Some ?m"
    using invs new by simp_all
  show ?thesis
  proof (cases "toq_sendListEmpty (op_tq s)")
    case False
    obtain q where q: "op_record msg ?i False ?s = (Ok (), ?s\<lparr>op_tq := q\<rparr>)" "toq_inv q"
      "toq_view q = (toq_view (op_tq ?s))(?i \<mapsto> (msg, 1000 + rm_iBeginTime ?m, False))"
      "toq_unsent q = (if False then toq_unsent (op_tq ?s) else toq_unsent (op_tq ?s) @ [?i])"
      by (rule op_record_new [OF pr])
    have "op_invoke msg s = (Ok (), ?s\<lparr>op_tq := q\<rparr>)" using start False q(1) by simp
    then show ?thesis
      by (rule that [of _ False]) (use q tinv fresh wire in \<open>simp_all add: op_inv_def tr_pending_def\<close>)
  next
    case True
    then have none: "toq_unsent (op_tq s) = []" by (simp add: toq_sendListEmpty_def toq_unsent_def)
    obtain r t where t: "sendRequest ?d ?t = (Ok r, t)" "tr_inv t" "tr_fd t = tr_fd ?t"
      "net_open (tr_net t) = net_open (tr_net ?t)"
      "r = eRetError \<longrightarrow> tr_wire t @ tr_pending t = tr_wire ?t @ tr_pending ?t"
      "r \<noteq> eRetError \<longrightarrow> tr_pending ?t = [] \<and> tr_wire t @ tr_pending t = tr_wire ?t @ ?d"
      by (rule sendRequest_spec [OF tinv len])
    have fresh': "net_fresh (tr_net t)"
      using keepsD [OF keeps_sendRequest_fresh, of ?t ?d "Ok r" t] fresh t(1)
      by (simp add: fd_used_def on_net_def)
    let ?s1 = "?s\<lparr>op_trans := t\<rparr>" and ?b = "r \<noteq> eRetError"
    have pr1: "toq_inv (op_tq ?s1)" "toq_view (op_tq ?s1) ?i = None" "op_heap ?s1 msg = Some ?m"
      using invs new by simp_all
    obtain q where q: "op_record msg ?i ?b ?s1 = (Ok (), ?s1\<lparr>op_tq := q\<rparr>)" "toq_inv q"
      "toq_view q = (toq_view (op_tq ?s1))(?i \<mapsto> (msg, 1000 + rm_iBeginTime ?m, ?b))"
      "toq_unsent q = (if ?b then toq_unsent (op_tq ?s1) else toq_unsent (op_tq ?s1) @ [?i])"
      by (rule op_record_new [OF pr1])
    have "on_trans (sendRequest ?d) ?s = (Ok r, ?s1)" by (rule on_trans_apply) (simp add: t(1))
    then have "op_invoke msg s = (Ok (), ?s1\<lparr>op_tq := q\<rparr>)" using start True q(1) by (simp add: andthen_Ok)
    then show ?thesis
      by (rule that [of _ ?b])
        (use q t fresh' wire none in \<open>auto simp: op_inv_def tr_pending_def\<close>)
  qed
qed

section \<open>Earlier connections are never read\<close>

text \<open>Everything that does not go through the transceiver leaves its sockets alone.\<close>

definition op_net :: "(int \<Rightarrow> net \<Rightarrow> bool) \<Rightarrow> object_proxy \<Rightarrow> bool" where
  "op_net Q s \<longleftrightarrow> on_net Q (op_trans s)"

lemma keeps_trans: "keeps (on_net Q) m \<Longrightarrow> keeps (op_net Q) (on_trans m)"
  unfolding on_trans_def by (erule keeps_zoom) (simp_all add: op_net_def)

lemma keeps_tq: "keeps (op_net Q) (on_tq m)"
  unfolding on_tq_def by (rule keeps_apart) (simp add: op_net_def)

lemma keeps_msg: "keeps (op_net Q) (msg_get msg)" "keeps (op_net Q) (msg_put msg f)"
  by (auto intro!: keepsI simp: msg_get_def msg_put_def op_net_def split: option.split)

lemma keeps_async: "keeps (op_net Q) (pushAsyncThreadQueue msg)"
  by (rule keepsI)
    (auto simp: pushAsyncThreadQueue_def async_push_back_def andthen_def op_net_def Let_def
      split: prod.splits)

lemma keeps_finish_msg: "keeps (op_net Q) (finishInvoke_msg msg)"
proof -
  have n: "keeps (op_net Q) (\<lambda>s. (Ok (), s\<lparr>op_notified := op_notified s @ [msg]\<rparr>))"
    by (rule keepsI) (simp add: op_net_def)
  show ?thesis
    unfolding finishInvoke_msg_def
    by (auto intro!: keeps_intros keeps_msg keeps_async n split: call_type.split)
qed

lemma keeps_record: "keeps (op_net Q) (op_record msg i b)"
  unfolding op_record_def
  by (auto intro!: keeps_intros keeps_msg keeps_tq keeps_finish_msg)

lemma keeps_finish_rsp: "keeps (op_net Q) (finishInvoke_rsp rsp)"
proof (rule keepsI)
  fix s assume p: "op_net Q s"
  have k: "keeps (op_net Q) (andthen (msg_put msg f) (\<lambda>_. finishInvoke_msg msg))" for msg f
    by (intro keeps_intros keeps_msg keeps_finish_msg)
  have "op_net Q (s\<lparr>op_tq := q\<rparr>)" for q using p by (simp add: op_net_def)
  then show "op_net Q (snd (finishInvoke_rsp rsp s))"
    using p by (auto simp: finishInvoke_rsp_def intro: keeps_snd [OF k] split: option.split prod.split)
qed

lemma keeps_finish_all: "keeps (op_net Q) (finish_all rs)"
  by (induction rs) (auto intro!: keeps_intros keeps_finish_rsp)

lemma keeps_doInvoke:
  assumes send: "\<And>fd buf n. Q fd n \<Longrightarrow> Q fd (snd (k_send fd buf n))"
  shows "keeps (op_net Q) (doInvoke k)"
proof (induction k)
  case 0
  then show ?case by (simp add: keeps_intros)
next
  case (Suc k)
  show ?case
    unfolding doInvoke.simps
    by (intro keeps_if keeps_pure)
      (auto intro!: keeps_intros keeps_tq keeps_msg keeps_trans keeps_sendRequest send Suc split: option.split)
qed

lemma keeps_handle_net:
  assumes send: "\<And>fd buf n. Q fd n \<Longrightarrow> Q fd (snd (k_send fd buf n))"
    and read: "\<And>fd room n. Q fd n \<Longrightarrow> Q fd (snd (k_readv fd room n))"
    and close: "\<And>fd n. Q fd n \<Longrightarrow> fd \<noteq> - 1 \<Longrightarrow> Q (- 1) (k_close fd n)"
  shows "keeps (op_net Q) (handle_net fuel i w)"
proof -
  have inp: "keeps (op_net Q) (handleInputImp fuel)"
    unfolding handleInputImp_def
    by (auto intro!: keeps_intros keeps_trans keeps_doResponse read close keeps_finish_all)
  have out: "keeps (op_net Q) (handleOutputImp fuel)"
    unfolding handleOutputImp_def doRequest_def
    by (auto intro!: keeps_intros keeps_trans keeps_doRequest_flush send keeps_doInvoke split: option.split)
  show ?thesis
    unfolding handle_net_def using inp out by (auto intro!: keeps_intros)
qed

lemma keeps_op_invoke:
  assumes send: "\<And>fd buf n. Q fd n \<Longrightarrow> Q fd (snd (k_send fd buf n))"
    and conn: "keeps (on_net Q) tr_connect"
  shows "keeps (op_net Q) (op_invoke msg)"
proof -
  have gen: "keeps (op_net Q) op_generateId"
    by (rule keepsI) (simp add: op_generateId_eq op_net_def)
  have tail: "keeps (op_net Q) (\<lambda>s. if toq_sendListEmpty (op_tq s) then
         andthen (on_trans (sendRequest d)) (\<lambda>iRet. op_record msg i (iRet \<noteq> eRetError)) s
       else op_record msg i False s)" for d i
    by (intro keeps_if keeps_intros keeps_trans keeps_sendRequest send keeps_record)
  show ?thesis
    unfolding op_invoke_def
    by (intro keeps_intros keeps_trans conn gen keeps_msg tail)
qed

text \<open>What the network thread does with one proxy, in any order.\<close>

datatype op_event = Call nat | Net_event bool bool

primrec op_run :: "nat \<Rightarrow> op_event list \<Rightarrow> (object_proxy, unit) act" where
  "op_run fuel [] = ret ()"
| "op_run fuel (e # es) =
     andthen (case e of Call msg \<Rightarrow> op_invoke msg | Net_event i w \<Rightarrow> handle_net fuel i w)
       (\<lambda>_. op_run fuel es)"

lemma op_run_left: "keeps (op_net (left_behind old a)) (op_run fuel es)"
proof (induction es)
  case (Cons e es)
  have "keeps (op_net (left_behind old a)) (op_invoke msg)" for msg
    by (intro keeps_op_invoke left_behind_kernel keeps_tr_connect_left)
  moreover have "keeps (op_net (left_behind old a)) (handle_net fuel i w)" for i w
    by (intro keeps_handle_net left_behind_kernel)
  ultimately show ?case
    using Cons by (auto intro!: keeps_andthen split: op_event.split)
qed (simp add: keeps_ret)

end
