(* ===== verification/Seq_Manager.thy ===== *)
theory Seq_Manager
  imports Tars_Prelude
begin

text \<open>
  \<open>SeqManager\<close> of \<^verbatim>\<open>src/servant/libservant/ServantProxy.cpp\<close>: the free sequence numbers are a
  singly linked list inside an array, taken at the head and returned at the tail. It refines a
  queue of distinct numbers.
\<close>

section \<open>State and operations\<close>

definition MAX_UNSIGN_SHORT :: nat where
  "MAX_UNSIGN_SHORT = 65535"

record seq_info =
  sq_next :: nat
  sq_isfree :: bool

record seq_manager =
  sm_num :: nat
  sm_free :: nat
  sm_tail :: nat
  sm_p :: "seq_info list"

text \<open>The constructor; \<open>None\<close> is a failed assertion.\<close>

definition SeqManager_init :: "nat \<Rightarrow> seq_manager option" where
  "SeqManager_init iNum =
     (if iNum < MAX_UNSIGN_SHORT \<and> 0 < iNum
      then Some \<lparr>sm_num = iNum, sm_free = 0, sm_tail = iNum - 1,
        sm_p = (map (\<lambda>i. \<lparr>sq_next = i + 1, sq_isfree = True\<rparr>) [0..<iNum])
          [iNum - 1 := \<lparr>sq_next = MAX_UNSIGN_SHORT, sq_isfree = True\<rparr>]\<rparr>
      else None)"

definition sm_get :: "(seq_manager, nat) act" where
  "sm_get s =
     (if sm_free s = MAX_UNSIGN_SHORT then (Abort, s)
      else if length (sm_p s) \<le> sm_free s then (Fault, s)
      else if \<not> sq_isfree (sm_p s ! sm_free s) then (Abort, s)
      else
        let buf = sm_free s; nx = sq_next (sm_p s ! buf) in
        if sm_free s = sm_tail s \<and> nx \<noteq> MAX_UNSIGN_SHORT then (Abort, s)
        else (Ok buf, s\<lparr>sm_tail := (if sm_free s = sm_tail s then MAX_UNSIGN_SHORT else sm_tail s),
               sm_free := nx, sm_p := (sm_p s)[buf := (sm_p s ! buf)\<lparr>sq_isfree := False\<rparr>]\<rparr>))"

definition sm_del :: "nat \<Rightarrow> (seq_manager, unit) act" where
  "sm_del iSeq s =
     (if \<not> iSeq < sm_num s then (Abort, s)
      else if length (sm_p s) \<le> iSeq then (Fault, s)
      else if sq_isfree (sm_p s ! iSeq) then (Abort, s)
      else
        let p1 = (sm_p s)[iSeq := (sm_p s ! iSeq)\<lparr>sq_next := MAX_UNSIGN_SHORT\<rparr>] in
        if sm_tail s = MAX_UNSIGN_SHORT
        then (Ok (), s\<lparr>sm_free := iSeq, sm_p := p1[iSeq := (p1 ! iSeq)\<lparr>sq_isfree := True\<rparr>],
               sm_tail := iSeq\<rparr>)
        else if length p1 \<le> sm_tail s then (Fault, s)
        else
          let p2 = p1[sm_tail s := (p1 ! sm_tail s)\<lparr>sq_next := iSeq\<rparr>]
          in (Ok (), s\<lparr>sm_p := p2[iSeq := (p2 ! iSeq)\<lparr>sq_isfree := True\<rparr>], sm_tail := iSeq\<rparr>))"

section \<open>The list of free numbers\<close>

fun free_path :: "seq_info list \<Rightarrow> nat \<Rightarrow> nat list \<Rightarrow> bool" where
  "free_path p i [] \<longleftrightarrow> i = MAX_UNSIGN_SHORT"
| "free_path p i (x # xs) \<longleftrightarrow> i = x \<and> x < length p \<and> free_path p (sq_next (p ! x)) xs"

definition sm_free_list :: "seq_manager \<Rightarrow> nat list \<Rightarrow> bool" where
  "sm_free_list s xs \<longleftrightarrow>
     free_path (sm_p s) (sm_free s) xs \<and> distinct xs \<and>
     sm_num s = length (sm_p s) \<and> sm_num s < MAX_UNSIGN_SHORT \<and>
     sm_tail s = (if xs = [] then MAX_UNSIGN_SHORT else last xs) \<and>
     (\<forall>i < sm_num s. sq_isfree (sm_p s ! i) \<longleftrightarrow> i \<in> set xs)"

lemma free_path_range: "free_path p i xs \<Longrightarrow> x \<in> set xs \<Longrightarrow> x < length p"
  by (induction xs arbitrary: i) auto

lemma free_path_cong:
  assumes "free_path p i xs" and "length q = length p"
    and "\<And>x. x \<in> set xs \<Longrightarrow> sq_next (q ! x) = sq_next (p ! x)"
  shows "free_path q i xs"
  using assms by (induction xs arbitrary: i) auto

lemma free_path_init:
  "n \<le> length p \<Longrightarrow> i \<le> n \<Longrightarrow> 0 < n \<Longrightarrow>
     (\<And>k. k < n - 1 \<Longrightarrow> sq_next (p ! k) = k + 1) \<Longrightarrow> sq_next (p ! (n - 1)) = MAX_UNSIGN_SHORT \<Longrightarrow>
     i < n \<Longrightarrow> free_path p i [i..<n]"
proof (induction "n - i" arbitrary: i)
  case (Suc m)
  show ?case
  proof (cases "i = n - 1")
    case True
    then have "[i..<n] = [i]" using Suc.prems by (simp add: upt_rec)
    with True Suc.prems show ?thesis by simp
  next
    case False
    then have "free_path p (i + 1) [i + 1..<n]"
      using Suc by (intro Suc.hyps) auto
    with False Suc.prems show ?thesis by (simp add: upt_conv_Cons)
  qed
qed simp

lemma SeqManager_init_spec:
  assumes "SeqManager_init n = Some s"
  shows "sm_free_list s [0..<n]"
proof -
  from assms have n: "0 < n" "n < MAX_UNSIGN_SHORT" by (auto simp: SeqManager_init_def split: if_splits)
  let ?p = "sm_p s"
  have p: "?p = (map (\<lambda>i. \<lparr>sq_next = i + 1, sq_isfree = True\<rparr>) [0..<n])
          [n - 1 := \<lparr>sq_next = MAX_UNSIGN_SHORT, sq_isfree = True\<rparr>]"
    using assms n by (auto simp: SeqManager_init_def)
  have "free_path ?p 0 [0..<n]"
    by (rule free_path_init) (use n in \<open>auto simp: p\<close>)
  moreover have "\<forall>i < n. sq_isfree (?p ! i)"
    by (auto simp: p nth_list_update)
  moreover have "length ?p = n" by (simp add: p)
  moreover have "sm_num s = n" "sm_free s = 0" "sm_tail s = n - 1"
    using assms by (auto simp: SeqManager_init_def split: if_splits)
  ultimately show ?thesis
    using n by (simp add: sm_free_list_def)
qed

lemma sm_get_spec:
  assumes "sm_free_list s (x # xs)"
  obtains s' where "sm_get s = (Ok x, s')" and "sm_free_list s' xs" and "sm_num s' = sm_num s"
proof -
  let ?p = "(sm_p s)[x := (sm_p s ! x)\<lparr>sq_isfree := False\<rparr>]"
  from assms have a: "sm_free s = x" "x < length (sm_p s)" "free_path (sm_p s) (sq_next (sm_p s ! x)) xs"
    "x \<notin> set xs" "distinct xs" "sm_num s = length (sm_p s)" "sm_num s < MAX_UNSIGN_SHORT"
    "sm_tail s = (if xs = [] then x else last xs)" "sq_isfree (sm_p s ! x)"
    "\<forall>i < sm_num s. sq_isfree (sm_p s ! i) \<longleftrightarrow> i = x \<or> i \<in> set xs"
    by (auto simp: sm_free_list_def)
  have tail: "sm_free s = sm_tail s \<longleftrightarrow> xs = []"
    using a by (auto simp: last_in_set)
  have path: "free_path ?p (sq_next (sm_p s ! x)) xs"
    by (rule free_path_cong [OF a(3)]) (use a in \<open>auto simp: nth_list_update\<close>)
  let ?s = "s\<lparr>sm_tail := (if xs = [] then MAX_UNSIGN_SHORT else sm_tail s),
    sm_free := sq_next (sm_p s ! x), sm_p := ?p\<rparr>"
  have "sm_get s = (Ok x, ?s)"
    using a tail by (auto simp: sm_get_def Let_def)
  moreover have "sm_free_list ?s xs"
    using a path by (auto simp: sm_free_list_def nth_list_update)
  ultimately show thesis using that by simp
qed

lemma sm_get_empty: "sm_free_list s [] \<Longrightarrow> sm_get s = (Abort, s)"
  by (simp add: sm_free_list_def sm_get_def)

lemma free_path_snoc:
  assumes "free_path p i xs" and "xs \<noteq> []" and "distinct xs" and "x \<notin> set xs"
    and "length q = length p" and "x < length p"
    and "sq_next (q ! last xs) = x" and "sq_next (q ! x) = MAX_UNSIGN_SHORT"
    and "\<And>y. y \<in> set xs \<Longrightarrow> y \<noteq> last xs \<Longrightarrow> sq_next (q ! y) = sq_next (p ! y)"
  shows "free_path q i (xs @ [x])"
  using assms
proof (induction xs arbitrary: i)
  case (Cons y ys)
  show ?case
  proof (cases "ys = []")
    case True
    with Cons.prems show ?thesis by simp
  next
    case False
    then have "y \<noteq> last ys" using Cons.prems(3) by (auto simp: last_in_set)
    moreover have "free_path q (sq_next (p ! y)) (ys @ [x])"
      by (rule Cons.IH) (use Cons.prems False in auto)
    ultimately show ?thesis using Cons.prems False by auto
  qed
qed simp

lemma sm_del_spec:
  assumes "sm_free_list s xs" and "i < sm_num s" and "i \<notin> set xs"
  obtains s' where "sm_del i s = (Ok (), s')" and "sm_free_list s' (xs @ [i])"
    and "sm_num s' = sm_num s"
proof -
  from assms have a: "free_path (sm_p s) (sm_free s) xs" "distinct xs" "sm_num s = length (sm_p s)"
    "sm_num s < MAX_UNSIGN_SHORT" "sm_tail s = (if xs = [] then MAX_UNSIGN_SHORT else last xs)"
    "\<forall>i < sm_num s. sq_isfree (sm_p s ! i) \<longleftrightarrow> i \<in> set xs" "\<not> sq_isfree (sm_p s ! i)"
    by (auto simp: sm_free_list_def)
  let ?p1 = "(sm_p s)[i := (sm_p s ! i)\<lparr>sq_next := MAX_UNSIGN_SHORT\<rparr>]"
  show thesis
  proof (cases "xs = []")
    case True
    let ?s = "s\<lparr>sm_free := i, sm_p := ?p1[i := (?p1 ! i)\<lparr>sq_isfree := True\<rparr>], sm_tail := i\<rparr>"
    have "sm_del i s = (Ok (), ?s)"
      using assms a True by (simp add: sm_del_def Let_def)
    moreover have "sm_free_list ?s (xs @ [i])"
      using assms a True by (auto simp: sm_free_list_def nth_list_update)
    ultimately show thesis using that by simp
  next
    case False
    let ?t = "last xs"
    have t: "?t < length (sm_p s)" "?t \<noteq> i" "?t \<noteq> MAX_UNSIGN_SHORT"
      using False assms a free_path_range [OF a(1), of ?t] by (auto simp: last_in_set)
    let ?p2 = "?p1[?t := (?p1 ! ?t)\<lparr>sq_next := i\<rparr>]"
    let ?p3 = "?p2[i := (?p2 ! i)\<lparr>sq_isfree := True\<rparr>]"
    let ?s = "s\<lparr>sm_p := ?p3, sm_tail := i\<rparr>"
    have "sm_del i s = (Ok (), ?s)"
      using assms a False t by (simp add: sm_del_def Let_def)
    moreover have "free_path ?p3 (sm_free s) (xs @ [i])"
      by (rule free_path_snoc [OF a(1) False a(2) assms(3)])
        (use assms a t free_path_range [OF a(1)] in \<open>auto simp: nth_list_update\<close>)
    moreover have "\<forall>k < sm_num s. sq_isfree (?p3 ! k) \<longleftrightarrow> k = i \<or> k \<in> set xs"
      using assms a t by (auto simp: nth_list_update)
    ultimately show thesis
      using that [of ?s] assms a False by (simp add: sm_free_list_def)
  qed
qed

lemma sm_del_bad:
  assumes "sm_free_list s xs" and "sm_num s \<le> i \<or> i \<in> set xs"
  shows "sm_del i s = (Abort, s)"
  using assms free_path_range [of "sm_p s" "sm_free s" xs i]
  by (auto simp: sm_free_list_def sm_del_def)

text \<open>Taking numbers and never giving one back, as every thread that calls does.\<close>

primrec sm_gets :: "nat \<Rightarrow> (seq_manager, nat list) act" where
  "sm_gets 0 = ret []"
| "sm_gets (Suc n) = andthen sm_get (\<lambda>x. andthen (sm_gets n) (\<lambda>xs. ret (x # xs)))"

lemma sm_gets_spec:
  "sm_free_list s (xs @ ys) \<Longrightarrow>
     \<exists>s'. sm_gets (length xs) s = (Ok xs, s') \<and> sm_free_list s' ys"
proof (induction xs arbitrary: s)
  case Nil
  then show ?case by (simp add: ret_apply)
next
  case (Cons x xs)
  have "sm_free_list s (x # (xs @ ys))" using Cons.prems by simp
  then obtain s1 where s1: "sm_get s = (Ok x, s1)" "sm_free_list s1 (xs @ ys)"
    by (rule sm_get_spec)
  then show ?case
    using Cons.IH [OF s1(2)] by (auto simp: andthen_Ok ret_apply)
qed

end
