(* ===== verification/Servant_Proxy.thy ===== *)
theory Servant_Proxy
  imports Object_Proxy Seq_Manager
begin

text \<open>
  The calling thread's side, \<^verbatim>\<open>src/servant/libservant/ServantProxy.cpp\<close>: the thread's private data,
  the choice of a network thread, the hand-over of a message, and what the network thread makes of
  the queue, the notification branch of \<^verbatim>\<open>CommunicatorEpoll::handle\<close>.
\<close>

section \<open>Thread data\<close>

text \<open>\<open>_reqQueue\<close> is an array of 64; \<open>None\<close> is a slot not set yet.\<close>

record thread_data =
  td_reqQueue :: "nat loop_queue option list"
  td_queueInit :: bool
  td_reqQNo :: nat
  td_netSeq :: nat
  td_netThreadSeq :: int
  td_objectProxyNum :: nat

definition ThreadData_init :: "nat \<Rightarrow> thread_data" where
  "ThreadData_init seq =
     \<lparr>td_reqQueue = replicate 64 None, td_queueInit = False, td_reqQNo = seq, td_netSeq = 0,
      td_netThreadSeq = - 1, td_objectProxyNum = 0\<rparr>"

text \<open>
  \<open>getData\<close>: the thread's own record, made with the next number of the shared \<open>SeqManager\<close> on the
  first call. The state is the manager and the thread's key; creating the key is taken to succeed.
\<close>

definition getData :: "(seq_manager \<times> thread_data option, thread_data) act" where
  "getData st =
     (case st of
        (sm, Some td) \<Rightarrow> (Ok td, st)
      | (sm, None) \<Rightarrow>
          (case sm_get sm of
             (Ok seq, sm') \<Rightarrow> (Ok (ThreadData_init seq), (sm', Some (ThreadData_init seq)))
           | (Throw e, sm') \<Rightarrow> (Throw e, (sm', None))
           | (Abort, sm') \<Rightarrow> (Abort, (sm', None))
           | (Fault, sm') \<Rightarrow> (Fault, (sm', None))
           | (OutOfFuel, sm') \<Rightarrow> (OutOfFuel, (sm', None))))"

section \<open>Choosing a network thread\<close>

text \<open>The queues of the first call; \<open>_queueSize\<close> is 1000.\<close>

definition td_init_queues :: "nat \<Rightarrow> (thread_data, unit) act" where
  "td_init_queues num td =
     (if td_queueInit td then (Ok (), td)
      else if length (td_reqQueue td) < num then (Fault, td)
      else (Ok (), td\<lparr>td_reqQueue :=
              map LoopQueue_init (replicate num 1000) @ drop num (td_reqQueue td),
              td_objectProxyNum := num, td_queueInit := True\<rparr>))"

text \<open>\<open>selectNetThreadInfo\<close>: the index of both the \<open>ObjectProxy\<close> and the queue.\<close>

definition selectNetThreadInfo :: "nat \<Rightarrow> (thread_data, nat) act" where
  "selectNetThreadInfo num =
     andthen (td_init_queues num) (\<lambda>_ td.
       if num = 1 then (Ok 0, td)
       else if 0 \<le> td_netThreadSeq td then
         if td_netThreadSeq td < int num then (Ok (nat (td_netThreadSeq td)), td) else (Abort, td)
       else if num \<le> td_netSeq td then (Fault, td)
       else
         let i = td_netSeq td; n = i + 1
         in (Ok i, td\<lparr>td_netSeq := (if n = num then 0 else n)\<rparr>))"

section \<open>Handing a message over\<close>

text \<open>\<open>cl_notified\<close>: the network threads woken, with the number of the queue.\<close>

record caller =
  cl_td :: thread_data
  cl_heap :: "nat \<Rightarrow> req_message option"
  cl_notified :: "(nat \<times> nat) list"

definition cl_notify :: "nat \<Rightarrow> caller \<Rightarrow> caller" where
  "cl_notify i s = s\<lparr>cl_notified := cl_notified s @ [(i, td_reqQNo (cl_td s))]\<rparr>"

text \<open>
  \<open>ServantProxy::invoke\<close> up to the wait; the result tells whether the caller goes on to block on
  the message's monitor. \<open>now\<close> is the clock in milliseconds.
\<close>

definition sp_invoke :: "nat \<Rightarrow> int \<Rightarrow> nat \<Rightarrow> (caller, bool) act" where
  "sp_invoke num now msg =
     andthen (zoom cl_td (\<lambda>td s. s\<lparr>cl_td := td\<rparr>) (selectNetThreadInfo num)) (\<lambda>i s.
       case cl_heap s msg of
         None \<Rightarrow> (Fault, s)
       | Some m \<Rightarrow>
           let bSync = (rm_eType m = SYNC_CALL);
               m1 = m\<lparr>rm_iBeginTime := now, rm_pObjectProxy := Some i\<rparr>;
               m2 = (if bSync then m1\<lparr>rm_bMonitorFin := False, rm_hasMonitor := True\<rparr> else m1);
               s1 = s\<lparr>cl_heap := (cl_heap s)(msg \<mapsto> m2)\<rparr>
           in
           if length (td_reqQueue (cl_td s1)) \<le> i then (Fault, s1)
           else case td_reqQueue (cl_td s1) ! i of
             None \<Rightarrow> (Fault, s1)
           | Some q \<Rightarrow>
               let ((pushed, bEmpty), q') = lq_push_back_empty msg q;
                   s2 = s1\<lparr>cl_td := (cl_td s1)\<lparr>td_reqQueue := (td_reqQueue (cl_td s1))[i := Some q']\<rparr>\<rparr>
               in
               if \<not> pushed then
                 let s3 = cl_notify i (cl_notify i (s2\<lparr>cl_heap := (cl_heap s2)(msg := None)\<rparr>))
                 in if bSync then (Fault, s3) else (Ok False, s3)
               else
                 let s3 = cl_notify i s2
                 in (Ok (bSync \<and> \<not> rm_bMonitorFin m2), s3))"

text \<open>What \<open>tars_invoke\<close> and \<open>tars_invoke_async\<close> put into a new message.\<close>

definition sp_message :: "call_type \<Rightarrow> bytes \<Rightarrow> bytes \<Rightarrow> req_message" where
  "sp_message eType sFuncName request = (ReqMessage_init eType)\<lparr>rm_request := sFuncName @ [58] @ request\<rparr>"

section \<open>Taking messages from the queue\<close>

text \<open>
  The loop over \<open>pInfoQueue\<close>. An exception leaves it: the handlers around it catch everything and
  do nothing. After \<open>THREAD_EXIT\<close> the queue is deleted and its notification slot given up (\<open>None\<close>).
\<close>

fun handle_notify :: "nat \<Rightarrow> (object_proxy \<times> nat loop_queue option, unit) act" where
  "handle_notify 0 = diverge"
| "handle_notify (Suc k) = (\<lambda>(s, p).
     case p of
       None \<Rightarrow> (Fault, (s, p))
     | Some q \<Rightarrow>
     (case lq_pop_front q of
       (None, q1) \<Rightarrow> (Ok (), (s, Some q1))
     | (Some None, q1) \<Rightarrow> (Fault, (s, Some q1))
     | (Some (Some msg), q1) \<Rightarrow>
         (case op_heap s msg of
            None \<Rightarrow> (Fault, (s, Some q1))
          | Some m \<Rightarrow>
              if rm_eType m = THREAD_EXIT then
                if lq_empty q1 then (Ok (), (s\<lparr>op_heap := (op_heap s)(msg := None)\<rparr>, None))
                else (Abort, (s, Some q1))
              else
                (case op_invoke msg s of
                   (Ok _, s1) \<Rightarrow> handle_notify k (s1, Some q1)
                 | (Throw e, s1) \<Rightarrow> (Ok (), (s1, Some q1))
                 | (Abort, s1) \<Rightarrow> (Abort, (s1, Some q1))
                 | (Fault, s1) \<Rightarrow> (Fault, (s1, Some q1))
                 | (OutOfFuel, s1) \<Rightarrow> (OutOfFuel, (s1, Some q1))))))"

section \<open>Round robin\<close>

primrec selects :: "nat \<Rightarrow> nat \<Rightarrow> (thread_data, nat list) act" where
  "selects num 0 = ret []"
| "selects num (Suc n) =
     andthen (selectNetThreadInfo num) (\<lambda>i. andthen (selects num n) (\<lambda>is. ret (i # is)))"

lemma selects_turns:
  "td_queueInit td \<Longrightarrow> td_netThreadSeq td < 0 \<Longrightarrow> 1 < num \<Longrightarrow> td_netSeq td < num \<Longrightarrow>
     selects num n td = (Ok (map (\<lambda>k. (td_netSeq td + k) mod num) [0..<n]),
       td\<lparr>td_netSeq := (td_netSeq td + n) mod num\<rparr>)"
proof (induction n arbitrary: td)
  case 0
  then show ?case by (simp add: ret_apply)
next
  case (Suc n)
  let ?j = "if td_netSeq td + 1 = num then 0 else td_netSeq td + 1"
  let ?td = "td\<lparr>td_netSeq := ?j\<rparr>"
  have sel: "selectNetThreadInfo num td = (Ok (td_netSeq td), ?td)"
    using Suc.prems by (simp add: selectNetThreadInfo_def td_init_queues_def andthen_def Let_def)
  have j: "?j = (td_netSeq td + 1) mod num" using Suc.prems by auto
  have shift: "(?j + k) mod num = (td_netSeq td + Suc k) mod num" for k
    unfolding j by (simp add: mod_simps)
  have "selects num n ?td = (Ok (map (\<lambda>k. (td_netSeq ?td + k) mod num) [0..<n]),
       ?td\<lparr>td_netSeq := (td_netSeq ?td + n) mod num\<rparr>)"
    by (rule Suc.IH) (use Suc.prems in auto)
  also have "map (\<lambda>k. (td_netSeq ?td + k) mod num) [0..<n] =
      map (\<lambda>k. (td_netSeq td + Suc k) mod num) [0..<n]"
    using shift by (intro map_cong) simp_all
  also have "?td\<lparr>td_netSeq := (td_netSeq ?td + n) mod num\<rparr> = td\<lparr>td_netSeq := (td_netSeq td + Suc n) mod num\<rparr>"
    using shift [of n] by simp
  finally have rest: "selects num n ?td = (Ok (map (\<lambda>k. (td_netSeq td + Suc k) mod num) [0..<n]),
       td\<lparr>td_netSeq := (td_netSeq td + Suc n) mod num\<rparr>)" .
  have "map (\<lambda>k. (td_netSeq td + k) mod num) [0..<Suc n] =
      td_netSeq td # map (\<lambda>k. (td_netSeq td + Suc k) mod num) [0..<n]"
    using Suc.prems(4) by (simp add: upt_conv_Cons map_Suc_upt [symmetric] o_def del: upt_Suc)
  then show ?case
    by (simp only: selects.simps ret_apply andthen_Ok [of "selectNetThreadInfo num" td, OF sel]
        andthen_Ok [of "selects num n" ?td, OF rest])
qed

section \<open>The queue's messages are issued in order\<close>

primrec op_ids :: "nat \<Rightarrow> 32 word \<Rightarrow> 32 word list" where
  "op_ids 0 u = []"
| "op_ids (Suc n) u = next_id u # op_ids n (next_id u)"

lemma op_next_id_eq: "op_next_id s = next_id (op_id s)"
  by (auto simp: op_next_id_def next_id_step eq_neg_iff_add_eq_0)

lemma op_ids_generateIds: "op_ids n (toq_uniqId q) = fst (toq_generateIds n q)"
proof (induction n arbitrary: q)
  case (Suc n)
  show ?case
    using Suc [of "q\<lparr>toq_uniqId := next_id (toq_uniqId q)\<rparr>"]
    by (simp add: toq_generateId_def Let_def split_def)
qed simp

lemma length_op_ids [simp]: "length (op_ids n u) = n"
  by (induction n arbitrary: u) auto

lemma op_ids_nth: "k < n \<Longrightarrow> unat (op_ids n u ! k) = (unat u + k) mod 4294967295 + 1"
  using toq_generateIds_nth [of k n "(TimeoutQueue_init :: nat timeout_queue)\<lparr>toq_uniqId := u\<rparr>"]
    op_ids_generateIds [of n "(TimeoutQueue_init :: nat timeout_queue)\<lparr>toq_uniqId := u\<rparr>"]
  by simp

lemma distinct_op_ids:
  assumes "n \<le> 4294967295"
  shows "distinct (op_ids n u)"
  unfolding distinct_conv_nth
proof (intro allI impI)
  fix i j assume "i < length (op_ids n u)" "j < length (op_ids n u)" "i \<noteq> j"
  then have ij: "i < n" "j < n" "i \<noteq> j" by simp_all
  have "(unat u + i) mod 4294967295 \<noteq> (unat u + j) mod 4294967295"
    using mod_shift_inj [of "unat u" i 4294967295 j] ij assms by auto
  then have "unat (op_ids n u ! i) \<noteq> unat (op_ids n u ! j)"
    by (simp add: op_ids_nth [OF ij(1)] op_ids_nth [OF ij(2)])
  then show "op_ids n u ! i \<noteq> op_ids n u ! j" by auto
qed

text \<open>A message whose id and text were set, waiting under that id.\<close>

definition issued :: "object_proxy \<Rightarrow> object_proxy \<Rightarrow> 32 word \<Rightarrow> nat \<Rightarrow> bool" where
  "issued s s' i msg \<longleftrightarrow>
     (\<exists>m b. op_heap s msg = Some m \<and>
        op_heap s' msg = Some (m\<lparr>rm_iRequestId := sint i, rm_sReqData := request_bytes i (rm_request m)\<rparr>) \<and>
        toq_view (op_tq s') i = Some (msg, 1000 + rm_iBeginTime m, b))"

definition callable :: "object_proxy \<Rightarrow> nat \<Rightarrow> bool" where
  "callable s msg \<longleftrightarrow> (\<exists>m. op_heap s msg = Some m \<and> rm_eType m \<noteq> THREAD_EXIT \<and>
     length (rm_request m) < 2147483600)"

lemma dec_digits_length: "n < 10 ^ Suc k \<Longrightarrow> length (dec_digits n) \<le> Suc k"
proof (induction k arbitrary: n)
  case 0
  then show ?case by (subst dec_digits.simps) simp
next
  case (Suc k)
  show ?case
  proof (cases "n < 10")
    case False
    have "n div 10 < 10 ^ Suc k" using Suc.prems by (simp add: less_mult_imp_div_less mult.commute)
    with Suc.IH False show ?thesis by (subst dec_digits.simps) simp
  qed (subst dec_digits.simps, simp)
qed

lemma to_string_length: "length (to_string (sint (i :: 32 word))) \<le> 11"
proof -
  have s: "- 2147483648 \<le> sint i" "sint i < 2147483648"
    using sint_ge [of i] sint_lt [of i] by simp_all
  have "length (dec_digits (nat \<bar>sint i\<bar>)) \<le> Suc 9"
    by (rule dec_digits_length) (use s in simp)
  then show ?thesis by (auto simp: to_string_def)
qed

lemma request_bytes_small:
  "length body < 2147483600 \<Longrightarrow> length (request_bytes i body) < 2147483648"
  using to_string_length [of i] by (simp add: request_bytes_def)

lemma keeps_op_invoke_connects:
  "keeps (op_net (\<lambda>_ n. net_connects n = [])) (op_invoke msg)"
  by (rule keeps_op_invoke)
    (auto simp: k_send_def tr_connect_def zoom_def k_connect_def andthen_def Let_def on_net_def
      intro!: keepsI split: list.split send_answer.split)

lemma handle_notify_spec:
  "op_inv s \<Longrightarrow> lq_inv q \<Longrightarrow> lq_items q = msgs \<Longrightarrow> distinct msgs \<Longrightarrow>
   (\<forall>msg \<in> set msgs. callable s msg) \<Longrightarrow> net_connects (tr_net (op_trans s)) = [] \<Longrightarrow>
   distinct (op_ids (length msgs) (op_id s)) \<Longrightarrow>
   (\<forall>i \<in> set (op_ids (length msgs) (op_id s)). toq_view (op_tq s) i = None) \<Longrightarrow> length msgs < k \<Longrightarrow>
   \<exists>s' q'. handle_notify k (s, Some q) = (Ok (), (s', Some q')) \<and> op_inv s' \<and> lq_inv q' \<and> lq_items q' = [] \<and>
     list_all2 (issued s s') (op_ids (length msgs) (op_id s)) msgs \<and>
     (\<forall>i. i \<notin> set (op_ids (length msgs) (op_id s)) \<longrightarrow> toq_view (op_tq s') i = toq_view (op_tq s) i) \<and>
     (\<forall>msg. msg \<notin> set msgs \<longrightarrow> op_heap s' msg = op_heap s msg)"
proof (induction k arbitrary: s q msgs)
  case 0
  then show ?case by simp
next
  case (Suc k)
  show ?case
  proof (cases msgs)
    case Nil
    then have "lq_end q = lq_begin q" using lq_empty_iff [OF Suc.prems(2)] Suc.prems(3) by simp
    then have "handle_notify (Suc k) (s, Some q) = (Ok (), (s, Some q))" by (simp add: lq_pop_front_def)
    then show ?thesis using Nil Suc.prems by simp
  next
    case (Cons msg rest)
    let ?i = "next_id (op_id s)" and ?q = "q\<lparr>lq_end := lq_next (lq_end q) q\<rparr>"
    have items: "lq_items q = msg # rest" using Cons Suc.prems(3) by simp
    note pop = lq_pop_front_spec [OF Suc.prems(2) items]
    obtain m where m: "op_heap s msg = Some m" "rm_eType m \<noteq> THREAD_EXIT" "length (rm_request m) < 2147483600"
      using Suc.prems(5) Cons by (auto simp: callable_def)
    have ids: "op_ids (length msgs) (op_id s) = ?i # op_ids (length rest) ?i" using Cons by simp
    have new: "toq_view (op_tq s) (op_next_id s) = None"
      using Suc.prems(8) by (simp add: ids op_next_id_eq)
    have con: "net_connects (tr_net (op_trans s)) = [] \<or> hd (net_connects (tr_net (op_trans s))) \<noteq> Refused"
      using Suc.prems(6) by simp
    obtain s1 b where s1: "op_invoke msg s = (Ok (), s1)" "op_inv s1" "op_id s1 = op_next_id s"
      "toq_view (op_tq s1) = (toq_view (op_tq s))(op_next_id s \<mapsto> (msg, 1000 + rm_iBeginTime m, b))"
      "op_heap s1 = (op_heap s)(msg \<mapsto> m\<lparr>rm_iRequestId := sint (op_next_id s),
           rm_sReqData := request_bytes (op_next_id s) (rm_request m)\<rparr>)"
      by (rule op_invoke_spec [OF Suc.prems(1) m(1) new con request_bytes_small [OF m(3)]])
    have con1: "net_connects (tr_net (op_trans s1)) = []"
      using keepsD [OF keeps_op_invoke_connects _ s1(1)] Suc.prems(6) by (simp add: op_net_def on_net_def)
    have step: "handle_notify (Suc k) (s, Some q) = handle_notify k (s1, Some ?q)"
      using pop(1) m s1(1) by simp
    note i = op_next_id_eq [of s]
    have distinct: "distinct (op_ids (length rest) ?i)" "?i \<notin> set (op_ids (length rest) ?i)"
      using Suc.prems(7) by (simp_all add: ids)
    obtain s' q' where s': "handle_notify k (s1, Some ?q) = (Ok (), (s', Some q'))" "op_inv s'" "lq_inv q'"
      "lq_items q' = []" "list_all2 (issued s1 s') (op_ids (length rest) (op_id s1)) rest"
      "\<forall>j. j \<notin> set (op_ids (length rest) (op_id s1)) \<longrightarrow> toq_view (op_tq s') j = toq_view (op_tq s1) j"
      "\<forall>x. x \<notin> set rest \<longrightarrow> op_heap s' x = op_heap s1 x"
    proof -
      have nd: "msg \<notin> set rest" "distinct rest" using Suc.prems(4) Cons by simp_all
      have call: "\<forall>x \<in> set rest. callable s1 x"
        using Suc.prems(5) nd Cons by (auto simp: callable_def s1(5))
      have new1: "\<forall>j \<in> set (op_ids (length rest) (op_id s1)). toq_view (op_tq s1) j = None"
        using Suc.prems(8) distinct by (auto simp: ids s1(3,4) i)
      have d1: "distinct (op_ids (length rest) (op_id s1))" using distinct by (simp add: s1(3) i)
      have l1: "length rest < k" using Suc.prems(9) Cons by simp
      show ?thesis
        using Suc.IH [OF s1(2) pop(2,3) nd(2) call con1 d1 new1 l1] that by blast
    qed
    have "issued s s' ?i msg"
      using s'(6,7) distinct(2) Suc.prems(4) Cons m(1) s1 by (simp add: issued_def i)
    moreover have "list_all2 (issued s s') (op_ids (length rest) ?i) rest"
    proof (rule list.rel_mono_strong [OF s'(5) [unfolded s1(3) i]])
      fix j x assume "x \<in> set rest" "issued s1 s' j x"
      moreover from this have "x \<noteq> msg" using Suc.prems(4) Cons by auto
      ultimately show "issued s s' j x" using s1(5) by (simp add: issued_def)
    qed
    ultimately show ?thesis
      using step s' s1 by (simp add: Cons i)
  qed
qed

section \<open>What gets lost\<close>

text \<open>A refused connection throws out of \<open>invoke\<close>, before the message is recorded anywhere.\<close>

lemma op_invoke_refused:
  assumes "net_connects (tr_net (op_trans s)) = Refused # r"
  obtains s' where "op_invoke msg s = (Throw TarsNetConnectException, s')" and "op_tq s' = op_tq s"
    and "op_heap s' = op_heap s" and "op_notified s' = op_notified s" and "op_asyncThread s' = op_asyncThread s"
  using assms that
  by (auto simp: op_invoke_def andthen_def on_trans_def zoom_def tr_connect_def k_connect_def Let_def)

lemma handle_notify_refused:
  assumes "net_connects (tr_net (op_trans s)) = Refused # r" and "lq_inv q" and "lq_items q = msg # msgs"
    and "op_heap s msg = Some m" and "rm_eType m \<noteq> THREAD_EXIT"
  obtains s' q' where "handle_notify (Suc k) (s, Some q) = (Ok (), (s', Some q'))" and "lq_items q' = msgs"
    and "op_tq s' = op_tq s" and "op_heap s' = op_heap s" and "op_notified s' = op_notified s"
    and "op_asyncThread s' = op_asyncThread s"
proof -
  note pop = lq_pop_front_spec [OF assms(2,3)]
  obtain s' where s': "op_invoke msg s = (Throw TarsNetConnectException, s')" "op_tq s' = op_tq s"
    "op_heap s' = op_heap s" "op_notified s' = op_notified s" "op_asyncThread s' = op_asyncThread s"
    by (rule op_invoke_refused [OF assms(1)])
  have "handle_notify (Suc k) (s, Some q) = (Ok (), (s', Some (q\<lparr>lq_end := lq_next (lq_end q) q\<rparr>)))"
    using pop(1) s'(1) assms(4,5) by simp
  then show ?thesis using that s' pop(3) by blast
qed

section \<open>Handing over\<close>

lemma sp_invoke_pushed:
  assumes sel: "selectNetThreadInfo num (cl_td s) = (Ok i, td)" and m: "cl_heap s msg = Some m"
    and i: "i < length (td_reqQueue td)" "td_reqQueue td ! i = Some q"
    and inv: "lq_inv q" and room: "lq_size q < lq_sub q"
  obtains s' q' where "sp_invoke num now msg s = (Ok (rm_eType m = SYNC_CALL), s')" 
    and "td_reqQueue (cl_td s') = (td_reqQueue td)[i := Some q']"
    and "lq_inv q'" and "lq_items q' = lq_items q @ [msg]"
    and "\<exists>m'. cl_heap s' = (cl_heap s)(msg \<mapsto> m') \<and> rm_iBeginTime m' = now \<and> rm_pObjectProxy m' = Some i \<and>
      rm_request m' = rm_request m \<and> rm_eType m' = rm_eType m \<and>
      (rm_eType m = SYNC_CALL \<longrightarrow> rm_hasMonitor m' \<and> \<not> rm_bMonitorFin m')"
    and "cl_notified s' = cl_notified s @ [(i, td_reqQNo td)]"
proof -
  have full: "\<not> lq_full q" using lq_full_iff [OF inv] room by simp
  let ?m1 = "m\<lparr>rm_iBeginTime := now, rm_pObjectProxy := Some i\<rparr>"
  let ?m = "if rm_eType m = SYNC_CALL then ?m1\<lparr>rm_bMonitorFin := False, rm_hasMonitor := True\<rparr> else ?m1"
  let ?s = "cl_notify i (s\<lparr>cl_td := td\<lparr>td_reqQueue := (td_reqQueue td)[i := Some (lq_store msg q)]\<rparr>,
      cl_heap := (cl_heap s)(msg \<mapsto> ?m)\<rparr>)"
  have z: "zoom cl_td (\<lambda>td s. s\<lparr>cl_td := td\<rparr>) (selectNetThreadInfo num) s = (Ok i, s\<lparr>cl_td := td\<rparr>)"
    using sel by (simp add: zoom_def)
  have "sp_invoke num now msg s = (Ok (rm_eType m = SYNC_CALL), ?s)"
    using m i full
    by (simp add: sp_invoke_def andthen_def z lq_push_back_empty_eq Let_def cl_notify_def)
  then show ?thesis
    by (rule that [of ?s "lq_store msg q"])
      (use lq_store_spec [OF inv room] m in \<open>auto simp: cl_notify_def\<close>)
qed

text \<open>
  On a full queue the message is deleted; a blocking call then reads \<open>bMonitorFin\<close> through the
  null pointer, an asynchronous one returns as if it had been sent.
\<close>

lemma sp_invoke_full:
  assumes sel: "selectNetThreadInfo num (cl_td s) = (Ok i, td)" and m: "cl_heap s msg = Some m"
    and i: "i < length (td_reqQueue td)" "td_reqQueue td ! i = Some q"
    and inv: "lq_inv q" and full: "lq_size q = lq_sub q"
  obtains s' where "sp_invoke num now msg s = (if rm_eType m = SYNC_CALL then Fault else Ok False, s')"
    and "td_reqQueue (cl_td s') = td_reqQueue td" and "cl_heap s' = (cl_heap s)(msg := None)"
proof -
  have full: "lq_full q" using lq_full_iff [OF inv] full by simp
  let ?s = "cl_notify i (cl_notify i (s\<lparr>cl_td := td\<lparr>td_reqQueue := (td_reqQueue td)[i := Some q]\<rparr>,
      cl_heap := (cl_heap s)(msg := None)\<rparr>))"
  have z: "zoom cl_td (\<lambda>td s. s\<lparr>cl_td := td\<rparr>) (selectNetThreadInfo num) s = (Ok i, s\<lparr>cl_td := td\<rparr>)"
    using sel by (simp add: zoom_def)
  have "sp_invoke num now msg s = (if rm_eType m = SYNC_CALL then Fault else Ok False, ?s)"
    using m i full
    by (simp add: sp_invoke_def andthen_def z lq_push_back_empty_eq Let_def cl_notify_def)
  moreover have "td_reqQueue (cl_td ?s) = td_reqQueue td"
    using i by (simp add: cl_notify_def list_update_same_conv)
  ultimately show ?thesis by (rule that) (simp add: cl_notify_def)
qed

end
