(* ===== verification/Rpc_Servants.thy ===== *)
theory Rpc_Servants
  imports Servant_Handle Servant_Proxy
begin

text \<open>
  The interface classes and the servants built on them: what the servants of the node
  (\<^verbatim>\<open>src/servant/servant/Node.h\<close>, \<^verbatim>\<open>NodeF.h\<close>), of the administration (\<^verbatim>\<open>AdminF.h\<close>, \<^verbatim>\<open>AdminReg.h\<close>) and of
  the example (\<^verbatim>\<open>src/examples/HelloServer\<close>) do with the text of a request, and the texts their
  proxies send. With \<open>Object_Proxy\<close> a call goes through both sides.
\<close>

section \<open>The text of a request\<close>

text \<open>\<open>find(":")\<close>; without a colon it is \<open>npos\<close>, which \<open>substr(0, pos)\<close> takes for the whole text and
  \<open>pos + 1\<close> makes zero.\<close>

definition find_colon :: "bytes \<Rightarrow> nat option" where
  "find_colon s = (let k = length (takeWhile (\<lambda>c. c \<noteq> 58) s) in if k < length s then Some k else None)"

definition before_colon :: "bytes \<Rightarrow> bytes" where
  "before_colon s = (case find_colon s of Some pos \<Rightarrow> take pos s | None \<Rightarrow> s)"

definition after_colon :: "bytes \<Rightarrow> bytes" where
  "after_colon s = (case find_colon s of Some pos \<Rightarrow> drop (pos + 1) s | None \<Rightarrow> s)"

definition method_of :: "bytes \<Rightarrow> bytes" where
  "method_of request = before_colon (after_colon request)"

text \<open>\<open>equal_range\<close> on a sorted array of strings, with the order of \<open>std::string\<close>.\<close>

fun string_less :: "bytes \<Rightarrow> bytes \<Rightarrow> bool" where
  "string_less _ [] \<longleftrightarrow> False"
| "string_less [] (_ # _) \<longleftrightarrow> True"
| "string_less (c # cs) (d # ds) \<longleftrightarrow> c < d \<or> c = d \<and> string_less cs ds"

definition equal_range :: "bytes list \<Rightarrow> bytes \<Rightarrow> nat \<times> nat" where
  "equal_range xs v =
     (length (takeWhile (\<lambda>x. string_less x v) xs), length (takeWhile (\<lambda>x. \<not> string_less v x) xs))"

section \<open>Interface classes\<close>

text \<open>
  A method gets the text of the whole request and the buffer, and returns a code and the buffer,
  or throws. The methods of an interface are virtual, arguments here.
\<close>

type_synonym servant_method = "bytes \<Rightarrow> bytes \<Rightarrow> tars_exn + int \<times> bytes"

definition Hello_onDispatch :: "servant_method \<Rightarrow> servant_method \<Rightarrow> servant_method" where
  "Hello_onDispatch test testHello request buffer =
     (let r = equal_range [ascii ''test'', ascii ''testHello''] (method_of request)
      in if fst r = snd r then Inr (- 3, buffer)
         else if fst r = 0 then test request buffer
         else if fst r = 1 then testHello request buffer
         else Inr (0, buffer))"

definition Node_onDispatch :: "servant_method \<Rightarrow> servant_method" where
  "Node_onDispatch startServer request buffer =
     (let r = equal_range [ascii ''startServer'', ascii ''stopServer''] (method_of request)
      in if fst r = snd r then Inr (- 3, buffer)
         else if fst r = 0 then startServer request buffer
         else Inr (0, buffer))"

definition AdminReg_onDispatch :: "servant_method \<Rightarrow> servant_method" where
  "AdminReg_onDispatch startServer request buffer =
     (let r = equal_range [ascii ''startServer'', ascii ''stopServer''] (method_of request)
      in if fst r = snd r then Inr (- 3, buffer)
         else if fst r = 0 then startServer request buffer
         else Inr (0, buffer))"

definition ServerF_onDispatch :: "servant_method \<Rightarrow> servant_method" where
  "ServerF_onDispatch keep_alive request buffer =
     (let r = equal_range [ascii ''keepAlive'', ascii ''reportVersion''] (method_of request)
      in if fst r = snd r then Inr (- 3, buffer)
         else if fst r = 0 then keep_alive request buffer
         else if fst r = 1 then Inr (- 3, buffer)
         else Inr (0, buffer))"

text \<open>What \<open>notify\<close> returns is printed; \<open>shutdown\<close> changes the state of the application.\<close>

definition AdminF_onDispatch :: "(bytes \<Rightarrow> bytes) \<Rightarrow> ('s \<Rightarrow> 's) \<Rightarrow> bytes \<Rightarrow> bytes \<Rightarrow> 's \<Rightarrow> (int \<times> bytes) \<times> 's" where
  "AdminF_onDispatch notify shutdown request buffer s =
     (let r = equal_range [ascii ''notify'', ascii ''shutdown''] (method_of request)
      in if fst r = snd r then ((- 3, buffer), s)
         else if fst r = 0 then (let printed = notify request in ((0, buffer), s))
         else if fst r = 1 then ((0, buffer), shutdown s)
         else ((0, buffer), s))"

section \<open>Servants\<close>

definition HelloImp_test :: servant_method where
  "HelloImp_test sReq buffer =
     (let requestId = before_colon sReq; response = requestId @ ascii '':'' @ ascii ''test response''
      in Inr (0, response))"

definition HelloImp_testHello :: servant_method where
  "HelloImp_testHello sReq buffer =
     (let requestId = before_colon sReq; response = requestId @ ascii '':'' @ ascii ''testHello response''
      in Inr (0, response))"

definition HelloImp_doRequest :: servant_method where
  "HelloImp_doRequest request buffer =
     (let requestId = before_colon request;
          requestBody = after_colon request;
          response = (if requestBody = ascii ''hello'' then ascii ''hello response''
                      else ascii ''buddy, what are you doing'')
      in Inr (0, requestId @ ascii '':'' @ response))"

definition ServerImp_keepAlive :: servant_method where
  "ServerImp_keepAlive sReq buffer = Inr (- 1, ascii ''I have received'')"

text \<open>\<open>startServer\<close> of the node, with what \<open>doProcess\<close> of the command returns.\<close>

definition NodeImp_startServer :: "int \<Rightarrow> servant_method" where
  "NodeImp_startServer doProcess sReq buffer =
     (let requestId = before_colon sReq;
          iRet = doProcess;
          result = (if iRet = 0 then ascii ''server is activating'' else ascii ''have notify to startServer'')
      in Inr (iRet, requestId @ ascii '':'' @ result))"

text \<open>\<open>startServer\<close> of the registry asks the node, whose answer goes to a callback.\<close>

definition AdminRegistryImp_startServer :: "bytes \<Rightarrow> bytes \<Rightarrow> (int \<times> bytes) \<times> req_message list" where
  "AdminRegistryImp_startServer sReq buffer =
     (let requestId = before_colon sReq; response = ascii ''right now''
      in ((1, requestId @ ascii '':'' @ response), [sp_message ASYNC_CALL (ascii ''startServer'') response]))"

definition AdminServant_notify :: "bytes \<Rightarrow> bytes" where
  "AdminServant_notify command = ascii ''notify''"

definition AdminServant_shutdown :: "epoll_server \<Rightarrow> epoll_server" where
  "AdminServant_shutdown = es_terminate"

section \<open>Commands\<close>

datatype exe_status = EXECUTABLE | DIS_EXECUTABLE | NO_NEED_EXECUTE

definition ServerCommand_doProcess :: "exe_status \<Rightarrow> int \<Rightarrow> int" where
  "ServerCommand_doProcess canExecute execute =
     (if canExecute = DIS_EXECUTABLE then - 1
      else if canExecute = NO_NEED_EXECUTE then 0
      else execute)"

section \<open>Proxies\<close>

text \<open>The message of a call; the code returned is 1 whatever comes back.\<close>

definition HelloProxy_testHello :: "bytes \<Rightarrow> req_message" where
  "HelloProxy_testHello sReq = sp_message SYNC_CALL (ascii ''testHello'') sReq"

definition HelloProxy_async_testHello :: "bytes \<Rightarrow> req_message" where
  "HelloProxy_async_testHello sReq = sp_message ASYNC_CALL (ascii ''testHello'') sReq"

definition NodeProxy_startServer :: "bytes \<Rightarrow> req_message" where
  "NodeProxy_startServer sReq = sp_message SYNC_CALL (ascii ''startServer'') sReq"

definition NodeProxy_async_startServer :: "bytes \<Rightarrow> req_message" where
  "NodeProxy_async_startServer sReq = sp_message ASYNC_CALL (ascii ''startServer'') sReq"

definition AdminRegProxy_startServer :: "bytes \<Rightarrow> req_message" where
  "AdminRegProxy_startServer sReq = sp_message SYNC_CALL (ascii ''startServer'') sReq"

definition AdminRegProxy_async_startServer :: "bytes \<Rightarrow> req_message" where
  "AdminRegProxy_async_startServer sReq = sp_message ASYNC_CALL (ascii ''startServer'') sReq"

definition ServerFProxy_keepAlive :: "bytes \<Rightarrow> req_message" where
  "ServerFProxy_keepAlive sReq = sp_message SYNC_CALL (ascii ''keepAlive'') sReq"

record server_info =
  si_application :: bytes
  si_serverName :: bytes
  si_pid :: int
  si_adapter :: bytes

definition ServerInfo_init :: server_info where
  "ServerInfo_init = \<lparr>si_application = [], si_serverName = [], si_pid = 0, si_adapter = []\<rparr>"

definition ServerFProxy_async_keepAlive :: "server_info \<Rightarrow> req_message" where
  "ServerFProxy_async_keepAlive serverInfo =
     sp_message ASYNC_CALL (ascii ''keepAlive'')
       (si_application serverInfo @ ascii '':'' @ si_serverName serverInfo @ ascii '':'' @
        to_string (si_pid serverInfo) @ ascii '':'' @ si_adapter serverInfo)"

section \<open>Dispatch\<close>

lemma find_colon_at: "58 \<notin> set a \<Longrightarrow> find_colon (a @ 58 # s) = Some (length a)"
proof -
  assume "58 \<notin> set a"
  then have "takeWhile (\<lambda>c. c \<noteq> 58) (a @ 58 # s) = a"
    by (subst takeWhile_append2) auto
  then show ?thesis by (simp add: find_colon_def)
qed

lemma colon_at:
  assumes "58 \<notin> set a"
  shows "before_colon (a @ 58 # s) = a" and "after_colon (a @ 58 # s) = s"
  using find_colon_at [OF assms, of s] by (simp_all add: before_colon_def after_colon_def)

lemma before_colon_eq: "before_colon s = takeWhile (\<lambda>c. c \<noteq> 58) s"
proof (cases "length (takeWhile (\<lambda>c. c \<noteq> 58) s) < length s")
  case True
  then show ?thesis by (simp add: before_colon_def find_colon_def takeWhile_eq_take [symmetric])
next
  case False
  then have "takeWhile (\<lambda>c. c \<noteq> 58) s = s"
    by (metis length_takeWhile_le linorder_not_less order_antisym take_all takeWhile_eq_take)
  then show ?thesis using False by (simp add: before_colon_def find_colon_def del: takeWhile_eq_all_conv)
qed

lemma method_of_request:
  "58 \<notin> set i \<Longrightarrow> 58 \<notin> set f \<Longrightarrow> method_of (i @ 58 # f @ 58 # body) = f"
  by (simp add: method_of_def colon_at)

lemma string_less_irrefl: "\<not> string_less s s"
  by (induction s) simp_all

lemma string_less_asym: "string_less s t \<Longrightarrow> \<not> string_less t s"
  by (induction s t rule: string_less.induct) auto

lemma string_less_total: "s = t \<or> string_less s t \<or> string_less t s"
  by (induction s t rule: string_less.induct) (auto, (metis list.exhaust string_less.simps(2))?)

lemma string_less_trans: "string_less s t \<Longrightarrow> string_less t u \<Longrightarrow> string_less s u"
proof (induction s t arbitrary: u rule: string_less.induct)
  case (2 d ds)
  then show ?case by (cases u) simp_all
next
  case (3 c cs d ds)
  then show ?case by (cases u) auto
qed simp

text \<open>On a sorted pair of names the range is empty unless the value is one of them.\<close>

lemma equal_range_two:
  assumes "string_less a b"
  shows "equal_range [a, b] a = (0, 1)" and "equal_range [a, b] b = (1, 2)"
    and "v \<noteq> a \<Longrightarrow> v \<noteq> b \<Longrightarrow> fst (equal_range [a, b] v) = snd (equal_range [a, b] v)"
proof -
  show "equal_range [a, b] a = (0, 1)" "equal_range [a, b] b = (1, 2)"
    using assms string_less_irrefl string_less_asym [OF assms] by (simp_all add: equal_range_def)
  assume v: "v \<noteq> a" "v \<noteq> b"
  have "string_less a v \<longleftrightarrow> \<not> string_less v a" "string_less b v \<longleftrightarrow> \<not> string_less v b"
    using v string_less_total string_less_asym by blast+
  then show "fst (equal_range [a, b] v) = snd (equal_range [a, b] v)" by (simp add: equal_range_def)
qed

text \<open>The names of each class are sorted, so the search finds exactly them.\<close>

lemma names_sorted:
  "string_less (ascii ''test'') (ascii ''testHello'')"
  "string_less (ascii ''startServer'') (ascii ''stopServer'')"
  "string_less (ascii ''keepAlive'') (ascii ''reportVersion'')"
  "string_less (ascii ''notify'') (ascii ''shutdown'')"
  by (simp_all add: ascii_def word_less_nat_alt)

lemma Hello_onDispatch_spec:
  "Hello_onDispatch test testHello request buffer =
     (if method_of request = ascii ''test'' then test request buffer
      else if method_of request = ascii ''testHello'' then testHello request buffer
      else Inr (- 3, buffer))"
  using equal_range_two(1,2) [OF names_sorted(1)] equal_range_two(3) [OF names_sorted(1), of "method_of request"]
    names_sorted(1) string_less_irrefl
  by (auto simp: Hello_onDispatch_def)

lemma Node_onDispatch_spec:
  "Node_onDispatch startServer request buffer =
     (if method_of request = ascii ''startServer'' then startServer request buffer
      else if method_of request = ascii ''stopServer'' then Inr (0, buffer)
      else Inr (- 3, buffer))"
  using equal_range_two(1,2) [OF names_sorted(2)] equal_range_two(3) [OF names_sorted(2), of "method_of request"]
    names_sorted(2) string_less_irrefl
  by (auto simp: Node_onDispatch_def)

lemma AdminReg_onDispatch_spec: "AdminReg_onDispatch = Node_onDispatch"
  by (intro ext) (simp add: AdminReg_onDispatch_def Node_onDispatch_def)

lemma ServerF_onDispatch_spec:
  "ServerF_onDispatch keep_alive request buffer =
     (if method_of request = ascii ''keepAlive'' then keep_alive request buffer else Inr (- 3, buffer))"
  using equal_range_two(1,2) [OF names_sorted(3)] equal_range_two(3) [OF names_sorted(3), of "method_of request"]
    names_sorted(3) string_less_irrefl
  by (cases "method_of request = ascii ''reportVersion''") (auto simp: ServerF_onDispatch_def)

lemma AdminF_onDispatch_spec:
  "AdminF_onDispatch notify shutdown request buffer s =
     (if method_of request = ascii ''notify'' then ((0, buffer), s)
      else if method_of request = ascii ''shutdown'' then ((0, buffer), shutdown s)
      else ((- 3, buffer), s))"
  using equal_range_two(1,2) [OF names_sorted(4)] equal_range_two(3) [OF names_sorted(4), of "method_of request"]
    names_sorted(4) string_less_irrefl
  by (auto simp: AdminF_onDispatch_def)

section \<open>A call and its answer\<close>

text \<open>What the network thread sends for a message under an id, and the method names.\<close>

definition request_text :: "32 word \<Rightarrow> req_message \<Rightarrow> bytes" where
  "request_text i m = response_to i (rm_request m)"

lemma no_colon:
  "58 \<notin> set (ascii ''test'')" "58 \<notin> set (ascii ''testHello'')" "58 \<notin> set (ascii ''startServer'')"
  "58 \<notin> set (ascii ''keepAlive'')" "58 \<notin> set (ascii ''notify'')" "58 \<notin> set (ascii ''shutdown'')"
  by (simp_all add: ascii_def word_unat_eq_iff)

lemma colon: "ascii '':'' = [58]"
  by (simp add: ascii_def word_unat_eq_iff)

lemma request_parts:
  assumes "58 \<notin> set f"
  shows "method_of (request_text i (sp_message ct f body)) = f"
    and "before_colon (request_text i (sp_message ct f body)) = to_string (sint i)"
  using method_of_request [OF to_string_no_colon [of "sint i"] assms, of body] colon_at(1) [OF to_string_no_colon [of "sint i"]]
  by (simp_all add: request_text_def response_to_def sp_message_def ReqMessage_init_def)

lemma hello_answers:
  "Hello_onDispatch HelloImp_test HelloImp_testHello (request_text i (HelloProxy_testHello sReq)) buffer =
     Inr (0, response_to i (ascii ''testHello response''))"
  "Hello_onDispatch HelloImp_test HelloImp_testHello (request_text i (HelloProxy_async_testHello sReq)) buffer =
     Inr (0, response_to i (ascii ''testHello response''))"
  using names_sorted(1) string_less_irrefl
  by (auto simp: Hello_onDispatch_spec HelloProxy_testHello_def HelloProxy_async_testHello_def request_parts no_colon
      HelloImp_testHello_def response_to_def colon)

lemma node_answers:
  "Node_onDispatch (NodeImp_startServer c) (request_text i (NodeProxy_startServer sReq)) buffer =
     Inr (c, response_to i (if c = 0 then ascii ''server is activating'' else ascii ''have notify to startServer''))"
  by (simp add: Node_onDispatch_spec NodeProxy_startServer_def request_parts no_colon NodeImp_startServer_def
      response_to_def colon)

lemma heartbeat_answers:
  "ServerF_onDispatch ServerImp_keepAlive (request_text i (ServerFProxy_keepAlive sReq)) buffer =
     Inr (- 1, ascii ''I have received'')"
  "ServerF_onDispatch ServerImp_keepAlive (request_text i (ServerFProxy_async_keepAlive si)) buffer =
     Inr (- 1, ascii ''I have received'')"
  by (simp_all add: ServerF_onDispatch_spec ServerFProxy_keepAlive_def ServerFProxy_async_keepAlive_def request_parts
      no_colon ServerImp_keepAlive_def)

text \<open>
  An answer that does not begin with a number counts as one for the id 0, which no call has.
\<close>

lemma answer_without_id:
  assumes "toq_inv (op_tq s)" and "toq_view (op_tq s) 0 = None" and "number_value (before_colon rsp) = 0"
  shows "finishInvoke_rsp rsp s = (Ok (), s)"
  using assms by (simp add: finishInvoke_rsp_def before_colon_eq [symmetric] atoi_def toq_erase_spec)

lemma received_is_no_number: "number_value (before_colon (ascii ''I have received'')) = 0" "number_value (before_colon []) = 0"
  by (simp_all add: ascii_def before_colon_eq number_value_def is_space_def is_digit_def dec_value_def Let_def
      word_le_nat_alt word_unat_eq_iff)

end
