(* ===== verification/Node_Commands.thy ===== *)
theory Node_Commands
  imports Rpc_Servants
begin

text \<open>
  How the node starts a server: \<^verbatim>\<open>src/framework/NodeServer\<close> with \<^verbatim>\<open>ServerObject.h\<close>, \<^verbatim>\<open>ServerCommand.h\<close>,
  \<^verbatim>\<open>CommandStart.h\<close> and \<^verbatim>\<open>NodeImp.cpp\<close>. What the kernel answers to \<open>pipe\<close>, \<open>fork\<close>, \<open>fdopen\<close>, \<open>fcntl\<close>,
  \<open>fclose\<close> and \<open>waitpid\<close> is an argument; the child process is another program.
\<close>

section \<open>Objects\<close>

record server_object =
  so_desc :: bytes
  so_exeFile :: bytes
  so_startScript :: bytes

definition ServerObject_new :: "bytes \<Rightarrow> server_object" where
  "ServerObject_new tDesc = \<lparr>so_desc = tDesc, so_exeFile = [], so_startScript = []\<rparr>"

definition setScript :: "bytes \<Rightarrow> server_object \<Rightarrow> server_object" where
  "setScript sStartScript so = so\<lparr>so_startScript := sStartScript\<rparr>"

record command_start =
  co_byNode :: bool
  co_exeFile :: bytes
  co_serverObject :: server_object
  co_desc :: bytes

definition CommandStart_new :: "server_object \<Rightarrow> bool \<Rightarrow> command_start" where
  "CommandStart_new pServerObjectPtr bByNode =
     \<lparr>co_byNode = bByNode, co_exeFile = so_exeFile pServerObjectPtr, co_serverObject = pServerObjectPtr,
      co_desc = so_desc pServerObjectPtr\<rparr>"

definition CommandStart_canExecute :: "command_start \<Rightarrow> exe_status" where
  "CommandStart_canExecute c = EXECUTABLE"

section \<open>Pipes to a script\<close>

text \<open>
  \<open>childpid\<close> (\<open>None\<close> is the null pointer), the descriptors the process has open, the commands
  started and the children waited for. A stream is its descriptor.
\<close>

record process =
  pr_childpid :: "int list option"
  pr_open :: "nat set"
  pr_started :: "bytes list"
  pr_waited :: "int list"

record pipe_answers =
  pa_maxfd :: nat
  pa_pipe :: "(nat \<times> nat) option"
  pa_fork :: int
  pa_fdopen :: bool

text \<open>\<open>r\<close> and \<open>w\<close> are 114 and 119; a child that was forked runs the command.\<close>

definition popen2 :: "pipe_answers \<Rightarrow> bytes \<Rightarrow> bytes \<Rightarrow> (process, nat option) act" where
  "popen2 k cmdstring type s =
     (if type \<noteq> [114] \<and> type \<noteq> [119] then (Ok None, s)
      else
        let s1 = (if pr_childpid s = None then s\<lparr>pr_childpid := Some (replicate (pa_maxfd k) 0)\<rparr> else s) in
        case pa_pipe k of None \<Rightarrow> (Ok None, s1)
        | Some (pfd0, pfd1) \<Rightarrow>
            let s2 = s1\<lparr>pr_open := insert pfd0 (insert pfd1 (pr_open s1))\<rparr> in
            if pa_fork k < 0 then (Ok None, s2)
            else
              let s3 = s2\<lparr>pr_started := pr_started s2 @ [cmdstring]\<rparr>;
                  fp = (if type = [114] then pfd0 else pfd1);
                  other = (if type = [114] then pfd1 else pfd0);
                  s4 = s3\<lparr>pr_open := pr_open s3 - {other}\<rparr> in
              if \<not> pa_fdopen k then (Ok None, s4)
              else case pr_childpid s4 of None \<Rightarrow> (Fault, s4)
                | Some pids \<Rightarrow>
                    if fp < length pids then (Ok (Some fp), s4\<lparr>pr_childpid := Some (pids[fp := pa_fork k])\<rparr>)
                    else (Fault, s4))"

text \<open>\<open>waitpid\<close>: the status, or an error and whether it is \<open>EINTR\<close>; \<open>None\<close> while it waits.\<close>

fun wait_loop :: "(int + bool) list \<Rightarrow> int option" where
  "wait_loop [] = None"
| "wait_loop (Inl stat # as) = Some stat"
| "wait_loop (Inr eintr # as) = (if eintr then wait_loop as else Some (- 1))"

definition pclose2 :: "bool \<Rightarrow> (int + bool) list \<Rightarrow> nat \<Rightarrow> (process, int option) act" where
  "pclose2 fclose waits fp s =
     (case pr_childpid s of None \<Rightarrow> (Ok (Some (- 1)), s)
      | Some pids \<Rightarrow>
          if \<not> fp < length pids then (Fault, s)
          else if pids ! fp = 0 then (Ok (Some (- 1)), s)
          else
            let s1 = s\<lparr>pr_childpid := Some (pids[fp := 0]), pr_open := pr_open s - {fp}\<rparr> in
            if \<not> fclose then (Ok (Some (- 1)), s1)
            else (Ok (wait_loop waits), s1\<lparr>pr_waited := pr_waited s1 @ [pids ! fp]\<rparr>))"

text \<open>
  \<open>startByScript\<close>: \<open>fileno\<close> of a null stream is undefined; the result is \<open>None\<close> while \<open>pclose2\<close>
  waits. \<open>getfl\<close> and \<open>setfl\<close> tell whether \<open>fcntl\<close> succeeds.
\<close>

definition startByScript ::
  "pipe_answers \<Rightarrow> bool \<Rightarrow> bool \<Rightarrow> bool \<Rightarrow> (int + bool) list \<Rightarrow> command_start \<Rightarrow> (process, bool option) act" where
  "startByScript k getfl setfl fclose waits c =
     (let sCmd = so_startScript (co_serverObject c) @ ascii '' &'' in
      andthen (popen2 k sCmd (ascii ''r'')) (\<lambda>fp.
        case fp of None \<Rightarrow> fault
        | Some fd \<Rightarrow>
            if \<not> getfl then andthen (pclose2 fclose waits fd) (\<lambda>r. ret (map_option (\<lambda>_. False) r))
            else if \<not> setfl then andthen (pclose2 fclose waits fd) (\<lambda>r. ret (map_option (\<lambda>_. False) r))
            else andthen (pclose2 fclose waits fd) (\<lambda>r. ret (map_option (\<lambda>_. True) r))))"

definition CommandStart_execute ::
  "pipe_answers \<Rightarrow> bool \<Rightarrow> bool \<Rightarrow> bool \<Rightarrow> (int + bool) list \<Rightarrow> command_start \<Rightarrow> (process, int option) act" where
  "CommandStart_execute k getfl setfl fclose waits c =
     andthen (startByScript k getfl setfl fclose waits c) (\<lambda>r. ret (map_option (\<lambda>_. 0) r))"

section \<open>The request to start a server\<close>

text \<open>\<open>startServer\<close> of the node with its command: its answer, or none while the script's shell runs.\<close>

definition node_startServer ::
  "pipe_answers \<Rightarrow> bool \<Rightarrow> bool \<Rightarrow> bool \<Rightarrow> (int + bool) list \<Rightarrow> bytes \<Rightarrow> (process, (int \<times> bytes) option) act" where
  "node_startServer k getfl setfl fclose waits sReq =
     (let so = setScript (ascii ''./NodeServer-start.sh'') (ServerObject_new sReq);
          command = CommandStart_new so True in
      andthen (CommandStart_execute k getfl setfl fclose waits command) (\<lambda>r.
        ret (map_option (\<lambda>iRet.
          case NodeImp_startServer (ServerCommand_doProcess (CommandStart_canExecute command) iRet) sReq [] of
            Inr a \<Rightarrow> a | Inl _ \<Rightarrow> (0, [])) r)))"

section \<open>What is left behind\<close>

definition process_ok :: "pipe_answers \<Rightarrow> process \<Rightarrow> bool" where
  "process_ok k s \<longleftrightarrow> (\<forall>pids. pr_childpid s = Some pids \<longrightarrow> length pids = pa_maxfd k)"

text \<open>The kernel gives new descriptors below the limit.\<close>

definition pipe_granted :: "pipe_answers \<Rightarrow> process \<Rightarrow> nat \<Rightarrow> nat \<Rightarrow> bool" where
  "pipe_granted k s pfd0 pfd1 \<longleftrightarrow> pa_pipe k = Some (pfd0, pfd1) \<and> pfd0 \<noteq> pfd1 \<and> pfd0 \<notin> pr_open s \<and> pfd1 \<notin> pr_open s \<and>
     pfd0 < pa_maxfd k"

definition childpids :: "pipe_answers \<Rightarrow> process \<Rightarrow> int list" where
  "childpids k s = (case pr_childpid s of None \<Rightarrow> replicate (pa_maxfd k) 0 | Some pids \<Rightarrow> pids)"

lemma popen2_read:
  assumes "process_ok k s" and "pipe_granted k s pfd0 pfd1" and "0 < pa_fork k" and "pa_fdopen k"
  shows "popen2 k cmd (ascii ''r'') s =
    (Ok (Some pfd0), s\<lparr>pr_childpid := Some ((childpids k s)[pfd0 := pa_fork k]), pr_open := insert pfd0 (pr_open s),
       pr_started := pr_started s @ [cmd]\<rparr>)"
proof -
  have "insert pfd0 (insert pfd1 (pr_open s)) - {pfd1} = insert pfd0 (pr_open s)"
    using assms(2) by (auto simp: pipe_granted_def)
  moreover have "pfd0 < length (childpids k s)"
    using assms(1,2) by (auto simp: process_ok_def pipe_granted_def childpids_def split: option.split)
  ultimately show ?thesis
    using assms by (cases "pr_childpid s")
      (auto simp: popen2_def ascii_def pipe_granted_def childpids_def Let_def)
qed

lemma startByScript_spec:
  assumes "process_ok k s" and "pipe_granted k s pfd0 pfd1" and "0 < pa_fork k" and "pa_fdopen k"
  shows "startByScript k getfl setfl fclose waits c s =
    (Ok (if fclose then map_option (\<lambda>_. getfl \<and> setfl) (wait_loop waits) else Some (getfl \<and> setfl)),
     s\<lparr>pr_childpid := Some ((childpids k s)[pfd0 := 0]),
       pr_started := pr_started s @ [so_startScript (co_serverObject c) @ ascii '' &''],
       pr_waited := (if fclose then pr_waited s @ [pa_fork k] else pr_waited s)\<rparr>)"
proof -
  have "pfd0 < length (childpids k s)"
    using assms(1,2) by (auto simp: process_ok_def pipe_granted_def childpids_def split: option.split)
  moreover have "insert pfd0 (pr_open s) - {pfd0} = pr_open s" using assms(2) by (auto simp: pipe_granted_def)
  ultimately show ?thesis
    using popen2_read [OF assms, of "so_startScript (co_serverObject c) @ ascii '' &''"] assms(3)
    by (simp add: startByScript_def andthen_def pclose2_def ret_def Let_def)
qed

text \<open>Whatever the script does, the caller is told that the server is being activated.\<close>

lemma node_startServer_spec:
  assumes "process_ok k s" and "pipe_granted k s pfd0 pfd1" and "0 < pa_fork k" and "pa_fdopen k"
  shows "\<exists>s'. node_startServer k getfl setfl True (Inl stat # waits) sReq s =
      (Ok (Some (0, before_colon sReq @ [58] @ ascii ''server is activating'')), s') \<and>
    pr_open s' = pr_open s \<and> pr_started s' = pr_started s @ [ascii ''./NodeServer-start.sh &''] \<and>
    pr_waited s' = pr_waited s @ [pa_fork k]"
  using startByScript_spec [OF assms, of getfl setfl True "Inl stat # waits"]
  by (simp add: node_startServer_def CommandStart_execute_def andthen_def ret_def Let_def NodeImp_startServer_def
      ServerCommand_doProcess_def CommandStart_canExecute_def CommandStart_new_def setScript_def colon)
    (simp add: ascii_def)

lemma failed_fork_leaks:
  assumes "process_ok k s" and "pa_pipe k = Some (pfd0, pfd1)" and "pa_fork k < 0"
  shows "\<exists>s'. startByScript k getfl setfl fclose waits c s = (Fault, s') \<and> pfd0 \<in> pr_open s' \<and> pfd1 \<in> pr_open s'"
  using assms by (simp add: startByScript_def popen2_def ascii_def andthen_def fault_def Let_def)

end
