(* ===== verification/Proxy_Factory.thy ===== *)
theory Proxy_Factory
  imports Rpc_Servants
begin

text \<open>
  Where proxies come from: \<^verbatim>\<open>ObjectProxyFactory.cpp\<close>, \<^verbatim>\<open>Communicator.cpp\<close> and the node's proxy in
  \<^verbatim>\<open>TarsNodeF.cpp\<close>. Every network thread has a factory with one object proxy for an address; an
  object proxy is its number in the factory that made it, a servant proxy its number in the
  communicator. Calls of one thread; the code takes no lock here.
\<close>

section \<open>Object proxies of a network thread\<close>

record made_proxy =
  mp_host :: bytes
  mp_port :: "16 word"
  mp_servantProxy :: "nat option"

record proxy_factory =
  of_objectProxys :: "(bytes \<times> nat) list"
  of_vObjectProxys :: "nat list"
  of_objNum :: nat
  of_made :: "made_proxy list"

definition ObjectProxyFactory_init :: proxy_factory where
  "ObjectProxyFactory_init = \<lparr>of_objectProxys = [], of_vObjectProxys = [], of_objNum = 0, of_made = []\<rparr>"

definition tmpObjName :: "bytes \<Rightarrow> 16 word \<Rightarrow> bytes" where
  "tmpObjName ip port = ip @ ascii '':'' @ to_string (uint port)"

definition getObjectProxy :: "bytes \<Rightarrow> 16 word \<Rightarrow> (proxy_factory, nat) act" where
  "getObjectProxy ip port f =
     (case map_of (of_objectProxys f) (tmpObjName ip port) of
        Some p \<Rightarrow> (Ok p, f)
      | None \<Rightarrow>
          let p = length (of_made f) in
          (Ok p, f\<lparr>of_made := of_made f @ [\<lparr>mp_host = ip, mp_port = port, mp_servantProxy = None\<rparr>],
             of_objectProxys := map_set (tmpObjName ip port) p (of_objectProxys f),
             of_vObjectProxys := of_vObjectProxys f @ [p], of_objNum := of_objNum f + 1\<rparr>))"

definition getObjectProxy_at :: "nat \<Rightarrow> (proxy_factory, nat) act" where
  "getObjectProxy_at iNum f =
     (if \<not> iNum < of_objNum f then (Abort, f)
      else if iNum < length (of_vObjectProxys f) then (Ok (of_vObjectProxys f ! iNum), f) else (Fault, f))"

definition setServantProxy :: "nat \<Rightarrow> nat \<Rightarrow> proxy_factory \<Rightarrow> proxy_factory" where
  "setServantProxy sp p f = f\<lparr>of_made := (of_made f)[p := (of_made f ! p)\<lparr>mp_servantProxy := Some sp\<rparr>]\<rparr>"

section \<open>Communicator\<close>

text \<open>A network thread: its factory, whether it was told to end, and whether it was joined.\<close>

record comm_thread =
  ct_factory :: proxy_factory
  ct_terminate :: bool
  ct_joined :: bool

record communicator =
  cm_initialized :: bool
  cm_terminating :: bool
  cm_communicatorEpoll :: "comm_thread option list"
  cm_clientThreadNum :: nat
  cm_servantProxys :: nat

definition CommunicatorEpoll_new :: comm_thread where
  "CommunicatorEpoll_new = \<lparr>ct_factory = ObjectProxyFactory_init, ct_terminate = False, ct_joined = False\<rparr>"

definition Communicator_init :: communicator where
  "Communicator_init = \<lparr>cm_initialized = False, cm_terminating = False, cm_communicatorEpoll = replicate 64 None,
     cm_clientThreadNum = 1, cm_servantProxys = 0\<rparr>"

primrec start_epolls :: "nat \<Rightarrow> comm_thread option list \<Rightarrow> comm_thread option list" where
  "start_epolls 0 ts = ts"
| "start_epolls (Suc i) ts = (start_epolls i ts)[i := Some CommunicatorEpoll_new]"

definition Communicator_initialize :: "communicator \<Rightarrow> communicator" where
  "Communicator_initialize c =
     (if cm_initialized c then c
      else c\<lparr>cm_initialized := True, cm_clientThreadNum := 3,
             cm_communicatorEpoll := start_epolls 3 (cm_communicatorEpoll c)\<rparr>)"

definition getCommunicatorEpoll :: "nat \<Rightarrow> (communicator, comm_thread) act" where
  "getCommunicatorEpoll iNum c =
     (if \<not> iNum < cm_clientThreadNum c then (Abort, c)
      else case cm_communicatorEpoll c ! iNum of None \<Rightarrow> (Fault, c) | Some t \<Rightarrow> (Ok t, c))"

text \<open>The loop of \<open>terminate\<close> up to a thread; joining a thread twice is undefined.\<close>

primrec join_epolls :: "nat \<Rightarrow> (communicator, unit) act" where
  "join_epolls 0 = ret ()"
| "join_epolls (Suc i) =
     andthen (join_epolls i) (\<lambda>_ c.
       case cm_communicatorEpoll c ! i of
         None \<Rightarrow> (Fault, c)
       | Some t \<Rightarrow>
           if ct_joined t then (Fault, c)
           else (Ok (), c\<lparr>cm_communicatorEpoll := (cm_communicatorEpoll c)[i := Some (t\<lparr>ct_terminate := True, ct_joined := True\<rparr>)]\<rparr>))"

definition Communicator_terminate :: "(communicator, unit) act" where
  "Communicator_terminate c =
     (let c1 = c\<lparr>cm_terminating := True\<rparr>
      in if cm_initialized c1 then join_epolls (cm_clientThreadNum c1) c1 else (Ok (), c1))"

text \<open>\<open>getObjectProxy\<close> of one network thread, and the loop that asks all of them.\<close>

definition epoll_getObjectProxy :: "nat \<Rightarrow> bytes \<Rightarrow> 16 word \<Rightarrow> (communicator, nat) act" where
  "epoll_getObjectProxy i ip port =
     andthen (getCommunicatorEpoll i) (\<lambda>t c.
       case getObjectProxy ip port (ct_factory t) of
         (r, f) \<Rightarrow> (r, c\<lparr>cm_communicatorEpoll := (cm_communicatorEpoll c)[i := Some (t\<lparr>ct_factory := f\<rparr>)]\<rparr>))"

primrec object_proxies :: "nat \<Rightarrow> bytes \<Rightarrow> 16 word \<Rightarrow> (communicator, nat list) act" where
  "object_proxies 0 ip port = ret []"
| "object_proxies (Suc i) ip port =
     andthen (object_proxies i ip port) (\<lambda>ps. andthen (epoll_getObjectProxy i ip port) (\<lambda>p. ret (ps @ [p])))"

text \<open>The constructor of \<open>ServantProxy\<close> makes itself known to its object proxies.\<close>

primrec set_servant :: "nat \<Rightarrow> nat \<Rightarrow> nat list \<Rightarrow> (communicator, unit) act" where
  "set_servant i sp [] = ret ()"
| "set_servant i sp (p # ps) =
     andthen (\<lambda>c. case cm_communicatorEpoll c ! i of
        None \<Rightarrow> (Fault, c)
      | Some t \<Rightarrow> (Ok (), c\<lparr>cm_communicatorEpoll :=
           (cm_communicatorEpoll c)[i := Some (t\<lparr>ct_factory := setServantProxy sp p (ct_factory t)\<rparr>)]\<rparr>))
     (\<lambda>_. set_servant (Suc i) sp ps)"

text \<open>A servant proxy with the object proxies it uses, one of each network thread.\<close>

definition getServantProxy :: "bytes \<Rightarrow> 16 word \<Rightarrow> (communicator, nat \<times> nat list) act" where
  "getServantProxy ip port c =
     (let c1 = Communicator_initialize c in
      andthen (object_proxies (cm_clientThreadNum c1) ip port) (\<lambda>pp c2.
        let sp = cm_servantProxys c2 in
        andthen (set_servant 0 sp pp) (\<lambda>_. ret (sp, pp)) (c2\<lparr>cm_servantProxys := sp + 1\<rparr>)) c1)"

text \<open>\<open>setNodeInfo\<close>: the address of the node is \<open>host:port\<close>.\<close>

definition setNodeInfo ::
  "bytes \<Rightarrow> bytes \<Rightarrow> bytes \<Rightarrow> int \<Rightarrow> ((communicator \<times> node_helper) \<times> server_info, unit) act" where
  "setNodeInfo obj app server pid = (\<lambda>((c, h), si).
     let si' = si\<lparr>si_application := app, si_serverName := server, si_pid := pid\<rparr> in
     if obj \<noteq> [] then
       case atoi (after_colon obj) of None \<Rightarrow> (Fault, ((c, h), si))
       | Some n \<Rightarrow>
           (case getServantProxy (before_colon obj) (word_of_int n) c of
              (Ok sp, c') \<Rightarrow> (Ok (), ((c', h\<lparr>nh_nodePrx := True\<rparr>), si'))
            | (Throw e, c') \<Rightarrow> (Throw e, ((c', h), si))
            | (Abort, c') \<Rightarrow> (Abort, ((c', h), si))
            | (Fault, c') \<Rightarrow> (Fault, ((c', h), si))
            | (OutOfFuel, c') \<Rightarrow> (OutOfFuel, ((c', h), si)))
     else (Ok (), ((c, h), si')))"

section \<open>Names are addresses\<close>

lemma last_colon:
  fixes a b s t :: bytes
  assumes "a @ 58 # s = b @ 58 # t" and "58 \<notin> set s" and "58 \<notin> set t"
  shows "a = b \<and> s = t"
proof -
  have "takeWhile (\<lambda>c. c \<noteq> 58) (rev s @ 58 # rev a) = rev s" if "58 \<notin> set s" for a s :: bytes
    using that takeWhile_append2 [of "rev s" "\<lambda>c. c \<noteq> 58" "58 # rev a"] by fastforce
  moreover have "rev s @ 58 # rev a = rev t @ 58 # rev b" using arg_cong [OF assms(1), of rev] by simp
  ultimately have "rev s = rev t" using assms(2,3) by metis
  then show ?thesis using assms(1) by simp
qed

lemma to_string_eq: "to_string i = to_string j \<longleftrightarrow> i = j"
  using number_value_to_string by metis

lemma tmpObjName_eq: "tmpObjName ip port = tmpObjName ip' port' \<longleftrightarrow> ip = ip' \<and> port = port'"
proof
  assume "tmpObjName ip port = tmpObjName ip' port'"
  then have "ip @ 58 # to_string (uint port) = ip' @ 58 # to_string (uint port')" by (simp add: tmpObjName_def colon)
  from last_colon [OF this to_string_no_colon to_string_no_colon]
  show "ip = ip' \<and> port = port'" by (simp add: to_string_eq word_uint_eq_iff)
qed simp

section \<open>One proxy for an address\<close>

abbreviation address_of :: "made_proxy \<Rightarrow> bytes \<times> 16 word" where
  "address_of m \<equiv> (mp_host m, mp_port m)"

definition addresses :: "proxy_factory \<Rightarrow> (bytes \<times> 16 word) list" where
  "addresses f = map address_of (of_made f)"

definition factory_inv :: "proxy_factory \<Rightarrow> bool" where
  "factory_inv f \<longleftrightarrow> ascending (of_objectProxys f) \<and>
     (\<forall>ip port p. map_of (of_objectProxys f) (tmpObjName ip port) = Some p \<longleftrightarrow>
        p < length (addresses f) \<and> addresses f ! p = (ip, port)) \<and>
     of_vObjectProxys f = [0..<length (addresses f)] \<and> of_objNum f = length (addresses f)"

lemma factory_inv_init: "factory_inv ObjectProxyFactory_init" "addresses ObjectProxyFactory_init = []"
  by (simp_all add: factory_inv_def addresses_def ObjectProxyFactory_init_def)

lemma factory_invD:
  assumes "factory_inv f"
  shows "ascending (of_objectProxys f)"
    and "map_of (of_objectProxys f) (tmpObjName ip port) = Some p \<longleftrightarrow> p < length (addresses f) \<and> addresses f ! p = (ip, port)"
    and "of_vObjectProxys f = [0..<length (addresses f)]" and "of_objNum f = length (addresses f)"
  using assms by (simp_all add: factory_inv_def)

lemma getObjectProxy_known:
  "factory_inv f \<Longrightarrow> p < length (addresses f) \<Longrightarrow> addresses f ! p = (ip, port) \<Longrightarrow> getObjectProxy ip port f = (Ok p, f)"
  using factory_invD(2) [of f ip port p] by (simp add: getObjectProxy_def)

lemma getObjectProxy_new:
  assumes inv: "factory_inv f" and new: "(ip, port) \<notin> set (addresses f)"
  obtains f' where "getObjectProxy ip port f = (Ok (length (addresses f)), f')" and "factory_inv f'"
    and "addresses f' = addresses f @ [(ip, port)]"
proof -
  let ?p = "length (addresses f)"
  have "map_of (of_objectProxys f) (tmpObjName ip port) = None"
  proof (cases "map_of (of_objectProxys f) (tmpObjName ip port)")
    case (Some p)
    then show ?thesis using factory_invD(2) [OF inv, of ip port p] new nth_mem [of p "addresses f"] by simp
  qed simp
  moreover define f' where "f' = snd (getObjectProxy ip port f)"
  ultimately have f': "getObjectProxy ip port f = (Ok ?p, f')"
    "of_objectProxys f' = map_set (tmpObjName ip port) ?p (of_objectProxys f)"
    "addresses f' = addresses f @ [(ip, port)]" "of_vObjectProxys f' = of_vObjectProxys f @ [?p]"
    "of_objNum f' = of_objNum f + 1"
    by (simp_all add: getObjectProxy_def addresses_def Let_def)
  have "map_of (of_objectProxys f') (tmpObjName ip' port') = Some p \<longleftrightarrow>
      p < length (addresses f') \<and> addresses f' ! p = (ip', port')" for ip' port' p
  proof (cases "ip' = ip \<and> port' = port")
    case True
    have "p < ?p \<Longrightarrow> addresses f ! p \<noteq> (ip, port)" using new nth_mem [of p "addresses f"] by metis
    then show ?thesis using True by (auto simp: f' map_of_map_set [OF factory_invD(1) [OF inv]] nth_append)
  next
    case False
    then have "map_of (of_objectProxys f') (tmpObjName ip' port') = map_of (of_objectProxys f) (tmpObjName ip' port')"
      by (auto simp: f' map_of_map_set [OF factory_invD(1) [OF inv]] tmpObjName_eq)
    then show ?thesis using False factory_invD(2) [OF inv, of ip' port' p] by (auto simp: f' nth_append)
  qed
  then have "factory_inv f'"
    using map_set_ascending [OF factory_invD(1) [OF inv]] factory_invD(3,4) [OF inv]
    by (simp add: factory_inv_def f'(2,4,5)) (simp add: f'(3))
  then show ?thesis by (rule that [OF f'(1) _ f'(3)])
qed

lemma getObjectProxy_spec:
  assumes "factory_inv f"
  obtains p f' where "getObjectProxy ip port f = (Ok p, f')" and "factory_inv f'" and "p < length (addresses f')"
    and "addresses f' ! p = (ip, port)"
    and "addresses f' = (if (ip, port) \<in> set (addresses f) then addresses f else addresses f @ [(ip, port)])"
proof (cases "(ip, port) \<in> set (addresses f)")
  case True
  then obtain p where p: "p < length (addresses f)" "addresses f ! p = (ip, port)" by (auto simp: in_set_conv_nth)
  show ?thesis by (rule that [OF getObjectProxy_known [OF assms p] assms p]) (simp add: True)
next
  case False
  obtain f' where f': "getObjectProxy ip port f = (Ok (length (addresses f)), f')" "factory_inv f'"
    "addresses f' = addresses f @ [(ip, port)]"
    by (rule getObjectProxy_new [OF assms False])
  show ?thesis by (rule that [OF f'(1,2)]) (simp_all add: f'(3) False)
qed

section \<open>The same address, the same proxies\<close>

lemma addresses_distinct:
  assumes "factory_inv f"
  shows "distinct (addresses f)"
proof -
  have "p = q" if "p < length (addresses f)" "q < length (addresses f)" "addresses f ! p = addresses f ! q" for p q
  proof -
    obtain ip port where "addresses f ! p = (ip, port)" by fastforce
    then show ?thesis using factory_invD(2) [OF assms, of ip port] that by (metis option.inject)
  qed
  then show ?thesis by (auto simp: distinct_conv_nth)
qed

text \<open>Where an address is, or will be, in a list of addresses.\<close>

definition place :: "(bytes \<times> 16 word) list \<Rightarrow> bytes \<times> 16 word \<Rightarrow> nat" where
  "place A a = length (takeWhile (\<lambda>b. b \<noteq> a) A)"

definition with_address :: "(bytes \<times> 16 word) list \<Rightarrow> bytes \<times> 16 word \<Rightarrow> (bytes \<times> 16 word) list" where
  "with_address A a = (if a \<in> set A then A else A @ [a])"

lemma place_known: "a \<in> set A \<Longrightarrow> place A a < length A \<and> A ! place A a = a"
  by (induction A) (auto simp: place_def)

lemma place_append: "a \<in> set A \<Longrightarrow> place (A @ B) a = place A a"
  by (induction A) (auto simp: place_def)

lemma place_new: "a \<notin> set A \<Longrightarrow> place (A @ [a]) a = length A"
  by (induction A) (auto simp: place_def)

lemma place_at: "distinct A \<Longrightarrow> p < length A \<Longrightarrow> place A (A ! p) = p"
  using place_known [of "A ! p" A] nth_eq_iff_index_eq [of A] nth_mem [of p A] by blast

lemma place_with: "a \<in> set (with_address A b) \<Longrightarrow> place (with_address (with_address A b) c) a = place (with_address A b) a"
  by (auto simp: with_address_def place_append simp del: append_assoc)

lemma getObjectProxy_place:
  assumes "factory_inv f"
  obtains f' where "getObjectProxy ip port f = (Ok (place (with_address (addresses f) (ip, port)) (ip, port)), f')"
    and "factory_inv f'" and "addresses f' = with_address (addresses f) (ip, port)"
proof -
  obtain p f' where f': "getObjectProxy ip port f = (Ok p, f')" "factory_inv f'" "p < length (addresses f')"
    "addresses f' ! p = (ip, port)" "addresses f' = with_address (addresses f) (ip, port)"
    by (rule getObjectProxy_spec [OF assms, of ip port]) (auto simp: with_address_def)
  have "p = place (addresses f') (ip, port)" using place_at [OF addresses_distinct [OF f'(2)] f'(3)] f'(4) by simp
  then show ?thesis using that [of f'] f' by simp
qed

lemma setServantProxy_same:
  "p < length (addresses f) \<Longrightarrow> addresses (setServantProxy sp p f) = addresses f"
  by (auto simp: addresses_def setServantProxy_def map_update intro!: nth_equalityI) (simp add: nth_list_update)

lemma setServantProxy_inv: "factory_inv f \<Longrightarrow> p < length (addresses f) \<Longrightarrow> factory_inv (setServantProxy sp p f)"
  using setServantProxy_same [of p f sp] by (simp add: factory_inv_def) (simp add: setServantProxy_def)

text \<open>Every network thread of the communicator knows the same addresses.\<close>

definition knows :: "(bytes \<times> 16 word) list \<Rightarrow> comm_thread option \<Rightarrow> bool" where
  "knows A x \<longleftrightarrow> (\<exists>t. x = Some t \<and> factory_inv (ct_factory t) \<and> addresses (ct_factory t) = A)"

definition comm_inv :: "(bytes \<times> 16 word) list \<Rightarrow> communicator \<Rightarrow> bool" where
  "comm_inv A c \<longleftrightarrow> length (cm_communicatorEpoll c) = 64 \<and>
     (if cm_initialized c then cm_clientThreadNum c = 3 \<and> (\<forall>i < 3. knows A (cm_communicatorEpoll c ! i))
      else A = [])"

lemma comm_inv_init: "comm_inv [] Communicator_init"
  by (simp add: comm_inv_def Communicator_init_def)

lemma comm_inv_initialize:
  assumes "comm_inv A c"
  shows "comm_inv A (Communicator_initialize c)" and "cm_initialized (Communicator_initialize c)"
    and "cm_clientThreadNum (Communicator_initialize c) = 3"
    and "cm_servantProxys (Communicator_initialize c) = cm_servantProxys c"
proof -
  have "start_epolls 3 ts ! i = Some CommunicatorEpoll_new" if "i < 3" "length ts = 64" for i :: nat and ts
    using that by (auto simp: numeral_3_eq_3 less_Suc_eq nth_list_update)
  moreover have "length (start_epolls n ts) = length ts" for n ts by (induction n) simp_all
  moreover have "knows [] (Some CommunicatorEpoll_new)"
    by (simp add: knows_def CommunicatorEpoll_new_def factory_inv_init)
  ultimately show "comm_inv A (Communicator_initialize c)" using assms
    by (auto simp: comm_inv_def Communicator_initialize_def)
  show "cm_initialized (Communicator_initialize c)" "cm_clientThreadNum (Communicator_initialize c) = 3"
    "cm_servantProxys (Communicator_initialize c) = cm_servantProxys c"
    using assms by (simp_all add: Communicator_initialize_def comm_inv_def split: if_splits)
qed

text \<open>The loops over the network threads, on the array of threads alone.\<close>

definition threads_know :: "communicator \<Rightarrow> (nat \<Rightarrow> (bytes \<times> 16 word) list) \<Rightarrow> bool" where
  "threads_know c A \<longleftrightarrow> length (cm_communicatorEpoll c) = 64 \<and> cm_clientThreadNum c = 3 \<and>
     (\<forall>i < 3. knows (A i) (cm_communicatorEpoll c ! i))"

lemma threads_knowD:
  assumes "threads_know c A" and "i < 3"
  obtains t where "cm_communicatorEpoll c ! i = Some t" and "factory_inv (ct_factory t)" and "addresses (ct_factory t) = A i"
  using assms that by (auto simp: threads_know_def knows_def)

lemma threads_know_update:
  assumes "threads_know c A" and "i < 3" and "factory_inv (ct_factory t)" and "addresses (ct_factory t) = B"
  shows "threads_know (c\<lparr>cm_communicatorEpoll := (cm_communicatorEpoll c)[i := Some t]\<rparr>) (A(i := B))"
  using assms by (auto simp: threads_know_def knows_def nth_list_update)

lemma epoll_getObjectProxy_spec:
  assumes c: "threads_know c A" and i: "i < 3"
  obtains ts where "epoll_getObjectProxy i ip port c =
      (Ok (place (with_address (A i) (ip, port)) (ip, port)), c\<lparr>cm_communicatorEpoll := ts\<rparr>)"
    and "threads_know (c\<lparr>cm_communicatorEpoll := ts\<rparr>) (A(i := with_address (A i) (ip, port)))"
proof -
  obtain t where t: "cm_communicatorEpoll c ! i = Some t" "factory_inv (ct_factory t)" "addresses (ct_factory t) = A i"
    by (rule threads_knowD [OF c i])
  obtain f' where f': "getObjectProxy ip port (ct_factory t) = (Ok (place (with_address (A i) (ip, port)) (ip, port)), f')"
    "factory_inv f'" "addresses f' = with_address (A i) (ip, port)"
    using getObjectProxy_place [OF t(2), of ip port] unfolding t(3) by blast
  have "cm_clientThreadNum c = 3" using c by (simp add: threads_know_def)
  then have "epoll_getObjectProxy i ip port c =
      (Ok (place (with_address (A i) (ip, port)) (ip, port)),
       c\<lparr>cm_communicatorEpoll := (cm_communicatorEpoll c)[i := Some (t\<lparr>ct_factory := f'\<rparr>)]\<rparr>)"
    using i t(1) f'(1) by (simp add: epoll_getObjectProxy_def getCommunicatorEpoll_def andthen_def)
  then show ?thesis by (rule that) (rule threads_know_update [OF c i], simp_all add: f')
qed

lemma object_proxies_spec:
  fixes ip :: bytes and port :: "16 word"
  assumes "threads_know c (\<lambda>_. A)" and "n \<le> 3"
  defines "B \<equiv> with_address A (ip, port)"
  shows "\<exists>ts. object_proxies n ip port c = (Ok (replicate n (place B (ip, port))), c\<lparr>cm_communicatorEpoll := ts\<rparr>) \<and>
    threads_know (c\<lparr>cm_communicatorEpoll := ts\<rparr>) (\<lambda>i. if i < n then B else A)"
  using assms(2)
proof (induction n)
  case 0
  then show ?case using assms(1) by (intro exI [of _ "cm_communicatorEpoll c"]) (simp add: ret_def)
next
  case (Suc n)
  then obtain ts where ts: "object_proxies n ip port c = (Ok (replicate n (place B (ip, port))), c\<lparr>cm_communicatorEpoll := ts\<rparr>)"
    "threads_know (c\<lparr>cm_communicatorEpoll := ts\<rparr>) (\<lambda>i. if i < n then B else A)"
    by auto
  have "n < 3" using Suc.prems by simp
  from epoll_getObjectProxy_spec [OF ts(2) this, of ip port]
  obtain ts' where ts': "epoll_getObjectProxy n ip port (c\<lparr>cm_communicatorEpoll := ts\<rparr>) =
      (Ok (place B (ip, port)), c\<lparr>cm_communicatorEpoll := ts'\<rparr>)"
    "threads_know (c\<lparr>cm_communicatorEpoll := ts'\<rparr>) ((\<lambda>i. if i < n then B else A)(n := B))"
    by (auto simp: B_def)
  have "(\<lambda>i. if i < n then B else A)(n := B) = (\<lambda>i. if i < Suc n then B else A)" by (auto simp: less_Suc_eq)
  then show ?case using ts(1) ts'
    by (intro exI [of _ ts']) (simp add: andthen_def ret_def replicate_append_same)
qed

lemma set_servant_spec:
  "threads_know c (\<lambda>_. A) \<Longrightarrow> p < length A \<Longrightarrow> i + n \<le> 3 \<Longrightarrow>
   \<exists>ts. set_servant i sp (replicate n p) c = (Ok (), c\<lparr>cm_communicatorEpoll := ts\<rparr>) \<and>
     threads_know (c\<lparr>cm_communicatorEpoll := ts\<rparr>) (\<lambda>_. A)"
proof (induction n arbitrary: i c)
  case 0
  then show ?case by (intro exI [of _ "cm_communicatorEpoll c"]) (simp add: ret_def)
next
  case (Suc n)
  have i: "i < 3" using Suc.prems(3) by simp
  obtain t where t: "cm_communicatorEpoll c ! i = Some t" "factory_inv (ct_factory t)" "addresses (ct_factory t) = A"
    by (rule threads_knowD [OF Suc.prems(1) i])
  let ?t = "t\<lparr>ct_factory := setServantProxy sp p (ct_factory t)\<rparr>"
  let ?c = "c\<lparr>cm_communicatorEpoll := (cm_communicatorEpoll c)[i := Some ?t]\<rparr>"
  have "threads_know ?c ((\<lambda>_. A)(i := A))"
    by (rule threads_know_update [OF Suc.prems(1) i]) (use t Suc.prems(2) setServantProxy_inv setServantProxy_same in simp_all)
  moreover have "(\<lambda>_ :: nat. A)(i := A) = (\<lambda>_. A)" by auto
  ultimately have "threads_know ?c (\<lambda>_. A)" by simp
  from Suc.IH [OF this Suc.prems(2), of "Suc i"] Suc.prems(3)
  obtain ts where "set_servant (Suc i) sp (replicate n p) ?c = (Ok (), c\<lparr>cm_communicatorEpoll := ts\<rparr>)"
    "threads_know (c\<lparr>cm_communicatorEpoll := ts\<rparr>) (\<lambda>_. A)"
    by auto
  then show ?case by (intro exI [of _ ts]) (simp add: andthen_def t(1))
qed

lemma getServantProxy_spec:
  fixes ip :: bytes and port :: "16 word"
  assumes "comm_inv A c"
  defines "B \<equiv> with_address A (ip, port)"
  obtains c' where "getServantProxy ip port c = (Ok (cm_servantProxys c, replicate 3 (place B (ip, port))), c')"
    and "comm_inv B c'" and "cm_servantProxys c' = cm_servantProxys c + 1"
proof -
  let ?c = "Communicator_initialize c"
  note ini = comm_inv_initialize [OF assms(1)]
  have know: "threads_know ?c (\<lambda>_. A)" using ini(1,2,3) by (simp add: comm_inv_def threads_know_def)
  have "(ip, port) \<in> set B" by (simp add: B_def with_address_def)
  then have place: "place B (ip, port) < length B" using place_known by blast
  obtain ts where ts: "object_proxies 3 ip port ?c = (Ok (replicate 3 (place B (ip, port))), ?c\<lparr>cm_communicatorEpoll := ts\<rparr>)"
    "threads_know (?c\<lparr>cm_communicatorEpoll := ts\<rparr>) (\<lambda>i. if i < 3 then B else A)"
    using object_proxies_spec [OF know, of 3 ip port] unfolding B_def by auto
  let ?c2 = "?c\<lparr>cm_communicatorEpoll := ts, cm_servantProxys := cm_servantProxys c + 1\<rparr>"
  have "threads_know ?c2 (\<lambda>_. B)" using ts(2) by (simp add: threads_know_def)
  from set_servant_spec [OF this place, of 0 3 "cm_servantProxys c"]
  obtain us where us: "set_servant 0 (cm_servantProxys c) (replicate 3 (place B (ip, port))) ?c2 =
      (Ok (), ?c2\<lparr>cm_communicatorEpoll := us\<rparr>)" "threads_know (?c2\<lparr>cm_communicatorEpoll := us\<rparr>) (\<lambda>_. B)"
    by auto
  have "getServantProxy ip port c = (Ok (cm_servantProxys c, replicate 3 (place B (ip, port))), ?c2\<lparr>cm_communicatorEpoll := us\<rparr>)"
    using ts(1) us(1) by (simp add: getServantProxy_def Let_def andthen_def ini(3,4) ret_def)
  moreover have "comm_inv B (?c2\<lparr>cm_communicatorEpoll := us\<rparr>)"
    using us(2) ini(2) by (simp add: comm_inv_def threads_know_def)
  ultimately show ?thesis using that by simp
qed

primrec get_servants :: "(bytes \<times> 16 word) list \<Rightarrow> (communicator, (nat \<times> nat list) list) act" where
  "get_servants [] = ret []"
| "get_servants (a # as) =
     andthen (getServantProxy (fst a) (snd a)) (\<lambda>r. andthen (get_servants as) (\<lambda>rs. ret (r # rs)))"

fun known_after :: "(bytes \<times> 16 word) list \<Rightarrow> (bytes \<times> 16 word) list \<Rightarrow> (bytes \<times> 16 word) list" where
  "known_after A [] = A"
| "known_after A (a # as) = known_after (with_address A a) as"

lemma known_after_grows: "\<exists>B. known_after A as = A @ B"
proof (induction as arbitrary: A)
  case (Cons a as)
  obtain B where "known_after (with_address A a) as = with_address A a @ B" using Cons.IH by blast
  then show ?case by (simp add: with_address_def split: if_splits)
qed simp

lemma known_after_members: "set (known_after A as) = set A \<union> set as"
  by (induction as arbitrary: A) (auto simp: with_address_def)

lemma get_servants_spec:
  "comm_inv A c \<Longrightarrow> \<exists>c'. get_servants as c =
     (Ok (map (\<lambda>k. (cm_servantProxys c + k, replicate 3 (place (known_after A as) (as ! k)))) [0..<length as]), c') \<and>
   comm_inv (known_after A as) c'"
proof (induction as arbitrary: A c)
  case Nil
  then show ?case by (simp add: ret_def)
next
  case (Cons a as)
  obtain ip port where a: "a = (ip, port)" by fastforce
  obtain c1 where c1: "getServantProxy ip port c =
      (Ok (cm_servantProxys c, replicate 3 (place (with_address A a) a)), c1)"
    "comm_inv (with_address A a) c1" "cm_servantProxys c1 = cm_servantProxys c + 1"
    using getServantProxy_spec [OF Cons.prems, of ip port] a by metis
  obtain B where "known_after A (a # as) = with_address A a @ B" using known_after_grows by fastforce
  then have "place (known_after A (a # as)) a = place (with_address A a) a"
    by (simp add: place_append with_address_def)
  moreover obtain c' where "get_servants as c1 =
      (Ok (map (\<lambda>k. (cm_servantProxys c1 + k, replicate 3 (place (known_after (with_address A a) as) (as ! k)))) [0..<length as]), c')"
    "comm_inv (known_after (with_address A a) as) c'"
    using Cons.IH [OF c1(2)] by blast
  ultimately show ?case using c1(1,3) a
    by (simp add: andthen_def ret_def upt_conv_Cons map_Suc_upt [symmetric] comp_def del: upt_Suc)
qed

lemma same_proxies:
  assumes "k < length as" and "l < length as"
  shows "replicate 3 (place (known_after A as) (as ! k)) = replicate 3 (place (known_after A as) (as ! l)) \<longleftrightarrow> as ! k = as ! l"
proof -
  have "as ! k \<in> set (known_after A as)" "as ! l \<in> set (known_after A as)"
    using assms by (simp_all add: known_after_members)
  then have "place (known_after A as) (as ! k) = place (known_after A as) (as ! l) \<longleftrightarrow> as ! k = as ! l"
    using place_known by metis
  then show ?thesis by (simp add: replicate_eq_replicate)
qed

section \<open>The node's address\<close>

text \<open>\<open>setNodeInfo\<close> takes an address apart that the factory would put together again.\<close>

lemma node_address:
  assumes "58 \<notin> set host"
  shows "before_colon (tmpObjName host port) = host" and "after_colon (tmpObjName host port) = to_string (uint port)"
    and "atoi (after_colon (tmpObjName host port)) = Some (uint port)"
proof -
  have "uint port < 65536" using uint_lt2p [of port] by simp
  then show "before_colon (tmpObjName host port) = host" "after_colon (tmpObjName host port) = to_string (uint port)"
    "atoi (after_colon (tmpObjName host port)) = Some (uint port)"
    using colon_at [OF assms] atoi_to_string [of "uint port"] uint_ge_0 [of port]
    by (simp_all add: tmpObjName_def colon)
qed

lemma setNodeInfo_spec:
  assumes "58 \<notin> set host" and "comm_inv A c"
  shows "\<exists>c'. setNodeInfo (tmpObjName host port) app server pid ((c, h), si) =
      (Ok (), ((c', h\<lparr>nh_nodePrx := True\<rparr>),
        si\<lparr>si_application := app, si_serverName := server, si_pid := pid\<rparr>)) \<and>
    comm_inv (with_address A (host, port)) c'"
proof -
  obtain c' where "getServantProxy host port c = (Ok (cm_servantProxys c, replicate 3 (place (with_address A (host, port)) (host, port))), c')"
    "comm_inv (with_address A (host, port)) c'"
    using getServantProxy_spec [OF assms(2), of host port] by metis
  moreover have "tmpObjName host port \<noteq> []" by (simp add: tmpObjName_def colon)
  ultimately show ?thesis using node_address [OF assms(1), of port]
    by (simp add: setNodeInfo_def)
qed

section \<open>The end of a communicator\<close>

text \<open>\<open>terminate\<close> joins the threads; the destructor calls it again and joins them again.\<close>

lemma join_epolls_twice:
  assumes "cm_communicatorEpoll c ! 0 = Some t" and "ct_joined t"
  shows "fst (join_epolls (Suc n) c) = Fault"
proof -
  have "fst (join_epolls (Suc n) c) = Fault \<and> fst (join_epolls (Suc n) c) \<noteq> Ok ()" for n
    by (induction n) (use assms in \<open>auto simp: andthen_def ret_def split: prod.splits outcome.splits\<close>)
  then show ?thesis by blast
qed

end
