(* ===== verification/Tc_Common.thy ===== *)
theory Tc_Common
  imports Text_Numbers
begin

text \<open>
  The templates of \<^verbatim>\<open>src/util/include/tc_common.h\<close>: text to values, lists of values to text and back.
  The other members of \<open>TC_Common\<close> are declared there and defined nowhere in the repository. The
  conversion \<open>strto\<close> of the element type and the output operator of a type are arguments.
\<close>

section \<open>Text to a number\<close>

text \<open>The specialisations of \<open>strto1\<close>; \<open>None\<close> where the C function is undefined.\<close>

definition strto1_char :: "bytes \<Rightarrow> byte" where
  "strto1_char sStr = (if sStr \<noteq> [] then hd sStr else 0)"

definition strto1_short :: "bytes \<Rightarrow> 16 word option" where
  "strto1_short sStr = (if sStr \<noteq> [] then map_option word_of_int (atoi sStr) else Some 0)"

definition strto1_ushort :: "bytes \<Rightarrow> 16 word" where
  "strto1_ushort sStr = (if sStr \<noteq> [] then word_of_int (strtoul sStr) else 0)"

definition strto1_int :: "bytes \<Rightarrow> 32 word option" where
  "strto1_int sStr = (if sStr \<noteq> [] then map_option word_of_int (atoi sStr) else Some 0)"

definition strto1_uint :: "bytes \<Rightarrow> 32 word" where
  "strto1_uint sStr = (if sStr \<noteq> [] then word_of_int (strtoul sStr) else 0)"

definition strto1_long :: "bytes \<Rightarrow> 64 word option" where
  "strto1_long sStr = (if sStr \<noteq> [] then map_option word_of_int (atol sStr) else Some 0)"

definition strto1_llong :: "bytes \<Rightarrow> 64 word option" where
  "strto1_llong sStr = (if sStr \<noteq> [] then map_option word_of_int (atol sStr) else Some 0)"

definition strto1_ulong :: "bytes \<Rightarrow> 64 word" where
  "strto1_ulong sStr = (if sStr \<noteq> [] then word_of_int (strtoul sStr) else 0)"

text \<open>\<open>float\<close> and \<open>double\<close> with the library's \<open>atof\<close>, and the general templates with \<open>operator>>\<close>.\<close>

definition strto1_float :: "(bytes \<Rightarrow> 'd) \<Rightarrow> ('d \<Rightarrow> 'f) \<Rightarrow> 'f \<Rightarrow> bytes \<Rightarrow> 'f" where
  "strto1_float atof to_float zero sStr = (if sStr \<noteq> [] then to_float (atof sStr) else zero)"

definition strto1_double :: "(bytes \<Rightarrow> 'd) \<Rightarrow> 'd \<Rightarrow> bytes \<Rightarrow> 'd" where
  "strto1_double atof zero sStr = (if sStr \<noteq> [] then atof sStr else zero)"

definition strto1_other :: "(bytes \<Rightarrow> 'd) \<Rightarrow> bytes \<Rightarrow> 'd" where
  "strto1_other extract sStr = (let s = (if sStr \<noteq> [] then sStr else [48]) in extract s)"

definition strto2_string :: "bytes \<Rightarrow> bytes" where
  "strto2_string sStr = sStr"

definition strto2_other :: "(bytes \<Rightarrow> 'd) \<Rightarrow> bytes \<Rightarrow> 'd" where
  "strto2_other extract sStr = extract sStr"

definition strto_default :: "(bytes \<Rightarrow> 't) \<Rightarrow> bytes \<Rightarrow> bytes \<Rightarrow> 't" where
  "strto_default strto sStr sDefault = (let s = (if sStr \<noteq> [] then sStr else sDefault) in strto s)"

section \<open>Text to a list\<close>

text \<open>\<open>find_first_of\<close> from a position; \<open>None\<close> is \<open>npos\<close>.\<close>

definition find_first_of :: "bytes \<Rightarrow> bytes \<Rightarrow> nat \<Rightarrow> nat option" where
  "find_first_of s sep pos =
     (let k = length (takeWhile (\<lambda>c. c \<notin> set sep) (drop pos s))
      in if pos + k < length s then Some (pos + k) else None)"

definition substr :: "bytes \<Rightarrow> nat \<Rightarrow> nat \<Rightarrow> bytes" where
  "substr s pos n = take n (drop pos s)"

lemma find_first_of_bounds: "find_first_of s sep pos = Some p \<Longrightarrow> pos \<le> p \<and> p < length s"
  by (auto simp: find_first_of_def Let_def split: if_splits)

text \<open>The loop of \<open>sepstr\<close> at \<open>pos\<close>: what is pushed from there on.\<close>

function sepstr_loop :: "(bytes \<Rightarrow> 't) \<Rightarrow> bytes \<Rightarrow> bytes \<Rightarrow> bool \<Rightarrow> nat \<Rightarrow> 't list" where
  "sepstr_loop strto sStr sSep withEmpty pos =
     (let pos1 = find_first_of sStr sSep pos;
          s = (case pos1 of
                 None \<Rightarrow> if pos + 1 \<le> length sStr then drop pos sStr else []
               | Some p1 \<Rightarrow> if p1 = pos then [] else substr sStr pos (p1 - pos));
          vt = (if withEmpty then [strto s] else if s \<noteq> [] then [strto s] else [])
      in case pos1 of
           None \<Rightarrow> vt
         | Some p1 \<Rightarrow> vt @ sepstr_loop strto sStr sSep withEmpty (p1 + 1))"
  by pat_completeness auto
termination
proof (relation "measure (\<lambda>(strto, s, sep, e, pos). length s - pos)")
  fix strto :: "bytes \<Rightarrow> 't" and s sep e pos x xa xb p
  assume "x = find_first_of s sep pos" and "x = Some p"
  then have "pos \<le> p \<and> p < length s" using find_first_of_bounds by simp
  then show "((strto, s, sep, e, p + 1), strto, s, sep, e, pos) \<in> measure (\<lambda>(strto, s, sep, e, pos). length s - pos)"
    by (simp, linarith)
qed simp

declare sepstr_loop.simps [simp del]

definition sepstr :: "(bytes \<Rightarrow> 't) \<Rightarrow> bytes \<Rightarrow> bytes \<Rightarrow> bool \<Rightarrow> 't list" where
  "sepstr strto sStr sSep withEmpty = sepstr_loop strto sStr sSep withEmpty 0"

section \<open>Values to text\<close>

text \<open>The characters are a space (32), brackets (91, 93) and an equals sign (61).\<close>

primrec tostr_vector :: "('t \<Rightarrow> bytes) \<Rightarrow> 't list \<Rightarrow> bytes" where
  "tostr_vector tostr [] = []"
| "tostr_vector tostr (t # ts) = tostr t @ [32] @ tostr_vector tostr ts"

text \<open>A map by its entries in order; a multimap is written by the same code.\<close>

primrec tostr_map :: "('k \<Rightarrow> bytes) \<Rightarrow> ('v \<Rightarrow> bytes) \<Rightarrow> ('k \<times> 'v) list \<Rightarrow> bytes" where
  "tostr_map tostr_key tostr_value [] = []"
| "tostr_map tostr_key tostr_value (kv # kvs) =
     [32, 91] @ tostr_key (fst kv) @ [93, 61, 91] @ tostr_value (snd kv) @ [93, 32] @
     tostr_map tostr_key tostr_value kvs"

primrec tostr_multimap :: "('k \<Rightarrow> bytes) \<Rightarrow> ('v \<Rightarrow> bytes) \<Rightarrow> ('k \<times> 'v) list \<Rightarrow> bytes" where
  "tostr_multimap tostr_key tostr_value [] = []"
| "tostr_multimap tostr_key tostr_value (kv # kvs) =
     [32, 91] @ tostr_key (fst kv) @ [93, 61, 91] @ tostr_value (snd kv) @ [93, 32] @
     tostr_multimap tostr_key tostr_value kvs"

definition tostr_pair :: "('f \<Rightarrow> bytes) \<Rightarrow> ('s \<Rightarrow> bytes) \<Rightarrow> 'f \<times> 's \<Rightarrow> bytes" where
  "tostr_pair tostr_first tostr_second itPair =
     [91] @ tostr_first (fst itPair) @ [93, 61, 91] @ tostr_second (snd itPair) @ [93]"

text \<open>A range of iterators is the list between them.\<close>

fun tostr_range :: "('t \<Rightarrow> bytes) \<Rightarrow> 't list \<Rightarrow> bytes \<Rightarrow> bytes" where
  "tostr_range tostr [] sSep = []"
| "tostr_range tostr (t # ts) sSep = tostr t @ (if ts \<noteq> [] then sSep @ tostr_range tostr ts sSep else [])"

section \<open>The fields of a text\<close>

text \<open>What \<open>sepstr\<close> is meant to find: the pieces between the separators.\<close>

fun text_fields :: "bytes \<Rightarrow> bytes \<Rightarrow> bytes list" where
  "text_fields sep [] = [[]]"
| "text_fields sep (c # cs) =
     (if c \<in> set sep then [] # text_fields sep cs
      else case text_fields sep cs of f # fs \<Rightarrow> (c # f) # fs | [] \<Rightarrow> [])"

lemma fields_some: "text_fields sep s \<noteq> []"
  by (induction sep s rule: text_fields.induct) (auto split: list.splits)

lemma fields_plain: "\<forall>c \<in> set s. c \<notin> set sep \<Longrightarrow> text_fields sep s = [s]"
  by (induction s) auto

lemma fields_step: "\<forall>c \<in> set f. c \<notin> set sep \<Longrightarrow> c \<in> set sep \<Longrightarrow> text_fields sep (f @ c # s) = f # text_fields sep s"
  by (induction f) auto

lemma find_none: "find_first_of s sep pos = None \<longleftrightarrow> (\<forall>c \<in> set (drop pos s). c \<notin> set sep)"
proof -
  let ?k = "length (takeWhile (\<lambda>c. c \<notin> set sep) (drop pos s))"
  have "?k \<le> length s - pos" by (metis length_drop length_takeWhile_le)
  then have "find_first_of s sep pos = None \<longleftrightarrow> ?k = length (drop pos s)"
    by (auto simp: find_first_of_def Let_def)
  also have "\<dots> \<longleftrightarrow> takeWhile (\<lambda>c. c \<notin> set sep) (drop pos s) = drop pos s"
    by (metis takeWhile_eq_take take_all_iff order.refl)
  finally show ?thesis by (auto simp: takeWhile_eq_all_conv)
qed

lemma find_some:
  assumes "find_first_of s sep pos = Some p"
  shows "drop pos s = substr s pos (p - pos) @ s ! p # drop (p + 1) s" and "s ! p \<in> set sep"
    and "\<forall>c \<in> set (substr s pos (p - pos)). c \<notin> set sep"
proof -
  let ?P = "\<lambda>c. c \<notin> set sep" and ?d = "drop pos s"
  note b = find_first_of_bounds [OF assms]
  have k: "p - pos = length (takeWhile ?P ?d)" using assms by (auto simp: find_first_of_def Let_def split: if_splits)
  have eq: "substr s pos (p - pos) = takeWhile ?P ?d"
    unfolding substr_def k by (metis takeWhile_eq_take)
  show "\<forall>c \<in> set (substr s pos (p - pos)). c \<notin> set sep" unfolding eq by (auto dest: set_takeWhileD)
  have less: "length (takeWhile ?P ?d) < length ?d" using b k by (simp, linarith)
  have "?d ! length (takeWhile ?P ?d) \<in> set sep" using nth_length_takeWhile [OF less] by simp
  then show "s ! p \<in> set sep" using b k [symmetric] by simp
  have "?d = take (p - pos) ?d @ ?d ! (p - pos) # drop (Suc (p - pos)) ?d"
    using less k by (intro id_take_nth_drop) simp
  then show "?d = substr s pos (p - pos) @ s ! p # drop (p + 1) s"
    using b by (simp add: substr_def)
qed

lemma sepstr_loop_fields:
  "sepstr_loop strto s sep e pos = map strto (filter (\<lambda>f. e \<or> f \<noteq> []) (text_fields sep (drop pos s)))"
proof (induction strto s sep e pos rule: sepstr_loop.induct)
  case (1 strto s sep e pos)
  show ?case
  proof (cases "find_first_of s sep pos")
    case None
    then have "text_fields sep (drop pos s) = [drop pos s]" using find_none by (intro fields_plain) blast
    then show ?thesis by (subst sepstr_loop.simps) (auto simp: None Let_def)
  next
    case (Some p)
    note f = find_some [OF Some]
    have split: "text_fields sep (drop pos s) = substr s pos (p - pos) # text_fields sep (drop (p + 1) s)"
      unfolding f(1) by (rule fields_step [OF f(3,2)])
    have here: "(if p = pos then [] else substr s pos (p - pos)) = substr s pos (p - pos)" by (simp add: substr_def)
    have "sepstr_loop strto s sep e pos = (if e then [strto (substr s pos (p - pos))]
        else if substr s pos (p - pos) \<noteq> [] then [strto (substr s pos (p - pos))] else []) @ sepstr_loop strto s sep e (p + 1)"
      by (subst sepstr_loop.simps) (simp only: Some option.case Let_def here)
    also have "sepstr_loop strto s sep e (p + 1) = map strto (filter (\<lambda>f. e \<or> f \<noteq> []) (text_fields sep (drop (p + 1) s)))"
      by (rule 1) (simp_all add: Some)
    finally show ?thesis unfolding split by auto
  qed
qed

lemma sepstr_spec: "sepstr strto s sep e = map strto (filter (\<lambda>f. e \<or> f \<noteq> []) (text_fields sep s))"
  by (simp add: sepstr_def sepstr_loop_fields)

section \<open>Text and back\<close>

lemma fields_range:
  assumes "\<forall>t \<in> set ts. \<forall>c \<in> set (tostr t). c \<notin> set sep" and "c \<in> set sep" and "ts \<noteq> []"
  shows "text_fields sep (tostr_range tostr ts [c]) = map tostr ts"
  using assms
proof (induction ts)
  case (Cons t ts)
  then show ?case by (cases "ts = []") (simp_all add: fields_plain fields_step)
qed simp

lemma sepstr_of_range:
  assumes "\<forall>t \<in> set ts. strto (tostr t) = t \<and> (\<forall>c \<in> set (tostr t). c \<notin> set sep)" and "c \<in> set sep" and "ts \<noteq> []"
  shows "sepstr strto (tostr_range tostr ts [c]) sep True = ts"
  using fields_range [OF _ assms(2,3), of tostr] assms(1) by (simp add: sepstr_spec comp_def map_idI)

lemma sepstr_of_vector:
  assumes "\<forall>t \<in> set ts. strto (tostr t) = t \<and> tostr t \<noteq> [] \<and> (\<forall>c \<in> set (tostr t). c \<noteq> 32)"
  shows "sepstr strto (tostr_vector tostr ts) [32] False = ts"
proof -
  have "text_fields [32] (tostr_vector tostr ts) = map tostr ts @ [[]]"
    using assms by (induction ts) (simp_all add: fields_step)
  moreover have "filter (\<lambda>f. f \<noteq> []) (map tostr ts) = map tostr ts" using assms by (simp add: filter_id_conv)
  ultimately show ?thesis using assms by (simp add: sepstr_spec comp_def map_idI)
qed

text \<open>Numbers: what \<open>tostr\<close> writes, \<open>strto<int>\<close> reads.\<close>

lemma strto1_int_of_tostr: "strto1_int (to_string (sint w)) = Some w"
proof -
  have "- 2147483648 \<le> sint w" "sint w < 2147483648" using sint_ge [of w] sint_lt [of w] by simp_all
  moreover have "to_string (sint w) \<noteq> []" by (simp add: to_string_def dec_digits_some)
  ultimately show ?thesis by (simp add: strto1_int_def atoi_to_string)
qed

lemma to_string_chars: "c \<in> set (to_string i) \<Longrightarrow> is_digit c \<or> c = 45"
  using dec_digits_are by (auto simp: to_string_def split: if_splits)

end
