(* ===== verification/Tars_Displayer.thy ===== *)
theory Tars_Displayer
  imports Tup_Packet Tc_Common
begin

text \<open>
  \<^verbatim>\<open>src/tup/TarsDisplayer.h\<close> and the display functions of \<^verbatim>\<open>RequestF.h\<close>: values as text, indented or
  on one line. What a definition yields is what the code writes to the stream; \<open>None\<close> is a null
  field name. Tab, newline, space, bar and the brackets are the characters 9, 10, 32, 124, 40, 41,
  91, 93, 123 and 125. An unsigned char is written as a character;
  how the stream writes floating point numbers is the argument \<open>fmt\<close>.
\<close>

section \<open>Indented\<close>

definition display_ps :: "int \<Rightarrow> bytes option \<Rightarrow> bytes" where
  "display_ps level fieldName =
     replicate (nat level) 9 @ (case fieldName of Some n \<Rightarrow> n @ [58, 32] | None \<Rightarrow> [])"

type_synonym 'a display = "int \<Rightarrow> 'a \<Rightarrow> bytes option \<Rightarrow> bytes"

definition display_Bool :: "bool display" where
  "display_Bool level b fieldName = display_ps level fieldName @ [if b then 84 else 70] @ [10]"

definition display_Char :: "tChar display" where
  "display_Char level n fieldName = display_ps level fieldName @ [n] @ [10]"

definition display_UInt8 :: "tUInt8 display" where
  "display_UInt8 level n fieldName = display_ps level fieldName @ [n] @ [10]"

definition display_Short :: "tShort display" where
  "display_Short level n fieldName = display_ps level fieldName @ to_string (sint n) @ [10]"

definition display_UInt16 :: "tUInt16 display" where
  "display_UInt16 level n fieldName = display_ps level fieldName @ to_string (uint n) @ [10]"

definition display_Int32 :: "tInt32 display" where
  "display_Int32 level n fieldName = display_ps level fieldName @ to_string (sint n) @ [10]"

definition display_UInt32 :: "tUInt32 display" where
  "display_UInt32 level n fieldName = display_ps level fieldName @ to_string (uint n) @ [10]"

definition display_Int64 :: "tInt64 display" where
  "display_Int64 level n fieldName = display_ps level fieldName @ to_string (sint n) @ [10]"

definition display_Float :: "('f \<Rightarrow> bytes) \<Rightarrow> 'f display" where
  "display_Float fmt level n fieldName = display_ps level fieldName @ fmt n @ [10]"

definition display_Double :: "('d \<Rightarrow> bytes) \<Rightarrow> 'd display" where
  "display_Double fmt level n fieldName = display_ps level fieldName @ fmt n @ [10]"

definition display_string :: "bytes display" where
  "display_string level s fieldName = display_ps level fieldName @ s @ [10]"

definition display_bytes :: "bytes display" where
  "display_bytes level s fieldName = display_ps level fieldName @ s @ [10]"

definition display_map :: "'k display \<Rightarrow> 'v display \<Rightarrow> ('k \<times> 'v) list display" where
  "display_map key value level m fieldName =
     display_ps level fieldName @
     (if m = [] then to_string (int (length m)) @ [44, 32, 123, 125] @ [10]
      else to_string (int (length m)) @ [44, 32, 123] @ [10] @
        concat (map (\<lambda>kv. display_Char (level + 1) 40 None @ key (level + 2) (fst kv) None @
          value (level + 2) (snd kv) None @ display_Char (level + 1) 41 None) m) @
        display_Char level 125 None)"

definition display_vector :: "'t display \<Rightarrow> 't list display" where
  "display_vector element level v fieldName =
     display_ps level fieldName @
     (if v = [] then to_string (int (length v)) @ [44, 32, 91, 93] @ [10]
      else to_string (int (length v)) @ [44, 32, 91] @ [10] @
        concat (map (\<lambda>x. element (level + 1) x None) v) @
        display_Char level 93 None)"

definition display_array :: "'t display \<Rightarrow> 't list display" where
  "display_array element level v fieldName =
     display_ps level fieldName @
     (if length v = 0 then to_string (int (length v)) @ [44, 32, 91, 93] @ [10]
      else to_string (int (length v)) @ [44, 32, 91] @ [10] @
        concat (map (\<lambda>x. element (level + 1) x None) v) @
        display_Char level 93 None)"

text \<open>An enum by its number; a struct by its own \<open>display\<close>, which gets the stream and the level.\<close>

definition display_enum :: "tInt32 display" where
  "display_enum level v fieldName = display_Int32 level v fieldName"

definition display_struct :: "(int \<Rightarrow> 's \<Rightarrow> bytes) \<Rightarrow> 's display" where
  "display_struct disp level v fieldName =
     display_Char level 123 fieldName @ disp (level + 1) v @ display_Char level 125 None"

section \<open>On one line\<close>

definition bar :: "bool \<Rightarrow> bytes" where
  "bar bSep = (if bSep then [124] else [])"

type_synonym 'a display_simple = "'a \<Rightarrow> bool \<Rightarrow> bytes"

definition displaySimple_Bool :: "bool display_simple" where
  "displaySimple_Bool b bSep = [if b then 84 else 70] @ bar bSep"

definition displaySimple_Char :: "tChar display_simple" where
  "displaySimple_Char n bSep = [n] @ bar bSep"

definition displaySimple_UInt8 :: "tUInt8 display_simple" where
  "displaySimple_UInt8 n bSep = [n] @ bar bSep"

definition displaySimple_Short :: "tShort display_simple" where
  "displaySimple_Short n bSep = to_string (sint n) @ bar bSep"

definition displaySimple_UInt16 :: "tUInt16 display_simple" where
  "displaySimple_UInt16 n bSep = to_string (uint n) @ bar bSep"

definition displaySimple_Int32 :: "tInt32 display_simple" where
  "displaySimple_Int32 n bSep = to_string (sint n) @ bar bSep"

definition displaySimple_UInt32 :: "tUInt32 display_simple" where
  "displaySimple_UInt32 n bSep = to_string (uint n) @ bar bSep"

definition displaySimple_Int64 :: "tInt64 display_simple" where
  "displaySimple_Int64 n bSep = to_string (sint n) @ bar bSep"

definition displaySimple_Float :: "('f \<Rightarrow> bytes) \<Rightarrow> 'f display_simple" where
  "displaySimple_Float fmt n bSep = fmt n @ bar bSep"

definition displaySimple_Double :: "('d \<Rightarrow> bytes) \<Rightarrow> 'd display_simple" where
  "displaySimple_Double fmt n bSep = fmt n @ bar bSep"

definition displaySimple_string :: "bytes display_simple" where
  "displaySimple_string n bSep = n @ bar bSep"

definition displaySimple_bytes :: "bytes display_simple" where
  "displaySimple_bytes n bSep = n @ bar bSep"

text \<open>The loops put a separator in front of every element but the first.\<close>

fun simple_pairs :: "'k display_simple \<Rightarrow> 'v display_simple \<Rightarrow> bool \<Rightarrow> ('k \<times> 'v) list \<Rightarrow> bytes" where
  "simple_pairs key value begin [] = []"
| "simple_pairs key value begin (kv # kvs) =
     (if begin then [] else [44]) @ key (fst kv) True @ value (snd kv) False @ simple_pairs key value False kvs"

definition displaySimple_map :: "'k display_simple \<Rightarrow> 'v display_simple \<Rightarrow> ('k \<times> 'v) list display_simple" where
  "displaySimple_map key value m bSep =
     (if m = [] then to_string (int (length m)) @ [123, 125]
      else to_string (int (length m)) @ [123] @ simple_pairs key value True m @ [125] @ bar bSep)"

fun simple_elements :: "'t display_simple \<Rightarrow> bool \<Rightarrow> 't list \<Rightarrow> bytes" where
  "simple_elements element begin [] = []"
| "simple_elements element begin (x # xs) =
     (if begin then [] else [124]) @ element x False @ simple_elements element False xs"

definition displaySimple_vector :: "'t display_simple \<Rightarrow> 't list display_simple" where
  "displaySimple_vector element v bSep =
     (if v = [] then to_string (int (length v)) @ [123, 125]
      else to_string (int (length v)) @ [123] @ simple_elements element True v @ [125] @ bar bSep)"

definition displaySimple_array :: "'t display_simple \<Rightarrow> 't list display_simple" where
  "displaySimple_array element v bSep =
     (if length v = 0 then to_string (int (length v)) @ [123, 125]
      else to_string (int (length v)) @ [123] @ simple_elements element True v @ [125] @ bar bSep)"

definition displaySimple_enum :: "tInt32 display_simple" where
  "displaySimple_enum v bSep = displaySimple_Int32 v bSep"

definition displaySimple_struct :: "(int \<Rightarrow> 's \<Rightarrow> bytes) \<Rightarrow> int \<Rightarrow> 's display_simple" where
  "displaySimple_struct disp level v bSep = [123] @ disp (level + 1) v @ [125] @ bar bSep"

section \<open>Packets\<close>

definition RequestPacket_display :: "int \<Rightarrow> RequestPacket \<Rightarrow> bytes" where
  "RequestPacket_display level p =
     display_Short level (req_iVersion p) (Some (ascii ''iVersion'')) @
     display_Char level (req_cPacketType p) (Some (ascii ''cPacketType'')) @
     display_Int32 level (req_iMessageType p) (Some (ascii ''iMessageType'')) @
     display_Int32 level (req_iRequestId p) (Some (ascii ''iRequestId'')) @
     display_string level (req_sServantName p) (Some (ascii ''sServantName'')) @
     display_string level (req_sFuncName p) (Some (ascii ''sFuncName'')) @
     display_vector display_Char level (req_sBuffer p) (Some (ascii ''sBuffer'')) @
     display_Int32 level (req_iTimeout p) (Some (ascii ''iTimeout'')) @
     display_map display_string display_string level (req_context p) (Some (ascii ''context'')) @
     display_map display_string display_string level (req_status p) (Some (ascii ''status''))"

definition RequestPacket_displaySimple :: "int \<Rightarrow> RequestPacket \<Rightarrow> bytes" where
  "RequestPacket_displaySimple level p =
     displaySimple_Short (req_iVersion p) True @
     displaySimple_Char (req_cPacketType p) True @
     displaySimple_Int32 (req_iMessageType p) True @
     displaySimple_Int32 (req_iRequestId p) True @
     displaySimple_string (req_sServantName p) True @
     displaySimple_string (req_sFuncName p) True @
     displaySimple_vector displaySimple_Char (req_sBuffer p) True @
     displaySimple_Int32 (req_iTimeout p) True @
     displaySimple_map displaySimple_string displaySimple_string (req_context p) True @
     displaySimple_map displaySimple_string displaySimple_string (req_status p) False"

definition ResponsePacket_display :: "int \<Rightarrow> ResponsePacket \<Rightarrow> bytes" where
  "ResponsePacket_display level p =
     display_Short level (rsp_iVersion p) (Some (ascii ''iVersion'')) @
     display_Char level (rsp_cPacketType p) (Some (ascii ''cPacketType'')) @
     display_Int32 level (rsp_iRequestId p) (Some (ascii ''iRequestId'')) @
     display_Int32 level (rsp_iMessageType p) (Some (ascii ''iMessageType'')) @
     display_Int32 level (rsp_iRet p) (Some (ascii ''iRet'')) @
     display_vector display_Char level (rsp_sBuffer p) (Some (ascii ''sBuffer'')) @
     display_map display_string display_string level (rsp_status p) (Some (ascii ''status'')) @
     display_string level (rsp_sResultDesc p) (Some (ascii ''sResultDesc'')) @
     display_map display_string display_string level (rsp_context p) (Some (ascii ''context''))"

definition ResponsePacket_displaySimple :: "int \<Rightarrow> ResponsePacket \<Rightarrow> bytes" where
  "ResponsePacket_displaySimple level p =
     displaySimple_Short (rsp_iVersion p) True @
     displaySimple_Char (rsp_cPacketType p) True @
     displaySimple_Int32 (rsp_iRequestId p) True @
     displaySimple_Int32 (rsp_iMessageType p) True @
     displaySimple_Int32 (rsp_iRet p) True @
     displaySimple_vector displaySimple_Char (rsp_sBuffer p) True @
     displaySimple_map displaySimple_string displaySimple_string (rsp_status p) True @
     displaySimple_string (rsp_sResultDesc p) True @
     displaySimple_map displaySimple_string displaySimple_string (rsp_context p) False"

section \<open>Indentation\<close>

text \<open>A text of lines that all begin with a number of tabs.\<close>

definition indented :: "nat \<Rightarrow> bytes \<Rightarrow> bool" where
  "indented n text \<longleftrightarrow> (\<exists>lines. text = concat (map (\<lambda>l. replicate n 9 @ l @ [10]) lines) \<and> (\<forall>l \<in> set lines. 10 \<notin> set l))"

lemma indented_Nil [simp]: "indented n []"
  unfolding indented_def by (intro exI [of _ "[]"]) simp

lemma indented_append: "indented n s \<Longrightarrow> indented n t \<Longrightarrow> indented n (s @ t)"
  unfolding indented_def by (elim exE conjE, rename_tac ls ks, rule_tac x = "ls @ ks" in exI) auto

lemma indented_concat: "(\<And>x. x \<in> set xs \<Longrightarrow> indented n (f x)) \<Longrightarrow> indented n (concat (map f xs))"
  by (induction xs) (simp_all add: indented_append)

lemma indented_line: "10 \<notin> set l \<Longrightarrow> indented n (replicate n 9 @ l @ [10])"
  unfolding indented_def by (intro exI [of _ "[l]"]) simp

lemma indented_deeper:
  assumes "indented n text" and "m \<le> n"
  shows "indented m text"
proof -
  obtain ls where ls: "text = concat (map (\<lambda>l. replicate n 9 @ l @ [10]) ls)" "\<forall>l \<in> set ls. 10 \<notin> set l"
    using assms(1) by (auto simp: indented_def)
  have "replicate n (9 :: byte) = replicate m 9 @ replicate (n - m) 9" using assms(2) by (simp add: replicate_add [symmetric])
  then have "text = concat (map (\<lambda>l. replicate m 9 @ l @ [10]) (map (\<lambda>l. replicate (n - m) 9 @ l) ls))"
    using ls(1) by (simp add: comp_def)
  moreover have "\<forall>l \<in> set (map (\<lambda>l. replicate (n - m) 9 @ l) ls). 10 \<notin> set l" using ls(2) by auto
  ultimately show ?thesis unfolding indented_def by blast
qed

text \<open>A field on a line of its own, in a text without newlines.\<close>

abbreviation plain_name :: "bytes option \<Rightarrow> bool" where
  "plain_name name \<equiv> (\<forall>n. name = Some n \<longrightarrow> 10 \<notin> set n)"

lemma indented_field: "plain_name name \<Longrightarrow> 10 \<notin> set t \<Longrightarrow> indented (nat level) (display_ps level name @ t @ [10])"
  using indented_line [of "(case name of Some n \<Rightarrow> n @ [58, 32] | None \<Rightarrow> []) @ t" "nat level"]
  by (cases name) (auto simp: display_ps_def)

lemma to_string_line: "10 \<notin> set (to_string i)"
  using to_string_chars [of 10 i] by (auto simp: is_digit_def)

definition displays :: "('a \<Rightarrow> bool) \<Rightarrow> 'a display \<Rightarrow> bool" where
  "displays ok D \<longleftrightarrow> (\<forall>level v name. 0 \<le> level \<longrightarrow> ok v \<longrightarrow> plain_name name \<longrightarrow> indented (nat level) (D level v name))"

lemma displays_deeper:
  "displays ok D \<Longrightarrow> 0 \<le> level \<Longrightarrow> 0 \<le> k \<Longrightarrow> ok v \<Longrightarrow> indented (nat level) (D (level + k) v None)"
  by (rule indented_deeper [of "nat (level + k)"]) (simp_all add: displays_def)

lemma displays_simple:
  "displays (\<lambda>n. n \<noteq> 10) display_Char" "displays (\<lambda>_. True) display_Short" "displays (\<lambda>_. True) display_Int32"
  "displays (\<lambda>_. True) display_Int64" "displays (\<lambda>_. True) display_Bool" "displays (\<lambda>s. 10 \<notin> set s) display_string"
  using indented_field [of _ "[_]"] indented_field [OF _ to_string_line] indented_field
  by (auto simp: displays_def display_Char_def display_Short_def display_Int32_def display_Int64_def display_Bool_def
      display_string_def)

lemma displays_vector:
  assumes "displays ok D"
  shows "displays (\<lambda>v. \<forall>x \<in> set v. ok x) (display_vector D)"
  unfolding displays_def
proof (intro allI impI)
  fix level v name assume a: "(0 :: int) \<le> level" "\<forall>x \<in> set v. ok x" "plain_name name"
  have "indented (nat level) (display_ps level name @ (to_string (int (length v)) @ [44, 32, 91]) @ [10])"
    "indented (nat level) (display_ps level name @ (to_string (int (length v)) @ [44, 32, 91, 93]) @ [10])"
    using a(3) by (intro indented_field; simp add: to_string_line)+
  moreover have "indented (nat level) (concat (map (\<lambda>x. D (level + 1) x None) v))"
    using displays_deeper [OF assms a(1), of 1] a(2) by (intro indented_concat) simp
  moreover have "indented (nat level) (display_Char level 93 None)"
    using displays_simple(1) a(1) by (simp add: displays_def)
  ultimately show "indented (nat level) (display_vector D level v name)"
    using indented_append [OF indented_append] by (fastforce simp: display_vector_def)
qed

lemma displays_map:
  assumes "displays okk K" and "displays okv V"
  shows "displays (\<lambda>m. \<forall>(k, v) \<in> set m. okk k \<and> okv v) (display_map K V)"
  unfolding displays_def
proof (intro allI impI)
  fix level m name assume a: "(0 :: int) \<le> level" "\<forall>(k, v) \<in> set m. okk k \<and> okv v" "plain_name name"
  have "indented (nat level) (display_ps level name @ (to_string (int (length m)) @ [44, 32, 123]) @ [10])"
    "indented (nat level) (display_ps level name @ (to_string (int (length m)) @ [44, 32, 123, 125]) @ [10])"
    using a(3) by (intro indented_field; simp add: to_string_line)+
  moreover have "indented (nat level) (concat (map (\<lambda>kv. display_Char (level + 1) 40 None @ K (level + 2) (fst kv) None @
      V (level + 2) (snd kv) None @ display_Char (level + 1) 41 None) m))"
    using displays_deeper [OF assms(1) a(1), of 2] displays_deeper [OF assms(2) a(1), of 2]
      displays_deeper [OF displays_simple(1) a(1), of 1] a(2)
    by (intro indented_concat indented_append) auto
  moreover have "indented (nat level) (display_Char level 125 None)"
    using displays_simple(1) a(1) by (simp add: displays_def)
  ultimately show "indented (nat level) (display_map K V level m name)"
    using indented_append [OF indented_append] by (fastforce simp: display_map_def)
qed

section \<open>One line\<close>

lemma simple_elements_range:
  "simple_elements e b xs = (if b \<or> xs = [] then [] else [124]) @ tostr_range (\<lambda>x. e x False) xs [124]"
  by (induction e b xs rule: simple_elements.induct) auto

text \<open>A list on one line is its length and the elements with bars between them.\<close>

lemma displaySimple_vector_spec:
  "v \<noteq> [] \<Longrightarrow> displaySimple_vector e v bSep =
     to_string (int (length v)) @ [123] @ tostr_range (\<lambda>x. e x False) v [124] @ [125] @ bar bSep"
  by (simp add: displaySimple_vector_def simple_elements_range)

text \<open>The separator behind an empty container is missing.\<close>

lemma empty_without_bar:
  "displaySimple_vector e [] True = displaySimple_vector e [] False"
  "displaySimple_map k v [] True = displaySimple_map k v [] False"
  by (simp_all add: displaySimple_vector_def displaySimple_map_def)

end
