(* ===== verification/Tc_Singleton.thy ===== *)
theory Tc_Singleton
  imports Tc_Monitor
begin

text \<open>
  \<^verbatim>\<open>src/util/include/tc_singleton.h\<close>: \<open>getInstance\<close> with its double-checked lock, called by any number
  of threads, against \<open>destroySingleton\<close> at the end of the process, for the three policies of the
  lifetime. Objects are numbered in the order of their creation; reads and writes of the static
  members are sequentially consistent. Which policy creates the object makes no difference here.
\<close>

section \<open>State\<close>

datatype lifetime = DefaultLifetime | PhoneixLifetime | NoDestroyLifetime

text \<open>
  Where a thread is in \<open>getInstance\<close>: outside, before the first test, before the lock, before the
  second test, before the creation, before \<open>scheduleDestruction\<close>, before the unlock (after an
  exception: \<open>False\<close>), before the last read, and back with a pointer or an exception.
\<close>

datatype sg_at =
    SgOutside
  | SgTest
  | SgLocking
  | SgTestAgain
  | SgMaking
  | SgScheduling
  | SgUnlocking bool
  | SgReading
  | SgReturned "nat option"
  | SgThrew

text \<open>\<open>sg_made\<close> and \<open>sg_dead\<close> count the objects created and destroyed, \<open>sg_atexit\<close> the handlers to come.\<close>

record singleton =
  sg_tl :: monitor
  sg_pInstance :: "nat option"
  sg_destroyed :: bool
  sg_bDestroyedOnce :: bool
  sg_atexit :: nat
  sg_made :: nat
  sg_dead :: nat
  sg_at :: "nat \<Rightarrow> sg_at"

definition TC_Singleton_init :: singleton where
  "TC_Singleton_init = \<lparr>sg_tl = monitor_init, sg_pInstance = None, sg_destroyed = False, sg_bDestroyedOnce = False,
     sg_atexit = 0, sg_made = 0, sg_dead = 0, sg_at = (\<lambda>_. SgOutside)\<rparr>"

section \<open>Operations\<close>

text \<open>\<open>None\<close>: \<open>logic_error\<close> is thrown.\<close>

definition deadReference :: "lifetime \<Rightarrow> singleton \<Rightarrow> singleton option" where
  "deadReference pol s =
     (case pol of
        DefaultLifetime \<Rightarrow> None
      | PhoneixLifetime \<Rightarrow> Some (s\<lparr>sg_bDestroyedOnce := True\<rparr>)
      | NoDestroyLifetime \<Rightarrow> Some s)"

definition scheduleDestruction :: "lifetime \<Rightarrow> singleton \<Rightarrow> singleton" where
  "scheduleDestruction pol s =
     (case pol of
        DefaultLifetime \<Rightarrow> s\<lparr>sg_atexit := sg_atexit s + 1\<rparr>
      | PhoneixLifetime \<Rightarrow> if sg_bDestroyedOnce s then s else s\<lparr>sg_atexit := sg_atexit s + 1\<rparr>
      | NoDestroyLifetime \<Rightarrow> s)"

text \<open>The second test, with the lock.\<close>

definition test_again :: "lifetime \<Rightarrow> singleton \<Rightarrow> sg_at \<times> singleton" where
  "test_again pol s =
     (if sg_pInstance s \<noteq> None then (SgUnlocking True, s)
      else if sg_destroyed s then
        (case deadReference pol s of None \<Rightarrow> (SgUnlocking False, s) | Some s' \<Rightarrow> (SgMaking, s'\<lparr>sg_destroyed := False\<rparr>))
      else (SgMaking, s))"

definition make_instance :: "singleton \<Rightarrow> singleton" where
  "make_instance s = s\<lparr>sg_pInstance := Some (sg_made s), sg_made := sg_made s + 1\<rparr>"

text \<open>Destroying a null pointer does nothing; \<open>None\<close> when the assertion fails.\<close>

definition destroySingleton :: "singleton \<Rightarrow> singleton option" where
  "destroySingleton s =
     (if sg_destroyed s then None
      else Some (s\<lparr>sg_dead := (if sg_pInstance s = None then sg_dead s else sg_dead s + 1),
        sg_pInstance := None, sg_destroyed := True\<rparr>))"

definition sg_go :: "nat \<Rightarrow> sg_at \<Rightarrow> singleton \<Rightarrow> singleton" where
  "sg_go t a s = s\<lparr>sg_at := (sg_at s)(t := a)\<rparr>"

inductive singleton_step :: "lifetime \<Rightarrow> singleton \<Rightarrow> singleton \<Rightarrow> bool" for pol where
  call: "sg_at s t \<in> {SgOutside, SgThrew} \<or> (\<exists>r. sg_at s t = SgReturned r) \<Longrightarrow> singleton_step pol s (sg_go t SgTest s)"
| test: "sg_at s t = SgTest \<Longrightarrow>
    singleton_step pol s (sg_go t (if sg_pInstance s = None then SgLocking else SgReading) s)"
| lock: "sg_at s t = SgLocking \<Longrightarrow> monitor_lock t (sg_tl s) = Some m \<Longrightarrow>
    singleton_step pol s (sg_go t SgTestAgain (s\<lparr>sg_tl := m\<rparr>))"
| test_again: "sg_at s t = SgTestAgain \<Longrightarrow> test_again pol s = (a, s') \<Longrightarrow> singleton_step pol s (sg_go t a s')"
| make: "sg_at s t = SgMaking \<Longrightarrow> singleton_step pol s (sg_go t SgScheduling (make_instance s))"
| schedule: "sg_at s t = SgScheduling \<Longrightarrow>
    singleton_step pol s (sg_go t (SgUnlocking True) (scheduleDestruction pol s))"
| unlock: "sg_at s t = SgUnlocking b \<Longrightarrow>
    singleton_step pol s (sg_go t (if b then SgReading else SgThrew) (s\<lparr>sg_tl := monitor_unlock pick t (sg_tl s)\<rparr>))"
| read: "sg_at s t = SgReading \<Longrightarrow> singleton_step pol s (sg_go t (SgReturned (sg_pInstance s)) s)"
| at_exit: "0 < sg_atexit s \<Longrightarrow> destroySingleton (s\<lparr>sg_atexit := sg_atexit s - 1\<rparr>) = Some s' \<Longrightarrow>
    singleton_step pol s s'"

inductive singleton_reaches :: "lifetime \<Rightarrow> singleton \<Rightarrow> bool" for pol where
  start: "singleton_reaches pol TC_Singleton_init"
| step: "singleton_reaches pol s \<Longrightarrow> singleton_step pol s s' \<Longrightarrow> singleton_reaches pol s'"

section \<open>One at a time\<close>

fun sg_locked :: "sg_at \<Rightarrow> bool" where
  "sg_locked SgTestAgain = True"
| "sg_locked SgMaking = True"
| "sg_locked SgScheduling = True"
| "sg_locked (SgUnlocking b) = True"
| "sg_locked _ = False"

definition sg_exclusive :: "singleton \<Rightarrow> bool" where
  "sg_exclusive s \<longleftrightarrow> (\<forall>t. sg_locked (sg_at s t) \<longleftrightarrow> mo_owner (sg_tl s) = Some t)"

text \<open>The objects, by what the members say; none of it depends on where the threads are.\<close>

definition sg_objects :: "lifetime \<Rightarrow> singleton \<Rightarrow> bool" where
  "sg_objects pol s \<longleftrightarrow>
     sg_made s = sg_dead s + (if sg_pInstance s = None then 0 else 1) \<and>
     (sg_pInstance s \<noteq> None \<longrightarrow> sg_pInstance s = Some (sg_dead s)) \<and>
     (0 < sg_atexit s \<longrightarrow> sg_atexit s = 1 \<and> sg_pInstance s \<noteq> None \<and> sg_dead s = 0 \<and> pol \<noteq> NoDestroyLifetime) \<and>
     sg_dead s \<le> 1 \<and> (pol = NoDestroyLifetime \<longrightarrow> sg_dead s = 0) \<and> (sg_destroyed s \<longrightarrow> sg_dead s = 1 \<and> sg_pInstance s = None) \<and>
     (sg_dead s = 1 \<longrightarrow> \<not> sg_destroyed s \<longrightarrow> sg_bDestroyedOnce s \<and> pol = PhoneixLifetime)"

text \<open>What a thread may rely on where it is.\<close>

definition sg_place :: "singleton \<Rightarrow> sg_at \<Rightarrow> bool" where
  "sg_place s a \<longleftrightarrow>
     (case a of
        SgMaking \<Rightarrow> sg_pInstance s = None \<and> \<not> sg_destroyed s
      | SgScheduling \<Rightarrow> sg_pInstance s \<noteq> None \<and> sg_atexit s = 0 \<and> \<not> sg_destroyed s
      | SgUnlocking b \<Rightarrow> b \<longrightarrow> sg_pInstance s \<noteq> None \<or> sg_dead s = 1
      | SgReading \<Rightarrow> sg_pInstance s \<noteq> None \<or> sg_dead s = 1
      | SgReturned r \<Rightarrow> r = Some 0 \<or> sg_dead s = 1
      | _ \<Rightarrow> True)"

definition sg_inv :: "lifetime \<Rightarrow> singleton \<Rightarrow> bool" where
  "sg_inv pol s \<longleftrightarrow> sg_exclusive s \<and> sg_objects pol s \<and> (\<forall>t. sg_place s (sg_at s t))"

lemma sg_go_sel [simp]:
  "sg_tl (sg_go t a s) = sg_tl s" "sg_pInstance (sg_go t a s) = sg_pInstance s" "sg_destroyed (sg_go t a s) = sg_destroyed s"
  "sg_bDestroyedOnce (sg_go t a s) = sg_bDestroyedOnce s" "sg_atexit (sg_go t a s) = sg_atexit s"
  "sg_made (sg_go t a s) = sg_made s" "sg_dead (sg_go t a s) = sg_dead s" "sg_at (sg_go t a s) = (sg_at s)(t := a)"
  by (simp_all add: sg_go_def)

lemma sg_objects_go [simp]: "sg_objects pol (sg_go t a s) = sg_objects pol s" "sg_place (sg_go t a s) b = sg_place s b"
  by (simp add: sg_objects_def) (cases b; simp add: sg_place_def)

lemma sg_objects_tl [simp]: "sg_objects pol (s\<lparr>sg_tl := m\<rparr>) = sg_objects pol s" "sg_place (s\<lparr>sg_tl := m\<rparr>) b = sg_place s b"
  by (simp add: sg_objects_def) (cases b; simp add: sg_place_def)

lemma sg_place_anywhere [simp]: "sg_place s SgTest" "sg_place s SgLocking" "sg_place s SgTestAgain" "sg_place s SgThrew"
  by (simp_all add: sg_place_def)

lemma sg_exclusive_go:
  assumes "sg_exclusive s" and "sg_tl s' = sg_tl s" and "sg_at s' = sg_at s" and "sg_locked a = sg_locked (sg_at s t)"
  shows "sg_exclusive (sg_go t a s')"
  using assms by (auto simp: sg_exclusive_def)

lemma sg_lock_free:
  assumes "sg_exclusive s" and "sg_at s t = SgLocking" and "monitor_lock t (sg_tl s) = Some m"
  shows "mo_owner (sg_tl s) = None" and "mo_owner m = Some t"
proof -
  have "mo_owner (sg_tl s) \<noteq> Some t" using assms(1,2) unfolding sg_exclusive_def by (metis sg_locked.simps(7))
  then show "mo_owner (sg_tl s) = None" "mo_owner m = Some t"
    using assms(3) by (auto simp: monitor_lock_def mutex_lock_def split: option.splits if_splits)
qed

text \<open>A step of one thread, seen from the members: the others keep what they rely on.\<close>

lemma sg_inv_go:
  assumes "sg_inv pol s" and "sg_exclusive (sg_go t a s')" and "sg_objects pol s'" and "sg_place s' a"
    and "\<And>u. u \<noteq> t \<Longrightarrow> sg_place s' (sg_at s' u)"
  shows "sg_inv pol (sg_go t a s')"
  using assms by (auto simp: sg_inv_def)

lemma sg_others:
  assumes "sg_exclusive s" and "sg_locked (sg_at s t)" and "u \<noteq> t"
  shows "\<not> sg_locked (sg_at s u)"
  using assms by (auto simp: sg_exclusive_def)

lemma sg_place_unlocked:
  "\<not> sg_locked a \<Longrightarrow> sg_place s a \<Longrightarrow>
   (sg_pInstance s \<noteq> None \<Longrightarrow> sg_pInstance s' \<noteq> None) \<Longrightarrow> sg_dead s \<le> sg_dead s' \<Longrightarrow> sg_dead s' \<le> 1 \<Longrightarrow> sg_place s' a"
  by (cases a) (auto simp: sg_place_def)

lemma sg_invD:
  assumes "sg_inv pol s"
  shows "sg_exclusive s" and "sg_objects pol s" and "sg_place s (sg_at s t)"
  using assms by (simp_all add: sg_inv_def)

lemma sg_keeps_place:
  assumes inv: "sg_inv pol s" and t: "sg_locked (sg_at s t)" "u \<noteq> t"
    and s': "sg_pInstance s \<noteq> None \<Longrightarrow> sg_pInstance s' \<noteq> None" "sg_dead s' = sg_dead s"
  shows "sg_place s' (sg_at s u)"
  by (rule sg_place_unlocked [OF sg_others [OF sg_invD(1) [OF inv] t] sg_invD(3) [OF inv]])
    (use s' sg_invD(2) [OF inv] in \<open>simp_all add: sg_objects_def\<close>)

lemma sg_test_again:
  assumes inv: "sg_inv pol s" and at: "sg_at s t = SgTestAgain" and r: "test_again pol s = (a, s')"
  shows "sg_inv pol (sg_go t a s')"
proof -
  have same: "sg_tl s' = sg_tl s" "sg_at s' = sg_at s" "sg_locked a" "sg_pInstance s' = sg_pInstance s" "sg_dead s' = sg_dead s"
    using r by (auto simp: test_again_def deadReference_def split: if_splits option.splits lifetime.splits)
  show ?thesis
  proof (rule sg_inv_go [OF inv])
    show "sg_exclusive (sg_go t a s')" by (rule sg_exclusive_go [OF sg_invD(1) [OF inv]]) (use same at in simp_all)
    show "sg_objects pol s'" "sg_place s' a" using r sg_invD(2) [OF inv]
      by (auto simp: test_again_def deadReference_def sg_objects_def sg_place_def split: if_splits option.splits lifetime.splits)
    show "sg_place s' (sg_at s' u)" if "u \<noteq> t" for u
      using sg_keeps_place [OF inv _ that, of s'] at same by simp
  qed
qed

lemma sg_make:
  assumes inv: "sg_inv pol s" and at: "sg_at s t = SgMaking"
  shows "sg_inv pol (sg_go t SgScheduling (make_instance s))"
proof (rule sg_inv_go [OF inv])
  have p: "sg_pInstance s = None" "\<not> sg_destroyed s" using sg_invD(3) [OF inv, of t] at by (simp_all add: sg_place_def)
  show "sg_exclusive (sg_go t SgScheduling (make_instance s))"
    by (rule sg_exclusive_go [OF sg_invD(1) [OF inv]]) (simp_all add: make_instance_def at)
  show "sg_objects pol (make_instance s)" "sg_place (make_instance s) SgScheduling"
    using p sg_invD(2) [OF inv] by (auto simp: sg_objects_def sg_place_def make_instance_def)
  show "sg_place (make_instance s) (sg_at (make_instance s) u)" if "u \<noteq> t" for u
    using sg_keeps_place [OF inv _ that, of "make_instance s"] at by (simp add: make_instance_def)
qed

lemma sg_schedule:
  assumes inv: "sg_inv pol s" and at: "sg_at s t = SgScheduling"
  shows "sg_inv pol (sg_go t (SgUnlocking True) (scheduleDestruction pol s))"
proof (rule sg_inv_go [OF inv])
  let ?s = "scheduleDestruction pol s"
  have p: "sg_pInstance s \<noteq> None" "sg_atexit s = 0" "\<not> sg_destroyed s"
    using sg_invD(3) [OF inv, of t] at by (simp_all add: sg_place_def)
  have same: "sg_tl ?s = sg_tl s" "sg_at ?s = sg_at s" "sg_pInstance ?s = sg_pInstance s" "sg_dead ?s = sg_dead s"
    by (simp_all add: scheduleDestruction_def split: lifetime.split)
  show "sg_exclusive (sg_go t (SgUnlocking True) ?s)"
    by (rule sg_exclusive_go [OF sg_invD(1) [OF inv]]) (simp_all add: same at)
  show "sg_objects pol ?s" "sg_place ?s (SgUnlocking True)"
    using p sg_invD(2) [OF inv]
    by (auto simp: sg_objects_def sg_place_def scheduleDestruction_def le_Suc_eq split: lifetime.splits)
  show "sg_place ?s (sg_at ?s u)" if "u \<noteq> t" for u
    using sg_keeps_place [OF inv _ that, of ?s] at same by simp
qed

lemma sg_exit:
  assumes inv: "sg_inv pol s" and k: "0 < sg_atexit s"
  shows "\<exists>s'. destroySingleton (s\<lparr>sg_atexit := sg_atexit s - 1\<rparr>) = Some s' \<and> sg_inv pol s'"
proof -
  let ?s = "s\<lparr>sg_atexit := 0, sg_dead := 1, sg_pInstance := None, sg_destroyed := True\<rparr>"
  have o: "sg_atexit s = 1" "sg_pInstance s \<noteq> None" "sg_dead s = 0" "\<not> sg_destroyed s" "pol \<noteq> NoDestroyLifetime"
    "sg_made s = 1"
    using sg_invD(2) [OF inv] k by (auto simp: sg_objects_def)
  then have "destroySingleton (s\<lparr>sg_atexit := sg_atexit s - 1\<rparr>) = Some ?s"
    by (simp add: destroySingleton_def)
  moreover have "sg_place ?s (sg_at s t)" for t
    using sg_invD(3) [OF inv, of t] o by (cases "sg_at s t") (simp_all add: sg_place_def)
  moreover have "sg_exclusive ?s" using sg_invD(1) [OF inv] by (simp add: sg_exclusive_def)
  ultimately show ?thesis using o by (simp add: sg_inv_def sg_objects_def)
qed

lemma sg_inv_step:
  assumes "singleton_step pol s s'" and inv: "sg_inv pol s"
  shows "sg_inv pol s'"
  using assms(1)
proof cases
  case (call t)
  have "\<not> sg_locked (sg_at s t)" using call(2) by auto
  then show ?thesis unfolding call(1) using sg_invD [OF inv]
    by (intro sg_inv_go [OF inv] sg_exclusive_go [OF sg_invD(1) [OF inv]]) simp_all
next
  case (test t)
  have "sg_place s (if sg_pInstance s = None then SgLocking else SgReading)" by (simp add: sg_place_def)
  moreover have "\<not> sg_locked (sg_at s t)" using test(2) by simp
  ultimately show ?thesis unfolding test(1) using sg_invD [OF inv]
    by (intro sg_inv_go [OF inv] sg_exclusive_go [OF sg_invD(1) [OF inv]]) simp_all
next
  case (lock t m)
  note free = sg_lock_free [OF sg_invD(1) [OF inv] lock(2,3)]
  have "sg_exclusive (sg_go t SgTestAgain (s\<lparr>sg_tl := m\<rparr>))"
    using sg_invD(1) [OF inv] free by (auto simp: sg_exclusive_def)
  then show ?thesis unfolding lock(1) using sg_invD(2,3) [OF inv] by (intro sg_inv_go [OF inv]) simp_all
next
  case (test_again t a s'')
  then show ?thesis using sg_test_again [OF inv] by simp
next
  case (make t)
  then show ?thesis using sg_make [OF inv] by simp
next
  case (schedule t)
  then show ?thesis using sg_schedule [OF inv] by simp
next
  case (unlock t b pick)
  let ?s = "s\<lparr>sg_tl := monitor_unlock pick t (sg_tl s)\<rparr>"
  have own: "mo_owner (sg_tl s) = Some t"
    using sg_invD(1) [OF inv] unlock(2) unfolding sg_exclusive_def by (metis sg_locked.simps(4))
  have "sg_exclusive (sg_go t (if b then SgReading else SgThrew) ?s)"
    using sg_invD(1) [OF inv] own by (auto simp: sg_exclusive_def monitor_unlock_own)
  moreover have "sg_place s (if b then SgReading else SgThrew)"
    using sg_invD(3) [OF inv, of t] unlock(2) by (simp add: sg_place_def)
  ultimately show ?thesis unfolding unlock(1) using sg_invD(2,3) [OF inv] by (intro sg_inv_go [OF inv]) simp_all
next
  case (read t)
  have "sg_place s (SgReturned (sg_pInstance s))"
    using sg_invD(2) [OF inv] sg_invD(3) [OF inv, of t] read(2) by (auto simp: sg_place_def sg_objects_def le_Suc_eq)
  moreover have "\<not> sg_locked (sg_at s t)" using read(2) by simp
  ultimately show ?thesis unfolding read(1) using sg_invD [OF inv]
    by (intro sg_inv_go [OF inv] sg_exclusive_go [OF sg_invD(1) [OF inv]]) simp_all
next
  case at_exit
  then show ?thesis using sg_exit [OF inv] by auto
qed

lemma sg_inv_reaches: "singleton_reaches pol s \<Longrightarrow> sg_inv pol s"
proof (induction rule: singleton_reaches.induct)
  case start
  then show ?case by (simp add: sg_inv_def sg_exclusive_def sg_objects_def sg_place_def TC_Singleton_init_def monitor_init_def)
qed (rule sg_inv_step)

end
