(* ===== verification/Tc_Socket.thy ===== *)
theory Tc_Socket
  imports Tars_Prelude
begin

text \<open>
  Descriptors: \<^verbatim>\<open>src/util/src/tc_socket.cpp\<close>, \<^verbatim>\<open>src/util/src/tc_epoller.cpp\<close> and
  \<^verbatim>\<open>src/servant/libservant/NetworkUtil.cpp\<close> over a kernel that answers system calls as it likes. The
  server and the client use the few calls they need directly; here is what the wrappers do with
  descriptors, options and errors.
\<close>

unbundle bit_operations_syntax

section \<open>Kernel\<close>

text \<open>
  The answers to come, each a result and \<open>errno\<close> (an error when there is none); the open descriptors,
  what each \<open>socket\<close> call asked for (descriptor, domain, type, protocol), the flags of \<open>fcntl\<close>, the
  options that were set (descriptor, level, option, values), the addresses bound and connected to. A
  new descriptor is the lowest that is free.
\<close>

record sock_kernel =
  kn_answers :: "(int \<times> int) list"
  kn_open :: "int list"
  kn_made :: "(int \<times> int \<times> int \<times> int) list"
  kn_flags :: "int \<Rightarrow> 32 word"
  kn_options :: "(int \<times> int \<times> int \<times> int list) list"
  kn_bound :: "(int \<times> 32 word \<times> 16 word) list"
  kn_peers :: "(int \<times> 32 word \<times> 16 word) list"

definition answer :: "sock_kernel \<Rightarrow> (int \<times> int) \<times> sock_kernel" where
  "answer k = (case kn_answers k of [] \<Rightarrow> ((- 1, 0), k) | a # as \<Rightarrow> (a, k\<lparr>kn_answers := as\<rparr>))"

fun lowest_free :: "int \<Rightarrow> nat \<Rightarrow> int list \<Rightarrow> int" where
  "lowest_free i 0 fds = i"
| "lowest_free i (Suc n) fds = (if i \<in> set fds then lowest_free (i + 1) n (removeAll i fds) else i)"

definition new_fd :: "(int \<times> int) \<Rightarrow> sock_kernel \<Rightarrow> int \<times> sock_kernel" where
  "new_fd r k =
     (if fst r < 0 then (- 1, k)
      else let fd = lowest_free 0 (length (kn_open k)) (kn_open k) in (fd, k\<lparr>kn_open := kn_open k @ [fd]\<rparr>))"

definition sys_socket :: "int \<Rightarrow> int \<Rightarrow> int \<Rightarrow> sock_kernel \<Rightarrow> int \<times> sock_kernel" where
  "sys_socket domain type protocol k =
     (let (r, k1) = answer k; (fd, k2) = new_fd r k1
      in (fd, if fd < 0 then k2 else k2\<lparr>kn_made := kn_made k2 @ [(fd, domain, type, protocol)]\<rparr>))"

definition sys_epoll_create :: "int \<Rightarrow> sock_kernel \<Rightarrow> int \<times> sock_kernel" where
  "sys_epoll_create entries k =
     (let (r, k1) = answer k in if entries \<le> 0 then (- 1, k1) else new_fd r k1)"

definition sys_close :: "int \<Rightarrow> sock_kernel \<Rightarrow> sock_kernel" where
  "sys_close fd k = k\<lparr>kn_open := removeAll fd (kn_open k)\<rparr>"

definition sys_setsockopt :: "int \<Rightarrow> int \<Rightarrow> int \<Rightarrow> int list \<Rightarrow> sock_kernel \<Rightarrow> int \<times> sock_kernel" where
  "sys_setsockopt fd level opt val k =
     (let (r, k1) = answer k
      in (fst r, if fst r = 0 then k1\<lparr>kn_options := kn_options k1 @ [(fd, level, opt, val)]\<rparr> else k1))"

definition sys_setfl :: "int \<Rightarrow> 32 word \<Rightarrow> sock_kernel \<Rightarrow> int \<times> sock_kernel" where
  "sys_setfl fd val k =
     (let (r, k1) = answer k
      in (fst r, if fst r = 0 then k1\<lparr>kn_flags := (kn_flags k1)(fd := val)\<rparr> else k1))"

definition sys_bind :: "int \<Rightarrow> 32 word \<Rightarrow> 16 word \<Rightarrow> sock_kernel \<Rightarrow> int \<times> sock_kernel" where
  "sys_bind fd addr port k =
     (let (r, k1) = answer k
      in (fst r, if fst r = 0 then k1\<lparr>kn_bound := kn_bound k1 @ [(fd, addr, port)]\<rparr> else k1))"

definition sys_connect :: "int \<Rightarrow> 32 word \<Rightarrow> 16 word \<Rightarrow> sock_kernel \<Rightarrow> (int \<times> int) \<times> sock_kernel" where
  "sys_connect fd addr port k = (let (r, k1) = answer k in (r, k1\<lparr>kn_peers := kn_peers k1 @ [(fd, addr, port)]\<rparr>))"

text \<open>Linux.\<close>

abbreviation AF_LOCAL :: int where "AF_LOCAL \<equiv> 1"
abbreviation AF_INET :: int where "AF_INET \<equiv> 2"
abbreviation SOCK_STREAM :: int where "SOCK_STREAM \<equiv> 1"
abbreviation SOCK_DGRAM :: int where "SOCK_DGRAM \<equiv> 2"
abbreviation SOL_SOCKET :: int where "SOL_SOCKET \<equiv> 1"
abbreviation IPPROTO_TCP :: int where "IPPROTO_TCP \<equiv> 6"
abbreviation O_NONBLOCK :: "32 word" where "O_NONBLOCK \<equiv> 2048"
abbreviation EINTR :: int where "EINTR \<equiv> 4"
abbreviation EINPROGRESS :: int where "EINPROGRESS \<equiv> 115"

section \<open>TC_Socket\<close>

record tc_socket =
  ts_sock :: int
  ts_bOwner :: bool
  ts_iDomain :: int

type_synonym 'a sock_act = "(tc_socket \<times> sock_kernel, 'a) act"

definition TC_Socket_new :: tc_socket where
  "TC_Socket_new = \<lparr>ts_sock = - 1, ts_bOwner = True, ts_iDomain = AF_INET\<rparr>"

definition sock_close :: "tc_socket \<times> sock_kernel \<Rightarrow> tc_socket \<times> sock_kernel" where
  "sock_close = (\<lambda>(ts, k). if ts_sock ts \<noteq> - 1 then (ts\<lparr>ts_sock := - 1\<rparr>, sys_close (ts_sock ts) k) else (ts, k))"

definition TC_Socket_delete :: "tc_socket \<times> sock_kernel \<Rightarrow> sock_kernel" where
  "TC_Socket_delete s = (if ts_bOwner (fst s) then snd (sock_close s) else snd s)"

definition sock_init :: "int \<Rightarrow> bool \<Rightarrow> int \<Rightarrow> tc_socket \<times> sock_kernel \<Rightarrow> tc_socket \<times> sock_kernel" where
  "sock_init fd bOwner iDomain s =
     (let (ts, k) = (if ts_bOwner (fst s) then sock_close s else s)
      in (ts\<lparr>ts_sock := fd, ts_bOwner := bOwner, ts_iDomain := iDomain\<rparr>, k))"

definition sock_setOwner :: "bool \<Rightarrow> tc_socket \<times> sock_kernel \<Rightarrow> tc_socket \<times> sock_kernel" where
  "sock_setOwner bOwner = (\<lambda>(ts, k). (ts\<lparr>ts_bOwner := bOwner\<rparr>, k))"

definition sock_createSocket :: "int \<Rightarrow> int \<Rightarrow> unit sock_act" where
  "sock_createSocket iSocketType iDomain s =
     (if iSocketType \<noteq> SOCK_STREAM \<and> iSocketType \<noteq> SOCK_DGRAM then (Abort, s)
      else
        let (ts, k) = sock_close s; (r, k1) = sys_socket iDomain iSocketType 0 k
        in (Ok (), (ts\<lparr>ts_iDomain := iDomain, ts_sock := (if r < 0 then - 1 else r)\<rparr>, k1)))"

text \<open>The loop around \<open>::accept\<close>: the first answer that is not an interruption.\<close>

fun accept_first :: "(int \<times> int) list \<Rightarrow> (int \<times> int) \<times> (int \<times> int) list" where
  "accept_first [] = ((- 1, 0), [])"
| "accept_first (a # as) = (if fst a < 0 \<and> snd a = EINTR then accept_first as else (a, as))"

definition sock_accept :: "tc_socket \<Rightarrow> (tc_socket \<times> sock_kernel, int \<times> tc_socket) act" where
  "sock_accept tcSock = (\<lambda>(ts, k).
     if ts_sock tcSock \<noteq> - 1 then (Abort, (ts, k))
     else
       let (r, as) = accept_first (kn_answers k); (ifd, k1) = new_fd r (k\<lparr>kn_answers := as\<rparr>)
       in (Ok (ifd, tcSock\<lparr>ts_sock := ifd, ts_iDomain := ts_iDomain ts\<rparr>), (ts, k1)))"

definition sock_setSockOpt :: "int \<Rightarrow> int list \<Rightarrow> int \<Rightarrow> tc_socket \<times> sock_kernel \<Rightarrow> int \<times> tc_socket \<times> sock_kernel" where
  "sock_setSockOpt opt val level = (\<lambda>(ts, k). let (r, k1) = sys_setsockopt (ts_sock ts) level opt val k in (r, (ts, k1)))"

text \<open>
  \<open>parseAddr\<close> with what \<open>inet_pton\<close> and \<open>gethostbyname_r\<close> say of the text; without an answer the
  address stays.
\<close>

definition parseAddr :: "(bytes \<Rightarrow> int \<times> 32 word) \<Rightarrow> (bytes \<Rightarrow> 32 word option) \<Rightarrow> bytes \<Rightarrow> 32 word \<Rightarrow> 32 word" where
  "parseAddr inet_pton gethostbyname sAddr stSinAddr =
     (let (iRet, a) = inet_pton sAddr in
      if iRet < 0 then stSinAddr
      else if iRet = 0 then (case gethostbyname sAddr of None \<Rightarrow> stSinAddr | Some h \<Rightarrow> h)
      else a)"

text \<open>\<open>SO_REUSEADDR\<close> is 2; failures are only printed.\<close>

definition sock_bind_addr :: "32 word \<Rightarrow> 16 word \<Rightarrow> tc_socket \<times> sock_kernel \<Rightarrow> tc_socket \<times> sock_kernel" where
  "sock_bind_addr addr port s =
     (let (_, (ts, k)) = sock_setSockOpt 2 [1] SOL_SOCKET s in (ts, snd (sys_bind (ts_sock ts) addr port k)))"

definition sock_bind ::
  "(bytes \<Rightarrow> int \<times> 32 word) \<Rightarrow> (bytes \<Rightarrow> 32 word option) \<Rightarrow> bytes \<Rightarrow> int \<Rightarrow> unit sock_act" where
  "sock_bind inet_pton gethostbyname sServerAddr port s =
     (if ts_iDomain (fst s) \<noteq> AF_INET then (Abort, s)
      else
        let addr = (if sServerAddr = [] then 0 else parseAddr inet_pton gethostbyname sServerAddr 0)
        in (Ok (), sock_bind_addr addr (word_of_int port) s))"

text \<open>An empty address is only printed; an address that is not found stays 0.\<close>

definition sock_connect_addr :: "32 word \<Rightarrow> 16 word \<Rightarrow> tc_socket \<times> sock_kernel \<Rightarrow> int \<times> tc_socket \<times> sock_kernel" where
  "sock_connect_addr addr port = (\<lambda>(ts, k). let (r, k1) = sys_connect (ts_sock ts) addr port k in (fst r, (ts, k1)))"

definition sock_connectNoThrow ::
  "(bytes \<Rightarrow> int \<times> 32 word) \<Rightarrow> (bytes \<Rightarrow> 32 word option) \<Rightarrow> bytes \<Rightarrow> 16 word \<Rightarrow> int sock_act" where
  "sock_connectNoThrow inet_pton gethostbyname sServerAddr port s =
     (if ts_iDomain (fst s) \<noteq> AF_INET then (Abort, s)
      else
        let (r, s1) = sock_connect_addr (parseAddr inet_pton gethostbyname sServerAddr 0) port s
        in (Ok r, s1))"

definition sock_connect ::
  "(bytes \<Rightarrow> int \<times> 32 word) \<Rightarrow> (bytes \<Rightarrow> 32 word option) \<Rightarrow> bytes \<Rightarrow> 16 word \<Rightarrow> unit sock_act" where
  "sock_connect inet_pton gethostbyname sServerAddr port =
     andthen (sock_connectNoThrow inet_pton gethostbyname sServerAddr port) (\<lambda>r. ret ())"

definition sock_listen :: "int \<Rightarrow> tc_socket \<times> sock_kernel \<Rightarrow> tc_socket \<times> sock_kernel" where
  "sock_listen iConnBackLog = (\<lambda>(ts, k). (ts, snd (answer k)))"

text \<open>When \<open>F_GETFL\<close> fails the flags are set from its result, - 1.\<close>

definition setblock_fd :: "int \<Rightarrow> bool \<Rightarrow> sock_kernel \<Rightarrow> sock_kernel" where
  "setblock_fd fd bBlock k =
     (let (r, k1) = answer k;
          val = (if fst r = - 1 then - 1 else kn_flags k1 fd);
          val1 = (if \<not> bBlock then val OR O_NONBLOCK else val AND NOT O_NONBLOCK)
      in snd (sys_setfl fd val1 k1))"

definition sock_setblock :: "bool \<Rightarrow> unit sock_act" where
  "sock_setblock bBlock s =
     (if ts_sock (fst s) = - 1 then (Abort, s) else (Ok (), (fst s, setblock_fd (ts_sock (fst s)) bBlock (snd s))))"

text \<open>\<open>SO_KEEPALIVE\<close> is 9, \<open>TCP_NODELAY\<close> 1, \<open>SO_LINGER\<close> 13.\<close>

definition sock_setKeepAlive :: "tc_socket \<times> sock_kernel \<Rightarrow> tc_socket \<times> sock_kernel" where
  "sock_setKeepAlive s = snd (sock_setSockOpt 9 [1] SOL_SOCKET s)"

definition sock_setTcpNoDelay :: "tc_socket \<times> sock_kernel \<Rightarrow> tc_socket \<times> sock_kernel" where
  "sock_setTcpNoDelay s = snd (sock_setSockOpt 1 [1] IPPROTO_TCP s)"

definition sock_setNoCloseWait :: "tc_socket \<times> sock_kernel \<Rightarrow> tc_socket \<times> sock_kernel" where
  "sock_setNoCloseWait s = snd (sock_setSockOpt 13 [1, 0] SOL_SOCKET s)"

definition sock_setCloseWaitDefault :: "tc_socket \<times> sock_kernel \<Rightarrow> tc_socket \<times> sock_kernel" where
  "sock_setCloseWaitDefault s = snd (sock_setSockOpt 13 [0, 0] SOL_SOCKET s)"

text \<open>
  \<open>recvfrom\<close> with what the kernel and \<open>inet_ntop\<close> answer: the sender's address as text, empty when it
  has none in the socket's domain. On an error the caller's variables stay.
\<close>

definition sock_recvfrom ::
  "(int \<Rightarrow> 32 word \<Rightarrow> bytes option) \<Rightarrow> tc_socket \<Rightarrow> int \<times> 32 word \<times> 16 word \<Rightarrow> bytes \<times> 16 word \<Rightarrow> int \<times> bytes \<times> 16 word" where
  "sock_recvfrom inet_ntop ts = (\<lambda>(iBytes, addr, port) (sFromAddr, iFromPort).
     if 0 \<le> iBytes
     then (iBytes, (case inet_ntop (ts_iDomain ts) addr of None \<Rightarrow> [] | Some sAddr \<Rightarrow> sAddr), port)
     else (iBytes, sFromAddr, iFromPort))"

section \<open>TC_Epoller\<close>

record tc_epoller =
  ep_iEpollfd :: int
  ep_pevs :: "nat option"
  ep_et :: bool
  ep_max_connections :: int

definition TC_Epoller_new :: "bool \<Rightarrow> tc_epoller" where
  "TC_Epoller_new bEt = \<lparr>ep_iEpollfd = - 1, ep_pevs = None, ep_et = bEt, ep_max_connections = 1024\<rparr>"

text \<open>\<open>create\<close> closes nothing; \<open>ep_pevs\<close> is the size of the array.\<close>

definition epoller_create :: "int \<Rightarrow> tc_epoller \<times> sock_kernel \<Rightarrow> tc_epoller \<times> sock_kernel" where
  "epoller_create max_connections = (\<lambda>(e, k).
     let (r, k1) = sys_epoll_create (max_connections + 1) k
     in (e\<lparr>ep_max_connections := max_connections, ep_iEpollfd := r, ep_pevs := Some (nat (max_connections + 1))\<rparr>, k1))"

definition TC_Epoller_delete :: "tc_epoller \<times> sock_kernel \<Rightarrow> sock_kernel" where
  "TC_Epoller_delete = (\<lambda>(e, k). if 0 < ep_iEpollfd e then sys_close (ep_iEpollfd e) k else k)"

text \<open>The event and the operation that \<open>epoll_ctl\<close> gets; \<open>EPOLLET\<close> is the highest bit.\<close>

definition epoller_ctrl :: "int \<Rightarrow> 64 word \<Rightarrow> 32 word \<Rightarrow> int \<Rightarrow> tc_epoller \<Rightarrow> int \<times> int \<times> 64 word \<times> 32 word" where
  "epoller_ctrl fd dat events op e = (op, fd, dat, if ep_et e then events OR 2147483648 else events)"

section \<open>NetworkUtil\<close>

definition net_setSockOpt :: "int \<Rightarrow> int \<Rightarrow> int \<Rightarrow> (sock_kernel, unit) act" where
  "net_setSockOpt fd level opt k =
     (let (r, k1) = sys_setsockopt fd level opt [1] k
      in if r = - 1 then (Throw TarsNetSocketException, sys_close fd k1) else (Ok (), k1))"

definition net_setTcpNoDelay :: "int \<Rightarrow> (sock_kernel, unit) act" where
  "net_setTcpNoDelay fd = net_setSockOpt fd IPPROTO_TCP 1"

definition net_setKeepAlive :: "int \<Rightarrow> (sock_kernel, unit) act" where
  "net_setKeepAlive fd = net_setSockOpt fd SOL_SOCKET 9"

definition net_createSocket :: "bool \<Rightarrow> bool \<Rightarrow> (sock_kernel, int) act" where
  "net_createSocket udp isLocal k =
     (let (fd, k1) = sys_socket (if isLocal then AF_LOCAL else AF_INET) SOCK_STREAM IPPROTO_TCP k in
      if fd = - 1 then (Throw TarsNetSocketException, k1)
      else
        andthen (if \<not> udp then andthen (net_setTcpNoDelay fd) (\<lambda>_. net_setKeepAlive fd) else ret ())
          (\<lambda>_. ret fd) k1)"

text \<open>What \<open>F_GETFL\<close> returns is not tested.\<close>

definition net_setBlock :: "int \<Rightarrow> bool \<Rightarrow> (sock_kernel, unit) act" where
  "net_setBlock fd block k =
     (let (g, k1) = answer k;
          flags = (if fst g = - 1 then - 1 else kn_flags k1 fd);
          (r, k2) = sys_setfl fd (if block then flags AND NOT O_NONBLOCK else flags OR O_NONBLOCK) k1
      in if r = - 1 then (Throw TarsNetSocketException, sys_close fd k2) else (Ok (), k2))"

definition net_doBind :: "int \<Rightarrow> 32 word \<Rightarrow> 16 word \<Rightarrow> (sock_kernel, unit) act" where
  "net_doBind fd addr port k =
     (let (r, k1) = sys_bind fd addr port k
      in if r = - 1 then (Throw TarsNetSocketException, sys_close fd k1) else (Ok (), k1))"

definition net_doConnect :: "int \<Rightarrow> 32 word \<Rightarrow> 16 word \<Rightarrow> (sock_kernel, bool) act" where
  "net_doConnect fd addr port k =
     (let (r, k1) = sys_connect fd addr port k in
      if fst r = 0 then (Ok True, k1)
      else if fst r = - 1 \<and> snd r \<noteq> EINPROGRESS then (Throw TarsNetConnectException, sys_close fd k1)
      else (Ok False, k1))"

text \<open>
  \<open>getAddress\<close>: \<open>inet_addr\<close> of the host, and the answers of \<open>getaddrinfo\<close>, each a code and an address,
  if any; \<open>EAI_AGAIN\<close> is - 3. The loop ends with its last answer.
\<close>

fun resolve :: "int \<Rightarrow> (int \<times> 32 word option) list \<Rightarrow> int \<times> 32 word option" where
  "resolve retry [] = (0, None)"
| "resolve retry (a # as) =
     (if snd a = None \<and> fst a = - 3 \<and> 0 \<le> retry - 1 \<and> as \<noteq> [] then resolve (retry - 1) as else a)"

definition net_getAddress :: "32 word \<Rightarrow> (int \<times> 32 word option) list \<Rightarrow> int \<Rightarrow> (32 word \<times> 16 word) outcome" where
  "net_getAddress inet_addr infos port =
     (if inet_addr \<noteq> - 1 then Ok (inet_addr, word_of_int port)
      else case resolve 5 infos of (rs, info) \<Rightarrow>
        if rs \<noteq> 0 then Throw TarsNetSocketException
        else case info of None \<Rightarrow> Abort | Some a \<Rightarrow> Ok (a, word_of_int port))"

section \<open>Descriptors are given back\<close>

lemma lowest_free_bound: "i \<le> lowest_free i n fds"
  by (induction i n fds rule: lowest_free.induct) (auto intro: order_trans[rotated])

lemma lowest_free_free: "length fds \<le> n \<Longrightarrow> lowest_free i n fds \<notin> set fds"
proof (induction i n fds rule: lowest_free.induct)
  case (2 i n fds)
  show ?case
  proof (cases "i \<in> set fds")
    case True
    have "length (removeAll i fds) < length fds" using True by (rule length_removeAll_less)
    moreover have "lowest_free (i + 1) n (removeAll i fds) \<noteq> i"
      using lowest_free_bound [of "i + 1" n "removeAll i fds"] by simp
    ultimately show ?thesis using True 2 by auto
  qed simp
qed simp

lemma answer_open [simp]: "kn_open (snd (answer k)) = kn_open k"
  by (simp add: answer_def split: list.split)

lemma sys_open [simp]:
  "kn_open (snd (sys_setsockopt fd l opt v k)) = kn_open k" "kn_open (snd (sys_setfl fd w k)) = kn_open k"
  "kn_open (snd (sys_bind fd a p k)) = kn_open k" "kn_open (snd (sys_connect fd a p k)) = kn_open k"
  using answer_open [of k]
  by (cases "answer k"; simp add: sys_setsockopt_def sys_setfl_def sys_bind_def sys_connect_def)+

lemma new_fd_spec:
  "new_fd r k = (if fst r < 0 then (- 1, k) else let fd = fst (new_fd r k) in (fd, k\<lparr>kn_open := kn_open k @ [fd]\<rparr>))"
  "0 \<le> fst r \<Longrightarrow> 0 \<le> fst (new_fd r k) \<and> fst (new_fd r k) \<notin> set (kn_open k)"
  using lowest_free_bound [of 0 "length (kn_open k)" "kn_open k"]
    lowest_free_free [of "kn_open k" "length (kn_open k)" 0]
  by (auto simp: new_fd_def Let_def)

text \<open>A socket that owns its descriptor, over the descriptors that were open before.\<close>

definition holds :: "int list \<Rightarrow> tc_socket \<times> sock_kernel \<Rightarrow> bool" where
  "holds base s \<longleftrightarrow>
     ts_bOwner (fst s) \<and> (ts_sock (fst s) \<noteq> - 1 \<longrightarrow> ts_sock (fst s) \<notin> set base) \<and>
     kn_open (snd s) = base @ (if ts_sock (fst s) = - 1 then [] else [ts_sock (fst s)])"

lemma holds_new: "holds (kn_open k) (TC_Socket_new, k)"
  by (simp add: holds_def TC_Socket_new_def)

lemma holds_same:
  "holds base s \<Longrightarrow> fst s' = fst s \<Longrightarrow> kn_open (snd s') = kn_open (snd s) \<Longrightarrow> holds base s'"
  by (simp add: holds_def)

lemma sock_close_holds:
  "holds base s \<Longrightarrow> ts_sock (fst (sock_close s)) = - 1 \<and> kn_open (snd (sock_close s)) = base \<and> ts_bOwner (fst (sock_close s))"
  by (cases s) (auto simp: holds_def sock_close_def sys_close_def)

lemma TC_Socket_delete_holds: "holds base s \<Longrightarrow> kn_open (TC_Socket_delete s) = base"
  using sock_close_holds [of base s] by (auto simp: TC_Socket_delete_def holds_def)

lemma sys_socket_spec:
  "kn_open (snd (sys_socket d t p k)) =
     kn_open k @ (if fst (sys_socket d t p k) < 0 then [] else [fst (sys_socket d t p k)])"
  "0 \<le> fst (sys_socket d t p k) \<Longrightarrow> fst (sys_socket d t p k) \<notin> set (kn_open k)"
  "fst (sys_socket d t p k) < 0 \<Longrightarrow> fst (sys_socket d t p k) = - 1"
proof -
  obtain r k1 where a: "answer k = (r, k1)" by fastforce
  have open_k1: "kn_open k1 = kn_open k" using answer_open [of k] a by simp
  show "kn_open (snd (sys_socket d t p k)) =
      kn_open k @ (if fst (sys_socket d t p k) < 0 then [] else [fst (sys_socket d t p k)])"
    "0 \<le> fst (sys_socket d t p k) \<Longrightarrow> fst (sys_socket d t p k) \<notin> set (kn_open k)"
    "fst (sys_socket d t p k) < 0 \<Longrightarrow> fst (sys_socket d t p k) = - 1"
    using new_fd_spec [where r = r and k = k1] open_k1
    by (cases "fst r < 0"; auto simp: sys_socket_def a Let_def new_fd_def split: if_splits)+
qed

text \<open>What a program does with one socket.\<close>

datatype sock_op =
    SockCreate int int
  | SockBind bytes int
  | SockConnect bytes "16 word"
  | SockListen int
  | SockBlock bool
  | SockOption int "int list" int
  | SockKeepAlive
  | SockNoDelay
  | SockNoCloseWait
  | SockCloseWait
  | SockClose

definition plainly :: "(tc_socket \<times> sock_kernel \<Rightarrow> tc_socket \<times> sock_kernel) \<Rightarrow> unit sock_act" where
  "plainly f s = (Ok (), f s)"

fun sock_do ::
  "(bytes \<Rightarrow> int \<times> 32 word) \<Rightarrow> (bytes \<Rightarrow> 32 word option) \<Rightarrow> sock_op \<Rightarrow> unit sock_act" where
  "sock_do pton names (SockCreate t d) = sock_createSocket t d"
| "sock_do pton names (SockBind a p) = sock_bind pton names a p"
| "sock_do pton names (SockConnect a p) = sock_connect pton names a p"
| "sock_do pton names (SockListen n) = plainly (sock_listen n)"
| "sock_do pton names (SockBlock b) = sock_setblock b"
| "sock_do pton names (SockOption opt val level) = plainly (\<lambda>s. snd (sock_setSockOpt opt val level s))"
| "sock_do pton names SockKeepAlive = plainly sock_setKeepAlive"
| "sock_do pton names SockNoDelay = plainly sock_setTcpNoDelay"
| "sock_do pton names SockNoCloseWait = plainly sock_setNoCloseWait"
| "sock_do pton names SockCloseWait = plainly sock_setCloseWaitDefault"
| "sock_do pton names SockClose = plainly sock_close"

fun sock_run ::
  "(bytes \<Rightarrow> int \<times> 32 word) \<Rightarrow> (bytes \<Rightarrow> 32 word option) \<Rightarrow> sock_op list \<Rightarrow> unit sock_act" where
  "sock_run pton names [] = ret ()"
| "sock_run pton names (p # ps) = andthen (sock_do pton names p) (\<lambda>_. sock_run pton names ps)"

definition same_fds :: "tc_socket \<times> sock_kernel \<Rightarrow> tc_socket \<times> sock_kernel \<Rightarrow> bool" where
  "same_fds s s' \<longleftrightarrow> fst s' = fst s \<and> kn_open (snd s') = kn_open (snd s)"

lemma setSockOpt_same: "same_fds s (snd (sock_setSockOpt opt val level s))"
  by (cases s) (simp add: same_fds_def sock_setSockOpt_def Let_def split_beta)

lemma bind_addr_same: "same_fds s (sock_bind_addr addr port s)"
  using setSockOpt_same [of s 2 "[1]" SOL_SOCKET]
  by (simp add: same_fds_def sock_bind_addr_def Let_def split_beta)

lemma connect_addr_same: "same_fds s (snd (sock_connect_addr addr port s))"
  by (cases s) (simp add: same_fds_def sock_connect_addr_def Let_def split_beta)

lemma setblock_fd_open: "kn_open (setblock_fd fd b k) = kn_open k"
  by (simp add: setblock_fd_def Let_def split_beta)

lemma same_refl: "same_fds s s"
  by (simp add: same_fds_def)

lemmas sock_same = same_refl setSockOpt_same bind_addr_same connect_addr_same

lemma sock_others_same:
  "same_fds s (snd (sock_bind pton names a port s))" "same_fds s (snd (sock_connect pton names a p s))"
  "same_fds s (sock_listen n s)" "same_fds s (snd (sock_setblock b s))" "same_fds s (sock_setKeepAlive s)"
  "same_fds s (sock_setTcpNoDelay s)" "same_fds s (sock_setNoCloseWait s)" "same_fds s (sock_setCloseWaitDefault s)"
  subgoal by (simp add: sock_bind_def sock_same Let_def)
  subgoal
    using connect_addr_same [of s "parseAddr pton names a 0" p]
    by (simp add: sock_connect_def sock_connectNoThrow_def andthen_def ret_apply Let_def split_beta same_refl)
  subgoal by (cases s) (simp add: sock_listen_def same_fds_def)
  subgoal by (simp add: sock_setblock_def same_fds_def setblock_fd_open)
  by (simp_all add: sock_setKeepAlive_def sock_setTcpNoDelay_def sock_setNoCloseWait_def sock_setCloseWaitDefault_def sock_same)

lemma holds_same_fds: "holds base s \<Longrightarrow> same_fds s s' \<Longrightarrow> holds base s'"
  by (simp add: holds_def same_fds_def)

lemma sock_createSocket_holds: "holds base s \<Longrightarrow> holds base (snd (sock_createSocket t d s))"
proof -
  assume h: "holds base s"
  obtain ts k where c: "sock_close s = (ts, k)" by fastforce
  have closed: "kn_open k = base" "ts_bOwner ts" using sock_close_holds [OF h] c by simp_all
  obtain r k1 where m: "sys_socket d t 0 k = (r, k1)" by fastforce
  show ?thesis
  proof (cases "r < 0")
    case True
    then show ?thesis
      using h closed m sys_socket_spec [of d t 0 k] by (simp add: sock_createSocket_def c holds_def)
  next
    case False
    then show ?thesis
      using h closed m sys_socket_spec [of d t 0 k] by (simp add: sock_createSocket_def c holds_def)
  qed
qed

lemma sock_do_keeps: "holds base s \<Longrightarrow> holds base (snd (sock_do pton names p s))"
proof (cases p)
  case SockClose
  assume "holds base s"
  then show ?thesis
    using sock_close_holds [of base s] by (simp add: SockClose plainly_def holds_def)
qed (simp_all add: sock_createSocket_holds plainly_def holds_same_fds [OF _ sock_others_same(1)]
      holds_same_fds [OF _ sock_others_same(2)] holds_same_fds [OF _ sock_others_same(3)]
      holds_same_fds [OF _ sock_others_same(4)] holds_same_fds [OF _ sock_others_same(5)]
      holds_same_fds [OF _ sock_others_same(6)] holds_same_fds [OF _ sock_others_same(7)]
      holds_same_fds [OF _ sock_others_same(8)] holds_same_fds [OF _ setSockOpt_same])

lemma sock_run_keeps: "holds base s \<Longrightarrow> holds base (snd (sock_run pton names ps s))"
proof (induction ps arbitrary: s)
  case (Cons p ps)
  then show ?case
    using sock_do_keeps [OF Cons.prems, of pton names p]
    by (cases "sock_do pton names p s") (auto simp: andthen_def split: outcome.split)
qed (simp add: ret_apply)

text \<open>The accepting socket keeps its descriptor; the accepted one owns the new one.\<close>

lemma sock_accept_spec:
  "sock_accept TC_Socket_new (ts, k) = (Ok (ifd, peer), (ts', k')) \<Longrightarrow>
     ts' = ts \<and> ts_sock peer = ifd \<and> ts_iDomain peer = ts_iDomain ts \<and> holds (kn_open k) (peer, k')"
  using new_fd_spec [where r = "fst (accept_first (kn_answers k))" and k = "k\<lparr>kn_answers := snd (accept_first (kn_answers k))\<rparr>"]
  by (auto simp: sock_accept_def TC_Socket_new_def holds_def Let_def split_beta new_fd_def split: if_splits)

section \<open>Errors of NetworkUtil\<close>

lemma net_setSockOpt_open:
  "net_setSockOpt fd level opt k = (r, k') \<Longrightarrow>
     (r = Ok () \<and> kn_open k' = kn_open k) \<or> (r = Throw TarsNetSocketException \<and> kn_open k' = removeAll fd (kn_open k))"
  by (auto simp: net_setSockOpt_def sys_close_def Let_def split_beta split: if_splits)

lemma net_createSocket_spec:
  "net_createSocket udp isLocal k = (r, k') \<Longrightarrow>
     (case r of Ok fd \<Rightarrow> kn_open k' = kn_open k @ [fd] \<and> fd \<notin> set (kn_open k)
      | _ \<Rightarrow> r = Throw TarsNetSocketException \<and> kn_open k' = kn_open k)"
proof -
  assume run: "net_createSocket udp isLocal k = (r, k')"
  define made where "made = sys_socket (if isLocal then AF_LOCAL else AF_INET) SOCK_STREAM IPPROTO_TCP k"
  obtain fd k1 where m: "made = (fd, k1)" by fastforce
  show ?thesis
  proof (cases "fd < 0")
    case True
    then show ?thesis
      using run m sys_socket_spec [where d = "if isLocal then AF_LOCAL else AF_INET" and t = SOCK_STREAM and p = IPPROTO_TCP and k = k]
      unfolding made_def by (auto simp: net_createSocket_def)
  next
    case False
    have fresh: "kn_open k1 = kn_open k @ [fd]" "fd \<notin> set (kn_open k)" "fd \<noteq> - 1"
      using False m sys_socket_spec [where d = "if isLocal then AF_LOCAL else AF_INET" and t = SOCK_STREAM and p = IPPROTO_TCP and k = k]
      unfolding made_def by auto
    obtain r1 k2 where n: "net_setSockOpt fd IPPROTO_TCP 1 k1 = (r1, k2)" by fastforce
    obtain r2 k3 where a: "net_setSockOpt fd SOL_SOCKET 9 k2 = (r2, k3)" by fastforce
    show ?thesis
      using run m fresh n a net_setSockOpt_open [OF n] net_setSockOpt_open [OF a] unfolding made_def
      by (auto simp: net_createSocket_def net_setTcpNoDelay_def net_setKeepAlive_def andthen_def ret_apply
          split: if_splits)
  qed
qed

text \<open>Every later step closes the descriptor when it throws, and never otherwise.\<close>

definition closes_on_error :: "int \<Rightarrow> (sock_kernel, 'a) act \<Rightarrow> bool" where
  "closes_on_error fd m \<longleftrightarrow>
     (\<forall>k. (case fst (m k) of Ok _ \<Rightarrow> kn_open (snd (m k)) = kn_open k
          | Throw _ \<Rightarrow> kn_open (snd (m k)) = removeAll fd (kn_open k)
          | _ \<Rightarrow> False))"

lemma net_steps_close:
  "closes_on_error fd (net_setTcpNoDelay fd)" "closes_on_error fd (net_setKeepAlive fd)"
  "closes_on_error fd (net_setBlock fd b)" "closes_on_error fd (net_doBind fd a p)"
  "closes_on_error fd (net_doConnect fd a p)"
  by (simp_all add: closes_on_error_def net_setTcpNoDelay_def net_setKeepAlive_def net_setSockOpt_def
      net_setBlock_def net_doBind_def net_doConnect_def sys_close_def Let_def split_beta)

section \<open>Opening a connection\<close>

text \<open>
  The first half of \<open>Transceiver::connect\<close>. The address is looked up after the descriptor was made and
  before it is stored.
\<close>

definition open_connection :: "32 word \<Rightarrow> (int \<times> 32 word option) list \<Rightarrow> int \<Rightarrow> (sock_kernel, int \<times> bool) act" where
  "open_connection inet_addr infos port =
     andthen (net_createSocket False False) (\<lambda>fd.
       andthen (net_setBlock fd False) (\<lambda>_.
         andthen (\<lambda>k. (net_getAddress inet_addr infos port, k)) (\<lambda>(addr, p).
           andthen (net_doConnect fd addr p) (\<lambda>connected. ret (fd, connected)))))"

text \<open>The descriptor of a connection whose address could not be found.\<close>

definition left_open :: "32 word \<Rightarrow> (int \<times> 32 word option) list \<Rightarrow> int \<Rightarrow> sock_kernel \<Rightarrow> int list" where
  "left_open inet_addr infos port k =
     (case net_createSocket False False k of
        (Ok fd, k1) \<Rightarrow>
          (case (fst (net_setBlock fd False k1), net_getAddress inet_addr infos port) of
             (Ok _, Ok _) \<Rightarrow> []
           | (Ok _, _) \<Rightarrow> [fd]
           | _ \<Rightarrow> [])
      | _ \<Rightarrow> [])"

lemma closes_on_errorD:
  "closes_on_error fd m \<Longrightarrow> m k = (r, k') \<Longrightarrow>
     (\<exists>a. r = Ok a \<and> kn_open k' = kn_open k) \<or> (\<exists>e. r = Throw e \<and> kn_open k' = removeAll fd (kn_open k))"
  by (drule closes_on_error_def [THEN iffD1, THEN spec, of _ _ k]) (auto split: outcome.splits)

lemma open_connection_spec:
  "open_connection inet_addr infos port k = (r, k') \<Longrightarrow>
     kn_open k' = kn_open k @ (case r of Ok (fd, _) \<Rightarrow> [fd] | _ \<Rightarrow> left_open inet_addr infos port k)"
proof -
  assume run: "open_connection inet_addr infos port k = (r, k')"
  obtain rc k1 where c: "net_createSocket False False k = (rc, k1)" by fastforce
  note made = net_createSocket_spec [OF c]
  show ?thesis
  proof (cases rc)
    case (Ok fd)
    obtain rb k2 where b: "net_setBlock fd False k1 = (rb, k2)" by fastforce
    note blocked = closes_on_errorD [OF net_steps_close(3) b]
    show ?thesis
    proof (cases "net_getAddress inet_addr infos port")
      case found: (Ok ap)
      obtain rd k3 where d: "net_doConnect fd (fst ap) (snd ap) k2 = (rd, k3)" by fastforce
      note connected = closes_on_errorD [OF net_steps_close(5) d]
      show ?thesis
        using run made blocked connected c b d Ok found
        by (auto simp: open_connection_def left_open_def andthen_def ret_apply split_beta)
    qed (use run made blocked c b Ok in \<open>auto simp: open_connection_def left_open_def andthen_def split_beta\<close>)
  qed (use run made c in \<open>auto simp: open_connection_def left_open_def andthen_def\<close>)
qed

text \<open>A host without an address: the descriptor 3, the lowest that is free, stays open.\<close>

lemma lookup_fails_example:
  "let k = \<lparr>kn_answers = [(0, 0), (0, 0), (0, 0), (0, 0), (0, 0)], kn_open = [0, 1, 2], kn_made = [],
      kn_flags = (\<lambda>_. 2), kn_options = [], kn_bound = [], kn_peers = []\<rparr>;
     (r, k') = open_connection (- 1) [(- 2, None)] 80 k
   in r = Throw TarsNetSocketException \<and> kn_open k' = [0, 1, 2, 3]"
  by code_simp

section \<open>The server's sockets\<close>

text \<open>
  The calls of \<open>NetThread::bind\<close> on a socket, and \<open>NetThread::accept\<close>: the listening descriptor is lent
  to one socket, the new one is left open by another that does not own it. Zero counts as a failure.
\<close>

definition bind_calls :: "bytes \<Rightarrow> int \<Rightarrow> sock_op list" where
  "bind_calls host port =
     [SockCreate SOCK_STREAM AF_INET, SockBind host port, SockListen 1024, SockKeepAlive, SockNoDelay,
      SockNoCloseWait, SockBlock False]"

definition accept_calls :: "sock_op list" where
  "accept_calls = [SockBlock False, SockKeepAlive, SockNoDelay, SockCloseWait]"

definition accept_socket :: "int \<Rightarrow> (sock_kernel, int) act" where
  "accept_socket fd k =
     (let (cs, k1) = sock_setOwner False (TC_Socket_new, k);
          (s, k2) = sock_init fd False AF_INET (TC_Socket_new, k1)
      in case sock_accept cs (s, k2) of
           (Ok (r, cs1), (s1, k3)) \<Rightarrow>
             let (cs2, k4) =
                   (if 0 < r then snd (sock_run (\<lambda>_. (- 1, 0)) (\<lambda>_. None) accept_calls (cs1, k3)) else (cs1, k3))
             in (Ok r, TC_Socket_delete (cs2, TC_Socket_delete (s1, k4)))
         | (_, (s1, k3)) \<Rightarrow> (Abort, k3))"

lemma same_trans: "same_fds s s' \<Longrightarrow> same_fds s' s'' \<Longrightarrow> same_fds s s''"
  by (simp add: same_fds_def)

lemma sock_run_same:
  "list_all (\<lambda>p. \<forall>s. same_fds s (snd (sock_do pton names p s))) ps \<Longrightarrow>
     same_fds s (snd (sock_run pton names ps s))"
proof (induction ps arbitrary: s)
  case (Cons p ps)
  have first: "same_fds s (snd (sock_do pton names p s))" using Cons.prems by (cases s) simp
  have rest: "same_fds s' (snd (sock_run pton names ps s'))" for s' using Cons.IH Cons.prems by simp
  show ?case
    using first same_trans [OF first rest]
    by (cases "sock_do pton names p s") (auto simp: andthen_def split: outcome.split)
qed (simp add: ret_apply same_refl)

lemma accept_calls_same: "same_fds s (snd (sock_run pton names accept_calls s))"
  by (rule sock_run_same) (simp add: accept_calls_def plainly_def sock_others_same)

lemma accept_answer_spec:
  "ts_sock tcSock = - 1 \<Longrightarrow>
     \<exists>n k'. sock_accept tcSock (ts, k) = (Ok (n, tcSock\<lparr>ts_sock := n, ts_iDomain := ts_iDomain ts\<rparr>), (ts, k')) \<and>
       kn_open k' = kn_open k @ (if n < 0 then [] else [n]) \<and> n \<notin> set (kn_open k) - {- 1}"
  using new_fd_spec [where r = "fst (accept_first (kn_answers k))" and k = "k\<lparr>kn_answers := snd (accept_first (kn_answers k))\<rparr>"]
  by (auto simp: sock_accept_def Let_def split_beta new_fd_def split: if_splits)

definition lent :: "int \<Rightarrow> tc_socket" where
  "lent fd = \<lparr>ts_sock = fd, ts_bOwner = False, ts_iDomain = AF_INET\<rparr>"

lemma lent_simps [simp]:
  "ts_sock (lent fd) = fd" "\<not> ts_bOwner (lent fd)" "ts_iDomain (lent fd) = AF_INET"
  "(lent fd)\<lparr>ts_sock := n, ts_iDomain := AF_INET\<rparr> = lent n"
  by (simp_all add: lent_def)

lemma lent_starts:
  "sock_setOwner False (TC_Socket_new, k) = (lent (- 1), k)" "sock_init fd False AF_INET (TC_Socket_new, k) = (lent fd, k)"
  by (simp_all add: lent_def TC_Socket_new_def sock_setOwner_def sock_init_def sock_close_def)

lemma lent_delete: "\<not> ts_bOwner ts \<Longrightarrow> TC_Socket_delete (ts, k) = k"
  by (simp add: TC_Socket_delete_def)

lemma accept_socket_spec:
  "\<exists>n k'. accept_socket fd k = (Ok n, k') \<and>
     kn_open k' = kn_open k @ (if n < 0 then [] else [n]) \<and> n \<notin> set (kn_open k) - {- 1}"
proof -
  obtain n k3 where acc: "sock_accept (lent (- 1)) (lent fd, k) = (Ok (n, lent n), (lent fd, k3))"
      "kn_open k3 = kn_open k @ (if n < 0 then [] else [n])" "n \<notin> set (kn_open k) - {- 1}"
    using accept_answer_spec [of "lent (- 1)" "lent fd" k] by (simp only: lent_simps) blast
  obtain u cs2 k4 where run: "sock_run (\<lambda>_. (- 1, 0)) (\<lambda>_. None) accept_calls (lent n, k3) = (u, (cs2, k4))"
    by (metis prod.exhaust)
  have set_up: "cs2 = lent n" "kn_open k4 = kn_open k3"
    using accept_calls_same [of "(lent n, k3)" "\<lambda>_. (- 1, 0)" "\<lambda>_. None"] run by (simp_all add: same_fds_def)
  have "accept_socket fd k = (Ok n, if 0 < n then k4 else k3)"
    by (simp add: accept_socket_def lent_starts acc(1) run set_up lent_delete)
  then show ?thesis using acc(2,3) set_up(2) by simp
qed

section \<open>The epoll descriptor\<close>

text \<open>The destructor leaves descriptor 0 open, and a second \<open>create\<close> forgets the first descriptor.\<close>

lemma sys_epoll_create_spec:
  "kn_open (snd (sys_epoll_create n k)) =
     kn_open k @ (if fst (sys_epoll_create n k) < 0 then [] else [fst (sys_epoll_create n k)])"
  "0 \<le> fst (sys_epoll_create n k) \<Longrightarrow> fst (sys_epoll_create n k) \<notin> set (kn_open k)"
proof -
  obtain r k1 where a: "answer k = (r, k1)" by fastforce
  have open_k1: "kn_open k1 = kn_open k" using answer_open [of k] a by simp
  show "kn_open (snd (sys_epoll_create n k)) =
      kn_open k @ (if fst (sys_epoll_create n k) < 0 then [] else [fst (sys_epoll_create n k)])"
    "0 \<le> fst (sys_epoll_create n k) \<Longrightarrow> fst (sys_epoll_create n k) \<notin> set (kn_open k)"
    using new_fd_spec [where r = r and k = k1] open_k1
    by (cases "fst r < 0"; auto simp: sys_epoll_create_def a Let_def new_fd_def split: if_splits)+
qed

lemma epoller_lifetime:
  "kn_open (TC_Epoller_delete (epoller_create n (TC_Epoller_new et, k))) =
     kn_open k @ (if ep_iEpollfd (fst (epoller_create n (TC_Epoller_new et, k))) = 0 then [0] else [])"
  using sys_epoll_create_spec [of "n + 1" k]
  by (cases "sys_epoll_create (n + 1) k") (auto simp: epoller_create_def TC_Epoller_delete_def sys_close_def)

lemma epoller_created_twice:
  "0 < fst (sys_epoll_create (n + 1) k) \<Longrightarrow>
     fst (sys_epoll_create (n + 1) k) \<in>
       set (kn_open (TC_Epoller_delete (epoller_create m (epoller_create n (TC_Epoller_new et, k)))))"
  using sys_epoll_create_spec [of "n + 1" k] sys_epoll_create_spec [of "m + 1" "snd (sys_epoll_create (n + 1) k)"]
  by (cases "sys_epoll_create (n + 1) k"; cases "sys_epoll_create (m + 1) (snd (sys_epoll_create (n + 1) k))")
    (auto simp: epoller_create_def TC_Epoller_delete_def sys_close_def)

end
