(* ===== verification/Client_Notify.thy ===== *)
theory Client_Notify
  imports Tc_Socket
begin

text \<open>
  How a calling thread wakes a network thread, \<^verbatim>\<open>src/servant/libservant/CommunicatorEpoll.cpp\<close>:
  \<open>notify\<close>, the notification branch of \<open>handle\<close> and \<open>run\<close>, and all the interleavings of the callers with
  the network thread. A slot's socket is never connected; it is in the edge-triggered epoll set because
  the kernel reports such a socket once after every \<open>EPOLL_CTL_ADD\<close> and \<open>EPOLL_CTL_MOD\<close>. The queue of a
  thread is the list it is proved to be in \<^verbatim>\<open>Loop_Queue\<close>; what the network thread does with
  a message is in \<^verbatim>\<open>Servant_Proxy\<close>.
\<close>

section \<open>State\<close>

abbreviation ET_C_NOTIFY :: int where "ET_C_NOTIFY \<equiv> 1"

text \<open>\<open>p\<close> points to the queue of a calling thread, which is named by the thread's number.\<close>

record fd_info =
  fi_iSeq :: nat
  fi_fd :: int
  fi_iType :: int
  fi_p :: "nat option"

definition FDInfo_new :: fd_info where
  "FDInfo_new = \<lparr>fi_iSeq = 0, fi_fd = - 1, fi_iType = ET_C_NOTIFY, fi_p = None\<rparr>"

record notify_info =
  ni_stFDInfo :: fd_info
  ni_notify :: tc_socket
  ni_eventFd :: int
  ni_bValid :: bool

definition NotifyInfo_new :: notify_info where
  "NotifyInfo_new = \<lparr>ni_stFDInfo = FDInfo_new, ni_notify = TC_Socket_new, ni_eventFd = - 1, ni_bValid = False\<rparr>"

text \<open>The kinds of \<open>ReqMessage\<close> that \<open>handle\<close> tells apart.\<close>

datatype 'm queued = Asked 'm | ThreadExit

text \<open>
  The slots; the kernel, the descriptors the epoll set watches with the slot that is their data, those
  that it will report; the queues; whether a thread has pushed and not yet notified; the events of the
  last \<open>epoll_wait\<close> still to handle; and, for the statements, the messages taken, with their queue.
\<close>

record 'm client_net =
  cn_notify :: "notify_info list"
  cn_kernel :: sock_kernel
  cn_watch :: "int \<Rightarrow> nat option"
  cn_ready :: "int list"
  cn_queue :: "nat \<Rightarrow> 'm queued list"
  cn_told :: "nat \<Rightarrow> bool"
  cn_batch :: "nat list"
  cn_taken :: "(nat \<times> 'm queued) list"

definition client_net_init :: "sock_kernel \<Rightarrow> 'm client_net" where
  "client_net_init k =
     \<lparr>cn_notify = replicate 2048 NotifyInfo_new, cn_kernel = k, cn_watch = (\<lambda>_. None), cn_ready = [],
      cn_queue = (\<lambda>_. []), cn_told = (\<lambda>_. False), cn_batch = [], cn_taken = []\<rparr>"

section \<open>Operations\<close>

text \<open>The three calls of \<open>epoll_ctl\<close>; those on a descriptor that is not there fail without a trace.\<close>

definition ce_add :: "int \<Rightarrow> nat \<Rightarrow> 'm client_net \<Rightarrow> 'm client_net" where
  "ce_add fd iSeq s =
     (if fd < 0 \<or> cn_watch s fd \<noteq> None then s
      else s\<lparr>cn_watch := (cn_watch s)(fd \<mapsto> iSeq), cn_ready := cn_ready s @ [fd]\<rparr>)"

definition ce_mod :: "int \<Rightarrow> nat \<Rightarrow> 'm client_net \<Rightarrow> 'm client_net" where
  "ce_mod fd iSeq s =
     (if cn_watch s fd = None then s
      else s\<lparr>cn_watch := (cn_watch s)(fd \<mapsto> iSeq),
             cn_ready := (if fd \<in> set (cn_ready s) then cn_ready s else cn_ready s @ [fd])\<rparr>)"

definition ce_del :: "int \<Rightarrow> 'm client_net \<Rightarrow> 'm client_net" where
  "ce_del fd s = s\<lparr>cn_watch := (cn_watch s)(fd := None), cn_ready := removeAll fd (cn_ready s)\<rparr>"

definition ce_notify :: "nat \<Rightarrow> nat \<Rightarrow> ('m client_net, unit) act" where
  "ce_notify iSeq msgQueue s =
     (if length (cn_notify s) \<le> iSeq then (Fault, s)
      else
        let n = cn_notify s ! iSeq in
        if ni_bValid n then
          let s1 = ce_mod (ts_sock (ni_notify n)) iSeq s
          in (if fi_p (ni_stFDInfo n) = Some msgQueue then Ok () else Abort, s1)
        else
          let info = \<lparr>fi_iSeq = iSeq, fi_fd = ni_eventFd n, fi_iType = ET_C_NOTIFY, fi_p = Some msgQueue\<rparr>;
              (_, (sock, k)) = sock_createSocket SOCK_STREAM AF_INET (ni_notify n, cn_kernel s);
              n1 = n\<lparr>ni_stFDInfo := info, ni_notify := sock, ni_bValid := True\<rparr>
          in (Ok (), ce_add (ts_sock sock) iSeq (s\<lparr>cn_notify := (cn_notify s)[iSeq := n1], cn_kernel := k\<rparr>)))"

definition ce_notifyDel :: "nat \<Rightarrow> ('m client_net, unit) act" where
  "ce_notifyDel iSeq s =
     (if length (cn_notify s) \<le> iSeq then (Fault, s)
      else
        let n = cn_notify s ! iSeq
        in (Ok (), if ni_bValid n \<and> fi_p (ni_stFDInfo n) \<noteq> None then ce_mod (ts_sock (ni_notify n)) iSeq s else s))"

text \<open>The branch for a thread that has ended: its queue is deleted and its slot given up.\<close>

definition ce_exit :: "nat \<Rightarrow> nat \<Rightarrow> ('m client_net, unit) act" where
  "ce_exit iSeq q s =
     (if cn_queue s q \<noteq> [] then (Abort, s)
      else
        let n = cn_notify s ! iSeq;
            s1 = ce_del (ts_sock (ni_notify n)) s;
            (sock, k) = sock_close (ni_notify n, cn_kernel s1);
            n1 = n\<lparr>ni_stFDInfo := (ni_stFDInfo n)\<lparr>fi_p := None\<rparr>, ni_notify := sock, ni_bValid := False\<rparr>
        in (Ok (), s1\<lparr>cn_notify := (cn_notify s1)[iSeq := n1], cn_kernel := k\<rparr>))"

text \<open>
  A turn of the loop over \<open>pop_front\<close> in \<open>handle\<close>, for the first event that is left. When \<open>invoke\<close>
  throws, the exception is caught outside the loop.
\<close>

definition ce_handle :: "bool \<Rightarrow> ('m client_net, unit) act" where
  "ce_handle throws s =
     (case cn_batch s of
        [] \<Rightarrow> (Ok (), s)
      | iSeq # rest \<Rightarrow>
          (case fi_p (ni_stFDInfo (cn_notify s ! iSeq)) of
             None \<Rightarrow> (Fault, s)
           | Some q \<Rightarrow>
               (case cn_queue s q of
                  [] \<Rightarrow> (Ok (), s\<lparr>cn_batch := rest\<rparr>)
                | msg # msgs \<Rightarrow>
                    let s1 = s\<lparr>cn_queue := (cn_queue s)(q := msgs), cn_taken := cn_taken s @ [(q, msg)]\<rparr>
                    in (case msg of
                          ThreadExit \<Rightarrow> ce_exit iSeq q (s1\<lparr>cn_batch := rest\<rparr>)
                        | Asked m \<Rightarrow> (Ok (), if throws then s1\<lparr>cn_batch := rest\<rparr> else s1)))))"

text \<open>A call of \<open>epoll_wait\<close> that reports \<open>n\<close> events.\<close>

definition ce_wait :: "nat \<Rightarrow> 'm client_net \<Rightarrow> 'm client_net" where
  "ce_wait n s =
     s\<lparr>cn_batch := List.map_filter (cn_watch s) (take n (cn_ready s)), cn_ready := drop n (cn_ready s)\<rparr>"

section \<open>Interleavings\<close>

text \<open>
  A thread pushes a call (its queue holds 1000) and then notifies; the network thread waits when it
  has no events left. An event whose time has not come does nothing.
\<close>

datatype 'm ce_event =
    ThreadPush nat 'm
  | ThreadNotify nat
  | NetWait nat
  | NetHandle bool

fun ce_event_do :: "'m ce_event \<Rightarrow> ('m client_net, unit) act" where
  "ce_event_do (ThreadPush t m) s =
     (Ok (),
      if t < 2048 \<and> \<not> cn_told s t
      then s\<lparr>cn_queue := (cn_queue s)(t := (if length (cn_queue s t) < 1000 then cn_queue s t @ [Asked m] else cn_queue s t)),
             cn_told := (cn_told s)(t := True)\<rparr>
      else s)"
| "ce_event_do (ThreadNotify t) s =
     (if cn_told s t then ce_notify t t (s\<lparr>cn_told := (cn_told s)(t := False)\<rparr>) else (Ok (), s))"
| "ce_event_do (NetWait n) s = (Ok (), if cn_batch s = [] then ce_wait n s else s)"
| "ce_event_do (NetHandle throws) s = ce_handle throws s"

fun ce_run :: "'m ce_event list \<Rightarrow> ('m client_net, unit) act" where
  "ce_run [] = ret ()"
| "ce_run (e # es) = andthen (ce_event_do e) (\<lambda>_. ce_run es)"

definition of_network :: "'m ce_event \<Rightarrow> bool" where
  "of_network e = (case e of NetWait _ \<Rightarrow> True | NetHandle _ \<Rightarrow> True | _ \<Rightarrow> False)"

definition no_throw :: "'m ce_event \<Rightarrow> bool" where
  "no_throw e \<longleftrightarrow> e \<noteq> NetHandle True"

text \<open>The descriptor of a thread's slot, and a slot that is in use without one.\<close>

definition slot_fd :: "'m client_net \<Rightarrow> nat \<Rightarrow> int" where
  "slot_fd s t = ts_sock (ni_notify (cn_notify s ! t))"

definition slot_in_use :: "'m client_net \<Rightarrow> nat \<Rightarrow> bool" where
  "slot_in_use s t \<longleftrightarrow> ni_bValid (cn_notify s ! t)"

definition deaf :: "'m client_net \<Rightarrow> nat \<Rightarrow> bool" where
  "deaf s t \<longleftrightarrow> slot_in_use s t \<and> slot_fd s t = - 1"

definition taken_of :: "nat \<Rightarrow> 'm client_net \<Rightarrow> 'm queued list" where
  "taken_of t s = map snd (filter (\<lambda>x. fst x = t) (cn_taken s))"

section \<open>Slots and the epoll set\<close>

definition slot_ok :: "'m client_net \<Rightarrow> nat \<Rightarrow> bool" where
  "slot_ok s t \<longleftrightarrow>
     (if slot_in_use s t
      then fi_p (ni_stFDInfo (cn_notify s ! t)) = Some t \<and> (slot_fd s t = - 1 \<or> cn_watch s (slot_fd s t) = Some t)
      else slot_fd s t = - 1)"

definition ce_slots :: "'m client_net \<Rightarrow> bool" where
  "ce_slots s \<longleftrightarrow>
     length (cn_notify s) = 2048 \<and> (\<forall>t < 2048. slot_ok s t) \<and>
     (\<forall>fd t. cn_watch s fd = Some t \<longrightarrow>
        t < 2048 \<and> slot_in_use s t \<and> slot_fd s t = fd \<and> 0 \<le> fd \<and> fd \<in> set (kn_open (cn_kernel s)))"

definition ce_reports :: "'m client_net \<Rightarrow> bool" where
  "ce_reports s \<longleftrightarrow>
     (\<forall>fd \<in> set (cn_ready s). cn_watch s fd \<noteq> None) \<and> (\<forall>t \<in> set (cn_batch s). t < 2048 \<and> slot_in_use s t)"

definition ce_queues :: "'m client_net \<Rightarrow> bool" where
  "ce_queues s \<longleftrightarrow>
     (\<forall>t. ThreadExit \<notin> set (cn_queue s t)) \<and> (\<forall>t. cn_told s t \<longrightarrow> t < 2048) \<and>
     (\<forall>t. cn_queue s t \<noteq> [] \<longrightarrow> t < 2048)"

definition ce_inv :: "'m client_net \<Rightarrow> bool" where
  "ce_inv s \<longleftrightarrow> ce_slots s \<and> ce_reports s \<and> ce_queues s"

text \<open>Every queue with messages is known to somebody who will see to it.\<close>

definition noticed :: "'m client_net \<Rightarrow> nat \<Rightarrow> bool" where
  "noticed s t \<longleftrightarrow> cn_told s t \<or> deaf s t \<or> (slot_in_use s t \<and> slot_fd s t \<in> set (cn_ready s)) \<or> t \<in> set (cn_batch s)"

definition all_noticed :: "'m client_net \<Rightarrow> bool" where
  "all_noticed s \<longleftrightarrow> (\<forall>t. cn_queue s t \<noteq> [] \<longrightarrow> noticed s t)"

lemma ce_inv_init: "ce_inv (client_net_init k)"
  by (simp add: ce_inv_def ce_slots_def ce_reports_def ce_queues_def client_net_init_def slot_ok_def slot_in_use_def slot_fd_def NotifyInfo_new_def
      TC_Socket_new_def)

lemma all_noticed_init: "all_noticed (client_net_init k)"
  by (simp add: all_noticed_def client_net_init_def)

lemma slot_updates [simp]:
  "slot_in_use (s\<lparr>cn_queue := q\<rparr>) = slot_in_use s" "slot_fd (s\<lparr>cn_queue := q\<rparr>) = slot_fd s"
  "slot_in_use (s\<lparr>cn_told := b\<rparr>) = slot_in_use s" "slot_fd (s\<lparr>cn_told := b\<rparr>) = slot_fd s"
  "slot_in_use (s\<lparr>cn_batch := ts\<rparr>) = slot_in_use s" "slot_fd (s\<lparr>cn_batch := ts\<rparr>) = slot_fd s"
  "slot_in_use (s\<lparr>cn_taken := l\<rparr>) = slot_in_use s" "slot_fd (s\<lparr>cn_taken := l\<rparr>) = slot_fd s"
  "slot_in_use (s\<lparr>cn_ready := fds\<rparr>) = slot_in_use s" "slot_fd (s\<lparr>cn_ready := fds\<rparr>) = slot_fd s"
  "slot_in_use (s\<lparr>cn_kernel := k\<rparr>) = slot_in_use s" "slot_fd (s\<lparr>cn_kernel := k\<rparr>) = slot_fd s"
  "slot_in_use (s\<lparr>cn_watch := w\<rparr>) = slot_in_use s" "slot_fd (s\<lparr>cn_watch := w\<rparr>) = slot_fd s"
  by (simp_all add: slot_in_use_def slot_fd_def fun_eq_iff)

lemma slot_ok_cong: "cn_notify s' = cn_notify s \<Longrightarrow> cn_watch s' = cn_watch s \<Longrightarrow> slot_ok s' = slot_ok s"
  by (simp add: slot_ok_def slot_in_use_def slot_fd_def fun_eq_iff)

lemma deaf_cong: "cn_notify s' = cn_notify s \<Longrightarrow> deaf s' = deaf s"
  by (simp add: deaf_def slot_in_use_def slot_fd_def fun_eq_iff)

lemma ce_slots_cong:
  "cn_notify s' = cn_notify s \<Longrightarrow> cn_watch s' = cn_watch s \<Longrightarrow> cn_kernel s' = cn_kernel s \<Longrightarrow> ce_slots s' = ce_slots s"
  by (simp add: ce_slots_def slot_ok_def slot_in_use_def slot_fd_def)

lemma ce_reports_cong:
  "cn_notify s' = cn_notify s \<Longrightarrow> cn_watch s' = cn_watch s \<Longrightarrow> cn_ready s' = cn_ready s \<Longrightarrow> cn_batch s' = cn_batch s \<Longrightarrow>
     ce_reports s' = ce_reports s"
  by (simp add: ce_reports_def slot_in_use_def)

lemma ce_queues_cong: "cn_queue s' = cn_queue s \<Longrightarrow> cn_told s' = cn_told s \<Longrightarrow> ce_queues s' = ce_queues s"
  by (simp add: ce_queues_def)

lemma ce_invD:
  assumes "ce_inv s"
  shows "length (cn_notify s) = 2048" "t < 2048 \<Longrightarrow> slot_ok s t"
    "cn_watch s fd = Some t \<Longrightarrow> t < 2048 \<and> slot_in_use s t \<and> slot_fd s t = fd \<and> 0 \<le> fd \<and> fd \<in> set (kn_open (cn_kernel s))"
    "fd \<in> set (cn_ready s) \<Longrightarrow> cn_watch s fd \<noteq> None" "t \<in> set (cn_batch s) \<Longrightarrow> t < 2048 \<and> slot_in_use s t"
    "ThreadExit \<notin> set (cn_queue s t)" "cn_told s t \<Longrightarrow> t < 2048" "cn_queue s t \<noteq> [] \<Longrightarrow> t < 2048"
  using assms unfolding ce_inv_def ce_slots_def ce_reports_def ce_queues_def by blast+

text \<open>Pushing.\<close>

lemma push_keeps:
  assumes inv: "ce_inv s" and run: "ce_event_do (ThreadPush t m) s = (r, s')"
  shows "r = Ok () \<and> ce_inv s' \<and> (all_noticed s \<longrightarrow> all_noticed s')"
proof (cases "t < 2048 \<and> \<not> cn_told s t")
  case True
  let ?q = "if length (cn_queue s t) < 1000 then cn_queue s t @ [Asked m] else cn_queue s t"
  let ?s = "s\<lparr>cn_queue := (cn_queue s)(t := ?q), cn_told := (cn_told s)(t := True)\<rparr>"
  have s': "r = Ok ()" "s' = ?s" using run True by simp_all
  have "ce_slots ?s" "ce_reports ?s"
    using inv ce_slots_cong [of ?s s] ce_reports_cong [of ?s s] by (simp_all add: ce_inv_def)
  moreover have "ce_queues ?s" using inv True by (simp add: ce_inv_def ce_queues_def)
  moreover have "noticed ?s u" if "noticed s u" for u
    using that deaf_cong [of ?s s] by (auto simp: noticed_def)
  moreover have "noticed ?s t" by (simp add: noticed_def)
  moreover have "cn_queue ?s u = cn_queue s u \<or> u = t" for u by simp
  ultimately show ?thesis unfolding s' ce_inv_def all_noticed_def by metis
next
  case False
  then show ?thesis using run inv by auto
qed

text \<open>Notifying: the slot's descriptor is reported again, or made.\<close>

lemma ce_mod_in_use:
  assumes inv: "ce_inv s" and slot: "t < 2048" "slot_in_use s t"
  shows "ce_mod (slot_fd s t) t s =
    (if slot_fd s t = - 1 then s
     else s\<lparr>cn_ready := (if slot_fd s t \<in> set (cn_ready s) then cn_ready s else cn_ready s @ [slot_fd s t])\<rparr>)"
proof (cases "slot_fd s t = - 1")
  case True
  have "cn_watch s (- 1) = None" using ce_invD(3) [OF inv, of "- 1"] by (cases "cn_watch s (- 1)") auto
  then show ?thesis using True by (simp add: ce_mod_def)
next
  case False
  then have "cn_watch s (slot_fd s t) = Some t" using ce_invD(2) [OF inv slot(1)] slot(2) by (simp add: slot_ok_def)
  then show ?thesis using False by (simp add: ce_mod_def fun_upd_idem)
qed

lemma ready_keeps:
  assumes inv: "ce_inv s" and slot: "t < 2048" "slot_in_use s t" "slot_fd s t \<noteq> - 1"
  shows "ce_inv (s\<lparr>cn_ready := (if slot_fd s t \<in> set (cn_ready s) then cn_ready s else cn_ready s @ [slot_fd s t])\<rparr>)"
    (is "ce_inv ?s")
proof -
  have "cn_watch s (slot_fd s t) = Some t" using ce_invD(2) [OF inv slot(1)] slot by (simp add: slot_ok_def)
  then have "ce_reports ?s" using inv by (auto simp: ce_inv_def ce_reports_def)
  moreover have "ce_slots ?s" "ce_queues ?s"
    using inv ce_slots_cong [of ?s s] ce_queues_cong [of ?s s] by (simp_all add: ce_inv_def)
  ultimately show ?thesis by (simp add: ce_inv_def)
qed

text \<open>A slot used for the first time.\<close>

definition slot_made :: "nat \<Rightarrow> tc_socket \<Rightarrow> sock_kernel \<Rightarrow> 'm client_net \<Rightarrow> 'm client_net" where
  "slot_made t sock k s =
     s\<lparr>cn_notify := (cn_notify s)[t := (cn_notify s ! t)\<lparr>ni_stFDInfo :=
         \<lparr>fi_iSeq = t, fi_fd = ni_eventFd (cn_notify s ! t), fi_iType = ET_C_NOTIFY, fi_p = Some t\<rparr>,
         ni_notify := sock, ni_bValid := True\<rparr>], cn_kernel := k\<rparr>"

lemma slot_made_slots:
  assumes "length (cn_notify s) = 2048" "t < 2048"
  shows "slot_in_use (slot_made t sock k s) u = (u = t \<or> slot_in_use s u)"
    "slot_fd (slot_made t sock k s) u = (if u = t then ts_sock sock else slot_fd s u)"
    "fi_p (ni_stFDInfo (cn_notify (slot_made t sock k s) ! u)) =
       (if u = t then Some t else fi_p (ni_stFDInfo (cn_notify s ! u)))"
    "length (cn_notify (slot_made t sock k s)) = 2048"
  using assms by (auto simp: slot_made_def slot_in_use_def slot_fd_def nth_list_update)

lemma slot_made_fields [simp]:
  "cn_watch (slot_made t sock k s) = cn_watch s" "cn_ready (slot_made t sock k s) = cn_ready s"
  "cn_queue (slot_made t sock k s) = cn_queue s" "cn_told (slot_made t sock k s) = cn_told s"
  "cn_batch (slot_made t sock k s) = cn_batch s" "cn_kernel (slot_made t sock k s) = k"
  "cn_taken (slot_made t sock k s) = cn_taken s"
  by (simp_all add: slot_made_def)

lemma first_socket:
  assumes "ts_sock sock = - 1" "sock_createSocket SOCK_STREAM AF_INET (sock, k) = (r, (sock', k'))"
  shows "ts_sock sock' < 0 \<and> ts_sock sock' = - 1 \<and> kn_open k' = kn_open k \<or>
    0 \<le> ts_sock sock' \<and> ts_sock sock' \<notin> set (kn_open k) \<and> kn_open k' = kn_open k @ [ts_sock sock']"
proof -
  obtain fd k1 where m: "sys_socket AF_INET SOCK_STREAM 0 k = (fd, k1)" by fastforce
  note spec = sys_socket_spec [of AF_INET SOCK_STREAM 0 k, unfolded m fst_conv snd_conv]
  show ?thesis
    using assms spec m by (cases "fd < 0") (auto simp: sock_createSocket_def sock_close_def)
qed

lemma made_slots:
  assumes inv: "ce_inv s" and slot: "t < 2048" "\<not> slot_in_use s t"
    and made: "(fd = - 1 \<and> kn_open k = kn_open (cn_kernel s)) \<or>
      (0 \<le> fd \<and> fd \<notin> set (kn_open (cn_kernel s)) \<and> kn_open k = kn_open (cn_kernel s) @ [fd])"
    and sock: "ts_sock sock = fd"
  shows "ce_inv (ce_add fd t (slot_made t sock k s))"
    "noticed s u \<or> u = t \<Longrightarrow> noticed (ce_add fd t (slot_made t sock k s)) u"
proof -
  let ?m = "slot_made t sock k s" and ?s = "ce_add fd t (slot_made t sock k s)"
  note m = slot_made_slots [OF ce_invD(1) [OF inv] slot(1), of sock k]
  have none: "cn_watch s fd = None"
  proof (cases "cn_watch s fd")
    case (Some u)
    then show ?thesis using ce_invD(3) [OF inv Some] made by auto
  qed
  have watched: "\<And>fd u. cn_watch s fd = Some u \<Longrightarrow>
      u < 2048 \<and> slot_in_use s u \<and> slot_fd s u = fd \<and> 0 \<le> fd \<and> fd \<in> set (kn_open (cn_kernel s))"
    by (rule ce_invD(3) [OF inv])
  have add: "?s = (if fd = - 1 then ?m else ?m\<lparr>cn_watch := (cn_watch s)(fd \<mapsto> t), cn_ready := cn_ready s @ [fd]\<rparr>)"
    using made none by (auto simp: ce_add_def)
  have slots: "slot_in_use ?s = slot_in_use ?m" "slot_fd ?s = slot_fd ?m" "cn_notify ?s = cn_notify ?m"
    "cn_batch ?s = cn_batch s" "cn_queue ?s = cn_queue s" "cn_told ?s = cn_told s" "cn_kernel ?s = k"
    by (simp_all add: add)
  have watch: "cn_watch ?s = (if fd = - 1 then cn_watch s else (cn_watch s)(fd \<mapsto> t))"
    "cn_ready ?s = (if fd = - 1 then cn_ready s else cn_ready s @ [fd])"
    by (simp_all add: add)
  have ok: "slot_ok ?s u" if u: "u < 2048" for u
  proof (cases "u = t")
    case True
    then show ?thesis using made sock by (auto simp: slot_ok_def slots m watch)
  next
    case False
    have "slot_ok s u" by (rule ce_invD(2) [OF inv u])
    moreover have "cn_watch s (slot_fd s u) = Some u \<Longrightarrow> slot_fd s u \<noteq> fd" using none by auto
    ultimately show ?thesis using False by (auto simp: slot_ok_def slots m watch)
  qed
  have "ce_slots ?s"
    unfolding ce_slots_def
  proof (intro conjI allI impI)
    fix fd' u
    assume w: "cn_watch ?s fd' = Some u"
    show "u < 2048" "slot_in_use ?s u" "slot_fd ?s u = fd'" "0 \<le> fd'" "fd' \<in> set (kn_open (cn_kernel ?s))"
      using w watched [of fd' u] slot made sock by (auto simp: slots m watch split: if_splits)
  qed (use ok in \<open>simp_all add: slots m\<close>)
  moreover have "ce_reports ?s"
    using inv by (auto simp: ce_inv_def ce_reports_def slots m watch)
  moreover have "ce_queues ?s" using inv by (simp add: ce_inv_def ce_queues_def slots)
  ultimately show "ce_inv ?s" by (simp add: ce_inv_def)
  show "noticed ?s u" if "noticed s u \<or> u = t"
    using that slot sock made by (auto simp: noticed_def deaf_def slots m watch split: if_splits)
qed

lemma notify_keeps:
  assumes inv: "ce_inv s" and t: "t < 2048" and run: "ce_notify t t s = (r, s')"
  shows "r = Ok ()" "ce_inv s'" "noticed s u \<or> u = t \<Longrightarrow> noticed s' u" "cn_queue s' = cn_queue s" "cn_told s' = cn_told s"
    "cn_taken s' = cn_taken s" "cn_batch s' = cn_batch s"
proof -
  have len: "\<not> length (cn_notify s) \<le> t" using ce_invD(1) [OF inv] t by simp
  have "r = Ok () \<and> ce_inv s' \<and> (\<forall>u. noticed s u \<or> u = t \<longrightarrow> noticed s' u) \<and> cn_queue s' = cn_queue s \<and>
      cn_told s' = cn_told s \<and> cn_taken s' = cn_taken s \<and> cn_batch s' = cn_batch s"
  proof (cases "slot_in_use s t")
    case True
    have p: "fi_p (ni_stFDInfo (cn_notify s ! t)) = Some t"
      using ce_invD(2) [OF inv t] True by (simp add: slot_ok_def)
    have "r = Ok ()" "s' = ce_mod (slot_fd s t) t s"
      using run True len p by (simp_all add: ce_notify_def slot_in_use_def slot_fd_def Let_def)
    then show ?thesis
      using ce_mod_in_use [OF inv t True] ready_keeps [OF inv t True] inv True
      by (auto simp: noticed_def deaf_def)
  next
    case False
    have none: "slot_fd s t = - 1" using ce_invD(2) [OF inv t] False by (simp add: slot_ok_def)
    obtain rs sock k where c: "sock_createSocket SOCK_STREAM AF_INET (ni_notify (cn_notify s ! t), cn_kernel s) = (rs, (sock, k))"
      by (metis prod.exhaust)
    have s': "r = Ok ()" "s' = ce_add (ts_sock sock) t (slot_made t sock k s)"
      using run False len c by (simp_all add: ce_notify_def slot_in_use_def slot_made_def Let_def)
    have made: "(ts_sock sock = - 1 \<and> kn_open k = kn_open (cn_kernel s)) \<or>
        (0 \<le> ts_sock sock \<and> ts_sock sock \<notin> set (kn_open (cn_kernel s)) \<and> kn_open k = kn_open (cn_kernel s) @ [ts_sock sock])"
      using first_socket [OF _ c] none by (auto simp: slot_fd_def)
    show ?thesis
      using made_slots [OF inv t False made refl] s' by (auto simp: ce_add_def)
  qed
  then show "r = Ok ()" "ce_inv s'" "noticed s u \<or> u = t \<Longrightarrow> noticed s' u" "cn_queue s' = cn_queue s"
    "cn_told s' = cn_told s" "cn_taken s' = cn_taken s" "cn_batch s' = cn_batch s"
    by blast+
qed

text \<open>Waiting.\<close>

lemma wait_keeps:
  assumes inv: "ce_inv s" and "cn_batch s = []"
  shows "ce_inv (ce_wait n s)" "noticed s u \<Longrightarrow> u < 2048 \<Longrightarrow> noticed (ce_wait n s) u"
proof -
  let ?s = "ce_wait n s"
  have fds: "set (cn_ready s) = set (take n (cn_ready s)) \<union> set (drop n (cn_ready s))"
    by (metis append_take_drop_id set_append)
  have "ce_reports ?s"
    using ce_invD(3,4) [OF inv] fds
    by (auto simp: ce_reports_def ce_wait_def List.map_filter_def)
  moreover have "ce_slots ?s" "ce_queues ?s"
    using inv ce_slots_cong [of ?s s] ce_queues_cong [of ?s s] by (simp_all add: ce_inv_def ce_wait_def)
  ultimately show "ce_inv ?s" by (simp add: ce_inv_def)
  assume n: "noticed s u" and u: "u < 2048"
  show "noticed ?s u"
  proof (cases "slot_in_use s u \<and> slot_fd s u \<in> set (take n (cn_ready s))")
    case True
    then obtain v where v: "cn_watch s (slot_fd s u) = Some v" using ce_invD(4) [OF inv] fds by blast
    then have "slot_fd s u \<noteq> - 1" using ce_invD(3) [OF inv v] by auto
    then have "cn_watch s (slot_fd s u) = Some u" using True ce_invD(2) [OF inv u] by (simp add: slot_ok_def)
    then have "u \<in> set (cn_batch ?s)" using True by (force simp: ce_wait_def List.map_filter_def)
    then show ?thesis by (simp add: noticed_def)
  next
    case False
    then show ?thesis
      using n assms(2) fds deaf_cong [of ?s s]
      by (auto simp: noticed_def ce_wait_def)
  qed
qed

text \<open>Handling: for the first event of the batch, with the messages of its queue.\<close>

lemma ce_handle_eq:
  assumes inv: "ce_inv s" and batch: "cn_batch s = t # rest"
  shows "ce_handle throws s = (Ok (),
    case cn_queue s t of
      [] \<Rightarrow> s\<lparr>cn_batch := rest\<rparr>
    | msg # msgs \<Rightarrow> s\<lparr>cn_queue := (cn_queue s)(t := msgs), cn_taken := cn_taken s @ [(t, msg)],
        cn_batch := (if throws then rest else t # rest)\<rparr>)"
proof -
  have "slot_ok s t" "slot_in_use s t" using ce_invD(2) [OF inv] ce_invD(5) [OF inv, of t] batch by simp_all
  then have p: "fi_p (ni_stFDInfo (cn_notify s ! t)) = Some t" by (simp add: slot_ok_def)
  have same: "s\<lparr>cn_queue := q, cn_taken := l, cn_batch := t # rest\<rparr> = s\<lparr>cn_queue := q, cn_taken := l\<rparr>" for q l
    using batch by simp
  show ?thesis
    using p batch ce_invD(6) [OF inv, of t] same
    by (auto simp: ce_handle_def Let_def split: list.split queued.split)
qed

lemma batch_rest_keeps:
  assumes inv: "ce_inv s" and batch: "cn_batch s = t # rest"
    and q: "set q \<subseteq> set (cn_queue s t)" and b: "set b \<subseteq> set (t # rest)"
  shows "ce_inv (s\<lparr>cn_queue := (cn_queue s)(t := q), cn_taken := l, cn_batch := b\<rparr>)" (is "ce_inv ?s")
proof -
  have "t < 2048" using ce_invD(5) [OF inv, of t] batch by simp
  then have "ce_queues ?s" using inv q by (auto simp: ce_inv_def ce_queues_def)
  moreover have "ce_reports ?s" using inv batch b by (auto simp: ce_inv_def ce_reports_def)
  moreover have "ce_slots ?s" using inv ce_slots_cong [of ?s s] by (simp add: ce_inv_def)
  ultimately show ?thesis by (simp add: ce_inv_def)
qed

lemma handle_keeps:
  assumes inv: "ce_inv s" and run: "ce_handle throws s = (r, s')"
  shows "r = Ok ()" "ce_inv s'" "all_noticed s \<Longrightarrow> \<not> throws \<Longrightarrow> all_noticed s'"
    "cn_notify s' = cn_notify s" "cn_ready s' = cn_ready s" "cn_told s' = cn_told s"
proof -
  have "r = Ok () \<and> ce_inv s' \<and> (all_noticed s \<and> \<not> throws \<longrightarrow> all_noticed s') \<and> cn_notify s' = cn_notify s \<and>
      cn_ready s' = cn_ready s \<and> cn_told s' = cn_told s"
  proof (cases "cn_batch s")
    case Nil
    then show ?thesis using run inv by (auto simp: ce_handle_def)
  next
    case (Cons t rest)
    note eq = ce_handle_eq [OF inv Cons, of throws]
    show ?thesis
    proof (cases "cn_queue s t")
      case Nil
      have s': "r = Ok ()" "s' = s\<lparr>cn_batch := rest\<rparr>" using run eq Nil by simp_all
      have "ce_inv (s\<lparr>cn_queue := (cn_queue s)(t := []), cn_taken := cn_taken s, cn_batch := rest\<rparr>)"
        by (rule batch_rest_keeps [OF inv Cons]) auto
      moreover have "s\<lparr>cn_queue := (cn_queue s)(t := []), cn_taken := cn_taken s, cn_batch := rest\<rparr> = s'"
        using Nil s' by (simp add: fun_upd_idem)
      moreover have "all_noticed s'" if "all_noticed s"
        using that Nil Cons s' deaf_cong [of s' s] by (auto simp: all_noticed_def noticed_def)
      ultimately show ?thesis using s' by simp
    next
      case (Cons msg msgs)
      let ?s = "s\<lparr>cn_queue := (cn_queue s)(t := msgs), cn_taken := cn_taken s @ [(t, msg)],
        cn_batch := (if throws then rest else t # rest)\<rparr>"
      have s': "r = Ok ()" "s' = ?s" using run eq Cons by simp_all
      have "ce_inv ?s"
        using Cons by (intro batch_rest_keeps [OF inv \<open>cn_batch s = t # rest\<close>]) auto
      moreover have "all_noticed ?s" if "all_noticed s" "\<not> throws"
        using that \<open>cn_batch s = t # rest\<close> deaf_cong [of ?s s] by (auto simp: all_noticed_def noticed_def)
      ultimately show ?thesis using s' by simp
    qed
  qed
  then show "r = Ok ()" "ce_inv s'" "all_noticed s \<Longrightarrow> \<not> throws \<Longrightarrow> all_noticed s'"
    "cn_notify s' = cn_notify s" "cn_ready s' = cn_ready s" "cn_told s' = cn_told s" by blast+
qed

text \<open>Any step and any run.\<close>

lemma event_keeps:
  assumes inv: "ce_inv s" and run: "ce_event_do e s = (r, s')"
  shows "r = Ok ()" "ce_inv s'" "all_noticed s \<Longrightarrow> no_throw e \<Longrightarrow> all_noticed s'"
proof -
  have "r = Ok () \<and> ce_inv s' \<and> (all_noticed s \<and> no_throw e \<longrightarrow> all_noticed s')"
  proof (cases e)
    case (ThreadPush t m)
    then show ?thesis using push_keeps [OF inv] run by blast
  next
    case (ThreadNotify t)
    show ?thesis
    proof (cases "cn_told s t")
      case True
      let ?s = "s\<lparr>cn_told := (cn_told s)(t := False)\<rparr>"
      have t: "t < 2048" by (rule ce_invD(7) [OF inv True])
      have "ce_queues ?s" using inv by (simp add: ce_inv_def ce_queues_def)
      then have inv': "ce_inv ?s"
        using inv ce_slots_cong [of ?s s] ce_reports_cong [of ?s s] by (simp add: ce_inv_def)
      have run': "ce_notify t t ?s = (r, s')" using run ThreadNotify True by simp
      note k = notify_keeps [OF inv' t run']
      have "noticed ?s u \<or> u = t" if "noticed s u" for u
        using that deaf_cong [of ?s s] by (auto simp: noticed_def)
      then have "all_noticed s'" if "all_noticed s" using that k(3,4) by (simp add: all_noticed_def)
      then show ?thesis using k(1,2) by blast
    next
      case False
      then show ?thesis using run ThreadNotify inv by auto
    qed
  next
    case (NetWait n)
    have "cn_queue (ce_wait n s) = cn_queue s" by (simp add: ce_wait_def)
    then show ?thesis
      using run NetWait inv wait_keeps [OF inv, where n = n] ce_invD(8) [OF inv]
      by (auto simp: all_noticed_def split: if_splits)
  next
    case (NetHandle throws)
    then show ?thesis using run handle_keeps [OF inv, of throws r s'] by (auto simp: no_throw_def)
  qed
  then show "r = Ok ()" "ce_inv s'" "all_noticed s \<Longrightarrow> no_throw e \<Longrightarrow> all_noticed s'" by blast+
qed

lemma run_keeps:
  assumes "ce_inv s" "ce_run es s = (r, s')"
  shows "r = Ok () \<and> ce_inv s' \<and> (all_noticed s \<and> list_all no_throw es \<longrightarrow> all_noticed s')"
  using assms
proof (induction es arbitrary: s)
  case (Cons e es)
  obtain r1 s1 where e: "ce_event_do e s = (r1, s1)" by fastforce
  note k = event_keeps [OF Cons.prems(1) e]
  have "ce_run es s1 = (r, s')" using Cons.prems(2) e k(1) by (simp add: andthen_Ok)
  then show ?case using Cons.IH [OF k(2)] k(3) by auto
qed (simp add: ret_apply)

section \<open>The network thread works off what it noticed\<close>

lemma ce_run_step: "ce_event_do e s = (Ok (), s1) \<Longrightarrow> ce_run (e # es) s = ce_run es s1"
  by (simp add: andthen_def)

lemma ce_run_append: "ce_run (es @ fs) = andthen (ce_run es) (\<lambda>_. ce_run fs)"
  by (induction es) (simp_all add: andthen_assoc act_simps)

lemma ce_run_then: "ce_run es s = (Ok (), s1) \<Longrightarrow> ce_run (es @ fs) s = ce_run fs s1"
  by (simp add: ce_run_append andthen_def)

lemma run_from_start:
  "ce_run es (client_net_init k) = (r, s) \<Longrightarrow>
     r = Ok () \<and> ce_inv s \<and> (list_all no_throw es \<longrightarrow> all_noticed s)"
  using run_keeps [OF ce_inv_init] all_noticed_init by blast

lemma handle_queue:
  "ce_inv s \<Longrightarrow> cn_batch s = t # rest \<Longrightarrow>
     ce_run (replicate (Suc (length (cn_queue s t))) (NetHandle False)) s =
       (Ok (), s\<lparr>cn_queue := (cn_queue s)(t := []), cn_taken := cn_taken s @ map (Pair t) (cn_queue s t),
          cn_batch := rest\<rparr>)"
proof (induction "cn_queue s t" arbitrary: s)
  case Nil
  note eq = ce_handle_eq [OF Nil.prems, of False, unfolded Nil(1) [symmetric] list.case]
  have same: "(cn_queue s)(t := []) = cn_queue s" using Nil(1) [symmetric] by (rule fun_upd_idem)
  have "ce_run [NetHandle False] s = (Ok (), s\<lparr>cn_batch := rest\<rparr>)"
    using eq by (subst ce_run_step) (simp_all add: ret_apply)
  then show ?case using Nil(1) [symmetric] by (simp del: ce_run.simps add: same)
next
  case (Cons msg msgs)
  let ?s = "s\<lparr>cn_queue := (cn_queue s)(t := msgs), cn_taken := cn_taken s @ [(t, msg)], cn_batch := t # rest\<rparr>"
  note eq = ce_handle_eq [OF Cons.prems, of False, unfolded Cons(2) [symmetric] list.case if_False]
  have q: "msgs = cn_queue ?s t" by simp
  have inv: "ce_inv ?s" by (rule handle_keeps(2) [OF Cons.prems(1) eq])
  have "ce_run (replicate (Suc (length (cn_queue s t))) (NetHandle False)) s =
      ce_run (replicate (Suc (length (cn_queue ?s t))) (NetHandle False)) ?s"
    using Cons(2) [symmetric] eq by (simp del: ce_run.simps add: ce_run_step)
  also have "\<dots> = (Ok (), ?s\<lparr>cn_queue := (cn_queue ?s)(t := []),
      cn_taken := cn_taken ?s @ map (Pair t) (cn_queue ?s t), cn_batch := rest\<rparr>)"
    by (rule Cons.hyps(1) [OF q inv]) simp
  finally show ?case using Cons(2) [symmetric] by simp
qed

text \<open>What a run of the network thread may do to the queues.\<close>

definition works_off :: "(nat \<Rightarrow> bool) \<Rightarrow> 'm client_net \<Rightarrow> 'm client_net \<Rightarrow> bool" where
  "works_off P s s' \<longleftrightarrow>
     (\<forall>u. cn_queue s' u = (if P u then [] else cn_queue s u)) \<and>
     (\<forall>u. taken_of u s' @ cn_queue s' u = taken_of u s @ cn_queue s u) \<and>
     cn_notify s' = cn_notify s \<and> cn_told s' = cn_told s"

lemma works_off_trans: "works_off P s s1 \<Longrightarrow> works_off Q s1 s' \<Longrightarrow> works_off (\<lambda>u. P u \<or> Q u) s s'"
  unfolding works_off_def by (intro conjI allI) (metis, metis, simp_all)

lemma works_off_cong: "works_off P s s' \<Longrightarrow> P = Q \<Longrightarrow> works_off Q s s'"
  by simp

lemma taken_of_queue:
  "taken_of u (s\<lparr>cn_queue := q, cn_taken := cn_taken s @ map (Pair t) msgs, cn_batch := b\<rparr>) =
     taken_of u s @ (if u = t then msgs else [])"
  by (simp add: taken_of_def filter_map comp_def)

lemma handle_batch:
  "ce_inv s \<Longrightarrow> \<exists>n s'. ce_run (replicate n (NetHandle False)) s = (Ok (), s') \<and> ce_inv s' \<and> cn_batch s' = [] \<and>
     cn_ready s' = cn_ready s \<and> works_off (\<lambda>u. u \<in> set (cn_batch s)) s s'"
proof (induction "cn_batch s" arbitrary: s)
  case Nil
  show ?case
    by (rule exI [of _ 0], rule exI [of _ s]) (use Nil in \<open>simp add: ret_apply works_off_def\<close>)
next
  case (Cons t rest)
  let ?s = "s\<lparr>cn_queue := (cn_queue s)(t := []), cn_taken := cn_taken s @ map (Pair t) (cn_queue s t), cn_batch := rest\<rparr>"
  note first = handle_queue [OF Cons.prems Cons(2) [symmetric]]
  have inv: "ce_inv ?s" using run_keeps [OF Cons.prems first] by simp
  obtain n s' where rest: "ce_run (replicate n (NetHandle False)) ?s = (Ok (), s')" "ce_inv s'" "cn_batch s' = []"
      "cn_ready s' = cn_ready ?s" "works_off (\<lambda>u. u \<in> set (cn_batch ?s)) ?s s'"
    using Cons.hyps(1) [OF _ inv] by auto
  have one: "works_off (\<lambda>u. u = t) s ?s" by (simp add: works_off_def taken_of_queue)
  have "ce_run (replicate (Suc (length (cn_queue s t)) + n) (NetHandle False)) s = (Ok (), s')"
    unfolding replicate_add using ce_run_then [OF first] rest(1) by simp
  moreover have "works_off (\<lambda>u. u \<in> set (cn_batch s)) s s'"
    by (rule works_off_cong [OF works_off_trans [OF one rest(5)]]) (simp add: Cons(2) [symmetric] fun_eq_iff)
  ultimately show ?case using rest(2,3,4) by (intro exI conjI) (assumption, assumption, assumption, simp, assumption)
qed

lemma wait_batch:
  assumes inv: "ce_inv s" and t: "t < 2048" "slot_in_use s t" "slot_fd s t \<in> set (cn_ready s)"
  shows "t \<in> set (cn_batch (ce_wait (length (cn_ready s)) s))"
proof -
  obtain v where v: "cn_watch s (slot_fd s t) = Some v" using ce_invD(4) [OF inv t(3)] by blast
  then have "slot_fd s t \<noteq> - 1" using ce_invD(3) [OF inv v] by auto
  then have "cn_watch s (slot_fd s t) = Some t" using t ce_invD(2) [OF inv t(1)] by (simp add: slot_ok_def)
  then show ?thesis using t(3) by (force simp: ce_wait_def List.map_filter_def)
qed

text \<open>
  However the threads interleaved, as long as no call threw, the network thread by itself comes to
  every message whose thread is done notifying, and takes the messages of each thread in order.
\<close>

lemma noticed_taken:
  assumes inv: "ce_inv s" and noticed: "all_noticed s"
  shows "\<exists>net s'. list_all of_network net \<and> ce_run net s = (Ok (), s') \<and>
    (\<forall>t. taken_of t s' @ cn_queue s' t = taken_of t s @ cn_queue s t \<and>
         (cn_told s t \<or> deaf s t \<or> cn_queue s' t = []))"
proof -
  obtain n s1 where one: "ce_run (replicate n (NetHandle False)) s = (Ok (), s1)" "ce_inv s1" "cn_batch s1 = []"
      "cn_ready s1 = cn_ready s" "works_off (\<lambda>u. u \<in> set (cn_batch s)) s s1"
    using handle_batch [OF inv] by blast
  let ?s2 = "ce_wait (length (cn_ready s1)) s1"
  have inv2: "ce_inv ?s2" by (rule wait_keeps(1) [OF one(2,3)])
  have two: "ce_run [NetWait (length (cn_ready s1))] s1 = (Ok (), ?s2)"
    using one(3) by (simp add: andthen_def ret_apply)
  have same: "works_off (\<lambda>_. False) s1 ?s2" by (simp add: works_off_def ce_wait_def taken_of_def)
  obtain m s' where three: "ce_run (replicate m (NetHandle False)) ?s2 = (Ok (), s')"
      "works_off (\<lambda>u. u \<in> set (cn_batch ?s2)) ?s2 s'"
    using handle_batch [OF inv2] by blast
  let ?net = "replicate n (NetHandle False) @ [NetWait (length (cn_ready s1))] @ replicate m (NetHandle False)"
  have run: "ce_run ?net s = (Ok (), s')"
    by (simp only: ce_run_then [OF one(1)] ce_run_then [OF two] three(1))
  have all: "works_off (\<lambda>u. (u \<in> set (cn_batch s) \<or> False) \<or> u \<in> set (cn_batch ?s2)) s s'"
    by (rule works_off_trans [OF works_off_trans [OF one(5) same] three(2)])
  have "cn_told s t \<or> deaf s t \<or> cn_queue s' t = []" for t
  proof (cases "cn_queue s t = []")
    case True
    then show ?thesis using all by (auto simp: works_off_def)
  next
    case False
    then have t: "t < 2048" by (rule ce_invD(8) [OF inv])
    have "cn_notify s1 = cn_notify s" using one(5) by (simp add: works_off_def)
    then have slots: "slot_in_use s1 t = slot_in_use s t" "slot_fd s1 t = slot_fd s t" by (simp_all add: slot_in_use_def slot_fd_def)
    have "noticed s t" using noticed False by (simp add: all_noticed_def)
    then have "cn_told s t \<or> deaf s t \<or> t \<in> set (cn_batch s) \<or> t \<in> set (cn_batch ?s2)"
      using wait_batch [OF one(2) t] slots one(4) by (auto simp: noticed_def)
    then show ?thesis using all by (auto simp: works_off_def)
  qed
  moreover have "taken_of t s' @ cn_queue s' t = taken_of t s @ cn_queue s t" for t
    using all unfolding works_off_def by blast
  moreover have "list_all of_network ?net" by (auto simp: of_network_def list_all_iff)
  ultimately show ?thesis using run by blast
qed

section \<open>What nobody notices\<close>

text \<open>Nothing of a thread is taken that the network thread neither handles nor will be told of.\<close>

definition unseen :: "nat \<Rightarrow> 'm client_net \<Rightarrow> bool" where
  "unseen t s \<longleftrightarrow> t < 2048 \<and> slot_in_use s t \<and> t \<notin> set (cn_batch s) \<and> slot_fd s t \<notin> set (cn_ready s)"

lemma unseen_network:
  assumes inv: "ce_inv s" and unseen: "unseen t s" and net: "of_network e" and run: "ce_event_do e s = (r, s')"
  shows "unseen t s' \<and> taken_of t s' = taken_of t s \<and> cn_queue s' t = cn_queue s t"
proof (cases e)
  case (NetWait n)
  have "set (drop n (cn_ready s)) \<subseteq> set (cn_ready s)" "set (take n (cn_ready s)) \<subseteq> set (cn_ready s)"
    by (simp_all add: set_drop_subset set_take_subset)
  moreover have "slot_fd s t = fd" if "cn_watch s fd = Some t" for fd using ce_invD(3) [OF inv that] by simp
  ultimately show ?thesis
    using run NetWait unseen
    by (auto simp: unseen_def ce_wait_def taken_of_def List.map_filter_def split: if_splits) blast
next
  case (NetHandle throws)
  show ?thesis
  proof (cases "cn_batch s")
    case Nil
    then show ?thesis using run NetHandle unseen by (auto simp: ce_handle_def)
  next
    case (Cons u rest)
    then show ?thesis
      using run NetHandle unseen ce_handle_eq [OF inv Cons, of throws]
      by (auto simp: unseen_def taken_of_def split: list.splits if_splits)
  qed
qed (use net in \<open>simp_all add: of_network_def\<close>)

lemma unseen_network_run:
  "ce_inv s \<Longrightarrow> unseen t s \<Longrightarrow> list_all of_network es \<Longrightarrow> ce_run es s = (r, s') \<Longrightarrow>
     taken_of t s' = taken_of t s \<and> cn_queue s' t = cn_queue s t"
proof (induction es arbitrary: s)
  case (Cons e es)
  obtain r1 s1 where e: "ce_event_do e s = (r1, s1)" by fastforce
  note k = event_keeps [OF Cons.prems(1) e] unseen_network [OF Cons.prems(1,2) _ e]
  have "ce_run es s1 = (r, s')" using Cons.prems(4) e k(1) by (simp add: andthen_Ok)
  then show ?case using Cons.IH [OF k(2)] k(4) Cons.prems(3) by simp
qed (simp add: ret_apply)

text \<open>
  A slot whose socket could not be made: it is valid, nothing is ever reported for it, and \<open>notify\<close> goes
  on modifying a descriptor that does not exist.
\<close>

lemma notify_slots:
  assumes inv: "ce_inv s" and t: "t < 2048" and run: "ce_notify t t s = (r, s')" and u: "slot_in_use s u"
  shows "slot_in_use s' u \<and> slot_fd s' u = slot_fd s u"
proof (cases "slot_in_use s t")
  case True
  have "s' = ce_mod (slot_fd s t) t s"
    using run True ce_invD(1) [OF inv] t by (simp add: ce_notify_def slot_in_use_def slot_fd_def Let_def)
  then show ?thesis using u by (simp add: ce_mod_def)
next
  case False
  obtain rs sock k where c: "sock_createSocket SOCK_STREAM AF_INET (ni_notify (cn_notify s ! t), cn_kernel s) = (rs, (sock, k))"
    by (metis prod.exhaust)
  have "s' = ce_add (ts_sock sock) t (slot_made t sock k s)"
    using run False c ce_invD(1) [OF inv] t by (simp add: ce_notify_def slot_in_use_def slot_made_def Let_def)
  moreover have "slot_in_use (ce_add fd t x) u = slot_in_use x u" "slot_fd (ce_add fd t x) u = slot_fd x u" for fd and x :: "'a client_net"
    by (simp_all add: ce_add_def)
  moreover have "u \<noteq> t" using u False by auto
  ultimately show ?thesis using u slot_made_slots(1,2) [OF ce_invD(1) [OF inv] t] by simp
qed

lemma deaf_event:
  assumes inv: "ce_inv s" and deaf: "deaf s t" "t \<notin> set (cn_batch s)" and t: "t < 2048"
    and run: "ce_event_do e s = (r, s')"
  shows "deaf s' t \<and> t \<notin> set (cn_batch s') \<and> taken_of t s' = taken_of t s"
proof -
  have silent: "slot_fd s t \<notin> set (cn_ready s)"
  proof
    assume "slot_fd s t \<in> set (cn_ready s)"
    then obtain v where "cn_watch s (slot_fd s t) = Some v" using ce_invD(4) [OF inv] by blast
    from ce_invD(3) [OF inv this] show False using deaf by (simp add: deaf_def)
  qed
  then have unseen: "unseen t s" using deaf t by (simp add: unseen_def deaf_def)
  show ?thesis
  proof (cases "of_network e")
    case True
    note k = unseen_network [OF inv unseen True run]
    have "cn_notify s' = cn_notify s"
    proof (cases e)
      case (NetWait n)
      then show ?thesis using run by (auto simp: ce_wait_def split: if_splits)
    next
      case (NetHandle throws)
      then have "ce_handle throws s = (r, s')" using run by simp
      then show ?thesis by (rule handle_keeps(4) [OF inv])
    qed (use True in \<open>simp_all add: of_network_def\<close>)
    then show ?thesis using k deaf deaf_cong [of s' s] by (simp add: unseen_def)
  next
    case other: False
    show ?thesis
    proof (cases e)
      case (ThreadPush u m)
      have same: "cn_notify s' = cn_notify s" "cn_batch s' = cn_batch s" "cn_taken s' = cn_taken s"
        using run by (cases "u < 2048 \<and> \<not> cn_told s u"; force simp: ThreadPush)+
      show ?thesis using deaf by (simp add: deaf_cong [OF same(1)] same taken_of_def)
    next
      case (ThreadNotify u)
      show ?thesis
      proof (cases "cn_told s u")
        case True
        let ?s = "s\<lparr>cn_told := (cn_told s)(u := False)\<rparr>"
        have u: "u < 2048" by (rule ce_invD(7) [OF inv True])
        have "ce_queues ?s" using inv by (simp add: ce_inv_def ce_queues_def)
        then have inv': "ce_inv ?s"
          using inv ce_slots_cong [of ?s s] ce_reports_cong [of ?s s] by (simp add: ce_inv_def)
        have run': "ce_notify u u ?s = (r, s')" using run ThreadNotify True by simp
        show ?thesis
          using notify_slots [OF inv' u run', of t] notify_keeps(6,7) [OF inv' u run'] deaf
          by (simp add: deaf_def taken_of_def)
      next
        case False
        then show ?thesis using run ThreadNotify deaf by auto
      qed
    qed (use other in \<open>simp_all add: of_network_def\<close>)
  qed
qed

lemma deaf_run:
  "ce_inv s \<Longrightarrow> deaf s t \<Longrightarrow> t \<notin> set (cn_batch s) \<Longrightarrow> t < 2048 \<Longrightarrow> ce_run es s = (r, s') \<Longrightarrow>
     taken_of t s' = taken_of t s"
proof (induction es arbitrary: s)
  case (Cons e es)
  obtain r1 s1 where e: "ce_event_do e s = (r1, s1)" by fastforce
  note k = event_keeps [OF Cons.prems(1) e] deaf_event [OF Cons.prems(1,2,3,4) e]
  have "ce_run es s1 = (r, s')" using Cons.prems(5) e k(1) by (simp add: andthen_Ok)
  then show ?case using Cons.IH [OF k(2)] k(4) Cons.prems(4) by simp
qed (simp add: ret_apply)

end
