(* ===== verification/Spec2Isabelle.thy ===== *)
theory Spec2Isabelle
  imports Tars_Limits Request_Coroutines Pool_Runs Node_Commands Proxy_Factory Tars_Displayer Tc_Singleton Client_Notify
begin

text \<open>
  A verification library of learn-tars, a teaching re-implementation in C++ of the Tars RPC
  framework.

  \<^bold>\<open>The program.\<close> A call starts in a generated proxy. The calling thread builds a request, picks
  one of the network threads and pushes a message on the queue the two share
  (\<^verbatim>\<open>src/servant/libservant/ServantProxy.cpp\<close>); the network thread takes it off
  (\<^verbatim>\<open>CommunicatorEpoll.cpp\<close>), gives it an id, records it in the timeout queue, and writes it to
  its connection (\<^verbatim>\<open>ObjectProxy.cpp\<close>, \<^verbatim>\<open>Transceiver.cpp\<close>). On the wire a packet is four bytes of
  length and a struct of tagged fields (\<^verbatim>\<open>src/tup\<close>). In the server the network threads accept
  connections and make messages of what arrives (\<^verbatim>\<open>src/util/src/tc_epoll_server.cpp\<close>); the
  messages wait in the queue of their adapter until a handler of the adapter's group takes them,
  calls the adapter's servant (\<^verbatim>\<open>ServantHandle.cpp\<close>) and gives the answer as a command to the network
  thread of the connection. The client finds the response by its id to
  finish the waiting call or to hand it to a callback thread. Coroutines
  (\<^verbatim>\<open>CoroutineScheduler.cpp\<close>) let one thread run many of these handlers in turn.

  \<^bold>\<open>Conventions.\<close> \<^theory_text>\<open>Tars_Prelude\<close> defines the outcome of a call (\<open>Ok\<close>, \<open>Throw\<close> an exception of
  the code, \<open>Abort\<close> a failed assertion, \<open>Fault\<close> undefined behaviour, \<open>OutOfFuel\<close>) and the
  state-passing actions the operations are written in. Machine integers are words of their
  width, \<open>size_t\<close> is a natural number with its wrap-around at \<open>2 ^ 64\<close> written out, objects are
  records whose fields have the names of the members behind a short prefix, pointers to shared
  objects are keys of a heap. The host is x86-64 Linux: little-endian, as in
  \<^verbatim>\<open>src/tup/TarsType.h\<close>. What the kernel or another thread does is an argument or a list in
  the state, over which the theorems quantify.

  \<^bold>\<open>Wire format\<close> (\<^verbatim>\<open>src/tup\<close>).
    \<^item> \<^theory_text>\<open>Tars_Type\<close>: \<^verbatim>\<open>TarsType.h\<close>, the type codes and byte orders.
    \<^item> \<^theory_text>\<open>Tars_Buffer\<close>, \<^theory_text>\<open>Tars_Writer\<close>, \<^theory_text>\<open>Tars_Input\<close>, \<^theory_text>\<open>Tars_Output\<close>: the classes and macros of
      \<^verbatim>\<open>Tars.h\<close>, one definition per macro, member function and overload.
    \<^item> \<^theory_text>\<open>Tars_Stream\<close>: what each reading macro does at a known position (\<open>reads_if\<close>), the
      counterpart of the \<open>appends\<close> facts of the writer.
    \<^item> \<^theory_text>\<open>Codec_Interface\<close>, \<^theory_text>\<open>Tars_Codec\<close>, \<^theory_text>\<open>Tars_Struct\<close>: the locale \<open>tars_codec\<close> (a type with
      writer, encoding and reader that fit), the containers and structs proved once over it, and
      its interpretations on every overload of the stream classes.
    \<^item> \<^theory_text>\<open>Request_Packet\<close>: \<^verbatim>\<open>RequestF.h\<close> and \<^verbatim>\<open>BaseF.h\<close>. \<^theory_text>\<open>App_Protocol\<close>: \<^verbatim>\<open>AppProtocal.h\<close>, framing
      and the two sides of the proxy protocol. \<^theory_text>\<open>Tup_Packet\<close>: \<^verbatim>\<open>tup.h\<close>.
    \<^item> \<^theory_text>\<open>Tars_Limits\<close>: inputs outside the format (negative lengths, full buffers).

  \<^bold>\<open>Containers\<close> (\<^verbatim>\<open>src/util\<close>).
    \<^item> \<^theory_text>\<open>Tc_Buffer\<close>: \<^verbatim>\<open>tc_buffer.h\<close> and \<^verbatim>\<open>tc_buffer.cpp\<close>, refining a list of bytes.
    \<^item> \<^theory_text>\<open>Fifo_Interface\<close>: the locale \<open>fifo\<close>, a queue that may refuse; \<^theory_text>\<open>Loop_Queue\<close>
      (\<^verbatim>\<open>tc_loop_queue.h\<close>, with the interleaving of one producer and one consumer as a step
      relation) and \<^theory_text>\<open>Thread_Queue\<close> (\<^verbatim>\<open>tc_thread_queue.h\<close>) interpret it.
    \<^item> \<^theory_text>\<open>Timeout_Queue\<close>: \<^verbatim>\<open>tc_timeout_queue_new.h\<close>, its three indices and their invariant.

  \<^bold>\<open>Client\<close> (\<^verbatim>\<open>src/servant\<close>).
    \<^item> \<^theory_text>\<open>Seq_Manager\<close>: the sequence numbers of \<^verbatim>\<open>ServantProxy.cpp\<close>.
    \<^item> \<^theory_text>\<open>Transceiver\<close>: \<^verbatim>\<open>Transceiver.cpp\<close>, one connection and its two buffers.
    \<^item> \<^theory_text>\<open>Object_Proxy\<close>: \<^verbatim>\<open>ObjectProxy.cpp\<close> with the branches of \<^verbatim>\<open>CommunicatorEpoll.cpp\<close> and
      \<^verbatim>\<open>AsyncProcThread.cpp\<close> around it, over a heap of messages.
    \<^item> \<^theory_text>\<open>Servant_Proxy\<close>: \<^verbatim>\<open>ServantProxy.cpp\<close>, the calling thread's side.
    \<^item> \<^theory_text>\<open>Client_Notify\<close>: \<open>CommunicatorEpoll::notify\<close> and the handling of its events, with any number of
      calling threads and the network thread in any interleaving (\<open>ce_run\<close>).
    \<^item> \<^theory_text>\<open>Proxy_Factory\<close>: \<^verbatim>\<open>Communicator.cpp\<close> and \<^verbatim>\<open>ObjectProxyFactory.cpp\<close>, proxies by their
      addresses, and \<open>setNodeInfo\<close>.

  \<^bold>\<open>Coroutines\<close> (\<^verbatim>\<open>src/servant/libservant/CoroutineScheduler.cpp\<close>).
    \<^item> \<^theory_text>\<open>Coro_Stack\<close>: the stack allocator, with the answers of \<open>mmap\<close> in the state.
    \<^item> \<^theory_text>\<open>Coro_List\<close>: the rings of \<^verbatim>\<open>CoroutineScheduler.h\<close> as pointers in a heap; \<open>coro_rings\<close>
      relates them to five lists, and the pointer operations refine list operations.
    \<^item> \<^theory_text>\<open>Coro_Scheduler\<close>: the class \<open>CoroutineScheduler\<close> and \<open>Coroutine::handleCoro\<close>. The body of
      a coroutine is the user's code: the argument \<open>prog\<close> tells for each control point what the
      coroutine does until it gives up the thread, so bodies that never end are included.
    \<^item> \<^theory_text>\<open>Coro_Rounds\<close>, \<^theory_text>\<open>Coro_Turns\<close>, \<^theory_text>\<open>Coro_Fair\<close>: the invariant \<open>sched_inv\<close> (lists, counters,
      timers, stacks) and what each operation does to the lists, up to a whole round.
    \<^item> \<^theory_text>\<open>Coro_Service\<close>: \<^verbatim>\<open>ServantHandle.cpp\<close>, the serving thread from \<open>init\<close> to \<open>destroy\<close>;
      \<^theory_text>\<open>Coro_Limits\<close>: exact timers, the pool, and where they fail.

  \<^bold>\<open>Server\<close> (\<^verbatim>\<open>tc_epoll_server.h\<close>, \<^verbatim>\<open>tc_epoll_server.cpp\<close>, \<^verbatim>\<open>ServantHandle.cpp\<close>, \<^verbatim>\<open>Application.cpp\<close>).
    \<^item> \<^theory_text>\<open>Server_Connection\<close>: \<open>NetThread::Connection\<close>, its socket and its send buffer of slices.
    \<^item> \<^theory_text>\<open>Epoll_Server\<close>: the state of \<open>TC_EpollServer\<close> (threads, connections, adapters, groups of
      handlers) and \<open>NetThread\<close>; \<^theory_text>\<open>Epoll_Handles\<close>: the handlers' side, and \<open>server_step\<close>, one turn
      of some thread, which \<open>server_run\<close> and \<open>server_reaches\<close> repeat in any order.
    \<^item> \<^theory_text>\<open>Server_Safety\<close>: the invariant \<open>server_inv\<close>, kept by every operation (\<open>safe\<close>, \<open>fine\<close>, \<open>later\<close>);
      \<^theory_text>\<open>Server_Runs\<close>: the locale \<open>server_handlers\<close>, what the network layer asks of the handlers, and
      inside it that no step fails.
    \<^item> \<^theory_text>\<open>Servant_Handle\<close>: servants, \<open>ServantHandle\<close> and the reports to the node; \<^theory_text>\<open>Servant_Runs\<close>
      interprets \<open>server_handlers\<close> on it. What a servant does with a request is the argument
      \<open>onDispatch\<close>, any function of the servant's class and the request that may throw.
    \<^item> \<^theory_text>\<open>Server_Application\<close>: \<open>Application::main\<close>, with the user's \<open>initialize\<close> as an argument;
      \<^theory_text>\<open>Server_Start\<close>: what it leaves behind.
    \<^item> \<^theory_text>\<open>Server_Answers\<close>: rounds of handlers as list functions (\<open>answers\<close>); \<^theory_text>\<open>Server_Wire\<close>: reading,
      writing, and a request from its arrival to its answer; \<^theory_text>\<open>Server_Limits\<close>: slices, heartbeats, and
      where data is lost; \<^theory_text>\<open>Request_Coroutines\<close>: \<open>handleRequest\<close>, messages as coroutines.

  \<^bold>\<open>Services.\<close>
    \<^item> \<^theory_text>\<open>Rpc_Servants\<close>: the interface classes (\<^verbatim>\<open>Node.h\<close>, \<^verbatim>\<open>NodeF.h\<close>, \<^verbatim>\<open>AdminF.h\<close>, \<^verbatim>\<open>AdminReg.h\<close>, \<^verbatim>\<open>Hello.h\<close>),
      the servants behind them, and calls through both sides; \<^theory_text>\<open>Node_Commands\<close>: \<^verbatim>\<open>CommandStart.h\<close>, how
      the node starts a script.
    \<^item> \<^theory_text>\<open>Tars_Displayer\<close>: \<^verbatim>\<open>TarsDisplayer.h\<close> and the text of packets.

  \<^bold>\<open>Threads\<close> (\<^verbatim>\<open>src/util\<close>).
    \<^item> \<^theory_text>\<open>Tc_Monitor\<close>: \<^verbatim>\<open>tc_thread_mutex.cpp\<close>, \<^verbatim>\<open>tc_thread_cond.cpp\<close>, \<^verbatim>\<open>tc_monitor.h\<close>, \<^verbatim>\<open>tc_lock.h\<close>
      over the contract of the pthread functions.
    \<^item> \<^theory_text>\<open>Queue_Waits\<close>: the thread queue with its monitor, any number of threads in any
      interleaving (\<open>queue_step\<close>, \<open>queue_reaches\<close>): the lock is exclusive, no wake-up is lost, and
      the operations are those of \<^theory_text>\<open>Thread_Queue\<close>, which are one step each.
    \<^item> \<^theory_text>\<open>Thread_Pool\<close>: \<^verbatim>\<open>tc_thread_pool.h\<close>, \<^verbatim>\<open>tc_thread_pool.cpp\<close> and \<^verbatim>\<open>tc_thread.cpp\<close>, with the points of
      \<open>run\<close>, \<open>start\<close>, \<open>stop\<close> and \<open>init\<close> as states (\<open>pool_step\<close>) and the conservation of jobs;
      \<^theory_text>\<open>Pool_Runs\<close>: what \<open>finish\<close> and \<open>waitForAllDone\<close> tell, and when they are wrong.
    \<^item> \<^theory_text>\<open>Tc_Socket\<close>: \<^verbatim>\<open>tc_socket.cpp\<close>, \<^verbatim>\<open>tc_epoller.cpp\<close> and \<^verbatim>\<open>NetworkUtil.cpp\<close>, which descriptors are open
      after every call; the models of client and server use only the calls they need.
    \<^item> \<^theory_text>\<open>Tc_Singleton\<close>: \<^verbatim>\<open>tc_singleton.h\<close>, the double-checked lock under any number of threads.
    \<^item> \<^theory_text>\<open>Text_Numbers\<close>: the number conversions of the C++ library the code uses; \<^theory_text>\<open>Tc_Common\<close>: the
      templates of \<^verbatim>\<open>tc_common.h\<close>.

  \<^bold>\<open>Lemmas.\<close> Each theory proves what every operation does on each branch (lemmas named
  \<open>_spec\<close>, \<open>_eq\<close>), an invariant that the operations keep (\<open>_inv\<close>, \<open>_keeps\<close>, the predicate
  \<open>keeps\<close>), and, where the component promises an abstract data type, a refinement lemma. This
  theory states the properties of the program over them, with examples that satisfy their
  hypotheses.

  \<^bold>\<open>Fuel.\<close> Readers take fuel for the unbounded loops and the mutual recursion of \<open>skipField\<close>;
  the properties name an amount that suffices (linear in the nesting and the number of fields
  met) and hold for every larger one. \<open>negative_length_never_ends\<close> shows that no amount suffices
  for some inputs. The loops of \<open>parseStream\<close> and of the response functions get the number of
  packets plus one. \<open>serve\<close> and \<open>cs_run\<close> take one list of other threads' events for every round;
  \<open>cs_run\<close> is out of fuel when the lists end before the thread does. \<open>handle_adapter\<close> gets the length of the
  queue plus one, which no round exceeds since handlers add no messages, and \<open>accept_loop\<close> the
  number of the kernel's answers plus one. Everything else is total.

  \<^bold>\<open>Not modelled.\<close> The answers of system calls are arguments, and the pthread functions are taken to do what POSIX says of them. Failure of memory
  allocation is modelled only where
  the code tests for it; the context switch of the coroutines is assembly code and is taken to
  resume a coroutine where it stopped. Threads of the server interleave at the events of their
  loops; the waits between them are not modelled. Of \<open>Application\<close> the client part and the wait for the
  end are left out; of \<^verbatim>\<open>tc_common.h\<close> the members that are only declared, which no file of the
  repository defines. Callback classes only print, and the main functions of the servers and the
  example only set the configuration. Exceptions are kept by their kind, without texts and stack traces.
\<close>

section \<open>Inputs of the examples\<close>

definition a_request :: RequestPacket where
  "a_request = RequestPacket_init\<lparr>req_iVersion := 1, req_iRequestId := 300,
     req_sServantName := [72, 105], req_sFuncName := [102], req_sBuffer := [1, 2, 3],
     req_context := [([97], [98])]\<rparr>"


definition a_packet :: UniPacket where
  "a_packet = UniPacket_init
     \<lparr>up_req := RequestPacket_init\<lparr>req_iVersion := 3, req_sServantName := [115], req_sFuncName := [102]\<rparr>,
      up_attr := UniAttribute_init\<lparr>ua_data := [([97], [0, 5])]\<rparr>\<rparr>"

definition a_writer :: "bytes \<Rightarrow> ostream" where
  "a_writer bs = \<lparr>wbuf = bs, wlen = length bs, wcap = length bs, wreverse = True\<rparr>"

definition a_timeout_queue :: "nat timeout_queue" where
  "a_timeout_queue = snd (toq_push 7 1 100 True (snd (toq_push 8 2 40 False TimeoutQueue_init)))"

definition a_transfer_stored :: "nat spsc" where
  "a_transfer_stored = \<lparr>ring = (the (LoopQueue_init 2))\<lparr>lq_p := [Some 5, None, None]\<rparr>,
     producer_at = PStored 5, consumer_at = CIdle, sent = [], got = []\<rparr>"

definition a_transfer_sent :: "nat spsc" where
  "a_transfer_sent = a_transfer_stored\<lparr>ring := (ring a_transfer_stored)\<lparr>lq_begin := 1\<rparr>,
     producer_at := PIdle, sent := [5]\<rparr>"

definition a_transfer :: "nat spsc" where
  "a_transfer = a_transfer_sent\<lparr>consumer_at := CChecked\<rparr>"

definition a_net :: net where
  "a_net = \<lparr>net_next = 3, net_open = [], net_polled = [], net_connects = [], net_sends = [],
     net_wire = (\<lambda>_. []), net_arrivals = (\<lambda>_. [])\<rparr>"

definition a_connection :: transceiver where
  "a_connection = (Transceiver_init (a_net\<lparr>net_next := 4, net_open := [3], net_sends := [Accepts 2, SendAgain],
     net_arrivals := (\<lambda>_. [Arrived [49, 58, 65], Arrived [50, 58, 66]])\<rparr>))\<lparr>tr_fd := 3\<rparr>"

definition a_closing_connection :: transceiver where
  "a_closing_connection = (Transceiver_init (a_net\<lparr>net_next := 4, net_open := [3],
     net_arrivals := (\<lambda>_. [Arrived [49, 58, 65], Closed])\<rparr>))\<lparr>tr_fd := 3\<rparr>"

definition a_message :: req_message where
  "a_message = (ReqMessage_init SYNC_CALL)\<lparr>rm_request := [102, 58, 120], rm_sReqData := [49, 58, 102],
     rm_hasMonitor := True\<rparr>"

definition a_proxy :: object_proxy where
  "a_proxy = \<lparr>op_id = 0, op_trans = Transceiver_init a_net, op_tq = TimeoutQueue_init,
     op_heap = (\<lambda>_. None)(0 \<mapsto> a_message, 1 \<mapsto> a_message), op_asyncThread = [], op_asyncSeq = 0,
     op_asyncThreadNum = 3, op_notified = []\<rparr>"

definition a_waiting_proxy :: object_proxy where
  "a_waiting_proxy = a_proxy\<lparr>op_tq :=
     snd (toq_push 0 1 100 True (snd (toq_push 1 2 200 True TimeoutQueue_init)))\<rparr>"

definition a_blocked_proxy :: object_proxy where
  "a_blocked_proxy = a_proxy\<lparr>op_trans := (Transceiver_init (a_net\<lparr>net_next := 4, net_open := [3, 2],
       net_sends := replicate 3 (Accepts 3), net_arrivals := (\<lambda>_. [Arrived [7]])\<rparr>))\<lparr>tr_fd := 3\<rparr>,
     op_tq := snd (toq_push 0 1 100 False TimeoutQueue_init)\<rparr>"

definition a_refused_proxy :: object_proxy where
  "a_refused_proxy = a_proxy\<lparr>op_trans := Transceiver_init (a_net\<lparr>net_connects := [Refused]\<rparr>)\<rparr>"

definition a_queue :: "nat list \<Rightarrow> nat loop_queue" where
  "a_queue xs = lq_store_all xs (the (LoopQueue_init 2))"

definition a_caller :: caller where
  "a_caller = \<lparr>cl_td = (ThreadData_init 0)\<lparr>td_queueInit := True, td_reqQueue := [Some (a_queue [3, 4])]\<rparr>,
     cl_heap = (\<lambda>_. None)(0 \<mapsto> a_message), cl_notified = []\<rparr>"

definition a_memory :: stack_memory where
  "a_memory = \<lparr>mm_pagesize = 4096, mm_rlim_max = None,
     mm_answers = (\<lambda>k. Some (65536 * (k mod 1073741824 + 1))), mm_calls = 0, mm_maps = []\<rparr>"

definition a_clock :: "nat \<Rightarrow> int" where
  "a_clock k = 10 * int k"

definition a_coro_prog :: "nat \<Rightarrow> nat coro_step" where
  "a_coro_prog p = (if p = 0 then Create 1 (\<lambda>i. Yield True 0) else if p = 1 then Sleep 5 2 else Finish)"

definition a_started :: "nat scheduler" where
  "a_started = snd (cs_createCoroutine 0 (snd (cs_init 3 16384 (CoroutineScheduler a_memory a_clock))))"

definition a_started_lists :: "CORO_STATUS \<Rightarrow> 32 word list" where
  "a_started_lists = mv CORO_FREE CORO_AVAIL 1 (added_all (new_ids 0 3) no_coros)"

definition a_sleeper :: "nat scheduler" where
  "a_sleeper = snd (cs_put 1 (snd (cs_sleep 10 7 (a_started\<lparr>cs_currentCoro := slot (cs_all_coro a_started) 1\<rparr>))))"

definition a_starved :: "nat scheduler" where
  "a_starved = snd (cs_init 1 16384 (CoroutineScheduler (a_memory\<lparr>mm_answers := (mm_answers a_memory)(0 := None)\<rparr>) a_clock))"

definition a_sleeper_lists :: "CORO_STATUS \<Rightarrow> 32 word list" where
  "a_sleeper_lists = mv CORO_AVAIL CORO_TIMEOUT 1 a_started_lists"

definition starved_memory :: stack_memory where
  "starved_memory = a_memory\<lparr>mm_answers := (mm_answers a_memory)(0 := None)\<rparr>"



definition a_client :: server_conn where
  "a_client = \<lparr>co_adapter = Some 0, co_fd = 9, co_uid = 5, co_lfd = 3, co_ip = [49], co_bClose = False, co_port = 80,
     co_recvbuffer = [], co_sendbuffer = []\<rparr>"

definition a_server_net :: "send_answer list \<Rightarrow> read_answer list \<Rightarrow> net" where
  "a_server_net sends arrivals = \<lparr>net_next = 10, net_open = [9, 3], net_polled = [], net_connects = [], net_sends = sends,
     net_wire = (\<lambda>_. []), net_arrivals = (\<lambda>_. [])(9 := arrivals)\<rparr>"

definition a_server :: "recv_data list \<Rightarrow> send_data list \<Rightarrow> 32 word list \<Rightarrow> net \<Rightarrow> epoll_server" where
  "a_server ds cs free n = \<lparr>es_bTerminate = False,
     es_netThreads = [\<lparr>nt_shutdown = 1, nt_notify = 2, nt_bind_listen = - 1, nt_epoll = (\<lambda>_. None),
       nt_uid_connection = (\<lambda>_. None)(5 \<mapsto> 0), nt_free = free, nt_free_size = 0,
       nt_sbuffer = \<lparr>tq_queue = cs, tq_size = length cs\<rparr>, nt_listeners = [(3, Some 0)], nt_bTerminate = False\<rparr>],
     es_handleStarted = True, es_handleGroups = [([65], 0)], es_conns = (\<lambda>_. None)(0 \<mapsto> a_client), es_conn_next = 1,
     es_adapters = (\<lambda>_. None)(0 \<mapsto> BindAdapter_init\<lparr>ba_handleGroup := Some 0, ba_name := [65],
       ba_rbuffer := \<lparr>tq_queue = ds, tq_size = length ds\<rparr>\<rparr>),
     es_groups = (\<lambda>_. None)(0 \<mapsto> \<lparr>hg_name = [65], hg_notified = 0, hg_handles = [True], hg_adapters = [([65], 0)]\<rparr>),
     es_group_next = 1, es_net = n, es_accepts = (\<lambda>_. [Accepted 11 [49] 81 []]), es_iov_max = 1024\<rparr>"

definition a_helper :: servant_helper where
  "a_helper = \<lparr>sm_servant_creator = [([66], 1)], sm_adapter_servant = [([65], [66])], sm_servant_adapter = [([66], [65])]\<rparr>"

definition a_servants :: "nat \<Rightarrow> (bytes \<times> servant) list" where
  "a_servants g = [([66], \<lparr>sv_class = 1, sv_handle = Some g, sv_name = [66]\<rparr>)]"


definition a_recv :: "bytes \<Rightarrow> recv_data" where
  "a_recv b = request_of a_client b"

definition two_at :: "nat tq_at \<Rightarrow> nat tq_at \<Rightarrow> nat \<Rightarrow> nat tq_at" where
  "two_at a b u = (if u = 0 then a else if u = 1 then b else Outside)"

definition two_threads :: "nat tq_at \<Rightarrow> nat tq_at \<Rightarrow> monitor \<Rightarrow> nat list \<Rightarrow> nat queue_system" where
  "two_threads a b m ts = \<lparr>qs_monitor = m, qs_queue = \<lparr>tq_queue = ts, tq_size = length ts\<rparr>, qs_at = two_at a b,
     qs_put = ts, qs_got = []\<rparr>"

definition a_monitor :: "nat option \<Rightarrow> nat list \<Rightarrow> int \<Rightarrow> monitor" where
  "a_monitor t W n = \<lparr>mo_owner = t, mo_waiting = W, mo_nnotify = n\<rparr>"

definition a_stopped_pool :: "nat thread_pool" where
  "a_stopped_pool = TC_ThreadPool\<lparr>tp_jobthread := [\<lparr>wk_at = NotRunning, wk_bTerminate = True, wk_running = False\<rparr>]\<rparr>"


definition a_calling_proxy :: object_proxy where
  "a_calling_proxy = a_proxy\<lparr>op_tq := snd (toq_push 0 7 1000 True TimeoutQueue_init),
     op_heap := (\<lambda>_. None)(0 \<mapsto> (HelloProxy_testHello [1, 2])\<lparr>rm_hasMonitor := True\<rparr>)\<rparr>"




lemma a_request_ok: "req_ok a_request"
  by (simp add: a_request_def req_ok_def str_ok_def map_ok_def RequestPacket_init_def
      TARS_MAX_STRING_LENGTH_def)

lemma a_request_length: "length (req_body a_request) = 33"
  by code_simp



lemma a_packet_lengths: "length (enc_attrs (ua_data (up_attr a_packet)) 0) = 12"
  "length (req_body (up_sent a_packet)) = 32"
  by code_simp+

lemma a_packet_ok: "up_ok a_packet" "wf_ua (up_attr a_packet)"
proof -
  have "length (req_sBuffer (up_sent a_packet)) = 12" using a_packet_lengths(1) by simp
  then show "up_ok a_packet"
    using a_packet_lengths(2)
    by (simp add: up_ok_def req_ok_def map_ok_def str_ok_def up_sent_def a_packet_def
        UniPacket_init_def UniAttribute_init_def RequestPacket_init_def TARS_MAX_STRING_LENGTH_def)
  show "wf_ua (up_attr a_packet)"
    by (simp add: wf_ua_def a_packet_def UniPacket_init_def UniAttribute_init_def)
qed

lemma a_timeout_queue_inv: "toq_inv a_timeout_queue"
  unfolding a_timeout_queue_def by (intro toq_push_keeps toq_inv_init)

lemma a_transfer_reachable: "spsc_reachable a_transfer"
proof -
  let ?q = "the (LoopQueue_init 2) :: nat loop_queue"
  let ?s = "\<lparr>ring = ?q, producer_at = PIdle, consumer_at = CIdle, sent = [], got = []\<rparr>"
  have i: "LoopQueue_init 2 = Some ?q"
    by (simp add: LoopQueue_init_def)
  have "spsc_step ?s (?s\<lparr>producer_at := PChecked 5\<rparr>)"
    by (rule spsc_step.push_test) (simp_all add: LoopQueue_init_def lq_full_def)
  moreover have "spsc_step (?s\<lparr>producer_at := PChecked 5\<rparr>) a_transfer_stored"
    using spsc_step.push_copy [of "?s\<lparr>producer_at := PChecked 5\<rparr>" 5] by (simp add: a_transfer_stored_def LoopQueue_init_def numeral_3_eq_3)
  moreover have "spsc_step a_transfer_stored a_transfer_sent"
    using spsc_step.push_move [of "a_transfer_stored" 5]
    by (simp add: a_transfer_stored_def a_transfer_sent_def LoopQueue_init_def lq_next_def)
  moreover have "spsc_step a_transfer_sent a_transfer"
    unfolding a_transfer_def by (rule spsc_step.pop_test) (simp_all add: a_transfer_sent_def a_transfer_stored_def LoopQueue_init_def lq_next_def)
  ultimately show ?thesis
    using spsc_reachable.spsc_start [OF i] by (metis spsc_reachable.spsc_next zero_less_numeral)
qed

lemma a_queue_start: "lq_inv (the (LoopQueue_init 2) :: nat loop_queue)" "lq_items (the (LoopQueue_init 2) :: nat loop_queue) = []"
  "lq_size (the (LoopQueue_init 2) :: nat loop_queue) = 0" "lq_sub (the (LoopQueue_init 2) :: nat loop_queue) = 2"
  by (simp_all add: LoopQueue_init_def lq_inv_def lq_slots_def lq_size_def lq_items_def)

lemma a_queue_inv: "lq_inv (a_queue [x, y])"
  unfolding a_queue_def using lq_store_all_spec [OF a_queue_start(1), of "[x, y]"] by (simp add: a_queue_start)

lemma a_queue_items: "lq_items (a_queue [x, y]) = [x, y]"
  unfolding a_queue_def using lq_store_all_spec [OF a_queue_start(1), of "[x, y]"] by (simp add: a_queue_start)

lemma a_queue_full: "lq_size (a_queue [x, y]) = lq_sub (a_queue [x, y])"
  by (simp add: a_queue_def LoopQueue_init_def lq_size_def lq_next_def)

lemma a_connection_inv: "tr_inv a_connection"
  by (simp add: a_connection_def Transceiver_init_def tr_inv_def tr_pending_def tb_inv_init)

lemma a_connection_fields: "tr_fd a_connection = 3" "net_open (tr_net a_connection) = [3]"
  "tr_arrivals a_connection = [Arrived [49, 58, 65], Arrived [50, 58, 66]]" "readable (tr_recvBuffer a_connection) = []"
  by (simp_all add: a_connection_def Transceiver_init_def tr_arrivals_def tb_inv_init)

lemma a_closing_inv: "tr_inv a_closing_connection"
  by (simp add: a_closing_connection_def Transceiver_init_def tr_inv_def tr_pending_def tb_inv_init)

lemma a_closing_fields: "tr_fd a_closing_connection = 3" "net_open (tr_net a_closing_connection) = [3]"
  "tr_arrivals a_closing_connection = [Arrived [49, 58, 65], Closed]"
  "readable (tr_recvBuffer a_closing_connection) = []"
  by (simp_all add: a_closing_connection_def Transceiver_init_def tr_arrivals_def tb_inv_init)


lemma a_proxy_fields: "op_id a_proxy = 0" "net_connects (tr_net (op_trans a_proxy)) = []"
  "op_tq a_proxy = TimeoutQueue_init" "toq_view TimeoutQueue_init i = None"
  by (simp_all add: a_proxy_def Transceiver_init_def a_net_def TimeoutQueue_init_def toq_view_def)


lemma a_waiting_inv: "toq_inv (op_tq a_waiting_proxy)"
  unfolding a_waiting_proxy_def by (simp add: toq_push_keeps toq_inv_init)

lemma a_waiting_waits: "waits_for a_waiting_proxy 1 0" "waits_for a_waiting_proxy 2 1"
  by (auto simp: waits_for_def a_waiting_proxy_def a_proxy_def toq_push_def TimeoutQueue_init_def
      toq_view_def a_message_def ReqMessage_init_def)

lemma a_blocked_fields: "tr_inv (op_trans a_blocked_proxy)" "tr_pending (op_trans a_blocked_proxy) = []"
  "tr_fd (op_trans a_blocked_proxy) = 3" "net_open (tr_net (op_trans a_blocked_proxy)) = [3, 2]"
  "net_next (tr_net (op_trans a_blocked_proxy)) = 4"
  "toq_inv (op_tq a_blocked_proxy)" "toq_unsent (op_tq a_blocked_proxy) = [1]"
  "toq_view (op_tq a_blocked_proxy) 1 = Some (0, 100, False)" "op_heap a_blocked_proxy 0 = Some a_message"
  "rm_sReqData a_message = [49, 58, 102]"
  "net_sends (tr_net (op_trans a_blocked_proxy)) = replicate 3 (Accepts 3)"
  by (simp_all add: a_blocked_proxy_def a_proxy_def Transceiver_init_def tr_inv_def tr_pending_def tb_inv_init
      toq_push_keeps toq_inv_init a_message_def ReqMessage_init_def)
    (simp_all add: toq_push_def TimeoutQueue_init_def toq_view_def toq_unsent_def)

lemma a_memory_ok:
  "stack_size_ok 16384 a_memory" "answers_ok a_memory"
  "\<forall>k \<ge> mm_calls a_memory. mm_answers a_memory k \<noteq> None" "mm_maps a_memory = []"
proof -
  have "65536 * (k mod 1073741824 + 1) < (2 :: nat) ^ 47" for k :: nat
    using mod_less_divisor [of 1073741824 k] by simp
  then show "answers_ok a_memory" by (simp add: answers_ok_def a_memory_def)
qed (simp_all add: a_memory_def stack_size_ok_def minimum_stacksize_def sizeof_fcontext_def)

lemma a_coro_prog_ok: "prog_ok a_coro_prog"
  by (simp add: prog_ok_def a_coro_prog_def)

lemma a_started_ids: "new_ids 0 3 = [1, 2, 3 :: 32 word]"
  by (simp add: numeral_3_eq_3)

lemma a_started_avail:
  "a_started_lists CORO_AVAIL = [1]" "a_started_lists CORO_FREE = [2, 3]" "a_started_lists CORO_ACTIVE = []"
  "a_started_lists CORO_INACTIVE = []" "a_started_lists CORO_TIMEOUT = []"
  by (simp_all add: a_started_lists_def mv_def added_all_def a_started_ids no_coros_def)

lemma a_started_inv:
  "sched_inv a_started a_started_lists" "\<not> cs_terminal a_started" "idle_queue a_started" "cs_poolSize a_started = 3"
  "cs_readings a_started = 0 \<and> cs_clock a_started = a_clock \<and> cs_timeoutCoroId a_started = []"
  "cs_activeCoroQueue a_started = emptied \<and> cs_needActiveCoroId a_started = []"
proof -
  have pool: "0 < (3 :: 32 word)" "unat (3 :: 32 word) + 1 < 4294967296" by simp_all
  obtain s :: "nat scheduler" where s: "cs_init 3 16384 (CoroutineScheduler a_memory a_clock) = (Ok (), s)"
    "sched_inv s (added_all (new_ids 0 3) no_coros)" "\<not> cs_terminal s" "cs_poolSize s = 3" "cs_clock s = a_clock"
    "cs_activeCoroQueue s = emptied" "cs_needActiveCoroId s = []" "cs_timeoutCoroId s = []" "cs_readings s = 0"
    using cs_init_spec [OF pool a_memory_ok, where clock = a_clock and ?'p = nat] by auto
  let ?L = "added_all (new_ids 0 3) no_coros"
  have free: "?L CORO_FREE = [1, 2, 3]" by (simp add: added_all_def a_started_ids no_coros_def)
  have "in_use ?L < unat (cs_poolSize s)" using s(4) by (simp add: in_use_def added_all_def no_coros_def)
  moreover have "extension s ?L = []" using free by (simp add: extension_def)
  ultimately obtain s' where s': "cs_createCoroutine 0 s = (Ok 1, s')"
    "sched_inv s' (mv CORO_FREE CORO_AVAIL 1 (added_all [] ?L))" "rest_of s' = rest_of s"
    using createCoroutine_spec [OF s(2), of 0] free by auto
  have "a_started = s'" using s(1) s'(1) by (simp add: a_started_def)
  moreover have "added_all [] ?L = ?L" by (rule added_all_Nil)
  ultimately show "sched_inv a_started a_started_lists" "\<not> cs_terminal a_started" "idle_queue a_started"
    "cs_poolSize a_started = 3"
    "cs_readings a_started = 0 \<and> cs_clock a_started = a_clock \<and> cs_timeoutCoroId a_started = []"
    "cs_activeCoroQueue a_started = emptied \<and> cs_needActiveCoroId a_started = []"
    using s s'(2) rest_ofD [OF s'(3)] by (simp_all add: a_started_lists_def idle_queue_def emptied_def)
qed

lemma a_started_woken: "woken a_started a_started_lists CORO_ACTIVE = []" "woken a_started a_started_lists CORO_AVAIL = [1]"
  using a_started_inv(5,6) by (simp_all add: woken_def emptied_def a_started_avail)

lemma a_sleeper_lists:
  "a_sleeper_lists CORO_TIMEOUT = [1]" "a_sleeper_lists CORO_INACTIVE = []" "a_sleeper_lists CORO_ACTIVE = []"
  by (simp_all add: a_sleeper_lists_def mv_def a_started_avail)

lemma a_sleeper_inv:
  "sched_inv a_sleeper a_sleeper_lists" "\<not> cs_terminal a_sleeper"
  "cs_clock a_sleeper (cs_readings a_sleeper) = 10" "cs_timeoutCoroId a_sleeper = [(10, 1)]"
  "cs_clock a_sleeper = a_clock" "cs_readings a_sleeper = 1" "tq_queue (cs_activeCoroQueue a_sleeper) = [1]"
proof -
  let ?s = "a_started\<lparr>cs_currentCoro := slot (cs_all_coro a_started) 1\<rparr>"
  have inv: "sched_inv ?s a_started_lists"
    by (rule sched_inv_queues [OF a_started_inv(1)])
      (use sched_invD(3) [OF a_started_inv(1)] in \<open>simp_all add: queues_at_def\<close>)
  have "the_current ?s a_started_lists CORO_AVAIL 1" by (simp add: the_current_def a_started_avail)
  from cs_sleep_spec [OF inv this, of 10 7] obtain s1 where
    s1: "cs_sleep 10 7 ?s = (Ok (), s1)" "sched_inv s1 a_sleeper_lists" "fixed_of s1 = fixed_of ?s"
    "cs_timeoutCoroId s1 = time_insert (cs_clock ?s (cs_readings ?s) + 10) 1 (cs_timeoutCoroId ?s)"
    "cs_readings s1 = cs_readings ?s + 1"
    by (auto simp: a_sleeper_lists_def)
  have f: "\<not> cs_terminal s1" "cs_clock s1 = a_clock" "tq_queue (cs_activeCoroQueue s1) = []"
    "cs_timeoutCoroId s1 = [(10, 1)]" "cs_readings s1 = 1"
    using s1(3-5) a_started_inv(2,5,6) by (simp_all add: fixed_of_def emptied_def a_clock_def)
  have k: "known a_sleeper_lists 1" by (auto simp: known_def a_sleeper_lists intro!: exI [of _ CORO_TIMEOUT])
  obtain s2 where "cs_put 1 s1 = (Ok (), s2)" "sched_inv s2 a_sleeper_lists"
    "tq_queue (cs_activeCoroQueue s2) = tq_queue (cs_activeCoroQueue s1) @ [1]"
    "cs_terminal s2 = cs_terminal s1" "cs_clock s2 = cs_clock s1" "cs_readings s2 = cs_readings s1"
    "cs_timeoutCoroId s2 = cs_timeoutCoroId s1"
    using cs_put_spec [OF s1(2) k f(1)] f(3) by auto
  then show "sched_inv a_sleeper a_sleeper_lists" "\<not> cs_terminal a_sleeper"
    "cs_clock a_sleeper (cs_readings a_sleeper) = 10" "cs_timeoutCoroId a_sleeper = [(10, 1)]"
    "cs_clock a_sleeper = a_clock" "cs_readings a_sleeper = 1" "tq_queue (cs_activeCoroQueue a_sleeper) = [1]"
    using s1(1) f by (simp_all add: a_sleeper_def a_clock_def)
qed

lemma starved_memory_ok:
  "allocate 16384 starved_memory = (Ok None, starved_memory\<lparr>mm_calls := 1\<rparr>)"
  "stack_size_ok 16384 starved_memory" "answers_ok starved_memory"
  "\<forall>k \<ge> 1. mm_answers starved_memory k \<noteq> None" "mm_maps starved_memory = []" "mm_calls starved_memory = 0"
proof -
  show ok: "stack_size_ok 16384 starved_memory" "answers_ok starved_memory"
    "\<forall>k \<ge> 1. mm_answers starved_memory k \<noteq> None" "mm_maps starved_memory = []" "mm_calls starved_memory = 0"
    using a_memory_ok unfolding starved_memory_def
    by (simp_all add: answers_ok_def stack_size_ok_def a_memory_def)
  then show "allocate 16384 starved_memory = (Ok None, starved_memory\<lparr>mm_calls := 1\<rparr>)"
    using allocate_spec [OF ok(1,2)] by (simp add: starved_memory_def a_memory_def)
qed

lemma a_starved_inv: "sched_inv a_starved no_coros"
  and a_starved_sizes: "cs_currentSize a_starved = 0" "cs_poolSize a_starved = 1"
proof -
  let ?s0 = "CoroutineScheduler starved_memory a_clock :: nat scheduler"
  let ?h = "(heads_empty objects_init)(MainCoro := map_option (\<lambda>c. c\<lparr>ci_uid := 0, ci_eStatus := CORO_FREE\<rparr>)
    (heads_empty objects_init MainCoro)) :: nat coro_heap"
  let ?s = "?s0\<lparr>cs_terminal := False, cs_poolSize := 1, cs_stackSize := 16384, cs_currentSize := 0,
    cs_all_coro := Array [NullCoro, NullCoro], cs_usedSize := 0, cs_uniqId := 0, cs_fresh := 1,
    cs_alloc := starved_memory\<lparr>mm_calls := 1\<rparr>, cs_heap := ?h, cs_currentCoro := MainCoro\<rparr>"
  obtain c where c: "heads_empty objects_init MainCoro = Some (c :: nat coro_info)"
    using heads_empty_none [of "objects_init :: nat coro_heap" MainCoro] by (auto simp: objects_init_def)
  have none: "heads_empty objects_init (Coro 0) = (None :: nat coro_info option)"
    by (simp add: heads_empty_none objects_init_def)
  then have undone: "(heads_empty objects_init)(Coro 0 := None) = (heads_empty objects_init :: nat coro_heap)"
    by (simp add: fun_upd_idem_iff)
  have eq: "a_starved = ?s"
    using undone c starved_memory_ok(1) unfolding a_starved_def starved_memory_def [symmetric]
    by (simp add: cs_init_def andthen_def cs_update_def cs_read_def ret_def all_coro_fresh_def constructed
        coro_new_def coro_delete_def on_alloc_def on_heap_def zoom_def setUid_def setStatus_def coro_set_def)
  show "cs_currentSize a_starved = 0" "cs_poolSize a_starved = 1" unfolding eq by simp_all
  let ?arr = "Array (replicate (Suc (unat (1 :: 32 word))) NullCoro)"
  have arr: "Array [NullCoro, NullCoro] = ?arr" by simp
  have slot: "slot ?arr i = NullCoro" for i by (simp add: slot_def del: replicate.simps)
  have "coro_lists ?arr 1 0 1 (heads_empty objects_init :: nat coro_heap) no_coros"
    unfolding coro_lists_def
    using constructed_rings [of ?arr] slot
    by (simp add: no_coros_def heads_empty_none objects_init_def del: replicate.simps)
  then have "coro_lists ?arr 1 0 1 ?h no_coros" using lists_main c by fastforce
  then have "lists_at ?s no_coros" by (simp add: arr del: replicate.simps)
  moreover have "sizes_at ?s no_coros" by (simp add: sizes_at_def in_use_def no_coros_def)
  moreover have "queues_at ?s no_coros"
    by (simp add: queues_at_def constructed ThreadQueue_init_def tq_inv_def tq_small_def no_coros_def)
  moreover have "ready_at ?s no_coros" by (simp add: ready_at_def no_coros_def)
  moreover have "memory_at ?s no_coros"
    using starved_memory_ok by (simp add: memory_at_def known_def no_coros_def stack_size_ok_def answers_ok_def split: option.splits)
  ultimately have "sched_inv ?s no_coros" by (simp add: sched_inv_def)
  then show "sched_inv a_starved no_coros" unfolding eq .
qed

lemma a_server_inv:
  assumes "distinct free" and "5 \<notin> set free" and "- 1 \<notin> set (net_open n)"
    and "\<forall>d \<in> set ds. rd_isClosed d \<or> rd_uid d = 5 \<and> rd_fd d = 9"
    and "\<forall>d \<in> set cs. sd_cmd d = CHR ''s'' \<and> sd_uid d = 5" and "length ds < size_max" and "length cs < size_max"
  shows "server_inv (a_server ds cs free n)"
  using assms
  by (auto simp: a_server_def server_inv_def thread_ok_def Let_def thread_at_def conn_ok_def adapter_ok_def
      a_client_def getNetThreadOfFd_def tq_inv_def command_ok_def adapters_ok_def message_ok_def groups_ok_def
      BindAdapter_init_def split: if_splits)

lemma a_server_backlog: "backlog (a_server ds cs free n) = length ds + length cs"
  by (simp add: a_server_def backlog_def adapter_backlog_def thread_backlog_def)

lemma a_server_served: "all_served (served a_helper a_servants) (a_server ds cs free n)"
  by (simp add: all_served_def a_server_def BindAdapter_init_def served_def a_servants_def a_helper_def getAdapterServant_def)


lemma a_server_group:
  "\<exists>hg. es_groups (a_server ds cs free n) 0 = Some hg \<and> hg_adapters hg = [([65], 0)] \<and> named_in (a_server ds cs free n) hg"
  by (simp add: a_server_def named_in_def BindAdapter_init_def)


lemma a_server_commands: "commands 0 (a_server ds cs free n) = cs"
  by (simp add: a_server_def commands_def thread_at_def)


lemma two_at_simps [simp]:
  "two_at a b 0 = a" "two_at a b (Suc 0) = b" "(two_at a b)(0 := c) = two_at c b" "(two_at a b)(Suc 0 := c) = two_at a c"
  by (auto simp: two_at_def)

lemma two_at_outside: "two_at Outside Outside = (\<lambda>_. Outside)"
  by (auto simp: two_at_def)

lemma awaken_two_at: "u \<notin> set W \<or> u \<in> set W' \<Longrightarrow> awaken W W' (two_at (Sleeping op) b) u = two_at (Sleeping op) b u"
  by (cases "two_at (Sleeping op) b u") (auto simp: awaken_def)

lemma a_call_sleeps: "queue_reaches in_order (two_threads (Sleeping (PopFront (WaitFor 1000))) Outside (a_monitor None [0] 0) [])"
proof -
  let ?op = "PopFront (WaitFor 1000)"
  have "queue_reaches in_order (two_threads Outside Outside (a_monitor None [] 0) [])"
    using queue_reaches.start [of "in_order :: nat tq_op \<Rightarrow> bool"]
    by (simp add: queue_system_init_def two_threads_def two_at_outside a_monitor_def monitor_init_def ThreadQueue_init_def)
  from queue_reaches.step [OF this queue_step.call [of _ 0 _ ?op]]
  have "queue_reaches in_order (two_threads (Locking ?op) Outside (a_monitor None [] 0) [])" by (simp add: two_threads_def)
  from queue_reaches.step [OF this queue_step.lock [of _ 0 ?op "a_monitor (Some 0) [] 0"]]
  have "queue_reaches in_order (two_threads (Inside ?op) Outside (a_monitor (Some 0) [] 0) [])"
    by (simp add: two_threads_def a_monitor_def monitor_lock_free)
  from queue_reaches.step [OF this queue_step.sleep [of _ 0 ?op "\<lambda>_. 0" "a_monitor None [0] 0"]]
  show ?thesis by (simp add: two_threads_def a_monitor_def monitor_sleep_own ext [OF awaken_two_at])
qed

lemma a_push_leaves:
  "queue_reaches in_order (two_threads (Sleeping (PopFront (WaitFor 1000))) (Leaving Finished) (a_monitor (Some 1) [0] 1) [7])"
proof -
  let ?op = "PushBack 7" and ?a = "Sleeping (PopFront (WaitFor 1000))"
  from queue_reaches.step [OF a_call_sleeps queue_step.call [of _ 1 _ ?op]]
  have "queue_reaches in_order (two_threads ?a (Locking ?op) (a_monitor None [0] 0) [])" by (simp add: two_threads_def)
  from queue_reaches.step [OF this queue_step.lock [of _ 1 ?op "a_monitor (Some 1) [0] 0"]]
  have "queue_reaches in_order (two_threads ?a (Inside ?op) (a_monitor (Some 1) [0] 0) [])"
    by (simp add: two_threads_def a_monitor_def monitor_lock_free)
  from queue_reaches.step [OF this queue_step.run [of _ 1 ?op Finished "\<lparr>tq_queue = [7], tq_size = 1\<rparr>" 1]]
  show ?thesis by (simp add: two_threads_def a_monitor_def tq_push_back_def add_notes_def notify_def)
qed

lemma a_pool_is_unfinished: "unfinished (one_worker [] Looping True {} False Unlocked [] [])"
  by (simp add: unfinished_def one_worker_def)

lemma a_stopped_pool_doomed: "doomed a_stopped_pool"
  by (simp add: doomed_def a_stopped_pool_def TC_ThreadPool_def)



lemma a_calling_proxy_waits:
  "toq_inv (op_tq a_calling_proxy)" "waits_for a_calling_proxy 7 0" "toq_view (op_tq a_calling_proxy) 0 = None"
proof -
  have none: "toq_view (TimeoutQueue_init :: nat timeout_queue) i = None" for i
    by (simp add: toq_view_def TimeoutQueue_init_def)
  obtain q' :: "nat timeout_queue" where q': "toq_push 0 7 1000 True TimeoutQueue_init = (True, q')" "toq_inv q'"
    "toq_view q' = (toq_view TimeoutQueue_init)(7 \<mapsto> (0, 1000, True))"
    by (rule toq_push_spec [OF toq_inv_init none, of 0 7 1000 True])
  then show "toq_inv (op_tq a_calling_proxy)" "waits_for a_calling_proxy 7 0" "toq_view (op_tq a_calling_proxy) 0 = None"
    by (auto simp: a_calling_proxy_def waits_for_def HelloProxy_testHello_def sp_message_def ReqMessage_init_def none)
qed



section \<open>Further facts\<close>

theorem parse_waits:
  assumes "4 + length body \<le> 10000000" and "k < length (frame body)"
  shows "parse (take k (frame body)) out = (0, take k (frame body), out)"
  using assms by (rule parse_frame_wait)

theorem parse_waits_witness: "parse (take 5 (frame [1, 2])) [] = (0, take 5 (frame [1, 2]), [])"
  by (rule parse_waits) simp_all

theorem attribute_put_get:
  assumes "length v \<le> TARS_MAX_STRING_LENGTH" and "wf_ua u" and "3 \<le> n"
  shows "\<exists>u'. ua_put write_string name v u = (Ok (), u') \<and> wf_ua u' \<and>
    fst (ua_get read_string n name d u') = Ok v \<and>
    (\<forall>other. other \<noteq> name \<longrightarrow> map_of (ua_data u') other = map_of (ua_data u) other)"
proof -
  have "length (enc_string v 0) \<le> 5 + length v" by (simp add: enc_string_def length_enc_head)
  then have "2 * length (enc_string v 0) < size_max"
    using assms(1) by (simp add: TARS_MAX_STRING_LENGTH_def)
  from str.put_get [OF assms(1,2) this assms(3)] show ?thesis by metis
qed

theorem attribute_put_get_witness:
  "\<exists>u'. ua_put write_string [107] [118] UniAttribute_init = (Ok (), u') \<and> wf_ua u' \<and>
    fst (ua_get read_string 3 [107] [] u') = Ok [118] \<and>
    (\<forall>other. other \<noteq> [107] \<longrightarrow>
       map_of (ua_data u') other = map_of (ua_data UniAttribute_init) other)"
  by (rule attribute_put_get) (simp_all add: TARS_MAX_STRING_LENGTH_def wf_ua_init)

theorem nested_struct_roundtrip:
  assumes "req_ok p" and "req_need p + 2 \<le> n"
  shows "appends (write_struct req_writeTo p tag) (enc_struct req_body p tag) \<and>
    reads (read_struct req_readFrom n d tag q) (enc_struct req_body p tag) p \<and>
    reads (skipField n) (enc_struct req_body p tag) ()"
proof (intro conjI)
  have n: "3 \<le> n" using assms(2) by (simp add: req_need_def req_needs_def)
  show "appends (write_struct req_writeTo p tag) (enc_struct req_body p tag)"
    by (rule req_total.struct.wr_enc [OF assms(1)])
  show "reads (read_struct req_readFrom n d tag q) (enc_struct req_body p tag) p"
    by (rule req_total.struct.rd_enc [OF assms(1) n])
  show "reads (skipField n) (enc_struct req_body p tag) ()"
    by (rule reads_skipField [OF req_total.struct.enc_field [OF assms(1)]]) (use assms(2) in simp)
qed

theorem nested_struct_roundtrip_witness:
  "appends (write_struct req_writeTo a_request 2) (enc_struct req_body a_request 2) \<and>
    reads (read_struct req_readFrom 50 RequestPacket_init 2 True) (enc_struct req_body a_request 2)
      a_request \<and>
    reads (skipField 50) (enc_struct req_body a_request 2) ()"
proof (rule nested_struct_roundtrip [OF a_request_ok])
  show "req_need a_request + 2 \<le> 50"
    by (simp add: req_need_def req_needs_def str_map_need_def pair_need_def a_request_def
        RequestPacket_init_def)
qed

theorem map_roundtrip:
  assumes "attrs_ok m" and "3 \<le> n"
  shows "appends (write_map write_string write_vector_char m tag)
      (enc_map enc_string enc_vector_char m tag) \<and>
    reads (read_map read_string [] read_vector_char [] n d tag q)
      (enc_map enc_string enc_vector_char m tag) m"
  using assms by (intro conjI attrs.wr_enc attrs.rd_enc) simp_all

theorem map_roundtrip_witness:
  "appends (write_map write_string write_vector_char [([97], [1]), ([98], [])] 1)
      (enc_map enc_string enc_vector_char [([97], [1]), ([98], [])] 1) \<and>
    reads (read_map read_string [] read_vector_char [] 3 [] 1 True)
      (enc_map enc_string enc_vector_char [([97], [1]), ([98], [])] 1) [([97], [1]), ([98], [])]"
  by (rule map_roundtrip) (simp_all add: map_ok_def TARS_MAX_STRING_LENGTH_def)

theorem integers_widen:
  assumes "3 \<le> n"
  shows "reads (read_Short n ds tag q) (enc_Char c tag) (scast c) \<and>
    reads (read_Int32 n di tag q) (enc_Short h tag) (scast h) \<and>
    reads (read_Int64 n dl tag q) (enc_Int32 w tag) (scast w) \<and>
    reads (read_Int64 n dl tag q) (enc_Int64 l tag) l \<and>
    appends (write_Char c tag) (enc_Char c tag) \<and> appends (write_Short h tag) (enc_Short h tag) \<and>
    appends (write_Int32 w tag) (enc_Int32 w tag) \<and> appends (write_Int64 l tag) (enc_Int64 l tag)"
proof (intro conjI)
  obtain m where m: "2 \<le> m" "read_Int32 n di tag q = read_field m di tag q Int32_body"
    using read_Int32_field [OF assms] by blast
  show "reads (read_Int32 n di tag q) (enc_Short h tag) (scast h)"
    unfolding m(2) by (rule reads_Int32_of_Short [OF m(1)])
qed (use assms in \<open>auto intro: reads_Short_of_Char reads_Int64_of_Int32 reads_Int64
       appends_Char appends_Short appends_Int32 appends_Int64\<close>)

theorem integers_widen_witness:
  "reads (read_Short 3 0 1 True) (enc_Char 255 1) (scast (255 :: tChar)) \<and>
    reads (read_Int32 3 0 1 True) (enc_Short 300 1) (scast (300 :: tShort)) \<and>
    reads (read_Int64 3 0 1 True) (enc_Int32 70000 1) (scast (70000 :: tInt32)) \<and>
    reads (read_Int64 3 0 1 True) (enc_Int64 5 1) 5 \<and>
    appends (write_Char 255 1) (enc_Char 255 1) \<and> appends (write_Short 300 1) (enc_Short 300 1) \<and>
    appends (write_Int32 70000 1) (enc_Int32 70000 1) \<and> appends (write_Int64 5 1) (enc_Int64 5 1)"
  by (rule integers_widen) simp

theorem missing_field:
  assumes "stream_at s r" and "absent tag r" and "2 \<le> n"
  shows "read_string n d tag False s = (Ok d, s) \<and>
    read_string n d tag True s = (Throw TarsDecodeRequireNotExist, s)"
proof
  have "reads_if (absent tag) (read_string n d tag False) [] d"
    unfolding read_string_def by (rule reads_field_absent [OF assms(3)])
  from reads_ifD [OF this assms(2), of s] assms(1) show "read_string n d tag False s = (Ok d, s)"
    by simp
  show "read_string n d tag True s = (Throw TarsDecodeRequireNotExist, s)"
    unfolding read_string_def by (rule read_field_required [OF assms])
qed

theorem missing_field_witness:
  "read_string 2 [1] 4 False (setBuffer_vector [0x50] BufferReader_init) =
      (Ok [1], setBuffer_vector [0x50] BufferReader_init) \<and>
    read_string 2 [1] 4 True (setBuffer_vector [0x50] BufferReader_init) =
      (Throw TarsDecodeRequireNotExist, setBuffer_vector [0x50] BufferReader_init)"
proof (rule missing_field)
  show "stream_at (setBuffer_vector [0x50] BufferReader_init) [0x50]"
    by (rule stream_at_setBuffer_vector) simp
  have "[0x50] = enc_head 0 5 @ []" by (simp add: enc_head_def)
  then show "absent 4 [0x50]" using absent_head [of 0 4 5 "[]"] by simp
qed simp

theorem list_into_array:
  assumes "length w < 2 ^ 32" and "3 \<le> n" and "stream_at s (enc_vector enc_Int32 w tag @ r)"
  shows "fst (read_array read_Int32 n v readLen tag q s) =
    (if length w \<le> length v then Ok (w @ drop (length w) v, length w) else Fault)"
proof (cases "length w \<le> length v")
  case True
  from reads_ifD [OF int32.read_array_fits [OF _ assms(1,2) True] TrueI assms(3)] True
  show ?thesis by simp
next
  case False
  with int32.read_array_overflow [OF _ assms(1,2) _ assms(3)] show ?thesis by simp
qed

theorem list_into_array_witness:
  "fst (read_array read_Int32 3 [0] 0 1 True
      (setBuffer_vector (enc_vector enc_Int32 [7, 8] 1) BufferReader_init)) =
    (if length [7, 8 :: tInt32] \<le> length [0 :: tInt32]
     then Ok ([7, 8] @ drop (length [7, 8 :: tInt32]) [0], length [7, 8 :: tInt32]) else Fault)"
proof (rule list_into_array)
  have "length (enc_vector enc_Int32 [7, 8] 1) = 7" by code_simp
  then show "stream_at (setBuffer_vector (enc_vector enc_Int32 [7, 8] 1) BufferReader_init)
      (enc_vector enc_Int32 [7, 8] 1 @ [])"
    using stream_at_setBuffer_vector [of "enc_vector enc_Int32 [7, 8] 1" BufferReader_init] by simp
qed simp_all

theorem preset_buffer_overflow:
  assumes "length m < length bs" and "length bs < size_max"
  shows "buff_writeBuf bs (buff_setBuffer m (length m) os) =
      (Throw TarsNotEnoughBuff, buff_setBuffer m (length m) os) \<and>
    fst (TarsWriteTypeBuf bs (buff_setBuffer m (length m) os)) = Fault"
  using full_buffer [of "buff_setBuffer m (length m) os" bs] assms
  by (simp add: buff_setBuffer_def)

theorem preset_buffer_overflow_witness:
  "buff_writeBuf [1, 2] (buff_setBuffer [0] (length [0 :: byte]) BufferWriterBuff_init) =
      (Throw TarsNotEnoughBuff, buff_setBuffer [0] (length [0 :: byte]) BufferWriterBuff_init) \<and>
    fst (TarsWriteTypeBuf [1, 2] (buff_setBuffer [0] (length [0 :: byte]) BufferWriterBuff_init)) = Fault"
  by (rule preset_buffer_overflow) simp_all

theorem writer_assignment_keeps_old:
  assumes "wf_os buf" and "wf_os os" and "2 * (wlen os + wlen buf) < size_max"
  shows "\<exists>os' os''. writer_assign buf os = (Ok (), os') \<and>
    contents os' = take (wlen buf) (contents os @ contents buf) \<and>
    writer_copy buf = (Ok (), os'') \<and> contents os'' = contents buf"
proof -
  have "2 * wlen buf < size_max" using assms(3) by simp
  from writer_copy_contents [OF assms(1) this] writer_assign_contents [OF assms]
  show ?thesis by metis
qed

theorem writer_assignment_keeps_old_witness:
  "\<exists>os' os''. writer_assign (a_writer [1, 2]) (a_writer [9]) = (Ok (), os') \<and>
    contents os' = take (wlen (a_writer [1, 2])) (contents (a_writer [9]) @ contents (a_writer [1, 2])) \<and>
    writer_copy (a_writer [1, 2]) = (Ok (), os'') \<and> contents os'' = contents (a_writer [1, 2])"
  by (rule writer_assignment_keeps_old) (simp_all add: a_writer_def wf_os_def)

theorem consume_too_much:
  assumes "tb_inv b" and "length (readable b) < n" and "n < 9223372036854775808"
  shows "Consume n b = (Abort, b)"
  using assms by (rule Consume_too_much)

theorem consume_too_much_witness: "Consume 1 TC_Buffer_init = (Abort, TC_Buffer_init)"
  by (rule consume_too_much) (simp_all add: tb_inv_init)

theorem loop_queue_order:
  assumes "LoopQueue_init iSize = Some q" and "0 < iSize" and "lq.history cs q = (ins, outs, q')"
  shows "take (length outs) ins = outs \<and> lq_inv q'"
proof -
  have "iSize < 1000000" using assms(1) by (simp add: LoopQueue_init_def split: if_splits)
  then have q: "lq_inv q" "lq_items q = []"
    using LoopQueue_init_spec [OF assms(2)] assms(1) by (metis option.inject)+
  show ?thesis
    using lq.history_prefix [OF q assms(3)] lq.history_inv [OF q(1), of cs] assms(3) by simp
qed

theorem loop_queue_order_witness:
  "take (length [10, 20 :: nat]) [10, 20, 30 :: nat] = [10, 20] \<and>
     lq_inv (snd (snd (lq.history [Push 10, Push 20, Push 99, Pop, Push (30 :: nat), Pop]
       (the (LoopQueue_init 2)))))"
proof -
  have i: "LoopQueue_init 2 = Some (the (LoopQueue_init 2) :: nat loop_queue)"
    by (simp add: LoopQueue_init_def)
  obtain q' where h: "lq.history [Push 10, Push 20, Push 99, Pop, Push (30 :: nat), Pop] (the (LoopQueue_init 2))
      = ([10, 20, 30], [10, 20], q')"
    by (simp add: LoopQueue_init_def lq_push_back_def lq_push_back_empty_def lq_full_def lq_next_def
        lq_take_def lq_pop_front_def lq_size_def)
  show ?thesis using loop_queue_order [OF i _ h] h by simp
qed

theorem bulk_push_all_or_nothing:
  assumes "lq_inv q"
  shows "case lq_push_back_all vt q of (r, q') \<Rightarrow>
    r = (length (lq_items q) + length vt \<le> lq_sub q) \<and> lq_inv q' \<and>
    lq_items q' = (if r then lq_items q @ vt else lq_items q)"
  using lq_push_back_all_spec [OF assms, of vt] lq_store_all_spec [OF assms, of vt] assms by auto

theorem bulk_push_all_or_nothing_witness:
  "case lq_push_back_all [7, 8 :: nat] (the (LoopQueue_init 2)) of (r, q') \<Rightarrow>
    r = (length (lq_items (the (LoopQueue_init 2) :: nat loop_queue)) + length [7, 8 :: nat]
         \<le> lq_sub (the (LoopQueue_init 2) :: nat loop_queue)) \<and> lq_inv q' \<and>
    lq_items q' = (if r then lq_items (the (LoopQueue_init 2)) @ [7, 8] else lq_items (the (LoopQueue_init 2)))"
  by (rule bulk_push_all_or_nothing)
    (simp add: LoopQueue_init_def lq_inv_def lq_slots_def lq_size_def)

theorem ring_of_size_zero:
  "case LoopQueue_init 0 of Some q \<Rightarrow> (case lq_push_back x q of (r, q') \<Rightarrow>
    r \<and> lq_empty q' \<and> lq_pop_front q' = (None, q'))"
  by (simp add: LoopQueue_init_def lq_push_back_def lq_push_back_empty_def lq_full_def lq_next_def
      lq_empty_def lq_pop_front_def)

theorem thread_queue_order:
  assumes "tq.history cs ThreadQueue_init = (ins, outs, q')"
  shows "take (length outs) ins = outs \<and> tq_size q' = length (tq_queue q')"
proof -
  have i: "tq_inv (ThreadQueue_init :: 'a thread_queue) \<and> tq_small (ThreadQueue_init :: 'a thread_queue)"
    by (simp add: tq_inv_def tq_small_def ThreadQueue_init_def)
  have "take (length outs) ins = outs"
    by (rule tq.history_prefix [OF i _ assms]) (simp add: ThreadQueue_init_def)
  moreover have "tq_inv q' \<and> tq_small q'" using tq.history_inv [OF i, of cs] assms by simp
  ultimately show ?thesis by (simp add: tq_inv_def tq_small_def)
qed

theorem thread_queue_order_witness:
  "take (length [10 :: nat]) [10, 20 :: nat] = [10] \<and>
     tq_size \<lparr>tq_queue = [20 :: nat], tq_size = 1\<rparr> = length (tq_queue \<lparr>tq_queue = [20 :: nat], tq_size = 1\<rparr>)"
proof (rule thread_queue_order)
  show "tq.history [Push 10, Pop, Pop, Push (20 :: nat)] ThreadQueue_init
      = ([10, 20], [10], \<lparr>tq_queue = [20], tq_size = 1\<rparr>)"
    by (simp add: tq_put_def tq_get_def tq_push_back_def tq_pop_front_def tq_after_wait_def
        tq_small_def ThreadQueue_init_def)
qed

theorem sequence_numbers_run_out:
  assumes "SeqManager_init n = Some s"
  shows "\<exists>s'. sm_gets n s = (Ok [0..<n], s') \<and> sm_get s' = (Abort, s')"
proof -
  have "sm_free_list s ([0..<n] @ [])" using SeqManager_init_spec [OF assms] by simp
  from sm_gets_spec [OF this] show ?thesis using sm_get_empty by (metis diff_zero length_upt)
qed

theorem sequence_numbers_run_out_witness:
  "\<exists>s'. sm_gets 2048 (the (SeqManager_init 2048)) = (Ok [0..<2048], s') \<and> sm_get s' = (Abort, s')"
  by (rule sequence_numbers_run_out) (simp add: SeqManager_init_def MAX_UNSIGN_SHORT_def)

theorem sequence_numbers_are_a_queue:
  assumes "sm_free_list s xs"
  shows "(case xs of [] \<Rightarrow> sm_get s = (Abort, s)
      | y # ys \<Rightarrow> \<exists>s'. sm_get s = (Ok y, s') \<and> sm_free_list s' ys) \<and>
    (if i < sm_num s \<and> i \<notin> set xs then \<exists>s'. sm_del i s = (Ok (), s') \<and> sm_free_list s' (xs @ [i])
     else sm_del i s = (Abort, s))"
proof
  show "case xs of [] \<Rightarrow> sm_get s = (Abort, s)
      | y # ys \<Rightarrow> \<exists>s'. sm_get s = (Ok y, s') \<and> sm_free_list s' ys"
    using assms sm_get_empty sm_get_spec by (cases xs) (simp, fastforce)
  show "if i < sm_num s \<and> i \<notin> set xs then \<exists>s'. sm_del i s = (Ok (), s') \<and> sm_free_list s' (xs @ [i])
     else sm_del i s = (Abort, s)"
  proof (cases "i < sm_num s \<and> i \<notin> set xs")
    case True
    then obtain s' where "sm_del i s = (Ok (), s')" "sm_free_list s' (xs @ [i])"
      using sm_del_spec [OF assms] by metis
    then show ?thesis using True by auto
  next
    case False
    then have "sm_num s \<le> i \<or> i \<in> set xs" by auto
    then show ?thesis using False sm_del_bad [OF assms] by auto
  qed
qed

theorem sequence_numbers_are_a_queue_witness:
  "\<exists>s'. sm_get (the (SeqManager_init 3)) = (Ok 0, s') \<and> sm_free_list s' [1, 2]"
proof -
  have u: "[0..<3] = [0, 1, 2 :: nat]" by (simp add: upt_rec)
  have "sm_free_list (the (SeqManager_init 3)) [0, 1, 2]"
    using SeqManager_init_spec [of 3] by (simp add: u SeqManager_init_def MAX_UNSIGN_SHORT_def)
  from sequence_numbers_are_a_queue [OF this] show ?thesis by simp
qed

theorem timeout_one_earliest:
  assumes "toq_inv q"
  shows "case toq_timeout_one now q of
      (Ok (Some m), q') \<Rightarrow> toq_inv q' \<and> (\<exists>k t b. toq_view q k = Some (m, t, b) \<and> t \<le> now \<and>
        toq_view q' = (toq_view q)(k := None) \<and>
        (\<forall>i m' t' b'. toq_view q i = Some (m', t', b') \<longrightarrow> t \<le> t'))
    | (Ok None, q') \<Rightarrow> q' = q \<and> (\<forall>i m t b. toq_view q i = Some (m, t, b) \<longrightarrow> now < t)
    | _ \<Rightarrow> False"
proof -
  have none: ?thesis if n: "toq_timeout_one now q = (Ok None, q)"
    using n toq_timeout_one_none [OF assms n] by auto
  show ?thesis
  proof (cases "toq_time q")
    case Nil
    then show ?thesis by (intro none) (simp add: toq_timeout_one_def)
  next
    case (Cons e ts)
    obtain t k where t: "toq_time q = (t, k) # ts" using Cons by (cases e) simp
    show ?thesis
    proof (cases "t \<le> now")
      case False
      then show ?thesis by (intro none) (simp add: toq_timeout_one_def t)
    next
      case True
      obtain m b where m: "toq_timeout_one now q = (Ok (Some m), toq_remove k q)"
        "toq_view q k = Some (m, t, b)" "\<And>i m' t' b'. toq_view q i = Some (m', t', b') \<Longrightarrow> t \<le> t'"
        using toq_timeout_one_spec [OF assms t True] by metis
      have "\<exists>k' t b. toq_view q k' = Some (m, t, b) \<and> t \<le> now \<and>
          toq_view (toq_remove k q) = (toq_view q)(k' := None) \<and>
          (\<forall>i m' t' b'. toq_view q i = Some (m', t', b') \<longrightarrow> t \<le> t')"
        using m(2,3) True toq_view_remove by blast
      then show ?thesis using m(1) toq_inv_remove [OF assms] by simp
    qed
  qed
qed

theorem timeout_one_earliest_witness:
  "case toq_timeout_one 50 a_timeout_queue of
      (Ok (Some m), q') \<Rightarrow> toq_inv q' \<and> (\<exists>k t b. toq_view a_timeout_queue k = Some (m, t, b) \<and> t \<le> 50 \<and>
        toq_view q' = (toq_view a_timeout_queue)(k := None) \<and>
        (\<forall>i m' t' b'. toq_view a_timeout_queue i = Some (m', t', b') \<longrightarrow> t \<le> t'))
    | (Ok None, q') \<Rightarrow> q' = a_timeout_queue \<and>
        (\<forall>i m t b. toq_view a_timeout_queue i = Some (m, t, b) \<longrightarrow> 50 < t)
    | _ \<Rightarrow> False"
  by (rule timeout_one_earliest) (rule a_timeout_queue_inv)

theorem request_ids_distinct:
  assumes "n \<le> 4294967295"
  shows "distinct (fst (toq_generateIds n q)) \<and> 0 \<notin> set (fst (toq_generateIds n q))"
proof -
  have nz: "unat (op_ids n (toq_uniqId q) ! k) \<noteq> 0" if "k < n" for k
    using that by (simp add: op_ids_nth)
  then have "0 \<notin> set (op_ids n (toq_uniqId q))"
    by (force simp: in_set_conv_nth)
  then show ?thesis
    using distinct_op_ids [OF assms, of "toq_uniqId q"] by (simp add: op_ids_generateIds)
qed

theorem request_ids_distinct_witness:
  "distinct (fst (toq_generateIds 5 (TimeoutQueue_init\<lparr>toq_uniqId := - 3\<rparr> :: nat timeout_queue))) \<and>
     0 \<notin> set (fst (toq_generateIds 5 (TimeoutQueue_init\<lparr>toq_uniqId := - 3\<rparr> :: nat timeout_queue)))"
  by (rule request_ids_distinct) simp

theorem late_response_dropped:
  assumes "toq_inv (op_tq s)" and "toq_view (op_tq s) i = None"
  shows "finishInvoke_rsp (response_to i body) s = (Ok (), s)"
  using assms by (rule finishInvoke_rsp_unknown)

theorem late_response_dropped_witness:
  "finishInvoke_rsp (response_to 77 [65]) a_proxy = (Ok (), a_proxy)"
  by (rule late_response_dropped) (simp_all add: a_proxy_fields toq_inv_init)

theorem arrivals_become_one_response:
  assumes "tr_inv s" and "tr_fd s \<in> set (net_open (tr_net s))"
    and "tr_arrivals s = map Arrived bss" and "[] \<notin> set bss" and "length (concat bss) < k"
    and "length (readable (tr_recvBuffer s)) + length (concat bss) + 8192 < kMaxBufferSize"
  shows "\<exists>s'. doResponse k s =
      (Ok (let d = readable (tr_recvBuffer s) @ concat bss in if d = [] then [] else [d]), s') \<and>
    tr_inv s' \<and> readable (tr_recvBuffer s') = [] \<and> tr_arrivals s' = []"
  using doResponse_spec [OF assms] by metis

theorem arrivals_become_one_response_witness:
  "\<exists>s'. doResponse 9 a_connection =
      (Ok (let d = readable (tr_recvBuffer a_connection) @ concat [[49, 58, 65], [50, 58, 66]]
           in if d = [] then [] else [d]), s') \<and>
    tr_inv s' \<and> readable (tr_recvBuffer s') = [] \<and> tr_arrivals s' = []"
  by (rule arrivals_become_one_response [OF a_connection_inv])
    (simp_all add: a_connection_fields kMaxBufferSize_def)

theorem queued_request_repeated:
  assumes "tr_inv (op_trans s)" and "tr_pending (op_trans s) = []"
    and "tr_fd (op_trans s) \<in> set (net_open (tr_net (op_trans s)))"
    and "toq_inv (op_tq s)" and "toq_unsent (op_tq s) = k # ks"
    and "toq_view (op_tq s) k = Some (msg, t, False)" and "op_heap s msg = Some m"
    and "1 < length (rm_sReqData m)" and "length (rm_sReqData m) < 2147483648"
    and "net_sends (tr_net (op_trans s)) = replicate n (Accepts (length (rm_sReqData m)))"
  shows "\<exists>s'. doInvoke (Suc n) s = (Ok (), s') \<and> op_tq s' = op_tq s \<and>
    tr_wire (op_trans s') = tr_wire (op_trans s) @ concat (replicate n (rm_sReqData m)) \<and>
    tr_pending (op_trans s') = rm_sReqData m"
  using assms by (rule doInvoke_repeats)

theorem queued_request_repeated_witness:
  "\<exists>s'. doInvoke (Suc 3) a_blocked_proxy = (Ok (), s') \<and> op_tq s' = op_tq a_blocked_proxy \<and>
    tr_wire (op_trans s') = tr_wire (op_trans a_blocked_proxy) @ concat (replicate 3 (rm_sReqData a_message)) \<and>
    tr_pending (op_trans s') = rm_sReqData a_message"
  by (rule queued_request_repeated [where k = 1 and ks = "[]" and msg = 0 and t = 100])
    (simp_all add: a_blocked_fields)

theorem earlier_connection_never_read:
  assumes "old \<in> set (net_open (tr_net (op_trans s)))" and "old < net_next (tr_net (op_trans s))"
    and "old \<noteq> - 1" and "tr_fd (op_trans s) \<noteq> old" and "op_run fuel es s = (r, s')"
  shows "old \<in> set (net_open (tr_net (op_trans s'))) \<and> tr_fd (op_trans s') \<noteq> old \<and>
    net_arrivals (tr_net (op_trans s')) old = net_arrivals (tr_net (op_trans s)) old"
  using keepsD [OF op_run_left, of old "net_arrivals (tr_net (op_trans s)) old" s] assms
  by (simp add: op_net_def on_net_def left_behind_def)

theorem earlier_connection_never_read_witness:
  "2 \<in> set (net_open (tr_net (op_trans (snd (op_run 9 [Call 0, Net_event True True] a_blocked_proxy))))) \<and>
   tr_fd (op_trans (snd (op_run 9 [Call 0, Net_event True True] a_blocked_proxy))) \<noteq> 2 \<and>
   net_arrivals (tr_net (op_trans (snd (op_run 9 [Call 0, Net_event True True] a_blocked_proxy)))) 2 =
   net_arrivals (tr_net (op_trans a_blocked_proxy)) 2"
  by (rule earlier_connection_never_read [OF _ _ _ _ surjective_pairing]) (simp_all add: a_blocked_fields)

theorem refused_call_never_ends:
  assumes "net_connects (tr_net (op_trans s)) = Refused # r" and "lq_inv q" and "lq_items q = msg # msgs"
    and "op_heap s msg = Some m" and "rm_eType m \<noteq> THREAD_EXIT"
  shows "\<exists>s' q'. handle_notify (Suc k) (s, Some q) = (Ok (), (s', Some q')) \<and> lq_items q' = msgs \<and>
    op_tq s' = op_tq s \<and> op_heap s' = op_heap s \<and> op_notified s' = op_notified s \<and>
    op_asyncThread s' = op_asyncThread s"
  using handle_notify_refused [OF assms] by metis

theorem refused_call_never_ends_witness:
  "\<exists>s' q'. handle_notify (Suc 5) (a_refused_proxy, Some (a_queue [0, 1])) = (Ok (), (s', Some q')) \<and>
    lq_items q' = [1] \<and> op_tq s' = op_tq a_refused_proxy \<and> op_heap s' = op_heap a_refused_proxy \<and>
    op_notified s' = op_notified a_refused_proxy \<and> op_asyncThread s' = op_asyncThread a_refused_proxy"
  by (rule refused_call_never_ends [where r = "[]" and msg = 0 and m = a_message, OF _ a_queue_inv])
    (simp_all add: a_queue_items a_refused_proxy_def a_proxy_def a_net_def Transceiver_init_def a_message_def
       ReqMessage_init_def)

theorem network_threads_in_turn:
  assumes "td_queueInit td" and "td_netThreadSeq td < 0" and "1 < num" and "td_netSeq td < num"
  shows "selects num n td = (Ok (map (\<lambda>k. (td_netSeq td + k) mod num) [0..<n]),
    td\<lparr>td_netSeq := (td_netSeq td + n) mod num\<rparr>)"
  using assms by (rule selects_turns)

theorem network_threads_in_turn_witness:
  "selects 3 5 ((ThreadData_init 0)\<lparr>td_queueInit := True, td_netSeq := 2\<rparr>) =
    (Ok (map (\<lambda>k. (td_netSeq ((ThreadData_init 0)\<lparr>td_queueInit := True, td_netSeq := 2\<rparr>) + k) mod 3) [0..<5]),
     (ThreadData_init 0)\<lparr>td_queueInit := True, td_netSeq := 2,
       td_netSeq := (td_netSeq ((ThreadData_init 0)\<lparr>td_queueInit := True, td_netSeq := 2\<rparr>) + 5) mod 3\<rparr>)"
  by (rule network_threads_in_turn) (simp_all add: ThreadData_init_def)

theorem round_in_list_order:
  assumes "sched_inv s L" and "prog_ok prog" and "\<not> cs_terminal s"
  shows "\<exists>s' L' new. tars_run prog s =
      (Ok (take 100 (woken s L CORO_ACTIVE) @ take 100 (woken s L CORO_AVAIL @ new)), s') \<and>
    sched_inv s' L' \<and>
    L' CORO_ACTIVE = drop 100 (woken s L CORO_ACTIVE) \<and>
    L' CORO_AVAIL = drop 100 (woken s L CORO_AVAIL @ new)"
  using tars_run_spec [OF assms] by blast

theorem round_in_list_order_witness:
  "\<exists>s' L' new. tars_run a_coro_prog a_started = (Ok (take 100 (1 # new)), s') \<and> sched_inv s' L' \<and>
     L' CORO_ACTIVE = [] \<and> L' CORO_AVAIL = drop 100 (1 # new)"
  using round_in_list_order [OF a_started_inv(1) a_coro_prog_ok a_started_inv(2)]
  by (simp add: a_started_woken)

theorem timers_fire_in_order:
  assumes "sched_inv s L" and "\<not> cs_terminal s" and "cs_clock s (cs_readings s) = now"
  shows "\<exists>s' L'. wakeupbytimeout s = (Ok (), s') \<and> sched_inv s' L' \<and>
    L' CORO_ACTIVE = L CORO_ACTIVE @
      filter (\<lambda>i. i \<in> set (L CORO_INACTIVE) \<union> set (L CORO_TIMEOUT)) (firsts (due_ids now s)) \<and>
    L' CORO_TIMEOUT = filter (\<lambda>i. i \<notin> set (due_ids now s)) (L CORO_TIMEOUT) \<and>
    L' CORO_INACTIVE = filter (\<lambda>i. i \<notin> set (due_ids now s)) (L CORO_INACTIVE) \<and>
    L' CORO_AVAIL = L CORO_AVAIL \<and> L' CORO_FREE = L CORO_FREE \<and>
    cs_timeoutCoroId s' = filter (\<lambda>it. now < fst it) (cs_timeoutCoroId s)"
  using assms by (rule wakeupbytimeout_exact)

theorem timers_fire_in_order_witness:
  "\<exists>s' L'. wakeupbytimeout a_sleeper = (Ok (), s') \<and> sched_inv s' L' \<and>
     L' CORO_ACTIVE = [1] \<and> cs_timeoutCoroId s' = []"
  using timers_fire_in_order [OF a_sleeper_inv(1,2) a_sleeper_inv(3)]
  by (simp add: a_sleeper_inv(4) a_sleeper_lists due_ids_def) blast

theorem create_from_pool:
  assumes "sched_inv s L"
  shows "if in_use L = unat (cs_poolSize s) then cs_createCoroutine callback s = (Ok 0, s)
    else \<exists>i s' L'. cs_createCoroutine callback s = (Ok i, s') \<and> sched_inv s' L' \<and>
      0 < i \<and> i \<le> cs_poolSize s \<and> (\<forall>st. st \<noteq> CORO_FREE \<longrightarrow> i \<notin> set (L st)) \<and>
      L' CORO_AVAIL = L CORO_AVAIL @ [i] \<and> in_use L' = in_use L + 1 \<and> coro_point s' i = Some callback \<and>
      (\<forall>st j. st \<noteq> CORO_FREE \<longrightarrow> j \<in> set (L st) \<longrightarrow> coro_point s' j = coro_point s j)"
  using assms by (rule createCoroutine_from_pool)

theorem create_from_pool_witness:
  "\<exists>i s' L'. cs_createCoroutine 5 a_started = (Ok i, s') \<and> sched_inv s' L' \<and> i \<le> 3 \<and>
     L' CORO_AVAIL = [1, i] \<and> coro_point s' i = Some 5"
  using create_from_pool [OF a_started_inv(1), of 5] a_started_inv(4)
  by (force simp: in_use_def a_started_avail)

theorem put_leaves_timer_behind:
  assumes "sched_inv s L" and "\<not> cs_terminal s" and "i \<in> set (L CORO_TIMEOUT)"
    and "i \<in> set (tq_queue (cs_activeCoroQueue s))" and "(t1, i) \<in> set (cs_timeoutCoroId s)" and "0 \<le> sint d"
    and "t1 \<le> cs_clock s (cs_readings s + 1)"
    and "cs_clock s (cs_readings s + 1) < cs_clock s (cs_readings s) + sint d"
  shows "\<exists>s1 s2 s3 L3. wakeup s = (Ok (), s1) \<and>
    cs_sleep d p (s1\<lparr>cs_currentCoro := slot (cs_all_coro s1) i\<rparr>) = (Ok (), s2) \<and>
    wakeupbytimeout s2 = (Ok (), s3) \<and> sched_inv s3 L3 \<and> i \<in> set (L3 CORO_ACTIVE) \<and>
    (cs_clock s (cs_readings s) + sint d, i) \<in> set (cs_timeoutCoroId s3)"
  using assms by (rule woken_sleeper_sleeps_again)

theorem put_leaves_timer_behind_witness:
  "\<exists>s1 s2 s3 L3. wakeup a_sleeper = (Ok (), s1) \<and>
     cs_sleep 15 0 (s1\<lparr>cs_currentCoro := slot (cs_all_coro s1) 1\<rparr>) = (Ok (), s2) \<and>
     wakeupbytimeout s2 = (Ok (), s3) \<and> sched_inv s3 L3 \<and> 1 \<in> set (L3 CORO_ACTIVE) \<and>
     (25, 1) \<in> set (cs_timeoutCoroId s3)"
  using put_leaves_timer_behind [OF a_sleeper_inv(1,2), of 1 10 15 0]
  by (simp add: a_sleeper_lists a_sleeper_inv(4-7) a_clock_def)

theorem failed_mmap_loses_id:
  assumes "sched_inv s L" and "L CORO_FREE = []" and "cs_currentSize s < cs_poolSize s"
    and "cs_poolSize s - cs_currentSize s \<le> 100" and "unat (cs_poolSize s) + 1 < 4294967296"
  shows "\<exists>s1. cs_createCoroutine callback (next_mmap_fails s) = (Ok 0, s1) \<and>
    fst (cs_createCoroutine callback' s1) = Abort"
  using assms by (rule lost_id_aborts)

theorem failed_mmap_loses_id_witness:
  "\<exists>s1. cs_createCoroutine 0 (next_mmap_fails a_starved) = (Ok 0, s1) \<and>
     fst (cs_createCoroutine 1 s1) = Abort"
  by (rule failed_mmap_loses_id [OF a_starved_inv]) (simp_all add: no_coros_def a_starved_sizes)

theorem stack_at_the_limit:
  assumes "minimum_stacksize \<le> sz" and "sz < 16777216" and "0 < mm_pagesize m" and "mm_pagesize m \<le> 65536"
    and "mm_rlim_max m = Some r" and "sz \<le> r" and "r < mapped_size sz m"
    and "mm_answers m (mm_calls m) = Some l" and "l < 2 ^ 47"
  shows "\<exists>ctx m'. allocate sz m = (Ok (Some ctx), m') \<and> mm_maps m' = (l, mapped_size sz m) # mm_maps m \<and>
    deallocate ctx m' = (Abort, m')"
  using assms by (rule allocate_at_limit)

theorem stack_at_the_limit_witness:
  "\<exists>ctx m'. allocate 65536 (a_memory\<lparr>mm_rlim_max := Some 65536\<rparr>) = (Ok (Some ctx), m') \<and>
     mm_maps m' = [(65536, 69632)] \<and> deallocate ctx m' = (Abort, m')"
proof -
  let ?m = "a_memory\<lparr>mm_rlim_max := Some 65536\<rparr>"
  have "mapped_size 65536 ?m = 69632" by (simp add: mapped_size_def page_count_def a_memory_def)
  then show ?thesis
    using stack_at_the_limit [of 65536 ?m 65536 65536] by (simp add: a_memory_def minimum_stacksize_def sizeof_fcontext_def)
qed

theorem waiting_slices_stream:
  assumes "\<forall>sl \<in> set (co_sendbuffer c). slice_ok sl" and "length (slices_bytes (co_sendbuffer c)) < 2147483648"
  shows "\<exists>r c' n'. conn_send i (c, n) = (Ok r, (c', n')) \<and> (\<forall>sl \<in> set (co_sendbuffer c'). slice_ok sl) \<and>
    (r = - 1 \<and> c' = c \<or>
     (r = - 2 \<and> co_sendbuffer c' = [] \<or> r = 0 \<and> length (slices_bytes (co_sendbuffer c')) < 8192 \<and>
        net_wire n' (co_fd c) @ slices_bytes (co_sendbuffer c') = net_wire n (co_fd c) @ slices_bytes (co_sendbuffer c)))"
  using assms by (rule conn_send_spec)

theorem waiting_slices_stream_witness:
  "\<exists>r c' n'. conn_send 1024 (a_client\<lparr>co_sendbuffer := [\<lparr>sl_data = [1, 2, 3], sl_dataLen = 3, sl_len = 3\<rparr>,
       \<lparr>sl_data = [4, 5, 0], sl_dataLen = 2, sl_len = 3\<rparr>]\<rparr>, a_server_net [Accepts 4] []) = (Ok r, (c', n')) \<and>
     (r = 0 \<longrightarrow> net_wire n' 9 @ slices_bytes (co_sendbuffer c') = [1, 2, 3, 4, 5])"
proof -
  let ?c = "a_client\<lparr>co_sendbuffer := [\<lparr>sl_data = [1, 2, 3], sl_dataLen = 3, sl_len = 3\<rparr>,
       \<lparr>sl_data = [4, 5, 0], sl_dataLen = 2, sl_len = 3\<rparr>]\<rparr>"
  have "\<forall>sl \<in> set (co_sendbuffer ?c). slice_ok sl" "length (slices_bytes (co_sendbuffer ?c)) < 2147483648"
    by (simp_all add: slice_ok_def slice_bytes_def)
  from waiting_slices_stream [OF this, of 1024 "a_server_net [Accepts 4] []"]
  show ?thesis by (fastforce simp: a_client_def a_server_net_def slice_bytes_def)
qed

theorem connection_numbers_run_out:
  assumes "server_reaches (\<lambda>g. ServantHandle_handle onDispatch m (servants g)) ServantHandle_heartbeat s0 k s"
    and "server_inv s0" and "all_served (served m servants) s0" and "backlog s0 + k < size_max"
    and "t < length (es_netThreads s0)"
  shows "(\<exists>ids. nt_free (thread_at t s0) = ids @ nt_free (thread_at t s)) \<and> length fresh_uids = 200000 \<and>
    (nt_free (thread_at t s) = [] \<and> map_of (nt_listeners (thread_at t' s)) lfd = Some ad \<and> t' < length (es_netThreads s0) \<and>
     es_accepts s lfd = Accepted cs ip port as # r \<and> 0 < cs \<and> cs \<notin> set (net_open (es_net s)) \<and> getNetThreadOfFd cs s = Some t \<longrightarrow>
     fst (nt_accept t' lfd s) = Fault)"
proof -
  have f: "fine k s0 s" by (rule servants.server_reaches_fine [OF assms(1-4)])
  have "thread_later (thread_at t s0) (thread_at t s)" by (rule laterD(2) [OF fineD(2) [OF f] assms(5)])
  moreover have "length (es_netThreads s) = length (es_netThreads s0)" by (rule laterD(1) [OF fineD(2) [OF f]])
  ultimately show ?thesis
    using accept_without_number [OF fineD(1) [OF f]] by (auto simp: thread_later_def fresh_uids_def)
qed

theorem connection_numbers_run_out_witness:
  "fst (nt_accept 0 3 (a_server [] [] [] (a_server_net [] []))) = Fault"
proof -
  let ?s = "a_server [] [] [] (a_server_net [] [])"
  have inv: "server_inv ?s" by (rule a_server_inv) (simp_all add: a_server_net_def)
  have small: "backlog ?s + 0 < size_max" by (simp add: a_server_backlog)
  have t: "0 < length (es_netThreads ?s)" by (simp add: a_server_def)
  have "nt_free (thread_at 0 ?s) = []" "map_of (nt_listeners (thread_at 0 ?s)) 3 = Some (Some 0)"
    "es_accepts ?s 3 = Accepted 11 [49] 81 [] # []" "11 \<notin> set (net_open (es_net ?s))" "getNetThreadOfFd 11 ?s = Some 0"
    by (simp_all add: a_server_def a_server_net_def thread_at_def getNetThreadOfFd_def)
  then show ?thesis
    using connection_numbers_run_out [OF server_reaches.here inv a_server_served small t] t
    by force
qed

theorem request_before_close_lost:
  assumes "net_arrivals n (co_fd c) = [Arrived b, Closed]" and "length b = 32768" and "co_fd c \<in> set (net_open n)"
  shows "fst (conn_recv (c, n)) = Ok (- 1, [])"
  using assms by (rule full_block_then_close)

theorem request_before_close_lost_witness:
  "fst (conn_recv (a_client, a_server_net [] [Arrived (replicate 32768 7), Closed])) = Ok (- 1, [])"
  by (rule request_before_close_lost [of _ _ "replicate 32768 7"]) (simp_all add: a_client_def a_server_net_def)

theorem heartbeats_ten_seconds:
  assumes "es_groups s g = Some hg" and "named_in s hg" and "distinct (map snd (hg_adapters hg))"
    and "distinct (map fst (hg_adapters hg))" and "now \<le> later_on" and "later_on \<le> now + 10"
  shows "\<exists>names s1 names' s2. ServantHandle_heartbeat now g s = (Ok names, s1) \<and>
    ServantHandle_heartbeat later_on g s1 = (Ok names', s2) \<and> set names \<inter> set names' = {}"
proof -
  obtain names s1 where 1: "ServantHandle_heartbeat now g s = (Ok names, s1)" "es_groups s1 g = Some hg" "named_in s1 hg"
    using heartbeat_spec [OF assms(1-3), of now] by blast
  obtain names' s2 where 2: "ServantHandle_heartbeat later_on g s1 = (Ok names', s2)"
    using heartbeat_spec [OF 1(2,3) assms(3), of later_on] by blast
  show ?thesis using heartbeat_again [OF assms(1-4) 1(1) assms(5,6) 2] 1(1) 2 by blast
qed

theorem heartbeats_ten_seconds_witness:
  "\<exists>s1 names' s2. ServantHandle_heartbeat 100 0 (a_server [] [] [] (a_server_net [] [])) = (Ok [[65]], s1) \<and>
     ServantHandle_heartbeat 110 0 s1 = (Ok names', s2) \<and> [65] \<notin> set names'"
proof -
  let ?s = "a_server [] [] [] (a_server_net [] [])"
  obtain hg where hg: "es_groups ?s 0 = Some hg" "hg_adapters hg = [([65], 0)]" "named_in ?s hg"
    using a_server_group by blast
  have dist: "distinct (map snd (hg_adapters hg))" "distinct (map fst (hg_adapters hg))" by (simp_all add: hg(2))
  obtain names s1 names' s2 where r: "ServantHandle_heartbeat 100 0 ?s = (Ok names, s1)"
    "ServantHandle_heartbeat 110 0 s1 = (Ok names', s2)" "set names \<inter> set names' = {}"
    using heartbeats_ten_seconds [OF hg(1,3) dist, of 100 110] by auto
  have "fst (ServantHandle_heartbeat 100 0 ?s) = Ok [[65]]"
    by (simp add: ServantHandle_heartbeat_def a_server_def BindAdapter_init_def HEART_BEAT_INTERVAL_def andthen_def ret_def)
  then show ?thesis using r by auto
qed

theorem all_done_too_early:
  "\<exists>p i j. pool_reaches (\<lambda>_. True) (TC_ThreadPool :: nat thread_pool) p \<and> pool_finish p \<and>
     i < length (tp_jobthread p) \<and> wk_at (tp_jobthread p ! i) = Got (Some j) \<and> j \<notin> set (tp_done p)"
  by (rule finish_between)

theorem stopped_pool_runs_nothing:
  assumes "pool_reaches A p0 p" and "doomed p0" and "\<not> A Init"
  shows "tp_done p = tp_done p0"
  using doomed_reaches [OF assms] by blast

theorem stopped_pool_runs_nothing_witness:
  "tp_done (exec (Some 5) (a_stopped_pool\<lparr>tp_control := StartAt 0\<rparr>)) = []"
proof -
  have "pool_reaches (\<lambda>c. c \<noteq> Init) a_stopped_pool (exec (Some 5) (a_stopped_pool\<lparr>tp_control := StartAt 0\<rparr>))"
    by (intro further [OF further [OF here call_start] call_exec]) (simp_all add: a_stopped_pool_def TC_ThreadPool_def)
  from stopped_pool_runs_nothing [OF this a_stopped_pool_doomed] show ?thesis
    by (simp add: a_stopped_pool_def TC_ThreadPool_def)
qed

theorem all_done_missed:
  assumes "unfinished p0" and "\<forall>ob \<in> set obs. \<exists>p. pool_reaches (\<lambda>c. c = Start) p0 p \<and> fst (snd ob) = pool_finish p"
  shows "fst (waitForAllDone (- 1) (pool_finish p0) iNow obs) = None"
  using waits_in_vain [OF assms] .

theorem all_done_missed_witness:
  "fst (waitForAllDone (- 1) (pool_finish (one_worker [] Looping True {} False Unlocked [] [])) 0
     [(False, False, 1000), (False, False, 2000)]) = None"
  by (rule all_done_missed [OF a_pool_is_unfinished])
    (auto simp: pool_finish_def one_worker_def intro!: exI [of _ "one_worker [] Looping True {} False Unlocked [] []"] here)

theorem list_text_roundtrip:
  assumes "ts \<noteq> []" and "\<not> is_digit c" and "c \<noteq> 45"
  shows "sepstr (\<lambda>s. the (strto1_int s)) (tostr_range (\<lambda>w. to_string (sint w)) ts [c]) [c] True = ts"
  by (rule sepstr_of_range) (use assms to_string_chars in \<open>auto simp: strto1_int_of_tostr\<close>)

theorem list_text_roundtrip_witness:
  "sepstr (\<lambda>s. the (strto1_int s)) (tostr_range (\<lambda>w. to_string (sint w)) [5, - 12, 0 :: 32 word] [124]) [124] True = [5, - 12, 0]"
  by (rule list_text_roundtrip) (simp_all add: is_digit_def)

theorem heartbeat_answer_unmatched:
  assumes "toq_inv (op_tq s)" and "toq_view (op_tq s) 0 = None"
  shows "\<exists>code rsp. ServerF_onDispatch ServerImp_keepAlive (request_text i (ServerFProxy_async_keepAlive si)) [] = Inr (code, rsp) \<and>
    finishInvoke_rsp rsp s = (Ok (), s)"
  using heartbeat_answers(2) answer_without_id [OF assms received_is_no_number(1)] by blast

theorem heartbeat_answer_unmatched_witness:
  "\<exists>code rsp. ServerF_onDispatch ServerImp_keepAlive (request_text 7 (ServerFProxy_async_keepAlive ServerInfo_init)) [] = Inr (code, rsp) \<and>
    finishInvoke_rsp rsp a_calling_proxy = (Ok (), a_calling_proxy)"
  by (rule heartbeat_answer_unmatched [OF a_calling_proxy_waits(1,3)])

theorem no_socket_no_calls:
  assumes "ce_run es (client_net_init k) = (r, s)" and "deaf s t" and "t \<notin> set (cn_batch s)" and "t < 2048"
    and "ce_run fs s = (r', s')"
  shows "taken_of t s' = taken_of t s"
  using deaf_run [OF _ assms(2,3,4,5)] run_from_start [OF assms(1)] by blast

section \<open>Properties\<close>



text \<open>C2. A request sent by the client arrives: what \<open>tarsRequest\<close> puts in the send buffer is one packet for \<open>parse\<close>, whatever follows it in the receive buffer, and \<open>readFrom\<close> on that packet yields the request, into whatever object it is read.\<close>

theorem request_end_to_end:
  assumes "req_ok p" and "4 + length (req_body p) \<le> 10000000" and "length r < 2 ^ 30" and "3 \<le> n"
  shows "\<exists>sent body s'. tarsRequest p = Ok sent \<and> parse (sent @ r) out = (1, r, body) \<and>
    req_readFrom n d (setBuffer_vector body s) = (Ok p, s')"
proof -
  have len: "2 * length (req_body p) < size_max" using assms(2) by simp
  have "stream_at (setBuffer_vector (req_body p) s) (req_body p)"
    by (rule stream_at_setBuffer_vector [OF len])
  from req.readFrom_at [OF assms(1) TrueI assms(4) this, of d] show ?thesis
    using tarsRequest_frame [OF assms(1) len] parse_frame_Ok [OF assms(2), of r out] assms(2,3)
    by simp
qed

theorem request_end_to_end_witness:
  "\<exists>sent body s'. tarsRequest a_request = Ok sent \<and> parse (sent @ [0]) [] = (1, [0], body) \<and>
    req_readFrom 3 RequestPacket_init (setBuffer_vector body BufferReader_init) = (Ok a_request, s')"
  by (rule request_end_to_end) (simp_all add: a_request_ok a_request_length)





text \<open>C5. The byte stream of one connection is the accepted requests in order: over any interleaving of \<open>sendRequest\<close> and writable events, and any answers of the kernel, what the socket took plus what waits in \<open>_sendBuffer\<close> grows by exactly the requests that were not answered \<open>eRetError\<close>. No byte is lost, doubled or interleaved.\<close>

theorem send_stream_in_order:
  assumes "tr_inv s" and "\<And>d. SendReq d \<in> set cs \<Longrightarrow> length d < 2147483648"
  shows "\<exists>ds s'. tr_run cs s = (Ok ds, s') \<and> tr_inv s' \<and>
    tr_wire s' @ tr_pending s' = tr_wire s @ tr_pending s @ concat ds"
  using tr_run_spec [OF assms] by blast

theorem send_stream_in_order_witness:
  "\<exists>ds s'. tr_run [SendReq [1, 2, 3], SendReq [9], Flush, SendReq [4]] a_connection = (Ok ds, s') \<and>
     tr_inv s' \<and> tr_wire s' @ tr_pending s' = tr_wire a_connection @ tr_pending a_connection @ concat ds"
  by (rule send_stream_in_order [OF a_connection_inv]) auto







text \<open>C9. A response finds its request by the decimal id in front of it. For any batch of responses to distinct blocking calls that are pending, in any order, every call ends with the text of its own response, its caller is notified once, its id is no longer pending, and all other calls and messages stay as they were.\<close>

theorem responses_matched_by_id:
  assumes "toq_inv (op_tq s)" and "distinct (map reply_id rs)" and "distinct (map reply_msg rs)"
    and "\<forall>r \<in> set rs. waits_for s (reply_id r) (reply_msg r)"
  shows "\<exists>s'. finish_all (map reply_text rs) s = (Ok (), s') \<and> toq_inv (op_tq s') \<and>
    op_notified s' = op_notified s @ map reply_msg rs \<and>
    (\<forall>r \<in> set rs. op_heap s' (reply_msg r) = map_option (finished (reply_text r)) (op_heap s (reply_msg r))) \<and>
    (\<forall>i. toq_view (op_tq s') i = (if i \<in> reply_id ` set rs then None else toq_view (op_tq s) i)) \<and>
    (\<forall>msg. msg \<notin> reply_msg ` set rs \<longrightarrow> op_heap s' msg = op_heap s msg)"
  using assms by (rule finish_all_spec)

theorem responses_matched_by_id_witness:
  "\<exists>s'. finish_all (map reply_text [(2, 1, [66]), (1, 0, [65])]) a_waiting_proxy = (Ok (), s') \<and>
    toq_inv (op_tq s') \<and>
    op_notified s' = op_notified a_waiting_proxy @ map reply_msg [(2, 1, [66]), (1, 0, [65])] \<and>
    (\<forall>r \<in> set [(2, 1, [66]), (1, 0, [65])]. op_heap s' (reply_msg r) =
       map_option (finished (reply_text r)) (op_heap a_waiting_proxy (reply_msg r))) \<and>
    (\<forall>i. toq_view (op_tq s') i = (if i \<in> reply_id ` set [(2, 1, [66]), (1, 0, [65])] then None
       else toq_view (op_tq a_waiting_proxy) i)) \<and>
    (\<forall>msg. msg \<notin> reply_msg ` set [(2, 1, [66]), (1, 0, [65])] \<longrightarrow>
       op_heap s' msg = op_heap a_waiting_proxy msg)"
  by (rule responses_matched_by_id [OF a_waiting_inv]) (use a_waiting_waits in auto)

text \<open>C10. A call and its answer across both sides: the request that \<open>ObjectProxy::invoke\<close> sends for \<open>testHello\<close> under an id is dispatched to \<open>HelloImp::testHello\<close>, whatever bytes the argument holds; the answer carries the id, and when it arrives \<open>finishInvoke\<close> takes exactly the call with that id off the timeout queue, stores the answer in its message and notifies its caller.\<close>

theorem hello_call_comes_back:
  assumes "toq_inv (op_tq s)" and "waits_for s i msg"
    and "op_heap s msg = Some m" and "rm_request m = rm_request (HelloProxy_testHello sReq)"
  shows "\<exists>rsp s'. Hello_onDispatch HelloImp_test HelloImp_testHello (request_text i m) [] = Inr (0, rsp) \<and>
    finishInvoke_rsp rsp s = (Ok (), s') \<and> op_heap s' = (op_heap s)(msg \<mapsto> finished rsp m) \<and>
    toq_view (op_tq s') = (toq_view (op_tq s))(i := None) \<and> op_notified s' = op_notified s @ [msg]"
proof -
  have "Hello_onDispatch HelloImp_test HelloImp_testHello (request_text i m) [] =
      Inr (0, response_to i (ascii ''testHello response''))"
    using hello_answers(1) [of i sReq] assms(4) by (simp add: request_text_def)
  then show ?thesis
    using finishInvoke_rsp_waits [OF assms(1,2), of "ascii ''testHello response''"] assms(3) by fastforce
qed

theorem hello_call_comes_back_witness:
  "\<exists>rsp s'. Hello_onDispatch HelloImp_test HelloImp_testHello (request_text 7 ((HelloProxy_testHello [1, 2])\<lparr>rm_hasMonitor := True\<rparr>)) [] =
      Inr (0, rsp) \<and> finishInvoke_rsp rsp a_calling_proxy = (Ok (), s') \<and>
    op_heap s' = (op_heap a_calling_proxy)(0 \<mapsto> finished rsp ((HelloProxy_testHello [1, 2])\<lparr>rm_hasMonitor := True\<rparr>)) \<and>
    toq_view (op_tq s') = (toq_view (op_tq a_calling_proxy))(7 := None) \<and> op_notified s' = op_notified a_calling_proxy @ [0]"
  by (rule hello_call_comes_back [OF a_calling_proxy_waits(1,2), of _ "[1, 2]"]) (simp_all add: a_calling_proxy_def)

text \<open>C11. Responses reach their connections in order: a notification makes the network thread take all commands to send and write, for every connection, the responses of its commands one behind the other, of each the part \<open>transmitted\<close> gives for the answers of the kernel; the queue is empty afterwards and every other table is as it was.\<close>

theorem responses_written_in_order:
  assumes "server_inv s" and "t < length (es_netThreads s)" and "\<forall>d \<in> set (commands t s). sd_cmd d = CHR ''s''"
  shows "\<exists>s'. processPipe t s = (Ok (), s') \<and> commands t s' = [] \<and>
    (\<forall>fd. net_wire (es_net s') fd = net_wire (es_net s) fd @
       sent_to fd (transmitted (set (net_open (es_net s))) (net_sends (es_net s)) (map (target s t) (commands t s)))) \<and>
    es_conns s' = es_conns s \<and> es_adapters s' = es_adapters s \<and> es_groups s' = es_groups s"
  using processPipe_work [OF assms] send_all_spec by metis

theorem responses_written_in_order_witness:
  "\<exists>s'. processPipe 0 (a_server [] [response (a_recv []) [1, 2], response (a_recv []) [3, 4]] [6]
      (a_server_net [Accepts 100, Accepts 100] [])) = (Ok (), s') \<and> net_wire (es_net s') 9 = [1, 2, 3, 4]"
proof -
  let ?cs = "[response (a_recv []) [1, 2], response (a_recv []) [3, 4]]"
  let ?n = "a_server_net [Accepts 100, Accepts 100] []"
  let ?s = "a_server [] ?cs [6] ?n"
  have inv: "server_inv ?s"
    by (rule a_server_inv) (simp_all add: a_server_net_def response_def a_recv_def request_of_def a_client_def)
  have t: "0 < length (es_netThreads ?s)" by (simp add: a_server_def)
  have cs: "\<forall>d \<in> set (commands 0 ?s). sd_cmd d = CHR ''s''" by (simp add: a_server_commands response_def)
  have target: "map (target ?s 0) ?cs = [(9, [1, 2]), (9, [3, 4])]"
    by (simp add: target_def response_def a_recv_def request_of_def a_client_def a_server_def thread_at_def)
  have net: "es_net ?s = ?n" by (simp add: a_server_def)
  from responses_written_in_order [OF inv t cs] show ?thesis
    unfolding a_server_commands target net by (auto simp: a_server_net_def)
qed





text \<open>C14. \<open>TC_Buffer\<close> implements a byte queue: whatever sequence of calls a client makes, as long as it never consumes more than there is and stays below the largest size, the calls succeed, return the bytes a list would, and leave the list's bytes readable and the cursors within the block.\<close>

theorem buffer_is_a_byte_queue:
  assumes "bq_run cs [] = Some (outs, rest)"
  shows "\<exists>b. tb_run cs TC_Buffer_init = (Ok outs, b) \<and> tb_inv b \<and> readable b = rest"
  using tb_run_refines [OF tb_inv_init(1)] assms by (simp add: tb_inv_init(2))

theorem buffer_is_a_byte_queue_witness:
  "\<exists>b. tb_run [TbPush [1, 2, 3], TbPop 2, TbPush [4], TbShrink, TbConsume 1] TC_Buffer_init
     = (Ok [1, 2], b) \<and> tb_inv b \<and> readable b = [4]"
  by (rule buffer_is_a_byte_queue) (simp add: kMaxBufferSize_def)

text \<open>C15. The rings of \<open>_prev\<close> and \<open>_next\<close> pointers implement five lists: \<open>CoroutineDel\<close>, \<open>setStatus\<close> and \<open>CoroutineAddTail\<close> together take a coroutine out of its list and append it to another; every ring stays closed in both directions and no field but the links and the one status changes anywhere.\<close>

theorem links_implement_lists:
  assumes "coro_rings h M" and "c \<in> set (M st)" and "st' \<noteq> st"
  shows "\<exists>h'. relink c st' h = (Ok (), h') \<and>
    coro_rings h' (M(st := remove1 c (M st), st' := M st' @ [c])) \<and>
    unlinked h' = (unlinked h)(c := map_option (\<lambda>i. i\<lparr>ci_eStatus := st'\<rparr>) (unlinked h c))"
  using assms by (rule coro_rings_relink)

theorem links_implement_lists_witness:
  "\<exists>h'. relink (slot (cs_all_coro a_started) 1) CORO_TIMEOUT (cs_heap a_started) = (Ok (), h') \<and>
     coro_rings h' ((\<lambda>st. map (slot (cs_all_coro a_started)) (a_started_lists st))
       (CORO_AVAIL := [], CORO_TIMEOUT := [slot (cs_all_coro a_started) 1]))"
  using links_implement_lists [OF coro_listsD(2) [OF sched_invD(1) [OF a_started_inv(1)]],
      of "slot (cs_all_coro a_started) 1" CORO_AVAIL CORO_TIMEOUT]
  by (auto simp: a_started_avail)





text \<open>C18. The thread queue is a queue to its callers: whatever the interleaving of the steps of the threads, the items handed out so far and then those in the queue are the items pushed, in the order in which the pushes ran, as long as fewer than 2^64 were pushed. \<open>assert(_size > 0)\<close> of \<open>pop_front\<close> never fails.\<close>

theorem concurrent_queue_in_order:
  assumes "queue_reaches in_order s" and "length (qs_put s) < size_max"
  shows "qs_put s = qs_got s @ tq_queue (qs_queue s) \<and> (\<forall>t. qs_at s t \<noteq> Leaving Asserted)"
  using queue_ordered [OF assms(1) _ assms(2)] by (simp_all add: ordered_queue_def)

theorem concurrent_queue_in_order_witness:
  "qs_put (two_threads (Sleeping (PopFront (WaitFor 1000))) (Leaving Finished) (a_monitor (Some 1) [0] 1) [7]) = [7 :: nat]"
  using concurrent_queue_in_order [OF a_push_leaves] by (simp add: two_threads_def)



text \<open>C20. The jobs of a thread pool, as a multiset: what was passed to \<open>exec\<close> is what waits in \<open>_jobqueue\<close>, what workers have taken, what was run to its end, and what was dropped, for any calls of \<open>init\<close>, \<open>start\<close>, \<open>stop\<close> and \<open>exec\<close> and any interleaving of the workers. No job runs twice, and none disappears but by the \<open>clear\<close> in \<open>exit\<close> or because its function object is empty.\<close>

theorem pool_jobs_conserved:
  assumes "pool_reaches A TC_ThreadPool p"
  shows "mset (tp_put p) =
    mset (tq_queue (tp_jobqueue p)) + held p + image_mset Some (mset (tp_done p)) + mset (tp_lost p)"
  using pool_conserved [OF assms] by (simp add: accounted_def)

theorem pool_jobs_conserved_witness:
  "held (one_worker [] (Got (Some 5)) True {} False Unlocked [Some 5] []) = {#Some (5 :: nat)#}"
  using pool_jobs_conserved [OF one_worker_pops [OF one_worker_started, of 5]] by (simp add: one_worker_def)



text \<open>C22. \<open>finish\<close>: when it is true, the jobs passed to \<open>exec\<close> are those that ran to their end, those that were dropped, and those that a worker holds between \<open>pop_front\<close> and \<open>_busthread.insert\<close>; no job waits in the queue and none is being run.\<close>

theorem all_done_reported:
  assumes "pool_reaches A TC_ThreadPool p" and "pool_finish p"
  shows "mset (tp_put p) = image_mset Some (mset (tp_done p)) + mset (tp_lost p) + just_taken p"
  using finish_spec [OF assms] .

theorem all_done_reported_witness:
  "just_taken (one_worker [] Looping True {} True Unlocked [Some 5] [5]) = {#} \<and>
   mset [Some (5 :: nat)] = image_mset Some (mset [5]) + mset [] + just_taken (one_worker [] Looping True {} True Unlocked [Some 5] [5])"
  using all_done_reported [OF one_worker_works [OF one_worker_pops [OF one_worker_started, of 5]]]
  by (simp add: one_worker_def pool_finish_def tq_empty_def ThreadQueue_init_def just_taken_def)

text \<open>C23. The lock-free use the framework makes of \<open>TC_LoopQueue\<close>, one producer and one consumer, is sound under every interleaving of their accesses: in every reachable state what was sent is what was got followed by what the ring holds, and a consumer past its emptiness test stands before a slot that has been written.\<close>

theorem two_threads_lose_nothing:
  assumes "spsc_reachable s"
  shows "sent s = got s @ lq_items (ring s) \<and>
    (consumer_at s = CChecked \<longrightarrow> (\<exists>x. lq_p (ring s) ! lq_end (ring s) = Some x))"
  using spsc_reachable_inv [OF assms] spsc_pop_ready [OF assms] by (simp add: spsc_inv_def)

theorem two_threads_lose_nothing_witness:
  "sent a_transfer = got a_transfer @ lq_items (ring a_transfer) \<and>
    (\<exists>x. lq_p (ring a_transfer) ! lq_end (ring a_transfer) = Some x)"
  using two_threads_lose_nothing [OF a_transfer_reachable] by (simp add: a_transfer_def)



text \<open>C25. Cutting a packet conserves the bytes: \<open>parseLen\<close> answers 0, -1 or 1; for 0 and -1 both buffers are untouched, for 1 the old buffer is the four header bytes, the packet and the new buffer, and the packet with its header is within the limit and as long as the header says.\<close>

theorem parse_conserves:
  "case parseLen m inb out of (r, inb', out') \<Rightarrow>
     (r = 0 \<or> r = - 1) \<and> inb' = inb \<and> out' = out
   \<or> r = 1 \<and> inb = take 4 inb @ out' @ inb' \<and> 4 + length out' \<le> nat (sint m) \<and>
     4 + length out' = nat (sint (htonl (load_le (take 4 inb)) :: tInt32))"
proof -
  obtain r inb' out' where p: "parseLen m inb out = (r, inb', out')"
    by (cases "parseLen m inb out")
  then show ?thesis by (cases rule: parse_cases) (auto simp: p)
qed

text \<open>C26. A tup packet survives the wire: \<open>decode\<close> of what \<open>encode\<close> produced gives the request fields with the attribute buffer in them, the protocol version and all the attributes, in whatever object and with whatever bytes after it; and encoding keeps the attributes.\<close>

theorem tup_roundtrip:
  assumes "up_ok p" and "wf_ua (up_attr p)" and "3 \<le> n"
  shows "\<exists>bs p' q'. up_encode p = (Ok bs, p') \<and> up_decode n (bs @ r) (length bs) q = Ok q' \<and>
    up_req q' = up_sent p \<and> ua_data (up_attr q') = ua_data (up_attr p) \<and>
    ua_iVer (up_attr q') = req_iVersion (up_req p) \<and> ua_data (up_attr p') = ua_data (up_attr p)"
proof -
  obtain p' where p': "up_encode p = (Ok (frame (req_body (up_sent p))), p')"
    "ua_data (up_attr p') = ua_data (up_attr p)"
    by (rule up_encode_spec [OF assms(1,2)])
  obtain ist where "up_decode n (frame (req_body (up_sent p)) @ r)
      (length (frame (req_body (up_sent p)))) q =
    Ok \<lparr>up_req = up_sent p, up_attr = (up_attr q)
          \<lparr>ua_iVer := req_iVersion (up_req p), ua_data := ua_data (up_attr p), ua_is := ist\<rparr>\<rparr>"
    by (rule up_decode_frame [OF assms(1,3)])
  with p' show ?thesis by auto
qed

theorem tup_roundtrip_witness:
  "\<exists>bs p' q'. up_encode a_packet = (Ok bs, p') \<and>
    up_decode 3 (bs @ []) (length bs) UniPacket_init = Ok q' \<and>
    up_req q' = up_sent a_packet \<and> ua_data (up_attr q') = ua_data (up_attr a_packet) \<and>
    ua_iVer (up_attr q') = req_iVersion (up_req a_packet) \<and>
    ua_data (up_attr p') = ua_data (up_attr a_packet)"
  by (rule tup_roundtrip) (simp_all add: a_packet_ok)

text \<open>C27. \<open>timeout()\<close> is exact: it ends, without touching freed nodes, and afterwards the pending messages are those whose deadline is still to come, each as it was, and the unsent ones among them are in the order they were.\<close>

theorem timeout_exact:
  assumes "toq_inv q"
  shows "\<exists>q'. toq_timeout now q = (Ok (), q') \<and> toq_inv q' \<and>
    (\<forall>k m t b. toq_view q' k = Some (m, t, b) \<longleftrightarrow> toq_view q k = Some (m, t, b) \<and> now < t) \<and>
    toq_unsent q' = filter (\<lambda>k. toq_view q' k \<noteq> None) (toq_unsent q)"
proof -
  obtain q' where q': "toq_timeout now q = (Ok (), q')" "toq_inv q'"
    "toq_view q' = (\<lambda>k. still_pending now (toq_view q k))"
    "toq_unsent q' = filter (\<lambda>k. toq_view q' k \<noteq> None) (toq_unsent q)"
    using toq_timeout_spec [OF assms] by blast
  moreover have "toq_view q' k = Some (m, t, b) \<longleftrightarrow> toq_view q k = Some (m, t, b) \<and> now < t" for k m t b
    by (cases "toq_view q k") (auto simp: q'(3) still_pending_def split: if_splits)
  ultimately show ?thesis by blast
qed

theorem timeout_exact_witness:
  "\<exists>q'. toq_timeout 50 a_timeout_queue = (Ok (), q') \<and> toq_inv q' \<and>
    (\<forall>k m t b. toq_view q' k = Some (m, t, b) \<longleftrightarrow> toq_view a_timeout_queue k = Some (m, t, b) \<and> 50 < t) \<and>
    toq_unsent q' = filter (\<lambda>k. toq_view q' k \<noteq> None) (toq_unsent a_timeout_queue)"
  by (rule timeout_exact) (rule a_timeout_queue_inv)


text \<open>C29. The communicator keeps one object proxy for an address in every network thread: over any sequence of \<open>getServantProxy\<close> on a new communicator each call yields a new servant proxy with three object proxies, and the object proxies of two calls are the same exactly when host and port are. The key \<open>host:port\<close> of the factories does not confuse addresses, even for hosts that contain colons.\<close>

theorem proxies_by_address:
  "\<exists>ps c'. get_servants as Communicator_init = (Ok (zip [0..<length as] ps), c') \<and> length ps = length as \<and>
    (\<forall>k < length as. length (ps ! k) = 3 \<and> (\<forall>l < length as. ps ! k = ps ! l \<longleftrightarrow> as ! k = as ! l))"
proof -
  let ?ps = "map (\<lambda>k. replicate 3 (place (known_after [] as) (as ! k))) [0..<length as]"
  have zip: "map (\<lambda>k. (k, f k)) [0..<n] = zip [0..<n] (map f [0..<n])" for f :: "nat \<Rightarrow> nat list" and n
    by (induction n) simp_all
  obtain c' where "get_servants as Communicator_init = (Ok (zip [0..<length as] ?ps), c')"
    using get_servants_spec [OF comm_inv_init, of as] by (auto simp: Communicator_init_def zip)
  then show ?thesis using same_proxies [of _ as _ "[]"] by (intro exI [of _ ?ps] exI [of _ c']) simp
qed

theorem proxies_by_address_witness:
  "\<exists>p. fst (get_servants [(ascii ''h:1'', 9), (ascii ''h'', 19)] Communicator_init) = Ok [(0, fst p), (1, snd p)] \<and> fst p \<noteq> snd p"
proof -
  obtain ps c' where ps: "get_servants [(ascii ''h:1'', 9), (ascii ''h'', 19)] Communicator_init = (Ok (zip [0..<2] ps), c')"
    "length ps = 2" "ps ! 0 = ps ! 1 \<longleftrightarrow> (ascii ''h:1'', 9 :: 16 word) = (ascii ''h'', 19)"
    using proxies_by_address [of "[(ascii ''h:1'', 9), (ascii ''h'', 19)]"] by (auto simp: numeral_2_eq_2)
  then obtain a b where "ps = [a, b]" by (auto simp: numeral_2_eq_2 length_Suc_conv)
  then show ?thesis using ps by (intro exI [of _ "(a, b)"]) (simp add: ascii_def upt_rec)
qed

text \<open>C30. \<open>sepstr\<close> agrees with a plain recursive definition: its loop over positions yields the fields of the text between the separator characters, in order, each converted, the empty ones only when \<open>withEmpty\<close> is set; in particular the loop ends on every input.\<close>

theorem sepstr_is_fields:
  "sepstr strto s sep e = map strto (if e then text_fields sep s else filter (\<lambda>f. f \<noteq> []) (text_fields sep s))"
  by (simp add: sepstr_spec)

text \<open>C31. The threads on one queue do not block each other: whenever one of them is in a call and not asleep, it, or the one that has the lock, can take the next step of its call.\<close>

theorem queue_never_stuck:
  assumes "queue_reaches ok s" and "qs_at s t \<noteq> Outside" and "\<not> asleep (qs_at s t)"
  shows "\<exists>s' u. queue_step ok s s' \<and> qs_at s u \<noteq> Outside \<and> qs_at s' u \<noteq> qs_at s u"
  using queue_goes_on [OF assms] .

theorem queue_never_stuck_witness:
  "\<exists>s' u. queue_step in_order (two_threads (Sleeping (PopFront (WaitFor 1000))) (Leaving Finished) (a_monitor (Some 1) [0] 1) [7]) s' \<and>
     two_at (Sleeping (PopFront (WaitFor 1000))) (Leaving Finished) u \<noteq> Outside \<and>
     qs_at s' u \<noteq> two_at (Sleeping (PopFront (WaitFor 1000))) (Leaving Finished) u"
  using queue_never_stuck [OF a_push_leaves, of 1] by (simp add: two_threads_def)






text \<open>C35. When \<open>Transceiver::connect\<close> has opened its connection, exactly the descriptor it returns is open
  besides those from before. When it throws, every error of \<open>NetworkUtil\<close> has closed the descriptor, with
  one exception: when the descriptor was made and the host was not found, it stays open, and nothing
  knows it any more (\<open>left_open\<close>). Last, such a case: no host \<open>-2\<close> (\<open>EAI_NONAME\<close>), and 3 is left.\<close>

theorem connect_descriptors:
  "kn_open (snd (open_connection inet_addr infos port k)) =
     kn_open k @ (case fst (open_connection inet_addr infos port k) of
         Ok (fd, _) \<Rightarrow> [fd]
       | _ \<Rightarrow> left_open inet_addr infos port k) \<and>
   left_open (- 1) [(- 2, None)] 80
     \<lparr>kn_answers = replicate 5 (0, 0), kn_open = [0, 1, 2], kn_made = [], kn_flags = (\<lambda>_. 2), kn_options = [],
       kn_bound = [], kn_peers = []\<rparr> = [3]"
proof
  show "kn_open (snd (open_connection inet_addr infos port k)) =
     kn_open k @ (case fst (open_connection inet_addr infos port k) of
         Ok (fd, _) \<Rightarrow> [fd]
       | _ \<Rightarrow> left_open inet_addr infos port k)"
    by (cases "open_connection inet_addr infos port k") (simp add: open_connection_spec)
qed code_simp

text \<open>C36. Forward compatibility: a reader finds the field it looks for behind any complete fields with smaller tags, whatever their types, and gets the value the writer wrote; here for vectors of strings.\<close>

theorem vector_over_older_fields:
  assumes "\<forall>x \<in> set v. length x \<le> TARS_MAX_STRING_LENGTH" and "length v < 2 ^ 31"
    and "older tag k bss" and "Suc k \<le> n" and "3 \<le> n"
  shows "appends (write_vector write_string v tag) (enc_vector enc_string v tag) \<and>
    reads (read_vector read_string [] n d tag q) (concat bss @ enc_vector enc_string v tag) v"
proof
  show "appends (write_vector write_string v tag) (enc_vector enc_string v tag)"
    by (rule str.vector_appends [OF assms(1)])
  show "reads (read_vector read_string [] n d tag q) (concat bss @ enc_vector enc_string v tag) v"
    by (rule tars_codec.rd_over [OF str.vector_codec, OF _ assms(3-5)]) (use assms(1,2) in simp)
qed

theorem vector_over_older_fields_witness:
  "appends (write_vector write_string [[1], []] 5) (enc_vector enc_string [[1], []] 5) \<and>
    reads (read_vector read_string [] 6 [] 5 True)
      (concat [enc_Int64 70000 3] @ enc_vector enc_string [[1], []] 5) [[1], []]"
proof (rule vector_over_older_fields)
  show "older 5 (Suc (3 + 1)) [enc_Int64 70000 3]"
    by (rule older_Cons [OF older_Nil _ enc_Int64_field]) simp
qed (simp_all add: TARS_MAX_STRING_LENGTH_def)



text \<open>C38. If the peer closes behind its last response, that response is lost: the read loop goes on until it sees the end of file, \<open>close()\<close> clears both buffers, and \<open>doResponse\<close> returns no response at all.\<close>

theorem data_before_close_lost:
  assumes "tr_inv s" and "tr_fd s \<in> set (net_open (tr_net s))" and "tr_fd s \<noteq> - 1"
    and "tr_arrivals s = map Arrived bss @ [Closed]" and "[] \<notin> set bss" and "length (concat bss) < k"
    and "length (readable (tr_recvBuffer s)) + length (concat bss) + 8192 < kMaxBufferSize"
  shows "\<exists>s'. doResponse k s = (Ok [], s') \<and> tr_fd s' = - 1 \<and>
    readable (tr_recvBuffer s') = [] \<and> tr_pending s' = []"
  using doResponse_closed [OF assms] by metis

theorem data_before_close_lost_witness:
  "\<exists>s'. doResponse 9 a_closing_connection = (Ok [], s') \<and> tr_fd s' = - 1 \<and>
    readable (tr_recvBuffer s') = [] \<and> tr_pending s' = []"
  by (rule data_before_close_lost [OF a_closing_inv, of "[[49, 58, 65]]"])
    (simp_all add: a_closing_fields kMaxBufferSize_def)

text \<open>C39. A denial of service: for the four bytes of \<open>backward_skip\<close>, a simple list with tag 0 and length -4, no fuel lets a read of tag 1 answer, because skipping the list moves the cursor back to its head.\<close>

theorem negative_length_never_ends:
  "fst (read_Char n d 1 q (setBuffer_vector backward_skip s)) = OutOfFuel"
proof (cases n)
  case 0
  then show ?thesis by (simp add: read_Char_def read_field_def andthen_def diverge_def)
next
  case (Suc m)
  obtain s' where "skipLoop m 1 (setBuffer_vector backward_skip s) = (OutOfFuel, s')"
    using skipLoop_backward by blast
  then show ?thesis
    by (simp add: Suc read_Char_def read_field_def TarsSkipToTag.simps(2) andthen_OutOfFuel
        catch_OutOfFuel)
qed

text \<open>C40. A full queue is not handled: \<open>invoke\<close> deletes the message and sets its pointer to null; a blocking call goes on to read through it, an asynchronous call returns as if it had been sent. The queue stays as it was.\<close>

theorem full_queue_crashes_caller:
  assumes "selectNetThreadInfo num (cl_td s) = (Ok i, td)" and "cl_heap s msg = Some m"
    and "i < length (td_reqQueue td)" and "td_reqQueue td ! i = Some q"
    and "lq_inv q" and "lq_size q = lq_sub q"
  shows "\<exists>s'. sp_invoke num now msg s = (if rm_eType m = SYNC_CALL then Fault else Ok False, s') \<and>
    td_reqQueue (cl_td s') = td_reqQueue td \<and> cl_heap s' = (cl_heap s)(msg := None)"
  using sp_invoke_full [OF assms] by metis

theorem full_queue_crashes_caller_witness:
  "\<exists>s'. sp_invoke 1 1000 0 a_caller = (if rm_eType a_message = SYNC_CALL then Fault else Ok False, s') \<and>
    td_reqQueue (cl_td s') = td_reqQueue (cl_td a_caller) \<and> cl_heap s' = (cl_heap a_caller)(0 := None)"
  by (rule full_queue_crashes_caller [where i = 0 and q = "a_queue [3, 4]", OF _ _ _ _ a_queue_inv])
    (simp_all add: a_caller_def selectNetThreadInfo_def td_init_queues_def andthen_def
       a_queue_full)

end
